(* ===== verification/Lpp_Prelude.thy ===== *)
theory Lpp_Prelude
  imports Main "HOL-Library.Word" "HOL-Library.Multiset"
begin

text \<open>
  Shared vocabulary of the development: the fixed-width integer types of the C runtime, the
  faults that end an L++ program, the error monad the fallible builtins return in, C strings,
  and the generic lemmas on words, lists and error results that the component theories use.
\<close>

unbundle bit_operations_syntax

section \<open>Machine types\<close>

text \<open>
  An \<open>int64_t\<close> and a \<open>uint64_t\<close> are the same 64 bits: both are \<^typ>\<open>64 word\<close>, and each operation
  says which reading it uses (\<open>sint\<close> for the signed one, the word order for the unsigned one).
  Counters and indices that the code keeps inside a proved range are \<open>int\<close> or \<open>nat\<close>.
\<close>

type_synonym u8 = "8 word"
type_synonym u16 = "16 word"
type_synonym u32 = "32 word"
type_synonym u64 = "64 word"
type_synonym i64 = "64 word"

definition INT64_MAX :: int where
  "INT64_MAX = 9223372036854775807"

definition INT64_MIN :: int where
  "INT64_MIN = - 9223372036854775808"

definition in_i64 :: "int \<Rightarrow> bool" where
  "in_i64 x \<longleftrightarrow> INT64_MIN \<le> x \<and> x \<le> INT64_MAX"

section \<open>Faults and the error monad\<close>

text \<open>
  \<open>lpp_panic\<close> prints its reason and ends the process with status 101; the freestanding runtime
  calls \<open>lpp_exit\<close> with the status. A \<open>Fault\<close> is an access the C standard leaves undefined
  (a null or foreign pointer, an index outside the block): no theorem may rely on what follows.
\<close>

datatype lpp_fault = Panic string | Exited int | Fault string

type_synonym 'a res = "lpp_fault + 'a"

fun bind_res :: "'a res \<Rightarrow> ('a \<Rightarrow> 'b res) \<Rightarrow> 'b res" where
  "bind_res (Inl e) f = Inl e"
| "bind_res (Inr x) f = f x"

fun is_ok :: "'a res \<Rightarrow> bool" where
  "is_ok (Inl e) = False"
| "is_ok (Inr x) = True"

lemma bind_res_Inr_iff [simp]: "bind_res m f = Inr y \<longleftrightarrow> (\<exists>x. m = Inr x \<and> f x = Inr y)"
  by (cases m) auto

lemma bind_res_assoc: "bind_res (bind_res m f) g = bind_res m (\<lambda>x. bind_res (f x) g)"
  by (cases m) auto

lemma is_ok_iff: "is_ok m \<longleftrightarrow> (\<exists>x. m = Inr x)"
  by (cases m) auto

section \<open>C strings\<close>

text \<open>
  A \<open>const char *\<close> argument is \<open>None\<close> for NULL and otherwise the bytes in front of the
  terminating NUL; HOL's \<open>char\<close> is exactly one byte.
\<close>

type_synonym cstr = "string option"

definition nul_free :: "string \<Rightarrow> bool" where
  "nul_free s \<longleftrightarrow> CHR 0x00 \<notin> set s"

lemma nul_free_simps [simp]:
  "nul_free []"
  "nul_free (c # s) \<longleftrightarrow> c \<noteq> CHR 0x00 \<and> nul_free s"
  "nul_free (s @ t) \<longleftrightarrow> nul_free s \<and> nul_free t"
  by (auto simp: nul_free_def)

text \<open>
  Every string builtin that returns an owned string allocates \<open>strlen + 1\<close> bytes through
  \<open>lpp_arc_alloc\<close> and falls back to the shared empty string when that fails. The parameter
  \<open>oom n\<close> says whether an allocation of \<open>n\<close> payload bytes fails.
\<close>

definition arc_str :: "(int \<Rightarrow> bool) \<Rightarrow> string \<Rightarrow> string" where
  "arc_str oom s = (if oom (int (length s) + 1) then [] else s)"

lemma arc_str_ok [simp]: "\<not> oom (int (length s) + 1) \<Longrightarrow> arc_str oom s = s"
  by (simp add: arc_str_def)

lemma nul_free_arc_str: "nul_free s \<Longrightarrow> nul_free (arc_str oom s)"
  by (simp add: arc_str_def)

definition is_space4 :: "char \<Rightarrow> bool" where
  "is_space4 c \<longleftrightarrow> c = CHR '' '' \<or> c = CHR 0x09 \<or> c = CHR 0x0A \<or> c = CHR 0x0D"

definition is_digit :: "char \<Rightarrow> bool" where
  "is_digit c \<longleftrightarrow> 48 \<le> (of_char c :: nat) \<and> (of_char c :: nat) \<le> 57"

definition digit_val :: "char \<Rightarrow> nat" where
  "digit_val c = of_char c - 48"

text \<open>What \<open>printf\<close> writes for an unsigned number in base \<open>b\<close> (10 for \<open>%llu\<close>, 16 for \<open>%llx\<close>).\<close>

definition digit_char :: "nat \<Rightarrow> char" where
  "digit_char d = (if d < 10 then char_of (48 + d) else char_of (87 + d))"

fun print_base :: "nat \<Rightarrow> nat \<Rightarrow> string" where
  "print_base b n =
     (if b < 2 \<or> n < b then [digit_char n] else print_base b (n div b) @ [digit_char (n mod b)])"

declare print_base.simps [simp del]

text \<open>\<open>%lld\<close>: a minus sign and the magnitude.\<close>

definition print_int :: "int \<Rightarrow> string" where
  "print_int x = (if x < 0 then CHR ''-'' # print_base 10 (nat (- x)) else print_base 10 (nat x))"

section \<open>Shared rule collections\<close>

named_theorems lpp_defs \<open>definitions that component proofs unfold together\<close>
named_theorems lpp_inv \<open>preservation of the component invariants\<close>

section \<open>Digits\<close>

lemma of_char_digit_char:
  "d < 10 \<Longrightarrow> (of_char (digit_char d) :: nat) = 48 + d"
  "10 \<le> d \<Longrightarrow> d < 16 \<Longrightarrow> (of_char (digit_char d) :: nat) = 87 + d"
  by (simp_all add: digit_char_def)

lemma is_digit_digit_char [simp]: "d < 10 \<Longrightarrow> is_digit (digit_char d)"
  by (simp add: is_digit_def of_char_digit_char)

lemma digit_val_digit_char [simp]: "d < 10 \<Longrightarrow> digit_val (digit_char d) = d"
  by (simp add: digit_val_def of_char_digit_char)

lemma print_base_nonempty: "print_base b n \<noteq> []"
  by (subst print_base.simps) simp

lemma print_base_10_digits: "c \<in> set (print_base 10 n) \<Longrightarrow> is_digit c"
proof (induction "10::nat" n rule: print_base.induct)
  case (1 n)
  then show ?case by (subst (asm) (2) print_base.simps) (auto split: if_splits)
qed

lemma length_print_base:
  "2 \<le> b \<Longrightarrow> n < b ^ Suc k \<Longrightarrow> length (print_base b n) \<le> Suc k"
proof (induction k arbitrary: n)
  case 0
  then show ?case by (subst print_base.simps) simp
next
  case (Suc k)
  then have "n div b < b ^ Suc k"
    by (simp add: less_mult_imp_div_less mult.commute)
  with Suc show ?case by (subst print_base.simps) simp
qed

section \<open>Words\<close>

lemma sint_range_64:
  fixes x :: i64
  shows "INT64_MIN \<le> sint x" "sint x \<le> INT64_MAX"
  using sint_range_size [of x] by (simp_all add: INT64_MIN_def INT64_MAX_def word_size)

lemma in_i64_sint [simp]: "in_i64 (sint (x :: i64))"
  using sint_range_64 [of x] by (simp add: in_i64_def)

lemma sint_word_of_int_64:
  "in_i64 x \<Longrightarrow> sint (word_of_int x :: i64) = x"
  by (simp add: in_i64_def INT64_MIN_def INT64_MAX_def sint_sbintrunc' signed_take_bit_int_eq_self)

lemma signed_take_bit_63_self:
  "in_i64 x \<Longrightarrow> signed_take_bit 63 x = x"
  by (rule signed_take_bit_int_eq_self) (simp_all add: in_i64_def INT64_MIN_def INT64_MAX_def)

lemma sint_add_64:
  fixes a b :: i64
  shows "in_i64 (sint a + sint b) \<Longrightarrow> sint (a + b) = sint a + sint b"
  by (simp add: sint_word_add signed_take_bit_63_self)

lemma sint_sub_64:
  fixes a b :: i64
  shows "in_i64 (sint a - sint b) \<Longrightarrow> sint (a - b) = sint a - sint b"
  by (simp add: sint_word_diff signed_take_bit_63_self)

lemma sint_mul_64:
  fixes a b :: i64
  shows "in_i64 (sint a * sint b) \<Longrightarrow> sint (a * b) = sint a * sint b"
  by (simp add: sint_word_mult signed_take_bit_63_self)

lemma sint_eq_uint_64:
  fixes x :: i64
  assumes "0 \<le> sint x"
  shows "sint x = uint x"
proof -
  have "uint x = take_bit 64 (sint x)" by (simp add: uint_sint)
  also have "\<dots> = sint x"
    using assms sint_range_64 [of x] by (simp add: take_bit_int_eq_self_iff INT64_MAX_def)
  finally show ?thesis by simp
qed

lemma unat_eq_sint_64: "0 \<le> sint (x :: i64) \<Longrightarrow> unat x = nat (sint x)"
  by (simp add: sint_eq_uint_64)

lemma le_div_iff_int: 
  fixes a b M :: int
  assumes "0 < b" shows "a \<le> M div b \<longleftrightarrow> a * b \<le> M"
proof
  assume "a \<le> M div b"
  then have "a * b \<le> (M div b) * b" using assms by (simp add: mult_right_mono)
  also have "\<dots> \<le> M" using assms by (simp add: minus_mod_eq_div_mult [symmetric])
  finally show "a * b \<le> M" .
next
  assume "a * b \<le> M"
  then have "(a * b) div b \<le> M div b" using assms by (rule zdiv_mono1)
  then show "a \<le> M div b" using assms by simp
qed

lemma and_top_eq_0_iff: "(v :: u64) AND 0x8000000000000000 = 0 \<longleftrightarrow> \<not> bit v 63"
proof -
  have "(0x8000000000000000 :: u64) = 2 ^ 63" by simp
  then show ?thesis by (simp only: and_exp_eq_0_iff_not_bit)
qed

lemma and_1_eq_0_iff: "(v :: u64) AND 1 = 0 \<longleftrightarrow> \<not> bit v 0"
  using and_exp_eq_0_iff_not_bit [of v 0] by (simp only: power_0)

lemma bit_shl1: "bit (push_bit 1 v) m \<longleftrightarrow> m < 64 \<and> 0 < m \<and> bit (v :: u64) (m - 1)"
  by (subst bit_push_bit_iff) auto

lemma length_takeWhile_first:
  assumes "i < length xs" "P (xs ! i)" "\<forall>j < i. \<not> P (xs ! j)"
  shows "length (takeWhile (\<lambda>x. \<not> P x) xs) = i"
proof -
  have "takeWhile (\<lambda>x. \<not> P x) xs = take i xs"
    using assms by (intro takeWhile_eq_take_P_nth) auto
  with assms(1) show ?thesis by simp
qed

lemma word_nonzero_top_bit:
  fixes v :: u64
  assumes "v \<noteq> 0"
  obtains n where "n < 64" "bit v n" "\<forall>m. n < m \<longrightarrow> \<not> bit v m"
proof -
  let ?S = "{m. bit v m}"
  have sub: "?S \<subseteq> {..<64}" using bit_imp_le_length [of v] by auto
  then have fin: "finite ?S" by (rule finite_subset) simp
  have "?S \<noteq> {}" using assms by (auto simp: bit_eq_iff)
  with fin have "bit v (Max ?S)" using Max_in [of ?S] by blast
  moreover have "\<forall>m. Max ?S < m \<longrightarrow> \<not> bit v m" using fin by (meson Max_ge leD mem_Collect_eq)
  moreover have "Max ?S < 64" using calculation(1) sub by blast
  ultimately show thesis using that by blast
qed

lemma word_nonzero_low_bit:
  fixes v :: u64
  assumes "v \<noteq> 0"
  obtains n where "n < 64" "bit v n" "\<forall>m. m < n \<longrightarrow> \<not> bit v m"
proof -
  have "\<exists>n. bit v n" using assms by (auto simp: bit_eq_iff)
  then obtain n where n: "bit v n" "\<forall>m. m < n \<longrightarrow> \<not> bit v m"
    using exists_least_iff [of "bit v"] by blast
  with bit_imp_le_length [of v n] show thesis by (intro that) auto
qed

lemma push4_or:
  fixes v :: u64
  assumes "d < 16"
  shows "push_bit 4 v OR of_nat d = v * 16 + of_nat d"
proof -
  have "(of_nat d :: u64) = take_bit 4 (of_nat d)"
    using assms by (simp add: take_bit_of_nat take_bit_nat_eq_self flip: of_nat_take_bit)
  then have "push_bit 4 v AND of_nat d = 0"
    by (auto simp: bit_eq_iff bit_simps)
  then have "push_bit 4 v OR of_nat d = push_bit 4 v + of_nat d"
    by (rule disjunctive_add_eq_or [symmetric])
  then show ?thesis by (simp add: push_bit_eq_mult)
qed

lemma upt_64: "[0..<64] = [0,1,2,3,4,5,6,7,8,9,10,11,12,13,14,15,16,17,18,19,20,21,22,23,24,25,26,27,28,29,30,31,32,33,34,35,36,37,38,39,40,41,42,43,44,45,46,47,48,49,50,51,52,53,54,55,56,57,58,59,60,61,62,63]"
  by code_simp

lemma all_less_64: "list_all P [0..<64] \<Longrightarrow> n < 64 \<Longrightarrow> P n"
  by (simp add: list_all_iff)

lemma rot_cancel:
  fixes a :: "'a::len word"
  assumes "0 < s" "s < LENGTH('a)"
  shows "drop_bit s (push_bit s a OR drop_bit (LENGTH('a) - s) a) OR
    push_bit (LENGTH('a) - s) (push_bit s a OR drop_bit (LENGTH('a) - s) a) = a" (is "?l = a")
proof (rule bit_word_eqI)
  fix n assume n: "n < LENGTH('a)"
  show "bit ?l n = bit a n"
  proof (cases "s + n < LENGTH('a)")
    case True
    with assms show ?thesis by (auto simp: bit_simps dest: bit_imp_le_length)
  next
    case False
    then have "LENGTH('a) - s + (n - (LENGTH('a) - s)) = n" "\<not> s \<le> n - (LENGTH('a) - s)"
      using assms n by auto
    with False assms n show ?thesis by (auto simp: bit_simps dest: bit_imp_le_length)
  qed
qed

lemma unat_and_mask_less: "unat ((b :: i64) AND 63) < 64" "unat (b AND 31) < 32"
proof -
  have "unat (b AND 63) \<le> unat (63 :: i64)" "unat (b AND 31) \<le> unat (31 :: i64)"
    by (simp_all only: word_and_le1 flip: word_le_nat_alt)
  then show "unat (b AND 63) < 64" "unat (b AND 31) < 32" by simp_all
qed

lemma ucast_u32_u64_u32 [simp]: "(ucast (ucast (x :: u32) :: u64) :: u32) = x"
  by (rule bit_word_eqI) (simp add: bit_simps)

lemma sint_of_nat_small: "n \<le> 8 \<Longrightarrow> sint (of_nat n :: i64) = int n"
  using sint_word_of_int_64 [of "int n"] by (simp add: in_i64_def INT64_MIN_def INT64_MAX_def)

lemma sint_add_overflow:
  fixes a b :: i64
  assumes "sint a + sint b > INT64_MAX"
  shows "sint (a + b) = sint a + sint b - 2 ^ 64"
proof -
  have "sint (a + b) = signed_take_bit 63 (sint a + sint b)" by (simp add: sint_word_add)
  also have "\<dots> = signed_take_bit 63 (sint a + sint b - 2 ^ 64)"
  proof -
    have "take_bit 64 (sint a + sint b - 2 ^ 64) = take_bit 64 (sint a + sint b)"
      by (simp add: take_bit_eq_mod)
    then show ?thesis
      by (simp add: signed_take_bit_eq_iff_take_bit_eq)
  qed
  also have "\<dots> = sint a + sint b - 2 ^ 64"
    using assms sint_range_64 [of a] sint_range_64 [of b]
    by (intro signed_take_bit_63_self) (simp add: in_i64_def INT64_MIN_def INT64_MAX_def)
  finally show ?thesis .
qed

lemma upt_8: "[0..<8] = [0, 1, 2, 3, 4, 5, 6, 7]"
  by code_simp

lemma bit_all_64_eqI:
  fixes x y :: u64
  assumes "list_all (\<lambda>n. bit x n = bit y n) [0..<64]"
  shows "x = y"
  using assms by (intro bit_word_eqI) (simp add: list_all_iff)

lemma xor_cancel_left: "(a :: 'a::len word) XOR x = a XOR y \<Longrightarrow> x = y"
  by (auto simp: bit_eq_iff bit_simps)

lemma xor_cancel_right: "(x :: 'a::len word) XOR a = y XOR a \<Longrightarrow> x = y"
  by (auto simp: bit_eq_iff bit_simps)

lemma ucast_u8_u32_inj: "(ucast (x::u8) :: u32) = ucast y \<Longrightarrow> x = y"
  by (auto simp: bit_eq_iff bit_simps)

lemma sint_of_nat_64: "int n \<le> INT64_MAX \<Longrightarrow> sint (of_nat n :: i64) = int n"
  using sint_word_of_int_64 [of "int n"] by (simp add: in_i64_def INT64_MIN_def)

lemma sint_add_in_range:
  assumes "0 \<le> sint (a :: i64)" "0 \<le> sint (b :: i64)" "sint a + sint b \<le> INT64_MAX"
  shows "sint (a + b) = sint a + sint b"
  using assms by (intro sint_add_64) (simp add: in_i64_def INT64_MIN_def)

lemma takeWhile_nul_free: "nul_free s \<Longrightarrow> takeWhile (\<lambda>c. c \<noteq> CHR 0x00) s = s"
  by (auto simp: nul_free_def takeWhile_eq_all_conv)

lemma ucast_u32_u64_inj: "(ucast (x::u32) :: u64) = ucast y \<Longrightarrow> x = y"
  by (metis ucast_u32_u64_u32)

lemma xor_ones: "(x :: u32) XOR 0xFFFFFFFF = NOT x"
proof -
  have m: "(0xFFFFFFFF :: u32) = mask 32" by (simp add: mask_eq_exp_minus_1)
  show ?thesis unfolding m by (rule bit_word_eqI) (simp add: bit_simps)
qed

lemma sint_inj_64: "sint (a :: i64) = sint b \<Longrightarrow> a = b"
  using uint_sint [of a] uint_sint [of b] by (simp add: word_uint_eqI)

end
