(* ===== verification/Lpp_Int.thy ===== *)
theory Lpp_Int
  imports Lpp_Prelude "HOL-Library.Signed_Division"
begin

text \<open>
  The unsigned and checked integer builtins of \<^verbatim>\<open>runtime/lpp_int.c\<close>. Where the C file selects
  between a compiler intrinsic and a portable fallback, both are modelled: the intrinsic by its
  documented value, the fallback by the code, with a lemma that they agree.
\<close>

section \<open>Shifts, division and comparison\<close>

definition lpp_shr_u :: "i64 \<Rightarrow> i64 \<Rightarrow> i64" where
  "lpp_shr_u a b = (if sint b < 0 \<or> 64 \<le> sint b then 0 else drop_bit (nat (sint b)) a)"

definition lpp_shl_u :: "i64 \<Rightarrow> i64 \<Rightarrow> i64" where
  "lpp_shl_u a b = (if sint b < 0 \<or> 64 \<le> sint b then 0 else push_bit (nat (sint b)) a)"

definition lpp_div_u :: "i64 \<Rightarrow> i64 \<Rightarrow> i64 res" where
  "lpp_div_u a b = (if b = 0 then Inl (Panic ''unsigned integer division by zero'') else Inr (a div b))"

definition lpp_rem_u :: "i64 \<Rightarrow> i64 \<Rightarrow> i64 res" where
  "lpp_rem_u a b = (if b = 0 then Inl (Panic ''unsigned integer modulo by zero'') else Inr (a mod b))"

definition lpp_lt_u :: "i64 \<Rightarrow> i64 \<Rightarrow> i64" where
  "lpp_lt_u a b = (if a < b then 1 else 0)"

definition lpp_le_u :: "i64 \<Rightarrow> i64 \<Rightarrow> i64" where
  "lpp_le_u a b = (if a \<le> b then 1 else 0)"

definition lpp_gt_u :: "i64 \<Rightarrow> i64 \<Rightarrow> i64" where
  "lpp_gt_u a b = (if a > b then 1 else 0)"

definition lpp_ge_u :: "i64 \<Rightarrow> i64 \<Rightarrow> i64" where
  "lpp_ge_u a b = (if a \<ge> b then 1 else 0)"

definition lpp_min_u :: "i64 \<Rightarrow> i64 \<Rightarrow> i64" where
  "lpp_min_u a b = (if a < b then a else b)"

definition lpp_max_u :: "i64 \<Rightarrow> i64 \<Rightarrow> i64" where
  "lpp_max_u a b = (if a > b then a else b)"

section \<open>Decimal and hexadecimal text\<close>

text \<open>\<open>snprintf\<close> into a 32-byte buffer keeps at most 31 characters.\<close>

definition lpp_u64_to_str :: "(int \<Rightarrow> bool) \<Rightarrow> i64 \<Rightarrow> string" where
  "lpp_u64_to_str oom a = arc_str oom (take 31 (print_base 10 (unat a)))"

definition lpp_u64_to_hex :: "(int \<Rightarrow> bool) \<Rightarrow> i64 \<Rightarrow> string" where
  "lpp_u64_to_hex oom a = arc_str oom (take 31 (print_base 16 (unat a)))"

fun parse_hex :: "u64 \<Rightarrow> string \<Rightarrow> u64" where
  "parse_hex val [] = val"
| "parse_hex val (c # s) =
     (if 48 \<le> (of_char c :: nat) \<and> (of_char c :: nat) \<le> 57
      then parse_hex (push_bit 4 val OR of_nat (of_char c - 48)) s
      else if 97 \<le> (of_char c :: nat) \<and> (of_char c :: nat) \<le> 102
      then parse_hex (push_bit 4 val OR of_nat (of_char c - 97 + 10)) s
      else if 65 \<le> (of_char c :: nat) \<and> (of_char c :: nat) \<le> 70
      then parse_hex (push_bit 4 val OR of_nat (of_char c - 65 + 10)) s
      else val)"

fun parse_dec :: "u64 \<Rightarrow> string \<Rightarrow> u64" where
  "parse_dec val [] = val"
| "parse_dec val (c # s) =
     (if is_digit c then parse_dec (val * 10 + of_nat (digit_val c)) s else val)"

definition lpp_str_to_u64 :: "cstr \<Rightarrow> i64" where
  "lpp_str_to_u64 s =
     (case s of None \<Rightarrow> 0
      | Some s0 \<Rightarrow>
          (case dropWhile is_space4 s0 of
             c0 # c1 # rest \<Rightarrow>
               if c0 = CHR ''0'' \<and> (c1 = CHR ''x'' \<or> c1 = CHR ''X'') then parse_hex 0 rest
               else parse_dec 0 (c0 # c1 # rest)
           | s1 \<Rightarrow> parse_dec 0 s1))"

section \<open>Rotation\<close>

definition lpp_rotl64 :: "i64 \<Rightarrow> i64 \<Rightarrow> i64" where
  "lpp_rotl64 a b =
     (let shift = unat (b AND 63)
      in if shift = 0 then a else push_bit shift a OR drop_bit (64 - shift) a)"

definition lpp_rotr64 :: "i64 \<Rightarrow> i64 \<Rightarrow> i64" where
  "lpp_rotr64 a b =
     (let shift = unat (b AND 63)
      in if shift = 0 then a else drop_bit shift a OR push_bit (64 - shift) a)"

definition lpp_rotl32 :: "i64 \<Rightarrow> i64 \<Rightarrow> i64" where
  "lpp_rotl32 a b =
     (let v = (ucast a :: u32); shift = unat (b AND 31)
      in if shift = 0 then ucast v else ucast (push_bit shift v OR drop_bit (32 - shift) v))"

definition lpp_rotr32 :: "i64 \<Rightarrow> i64 \<Rightarrow> i64" where
  "lpp_rotr32 a b =
     (let v = (ucast a :: u32); shift = unat (b AND 31)
      in if shift = 0 then ucast v else ucast (drop_bit shift v OR push_bit (32 - shift) v))"

section \<open>Bit counting\<close>

text \<open>
  \<open>__builtin_clzll\<close>, \<open>__builtin_ctzll\<close> and \<open>__builtin_popcountll\<close> count the zero bits above the
  highest set bit, the zero bits below the lowest set bit, and the set bits.
\<close>

definition builtin_clzll :: "u64 \<Rightarrow> nat" where
  "builtin_clzll v = length (takeWhile (\<lambda>i. \<not> bit v i) (rev [0..<64]))"

definition builtin_ctzll :: "u64 \<Rightarrow> nat" where
  "builtin_ctzll v = length (takeWhile (\<lambda>i. \<not> bit v i) [0..<64])"

definition builtin_popcountll :: "u64 \<Rightarrow> nat" where
  "builtin_popcountll v = length (filter (bit v) [0..<64])"

definition lpp_clz64 :: "i64 \<Rightarrow> i64" where
  "lpp_clz64 a = (if a = 0 then 64 else of_nat (builtin_clzll a))"

definition lpp_ctz64 :: "i64 \<Rightarrow> i64" where
  "lpp_ctz64 a = (if a = 0 then 64 else of_nat (builtin_ctzll a))"

definition lpp_popcount64 :: "i64 \<Rightarrow> i64" where
  "lpp_popcount64 a = of_nat (builtin_popcountll a)"

text \<open>The portable loops; a loop that never ends is \<open>None\<close>.\<close>

partial_function (option) clz_loop :: "u64 \<Rightarrow> nat \<Rightarrow> nat option" where
  "clz_loop v k =
     (if v AND 0x8000000000000000 = 0 then clz_loop (push_bit 1 v) (k + 1) else Some k)"

partial_function (option) ctz_loop :: "u64 \<Rightarrow> nat \<Rightarrow> nat option" where
  "ctz_loop v k =
     (if v AND 1 = 0 then ctz_loop (drop_bit 1 v) (k + 1) else Some k)"

definition lpp_clz64_portable :: "i64 \<Rightarrow> i64 option" where
  "lpp_clz64_portable a = (if a = 0 then Some 64 else map_option of_nat (clz_loop a 0))"

definition lpp_ctz64_portable :: "i64 \<Rightarrow> i64 option" where
  "lpp_ctz64_portable a = (if a = 0 then Some 64 else map_option of_nat (ctz_loop a 0))"

section \<open>Byte swaps and truncation\<close>

definition lpp_bswap16 :: "i64 \<Rightarrow> i64" where
  "lpp_bswap16 a = (let v = (ucast a :: u16) in ucast (drop_bit 8 v OR push_bit 8 v))"

definition lpp_bswap32 :: "i64 \<Rightarrow> i64" where
  "lpp_bswap32 a =
     (let v = (ucast a :: u32)
      in ucast ((drop_bit 24 v AND 0xFF) OR (drop_bit 8 v AND 0xFF00) OR
                (push_bit 8 v AND 0xFF0000) OR (push_bit 24 v AND 0xFF000000)))"

definition lpp_bswap64 :: "i64 \<Rightarrow> i64" where
  "lpp_bswap64 v =
     push_bit 56 (v AND 0x00000000000000FF) OR
     push_bit 40 (v AND 0x000000000000FF00) OR
     push_bit 24 (v AND 0x0000000000FF0000) OR
     push_bit 8 (v AND 0x00000000FF000000) OR
     drop_bit 8 (v AND 0x000000FF00000000) OR
     drop_bit 24 (v AND 0x0000FF0000000000) OR
     drop_bit 40 (v AND 0x00FF000000000000) OR
     drop_bit 56 (v AND 0xFF00000000000000)"

definition lpp_trunc_u8 :: "i64 \<Rightarrow> i64" where
  "lpp_trunc_u8 a = ucast (ucast a :: u8)"

definition lpp_trunc_u16 :: "i64 \<Rightarrow> i64" where
  "lpp_trunc_u16 a = ucast (ucast a :: u16)"

definition lpp_trunc_u32 :: "i64 \<Rightarrow> i64" where
  "lpp_trunc_u32 a = ucast (ucast a :: u32)"

definition lpp_trunc_i8 :: "i64 \<Rightarrow> i64" where
  "lpp_trunc_i8 a = scast (ucast a :: u8)"

definition lpp_trunc_i16 :: "i64 \<Rightarrow> i64" where
  "lpp_trunc_i16 a = scast (ucast a :: u16)"

definition lpp_trunc_i32 :: "i64 \<Rightarrow> i64" where
  "lpp_trunc_i32 a = scast (ucast a :: u32)"

section \<open>Checked and wrapping arithmetic\<close>

text \<open>
  \<open>__builtin_add_overflow\<close> and its kin report whether the mathematical result leaves the range
  of \<open>int64_t\<close>. The \<open>_portable\<close> definitions are the \<open>#else\<close> branches; \<open>sdiv\<close> is C's division.
\<close>

definition lpp_add_checked :: "i64 \<Rightarrow> i64 \<Rightarrow> i64 res" where
  "lpp_add_checked a b =
     (if \<not> in_i64 (sint a + sint b) then Inl (Panic ''integer addition overflow'') else Inr (a + b))"

definition lpp_sub_checked :: "i64 \<Rightarrow> i64 \<Rightarrow> i64 res" where
  "lpp_sub_checked a b =
     (if \<not> in_i64 (sint a - sint b) then Inl (Panic ''integer subtraction overflow'') else Inr (a - b))"

definition lpp_mul_checked :: "i64 \<Rightarrow> i64 \<Rightarrow> i64 res" where
  "lpp_mul_checked a b =
     (if \<not> in_i64 (sint a * sint b) then Inl (Panic ''integer multiplication overflow'') else Inr (a * b))"

definition lpp_add_checked_portable :: "i64 \<Rightarrow> i64 \<Rightarrow> i64 res" where
  "lpp_add_checked_portable a b =
     (if (sint b > 0 \<and> sint a > INT64_MAX - sint b) \<or> (sint b < 0 \<and> sint a < INT64_MIN - sint b)
      then Inl (Panic ''integer addition overflow'') else Inr (a + b))"

definition lpp_sub_checked_portable :: "i64 \<Rightarrow> i64 \<Rightarrow> i64 res" where
  "lpp_sub_checked_portable a b =
     (if (sint b < 0 \<and> sint a > INT64_MAX + sint b) \<or> (sint b > 0 \<and> sint a < INT64_MIN + sint b)
      then Inl (Panic ''integer subtraction overflow'') else Inr (a - b))"

definition mul_overflow_test :: "int \<Rightarrow> int \<Rightarrow> bool" where
  "mul_overflow_test a b =
     (if a > 0
      then (if b > 0 then a > INT64_MAX sdiv b else b < INT64_MIN sdiv a)
      else (if b > 0 then a < INT64_MIN sdiv b else a \<noteq> 0 \<and> b < INT64_MAX sdiv a))"

definition lpp_mul_checked_portable :: "i64 \<Rightarrow> i64 \<Rightarrow> i64 res" where
  "lpp_mul_checked_portable a b =
     (if mul_overflow_test (sint a) (sint b)
      then Inl (Panic ''integer multiplication overflow'') else Inr (a * b))"

definition lpp_add_wrap :: "i64 \<Rightarrow> i64 \<Rightarrow> i64" where
  "lpp_add_wrap a b = a + b"

definition lpp_sub_wrap :: "i64 \<Rightarrow> i64 \<Rightarrow> i64" where
  "lpp_sub_wrap a b = a - b"

definition lpp_mul_wrap :: "i64 \<Rightarrow> i64 \<Rightarrow> i64" where
  "lpp_mul_wrap a b = a * b"

section \<open>Correctness\<close>

lemma mul_overflow_test_correct: 
  assumes "in_i64 a" "in_i64 b" 
  shows "mul_overflow_test a b \<longleftrightarrow> \<not> in_i64 (a * b)"
proof -
  have pos: "0 < x \<Longrightarrow> INT64_MAX sdiv x = INT64_MAX div x" for x
    by (simp add: signed_divide_int_def INT64_MAX_def)
  have neg: "0 < x \<Longrightarrow> INT64_MIN sdiv x = - (9223372036854775808 div x)" for x
    by (simp add: signed_divide_int_def INT64_MIN_def)
  have nn: "x < 0 \<Longrightarrow> INT64_MAX sdiv x = - (INT64_MAX div (- x))" for x
    by (simp add: signed_divide_int_def INT64_MAX_def)
  consider "a > 0" "b > 0" | "a > 0" "b \<le> 0" | "a \<le> 0" "b > 0" | "a < 0" "b < 0" | "a * b = 0" 
    by fastforce
  then show ?thesis
  proof cases
    case 1
    then have "0 < a * b" by simp
    with 1 le_div_iff_int [of b a INT64_MAX] show ?thesis 
      by (simp add: mul_overflow_test_def pos in_i64_def INT64_MIN_def not_le [symmetric])
  next
    case 2
    then have "a * b \<le> 0" by (simp add: mult_nonneg_nonpos)
    moreover have "mul_overflow_test a b \<longleftrightarrow> b < - (9223372036854775808 div a)"
      using 2 by (simp add: mul_overflow_test_def neg)
    ultimately show ?thesis
      using 2 le_div_iff_int [of a "- b" "9223372036854775808"]
      by (auto simp: in_i64_def INT64_MIN_def INT64_MAX_def algebra_simps)
  next
    case 3
    then have "a * b \<le> 0" by (simp add: mult_nonpos_nonneg)
    moreover have "mul_overflow_test a b \<longleftrightarrow> a < - (9223372036854775808 div b)"
      using 3 by (simp add: mul_overflow_test_def neg)
    ultimately show ?thesis
      using 3 le_div_iff_int [of b "- a" "9223372036854775808"]
      by (auto simp: in_i64_def INT64_MIN_def INT64_MAX_def algebra_simps)
  next
    case 4
    then have "0 < a * b" by (simp add: mult_neg_neg)
    with 4 le_div_iff_int [of "- a" "- b" INT64_MAX] show ?thesis 
      by (auto simp: mul_overflow_test_def nn in_i64_def INT64_MIN_def algebra_simps)
  next
    case 5
    then show ?thesis 
      by (auto simp: mul_overflow_test_def in_i64_def INT64_MIN_def INT64_MAX_def signed_divide_int_def
          pos_imp_zdiv_neg_iff)
  qed
qed

lemma clz_loop_eq:
  "n < 64 \<Longrightarrow> bit v n \<Longrightarrow> \<forall>m. n < m \<longrightarrow> \<not> bit v m \<Longrightarrow> clz_loop v k = Some (k + (63 - n))"
proof (induction "63 - n" arbitrary: v n k)
  case 0
  then have "n = 63" by simp
  with 0 show ?case by (subst clz_loop.simps) (simp only: and_top_eq_0_iff, simp)
next
  case (Suc d)
  then have n: "Suc n < 64" and "\<not> bit v 63" by auto
  have "bit (push_bit 1 v) (Suc n)" using Suc.prems n by (simp only: bit_shl1) simp
  moreover have "\<forall>m. Suc n < m \<longrightarrow> \<not> bit (push_bit 1 v) m"
    using Suc.prems unfolding bit_shl1 by auto
  moreover have "d = 63 - Suc n" using Suc.hyps(2) by simp
  ultimately have "clz_loop (push_bit 1 v) (k + 1) = Some (k + 1 + (63 - Suc n))"
    using Suc.hyps(1) n by blast
  moreover have "k + 1 + (63 - Suc n) = k + (63 - n)" using n by simp
  ultimately show ?case
    using \<open>\<not> bit v 63\<close> by (subst clz_loop.simps) (simp only: and_top_eq_0_iff, simp)
qed

lemma ctz_loop_eq:
  "n < 64 \<Longrightarrow> bit v n \<Longrightarrow> \<forall>m. m < n \<longrightarrow> \<not> bit v m \<Longrightarrow> ctz_loop v k = Some (k + n)"
proof (induction n arbitrary: v k)
  case 0
  then show ?case by (subst ctz_loop.simps) (simp only: and_1_eq_0_iff, simp)
next
  case (Suc n)
  then have "\<not> bit v 0" by blast
  then have e: "v AND 1 = 0" by (simp only: and_1_eq_0_iff) simp
  have "bit (drop_bit 1 v) n" "\<forall>m. m < n \<longrightarrow> \<not> bit (drop_bit 1 v) m"
    using Suc.prems by (auto simp: bit_simps)
  then have "ctz_loop (drop_bit 1 v) (k + 1) = Some (k + 1 + n)"
    using Suc by simp
  then show ?case by (subst ctz_loop.simps) (simp only: e, simp)
qed

lemma lpp_clz64_portable_eq: "lpp_clz64_portable a = Some (lpp_clz64 a)"
proof (cases "a = 0")
  case True
  then show ?thesis by (simp add: lpp_clz64_portable_def lpp_clz64_def)
next
  case False
  then obtain n where n: "n < 64" "bit a n" "\<forall>m. n < m \<longrightarrow> \<not> bit a m" by (rule word_nonzero_top_bit)
  have "builtin_clzll a = 63 - n"
    unfolding builtin_clzll_def using n
    by (intro length_takeWhile_first) (auto simp: rev_nth)
  with n False show ?thesis by (simp add: lpp_clz64_portable_def lpp_clz64_def clz_loop_eq)
qed

lemma lpp_ctz64_portable_eq: "lpp_ctz64_portable a = Some (lpp_ctz64 a)"
proof (cases "a = 0")
  case True
  then show ?thesis by (simp add: lpp_ctz64_portable_def lpp_ctz64_def)
next
  case False
  then obtain n where n: "n < 64" "bit a n" "\<forall>m. m < n \<longrightarrow> \<not> bit a m" by (rule word_nonzero_low_bit)
  have "builtin_ctzll a = n"
    unfolding builtin_ctzll_def using n
    by (intro length_takeWhile_first) auto
  with n False show ?thesis by (simp add: lpp_ctz64_portable_def lpp_ctz64_def ctz_loop_eq)
qed

lemma parse_dec_append_digits:
  "\<forall>c \<in> set s. is_digit c \<Longrightarrow> parse_dec v (s @ t) = parse_dec (parse_dec v s) t"
  by (induction s arbitrary: v) auto

lemma parse_dec_print_base: "parse_dec 0 (print_base 10 n) = of_nat n"
proof (induction "10::nat" n rule: print_base.induct)
  case (1 n)
  show ?case
  proof (cases "n < 10")
    case True
    then show ?thesis by (subst print_base.simps) simp
  next
    case False
    have "parse_dec 0 (print_base 10 n) =
        parse_dec (parse_dec 0 (print_base 10 (n div 10))) [digit_char (n mod 10)]"
      using False print_base_10_digits
      by (subst print_base.simps) (simp add: parse_dec_append_digits)
    also have "\<dots> = of_nat (n div 10) * 10 + of_nat (n mod 10)"
      using False 1 by simp
    also have "\<dots> = (of_nat (n div 10 * 10 + n mod 10) :: u64)"
      by (simp only: of_nat_add of_nat_mult of_nat_numeral)
    finally show ?thesis by simp
  qed
qed

lemma parse_hex_digit:
  "d < 16 \<Longrightarrow> parse_hex v (digit_char d # s) = parse_hex (v * 16 + of_nat d) s"
proof (cases "d < 10")
  case True
  then show ?thesis using push4_or [of d v] by (simp add: of_char_digit_char)
next
  case False
  assume "d < 16"
  with False show ?thesis using push4_or [of d v] by (simp add: of_char_digit_char)
qed

declare parse_hex.simps(2) [simp del]

lemma parse_hex_digits:
  "\<forall>d \<in> set ds. d < 16 \<Longrightarrow> parse_hex v (map digit_char ds @ s) = parse_hex (parse_hex v (map digit_char ds)) s"
  by (induction ds arbitrary: v) (auto simp: parse_hex_digit)

lemma print_base_16_digits: "\<exists>ds. print_base 16 n = map digit_char ds \<and> (\<forall>d \<in> set ds. d < 16)"
proof (induction "16::nat" n rule: print_base.induct)
  case (1 n)
  show ?case
  proof (cases "n < 16")
    case True
    then show ?thesis by (intro exI [of _ "[n]"]) (simp add: print_base.simps)
  next
    case False
    with 1 obtain ds where "print_base 16 (n div 16) = map digit_char ds" "\<forall>d \<in> set ds. d < 16" by auto
    with False show ?thesis
      by (intro exI [of _ "ds @ [n mod 16]"]) (simp add: print_base.simps [of 16 n])
  qed
qed

lemma parse_hex_print_base: "parse_hex 0 (print_base 16 n) = of_nat n"
proof (induction "16::nat" n rule: print_base.induct)
  case (1 n)
  show ?case
  proof (cases "n < 16")
    case True
    then show ?thesis by (subst print_base.simps) (simp add: parse_hex_digit)
  next
    case False
    obtain ds where ds: "print_base 16 (n div 16) = map digit_char ds" "\<forall>d \<in> set ds. d < 16"
      using print_base_16_digits by blast
    have "parse_hex 0 (print_base 16 n) = parse_hex (parse_hex 0 (print_base 16 (n div 16))) [digit_char (n mod 16)]"
      using False ds by (subst print_base.simps) (simp add: parse_hex_digits)
    also have "\<dots> = of_nat (n div 16) * 16 + of_nat (n mod 16)"
      using False 1 by (simp add: parse_hex_digit)
    also have "\<dots> = (of_nat (n div 16 * 16 + n mod 16) :: u64)"
      by (simp only: of_nat_add of_nat_mult of_nat_numeral)
    finally show ?thesis by simp
  qed
qed

lemma print_base_u64_length:
  "length (print_base 10 (unat (a :: u64))) \<le> 20" "length (print_base 16 (unat a)) \<le> 16"
  using unsigned_less [of a, where 'a = nat] length_print_base [of 10 "unat a" 19] length_print_base [of 16 "unat a" 15]
  by simp_all

lemma not_space_digit: "is_digit c \<Longrightarrow> \<not> is_space4 c"
  by (auto simp: is_digit_def is_space4_def)

lemma lpp_str_to_u64_digits:
  assumes "s \<noteq> []" "\<forall>c \<in> set s. is_digit c"
  shows "lpp_str_to_u64 (Some s) = parse_dec 0 s"
proof (cases s)
  case Nil
  with assms show ?thesis by simp
next
  case (Cons c s')
  with assms have c: "\<not> is_space4 c" by (simp add: not_space_digit)
  have "\<not> is_digit CHR ''x''" "\<not> is_digit CHR ''X''" by (auto simp: is_digit_def)
  with c Cons assms show ?thesis by (cases s') (auto simp: lpp_str_to_u64_def)
qed

lemma lpp_u64_decimal_roundtrip:
  "\<not> oom (int (length (print_base 10 (unat a))) + 1) \<Longrightarrow> lpp_str_to_u64 (Some (lpp_u64_to_str oom a)) = a"
  using print_base_u64_length(1) [of a]
  by (simp add: lpp_u64_to_str_def lpp_str_to_u64_digits print_base_nonempty print_base_10_digits parse_dec_print_base)

lemma lpp_u64_hex_roundtrip:
  "\<not> oom (int (length (print_base 16 (unat a))) + 1) \<Longrightarrow>
    lpp_str_to_u64 (Some (''0x'' @ lpp_u64_to_hex oom a)) = a"
  using print_base_u64_length(2) [of a]
  by (simp add: lpp_u64_to_hex_def lpp_str_to_u64_def is_space4_def parse_hex_print_base)

lemma bswap64_bit: "n < 64 \<Longrightarrow> bit (lpp_bswap64 v) n = bit v (8 * (7 - n div 8) + n mod 8)"
proof (erule all_less_64 [rotated])
  show "list_all (\<lambda>n. bit (lpp_bswap64 v) n = bit v (8 * (7 - n div 8) + n mod 8)) [0..<64]"
    unfolding upt_64 by (simp add: lpp_bswap64_def bit_simps) (simp add: numeral_2_eq_2)
qed

lemma bswap64_index:
  fixes n :: nat
  assumes "n < 64"
  shows "8 * (7 - n div 8) + n mod 8 < 64"
    and "8 * (7 - (8 * (7 - n div 8) + n mod 8) div 8) + (8 * (7 - n div 8) + n mod 8) mod 8 = n"
  using assms mod_less_divisor [of 8 n] by (linarith, simp add: div_mult_self2)

lemma lpp_bswap64_involution: "lpp_bswap64 (lpp_bswap64 v) = v"
proof (rule bit_word_eqI)
  fix n assume "n < LENGTH(64)"
  then have "n < 64" by simp
  with bswap64_index [OF this] show "bit (lpp_bswap64 (lpp_bswap64 v)) n = bit v n"
    by (simp only: bswap64_bit)
qed

lemma lpp_bswap32_involution: "lpp_bswap32 (lpp_bswap32 a) = lpp_trunc_u32 a"
proof (rule bit_word_eqI)
  have "list_all (\<lambda>n. bit (lpp_bswap32 (lpp_bswap32 a)) n = bit (lpp_trunc_u32 a) n) [0..<64]"
    unfolding upt_64 by (simp add: lpp_bswap32_def lpp_trunc_u32_def Let_def bit_simps)
  then show "bit (lpp_bswap32 (lpp_bswap32 a)) n = bit (lpp_trunc_u32 a) n" if "n < LENGTH(64)" for n
    using all_less_64 [of "\<lambda>n. bit (lpp_bswap32 (lpp_bswap32 a)) n = bit (lpp_trunc_u32 a) n" n] that
    by simp
qed

lemma lpp_bswap16_involution: "lpp_bswap16 (lpp_bswap16 a) = lpp_trunc_u16 a"
  by (rule bit_word_eqI) (auto simp: lpp_bswap16_def lpp_trunc_u16_def Let_def bit_simps)

lemma lpp_rot64_cancel: "lpp_rotr64 (lpp_rotl64 a b) b = a"
  using rot_cancel [of "unat (b AND 63)" a] unat_and_mask_less(1) [of b]
  by (auto simp: lpp_rotr64_def lpp_rotl64_def Let_def)

lemma lpp_rot32_cancel: "lpp_rotr32 (lpp_rotl32 a b) b = lpp_trunc_u32 a"
  using rot_cancel [of "unat (b AND 31)" "ucast a :: u32"] unat_and_mask_less(2) [of b]
  by (auto simp: lpp_rotr32_def lpp_rotl32_def lpp_trunc_u32_def Let_def)

lemma lpp_add_sub_checked_portable_eq:
  "lpp_add_checked_portable a b = lpp_add_checked a b"
  "lpp_sub_checked_portable a b = lpp_sub_checked a b"
  using sint_range_64 [of a] sint_range_64 [of b]
  by (auto simp: lpp_add_checked_portable_def lpp_add_checked_def
      lpp_sub_checked_portable_def lpp_sub_checked_def in_i64_def)

lemma lpp_mul_checked_portable_eq:
  "lpp_mul_checked_portable a b = lpp_mul_checked a b"
  by (simp add: lpp_mul_checked_portable_def lpp_mul_checked_def mul_overflow_test_correct)

section \<open>Properties\<close>

text \<open>the portable overflow tests of \<open>lpp_add_checked\<close>, \<open>lpp_sub_checked\<close> and
  \<open>lpp_mul_checked\<close> accept and reject exactly the operand pairs the compiler intrinsics do, for
  every pair of 64-bit operands, so both builds panic on the same inputs and agree otherwise.\<close>

theorem lpp_checked_portable_agree:
  "lpp_add_checked_portable a b = lpp_add_checked a b \<and>
   lpp_sub_checked_portable a b = lpp_sub_checked a b \<and>
   lpp_mul_checked_portable a b = lpp_mul_checked a b"
  by (simp add: lpp_add_sub_checked_portable_eq lpp_mul_checked_portable_eq)

text \<open>the portable loops of \<open>lpp_clz64\<close> and \<open>lpp_ctz64\<close> end on every input and return what the
  compiler intrinsics return.\<close>

theorem lpp_bitcount_portable_agree:
  "lpp_clz64_portable a = Some (lpp_clz64 a) \<and> lpp_ctz64_portable a = Some (lpp_ctz64 a)"
  by (simp add: lpp_clz64_portable_eq lpp_ctz64_portable_eq)

text \<open>when the two result strings can be allocated, parsing what \<open>lpp_u64_to_str\<close> prints, or
  \<open>0x\<close> followed by what \<open>lpp_u64_to_hex\<close> prints, with \<open>lpp_str_to_u64\<close> gives back the 64-bit value.\<close>

theorem lpp_u64_text_roundtrip:
  assumes "\<forall>n \<le> 21. \<not> oom n"
  shows "lpp_str_to_u64 (Some (lpp_u64_to_str oom a)) = a \<and>
    lpp_str_to_u64 (Some (''0x'' @ lpp_u64_to_hex oom a)) = a"
proof
  show "lpp_str_to_u64 (Some (lpp_u64_to_str oom a)) = a"
    using assms print_base_u64_length [of a] by (intro lpp_u64_decimal_roundtrip) simp
  show "lpp_str_to_u64 (Some (''0x'' @ lpp_u64_to_hex oom a)) = a"
    using assms print_base_u64_length [of a] by (intro lpp_u64_hex_roundtrip) simp
qed

theorem lpp_u64_text_roundtrip_witness:
  "lpp_str_to_u64 (Some (lpp_u64_to_str (\<lambda>n. n > 1000) 0xFFFFFFFFFFFFFFFF)) = 0xFFFFFFFFFFFFFFFF"
  using lpp_u64_text_roundtrip [of "\<lambda>n. n > 1000" "0xFFFFFFFFFFFFFFFF"] by auto

text \<open>the byte swaps undo themselves on their own width (the upper bits of the \<open>int64_t\<close> come
  back as zero for the narrow ones), and a right rotation undoes the left rotation by the same
  amount, for any shift operand.\<close>

theorem lpp_bswap_rot_inverse:
  "lpp_bswap64 (lpp_bswap64 a) = a \<and>
   lpp_bswap32 (lpp_bswap32 a) = lpp_trunc_u32 a \<and>
   lpp_bswap16 (lpp_bswap16 a) = lpp_trunc_u16 a \<and>
   lpp_rotr64 (lpp_rotl64 a b) b = a \<and>
   lpp_rotr32 (lpp_rotl32 a b) b = lpp_trunc_u32 a"
  by (simp add: lpp_bswap64_involution lpp_bswap32_involution lpp_bswap16_involution
      lpp_rot64_cancel lpp_rot32_cancel)

end
