(* ===== verification/Lpp_Buf.thy ===== *)
theory Lpp_Buf
  imports Lpp_Int
begin

text \<open>
  The binary buffers of \<^verbatim>\<open>runtime/lpp_buf.c\<close>: blocks \<open>[int64_t size][bytes]\<close> handled through raw
  \<open>int64_t\<close> pointers. The heap of buffers maps a pointer to the size word and the bytes behind it;
  an access outside the bytes, or through a pointer that is not a live buffer, is a \<open>Fault\<close>.
  The guards are translated as written, \<open>offset + 4 > size\<close> in wrap-around arithmetic included.
\<close>

section \<open>Blocks\<close>

record lppbuf =
  bsize :: i64
  bdata :: "u8 list"

type_synonym bheap = "i64 \<rightharpoonup> lppbuf"

definition buf_ok :: "lppbuf \<Rightarrow> bool" where
  "buf_ok b \<longleftrightarrow> sint (bsize b) = int (length (bdata b))"

definition bheap_ok :: "bheap \<Rightarrow> bool" where
  "bheap_ok h \<longleftrightarrow> h 0 = None \<and> (\<forall>p b. h p = Some b \<longrightarrow> buf_ok b)"

text \<open>Reading and writing a run of bytes in ascending address order.\<close>

fun load_bytes :: "u8 list \<Rightarrow> int \<Rightarrow> nat \<Rightarrow> u8 list res" where
  "load_bytes m i 0 = Inr []"
| "load_bytes m i (Suc n) =
     (if 0 \<le> i \<and> i < int (length m)
      then bind_res (load_bytes m (i + 1) n) (\<lambda>bs. Inr (m ! nat i # bs))
      else Inl (Fault ''read outside the buffer''))"

fun store_bytes :: "u8 list \<Rightarrow> int \<Rightarrow> u8 list \<Rightarrow> u8 list res" where
  "store_bytes m i [] = Inr m"
| "store_bytes m i (b # bs) =
     (if 0 \<le> i \<and> i < int (length m)
      then store_bytes (m[nat i := b]) (i + 1) bs
      else Inl (Fault ''write outside the buffer''))"

definition with_buf :: "bheap \<Rightarrow> i64 \<Rightarrow> 'a \<Rightarrow> (lppbuf \<Rightarrow> 'a res) \<Rightarrow> 'a res" where
  "with_buf h p dflt f =
     (if p = 0 then Inr dflt
      else case h p of None \<Rightarrow> Inl (Fault ''not a live buffer'') | Some b \<Rightarrow> f b)"

section \<open>Allocation\<close>

text \<open>The parameter \<open>calloc n\<close> is the address libc returns for \<open>n\<close> zeroed bytes, 0 on failure.\<close>

definition lpp_buf_alloc :: "(u64 \<Rightarrow> i64) \<Rightarrow> bheap \<Rightarrow> i64 \<Rightarrow> i64 \<times> bheap" where
  "lpp_buf_alloc calloc h n =
     (if sint n < 0 then (0, h)
      else let p = calloc (8 + n)
           in if p = 0 then (0, h)
              else (p, h(p \<mapsto> \<lparr>bsize = n, bdata = replicate (nat (sint n)) 0\<rparr>)))"

definition lpp_buf_free :: "bheap \<Rightarrow> i64 \<Rightarrow> bheap res" where
  "lpp_buf_free h p =
     (if p = 0 then Inr h
      else case h p of None \<Rightarrow> Inl (Fault ''free of a block that is not live'')
                     | Some b \<Rightarrow> Inr (h(p := None)))"

definition lpp_buf_len :: "bheap \<Rightarrow> i64 \<Rightarrow> i64 res" where
  "lpp_buf_len h p = with_buf h p 0 (\<lambda>b. Inr (bsize b))"

section \<open>Typed accessors\<close>

text \<open>The two guards every accessor uses, and the write-back of the changed bytes.\<close>

definition out_of_range8 :: "lppbuf \<Rightarrow> i64 \<Rightarrow> bool" where
  "out_of_range8 b offset \<longleftrightarrow> sint offset < 0 \<or> sint offset \<ge> sint (bsize b)"

definition out_of_range :: "lppbuf \<Rightarrow> i64 \<Rightarrow> i64 \<Rightarrow> bool" where
  "out_of_range b offset n \<longleftrightarrow> sint offset < 0 \<or> sint (offset + n) > sint (bsize b)"

definition put_bytes :: "bheap \<Rightarrow> i64 \<Rightarrow> lppbuf \<Rightarrow> i64 \<Rightarrow> u8 list \<Rightarrow> bheap res" where
  "put_bytes h p b offset bs =
     bind_res (store_bytes (bdata b) (sint offset) bs) (\<lambda>m. Inr (h(p \<mapsto> b\<lparr>bdata := m\<rparr>)))"

definition lpp_buf_get8 :: "bheap \<Rightarrow> i64 \<Rightarrow> i64 \<Rightarrow> i64 res" where
  "lpp_buf_get8 h p offset = with_buf h p 0 (\<lambda>b.
     if out_of_range8 b offset then Inr 0
     else bind_res (load_bytes (bdata b) (sint offset) 1) (\<lambda>bs. Inr (ucast (bs ! 0))))"

definition lpp_buf_set8 :: "bheap \<Rightarrow> i64 \<Rightarrow> i64 \<Rightarrow> i64 \<Rightarrow> bheap res" where
  "lpp_buf_set8 h p offset val = with_buf h p h (\<lambda>b.
     if out_of_range8 b offset then Inr h
     else put_bytes h p b offset [ucast (val AND 0xFF)])"

definition lpp_buf_set16le :: "bheap \<Rightarrow> i64 \<Rightarrow> i64 \<Rightarrow> i64 \<Rightarrow> bheap res" where
  "lpp_buf_set16le h p offset val = with_buf h p h (\<lambda>b.
     if out_of_range b offset 2 then Inr h
     else let v = (ucast val :: u16) in put_bytes h p b offset [ucast v, ucast (drop_bit 8 v)])"

definition lpp_buf_get16le :: "bheap \<Rightarrow> i64 \<Rightarrow> i64 \<Rightarrow> i64 res" where
  "lpp_buf_get16le h p offset = with_buf h p 0 (\<lambda>b.
     if out_of_range b offset 2 then Inr 0
     else bind_res (load_bytes (bdata b) (sint offset) 2) (\<lambda>bs.
       Inr (ucast (bs ! 0) OR push_bit 8 (ucast (bs ! 1)))))"

definition lpp_buf_set16be :: "bheap \<Rightarrow> i64 \<Rightarrow> i64 \<Rightarrow> i64 \<Rightarrow> bheap res" where
  "lpp_buf_set16be h p offset val = with_buf h p h (\<lambda>b.
     if out_of_range b offset 2 then Inr h
     else let v = (ucast val :: u16) in put_bytes h p b offset [ucast (drop_bit 8 v), ucast v])"

definition lpp_buf_get16be :: "bheap \<Rightarrow> i64 \<Rightarrow> i64 \<Rightarrow> i64 res" where
  "lpp_buf_get16be h p offset = with_buf h p 0 (\<lambda>b.
     if out_of_range b offset 2 then Inr 0
     else bind_res (load_bytes (bdata b) (sint offset) 2) (\<lambda>bs.
       Inr (push_bit 8 (ucast (bs ! 0)) OR ucast (bs ! 1))))"

definition lpp_buf_set32le :: "bheap \<Rightarrow> i64 \<Rightarrow> i64 \<Rightarrow> i64 \<Rightarrow> bheap res" where
  "lpp_buf_set32le h p offset val = with_buf h p h (\<lambda>b.
     if out_of_range b offset 4 then Inr h
     else let v = (ucast val :: u32)
          in put_bytes h p b offset
               [ucast v, ucast (drop_bit 8 v), ucast (drop_bit 16 v), ucast (drop_bit 24 v)])"

definition lpp_buf_get32le :: "bheap \<Rightarrow> i64 \<Rightarrow> i64 \<Rightarrow> i64 res" where
  "lpp_buf_get32le h p offset = with_buf h p 0 (\<lambda>b.
     if out_of_range b offset 4 then Inr 0
     else bind_res (load_bytes (bdata b) (sint offset) 4) (\<lambda>bs.
       Inr (ucast (ucast (bs ! 0) OR push_bit 8 (ucast (bs ! 1)) OR
                   push_bit 16 (ucast (bs ! 2)) OR push_bit 24 (ucast (bs ! 3)) :: u32))))"

definition lpp_buf_set32be :: "bheap \<Rightarrow> i64 \<Rightarrow> i64 \<Rightarrow> i64 \<Rightarrow> bheap res" where
  "lpp_buf_set32be h p offset val = with_buf h p h (\<lambda>b.
     if out_of_range b offset 4 then Inr h
     else let v = (ucast val :: u32)
          in put_bytes h p b offset
               [ucast (drop_bit 24 v), ucast (drop_bit 16 v), ucast (drop_bit 8 v), ucast v])"

definition lpp_buf_get32be :: "bheap \<Rightarrow> i64 \<Rightarrow> i64 \<Rightarrow> i64 res" where
  "lpp_buf_get32be h p offset = with_buf h p 0 (\<lambda>b.
     if out_of_range b offset 4 then Inr 0
     else bind_res (load_bytes (bdata b) (sint offset) 4) (\<lambda>bs.
       Inr (ucast (push_bit 24 (ucast (bs ! 0)) OR push_bit 16 (ucast (bs ! 1)) OR
                   push_bit 8 (ucast (bs ! 2)) OR ucast (bs ! 3) :: u32))))"

text \<open>The 64-bit accessors are loops over the byte index \<open>i\<close>; the big-endian store visits
  the same eight addresses from the last to the first.\<close>

definition lpp_buf_set64le :: "bheap \<Rightarrow> i64 \<Rightarrow> i64 \<Rightarrow> i64 \<Rightarrow> bheap res" where
  "lpp_buf_set64le h p offset val = with_buf h p h (\<lambda>b.
     if out_of_range b offset 8 then Inr h
     else put_bytes h p b offset (map (\<lambda>i. ucast (drop_bit (i * 8) val AND 0xFF)) [0..<8]))"

definition lpp_buf_get64le :: "bheap \<Rightarrow> i64 \<Rightarrow> i64 \<Rightarrow> i64 res" where
  "lpp_buf_get64le h p offset = with_buf h p 0 (\<lambda>b.
     if out_of_range b offset 8 then Inr 0
     else bind_res (load_bytes (bdata b) (sint offset) 8) (\<lambda>bs.
       Inr (fold (\<lambda>i r. r OR push_bit (i * 8) (ucast (bs ! i))) [0..<8] 0)))"

definition lpp_buf_set64be :: "bheap \<Rightarrow> i64 \<Rightarrow> i64 \<Rightarrow> i64 \<Rightarrow> bheap res" where
  "lpp_buf_set64be h p offset val = with_buf h p h (\<lambda>b.
     if out_of_range b offset 8 then Inr h
     else put_bytes h p b offset (rev (map (\<lambda>i. ucast (drop_bit (i * 8) val AND 0xFF)) [0..<8])))"

definition lpp_buf_get64be :: "bheap \<Rightarrow> i64 \<Rightarrow> i64 \<Rightarrow> i64 res" where
  "lpp_buf_get64be h p offset = with_buf h p 0 (\<lambda>b.
     if out_of_range b offset 8 then Inr 0
     else bind_res (load_bytes (bdata b) (sint offset) 8) (\<lambda>bs.
       Inr (fold (\<lambda>i r. r OR push_bit (i * 8) (ucast (bs ! (7 - i)))) [0..<8] 0)))"

section \<open>Copies and strings\<close>

text \<open>
  \<open>memcpy\<close> of \<open>n\<close> bytes: undefined when a range leaves its block or when the two ranges overlap in
  one block. \<open>(size_t)len\<close> is the unsigned reading of \<open>len\<close>.
\<close>

definition lpp_buf_copy :: "bheap \<Rightarrow> i64 \<Rightarrow> i64 \<Rightarrow> i64 \<Rightarrow> i64 \<Rightarrow> i64 \<Rightarrow> bheap res" where
  "lpp_buf_copy h dst dst_off src src_off len =
     (if dst = 0 \<or> src = 0 then Inr h
      else with_buf h dst h (\<lambda>d. with_buf h src h (\<lambda>s.
        if out_of_range d dst_off len then Inr h
        else if out_of_range s src_off len then Inr h
        else if dst = src \<and> len \<noteq> 0 \<and> \<bar>sint dst_off - sint src_off\<bar> < uint len
        then Inl (Fault ''memcpy between overlapping ranges'')
        else bind_res (load_bytes (bdata s) (sint src_off) (unat len))
               (\<lambda>bs. put_bytes h dst d dst_off bs))))"

definition lpp_str_len :: "cstr \<Rightarrow> i64" where
  "lpp_str_len s = (case s of None \<Rightarrow> 0 | Some s \<Rightarrow> of_nat (length s))"

definition byte_char :: "u8 \<Rightarrow> char" where
  "byte_char b = char_of (unat b)"

definition char_byte :: "char \<Rightarrow> u8" where
  "char_byte c = of_nat (of_char c)"

text \<open>
  The bytes are copied behind an ARC header and terminated; seen as a C string the result ends at
  its first NUL byte.
\<close>

definition lpp_buf_to_str :: "(int \<Rightarrow> bool) \<Rightarrow> bheap \<Rightarrow> i64 \<Rightarrow> i64 \<Rightarrow> i64 \<Rightarrow> string res" where
  "lpp_buf_to_str oom h p off len = with_buf h p [] (\<lambda>b.
     if sint off < 0 \<or> sint len < 0 \<or> sint (off + len) > sint (bsize b) then Inr []
     else if oom (sint len + 1) then Inr []
     else bind_res (load_bytes (bdata b) (sint off) (unat len))
            (\<lambda>bs. Inr (takeWhile (\<lambda>c. c \<noteq> CHR 0x00) (map byte_char bs))))"

definition lpp_buf_read_str :: "(int \<Rightarrow> bool) \<Rightarrow> bheap \<Rightarrow> i64 \<Rightarrow> i64 \<Rightarrow> i64 \<Rightarrow> string res" where
  "lpp_buf_read_str oom h p offset len = lpp_buf_to_str oom h p offset len"

definition lpp_buf_write_str :: "bheap \<Rightarrow> i64 \<Rightarrow> i64 \<Rightarrow> cstr \<Rightarrow> (i64 \<times> bheap) res" where
  "lpp_buf_write_str h p offset str =
     (if p = 0 \<or> str = None then Inr (- 1, h)
      else with_buf h p (- 1, h) (\<lambda>b.
        let s = the str; len = (of_nat (length s) :: i64)
        in if sint offset < 0 \<or> sint (offset + len) > sint (bsize b) then Inr (- 1, h)
           else bind_res (put_bytes h p b offset (map char_byte s)) (\<lambda>h1.
             if sint (offset + len) > sint (bsize b)
             then Inr (len, h1(p \<mapsto> (the (h1 p))\<lparr>bsize := offset + len\<rparr>))
             else Inr (len, h1))))"

section \<open>CRC-32\<close>

text \<open>
  The host runtime fills a 256-entry table and then looks one byte up per step; the freestanding
  runtime of \<^verbatim>\<open>runtime/linux_x86_64_min.c\<close> shifts eight times per byte with a negated mask.
\<close>

definition crc_poly :: u32 where
  "crc_poly = 0xEDB88320"

definition crc_shift :: "u32 \<Rightarrow> u32" where
  "crc_shift crc = drop_bit 1 crc XOR (if crc AND 1 \<noteq> 0 then crc_poly else 0)"

definition crc32_table :: "u32 list" where
  "crc32_table = map (\<lambda>i. (crc_shift ^^ 8) (of_nat i)) [0..<256]"

fun crc32_loop :: "u32 \<Rightarrow> u8 list \<Rightarrow> u32" where
  "crc32_loop crc [] = crc"
| "crc32_loop crc (d # ds) =
     crc32_loop (crc32_table ! unat ((crc XOR ucast d) AND 0xFF) XOR drop_bit 8 crc) ds"

definition lpp_buf_crc32 :: "bheap \<Rightarrow> i64 \<Rightarrow> i64 \<Rightarrow> i64 \<Rightarrow> i64 res" where
  "lpp_buf_crc32 h p off len = with_buf h p 0 (\<lambda>b.
     if sint off < 0 \<or> sint len < 0 \<or> sint (off + len) > sint (bsize b) then Inr 0
     else bind_res (load_bytes (bdata b) (sint off) (unat len))
            (\<lambda>ds. Inr (ucast (crc32_loop 0xFFFFFFFF ds XOR 0xFFFFFFFF))))"

definition crc_shift_fs :: "u32 \<Rightarrow> u32" where
  "crc_shift_fs crc =
     (let mask = NOT (crc AND 1) + 1 in drop_bit 1 crc XOR (0xEDB88320 AND mask))"

fun crc32_loop_fs :: "u32 \<Rightarrow> u8 list \<Rightarrow> u32" where
  "crc32_loop_fs crc [] = crc"
| "crc32_loop_fs crc (d # ds) = crc32_loop_fs ((crc_shift_fs ^^ 8) (crc XOR ucast d)) ds"

definition lpp_buf_crc32_fs :: "bheap \<Rightarrow> i64 \<Rightarrow> i64 \<Rightarrow> i64 \<Rightarrow> i64 res" where
  "lpp_buf_crc32_fs h p off len =
     (if p = 0 \<or> sint len < 0 then Inr 0
      else with_buf h p 0 (\<lambda>b.
        if sint off < 0 \<or> sint (off + len) > sint (bsize b) then Inr 0
        else bind_res (load_bytes (bdata b) (sint off) (unat len))
               (\<lambda>ds. Inr (ucast (NOT (crc32_loop_fs 0xFFFFFFFF ds))))))"

section \<open>Byte runs\<close>

lemma load_bytes_in:
  "0 \<le> i \<Longrightarrow> i + int n \<le> int (length m) \<Longrightarrow> load_bytes m i n = Inr (take n (drop (nat i) m))"
proof (induction n arbitrary: i)
  case (Suc n)
  then have "nat i < length m" by linarith
  then have "take (Suc n) (drop (nat i) m) = m ! nat i # take n (drop (nat (i + 1)) m)"
    using Suc.prems(1) by (simp add: take_Suc_conv_app_nth Cons_nth_drop_Suc [symmetric] nat_add_distrib)
  with Suc show ?case by simp
qed simp

lemma load_bytes_out:
  "i + int n > int (length m) \<Longrightarrow> 0 < n \<Longrightarrow> load_bytes m i n = Inl (Fault ''read outside the buffer'')"
proof (induction n arbitrary: i)
  case (Suc n)
  then show ?case by (cases "n = 0") auto
qed simp

lemma store_bytes_in:
  "0 \<le> i \<Longrightarrow> i + int (length bs) \<le> int (length m) \<Longrightarrow>
   store_bytes m i bs = Inr (take (nat i) m @ bs @ drop (nat i + length bs) m)"
proof (induction bs arbitrary: m i)
  case (Cons b bs)
  let ?k = "nat i"
  have k: "?k < length m" "nat (i + 1) = Suc ?k" using Cons.prems by auto
  have "store_bytes m i (b # bs) =
      Inr (take (Suc ?k) (m[?k := b]) @ bs @ drop (Suc ?k + length bs) (m[?k := b]))"
    using Cons.prems Cons.IH [of "i + 1" "m[?k := b]"] k by simp
  moreover have "take (Suc ?k) (m[?k := b]) = take ?k m @ [b]"
    using k by (simp add: take_Suc_conv_app_nth)
  moreover have "drop (Suc ?k + length bs) (m[?k := b]) = drop (Suc ?k + length bs) m"
    using k by simp
  ultimately show ?case by simp
qed simp

lemma store_bytes_out:
  "i + int (length bs) > int (length m) \<Longrightarrow> bs \<noteq> [] \<Longrightarrow>
   store_bytes m i bs = Inl (Fault ''write outside the buffer'')"
proof (induction bs arbitrary: m i)
  case (Cons b bs)
  then show ?case by (cases "bs = []") auto
qed simp

lemma length_store_bytes: "store_bytes m i bs = Inr m' \<Longrightarrow> length m' = length m"
  by (induction bs arbitrary: m i) (auto split: if_splits)

section \<open>Guards\<close>

definition in_range :: "lppbuf \<Rightarrow> i64 \<Rightarrow> nat \<Rightarrow> bool" where
  "in_range b off n \<longleftrightarrow> 0 \<le> sint off \<and> sint off + int n \<le> int (length (bdata b))"

lemma buf_ok_length: "buf_ok b \<Longrightarrow> int (length (bdata b)) \<le> INT64_MAX"
  using sint_range_64 [of "bsize b"] by (simp add: buf_ok_def)

lemma not_out_of_range:
  assumes "buf_ok b" "n \<le> 8" "in_range b off n"
  shows "\<not> out_of_range b off (of_nat n)"
proof -
  have "in_i64 (sint off + sint (of_nat n :: i64))"
    using assms buf_ok_length [OF assms(1)] sint_range_64 [of off] sint_of_nat_small [OF assms(2)]
    by (simp add: in_range_def in_i64_def)
  then have "sint (off + of_nat n) = sint off + int n"
    using assms(2) by (simp add: sint_add_64 sint_of_nat_small)
  with assms show ?thesis by (simp add: out_of_range_def in_range_def buf_ok_def)
qed

lemma out_of_range_no_overflow:
  assumes "buf_ok b" "n \<le> 8" "sint off + int n \<le> INT64_MAX" "\<not> out_of_range b off (of_nat n)"
  shows "in_range b off n"
proof -
  have "in_i64 (sint off + sint (of_nat n :: i64))"
    using assms(2,3) sint_range_64 [of off] sint_of_nat_small [OF assms(2)] by (simp add: in_i64_def)
  then have "sint (off + of_nat n) = sint off + int n"
    using assms(2) by (simp add: sint_add_64 sint_of_nat_small)
  with assms show ?thesis by (simp add: out_of_range_def in_range_def buf_ok_def)
qed

section \<open>The accessor interface\<close>

text \<open>
  A fixed-width accessor pair is given by the byte encoding it writes and the decoding it applies.
  Everything a client may rely on follows from the four laws.
\<close>

locale buf_codec =
  fixes width :: nat
    and enc :: "i64 \<Rightarrow> u8 list"
    and dec :: "u8 list \<Rightarrow> i64"
    and trunc :: "i64 \<Rightarrow> i64"
    and bset :: "bheap \<Rightarrow> i64 \<Rightarrow> i64 \<Rightarrow> i64 \<Rightarrow> bheap res"
    and bget :: "bheap \<Rightarrow> i64 \<Rightarrow> i64 \<Rightarrow> i64 res"
  assumes width_bounds: "0 < width" "width \<le> 8"
    and enc_length: "length (enc v) = width"
    and dec_enc: "dec (enc v) = trunc v"
    and bset_eq: "bset h p off v = with_buf h p h (\<lambda>b.
      if out_of_range b off (of_nat width) then Inr h else put_bytes h p b off (enc v))"
    and bget_eq: "bget h p off = with_buf h p 0 (\<lambda>b.
      if out_of_range b off (of_nat width) then Inr 0
      else bind_res (load_bytes (bdata b) (sint off) width) (\<lambda>bs. Inr (dec bs)))"
begin

definition written :: "lppbuf \<Rightarrow> i64 \<Rightarrow> i64 \<Rightarrow> lppbuf" where
  "written b off v =
     b\<lparr>bdata := take (nat (sint off)) (bdata b) @ enc v @ drop (nat (sint off) + width) (bdata b)\<rparr>"

lemma length_written: "in_range b off width \<Longrightarrow> length (bdata (written b off v)) = length (bdata b)"
  by (auto simp: written_def in_range_def enc_length)

lemma buf_ok_written: "buf_ok b \<Longrightarrow> in_range b off width \<Longrightarrow> buf_ok (written b off v)"
  using length_written [of b off v] by (simp add: buf_ok_def) (simp add: written_def)

lemma bset_in_range:
  assumes "bheap_ok h" "h p = Some b" "in_range b off width"
  shows "bset h p off v = Inr (h(p \<mapsto> written b off v))"
proof -
  have p: "p \<noteq> 0" and ok: "buf_ok b" using assms(1,2) by (auto simp: bheap_ok_def)
  show ?thesis
    using not_out_of_range [OF ok width_bounds(2) assms(3)] assms p
    by (simp add: bset_eq with_buf_def put_bytes_def store_bytes_in in_range_def enc_length written_def)
qed

lemma bget_in_range:
  assumes "bheap_ok h" "h p = Some b" "in_range b off width"
  shows "bget h p off = Inr (dec (take width (drop (nat (sint off)) (bdata b))))"
proof -
  have p: "p \<noteq> 0" and ok: "buf_ok b" using assms(1,2) by (auto simp: bheap_ok_def)
  show ?thesis
    using not_out_of_range [OF ok width_bounds(2) assms(3)] assms p
    by (simp add: bget_eq with_buf_def load_bytes_in in_range_def)
qed

lemma bheap_ok_written:
  "bheap_ok h \<Longrightarrow> h p = Some b \<Longrightarrow> in_range b off width \<Longrightarrow> bheap_ok (h(p \<mapsto> written b off v))"
  by (auto simp: bheap_ok_def buf_ok_written)

lemma get_after_set:
  assumes "bheap_ok h" "h p = Some b" "in_range b off width"
  shows "bind_res (bset h p off v) (\<lambda>h'. bget h' p off) = Inr (trunc v)"
proof -
  let ?h = "h(p \<mapsto> written b off v)"
  have "in_range (written b off v) off width"
    using assms(3) length_written [OF assms(3)] by (simp add: in_range_def)
  then have "bget ?h p off = Inr (dec (take width (drop (nat (sint off)) (bdata (written b off v)))))"
    using bheap_ok_written [OF assms] by (intro bget_in_range) auto
  also have "take width (drop (nat (sint off)) (bdata (written b off v))) = enc v"
    using assms(3) width_bounds by (auto simp add: written_def in_range_def enc_length le_nat_iff)
  finally show ?thesis by (simp only: bset_in_range [OF assms] bind_res.simps dec_enc)
qed

lemma set_keeps_disjoint_bytes:
  assumes "bheap_ok h" "h p = Some b" "in_range b off width" "bset h p off v = Inr h'" "h' p = Some b'"
    and "k < sint off \<or> sint off + int width \<le> k" "0 \<le> k" "k < int (length (bdata b))"
  shows "bdata b' ! nat k = bdata b ! nat k"
proof -
  have b': "b' = written b off v"
    using assms(4,5) unfolding bset_in_range [OF assms(1-3)] by (simp only: sum.inject fun_upd_same option.inject) (metis fun_upd_same option.inject)
  have o: "0 \<le> sint off" "nat (sint off) + width \<le> length (bdata b)"
    using assms(3) by (auto simp: in_range_def)
  from assms(6) show ?thesis
  proof
    assume "k < sint off"
    then show ?thesis using o assms(7) by (simp add: b' written_def nth_append)
  next
    assume k: "sint off + int width \<le> k"
    let ?o = "nat (sint off)" and ?j = "nat k"
    have "?o + width \<le> ?j" "?j < length (bdata b)" using k o assms(7,8) by linarith+
    then have "\<not> ?j < ?o" "\<not> ?j - ?o < width" "?o + width + (?j - ?o - width) = ?j"
      "min (length (bdata b)) ?o = ?o" by auto
    then show ?thesis using o by (simp add: b' written_def nth_append enc_length)
  qed
qed

lemma set_safe:
  assumes "bheap_ok h" "p = 0 \<or> h p \<noteq> None" "sint off + int width \<le> INT64_MAX"
  shows "\<exists>h'. bset h p off v = Inr h' \<and> bheap_ok h' \<and> dom h' = dom h \<and>
    (\<forall>q. q \<noteq> p \<longrightarrow> h' q = h q) \<and>
    (\<forall>b b' k. h p = Some b \<longrightarrow> h' p = Some b' \<longrightarrow> 0 \<le> k \<longrightarrow> k < int (length (bdata b)) \<longrightarrow>
       k < sint off \<or> sint off + int width \<le> k \<longrightarrow> bdata b' ! nat k = bdata b ! nat k)"
proof (cases "p \<noteq> 0 \<and> \<not> out_of_range (the (h p)) off (of_nat width)")
  case True
  with assms(2) obtain b where b: "h p = Some b" by auto
  then have "buf_ok b" using assms(1) by (auto simp: bheap_ok_def)
  then have r: "in_range b off width"
    using True b width_bounds(2) assms(3) by (intro out_of_range_no_overflow) simp_all
  note w = bset_in_range [OF assms(1) b r]
  show ?thesis
  proof (intro exI conjI)
    show "bset h p off v = Inr (h(p \<mapsto> written b off v))" by (rule w)
    show "bheap_ok (h(p \<mapsto> written b off v))" by (rule bheap_ok_written [OF assms(1) b r])
    show "dom (h(p \<mapsto> written b off v)) = dom h" using b by auto
    show "\<forall>q. q \<noteq> p \<longrightarrow> (h(p \<mapsto> written b off v)) q = h q" by simp
  qed (use set_keeps_disjoint_bytes [OF assms(1) b r w] b in auto)
next
  case False
  then have "bset h p off v = Inr h"
    using assms(2) by (auto simp: bset_eq with_buf_def)
  then show ?thesis using assms(1) by auto
qed

lemma set_near_max_faults:
  assumes "bheap_ok h" "h p = Some b" "int (length (bdata b)) < INT64_MAX - 8"
    and "sint off + int width > INT64_MAX"
  shows "bset h p off v = Inl (Fault ''write outside the buffer'')"
proof -
  have p: "p \<noteq> 0" using assms(1,2) by (auto simp: bheap_ok_def)
  have o: "0 \<le> sint off" "sint off \<ge> int (length (bdata b))"
    using assms(3,4) width_bounds by (auto simp: INT64_MAX_def)
  have "sint (off + of_nat width) < 0"
    using assms(4) sint_add_overflow [of off "of_nat width"] sint_of_nat_small [OF width_bounds(2)]
      sint_range_64 [of off] width_bounds by (simp add: INT64_MAX_def)
  moreover have "0 \<le> sint (bsize b)" using assms(1,2) by (auto simp: bheap_ok_def buf_ok_def)
  ultimately have "\<not> out_of_range b off (of_nat width)" using o by (simp add: out_of_range_def)
  moreover have "enc v \<noteq> []" using enc_length [of v] width_bounds by auto
  ultimately show ?thesis
    using p assms(2) o width_bounds enc_length [of v]
    by (simp add: bset_eq with_buf_def put_bytes_def store_bytes_out)
qed

end

section \<open>Encodings\<close>

definition enc16le :: "i64 \<Rightarrow> u8 list" where
  "enc16le v = (let w = (ucast v :: u16) in [ucast w, ucast (drop_bit 8 w)])"

definition enc32le :: "i64 \<Rightarrow> u8 list" where
  "enc32le v = (let w = (ucast v :: u32) in
     [ucast w, ucast (drop_bit 8 w), ucast (drop_bit 16 w), ucast (drop_bit 24 w)])"

definition enc64le :: "i64 \<Rightarrow> u8 list" where
  "enc64le v = map (\<lambda>i. ucast (drop_bit (i * 8) v AND 0xFF)) [0..<8]"

definition dec16le :: "u8 list \<Rightarrow> i64" where
  "dec16le bs = ucast (bs ! 0) OR push_bit 8 (ucast (bs ! 1))"

definition dec32le :: "u8 list \<Rightarrow> i64" where
  "dec32le bs = ucast (ucast (bs ! 0) OR push_bit 8 (ucast (bs ! 1)) OR
     push_bit 16 (ucast (bs ! 2)) OR push_bit 24 (ucast (bs ! 3)) :: u32)"

definition dec64le :: "u8 list \<Rightarrow> i64" where
  "dec64le bs = fold (\<lambda>i r. r OR push_bit (i * 8) (ucast (bs ! i))) [0..<8] 0"

lemma dec16le_enc16le: "dec16le (enc16le v) = lpp_trunc_u16 v"
  by (rule bit_word_eqI) (auto simp: dec16le_def enc16le_def lpp_trunc_u16_def Let_def bit_simps)

lemma dec32le_enc32le: "dec32le (enc32le v) = lpp_trunc_u32 v"
  by (rule bit_all_64_eqI, unfold upt_64)
    (simp add: dec32le_def enc32le_def lpp_trunc_u32_def Let_def bit_simps)

lemma dec64le_enc64le: "dec64le (enc64le v) = v"
  by (rule bit_all_64_eqI, unfold upt_64)
    (simp add: dec64le_def enc64le_def upt_8 bit_simps)

lemma enc_lengths [simp]:
  "length (enc16le v) = 2" "length (enc32le v) = 4" "length (enc64le v) = 8"
  by (simp_all add: enc16le_def enc32le_def enc64le_def Let_def)

lemma rev_nth_8: "length bs = 8 \<Longrightarrow> i < 8 \<Longrightarrow> rev bs ! i = bs ! (7 - i)"
  by (simp add: rev_nth)

lemma dec64le_rev:
  "length bs = 8 \<Longrightarrow> dec64le (rev bs) = fold (\<lambda>i r. r OR push_bit (i * 8) (ucast (bs ! (7 - i)))) [0..<8] 0"
  by (simp add: dec64le_def upt_8 rev_nth)

lemma dec32le_rev:
  "length bs = 4 \<Longrightarrow> dec32le (rev bs) = ucast (push_bit 24 (ucast (bs ! 0)) OR push_bit 16 (ucast (bs ! 1)) OR
                   push_bit 8 (ucast (bs ! 2)) OR ucast (bs ! 3) :: u32)"
  by (simp add: dec32le_def rev_nth ac_simps)

lemma dec16le_rev:
  "length bs = 2 \<Longrightarrow> dec16le (rev bs) = push_bit 8 (ucast (bs ! 0)) OR ucast (bs ! 1)"
  by (simp add: dec16le_def rev_nth ac_simps)

lemma length_load_bytes: "load_bytes m i n = Inr bs \<Longrightarrow> length bs = n"
  by (induction n arbitrary: i bs) (auto split: if_splits)

lemma bind_load_cong:
  "(\<And>bs. length bs = n \<Longrightarrow> f bs = g bs) \<Longrightarrow> bind_res (load_bytes m i n) f = bind_res (load_bytes m i n) g"
  by (cases "load_bytes m i n") (auto dest: length_load_bytes)

interpretation buf16le: buf_codec 2 enc16le dec16le lpp_trunc_u16 lpp_buf_set16le lpp_buf_get16le
proof (unfold_locales, goal_cases)
  case (5 h p off v) show ?case by (simp add: lpp_buf_set16le_def enc16le_def Let_def cong: if_cong)
next
  case (6 h p off) show ?case by (simp add: lpp_buf_get16le_def dec16le_def cong: if_cong)
qed (simp_all add: dec16le_enc16le)

interpretation buf16be: buf_codec 2 "rev \<circ> enc16le" "dec16le \<circ> rev" lpp_trunc_u16 lpp_buf_set16be lpp_buf_get16be
proof (unfold_locales, goal_cases)
  case (5 h p off v) show ?case by (simp add: lpp_buf_set16be_def enc16le_def Let_def cong: if_cong)
next
  case (6 h p off) show ?case by (simp add: lpp_buf_get16be_def dec16le_rev cong: if_cong bind_load_cong)
qed (simp_all add: dec16le_enc16le)

interpretation buf32le: buf_codec 4 enc32le dec32le lpp_trunc_u32 lpp_buf_set32le lpp_buf_get32le
proof (unfold_locales, goal_cases)
  case (5 h p off v) show ?case by (simp add: lpp_buf_set32le_def enc32le_def Let_def cong: if_cong)
next
  case (6 h p off) show ?case by (simp add: lpp_buf_get32le_def dec32le_def cong: if_cong)
qed (simp_all add: dec32le_enc32le)

interpretation buf32be: buf_codec 4 "rev \<circ> enc32le" "dec32le \<circ> rev" lpp_trunc_u32 lpp_buf_set32be lpp_buf_get32be
proof (unfold_locales, goal_cases)
  case (5 h p off v) show ?case by (simp add: lpp_buf_set32be_def enc32le_def Let_def cong: if_cong)
next
  case (6 h p off) show ?case by (simp add: lpp_buf_get32be_def dec32le_rev cong: if_cong bind_load_cong)
qed (simp_all add: dec32le_enc32le)

interpretation buf64le: buf_codec 8 enc64le dec64le "\<lambda>v. v" lpp_buf_set64le lpp_buf_get64le
proof (unfold_locales, goal_cases)
  case (5 h p off v) show ?case by (simp add: lpp_buf_set64le_def enc64le_def cong: if_cong)
next
  case (6 h p off) show ?case by (simp add: lpp_buf_get64le_def dec64le_def cong: if_cong)
qed (simp_all add: dec64le_enc64le)

interpretation buf64be: buf_codec 8 "rev \<circ> enc64le" "dec64le \<circ> rev" "\<lambda>v. v" lpp_buf_set64be lpp_buf_get64be
proof (unfold_locales, goal_cases)
  case (5 h p off v) show ?case by (simp add: lpp_buf_set64be_def enc64le_def cong: if_cong)
next
  case (6 h p off) show ?case by (simp add: lpp_buf_get64be_def dec64le_rev cong: if_cong bind_load_cong)
qed (simp_all add: dec64le_enc64le)

lemma crc_shift_fs_eq: "crc_shift_fs = crc_shift"
proof
  fix c :: u32
  have "c AND 1 = (if bit c 0 then 1 else 0)" by (simp add: and_one_eq odd_iff_mod_2_eq_one bit_0)
  then show "crc_shift_fs c = crc_shift c"
    by (simp add: crc_shift_fs_def crc_shift_def crc_poly_def Let_def)
qed

lemma crc_shift_0: "crc_shift 0 = 0" by (simp add: crc_shift_def)

lemma crc_shift_xor: "crc_shift (a XOR b) = crc_shift a XOR crc_shift b"
proof -
  have o: "(x::u32) AND 1 \<noteq> 0 \<longleftrightarrow> bit x 0" for x by (simp add: and_one_eq odd_iff_mod_2_eq_one bit_0)
  show ?thesis unfolding crc_shift_def o
    by (rule bit_word_eqI) (auto simp: bit_simps)
qed

lemma crc_shift_pow_xor: "(crc_shift ^^ n) (a XOR b) = (crc_shift ^^ n) a XOR (crc_shift ^^ n) b"
  by (induction n) (simp_all add: crc_shift_xor)

lemma crc_shift_even: "\<not> bit c 0 \<Longrightarrow> crc_shift c = drop_bit 1 c"
  by (simp add: crc_shift_def and_one_eq odd_iff_mod_2_eq_one bit_0)

lemma crc_shift_pow_high: "\<forall>i < n. \<not> bit c i \<Longrightarrow> (crc_shift ^^ n) c = drop_bit n c"
proof (induction n)
  case (Suc n)
  then have "(crc_shift ^^ n) c = drop_bit n c" "\<not> bit (drop_bit n c) 0" by (auto simp: bit_simps)
  then show ?case by (simp add: crc_shift_even drop_bit_drop_bit add.commute)
qed simp

lemma crc_shift_8: "(crc_shift ^^ 8) x = (crc_shift ^^ 8) (x AND 0xFF) XOR drop_bit 8 x"
proof -
  let ?hi = "x AND NOT 0xFF"
  have m: "(0xFF :: u32) = mask 8" by (simp add: mask_eq_exp_minus_1)
  have "x = (x AND 0xFF) XOR ?hi" by (rule bit_word_eqI) (auto simp: bit_simps)
  then have "(crc_shift ^^ 8) x = (crc_shift ^^ 8) (x AND 0xFF) XOR (crc_shift ^^ 8) ?hi"
    by (metis crc_shift_pow_xor)
  also have "(crc_shift ^^ 8) ?hi = drop_bit 8 ?hi"
    unfolding m by (rule crc_shift_pow_high) (auto simp: bit_simps)
  also have "drop_bit 8 ?hi = drop_bit 8 x"
    unfolding m by (rule bit_word_eqI) (auto simp: bit_simps dest: bit_imp_le_length)
  finally show ?thesis .
qed

lemma unat_and_ff: "unat ((x :: u32) AND 0xFF) < 256"
proof -
  have "x AND 0xFF \<le> 0xFF" by (rule word_and_le1)
  then show ?thesis by (simp add: word_le_nat_alt)
qed

lemma crc32_step_eq:
  "crc32_table ! unat ((crc XOR ucast (d :: u8)) AND 0xFF) XOR drop_bit 8 crc = (crc_shift ^^ 8) (crc XOR ucast d)"
proof -
  have "drop_bit 8 (crc XOR ucast d) = drop_bit 8 crc" by (rule bit_word_eqI) (auto simp: bit_simps dest: bit_imp_le_length)
  then show ?thesis using unat_and_ff [of "crc XOR ucast d"]
    by (subst crc_shift_8) (simp add: crc32_table_def)
qed

lemma crc32_loop_fs_eq: "crc32_loop_fs crc ds = crc32_loop crc ds"
  by (induction ds arbitrary: crc) (simp_all add: crc32_step_eq crc_shift_fs_eq)

lemma crc_shift_inj: "crc_shift a = crc_shift b \<Longrightarrow> a = b"
proof -
  assume "crc_shift a = crc_shift b"
  then have z: "crc_shift (a XOR b) = 0" by (simp add: crc_shift_xor)
  let ?c = "a XOR b"
  have "?c = 0"
  proof (cases "bit ?c 0")
    case True
    then have "bit (crc_shift ?c) 31"
      by (auto simp add: crc_shift_def crc_poly_def and_one_eq odd_iff_mod_2_eq_one bit_0 bit_simps dest: bit_imp_le_length)
    with z show ?thesis by simp
  next
    case False
    with z have "drop_bit 1 ?c = 0" by (simp add: crc_shift_even)
    then have "\<not> bit ?c (Suc n)" for n by (metis bit_0_eq bit_drop_bit_eq comp_apply plus_1_eq_Suc bot_apply bot_bool_def)
    with False show ?thesis by (metis bit_eq_iff bit_0_eq bot_apply bot_bool_def not0_implies_Suc)
  qed
  then have "a XOR b = a XOR a" by simp
  then show "a = b" by (metis xor_cancel_left)
qed

lemma crc_shift_pow_inj: "(crc_shift ^^ n) a = (crc_shift ^^ n) b \<Longrightarrow> a = b"
  by (induction n) (auto dest: crc_shift_inj)

lemma crc32_loop_inj: "crc32_loop a ds = crc32_loop b ds \<Longrightarrow> a = b"
proof (induction ds arbitrary: a b)
  case (Cons d ds)
  then have "(crc_shift ^^ 8) (a XOR ucast d) = (crc_shift ^^ 8) (b XOR ucast d)"
    unfolding crc32_loop.simps crc32_step_eq by blast
  then have "a XOR ucast d = b XOR ucast d" by (rule crc_shift_pow_inj)
  then show ?case by (rule xor_cancel_right)
qed simp

lemma crc32_loop_byte_inj:
  "crc32_loop a (xs @ x # ys) = crc32_loop a (xs @ y # ys) \<Longrightarrow> x = y"
proof (induction xs arbitrary: a)
  case Nil
  then have "(crc_shift ^^ 8) (a XOR ucast x) = (crc_shift ^^ 8) (a XOR ucast y)"
    by (auto simp: crc32_step_eq dest: crc32_loop_inj)
  then have "a XOR ucast x = a XOR ucast y" by (rule crc_shift_pow_inj)
  then show ?case by (rule ucast_u8_u32_inj [OF xor_cancel_left])
qed simp

section \<open>Strings in buffers\<close>

lemma byte_char_char_byte [simp]: "byte_char (char_byte c) = c"
proof -
  have "unat (of_nat (of_char c) :: u8) = of_char c"
    by (simp add: unat_of_nat take_bit_nat_eq_self)
  then show ?thesis by (simp add: byte_char_def char_byte_def)
qed

lemma write_str_in_range:
  assumes "bheap_ok h" "h p = Some b" "in_range b off (length s)"
  shows "lpp_buf_write_str h p off (Some s) = Inr (of_nat (length s),
    h(p \<mapsto> b\<lparr>bdata := take (nat (sint off)) (bdata b) @ map char_byte s @
                      drop (nat (sint off) + length s) (bdata b)\<rparr>))"
proof -
  have p: "p \<noteq> 0" and ok: "buf_ok b" using assms(1,2) by (auto simp: bheap_ok_def)
  have l: "int (length s) \<le> INT64_MAX" "0 \<le> sint off" "sint off + int (length s) \<le> INT64_MAX"
    using buf_ok_length [OF ok] assms(3) by (auto simp: in_range_def)
  then have e: "sint (off + of_nat (length s)) = sint off + int (length s)"
    by (simp add: sint_add_in_range sint_of_nat_64)
  have "store_bytes (bdata b) (sint off) (map char_byte s) =
      Inr (take (nat (sint off)) (bdata b) @ map char_byte s @ drop (nat (sint off) + length s) (bdata b))"
    using assms(3) by (subst store_bytes_in) (auto simp: in_range_def)
  then show ?thesis
    using p assms(2,3) ok e l
    by (simp add: lpp_buf_write_str_def with_buf_def put_bytes_def Let_def in_range_def buf_ok_def)
qed

lemma write_str_out_of_range:
  assumes "bheap_ok h" "h p = Some b" "\<not> in_range b off (length s)"
    and "sint off + int (length s) \<le> INT64_MAX" "int (length s) \<le> INT64_MAX"
  shows "lpp_buf_write_str h p off (Some s) = Inr (- 1, h)"
proof -
  have p: "p \<noteq> 0" and ok: "buf_ok b" using assms(1,2) by (auto simp: bheap_ok_def)
  have "0 \<le> sint off \<Longrightarrow> sint (off + of_nat (length s)) = sint off + int (length s)"
    using assms(4,5) by (simp add: sint_add_in_range sint_of_nat_64)
  then show ?thesis
    using p assms(2,3) ok
    by (auto simp: lpp_buf_write_str_def with_buf_def Let_def in_range_def buf_ok_def)
qed

lemma to_str_in_range:
  assumes "bheap_ok h" "h p = Some b" "0 \<le> sint len" "in_range b off (nat (sint len))"
    and "\<not> oom (sint len + 1)"
  shows "lpp_buf_to_str oom h p off len =
    Inr (takeWhile (\<lambda>c. c \<noteq> CHR 0x00) (map byte_char (take (nat (sint len)) (drop (nat (sint off)) (bdata b)))))"
proof -
  have p: "p \<noteq> 0" and ok: "buf_ok b" using assms(1,2) by (auto simp: bheap_ok_def)
  have "sint (off + len) = sint off + sint len"
    using assms(3,4) buf_ok_length [OF ok] by (intro sint_add_in_range) (auto simp: in_range_def)
  then show ?thesis
    using p assms ok unat_eq_sint_64 [OF assms(3)]
    by (simp add: lpp_buf_to_str_def with_buf_def in_range_def buf_ok_def load_bytes_in)
qed

section \<open>Properties\<close>

lemma bheap_ok_single:
  "bheap_ok [p \<mapsto> \<lparr>bsize = n, bdata = ds\<rparr>] \<longleftrightarrow> p \<noteq> 0 \<and> sint n = int (length ds)"
  by (auto simp: bheap_ok_def buf_ok_def)

text \<open>The fixed-width setters with the number of bytes each writes.\<close>

definition buf_setters :: "(nat \<times> (bheap \<Rightarrow> i64 \<Rightarrow> i64 \<Rightarrow> i64 \<Rightarrow> bheap res)) list" where
  "buf_setters = [(2, lpp_buf_set16le), (2, lpp_buf_set16be), (4, lpp_buf_set32le),
     (4, lpp_buf_set32be), (8, lpp_buf_set64le), (8, lpp_buf_set64be)]"



text \<open>C19: A fixed-width store whose offset does not come within its width of \<open>INT64_MAX\<close> never
  leaves the block: it returns, keeps every live buffer and its size word consistent, and changes
  no byte outside the written range, whether the offset is in range, out of range or the pointer NULL.\<close>

theorem lpp_buf_set_safe:
  assumes "bheap_ok h" "p = 0 \<or> h p \<noteq> None" "(n, bset) \<in> set buf_setters"
    and "sint off + int n \<le> INT64_MAX"
  shows "\<exists>h'. bset h p off v = Inr h' \<and> bheap_ok h' \<and> dom h' = dom h \<and>
    (\<forall>q. q \<noteq> p \<longrightarrow> h' q = h q) \<and>
    (\<forall>b b' k. h p = Some b \<longrightarrow> h' p = Some b' \<longrightarrow> 0 \<le> k \<longrightarrow> k < int (length (bdata b)) \<longrightarrow>
       k < sint off \<or> sint off + int n \<le> k \<longrightarrow> bdata b' ! nat k = bdata b ! nat k)"
  using assms(3) buf16le.set_safe [OF assms(1,2)] buf16be.set_safe [OF assms(1,2)]
    buf32le.set_safe [OF assms(1,2)] buf32be.set_safe [OF assms(1,2)]
    buf64le.set_safe [OF assms(1,2)] buf64be.set_safe [OF assms(1,2)] assms(4)
  unfolding buf_setters_def by auto

theorem lpp_buf_set_safe_witness:
  "\<exists>h'. lpp_buf_set32le [8 \<mapsto> \<lparr>bsize = 9, bdata = replicate 9 7\<rparr>] 8 6 1 = Inr h' \<and> bheap_ok h'"
  using lpp_buf_set_safe [of "[8 \<mapsto> \<lparr>bsize = 9, bdata = replicate 9 7\<rparr>]" 8 4 lpp_buf_set32le 6 1]
  by (auto simp: bheap_ok_single buf_setters_def INT64_MAX_def)

text \<open>When \<open>offset + width\<close> exceeds \<open>INT64_MAX\<close> the guard's sum wraps to a negative number, the
  guard lets the store through and it writes outside the block, for every fixed-width setter and every
  buffer of realistic size.\<close>

theorem lpp_buf_set_guard_wraps:
  assumes "bheap_ok h" "h p = Some b" "int (length (bdata b)) < INT64_MAX - 8"
    and "(n, bset) \<in> set buf_setters" "sint off + int n > INT64_MAX"
  shows "bset h p off v = Inl (Fault ''write outside the buffer'')"
  using assms(4) buf16le.set_near_max_faults [OF assms(1-3)] buf16be.set_near_max_faults [OF assms(1-3)]
    buf32le.set_near_max_faults [OF assms(1-3)] buf32be.set_near_max_faults [OF assms(1-3)]
    buf64le.set_near_max_faults [OF assms(1-3)] buf64be.set_near_max_faults [OF assms(1-3)] assms(5)
  unfolding buf_setters_def by auto

theorem lpp_buf_set_guard_wraps_witness:
  "lpp_buf_set32le [8 \<mapsto> \<lparr>bsize = 9, bdata = replicate 9 7\<rparr>] 8 0x7FFFFFFFFFFFFFFD 1
     = Inl (Fault ''write outside the buffer'')"
  using lpp_buf_set_guard_wraps [of "[8 \<mapsto> \<lparr>bsize = 9, bdata = replicate 9 7\<rparr>]" 8
    "\<lparr>bsize = 9, bdata = replicate 9 7\<rparr>" 4 lpp_buf_set32le "0x7FFFFFFFFFFFFFFD" 1]
  by (auto simp: bheap_ok_single buf_setters_def INT64_MAX_def)

text \<open>C18: The table-driven CRC-32 of the host runtime and the shift-and-mask CRC-32 of the freestanding
  runtime return the same result on every live buffer (or NULL), offset and length, faults and
  rejected ranges included.\<close>

theorem lpp_buf_crc32_equiv:
  assumes "p = 0 \<or> h p \<noteq> None"
  shows "lpp_buf_crc32_fs h p off len = lpp_buf_crc32 h p off len"
  using assms by (cases "h p")
    (auto simp: lpp_buf_crc32_fs_def lpp_buf_crc32_def with_buf_def crc32_loop_fs_eq xor_ones)

theorem lpp_buf_crc32_equiv_witness:
  "lpp_buf_crc32_fs [8 \<mapsto> \<lparr>bsize = 3, bdata = [1, 2, 3]\<rparr>] 8 0 3 =
   lpp_buf_crc32 [8 \<mapsto> \<lparr>bsize = 3, bdata = [1, 2, 3]\<rparr>] 8 0 3"
  using lpp_buf_crc32_equiv [of 8 "[8 \<mapsto> \<lparr>bsize = 3, bdata = [1, 2, 3]\<rparr>]" 0 3] by simp

text \<open>The CRC-32 of a range changes whenever exactly one byte of the range changes.\<close>

theorem lpp_buf_crc32_detects_byte:
  assumes "bheap_ok h" "h p = Some b" "0 \<le> sint off" "0 \<le> sint len"
    and "sint off + sint len \<le> int (length (bdata b))"
    and "nat (sint off) \<le> k" "k < nat (sint off) + nat (sint len)" "c \<noteq> bdata b ! k"
  shows "lpp_buf_crc32 (h(p \<mapsto> b\<lparr>bdata := (bdata b)[k := c]\<rparr>)) p off len \<noteq> lpp_buf_crc32 h p off len"
proof -
  have p: "p \<noteq> 0" and ok: "buf_ok b" using assms(1,2) by (auto simp: bheap_ok_def)
  let ?d = "bdata b" and ?o = "nat (sint off)" and ?n = "nat (sint len)"
  have s: "sint (off + len) = sint off + sint len"
    using assms(3-5) buf_ok_length [OF ok] by (intro sint_add_in_range) auto
  have bnd: "?o + ?n \<le> length ?d" using assms(3-5) by linarith
  let ?j = "k - ?o" and ?ds = "take ?n (drop ?o ?d)"
  have j: "?j < length ?ds" "k = ?o + ?j" using assms(6,7) bnd by auto
  have "take ?n (drop ?o (?d[k := c])) = ?ds[?j := c]"
    using assms(6) by (simp add: drop_update_swap take_update_swap)
  then have upd: "take ?n (drop ?o (?d[k := c])) = take ?j ?ds @ c # drop (Suc ?j) ?ds"
    using j(1) by (simp only: upd_conv_take_nth_drop)
  have old: "?ds = take ?j ?ds @ ?d ! k # drop (Suc ?j) ?ds"
  proof -
    have "?ds ! ?j = ?d ! k" using j bnd by simp
    then show ?thesis using id_take_nth_drop [OF j(1)] by (simp only:)
  qed
  have "crc32_loop 0xFFFFFFFF (take ?n (drop ?o (?d[k := c]))) \<noteq> crc32_loop 0xFFFFFFFF ?ds"
    unfolding upd using assms(8) crc32_loop_byte_inj old by metis
  then show ?thesis
    using p ok assms(2-5) s unat_eq_sint_64 [OF assms(4)]
    by (auto simp: lpp_buf_crc32_def with_buf_def buf_ok_def load_bytes_in xor_ones dest: ucast_u32_u64_inj)
qed

theorem lpp_buf_crc32_detects_byte_witness:
  "lpp_buf_crc32 [8 \<mapsto> \<lparr>bsize = 3, bdata = [1, 9, 3]\<rparr>] 8 0 3 \<noteq>
   lpp_buf_crc32 [8 \<mapsto> \<lparr>bsize = 3, bdata = [1, 2, 3]\<rparr>] 8 0 3"
  using lpp_buf_crc32_detects_byte [of "[8 \<mapsto> \<lparr>bsize = 3, bdata = [1, 2, 3]\<rparr>]" 8
    "\<lparr>bsize = 3, bdata = [1, 2, 3]\<rparr>" 0 3 1 9]
  by (simp add: bheap_ok_single)

text \<open>A string written with \<open>lpp_buf_write_str\<close> is read back by \<open>lpp_buf_read_str\<close> with the
  returned length.\<close>

theorem lpp_buf_str_roundtrip:
  assumes "bheap_ok h" "h p = Some b" "nul_free s" "0 \<le> sint off"
    and "sint off + int (length s) \<le> int (length (bdata b))" "\<not> oom (int (length s) + 1)"
  shows "bind_res (lpp_buf_write_str h p off (Some s)) (\<lambda>(n, h'). lpp_buf_read_str oom h' p off n) = Inr s"
proof -
  have r: "in_range b off (length s)" using assms(4,5) by (simp add: in_range_def)
  let ?d = "take (nat (sint off)) (bdata b) @ map char_byte s @ drop (nat (sint off) + length s) (bdata b)"
  have ok: "buf_ok b" using assms(1,2) by (auto simp: bheap_ok_def)
  have len: "length ?d = length (bdata b)" using assms(4,5) by auto
  have n: "sint (of_nat (length s) :: i64) = int (length s)"
    using assms(4,5) buf_ok_length [OF ok] by (intro sint_of_nat_64) auto
  have "lpp_buf_read_str oom (h(p \<mapsto> b\<lparr>bdata := ?d\<rparr>)) p off (of_nat (length s)) =
      Inr (takeWhile (\<lambda>c. c \<noteq> CHR 0x00) (map byte_char (take (length s) (drop (nat (sint off)) ?d))))"
    unfolding lpp_buf_read_str_def using assms len n r ok
    by (subst to_str_in_range [where b = "b\<lparr>bdata := ?d\<rparr>"])
      (auto simp: bheap_ok_def buf_ok_def in_range_def)
  also have "take (length s) (drop (nat (sint off)) ?d) = map char_byte s"
    using assms(4,5) by auto
  also have "takeWhile (\<lambda>c. c \<noteq> CHR 0x00) (map byte_char (map char_byte s)) = s"
    using assms(3) by (simp add: takeWhile_nul_free comp_def)
  finally show ?thesis
    by (simp only: write_str_in_range [OF assms(1,2) r] bind_res.simps split)
qed

theorem lpp_buf_str_roundtrip_witness:
  "bind_res (lpp_buf_write_str [8 \<mapsto> \<lparr>bsize = 9, bdata = replicate 9 0\<rparr>] 8 2 (Some ''page''))
     (\<lambda>(n, h'). lpp_buf_read_str (\<lambda>n. n > 100) h' 8 2 n) = Inr ''page''"
  using lpp_buf_str_roundtrip [of "[8 \<mapsto> \<lparr>bsize = 9, bdata = replicate 9 0\<rparr>]" 8
    "\<lparr>bsize = 9, bdata = replicate 9 0\<rparr>" "''page''" 2 "\<lambda>n. n > 100"]
  by (simp add: bheap_ok_single)

end
