(* ===== verification/Lpp_Sort.thy ===== *)
theory Lpp_Sort
  imports Lpp_Prelude
begin

text \<open>
  The introsort of \<^verbatim>\<open>runtime/lpp_runtime.c\<close> behind \<open>lpp_list_sort\<close>, \<open>lpp_list_sort_desc\<close> and
  \<open>lpp_list_sort_u\<close>. An array \<open>v\<close> with its element count \<open>n\<close> is a list of length \<open>n\<close>; the recursive
  calls on \<open>v\<close> and \<open>v + j + 1\<close> are calls on the two parts of the list. The comparison callback is
  the parameter \<open>before\<close>, and what the routines need of it is the locale \<open>cmp_order\<close>.
\<close>

section \<open>Comparison callbacks\<close>

type_synonym LppCmpFn = "i64 \<Rightarrow> i64 \<Rightarrow> bool"

definition lpp_i64_lt :: LppCmpFn where
  "lpp_i64_lt a b \<longleftrightarrow> sint a < sint b"

definition lpp_i64_gt :: LppCmpFn where
  "lpp_i64_gt a b \<longleftrightarrow> sint a > sint b"

definition lpp_u64_lt :: LppCmpFn where
  "lpp_u64_lt a b \<longleftrightarrow> a < b"

section \<open>The routines\<close>

definition swap_at :: "nat \<Rightarrow> nat \<Rightarrow> i64 list \<Rightarrow> i64 list" where
  "swap_at i j v = v[i := v ! j, j := v ! i]"

text \<open>The inner loop of insertion sort; the argument is the position \<open>j + 1\<close> that is being filled.\<close>

fun ins_shift :: "LppCmpFn \<Rightarrow> i64 list \<Rightarrow> i64 \<Rightarrow> nat \<Rightarrow> i64 list" where
  "ins_shift before v key 0 = v[0 := key]"
| "ins_shift before v key (Suc j) =
     (if before key (v ! j) then ins_shift before (v[Suc j := v ! j]) key j else v[Suc j := key])"

definition lpp_insertion_sort :: "LppCmpFn \<Rightarrow> i64 list \<Rightarrow> i64 list" where
  "lpp_insertion_sort before v = fold (\<lambda>i v. ins_shift before v (v ! i) i) [1..<length v] v"

function lpp_sift_down :: "LppCmpFn \<Rightarrow> i64 list \<Rightarrow> nat \<Rightarrow> nat \<Rightarrow> i64 list" where
  "lpp_sift_down before v root n =
     (let child = 2 * root + 1
      in if child \<ge> n then v
         else let child = (if child + 1 < n \<and> before (v ! child) (v ! (child + 1)) then child + 1 else child)
              in if \<not> before (v ! root) (v ! child) then v
                 else lpp_sift_down before (swap_at root child v) child n)"
  by auto
termination
  by (relation "measure (\<lambda>(before, v, root, n). n - root)") (auto simp: Let_def)

declare lpp_sift_down.simps [simp del]

fun heapify_loop :: "LppCmpFn \<Rightarrow> nat \<Rightarrow> nat \<Rightarrow> i64 list \<Rightarrow> i64 list" where
  "heapify_loop before n 0 v = v"
| "heapify_loop before n (Suc i) v = heapify_loop before n i (lpp_sift_down before v i n)"

fun extract_loop :: "LppCmpFn \<Rightarrow> nat \<Rightarrow> i64 list \<Rightarrow> i64 list" where
  "extract_loop before 0 v = v"
| "extract_loop before (Suc e) v =
     extract_loop before e (lpp_sift_down before (swap_at 0 (Suc e) v) 0 (Suc e))"

definition lpp_heap_sort :: "LppCmpFn \<Rightarrow> i64 list \<Rightarrow> i64 list" where
  "lpp_heap_sort before v =
     extract_loop before (length v - 1) (heapify_loop before (length v) (length v div 2) v)"

text \<open>The two \<open>do ... while\<close> scans and the exchange loop of the partition step.\<close>

function scan_up :: "LppCmpFn \<Rightarrow> i64 list \<Rightarrow> i64 \<Rightarrow> nat \<Rightarrow> nat" where
  "scan_up before v pivot i =
     (let i = i + 1 in if i < length v \<and> before (v ! i) pivot then scan_up before v pivot i else i)"
  by auto
termination
  by (relation "measure (\<lambda>(before, v, pivot, i). length v - i)") auto

fun scan_down :: "LppCmpFn \<Rightarrow> i64 list \<Rightarrow> i64 \<Rightarrow> nat \<Rightarrow> nat" where
  "scan_down before v pivot 0 = 0"
| "scan_down before v pivot (Suc j) =
     (if j > 0 \<and> before pivot (v ! j) then scan_down before v pivot j else j)"

declare scan_up.simps [simp del]

lemma scan_up_gt: "i < scan_up before v pivot i"
proof (induction before v pivot i rule: scan_up.induct)
  case (1 before v pivot i)
  then show ?case by (subst scan_up.simps) (auto simp: Let_def)
qed

lemma scan_down_less: "0 < j \<Longrightarrow> scan_down before v pivot j < j"
proof (induction j)
  case (Suc j)
  then show ?case by (cases "j = 0") (auto intro: less_SucI)
qed simp

lemma scan_step_less:
  "i < scan_down before v pivot j \<Longrightarrow> scan_down before v pivot j < j"
  by (cases "j = 0") (auto intro: scan_down_less)

function part_loop :: "LppCmpFn \<Rightarrow> i64 \<Rightarrow> nat \<Rightarrow> nat \<Rightarrow> i64 list \<Rightarrow> i64 list \<times> nat" where
  "part_loop before pivot i j v =
     (let i = scan_up before v pivot i; j' = scan_down before v pivot j
      in if i \<ge> j' then (v, j') else part_loop before pivot i j' (swap_at i j' v))"
  by auto
termination
  by (relation "measure (\<lambda>(before, pivot, i, j, v). j)") (auto dest: not_le_imp_less intro: scan_step_less)

declare part_loop.simps [simp del]

definition median_to_front :: "LppCmpFn \<Rightarrow> i64 list \<Rightarrow> i64 list" where
  "median_to_front before v =
     (let mid = length v div 2; last = length v - 1;
          v = (if before (v ! mid) (v ! 0) then swap_at mid 0 v else v);
          v = (if before (v ! last) (v ! 0) then swap_at last 0 v else v);
          v = (if before (v ! last) (v ! mid) then swap_at last mid v else v)
      in swap_at mid 0 v)"

definition partition_step :: "LppCmpFn \<Rightarrow> i64 list \<Rightarrow> i64 list \<times> nat" where
  "partition_step before v =
     (let v = median_to_front before v;
          (v, j) = part_loop before (v ! 0) 0 (length v) v
      in (swap_at 0 j v, j))"

text \<open>
  \<open>lpp_quick_sort\<close> recurses into the smaller part and loops on the larger one; both continue with the
  decremented depth and touch disjoint parts of the array.
\<close>

fun lpp_quick_sort :: "LppCmpFn \<Rightarrow> nat \<Rightarrow> i64 list \<Rightarrow> i64 list" where
  "lpp_quick_sort before 0 v =
     (if length v > 16 then lpp_heap_sort before v else lpp_insertion_sort before v)"
| "lpp_quick_sort before (Suc depth) v =
     (if length v > 16 then
        let (v, j) = partition_step before v
        in if j < length v - j - 1
           then let l = lpp_quick_sort before depth (take j v)
                in l @ v ! j # lpp_quick_sort before depth (drop (j + 1) v)
           else let r = lpp_quick_sort before depth (drop (j + 1) v)
                in lpp_quick_sort before depth (take j v) @ v ! j # r
      else lpp_insertion_sort before v)"

text \<open>The depth limit, twice the number of halvings of the length.\<close>

fun depth_loop :: "nat \<Rightarrow> nat" where
  "depth_loop m = (if m > 1 then 2 + depth_loop (m div 2) else 0)"

declare depth_loop.simps [simp del]

definition lpp_sort_with :: "LppCmpFn \<Rightarrow> i64 list \<Rightarrow> i64 list" where
  "lpp_sort_with before v =
     (if length v < 2 then v else lpp_quick_sort before (depth_loop (length v)) v)"

section \<open>Comparison orders\<close>

locale cmp_order =
  fixes before :: LppCmpFn
  assumes asym: "before a b \<Longrightarrow> \<not> before b a"
    and neg_trans: "\<not> before a b \<Longrightarrow> \<not> before b c \<Longrightarrow> \<not> before a c"
begin

definition le :: "i64 \<Rightarrow> i64 \<Rightarrow> bool" where
  "le a b \<longleftrightarrow> \<not> before b a"

definition in_order :: "i64 list \<Rightarrow> bool" where
  "in_order v \<longleftrightarrow> sorted_wrt le v"

lemma le_trans: "le a b \<Longrightarrow> le b c \<Longrightarrow> le a c"
  unfolding le_def by (rule neg_trans)

lemma le_refl [simp]: "le a a"
  unfolding le_def using asym by blast

lemma before_le: "before a b \<Longrightarrow> le a b"
  unfolding le_def by (rule asym)

lemma not_before_le: "\<not> before a b \<longleftrightarrow> le b a"
  by (simp add: le_def)

end

section \<open>Insertion sort\<close>

lemma ins_shift_split:
  "h < length v \<Longrightarrow> \<exists>p q. take h v = p @ q \<and> ins_shift before v key h = p @ key # q @ drop (Suc h) v \<and>
     (\<forall>x \<in> set q. before key x) \<and> (p = [] \<or> \<not> before key (last p))"
proof (induction h arbitrary: v)
  case 0
  then show ?case by (cases v) auto
next
  case (Suc j)
  have t: "take (Suc j) v = take j v @ [v ! j]" using Suc.prems by (simp add: take_Suc_conv_app_nth)
  show ?case
  proof (cases "before key (v ! j)")
    case True
    let ?w = "v[Suc j := v ! j]"
    obtain p q where "take j ?w = p @ q" "ins_shift before ?w key j = p @ key # q @ drop (Suc j) ?w"
      "\<forall>x \<in> set q. before key x" "p = [] \<or> \<not> before key (last p)"
      using Suc.IH [of ?w] Suc.prems by auto
    moreover have "drop (Suc j) ?w = v ! j # drop (Suc (Suc j)) v"
      using Suc.prems by (simp add: drop_update_swap Cons_nth_drop_Suc [symmetric])
    ultimately show ?thesis using True t by (intro exI [of _ p] exI [of _ "q @ [v ! j]"]) auto
  next
    case False
    have "v[Suc j := key] = take (Suc j) v @ key # drop (Suc (Suc j)) v"
      using Suc.prems by (rule upd_conv_take_nth_drop)
    then show ?thesis using False t by (intro exI [of _ "take (Suc j) v"] exI [of _ "[]"]) simp
  qed
qed

lemma length_ins_shift [simp]: "length (ins_shift before v key h) = length v"
  by (induction before v key h rule: ins_shift.induct) auto

lemma mset_ins_shift: "h < length v \<Longrightarrow> mset (ins_shift before v (v ! h) h) = mset v"
proof -
  assume h: "h < length v"
  obtain p q where "take h v = p @ q" "ins_shift before v (v ! h) h = p @ v ! h # q @ drop (Suc h) v"
    using ins_shift_split [OF h, of before "v ! h"] by blast
  moreover have "mset v = mset (take h v @ v ! h # drop (Suc h) v)" using id_take_nth_drop [OF h] by simp
  ultimately show ?thesis by (metis (no_types, lifting) append.assoc append_Cons mset_append mset.simps(2) add_mset_add_single union_assoc union_commute)
qed

definition ins_run :: "LppCmpFn \<Rightarrow> nat \<Rightarrow> i64 list \<Rightarrow> i64 list" where
  "ins_run before k v = fold (\<lambda>i v. ins_shift before v (v ! i) i) [1..<k] v"

lemma ins_run_Suc: "1 \<le> k \<Longrightarrow> ins_run before (Suc k) v = ins_shift before (ins_run before k v) (ins_run before k v ! k) k"
  by (simp add: ins_run_def)

lemma ins_run_mset: "k \<le> length v \<Longrightarrow> mset (ins_run before k v) = mset v \<and> length (ins_run before k v) = length v"
proof (induction k)
  case (Suc k)
  then show ?case by (cases "k = 0") (auto simp: ins_run_Suc mset_ins_shift ins_run_def)
qed (simp add: ins_run_def)

context cmp_order
begin

lemma ins_shift_in_order:
  assumes "h < length v" "in_order (take h v)"
  shows "in_order (take (Suc h) (ins_shift before v key h))"
proof -
  obtain p q where *: "take h v = p @ q" "ins_shift before v key h = p @ key # q @ drop (Suc h) v"
      "\<forall>x \<in> set q. before key x" "p = [] \<or> \<not> before key (last p)"
    using ins_shift_split [OF assms(1), of before key] by blast
  have "length (p @ q) = h" using *(1) assms(1) by (metis length_take min.absorb4)
  then have "take (Suc h) (ins_shift before v key h) = p @ key # q" using *(2) by auto
  moreover have "\<forall>x \<in> set p. le x key"
  proof (cases p rule: rev_cases)
    case (snoc p' y)
    then have "le y key" "\<forall>x \<in> set p'. le x y"
      using *(1,4) assms(2) by (auto simp: not_before_le in_order_def sorted_wrt_append)
    then show ?thesis using snoc le_trans by auto
  qed simp
  ultimately show ?thesis
    using * assms(2) by (auto simp: in_order_def sorted_wrt_append before_le)
qed

lemma insertion_sort_ok:
  "in_order (lpp_insertion_sort before v) \<and> mset (lpp_insertion_sort before v) = mset v"
proof -
  have "k \<le> length v \<Longrightarrow> in_order (take k (ins_run before k v))" for k
  proof (induction k)
    case (Suc k)
    then show ?case
      by (cases "k = 0"; cases v)
        (auto simp: ins_run_Suc ins_run_mset in_order_def [of "[_]"] ins_run_def [of _ "Suc 0"] intro!: ins_shift_in_order)
  qed (simp add: in_order_def)
  from this [of "length v"] show ?thesis
    using ins_run_mset [of "length v" v before] by (simp add: lpp_insertion_sort_def ins_run_def)
qed
end

section \<open>Heap sort\<close>

lemma length_swap_at [simp]: "length (swap_at i j v) = length v"
  by (simp add: swap_at_def)

lemma mset_swap_at [simp]: "i < length v \<Longrightarrow> j < length v \<Longrightarrow> mset (swap_at i j v) = mset v"
  by (simp add: swap_at_def mset_swap)

lemma nth_swap_at:
  "i < length v \<Longrightarrow> j < length v \<Longrightarrow> k < length v \<Longrightarrow>
   swap_at i j v ! k = (if k = j then v ! i else if k = i then v ! j else v ! k)"
  by (auto simp: swap_at_def nth_list_update)

definition larger_child :: "LppCmpFn \<Rightarrow> i64 list \<Rightarrow> nat \<Rightarrow> nat \<Rightarrow> nat" where
  "larger_child before v r n =
     (if 2 * r + 2 < n \<and> before (v ! (2 * r + 1)) (v ! (2 * r + 2)) then 2 * r + 2 else 2 * r + 1)"

lemma sift_down_unfold:
  "lpp_sift_down before v r n =
     (if 2 * r + 1 \<ge> n \<or> \<not> before (v ! r) (v ! larger_child before v r n) then v
      else lpp_sift_down before (swap_at r (larger_child before v r n) v) (larger_child before v r n) n)"
  by (subst lpp_sift_down.simps) (simp add: larger_child_def Let_def)

lemma larger_child_bounds:
  "2 * r + 1 < n \<Longrightarrow> larger_child before v r n < n"
  "r < larger_child before v r n"
  by (auto simp: larger_child_def)

lemma sift_down_frame:
  "n \<le> length v \<Longrightarrow> length (lpp_sift_down before v r n) = length v \<and>
     mset (lpp_sift_down before v r n) = mset v \<and>
     (\<forall>k. k < r \<or> n \<le> k \<longrightarrow> k < length v \<longrightarrow> lpp_sift_down before v r n ! k = v ! k)"
proof (induction "n - r" arbitrary: v r rule: less_induct)
  case less
  let ?c = "larger_child before v r n"
  show ?case
  proof (cases "2 * r + 1 \<ge> n \<or> \<not> before (v ! r) (v ! ?c)")
    case True
    then have "lpp_sift_down before v r n = v" by (subst sift_down_unfold) simp
    then show ?thesis by simp
  next
    case False
    then have e: "lpp_sift_down before v r n = lpp_sift_down before (swap_at r ?c v) ?c n"
      by (subst sift_down_unfold) simp
    have c: "r < ?c" "?c < n" using False by (auto simp: larger_child_bounds)
    then show ?thesis
      using less.hyps [of ?c "swap_at r ?c v"] less.prems unfolding e by (auto simp: nth_swap_at)
  qed
qed

lemma length_sift_down [simp]: "n \<le> length v \<Longrightarrow> length (lpp_sift_down before v r n) = length v"
  using sift_down_frame by blast

lemma mset_sift_down [simp]: "n \<le> length v \<Longrightarrow> mset (lpp_sift_down before v r n) = mset v"
  using sift_down_frame by blast

lemma nth_sift_down: "n \<le> length v \<Longrightarrow> k < r \<or> n \<le> k \<Longrightarrow> k < length v \<Longrightarrow> lpp_sift_down before v r n ! k = v ! k"
  using sift_down_frame by blast

context cmp_order
begin

text \<open>The heap property at node \<open>k\<close> for the first \<open>n\<close> elements.\<close>

definition heap_node :: "nat \<Rightarrow> i64 list \<Rightarrow> nat \<Rightarrow> bool" where
  "heap_node n v k \<longleftrightarrow>
     (2 * k + 1 < n \<longrightarrow> le (v ! (2 * k + 1)) (v ! k)) \<and> (2 * k + 2 < n \<longrightarrow> le (v ! (2 * k + 2)) (v ! k))"

text \<open>All nodes from \<open>s\<close> on are heaps but \<open>r\<close>, whose children may replace it.\<close>

definition heap_except :: "nat \<Rightarrow> i64 list \<Rightarrow> nat \<Rightarrow> nat \<Rightarrow> bool" where
  "heap_except n v s r \<longleftrightarrow> s \<le> r \<and> (\<forall>k \<ge> s. k \<noteq> r \<longrightarrow> heap_node n v k) \<and>
     (\<forall>p \<ge> s. r = 2 * p + 1 \<or> r = 2 * p + 2 \<longrightarrow>
        (2 * r + 1 < n \<longrightarrow> le (v ! (2 * r + 1)) (v ! p)) \<and> (2 * r + 2 < n \<longrightarrow> le (v ! (2 * r + 2)) (v ! p)))"

lemma heap_except_swap:
  assumes "heap_except n v s r" "n \<le> length v" "c = 2 * r + 1 \<or> c = 2 * r + 2" "c < n"
    and "le (v ! r) (v ! c)" "\<forall>d. d = 2 * r + 1 \<or> d = 2 * r + 2 \<longrightarrow> d < n \<longrightarrow> le (v ! d) (v ! c)"
  shows "heap_except n (swap_at r c v) s c"
proof -
  have b: "r < length v" "c < length v" "r < c" using assms(2-4) by auto
  have node: "heap_node n (swap_at r c v) k" if k: "k \<ge> s" "k \<noteq> c" for k
  proof (cases "k = r")
    case True
    then show ?thesis using assms b by (auto simp: heap_node_def nth_swap_at)
  next
    case False
    have kids: "le (swap_at r c v ! d) (v ! k)" if "d = 2 * k + 1 \<or> d = 2 * k + 2" "d < n" for d
    proof -
      have "d \<noteq> c" using that(1) assms(3) False by auto
      moreover have "le (v ! d) (v ! k)"
        using assms(1) k False that unfolding heap_except_def heap_node_def by blast
      moreover have "le (v ! c) (v ! k)" if "d = r"
        using assms(1,3,4) k \<open>d = 2 * k + 1 \<or> d = 2 * k + 2\<close> that unfolding heap_except_def by blast
      ultimately show ?thesis using b assms(2) that(2) by (simp add: nth_swap_at)
    qed
    have "2 * k + 1 < n \<or> 2 * k + 2 < n \<Longrightarrow> swap_at r c v ! k = v ! k"
      using False k b assms(2) by (auto simp: nth_swap_at)
    then show ?thesis using kids by (auto simp: heap_node_def)
  qed
  have grand: "le (swap_at r c v ! d) (swap_at r c v ! p)"
    if "p \<ge> s" "c = 2 * p + 1 \<or> c = 2 * p + 2" "d = 2 * c + 1 \<or> d = 2 * c + 2" "d < n" for p d
  proof -
    have "p = r" using that(2) assms(3) by auto
    moreover have "heap_node n v c" using assms(1) b unfolding heap_except_def by auto
    then have "le (v ! d) (v ! c)" using that(3,4) by (auto simp: heap_node_def)
    ultimately show ?thesis using that(3,4) b assms(2) by (auto simp: nth_swap_at)
  qed
  show ?thesis
    using assms(1) b node grand unfolding heap_except_def by auto
qed

lemma sift_down_heap:
  "n \<le> length v \<Longrightarrow> heap_except n v s r \<Longrightarrow> k \<ge> s \<Longrightarrow> heap_node n (lpp_sift_down before v r n) k"
proof (induction "n - r" arbitrary: v r rule: less_induct)
  case less
  let ?c = "larger_child before v r n"
  have max: "le (v ! d) (v ! ?c)" if "d = 2 * r + 1 \<or> d = 2 * r + 2" "d < n" for d
    using that by (auto simp: larger_child_def before_le not_before_le)
  show ?case
  proof (cases "2 * r + 1 \<ge> n \<or> \<not> before (v ! r) (v ! ?c)")
    case True
    have "heap_node n v r"
    proof (cases "2 * r + 1 \<ge> n")
      case False
      with True have "le (v ! ?c) (v ! r)" by (simp add: not_before_le)
      with max le_trans show ?thesis unfolding heap_node_def by blast
    qed (simp add: heap_node_def)
    with less.prems True show ?thesis unfolding heap_except_def by (subst sift_down_unfold) auto
  next
    case False
    then have c: "?c = 2 * r + 1 \<or> ?c = 2 * r + 2" "?c < n" by (auto simp: larger_child_def)
    then have "heap_except n (swap_at r ?c v) s ?c"
      using less.prems False max by (intro heap_except_swap) (auto simp: before_le)
    moreover have "n - ?c < n - r" using c by auto
    ultimately show ?thesis
      using less.hyps [of ?c "swap_at r ?c v"] less.prems False by (subst sift_down_unfold) simp
  qed
qed

lemma heap_max:
  assumes "\<forall>k. heap_node n v k" "k < n"
  shows "le (v ! k) (v ! 0)"
  using assms(2)
proof (induction k rule: less_induct)
  case (less k)
  show ?case
  proof (cases "k = 0")
    case False
    let ?p = "(k - 1) div 2"
    have "k = 2 * ?p + 1 \<or> k = 2 * ?p + 2" "?p < k" using False by presburger+
    moreover have "heap_node n v ?p" using assms(1) by blast
    ultimately have "le (v ! k) (v ! ?p)" "le (v ! ?p) (v ! 0)"
      using less by (auto simp: heap_node_def)
    then show ?thesis by (rule le_trans)
  qed simp
qed
end

lemma sift_down_prefix:
  assumes "n \<le> length v"
  shows "drop n (lpp_sift_down before v r n) = drop n v"
    and "mset (take n (lpp_sift_down before v r n)) = mset (take n v)"
proof -
  let ?w = "lpp_sift_down before v r n"
  show d: "drop n ?w = drop n v"
    using assms by (intro nth_equalityI) (simp_all add: nth_sift_down)
  have "mset (take n ?w) + mset (drop n ?w) = mset (take n v) + mset (drop n v)"
    using assms by (simp flip: mset_append)
  with d show "mset (take n ?w) = mset (take n v)" by simp
qed

context cmp_order
begin

lemma heapify_ok:
  "length v = n \<Longrightarrow> \<forall>k \<ge> i. heap_node n v k \<Longrightarrow>
   (\<forall>k. heap_node n (heapify_loop before n i v) k) \<and> mset (heapify_loop before n i v) = mset v \<and>
   length (heapify_loop before n i v) = n"
proof (induction i arbitrary: v)
  case (Suc i)
  have "heap_except n v i i" using Suc.prems by (auto simp: heap_except_def Suc_le_eq)
  then have "\<forall>k \<ge> i. heap_node n (lpp_sift_down before v i n) k"
    using Suc.prems(1) sift_down_heap by blast
  then show ?case using Suc.IH [of "lpp_sift_down before v i n"] Suc.prems(1) by simp
qed simp

definition extract_inv :: "nat \<Rightarrow> i64 list \<Rightarrow> bool" where
  "extract_inv e v \<longleftrightarrow> e < length v \<and> (\<forall>k. heap_node (Suc e) v k) \<and> in_order (drop (Suc e) v) \<and>
     (\<forall>x \<in> set (take (Suc e) v). \<forall>y \<in> set (drop (Suc e) v). le x y)"

lemma extract_inv_step:
  assumes "extract_inv (Suc e) v"
  shows "extract_inv e (lpp_sift_down before (swap_at 0 (Suc e) v) 0 (Suc e))" (is "extract_inv e ?u")
proof -
  let ?w = "swap_at 0 (Suc e) v"
  have b: "Suc e < length v" using assms by (simp add: extract_inv_def)
  have same: "?w ! k = v ! k" if "0 < k" "k < Suc e" for k
    using that b by (subst nth_swap_at) auto
  have "heap_node (Suc e) ?w k" if "k \<noteq> 0" for k
    using that assms same by (auto simp: extract_inv_def heap_node_def)
  then have "heap_except (Suc e) ?w 0 0" by (auto simp: heap_except_def)
  then have heap: "\<forall>k. heap_node (Suc e) ?u k" using b sift_down_heap [of "Suc e" ?w 0 0] by simp
  have w: "drop (Suc e) ?w = v ! 0 # drop (Suc (Suc e)) v"
    using b by (simp add: Cons_nth_drop_Suc [symmetric] nth_swap_at) (simp add: swap_at_def)
  have "set (take (Suc e) ?w) \<subseteq> set (take (Suc (Suc e)) v)"
  proof
    fix x assume "x \<in> set (take (Suc e) ?w)"
    then obtain k where k: "k < Suc e" "x = ?w ! k" using b by (auto simp: in_set_conv_nth)
    then have "x = take (Suc (Suc e)) v ! (if k = 0 then Suc e else k)"
      using b by (cases "k = 0"; cases v) (auto simp: swap_at_def nth_list_update)
    then show "x \<in> set (take (Suc (Suc e)) v)"
      using b k nth_mem [of "if k = 0 then Suc e else k" "take (Suc (Suc e)) v"] by (auto split: if_splits)
  qed
  then have sub: "set (take (Suc e) ?u) \<subseteq> set (take (Suc (Suc e)) v)"
    using b sift_down_prefix(2) [of "Suc e" ?w before 0] by (metis length_swap_at less_imp_le mset_eq_setD)
  have max: "le x (v ! 0)" if "x \<in> set (take (Suc (Suc e)) v)" for x
    using that assms heap_max [of "Suc (Suc e)" v] by (auto simp: extract_inv_def in_set_conv_nth)
  have "v ! 0 \<in> set (take (Suc (Suc e)) v)" using b by (metis in_set_conv_nth length_take min_less_iff_conj nth_take zero_less_Suc order.strict_trans)
  then show ?thesis
    using assms heap b sub max w sift_down_prefix(1) [of "Suc e" ?w before 0]
    by (auto simp: extract_inv_def in_order_def)
qed

lemma extract_loop_ok:
  "extract_inv e v \<Longrightarrow> in_order (extract_loop before e v) \<and> mset (extract_loop before e v) = mset v"
proof (induction e arbitrary: v)
  case 0
  then show ?case by (cases v) (auto simp: extract_inv_def in_order_def)
next
  case (Suc e)
  then have "Suc e < length v" by (simp add: extract_inv_def)
  with Suc.IH [OF extract_inv_step [OF Suc.prems]] show ?case by (cases v) simp_all
qed

lemma heap_sort_ok:
  "in_order (lpp_heap_sort before v) \<and> mset (lpp_heap_sort before v) = mset v"
proof (cases "v = []")
  case False
  let ?h = "heapify_loop before (length v) (length v div 2) v"
  have "\<forall>k \<ge> length v div 2. heap_node (length v) v k" by (auto simp: heap_node_def)
  then have h: "\<forall>k. heap_node (length v) ?h k" "mset ?h = mset v" "length ?h = length v"
    using heapify_ok [of v "length v" "length v div 2"] by auto
  then have "extract_inv (length v - 1) ?h" using False by (simp add: extract_inv_def in_order_def)
  from extract_loop_ok [OF this] h show ?thesis by (simp add: lpp_heap_sort_def)
qed (simp add: lpp_heap_sort_def in_order_def)

end

section \<open>Partition\<close>

lemma scan_up_before:
  "(\<forall>k. i < k \<longrightarrow> k < scan_up before v pivot i \<longrightarrow> k < length v \<and> before (v ! k) pivot) \<and>
   (scan_up before v pivot i < length v \<longrightarrow> \<not> before (v ! scan_up before v pivot i) pivot)"
proof (induction "length v - i" arbitrary: i rule: less_induct)
  case less
  show ?case
  proof (cases "i + 1 < length v \<and> before (v ! (i + 1)) pivot")
    case True
    then have "scan_up before v pivot i = scan_up before v pivot (i + 1)"
      by (subst scan_up.simps) (simp add: Let_def)
    moreover have "length v - (i + 1) < length v - i" using True by linarith
    ultimately show ?thesis using less.hyps [of "i + 1"] True
      by (simp add: Suc_le_eq [symmetric]) (metis Suc_leD le_Suc_eq le_antisym not_less_eq_eq)
  next
    case False
    then have "scan_up before v pivot i = i + 1" by (subst scan_up.simps) (auto simp: Let_def)
    then show ?thesis using False by auto
  qed
qed

lemma scan_down_before:
  "(\<forall>k. scan_down before v pivot j < k \<longrightarrow> k < j \<longrightarrow> before pivot (v ! k)) \<and>
   (0 < scan_down before v pivot j \<longrightarrow> \<not> before pivot (v ! scan_down before v pivot j))"
  by (induction j) (auto simp: less_Suc_eq)

definition parted :: "LppCmpFn \<Rightarrow> i64 \<Rightarrow> nat \<Rightarrow> nat \<Rightarrow> i64 list \<Rightarrow> bool" where
  "parted before pivot i j v \<longleftrightarrow> (\<forall>k. 1 \<le> k \<longrightarrow> k \<le> i \<longrightarrow> k < length v \<longrightarrow> \<not> before pivot (v ! k)) \<and>
     (\<forall>k. j \<le> k \<longrightarrow> k < length v \<longrightarrow> \<not> before (v ! k) pivot)"

context cmp_order
begin

lemma part_loop_ok:
  "i < j \<Longrightarrow> j \<le> length v \<Longrightarrow> parted before pivot i j v \<Longrightarrow> part_loop before pivot i j v = (w, m) \<Longrightarrow>
   mset w = mset v \<and> length w = length v \<and> w ! 0 = v ! 0 \<and> m < length v \<and> parted before pivot m (Suc m) w"
proof (induction j arbitrary: i v rule: less_induct)
  case (less j)
  let ?i = "scan_up before v pivot i" and ?j = "scan_down before v pivot j"
  have e: "part_loop before pivot i j v =
      (if ?i \<ge> ?j then (v, ?j) else part_loop before pivot ?i ?j (swap_at ?i ?j v))"
    by (subst part_loop.simps) (simp add: Let_def)
  have ij: "i < ?i" "?j < j" using less.prems(1) by (auto intro: scan_up_gt scan_down_less)
  note up = scan_up_before [of i before v pivot] and down = scan_down_before [of before v pivot j]
  have lo: "\<not> before pivot (v ! k)" if "1 \<le> k" "k < ?i" "k < length v" for k
  proof (cases "k \<le> i")
    case False
    with that up have "before (v ! k) pivot" by auto
    then show ?thesis by (rule asym)
  qed (use less.prems(3) that in \<open>simp add: parted_def\<close>)
  have hi: "\<not> before (v ! k) pivot" if "?j < k" "k < length v" for k
  proof (cases "j \<le> k")
    case False
    with that down have "before pivot (v ! k)" by auto
    then show ?thesis by (rule asym)
  qed (use less.prems(3) that in \<open>simp add: parted_def\<close>)
  show ?case
  proof (cases "?i \<ge> ?j")
    case True
    have "\<not> before pivot (v ! k)" if "1 \<le> k" "k \<le> ?j" "k < length v" for k
      using that True lo [of k] down by (cases "k = ?j") auto
    with True hi e ij less.prems(2,4) show ?thesis by (auto simp: parted_def)
  next
    case False
    let ?w = "swap_at ?i ?j v"
    have b: "?i < length v" "?j < length v" using False ij less.prems(2) by auto
    have "\<not> before (v ! ?i) pivot" "\<not> before pivot (v ! ?j)" using up down b False by auto
    then have "parted before pivot ?i ?j ?w"
      using b False lo hi ij unfolding parted_def by (auto simp: nth_swap_at le_less)
    moreover have "part_loop before pivot ?i ?j ?w = (w, m)" using e False less.prems(4) by simp
    ultimately have "mset w = mset ?w \<and> length w = length ?w \<and> w ! 0 = ?w ! 0 \<and> m < length ?w \<and>
        parted before pivot m (Suc m) w"
      using False b ij by (intro less.IH) auto
    moreover have "?w ! 0 = v ! 0" using b False ij by (subst nth_swap_at) auto
    ultimately show ?thesis using b by simp
  qed
qed
end

section \<open>Quicksort\<close>

lemma median_to_front_mset [simp]:
  "length v > 16 \<Longrightarrow> mset (median_to_front before v) = mset v"
  "length (median_to_front before v) = length v"
proof -
  have b: "length v div 2 < length v" "length v - 1 < length v" "v \<noteq> []" if "length v > 16"
    using that by auto
  show "length v > 16 \<Longrightarrow> mset (median_to_front before v) = mset v"
    by (simp add: median_to_front_def Let_def b del: One_nat_def)
  show "length (median_to_front before v) = length v" by (simp add: median_to_front_def Let_def)
qed

context cmp_order
begin

lemma partition_step_ok:
  assumes "length v > 16" "partition_step before v = (w, j)"
  shows "mset w = mset v \<and> length w = length v \<and> j < length v \<and>
    (\<forall>x \<in> set (take j w). le x (w ! j)) \<and> (\<forall>y \<in> set (drop (Suc j) w). le (w ! j) y)"
proof -
  let ?v = "median_to_front before v"
  have ne: "v \<noteq> []" using assms(1) by auto
  obtain u where u: "part_loop before (?v ! 0) 0 (length ?v) ?v = (u, j)" "w = swap_at 0 j u"
    using assms(2) by (auto simp: partition_step_def Let_def split: prod.splits)
  have "parted before (?v ! 0) 0 (length ?v) ?v" by (simp add: parted_def)
  then have p: "mset u = mset ?v" "length u = length v" "u ! 0 = ?v ! 0" "j < length v"
      "parted before (u ! 0) j (Suc j) u"
    using part_loop_ok [OF _ _ _ u(1)] ne assms(1) by auto
  have b: "0 < length u" "j < length u" using p(2,4) by auto
  have wj: "w ! j = u ! 0" using b by (simp add: u(2) swap_at_def nth_list_update)
  have "le (w ! k) (w ! j)" if "k < j" for k
    using that b p(5) unfolding wj unfolding u(2) parted_def
    by (cases "k = 0") (auto simp: swap_at_def nth_list_update not_before_le)
  moreover have "le (w ! j) (w ! k)" if "j < k" "k < length u" for k
    using that b p(5) unfolding wj unfolding u(2) parted_def
    by (auto simp: swap_at_def nth_list_update not_before_le)
  moreover have "mset w = mset v" "length w = length v"
    using b p(1,2) assms(1) mset_swap_at [OF b] by (auto simp: u(2))
  ultimately show ?thesis using p(4) b p(2) by (auto simp: in_set_conv_nth)
qed

lemma in_order_join:
  assumes "in_order l" "in_order r" "\<forall>x \<in> set l. le x p" "\<forall>y \<in> set r. le p y"
  shows "in_order (l @ p # r)"
  using assms le_trans by (auto simp: in_order_def sorted_wrt_append)

lemma quick_sort_ok:
  "in_order (lpp_quick_sort before depth v) \<and> mset (lpp_quick_sort before depth v) = mset v"
proof (induction depth arbitrary: v)
  case 0
  then show ?case using heap_sort_ok insertion_sort_ok by simp
next
  case (Suc depth)
  show ?case
  proof (cases "length v > 16")
    case True
    obtain w j where pj: "partition_step before v = (w, j)" by fastforce
    note p = partition_step_ok [OF True pj]
    let ?l = "lpp_quick_sort before depth (take j w)" and ?r = "lpp_quick_sort before depth (drop (Suc j) w)"
    have e: "lpp_quick_sort before (Suc depth) v = ?l @ w ! j # ?r"
      using True pj by (simp add: Let_def)
    have s: "set ?l = set (take j w)" "set ?r = set (drop (Suc j) w)"
      using Suc.IH mset_eq_setD by blast+
    have "in_order (?l @ w ! j # ?r)"
      using Suc.IH p s by (intro in_order_join) auto
    moreover have "mset (?l @ w ! j # ?r) = mset (take j w @ w ! j # drop (Suc j) w)"
      using Suc.IH by simp
    ultimately show ?thesis using p unfolding e by (simp add: id_take_nth_drop [symmetric])
  next
    case False
    then show ?thesis using insertion_sort_ok by simp
  qed
qed

lemma sort_with_ok:
  "in_order (lpp_sort_with before v) \<and> mset (lpp_sort_with before v) = mset v"
proof (cases "length v < 2")
  case True
  then show ?thesis by (cases v) (auto simp: lpp_sort_with_def in_order_def)
qed (simp add: lpp_sort_with_def quick_sort_ok)

text \<open>Two arrangements of the same elements in the same order agree up to incomparable elements; when
  incomparable elements are equal the sorted arrangement is unique.\<close>

lemma in_order_unique:
  assumes "\<And>a b. \<not> before a b \<Longrightarrow> \<not> before b a \<Longrightarrow> a = b"
    and "in_order v" "in_order w" "mset v = mset w"
  shows "v = w"
  using assms(2-4)
proof (induction v arbitrary: w)
  case (Cons a v)
  then obtain b w' where w: "w = b # w'" by (cases w) auto
  have "b \<in> set (a # v)" "a \<in> set w" using Cons.prems(3) w mset_eq_setD by fastforce+
  then have "le a b" "le b a" using Cons.prems(1,2) w by (auto simp: in_order_def)
  then have "a = b" using assms(1) by (simp add: le_def)
  then show ?case using Cons.IH [of w'] Cons.prems w by (auto simp: in_order_def)
qed simp

end

interpretation i64_asc: cmp_order lpp_i64_lt
  by unfold_locales (auto simp: lpp_i64_lt_def)

interpretation i64_desc: cmp_order lpp_i64_gt
  by unfold_locales (auto simp: lpp_i64_gt_def)

interpretation u64_asc: cmp_order lpp_u64_lt
  by unfold_locales (auto simp: lpp_u64_lt_def)

section \<open>Properties\<close>

text \<open>The Windows runtime sorts by plain insertion sort with the comparison \<open>data[j] > k\<close>.\<close>

definition sort_win :: "(i64 \<Rightarrow> i64 \<Rightarrow> bool) \<Rightarrow> i64 list \<Rightarrow> i64 list" where
  "sort_win after v = (if length v < 2 then v else lpp_insertion_sort (\<lambda>k x. after x k) v)"

lemma in_order_iffs:
  "i64_asc.in_order v \<longleftrightarrow> sorted_wrt (\<lambda>a b. sint a \<le> sint b) v"
  "i64_desc.in_order v \<longleftrightarrow> sorted_wrt (\<lambda>a b. sint a \<ge> sint b) v"
  "u64_asc.in_order v \<longleftrightarrow> sorted_wrt (\<le>) v"
proof -
  have "i64_asc.le = (\<lambda>a b. sint a \<le> sint b)" "i64_desc.le = (\<lambda>a b. sint a \<ge> sint b)" "u64_asc.le = (\<le>)"
    by (auto simp: fun_eq_iff i64_asc.le_def i64_desc.le_def u64_asc.le_def lpp_i64_lt_def lpp_i64_gt_def lpp_u64_lt_def)
  then show "i64_asc.in_order v \<longleftrightarrow> sorted_wrt (\<lambda>a b. sint a \<le> sint b) v"
    "i64_desc.in_order v \<longleftrightarrow> sorted_wrt (\<lambda>a b. sint a \<ge> sint b) v"
    "u64_asc.in_order v \<longleftrightarrow> sorted_wrt (\<le>) v"
    by (simp_all add: i64_asc.in_order_def i64_desc.in_order_def u64_asc.in_order_def)
qed

lemma small_in_order: "length v < 2 \<Longrightarrow> sorted_wrt P v"
  by (cases v) auto

text \<open>C5: With any depth budget, hence also when it runs out and heap sort takes over, the quicksort
  of the runtime arranges the elements in the order of the comparison callback and neither loses nor
  invents one, for the signed ascending, signed descending and unsigned callbacks.\<close>

theorem lpp_quick_sort_correct:
  "sorted_wrt (\<lambda>a b. sint a \<le> sint b) (lpp_quick_sort lpp_i64_lt depth v) \<and>
   sorted_wrt (\<lambda>a b. sint a \<ge> sint b) (lpp_quick_sort lpp_i64_gt depth v) \<and>
   sorted_wrt (\<le>) (lpp_quick_sort lpp_u64_lt depth v) \<and>
   mset (lpp_quick_sort lpp_i64_lt depth v) = mset v \<and>
   mset (lpp_quick_sort lpp_i64_gt depth v) = mset v \<and>
   mset (lpp_quick_sort lpp_u64_lt depth v) = mset v"
  using i64_asc.quick_sort_ok i64_desc.quick_sort_ok u64_asc.quick_sort_ok
  by (simp add: in_order_iffs)

text \<open>Sorting an array with the introsort of the host runtime and with the insertion sort of the
  Windows runtime gives the same array, for each of the three orders.\<close>

theorem lpp_sort_host_eq_win:
  "lpp_sort_with lpp_i64_lt v = sort_win (\<lambda>a b. sint a > sint b) v \<and>
   lpp_sort_with lpp_i64_gt v = sort_win (\<lambda>a b. sint a < sint b) v \<and>
   lpp_sort_with lpp_u64_lt v = sort_win (\<lambda>a b. a > b) v"
proof -
  have small: "lpp_insertion_sort before v = v" if "length v < 2" for before
    using that by (cases v) (auto simp: lpp_insertion_sort_def)
  have cb: "(\<lambda>k x. sint x > sint k) = lpp_i64_lt" "(\<lambda>k x. sint x < sint k) = lpp_i64_gt" "(\<lambda>k x. x > k) = lpp_u64_lt"
    "(\<lambda>k x. lpp_i64_gt x k) = lpp_i64_lt" "(\<lambda>k x. lpp_i64_lt x k) = lpp_i64_gt"
    by (auto simp: fun_eq_iff lpp_i64_lt_def lpp_i64_gt_def lpp_u64_lt_def)
  have "lpp_sort_with lpp_i64_lt v = lpp_insertion_sort lpp_i64_lt v"
    using i64_asc.sort_with_ok [of v] i64_asc.insertion_sort_ok [of v]
    by (intro i64_asc.in_order_unique) (auto simp: lpp_i64_lt_def not_less intro!: sint_inj_64)
  moreover have "lpp_sort_with lpp_i64_gt v = lpp_insertion_sort lpp_i64_gt v"
    using i64_desc.sort_with_ok [of v] i64_desc.insertion_sort_ok [of v]
    by (intro i64_desc.in_order_unique) (auto simp: lpp_i64_gt_def not_less intro!: sint_inj_64)
  moreover have "lpp_sort_with lpp_u64_lt v = lpp_insertion_sort lpp_u64_lt v"
    using u64_asc.sort_with_ok [of v] u64_asc.insertion_sort_ok [of v]
    by (intro u64_asc.in_order_unique) (auto simp: lpp_u64_lt_def)
  ultimately show ?thesis
    unfolding sort_win_def cb by (simp add: small cb)
qed

end
