(* ===== verification/Lpp_List.thy ===== *)
theory Lpp_List
  imports Lpp_Sort
begin

text \<open>
  The growable list of \<open>int64_t\<close> slots in \<^verbatim>\<open>runtime/lpp_runtime.c\<close> and its freestanding variant in
  \<^verbatim>\<open>runtime/linux_x86_64_min.c\<close>. A list object is a record of its data block, its length, its
  capacity and its ownership callbacks; the retain and release calls an operation makes on ARC elements
  are returned as a trace of events, in the order of the calls. Lengths and indices are \<open>int64_t\<close>
  values and are kept as \<open>int\<close>; byte counts are taken modulo \<open>2 ^ 64\<close> where the code multiplies in \<open>size_t\<close>.
\<close>

section \<open>List objects\<close>

datatype arc_ev = Retain i64 | Release i64

record lpplist =
  ldata :: "i64 list"
  llen :: int
  lcap :: int
  retain_element :: bool
  drop_element :: bool

type_synonym listp = "lpplist option"

text \<open>The filter of both element callbacks: NULL, unaligned and small values are not ARC pointers.\<close>

definition is_arc_ptr :: "i64 \<Rightarrow> bool" where
  "is_arc_ptr v \<longleftrightarrow> \<not> (v = 0 \<or> v AND 7 \<noteq> 0 \<or> v < 0x1000)"

definition lpp_list_arc_retain_element :: "i64 \<Rightarrow> arc_ev list" where
  "lpp_list_arc_retain_element v = (if is_arc_ptr v then [Retain v] else [])"

definition lpp_list_arc_drop_element :: "i64 \<Rightarrow> arc_ev list" where
  "lpp_list_arc_drop_element v = (if is_arc_ptr v then [Release v] else [])"

text \<open>The optional callbacks: \<open>if (l->retain_element) l->retain_element(value)\<close>.\<close>

definition call_retain :: "lpplist \<Rightarrow> i64 \<Rightarrow> arc_ev list" where
  "call_retain l v = (if retain_element l then lpp_list_arc_retain_element v else [])"

definition call_drop :: "lpplist \<Rightarrow> i64 \<Rightarrow> arc_ev list" where
  "call_drop l v = (if drop_element l then lpp_list_arc_drop_element v else [])"

text \<open>Slot accesses fault outside the block.\<close>

definition rd_slot :: "lpplist \<Rightarrow> int \<Rightarrow> i64 res" where
  "rd_slot l i = (if 0 \<le> i \<and> i < int (length (ldata l)) then Inr (ldata l ! nat i)
     else Inl (Fault ''list slot outside the block''))"

definition wr_slot :: "lpplist \<Rightarrow> int \<Rightarrow> i64 \<Rightarrow> lpplist res" where
  "wr_slot l i v = (if 0 \<le> i \<and> i < int (length (ldata l)) then Inr (l\<lparr>ldata := (ldata l)[nat i := v]\<rparr>)
     else Inl (Fault ''list slot outside the block''))"

text \<open>
  \<open>realloc(data, (size_t)n * 8)\<close>: the old contents up to the new size and unspecified words (\<open>junk\<close>)
  behind them, or NULL when \<open>oom\<close> says the allocation of that many bytes fails.
\<close>

definition realloc_slots :: "(int \<Rightarrow> bool) \<Rightarrow> i64 \<Rightarrow> i64 list \<Rightarrow> int \<Rightarrow> i64 list option" where
  "realloc_slots oom junk d n =
     (let bytes = (n * 8) mod 2 ^ 64; slots = nat (bytes div 8)
      in if oom bytes then None else Some (take slots d @ replicate (slots - length d) junk))"

section \<open>Construction and destruction\<close>

definition lpp_list_new_with_ownership :: "(int \<Rightarrow> bool) \<Rightarrow> bool \<Rightarrow> bool \<Rightarrow> lpplist res" where
  "lpp_list_new_with_ownership oom r d =
     (if oom 40 then Inl (Panic ''out of memory while creating list'')
      else Inr \<lparr>ldata = [], llen = 0, lcap = 0, retain_element = r, drop_element = d\<rparr>)"

definition lpp_list_new :: "(int \<Rightarrow> bool) \<Rightarrow> lpplist res" where
  "lpp_list_new oom = lpp_list_new_with_ownership oom False False"

definition lpp_list_new_arc :: "(int \<Rightarrow> bool) \<Rightarrow> lpplist res" where
  "lpp_list_new_arc oom = lpp_list_new_with_ownership oom True True"

text \<open>The loop \<open>for (i = a; i < l->len; i++) l->drop_element(l->data[i])\<close>.\<close>

function drop_from :: "lpplist \<Rightarrow> int \<Rightarrow> arc_ev list res" where
  "drop_from l i =
     (if i < llen l
      then bind_res (rd_slot l i) (\<lambda>v. bind_res (drop_from l (i + 1)) (\<lambda>evs. Inr (call_drop l v @ evs)))
      else Inr [])"
  by auto
termination
  by (relation "measure (\<lambda>(l, i). nat (llen l - i))") auto

declare drop_from.simps [simp del]

definition lpp_list_destroy :: "listp \<Rightarrow> (listp \<times> arc_ev list) res" where
  "lpp_list_destroy lp = (case lp of None \<Rightarrow> Inr (None, [])
     | Some l \<Rightarrow> bind_res (if drop_element l then drop_from l 0 else Inr []) (\<lambda>evs.
         Inr (Some (l\<lparr>ldata := [], llen := 0, lcap := 0\<rparr>), evs)))"

section \<open>Elements\<close>

definition lpp_list_push :: "(int \<Rightarrow> bool) \<Rightarrow> i64 \<Rightarrow> listp \<Rightarrow> i64 \<Rightarrow> (lpplist \<times> arc_ev list) res" where
  "lpp_list_push oom junk lp value = (case lp of
     None \<Rightarrow> Inl (Panic ''push attempted on null list pointer'')
   | Some l \<Rightarrow>
       bind_res
        (if llen l = lcap l then
           if lcap l > INT64_MAX div 2 then Inl (Panic ''list capacity overflow'')
           else let new_cap = (if lcap l = 0 then 8 else lcap l * 2)
                in if new_cap > INT64_MAX div 8 then Inl (Panic ''list allocation size overflow'')
                   else case realloc_slots oom junk (ldata l) new_cap of
                     None \<Rightarrow> Inl (Panic ''out of memory while growing list'')
                   | Some d \<Rightarrow> Inr (l\<lparr>ldata := d, lcap := new_cap\<rparr>)
         else Inr l)
        (\<lambda>l. bind_res (wr_slot l (llen l) value) (\<lambda>l'.
           Inr (l'\<lparr>llen := llen l + 1\<rparr>, call_retain l value))))"

definition lpp_list_push_arc :: "(int \<Rightarrow> bool) \<Rightarrow> i64 \<Rightarrow> listp \<Rightarrow> i64 \<Rightarrow> (lpplist \<times> arc_ev list) res" where
  "lpp_list_push_arc oom junk lp value =
     lpp_list_push oom junk
       (map_option (\<lambda>l. if \<not> retain_element l then l\<lparr>retain_element := True, drop_element := True\<rparr> else l) lp)
       value"

definition lpp_list_push_bool :: "(int \<Rightarrow> bool) \<Rightarrow> i64 \<Rightarrow> listp \<Rightarrow> u8 \<Rightarrow> (lpplist \<times> arc_ev list) res" where
  "lpp_list_push_bool oom junk lp b = lpp_list_push oom junk lp (if b \<noteq> 0 then 1 else 0)"

definition lpp_list_get :: "listp \<Rightarrow> int \<Rightarrow> i64 res" where
  "lpp_list_get lp index = (case lp of
     None \<Rightarrow> Inl (Panic ''list index access attempted on null list pointer'')
   | Some l \<Rightarrow> if index < 0 \<or> index \<ge> llen l then Inl (Panic ''list index out of bounds'')
               else rd_slot l index)"

definition lpp_list_set :: "listp \<Rightarrow> int \<Rightarrow> i64 \<Rightarrow> (lpplist \<times> arc_ev list) res" where
  "lpp_list_set lp index value = (case lp of
     None \<Rightarrow> Inl (Panic ''list set attempted on null list pointer'')
   | Some l \<Rightarrow>
       if index < 0 \<or> index \<ge> llen l then Inl (Panic ''list index out of bounds on set'')
       else let r = (if retain_element l \<and> value \<noteq> 0 then lpp_list_arc_retain_element value else [])
            in bind_res (if drop_element l
                         then bind_res (rd_slot l index) (\<lambda>old. Inr (if old \<noteq> 0 then lpp_list_arc_drop_element old else []))
                         else Inr [])
                 (\<lambda>d. bind_res (wr_slot l index value) (\<lambda>l'. Inr (l', r @ d))))"

definition lpp_list_set_bool :: "listp \<Rightarrow> int \<Rightarrow> u8 \<Rightarrow> (lpplist \<times> arc_ev list) res" where
  "lpp_list_set_bool lp index b = lpp_list_set lp index (if b \<noteq> 0 then 1 else 0)"

definition lpp_list_get_bool :: "listp \<Rightarrow> int \<Rightarrow> bool res" where
  "lpp_list_get_bool lp index = bind_res (lpp_list_get lp index) (\<lambda>v. Inr (v \<noteq> 0))"

text \<open>A \<open>double\<close> and an object pointer are stored as their 64 bits; the list sees the bits only.\<close>

definition lpp_list_push_float :: "(int \<Rightarrow> bool) \<Rightarrow> i64 \<Rightarrow> listp \<Rightarrow> i64 \<Rightarrow> (lpplist \<times> arc_ev list) res" where
  "lpp_list_push_float oom junk lp bits = lpp_list_push oom junk lp bits"

definition lpp_list_set_float :: "listp \<Rightarrow> int \<Rightarrow> i64 \<Rightarrow> (lpplist \<times> arc_ev list) res" where
  "lpp_list_set_float lp index bits = lpp_list_set lp index bits"

definition lpp_list_set_arc :: "listp \<Rightarrow> int \<Rightarrow> i64 \<Rightarrow> (lpplist \<times> arc_ev list) res" where
  "lpp_list_set_arc lp index p = lpp_list_set lp index p"

definition lpp_list_get_float :: "listp \<Rightarrow> int \<Rightarrow> i64 res" where
  "lpp_list_get_float lp index = lpp_list_get lp index"

definition lpp_list_get_arc :: "listp \<Rightarrow> int \<Rightarrow> i64 res" where
  "lpp_list_get_arc lp index = lpp_list_get lp index"

definition lpp_list_free :: "i64 \<Rightarrow> arc_ev list" where
  "lpp_list_free p = [Release p]"

definition lpp_list_len :: "listp \<Rightarrow> int" where
  "lpp_list_len lp = (case lp of None \<Rightarrow> 0 | Some l \<Rightarrow> llen l)"

definition lpp_list_pop :: "listp \<Rightarrow> (lpplist \<times> i64) res" where
  "lpp_list_pop lp = (case lp of
     None \<Rightarrow> Inl (Panic ''list pop attempted on empty or null list'')
   | Some l \<Rightarrow>
       if llen l \<le> 0 then Inl (Panic ''list pop attempted on empty or null list'')
       else let l = l\<lparr>llen := llen l - 1\<rparr> in bind_res (rd_slot l (llen l)) (\<lambda>v. Inr (l, v)))"

section \<open>Insertion, removal and capacity\<close>

text \<open>\<open>memmove\<close> of the \<open>n\<close> slots at \<open>from\<close> to \<open>to\<close>.\<close>

definition move_slots :: "lpplist \<Rightarrow> int \<Rightarrow> int \<Rightarrow> int \<Rightarrow> lpplist res" where
  "move_slots l to from n =
     (if 0 \<le> n \<and> 0 \<le> from \<and> 0 \<le> to \<and> from + n \<le> int (length (ldata l)) \<and> to + n \<le> int (length (ldata l))
      then Inr (l\<lparr>ldata := take (nat to) (ldata l) @ take (nat n) (drop (nat from) (ldata l)) @
                           drop (nat (to + n)) (ldata l)\<rparr>)
      else Inl (Fault ''memmove outside the block''))"

definition lpp_list_insert :: "(int \<Rightarrow> bool) \<Rightarrow> i64 \<Rightarrow> listp \<Rightarrow> int \<Rightarrow> i64 \<Rightarrow> (lpplist \<times> arc_ev list) res" where
  "lpp_list_insert oom junk lp index value = (case lp of
     None \<Rightarrow> Inl (Panic ''list insert attempted on null pointer'')
   | Some l \<Rightarrow>
       if index < 0 \<or> index > llen l then Inl (Panic ''list insert index out of bounds'')
       else bind_res
        (if llen l = lcap l then
           let new_cap = (if lcap l = 0 then 8 else lcap l * 2)
           in if new_cap > INT64_MAX then Inl (Fault ''signed overflow of the capacity'')
              else case realloc_slots oom junk (ldata l) new_cap of
                None \<Rightarrow> Inl (Panic ''out of memory while inserting into list'')
              | Some d \<Rightarrow> Inr (l\<lparr>ldata := d, lcap := new_cap\<rparr>)
         else Inr l)
        (\<lambda>l. bind_res (if index < llen l then move_slots l (index + 1) index (llen l - index) else Inr l)
        (\<lambda>l. bind_res (wr_slot l index value)
        (\<lambda>l'. Inr (l'\<lparr>llen := llen l + 1\<rparr>, call_retain l value)))))"

definition lpp_list_remove :: "listp \<Rightarrow> int \<Rightarrow> (lpplist \<times> i64) res" where
  "lpp_list_remove lp index = (case lp of
     None \<Rightarrow> Inl (Panic ''list remove attempted on null pointer'')
   | Some l \<Rightarrow>
       if index < 0 \<or> index \<ge> llen l then Inl (Panic ''list remove index out of bounds'')
       else bind_res (rd_slot l index) (\<lambda>val.
              bind_res (if index < llen l - 1 then move_slots l index (index + 1) (llen l - index - 1) else Inr l)
                (\<lambda>l. Inr (l\<lparr>llen := llen l - 1\<rparr>, val))))"

definition lpp_list_reserve :: "(int \<Rightarrow> bool) \<Rightarrow> i64 \<Rightarrow> listp \<Rightarrow> int \<Rightarrow> listp res" where
  "lpp_list_reserve oom junk lp capacity = (case lp of
     None \<Rightarrow> Inr None
   | Some l \<Rightarrow>
       if capacity \<le> lcap l then Inr (Some l)
       else case realloc_slots oom junk (ldata l) capacity of
         None \<Rightarrow> Inl (Panic ''out of memory in list_reserve'')
       | Some d \<Rightarrow> Inr (Some (l\<lparr>ldata := d, lcap := capacity\<rparr>)))"

definition lpp_list_capacity :: "listp \<Rightarrow> int" where
  "lpp_list_capacity lp = (case lp of None \<Rightarrow> 0 | Some l \<Rightarrow> lcap l)"

definition lpp_list_clear :: "listp \<Rightarrow> (listp \<times> arc_ev list) res" where
  "lpp_list_clear lp = (case lp of None \<Rightarrow> Inr (None, [])
     | Some l \<Rightarrow> bind_res (if drop_element l then drop_from l 0 else Inr []) (\<lambda>evs.
         Inr (Some (l\<lparr>llen := 0\<rparr>), evs)))"

definition lpp_list_truncate :: "listp \<Rightarrow> int \<Rightarrow> (listp \<times> arc_ev list) res" where
  "lpp_list_truncate lp new_len = (case lp of None \<Rightarrow> Inr (None, [])
     | Some l \<Rightarrow>
         if new_len \<ge> llen l \<or> new_len < 0 then Inr (Some l, [])
         else bind_res (if drop_element l then drop_from l new_len else Inr []) (\<lambda>evs.
           Inr (Some (l\<lparr>llen := new_len\<rparr>), evs)))"

definition exchange_slots :: "lpplist \<Rightarrow> int \<Rightarrow> int \<Rightarrow> lpplist res" where
  "exchange_slots l i j =
     bind_res (rd_slot l i) (\<lambda>tmp. bind_res (rd_slot l j) (\<lambda>w.
       bind_res (wr_slot l i w) (\<lambda>l. wr_slot l j tmp)))"

definition lpp_list_swap :: "listp \<Rightarrow> int \<Rightarrow> int \<Rightarrow> lpplist res" where
  "lpp_list_swap lp i j = (case lp of
     None \<Rightarrow> Inl (Panic ''list swap on null pointer'')
   | Some l \<Rightarrow>
       if i < 0 \<or> i \<ge> llen l \<or> j < 0 \<or> j \<ge> llen l then Inl (Panic ''list swap indices out of bounds'')
       else exchange_slots l i j)"

function reverse_loop :: "lpplist \<Rightarrow> int \<Rightarrow> int \<Rightarrow> lpplist res" where
  "reverse_loop l i j =
     (if i < j then bind_res (exchange_slots l i j) (\<lambda>l. reverse_loop l (i + 1) (j - 1)) else Inr l)"
  by auto
termination
  by (relation "measure (\<lambda>(l, i, j). nat (j - i))") auto

declare reverse_loop.simps [simp del]

definition lpp_list_reverse :: "listp \<Rightarrow> listp res" where
  "lpp_list_reverse lp = (case lp of None \<Rightarrow> Inr None
     | Some l \<Rightarrow> if llen l \<le> 1 then Inr (Some l)
                 else bind_res (reverse_loop l 0 (llen l - 1)) (\<lambda>l. Inr (Some l)))"

section \<open>Sorting and searching\<close>

text \<open>The sort routines run on the first \<open>len\<close> slots of the block.\<close>

definition lpp_list_sort_with :: "LppCmpFn \<Rightarrow> listp \<Rightarrow> listp res" where
  "lpp_list_sort_with before lp = (case lp of None \<Rightarrow> Inr None
     | Some l \<Rightarrow>
         if llen l < 2 then Inr (Some l)
         else if llen l > int (length (ldata l)) then Inl (Fault ''list slot outside the block'')
         else let n = nat (llen l)
              in Inr (Some (l\<lparr>ldata := lpp_quick_sort before (depth_loop n) (take n (ldata l)) @ drop n (ldata l)\<rparr>)))"

definition lpp_list_sort :: "listp \<Rightarrow> listp res" where
  "lpp_list_sort lp = lpp_list_sort_with lpp_i64_lt lp"

definition lpp_list_sort_desc :: "listp \<Rightarrow> listp res" where
  "lpp_list_sort_desc lp = lpp_list_sort_with lpp_i64_gt lp"

definition lpp_list_sort_u :: "listp \<Rightarrow> listp res" where
  "lpp_list_sort_u lp = lpp_list_sort_with lpp_u64_lt lp"

function index_loop :: "lpplist \<Rightarrow> i64 \<Rightarrow> int \<Rightarrow> int res" where
  "index_loop l value i =
     (if i < llen l
      then bind_res (rd_slot l i) (\<lambda>v. if v = value then Inr i else index_loop l value (i + 1))
      else Inr (- 1))"
  by auto
termination
  by (relation "measure (\<lambda>(l, value, i). nat (llen l - i))") auto

declare index_loop.simps [simp del]

definition lpp_list_index_of :: "listp \<Rightarrow> i64 \<Rightarrow> int res" where
  "lpp_list_index_of lp value = (case lp of None \<Rightarrow> Inr (- 1) | Some l \<Rightarrow> index_loop l value 0)"

function search_loop :: "lpplist \<Rightarrow> i64 \<Rightarrow> int \<Rightarrow> int \<Rightarrow> int res" where
  "search_loop l value lo hi =
     (if lo \<le> hi
      then let mid = lo + (hi - lo) div 2
           in bind_res (rd_slot l mid) (\<lambda>probe.
                if probe = value then Inr mid
                else if sint probe < sint value then search_loop l value (mid + 1) hi
                else search_loop l value lo (mid - 1))
      else Inr (- (lo + 1)))"
  by auto
termination
  by (relation "measure (\<lambda>(l, value, lo, hi). nat (hi - lo + 1))") auto

declare search_loop.simps [simp del]

definition lpp_list_binary_search :: "listp \<Rightarrow> i64 \<Rightarrow> int res" where
  "lpp_list_binary_search lp value =
     (case lp of None \<Rightarrow> Inr (- 1) | Some l \<Rightarrow> search_loop l value 0 (llen l - 1))"

function extend_loop :: "lpplist \<Rightarrow> lpplist \<Rightarrow> int \<Rightarrow> int \<Rightarrow> (lpplist \<times> arc_ev list) res" where
  "extend_loop d s add i =
     (if i < add
      then bind_res (rd_slot s i) (\<lambda>v.
             bind_res (wr_slot d (llen d + i) v) (\<lambda>d'.
               bind_res (extend_loop d' s add (i + 1)) (\<lambda>(d'', evs). Inr (d'', call_retain d v @ evs))))
      else Inr (d, []))"
  by auto
termination
  by (relation "measure (\<lambda>(d, s, add, i). nat (add - i))") auto

declare extend_loop.simps [simp del]

text \<open>The destination and the source are distinct objects here; \<open>d->len\<close> changes only after the loop.\<close>

definition lpp_list_extend :: "(int \<Rightarrow> bool) \<Rightarrow> i64 \<Rightarrow> listp \<Rightarrow> listp \<Rightarrow> (lpplist \<times> arc_ev list) res" where
  "lpp_list_extend oom junk dst src = (case dst of
     None \<Rightarrow> Inl (Panic ''list extend attempted on null destination'')
   | Some d \<Rightarrow>
       (case src of None \<Rightarrow> Inr (d, [])
        | Some s \<Rightarrow>
            if llen s = 0 then Inr (d, [])
            else let add = llen s
                 in if llen d + add > INT64_MAX then Inl (Fault ''signed overflow of the capacity'')
                    else bind_res (lpp_list_reserve oom junk (Some d) (llen d + add)) (\<lambda>dp.
                      case dp of None \<Rightarrow> Inl (Fault ''list slot outside the block'')
                      | Some d \<Rightarrow> bind_res (extend_loop d s add 0) (\<lambda>(d', evs).
                          Inr (d'\<lparr>llen := llen d + add\<rparr>, evs)))))"

section \<open>Ownership accounting\<close>

fun retained :: "arc_ev list \<Rightarrow> i64 multiset" where
  "retained [] = {#}"
| "retained (Retain v # evs) = add_mset v (retained evs)"
| "retained (Release v # evs) = retained evs"

fun released :: "arc_ev list \<Rightarrow> i64 multiset" where
  "released [] = {#}"
| "released (Retain v # evs) = released evs"
| "released (Release v # evs) = add_mset v (released evs)"

lemma retained_append [simp]: "retained (a @ b) = retained a + retained b"
  by (induction a rule: retained.induct) auto

lemma released_append [simp]: "released (a @ b) = released a + released b"
  by (induction a rule: released.induct) auto

section \<open>Invariant and abstraction\<close>

definition list_ok :: "lpplist \<Rightarrow> bool" where
  "list_ok l \<longleftrightarrow> 0 \<le> llen l \<and> llen l \<le> lcap l \<and> lcap l = int (length (ldata l)) \<and>
     lcap l * 8 \<le> INT64_MAX \<and> retain_element l = drop_element l"

definition abs_list :: "lpplist \<Rightarrow> i64 list" where
  "abs_list l = take (nat (llen l)) (ldata l)"

text \<open>libc refuses requests of more than \<open>PTRDIFF_MAX\<close> bytes.\<close>

definition big_oom :: "(int \<Rightarrow> bool) \<Rightarrow> bool" where
  "big_oom oom \<longleftrightarrow> (\<forall>n. n > INT64_MAX \<longrightarrow> oom n)"

lemma length_abs_list [simp]: "list_ok l \<Longrightarrow> int (length (abs_list l)) = llen l"
  by (auto simp: list_ok_def abs_list_def)

lemma nth_abs_list: "list_ok l \<Longrightarrow> 0 \<le> i \<Longrightarrow> i < llen l \<Longrightarrow> abs_list l ! nat i = ldata l ! nat i"
  by (simp add: abs_list_def)

lemma rd_slot_ok: "list_ok l \<Longrightarrow> 0 \<le> i \<Longrightarrow> i < llen l \<Longrightarrow> rd_slot l i = Inr (abs_list l ! nat i)"
  by (auto simp: rd_slot_def list_ok_def abs_list_def)

lemma wr_slot_ok:
  "list_ok l \<Longrightarrow> 0 \<le> i \<Longrightarrow> i < llen l \<Longrightarrow>
   wr_slot l i v = Inr (l\<lparr>ldata := (ldata l)[nat i := v]\<rparr>) \<and> list_ok (l\<lparr>ldata := (ldata l)[nat i := v]\<rparr>) \<and>
   abs_list (l\<lparr>ldata := (ldata l)[nat i := v]\<rparr>) = (abs_list l)[nat i := v]"
  by (auto simp: wr_slot_def list_ok_def abs_list_def take_update_swap)

lemma realloc_slots_cases:
  assumes "big_oom oom" "0 \<le> n" "n < 2 ^ 61" "int (length d) \<le> n"
  shows "realloc_slots oom junk d n = None \<and> oom (n * 8) \<or>
    n * 8 \<le> INT64_MAX \<and> realloc_slots oom junk d n = Some (d @ replicate (nat n - length d) junk)"
proof -
  have m: "(n * 8) mod 2 ^ 64 = n * 8" using assms(2,3) by (intro mod_pos_pos_trivial) auto
  have "length d \<le> nat n" using assms(4) by auto
  then show ?thesis using assms(1) unfolding realloc_slots_def m Let_def by (auto simp: big_oom_def not_less)
qed

text \<open>Growing the block keeps the list.\<close>

lemma grow_ok:
  assumes "list_ok l" "lcap l \<le> n" "n * 8 \<le> INT64_MAX"
  shows "list_ok (l\<lparr>ldata := ldata l @ replicate (nat n - length (ldata l)) junk, lcap := n\<rparr>)"
    and "abs_list (l\<lparr>ldata := ldata l @ replicate (nat n - length (ldata l)) junk, lcap := n\<rparr>) = abs_list l"
  using assms by (auto simp: list_ok_def abs_list_def)

lemma append_slot_ok:
  assumes "list_ok l" "llen l < lcap l"
  shows "\<exists>l'. wr_slot l (llen l) v = Inr l' \<and> list_ok (l'\<lparr>llen := llen l + 1\<rparr>) \<and>
    abs_list (l'\<lparr>llen := llen l + 1\<rparr>) = abs_list l @ [v] \<and> retain_element l' = retain_element l"
proof -
  let ?n = "nat (llen l)"
  have b: "0 \<le> llen l" "?n < length (ldata l)" using assms by (auto simp: list_ok_def)
  then have s: "wr_slot l (llen l) v = Inr (l\<lparr>ldata := (ldata l)[?n := v]\<rparr>)" by (simp add: wr_slot_def)
  moreover have "take (Suc ?n) ((ldata l)[?n := v]) = take ?n (ldata l) @ [v]"
    using b by (simp add: take_Suc_conv_app_nth)
  moreover have "nat (llen l + 1) = Suc ?n" using b by simp
  ultimately show ?thesis using assms by (auto simp: list_ok_def abs_list_def)
qed

definition is_panic :: "'a res \<Rightarrow> bool" where
  "is_panic r \<longleftrightarrow> (\<exists>s. r = Inl (Panic s))"

lemma list_push_cases:
  assumes "list_ok l" "big_oom oom"
  shows "is_panic (lpp_list_push oom junk (Some l) v) \<and> llen l = lcap l \<or>
    (\<exists>l'. lpp_list_push oom junk (Some l) v = Inr (l', call_retain l v) \<and> list_ok l' \<and>
       abs_list l' = abs_list l @ [v] \<and> retain_element l' = retain_element l)"
proof (cases "llen l = lcap l")
  case True
  define n where "n = (if lcap l = 0 then 8 else lcap l * 2)"
  have nn: "lcap l < n" "n < 2 ^ 61" "0 \<le> n" "int (length (ldata l)) \<le> n"
    using assms(1) by (auto simp: n_def list_ok_def INT64_MAX_def)
  have nc: "\<not> lcap l > INT64_MAX div 2" using assms(1) by (auto simp: list_ok_def INT64_MAX_def)
  show ?thesis
  proof (cases "n > INT64_MAX div 8 \<or> realloc_slots oom junk (ldata l) n = None")
    case True
    with \<open>llen l = lcap l\<close> nc show ?thesis
      by (auto simp: lpp_list_push_def is_panic_def n_def Let_def split: if_splits)
  next
    case False
    let ?l = "l\<lparr>ldata := ldata l @ replicate (nat n - length (ldata l)) junk, lcap := n\<rparr>"
    have r: "n * 8 \<le> INT64_MAX" "realloc_slots oom junk (ldata l) n = Some (ldata ?l)"
      using realloc_slots_cases [OF assms(2) nn(3,2,4), of junk] False by auto
    note g = grow_ok [OF assms(1) less_imp_le [OF nn(1)] r(1), of junk]
    obtain l' where "wr_slot ?l (llen ?l) v = Inr l' \<and> list_ok (l'\<lparr>llen := llen ?l + 1\<rparr>) \<and>
        abs_list (l'\<lparr>llen := llen ?l + 1\<rparr>) = abs_list ?l @ [v] \<and> retain_element l' = retain_element ?l"
      using append_slot_ok [OF g(1)] nn(1) True by auto
    moreover have "lpp_list_push oom junk (Some l) v =
        bind_res (wr_slot ?l (llen ?l) v) (\<lambda>l'. Inr (l'\<lparr>llen := llen ?l + 1\<rparr>, call_retain ?l v))"
      using True nc False r(2) by (simp add: lpp_list_push_def n_def Let_def)
    ultimately show ?thesis using g(2) by (auto simp: call_retain_def)
  qed
next
  case False
  then have "llen l < lcap l" using assms(1) by (auto simp: list_ok_def)
  from append_slot_ok [OF assms(1) this, of v] False show ?thesis by (auto simp: lpp_list_push_def)
qed

lemma list_get_ok: "list_ok l \<Longrightarrow> 0 \<le> i \<Longrightarrow> i < llen l \<Longrightarrow> lpp_list_get (Some l) i = Inr (abs_list l ! nat i)"
  by (simp add: lpp_list_get_def rd_slot_ok)

lemma list_set_ok:
  assumes "list_ok l" "0 \<le> i" "i < llen l"
  shows "\<exists>l'. lpp_list_set (Some l) i v = Inr (l', call_retain l v @ call_drop l (abs_list l ! nat i)) \<and>
    list_ok l' \<and> abs_list l' = (abs_list l)[nat i := v] \<and> retain_element l' = retain_element l"
  using assms rd_slot_ok [OF assms] wr_slot_ok [OF assms, of v]
  by (auto simp: lpp_list_set_def Let_def call_retain_def call_drop_def lpp_list_arc_retain_element_def
      lpp_list_arc_drop_element_def is_arc_ptr_def)

lemma list_pop_ok:
  assumes "list_ok l" "0 < llen l"
  shows "\<exists>l'. lpp_list_pop (Some l) = Inr (l', last (abs_list l)) \<and> list_ok l' \<and>
    abs_list l' = butlast (abs_list l) \<and> retain_element l' = retain_element l"
proof -
  let ?n = "nat (llen l - 1)"
  have n: "nat (llen l) = Suc ?n" "?n < length (ldata l)" using assms by (auto simp: list_ok_def)
  then have "abs_list l = take ?n (ldata l) @ [ldata l ! ?n]"
    by (simp add: abs_list_def take_Suc_conv_app_nth)
  then show ?thesis using assms n
    by (auto simp: lpp_list_pop_def Let_def rd_slot_def list_ok_def abs_list_def)
qed

lemma slots_shift_up:
  assumes "k \<le> n" "n < length d"
  shows "(take (Suc k) d @ take (n - k) (drop k d) @ drop (Suc n) d)[k := v] =
    take k d @ v # drop k (take n d) @ drop (Suc n) d"
  using assms by (simp add: take_Suc_conv_app_nth list_update_append drop_take)

lemma slots_shift_down:
  assumes "k < n" "n \<le> length d"
  shows "take (n - 1) (take k d @ take (n - Suc k) (drop (Suc k) d) @ drop (n - 1) d) =
    take k (take n d) @ drop (Suc k) (take n d)"
    and "length (take k d @ take (n - Suc k) (drop (Suc k) d) @ drop (n - 1) d) = length d"
proof -
  let ?a = "take k d" and ?b = "take (n - Suc k) (drop (Suc k) d)"
  have l: "length ?a = k" "length ?b = n - Suc k" using assms by auto
  then have "length (?a @ ?b) = n - 1" using assms(1) by simp
  then have "take (n - 1) ((?a @ ?b) @ drop (n - 1) d) = ?a @ ?b" by (metis append_eq_conv_conj)
  moreover have "take k (take n d) = ?a" "drop (Suc k) (take n d) = ?b" using assms by (simp_all add: min_def drop_take)
  ultimately show "take (n - 1) (?a @ ?b @ drop (n - 1) d) = take k (take n d) @ drop (Suc k) (take n d)" by simp
  show "length (?a @ ?b @ drop (n - 1) d) = length d" using assms l by simp
qed

lemma list_nat_view:
  assumes "list_ok l"
  obtains n where "llen l = int n" "n \<le> length (ldata l)" "abs_list l = take n (ldata l)"
  using assms by (intro that [of "nat (llen l)"]) (auto simp: list_ok_def abs_list_def)

lemma place_ok:
  assumes "list_ok l" "0 \<le> i" "i \<le> llen l" "llen l < lcap l"
  shows "\<exists>l' l''. (if i < llen l then move_slots l (i + 1) i (llen l - i) else Inr l) = Inr l' \<and>
    wr_slot l' i v = Inr l'' \<and> llen l' = llen l \<and> list_ok (l''\<lparr>llen := llen l + 1\<rparr>) \<and>
    abs_list (l''\<lparr>llen := llen l + 1\<rparr>) = take (nat i) (abs_list l) @ v # drop (nat i) (abs_list l) \<and>
    retain_element l' = retain_element l \<and> retain_element l'' = retain_element l"
proof (cases "i < llen l")
  case True
  obtain n where n: "llen l = int n" "abs_list l = take n (ldata l)" using list_nat_view [OF assms(1)] by blast
  obtain k where k: "i = int k" using assms(2) by (rule nonneg_int_cases)
  let ?d = "ldata l"
  let ?e = "take (Suc k) ?d @ take (n - k) (drop k ?d) @ drop (Suc n) ?d"
  have kn: "k < n" "n < length ?d" using True n k assms(1,4) by (auto simp: list_ok_def)
  have nats: "nat (int k + 1) = Suc k" "nat (int n - int k) = n - k" "nat (int k + 1 + (int n - int k)) = Suc n" "nat (int n + 1) = Suc n"
    using kn by auto
  have m: "move_slots l (i + 1) i (llen l - i) = Inr (l\<lparr>ldata := ?e\<rparr>)"
    unfolding n(1) k move_slots_def nats nat_int using kn by simp
  have len: "length ?e = length ?d" using kn by simp
  have w: "wr_slot (l\<lparr>ldata := ?e\<rparr>) i v = Inr (l\<lparr>ldata := ?e[k := v]\<rparr>)"
    using kn len unfolding k wr_slot_def by simp
  have "take (Suc n) (?e[k := v]) = take k (take n ?d) @ v # drop k (take n ?d)"
    unfolding slots_shift_up [OF less_imp_le [OF kn(1)] kn(2)] using kn by (simp add: min_def Suc_diff_le)
  then have "abs_list (l\<lparr>ldata := ?e[k := v], llen := llen l + 1\<rparr>) = take (nat i) (abs_list l) @ v # drop (nat i) (abs_list l)"
    unfolding n(2) k nat_int by (simp add: abs_list_def n(1) nats)
  moreover have "list_ok (l\<lparr>ldata := ?e[k := v], llen := llen l + 1\<rparr>)"
    using assms(1,4) len by (simp add: list_ok_def)
  ultimately show ?thesis using m w True by auto
next
  case False
  then have "i = llen l" using assms(3) by simp
  moreover have "length (abs_list l) = nat (llen l)" using length_abs_list [OF assms(1)] by simp
  ultimately show ?thesis using append_slot_ok [OF assms(1,4), of v] by auto
qed

lemma insert_tail_ok:
  assumes "list_ok l" "0 \<le> i" "i \<le> llen l" "llen l < lcap l"
  shows "\<exists>l'. bind_res (if i < llen l then move_slots l (i + 1) i (llen l - i) else Inr l)
      (\<lambda>l. bind_res (wr_slot l i v) (\<lambda>l'. Inr (l'\<lparr>llen := llen l + 1\<rparr>, call_retain l v))) = Inr (l', call_retain l v) \<and>
    list_ok l' \<and> abs_list l' = take (nat i) (abs_list l) @ v # drop (nat i) (abs_list l) \<and>
    retain_element l' = retain_element l"
proof -
  obtain l' l'' where p: "(if i < llen l then move_slots l (i + 1) i (llen l - i) else Inr l) = Inr l'"
      "wr_slot l' i v = Inr l''" "llen l' = llen l" "list_ok (l''\<lparr>llen := llen l + 1\<rparr>)"
      "abs_list (l''\<lparr>llen := llen l + 1\<rparr>) = take (nat i) (abs_list l) @ v # drop (nat i) (abs_list l)"
      "retain_element l' = retain_element l" "retain_element l'' = retain_element l"
    using place_ok [OF assms, of v] by blast
  have "call_retain l' v = call_retain l v" using p(6) by (simp add: call_retain_def)
  then show ?thesis unfolding p(1) using p(2-7) by (intro exI [of _ "l''\<lparr>llen := llen l + 1\<rparr>"]) simp
qed

lemma list_insert_cases:
  assumes "list_ok l" "big_oom oom" "0 \<le> i" "i \<le> llen l"
  shows "is_panic (lpp_list_insert oom junk (Some l) i v) \<and> llen l = lcap l \<or>
    (\<exists>l'. lpp_list_insert oom junk (Some l) i v = Inr (l', call_retain l v) \<and> list_ok l' \<and>
       abs_list l' = take (nat i) (abs_list l) @ v # drop (nat i) (abs_list l) \<and> retain_element l' = retain_element l)"
proof (cases "llen l = lcap l")
  case True
  define n where "n = (if lcap l = 0 then 8 else lcap l * 2)"
  have nn: "lcap l < n" "n < 2 ^ 61" "0 \<le> n" "int (length (ldata l)) \<le> n" "\<not> n > INT64_MAX"
    using assms(1) by (auto simp: n_def list_ok_def INT64_MAX_def)
  show ?thesis
  proof (cases "realloc_slots oom junk (ldata l) n = None")
    case True
    with \<open>llen l = lcap l\<close> nn assms(3,4) show ?thesis
      by (auto simp: lpp_list_insert_def is_panic_def n_def Let_def split: if_splits)
  next
    case False
    let ?l = "l\<lparr>ldata := ldata l @ replicate (nat n - length (ldata l)) junk, lcap := n\<rparr>"
    have r: "n * 8 \<le> INT64_MAX" "realloc_slots oom junk (ldata l) n = Some (ldata ?l)"
      using realloc_slots_cases [OF assms(2) nn(3,2,4), of junk] False by auto
    note g = grow_ok [OF assms(1) less_imp_le [OF nn(1)] r(1), of junk]
    have "lpp_list_insert oom junk (Some l) i v =
        bind_res (if i < llen ?l then move_slots ?l (i + 1) i (llen ?l - i) else Inr ?l)
        (\<lambda>l. bind_res (wr_slot l i v) (\<lambda>l'. Inr (l'\<lparr>llen := llen l + 1\<rparr>, call_retain l v)))"
      using True nn r(2) assms(3,4) by (simp add: lpp_list_insert_def n_def Let_def)
    with insert_tail_ok [OF g(1) assms(3), of v] True nn(1) assms(4) g(2) show ?thesis
      by (simp add: call_retain_def [of ?l] call_retain_def [of l])
  qed
next
  case False
  then have "llen l < lcap l" using assms(1) by (auto simp: list_ok_def)
  moreover have "lpp_list_insert oom junk (Some l) i v =
      bind_res (if i < llen l then move_slots l (i + 1) i (llen l - i) else Inr l)
        (\<lambda>l. bind_res (wr_slot l i v) (\<lambda>l'. Inr (l'\<lparr>llen := llen l + 1\<rparr>, call_retain l v)))"
    using False assms(3,4) unfolding lpp_list_insert_def by simp
  ultimately show ?thesis using insert_tail_ok [OF assms(1,3,4), of v] by metis
qed

lemma list_remove_ok:
  assumes "list_ok l" "0 \<le> i" "i < llen l"
  shows "\<exists>l'. lpp_list_remove (Some l) i = Inr (l', abs_list l ! nat i) \<and> list_ok l' \<and>
    abs_list l' = take (nat i) (abs_list l) @ drop (Suc (nat i)) (abs_list l) \<and> retain_element l' = retain_element l"
proof -
  obtain n where n: "llen l = int n" "n \<le> length (ldata l)" "abs_list l = take n (ldata l)"
    using list_nat_view [OF assms(1)] by blast
  obtain k where k: "i = int k" using assms(2) by (rule nonneg_int_cases)
  let ?d = "ldata l"
  let ?e = "take k ?d @ take (n - Suc k) (drop (Suc k) ?d) @ drop (n - 1) ?d"
  have kn: "k < n" using assms(3) n k by simp
  have nats: "nat (int k + 1) = Suc k" "nat (int n - int k - 1) = n - Suc k" "nat (int k + (int n - int k - 1)) = n - 1"
      "nat (int n - 1) = n - 1"
    using kn by auto
  have e: "take (n - 1) ?e = take k (abs_list l) @ drop (Suc k) (abs_list l)" "length ?e = length ?d"
    using slots_shift_down [OF kn n(2)] n(3) by simp_all
  show ?thesis
  proof (cases "i < llen l - 1")
    case True
    have m: "move_slots l i (i + 1) (llen l - i - 1) = Inr (l\<lparr>ldata := ?e\<rparr>)"
      unfolding n(1) k move_slots_def nats nat_int using kn n(2) by simp
    have "lpp_list_remove (Some l) i = Inr (l\<lparr>ldata := ?e, llen := llen l - 1\<rparr>, abs_list l ! nat i)"
      using assms True rd_slot_ok [OF assms] by (simp add: lpp_list_remove_def m)
    moreover have "abs_list (l\<lparr>ldata := ?e, llen := llen l - 1\<rparr>) = take (n - 1) ?e"
      using nats(4) by (simp add: abs_list_def n(1))
    moreover have "list_ok (l\<lparr>ldata := ?e, llen := llen l - 1\<rparr>)"
      using assms e(2) by (simp add: list_ok_def)
    ultimately show ?thesis using e(1) k by auto
  next
    case False
    then have "n = Suc k" "nat (int n - 1) = k" using kn n k by simp_all
    then show ?thesis using assms False rd_slot_ok [OF assms] k n
      by (auto simp: lpp_list_remove_def list_ok_def abs_list_def)
  qed
qed

lemma list_reserve_cases:
  assumes "list_ok l" "big_oom oom" "c < 2 ^ 61"
  shows "is_panic (lpp_list_reserve oom junk (Some l) c) \<and> lcap l < c \<or>
    (\<exists>l'. lpp_list_reserve oom junk (Some l) c = Inr (Some l') \<and> list_ok l' \<and> c \<le> lcap l' \<and> llen l' = llen l \<and>
       abs_list l' = abs_list l \<and> retain_element l' = retain_element l)"
proof (cases "c \<le> lcap l")
  case False
  then have "0 \<le> c" "int (length (ldata l)) \<le> c" "lcap l \<le> c" using assms(1) by (auto simp: list_ok_def)
  with realloc_slots_cases [OF assms(2) this(1) assms(3) this(2), of junk] grow_ok [OF assms(1) this(3)] False
  show ?thesis by (auto simp: lpp_list_reserve_def is_panic_def)
qed (use assms(1) in \<open>auto simp: lpp_list_reserve_def\<close>)

lemma drop_from_ok:
  "list_ok l \<Longrightarrow> 0 \<le> i \<Longrightarrow> drop_from l i = Inr (concat (map (call_drop l) (drop (nat i) (abs_list l))))"
proof (induction l i rule: drop_from.induct)
  case (1 l i)
  show ?case
  proof (cases "i < llen l")
    case True
    then have k: "nat i < length (abs_list l)" "nat (i + 1) = Suc (nat i)"
      using "1.prems"(2) length_abs_list [OF "1.prems"(1)] by linarith+
    have "drop_from l (i + 1) = Inr (concat (map (call_drop l) (drop (nat (i + 1)) (abs_list l))))"
      using "1.IH" [OF True] "1.prems" by simp
    then show ?thesis
      using True "1.prems" k by (subst drop_from.simps) (simp add: rd_slot_ok Cons_nth_drop_Suc [symmetric])
  next
    case False
    then have "length (abs_list l) \<le> nat i" using length_abs_list [OF "1.prems"(1)] by auto
    with False show ?thesis by (subst drop_from.simps) simp
  qed
qed

lemma call_drop_off: "\<not> drop_element l \<Longrightarrow> concat (map (call_drop l) xs) = []"
  by (induction xs) (simp_all add: call_drop_def)

lemma list_clear_ok:
  assumes "list_ok l"
  shows "lpp_list_clear (Some l) = Inr (Some (l\<lparr>llen := 0\<rparr>), concat (map (call_drop l) (abs_list l))) \<and>
    list_ok (l\<lparr>llen := 0\<rparr>) \<and> abs_list (l\<lparr>llen := 0\<rparr>) = []"
  using assms drop_from_ok [OF assms, of 0] call_drop_off
  by (auto simp: lpp_list_clear_def list_ok_def abs_list_def)

lemma list_truncate_ok:
  assumes "list_ok l" "0 \<le> n" "n < llen l"
  shows "lpp_list_truncate (Some l) n = Inr (Some (l\<lparr>llen := n\<rparr>), concat (map (call_drop l) (drop (nat n) (abs_list l)))) \<and>
    list_ok (l\<lparr>llen := n\<rparr>) \<and> abs_list (l\<lparr>llen := n\<rparr>) = take (nat n) (abs_list l)"
proof -
  have "nat n \<le> nat (llen l)" using assms by simp
  then have "abs_list (l\<lparr>llen := n\<rparr>) = take (nat n) (abs_list l)" by (simp add: abs_list_def min_def)
  then show ?thesis
    using assms drop_from_ok [OF assms(1,2)] call_drop_off by (auto simp: lpp_list_truncate_def list_ok_def)
qed

lemma exchange_slots_ok:
  assumes "list_ok l" "0 \<le> i" "i < llen l" "0 \<le> j" "j < llen l"
  shows "\<exists>l'. exchange_slots l i j = Inr l' \<and> list_ok l' \<and> llen l' = llen l \<and>
    abs_list l' = swap_at (nat i) (nat j) (abs_list l) \<and> retain_element l' = retain_element l"
proof -
  let ?l = "l\<lparr>ldata := (ldata l)[nat i := abs_list l ! nat j]\<rparr>"
  note w = wr_slot_ok [OF assms(1-3), of "abs_list l ! nat j"]
  have "list_ok ?l" "j < llen ?l" using w assms(5) by auto
  note w' = wr_slot_ok [OF this(1) assms(4) this(2), of "abs_list l ! nat i"]
  show ?thesis
    using w w' by (simp add: exchange_slots_def rd_slot_ok assms swap_at_def)
qed

text \<open>The reversal loop: after \<open>i\<close> exchanges the outer \<open>i\<close> elements on both sides have changed places.\<close>

lemma reverse_loop_ok:
  assumes "list_ok l" "0 \<le> i" "i + j = llen l - 1" "i \<le> j + 1"
    and "\<And>k. k < length ys \<Longrightarrow> abs_list l ! k = (if k < nat i \<or> nat (j + 1) \<le> k then ys ! (length ys - 1 - k) else ys ! k)"
    and "length (abs_list l) = length ys"
  shows "\<exists>l'. reverse_loop l i j = Inr l' \<and> list_ok l' \<and> llen l' = llen l \<and> abs_list l' = rev ys \<and>
    retain_element l' = retain_element l"
  using assms
proof (induction l i j rule: reverse_loop.induct)
  case (1 l i j)
  have n: "llen l = int (length ys)" using "1.prems"(1,6) length_abs_list by fastforce
  show ?case
  proof (cases "i < j")
    case True
    obtain m where m: "exchange_slots l i j = Inr m" "list_ok m" "llen m = llen l"
        "abs_list m = swap_at (nat i) (nat j) (abs_list l)" "retain_element m = retain_element l"
      using exchange_slots_ok [of l i j] "1.prems" True by auto
    have ij: "nat i < length ys" "nat j < length ys" "nat i + nat j = length ys - 1" "nat (i + 1) = Suc (nat i)" "nat (j + 1) = Suc (nat j)"
        "nat (j - 1 + 1) = nat j" "nat i < nat j"
      using n "1.prems"(2,3) True by auto
    have "abs_list m ! k = (if k < nat (i + 1) \<or> nat (j - 1 + 1) \<le> k then ys ! (length ys - 1 - k) else ys ! k)"
      if k: "k < length ys" for k
    proof -
      have "abs_list m ! k = (if k = nat j then abs_list l ! nat i else if k = nat i then abs_list l ! nat j else abs_list l ! k)"
        using m(4) ij k "1.prems"(6) by (simp add: nth_swap_at)
      moreover have "length ys - 1 - nat i = nat j" "length ys - 1 - nat j = nat i" using ij(3,1,2) by linarith+
      moreover have "abs_list l ! nat i = ys ! nat i" "abs_list l ! nat j = ys ! nat j"
        using "1.prems"(5) [OF ij(1)] "1.prems"(5) [OF ij(2)] ij(5,7) by simp_all
      ultimately show ?thesis using "1.prems"(5) [OF k] ij(4-7) by auto
    qed
    then have "\<exists>l'. reverse_loop m (i + 1) (j - 1) = Inr l' \<and> list_ok l' \<and> llen l' = llen m \<and> abs_list l' = rev ys \<and>
        retain_element l' = retain_element m"
      using m "1.prems" True by (intro "1.IH" [OF True, of m]) auto
    then show ?thesis using m True by (subst reverse_loop.simps) auto
  next
    case False
    have "abs_list l = rev ys"
    proof (rule nth_equalityI)
      fix k assume "k < length (abs_list l)"
      then have k: "k < length ys" using "1.prems"(6) by simp
      have "abs_list l ! k = ys ! (length ys - 1 - k)"
      proof (cases "k < nat i \<or> nat (j + 1) \<le> k")
        case False
        then have "int k = i" "i = j" using \<open>\<not> i < j\<close> "1.prems"(2,4) by auto
        then have "k = length ys - 1 - k" using "1.prems"(3) n by auto
        with "1.prems"(5) [OF k] False show ?thesis by auto
      qed (use "1.prems"(5) [OF k] in simp)
      then show "abs_list l ! k = rev ys ! k" using k by (simp add: rev_nth)
    qed (use "1.prems"(6) in simp)
    with False "1.prems"(1) show ?thesis by (subst reverse_loop.simps) auto
  qed
qed

lemma list_reverse_ok:
  assumes "list_ok l"
  shows "\<exists>l'. lpp_list_reverse (Some l) = Inr (Some l') \<and> list_ok l' \<and> abs_list l' = rev (abs_list l) \<and>
    retain_element l' = retain_element l"
proof (cases "llen l \<le> 1")
  case True
  then have "length (abs_list l) \<le> 1" using length_abs_list [OF assms] by simp
  then have "rev (abs_list l) = abs_list l" by (cases "abs_list l") auto
  with True assms show ?thesis by (simp add: lpp_list_reverse_def)
next
  case False
  have "nat (llen l - 1 + 1) = length (abs_list l)" using length_abs_list [OF assms] by linarith
  then have "\<exists>l'. reverse_loop l 0 (llen l - 1) = Inr l' \<and> list_ok l' \<and> llen l' = llen l \<and> abs_list l' = rev (abs_list l) \<and>
      retain_element l' = retain_element l"
    using assms False length_abs_list [OF assms] by (intro reverse_loop_ok) simp_all
  with False show ?thesis by (auto simp: lpp_list_reverse_def)
qed

lemma list_sort_with_ok:
  assumes "list_ok l" "cmp_order before"
  shows "\<exists>l'. lpp_list_sort_with before (Some l) = Inr (Some l') \<and> list_ok l' \<and>
    abs_list l' = lpp_sort_with before (abs_list l) \<and> retain_element l' = retain_element l"
proof (cases "llen l < 2")
  case True
  then have "length (abs_list l) < 2" using length_abs_list [OF assms(1)] by simp
  with True assms(1) show ?thesis by (simp add: lpp_list_sort_with_def lpp_sort_with_def)
next
  case False
  obtain n where n: "llen l = int n" "n \<le> length (ldata l)" "abs_list l = take n (ldata l)"
    using list_nat_view [OF assms(1)] by blast
  let ?s = "lpp_quick_sort before (depth_loop n) (take n (ldata l))"
  have len: "length ?s = n"
    using cmp_order.quick_sort_ok [OF assms(2)] n(2) by (metis length_take min.absorb2 size_mset)
  have "lpp_list_sort_with before (Some l) = Inr (Some (l\<lparr>ldata := ?s @ drop n (ldata l)\<rparr>))"
    using False n by (simp add: lpp_list_sort_with_def)
  moreover have "abs_list (l\<lparr>ldata := ?s @ drop n (ldata l)\<rparr>) = ?s" using len by (simp add: abs_list_def n(1))
  moreover have "lpp_sort_with before (abs_list l) = ?s" using False n by (simp add: lpp_sort_with_def)
  ultimately show ?thesis using assms(1) len n by (simp add: list_ok_def)
qed

lemma index_loop_ok:
  assumes "list_ok l" "0 \<le> i" "i \<le> llen l" "value \<notin> set (take (nat i) (abs_list l))"
  shows "\<exists>r. index_loop l value i = Inr r \<and>
    (r = - 1 \<and> value \<notin> set (abs_list l) \<or>
     0 \<le> r \<and> r < llen l \<and> abs_list l ! nat r = value \<and> value \<notin> set (take (nat r) (abs_list l)))"
  using assms
proof (induction l "value" i rule: index_loop.induct)
  case (1 l "value" i)
  have n: "int (length (abs_list l)) = llen l" using "1.prems"(1) by simp
  show ?case
  proof (cases "i < llen l")
    case True
    have e: "index_loop l value i = (if abs_list l ! nat i = value then Inr i else index_loop l value (i + 1))"
      using True "1.prems" by (subst index_loop.simps) (simp add: rd_slot_ok)
    have k: "nat i < length (abs_list l)" "nat (i + 1) = Suc (nat i)" using True n "1.prems"(2) by linarith+
    show ?thesis
    proof (cases "abs_list l ! nat i = value")
      case False
      then have "value \<notin> set (take (nat (i + 1)) (abs_list l))"
        using "1.prems"(4) k by (simp add: take_Suc_conv_app_nth)
      then show ?thesis using "1.IH" [OF True False] False True "1.prems" e by simp
    qed (use e True "1.prems" in auto)
  next
    case False
    then have "take (nat i) (abs_list l) = abs_list l" using n "1.prems"(3) by simp
    with False "1.prems" show ?thesis by (subst index_loop.simps) simp
  qed
qed

text \<open>Binary search over an ascending list: everything left of \<open>lo\<close> is smaller and everything right
  of \<open>hi\<close> larger than the value searched for.\<close>

lemma search_loop_ok:
  assumes "list_ok l" "sorted_wrt (\<lambda>a b. sint a \<le> sint b) (abs_list l)"
    and "0 \<le> lo" "lo \<le> hi + 1" "hi < llen l"
    and "\<forall>k < nat lo. sint (abs_list l ! k) < sint value"
    and "\<forall>k < length (abs_list l). hi < int k \<longrightarrow> sint value < sint (abs_list l ! k)"
  shows "\<exists>r. search_loop l value lo hi = Inr r \<and>
    (0 \<le> r \<and> r < llen l \<and> abs_list l ! nat r = value \<or>
     r < 0 \<and> 0 \<le> - r - 1 \<and> - r - 1 \<le> llen l \<and> (\<forall>k < nat (- r - 1). sint (abs_list l ! k) < sint value) \<and>
       (\<forall>k < length (abs_list l). - r - 1 \<le> int k \<longrightarrow> sint value < sint (abs_list l ! k)))"
  using assms
proof (induction l "value" lo hi rule: search_loop.induct)
  case (1 l "value" lo hi)
  have n: "int (length (abs_list l)) = llen l" using "1.prems"(1) by simp
  define mid where "mid = lo + (hi - lo) div 2"
  show ?case
  proof (cases "lo \<le> hi")
    case True
    have mid: "lo \<le> mid" "mid \<le> hi" "0 \<le> mid" "mid < llen l" using True "1.prems"(3,5) by (auto simp: mid_def)
    note rd = rd_slot_ok [OF "1.prems"(1) mid(3,4)]
    let ?p = "abs_list l ! nat mid"
    have e: "search_loop l value lo hi = (if ?p = value then Inr mid
        else if sint ?p < sint value then search_loop l value (mid + 1) hi else search_loop l value lo (mid - 1))"
      using True rd by (subst search_loop.simps) (simp add: Let_def mid_def)
    have mono: "sint (abs_list l ! a) \<le> sint (abs_list l ! b)" if "a \<le> b" "b < length (abs_list l)" for a b
      using that "1.prems"(2) by (cases "a = b") (auto simp: sorted_wrt_iff_nth_less)
    have m: "nat mid < length (abs_list l)" "nat (mid + 1) = Suc (nat mid)" using mid n by linarith+
    consider "?p = value" | "?p \<noteq> value" "sint ?p < sint value" | "?p \<noteq> value" "sint value < sint ?p"
      using sint_inj_64 by fastforce
    then show ?thesis
    proof cases
      case 1
      then show ?thesis using e mid by auto
    next
      case 2
      then have "\<forall>k < nat (mid + 1). sint (abs_list l ! k) < sint value"
        using mono [OF _ m(1)] m(2) by (metis le_less_trans less_Suc_eq_le)
      then show ?thesis
        using "1.IH"(1) [OF True mid_def 2] "1.prems" mid e 2 by simp
    next
      case 3
      then have "\<forall>k < length (abs_list l). mid - 1 < int k \<longrightarrow> sint value < sint (abs_list l ! k)"
        using mono [of "nat mid"] by (smt (verit) nat_le_iff)
      then show ?thesis
        using "1.IH"(2) [OF True mid_def 3(1)] "1.prems" mid e 3 by simp
    qed
  next
    case False
    then have "lo = hi + 1" using "1.prems"(4) by simp
    then show ?thesis using False "1.prems" by (subst search_loop.simps) auto
  qed
qed

lemma extend_loop_ok:
  assumes "list_ok s" "add = llen s" "0 \<le> llen d" "llen d + add \<le> int (length (ldata d))" "0 \<le> i" "i \<le> add"
  shows "\<exists>d'. extend_loop d s add i = Inr (d', concat (map (call_retain d) (drop (nat i) (abs_list s)))) \<and>
    d' = d\<lparr>ldata := ldata d'\<rparr> \<and> length (ldata d') = length (ldata d) \<and>
    take (nat (llen d + add)) (ldata d') = take (nat (llen d + i)) (ldata d) @ drop (nat i) (abs_list s)"
  using assms
proof (induction d s add i rule: extend_loop.induct)
  case (1 d s add i)
  have n: "length (abs_list s) = nat add" using length_abs_list [OF "1.prems"(1)] "1.prems"(2) by simp
  show ?case
  proof (cases "i < add")
    case True
    let ?v = "abs_list s ! nat i" and ?k = "nat (llen d + i)"
    let ?d = "d\<lparr>ldata := (ldata d)[?k := ?v]\<rparr>"
    have k: "?k < length (ldata d)" "nat (llen ?d + (i + 1)) = Suc ?k" "nat (i + 1) = Suc (nat i)" "nat i < length (abs_list s)"
      using True "1.prems" n by auto
    have rd: "rd_slot s i = Inr ?v" using rd_slot_ok "1.prems" True by simp
    have wr: "wr_slot d (llen d + i) ?v = Inr ?d" using "1.prems" True k by (simp add: wr_slot_def)
    obtain d' where d': "extend_loop ?d s add (i + 1) = Inr (d', concat (map (call_retain ?d) (drop (nat (i + 1)) (abs_list s))))"
        "d' = ?d\<lparr>ldata := ldata d'\<rparr>" "length (ldata d') = length (ldata ?d)"
        "take (nat (llen ?d + add)) (ldata d') = take (nat (llen ?d + (i + 1))) (ldata ?d) @ drop (nat (i + 1)) (abs_list s)"
      using "1.IH" [OF True, of ?d] "1.prems" True by auto
    have "call_retain ?d = call_retain d" by (simp add: call_retain_def fun_eq_iff)
    then have "extend_loop d s add i = Inr (d', concat (map (call_retain d) (drop (nat i) (abs_list s))))"
      using True rd wr d'(1) k by (subst extend_loop.simps) (simp add: Cons_nth_drop_Suc [symmetric])
    moreover have "take (nat (llen d + add)) (ldata d') = take ?k (ldata d) @ drop (nat i) (abs_list s)"
      using d'(4) k by (simp add: take_Suc_conv_app_nth Cons_nth_drop_Suc [symmetric])
    moreover have "d' = d\<lparr>ldata := ldata d'\<rparr>" using d'(2) by simp
    ultimately show ?thesis using d'(3) by auto
  next
    case False
    then have "i = add" using "1.prems" by simp
    then show ?thesis using n by (subst extend_loop.simps) simp
  qed
qed

lemma list_extend_cases:
  assumes "list_ok d" "list_ok s" "big_oom oom"
  shows "is_panic (lpp_list_extend oom junk (Some d) (Some s)) \<and> lcap d < llen d + llen s \<or>
    (\<exists>d'. lpp_list_extend oom junk (Some d) (Some s) = Inr (d', concat (map (call_retain d) (abs_list s))) \<and>
       list_ok d' \<and> abs_list d' = abs_list d @ abs_list s \<and> retain_element d' = retain_element d)"
proof (cases "llen s = 0")
  case True
  then have "abs_list s = []" by (simp add: abs_list_def)
  with True assms(1) show ?thesis by (simp add: lpp_list_extend_def)
next
  case False
  have b: "llen d + llen s < 2 ^ 61" "\<not> llen d + llen s > INT64_MAX" "0 \<le> llen d" "0 \<le> llen s"
    using assms(1,2) by (auto simp: list_ok_def INT64_MAX_def)
  from list_reserve_cases [OF assms(1,3) b(1), of junk] show ?thesis
  proof
    assume "is_panic (lpp_list_reserve oom junk (Some d) (llen d + llen s)) \<and> lcap d < llen d + llen s"
    then show ?thesis using False b by (auto simp: lpp_list_extend_def is_panic_def)
  next
    assume "\<exists>l'. lpp_list_reserve oom junk (Some d) (llen d + llen s) = Inr (Some l') \<and> list_ok l' \<and>
      llen d + llen s \<le> lcap l' \<and> llen l' = llen d \<and> abs_list l' = abs_list d \<and> retain_element l' = retain_element d"
    then obtain e where e: "lpp_list_reserve oom junk (Some d) (llen d + llen s) = Inr (Some e)" "list_ok e"
      "llen d + llen s \<le> lcap e" "llen e = llen d" "abs_list e = abs_list d" "retain_element e = retain_element d" by blast
    then obtain d' where d': "extend_loop e s (llen s) 0 = Inr (d', concat (map (call_retain e) (abs_list s)))"
        "d' = e\<lparr>ldata := ldata d'\<rparr>" "length (ldata d') = length (ldata e)"
        "take (nat (llen e + llen s)) (ldata d') = take (nat (llen e)) (ldata e) @ abs_list s"
      using extend_loop_ok [OF assms(2) refl, of e 0] b by (auto simp: list_ok_def)
    have "llen d' = llen e" "lcap d' = lcap e" "retain_element d' = retain_element e" "drop_element d' = drop_element e"
      by (subst d'(2), simp)+
    moreover have "call_retain e = call_retain d" using e(6) by (simp add: call_retain_def fun_eq_iff)
    moreover have "take (nat (llen e)) (ldata e) = abs_list d" using e(5) by (simp add: abs_list_def)
    ultimately show ?thesis
      using False b e d'(1,3,4) by (auto simp: lpp_list_extend_def Let_def list_ok_def abs_list_def)
  qed
qed

section \<open>References owned by a list\<close>

definition arcs :: "i64 list \<Rightarrow> i64 multiset" where
  "arcs vs = filter_mset is_arc_ptr (mset vs)"

lemma arcs_simps [simp]:
  "arcs [] = {#}" "arcs (v # vs) = (if is_arc_ptr v then {#v#} else {#}) + arcs vs" "arcs (a @ b) = arcs a + arcs b"
  by (auto simp: arcs_def)

lemma arcs_mset: "mset a = mset b \<Longrightarrow> arcs a = arcs b"
  by (simp add: arcs_def)

lemma call_events:
  "retained (call_retain l v) = (if retain_element l then arcs [v] else {#})" "released (call_retain l v) = {#}"
  "released (call_drop l v) = (if drop_element l then arcs [v] else {#})" "retained (call_drop l v) = {#}"
  by (simp_all add: call_retain_def call_drop_def lpp_list_arc_retain_element_def lpp_list_arc_drop_element_def)

lemma calls_events:
  "retained (concat (map (call_retain l) vs)) = (if retain_element l then arcs vs else {#})"
  "released (concat (map (call_retain l) vs)) = {#}"
  "released (concat (map (call_drop l) vs)) = (if drop_element l then arcs vs else {#})"
  "retained (concat (map (call_drop l) vs)) = {#}"
  by (induction vs) (simp_all add: call_events)

lemma arcs_set: "i < length vs \<Longrightarrow> arcs (vs[i := v]) + arcs [vs ! i] = arcs vs + arcs [v]"
  by (subst (3) id_take_nth_drop [of i vs]) (simp_all add: upd_conv_take_nth_drop)

lemma arcs_remove: "i < length vs \<Longrightarrow> arcs (take i vs @ drop (Suc i) vs) + arcs [vs ! i] = arcs vs"
  by (subst (4) id_take_nth_drop [of i vs]) simp_all

section \<open>Operation sequences\<close>

datatype list_op = Push i64 | Set int i64 | Pop | Insert int i64 | Remove int | Reserve int | Clear
  | Truncate int | Swap int int | Reverse | Sort | SortDesc | SortU | Extend lpplist

text \<open>One call on a live list: the new list, the ARC events and the values handed to the caller.\<close>

definition keep_live :: "listp res \<Rightarrow> (lpplist \<times> arc_ev list \<times> i64 list) res" where
  "keep_live r = bind_res r (\<lambda>lp. case lp of Some l \<Rightarrow> Inr (l, [], []) | None \<Rightarrow> Inl (Fault ''null list''))"

fun run_op :: "(int \<Rightarrow> bool) \<Rightarrow> i64 \<Rightarrow> list_op \<Rightarrow> lpplist \<Rightarrow> (lpplist \<times> arc_ev list \<times> i64 list) res" where
  "run_op oom junk (Push v) l = bind_res (lpp_list_push oom junk (Some l) v) (\<lambda>(l, e). Inr (l, e, []))"
| "run_op oom junk (Set i v) l = bind_res (lpp_list_set (Some l) i v) (\<lambda>(l, e). Inr (l, e, []))"
| "run_op oom junk Pop l = bind_res (lpp_list_pop (Some l)) (\<lambda>(l, v). Inr (l, [], [v]))"
| "run_op oom junk (Insert i v) l = bind_res (lpp_list_insert oom junk (Some l) i v) (\<lambda>(l, e). Inr (l, e, []))"
| "run_op oom junk (Remove i) l = bind_res (lpp_list_remove (Some l) i) (\<lambda>(l, v). Inr (l, [], [v]))"
| "run_op oom junk (Reserve c) l = keep_live (lpp_list_reserve oom junk (Some l) c)"
| "run_op oom junk Clear l = bind_res (lpp_list_clear (Some l)) (\<lambda>(lp, e). Inr (the lp, e, []))"
| "run_op oom junk (Truncate n) l = bind_res (lpp_list_truncate (Some l) n) (\<lambda>(lp, e). Inr (the lp, e, []))"
| "run_op oom junk (Swap i j) l = bind_res (lpp_list_swap (Some l) i j) (\<lambda>l. Inr (l, [], []))"
| "run_op oom junk Reverse l = keep_live (lpp_list_reverse (Some l))"
| "run_op oom junk Sort l = keep_live (lpp_list_sort (Some l))"
| "run_op oom junk SortDesc l = keep_live (lpp_list_sort_desc (Some l))"
| "run_op oom junk SortU l = keep_live (lpp_list_sort_u (Some l))"
| "run_op oom junk (Extend s) l = bind_res (lpp_list_extend oom junk (Some l) (Some s)) (\<lambda>(l, e). Inr (l, e, []))"

text \<open>The abstract list: the new contents and the values handed out, \<open>None\<close> where the call must panic.\<close>

fun spec_op :: "list_op \<Rightarrow> i64 list \<Rightarrow> (i64 list \<times> i64 list) option" where
  "spec_op (Push v) xs = Some (xs @ [v], [])"
| "spec_op (Set i v) xs = (if 0 \<le> i \<and> i < int (length xs) then Some (xs[nat i := v], []) else None)"
| "spec_op Pop xs = (if xs = [] then None else Some (butlast xs, [last xs]))"
| "spec_op (Insert i v) xs =
     (if 0 \<le> i \<and> i \<le> int (length xs) then Some (take (nat i) xs @ v # drop (nat i) xs, []) else None)"
| "spec_op (Remove i) xs =
     (if 0 \<le> i \<and> i < int (length xs) then Some (take (nat i) xs @ drop (Suc (nat i)) xs, [xs ! nat i]) else None)"
| "spec_op (Reserve c) xs = Some (xs, [])"
| "spec_op Clear xs = Some ([], [])"
| "spec_op (Truncate n) xs = Some (if 0 \<le> n \<and> n < int (length xs) then take (nat n) xs else xs, [])"
| "spec_op (Swap i j) xs =
     (if 0 \<le> i \<and> i < int (length xs) \<and> 0 \<le> j \<and> j < int (length xs)
      then Some (swap_at (nat i) (nat j) xs, []) else None)"
| "spec_op Reverse xs = Some (rev xs, [])"
| "spec_op Sort xs = Some (sort_key sint xs, [])"
| "spec_op SortDesc xs = Some (rev (sort_key sint xs), [])"
| "spec_op SortU xs = Some (sort xs, [])"
| "spec_op (Extend s) xs = Some (xs @ abs_list s, [])"

fun op_ok :: "list_op \<Rightarrow> bool" where
  "op_ok (Reserve c) \<longleftrightarrow> c < 2 ^ 61"
| "op_ok (Extend s) \<longleftrightarrow> list_ok s"
| "op_ok op \<longleftrightarrow> True"

fun needs_memory :: "list_op \<Rightarrow> lpplist \<Rightarrow> bool" where
  "needs_memory (Push v) l \<longleftrightarrow> llen l = lcap l"
| "needs_memory (Insert i v) l \<longleftrightarrow> llen l = lcap l"
| "needs_memory (Reserve c) l \<longleftrightarrow> lcap l < c"
| "needs_memory (Extend s) l \<longleftrightarrow> lcap l < llen l + llen s"
| "needs_memory op l \<longleftrightarrow> False"

lemma sort_specs:
  "lpp_sort_with lpp_i64_lt v = sort_key sint v"
  "lpp_sort_with lpp_i64_gt v = rev (sort_key sint v)"
  "lpp_sort_with lpp_u64_lt v = sort v"
proof -
  have s: "sorted_wrt (\<lambda>a b. sint a \<le> sint b) (sort_key sint v)"
    using sorted_sort_key [of sint v] by (simp add: sorted_map)
  have eq: "\<And>a b :: i64. \<not> sint a < sint b \<Longrightarrow> \<not> sint b < sint a \<Longrightarrow> a = b"
    by (auto simp: not_less intro!: sint_inj_64)
  show "lpp_sort_with lpp_i64_lt v = sort_key sint v"
    using i64_asc.sort_with_ok [of v] s eq
    by (intro i64_asc.in_order_unique) (auto simp: in_order_iffs lpp_i64_lt_def)
  show "lpp_sort_with lpp_i64_gt v = rev (sort_key sint v)"
    using i64_desc.sort_with_ok [of v] s eq
    by (intro i64_desc.in_order_unique) (auto simp: in_order_iffs lpp_i64_gt_def sorted_wrt_rev)
  show "lpp_sort_with lpp_u64_lt v = sort v"
    using u64_asc.sort_with_ok [of v]
    by (intro u64_asc.in_order_unique) (auto simp: in_order_iffs lpp_u64_lt_def)
qed

text \<open>What a step of a list keeps: the invariant, the ownership mode, and for an owning list every
  reference taken or given back.\<close>

definition step_ok :: "lpplist \<Rightarrow> lpplist \<Rightarrow> arc_ev list \<Rightarrow> i64 list \<Rightarrow> bool" where
  "step_ok l l' evs out \<longleftrightarrow> list_ok l' \<and> retain_element l' = retain_element l \<and>
     (if retain_element l
      then arcs (abs_list l') + released evs + arcs out = arcs (abs_list l) + retained evs
      else evs = [])"

definition refines :: "lpplist \<Rightarrow> bool \<Rightarrow> (i64 list \<times> i64 list) option \<Rightarrow> (lpplist \<times> arc_ev list \<times> i64 list) res \<Rightarrow> bool" where
  "refines l mem sp r \<longleftrightarrow> (case sp of None \<Rightarrow> is_panic r
     | Some (ys, out) \<Rightarrow> is_panic r \<and> mem \<or>
         (\<exists>l' evs. r = Inr (l', evs, out) \<and> abs_list l' = ys \<and> step_ok l l' evs out))"

lemma call_off: "\<not> retain_element l \<Longrightarrow> call_retain l v = []" "\<not> drop_element l \<Longrightarrow> call_drop l v = []"
  "\<not> retain_element l \<Longrightarrow> concat (map (call_retain l) vs) = []"
  by (induction vs) (auto simp: call_retain_def call_drop_def)

lemma abs_length_int: "list_ok l \<Longrightarrow> i < int (length (abs_list l)) \<longleftrightarrow> i < llen l" 
  "list_ok l \<Longrightarrow> i \<le> int (length (abs_list l)) \<longleftrightarrow> i \<le> llen l" by simp_all

lemma list_ok_flags: "list_ok l \<Longrightarrow> drop_element l = retain_element l"
  by (simp add: list_ok_def)

lemma is_panic_bind: "is_panic r \<Longrightarrow> is_panic (bind_res r f)"
  by (auto simp: is_panic_def)

lemma push_refines:
  assumes "list_ok l" "big_oom oom"
  shows "refines l (needs_memory (Push v) l) (spec_op (Push v) (abs_list l)) (run_op oom junk (Push v) l)"
  using list_push_cases [OF assms, of junk v]
proof
  assume "is_panic (lpp_list_push oom junk (Some l) v) \<and> llen l = lcap l"
  then show ?thesis by (simp add: refines_def is_panic_bind)
next
  assume "\<exists>l'. lpp_list_push oom junk (Some l) v = Inr (l', call_retain l v) \<and> list_ok l' \<and>
       abs_list l' = abs_list l @ [v] \<and> retain_element l' = retain_element l"
  then show ?thesis by (auto simp: refines_def step_ok_def call_events call_off)
qed

lemma set_refines:
  assumes "list_ok l"
  shows "refines l (needs_memory (Set i v) l) (spec_op (Set i v) (abs_list l)) (run_op oom junk (Set i v) l)"
proof (cases "0 \<le> i \<and> i < llen l")
  case True
  then obtain l' where l': "lpp_list_set (Some l) i v = Inr (l', call_retain l v @ call_drop l (abs_list l ! nat i))"
      "list_ok l'" "abs_list l' = (abs_list l)[nat i := v]" "retain_element l' = retain_element l"
    using list_set_ok [OF assms] by blast
  have "nat i < length (abs_list l)" using True length_abs_list [OF assms] by linarith
  then have "arcs ((abs_list l)[nat i := v]) + arcs [abs_list l ! nat i] = arcs (abs_list l) + arcs [v]" by (rule arcs_set)
  then show ?thesis
    using True l' list_ok_flags [OF assms] abs_length_int(1) [OF assms]
    by (simp add: refines_def step_ok_def call_events call_off del: length_abs_list)
next
  case False
  then show ?thesis using abs_length_int(1) [OF assms]
    by (auto simp: refines_def lpp_list_set_def is_panic_def simp del: length_abs_list)
qed

lemma pop_refines:
  assumes "list_ok l"
  shows "refines l (needs_memory Pop l) (spec_op Pop (abs_list l)) (run_op oom junk Pop l)"
proof (cases "0 < llen l")
  case True
  have ne: "abs_list l \<noteq> []" using True length_abs_list [OF assms] by auto
  have "arcs (butlast (abs_list l)) + arcs [last (abs_list l)] = arcs (abs_list l)"
    using arcs_simps(3) [of "butlast (abs_list l)" "[last (abs_list l)]"] ne by simp
  with list_pop_ok [OF assms True] ne show ?thesis
    by (auto simp: refines_def step_ok_def simp del: arcs_simps(2))
next
  case False
  then have "\<not> 0 < length (abs_list l)" using length_abs_list [OF assms] by linarith
  then have "abs_list l = []" by simp
  with False show ?thesis by (simp add: refines_def lpp_list_pop_def is_panic_def)
qed

lemma insert_refines:
  assumes "list_ok l" "big_oom oom"
  shows "refines l (needs_memory (Insert i v) l) (spec_op (Insert i v) (abs_list l)) (run_op oom junk (Insert i v) l)"
proof (cases "0 \<le> i \<and> i \<le> llen l")
  case True
  have a: "arcs (take (nat i) (abs_list l)) + arcs (drop (nat i) (abs_list l)) = arcs (abs_list l)"
    using arcs_simps(3) [of "take (nat i) (abs_list l)" "drop (nat i) (abs_list l)"] by simp
  from True list_insert_cases [OF assms, of i junk v]
  consider "is_panic (lpp_list_insert oom junk (Some l) i v)" "llen l = lcap l"
    | l' where "lpp_list_insert oom junk (Some l) i v = Inr (l', call_retain l v)" "list_ok l'"
       "abs_list l' = take (nat i) (abs_list l) @ v # drop (nat i) (abs_list l)" "retain_element l' = retain_element l"
    by blast
  then show ?thesis
  proof cases
    case 1
    then show ?thesis using True assms(1) by (simp add: refines_def is_panic_bind)
  next
    case 2
    then show ?thesis using True assms(1) a by (auto simp: refines_def step_ok_def call_events call_off)
  qed
next
  case False
  then show ?thesis using assms(1) by (auto simp: refines_def lpp_list_insert_def is_panic_def)
qed

lemma remove_refines:
  assumes "list_ok l"
  shows "refines l (needs_memory (Remove i) l) (spec_op (Remove i) (abs_list l)) (run_op oom junk (Remove i) l)"
proof (cases "0 \<le> i \<and> i < llen l")
  case True
  then obtain l' where "lpp_list_remove (Some l) i = Inr (l', abs_list l ! nat i)" "list_ok l'"
      "abs_list l' = take (nat i) (abs_list l) @ drop (Suc (nat i)) (abs_list l)" "retain_element l' = retain_element l"
    using list_remove_ok [OF assms] by blast
  moreover have "nat i < length (abs_list l)" using True length_abs_list [OF assms] by linarith
  note arcs_remove [OF this]
  ultimately show ?thesis using True assms
    by (auto simp: refines_def step_ok_def simp del: arcs_simps)
next
  case False
  then show ?thesis using assms by (auto simp: refines_def lpp_list_remove_def is_panic_def)
qed

lemma keep_live_refines:
  assumes "abs_list l' = ys" "mset ys = mset (abs_list l)" "list_ok l'" "retain_element l' = retain_element l" "r = Inr (Some l')"
  shows "refines l mem (Some (ys, [])) (keep_live r)"
  using assms by (auto simp: refines_def step_ok_def keep_live_def intro: arcs_mset)

lemma reserve_refines:
  assumes "list_ok l" "big_oom oom" "c < 2 ^ 61"
  shows "refines l (needs_memory (Reserve c) l) (spec_op (Reserve c) (abs_list l)) (run_op oom junk (Reserve c) l)"
  using list_reserve_cases [OF assms, of junk]
proof
  assume "is_panic (lpp_list_reserve oom junk (Some l) c) \<and> lcap l < c"
  then show ?thesis by (simp add: refines_def keep_live_def is_panic_bind)
next
  assume "\<exists>l'. lpp_list_reserve oom junk (Some l) c = Inr (Some l') \<and> list_ok l' \<and> c \<le> lcap l' \<and> llen l' = llen l \<and>
       abs_list l' = abs_list l \<and> retain_element l' = retain_element l"
  then show ?thesis by (auto intro: keep_live_refines)
qed

lemma clear_truncate_refines:
  assumes "list_ok l"
  shows "refines l (needs_memory Clear l) (spec_op Clear (abs_list l)) (run_op oom junk Clear l)"
    and "refines l (needs_memory (Truncate n) l) (spec_op (Truncate n) (abs_list l)) (run_op oom junk (Truncate n) l)"
proof -
  note f = list_ok_flags [OF assms]
  show "refines l (needs_memory Clear l) (spec_op Clear (abs_list l)) (run_op oom junk Clear l)"
    using list_clear_ok [OF assms] f by (auto simp: refines_def step_ok_def calls_events call_drop_off)
  show "refines l (needs_memory (Truncate n) l) (spec_op (Truncate n) (abs_list l)) (run_op oom junk (Truncate n) l)"
  proof (cases "0 \<le> n \<and> n < llen l")
    case True
    have "arcs (take (nat n) (abs_list l)) + arcs (drop (nat n) (abs_list l)) = arcs (abs_list l)"
      using arcs_simps(3) [of "take (nat n) (abs_list l)" "drop (nat n) (abs_list l)"] by simp
    with list_truncate_ok [OF assms, of n] True f assms show ?thesis
      by (auto simp: refines_def step_ok_def calls_events call_drop_off)
  next
    case False
    then show ?thesis using assms by (auto simp: refines_def step_ok_def lpp_list_truncate_def)
  qed
qed

lemma swap_refines:
  assumes "list_ok l"
  shows "refines l (needs_memory (Swap i j) l) (spec_op (Swap i j) (abs_list l)) (run_op oom junk (Swap i j) l)"
proof (cases "0 \<le> i \<and> i < llen l \<and> 0 \<le> j \<and> j < llen l")
  case True
  then obtain l' where "exchange_slots l i j = Inr l'" "list_ok l'"
      "abs_list l' = swap_at (nat i) (nat j) (abs_list l)" "retain_element l' = retain_element l"
    using exchange_slots_ok [OF assms] by blast
  moreover have "nat i < length (abs_list l)" "nat j < length (abs_list l)"
    using True length_abs_list [OF assms] by linarith+
  then have "arcs (swap_at (nat i) (nat j) (abs_list l)) = arcs (abs_list l)" by (intro arcs_mset mset_swap_at)
  ultimately show ?thesis using True assms by (auto simp: refines_def step_ok_def lpp_list_swap_def)
next
  case False
  then show ?thesis using assms by (auto simp: refines_def lpp_list_swap_def is_panic_def)
qed

lemma reverse_sort_refines:
  assumes "list_ok l"
  shows "refines l (needs_memory Reverse l) (spec_op Reverse (abs_list l)) (run_op oom junk Reverse l)"
    and "refines l (needs_memory Sort l) (spec_op Sort (abs_list l)) (run_op oom junk Sort l)"
    and "refines l (needs_memory SortDesc l) (spec_op SortDesc (abs_list l)) (run_op oom junk SortDesc l)"
    and "refines l (needs_memory SortU l) (spec_op SortU (abs_list l)) (run_op oom junk SortU l)"
  using list_reverse_ok [OF assms] list_sort_with_ok [OF assms i64_asc.cmp_order_axioms]
    list_sort_with_ok [OF assms i64_desc.cmp_order_axioms] list_sort_with_ok [OF assms u64_asc.cmp_order_axioms]
  unfolding sort_specs
  by (auto simp: lpp_list_sort_def lpp_list_sort_desc_def lpp_list_sort_u_def intro: keep_live_refines)

lemma extend_refines:
  assumes "list_ok l" "big_oom oom" "list_ok s"
  shows "refines l (needs_memory (Extend s) l) (spec_op (Extend s) (abs_list l)) (run_op oom junk (Extend s) l)"
  using list_extend_cases [OF assms(1,3,2), of junk]
proof
  assume "is_panic (lpp_list_extend oom junk (Some l) (Some s)) \<and> lcap l < llen l + llen s"
  then show ?thesis by (simp add: refines_def is_panic_bind)
next
  assume "\<exists>d'. lpp_list_extend oom junk (Some l) (Some s) = Inr (d', concat (map (call_retain l) (abs_list s))) \<and>
       list_ok d' \<and> abs_list d' = abs_list l @ abs_list s \<and> retain_element d' = retain_element l"
  then show ?thesis by (auto simp: refines_def step_ok_def calls_events call_off)
qed

lemma run_op_refines:
  assumes "list_ok l" "big_oom oom" "op_ok op"
  shows "refines l (needs_memory op l) (spec_op op (abs_list l)) (run_op oom junk op l)"
proof (cases op)
  case (Push v) then show ?thesis using push_refines [OF assms(1,2)] by blast
next
  case (Set i v) then show ?thesis using set_refines [OF assms(1)] by blast
next
  case Pop then show ?thesis using pop_refines [OF assms(1)] by blast
next
  case (Insert i v) then show ?thesis using insert_refines [OF assms(1,2)] by blast
next
  case (Remove i) then show ?thesis using remove_refines [OF assms(1)] by blast
next
  case (Reserve c) then show ?thesis using reserve_refines [OF assms(1,2)] assms(3) by simp
next
  case Clear then show ?thesis using clear_truncate_refines(1) [OF assms(1)] by blast
next
  case (Truncate n) then show ?thesis using clear_truncate_refines(2) [OF assms(1)] by blast
next
  case (Swap i j) then show ?thesis using swap_refines [OF assms(1)] by blast
next
  case (Extend s) then show ?thesis using extend_refines [OF assms(1,2)] assms(3) by simp
qed (use reverse_sort_refines [OF assms(1)] in blast)+

text \<open>Runs of operations, with the events and the handed-out values of the whole run.\<close>

fun run_ops :: "(int \<Rightarrow> bool) \<Rightarrow> i64 \<Rightarrow> list_op list \<Rightarrow> lpplist \<Rightarrow> (lpplist \<times> arc_ev list \<times> i64 list) res" where
  "run_ops oom junk [] l = Inr (l, [], [])"
| "run_ops oom junk (op # ops) l = bind_res (run_op oom junk op l) (\<lambda>(l, e, out).
     bind_res (run_ops oom junk ops l) (\<lambda>(l', e', out'). Inr (l', e @ e', out @ out')))"

fun spec_ops :: "list_op list \<Rightarrow> i64 list \<Rightarrow> (i64 list \<times> i64 list) option" where
  "spec_ops [] xs = Some (xs, [])"
| "spec_ops (op # ops) xs = (case spec_op op xs of None \<Rightarrow> None
     | Some (ys, out) \<Rightarrow> (case spec_ops ops ys of None \<Rightarrow> None | Some (zs, out') \<Rightarrow> Some (zs, out @ out')))"

lemma step_ok_trans:
  assumes "step_ok l m e out" "step_ok m n e' out'"
  shows "step_ok l n (e @ e') (out @ out')"
proof (cases "retain_element l")
  case True
  then have "arcs (abs_list m) + released e + arcs out = arcs (abs_list l) + retained e"
    "arcs (abs_list n) + released e' + arcs out' = arcs (abs_list m) + retained e'"
    using assms by (auto simp: step_ok_def)
  then have "arcs (abs_list n) + (released e + released e') + (arcs out + arcs out') = arcs (abs_list l) + (retained e + retained e')"
    by (metis (no_types, lifting) add.assoc add.commute)
  then show ?thesis using assms True by (simp add: step_ok_def)
qed (use assms in \<open>auto simp: step_ok_def\<close>)

lemma run_ops_ok:
  assumes "list_ok l" "big_oom oom" "list_all op_ok ops"
  shows "is_panic (run_ops oom junk ops l) \<or>
    (\<exists>l' evs out. run_ops oom junk ops l = Inr (l', evs, out) \<and> spec_ops ops (abs_list l) = Some (abs_list l', out) \<and>
       step_ok l l' evs out)"
  using assms
proof (induction ops arbitrary: l)
  case Nil
  then show ?case by (auto simp: step_ok_def)
next
  case (Cons op ops)
  from run_op_refines [OF Cons.prems(1,2), of op junk] Cons.prems(3)
  consider "is_panic (run_op oom junk op l)"
    | m e out where "run_op oom junk op l = Inr (m, e, out)" "spec_op op (abs_list l) = Some (abs_list m, out)" "step_ok l m e out"
    by (auto simp: refines_def split: option.splits)
  then show ?case
  proof cases
    case 1
    then show ?thesis by (simp add: is_panic_bind)
  next
    case 2
    then have m: "list_ok m" by (simp add: step_ok_def)
    have "list_all op_ok ops" using Cons.prems(3) by simp
    from Cons.IH [OF m Cons.prems(2) this] show ?thesis
    proof (elim disjE exE conjE)
      fix l' e' out'
      assume "run_ops oom junk ops m = Inr (l', e', out')" "spec_ops ops (abs_list m) = Some (abs_list l', out')" "step_ok m l' e' out'"
      then show ?thesis using 2 step_ok_trans by auto
    qed (use 2 in \<open>auto simp: is_panic_def\<close>)
  qed
qed

section \<open>Properties\<close>



text \<open>C16: Take a fresh owning list, any sequence of operations on it that returns, and the destruction
  of the result: the references retained on elements are exactly those released again plus those
  handed to the caller by \<open>pop\<close> and \<open>remove\<close>. No element leaks and none is released twice.\<close>

theorem lpp_list_ownership_balance:
  assumes "big_oom oom" "list_all op_ok ops" "lpp_list_new_arc oom = Inr l0"
    and "run_ops oom junk ops l0 = Inr (l, evs, out)"
  shows "\<exists>lp evs'. lpp_list_destroy (Some l) = Inr (lp, evs') \<and>
    retained (evs @ evs') = released (evs @ evs') + arcs out"
proof -
  have l0: "list_ok l0" "retain_element l0" "abs_list l0 = []"
    using assms(3) by (auto simp: lpp_list_new_arc_def lpp_list_new_with_ownership_def list_ok_def abs_list_def INT64_MAX_def split: if_splits)
  then have s: "step_ok l0 l evs out"
    using run_ops_ok [OF l0(1) assms(1,2), of junk] assms(4) by (auto simp: is_panic_def)
  then have ok: "list_ok l" "drop_element l" using l0(2) list_ok_flags by (auto simp: step_ok_def)
  have "lpp_list_destroy (Some l) = Inr (Some (l\<lparr>ldata := [], llen := 0, lcap := 0\<rparr>), concat (map (call_drop l) (abs_list l)))"
    using drop_from_ok [OF ok(1), of 0] ok(2) by (simp add: lpp_list_destroy_def)
  moreover have "arcs (abs_list l) + released evs + arcs out = retained evs"
    using s l0 by (simp add: step_ok_def)
  ultimately show ?thesis using ok(2) by (auto simp: calls_events ac_simps)
qed

theorem lpp_list_ownership_balance_witness:
  "\<exists>l evs out lp evs'. lpp_list_new_arc (\<lambda>n. n > INT64_MAX) = Inr \<lparr>ldata = [], llen = 0, lcap = 0, retain_element = True, drop_element = True\<rparr> \<and>
    run_ops (\<lambda>n. n > INT64_MAX) 0 [Push 0x2000, Push 0x3000, Set 0 0x4000, Pop]
      \<lparr>ldata = [], llen = 0, lcap = 0, retain_element = True, drop_element = True\<rparr> = Inr (l, evs, out) \<and>
    lpp_list_destroy (Some l) = Inr (lp, evs') \<and> retained (evs @ evs') = released (evs @ evs') + arcs out"
proof -
  let ?l0 = "\<lparr>ldata = [], llen = 0, lcap = 0, retain_element = True, drop_element = True\<rparr>"
  let ?ops = "[Push 0x2000, Push 0x3000, Set 0 0x4000, Pop]"
  have n: "lpp_list_new_arc (\<lambda>n. n > INT64_MAX) = Inr ?l0"
    by (simp add: lpp_list_new_arc_def lpp_list_new_with_ownership_def INT64_MAX_def)
  have "is_ok (run_ops (\<lambda>n. n > INT64_MAX) 0 ?ops ?l0)" unfolding INT64_MAX_def by code_simp
  then obtain l evs out where r: "run_ops (\<lambda>n. n > INT64_MAX) 0 ?ops ?l0 = Inr (l, evs, out)"
    by (auto simp: is_ok_iff)
  show ?thesis
    using lpp_list_ownership_balance [OF _ _ n r] n r by (auto simp: big_oom_def)
qed

text \<open>After \<open>lpp_list_sort\<close>, \<open>lpp_list_binary_search\<close> returns an index of the value when the list
  contains it, and otherwise \<open>-(p + 1)\<close> for the position \<open>p\<close> that separates the smaller from the
  larger elements.\<close>

theorem lpp_list_sort_search:
  assumes "list_ok l"
  shows "\<exists>l' r. lpp_list_sort (Some l) = Inr (Some l') \<and> lpp_list_binary_search (Some l') v = Inr r \<and>
    mset (abs_list l') = mset (abs_list l) \<and>
    (if v \<in> set (abs_list l) then 0 \<le> r \<and> r < llen l' \<and> abs_list l' ! nat r = v
     else \<exists>p \<le> length (abs_list l'). r = - (int p + 1) \<and>
       (\<forall>x \<in> set (take p (abs_list l')). sint x < sint v) \<and> (\<forall>x \<in> set (drop p (abs_list l')). sint v < sint x))"
proof -
  obtain l' where l': "lpp_list_sort (Some l) = Inr (Some l')" "list_ok l'" "abs_list l' = lpp_sort_with lpp_i64_lt (abs_list l)"
    using list_sort_with_ok [OF assms i64_asc.cmp_order_axioms] by (auto simp: lpp_list_sort_def)
  have so: "sorted_wrt (\<lambda>a b. sint a \<le> sint b) (abs_list l')" and ms: "mset (abs_list l') = mset (abs_list l)"
    using i64_asc.sort_with_ok [of "abs_list l"] unfolding in_order_iffs l'(3) by auto
  have n: "int (length (abs_list l')) = llen l'" using l'(2) by simp
  have "\<exists>r. search_loop l' v 0 (llen l' - 1) = Inr r \<and>
    (0 \<le> r \<and> r < llen l' \<and> abs_list l' ! nat r = v \<or>
     r < 0 \<and> 0 \<le> - r - 1 \<and> - r - 1 \<le> llen l' \<and> (\<forall>k < nat (- r - 1). sint (abs_list l' ! k) < sint v) \<and>
       (\<forall>k < length (abs_list l'). - r - 1 \<le> int k \<longrightarrow> sint v < sint (abs_list l' ! k)))"
    using l'(2) so n by (intro search_loop_ok) (auto simp: list_ok_def)
  then obtain r where r: "lpp_list_binary_search (Some l') v = Inr r"
      "0 \<le> r \<and> r < llen l' \<and> abs_list l' ! nat r = v \<or>
       r < 0 \<and> 0 \<le> - r - 1 \<and> - r - 1 \<le> llen l' \<and> (\<forall>k < nat (- r - 1). sint (abs_list l' ! k) < sint v) \<and>
         (\<forall>k < length (abs_list l'). - r - 1 \<le> int k \<longrightarrow> sint v < sint (abs_list l' ! k))"
    by (auto simp: lpp_list_binary_search_def)
  from r(2) have "if v \<in> set (abs_list l') then 0 \<le> r \<and> r < llen l' \<and> abs_list l' ! nat r = v
     else \<exists>p \<le> length (abs_list l'). r = - (int p + 1) \<and>
       (\<forall>x \<in> set (take p (abs_list l')). sint x < sint v) \<and> (\<forall>x \<in> set (drop p (abs_list l')). sint v < sint x)"
  proof
    assume h: "0 \<le> r \<and> r < llen l' \<and> abs_list l' ! nat r = v"
    then have "nat r < length (abs_list l')" using n by linarith
    with h show ?thesis using nth_mem by fastforce
  next
    let ?p = "nat (- r - 1)"
    assume h: "r < 0 \<and> 0 \<le> - r - 1 \<and> - r - 1 \<le> llen l' \<and> (\<forall>k < ?p. sint (abs_list l' ! k) < sint v) \<and>
         (\<forall>k < length (abs_list l'). - r - 1 \<le> int k \<longrightarrow> sint v < sint (abs_list l' ! k))"
    then have p: "?p \<le> length (abs_list l')" "r = - (int ?p + 1)" using n by linarith+
    have lo: "\<forall>x \<in> set (take ?p (abs_list l')). sint x < sint v" using h by (auto simp: in_set_conv_nth)
    have hi: "\<forall>x \<in> set (drop ?p (abs_list l')). sint v < sint x"
    proof
      fix x assume "x \<in> set (drop ?p (abs_list l'))"
      then obtain k where "k < length (abs_list l') - ?p" "x = abs_list l' ! (?p + k)" using p(1) by (auto simp: in_set_conv_nth)
      then show "sint v < sint x" using h p by auto
    qed
    have "v \<notin> set (take ?p (abs_list l'))" "v \<notin> set (drop ?p (abs_list l'))" using lo hi by auto
    then have "v \<notin> set (abs_list l')" by (metis Un_iff append_take_drop_id set_append)
    then show ?thesis using lo hi p by auto
  qed
  then show ?thesis using l'(1) r(1) ms mset_eq_setD [OF ms] by auto
qed

theorem lpp_list_sort_search_witness:
  "\<exists>l' r. lpp_list_sort (Some \<lparr>ldata = [9, -4, 7], llen = 3, lcap = 3, retain_element = False, drop_element = False\<rparr>) = Inr (Some l') \<and>
     lpp_list_binary_search (Some l') 7 = Inr r \<and> abs_list l' ! nat r = 7"
  using lpp_list_sort_search [of "\<lparr>ldata = [9, -4, 7], llen = 3, lcap = 3, retain_element = False, drop_element = False\<rparr>" 7]
  by (auto simp: list_ok_def abs_list_def INT64_MAX_def)

text \<open>\<open>lpp_list_reserve\<close> multiplies the capacity by 8 in \<open>size_t\<close> without a check: reserving
  \<open>2 ^ 61 + 1\<close> slots on an empty list allocates 8 bytes, records the huge capacity, and the second
  \<open>push\<close> writes behind the block.\<close>

theorem lpp_list_reserve_wraps:
  assumes "\<not> oom 8"
  shows "bind_res (lpp_list_reserve oom junk (Some \<lparr>ldata = [], llen = 0, lcap = 0, retain_element = False, drop_element = False\<rparr>) (2 ^ 61 + 1))
      (\<lambda>lp. bind_res (lpp_list_push oom junk lp v) (\<lambda>(l, _). lpp_list_push oom junk (Some l) w)) =
    Inl (Fault ''list slot outside the block'')"
  using assms by (simp add: lpp_list_reserve_def realloc_slots_def lpp_list_push_def wr_slot_def call_retain_def)

theorem lpp_list_reserve_wraps_witness:
  "bind_res (lpp_list_reserve (\<lambda>n. n > 100) 0 (Some \<lparr>ldata = [], llen = 0, lcap = 0, retain_element = False, drop_element = False\<rparr>) (2 ^ 61 + 1))
      (\<lambda>lp. bind_res (lpp_list_push (\<lambda>n. n > 100) 0 lp 1) (\<lambda>(l, _). lpp_list_push (\<lambda>n. n > 100) 0 (Some l) 2)) =
    Inl (Fault ''list slot outside the block'')"
  by (rule lpp_list_reserve_wraps) simp

end
