(* ===== verification/Lpp_Map.thy ===== *)
theory Lpp_Map
  imports Lpp_List
begin

text \<open>
  The open-addressing hash map of \<^verbatim>\<open>runtime/lpp_map.c\<close>: linear probing over an array of entries that
  are empty, occupied or deleted (tombstones). A string key is stored as the pointer the caller passed; the
  parameter \<open>sm\<close> gives the C string at an address (\<open>None\<close> for NULL and for addresses that hold none).
  Capacities, lengths and slot indices are natural numbers: the code allocates every slot it counts. Probe
  loops carry as fuel the number of slots; going once around without meeting an exit means that the C loop
  does not end.
\<close>

section \<open>Entries and hashing\<close>

datatype slot_state = SEmpty | SOccupied | SDeleted

record LppMapEntry =
  ekey :: i64
  eval :: i64
  is_str_key :: bool
  occupied :: slot_state

record LppMap =
  entries :: "LppMapEntry list"
  mcap :: nat
  mlen :: nat
  arc_values :: bool

type_synonym strmem = "i64 \<Rightarrow> cstr"

definition empty_entry :: LppMapEntry where
  "empty_entry = \<lparr>ekey = 0, eval = 0, is_str_key = False, occupied = SEmpty\<rparr>"

fun hash_str_loop :: "u64 \<Rightarrow> string \<Rightarrow> u64" where
  "hash_str_loop hash [] = hash"
| "hash_str_loop hash (c # s) = hash_str_loop ((hash XOR of_nat (of_char c)) * 1099511628211) s"

definition lpp_hash_str :: "cstr \<Rightarrow> u64" where
  "lpp_hash_str s = (case s of None \<Rightarrow> 0 | Some s \<Rightarrow> hash_str_loop 14695981039346656037 s)"

definition lpp_hash_int :: "i64 \<Rightarrow> u64" where
  "lpp_hash_int key =
     (let k = key;
          k = NOT k + push_bit 21 k;
          k = k XOR drop_bit 24 k;
          k = (k + push_bit 3 k) + push_bit 8 k;
          k = k XOR drop_bit 14 k;
          k = (k + push_bit 2 k) + push_bit 4 k;
          k = k XOR drop_bit 28 k
      in k + push_bit 31 k)"

definition hash_of :: "strmem \<Rightarrow> bool \<Rightarrow> i64 \<Rightarrow> u64" where
  "hash_of sm is_str key = (if is_str then lpp_hash_str (sm key) else lpp_hash_int key)"

text \<open>\<open>h % cap\<close>; a zero capacity would be a division trap.\<close>

definition slot_of :: "u64 \<Rightarrow> nat \<Rightarrow> nat res" where
  "slot_of h cap = (if cap = 0 then Inl (Fault ''modulo by zero'') else Inr (unat h mod cap))"

definition rd_entry :: "LppMapEntry list \<Rightarrow> nat \<Rightarrow> LppMapEntry res" where
  "rd_entry es i = (if i < length es then Inr (es ! i) else Inl (Fault ''map entry outside the table''))"

definition wr_entry :: "LppMapEntry list \<Rightarrow> nat \<Rightarrow> LppMapEntry \<Rightarrow> LppMapEntry list res" where
  "wr_entry es i e = (if i < length es then Inr (es[i := e]) else Inl (Fault ''map entry outside the table''))"

text \<open>
  The host map and the freestanding map of \<^verbatim>\<open>runtime/linux_x86_64_min.c\<close> run the same probe, rehash and
  update code. They differ in the comparison of string keys, in the allocator of the entry table and in how
  an allocation failure ends the program: these are the fields of the environment the operations take.
\<close>

record map_env =
  str_at :: strmem
  key_eq :: "i64 \<Rightarrow> i64 \<Rightarrow> bool res"
  table_oom :: "nat \<Rightarrow> bool"
  new_fault :: lpp_fault
  rehash_fault :: lpp_fault

text \<open>Host: \<open>strcmp\<close> of the two strings, \<open>calloc\<close> of 24-byte entries.\<close>

definition str_match :: "strmem \<Rightarrow> i64 \<Rightarrow> i64 \<Rightarrow> bool res" where
  "str_match sm p q = (case (sm p, sm q) of (Some a, Some b) \<Rightarrow> Inr (a = b) | _ \<Rightarrow> Inl (Fault ''strcmp of an invalid string''))"

definition host_env :: "(int \<Rightarrow> bool) \<Rightarrow> strmem \<Rightarrow> map_env" where
  "host_env oom sm = \<lparr>str_at = sm, key_eq = str_match sm, table_oom = (\<lambda>n. oom (int n * 24)),
     new_fault = Panic ''out of memory while allocating map'',
     rehash_fault = Panic ''out of memory while rehashing map''\<rparr>"

text \<open>Freestanding: identical pointers match; two pointers above the image base are compared byte by
  byte; \<open>mmap\<close> of whole pages.\<close>

fun cstr_eq_loop :: "string \<Rightarrow> string \<Rightarrow> bool" where
  "cstr_eq_loop (c # s) (d # t) = (if c = d then cstr_eq_loop s t else False)"
| "cstr_eq_loop [] [] = True"
| "cstr_eq_loop s t = False"

definition lpp_map_key_equal :: "strmem \<Rightarrow> i64 \<Rightarrow> i64 \<Rightarrow> bool res" where
  "lpp_map_key_equal sm k1 k2 =
     (if k1 = k2 then Inr True
      else if sint k1 \<ge> 0x400000 \<and> sint k2 \<ge> 0x400000
      then (case (sm k1, sm k2) of (Some a, Some b) \<Rightarrow> Inr (cstr_eq_loop a b)
            | _ \<Rightarrow> Inl (Fault ''read of an invalid string''))
      else Inr False)"

definition lpp_page_round :: "int \<Rightarrow> int" where
  "lpp_page_round n = ((n + 4095) div 4096) * 4096"

definition fs_env :: "(int \<Rightarrow> bool) \<Rightarrow> strmem \<Rightarrow> map_env" where
  "fs_env mmap_fails sm = \<lparr>str_at = sm, key_eq = lpp_map_key_equal sm,
     table_oom = (\<lambda>n. mmap_fails (lpp_page_round (int n * 24))),
     new_fault = Exited 101, rehash_fault = Exited 101\<rparr>"

section \<open>Construction\<close>

text \<open>Zeroed tables are all empty entries.\<close>

definition alloc_entries :: "map_env \<Rightarrow> nat \<Rightarrow> LppMapEntry list option" where
  "alloc_entries E n = (if table_oom E n then None else Some (replicate n empty_entry))"

definition lpp_map_new_with_mode :: "map_env \<Rightarrow> bool \<Rightarrow> bool \<Rightarrow> LppMap option res" where
  "lpp_map_new_with_mode E arc_oom arc =
     (if arc_oom then Inr None
      else case alloc_entries E 16 of
        None \<Rightarrow> Inl (new_fault E)
      | Some es \<Rightarrow> Inr (Some \<lparr>entries = es, mcap = 16, mlen = 0, arc_values = arc\<rparr>))"

definition lpp_map_new :: "map_env \<Rightarrow> bool \<Rightarrow> LppMap option res" where
  "lpp_map_new E arc_oom = lpp_map_new_with_mode E arc_oom False"

definition lpp_map_new_arc :: "map_env \<Rightarrow> bool \<Rightarrow> LppMap option res" where
  "lpp_map_new_arc E arc_oom = lpp_map_new_with_mode E arc_oom True"

text \<open>The release of the value of every occupied entry.\<close>

definition release_values :: "LppMapEntry list \<Rightarrow> arc_ev list" where
  "release_values es = map (\<lambda>e. Release (eval e)) (filter (\<lambda>e. occupied e = SOccupied) es)"

definition lpp_map_destroy :: "LppMap option \<Rightarrow> LppMap option \<times> arc_ev list" where
  "lpp_map_destroy mp = (case mp of None \<Rightarrow> (None, [])
     | Some m \<Rightarrow> (Some (m\<lparr>entries := [], mcap := 0, mlen := 0\<rparr>),
                  if arc_values m then release_values (entries m) else []))"

section \<open>Insertion\<close>

text \<open>The inner probe of rehashing: the first slot that is not occupied.\<close>

fun place_loop :: "LppMapEntry list \<Rightarrow> nat \<Rightarrow> nat \<Rightarrow> nat \<Rightarrow> nat res" where
  "place_loop es cap idx 0 = Inl (Fault ''probe does not end'')"
| "place_loop es cap idx (Suc fuel) = bind_res (rd_entry es idx) (\<lambda>e.
     if occupied e = SOccupied then place_loop es cap ((idx + 1) mod cap) fuel else Inr idx)"

fun rehash_loop :: "map_env \<Rightarrow> nat \<Rightarrow> LppMapEntry list \<Rightarrow> LppMapEntry list \<Rightarrow> nat \<Rightarrow> (LppMapEntry list \<times> nat) res" where
  "rehash_loop E cap [] es len = Inr (es, len)"
| "rehash_loop E cap (e # old) es len =
     (if occupied e = SOccupied
      then bind_res (slot_of (hash_of (str_at E) (is_str_key e) (ekey e)) cap) (\<lambda>idx.
             bind_res (place_loop es cap idx cap) (\<lambda>idx.
               bind_res (wr_entry es idx \<lparr>ekey = ekey e, eval = eval e, is_str_key = is_str_key e, occupied = SOccupied\<rparr>)
                 (\<lambda>es. rehash_loop E cap old es (len + 1))))
      else rehash_loop E cap old es len)"

definition lpp_map_rehash :: "map_env \<Rightarrow> LppMap \<Rightarrow> nat \<Rightarrow> LppMap res" where
  "lpp_map_rehash E m new_cap = (case alloc_entries E new_cap of
     None \<Rightarrow> Inl (rehash_fault E)
   | Some es \<Rightarrow> bind_res (rehash_loop E new_cap (entries m) es 0) (\<lambda>(es, len).
       Inr (m\<lparr>entries := es, mcap := new_cap, mlen := len\<rparr>)))"

text \<open>The probe of an insertion: the slot of the key, or the slot for a new entry (the first tombstone
  passed on the way to the empty slot, when there is one).\<close>

datatype put_slot = Found nat | Free nat

fun put_loop :: "map_env \<Rightarrow> LppMapEntry list \<Rightarrow> nat \<Rightarrow> bool \<Rightarrow> i64 \<Rightarrow> nat option \<Rightarrow> nat \<Rightarrow> nat \<Rightarrow> put_slot res" where
  "put_loop E es cap is_str key tomb idx 0 = Inl (Fault ''probe does not end'')"
| "put_loop E es cap is_str key tomb idx (Suc fuel) = bind_res (rd_entry es idx) (\<lambda>e.
     if occupied e = SEmpty then Inr (Free (case tomb of None \<Rightarrow> idx | Some t \<Rightarrow> t))
     else bind_res (if occupied e = SOccupied \<and> is_str_key e = is_str
                    then if is_str then key_eq E (ekey e) key else Inr (ekey e = key)
                    else Inr False) (\<lambda>matches.
       if matches then Inr (Found idx)
       else put_loop E es cap is_str key
              (if occupied e = SDeleted \<and> tomb = None then Some idx else tomb) ((idx + 1) mod cap) fuel))"

definition lpp_map_put_internal ::
  "map_env \<Rightarrow> LppMap option \<Rightarrow> i64 \<Rightarrow> i64 \<Rightarrow> bool \<Rightarrow> (LppMap option \<times> arc_ev list) res" where
  "lpp_map_put_internal E mp key val is_str = (case mp of None \<Rightarrow> Inr (None, [])
   | Some m \<Rightarrow>
     (let occupied_slots = length (filter (\<lambda>e. occupied e \<noteq> SEmpty) (entries m))
      in bind_res
          (if occupied_slots * 10 \<ge> mcap m * 7
           then let new_cap = (if mlen m * 100 < mcap m * 35 then mcap m else mcap m * 2);
                    new_cap = (if new_cap < 16 then 16 else new_cap)
                in lpp_map_rehash E m new_cap
           else Inr m)
          (\<lambda>m. bind_res (slot_of (hash_of (str_at E) is_str key) (mcap m)) (\<lambda>idx.
             bind_res (put_loop E (entries m) (mcap m) is_str key None idx (mcap m)) (\<lambda>slot.
               case slot of
                 Found idx \<Rightarrow> bind_res (rd_entry (entries m) idx) (\<lambda>e.
                   bind_res (wr_entry (entries m) idx (e\<lparr>eval := val\<rparr>)) (\<lambda>es.
                     Inr (Some (m\<lparr>entries := es\<rparr>), if arc_values m then [Retain val, Release (eval e)] else [])))
               | Free idx \<Rightarrow>
                   bind_res (wr_entry (entries m) idx \<lparr>ekey = key, eval = val, is_str_key = is_str, occupied = SOccupied\<rparr>)
                     (\<lambda>es. Inr (Some (m\<lparr>entries := es, mlen := mlen m + 1\<rparr>), if arc_values m then [Retain val] else [])))))))"

definition lpp_map_put :: "map_env \<Rightarrow> LppMap option \<Rightarrow> i64 \<Rightarrow> i64 \<Rightarrow> (LppMap option \<times> arc_ev list) res" where
  "lpp_map_put E mp key val = lpp_map_put_internal E mp key val False"

definition lpp_map_put_str :: "map_env \<Rightarrow> LppMap option \<Rightarrow> i64 \<Rightarrow> i64 \<Rightarrow> (LppMap option \<times> arc_ev list) res" where
  "lpp_map_put_str E mp key val = lpp_map_put_internal E mp key val True"

section \<open>Lookup and removal\<close>

text \<open>The probe shared by the six lookup functions; it stops at an empty slot, at a match and when it is
  back at its start.\<close>

fun find_loop :: "map_env \<Rightarrow> LppMapEntry list \<Rightarrow> nat \<Rightarrow> bool \<Rightarrow> i64 \<Rightarrow> nat \<Rightarrow> nat \<Rightarrow> nat \<Rightarrow> nat option res" where
  "find_loop E es cap is_str key start idx 0 = Inl (Fault ''probe does not end'')"
| "find_loop E es cap is_str key start idx (Suc fuel) = bind_res (rd_entry es idx) (\<lambda>e.
     if occupied e = SEmpty then Inr None
     else bind_res (if occupied e = SOccupied \<and> is_str_key e = is_str
                    then if is_str then key_eq E (ekey e) key else Inr (ekey e = key)
                    else Inr False) (\<lambda>matches.
       if matches then Inr (Some idx)
       else let idx = (idx + 1) mod cap
            in if idx = start then Inr None else find_loop E es cap is_str key start idx fuel))"

definition find_key :: "map_env \<Rightarrow> LppMap \<Rightarrow> bool \<Rightarrow> i64 \<Rightarrow> nat option res" where
  "find_key E m is_str key =
     bind_res (slot_of (hash_of (str_at E) is_str key) (mcap m)) (\<lambda>idx.
       find_loop E (entries m) (mcap m) is_str key idx idx (mcap m))"

definition lpp_map_get :: "map_env \<Rightarrow> LppMap option \<Rightarrow> i64 \<Rightarrow> i64 res" where
  "lpp_map_get E mp key = (case mp of None \<Rightarrow> Inr 0
   | Some m \<Rightarrow> if mlen m = 0 then Inr 0
               else bind_res (find_key E m False key) (\<lambda>r.
                 case r of None \<Rightarrow> Inr 0 | Some i \<Rightarrow> bind_res (rd_entry (entries m) i) (\<lambda>e. Inr (eval e))))"

definition lpp_map_get_str :: "map_env \<Rightarrow> LppMap option \<Rightarrow> i64 \<Rightarrow> i64 res" where
  "lpp_map_get_str E mp key = (case mp of None \<Rightarrow> Inr 0
   | Some m \<Rightarrow> if key = 0 \<or> mlen m = 0 then Inr 0
               else bind_res (find_key E m True key) (\<lambda>r.
                 case r of None \<Rightarrow> Inr 0 | Some i \<Rightarrow> bind_res (rd_entry (entries m) i) (\<lambda>e. Inr (eval e))))"

definition lpp_map_has :: "map_env \<Rightarrow> LppMap option \<Rightarrow> i64 \<Rightarrow> bool res" where
  "lpp_map_has E mp key = (case mp of None \<Rightarrow> Inr False
   | Some m \<Rightarrow> if mlen m = 0 then Inr False
               else bind_res (find_key E m False key) (\<lambda>r. Inr (r \<noteq> None)))"

definition lpp_map_has_str :: "map_env \<Rightarrow> LppMap option \<Rightarrow> i64 \<Rightarrow> bool res" where
  "lpp_map_has_str E mp key = (case mp of None \<Rightarrow> Inr False
   | Some m \<Rightarrow> if key = 0 \<or> mlen m = 0 then Inr False
               else bind_res (find_key E m True key) (\<lambda>r. Inr (r \<noteq> None)))"

text \<open>A \<open>double\<close> value is stored as its 64 bits.\<close>

definition lpp_map_put_float :: "map_env \<Rightarrow> LppMap option \<Rightarrow> i64 \<Rightarrow> i64 \<Rightarrow> (LppMap option \<times> arc_ev list) res" where
  "lpp_map_put_float E mp key bits = lpp_map_put E mp key bits"

definition lpp_map_get_float :: "map_env \<Rightarrow> LppMap option \<Rightarrow> i64 \<Rightarrow> i64 res" where
  "lpp_map_get_float E mp key = lpp_map_get E mp key"

definition lpp_map_put_str_float :: "map_env \<Rightarrow> LppMap option \<Rightarrow> i64 \<Rightarrow> i64 \<Rightarrow> (LppMap option \<times> arc_ev list) res" where
  "lpp_map_put_str_float E mp key bits = lpp_map_put_str E mp key bits"

definition lpp_map_get_str_float :: "map_env \<Rightarrow> LppMap option \<Rightarrow> i64 \<Rightarrow> i64 res" where
  "lpp_map_get_str_float E mp key = lpp_map_get_str E mp key"

definition lpp_map_len :: "LppMap option \<Rightarrow> nat" where
  "lpp_map_len mp = (case mp of None \<Rightarrow> 0 | Some m \<Rightarrow> mlen m)"

text \<open>The deletion at a found slot: release the value, leave a tombstone.\<close>

definition delete_slot :: "LppMap \<Rightarrow> nat option \<Rightarrow> (LppMap option \<times> arc_ev list) res" where
  "delete_slot m r = (case r of None \<Rightarrow> Inr (Some m, [])
   | Some i \<Rightarrow> bind_res (rd_entry (entries m) i) (\<lambda>e.
       bind_res (wr_entry (entries m) i (e\<lparr>occupied := SDeleted\<rparr>)) (\<lambda>es.
         Inr (Some (m\<lparr>entries := es, mlen := mlen m - 1\<rparr>), if arc_values m then [Release (eval e)] else []))))"

definition lpp_map_remove :: "map_env \<Rightarrow> LppMap option \<Rightarrow> i64 \<Rightarrow> (LppMap option \<times> arc_ev list) res" where
  "lpp_map_remove E mp key = (case mp of None \<Rightarrow> Inr (None, [])
   | Some m \<Rightarrow> if mlen m = 0 then Inr (Some m, [])
               else bind_res (find_key E m False key) (delete_slot m))"

definition lpp_map_remove_str :: "map_env \<Rightarrow> LppMap option \<Rightarrow> i64 \<Rightarrow> (LppMap option \<times> arc_ev list) res" where
  "lpp_map_remove_str E mp key = (case mp of None \<Rightarrow> Inr (None, [])
   | Some m \<Rightarrow> if key = 0 \<or> mlen m = 0 then Inr (Some m, [])
               else bind_res (find_key E m True key) (delete_slot m))"

section \<open>Whole-map operations\<close>

text \<open>
  \<open>lpp_map_keys\<close> copies every string key into a fresh ARC string; the parameter \<open>copies\<close> gives the
  address of the copy for the n-th one (0 when the allocation fails).
\<close>

fun keys_loop :: "(int \<Rightarrow> bool) \<Rightarrow> i64 \<Rightarrow> (nat \<Rightarrow> i64) \<Rightarrow> LppMapEntry list \<Rightarrow> nat \<Rightarrow> lpplist \<Rightarrow> (lpplist \<times> arc_ev list) res" where
  "keys_loop oom junk copies [] n l = Inr (l, [])"
| "keys_loop oom junk copies (e # es) n l =
     (if occupied e = SOccupied
      then bind_res (if is_str_key e then lpp_list_push_arc oom junk (Some l) (copies n)
                     else lpp_list_push oom junk (Some l) (ekey e)) (\<lambda>(l, ev).
             bind_res (keys_loop oom junk copies es (if is_str_key e then n + 1 else n) l) (\<lambda>(l, evs). Inr (l, ev @ evs)))
      else keys_loop oom junk copies es n l)"

definition lpp_map_keys :: "(int \<Rightarrow> bool) \<Rightarrow> i64 \<Rightarrow> (nat \<Rightarrow> i64) \<Rightarrow> LppMap option \<Rightarrow> (lpplist \<times> arc_ev list) res" where
  "lpp_map_keys oom junk copies mp = (case mp of
     None \<Rightarrow> bind_res (lpp_list_new oom) (\<lambda>l. Inr (l, []))
   | Some m \<Rightarrow>
       if mlen m = 0 then bind_res (lpp_list_new oom) (\<lambda>l. Inr (l, []))
       else let has_str_key = list_ex (\<lambda>e. occupied e = SOccupied \<and> is_str_key e) (entries m)
            in bind_res (if has_str_key then lpp_list_new_arc oom else lpp_list_new oom) (\<lambda>l.
                 keys_loop oom junk copies (entries m) 0 l))"

fun values_loop :: "(int \<Rightarrow> bool) \<Rightarrow> i64 \<Rightarrow> bool \<Rightarrow> LppMapEntry list \<Rightarrow> lpplist \<Rightarrow> (lpplist \<times> arc_ev list) res" where
  "values_loop oom junk arc [] l = Inr (l, [])"
| "values_loop oom junk arc (e # es) l =
     (if occupied e = SOccupied
      then bind_res (if arc then lpp_list_push_arc oom junk (Some l) (eval e)
                     else lpp_list_push oom junk (Some l) (eval e)) (\<lambda>(l, ev).
             bind_res (values_loop oom junk arc es l) (\<lambda>(l, evs). Inr (l, ev @ evs)))
      else values_loop oom junk arc es l)"

definition lpp_map_values :: "(int \<Rightarrow> bool) \<Rightarrow> i64 \<Rightarrow> LppMap option \<Rightarrow> (lpplist \<times> arc_ev list) res" where
  "lpp_map_values oom junk mp = (case mp of
     None \<Rightarrow> bind_res (lpp_list_new oom) (\<lambda>l. Inr (l, []))
   | Some m \<Rightarrow>
       if mlen m = 0 then bind_res (lpp_list_new oom) (\<lambda>l. Inr (l, []))
       else bind_res (if arc_values m then lpp_list_new_arc oom else lpp_list_new oom) (\<lambda>l.
              values_loop oom junk (arc_values m) (entries m) l))"

definition lpp_map_clear :: "LppMap option \<Rightarrow> LppMap option \<times> arc_ev list" where
  "lpp_map_clear mp = (case mp of None \<Rightarrow> (None, [])
   | Some m \<Rightarrow> if entries m = [] then (Some m, [])
               else (Some (m\<lparr>entries := replicate (mcap m) empty_entry, mlen := 0\<rparr>),
                     if arc_values m then release_values (entries m) else []))"

definition lpp_map_capacity :: "LppMap option \<Rightarrow> nat" where
  "lpp_map_capacity mp = (case mp of None \<Rightarrow> 0 | Some m \<Rightarrow> mcap m)"

section \<open>Keys and tables\<close>

datatype mkey = KInt i64 | KStr string

definition key_of :: "strmem \<Rightarrow> bool \<Rightarrow> i64 \<Rightarrow> mkey" where
  "key_of sm is_str key = (if is_str then KStr (the (sm key)) else KInt key)"

definition ent_key :: "strmem \<Rightarrow> LppMapEntry \<Rightarrow> mkey" where
  "ent_key sm e = key_of sm (is_str_key e) (ekey e)"

fun khash :: "mkey \<Rightarrow> nat" where
  "khash (KInt k) = unat (lpp_hash_int k)"
| "khash (KStr s) = unat (lpp_hash_str (Some s))"

definition occ :: "LppMapEntry \<Rightarrow> bool" where
  "occ e \<longleftrightarrow> occupied e = SOccupied"

definition occs :: "LppMapEntry list \<Rightarrow> LppMapEntry multiset" where
  "occs es = mset (filter occ es)"

text \<open>The mapping a table stands for.\<close>

definition amap :: "strmem \<Rightarrow> LppMapEntry list \<Rightarrow> mkey \<rightharpoonup> i64" where
  "amap sm es k = map_option eval (find (\<lambda>e. occ e \<and> ent_key sm e = k) es)"

lemma occs_update:
  "i < length es \<Longrightarrow> occs (es[i := y]) + (if occ (es ! i) then {#es ! i#} else {#}) =
     occs es + (if occ y then {#y#} else {#})"
proof (induction es arbitrary: i)
  case (Cons e es)
  show ?case
  proof (cases i)
    case (Suc j)
    with Cons.prems have "j < length es" by simp
    from Cons.IH [OF this] Suc show ?thesis by (auto simp: occs_def split: if_splits)
  qed (simp add: occs_def)
qed simp

lemma in_occs_iff: "e \<in># occs es \<longleftrightarrow> e \<in> set es \<and> occ e"
  by (simp add: occs_def)

lemma size_occs: "size (occs es) = length (filter occ es)"
  by (metis occs_def size_mset)

lemma pos_step: "((h + d) mod n + 1) mod n = (h + Suc d) mod (n :: nat)"
  by (simp add: mod_Suc_eq)

lemma pos_ne_start: "0 < d \<Longrightarrow> d < n \<Longrightarrow> (h + d) mod n \<noteq> h mod (n :: nat)"
proof
  assume "0 < d" "d < n" "(h + d) mod n = h mod n"
  then have "n dvd d" by (metis add_diff_cancel_left' le_add1 mod_eq_dvd_iff_nat)
  with \<open>0 < d\<close> \<open>d < n\<close> show False by (auto dest: dvd_imp_le)
qed

lemma pos_surj: "i < n \<Longrightarrow> \<exists>d < n. i = (h + d) mod (n :: nat)"
proof -
  assume i: "i < n"
  let ?d = "(i + n - h mod n) mod n"
  have "h mod n < n" using i by simp
  have "(h + ?d) mod n = (h mod n + (i + n - h mod n)) mod n"
    by (simp only: mod_add_right_eq mod_add_left_eq)
  also have "h mod n + (i + n - h mod n) = i + n" using \<open>h mod n < n\<close> by linarith
  also have "(i + n) mod n = i" using i by simp
  finally show ?thesis using i by (intro exI [of _ ?d]) simp
qed

text \<open>Walking from the home slot of a hash: offsets are numbered from 0.\<close>

definition at :: "LppMapEntry list \<Rightarrow> nat \<Rightarrow> nat \<Rightarrow> LppMapEntry" where
  "at es h d = es ! ((h + d) mod length es)"

definition full_path :: "LppMapEntry list \<Rightarrow> nat \<Rightarrow> nat \<Rightarrow> bool" where
  "full_path es h d \<longleftrightarrow> (\<forall>d' < d. occupied (at es h d') \<noteq> SEmpty)"

text \<open>The interface the map code needs of its key comparison: it decides equality of the strings at
  valid key addresses.\<close>

locale map_keys =
  fixes E :: map_env and valid :: "i64 \<Rightarrow> bool"
  assumes valid_str: "valid p \<Longrightarrow> str_at E p \<noteq> None"
    and key_eq: "valid p \<Longrightarrow> valid q \<Longrightarrow> key_eq E p q = Inr (str_at E p = str_at E q)"
begin

definition key :: "LppMapEntry \<Rightarrow> mkey" where
  "key e = ent_key (str_at E) e"

definition tab_ok :: "LppMapEntry list \<Rightarrow> bool" where
  "tab_ok es \<longleftrightarrow> (\<forall>e \<in># occs es. is_str_key e \<longrightarrow> valid (ekey e)) \<and> distinct (map key (filter occ es)) \<and>
     (\<forall>i < length es. occ (es ! i) \<longrightarrow>
        (\<exists>d < length es. i = (khash (key (es ! i)) + d) mod length es \<and> full_path es (khash (key (es ! i))) d))"

definition arg_ok :: "bool \<Rightarrow> i64 \<Rightarrow> bool" where
  "arg_ok is_str k \<longleftrightarrow> (is_str \<longrightarrow> valid k)"

lemma hash_of_key: "arg_ok is_str k \<Longrightarrow> unat (hash_of (str_at E) is_str k) = khash (key_of (str_at E) is_str k)"
  using valid_str by (auto simp: hash_of_def key_of_def arg_ok_def)

lemma key_of_entry: "key e = key_of (str_at E) (is_str_key e) (ekey e)"
  by (simp add: key_def ent_key_def)

text \<open>The comparison inside both probe loops decides the equality of the abstract keys.\<close>

lemma match_eval:
  assumes "tab_ok es" "e \<in> set es" "arg_ok is_str k"
  shows "(if occupied e = SOccupied \<and> is_str_key e = is_str
      then if is_str then key_eq E (ekey e) k else Inr (ekey e = k) else Inr False) =
    Inr (occ e \<and> key e = key_of (str_at E) is_str k)"
proof (cases "occupied e = SOccupied \<and> is_str_key e = is_str \<and> is_str")
  case True
  then have "valid (ekey e)" "valid k" using assms by (auto simp: tab_ok_def in_occs_iff occ_def arg_ok_def)
  then show ?thesis using True key_eq valid_str [of k] valid_str [of "ekey e"] by (auto simp: occ_def key_of_entry key_of_def)
next
  case False
  then show ?thesis by (auto simp: occ_def key_of_entry key_of_def)
qed

lemma amap_iff:
  assumes "distinct (map key (filter occ es))"
  shows "amap (str_at E) es k = Some v \<longleftrightarrow> (\<exists>e \<in># occs es. key e = k \<and> eval e = v)"
  using assms
proof (induction es)
  case Nil
  then show ?case by (simp add: amap_def occs_def)
next
  case (Cons a es)
  show ?case
  proof (cases "occ a \<and> key a = k")
    case True
    then have "\<forall>e \<in># occs es. key e \<noteq> k" using Cons.prems by (auto simp: occs_def image_iff)
    then show ?thesis using True by (auto simp: amap_def occs_def key_def)
  next
    case False
    then have "amap (str_at E) (a # es) k = amap (str_at E) es k" by (auto simp: amap_def key_def)
    moreover have "distinct (map key (filter occ es))" using Cons.prems by (auto split: if_splits)
    ultimately show ?thesis using Cons.IH False by (auto simp: occs_def)
  qed
qed

lemma amap_None_iff: "amap (str_at E) es k = None \<longleftrightarrow> (\<forall>e \<in># occs es. key e \<noteq> k)"
  by (auto simp: amap_def find_None_iff in_occs_iff key_def)

lemma amap_cong: 
  assumes "distinct (map key (filter occ es))" "distinct (map key (filter occ fs))" "occs es = occs fs"
  shows "amap (str_at E) es = amap (str_at E) fs"
proof
  fix k show "amap (str_at E) es k = amap (str_at E) fs k"
    using amap_iff [OF assms(1), of k] amap_iff [OF assms(2), of k] assms(3)
    by (metis not_None_eq)
qed

lemma distinct_cong_occs:
  "occs es = occs fs \<Longrightarrow> distinct (map key (filter occ es)) = distinct (map key (filter occ fs))"
  by (intro mset_eq_imp_distinct_iff) (simp add: occs_def)

lemma distinct_add_occs:
  "occs es = add_mset e (occs fs) \<Longrightarrow>
   distinct (map key (filter occ es)) \<longleftrightarrow> (\<forall>f \<in># occs fs. key f \<noteq> key e) \<and> distinct (map key (filter occ fs))"
proof -
  assume "occs es = add_mset e (occs fs)"
  then have "mset (map key (filter occ es)) = mset (map key (e # filter occ fs))" by (simp add: occs_def)
  then have "distinct (map key (filter occ es)) = distinct (map key (e # filter occ fs))"
    by (rule mset_eq_imp_distinct_iff)
  then show ?thesis by (auto simp: occs_def image_iff)
qed

lemma amap_add:
  assumes "occs es = add_mset e (occs fs)" "distinct (map key (filter occ es))"
  shows "amap (str_at E) es = (amap (str_at E) fs)(key e \<mapsto> eval e)" "amap (str_at E) fs = (amap (str_at E) es)(key e := None)"
proof -
  have d: "distinct (map key (filter occ fs))" "\<forall>f \<in># occs fs. key f \<noteq> key e"
    using assms distinct_add_occs by blast+
  show "amap (str_at E) es = (amap (str_at E) fs)(key e \<mapsto> eval e)"
  proof
    fix k
    have "amap (str_at E) es k = Some v \<longleftrightarrow> ((amap (str_at E) fs)(key e \<mapsto> eval e)) k = Some v" for v
      using amap_iff [OF assms(2), of k v] amap_iff [OF d(1), of k v] assms(1) d(2) by auto
    then show "amap (str_at E) es k = ((amap (str_at E) fs)(key e \<mapsto> eval e)) k" by (metis not_None_eq)
  qed
  moreover have "amap (str_at E) fs (key e) = None" using d(2) by (simp add: amap_None_iff)
  ultimately show "amap (str_at E) fs = (amap (str_at E) es)(key e := None)" by (auto simp: fun_upd_idem)
qed

end

lemma rd_entry_at: "0 < length es \<Longrightarrow> rd_entry es ((h + d) mod length es) = Inr (at es h d)"
  by (simp add: rd_entry_def at_def)

lemma at_mem: "0 < length es \<Longrightarrow> at es h d \<in> set es"
  by (simp add: at_def)

context map_keys
begin

abbreviation hits :: "LppMapEntry list \<Rightarrow> bool \<Rightarrow> i64 \<Rightarrow> nat \<Rightarrow> nat \<Rightarrow> bool" where
  "hits es is_str k h d \<equiv> occ (at es h d) \<and> key (at es h d) = key_of (str_at E) is_str k"

lemma find_loop_step:
  assumes "tab_ok es" "arg_ok is_str k" "0 < length es"
  shows "find_loop E es (length es) is_str k s ((h + d) mod length es) (Suc f) =
    (if occupied (at es h d) = SEmpty then Inr None
     else if hits es is_str k h d then Inr (Some ((h + d) mod length es))
     else if (h + Suc d) mod length es = s then Inr None
     else find_loop E es (length es) is_str k s ((h + Suc d) mod length es) f)"
  by (simp only: find_loop.simps rd_entry_at [OF assms(3)] bind_res.simps pos_step Let_def
      match_eval [OF assms(1) at_mem [OF assms(3)] assms(2)])

lemma put_loop_step:
  assumes "tab_ok es" "arg_ok is_str k" "0 < length es"
  shows "put_loop E es (length es) is_str k tomb ((h + d) mod length es) (Suc f) =
    (if occupied (at es h d) = SEmpty then Inr (Free (case tomb of None \<Rightarrow> (h + d) mod length es | Some t \<Rightarrow> t))
     else if hits es is_str k h d then Inr (Found ((h + d) mod length es))
     else put_loop E es (length es) is_str k
       (if occupied (at es h d) = SDeleted \<and> tomb = None then Some ((h + d) mod length es) else tomb)
       ((h + Suc d) mod length es) f)"
  by (simp only: put_loop.simps rd_entry_at [OF assms(3)] bind_res.simps pos_step Let_def
      match_eval [OF assms(1) at_mem [OF assms(3)] assms(2)])

lemma find_loop_miss:
  assumes "tab_ok es" "arg_ok is_str k" "\<forall>e \<in># occs es. key e \<noteq> key_of (str_at E) is_str k"
  shows "d < length es \<Longrightarrow> find_loop E es (length es) is_str k (h mod length es) ((h + d) mod length es) (length es - d) = Inr None"
proof (induction "length es - d" arbitrary: d)
  case (Suc n)
  have pos: "0 < length es" using Suc.prems by linarith
  have no: "\<not> hits es is_str k h d" using assms(3) at_mem [OF pos, of h d] by (auto simp: in_occs_iff)
  have fuel: "length es - d = Suc (length es - Suc d)" using Suc.prems by simp
  have "find_loop E es (length es) is_str k (h mod length es) ((h + Suc d) mod length es) (length es - Suc d) = Inr None"
    if "(h + Suc d) mod length es \<noteq> h mod length es"
  proof -
    have "Suc d \<noteq> length es" using that by (metis mod_add_self2)
    then show ?thesis by (intro Suc.hyps(1)) (use Suc.prems Suc.hyps(2) in auto)
  qed
  then show ?case unfolding fuel using no by (subst find_loop_step [OF assms(1,2) pos]) auto
qed simp

lemma find_loop_hit:
  assumes "tab_ok es" "arg_ok is_str k" "j < length es" "hits es is_str k h j"
    and "full_path es h j" "\<forall>d < j. \<not> hits es is_str k h d"
  shows "d \<le> j \<Longrightarrow> find_loop E es (length es) is_str k (h mod length es) ((h + d) mod length es) (length es - d) =
    Inr (Some ((h + j) mod length es))"
proof (induction "j - d" arbitrary: d)
  case 0
  then have dj: "d = j" by simp
  have "length es - j = Suc (length es - Suc j)" using assms(3) by simp
  moreover have "occupied (at es h j) \<noteq> SEmpty" using assms(4) by (simp add: occ_def)
  moreover have "0 < length es" using assms(3) by linarith
  ultimately show ?case unfolding dj using assms(4) by (simp only: find_loop_step [OF assms(1,2)] simp_thms if_True if_False)
next
  case (Suc n)
  then have d: "d < j" "Suc d \<le> j" by auto
  have fuel: "length es - d = Suc (length es - Suc d)" using d assms(3) by simp
  have pos: "0 < length es" using assms(3) by linarith
  have "(h + Suc d) mod length es \<noteq> h mod length es" using d assms(3) by (intro pos_ne_start) auto
  moreover have "occupied (at es h d) \<noteq> SEmpty" using assms(5) d(1) by (simp add: full_path_def)
  moreover have "\<not> hits es is_str k h d" using assms(6) d(1) by blast
  moreover have "find_loop E es (length es) is_str k (h mod length es) ((h + Suc d) mod length es) (length es - Suc d) =
      Inr (Some ((h + j) mod length es))"
    by (rule Suc.hyps(1)) (use Suc.hyps(2) d in auto)
  ultimately show ?case unfolding fuel by (simp only: find_loop_step [OF assms(1,2) pos] simp_thms if_True if_False)
qed

text \<open>A present key is at the end of a full path; the first match on the walk ends every probe.\<close>

lemma first_match:
  assumes "tab_ok es" "e \<in># occs es"
  obtains j where "j < length es" "occ (at es (khash (key e)) j)" "key (at es (khash (key e)) j) = key e"
    "full_path es (khash (key e)) j" "\<forall>d < j. \<not> (occ (at es (khash (key e)) d) \<and> key (at es (khash (key e)) d) = key e)"
proof -
  let ?h = "khash (key e)"
  obtain i where i: "i < length es" "es ! i = e" "occ e" using assms(2) by (auto simp: in_occs_iff in_set_conv_nth)
  then obtain j0 where j0: "j0 < length es" "i = (?h + j0) mod length es" "full_path es ?h j0"
    using assms(1) unfolding tab_ok_def by blast
  let ?P = "\<lambda>d. occ (at es ?h d) \<and> key (at es ?h d) = key e"
  have "?P j0" using i j0 by (simp add: at_def)
  define j where "j = (LEAST d. ?P d)"
  have "?P j" using \<open>?P j0\<close> unfolding j_def by (rule LeastI)
  moreover have le: "j \<le> j0" using \<open>?P j0\<close> unfolding j_def by (rule Least_le)
  moreover have "\<forall>d < j. \<not> ?P d" unfolding j_def by (blast dest: not_less_Least)
  moreover have "full_path es ?h j" "j < length es" using j0 le by (auto simp: full_path_def)
  ultimately show thesis using that by blast
qed

lemma find_key_correct:
  assumes "tab_ok (entries m)" "mcap m = length (entries m)" "0 < mcap m" "arg_ok is_str k"
  shows "\<exists>r. find_key E m is_str k = Inr r \<and>
    (case r of None \<Rightarrow> amap (str_at E) (entries m) (key_of (str_at E) is_str k) = None
     | Some i \<Rightarrow> i < length (entries m) \<and> occ (entries m ! i) \<and> key (entries m ! i) = key_of (str_at E) is_str k)"
proof -
  let ?es = "entries m" and ?K = "key_of (str_at E) is_str k"
  let ?h = "khash ?K"
  have s: "find_key E m is_str k = find_loop E ?es (length ?es) is_str k (?h mod length ?es) ((?h + 0) mod length ?es) (length ?es - 0)"
    using assms(2,3) hash_of_key [OF assms(4)] by (simp add: find_key_def slot_of_def)
  show ?thesis
  proof (cases "\<exists>e \<in># occs ?es. key e = ?K")
    case True
    then obtain e where e: "e \<in># occs ?es" "key e = ?K" by blast
    obtain j where j: "j < length ?es" "occ (at ?es ?h j)" "key (at ?es ?h j) = ?K"
      "full_path ?es ?h j" "\<forall>d < j. \<not> (occ (at ?es ?h d) \<and> key (at ?es ?h d) = ?K)"
      using first_match [OF assms(1) e(1)] unfolding e(2) by blast
    then have "find_key E m is_str k = Inr (Some ((?h + j) mod length ?es))"
      unfolding s using assms(1,4) by (intro find_loop_hit) auto
    then show ?thesis using j assms(2,3) by (auto simp: at_def)
  next
    case False
    then have "find_key E m is_str k = Inr None"
      unfolding s using assms by (intro find_loop_miss) auto
    then show ?thesis using False by (simp add: amap_None_iff)
  qed
qed

lemma put_loop_hit:
  assumes "tab_ok es" "arg_ok is_str k" "j < length es" "hits es is_str k h j"
    and "full_path es h j" "\<forall>d < j. \<not> hits es is_str k h d"
  shows "d \<le> j \<Longrightarrow> put_loop E es (length es) is_str k tomb ((h + d) mod length es) (length es - d) =
    Inr (Found ((h + j) mod length es))"
proof (induction "j - d" arbitrary: d tomb)
  case 0
  then have dj: "d = j" by simp
  have "length es - j = Suc (length es - Suc j)" using assms(3) by simp
  moreover have "occupied (at es h j) \<noteq> SEmpty" using assms(4) by (simp add: occ_def)
  moreover have "0 < length es" using assms(3) by linarith
  ultimately show ?case unfolding dj using assms(4) by (simp only: put_loop_step [OF assms(1,2)] simp_thms if_True if_False)
next
  case (Suc n)
  then have d: "d < j" "Suc d \<le> j" by auto
  have fuel: "length es - d = Suc (length es - Suc d)" using d assms(3) by simp
  have pos: "0 < length es" using assms(3) by linarith
  have "occupied (at es h d) \<noteq> SEmpty" using assms(5) d(1) by (simp add: full_path_def)
  moreover have "\<not> hits es is_str k h d" using assms(6) d(1) by blast
  moreover have "put_loop E es (length es) is_str k tomb' ((h + Suc d) mod length es) (length es - Suc d) =
      Inr (Found ((h + j) mod length es))" for tomb'
    by (rule Suc.hyps(1)) (use Suc.hyps(2) d in auto)
  ultimately show ?case unfolding fuel by (simp only: put_loop_step [OF assms(1,2) pos] simp_thms if_True if_False)
qed

lemma put_loop_free:
  assumes "tab_ok es" "arg_ok is_str k" "\<forall>e \<in># occs es. key e \<noteq> key_of (str_at E) is_str k"
    and "j < length es" "occupied (at es h j) = SEmpty" "full_path es h j"
  shows "d \<le> j \<Longrightarrow> (\<And>t. tomb = Some t \<Longrightarrow> \<exists>c < d. t = (h + c) mod length es \<and> \<not> occ (at es h c)) \<Longrightarrow>
    \<exists>t \<le> j. put_loop E es (length es) is_str k tomb ((h + d) mod length es) (length es - d) = Inr (Free ((h + t) mod length es)) \<and>
      \<not> occ (at es h t)"
proof (induction "j - d" arbitrary: d tomb)
  case 0
  then have dj: "d = j" by simp
  have fuel: "length es - j = Suc (length es - Suc j)" using assms(4) by simp
  have pos: "0 < length es" using assms(4) by linarith
  have "put_loop E es (length es) is_str k tomb ((h + j) mod length es) (length es - j) =
      Inr (Free (case tomb of None \<Rightarrow> (h + j) mod length es | Some t \<Rightarrow> t))"
    unfolding fuel using assms(5) by (simp only: put_loop_step [OF assms(1,2) pos] simp_thms if_True)
  moreover obtain t where "t \<le> j" "(case tomb of None \<Rightarrow> (h + j) mod length es | Some t \<Rightarrow> t) = (h + t) mod length es" "\<not> occ (at es h t)"
  proof (cases tomb)
    case None
    then show thesis using assms(5) by (intro that [of j]) (auto simp: occ_def)
  next
    case (Some t)
    then obtain c where "c < j" "t = (h + c) mod length es" "\<not> occ (at es h c)" using 0(3) dj by blast
    then show thesis using Some by (intro that [of c]) auto
  qed
  ultimately show ?case unfolding dj by auto
next
  case (Suc n)
  then have d: "d < j" "Suc d \<le> j" by auto
  let ?e = "at es h d"
  let ?tomb = "if occupied ?e = SDeleted \<and> tomb = None then Some ((h + d) mod length es) else tomb"
  have pos: "0 < length es" using assms(4) by linarith
  have fuel: "length es - d = Suc (length es - Suc d)" using d assms(4) by simp
  have "\<exists>c < Suc d. t = (h + c) mod length es \<and> \<not> occ (at es h c)" if "?tomb = Some t" for t
  proof (cases "occupied ?e = SDeleted \<and> tomb = None")
    case True
    with that show ?thesis by (intro exI [of _ d]) (auto simp: occ_def)
  next
    case False
    with that have "tomb = Some t" by (simp split: if_splits)
    from Suc.prems(2) [OF this] show ?thesis by (metis less_SucI)
  qed
  then have "\<exists>t \<le> j. put_loop E es (length es) is_str k ?tomb ((h + Suc d) mod length es) (length es - Suc d) = Inr (Free ((h + t) mod length es)) \<and>
      \<not> occ (at es h t)"
    using Suc.hyps(2) d by (intro Suc.hyps(1)) auto
  moreover have "occupied ?e \<noteq> SEmpty" using assms(6) d(1) by (simp add: full_path_def)
  moreover have "\<not> hits es is_str k h d" using assms(3) at_mem [OF pos, of h d] by (auto simp: in_occs_iff)
  ultimately show ?case unfolding fuel by (simp only: put_loop_step [OF assms(1,2) pos] simp_thms if_False)
qed

end

lemma at_update:
  "0 < length es \<Longrightarrow> at (es[i := y]) h d = (if (h + d) mod length es = i then y else at es h d)"
  by (auto simp: at_def nth_list_update)

lemma full_path_update:
  "0 < length es \<Longrightarrow> occupied y \<noteq> SEmpty \<Longrightarrow> full_path es h d \<Longrightarrow> full_path (es[i := y]) h d"
  by (auto simp: full_path_def at_update)

lemma path_to_empty:
  assumes "i < length es" "occupied (es ! i) = SEmpty"
  obtains j where "j < length es" "occupied (at es h j) = SEmpty" "full_path es h j"
proof -
  let ?P = "\<lambda>d. occupied (at es h d) = SEmpty"
  obtain d where d: "d < length es" "i = (h + d) mod length es" using pos_surj [OF assms(1), of h] by blast
  then have P: "?P d" using assms(2) by (simp add: at_def)
  define j where "j = (LEAST d. ?P d)"
  have "?P j" using P unfolding j_def by (rule LeastI)
  moreover have "j \<le> d" using P unfolding j_def by (rule Least_le)
  moreover have "full_path es h j" unfolding j_def full_path_def by (blast dest: not_less_Least)
  ultimately show thesis using d(1) by (intro that [of j]) auto
qed

lemma ex_empty_iff: "(\<exists>i < length es. occupied (es ! i) = SEmpty) \<longleftrightarrow> length (filter (\<lambda>e. occupied e \<noteq> SEmpty) es) < length es"
proof -
  have "length (filter (\<lambda>e. occupied e \<noteq> SEmpty) es) < length es \<longleftrightarrow> (\<exists>e \<in> set es. occupied e = SEmpty)"
    by (metis (mono_tags, lifting) filter_True length_filter_less order_less_irrefl)
  then show ?thesis by (metis in_set_conv_nth)
qed

lemma nonempty_update_le:
  "length (filter (\<lambda>e. occupied e \<noteq> SEmpty) (es[i := y])) \<le> Suc (length (filter (\<lambda>e. occupied e \<noteq> SEmpty) es))"
proof (induction es arbitrary: i)
  case (Cons e es)
  then show ?case by (cases i) (auto simp: le_SucI)
qed simp

lemma occs_le_nonempty: "size (occs es) \<le> length (filter (\<lambda>e. occupied e \<noteq> SEmpty) es)"
  unfolding size_occs by (induction es) (auto simp: occ_def)

context map_keys
begin

text \<open>A new entry on a slot that ends a full path.\<close>

lemma tab_ok_insert:
  assumes "tab_ok es" "t < length es" "full_path es (khash (key y)) t" "\<not> occ (at es (khash (key y)) t)"
    and "occ y" "is_str_key y \<longrightarrow> valid (ekey y)" "\<forall>e \<in># occs es. key e \<noteq> key y"
    and i: "i = (khash (key y) + t) mod length es"
  shows "tab_ok (es[i := y])" "occs (es[i := y]) = add_mset y (occs es)"
proof -
  have pos: "0 < length es" using assms(2) by linarith
  then have i_len: "i < length es" by (simp add: i)
  have no: "\<not> occ (es ! i)" using assms(4) by (simp add: at_def i)
  show oc: "occs (es[i := y]) = add_mset y (occs es)"
    using occs_update [OF i_len, of y] no assms(5) by simp
  have "distinct (map key (filter occ (es[i := y])))"
    using distinct_add_occs [OF oc] assms(1,7) by (simp add: tab_ok_def)
  moreover have "\<exists>d < length es. k = (khash (key ((es[i := y]) ! k)) + d) mod length es \<and>
      full_path (es[i := y]) (khash (key ((es[i := y]) ! k))) d"
    if "k < length es" "occ ((es[i := y]) ! k)" for k
  proof (cases "k = i")
    case True
    have "occupied y \<noteq> SEmpty" using assms(5) by (simp add: occ_def)
    with True i_len show ?thesis using full_path_update [OF pos _ assms(3)] assms(2) i by (intro exI [of _ t]) auto
  next
    case False
    then have "(es[i := y]) ! k = es ! k" by simp
    moreover have "occupied y \<noteq> SEmpty" using assms(5) by (simp add: occ_def)
    ultimately show ?thesis using that assms(1) full_path_update [OF pos] unfolding tab_ok_def by metis
  qed
  ultimately show "tab_ok (es[i := y])"
    using assms(1,6) unfolding tab_ok_def oc by auto
qed

text \<open>A change of an entry that keeps its key and does not empty its slot.\<close>

lemma tab_ok_modify:
  assumes "tab_ok es" "i < length es" "occ (es ! i)" "key y = key (es ! i)" "occupied y \<noteq> SEmpty"
    and "is_str_key y = is_str_key (es ! i)" "ekey y = ekey (es ! i)"
  shows "tab_ok (es[i := y])" "add_mset (es ! i) (occs (es[i := y])) = occs es + (if occ y then {#y#} else {#})"
proof -
  have pos: "0 < length es" using assms(2) by linarith
  show oc: "add_mset (es ! i) (occs (es[i := y])) = occs es + (if occ y then {#y#} else {#})"
    using occs_update [OF assms(2), of y] assms(3) by simp
  have mem: "es ! i \<in># occs es" using assms(2,3) by (simp add: in_occs_iff)
  then obtain R where R: "occs es = add_mset (es ! i) R" by (metis mset_add)
  have occs': "occs (es[i := y]) = R + (if occ y then {#y#} else {#})" using oc R by simp
  have "mset (map key (filter occ es)) = add_mset (key y) (image_mset key R)"
    using R assms(4) by (simp add: occs_def)
  moreover have "mset (map key (filter occ (es[i := y]))) = image_mset key R + (if occ y then {#key y#} else {#})"
    using occs' by (simp add: occs_def)
  moreover have "distinct (map key (filter occ es))" using assms(1) by (simp add: tab_ok_def)
  moreover obtain zs where zs: "image_mset key R = mset zs" by (metis ex_mset)
  ultimately have "distinct (key y # zs)" "mset (map key (filter occ (es[i := y]))) = mset (if occ y then key y # zs else zs)"
    using mset_eq_imp_distinct_iff [of "map key (filter occ es)" "key y # zs"] by auto
  then have "distinct (map key (filter occ (es[i := y])))"
    using mset_eq_imp_distinct_iff [of "map key (filter occ (es[i := y]))" "if occ y then key y # zs else zs"] by (auto split: if_splits)
  moreover have "\<exists>d < length es. k = (khash (key ((es[i := y]) ! k)) + d) mod length es \<and>
      full_path (es[i := y]) (khash (key ((es[i := y]) ! k))) d"
    if "k < length es" "occ ((es[i := y]) ! k)" for k
  proof -
    have "key ((es[i := y]) ! k) = key (es ! k)" "occ (es ! k)"
      using that assms(2-4) by (auto simp: nth_list_update split: if_splits)
    then show ?thesis using that(1) assms(1) full_path_update [OF pos assms(5)] unfolding tab_ok_def by metis
  qed
  moreover have "\<forall>e \<in># occs (es[i := y]). is_str_key e \<longrightarrow> valid (ekey e)"
    using assms(1,6,7) mem R unfolding tab_ok_def occs' by (auto split: if_splits)
  ultimately show "tab_ok (es[i := y])" unfolding tab_ok_def by simp
qed

lemma place_loop_ok:
  assumes "\<forall>e \<in> set es. occ e \<or> occupied e = SEmpty" "j < length es" "occupied (at es h j) = SEmpty" "full_path es h j"
  shows "d \<le> j \<Longrightarrow> place_loop es (length es) ((h + d) mod length es) (length es - d) = Inr ((h + j) mod length es)"
proof (induction "j - d" arbitrary: d)
  case 0
  then have "d = j" by simp
  moreover have "length es - j = Suc (length es - Suc j)" "0 < length es" using assms(2) by linarith+
  ultimately show ?case using assms(3) by (simp add: rd_entry_at)
next
  case (Suc n)
  then have d: "d < j" "Suc d \<le> j" by auto
  have pos: "0 < length es" using assms(2) by linarith
  have fuel: "length es - d = Suc (length es - Suc d)" using d assms(2) by simp
  have "occupied (at es h d) = SOccupied"
    using assms(1,4) d at_mem [OF pos, of h d] by (auto simp: full_path_def occ_def)
  moreover have "place_loop es (length es) ((h + Suc d) mod length es) (length es - Suc d) = Inr ((h + j) mod length es)"
    by (rule Suc.hyps(1)) (use Suc.hyps(2) d in auto)
  ultimately show ?case unfolding fuel by (simp only: place_loop.simps rd_entry_at [OF pos] bind_res.simps simp_thms if_True pos_step)
qed

lemma rehash_loop_ok:
  assumes "length es = cap" "tab_ok es" "\<forall>e \<in> set es. occ e \<or> occupied e = SEmpty"
    and "size (occs es) + size (occs old) < cap"
    and "\<forall>e \<in># occs old. is_str_key e \<longrightarrow> valid (ekey e)" "distinct (map key (filter occ old))"
    and "\<forall>e \<in># occs old. \<forall>f \<in># occs es. key f \<noteq> key e"
  shows "\<exists>es'. rehash_loop E cap old es len = Inr (es', len + size (occs old)) \<and> length es' = cap \<and> tab_ok es' \<and>
    (\<forall>e \<in> set es'. occ e \<or> occupied e = SEmpty) \<and> occs es' = occs es + occs old"
  using assms
proof (induction old arbitrary: es len)
  case Nil
  then show ?case by (simp add: occs_def)
next
  case (Cons e old)
  show ?case
  proof (cases "occ e")
    case False
    then have "occs (e # old) = occs old" "filter occ (e # old) = filter occ old" by (simp_all add: occs_def)
    then show ?thesis using Cons.IH [of es len] Cons.prems False by (simp add: occ_def)
  next
    case True
    let ?h = "khash (key e)"
    have oc: "occs (e # old) = add_mset e (occs old)" using True by (simp add: occs_def)
    have "\<exists>i < length es. occupied (es ! i) = SEmpty"
    proof -
      have "length (filter (\<lambda>e. occupied e \<noteq> SEmpty) es) = size (occs es)"
        unfolding size_occs using Cons.prems(3) by (intro arg_cong [of _ _ length] filter_cong) (auto simp: occ_def)
      then show ?thesis unfolding ex_empty_iff using Cons.prems(1,4) by simp
    qed
    then obtain i j where j: "j < length es" "occupied (at es ?h j) = SEmpty" "full_path es ?h j"
      using path_to_empty by blast
    have pos: "0 < cap" using Cons.prems(4) by linarith
    have arg: "arg_ok (is_str_key e) (ekey e)" using Cons.prems(5) oc by (simp add: arg_ok_def)
    have s: "slot_of (hash_of (str_at E) (is_str_key e) (ekey e)) cap = Inr ((?h + 0) mod cap)"
      using pos hash_of_key [OF arg] by (simp add: slot_of_def key_of_entry)
    have p: "place_loop es cap ((?h + 0) mod cap) cap = Inr ((?h + j) mod cap)"
      using place_loop_ok [OF Cons.prems(3) j, of 0] Cons.prems(1) by simp
    let ?i = "(?h + j) mod cap"
    have same: "\<lparr>ekey = ekey e, eval = eval e, is_str_key = is_str_key e, occupied = SOccupied\<rparr> = e"
      using True by (simp add: occ_def)
    have ins: "tab_ok (es[?i := e])" "occs (es[?i := e]) = add_mset e (occs es)"
      using tab_ok_insert [OF Cons.prems(2) j(1,3)] j True Cons.prems oc by (auto simp: occ_def)
    have w: "wr_entry es ?i \<lparr>ekey = ekey e, eval = eval e, is_str_key = is_str_key e, occupied = SOccupied\<rparr> = Inr (es[?i := e])"
      unfolding same using pos Cons.prems(1) by (simp add: wr_entry_def)
    have "\<exists>es'. rehash_loop E cap old (es[?i := e]) (len + 1) = Inr (es', len + 1 + size (occs old)) \<and> length es' = cap \<and> tab_ok es' \<and>
      (\<forall>e \<in> set es'. occ e \<or> occupied e = SEmpty) \<and> occs es' = occs (es[?i := e]) + occs old"
    proof (rule Cons.IH)
      show "\<forall>f \<in> set (es[?i := e]). occ f \<or> occupied f = SEmpty"
        using Cons.prems(3) True set_update_subset_insert by fastforce
      show "distinct (map key (filter occ old))" using Cons.prems(6) True by simp
      show "\<forall>g \<in># occs old. \<forall>f \<in># occs (es[?i := e]). key f \<noteq> key g"
        using Cons.prems(6,7) True oc unfolding ins(2) by (auto simp: occs_def)
    qed (use Cons.prems ins oc in auto)
    then show ?thesis
      using True s p w ins(2) oc by (simp add: occ_def)
  qed
qed

end

definition vals :: "LppMapEntry list \<Rightarrow> i64 multiset" where
  "vals es = image_mset eval (occs es)"

definition nonempty :: "LppMap \<Rightarrow> nat" where
  "nonempty m = length (filter (\<lambda>e. occupied e \<noteq> SEmpty) (entries m))"

text \<open>What an update keeps of the references a map owns.\<close>

definition map_events_ok :: "LppMap \<Rightarrow> LppMap \<Rightarrow> arc_ev list \<Rightarrow> bool" where
  "map_events_ok m m' evs \<longleftrightarrow> arc_values m' = arc_values m \<and>
     (if arc_values m then vals (entries m') + released evs = vals (entries m) + retained evs else evs = [])"

context map_keys
begin

definition map_ok :: "LppMap \<Rightarrow> bool" where
  "map_ok m \<longleftrightarrow> mcap m = length (entries m) \<and> tab_ok (entries m) \<and> mlen m = size (occs (entries m)) \<and>
     (mcap m = 0 \<or> 16 \<le> mcap m \<and> nonempty m < mcap m)"

definition contents :: "LppMap \<Rightarrow> mkey \<rightharpoonup> i64" where
  "contents m = amap (str_at E) (entries m)"

lemma empty_table_ok: "tab_ok (replicate n empty_entry)" "occs (replicate n empty_entry) = {#}"
  "\<forall>e \<in> set (replicate n empty_entry). occ e \<or> occupied e = SEmpty"
proof -
  have f: "filter occ (replicate n empty_entry) = []" by (simp add: occ_def empty_entry_def)
  then show o: "occs (replicate n empty_entry) = {#}" by (simp add: occs_def)
  show "tab_ok (replicate n empty_entry)" using f o by (simp add: tab_ok_def) (simp add: occ_def empty_entry_def)
  show "\<forall>e \<in> set (replicate n empty_entry). occ e \<or> occupied e = SEmpty" by (simp add: empty_entry_def)
qed

text \<open>The part of an insertion behind the growth check.\<close>

definition put_tail :: "LppMap \<Rightarrow> i64 \<Rightarrow> i64 \<Rightarrow> bool \<Rightarrow> (LppMap option \<times> arc_ev list) res" where
  "put_tail m k v is_str = bind_res (slot_of (hash_of (str_at E) is_str k) (mcap m)) (\<lambda>idx.
     bind_res (put_loop E (entries m) (mcap m) is_str k None idx (mcap m)) (\<lambda>slot.
       case slot of
         Found idx \<Rightarrow> bind_res (rd_entry (entries m) idx) (\<lambda>e.
           bind_res (wr_entry (entries m) idx (e\<lparr>eval := v\<rparr>)) (\<lambda>es.
             Inr (Some (m\<lparr>entries := es\<rparr>), if arc_values m then [Retain v, Release (eval e)] else [])))
       | Free idx \<Rightarrow>
           bind_res (wr_entry (entries m) idx \<lparr>ekey = k, eval = v, is_str_key = is_str, occupied = SOccupied\<rparr>)
             (\<lambda>es. Inr (Some (m\<lparr>entries := es, mlen := mlen m + 1\<rparr>), if arc_values m then [Retain v] else []))))"

lemma put_tail_found:
  assumes "map_ok m" "arg_ok is_str k" "0 < mcap m" "e \<in># occs (entries m)" "key e = key_of (str_at E) is_str k"
  shows "\<exists>m' evs. put_tail m k v is_str = Inr (Some m', evs) \<and> map_ok m' \<and> map_events_ok m m' evs \<and>
    contents m' = (contents m)(key_of (str_at E) is_str k \<mapsto> v)"
proof -
  let ?es = "entries m" and ?K = "key_of (str_at E) is_str k"
  let ?h = "khash ?K"
  have n: "mcap m = length ?es" and tab: "tab_ok ?es" using assms(1) by (auto simp: map_ok_def)
  obtain j where j: "j < length ?es" "occ (at ?es ?h j)" "key (at ?es ?h j) = ?K"
      "full_path ?es ?h j" "\<forall>d < j. \<not> (occ (at ?es ?h d) \<and> key (at ?es ?h d) = ?K)"
    using first_match [OF tab assms(4)] unfolding assms(5) by blast
  let ?i = "(?h + j) mod length ?es"
  let ?e = "?es ! ?i" let ?y = "?e\<lparr>eval := v\<rparr>"
  have p: "put_loop E ?es (length ?es) is_str k None ((?h + 0) mod length ?es) (length ?es - 0) = Inr (Found ?i)"
    using j by (intro put_loop_hit [OF tab assms(2)]) auto
  have i: "?i < length ?es" using j(1) by (metis gr_implies_not0 mod_less_divisor neq0_conv)
  have e: "occ ?e" "key ?e = ?K" using j(2,3) by (auto simp: at_def)
  have y: "occ ?y" "key ?y = key ?e" using e(1) by (auto simp: occ_def key_of_entry)
  then have mod: "tab_ok (?es[?i := ?y])" "add_mset ?e (occs (?es[?i := ?y])) = add_mset ?y (occs ?es)"
    using tab_ok_modify [OF tab i e(1), of ?y] by (auto simp: occ_def)
  have "put_tail m k v is_str = Inr (Some (m\<lparr>entries := ?es[?i := ?y]\<rparr>), if arc_values m then [Retain v, Release (eval ?e)] else [])"
    using p i n assms(3) hash_of_key [OF assms(2)] by (simp add: put_tail_def slot_of_def rd_entry_def wr_entry_def)
  moreover have "add_mset (eval ?e) (vals (?es[?i := ?y])) = add_mset v (vals ?es)"
    using arg_cong [OF mod(2), of "image_mset eval"] by (simp add: vals_def)
  moreover have "size (occs (?es[?i := ?y])) = size (occs ?es)" using arg_cong [OF mod(2), of size] by simp
  moreover have "nonempty (m\<lparr>entries := ?es[?i := ?y]\<rparr>) = nonempty m"
  proof -
    have "map occupied (?es[?i := ?y]) = map occupied ?es" by (simp add: map_update) (metis i list_update_id map_update)
    then have "length (filter (\<lambda>s. s \<noteq> SEmpty) (map occupied (?es[?i := ?y]))) = length (filter (\<lambda>s. s \<noteq> SEmpty) (map occupied ?es))" by simp
    then show ?thesis by (simp add: nonempty_def filter_map comp_def)
  qed
  moreover have "contents (m\<lparr>entries := ?es[?i := ?y]\<rparr>) = (contents m)(?K \<mapsto> v)"
  proof -
    obtain R where R: "occs ?es = add_mset ?e R" using i e(1) by (metis in_occs_iff mset_add nth_mem)
    then have R': "occs (?es[?i := ?y]) = add_mset ?y R" using mod(2) by simp
    obtain zs where zs: "mset zs = R" by (metis ex_mset)
    have "\<forall>z \<in> set zs. occ z" using zs R in_occs_iff by (metis set_mset_mset union_single_eq_member add_mset_add_single mset_subset_eqD mset_subset_eq_add_left union_commute)
    then have "occs zs = R" using zs by (simp add: occs_def filter_id_conv)
    then have "amap (str_at E) ?es = (amap (str_at E) zs)(key ?e \<mapsto> eval ?e)" "amap (str_at E) (?es[?i := ?y]) = (amap (str_at E) zs)(key ?y \<mapsto> eval ?y)"
      using amap_add(1) [of ?es ?e zs] amap_add(1) [of "?es[?i := ?y]" ?y zs] R R' tab mod(1) by (auto simp: tab_ok_def)
    then show ?thesis using e(2) y(2) by (simp add: contents_def)
  qed
  ultimately show ?thesis using assms(1) mod(1) by (auto simp: map_ok_def map_events_ok_def nonempty_def)
qed

lemma put_tail_free:
  assumes "map_ok m" "arg_ok is_str k" "Suc (nonempty m) < mcap m" "\<forall>e \<in># occs (entries m). key e \<noteq> key_of (str_at E) is_str k"
  shows "\<exists>m' evs. put_tail m k v is_str = Inr (Some m', evs) \<and> map_ok m' \<and> map_events_ok m m' evs \<and>
    contents m' = (contents m)(key_of (str_at E) is_str k \<mapsto> v)"
proof -
  let ?es = "entries m" and ?K = "key_of (str_at E) is_str k"
  let ?h = "khash ?K"
  let ?y = "\<lparr>ekey = k, eval = v, is_str_key = is_str, occupied = SOccupied\<rparr>"
  have n: "mcap m = length ?es" and tab: "tab_ok ?es" using assms(1) by (auto simp: map_ok_def)
  have "\<exists>i < length ?es. occupied (?es ! i) = SEmpty" using assms(3) n unfolding ex_empty_iff nonempty_def by simp
  then obtain j where j: "j < length ?es" "occupied (at ?es ?h j) = SEmpty" "full_path ?es ?h j"
    using path_to_empty by blast
  have "\<exists>t \<le> j. put_loop E ?es (length ?es) is_str k None ((?h + 0) mod length ?es) (length ?es - 0) = Inr (Free ((?h + t) mod length ?es)) \<and>
      \<not> occ (at ?es ?h t)"
    using j by (intro put_loop_free [OF tab assms(2,4)]) auto
  then obtain t where t: "t \<le> j" "put_loop E ?es (length ?es) is_str k None (?h mod length ?es) (length ?es) = Inr (Free ((?h + t) mod length ?es))"
      "\<not> occ (at ?es ?h t)" by auto
  let ?i = "(?h + t) mod length ?es"
  have i: "?i < length ?es" using j(1) by (metis gr_implies_not0 mod_less_divisor neq0_conv)
  have y: "occ ?y" "key ?y = ?K" by (simp_all add: occ_def key_of_entry)
  have ins: "tab_ok (?es[?i := ?y])" "occs (?es[?i := ?y]) = add_mset ?y (occs ?es)"
  proof -
    have "full_path ?es (khash (key ?y)) t" "t < length ?es" using j t(1) unfolding y(2) by (auto simp: full_path_def)
    then show "tab_ok (?es[?i := ?y])" "occs (?es[?i := ?y]) = add_mset ?y (occs ?es)"
      using tab_ok_insert [OF tab, of t ?y ?i] t(3) y assms(2,4) by (auto simp: arg_ok_def)
  qed
  have "put_tail m k v is_str = Inr (Some (m\<lparr>entries := ?es[?i := ?y], mlen := mlen m + 1\<rparr>), if arc_values m then [Retain v] else [])"
    using t(2) i n assms(3) hash_of_key [OF assms(2)] by (auto simp add: put_tail_def slot_of_def wr_entry_def)
  moreover have "nonempty (m\<lparr>entries := ?es[?i := ?y], mlen := mlen m + 1\<rparr>) < mcap m"
    using nonempty_update_le [of ?es ?i ?y] assms(3) by (simp add: nonempty_def)
  moreover have "contents (m\<lparr>entries := ?es[?i := ?y], mlen := mlen m + 1\<rparr>) = (contents m)(?K \<mapsto> v)"
    using amap_add(1) [OF ins(2)] ins(1) y(2) by (simp add: contents_def tab_ok_def)
  ultimately show ?thesis using assms(1) ins by (auto simp: map_ok_def map_events_ok_def vals_def)
qed

lemma put_tail_ok:
  assumes "map_ok m" "arg_ok is_str k" "Suc (nonempty m) < mcap m"
  shows "\<exists>m' evs. put_tail m k v is_str = Inr (Some m', evs) \<and> map_ok m' \<and> map_events_ok m m' evs \<and>
    contents m' = (contents m)(key_of (str_at E) is_str k \<mapsto> v)"
  using put_tail_found [OF assms(1,2)] put_tail_free [OF assms] assms(3) by (cases "\<exists>e \<in># occs (entries m). key e = key_of (str_at E) is_str k") auto

end

definition value_or_0 :: "i64 option \<Rightarrow> i64" where
  "value_or_0 r = (case r of None \<Rightarrow> 0 | Some v \<Rightarrow> v)"

context map_keys
begin

lemma rehash_ok:
  assumes "map_ok m" "size (occs (entries m)) < c" "16 \<le> c"
  shows "lpp_map_rehash E m c = Inl (rehash_fault E) \<and> table_oom E c \<or>
    (\<exists>m'. lpp_map_rehash E m c = Inr m' \<and> map_ok m' \<and> contents m' = contents m \<and> mcap m' = c \<and>
       nonempty m' = mlen m \<and> arc_values m' = arc_values m \<and> vals (entries m') = vals (entries m))"
proof (cases "table_oom E c")
  case True
  then show ?thesis by (simp add: lpp_map_rehash_def alloc_entries_def)
next
  case False
  let ?es = "replicate c empty_entry"
  have t: "tab_ok (entries m)" using assms(1) by (simp add: map_ok_def)
  obtain es' where es': "rehash_loop E c (entries m) ?es 0 = Inr (es', size (occs (entries m)))" "length es' = c" "tab_ok es'"
      "\<forall>e \<in> set es'. occ e \<or> occupied e = SEmpty" "occs es' = occs (entries m)"
    using rehash_loop_ok [of ?es c "entries m" 0] empty_table_ok [of c] t assms(2) by (auto simp: tab_ok_def)
  have "length (filter (\<lambda>e. occupied e \<noteq> SEmpty) es') = size (occs es')"
    unfolding size_occs using es'(4) by (intro arg_cong [of _ _ length] filter_cong) (auto simp: occ_def)
  moreover have "amap (str_at E) es' = amap (str_at E) (entries m)"
    using es'(3,5) t by (intro amap_cong) (auto simp: tab_ok_def)
  ultimately show ?thesis
    using False es' assms by (simp add: lpp_map_rehash_def alloc_entries_def map_ok_def nonempty_def contents_def vals_def)
qed

lemma put_internal_unfold:
  "lpp_map_put_internal E (Some m) k v is_str =
     bind_res (if nonempty m * 10 \<ge> mcap m * 7
       then lpp_map_rehash E m (let c = (if mlen m * 100 < mcap m * 35 then mcap m else mcap m * 2) in if c < 16 then 16 else c)
       else Inr m) (\<lambda>m. put_tail m k v is_str)"
  unfolding lpp_map_put_internal_def option.case put_tail_def Let_def nonempty_def by (rule refl)

lemma put_ok:
  assumes "map_ok m" "arg_ok is_str k"
  shows "lpp_map_put_internal E (Some m) k v is_str = Inl (rehash_fault E) \<and> (\<exists>n. table_oom E n) \<or>
    (\<exists>m' evs. lpp_map_put_internal E (Some m) k v is_str = Inr (Some m', evs) \<and> map_ok m' \<and> map_events_ok m m' evs \<and>
       contents m' = (contents m)(key_of (str_at E) is_str k \<mapsto> v))"
proof (cases "nonempty m * 10 \<ge> mcap m * 7")
  case False
  then have "Suc (nonempty m) < mcap m" using assms(1) by (auto simp: map_ok_def)
  from put_tail_ok [OF assms this, of v] False show ?thesis by (auto simp: put_internal_unfold)
next
  case True
  define c where "c = (let c = (if mlen m * 100 < mcap m * 35 then mcap m else mcap m * 2) in if c < 16 then 16 else c)"
  have le: "mlen m \<le> nonempty m" "mlen m = size (occs (entries m))"
    using assms(1) occs_le_nonempty [of "entries m"] by (auto simp: map_ok_def nonempty_def)
  have small: "Suc (mlen m) < c" "16 \<le> c"
    using assms(1) le(1) by (auto simp: c_def map_ok_def Let_def nonempty_def)
  have e: "lpp_map_put_internal E (Some m) k v is_str = bind_res (lpp_map_rehash E m c) (\<lambda>m. put_tail m k v is_str)"
    using True by (simp add: put_internal_unfold c_def)
  from rehash_ok [OF assms(1) _ small(2)] small(1) le(2)
  consider "lpp_map_rehash E m c = Inl (rehash_fault E)" "table_oom E c"
    | m1 where "lpp_map_rehash E m c = Inr m1" "map_ok m1" "contents m1 = contents m" "mcap m1 = c"
       "nonempty m1 = mlen m" "arc_values m1 = arc_values m" "vals (entries m1) = vals (entries m)"
    by fastforce
  then show ?thesis
  proof cases
    case 2
    have "Suc (nonempty m1) < mcap m1" using 2 small(1) by simp
    from put_tail_ok [OF 2(2) assms(2) this, of v] 2 show ?thesis by (auto simp: e map_events_ok_def)
  qed (auto simp: e)
qed

lemma len_zero_contents: "map_ok m \<Longrightarrow> mlen m = 0 \<Longrightarrow> contents m K = None"
  unfolding contents_def amap_None_iff map_ok_def by auto

lemma len_pos_cap: "map_ok m \<Longrightarrow> mlen m \<noteq> 0 \<Longrightarrow> 0 < mcap m"
  by (auto simp: map_ok_def occs_def)

lemma find_key_contents:
  assumes "map_ok m" "mlen m \<noteq> 0" "arg_ok is_str k"
  shows "\<exists>r. find_key E m is_str k = Inr r \<and>
    (case r of None \<Rightarrow> contents m (key_of (str_at E) is_str k) = None
     | Some i \<Rightarrow> i < length (entries m) \<and> occ (entries m ! i) \<and> key (entries m ! i) = key_of (str_at E) is_str k \<and>
         contents m (key_of (str_at E) is_str k) = Some (eval (entries m ! i)))"
proof -
  have t: "tab_ok (entries m)" "mcap m = length (entries m)" using assms(1) by (auto simp: map_ok_def)
  obtain r where r: "find_key E m is_str k = Inr r"
      "case r of None \<Rightarrow> amap (str_at E) (entries m) (key_of (str_at E) is_str k) = None
       | Some i \<Rightarrow> i < length (entries m) \<and> occ (entries m ! i) \<and> key (entries m ! i) = key_of (str_at E) is_str k"
    using find_key_correct [OF t len_pos_cap [OF assms(1,2)] assms(3)] by blast
  moreover have "amap (str_at E) (entries m) (key_of (str_at E) is_str k) = Some (eval (entries m ! i))" if "r = Some i" for i
    using that r(2) t(1) amap_iff [of "entries m"] by (auto simp: tab_ok_def in_occs_iff)
  ultimately show ?thesis by (auto simp: contents_def split: option.splits)
qed

lemma lookup_ok:
  assumes "map_ok m" "mlen m \<noteq> 0" "arg_ok is_str k"
  shows "bind_res (find_key E m is_str k) (\<lambda>r. case r of None \<Rightarrow> Inr 0 | Some i \<Rightarrow> bind_res (rd_entry (entries m) i) (\<lambda>e. Inr (eval e))) =
      Inr (value_or_0 (contents m (key_of (str_at E) is_str k)))"
    and "bind_res (find_key E m is_str k) (\<lambda>r. Inr (r \<noteq> None)) = Inr (contents m (key_of (str_at E) is_str k) \<noteq> None)"
proof -
  obtain r where r: "find_key E m is_str k = Inr r"
    "case r of None \<Rightarrow> contents m (key_of (str_at E) is_str k) = None
     | Some i \<Rightarrow> i < length (entries m) \<and> occ (entries m ! i) \<and> key (entries m ! i) = key_of (str_at E) is_str k \<and>
         contents m (key_of (str_at E) is_str k) = Some (eval (entries m ! i))"
    using find_key_contents [OF assms] by blast
  then show "bind_res (find_key E m is_str k) (\<lambda>r. case r of None \<Rightarrow> Inr 0 | Some i \<Rightarrow> bind_res (rd_entry (entries m) i) (\<lambda>e. Inr (eval e))) =
      Inr (value_or_0 (contents m (key_of (str_at E) is_str k)))"
    by (cases r) (simp_all add: value_or_0_def rd_entry_def)
  show "bind_res (find_key E m is_str k) (\<lambda>r. Inr (r \<noteq> None)) = Inr (contents m (key_of (str_at E) is_str k) \<noteq> None)"
    using r by (cases r) simp_all
qed

lemma get_ok:
  assumes "map_ok m"
  shows "lpp_map_get E (Some m) k = Inr (value_or_0 (contents m (KInt k)))"
    and "lpp_map_has E (Some m) k = Inr (contents m (KInt k) \<noteq> None)"
  using lookup_ok [OF assms, of False k] len_zero_contents [OF assms, of "KInt k"]
  by (cases "mlen m = 0"; simp add: lpp_map_get_def lpp_map_has_def arg_ok_def key_of_def value_or_0_def)+

lemma get_str_ok:
  assumes "map_ok m" "valid k" "k \<noteq> 0"
  shows "lpp_map_get_str E (Some m) k = Inr (value_or_0 (contents m (KStr (the (str_at E k)))))"
    and "lpp_map_has_str E (Some m) k = Inr (contents m (KStr (the (str_at E k))) \<noteq> None)"
  using lookup_ok [OF assms(1), of True k] len_zero_contents [OF assms(1), of "KStr (the (str_at E k))"] assms(2,3)
  by (cases "mlen m = 0"; simp add: lpp_map_get_str_def lpp_map_has_str_def arg_ok_def key_of_def value_or_0_def)+

lemma delete_ok:
  assumes "map_ok m" "i < length (entries m)" "occ (entries m ! i)" 
  shows "\<exists>m' evs. delete_slot m (Some i) = Inr (Some m', evs) \<and> map_ok m' \<and> map_events_ok m m' evs \<and>
    contents m' = (contents m)(key (entries m ! i) := None)"
proof -
  let ?es = "entries m"
  let ?e = "?es ! i" let ?y = "?e\<lparr>occupied := SDeleted\<rparr>"
  have tab: "tab_ok ?es" using assms(1) by (simp add: map_ok_def)
  have y: "\<not> occ ?y" "key ?y = key ?e" by (auto simp: occ_def key_of_entry)
  have mod: "tab_ok (?es[i := ?y])" "add_mset ?e (occs (?es[i := ?y])) = occs ?es"
    using tab_ok_modify [OF tab assms(2,3), of ?y] y by auto
  have "delete_slot m (Some i) = Inr (Some (m\<lparr>entries := ?es[i := ?y], mlen := mlen m - 1\<rparr>), if arc_values m then [Release (eval ?e)] else [])"
    using assms(2) by (simp add: delete_slot_def rd_entry_def wr_entry_def)
  moreover have "length (filter (\<lambda>e. occupied e \<noteq> SEmpty) (?es[i := ?y])) = length (filter (\<lambda>e. occupied e \<noteq> SEmpty) ?es)"
  proof -
    have "map (\<lambda>e. occupied e \<noteq> SEmpty) (?es[i := ?y]) = map (\<lambda>e. occupied e \<noteq> SEmpty) ?es"
      using assms(2,3) by (simp add: map_update list_update_same_conv occ_def)
    then have "length (filter id (map (\<lambda>e. occupied e \<noteq> SEmpty) (?es[i := ?y]))) = length (filter id (map (\<lambda>e. occupied e \<noteq> SEmpty) ?es))" by simp
    then show ?thesis by (simp add: filter_map comp_def)
  qed
  moreover have "amap (str_at E) (?es[i := ?y]) = (amap (str_at E) ?es)(key ?e := None)"
    using amap_add(2) [OF mod(2) [symmetric]] tab by (simp add: tab_ok_def)
  moreover have "size (occs ?es) = Suc (size (occs (?es[i := ?y])))" using mod(2) by (metis size_add_mset)
  moreover have "vals ?es = add_mset (eval ?e) (vals (?es[i := ?y]))" using arg_cong [OF mod(2), of "image_mset eval"] by (simp add: vals_def)
  ultimately show ?thesis
    using assms(1) mod(1) by (auto simp: map_ok_def map_events_ok_def nonempty_def contents_def)
qed

lemma find_delete_ok:
  assumes "map_ok m" "mlen m \<noteq> 0" "arg_ok is_str k"
  shows "\<exists>m' evs. bind_res (find_key E m is_str k) (delete_slot m) = Inr (Some m', evs) \<and> map_ok m' \<and> map_events_ok m m' evs \<and>
    contents m' = (contents m)(key_of (str_at E) is_str k := None)"
proof -
  obtain r where r: "find_key E m is_str k = Inr r"
    "case r of None \<Rightarrow> contents m (key_of (str_at E) is_str k) = None
     | Some i \<Rightarrow> i < length (entries m) \<and> occ (entries m ! i) \<and> key (entries m ! i) = key_of (str_at E) is_str k \<and>
         contents m (key_of (str_at E) is_str k) = Some (eval (entries m ! i))"
    using find_key_contents [OF assms] by blast
  show ?thesis
  proof (cases r)
    case None
    then show ?thesis using r assms(1) by (auto simp: delete_slot_def map_events_ok_def fun_upd_idem)
  next
    case (Some i)
    then show ?thesis using r delete_ok [OF assms(1), of i] by auto
  qed
qed

lemma remove_ok:
  assumes "map_ok m"
  shows "\<exists>m' evs. lpp_map_remove E (Some m) k = Inr (Some m', evs) \<and> map_ok m' \<and> map_events_ok m m' evs \<and>
      contents m' = (contents m)(KInt k := None)"
    and "valid k \<Longrightarrow> k \<noteq> 0 \<Longrightarrow> \<exists>m' evs. lpp_map_remove_str E (Some m) k = Inr (Some m', evs) \<and> map_ok m' \<and> map_events_ok m m' evs \<and>
      contents m' = (contents m)(KStr (the (str_at E k)) := None)"
  using len_zero_contents [OF assms] find_delete_ok [OF assms, of False k] find_delete_ok [OF assms, of True k] assms
  by (cases "mlen m = 0"; auto simp: lpp_map_remove_def lpp_map_remove_str_def arg_ok_def key_of_def map_events_ok_def fun_upd_idem)+

end

section \<open>Operation sequences\<close>

datatype map_op = MPut i64 i64 | MPutStr i64 i64 | MRemove i64 | MRemoveStr i64 | MClear

fun run_map_op :: "map_env \<Rightarrow> map_op \<Rightarrow> LppMap option \<Rightarrow> (LppMap option \<times> arc_ev list) res" where
  "run_map_op E (MPut k v) mp = lpp_map_put E mp k v"
| "run_map_op E (MPutStr k v) mp = lpp_map_put_str E mp k v"
| "run_map_op E (MRemove k) mp = lpp_map_remove E mp k"
| "run_map_op E (MRemoveStr k) mp = lpp_map_remove_str E mp k"
| "run_map_op E MClear mp = Inr (lpp_map_clear mp)"

fun run_map :: "map_env \<Rightarrow> map_op list \<Rightarrow> LppMap option \<Rightarrow> (LppMap option \<times> arc_ev list) res" where
  "run_map E [] mp = Inr (mp, [])"
| "run_map E (op # ops) mp = bind_res (run_map_op E op mp) (\<lambda>(mp, e).
     bind_res (run_map E ops mp) (\<lambda>(mp', e'). Inr (mp', e @ e')))"

text \<open>The same calls on a plain partial function from keys to values.\<close>

fun spec_map_op :: "strmem \<Rightarrow> map_op \<Rightarrow> (mkey \<rightharpoonup> i64) \<Rightarrow> (mkey \<rightharpoonup> i64)" where
  "spec_map_op sm (MPut k v) f = f(KInt k \<mapsto> v)"
| "spec_map_op sm (MPutStr k v) f = f(KStr (the (sm k)) \<mapsto> v)"
| "spec_map_op sm (MRemove k) f = f(KInt k := None)"
| "spec_map_op sm (MRemoveStr k) f = f(KStr (the (sm k)) := None)"
| "spec_map_op sm MClear f = Map.empty"

definition spec_map :: "strmem \<Rightarrow> map_op list \<Rightarrow> (mkey \<rightharpoonup> i64)" where
  "spec_map sm ops = fold (spec_map_op sm) ops Map.empty"

fun op_keys_valid :: "(i64 \<Rightarrow> bool) \<Rightarrow> map_op \<Rightarrow> bool" where
  "op_keys_valid valid (MPutStr k v) \<longleftrightarrow> valid k \<and> k \<noteq> 0"
| "op_keys_valid valid (MRemoveStr k) \<longleftrightarrow> valid k \<and> k \<noteq> 0"
| "op_keys_valid valid op \<longleftrightarrow> True"

lemma release_list_events:
  "retained (map (\<lambda>e. Release (eval e)) xs) = {#}" "released (map (\<lambda>e. Release (eval e)) xs) = image_mset eval (mset xs)"
  by (induction xs) auto

lemma release_values_events: "released (release_values es) = vals es" "retained (release_values es) = {#}"
proof -
  have "release_values es = map (\<lambda>e. Release (eval e)) (filter occ es)" by (simp add: release_values_def occ_def [abs_def])
  then show "released (release_values es) = vals es" "retained (release_values es) = {#}"
    by (simp_all add: vals_def occs_def release_list_events)
qed

lemma map_events_trans:
  assumes "map_events_ok a b e" "map_events_ok b c f"
  shows "map_events_ok a c (e @ f)"
proof (cases "arc_values a")
  case True
  then have "vals (entries b) + released e = vals (entries a) + retained e" "vals (entries c) + released f = vals (entries b) + retained f"
    using assms by (auto simp: map_events_ok_def)
  then have "vals (entries c) + (released e + released f) = vals (entries a) + (retained e + retained f)"
    by (metis (no_types, lifting) add.assoc add.commute)
  then show ?thesis using assms True by (simp add: map_events_ok_def)
qed (use assms in \<open>auto simp: map_events_ok_def\<close>)

context map_keys
begin

lemma clear_ok:
  assumes "map_ok m"
  shows "\<exists>m' evs. lpp_map_clear (Some m) = (Some m', evs) \<and> map_ok m' \<and> map_events_ok m m' evs \<and> contents m' = Map.empty"
proof (cases "entries m = []")
  case True
  then have "contents m = Map.empty" by (simp add: contents_def amap_def fun_eq_iff)
  with True assms show ?thesis by (auto simp: lpp_map_clear_def map_events_ok_def)
next
  case False
  let ?m = "m\<lparr>entries := replicate (mcap m) empty_entry, mlen := 0\<rparr>"
  have "nonempty ?m = 0" by (simp add: nonempty_def empty_entry_def)
  moreover have "contents ?m = Map.empty" using empty_table_ok(2) [of "mcap m"] by (auto simp: contents_def fun_eq_iff amap_None_iff)
  ultimately show ?thesis using assms False empty_table_ok [of "mcap m"]
    by (auto simp: lpp_map_clear_def map_ok_def map_events_ok_def release_values_events vals_def)
qed

lemma map_op_ok:
  assumes "map_ok m" "op_keys_valid valid op"
  shows "run_map_op E op (Some m) = Inl (rehash_fault E) \<and> (\<exists>n. table_oom E n) \<or>
    (\<exists>m' evs. run_map_op E op (Some m) = Inr (Some m', evs) \<and> map_ok m' \<and> map_events_ok m m' evs \<and>
       contents m' = spec_map_op (str_at E) op (contents m))"
proof (cases op)
  case (MPut k v)
  then show ?thesis using put_ok [OF assms(1), of False k v] by (simp add: lpp_map_put_def arg_ok_def key_of_def)
next
  case (MPutStr k v)
  then show ?thesis using put_ok [OF assms(1), of True k v] assms(2) by (simp add: lpp_map_put_str_def arg_ok_def key_of_def)
next
  case (MRemove k)
  then show ?thesis using remove_ok(1) [OF assms(1), of k] by simp
next
  case (MRemoveStr k)
  then show ?thesis using remove_ok(2) [OF assms(1), of k] assms(2) by simp
next
  case MClear
  then show ?thesis using clear_ok [OF assms(1)] by auto
qed

lemma run_map_ok:
  assumes "map_ok m" "list_all (op_keys_valid valid) ops"
  shows "run_map E ops (Some m) = Inl (rehash_fault E) \<and> (\<exists>n. table_oom E n) \<or>
    (\<exists>m' evs. run_map E ops (Some m) = Inr (Some m', evs) \<and> map_ok m' \<and> map_events_ok m m' evs \<and>
       contents m' = fold (spec_map_op (str_at E)) ops (contents m))"
  using assms
proof (induction ops arbitrary: m)
  case Nil
  then show ?case by (simp add: map_events_ok_def)
next
  case (Cons op ops)
  from map_op_ok [OF Cons.prems(1), of op] Cons.prems(2)
  consider "run_map_op E op (Some m) = Inl (rehash_fault E)" "\<exists>n. table_oom E n"
    | m1 e where "run_map_op E op (Some m) = Inr (Some m1, e)" "map_ok m1" "map_events_ok m m1 e" "contents m1 = spec_map_op (str_at E) op (contents m)"
    by auto
  then show ?case
  proof cases
    case 2
    have "list_all (op_keys_valid valid) ops" using Cons.prems(2) by simp
    from Cons.IH [OF 2(2) this] show ?thesis
    proof (elim disjE exE conjE)
      fix m' evs
      assume "run_map E ops (Some m1) = Inr (Some m', evs)" "map_ok m'" "map_events_ok m1 m' evs"
        "contents m' = fold (spec_map_op (str_at E)) ops (contents m1)"
      then show ?thesis using 2 map_events_trans by auto
    qed (use 2 in auto)
  qed auto
qed

lemma new_map_ok:
  assumes "lpp_map_new_with_mode E arc_oom arc = Inr (Some m)"
  shows "map_ok m" "contents m = Map.empty" "arc_values m = arc" "vals (entries m) = {#}"
proof -
  have m: "m = \<lparr>entries = replicate 16 empty_entry, mcap = 16, mlen = 0, arc_values = arc\<rparr>"
    using assms by (auto simp: lpp_map_new_with_mode_def alloc_entries_def split: if_splits)
  have "nonempty m = 0" by (simp add: m nonempty_def empty_entry_def)
  then show "map_ok m" using empty_table_ok [of 16] by (simp add: map_ok_def m)
  show "contents m = Map.empty" using empty_table_ok(2) [of 16] by (auto simp: m contents_def fun_eq_iff amap_None_iff)
  show "arc_values m = arc" "vals (entries m) = {#}" using empty_table_ok(2) [of 16] by (simp_all add: m vals_def)
qed

lemma len_card:
  assumes "map_ok m"
  shows "mlen m = card (dom (contents m))" "finite (dom (contents m))"
proof -
  have d: "distinct (map key (filter occ (entries m)))" using assms by (simp add: map_ok_def tab_ok_def)
  have "dom (contents m) = set (map key (filter occ (entries m)))"
  proof (rule set_eqI)
    fix k
    show "k \<in> dom (contents m) \<longleftrightarrow> k \<in> set (map key (filter occ (entries m)))"
      using amap_None_iff [of "entries m" k] by (auto simp: contents_def in_occs_iff)
  qed
  then show "mlen m = card (dom (contents m))" "finite (dom (contents m))"
    using assms distinct_card [OF d] by (simp_all add: map_ok_def size_occs)
qed

text \<open>Everything a client sees of a map built by a sequence of calls.\<close>

lemma client_view:
  assumes "lpp_map_new_with_mode E arc_oom arc = Inr (Some m0)" "list_all (op_keys_valid valid) ops"
  shows "run_map E ops (Some m0) = Inl (rehash_fault E) \<and> (\<exists>n. table_oom E n) \<or>
    (\<exists>m evs. run_map E ops (Some m0) = Inr (Some m, evs) \<and>
       (\<forall>k. lpp_map_get E (Some m) k = Inr (value_or_0 (spec_map (str_at E) ops (KInt k)))) \<and>
       (\<forall>k. lpp_map_has E (Some m) k = Inr (spec_map (str_at E) ops (KInt k) \<noteq> None)) \<and>
       (\<forall>k. valid k \<and> k \<noteq> 0 \<longrightarrow>
          lpp_map_get_str E (Some m) k = Inr (value_or_0 (spec_map (str_at E) ops (KStr (the (str_at E k))))) \<and>
          lpp_map_has_str E (Some m) k = Inr (spec_map (str_at E) ops (KStr (the (str_at E k))) \<noteq> None)) \<and>
       lpp_map_len (Some m) = card (dom (spec_map (str_at E) ops)))"
proof -
  note n = new_map_ok [OF assms(1)]
  from run_map_ok [OF n(1) assms(2)] show ?thesis
  proof
    assume "\<exists>m' evs. run_map E ops (Some m0) = Inr (Some m', evs) \<and> map_ok m' \<and> map_events_ok m0 m' evs \<and>
       contents m' = fold (spec_map_op (str_at E)) ops (contents m0)"
    then obtain m evs where m: "run_map E ops (Some m0) = Inr (Some m, evs)" "map_ok m" "contents m = spec_map (str_at E) ops"
      using n(2) by (auto simp: spec_map_def)
    then show ?thesis using get_ok [OF m(2)] get_str_ok [OF m(2)] len_card [OF m(2)] unfolding m(3)
      by (intro disjI2 exI [of _ m] exI [of _ evs]) (auto simp: lpp_map_len_def)
  qed simp
qed

lemma ownership_balance:
  assumes "lpp_map_new_with_mode E arc_oom True = Inr (Some m0)" "list_all (op_keys_valid valid) ops"
    and "run_map E ops (Some m0) = Inr (Some m, evs)"
  shows "retained evs = released (evs @ snd (lpp_map_destroy (Some m)))"
proof -
  note n = new_map_ok [OF assms(1)]
  have "map_events_ok m0 m evs" using run_map_ok [OF n(1) assms(2)] assms(3) by auto
  then have "arc_values m" "vals (entries m) + released evs = retained evs" using n by (auto simp: map_events_ok_def)
  then show ?thesis by (simp add: lpp_map_destroy_def release_values_events add.commute)
qed

end

interpretation host_map: map_keys "host_env oom sm" "\<lambda>p. sm p \<noteq> None" for oom sm
  by unfold_locales (auto simp: host_env_def str_match_def)

lemma cstr_eq_loop_eq: "cstr_eq_loop s t \<longleftrightarrow> s = t"
  by (induction s t rule: cstr_eq_loop.induct) auto

interpretation fs_map: map_keys "fs_env mmap_fails sm" "\<lambda>p. sm p \<noteq> None \<and> 0x400000 \<le> sint p" for mmap_fails sm
  by unfold_locales (auto simp: fs_env_def lpp_map_key_equal_def cstr_eq_loop_eq)

section \<open>The freestanding map\<close>

definition lpp_map_destroy_fs :: "LppMap option \<Rightarrow> LppMap option \<times> arc_ev list" where
  "lpp_map_destroy_fs mp = lpp_map_destroy mp"

definition lpp_map_new_with_mode_fs :: "(int \<Rightarrow> bool) \<Rightarrow> bool \<Rightarrow> bool \<Rightarrow> LppMap option res" where
  "lpp_map_new_with_mode_fs mmap_fails arc_oom arc = lpp_map_new_with_mode (fs_env mmap_fails (\<lambda>p. None)) arc_oom arc"

definition lpp_map_rehash_fs :: "(int \<Rightarrow> bool) \<Rightarrow> strmem \<Rightarrow> LppMap \<Rightarrow> nat \<Rightarrow> LppMap res" where
  "lpp_map_rehash_fs mmap_fails sm m new_cap = lpp_map_rehash (fs_env mmap_fails sm) m new_cap"

definition lpp_map_put_internal_fs ::
  "(int \<Rightarrow> bool) \<Rightarrow> strmem \<Rightarrow> LppMap option \<Rightarrow> i64 \<Rightarrow> i64 \<Rightarrow> bool \<Rightarrow> (LppMap option \<times> arc_ev list) res" where
  "lpp_map_put_internal_fs mmap_fails sm mp key val is_str = lpp_map_put_internal (fs_env mmap_fails sm) mp key val is_str"

definition lpp_map_new_fs :: "(int \<Rightarrow> bool) \<Rightarrow> bool \<Rightarrow> LppMap option res" where
  "lpp_map_new_fs mmap_fails arc_oom = lpp_map_new_with_mode_fs mmap_fails arc_oom False"

definition lpp_map_new_arc_fs :: "(int \<Rightarrow> bool) \<Rightarrow> bool \<Rightarrow> LppMap option res" where
  "lpp_map_new_arc_fs mmap_fails arc_oom = lpp_map_new_with_mode_fs mmap_fails arc_oom True"

definition lpp_map_put_fs :: "(int \<Rightarrow> bool) \<Rightarrow> strmem \<Rightarrow> LppMap option \<Rightarrow> i64 \<Rightarrow> i64 \<Rightarrow> (LppMap option \<times> arc_ev list) res" where
  "lpp_map_put_fs mmap_fails sm mp key val = lpp_map_put_internal_fs mmap_fails sm mp key val False"

definition lpp_map_put_str_fs :: "(int \<Rightarrow> bool) \<Rightarrow> strmem \<Rightarrow> LppMap option \<Rightarrow> i64 \<Rightarrow> i64 \<Rightarrow> (LppMap option \<times> arc_ev list) res" where
  "lpp_map_put_str_fs mmap_fails sm mp key val = lpp_map_put_internal_fs mmap_fails sm mp key val True"

definition lpp_map_len_fs :: "LppMap option \<Rightarrow> nat" where
  "lpp_map_len_fs mp = (case mp of None \<Rightarrow> 0 | Some m \<Rightarrow> mlen m)"

definition lpp_map_get_fs :: "(int \<Rightarrow> bool) \<Rightarrow> strmem \<Rightarrow> LppMap option \<Rightarrow> i64 \<Rightarrow> i64 res" where
  "lpp_map_get_fs mmap_fails sm mp key = lpp_map_get (fs_env mmap_fails sm) mp key"

definition lpp_map_get_str_fs :: "(int \<Rightarrow> bool) \<Rightarrow> strmem \<Rightarrow> LppMap option \<Rightarrow> i64 \<Rightarrow> i64 res" where
  "lpp_map_get_str_fs mmap_fails sm mp key = lpp_map_get_str (fs_env mmap_fails sm) mp key"

definition lpp_map_put_float_fs :: "(int \<Rightarrow> bool) \<Rightarrow> strmem \<Rightarrow> LppMap option \<Rightarrow> i64 \<Rightarrow> i64 \<Rightarrow> (LppMap option \<times> arc_ev list) res" where
  "lpp_map_put_float_fs mmap_fails sm mp key bits = lpp_map_put_fs mmap_fails sm mp key bits"

definition lpp_map_get_float_fs :: "(int \<Rightarrow> bool) \<Rightarrow> strmem \<Rightarrow> LppMap option \<Rightarrow> i64 \<Rightarrow> i64 res" where
  "lpp_map_get_float_fs mmap_fails sm mp key = lpp_map_get_fs mmap_fails sm mp key"

definition lpp_map_put_str_float_fs :: "(int \<Rightarrow> bool) \<Rightarrow> strmem \<Rightarrow> LppMap option \<Rightarrow> i64 \<Rightarrow> i64 \<Rightarrow> (LppMap option \<times> arc_ev list) res" where
  "lpp_map_put_str_float_fs mmap_fails sm mp key bits = lpp_map_put_str_fs mmap_fails sm mp key bits"

definition lpp_map_get_str_float_fs :: "(int \<Rightarrow> bool) \<Rightarrow> strmem \<Rightarrow> LppMap option \<Rightarrow> i64 \<Rightarrow> i64 res" where
  "lpp_map_get_str_float_fs mmap_fails sm mp key = lpp_map_get_str_fs mmap_fails sm mp key"

definition lpp_map_has_fs :: "(int \<Rightarrow> bool) \<Rightarrow> strmem \<Rightarrow> LppMap option \<Rightarrow> i64 \<Rightarrow> bool res" where
  "lpp_map_has_fs mmap_fails sm mp key = lpp_map_has (fs_env mmap_fails sm) mp key"

definition lpp_map_has_str_fs :: "(int \<Rightarrow> bool) \<Rightarrow> strmem \<Rightarrow> LppMap option \<Rightarrow> i64 \<Rightarrow> bool res" where
  "lpp_map_has_str_fs mmap_fails sm mp key = lpp_map_has_str (fs_env mmap_fails sm) mp key"

definition lpp_map_remove_fs :: "(int \<Rightarrow> bool) \<Rightarrow> strmem \<Rightarrow> LppMap option \<Rightarrow> i64 \<Rightarrow> (LppMap option \<times> arc_ev list) res" where
  "lpp_map_remove_fs mmap_fails sm mp key = lpp_map_remove (fs_env mmap_fails sm) mp key"

definition lpp_map_remove_str_fs :: "(int \<Rightarrow> bool) \<Rightarrow> strmem \<Rightarrow> LppMap option \<Rightarrow> i64 \<Rightarrow> (LppMap option \<times> arc_ev list) res" where
  "lpp_map_remove_str_fs mmap_fails sm mp key = lpp_map_remove_str (fs_env mmap_fails sm) mp key"

section \<open>Properties\<close>

text \<open>C3: A map made by \<open>lpp_map_new\<close> or \<open>lpp_map_new_arc\<close> and any sequence of insertions, removals and
  clears on integer and string keys answers every later \<open>get\<close>, \<open>has\<close> and \<open>len\<close> exactly like a partial
  function updated by the same calls, whatever collisions, tombstones and rehashes occurred; the only other outcome is
  the out-of-memory panic of a rehash. In particular every probe loop ends.\<close>

theorem lpp_map_refines_partial_function:
  assumes "lpp_map_new_with_mode (host_env oom sm) arc_oom arc = Inr (Some m0)"
    and "list_all (op_keys_valid (\<lambda>p. sm p \<noteq> None)) ops"
  shows "run_map (host_env oom sm) ops (Some m0) = Inl (Panic ''out of memory while rehashing map'') \<and> (\<exists>n. oom n) \<or>
    (\<exists>m evs. run_map (host_env oom sm) ops (Some m0) = Inr (Some m, evs) \<and>
       (\<forall>k. lpp_map_get (host_env oom sm) (Some m) k = Inr (value_or_0 (spec_map sm ops (KInt k)))) \<and>
       (\<forall>k. lpp_map_has (host_env oom sm) (Some m) k = Inr (spec_map sm ops (KInt k) \<noteq> None)) \<and>
       (\<forall>k s. sm k = Some s \<and> k \<noteq> 0 \<longrightarrow>
          lpp_map_get_str (host_env oom sm) (Some m) k = Inr (value_or_0 (spec_map sm ops (KStr s))) \<and>
          lpp_map_has_str (host_env oom sm) (Some m) k = Inr (spec_map sm ops (KStr s) \<noteq> None)) \<and>
       lpp_map_len (Some m) = card (dom (spec_map sm ops)))"
  using host_map.client_view [OF assms] by (auto simp: host_env_def)

theorem lpp_map_refines_partial_function_witness:
  "lpp_map_new_with_mode (host_env (\<lambda>n. False) (\<lambda>p. None)) False False =
     Inr (Some \<lparr>entries = replicate 16 empty_entry, mcap = 16, mlen = 0, arc_values = False\<rparr>) \<and>
   (\<exists>m evs. run_map (host_env (\<lambda>n. False) (\<lambda>p. None)) [MPut 1 10, MPut 2 20, MRemove 1]
      (Some \<lparr>entries = replicate 16 empty_entry, mcap = 16, mlen = 0, arc_values = False\<rparr>) = Inr (Some m, evs) \<and>
     lpp_map_get (host_env (\<lambda>n. False) (\<lambda>p. None)) (Some m) 2 = Inr 20)"
proof -
  let ?E = "host_env (\<lambda>n. False) (\<lambda>p. None)"
  let ?m = "\<lparr>entries = replicate 16 empty_entry, mcap = 16, mlen = 0, arc_values = False\<rparr>"
  have new: "lpp_map_new_with_mode ?E False False = Inr (Some ?m)"
    by (simp add: lpp_map_new_with_mode_def alloc_entries_def host_env_def)
  then show ?thesis
    using lpp_map_refines_partial_function [of "\<lambda>n. False" "\<lambda>p. None" False False ?m "[MPut 1 10, MPut 2 20, MRemove 1]"]
    by (auto simp: spec_map_def value_or_0_def)
qed

text \<open>C17: A map that owns its values accounts for them: over any sequence of calls from \<open>lpp_map_new_arc\<close>
  to the destruction of the map, every value is retained exactly as often as it is released.\<close>

theorem lpp_map_ownership_balance:
  assumes "lpp_map_new_arc (host_env oom sm) arc_oom = Inr (Some m0)"
    and "list_all (op_keys_valid (\<lambda>p. sm p \<noteq> None)) ops"
    and "run_map (host_env oom sm) ops (Some m0) = Inr (Some m, evs)"
  shows "retained evs = released (evs @ snd (lpp_map_destroy (Some m)))"
  using host_map.ownership_balance [OF _ assms(2,3)] assms(1) by (simp add: lpp_map_new_arc_def)

theorem lpp_map_ownership_balance_witness:
  "\<exists>m evs. run_map (host_env (\<lambda>n. False) (\<lambda>p. None)) [MPut 1 0x2000, MPut 1 0x3000, MRemove 1, MPut 7 0x2000]
      (Some \<lparr>entries = replicate 16 empty_entry, mcap = 16, mlen = 0, arc_values = True\<rparr>) = Inr (Some m, evs) \<and>
     retained evs = released (evs @ snd (lpp_map_destroy (Some m)))"
proof -
  let ?E = "host_env (\<lambda>n. False) (\<lambda>p. None)" and ?ops = "[MPut 1 0x2000, MPut 1 0x3000, MRemove 1, MPut 7 0x2000]"
  let ?m = "\<lparr>entries = replicate 16 empty_entry, mcap = 16, mlen = 0, arc_values = True\<rparr>"
  have new: "lpp_map_new_arc ?E False = Inr (Some ?m)"
    by (simp add: lpp_map_new_arc_def lpp_map_new_with_mode_def alloc_entries_def host_env_def)
  obtain m evs where r: "run_map ?E ?ops (Some ?m) = Inr (Some m, evs)"
    using host_map.run_map_ok [OF host_map.new_map_ok(1), of "\<lambda>n. False" "\<lambda>p. None" False True ?m ?ops] new
    by (auto simp: lpp_map_new_arc_def host_env_def)
  show ?thesis using lpp_map_ownership_balance [OF new _ r] r by auto
qed

text \<open>C23: The freestanding map, whose key comparison reads strings only above address \<open>0x400000\<close>, gives the
  same answers for string keys that live there.\<close>

theorem lpp_map_fs_refines_partial_function:
  assumes "lpp_map_new_with_mode_fs mmap_fails arc_oom arc = Inr (Some m0)"
    and "list_all (op_keys_valid (\<lambda>p. sm p \<noteq> None \<and> 0x400000 \<le> sint p)) ops"
  shows "run_map (fs_env mmap_fails sm) ops (Some m0) = Inl (Exited 101) \<and> (\<exists>n. mmap_fails n) \<or>
    (\<exists>m evs. run_map (fs_env mmap_fails sm) ops (Some m0) = Inr (Some m, evs) \<and>
       (\<forall>k. lpp_map_get_fs mmap_fails sm (Some m) k = Inr (value_or_0 (spec_map sm ops (KInt k)))) \<and>
       (\<forall>k. lpp_map_has_fs mmap_fails sm (Some m) k = Inr (spec_map sm ops (KInt k) \<noteq> None)) \<and>
       (\<forall>k s. sm k = Some s \<and> 0x400000 \<le> sint k \<longrightarrow>
          lpp_map_get_str_fs mmap_fails sm (Some m) k = Inr (value_or_0 (spec_map sm ops (KStr s))) \<and>
          lpp_map_has_str_fs mmap_fails sm (Some m) k = Inr (spec_map sm ops (KStr s) \<noteq> None)) \<and>
       lpp_map_len (Some m) = card (dom (spec_map sm ops)))"
proof -
  have "lpp_map_new_with_mode (fs_env mmap_fails sm) arc_oom arc = Inr (Some m0)"
    using assms(1) by (simp add: lpp_map_new_with_mode_fs_def lpp_map_new_with_mode_def alloc_entries_def fs_env_def
      split: if_splits option.splits)
  note view = fs_map.client_view [OF this assms(2)]
  have f: "str_at (fs_env mmap_fails sm) = sm" "rehash_fault (fs_env mmap_fails sm) = Exited 101"
      "table_oom (fs_env mmap_fails sm) = (\<lambda>n. mmap_fails (lpp_page_round (int n * 24)))"
    by (simp_all add: fs_env_def)
  have nz: "k \<noteq> 0" if "0x400000 \<le> sint k" for k :: i64 using that by auto
  from view [unfolded f] show ?thesis
  proof (elim disjE exE conjE)
    fix m evs
    assume r: "run_map (fs_env mmap_fails sm) ops (Some m0) = Inr (Some m, evs)"
      "\<forall>k. lpp_map_get (fs_env mmap_fails sm) (Some m) k = Inr (value_or_0 (spec_map sm ops (KInt k)))"
      "\<forall>k. lpp_map_has (fs_env mmap_fails sm) (Some m) k = Inr (spec_map sm ops (KInt k) \<noteq> None)"
      "\<forall>k. (sm k \<noteq> None \<and> 0x400000 \<le> sint k) \<and> k \<noteq> 0 \<longrightarrow>
        lpp_map_get_str (fs_env mmap_fails sm) (Some m) k = Inr (value_or_0 (spec_map sm ops (KStr (the (sm k))))) \<and>
        lpp_map_has_str (fs_env mmap_fails sm) (Some m) k = Inr (spec_map sm ops (KStr (the (sm k))) \<noteq> None)"
      "lpp_map_len (Some m) = card (dom (spec_map sm ops))"
    have "lpp_map_get_str (fs_env mmap_fails sm) (Some m) k = Inr (value_or_0 (spec_map sm ops (KStr s))) \<and>
        lpp_map_has_str (fs_env mmap_fails sm) (Some m) k = Inr (spec_map sm ops (KStr s) \<noteq> None)"
      if "sm k = Some s \<and> 0x400000 \<le> sint k" for k s
      using r(4) [rule_format, of k] nz [of k] that by simp
    with r show ?thesis
      unfolding lpp_map_get_fs_def lpp_map_has_fs_def lpp_map_get_str_fs_def lpp_map_has_str_fs_def by blast
  qed auto
qed

theorem lpp_map_fs_refines_partial_function_witness:
  "\<exists>m evs. run_map (fs_env (\<lambda>n. False) (\<lambda>p. if p = 0x500000 \<or> p = 0x600000 then Some ''ab'' else None)) [MPutStr 0x500000 10]
      (Some \<lparr>entries = replicate 16 empty_entry, mcap = 16, mlen = 0, arc_values = False\<rparr>) = Inr (Some m, evs) \<and>
     lpp_map_get_str_fs (\<lambda>n. False) (\<lambda>p. if p = 0x500000 \<or> p = 0x600000 then Some ''ab'' else None) (Some m) 0x600000 = Inr 10"
proof -
  let ?sm = "\<lambda>p. if p = 0x500000 \<or> p = 0x600000 then Some ''ab'' else None"
  let ?m = "\<lparr>entries = replicate 16 empty_entry, mcap = 16, mlen = 0, arc_values = False\<rparr>"
  have new: "lpp_map_new_with_mode_fs (\<lambda>n. False) False False = Inr (Some ?m)"
    by (simp add: lpp_map_new_with_mode_fs_def lpp_map_new_with_mode_def alloc_entries_def fs_env_def lpp_page_round_def)
  from lpp_map_fs_refines_partial_function [OF new, of ?sm "[MPutStr 0x500000 10]"] show ?thesis
    by (auto simp: spec_map_def value_or_0_def)
qed

end
