(* ===== verification/Lpp_Str.thy ===== *)
theory Lpp_Str
  imports Lpp_Prelude
begin

text \<open>
  String, number-text, random and integer-math builtins: \<^verbatim>\<open>runtime/lpp_str.c\<close> and their freestanding
  counterparts in \<^verbatim>\<open>runtime/linux_x86_64_min.c\<close> (suffix \<open>_fs\<close>).
  An argument is a \<open>cstr\<close>. A result is built in a fresh zeroed block of exactly the requested size; a write outside
  the block is a \<open>Fault\<close>, and so is a result without a terminator. \<open>oom n\<close> says whether the allocator fails
  for \<open>n\<close> bytes.
\<close>

section \<open>Blocks under construction\<close>

definition arc_block :: "(int \<Rightarrow> bool) \<Rightarrow> int \<Rightarrow> string option" where
  "arc_block oom n = (if oom n then None else Some (replicate (nat n) CHR 0x00))"

definition poke :: "string \<Rightarrow> nat \<Rightarrow> string \<Rightarrow> string res" where
  "poke blk off bytes = (if off + length bytes \<le> length blk
     then Inr (take off blk @ bytes @ drop (off + length bytes) blk)
     else Inl (Fault ''write outside the block''))"

fun pokes :: "string \<Rightarrow> (nat \<times> string) list \<Rightarrow> string res" where
  "pokes blk [] = Inr blk"
| "pokes blk ((off, bytes) # ws) = bind_res (poke blk off bytes) (\<lambda>blk. pokes blk ws)"

definition c_string :: "string \<Rightarrow> string res" where
  "c_string blk = (if CHR 0x00 \<in> set blk then Inr (takeWhile (\<lambda>c. c \<noteq> CHR 0x00) blk)
     else Inl (Fault ''string without terminator''))"

text \<open>\<open>new_str\<close>: allocate, answer NULL with the shared empty string, write, return. \<open>new_str_unchecked\<close> is
  the variant without the NULL test.\<close>

definition new_str :: "(int \<Rightarrow> bool) \<Rightarrow> int \<Rightarrow> (nat \<times> string) list \<Rightarrow> string res" where
  "new_str oom n ws = (case arc_block oom n of None \<Rightarrow> Inr [] | Some out \<Rightarrow> bind_res (pokes out ws) c_string)"

definition new_str_unchecked :: "(int \<Rightarrow> bool) \<Rightarrow> int \<Rightarrow> (nat \<times> string) list \<Rightarrow> string res" where
  "new_str_unchecked oom n ws = (case arc_block oom n of None \<Rightarrow> Inl (Fault ''write through NULL'')
     | Some out \<Rightarrow> bind_res (pokes out ws) c_string)"

definition or_empty :: "cstr \<Rightarrow> string" where
  "or_empty s = (case s of None \<Rightarrow> [] | Some x \<Rightarrow> x)"

section \<open>Library string functions\<close>

fun strstr :: "string \<Rightarrow> string \<Rightarrow> nat option" where
  "strstr h n = (if take (length n) h = n then Some 0
     else case h of [] \<Rightarrow> None | _ # t \<Rightarrow> map_option Suc (strstr t n))"

declare strstr.simps [simp del]

definition char_code :: "char \<Rightarrow> int" where
  "char_code c = int (of_char c :: nat)"

text \<open>\<open>strcmp\<close> on unsigned bytes; the standard fixes the sign of the result only.\<close>

fun strcmp :: "string \<Rightarrow> string \<Rightarrow> int" where
  "strcmp [] [] = 0"
| "strcmp [] (d # _) = - char_code d"
| "strcmp (c # _) [] = char_code c"
| "strcmp (c # a) (d # b) = (if c = d then strcmp a b else char_code c - char_code d)"

section \<open>Host string builtins\<close>

definition lpp_str_concat :: "(int \<Rightarrow> bool) \<Rightarrow> cstr \<Rightarrow> cstr \<Rightarrow> string res" where
  "lpp_str_concat oom a b = (let a = or_empty a; b = or_empty b; la = length a; lb = length b
     in new_str oom (int la + int lb + 1) [(0, a), (la, b), (la + lb, [CHR 0x00])])"

text \<open>The split loop: \<open>cur\<close> are the characters from \<open>start\<close> to \<open>s\<close>. A piece that cannot be allocated is left
  out.\<close>

definition split_piece :: "(int \<Rightarrow> bool) \<Rightarrow> string \<Rightarrow> string list" where
  "split_piece oom cur = (if oom (int (length cur) + 1) then [] else [cur])"

fun split_loop :: "(int \<Rightarrow> bool) \<Rightarrow> char \<Rightarrow> string \<Rightarrow> string \<Rightarrow> string list" where
  "split_loop oom ch cur [] = split_piece oom cur"
| "split_loop oom ch cur (c # s) =
     (if c = ch then split_piece oom cur @ split_loop oom ch [] s else split_loop oom ch (cur @ [c]) s)"

definition lpp_str_split :: "bool \<Rightarrow> (int \<Rightarrow> bool) \<Rightarrow> cstr \<Rightarrow> i64 \<Rightarrow> string list option" where
  "lpp_str_split list_oom oom s delim =
     (if list_oom then None
      else case s of None \<Rightarrow> Some [] | Some [] \<Rightarrow> Some []
      | Some s \<Rightarrow> Some (split_loop oom (char_of (unat (ucast delim :: u8))) [] s))"

definition lpp_str_find :: "cstr \<Rightarrow> cstr \<Rightarrow> int" where
  "lpp_str_find haystack needle = (case (haystack, needle) of
     (Some h, Some n) \<Rightarrow> (case strstr h n of None \<Rightarrow> - 1 | Some i \<Rightarrow> int i)
   | _ \<Rightarrow> - 1)"

function count_loop :: "string \<Rightarrow> string \<Rightarrow> nat" where
  "count_loop old scan = (if old = [] then 0 else case strstr scan old of None \<Rightarrow> 0
     | Some i \<Rightarrow> Suc (count_loop old (drop (i + length old) scan)))"
  by pat_completeness auto

lemma strstr_bound: "strstr h n = Some i \<Longrightarrow> i + length n \<le> length h"
proof (induction h n arbitrary: i rule: strstr.induct)
  case (1 h n)
  show ?case
  proof (cases "take (length n) h = n")
    case True
    then have "length n \<le> length h" by (metis length_take min.cobounded1)
    then show ?thesis using 1(2) True by (subst (asm) strstr.simps) simp
  next
    case False
    then show ?thesis using 1 by (subst (asm) (2) strstr.simps) (auto split: list.splits)
  qed
qed

termination count_loop
proof (relation "measure (length \<circ> snd)")
  fix old scan :: string and i assume "\<not> old = []" "strstr scan old = Some i"
  then show "((old, drop (i + length old) scan), old, scan) \<in> measure (length \<circ> snd)"
    using strstr_bound [of scan old i] by (cases old) (auto intro: diff_less)
qed simp

function replace_loop :: "string \<Rightarrow> string \<Rightarrow> string \<Rightarrow> nat \<Rightarrow> string \<Rightarrow> string res" where
  "replace_loop old new_s out dst src =
     (if src = [] \<or> old = [] then Inr out
      else case strstr src old of
        None \<Rightarrow> poke out dst (src @ [CHR 0x00])
      | Some i \<Rightarrow> bind_res (poke out dst (take i src)) (\<lambda>out.
          bind_res (poke out (dst + i) new_s) (\<lambda>out.
            replace_loop old new_s out (dst + i + length new_s) (drop (i + length old) src))))"
  by pat_completeness auto

termination replace_loop
proof (relation "measure (\<lambda>(_, _, _, _, src). length src)")
  fix old new_s out src :: string and dst i x xa
  assume "\<not> (src = [] \<or> old = [])" "strstr src old = Some i"
  then show "((old, new_s, xa, dst + i + length new_s, drop (i + length old) src), old, new_s, out, dst, src)
      \<in> measure (\<lambda>(_, _, _, _, src). length src)"
    using strstr_bound [of src old i] by (cases old) (auto intro: diff_less)
qed simp

declare count_loop.simps [simp del] replace_loop.simps [simp del]

text \<open>\<open>count * delta\<close> and the output size are signed 64-bit; an overflow of the product itself is undefined.\<close>

definition lpp_str_replace :: "(int \<Rightarrow> bool) \<Rightarrow> cstr \<Rightarrow> cstr \<Rightarrow> cstr \<Rightarrow> string res" where
  "lpp_str_replace oom s old nw = (let s = or_empty s in
     case old of None \<Rightarrow> new_str oom (int (length s) + 1) [(0, s @ [CHR 0x00])]
     | Some [] \<Rightarrow> new_str oom (int (length s) + 1) [(0, s @ [CHR 0x00])]
     | Some old \<Rightarrow>
       let new_s = or_empty nw;
           cnt = int (count_loop old s);
           delta = int (length new_s) - int (length old)
       in if \<not> in_i64 (cnt * delta) then Inl (Fault ''signed overflow'')
          else if cnt > 0 \<and> delta > 0 \<and> int (length s) > INT64_MAX - cnt * delta
          then Inl (Panic ''str_replace: output size overflow'')
          else let outlen_signed = int (length s) + cnt * delta;
                   outlen_signed = (if outlen_signed < 0 then 0 else outlen_signed)
               in case arc_block oom (outlen_signed + 1) of None \<Rightarrow> Inr []
                  | Some out \<Rightarrow> bind_res (replace_loop old new_s out 0 s) c_string)"

definition lpp_str_substr :: "(int \<Rightarrow> bool) \<Rightarrow> cstr \<Rightarrow> int \<Rightarrow> int \<Rightarrow> string res" where
  "lpp_str_substr oom s start len = (let s = or_empty s; slen = int (length s);
       start = (if start < 0 then 0 else start)
     in if start > slen then Inr []
        else let remain = slen - start;
                 copy = (if len < 0 \<or> len > remain then remain else len)
             in new_str oom (copy + 1) [(0, take (nat copy) (drop (nat start) s)), (nat copy, [CHR 0x00])])"

text \<open>Skipping blanks at the end: \<open>e\<close> is \<open>end\<close> as an offset from \<open>s\<close>.\<close>

fun trim_end :: "string \<Rightarrow> nat \<Rightarrow> nat" where
  "trim_end s 0 = 0"
| "trim_end s (Suc e) = (if is_space4 (s ! e) then trim_end s e else Suc e)"

definition lpp_str_trim :: "(int \<Rightarrow> bool) \<Rightarrow> cstr \<Rightarrow> string res" where
  "lpp_str_trim oom s = (case s of None \<Rightarrow> Inr []
   | Some s \<Rightarrow> let s = dropWhile is_space4 s; len = trim_end s (length s)
               in new_str oom (int len + 1) [(0, take len s), (len, [CHR 0x00])])"

definition lpp_str_repeat :: "(int \<Rightarrow> bool) \<Rightarrow> cstr \<Rightarrow> int \<Rightarrow> string res" where
  "lpp_str_repeat oom s n = (case s of None \<Rightarrow> Inr []
   | Some s \<Rightarrow> if n \<le> 0 then Inr []
       else let slen = length s
            in if slen = 0 then Inr []
               else if int slen > INT64_MAX div n then Inl (Panic ''str_repeat: length overflow'')
               else let total = slen * nat n
                    in new_str oom (int total + 1) (map (\<lambda>i. (i * slen, s)) [0..<nat n] @ [(total, [CHR 0x00])]))"

definition lpp_char_at :: "(int \<Rightarrow> bool) \<Rightarrow> cstr \<Rightarrow> int \<Rightarrow> cstr res" where
  "lpp_char_at oom s idx = (case s of None \<Rightarrow> Inr None
   | Some s \<Rightarrow> if idx < 0 \<or> idx \<ge> int (length s) then Inr None
       else bind_res (new_str_unchecked oom 2 [(0, [s ! nat idx]), (1, [CHR 0x00])]) (\<lambda>r. Inr (Some r)))"

definition lpp_ord :: "cstr \<Rightarrow> int" where
  "lpp_ord s = (case s of None \<Rightarrow> 0 | Some [] \<Rightarrow> 0 | Some (c # _) \<Rightarrow> char_code c)"

definition lpp_chr :: "(int \<Rightarrow> bool) \<Rightarrow> i64 \<Rightarrow> string res" where
  "lpp_chr oom code = new_str_unchecked oom 2 [(0, [char_of (unat (code AND 0xFF))]), (1, [CHR 0x00])]"

definition lpp_str_contains :: "cstr \<Rightarrow> cstr \<Rightarrow> int" where
  "lpp_str_contains haystack needle = (case (haystack, needle) of
     (Some h, Some n) \<Rightarrow> if strstr h n \<noteq> None then 1 else 0
   | _ \<Rightarrow> 0)"

text \<open>\<open>strncmp(s, prefix, plen) == 0\<close> compares up to \<open>plen\<close> bytes or the first terminator.\<close>

definition lpp_str_starts_with :: "cstr \<Rightarrow> cstr \<Rightarrow> int" where
  "lpp_str_starts_with s prefix = (case (s, prefix) of
     (Some s, Some p) \<Rightarrow> if take (length p) s = p then 1 else 0
   | _ \<Rightarrow> 0)"

definition lpp_str_ends_with :: "cstr \<Rightarrow> cstr \<Rightarrow> int" where
  "lpp_str_ends_with s suffix = (case (s, suffix) of
     (Some s, Some x) \<Rightarrow> if length x > length s then 0
        else if strcmp (drop (length s - length x) s) x = 0 then 1 else 0
   | _ \<Rightarrow> 0)"

definition to_upper :: "char \<Rightarrow> char" where
  "to_upper c = (if 97 \<le> char_code c \<and> char_code c \<le> 122 then char_of (nat (char_code c - 32)) else c)"

definition to_lower :: "char \<Rightarrow> char" where
  "to_lower c = (if 65 \<le> char_code c \<and> char_code c \<le> 90 then char_of (nat (char_code c + 32)) else c)"

definition lpp_str_upper :: "(int \<Rightarrow> bool) \<Rightarrow> cstr \<Rightarrow> cstr res" where
  "lpp_str_upper oom s = (case s of None \<Rightarrow> Inr None
   | Some s \<Rightarrow> bind_res (new_str_unchecked oom (int (length s) + 1)
       (map (\<lambda>i. (i, [to_upper (s ! i)])) [0..<length s] @ [(length s, [CHR 0x00])])) (\<lambda>r. Inr (Some r)))"

definition lpp_str_lower :: "(int \<Rightarrow> bool) \<Rightarrow> cstr \<Rightarrow> cstr res" where
  "lpp_str_lower oom s = (case s of None \<Rightarrow> Inr None
   | Some s \<Rightarrow> bind_res (new_str_unchecked oom (int (length s) + 1)
       (map (\<lambda>i. (i, [to_lower (s ! i)])) [0..<length s] @ [(length s, [CHR 0x00])])) (\<lambda>r. Inr (Some r)))"

definition lpp_int_to_str :: "(int \<Rightarrow> bool) \<Rightarrow> i64 \<Rightarrow> string res" where
  "lpp_int_to_str oom val = (let buf = print_int (sint val)
     in new_str oom (int (length buf) + 1) [(0, buf @ [CHR 0x00])])"

definition lpp_bool_to_str :: "(int \<Rightarrow> bool) \<Rightarrow> u8 \<Rightarrow> string res" where
  "lpp_bool_to_str oom val = (let str = (if val \<noteq> 0 then ''true'' else ''false'')
     in new_str oom (int (length str) + 1) [(0, str @ [CHR 0x00])])"

text \<open>\<open>strtoll\<close> base 10: blanks, an optional sign, digits; the value is clamped to the range of \<open>long long\<close>.\<close>

definition is_c_space :: "char \<Rightarrow> bool" where
  "is_c_space c \<longleftrightarrow> c = CHR '' '' \<or> 9 \<le> char_code c \<and> char_code c \<le> 13"

definition digits_val :: "string \<Rightarrow> int" where
  "digits_val s = foldl (\<lambda>v c. v * 10 + int (digit_val c)) 0 (takeWhile is_digit s)"

definition clamp_i64 :: "int \<Rightarrow> int" where
  "clamp_i64 v = (if v < INT64_MIN then INT64_MIN else if v > INT64_MAX then INT64_MAX else v)"

definition strtoll :: "string \<Rightarrow> int" where
  "strtoll s = (case dropWhile is_c_space s of
     [] \<Rightarrow> 0
   | c # r \<Rightarrow> if c = CHR ''-'' then clamp_i64 (- digits_val r)
              else if c = CHR ''+'' then clamp_i64 (digits_val r)
              else clamp_i64 (digits_val (c # r)))"

definition lpp_str_to_int :: "cstr \<Rightarrow> int" where
  "lpp_str_to_int s = (case s of None \<Rightarrow> 0 | Some s \<Rightarrow> strtoll s)"

text \<open>The arguments may be the same pointer, which counts as equal at once.\<close>

fun eq_loop :: "string \<Rightarrow> string \<Rightarrow> bool" where
  "eq_loop [] b = (b = [])"
| "eq_loop (c # a) [] = False"
| "eq_loop (c # a) (d # b) = (if c = d then eq_loop a b else False)"

definition lpp_str_eq :: "cstr \<Rightarrow> cstr \<Rightarrow> int" where
  "lpp_str_eq a b = (case (a, b) of
     (None, None) \<Rightarrow> 1
   | (Some x, Some y) \<Rightarrow> if eq_loop x y then 1 else 0
   | _ \<Rightarrow> 0)"

definition lpp_str_cmp :: "cstr \<Rightarrow> cstr \<Rightarrow> int" where
  "lpp_str_cmp a b = (case (a, b) of
     (None, None) \<Rightarrow> 0
   | (None, _) \<Rightarrow> - 1
   | (_, None) \<Rightarrow> 1
   | (Some x, Some y) \<Rightarrow> strcmp x y)"

section \<open>Integer math and random numbers\<close>

definition lpp_abs :: "i64 \<Rightarrow> i64 res" where
  "lpp_abs x = (if sint x < 0 then (if sint x = INT64_MIN then Inl (Fault ''signed overflow'') else Inr (- x)) else Inr x)"

definition lpp_min :: "i64 \<Rightarrow> i64 \<Rightarrow> i64" where
  "lpp_min a b = (if sint a < sint b then a else b)"

definition lpp_max :: "i64 \<Rightarrow> i64 \<Rightarrow> i64" where
  "lpp_max a b = (if sint a > sint b then a else b)"

text \<open>The products wrap; the loop squares the base once more than it needs.\<close>

function pow_loop :: "i64 \<Rightarrow> i64 \<Rightarrow> int \<Rightarrow> i64" where
  "pow_loop r base e = (if e > 0 then pow_loop (if e mod 2 = 1 then r * base else r) (base * base) (e div 2) else r)"
  by pat_completeness auto

termination pow_loop
  by (relation "measure (\<lambda>(_, _, e). nat e)") auto

declare pow_loop.simps [simp del]

definition lpp_int_pow :: "i64 \<Rightarrow> i64 \<Rightarrow> i64" where
  "lpp_int_pow base e = pow_loop 1 base (sint e)"

definition lpp_random_seed :: "i64 \<Rightarrow> u64" where
  "lpp_random_seed seed = seed"

definition xorshift :: "u64 \<Rightarrow> u64" where
  "xorshift s = (let s = s XOR push_bit 13 s; s = s XOR drop_bit 7 s in s XOR push_bit 17 s)"

text \<open>State and clock in, value and state out.\<close>

definition lpp_random :: "u64 \<Rightarrow> u64 \<Rightarrow> i64 \<times> u64" where
  "lpp_random now s = (let s = (if s = 0 then now XOR 0x1234567890ABCDEF else s); s = xorshift s
     in (s AND 0x7FFFFFFFFFFFFFFF, s))"

definition lpp_random_range :: "u64 \<Rightarrow> u64 \<Rightarrow> i64 \<Rightarrow> i64 \<Rightarrow> (i64 \<times> u64) res" where
  "lpp_random_range now s lo hi =
     (if sint lo \<ge> sint hi then Inr (lo, s)
      else if \<not> in_i64 (sint hi - sint lo) then Inl (Fault ''signed overflow'')
      else let (v, s) = lpp_random now s in Inr (word_of_int (sint lo + sint v mod (sint hi - sint lo)), s))"

section \<open>Freestanding string builtins\<close>

text \<open>Indexed access to a C string: the terminator is readable, what follows it is not.\<close>

definition peek :: "string \<Rightarrow> nat \<Rightarrow> char res" where
  "peek s i = (if i < length s then Inr (s ! i) else if i = length s then Inr CHR 0x00
     else Inl (Fault ''read behind the terminator''))"

definition copy_bytes :: "nat \<Rightarrow> string \<Rightarrow> (nat \<times> string) list" where
  "copy_bytes off s = map (\<lambda>i. (off + i, [s ! i])) [0..<length s]"

definition some_str :: "string res \<Rightarrow> cstr res" where
  "some_str m = bind_res m (\<lambda>s. Inr (Some s))"

text \<open>\<open>return (char *)lpp_alloc(1)\<close>.\<close>

definition lpp_alloc_1 :: "(int \<Rightarrow> bool) \<Rightarrow> cstr res" where
  "lpp_alloc_1 oom = (case arc_block oom 1 of None \<Rightarrow> Inr None | Some out \<Rightarrow> some_str (c_string out))"

definition lpp_strlen :: "cstr \<Rightarrow> nat" where
  "lpp_strlen s = (case s of None \<Rightarrow> 0 | Some s \<Rightarrow> length s)"

definition lpp_str_concat_fs :: "(int \<Rightarrow> bool) \<Rightarrow> cstr \<Rightarrow> cstr \<Rightarrow> cstr res" where
  "lpp_str_concat_fs oom a b = (let alen = lpp_strlen a; blen = lpp_strlen b
     in some_str (new_str_unchecked oom (int alen + int blen + 1)
          (copy_bytes 0 (or_empty a) @ copy_bytes alen (or_empty b) @ [(alen + blen, [CHR 0x00])])))"

definition lpp_str_substr_fs :: "(int \<Rightarrow> bool) \<Rightarrow> cstr \<Rightarrow> int \<Rightarrow> int \<Rightarrow> cstr res" where
  "lpp_str_substr_fs oom s start len = (case s of None \<Rightarrow> lpp_alloc_1 oom
   | Some s \<Rightarrow> let slen = int (length s); start = (if start < 0 then 0 else start)
       in if start \<ge> slen \<or> len \<le> 0 then some_str (new_str_unchecked oom 1 [(0, [CHR 0x00])])
          else if \<not> in_i64 (start + len) then Inl (Fault ''signed overflow'')
          else let len = (if start + len > slen then slen - start else len)
               in some_str (new_str_unchecked oom (len + 1)
                    (map (\<lambda>i. (i, [s ! (nat start + i)])) [0..<nat len] @ [(nat len, [CHR 0x00])])))"

definition lpp_str_repeat_fs :: "(int \<Rightarrow> bool) \<Rightarrow> cstr \<Rightarrow> int \<Rightarrow> cstr res" where
  "lpp_str_repeat_fs oom s n = (case s of None \<Rightarrow> some_str (new_str_unchecked oom 1 [(0, [CHR 0x00])])
   | Some s \<Rightarrow> if n \<le> 0 \<or> s = [] then some_str (new_str_unchecked oom 1 [(0, [CHR 0x00])])
       else let slen = length s
            in if int slen > INT64_MAX div n then Inl (Exited 101)
               else let total = slen * nat n
                    in some_str (new_str_unchecked oom (int total + 1)
                         (concat (map (\<lambda>i. copy_bytes (i * slen) s) [0..<nat n]) @ [(total, [CHR 0x00])])))"

definition lpp_char_at_fs :: "(int \<Rightarrow> bool) \<Rightarrow> cstr \<Rightarrow> int \<Rightarrow> cstr res" where
  "lpp_char_at_fs oom s idx = (case s of None \<Rightarrow> lpp_alloc_1 oom
   | Some s \<Rightarrow> if idx < 0 \<or> idx \<ge> int (length s) then lpp_alloc_1 oom
       else some_str (new_str_unchecked oom 2 [(0, [s ! nat idx]), (1, [CHR 0x00])]))"

definition lpp_ord_fs :: "cstr \<Rightarrow> int" where
  "lpp_ord_fs s = (case s of None \<Rightarrow> 0 | Some [] \<Rightarrow> 0 | Some (c # _) \<Rightarrow> char_code c)"

definition lpp_chr_fs :: "(int \<Rightarrow> bool) \<Rightarrow> i64 \<Rightarrow> cstr res" where
  "lpp_chr_fs oom code = some_str (new_str_unchecked oom 2 [(0, [char_of (unat (code AND 0xFF))]), (1, [CHR 0x00])])"

text \<open>The inner loop of find and replace: how many characters of \<open>pat\<close> match at \<open>i\<close>.\<close>

function match_loop :: "string \<Rightarrow> string \<Rightarrow> nat \<Rightarrow> nat \<Rightarrow> nat res" where
  "match_loop s pat i j = (if j < length pat
     then bind_res (peek s (i + j)) (\<lambda>c. if c = pat ! j then match_loop s pat i (Suc j) else Inr j)
     else Inr j)"
  by pat_completeness auto

termination match_loop
  by (relation "measure (\<lambda>(_, pat, _, j). length pat - j)") auto

function find_loop_fs :: "string \<Rightarrow> string \<Rightarrow> nat \<Rightarrow> int res" where
  "find_loop_fs h n i = (if i + length n \<le> length h
     then bind_res (match_loop h n i 0) (\<lambda>j. if j = length n then Inr (int i) else find_loop_fs h n (Suc i))
     else Inr (- 1))"
  by pat_completeness auto

termination find_loop_fs
  by (relation "measure (\<lambda>(h, n, i). Suc (length h) - i)") auto

definition lpp_str_find_fs :: "cstr \<Rightarrow> cstr \<Rightarrow> int res" where
  "lpp_str_find_fs haystack needle = (case (haystack, needle) of
     (Some h, Some n) \<Rightarrow> if length n = 0 then Inr 0 else if length n > length h then Inr (- 1) else find_loop_fs h n 0
   | _ \<Rightarrow> Inr (- 1))"

definition lpp_str_contains_fs :: "cstr \<Rightarrow> cstr \<Rightarrow> int res" where
  "lpp_str_contains_fs haystack needle = bind_res (lpp_str_find_fs haystack needle) (\<lambda>r. Inr (if r \<ge> 0 then 1 else 0))"

function starts_loop :: "string \<Rightarrow> string \<Rightarrow> nat \<Rightarrow> int res" where
  "starts_loop s p i = (if i < length p
     then bind_res (peek s i) (\<lambda>c. if c \<noteq> p ! i \<or> c = CHR 0x00 then Inr 0 else starts_loop s p (Suc i))
     else Inr 1)"
  by pat_completeness auto

termination starts_loop
  by (relation "measure (\<lambda>(_, p, i). length p - i)") auto

definition lpp_str_starts_with_fs :: "cstr \<Rightarrow> cstr \<Rightarrow> int res" where
  "lpp_str_starts_with_fs s prefix = (case (s, prefix) of
     (Some s, Some p) \<Rightarrow> starts_loop s p 0
   | _ \<Rightarrow> Inr 0)"

function ends_loop :: "string \<Rightarrow> string \<Rightarrow> nat \<Rightarrow> int res" where
  "ends_loop s x i = (if i < length x
     then bind_res (peek s (length s - length x + i)) (\<lambda>c. if c \<noteq> x ! i then Inr 0 else ends_loop s x (Suc i))
     else Inr 1)"
  by pat_completeness auto

termination ends_loop
  by (relation "measure (\<lambda>(_, x, i). length x - i)") auto

definition lpp_str_ends_with_fs :: "cstr \<Rightarrow> cstr \<Rightarrow> int res" where
  "lpp_str_ends_with_fs s suffix = (case (s, suffix) of
     (Some s, Some x) \<Rightarrow> if length x > length s then Inr 0 else ends_loop s x 0
   | _ \<Rightarrow> Inr 0)"

definition lpp_str_upper_fs :: "(int \<Rightarrow> bool) \<Rightarrow> cstr \<Rightarrow> cstr res" where
  "lpp_str_upper_fs oom s = (case s of None \<Rightarrow> lpp_alloc_1 oom
   | Some s \<Rightarrow> some_str (new_str_unchecked oom (int (length s) + 1)
       (copy_bytes 0 (map to_upper s) @ [(length s, [CHR 0x00])])))"

definition lpp_str_lower_fs :: "(int \<Rightarrow> bool) \<Rightarrow> cstr \<Rightarrow> cstr res" where
  "lpp_str_lower_fs oom s = (case s of None \<Rightarrow> lpp_alloc_1 oom
   | Some s \<Rightarrow> some_str (new_str_unchecked oom (int (length s) + 1)
       (copy_bytes 0 (map to_lower s) @ [(length s, [CHR 0x00])])))"

function skip_loop :: "string \<Rightarrow> nat \<Rightarrow> nat" where
  "skip_loop s start = (if start < length s \<and> is_space4 (s ! start) then skip_loop s (Suc start) else start)"
  by pat_completeness auto

termination skip_loop
  by (relation "measure (\<lambda>(s, start). length s - start)") auto

function back_loop :: "string \<Rightarrow> nat \<Rightarrow> nat \<Rightarrow> nat" where
  "back_loop s start e = (if e > start \<and> is_space4 (s ! (e - 1)) then back_loop s start (e - 1) else e)"
  by pat_completeness auto

termination back_loop
  by (relation "measure (\<lambda>(s, start, e). e)") auto

definition lpp_str_trim_fs :: "(int \<Rightarrow> bool) \<Rightarrow> cstr \<Rightarrow> cstr res" where
  "lpp_str_trim_fs oom s = (case s of None \<Rightarrow> lpp_alloc_1 oom
   | Some s \<Rightarrow> let start = skip_loop s 0; e = back_loop s start (length s); rlen = e - start
       in some_str (new_str_unchecked oom (int rlen + 1)
            (map (\<lambda>i. (i, [s ! (start + i)])) [0..<rlen] @ [(rlen, [CHR 0x00])])))"

function count_loop_fs :: "string \<Rightarrow> string \<Rightarrow> nat \<Rightarrow> nat res" where
  "count_loop_fs s old i = (if old \<noteq> [] \<and> i + length old \<le> length s
     then bind_res (match_loop s old i 0) (\<lambda>j.
       if j = length old then bind_res (count_loop_fs s old (i + length old)) (\<lambda>n. Inr (Suc n))
       else count_loop_fs s old (Suc i))
     else Inr 0)"
  by pat_completeness auto

termination count_loop_fs
  by (relation "measure (\<lambda>(s, _, i). Suc (length s) - i)") (auto simp: Suc_diff_le neq_Nil_conv)

function replace_loop_fs :: "string \<Rightarrow> string \<Rightarrow> string \<Rightarrow> string \<Rightarrow> nat \<Rightarrow> nat \<Rightarrow> string res" where
  "replace_loop_fs s old new_s out w i = (if i < length s \<and> old \<noteq> []
     then bind_res (if i + length old \<le> length s then match_loop s old i 0 else Inr 0) (\<lambda>j.
       if j = length old
       then bind_res (pokes out (copy_bytes w new_s)) (\<lambda>out. replace_loop_fs s old new_s out (w + length new_s) (i + length old))
       else bind_res (poke out w [s ! i]) (\<lambda>out. replace_loop_fs s old new_s out (Suc w) (Suc i)))
     else Inr out)"
  by pat_completeness auto

termination replace_loop_fs
  by (relation "measure (\<lambda>(s, _, _, _, _, i). length s - i)") (auto simp: neq_Nil_conv)

declare match_loop.simps [simp del] find_loop_fs.simps [simp del] starts_loop.simps [simp del] ends_loop.simps [simp del]
  skip_loop.simps [simp del] back_loop.simps [simp del] count_loop_fs.simps [simp del] replace_loop_fs.simps [simp del]

definition lpp_str_replace_fs :: "(int \<Rightarrow> bool) \<Rightarrow> cstr \<Rightarrow> cstr \<Rightarrow> cstr \<Rightarrow> cstr res" where
  "lpp_str_replace_fs oom s old nw = (case (s, old, nw) of
     (Some s, Some old, Some new_s) \<Rightarrow>
       if old = [] then some_str (new_str_unchecked oom (int (length s) + 1) (copy_bytes 0 (s @ [CHR 0x00])))
       else bind_res (count_loop_fs s old 0) (\<lambda>n.
         let cnt = int n; delta = int (length new_s) - int (length old)
         in if \<not> in_i64 (cnt * delta) then Inl (Fault ''signed overflow'')
            else if cnt > 0 \<and> delta > 0 \<and> int (length s) > INT64_MAX - cnt * delta then Inl (Exited 101)
            else let rlen = int (length s) + cnt * delta; rlen = (if rlen < 0 then 0 else rlen)
                 in case arc_block oom (rlen + 1) of None \<Rightarrow> Inl (Fault ''write through NULL'')
                    | Some out \<Rightarrow> bind_res (replace_loop_fs s old new_s out 0 0) (\<lambda>out.
                        bind_res (poke out (nat rlen) [CHR 0x00]) (\<lambda>out. some_str (c_string out))))
   | _ \<Rightarrow> lpp_alloc_1 oom)"

text \<open>\<open>do { buf[--i] = '0' + val % 10; val /= 10; } while (val)\<close>, on the magnitude.\<close>

fun itoa_loop :: "string \<Rightarrow> nat \<Rightarrow> nat \<Rightarrow> (string \<times> nat) res" where
  "itoa_loop buf 0 val = Inl (Fault ''write outside the block'')"
| "itoa_loop buf (Suc i) val = bind_res (poke buf i [digit_char (val mod 10)]) (\<lambda>buf.
     if val div 10 = 0 then Inr (buf, i) else itoa_loop buf i (val div 10))"

definition lpp_int_to_str_fs :: "(int \<Rightarrow> bool) \<Rightarrow> i64 \<Rightarrow> cstr res" where
  "lpp_int_to_str_fs oom val = (let neg = sint val < 0 in
     if sint val = INT64_MIN then Inl (Fault ''signed overflow'')
     else bind_res (itoa_loop (replicate 24 CHR 0x00) 23 (nat \<bar>sint val\<bar>)) (\<lambda>(buf, i).
       bind_res (if neg then (if i = 0 then Inl (Fault ''write outside the block'')
                              else bind_res (poke buf (i - 1) ''-'') (\<lambda>buf. Inr (buf, i - 1))) else Inr (buf, i)) (\<lambda>(buf, i).
         let len = 23 - i
         in some_str (new_str_unchecked oom (int len + 1) (copy_bytes 0 (take (len + 1) (drop i buf)))))))"

fun digits_loop :: "int \<Rightarrow> string \<Rightarrow> int res" where
  "digits_loop val [] = Inr val"
| "digits_loop val (c # s) = (if is_digit c
     then (if in_i64 (val * 10 + int (digit_val c)) then digits_loop (val * 10 + int (digit_val c)) s
           else Inl (Fault ''signed overflow''))
     else Inr val)"

definition lpp_str_to_int_fs :: "cstr \<Rightarrow> int res" where
  "lpp_str_to_int_fs s = (case s of None \<Rightarrow> Inr 0
   | Some s \<Rightarrow> (case dropWhile (\<lambda>c. c = CHR '' '' \<or> c = CHR 0x09) s of
       [] \<Rightarrow> Inr 0
     | c # r \<Rightarrow> if c = CHR ''-'' then bind_res (digits_loop 0 r) (\<lambda>v. Inr (- v))
                else if c = CHR ''+'' then digits_loop 0 r
                else digits_loop 0 (c # r)))"

fun cmp_loop :: "string \<Rightarrow> string \<Rightarrow> int" where
  "cmp_loop (c # a) (d # b) = (if c = d then cmp_loop a b else char_code c - char_code d)"
| "cmp_loop [] b = 0 - (case b of [] \<Rightarrow> 0 | d # _ \<Rightarrow> char_code d)"
| "cmp_loop (c # a) [] = char_code c - 0"

definition lpp_str_cmp_fs :: "cstr \<Rightarrow> cstr \<Rightarrow> int" where
  "lpp_str_cmp_fs a b = (case (a, b) of
     (None, None) \<Rightarrow> 0
   | (None, _) \<Rightarrow> - 1
   | (_, None) \<Rightarrow> 1
   | (Some x, Some y) \<Rightarrow> cmp_loop x y)"

section \<open>Block lemmas\<close>

lemma poke_append: "length bs \<le> length ys \<Longrightarrow> poke (xs @ ys) (length xs) bs = Inr (xs @ bs @ drop (length bs) ys)"
  by (simp add: poke_def)

lemma pokes_append: "pokes blk (ws @ vs) = bind_res (pokes blk ws) (\<lambda>b. pokes b vs)"
  by (induction ws arbitrary: blk) (auto simp: bind_res_assoc)

lemma pokes_copy: "off + length s \<le> length blk \<Longrightarrow> pokes blk (copy_bytes off s) = poke blk off s"
proof (induction s rule: rev_induct)
  case Nil
  then show ?case by (simp add: copy_bytes_def poke_def)
next
  case (snoc c s)
  have "copy_bytes off (s @ [c]) = copy_bytes off s @ [(off + length s, [c])]"
    by (auto simp: copy_bytes_def nth_append)
  then show ?case using snoc by (simp add: pokes_append poke_def drop_Cons' min_def)
qed

lemma indexed_copy: "st + n \<le> length s \<Longrightarrow> map (\<lambda>i. (i, [s ! (st + i)])) [0..<n] = copy_bytes 0 (take n (drop st s))"
  by (simp add: copy_bytes_def)

lemma mapped_copy: "map (\<lambda>i. (i, [f (s ! i)])) [0..<length s] = copy_bytes 0 (map f s)"
  by (simp add: copy_bytes_def)

lemma c_string_app [simp]: "nul_free s \<Longrightarrow> c_string (s @ CHR 0x00 # r) = Inr s"
  by (auto simp: c_string_def nul_free_def takeWhile_append)

text \<open>Copying a string to the front of a block of its size and terminating it.\<close>

lemma finish_str: "nul_free s \<Longrightarrow>
    bind_res (pokes (replicate (Suc (length s)) CHR 0x00) [(0, s), (length s, [CHR 0x00])]) c_string = Inr s"
proof -
  assume *: "nul_free s"
  have "poke (replicate (Suc (length s)) CHR 0x00) 0 s = Inr (s @ replicate 1 CHR 0x00)"
    using poke_append [of s "replicate (Suc (length s)) CHR 0x00" "[]"] unfolding drop_replicate by simp
  moreover have "poke (s @ replicate 1 CHR 0x00) (length s) [CHR 0x00] = Inr (s @ [CHR 0x00])"
    using poke_append [of "[CHR 0x00]" "[CHR 0x00]" s] by simp
  ultimately show ?thesis using * by (simp del: replicate_Suc)
qed

lemma finish_copy: "nul_free s \<Longrightarrow>
    bind_res (pokes (replicate (Suc (length s)) CHR 0x00) (copy_bytes 0 s @ [(length s, [CHR 0x00])])) c_string = Inr s"
  using finish_str [of s] by (simp add: pokes_append pokes_copy bind_res_assoc)

lemma finish_term: "nul_free s \<Longrightarrow> bind_res (pokes (replicate (Suc (length s)) CHR 0x00) [(0, s @ [CHR 0x00])]) c_string = Inr s"
  by (simp add: poke_def)

definition str_result :: "(int \<Rightarrow> bool) \<Rightarrow> string \<Rightarrow> string res" where
  "str_result oom s = Inr (if oom (int (length s) + 1) then [] else s)"

lemma new_str_str:
  assumes "nul_free s" "n = int (length s) + 1"
  shows "new_str oom n [(0, s), (length s, [CHR 0x00])] = str_result oom s"
    "new_str oom n [(0, s @ [CHR 0x00])] = str_result oom s"
    "\<not> oom n \<Longrightarrow> new_str_unchecked oom n (copy_bytes 0 s @ [(length s, [CHR 0x00])]) = Inr s"
proof -
  have n: "nat n = Suc (length s)" using assms(2) by simp
  show "new_str oom n [(0, s), (length s, [CHR 0x00])] = str_result oom s"
    using finish_str [OF assms(1)] by (simp add: new_str_def arc_block_def str_result_def n assms(2) nat_add_distrib)
  show "new_str oom n [(0, s @ [CHR 0x00])] = str_result oom s"
    using finish_term [OF assms(1)] by (simp add: new_str_def arc_block_def str_result_def n assms(2) nat_add_distrib)
  show "\<not> oom n \<Longrightarrow> new_str_unchecked oom n (copy_bytes 0 s @ [(length s, [CHR 0x00])]) = Inr s"
    using finish_copy [OF assms(1)] by (simp add: new_str_unchecked_def arc_block_def n)
qed

section \<open>Replacing\<close>

text \<open>What replacing means: from left to right, without overlaps.\<close>

function replace_all :: "string \<Rightarrow> string \<Rightarrow> string \<Rightarrow> string" where
  "replace_all old new_s s = (if old = [] \<or> s = [] then s
     else if take (length old) s = old then new_s @ replace_all old new_s (drop (length old) s)
     else hd s # replace_all old new_s (tl s))"
  by pat_completeness auto

termination replace_all
  by (relation "measure (\<lambda>(_, _, s). length s)") (auto simp: neq_Nil_conv)

declare replace_all.simps [simp del]

lemma strstr_short: "length h < length n \<Longrightarrow> strstr h n = None"
  using strstr_bound [of h n] by (cases "strstr h n") auto

lemma replace_all_strstr:
  assumes "old \<noteq> []"
  shows "strstr s old = None \<Longrightarrow> replace_all old new_s s = s"
    "strstr s old = Some i \<Longrightarrow> replace_all old new_s s = take i s @ new_s @ replace_all old new_s (drop (i + length old) s)"
proof -
  have "(strstr s old = None \<longrightarrow> replace_all old new_s s = s) \<and>
     (\<forall>i. strstr s old = Some i \<longrightarrow> replace_all old new_s s = take i s @ new_s @ replace_all old new_s (drop (i + length old) s))"
  proof (induction s)
    case Nil
    have "strstr [] old = None" using assms by (intro strstr_short) simp
    then show ?case by (simp add: replace_all.simps)
  next
    case (Cons c s)
    show ?case
    proof (cases "take (length old) (c # s) = old")
      case True
      then show ?thesis using assms by (simp add: strstr.simps [of "c # s"] replace_all.simps [of _ _ "c # s"])
    next
      case False
      then have "replace_all old new_s (c # s) = c # replace_all old new_s s" "strstr (c # s) old = map_option Suc (strstr s old)"
        using assms by (simp_all add: strstr.simps [of "c # s"] replace_all.simps [of _ _ "c # s"])
      then show ?thesis using Cons by auto
    qed
  qed
  then show "strstr s old = None \<Longrightarrow> replace_all old new_s s = s"
    "strstr s old = Some i \<Longrightarrow> replace_all old new_s s = take i s @ new_s @ replace_all old new_s (drop (i + length old) s)" by auto
qed

lemma length_replace_all:
  assumes "old \<noteq> []"
  shows "int (length (replace_all old new_s s)) = int (length s) + int (count_loop old s) * (int (length new_s) - int (length old))"
proof (induction "length s" arbitrary: s rule: less_induct)
  case less
  show ?case
  proof (cases "strstr s old")
    case None
    then show ?thesis using assms by (simp add: replace_all_strstr count_loop.simps [of old s])
  next
    case (Some i)
    note b = strstr_bound [OF Some]
    have "length (drop (i + length old) s) < length s" using b assms by (simp add: neq_Nil_conv) fastforce
    note less [OF this]
    moreover have "count_loop old s = Suc (count_loop old (drop (i + length old) s))"
      using assms Some by (simp add: count_loop.simps [of old s])
    ultimately show ?thesis using b replace_all_strstr(2) [OF assms Some]
      by (simp add: algebra_simps of_nat_diff)
  qed
qed

lemma nul_free_take_drop: "nul_free s \<Longrightarrow> nul_free (take n s)" "nul_free s \<Longrightarrow> nul_free (drop n s)"
  by (auto simp: nul_free_def dest: in_set_takeD in_set_dropD)

lemma nul_free_replace_all: "nul_free s \<Longrightarrow> nul_free new_s \<Longrightarrow> nul_free (replace_all old new_s s)"
proof (induction old new_s s rule: replace_all.induct)
  case (1 old new_s s)
  then show ?case
    by (subst replace_all.simps) (cases s; auto simp: nul_free_take_drop)
qed

lemma replace_loop_ok:
  assumes "old \<noteq> []" "length (replace_all old new_s src) < k" "dst = length pre"
  shows "replace_loop old new_s (pre @ replicate k CHR 0x00) dst src =
    Inr (pre @ replace_all old new_s src @ replicate (k - length (replace_all old new_s src)) CHR 0x00)"
  using assms(2,3)
proof (induction "length src" arbitrary: src pre k dst rule: less_induct)
  case less
  show ?case
  proof (cases "src = []")
    case True
    then show ?thesis by (simp add: replace_loop.simps [of _ _ _ _ "[]"] replace_all.simps [of _ _ "[]"])
  next
    case src: False
    show ?thesis
    proof (cases "strstr src old")
      case None
      then have r: "replace_all old new_s src = src" using assms(1) by (simp add: replace_all_strstr)
      have "replace_loop old new_s (pre @ replicate k CHR 0x00) dst src = poke (pre @ replicate k CHR 0x00) dst (src @ [CHR 0x00])"
        using src assms(1) None by (simp add: replace_loop.simps [of _ _ _ _ src])
      also have "\<dots> = Inr (pre @ (src @ [CHR 0x00]) @ replicate (k - Suc (length src)) CHR 0x00)"
        using less(2,3) r poke_append [of "src @ [CHR 0x00]" "replicate k CHR 0x00" pre] by simp
      finally have e: "replace_loop old new_s (pre @ replicate k CHR 0x00) dst src = \<dots>" .
      have "CHR 0x00 # replicate (k - Suc (length src)) CHR 0x00 = replicate (k - length src) CHR 0x00"
        using less(2) r by (metis Suc_diff_Suc replicate_Suc)
      then show ?thesis unfolding r e by (simp only: append_assoc append_Cons append_Nil)
    next
      case (Some i)
      note b = strstr_bound [OF Some]
      let ?d = "drop (i + length old) src"
      let ?r = "replace_all old new_s ?d"
      have r: "replace_all old new_s src = take i src @ new_s @ ?r" by (rule replace_all_strstr(2) [OF assms(1) Some])
      then have k: "i + length new_s + length ?r < k" using less(2) b by simp
      have mi: "min (length src) i = i" using b by simp
      have "length ?d < length src" using b assms(1) src by (cases old) auto
      note IH = less(1) [OF this, of "k - i - length new_s" "dst + i + length new_s" "pre @ take i src @ new_s"]
      have "poke (pre @ replicate k CHR 0x00) dst (take i src) = Inr (pre @ take i src @ replicate (k - i) CHR 0x00)"
        using poke_append [of "take i src" "replicate k CHR 0x00" pre] k mi less(3) by simp
      moreover have "poke (pre @ take i src @ replicate (k - i) CHR 0x00) (dst + i) new_s =
          Inr (pre @ take i src @ new_s @ replicate (k - i - length new_s) CHR 0x00)"
        using poke_append [of new_s "replicate (k - i) CHR 0x00" "pre @ take i src"] k mi less(3) by simp
      ultimately have "replace_loop old new_s (pre @ replicate k CHR 0x00) dst src =
          replace_loop old new_s ((pre @ take i src @ new_s) @ replicate (k - i - length new_s) CHR 0x00) (dst + i + length new_s) ?d"
        using src assms(1) Some by (simp add: replace_loop.simps [of _ _ _ _ src])
      also have "\<dots> = Inr ((pre @ take i src @ new_s) @ ?r @ replicate (k - i - length new_s - length ?r) CHR 0x00)"
        using IH k mi less(3) by simp
      finally show ?thesis unfolding r using mi by simp
    qed
  qed
qed

section \<open>Index loops of the freestanding builtins\<close>

lemma match_loop_gen:
  assumes "i + length pat \<le> length s"
  shows "j \<le> length pat \<Longrightarrow> \<exists>m. match_loop s pat i j = Inr m \<and> (m = length pat \<longleftrightarrow> take (length pat - j) (drop (i + j) s) = drop j pat)"
proof (induction "length pat - j" arbitrary: j)
  case 0
  then show ?case by (simp add: match_loop.simps)
next
  case (Suc n)
  then have j: "j < length pat" by simp
  have p: "peek s (i + j) = Inr (s ! (i + j))" using assms j by (simp add: peek_def)
  have d: "drop j pat = pat ! j # drop (Suc j) pat" "drop (i + j) s = s ! (i + j) # drop (i + Suc j) s"
    using j assms by (simp_all add: Cons_nth_drop_Suc)
  have t: "length pat - j = Suc (length pat - Suc j)" using j by simp
  show ?case
  proof (cases "s ! (i + j) = pat ! j")
    case True
    then have "match_loop s pat i j = match_loop s pat i (Suc j)" using j p by (simp add: match_loop.simps [of _ _ _ j])
    then show ?thesis using Suc(1) [of "Suc j"] Suc(2) j True d t by simp
  next
    case False
    then have "match_loop s pat i j = Inr j" using j p by (simp add: match_loop.simps [of _ _ _ j])
    then show ?thesis using j False d t by simp
  qed
qed

lemma match_loop_eq:
  assumes "i + length pat \<le> length s"
  obtains m where "match_loop s pat i 0 = Inr m" "m = length pat \<longleftrightarrow> take (length pat) (drop i s) = pat"
  using match_loop_gen [OF assms, of 0] by auto

lemma strstr_Cons: "take (length n) (c # t) \<noteq> n \<Longrightarrow> strstr (c # t) n = map_option Suc (strstr t n)"
  by (subst strstr.simps) simp

lemma find_loop_fs_eq:
  "i \<le> length h \<Longrightarrow> find_loop_fs h n i = Inr (case strstr (drop i h) n of None \<Rightarrow> - 1 | Some k \<Rightarrow> int (i + k))"
proof (induction "Suc (length h) - i" arbitrary: i rule: less_induct)
  case less
  show ?case
  proof (cases "i + length n \<le> length h")
    case False
    then have "strstr (drop i h) n = None" using less(2) by (intro strstr_short) simp
    then show ?thesis using False by (simp add: find_loop_fs.simps)
  next
    case True
    obtain m where m: "match_loop h n i 0 = Inr m" "m = length n \<longleftrightarrow> take (length n) (drop i h) = n"
      using match_loop_eq [OF True] .
    show ?thesis
    proof (cases "take (length n) (drop i h) = n")
      case eq: True
      then show ?thesis using m True by (simp add: find_loop_fs.simps [of _ _ i] strstr.simps [of "drop i h"])
    next
      case neq: False
      have "i < length h" using neq True less(2) by (cases "i = length h") auto
      then have "drop i h = h ! i # drop (Suc i) h" by (simp add: Cons_nth_drop_Suc)
      then have "strstr (drop i h) n = map_option Suc (strstr (drop (Suc i) h) n)"
        using neq by (simp add: strstr_Cons)
      moreover have "find_loop_fs h n i = find_loop_fs h n (Suc i)" using neq m True by (simp add: find_loop_fs.simps [of _ _ i])
      ultimately show ?thesis using less(1) [of "Suc i"] \<open>i < length h\<close> by (simp split: option.splits)
    qed
  qed
qed

lemma count_step:
  assumes "old \<noteq> []"
  shows "count_loop old s = (if length s < length old then 0
    else if take (length old) s = old then Suc (count_loop old (drop (length old) s)) else count_loop old (tl s))"
proof (cases s)
  case Nil
  then have "strstr s old = None" using assms by (intro strstr_short) simp
  then show ?thesis using assms Nil by (simp add: count_loop.simps)
next
  case (Cons c t)
  consider "length s < length old" | "take (length old) s = old" | "\<not> length s < length old" "take (length old) s \<noteq> old" by blast
  then show ?thesis
  proof cases
    case 1
    then show ?thesis by (simp add: count_loop.simps [of old s] strstr_short)
  next
    case 2
    then have "strstr s old = Some 0" by (simp add: strstr.simps [of s])
    moreover have "\<not> length s < length old" using 2 by (metis length_take min.cobounded1 not_less)
    ultimately show ?thesis using 2 assms by (simp add: count_loop.simps [of old s])
  next
    case 3
    then have "strstr s old = map_option Suc (strstr t old)" using Cons by (simp add: strstr_Cons)
    then show ?thesis using 3 assms Cons by (simp add: count_loop.simps [of old "c # t"] count_loop.simps [of old t] split: option.splits)
  qed
qed

lemma count_loop_fs_eq: "old \<noteq> [] \<Longrightarrow> i \<le> length s \<Longrightarrow> count_loop_fs s old i = Inr (count_loop old (drop i s))"
proof (induction "Suc (length s) - i" arbitrary: i rule: less_induct)
  case less
  show ?case
  proof (cases "i + length old \<le> length s")
    case False
    then show ?thesis using less(2,3) by (simp add: count_loop_fs.simps [of _ _ i] count_step)
  next
    case True
    obtain m where m: "match_loop s old i 0 = Inr m" "m = length old \<longleftrightarrow> take (length old) (drop i s) = old"
      using match_loop_eq [OF True] .
    have l: "0 < length old" using less(2) by simp
    show ?thesis
    proof (cases "take (length old) (drop i s) = old")
      case eq: True
      then have "count_loop_fs s old i = bind_res (count_loop_fs s old (i + length old)) (\<lambda>n. Inr (Suc n))"
        using m True less(2) by (simp add: count_loop_fs.simps [of _ _ i])
      moreover have "count_loop_fs s old (i + length old) = Inr (count_loop old (drop (i + length old) s))"
        using True l less(2,3) by (intro less(1)) (simp_all del: length_greater_0_conv)
      ultimately show ?thesis using eq True less(2) by (simp add: count_step [of old "drop i s"] add.commute)
    next
      case neq: False
      then have "count_loop_fs s old i = count_loop_fs s old (Suc i)"
        using m True less(2) by (simp add: count_loop_fs.simps [of _ _ i])
      also have "\<dots> = Inr (count_loop old (drop (Suc i) s))" using True l less(2) by (intro less(1)) (simp_all del: length_greater_0_conv)
      finally have c: "count_loop_fs s old i = Inr (count_loop old (tl (drop i s)))" by (simp add: drop_Suc tl_drop)
      have "\<not> length (drop i s) < length old" using True by simp
      then show ?thesis unfolding c using neq less(2) by (subst count_step) simp_all
    qed
  qed
qed

lemma replace_loop_fs_ok:
  assumes "old \<noteq> []"
  shows "i \<le> length s \<Longrightarrow> length (replace_all old new_s (drop i s)) \<le> k \<Longrightarrow> w = length pre \<Longrightarrow>
    replace_loop_fs s old new_s (pre @ replicate k CHR 0x00) w i =
    Inr (pre @ replace_all old new_s (drop i s) @ replicate (k - length (replace_all old new_s (drop i s))) CHR 0x00)"
proof (induction "length s - i" arbitrary: i pre k w rule: less_induct)
  case less
  show ?case
  proof (cases "i = length s")
    case True
    then show ?thesis by (simp add: replace_loop_fs.simps [of _ _ _ _ _ "length s"] replace_all.simps [of _ _ "[]"])
  next
    case False
    then have i: "i < length s" using less(2) by simp
    have d: "drop i s = s ! i # drop (Suc i) s" using i by (simp add: Cons_nth_drop_Suc)
    have l: "0 < length old" using assms by simp
    obtain m where m: "(if i + length old \<le> length s then match_loop s old i 0 else Inr 0) = Inr m"
      "m = length old \<longleftrightarrow> take (length old) (drop i s) = old"
    proof (cases "i + length old \<le> length s")
      case True
      then show ?thesis using match_loop_eq [OF True] that by metis
    next
      case f: False
      then have "length (take (length old) (drop i s)) < length old" using i by (simp add: min_def)
      then show ?thesis using that [of 0] f l by fastforce
    qed
    show ?thesis
    proof (cases "take (length old) (drop i s) = old")
      case True
      let ?r = "replace_all old new_s (drop (i + length old) s)"
      have r: "replace_all old new_s (drop i s) = new_s @ ?r"
        using True assms i by (simp add: replace_all.simps [of _ _ "drop i s"] add.commute)
      have b: "i + length old \<le> length s" using True i by (metis le_diff_conv2 add.commute length_drop length_take less_imp_le min.cobounded1)
      have "replace_loop_fs s old new_s (pre @ replicate k CHR 0x00) w i =
          bind_res (pokes (pre @ replicate k CHR 0x00) (copy_bytes w new_s)) (\<lambda>out. replace_loop_fs s old new_s out (w + length new_s) (i + length old))"
        using i assms m True by (simp add: replace_loop_fs.simps [of _ _ _ _ _ i])
      also have "\<dots> = replace_loop_fs s old new_s ((pre @ new_s) @ replicate (k - length new_s) CHR 0x00) (w + length new_s) (i + length old)"
        using less(3,4) r poke_append [of new_s "replicate k CHR 0x00" pre] by (simp add: pokes_copy)
      also have "\<dots> = Inr ((pre @ new_s) @ ?r @ replicate (k - length new_s - length ?r) CHR 0x00)"
        using b l i less(3,4) r by (intro less(1)) (auto simp del: length_greater_0_conv)
      finally show ?thesis unfolding r by simp
    next
      case neq: False
      let ?r = "replace_all old new_s (drop (Suc i) s)"
      have r: "replace_all old new_s (drop i s) = s ! i # ?r"
        using neq assms unfolding d by (subst replace_all.simps) simp
      then have k: "Suc (length ?r) \<le> k" using less(3) by simp
      have "replace_loop_fs s old new_s (pre @ replicate k CHR 0x00) w i =
          bind_res (poke (pre @ replicate k CHR 0x00) w [s ! i]) (\<lambda>out. replace_loop_fs s old new_s out (Suc w) (Suc i))"
        using i assms m neq by (simp add: replace_loop_fs.simps [of _ _ _ _ _ i])
      also have "\<dots> = replace_loop_fs s old new_s ((pre @ [s ! i]) @ replicate (k - 1) CHR 0x00) (Suc w) (Suc i)"
        using k less(4) poke_append [of "[s ! i]" "replicate k CHR 0x00" pre] by simp
      also have "\<dots> = Inr ((pre @ [s ! i]) @ ?r @ replicate (k - 1 - length ?r) CHR 0x00)"
        using k i less(4) by (intro less(1)) auto
      finally show ?thesis unfolding r by simp
    qed
  qed
qed

section \<open>Comparing and trimming\<close>

lemma starts_loop_eq:
  assumes "nul_free p"
  shows "i \<le> length s \<Longrightarrow> starts_loop s p i = Inr (if take (length p - i) (drop i s) = drop i p then 1 else 0)"
proof (induction "length p - i" arbitrary: i)
  case 0
  then show ?case by (simp add: starts_loop.simps)
next
  case (Suc n)
  then have i: "i < length p" by simp
  have d: "drop i p = p ! i # drop (Suc i) p" using i by (simp add: Cons_nth_drop_Suc)
  have t: "length p - i = Suc (length p - Suc i)" using i by simp
  have nz: "p ! i \<noteq> CHR 0x00" using assms i nth_mem [of i p] unfolding nul_free_def by metis
  show ?case
  proof (cases "i = length s")
    case True
    then have "starts_loop s p i = Inr 0" using i by (subst starts_loop.simps) (simp add: peek_def)
    then show ?thesis using True d by simp
  next
    case False
    then have l: "i < length s" using Suc(3) by simp
    then have ds: "drop i s = s ! i # drop (Suc i) s" by (simp add: Cons_nth_drop_Suc)
    have st: "starts_loop s p i = (if s ! i = p ! i then starts_loop s p (Suc i) else Inr 0)"
      using i l nz by (simp add: starts_loop.simps [of _ _ i] peek_def)
    show ?thesis using Suc(1) [of "Suc i"] Suc(2) l unfolding st d ds t by simp
  qed
qed

lemma ends_loop_eq:
  assumes "length x \<le> length s"
  shows "i \<le> length x \<Longrightarrow> ends_loop s x i = Inr (if drop (length s - length x + i) s = drop i x then 1 else 0)"
proof (induction "length x - i" arbitrary: i)
  case 0
  then show ?case using assms by (simp add: ends_loop.simps)
next
  case (Suc n)
  then have i: "i < length x" by simp
  let ?k = "length s - length x + i"
  have k: "?k < length s" using i assms by simp
  have d: "drop i x = x ! i # drop (Suc i) x" "drop ?k s = s ! ?k # drop (Suc ?k) s"
    using i k by (simp_all add: Cons_nth_drop_Suc)
  have st: "ends_loop s x i = (if s ! ?k = x ! i then ends_loop s x (Suc i) else Inr 0)"
    using i k by (simp add: ends_loop.simps [of _ _ i] peek_def)
  show ?case using Suc(1) [of "Suc i"] Suc(2) i unfolding st d by simp
qed

lemma char_code_0: "char_code c = 0 \<longleftrightarrow> c = CHR 0x00"
proof -
  have "(of_char c :: nat) = of_char CHR 0x00 \<longleftrightarrow> c = CHR 0x00" by (rule of_char_eq_iff)
  then show ?thesis by (simp add: char_code_def)
qed

lemma strcmp_0_iff: "nul_free a \<Longrightarrow> nul_free b \<Longrightarrow> strcmp a b = 0 \<longleftrightarrow> a = b"
  by (induction a b rule: strcmp.induct) (auto simp: char_code_0, auto simp: char_code_def)

lemma cmp_loop_eq: "cmp_loop a b = strcmp a b"
  by (induction a b rule: strcmp.induct) auto

lemma skip_loop_eq: "skip_loop s i = i + length (takeWhile is_space4 (drop i s))"
proof (induction "length s - i" arbitrary: i)
  case 0
  then show ?case by (simp add: skip_loop.simps)
next
  case (Suc n)
  then have "drop i s = s ! i # drop (Suc i) s" by (simp add: Cons_nth_drop_Suc)
  then show ?case using Suc(1) [of "Suc i"] Suc(2) by (simp add: skip_loop.simps [of _ i])
qed

lemma back_loop_eq: "st + e \<le> length s \<Longrightarrow> back_loop s st (st + e) = st + trim_end (drop st s) e"
proof (induction e)
  case 0
  then show ?case by (simp add: back_loop.simps)
next
  case (Suc e)
  then show ?case by (simp add: back_loop.simps [of _ _ "Suc (st + e)"])
qed

lemma trim_end_le: "trim_end s e \<le> e"
  by (induction e) auto

lemma dropWhile_drop: "dropWhile P s = drop (length (takeWhile P s)) s"
  by (metis append_eq_conv_conj takeWhile_dropWhile_id)

lemma trim_range:
  fixes s defines "st \<equiv> skip_loop s 0" defines "len \<equiv> trim_end (dropWhile is_space4 s) (length (dropWhile is_space4 s))"
  shows "dropWhile is_space4 s = drop st s" "back_loop s st (length s) = st + len" "st + len \<le> length s"
proof -
  have st: "st = length (takeWhile is_space4 s)" by (simp add: st_def skip_loop_eq)
  show d: "dropWhile is_space4 s = drop st s" by (simp add: st dropWhile_drop)
  have "st \<le> length s" by (simp add: st length_takeWhile_le)
  then show "back_loop s st (length s) = st + len" using back_loop_eq [of st "length s - st" s] d by (simp add: len_def)
  show "st + len \<le> length s" using trim_end_le [of "drop st s" "length s - st"] \<open>st \<le> length s\<close> d by (simp add: len_def)
qed

lemma pokes_repeat:
  assumes "n * length s \<le> B"
  shows "pokes (replicate B CHR 0x00) (map (\<lambda>i. (i * length s, s)) [0..<n]) =
      Inr (concat (replicate n s) @ replicate (B - n * length s) CHR 0x00)"
    "pokes (replicate B CHR 0x00) (concat (map (\<lambda>i. copy_bytes (i * length s) s) [0..<n])) =
      Inr (concat (replicate n s) @ replicate (B - n * length s) CHR 0x00)"
proof -
  have l: "length (concat (replicate k s)) = k * length s" for k by (induction k) auto
  have c: "concat (replicate (Suc k) s) = concat (replicate k s) @ s" for k by (induction k) auto
  have "pokes (replicate B CHR 0x00) (map (\<lambda>i. (i * length s, s)) [0..<n]) =
      Inr (concat (replicate n s) @ replicate (B - n * length s) CHR 0x00) \<and>
    pokes (replicate B CHR 0x00) (concat (map (\<lambda>i. copy_bytes (i * length s) s) [0..<n])) =
      Inr (concat (replicate n s) @ replicate (B - n * length s) CHR 0x00)"
    using assms
  proof (induction n)
    case (Suc n)
    have p: "poke (concat (replicate n s) @ replicate (B - n * length s) CHR 0x00) (n * length s) s =
        Inr (concat (replicate (Suc n) s) @ replicate (B - Suc n * length s) CHR 0x00)"
      using poke_append [of s "replicate (B - n * length s) CHR 0x00" "concat (replicate n s)"] Suc(2)
      unfolding l c by (simp add: algebra_simps)
    show ?case using Suc p by (simp add: pokes_append pokes_copy l del: replicate_Suc)
  qed simp
  then show "pokes (replicate B CHR 0x00) (map (\<lambda>i. (i * length s, s)) [0..<n]) =
      Inr (concat (replicate n s) @ replicate (B - n * length s) CHR 0x00)"
    "pokes (replicate B CHR 0x00) (concat (map (\<lambda>i. copy_bytes (i * length s) s) [0..<n])) =
      Inr (concat (replicate n s) @ replicate (B - n * length s) CHR 0x00)" by blast+
qed

lemma nul_free_repeat: "nul_free s \<Longrightarrow> nul_free (concat (replicate n s))"
  by (induction n) auto

lemma finish_repeat:
  assumes "nul_free s"
  shows "bind_res (pokes (replicate (Suc (n * length s)) CHR 0x00)
      (map (\<lambda>i. (i * length s, s)) [0..<n] @ [(n * length s, [CHR 0x00])])) c_string = Inr (concat (replicate n s))"
    "bind_res (pokes (replicate (Suc (n * length s)) CHR 0x00)
      (concat (map (\<lambda>i. copy_bytes (i * length s) s) [0..<n]) @ [(n * length s, [CHR 0x00])])) c_string = Inr (concat (replicate n s))"
proof -
  have l: "length (concat (replicate n s)) = n * length s" by (induction n) auto
  have replicate_one: "replicate (Suc 0) CHR 0x00 = [CHR 0x00]" by simp
  have "poke (concat (replicate n s) @ [CHR 0x00]) (n * length s) [CHR 0x00] = Inr (concat (replicate n s) @ [CHR 0x00])"
    using poke_append [of "[CHR 0x00]" "[CHR 0x00]" "concat (replicate n s)"] unfolding l by simp
  then show "bind_res (pokes (replicate (Suc (n * length s)) CHR 0x00)
      (map (\<lambda>i. (i * length s, s)) [0..<n] @ [(n * length s, [CHR 0x00])])) c_string = Inr (concat (replicate n s))"
    "bind_res (pokes (replicate (Suc (n * length s)) CHR 0x00)
      (concat (map (\<lambda>i. copy_bytes (i * length s) s) [0..<n]) @ [(n * length s, [CHR 0x00])])) c_string = Inr (concat (replicate n s))"
    using nul_free_repeat [OF assms, of n] replicate_one
    by (simp_all add: pokes_append pokes_repeat del: replicate_Suc)
qed

section \<open>Numbers as text\<close>

lemma itoa_loop_ok:
  "length (print_base 10 val) \<le> i \<Longrightarrow> itoa_loop (replicate i CHR 0x00 @ rest) i val =
    Inr (replicate (i - length (print_base 10 val)) CHR 0x00 @ print_base 10 val @ rest, i - length (print_base 10 val))"
proof (induction i arbitrary: val rest)
  case 0
  then show ?case using print_base_nonempty [of 10 val] by simp
next
  case (Suc i)
  have p: "poke (replicate (Suc i) CHR 0x00 @ rest) i [digit_char (val mod 10)] =
      Inr (replicate i CHR 0x00 @ digit_char (val mod 10) # rest)"
    using poke_append [of "[digit_char (val mod 10)]" "CHR 0x00 # rest" "replicate i CHR 0x00"]
    by (simp add: replicate_append_same [symmetric] del: replicate_append_same)
  show ?case
  proof (cases "val < 10")
    case True
    then have b: "print_base 10 val = [digit_char val]" by (simp add: print_base.simps)
    show ?thesis unfolding b itoa_loop.simps(2) p using True by simp
  next
    case False
    then have b: "print_base 10 val = print_base 10 (val div 10) @ [digit_char (val mod 10)]"
      by (subst print_base.simps) simp
    have "length (print_base 10 (val div 10)) \<le> i" using Suc(2) b by simp
    note IH = Suc(1) [OF this, of "digit_char (val mod 10) # rest"]
    show ?thesis unfolding b itoa_loop.simps(2) p using False IH by (simp add: div_eq_0_iff)
  qed
qed

lemma foldl_digits: "foldl (\<lambda>v c. v * 10 + int (digit_val c)) 0 (print_base 10 n) = int n"
proof (induction "10 :: nat" n rule: print_base.induct)
  case (1 n)
  show ?case
  proof (cases "n < 10")
    case True
    then show ?thesis by (simp add: print_base.simps)
  next
    case False
    then show ?thesis using 1 by (subst print_base.simps) (simp, presburger)
  qed
qed

lemma takeWhile_print_base: "takeWhile is_digit (print_base 10 n) = print_base 10 n"
  using print_base_10_digits by (simp add: takeWhile_eq_all_conv)

lemma digits_val_print_base: "digits_val (print_base 10 n) = int n"
  by (simp add: digits_val_def takeWhile_print_base foldl_digits)

lemma digit_not_special: "is_digit c \<Longrightarrow> c \<noteq> CHR ''-'' \<and> c \<noteq> CHR ''+'' \<and> \<not> is_c_space c \<and> c \<noteq> CHR '' '' \<and> c \<noteq> CHR 0x09 \<and> c \<noteq> CHR 0x00"
  by (auto simp: is_digit_def is_c_space_def char_code_def)

lemma print_base_hd: "\<exists>c r. print_base 10 n = c # r \<and> is_digit c"
  using print_base_nonempty [of 10 n] print_base_10_digits [of _ n] by (cases "print_base 10 n") auto

lemma nul_free_print_int: "nul_free (print_int v)"
  using print_base_10_digits digit_not_special by (fastforce simp: print_int_def nul_free_def)

lemma strtoll_print_int: "in_i64 v \<Longrightarrow> strtoll (print_int v) = v"
proof -
  assume v: "in_i64 v"
  have sp: "\<not> is_c_space CHR ''-''" by (simp add: is_c_space_def char_code_def)
  obtain c r where p: "print_base 10 (nat v) = c # r" "is_digit c" using print_base_hd by blast
  note d = digit_not_special [OF p(2)]
  show ?thesis
  proof (cases "v < 0")
    case True
    then show ?thesis using v sp by (simp add: strtoll_def print_int_def digits_val_print_base clamp_i64_def in_i64_def)
  next
    case False
    then have "digits_val (c # r) = v" using digits_val_print_base [of "nat v"] p(1) by simp
    then show ?thesis using v d False p(1) by (simp add: strtoll_def print_int_def clamp_i64_def in_i64_def)
  qed
qed

lemma foldl_digits_mono: "0 \<le> v \<Longrightarrow> v \<le> foldl (\<lambda>v c. v * 10 + int (digit_val c)) v s"
proof (induction s arbitrary: v)
  case (Cons c s)
  have "v \<le> v * 10 + int (digit_val c)" using Cons(2) by simp
  also have "\<dots> \<le> foldl (\<lambda>v c. v * 10 + int (digit_val c)) (v * 10 + int (digit_val c)) s" using Cons by simp
  finally show ?case by simp
qed simp

lemma digits_loop_ok: "0 \<le> v \<Longrightarrow> foldl (\<lambda>v c. v * 10 + int (digit_val c)) v (takeWhile is_digit s) \<le> INT64_MAX \<Longrightarrow>
    digits_loop v s = Inr (foldl (\<lambda>v c. v * 10 + int (digit_val c)) v (takeWhile is_digit s))"
proof (induction s arbitrary: v)
  case (Cons c s)
  show ?case
  proof (cases "is_digit c")
    case True
    have "v * 10 + int (digit_val c) \<le> INT64_MAX"
      using foldl_digits_mono [of "v * 10 + int (digit_val c)" "takeWhile is_digit s"] Cons(2,3) True by simp
    then have "in_i64 (v * 10 + int (digit_val c))" using Cons(2) by (simp add: in_i64_def INT64_MIN_def)
    then show ?thesis using Cons True by simp
  qed simp
qed simp

lemma str_to_int_fs_print_int: "in_i64 v \<Longrightarrow> v \<noteq> INT64_MIN \<Longrightarrow> lpp_str_to_int_fs (Some (print_int v)) = Inr v"
proof -
  assume v: "in_i64 v" "v \<noteq> INT64_MIN"
  obtain c r where p: "print_base 10 (nat v) = c # r" "is_digit c" using print_base_hd by blast
  note d = digit_not_special [OF p(2)]
  have dl: "digits_loop 0 (print_base 10 n) = Inr (int n)" if "int n \<le> INT64_MAX" for n
    using digits_loop_ok [of 0 "print_base 10 n"] that by (simp add: takeWhile_print_base foldl_digits)
  show ?thesis
  proof (cases "v < 0")
    case True
    then have "digits_loop 0 (print_base 10 (nat (- v))) = Inr (- v)" using dl [of "nat (- v)"] v
      by (simp add: in_i64_def INT64_MIN_def INT64_MAX_def)
    then show ?thesis using True by (simp add: lpp_str_to_int_fs_def print_int_def)
  next
    case False
    then have "digits_loop 0 (c # r) = Inr v" using dl [of "nat v"] v p(1) by (simp add: in_i64_def)
    then show ?thesis using False d p(1) by (simp add: lpp_str_to_int_fs_def print_int_def)
  qed
qed

lemma length_print_int: "in_i64 v \<Longrightarrow> length (print_base 10 (nat \<bar>v\<bar>)) \<le> 19"
proof -
  assume "in_i64 v"
  then have "nat \<bar>v\<bar> < 10 ^ Suc 18" by (auto simp: in_i64_def INT64_MAX_def INT64_MIN_def)
  then show ?thesis using length_print_base [of 10 "nat \<bar>v\<bar>" 18] by simp
qed

lemma int_to_str_fs_ok:
  assumes "sint val \<noteq> INT64_MIN" "\<And>n. \<not> oom n"
  shows "lpp_int_to_str_fs oom val = Inr (Some (print_int (sint val)))"
proof -
  let ?p = "print_base 10 (nat \<bar>sint val\<bar>)" and ?k = "23 - length (print_base 10 (nat \<bar>sint val\<bar>))"
  have l: "length ?p \<le> 19" by (rule length_print_int) simp
  have b: "replicate 24 CHR 0x00 = replicate 23 CHR 0x00 @ [CHR 0x00]" by (simp add: eval_nat_numeral)
  have it: "itoa_loop (replicate 24 CHR 0x00) 23 (nat \<bar>sint val\<bar>) = Inr (replicate ?k CHR 0x00 @ ?p @ [CHR 0x00], ?k)"
    unfolding b using l by (intro itoa_loop_ok) simp
  have fin: "new_str_unchecked oom (int (length t) + 1) (copy_bytes 0 (t @ [CHR 0x00])) = Inr t" if "nul_free t" for t
    using finish_term [OF that] assms(2) by (simp add: new_str_unchecked_def arc_block_def pokes_copy nat_add_distrib)
  have nf: "nul_free (print_int (sint val))" by (rule nul_free_print_int)
  show ?thesis
  proof (cases "sint val < 0")
    case True
    have "poke (replicate ?k CHR 0x00 @ ?p @ [CHR 0x00]) (?k - 1) ''-'' = Inr (replicate (?k - 1) CHR 0x00 @ ''-'' @ ?p @ [CHR 0x00])"
    proof -
      have "?k = Suc (?k - 1)" using l by simp
      then have "replicate ?k CHR 0x00 = replicate (?k - 1) CHR 0x00 @ [CHR 0x00]" by (metis replicate_Suc replicate_append_same)
      then show ?thesis using poke_append [of "''-''" "CHR 0x00 # ?p @ [CHR 0x00]" "replicate (?k - 1) CHR 0x00"] by simp
    qed
    moreover have "?k \<noteq> 0" "23 - (?k - 1) = Suc (length ?p)" using l by auto
    moreover have "print_int (sint val) = CHR ''-'' # ?p" using True by (simp add: print_int_def)
    ultimately show ?thesis using True assms(1) it fin [OF nf] by (simp add: lpp_int_to_str_fs_def some_str_def)
  next
    case False
    moreover have "23 - ?k = length ?p" using l by auto
    moreover have "print_int (sint val) = ?p" using False by (simp add: print_int_def)
    ultimately show ?thesis using False assms(1) it fin [OF nf] by (simp add: lpp_int_to_str_fs_def some_str_def)
  qed
qed

section \<open>Splitting, powers, random numbers\<close>

fun join :: "char \<Rightarrow> string list \<Rightarrow> string" where
  "join ch [] = []"
| "join ch [p] = p"
| "join ch (p # q # r) = p @ ch # join ch (q # r)"

lemma split_loop_nonempty: "split_loop (\<lambda>n. False) ch cur s \<noteq> []"
  by (induction s arbitrary: cur) (auto simp: split_piece_def)

lemma split_loop_ok:
  "ch \<notin> set cur \<Longrightarrow> join ch (split_loop (\<lambda>n. False) ch cur s) = cur @ s \<and>
    length (split_loop (\<lambda>n. False) ch cur s) = Suc (count_list s ch) \<and> (\<forall>p \<in> set (split_loop (\<lambda>n. False) ch cur s). ch \<notin> set p)"
proof (induction s arbitrary: cur)
  case Nil
  then show ?case by (simp add: split_piece_def)
next
  case (Cons c s)
  show ?case
  proof (cases "c = ch")
    case True
    have "split_loop (\<lambda>n. False) ch [] s \<noteq> []" by (rule split_loop_nonempty)
    then obtain q r where "split_loop (\<lambda>n. False) ch [] s = q # r" by (cases "split_loop (\<lambda>n. False) ch [] s") auto
    then show ?thesis using Cons(1) [of "[]"] Cons(2) True by (simp add: split_piece_def)
  next
    case False
    then show ?thesis using Cons(1) [of "cur @ [c]"] Cons(2) by simp
  qed
qed

lemma pow_loop_eq: "pow_loop r base e = r * base ^ nat e"
proof (induction r base e rule: pow_loop.induct)
  case (1 r base e)
  show ?case
  proof (cases "e > 0")
    case True
    have "int (nat e) = int (2 * nat (e div 2) + nat (e mod 2))" using True by simp
    then have n: "nat e = 2 * nat (e div 2) + nat (e mod 2)" by (simp only: of_nat_eq_iff)
    have "pow_loop r base e = (if e mod 2 = 1 then r * base else r) * (base * base) ^ nat (e div 2)"
      using 1 True by (subst pow_loop.simps) simp
    also have "(base * base) ^ nat (e div 2) = base ^ (2 * nat (e div 2))" by (simp add: power_mult power2_eq_square)
    also have "(if e mod 2 = 1 then r * base else r) * base ^ (2 * nat (e div 2)) = r * base ^ nat e"
    proof (cases "e mod 2 = 1")
      case t: True
      then have "nat e = Suc (2 * nat (e div 2))" using n by simp
      then show ?thesis using t by simp
    next
      case f: False
      then have "e mod 2 = 0" by presburger
      then have "nat e = 2 * nat (e div 2)" using n by simp
      then show ?thesis using f by simp
    qed
    finally show ?thesis .
  qed (simp add: pow_loop.simps)
qed

lemma xor_push_nonzero: "(x :: u64) \<noteq> 0 \<Longrightarrow> 0 < k \<Longrightarrow> x XOR push_bit k x \<noteq> 0"
proof
  assume x: "x \<noteq> 0" "0 < k" and e: "x XOR push_bit k x = 0"
  obtain n where n: "n < 64" "bit x n" "\<forall>m. m < n \<longrightarrow> \<not> bit x m" using x(1) by (rule word_nonzero_low_bit)
  have "\<not> bit (push_bit k x) n" using n x(2) by (simp add: bit_push_bit_iff)
  then have "bit (x XOR push_bit k x) n" using n by (simp add: bit_xor_iff)
  then show False using e by simp
qed

lemma xor_drop_nonzero: "(x :: u64) \<noteq> 0 \<Longrightarrow> 0 < k \<Longrightarrow> x XOR drop_bit k x \<noteq> 0"
proof
  assume x: "x \<noteq> 0" "0 < k" and e: "x XOR drop_bit k x = 0"
  obtain n where n: "n < 64" "bit x n" "\<forall>m. n < m \<longrightarrow> \<not> bit x m" using x(1) by (rule word_nonzero_top_bit)
  have "\<not> bit (drop_bit k x) n" using n x(2) by (simp add: bit_drop_bit_eq)
  then have "bit (x XOR drop_bit k x) n" using n by (simp add: bit_xor_iff)
  then show False using e by simp
qed

lemma xorshift_nonzero: "s \<noteq> 0 \<Longrightarrow> xorshift s \<noteq> 0"
  unfolding xorshift_def Let_def by (intro xor_push_nonzero xor_drop_nonzero) simp_all

lemma sint_low63: "0 \<le> sint ((x :: i64) AND 0x7FFFFFFFFFFFFFFF)"
proof -
  have "\<not> bit (x AND 0x7FFFFFFFFFFFFFFF) 63" by (simp add: bit_and_iff)
  then show ?thesis by (simp add: sint_uint signed_take_bit_nonnegative_iff bit_uint_iff)
qed

lemma replace_nonempty:
  "old \<noteq> [] \<Longrightarrow> lpp_str_replace oom (Some s) (Some old) (Some nw) =
     (let cnt = int (count_loop old s); delta = int (length nw) - int (length old)
      in if \<not> in_i64 (cnt * delta) then Inl (Fault ''signed overflow'')
         else if cnt > 0 \<and> delta > 0 \<and> int (length s) > INT64_MAX - cnt * delta
         then Inl (Panic ''str_replace: output size overflow'')
         else let outlen = int (length s) + cnt * delta; outlen = (if outlen < 0 then 0 else outlen)
              in case arc_block oom (outlen + 1) of None \<Rightarrow> Inr []
                 | Some out \<Rightarrow> bind_res (replace_loop old nw out 0 s) c_string)"
proof (cases old)
  case (Cons c t)
  then show ?thesis unfolding Cons lpp_str_replace_def or_empty_def by simp
qed simp

section \<open>Properties\<close>

text \<open>C6: \<open>lpp_str_replace\<close> sizes its block by counting the occurrences first and then fills it: it never writes outside
  the block and returns the string with every occurrence of \<open>old\<close> replaced, left to right and without overlaps, in the
  host and in the freestanding runtime alike. A result longer than \<open>INT64_MAX\<close> ends the program. (The product of
  the number of occurrences and the growth is assumed not to overflow before it is tested.)\<close>

theorem lpp_str_replace_correct:
  assumes "nul_free s" "nul_free old" "nul_free nw" "old \<noteq> []" "int (length s) \<le> INT64_MAX"
    and "in_i64 (int (count_loop old s) * (int (length nw) - int (length old)))"
  shows "lpp_str_replace oom (Some s) (Some old) (Some nw) =
      (if int (length (replace_all old nw s)) > INT64_MAX then Inl (Panic ''str_replace: output size overflow'')
       else if oom (int (length (replace_all old nw s)) + 1) then Inr [] else Inr (replace_all old nw s)) \<and>
    lpp_str_replace_fs (\<lambda>n. False) (Some s) (Some old) (Some nw) =
      (if int (length (replace_all old nw s)) > INT64_MAX then Inl (Exited 101) else Inr (Some (replace_all old nw s)))"
proof -
  let ?r = "replace_all old nw s"
  define cnt where "cnt = int (count_loop old s)"
  define delta where "delta = int (length nw) - int (length old)"
  have len: "int (length s) + cnt * delta = int (length ?r)"
    using length_replace_all [OF assms(4), of nw s] by (simp add: cnt_def delta_def)
  have big: "cnt > 0 \<and> delta > 0 \<and> int (length s) > INT64_MAX - cnt * delta \<longleftrightarrow> int (length ?r) > INT64_MAX"
  proof -
    have "cnt * delta \<le> 0" if "\<not> (cnt > 0 \<and> delta > 0)"
      using that by (auto simp: cnt_def not_less mult_nonneg_nonpos)
    then show ?thesis using assms(5) len by (cases "cnt > 0 \<and> delta > 0") (auto simp: algebra_simps)
  qed
  have nf: "nul_free ?r" using assms by (simp add: nul_free_replace_all)
  have host: "bind_res (replace_loop old nw (replicate (Suc (length ?r)) CHR 0x00) 0 s) c_string = Inr ?r"
  proof -
    have "replace_loop old nw ([] @ replicate (Suc (length ?r)) CHR 0x00) 0 s =
        Inr ([] @ ?r @ replicate (Suc (length ?r) - length ?r) CHR 0x00)"
      using assms(4) by (intro replace_loop_ok) simp_all
    then show ?thesis using nf by (simp del: replicate_Suc add: replicate_Suc [of 0])
  qed
  have fs: "bind_res (replace_loop_fs s old nw (replicate (Suc (length ?r)) CHR 0x00) 0 0)
      (\<lambda>out. bind_res (poke out (length ?r) [CHR 0x00]) (\<lambda>out. some_str (c_string out))) = Inr (Some ?r)"
  proof -
    have "replace_loop_fs s old nw ([] @ replicate (Suc (length ?r)) CHR 0x00) 0 0 =
        Inr ([] @ ?r @ replicate (Suc (length ?r) - length ?r) CHR 0x00)"
      using replace_loop_fs_ok [OF assms(4), of 0 s nw "Suc (length ?r)" 0 "[]"] by simp
    moreover have "poke (?r @ [CHR 0x00]) (length ?r) [CHR 0x00] = Inr (?r @ [CHR 0x00])"
      using poke_append [of "[CHR 0x00]" "[CHR 0x00]" ?r] by simp
    ultimately show ?thesis using nf by (simp del: replicate_Suc add: replicate_Suc [of 0] some_str_def)
  qed
  have n: "nat (int (length ?r) + 1) = Suc (length ?r)" by simp
  have "lpp_str_replace oom (Some s) (Some old) (Some nw) =
      (if int (length ?r) > INT64_MAX then Inl (Panic ''str_replace: output size overflow'')
       else if oom (int (length ?r) + 1) then Inr [] else Inr ?r)"
    using assms(6) host
    unfolding replace_nonempty [OF assms(4)] arc_block_def cnt_def [symmetric] delta_def [symmetric] big len Let_def
    by (simp add: n del: replicate_Suc)
  moreover have "lpp_str_replace_fs (\<lambda>n. False) (Some s) (Some old) (Some nw) =
      (if int (length ?r) > INT64_MAX then Inl (Exited 101) else Inr (Some ?r))"
  proof -
    have "count_loop_fs s old 0 = Inr (count_loop old s)" using count_loop_fs_eq [OF assms(4), of 0 s] by simp
    then show ?thesis using assms(6) fs assms(4)
      unfolding lpp_str_replace_fs_def arc_block_def prod.case option.case
      by (simp add: n Let_def cnt_def [symmetric] delta_def [symmetric] big len del: replicate_Suc)
  qed
  ultimately show ?thesis by blast
qed

theorem lpp_str_replace_correct_witness:
  "lpp_str_replace (\<lambda>n. False) (Some ''aXbX'') (Some ''X'') (Some ''yy'') = Inr ''ayybyy''"
proof -
  have r: "replace_all ''X'' ''yy'' ''aXbX'' = ''ayybyy''" by (simp add: replace_all.simps)
  have "int (length (replace_all ''X'' ''yy'' ''aXbX'')) = int (length ''aXbX'') + int (count_loop ''X'' ''aXbX'') * 1"
    by (subst length_replace_all) simp_all
  then have "in_i64 (int (count_loop ''X'' ''aXbX'') * (int (length ''yy'') - int (length ''X'')))"
    by (simp add: r in_i64_def INT64_MIN_def INT64_MAX_def)
  from lpp_str_replace_correct [OF _ _ _ _ _ this, of "\<lambda>n. False"] show ?thesis unfolding r
    by (simp add: INT64_MAX_def)
qed

definition exit_101 :: "'a res \<Rightarrow> 'a res" where
  "exit_101 m = (case m of Inl (Panic _) \<Rightarrow> Inl (Exited 101) | _ \<Rightarrow> m)"

lemma concat_ok:
  assumes "nul_free x" "nul_free y"
  shows "lpp_str_concat (\<lambda>n. False) (Some x) (Some y) = Inr (x @ y)"
    "lpp_str_concat_fs (\<lambda>n. False) (Some x) (Some y) = Inr (Some (x @ y))"
proof -
  have n: "nat (int (length x) + int (length y) + 1) = Suc (length (x @ y))" by simp
  have p1: "poke (replicate (Suc (length (x @ y))) CHR 0x00) 0 x = Inr (x @ replicate (Suc (length y)) CHR 0x00)"
    using poke_append [of x "replicate (Suc (length (x @ y))) CHR 0x00" "[]"] unfolding drop_replicate by simp
  have p2: "poke (x @ replicate (Suc (length y)) CHR 0x00) (length x) y = Inr (x @ y @ [CHR 0x00])"
    using poke_append [of y "replicate (Suc (length y)) CHR 0x00" x] unfolding drop_replicate by simp
  have p3: "poke (x @ y @ [CHR 0x00]) (length x + length y) [CHR 0x00] = Inr (x @ y @ [CHR 0x00])"
    using poke_append [of "[CHR 0x00]" "[CHR 0x00]" "x @ y"] by simp
  have c: "c_string (x @ y @ [CHR 0x00]) = Inr (x @ y)" using assms c_string_app [of "x @ y" "[]"] by simp
  show "lpp_str_concat (\<lambda>n. False) (Some x) (Some y) = Inr (x @ y)"
    using p1 p2 p3 c by (simp add: lpp_str_concat_def or_empty_def new_str_def arc_block_def n del: replicate_Suc length_append)
  have "pokes (replicate (Suc (length (x @ y))) CHR 0x00) (copy_bytes 0 x @ copy_bytes (length x) y @ [(length x + length y, [CHR 0x00])]) =
      Inr (x @ y @ [CHR 0x00])"
    using p1 p2 p3 by (simp add: pokes_append pokes_copy del: replicate_Suc)
  then show "lpp_str_concat_fs (\<lambda>n. False) (Some x) (Some y) = Inr (Some (x @ y))"
    using c by (simp add: lpp_str_concat_fs_def or_empty_def lpp_strlen_def some_str_def new_str_unchecked_def arc_block_def n
        del: replicate_Suc length_append)
qed

lemma repeat_agrees:
  assumes "nul_free s"
  shows "lpp_str_repeat_fs (\<lambda>n. False) (Some s) n = exit_101 (some_str (lpp_str_repeat (\<lambda>n. False) (Some s) n))"
proof (cases "n \<le> 0 \<or> s = [] \<or> int (length s) > INT64_MAX div n")
  case True
  have "new_str_unchecked (\<lambda>n. False) 1 [(0, [CHR 0x00])] = Inr []"
    by (simp add: new_str_unchecked_def arc_block_def poke_def c_string_def)
  then show ?thesis using True by (auto simp: lpp_str_repeat_fs_def lpp_str_repeat_def exit_101_def some_str_def)
next
  case False
  let ?r = "concat (replicate (nat n) s)"
  have n: "nat (int (nat n * length s) + 1) = Suc (nat n * length s)"
    by (simp only: nat_add_distrib of_nat_0_le_iff nat_int nat_one_as_int [symmetric] zero_le_one nat_1)
  have "new_str (\<lambda>n. False) (int (length s * nat n) + 1) (map (\<lambda>i. (i * length s, s)) [0..<nat n] @ [(length s * nat n, [CHR 0x00])]) = Inr ?r"
    using finish_repeat(1) [OF assms, of "nat n"]
    unfolding mult.commute [of "length s" "nat n"] new_str_def arc_block_def n if_False option.case .
  moreover have "new_str_unchecked (\<lambda>n. False) (int (length s * nat n) + 1)
      (concat (map (\<lambda>i. copy_bytes (i * length s) s) [0..<nat n]) @ [(length s * nat n, [CHR 0x00])]) = Inr ?r"
    using finish_repeat(2) [OF assms, of "nat n"]
    unfolding mult.commute [of "length s" "nat n"] new_str_unchecked_def arc_block_def n if_False option.case .
  ultimately show ?thesis using False
    by (simp add: lpp_str_repeat_fs_def lpp_str_repeat_def exit_101_def some_str_def Let_def del: of_nat_mult)
qed

lemma trim_agrees:
  assumes "nul_free s"
  shows "lpp_str_trim_fs (\<lambda>n. False) (Some s) = some_str (lpp_str_trim (\<lambda>n. False) (Some s))"
proof -
  define st where "st = skip_loop s 0"
  define len where "len = trim_end (dropWhile is_space4 s) (length (dropWhile is_space4 s))"
  note r = trim_range [of s, folded st_def len_def]
  let ?t = "take len (drop st s)"
  have t: "nul_free ?t" "length ?t = len" using assms r(3) by (simp_all add: nul_free_take_drop)
  have "lpp_str_trim (\<lambda>n. False) (Some s) = Inr ?t"
    using new_str_str(1) [OF t(1), of "int len + 1" "\<lambda>n. False"] t(2) r(1)
    unfolding lpp_str_trim_def Let_def option.case len_def [symmetric] unfolding r(1) by (simp add: str_result_def)
  moreover have "lpp_str_trim_fs (\<lambda>n. False) (Some s) = Inr (Some ?t)"
    using new_str_str(3) [OF t(1), of "int len + 1" "\<lambda>n. False"] t(2) r(2,3)
    by (simp add: lpp_str_trim_fs_def Let_def st_def [symmetric] indexed_copy some_str_def)
  ultimately show ?thesis by (simp add: some_str_def)
qed

lemma tests_agree:
  assumes "nul_free s" "nul_free p"
  shows "lpp_str_find_fs (Some s) (Some p) = Inr (lpp_str_find (Some s) (Some p))"
    "lpp_str_contains_fs (Some s) (Some p) = Inr (lpp_str_contains (Some s) (Some p))"
    "lpp_str_starts_with_fs (Some s) (Some p) = Inr (lpp_str_starts_with (Some s) (Some p))"
    "lpp_str_ends_with_fs (Some s) (Some p) = Inr (lpp_str_ends_with (Some s) (Some p))"
proof -
  show f: "lpp_str_find_fs (Some s) (Some p) = Inr (lpp_str_find (Some s) (Some p))"
    using find_loop_fs_eq [of 0 s p]
    by (auto simp: lpp_str_find_fs_def lpp_str_find_def strstr_short strstr.simps [of s "[]"] not_less split: option.splits)
  show "lpp_str_contains_fs (Some s) (Some p) = Inr (lpp_str_contains (Some s) (Some p))"
    using f by (auto simp: lpp_str_contains_fs_def lpp_str_contains_def lpp_str_find_def split: option.splits)
  show "lpp_str_starts_with_fs (Some s) (Some p) = Inr (lpp_str_starts_with (Some s) (Some p))"
    using starts_loop_eq [OF assms(2), of 0 s] by (simp add: lpp_str_starts_with_fs_def lpp_str_starts_with_def)
  show "lpp_str_ends_with_fs (Some s) (Some p) = Inr (lpp_str_ends_with (Some s) (Some p))"
    using ends_loop_eq [of p s 0] strcmp_0_iff [of "drop (length s - length p) s" p] assms
    by (auto simp: lpp_str_ends_with_fs_def lpp_str_ends_with_def nul_free_take_drop)
qed

lemma case_agrees:
  assumes "nul_free s"
  shows "lpp_str_upper_fs (\<lambda>n. False) (Some s) = lpp_str_upper (\<lambda>n. False) (Some s)"
    "lpp_str_lower_fs (\<lambda>n. False) (Some s) = lpp_str_lower (\<lambda>n. False) (Some s)"
  by (simp_all add: lpp_str_upper_fs_def lpp_str_upper_def lpp_str_lower_fs_def lpp_str_lower_def mapped_copy some_str_def)

text \<open>On strings, the freestanding builtins agree with the libc-backed ones: search, containment, prefix, suffix and
  order tests, concatenation, case conversion, trimming and repetition (where the host panics the freestanding
  runtime exits with the same status).\<close>

theorem lpp_str_fs_agrees:
  assumes "nul_free s" "nul_free p"
  shows "lpp_str_find_fs (Some s) (Some p) = Inr (lpp_str_find (Some s) (Some p)) \<and>
    lpp_str_contains_fs (Some s) (Some p) = Inr (lpp_str_contains (Some s) (Some p)) \<and>
    lpp_str_starts_with_fs (Some s) (Some p) = Inr (lpp_str_starts_with (Some s) (Some p)) \<and>
    lpp_str_ends_with_fs (Some s) (Some p) = Inr (lpp_str_ends_with (Some s) (Some p)) \<and>
    lpp_str_cmp_fs (Some s) (Some p) = lpp_str_cmp (Some s) (Some p) \<and>
    lpp_str_concat_fs (\<lambda>n. False) (Some s) (Some p) = some_str (lpp_str_concat (\<lambda>n. False) (Some s) (Some p)) \<and>
    lpp_str_upper_fs (\<lambda>n. False) (Some s) = lpp_str_upper (\<lambda>n. False) (Some s) \<and>
    lpp_str_lower_fs (\<lambda>n. False) (Some s) = lpp_str_lower (\<lambda>n. False) (Some s) \<and>
    lpp_str_trim_fs (\<lambda>n. False) (Some s) = some_str (lpp_str_trim (\<lambda>n. False) (Some s)) \<and>
    lpp_str_repeat_fs (\<lambda>n. False) (Some s) k = exit_101 (some_str (lpp_str_repeat (\<lambda>n. False) (Some s) k))"
proof -
  have "lpp_str_cmp_fs (Some s) (Some p) = lpp_str_cmp (Some s) (Some p)"
    by (simp add: lpp_str_cmp_fs_def lpp_str_cmp_def cmp_loop_eq)
  then show ?thesis using tests_agree [OF assms] concat_ok [OF assms] case_agrees [OF assms(1)] trim_agrees [OF assms(1)]
      repeat_agrees [OF assms(1)] by (simp add: some_str_def)
qed

theorem lpp_str_fs_agrees_witness:
  "lpp_str_find_fs (Some ''samardb'') (Some ''db'') = Inr (lpp_str_find (Some ''samardb'') (Some ''db''))"
  using lpp_str_fs_agrees [of "''samardb''" "''db''"] by simp

text \<open>C24: Splitting loses nothing: the pieces of \<open>lpp_str_split\<close>, joined by the delimiter, are the string again; there is
  one piece more than delimiters and no piece contains one.\<close>

theorem lpp_str_split_join:
  assumes "s \<noteq> []" "ch = char_of (unat (ucast delim :: u8))"
  shows "\<exists>ps. lpp_str_split False (\<lambda>n. False) (Some s) delim = Some ps \<and> join ch ps = s \<and>
    length ps = Suc (count_list s ch) \<and> list_all (\<lambda>p. ch \<notin> set p) ps"
proof -
  obtain c t where s: "s = c # t" using assms(1) by (cases s) auto
  have "lpp_str_split False (\<lambda>n. False) (Some s) delim = Some (split_loop (\<lambda>n. False) ch [] s)"
    unfolding s by (simp add: lpp_str_split_def assms(2) del: split_loop.simps)
  then show ?thesis using split_loop_ok [of ch "[]" s] by (simp add: list_all_iff)
qed

theorem lpp_str_split_join_witness:
  "\<exists>ps. lpp_str_split False (\<lambda>n. False) (Some ''a,b'') 44 = Some ps \<and> join CHR '','' ps = ''a,b'' \<and> length ps = 2"
proof -
  have "CHR '','' = char_of (unat (ucast (44 :: i64) :: u8))" using char_of_char [of "CHR '',''", where 'a = nat] by simp
  from lpp_str_split_join [OF _ this, of "''a,b''"] show ?thesis by auto
qed

text \<open>Every integer survives the trip through text in the host runtime. The freestanding runtime prints the same
  digits and reads them back, except for the smallest integer, whose negation overflows.\<close>

theorem lpp_int_text_roundtrip:
  "lpp_int_to_str (\<lambda>n. False) v = Inr (print_int (sint v)) \<and> lpp_str_to_int (Some (print_int (sint v))) = sint v \<and>
   (if sint v = INT64_MIN then lpp_int_to_str_fs (\<lambda>n. False) v = Inl (Fault ''signed overflow'')
    else lpp_int_to_str_fs (\<lambda>n. False) v = Inr (Some (print_int (sint v))) \<and>
      lpp_str_to_int_fs (Some (print_int (sint v))) = Inr (sint v))"
proof -
  have "lpp_int_to_str (\<lambda>n. False) v = Inr (print_int (sint v))"
    using new_str_str(2) [OF nul_free_print_int refl, of "\<lambda>n. False" "sint v"]
    by (simp add: lpp_int_to_str_def str_result_def)
  moreover have "lpp_int_to_str_fs (\<lambda>n. False) v = Inl (Fault ''signed overflow'')" if "sint v = INT64_MIN"
    using that by (simp add: lpp_int_to_str_fs_def)
  ultimately show ?thesis
    by (simp add: lpp_str_to_int_def strtoll_print_int int_to_str_fs_ok str_to_int_fs_print_int)
qed

text \<open>\<open>lpp_int_pow\<close> computes the power modulo \<open>2 ^ 64\<close>, for every base and exponent (a negative exponent gives 1),
  by repeated squaring.\<close>

theorem lpp_int_pow_correct:
  "lpp_int_pow base e = base ^ nat (sint e)"
  by (simp add: lpp_int_pow_def pow_loop_eq)

text \<open>\<open>lpp_random_range\<close> stays in the half-open interval it is asked for, and the generator never falls into the zero
  state, so it is seeded from the clock at most once.\<close>

theorem lpp_random_range_bounds:
  assumes "sint lo < sint hi" "sint hi - sint lo \<le> INT64_MAX" "s \<noteq> 0 \<or> now \<noteq> 0x1234567890ABCDEF"
  shows "\<exists>r s'. lpp_random_range now s lo hi = Inr (r, s') \<and> sint lo \<le> sint r \<and> sint r < sint hi \<and> s' \<noteq> 0"
proof -
  let ?s = "xorshift (if s = 0 then now XOR 0x1234567890ABCDEF else s)"
  let ?v = "?s AND 0x7FFFFFFFFFFFFFFF" and ?d = "sint hi - sint lo"
  have d: "in_i64 ?d" using assms(1,2) by (simp add: in_i64_def INT64_MIN_def)
  have m: "0 \<le> sint ?v mod ?d" "sint ?v mod ?d < ?d" using assms(1) by simp_all
  have "in_i64 (sint lo + sint ?v mod ?d)"
    using m sint_range_64 [of lo] sint_range_64 [of hi] by (simp add: in_i64_def)
  then have r: "sint (word_of_int (sint lo + sint ?v mod ?d) :: i64) = sint lo + sint ?v mod ?d" by (rule sint_word_of_int_64)
  have "now XOR 0x1234567890ABCDEF \<noteq> 0" if "s = 0" using that assms(3) by (metis xor_cancel_right xor.right_neutral xor_self_eq)
  then have "?s \<noteq> 0" by (intro xorshift_nonzero) simp
  moreover have "lpp_random_range now s lo hi = Inr (word_of_int (sint lo + sint ?v mod ?d), ?s)"
    using assms(1) d by (simp add: lpp_random_range_def lpp_random_def Let_def)
  ultimately show ?thesis using r m by auto
qed

theorem lpp_random_range_bounds_witness:
  "\<exists>r s'. lpp_random_range 0 1 3 9 = Inr (r, s') \<and> sint (3 :: i64) \<le> sint r \<and> sint r < sint (9 :: i64) \<and> s' \<noteq> 0"
  by (rule lpp_random_range_bounds) (simp_all add: INT64_MAX_def)

end
