(* ===== verification/Lpp_List_Fs.thy ===== *)
theory Lpp_List_Fs
  imports Lpp_List Lpp_Str
begin

text \<open>
  The growable list of the freestanding runtime (\<^verbatim>\<open>runtime/linux_x86_64_min.c\<close>). Its slots live in a region of whole
  pages of their own; a region fresh from the kernel is zeroed. \<open>mfail n\<close> says whether mapping \<open>n\<close> bytes fails. A
  \<open>double\<close> is its 64 bits.
\<close>

section \<open>List objects\<close>

record fslist =
  fdata :: "i64 list option"
  flen :: int
  fcap :: int
  data_map_size :: int
  arc_elements :: bool

type_synonym fslistp = "fslist option"

definition page_round_int :: "int \<Rightarrow> int" where
  "page_round_int n = (n + 4095) div 4096 * 4096"

definition frd_slot :: "fslist \<Rightarrow> int \<Rightarrow> i64 res" where
  "frd_slot l i = (case fdata l of None \<Rightarrow> Inl (Fault ''list without a block'')
     | Some d \<Rightarrow> if 0 \<le> i \<and> i < int (length d) then Inr (d ! nat i) else Inl (Fault ''list slot outside the block''))"

definition fwr_slot :: "fslist \<Rightarrow> int \<Rightarrow> i64 \<Rightarrow> fslist res" where
  "fwr_slot l i v = (case fdata l of None \<Rightarrow> Inl (Fault ''list without a block'')
     | Some d \<Rightarrow> if 0 \<le> i \<and> i < int (length d) then Inr (l\<lparr>fdata := Some (d[nat i := v])\<rparr>)
                 else Inl (Fault ''list slot outside the block''))"

text \<open>\<open>lpp_arc_retain\<close> and \<open>lpp_arc_release\<close> ignore NULL only.\<close>

definition fretain :: "fslist \<Rightarrow> i64 \<Rightarrow> arc_ev list" where
  "fretain l v = (if arc_elements l \<and> v \<noteq> 0 then [Retain v] else [])"

definition frelease :: "fslist \<Rightarrow> i64 \<Rightarrow> arc_ev list" where
  "frelease l v = (if arc_elements l \<and> v \<noteq> 0 then [Release v] else [])"

section \<open>Operations\<close>

fun fdrop_all :: "fslist \<Rightarrow> nat \<Rightarrow> nat \<Rightarrow> arc_ev list res" where
  "fdrop_all l i 0 = Inr []"
| "fdrop_all l i (Suc n) = bind_res (frd_slot l (int i)) (\<lambda>v. bind_res (fdrop_all l (Suc i) n) (\<lambda>es. Inr (frelease l v @ es)))"

definition lpp_list_destroy_fs :: "fslistp \<Rightarrow> arc_ev list res" where
  "lpp_list_destroy_fs lp = (case lp of None \<Rightarrow> Inr []
     | Some l \<Rightarrow> if arc_elements l then fdrop_all l 0 (nat (flen l)) else Inr [])"

definition lpp_list_new_with_mode :: "bool \<Rightarrow> bool \<Rightarrow> fslistp" where
  "lpp_list_new_with_mode oom arc = (if oom then None
     else Some \<lparr>fdata = None, flen = 0, fcap = 0, data_map_size = 0, arc_elements = arc\<rparr>)"

definition lpp_list_new_fs :: "bool \<Rightarrow> fslistp" where
  "lpp_list_new_fs oom = lpp_list_new_with_mode oom False"

definition lpp_list_new_arc_fs :: "bool \<Rightarrow> fslistp" where
  "lpp_list_new_arc_fs oom = lpp_list_new_with_mode oom True"

text \<open>The copy loop of a growing list, slot by slot.\<close>

fun fcopy :: "fslist \<Rightarrow> nat \<Rightarrow> nat \<Rightarrow> i64 list \<Rightarrow> i64 list res" where
  "fcopy l i 0 d = Inr d"
| "fcopy l i (Suc n) d = bind_res (frd_slot l (int i)) (\<lambda>v.
     if i < length d then fcopy l (Suc i) n (d[i := v]) else Inl (Fault ''list slot outside the block''))"

text \<open>A push that cannot grow the block returns without a trace; the value is lost.\<close>

definition lpp_list_push_fs :: "(int \<Rightarrow> bool) \<Rightarrow> fslistp \<Rightarrow> i64 \<Rightarrow> (fslistp \<times> arc_ev list) res" where
  "lpp_list_push_fs mfail lp value = (case lp of None \<Rightarrow> Inr (None, [])
     | Some l \<Rightarrow>
         let store = (\<lambda>l. bind_res (fwr_slot l (flen l) value) (\<lambda>l'. Inr (Some (l'\<lparr>flen := flen l + 1\<rparr>), fretain l value)))
         in if flen l = fcap l
            then let next_cap = (if fcap l = 0 then 8 else fcap l * 2)
                 in if next_cap < fcap l \<or> next_cap > INT64_MAX div 8 then Inr (Some l, [])
                    else let next_size = page_round_int (next_cap * 8)
                         in if mfail next_size then Inr (Some l, [])
                            else bind_res (fcopy l 0 (nat (flen l)) (replicate (nat (next_size div 8)) 0)) (\<lambda>d.
                              store (l\<lparr>fdata := Some d, fcap := next_cap, data_map_size := next_size\<rparr>))
            else store l)"

definition lpp_list_push_arc_fs :: "(int \<Rightarrow> bool) \<Rightarrow> fslistp \<Rightarrow> i64 \<Rightarrow> (fslistp \<times> arc_ev list) res" where
  "lpp_list_push_arc_fs mfail lp value = lpp_list_push_fs mfail lp value"

definition lpp_list_push_float_fs :: "(int \<Rightarrow> bool) \<Rightarrow> fslistp \<Rightarrow> i64 \<Rightarrow> (fslistp \<times> arc_ev list) res" where
  "lpp_list_push_float_fs mfail lp bits = lpp_list_push_fs mfail lp bits"

definition lpp_list_push_bool_fs :: "(int \<Rightarrow> bool) \<Rightarrow> fslistp \<Rightarrow> u8 \<Rightarrow> (fslistp \<times> arc_ev list) res" where
  "lpp_list_push_bool_fs mfail lp b = lpp_list_push_fs mfail lp (if b \<noteq> 0 then 1 else 0)"

definition lpp_list_get_fs :: "fslistp \<Rightarrow> int \<Rightarrow> i64 res" where
  "lpp_list_get_fs lp index = (case lp of None \<Rightarrow> Inl (Exited 101)
     | Some l \<Rightarrow> if index < 0 \<or> index \<ge> flen l then Inl (Exited 101) else frd_slot l index)"

definition lpp_list_set_fs :: "fslistp \<Rightarrow> int \<Rightarrow> i64 \<Rightarrow> (fslist \<times> arc_ev list) res" where
  "lpp_list_set_fs lp index value = (case lp of None \<Rightarrow> Inl (Exited 101)
     | Some l \<Rightarrow> if index < 0 \<or> index \<ge> flen l then Inl (Exited 101)
         else bind_res (if arc_elements l then bind_res (frd_slot l index) (\<lambda>old. Inr (fretain l value @ frelease l old)) else Inr [])
           (\<lambda>es. bind_res (fwr_slot l index value) (\<lambda>l'. Inr (l', es))))"

definition lpp_list_set_bool_fs :: "fslistp \<Rightarrow> int \<Rightarrow> u8 \<Rightarrow> (fslist \<times> arc_ev list) res" where
  "lpp_list_set_bool_fs lp index b = lpp_list_set_fs lp index (if b \<noteq> 0 then 1 else 0)"

definition lpp_list_set_float_fs :: "fslistp \<Rightarrow> int \<Rightarrow> i64 \<Rightarrow> (fslist \<times> arc_ev list) res" where
  "lpp_list_set_float_fs lp index bits = lpp_list_set_fs lp index bits"

definition lpp_list_set_arc_fs :: "fslistp \<Rightarrow> int \<Rightarrow> i64 \<Rightarrow> (fslist \<times> arc_ev list) res" where
  "lpp_list_set_arc_fs lp index value = lpp_list_set_fs lp index value"

definition lpp_list_get_float_fs :: "fslistp \<Rightarrow> int \<Rightarrow> i64 res" where
  "lpp_list_get_float_fs lp index = lpp_list_get_fs lp index"

definition lpp_list_get_bool_fs :: "fslistp \<Rightarrow> int \<Rightarrow> bool res" where
  "lpp_list_get_bool_fs lp index = bind_res (lpp_list_get_fs lp index) (\<lambda>v. Inr (v \<noteq> 0))"

definition lpp_list_get_arc_fs :: "fslistp \<Rightarrow> int \<Rightarrow> i64 res" where
  "lpp_list_get_arc_fs lp index = lpp_list_get_fs lp index"

definition lpp_list_len_fs :: "fslistp \<Rightarrow> int" where
  "lpp_list_len_fs lp = (case lp of None \<Rightarrow> 0 | Some l \<Rightarrow> flen l)"

definition lpp_list_pop_fs :: "fslistp \<Rightarrow> (fslist \<times> i64) res" where
  "lpp_list_pop_fs lp = (case lp of None \<Rightarrow> Inl (Exited 101)
     | Some l \<Rightarrow> if flen l \<le> 0 then Inl (Exited 101)
         else let l = l\<lparr>flen := flen l - 1\<rparr> in bind_res (frd_slot l (flen l)) (\<lambda>v. Inr (l, v)))"

section \<open>Invariant and abstraction\<close>

definition fslist_ok :: "fslist \<Rightarrow> bool" where
  "fslist_ok l \<longleftrightarrow> 0 \<le> flen l \<and> flen l \<le> fcap l \<and> fcap l * 8 \<le> INT64_MAX \<and>
     (case fdata l of None \<Rightarrow> fcap l = 0 | Some d \<Rightarrow> fcap l \<le> int (length d))"

definition abs_fs :: "fslist \<Rightarrow> i64 list" where
  "abs_fs l = (case fdata l of None \<Rightarrow> [] | Some d \<Rightarrow> take (nat (flen l)) d)"

lemma length_abs_fs [simp]: "fslist_ok l \<Longrightarrow> int (length (abs_fs l)) = flen l"
  by (auto simp: fslist_ok_def abs_fs_def split: option.splits)

lemma frd_slot_ok: "fslist_ok l \<Longrightarrow> 0 \<le> i \<Longrightarrow> i < flen l \<Longrightarrow> frd_slot l i = Inr (abs_fs l ! nat i)"
  by (auto simp: frd_slot_def fslist_ok_def abs_fs_def split: option.splits)

lemma fwr_slot_ok:
  assumes "fslist_ok l" "0 \<le> i" "i < fcap l"
  shows "\<exists>d. fdata l = Some d \<and> fwr_slot l i v = Inr (l\<lparr>fdata := Some (d[nat i := v])\<rparr>) \<and> fslist_ok (l\<lparr>fdata := Some (d[nat i := v])\<rparr>)"
  using assms by (auto simp: fwr_slot_def fslist_ok_def split: option.splits)

lemma fcopy_ok:
  assumes "fslist_ok l"
  shows "int (i + n) \<le> flen l \<Longrightarrow> i + n \<le> length d \<Longrightarrow> fcopy l i n d = Inr (take i d @ take n (drop i (abs_fs l)) @ drop (i + n) d)"
proof (induction n arbitrary: i d)
  case (Suc n)
  have i: "i < length (abs_fs l)" using Suc(2) length_abs_fs [OF assms] by linarith
  have v: "frd_slot l (int i) = Inr (abs_fs l ! i)" using frd_slot_ok [OF assms, of "int i"] Suc(2) by simp
  have "fcopy l i (Suc n) d = fcopy l (Suc i) n (d[i := abs_fs l ! i])" using v Suc(3) by simp
  also have "\<dots> = Inr (take (Suc i) (d[i := abs_fs l ! i]) @ take n (drop (Suc i) (abs_fs l)) @ drop (Suc i + n) (d[i := abs_fs l ! i]))"
    using Suc(2,3) by (intro Suc(1)) simp_all
  also have "take (Suc i) (d[i := abs_fs l ! i]) = take i d @ [abs_fs l ! i]"
    using Suc(3) by (simp add: take_Suc_conv_app_nth)
  finally show ?case using i by (simp add: Cons_nth_drop_Suc [symmetric])
qed simp

lemma page_round_int_ge: "n \<le> page_round_int n"
proof -
  have "page_round_int n + (n + 4095) mod 4096 = n + 4095" unfolding page_round_int_def by (rule div_mult_mod_eq)
  moreover have "(n + 4095) mod 4096 < 4096" by simp
  ultimately show ?thesis by linarith
qed

lemma fappend_ok:
  assumes "fslist_ok l" "flen l < fcap l"
  shows "\<exists>l'. fwr_slot l (flen l) v = Inr l' \<and> fslist_ok (l'\<lparr>flen := flen l + 1\<rparr>) \<and> abs_fs (l'\<lparr>flen := flen l + 1\<rparr>) = abs_fs l @ [v]"
proof -
  have f0: "0 \<le> flen l" using assms(1) by (simp add: fslist_ok_def)
  obtain d where d: "fdata l = Some d" "fwr_slot l (flen l) v = Inr (l\<lparr>fdata := Some (d[nat (flen l) := v])\<rparr>)"
    using fwr_slot_ok [OF assms(1) f0 assms(2)] by blast
  have "nat (flen l + 1) = Suc (nat (flen l))" "nat (flen l) < length d" using f0 assms d(1) by (auto simp: fslist_ok_def)
  then show ?thesis using d assms f0 by (auto simp: fslist_ok_def abs_fs_def take_Suc_conv_app_nth)
qed

lemma push_fs_ok:
  assumes "fslist_ok l" "\<And>n. \<not> mfail n" "flen l * 16 \<le> INT64_MAX - 64"
  shows "\<exists>l'. lpp_list_push_fs mfail (Some l) v = Inr (Some l', fretain l v) \<and> fslist_ok l' \<and> abs_fs l' = abs_fs l @ [v]"
proof (cases "flen l = fcap l")
  case False
  then have "flen l < fcap l" using assms(1) by (simp add: fslist_ok_def)
  from fappend_ok [OF assms(1) this, of v] False show ?thesis by (auto simp: lpp_list_push_fs_def Let_def)
next
  case True
  define c where "c = (if fcap l = 0 then 8 else fcap l * 2)"
  have f0: "0 \<le> flen l" using assms(1) by (simp add: fslist_ok_def)
  have c: "fcap l < c" "\<not> c > INT64_MAX div 8" "c * 8 \<le> INT64_MAX" using f0 True assms(3) by (auto simp: c_def INT64_MAX_def)
  define z where "z = replicate (nat (page_round_int (c * 8) div 8)) (0 :: i64)"
  have "c \<le> page_round_int (c * 8) div 8" using page_round_int_ge [of "c * 8"] by linarith
  then have z: "c \<le> int (length z)" by (simp add: z_def)
  then have lz: "nat (flen l) \<le> length z" using c(1) True by linarith
  have la: "length (abs_fs l) = nat (flen l)" using length_abs_fs [OF assms(1)] f0 by linarith
  define d where "d = abs_fs l @ drop (nat (flen l)) z"
  have cp: "fcopy l 0 (nat (flen l)) z = Inr d" using fcopy_ok [OF assms(1), of 0 "nat (flen l)" z] lz la f0 by (simp add: d_def)
  let ?l = "l\<lparr>fdata := Some d, fcap := c, data_map_size := page_round_int (c * 8)\<rparr>"
  have ok: "fslist_ok ?l" "abs_fs ?l = abs_fs l" "flen ?l < fcap ?l"
    using f0 c True z lz la by (auto simp: fslist_ok_def abs_fs_def d_def)
  have "lpp_list_push_fs mfail (Some l) v =
      bind_res (fwr_slot ?l (flen ?l) v) (\<lambda>l'. Inr (Some (l'\<lparr>flen := flen ?l + 1\<rparr>), fretain ?l v))"
    using True c assms(2) cp by (simp add: lpp_list_push_fs_def Let_def c_def [symmetric] z_def [symmetric])
  moreover have "fretain ?l v = fretain l v" by (simp add: fretain_def)
  ultimately show ?thesis using fappend_ok [OF ok(1,3), of v] ok(2) by auto
qed

section \<open>Properties\<close>

definition view_set :: "('l \<Rightarrow> i64 list) \<Rightarrow> ('l \<times> arc_ev list) res \<Rightarrow> i64 list res" where
  "view_set elems r = bind_res r (\<lambda>(l, _). Inr (elems l))"

definition view_pop :: "('l \<Rightarrow> i64 list) \<Rightarrow> ('l \<times> i64) res \<Rightarrow> (i64 list \<times> i64) res" where
  "view_pop elems r = bind_res r (\<lambda>(l, v). Inr (elems l, v))"

lemma get_set_fs_ok:
  assumes "fslist_ok f" "0 \<le> i" "i < flen f"
  shows "lpp_list_get_fs (Some f) i = Inr (abs_fs f ! nat i)"
    "view_set abs_fs (lpp_list_set_fs (Some f) i v) = Inr ((abs_fs f)[nat i := v])"
proof -
  note r = frd_slot_ok [OF assms]
  obtain d where d: "fdata f = Some d" "fwr_slot f i v = Inr (f\<lparr>fdata := Some (d[nat i := v])\<rparr>)"
    using fwr_slot_ok [OF assms(1,2), of v] assms by (auto simp: fslist_ok_def)
  show "lpp_list_get_fs (Some f) i = Inr (abs_fs f ! nat i)" using assms r by (simp add: lpp_list_get_fs_def)
  have "abs_fs (f\<lparr>fdata := Some (d[nat i := v])\<rparr>) = (abs_fs f)[nat i := v]"
    using d(1) assms by (simp add: abs_fs_def take_update_swap)
  then show "view_set abs_fs (lpp_list_set_fs (Some f) i v) = Inr ((abs_fs f)[nat i := v])"
    using assms r d(2) by (simp add: lpp_list_set_fs_def view_set_def)
qed

lemma pop_fs_ok:
  assumes "fslist_ok f" "0 < flen f"
  shows "view_pop abs_fs (lpp_list_pop_fs (Some f)) = Inr (butlast (abs_fs f), last (abs_fs f))"
proof -
  let ?n = "nat (flen f - 1)"
  obtain d where d: "fdata f = Some d" "?n < length d" using assms by (auto simp: fslist_ok_def split: option.splits)
  have "nat (flen f) = Suc ?n" using assms(2) by simp
  then have "abs_fs f = take ?n d @ [d ! ?n]" using d by (simp add: abs_fs_def take_Suc_conv_app_nth)
  moreover have "abs_fs (f\<lparr>flen := flen f - 1\<rparr>) = take ?n d" using d by (simp add: abs_fs_def)
  ultimately show ?thesis using assms d by (simp add: lpp_list_pop_fs_def view_pop_def Let_def frd_slot_def)
qed



end
