(* ===== verification/Lpp_Arc.thy ===== *)
theory Lpp_Arc
  imports Lpp_Prelude
begin

text \<open>
  Automatic reference counting in \<^verbatim>\<open>runtime/lpp_runtime.c\<close>: object headers, retain and release with
  recursive destruction, weak handles, arena regions, closures, tuples and tasks.
  The heap maps a payload pointer to its object. Memory that holds no ARC object (never allocated, freed or
  foreign) is not in the heap, and reading a header there is a \<open>Fault\<close>. The address \<open>calloc\<close> returns is an argument of the
  allocating operations, 0 standing for NULL.
\<close>

section \<open>Headers and objects\<close>

definition LPP_ARC_MAGIC :: u32 where
  "LPP_ARC_MAGIC = 0x41524331"

definition LPP_ARC_IMMORTAL :: u32 where
  "LPP_ARC_IMMORTAL = 0x41524331"

text \<open>
  The destructors of the runtime, and \<open>DFields\<close> for the ones the compiler generates for classes: they release
  the fields at the given word positions.
\<close>

datatype dtor = DNone | DClosure | DTuple | DTask | DFields "nat list"

record arc_obj =
  magic :: u32
  refcount :: u32
  generation :: u32
  destructor :: dtor
  pwords :: "i64 list"

record arena_region =
  rid :: i64
  refs :: u32
  records :: "(i64 \<times> i64) list"

record arc_state =
  heap :: "i64 \<rightharpoonup> arc_obj"
  gen_counter :: u32
  regions :: "arena_region list"

definition set_obj :: "i64 \<Rightarrow> arc_obj \<Rightarrow> arc_state \<Rightarrow> arc_state" where
  "set_obj p obj st = st\<lparr>heap := (heap st)(p \<mapsto> obj)\<rparr>"

definition get_obj :: "arc_state \<Rightarrow> i64 \<Rightarrow> arc_obj res" where
  "get_obj st p = (case heap st p of None \<Rightarrow> Inl (Fault ''header of memory that is not an ARC object'') | Some obj \<Rightarrow> Inr obj)"

definition free_obj :: "i64 \<Rightarrow> arc_state \<Rightarrow> arc_state res" where
  "free_obj p st = (if heap st p = None then Inl (Fault ''free of a block that is not live'')
     else Inr (st\<lparr>heap := (heap st)(p := None)\<rparr>))"

section \<open>Allocation\<close>

definition lpp_next_generation :: "arc_state \<Rightarrow> u32 \<times> arc_state" where
  "lpp_next_generation st = (gen_counter st + 1, st\<lparr>gen_counter := gen_counter st + 1\<rparr>)"

text \<open>The payload is zeroed; it is kept as 8-byte words. A negative size makes the block smaller than its header.\<close>

definition lpp_arc_alloc_with_destructor :: "arc_state \<Rightarrow> i64 \<Rightarrow> int \<Rightarrow> dtor \<Rightarrow> (i64 \<times> arc_state) res" where
  "lpp_arc_alloc_with_destructor st addr sz d =
     (if addr = 0 then Inr (0, st)
      else if sz < 0 then Inl (Fault ''block smaller than its header'')
      else let (fresh, st) = lpp_next_generation st
           in Inr (addr, set_obj addr \<lparr>magic = LPP_ARC_MAGIC, refcount = 1, generation = fresh, destructor = d,
                                       pwords = replicate (nat ((sz + 7) div 8)) 0\<rparr> st))"

definition lpp_arc_alloc :: "arc_state \<Rightarrow> i64 \<Rightarrow> int \<Rightarrow> (i64 \<times> arc_state) res" where
  "lpp_arc_alloc st addr sz = lpp_arc_alloc_with_destructor st addr sz DNone"

definition lpp_is_immortal :: "arc_obj \<Rightarrow> bool" where
  "lpp_is_immortal obj \<longleftrightarrow> refcount obj = LPP_ARC_IMMORTAL"

definition lpp_is_valid_arc_ptr :: "arc_state \<Rightarrow> i64 \<Rightarrow> bool res" where
  "lpp_is_valid_arc_ptr st p =
     (if p = 0 then Inr False
      else if p AND 7 \<noteq> 0 \<or> p < 0x10000 then Inr False
      else bind_res (get_obj st p) (\<lambda>obj. Inr (magic obj = LPP_ARC_MAGIC)))"

section \<open>Weak handles\<close>

definition lpp_invalidate_generation :: "arc_obj \<Rightarrow> arc_obj" where
  "lpp_invalidate_generation obj = obj\<lparr>generation := generation obj + 1\<rparr>"

definition lpp_weak_generation :: "arc_state \<Rightarrow> i64 \<Rightarrow> i64 res" where
  "lpp_weak_generation st p =
     bind_res (lpp_is_valid_arc_ptr st p) (\<lambda>v.
       if \<not> v then Inr 0
       else bind_res (get_obj st p) (\<lambda>obj.
         if lpp_is_immortal obj then Inr (ucast LPP_ARC_IMMORTAL) else Inr (scast (generation obj))))"

definition lpp_weak_get :: "arc_state \<Rightarrow> i64 \<Rightarrow> i64 \<Rightarrow> i64 res" where
  "lpp_weak_get st raw expected_generation =
     (if raw = 0 \<or> expected_generation = 0 then Inr 0
      else bind_res (lpp_is_valid_arc_ptr st raw) (\<lambda>v.
        if \<not> v then Inr 0
        else bind_res (get_obj st raw) (\<lambda>obj.
          if lpp_is_immortal obj
          then Inr (if expected_generation = ucast LPP_ARC_IMMORTAL then raw else 0)
          else if scast (generation obj) \<noteq> expected_generation then Inr 0 else Inr raw)))"

section \<open>Arena registry\<close>

definition lpp_arena_for_header :: "arc_state \<Rightarrow> i64 \<Rightarrow> i64 option" where
  "lpp_arena_for_header st p = map_option rid (find (\<lambda>r. p \<in> set (map fst (records r))) (regions st))"

definition find_region :: "arc_state \<Rightarrow> i64 \<Rightarrow> arena_region option" where
  "find_region st a = find (\<lambda>r. rid r = a) (regions st)"

definition set_region :: "arena_region \<Rightarrow> arc_state \<Rightarrow> arc_state" where
  "set_region r st = st\<lparr>regions := map (\<lambda>q. if rid q = rid r then r else q) (regions st)\<rparr>"

definition drop_region :: "i64 \<Rightarrow> arc_state \<Rightarrow> arc_state" where
  "drop_region a st = st\<lparr>regions := filter (\<lambda>q. rid q \<noteq> a) (regions st)\<rparr>"

section \<open>Children of an object\<close>

text \<open>The pointers a destructor passes to \<open>lpp_arc_release\<close>, in order.\<close>

definition word_at :: "arc_obj \<Rightarrow> nat \<Rightarrow> i64 res" where
  "word_at obj i = (if i < length (pwords obj) then Inr (pwords obj ! i) else Inl (Fault ''field outside the payload''))"

fun word_list :: "arc_obj \<Rightarrow> nat list \<Rightarrow> i64 list res" where
  "word_list obj [] = Inr []"
| "word_list obj (i # is) = bind_res (word_at obj i) (\<lambda>w. bind_res (word_list obj is) (\<lambda>ws. Inr (w # ws)))"

text \<open>Tuple prefix: word 0 is the managed mask, word 1 four packed 16-bit byte offsets.\<close>

definition tuple_offsets :: "i64 \<Rightarrow> i64 \<Rightarrow> nat list" where
  "tuple_offsets mmask packed =
     map (\<lambda>i. unat (drop_bit (i * 16) packed AND 0xffff)) (filter (\<lambda>i. mmask AND push_bit i 1 \<noteq> 0) [0..<4])"

text \<open>Task words: code, environment, result, and the pair of \<open>state\<close> (low half) and \<open>result_managed\<close>
  (high half).\<close>

definition task_word :: "u32 \<Rightarrow> bool \<Rightarrow> i64" where
  "task_word s managed = ucast s OR (if managed then push_bit 32 1 else 0)"

definition task_state :: "i64 \<Rightarrow> u32" where
  "task_state w = ucast w"

definition task_managed :: "i64 \<Rightarrow> bool" where
  "task_managed w \<longleftrightarrow> drop_bit 32 w \<noteq> 0"

definition lpp_closure_destroy :: "arc_obj \<Rightarrow> i64 list res" where
  "lpp_closure_destroy obj = word_list obj [1]"

definition lpp_tuple_destroy :: "arc_obj \<Rightarrow> i64 list res" where
  "lpp_tuple_destroy obj = bind_res (word_at obj 0) (\<lambda>mmask. bind_res (word_at obj 1) (\<lambda>packed.
     let offs = tuple_offsets mmask packed
     in if list_all (\<lambda>n. n mod 8 = 0) offs then word_list obj (map (\<lambda>n. n div 8) offs)
        else Inl (Fault ''unaligned field'')))"

definition lpp_task_payload_destroy :: "arc_obj \<Rightarrow> i64 list res" where
  "lpp_task_payload_destroy obj =
     bind_res (word_at obj 1) (\<lambda>environment. bind_res (word_at obj 2) (\<lambda>result. bind_res (word_at obj 3) (\<lambda>w.
       Inr ((if environment \<noteq> 0 then [environment] else []) @
            (if task_state w = 2 \<and> task_managed w \<and> result \<noteq> 0 then [result] else [])))))"

definition children :: "arc_obj \<Rightarrow> i64 list res" where
  "children obj = (case destructor obj of
     DNone \<Rightarrow> Inr []
   | DClosure \<Rightarrow> lpp_closure_destroy obj
   | DTuple \<Rightarrow> lpp_tuple_destroy obj
   | DTask \<Rightarrow> lpp_task_payload_destroy obj
   | DFields is \<Rightarrow> word_list obj is)"

section \<open>Retain and release\<close>

definition lpp_arc_retain :: "arc_state \<Rightarrow> i64 \<Rightarrow> arc_state res" where
  "lpp_arc_retain st p =
     bind_res (lpp_is_valid_arc_ptr st p) (\<lambda>v.
       if \<not> v then Inr st
       else bind_res (get_obj st p) (\<lambda>obj.
         if lpp_is_immortal obj then Inr st
         else Inr (set_obj p (obj\<lparr>refcount := refcount obj + 1\<rparr>) st)))"

fun fold_res :: "('s \<Rightarrow> 'a \<Rightarrow> 's res) \<Rightarrow> 'a list \<Rightarrow> 's \<Rightarrow> 's res" where
  "fold_res f [] s = Inr s"
| "fold_res f (x # xs) s = bind_res (f s x) (fold_res f xs)"

text \<open>
  \<open>lpp_arc_release\<close> calls the destructor, which calls \<open>lpp_arc_release\<close> again for every child; the first
  argument bounds the depth of that recursion. Releasing the records of an arena when its last node dies
  releases plain objects and goes through the same function.
\<close>

fun lpp_arena_destroy :: "(arc_state \<Rightarrow> i64 \<Rightarrow> arc_state res) \<Rightarrow> arc_state \<Rightarrow> arena_region \<Rightarrow> arc_state res" where
  "lpp_arena_destroy release st r =
     fold_res (\<lambda>st (hdr, record). bind_res (free_obj hdr st) (\<lambda>st. release st record)) (records r) (drop_region (rid r) st)"

definition lpp_arena_node_zero :: "(arc_state \<Rightarrow> i64 \<Rightarrow> arc_state res) \<Rightarrow> arc_state \<Rightarrow> i64 \<Rightarrow> arc_state res" where
  "lpp_arena_node_zero release st a = (case find_region st a of
     None \<Rightarrow> Inl (Fault ''arena region that is not live'')
   | Some r \<Rightarrow> let r = r\<lparr>refs := refs r - 1\<rparr>
               in if refs r = 0 then lpp_arena_destroy release (set_region r st) r else Inr (set_region r st))"

fun lpp_arc_release :: "nat \<Rightarrow> arc_state \<Rightarrow> i64 \<Rightarrow> arc_state res" where
  "lpp_arc_release 0 st p = Inl (Fault ''release recursion too deep'')"
| "lpp_arc_release (Suc n) st p =
     bind_res (lpp_is_valid_arc_ptr st p) (\<lambda>v.
       if \<not> v then Inr st
       else bind_res (get_obj st p) (\<lambda>obj.
         if lpp_is_immortal obj then Inr st
         else let arena = lpp_arena_for_header st p;
                  prev = refcount obj;
                  obj = obj\<lparr>refcount := prev - 1\<rparr>
              in if prev \<noteq> 1 then Inr (set_obj p obj st)
                 else let obj = (lpp_invalidate_generation obj)\<lparr>magic := 0\<rparr>;
                          st = set_obj p obj st
                      in bind_res (children obj) (\<lambda>cs.
                           bind_res (fold_res (lpp_arc_release n) cs st) (\<lambda>st.
                             case arena of Some a \<Rightarrow> lpp_arena_node_zero (lpp_arc_release n) st a
                             | None \<Rightarrow> free_obj p st))))"

section \<open>Arenas\<close>

definition lpp_arena_begin :: "arc_state \<Rightarrow> i64 \<Rightarrow> i64 \<times> arc_state" where
  "lpp_arena_begin st addr = (if addr = 0 then (0, st)
     else (addr, st\<lparr>regions := \<lparr>rid = addr, refs = 1, records = []\<rparr> # regions st\<rparr>))"

definition lpp_arena_release :: "nat \<Rightarrow> arc_state \<Rightarrow> i64 \<Rightarrow> arc_state res" where
  "lpp_arena_release n st a = (if a = 0 then Inr st else lpp_arena_node_zero (lpp_arc_release n) st a)"

text \<open>\<open>rec_addr\<close> is the address of the registry record, an ARC object of its own.\<close>

definition lpp_arena_alloc :: "nat \<Rightarrow> arc_state \<Rightarrow> i64 \<Rightarrow> i64 \<Rightarrow> int \<Rightarrow> i64 \<Rightarrow> dtor \<Rightarrow> (i64 \<times> arc_state) res" where
  "lpp_arena_alloc n st addr rec_addr sz a d =
     (if a = 0 \<or> sz < 0 then Inr (0, st)
      else bind_res (lpp_arc_alloc_with_destructor st addr sz d) (\<lambda>(payload, st).
        if payload = 0 then Inr (0, st)
        else bind_res (lpp_arc_alloc st rec_addr 16) (\<lambda>(record, st).
          if record = 0 then bind_res (lpp_arc_release n st payload) (\<lambda>st. Inr (0, st))
          else case find_region st a of
            None \<Rightarrow> Inl (Fault ''arena region that is not live'')
          | Some r \<Rightarrow> Inr (payload, set_region (r\<lparr>records := (payload, record) # records r, refs := refs r + 1\<rparr>) st))))"

definition lpp_arena_retain :: "arc_state \<Rightarrow> i64 \<Rightarrow> arc_state res" where
  "lpp_arena_retain st p =
     (if p = 0 then Inr st else if lpp_arena_for_header st p = None then Inr st else lpp_arc_retain st p)"

definition lpp_arena_release_node :: "nat \<Rightarrow> arc_state \<Rightarrow> i64 \<Rightarrow> arc_state res" where
  "lpp_arena_release_node n st p =
     (if p = 0 then Inr st
      else case lpp_arena_for_header st p of None \<Rightarrow> Inr st
      | Some a \<Rightarrow> bind_res (get_obj st p) (\<lambda>obj.
          if lpp_is_immortal obj then Inr st
          else let prev = refcount obj; obj = obj\<lparr>refcount := prev - 1\<rparr>
               in if prev \<noteq> 1 then Inr (set_obj p obj st)
                  else let obj = (lpp_invalidate_generation obj)\<lparr>magic := 0\<rparr>; st = set_obj p obj st
                       in bind_res (children obj) (\<lambda>cs.
                            bind_res (fold_res (lpp_arc_release n) cs st) (\<lambda>st.
                              lpp_arena_node_zero (lpp_arc_release n) st a))))"

section \<open>Tuples and tasks\<close>

definition set_word :: "i64 \<Rightarrow> nat \<Rightarrow> i64 \<Rightarrow> arc_state \<Rightarrow> arc_state res" where
  "set_word p i w st = bind_res (get_obj st p) (\<lambda>obj.
     if i < length (pwords obj) then Inr (set_obj p (obj\<lparr>pwords := (pwords obj)[i := w]\<rparr>) st)
     else Inl (Fault ''field outside the payload''))"

definition get_word :: "i64 \<Rightarrow> nat \<Rightarrow> arc_state \<Rightarrow> i64 res" where
  "get_word p i st = bind_res (get_obj st p) (\<lambda>obj. word_at obj i)"

definition lpp_tuple_alloc :: "arc_state \<Rightarrow> i64 \<Rightarrow> int \<Rightarrow> i64 \<Rightarrow> i64 \<Rightarrow> (i64 \<times> arc_state) res" where
  "lpp_tuple_alloc st addr sz managed_mask packed_offsets =
     (if sz < 16 then Inl (Panic ''invalid tuple allocation size'')
      else bind_res (lpp_arc_alloc_with_destructor st addr sz DTuple) (\<lambda>(t, st).
        if t = 0 then Inl (Panic ''out of memory while allocating tuple'')
        else bind_res (set_word t 0 managed_mask st) (\<lambda>st.
               bind_res (set_word t 1 packed_offsets st) (\<lambda>st. Inr (t, st)))))"

definition lpp_task_new :: "arc_state \<Rightarrow> i64 \<Rightarrow> i64 \<Rightarrow> i64 \<Rightarrow> i64 \<Rightarrow> (i64 \<times> arc_state) res" where
  "lpp_task_new st addr code_ptr environment result_managed =
     (if code_ptr = 0 \<or> environment = 0 then Inl (Panic ''task creation requires code and environment'')
      else bind_res (lpp_arc_alloc_with_destructor st addr 32 DTask) (\<lambda>(t, st).
        if t = 0 then Inl (Panic ''out of memory while allocating task'')
        else bind_res (set_word t 0 code_ptr st) (\<lambda>st.
               bind_res (set_word t 1 environment st) (\<lambda>st.
                 bind_res (set_word t 3 (task_word 0 (result_managed \<noteq> 0)) st) (\<lambda>st. Inr (t, st))))))"

text \<open>The task body is compiled code: \<open>run code environment\<close> changes the state and returns the result.\<close>

type_synonym task_code = "i64 \<Rightarrow> i64 \<Rightarrow> arc_state \<Rightarrow> (i64 \<times> arc_state) res"

definition set_task_state :: "i64 \<Rightarrow> u32 \<Rightarrow> arc_state \<Rightarrow> arc_state res" where
  "set_task_state t s st = bind_res (get_word t 3 st) (\<lambda>w. set_word t 3 (task_word s (task_managed w)) st)"

definition lpp_task_poll :: "task_code \<Rightarrow> arc_state \<Rightarrow> i64 \<Rightarrow> (i64 \<times> arc_state) res" where
  "lpp_task_poll run st t =
     (if t = 0 then Inl (Panic ''attempted to poll a null task'')
      else bind_res (get_word t 3 st) (\<lambda>w.
        if task_state w = 2 then Inr (1, st)
        else if task_state w \<noteq> 0 then Inl (Panic ''concurrent or recursive polling of the same task'')
        else bind_res (set_task_state t 1 st) (\<lambda>st.
               bind_res (get_word t 0 st) (\<lambda>code. bind_res (get_word t 1 st) (\<lambda>environment.
                 bind_res (run code environment st) (\<lambda>(result, st).
                   bind_res (set_word t 2 result st) (\<lambda>st.
                     bind_res (set_task_state t 2 st) (\<lambda>st. Inr (1, st)))))))))"

definition lpp_executor_run :: "task_code \<Rightarrow> arc_state \<Rightarrow> i64 \<Rightarrow> (i64 \<times> arc_state) res" where
  "lpp_executor_run run st t = bind_res (lpp_task_poll run st t) (\<lambda>(_, st).
     bind_res (get_word t 2 st) (\<lambda>r. Inr (r, st)))"

definition lpp_task_await :: "task_code \<Rightarrow> arc_state \<Rightarrow> i64 \<Rightarrow> (i64 \<times> arc_state) res" where
  "lpp_task_await run st t = bind_res (lpp_executor_run run st t) (\<lambda>(result, st).
     bind_res (get_word t 3 st) (\<lambda>w.
       if task_managed w \<and> result \<noteq> 0 then bind_res (lpp_arc_retain st result) (\<lambda>st. Inr (result, st))
       else Inr (result, st)))"

definition lpp_task_destroy :: "nat \<Rightarrow> arc_state \<Rightarrow> i64 \<Rightarrow> arc_state res" where
  "lpp_task_destroy n st t = lpp_arc_release n st t"

text \<open>The non-atomic variants the compiler uses in programs without threads. They differ from the atomic ones in
  the place of the arena lookup.\<close>

definition lpp_arc_retain_local :: "arc_state \<Rightarrow> i64 \<Rightarrow> arc_state res" where
  "lpp_arc_retain_local st p =
     bind_res (lpp_is_valid_arc_ptr st p) (\<lambda>v.
       if \<not> v then Inr st
       else bind_res (get_obj st p) (\<lambda>obj.
         if lpp_is_immortal obj then Inr st
         else Inr (set_obj p (obj\<lparr>refcount := refcount obj + 1\<rparr>) st)))"

fun lpp_arc_release_local :: "nat \<Rightarrow> arc_state \<Rightarrow> i64 \<Rightarrow> arc_state res" where
  "lpp_arc_release_local 0 st p = Inl (Fault ''release recursion too deep'')"
| "lpp_arc_release_local (Suc n) st p =
     bind_res (lpp_is_valid_arc_ptr st p) (\<lambda>v.
       if \<not> v then Inr st
       else bind_res (get_obj st p) (\<lambda>obj.
         if lpp_is_immortal obj then Inr st
         else let prev = refcount obj;
                  obj = obj\<lparr>refcount := prev - 1\<rparr>;
                  st = set_obj p obj st
              in if prev = 1
                 then let arena = lpp_arena_for_header st p;
                          obj = (lpp_invalidate_generation obj)\<lparr>magic := 0\<rparr>;
                          st = set_obj p obj st
                      in bind_res (children obj) (\<lambda>cs.
                           bind_res (fold_res (lpp_arc_release n) cs st) (\<lambda>st.
                             case arena of Some a \<Rightarrow> lpp_arena_node_zero (lpp_arc_release n) st a
                             | None \<Rightarrow> free_obj p st))
                 else Inr st))"

section \<open>Reference graph\<close>

definition arc_addr :: "i64 \<Rightarrow> bool" where
  "arc_addr p \<longleftrightarrow> p \<noteq> 0 \<and> p AND 7 = 0 \<and> 0x10000 \<le> p"

definition live_obj :: "arc_obj \<Rightarrow> bool" where
  "live_obj obj \<longleftrightarrow> magic obj = LPP_ARC_MAGIC"

definition live :: "arc_state \<Rightarrow> i64 \<Rightarrow> bool" where
  "live st p \<longleftrightarrow> (\<exists>obj. heap st p = Some obj \<and> live_obj obj)"

definition kids :: "arc_obj \<Rightarrow> i64 list" where
  "kids obj = (case children obj of Inr cs \<Rightarrow> cs | Inl _ \<Rightarrow> [])"

definition edges :: "arc_state \<Rightarrow> i64 multiset" where
  "edges st = (\<Sum>q \<in> {q. live st q}. mset (kids (the (heap st q))))"

text \<open>A reference is harmless when the runtime ignores it (NULL, small, unaligned) or when it points to a live
  object.\<close>

definition ref_ok :: "arc_state \<Rightarrow> i64 \<Rightarrow> bool" where
  "ref_ok st p \<longleftrightarrow> \<not> arc_addr p \<or> live st p"

text \<open>
  The reference-counting invariant for outstanding references \<open>X\<close> (held by the program or about to be
  released): the count of every mortal object is the number of references to it.
\<close>

definition counted :: "i64 multiset \<Rightarrow> i64 \<Rightarrow> arc_obj \<Rightarrow> bool" where
  "counted Q p obj \<longleftrightarrow> arc_addr p \<and> is_ok (children obj) \<and>
     (\<not> lpp_is_immortal obj \<longrightarrow> unat (refcount obj) = count Q p \<and>
        0 < unat (refcount obj) \<and> unat (refcount obj) < unat LPP_ARC_IMMORTAL)"

definition rc_inv :: "arc_state \<Rightarrow> i64 multiset \<Rightarrow> bool" where
  "rc_inv st X \<longleftrightarrow> finite (dom (heap st)) \<and> regions st = [] \<and>
     (\<forall>p obj. heap st p = Some obj \<longrightarrow> live_obj obj \<longrightarrow> counted (X + edges st) p obj) \<and>
     (\<forall>p \<in># X + edges st. ref_ok st p)"

lemma rc_invD:
  assumes "rc_inv st X"
  shows "finite (dom (heap st))" "regions st = []"
    "heap st p = Some obj \<Longrightarrow> live_obj obj \<Longrightarrow> counted (X + edges st) p obj"
    "p \<in># X + edges st \<Longrightarrow> ref_ok st p"
  using assms by (auto simp: rc_inv_def)

lemma counted_cong: "counted r p obj \<Longrightarrow> count r p = count r' p \<or> lpp_is_immortal obj \<Longrightarrow> counted r' p obj"
  unfolding counted_def by metis

lemma valid_arc_ptr_live: "heap st p = Some obj \<Longrightarrow> live_obj obj \<Longrightarrow> arc_addr p \<Longrightarrow> lpp_is_valid_arc_ptr st p = Inr True"
  by (auto simp: lpp_is_valid_arc_ptr_def arc_addr_def get_obj_def live_obj_def)

lemma valid_arc_ptr_other: "\<not> arc_addr p \<Longrightarrow> lpp_is_valid_arc_ptr st p = Inr False"
  by (auto simp: lpp_is_valid_arc_ptr_def arc_addr_def)

lemma children_cong:
  "destructor a = destructor b \<Longrightarrow> pwords a = pwords b \<Longrightarrow> children a = children b"
proof -
  assume *: "destructor a = destructor b" "pwords a = pwords b"
  have w: "word_at a = word_at b" by (simp add: fun_eq_iff word_at_def *)
  have "word_list a is = word_list b is" for "is" by (induction "is") (simp_all add: w)
  then have wl: "word_list a = word_list b" by blast
  show ?thesis
    unfolding children_def lpp_closure_destroy_def lpp_tuple_destroy_def lpp_task_payload_destroy_def *(1) w wl by simp
qed

lemma kids_cong: "destructor a = destructor b \<Longrightarrow> pwords a = pwords b \<Longrightarrow> kids a = kids b"
  using children_cong [of a b] unfolding kids_def by simp

lemma finite_live: "finite (dom (heap st)) \<Longrightarrow> finite {q. live st q}"
  by (rule finite_subset [of _ "dom (heap st)"]) (auto simp: live_def)

text \<open>Replacing an object changes the edges by its own children only.\<close>

lemma edges_update:
  assumes "finite (dom (heap st))" "heap st' = (heap st)(p := x)"
  shows "edges st' + (if live st p then mset (kids (the (heap st p))) else {#}) =
    edges st + (case x of None \<Rightarrow> {#} | Some obj \<Rightarrow> if live_obj obj then mset (kids obj) else {#})"
proof -
  let ?L = "{q. live st q} - {p}"
  let ?f = "\<lambda>q. mset (kids (the (heap st q)))"
  have fin: "finite ?L" using finite_live [OF assms(1)] by simp
  have same: "(\<Sum>q \<in> ?L. mset (kids (the (heap st' q)))) = sum ?f ?L"
    by (rule sum.cong) (auto simp: assms(2))
  have old: "edges st = sum ?f ?L + (if live st p then ?f p else {#})"
  proof (cases "live st p")
    case True
    then have "{q. live st q} = insert p ?L" by auto
    then have "edges st = sum ?f (insert p ?L)" by (simp only: edges_def)
    also have "\<dots> = ?f p + sum ?f ?L" using fin by (intro sum.insert) auto
    finally show ?thesis using True by (simp only: if_True add.commute)
  qed (simp add: edges_def)
  have new: "edges st' = sum ?f ?L + (case x of None \<Rightarrow> {#} | Some obj \<Rightarrow> if live_obj obj then mset (kids obj) else {#})"
  proof (cases "live st' p")
    case True
    then obtain obj where x: "x = Some obj" "live_obj obj" by (auto simp: live_def assms(2))
    have "{q. live st' q} = insert p ?L" using x by (auto simp: live_def assms(2))
    then have "edges st' = (\<Sum>q \<in> insert p ?L. mset (kids (the (heap st' q))))" by (simp only: edges_def)
    also have "\<dots> = mset (kids (the (heap st' p))) + sum ?f ?L" unfolding same [symmetric] using fin by (intro sum.insert) auto
    also have "mset (kids (the (heap st' p))) = mset (kids obj)" by (simp add: x assms(2))
    finally show ?thesis using x by (simp only: option.case if_True add.commute)
  next
    case False
    then have "{q. live st' q} = ?L" by (auto simp: live_def assms(2) split: if_splits)
    moreover have "(case x of None \<Rightarrow> {#} | Some obj \<Rightarrow> if live_obj obj then mset (kids obj) else {#}) = {#}"
      using False by (auto simp: live_def assms(2) split: option.splits)
    ultimately show ?thesis using same by (simp add: edges_def)
  qed
  show ?thesis unfolding old new by (simp add: ac_simps)
qed

lemma heap_set_obj [simp]: "heap (set_obj p obj st) = (heap st)(p \<mapsto> obj)" "regions (set_obj p obj st) = regions st"
    "gen_counter (set_obj p obj st) = gen_counter st"
  by (simp_all add: set_obj_def)

lemma edges_same_kids:
  assumes "finite (dom (heap st))" "heap st p = Some a" "live_obj a" "live_obj b" "kids b = kids a"
  shows "edges (set_obj p b st) = edges st"
proof -
  have "edges (set_obj p b st) + mset (kids a) = edges st + mset (kids a)"
    using edges_update [OF assms(1), of "set_obj p b st" p "Some b"] assms by (simp add: live_def)
  then show ?thesis by simp
qed

section \<open>Release keeps the invariant\<close>

text \<open>What a release may change: live objects lose references or disappear; dead blocks, the generation counter and
  the registry stay.\<close>

definition shrinks :: "arc_state \<Rightarrow> arc_state \<Rightarrow> bool" where
  "shrinks st st' \<longleftrightarrow> gen_counter st' = gen_counter st \<and> regions st' = regions st \<and>
     (\<forall>q. case heap st q of None \<Rightarrow> heap st' q = None
        | Some obj \<Rightarrow> if live_obj obj then heap st' q = None \<or> (\<exists>n. heap st' q = Some (obj\<lparr>refcount := n\<rparr>))
                      else heap st' q = Some obj)"

lemma refcount_self [simp]: "\<exists>n. obj = obj\<lparr>refcount := n\<rparr>" for obj :: arc_obj
  by (rule exI [of _ "refcount obj"]) simp

lemma shrinks_refl [simp]: "shrinks st st"
  by (auto simp: shrinks_def split: option.splits)

lemma live_obj_refcount [simp]: "live_obj (obj\<lparr>refcount := n\<rparr>) = live_obj obj"
  by (simp add: live_obj_def)

lemma shrinks_trans:
  assumes "shrinks a b" "shrinks b c"
  shows "shrinks a c"
proof -
  have "case heap a q of None \<Rightarrow> heap c q = None
      | Some obj \<Rightarrow> if live_obj obj then heap c q = None \<or> (\<exists>n. heap c q = Some (obj\<lparr>refcount := n\<rparr>)) else heap c q = Some obj" for q
  proof (cases "heap a q")
    case None
    then show ?thesis using assms by (auto simp: shrinks_def dest!: spec [of _ q])
  next
    case (Some obj)
    then show ?thesis using assms unfolding shrinks_def
      by (auto dest!: spec [of _ q] split: if_splits)
  qed
  then show ?thesis using assms by (auto simp: shrinks_def)
qed

lemma shrinks_live: "shrinks a b \<Longrightarrow> live b q \<Longrightarrow> live a q"
  unfolding shrinks_def live_def by (auto dest!: spec [of _ q] split: option.splits if_splits)

lemma shrinks_card:
  "shrinks a b \<Longrightarrow> finite (dom (heap a)) \<Longrightarrow> card {q. live b q} \<le> card {q. live a q}"
  by (rule card_mono [OF finite_live]) (auto dest: shrinks_live)

lemma rc_inv_ref: "rc_inv st (add_mset p X) \<Longrightarrow> arc_addr p \<Longrightarrow> live st p"
  using rc_invD(4) [of st "add_mset p X" p] by (simp add: ref_ok_def)

lemma rc_inv_drop:
  assumes "rc_inv st (add_mset p X)" "\<And>obj. heap st p = Some obj \<Longrightarrow> live_obj obj \<Longrightarrow> lpp_is_immortal obj"
  shows "rc_inv st X"
  unfolding rc_inv_def
proof (intro conjI allI impI ballI)
  fix q obj assume q: "heap st q = Some obj" "live_obj obj"
  show "counted (X + edges st) q obj"
    using assms(2) q by (intro counted_cong [OF rc_invD(3) [OF assms(1) q]]) (cases "q = p"; simp)
qed (use rc_invD [OF assms(1)] in auto)

lemma rc_inv_ignored: "rc_inv st (add_mset p X) \<Longrightarrow> \<not> arc_addr p \<Longrightarrow> rc_inv st X"
  by (rule rc_inv_drop) (auto dest: rc_invD(3) simp: counted_def)

lemma rc_inv_immortal:
  "rc_inv st (add_mset p X) \<Longrightarrow> heap st p = Some obj \<Longrightarrow> lpp_is_immortal obj \<Longrightarrow> rc_inv st X"
  by (rule rc_inv_drop) auto

lemma unat_minus_1: "0 < unat (x :: u32) \<Longrightarrow> unat (x - 1) = unat x - 1"
  by (simp add: unat_gt_0 unat_minus_one)

lemma rc_inv_decrement:
  assumes "rc_inv st (add_mset p X)" "heap st p = Some obj" "live_obj obj" "\<not> lpp_is_immortal obj" "refcount obj \<noteq> 1"
  shows "rc_inv (set_obj p (obj\<lparr>refcount := refcount obj - 1\<rparr>) st) X"
proof -
  let ?o = "obj\<lparr>refcount := refcount obj - 1\<rparr>" and ?st = "set_obj p (obj\<lparr>refcount := refcount obj - 1\<rparr>) st"
  have rc: "unat (refcount obj) = Suc (count X p + count (edges st) p)" "unat (refcount obj) < unat LPP_ARC_IMMORTAL"
      "arc_addr p" "is_ok (children obj)"
    using rc_invD(3) [OF assms(1-3)] assms(4) by (auto simp: counted_def)
  have "unat (refcount obj) \<noteq> 1" using assms(5) by (metis unat_1 word_unat_eq_iff)
  then have u: "unat (refcount ?o) = count X p + count (edges st) p" "0 < unat (refcount ?o)" "unat (refcount ?o) < unat LPP_ARC_IMMORTAL"
    using rc unat_minus_1 [of "refcount obj"] by auto
  have "kids ?o = kids obj" "children ?o = children obj" by (rule kids_cong children_cong; simp)+
  then have e: "edges ?st = edges st" using assms(2,3) rc_invD(1) [OF assms(1)] by (intro edges_same_kids) auto
  have "live ?st q \<longleftrightarrow> live st q" for q using assms(2,3) by (auto simp: live_def)
  then have r: "ref_ok ?st = ref_ok st" by (simp add: fun_eq_iff ref_ok_def)
  have "counted (X + edges st) q b" if q: "heap ?st q = Some b" "live_obj b" for q b
  proof (cases "q = p")
    case True
    then show ?thesis using q u rc(3,4) \<open>children ?o = children obj\<close> by (auto simp: counted_def)
  next
    case False
    then have "heap st q = Some b" using q by simp
    with False show ?thesis by (intro counted_cong [OF rc_invD(3) [OF assms(1) _ q(2)]]) simp_all
  qed
  then show ?thesis unfolding rc_inv_def e r using rc_invD [OF assms(1)] by simp
qed

lemma rc_inv_kill:
  assumes "rc_inv st (add_mset p X)" "heap st p = Some obj" "live_obj obj" "\<not> lpp_is_immortal obj" "refcount obj = 1"
    and "d = obj\<lparr>refcount := 0, generation := g, magic := 0\<rparr>"
  shows "rc_inv (set_obj p d st) (mset (kids obj) + X)" "\<not> live (set_obj p d st) p"
    "card {q. live (set_obj p d st) q} < card {q. live st q}"
proof -
  let ?st = "set_obj p d st"
  have fin: "finite (dom (heap st))" using assms(1) by (rule rc_invD)
  have dead: "\<not> live_obj d" by (simp add: assms(6) live_obj_def LPP_ARC_MAGIC_def)
  have "unat (refcount obj) = Suc (count X p + count (edges st) p)"
    using rc_invD(3) [OF assms(1-3)] assms(4) by (auto simp: counted_def)
  then have z: "count X p = 0" "count (edges st) p = 0" using assms(5) by auto
  have e: "edges st = edges ?st + mset (kids obj)"
    using edges_update [OF fin, of ?st p "Some d"] assms(2,3) dead by (simp add: live_def)
  show dp: "\<not> live ?st p" using dead by (simp add: live_def)
  have lv: "live ?st q \<longleftrightarrow> live st q \<and> q \<noteq> p" for q using dead by (auto simp: live_def)
  have "{q. live ?st q} = {q. live st q} - {p}" using lv by auto
  moreover have "p \<in> {q. live st q}" using assms(2,3) by (simp add: live_def)
  ultimately show "card {q. live ?st q} < card {q. live st q}"
    using finite_live [OF fin] by (metis card_Diff1_less)
  have refs: "ref_ok ?st q" if "q \<in># (mset (kids obj) + X) + edges ?st" for q
  proof -
    have mem: "q \<in># X + edges st" using that e by auto
    then have "q \<noteq> p" using z by (metis count_union add_is_0 not_in_iff)
    moreover have "ref_ok st q" using mem rc_invD(4) [OF assms(1), of q] by auto
    ultimately show ?thesis by (simp add: ref_ok_def lv)
  qed
  have objs: "counted ((mset (kids obj) + X) + edges ?st) q b" if q: "heap ?st q = Some b" "live_obj b" for q b
  proof -
    have n: "q \<noteq> p" "heap st q = Some b" using q dead by (auto split: if_splits)
    have "count (edges st) q = count (edges ?st) q + count (mset (kids obj)) q" using e by (metis count_union)
    then have "count (add_mset p X + edges st) q = count ((mset (kids obj) + X) + edges ?st) q"
      using n(1) by (simp only: count_union count_add_mset if_False) simp
    with counted_cong [OF rc_invD(3) [OF assms(1) n(2) q(2)]] show ?thesis by blast
  qed
  show "rc_inv ?st (mset (kids obj) + X)"
    unfolding rc_inv_def
  proof (intro conjI allI impI ballI)
    show "finite (dom (heap ?st))" "regions ?st = []" using fin rc_invD(2) [OF assms(1)] by simp_all
  qed (use refs objs in blast)+
qed

lemma rc_inv_free:
  assumes "rc_inv st X" "heap st p = Some obj" "\<not> live_obj obj"
  shows "\<exists>st'. free_obj p st = Inr st' \<and> rc_inv st' X \<and> st' = st\<lparr>heap := (heap st)(p := None)\<rparr>"
proof -
  let ?st = "st\<lparr>heap := (heap st)(p := None)\<rparr>"
  have fin: "finite (dom (heap st))" using assms(1) by (rule rc_invD)
  have e: "edges ?st = edges st"
    using edges_update [OF fin, of ?st p None] assms(2,3) by (simp add: live_def)
  have "live ?st q \<longleftrightarrow> live st q" for q using assms(2,3) by (auto simp: live_def)
  then have "ref_ok ?st = ref_ok st" by (simp add: fun_eq_iff ref_ok_def)
  then have "rc_inv ?st X" using rc_invD [OF assms(1)] unfolding rc_inv_def e by (simp split: if_splits)
  then show ?thesis using assms(2) by (simp add: free_obj_def)
qed

definition releases :: "(arc_state \<Rightarrow> i64 \<Rightarrow> arc_state res) \<Rightarrow> nat \<Rightarrow> bool" where
  "releases f n \<longleftrightarrow> (\<forall>st p X. rc_inv st (add_mset p X) \<longrightarrow> card {q. live st q} < n \<longrightarrow>
     (\<exists>st'. f st p = Inr st' \<and> rc_inv st' X \<and> shrinks st st'))"

lemma releasesD:
  assumes "releases f n" "rc_inv st (add_mset p X)" "card {q. live st q} < n"
  shows "\<exists>st'. f st p = Inr st' \<and> rc_inv st' X \<and> shrinks st st'"
  using assms unfolding releases_def by blast

lemma fold_releases:
  assumes "releases f n"
  shows "rc_inv st (mset cs + X) \<Longrightarrow> card {q. live st q} < n \<Longrightarrow>
    \<exists>st'. fold_res f cs st = Inr st' \<and> rc_inv st' X \<and> shrinks st st'"
proof (induction cs arbitrary: st)
  case (Cons c cs)
  then have "rc_inv st (add_mset c (mset cs + X))" by simp
  then obtain s where s: "f st c = Inr s" "rc_inv s (mset cs + X)" "shrinks st s"
    using assms Cons.prems(2) unfolding releases_def by blast
  have "card {q. live s q} < n"
    using shrinks_card [OF s(3)] Cons.prems rc_invD(1) by (meson le_less_trans)
  from Cons.IH [OF s(2) this] s show ?case using shrinks_trans by auto
qed auto

lemma release_ok: "releases (lpp_arc_release n) n"
proof (induction n)
  case 0
  show ?case by (simp add: releases_def)
next
  case (Suc n)
  show ?case unfolding releases_def
  proof (intro allI impI)
    fix st p X
    assume inv: "rc_inv st (add_mset p X)" and n: "card {q. live st q} < Suc n"
    show "\<exists>st'. lpp_arc_release (Suc n) st p = Inr st' \<and> rc_inv st' X \<and> shrinks st st'"
    proof (cases "arc_addr p")
      case False
      then show ?thesis using rc_inv_ignored [OF inv] by (simp add: valid_arc_ptr_other)
    next
      case True
      then obtain obj where o: "heap st p = Some obj" "live_obj obj" using rc_inv_ref [OF inv] by (auto simp: live_def)
      note v = valid_arc_ptr_live [OF o True]
      have noarena: "lpp_arena_for_header st p = None" using rc_invD(2) [OF inv] by (simp add: lpp_arena_for_header_def)
      have g: "get_obj st p = Inr obj" using o by (simp add: get_obj_def)
      consider "lpp_is_immortal obj" | "\<not> lpp_is_immortal obj" "refcount obj \<noteq> 1" | "\<not> lpp_is_immortal obj" "refcount obj = 1" by blast
      then show ?thesis
      proof cases
        case 1
        then show ?thesis using rc_inv_immortal [OF inv o(1)] v g by simp
      next
        case 2
        let ?st = "set_obj p (obj\<lparr>refcount := refcount obj - 1\<rparr>) st"
        have "shrinks st ?st" using o by (auto simp: shrinks_def split: option.splits)
        moreover have "lpp_arc_release (Suc n) st p = Inr ?st" using 2 v g by (simp add: Let_def)
        ultimately show ?thesis using rc_inv_decrement [OF inv o 2] by blast
      next
        case 3
        let ?d = "obj\<lparr>refcount := 0, generation := generation obj + 1, magic := 0\<rparr>"
        let ?st = "set_obj p ?d st"
        note k = rc_inv_kill [OF inv o 3 refl, of "generation obj + 1"]
        obtain cs where cs: "children obj = Inr cs" "kids obj = cs"
          using rc_invD(3) [OF inv o] by (auto simp: counted_def is_ok_iff kids_def)
        have cd: "children ?d = Inr cs" using cs(1) by (simp add: children_cong [of ?d obj])
        have "card {q. live ?st q} < n" using k(3) n by simp
        then obtain s where s: "fold_res (lpp_arc_release n) cs ?st = Inr s" "rc_inv s X" "shrinks ?st s"
          using fold_releases [OF Suc.IH, of ?st cs X] k(1) cs(2) by auto
        have "heap s p = Some ?d"
          using s(3) k(2) by (auto simp: shrinks_def live_def dest!: spec [of _ p] split: if_splits)
        then obtain s' where s': "free_obj p s = Inr s'" "rc_inv s' X" "s' = s\<lparr>heap := (heap s)(p := None)\<rparr>"
          using rc_inv_free [OF s(2)] k(2) by (metis live_def heap_set_obj(1) fun_upd_same)
        have "shrinks st s'"
          using s(3) o s'(3) by (auto simp: shrinks_def split: option.splits if_splits)
        moreover have "lpp_arc_release (Suc n) st p = Inr s'"
          using v g 3 noarena cd s(1) s'(1) by (simp add: Let_def lpp_invalidate_generation_def)
        ultimately show ?thesis using s'(2) by blast
      qed
    qed
  qed
qed

section \<open>Programs as sequences of steps\<close>

text \<open>
  A program state is the heap with the multiset of references the program holds. A store of a field exchanges
  references between the program and the object; an object is allocated at an address that holds none. The generation
  counter is followed for the first \<open>2 ^ 31\<close> allocations.
\<close>

definition enough_fuel :: "nat \<Rightarrow> arc_state \<Rightarrow> bool" where
  "enough_fuel n st \<longleftrightarrow> card {q. live st q} < n"

inductive arc_step :: "arc_state \<times> i64 multiset \<Rightarrow> arc_state \<times> i64 multiset \<Rightarrow> bool" where
  Alloc: "heap st a = None \<Longrightarrow> arc_addr a \<Longrightarrow> gen_counter st < 0x7FFFFFFF \<Longrightarrow>
    lpp_arc_alloc_with_destructor st a sz d = Inr (a, st') \<Longrightarrow> is_ok (children (the (heap st' a))) \<Longrightarrow>
    arc_step (st, R) (st', add_mset a R)"
| Store: "heap st p = Some obj \<Longrightarrow> live_obj obj \<Longrightarrow> set_word p i w st = Inr st' \<Longrightarrow> heap st' p = Some obj' \<Longrightarrow>
    is_ok (children obj') \<Longrightarrow> R + mset (kids obj) = R' + mset (kids obj') \<Longrightarrow> arc_step (st, R) (st', R')"
| Retain: "p \<in># R + edges st \<Longrightarrow> lpp_arc_retain st p = Inr st' \<Longrightarrow> arc_step (st, R) (st', add_mset p R)"
| Release: "enough_fuel n st \<Longrightarrow> lpp_arc_release n st p = Inr st' \<Longrightarrow> arc_step (st, add_mset p R) (st', R)"

inductive_cases arc_stepE: "arc_step s t"

text \<open>A program starts with its string literals, which are immortal and own nothing.\<close>

definition arc_initial :: "arc_state \<times> i64 multiset \<Rightarrow> bool" where
  "arc_initial s \<longleftrightarrow> snd s = {#} \<and> regions (fst s) = [] \<and> gen_counter (fst s) = 1 \<and> finite (dom (heap (fst s))) \<and>
     (\<forall>p obj. heap (fst s) p = Some obj \<longrightarrow>
        arc_addr p \<and> live_obj obj \<and> lpp_is_immortal obj \<and> destructor obj = DNone \<and> generation obj = 0)"

definition arc_reachable :: "arc_state \<times> i64 multiset \<Rightarrow> bool" where
  "arc_reachable t \<longleftrightarrow> (\<exists>s. arc_initial s \<and> arc_step\<^sup>*\<^sup>* s t)"

lemma word_at_zero: "set (pwords obj) \<subseteq> {0} \<Longrightarrow> word_at obj i = Inr w \<Longrightarrow> w = 0"
  using subsetD [OF _ nth_mem [of i "pwords obj"], of "{0}"] by (simp add: word_at_def split: if_splits)

lemma word_list_zero: "set (pwords obj) \<subseteq> {0} \<Longrightarrow> word_list obj is = Inr ws \<Longrightarrow> set ws \<subseteq> {0}"
proof (induction "is" arbitrary: ws)
  case (Cons i "is")
  then show ?case using word_at_zero [of obj i] by fastforce
qed simp

lemma children_zero:
  assumes "set (pwords obj) \<subseteq> {0}" "children obj = Inr cs"
  shows "set cs \<subseteq> {0}"
proof (cases "destructor obj")
  case DTask
  then show ?thesis using assms(2) word_at_zero [OF assms(1)] by (fastforce simp: children_def lpp_task_payload_destroy_def)
next
  case DTuple
  then show ?thesis using assms word_list_zero [OF assms(1)]
    by (auto simp: children_def lpp_tuple_destroy_def Let_def split: if_splits)
next
  case DClosure
  then show ?thesis using assms word_list_zero [OF assms(1), of "[1]"] by (simp add: children_def lpp_closure_destroy_def del: word_list.simps)
next
  case (DFields x)
  then show ?thesis using assms word_list_zero [OF assms(1), of x] by (simp add: children_def)
qed (use assms in \<open>simp add: children_def\<close>)

lemma initial_inv: "arc_initial (st, R) \<Longrightarrow> rc_inv st R"
proof -
  assume i: "arc_initial (st, R)"
  have k: "kids obj = []" if "heap st p = Some obj" for p obj
    using i that by (auto simp: arc_initial_def kids_def children_def)
  have "edges st = {#}" unfolding edges_def by (rule sum.neutral) (auto simp: live_def k)
  moreover have "R = {#}" using i by (simp add: arc_initial_def)
  ultimately show ?thesis using i by (auto simp: rc_inv_def arc_initial_def counted_def children_def)
qed

lemma fresh_unreferenced: "rc_inv st R \<Longrightarrow> heap st a = None \<Longrightarrow> arc_addr a \<Longrightarrow> count (R + edges st) a = 0"
proof (rule ccontr)
  assume *: "rc_inv st R" "heap st a = None" "arc_addr a" "count (R + edges st) a \<noteq> 0"
  then have "a \<in># R + edges st" by (simp only: count_eq_zero_iff not_not)
  from rc_invD(4) [OF *(1) this] *(2,3) show False by (simp add: ref_ok_def live_def)
qed

lemma alloc_inv:
  assumes inv: "rc_inv st R" and "heap st a = None" "arc_addr a"
    and "lpp_arc_alloc_with_destructor st a sz d = Inr (a, st')" "is_ok (children (the (heap st' a)))"
  shows "rc_inv st' (add_mset a R)"
proof -
  obtain obj where o: "heap st' = (heap st)(a \<mapsto> obj)" "live_obj obj" "refcount obj = 1" "set (pwords obj) \<subseteq> {0}" "regions st' = regions st"
    using assms(3,4) by (intro that [of "the (heap st' a)"])
      (auto simp: lpp_arc_alloc_with_destructor_def lpp_next_generation_def live_obj_def arc_addr_def split: if_splits)
  have fin: "finite (dom (heap st))" using inv by (rule rc_invD)
  have ok: "is_ok (children obj)" using assms(5) o(1) by simp
  then have z: "set (kids obj) \<subseteq> {0}" using children_zero [OF o(4)] by (auto simp: is_ok_iff kids_def)
  have e: "edges st' = edges st + mset (kids obj)"
    using edges_update [OF fin o(1)] assms(2) o(2) by (simp add: live_def)
  have lv: "live st' q \<longleftrightarrow> live st q \<or> q = a" for q using o(1,2) assms(2) by (auto simp: live_def)
  have na: "\<not> arc_addr 0" by (simp add: arc_addr_def)
  have k0: "count (mset (kids obj)) q = 0" if "arc_addr q" for q
    using z that na by (metis count_mset_0_iff singletonD subsetD)
  have mort: "\<not> lpp_is_immortal obj" using o(3) by (simp add: lpp_is_immortal_def LPP_ARC_IMMORTAL_def)
  show ?thesis unfolding rc_inv_def
  proof (intro conjI allI impI ballI)
    show "finite (dom (heap st'))" "regions st' = []" using fin o rc_invD(2) [OF inv] by simp_all
    show "counted (add_mset a R + edges st') q b" if q: "heap st' q = Some b" "live_obj b" for q b
    proof (cases "q = a")
      case True
      have "count (add_mset a R + edges st') a = 1"
        using fresh_unreferenced [OF inv assms(2,3)] k0 [OF assms(3)] unfolding e by simp
      then show ?thesis using True q(1) o(1,3) ok assms(3) by (simp add: counted_def LPP_ARC_IMMORTAL_def)
    next
      case False
      then have h: "heap st q = Some b" using q(1) o(1) by simp
      have "arc_addr q" using rc_invD(3) [OF inv h q(2)] by (simp add: counted_def)
      then have "count (R + edges st) q = count (add_mset a R + edges st') q" using False k0 [of q] unfolding e by simp
      with counted_cong [OF rc_invD(3) [OF inv h q(2)]] show ?thesis by blast
    qed
    show "ref_ok st' q" if "q \<in># add_mset a R + edges st'" for q
    proof -
      have "q = a \<or> q = 0 \<or> q \<in># R + edges st" using that z unfolding e by auto
      then show ?thesis using rc_invD(4) [OF inv, of q] na lv by (auto simp: ref_ok_def)
    qed
  qed
qed

lemma store_inv:
  assumes inv: "rc_inv st R" and "heap st p = Some obj" "live_obj obj" "set_word p i w st = Inr st'" "heap st' p = Some obj'"
    and "is_ok (children obj')" "R + mset (kids obj) = R' + mset (kids obj')"
  shows "rc_inv st' R'"
proof -
  have o': "st' = set_obj p obj' st" "obj' = obj\<lparr>pwords := pwords obj'\<rparr>"
    using assms(2,4,5) by (auto simp: set_word_def get_obj_def split: if_splits)
  have l: "live_obj obj'" "refcount obj' = refcount obj" using assms(3) by (subst o'(2), simp add: live_obj_def)+
  have fin: "finite (dom (heap st))" using inv by (rule rc_invD)
  have "edges st' + mset (kids obj) = edges st + mset (kids obj')"
    using edges_update [OF fin, of st' p "Some obj'"] o'(1) assms(2,3) l(1) by (simp add: live_def)
  then have tot: "R' + edges st' = R + edges st"
  proof -
    have "R' + edges st' + (mset (kids obj) + mset (kids obj')) = (R' + mset (kids obj')) + (edges st' + mset (kids obj))" by (simp add: ac_simps)
    also have "\<dots> = (R + mset (kids obj)) + (edges st + mset (kids obj'))" using assms(7) \<open>edges st' + mset (kids obj) = edges st + mset (kids obj')\<close> by simp
    finally show ?thesis by (simp add: ac_simps)
  qed
  have lv: "live st' q \<longleftrightarrow> live st q" for q using o'(1) l assms(2,3) by (auto simp: live_def)
  show ?thesis unfolding rc_inv_def tot
  proof (intro conjI allI impI ballI)
    show "finite (dom (heap st'))" "regions st' = []" using fin o' rc_invD(2) [OF inv] by simp_all
    show "counted (R + edges st) q b" if q: "heap st' q = Some b" "live_obj b" for q b
    proof (cases "q = p")
      case True
      then show ?thesis using rc_invD(3) [OF inv assms(2,3)] q o'(1) l(2) assms(6) by (auto simp: counted_def lpp_is_immortal_def)
    next
      case False
      then show ?thesis using rc_invD(3) [OF inv] q o'(1) by simp
    qed
    show "ref_ok st' q" if "q \<in># R + edges st" for q using rc_invD(4) [OF inv that] lv by (simp add: ref_ok_def)
  qed
qed

lemma retain_inv:
  assumes inv: "rc_inv st R" and "p \<in># R + edges st" "lpp_arc_retain st p = Inr st'"
  shows "rc_inv st' (add_mset p R)"
proof (cases "arc_addr p")
  case False
  then have "st' = st" using assms(3) by (simp add: lpp_arc_retain_def valid_arc_ptr_other)
  moreover have "counted (add_mset p R + edges st) q b" if q: "heap st q = Some b" "live_obj b" for q b
  proof -
    have "q \<noteq> p" using False rc_invD(3) [OF inv q] by (auto simp: counted_def)
    then have "count (R + edges st) q = count (add_mset p R + edges st) q" by simp
    with counted_cong [OF rc_invD(3) [OF inv q]] show ?thesis by blast
  qed
  ultimately show ?thesis using rc_invD [OF inv] False by (auto simp: rc_inv_def ref_ok_def)
next
  case True
  then obtain obj where o: "heap st p = Some obj" "live_obj obj"
    using rc_invD(4) [OF inv assms(2)] by (auto simp: ref_ok_def live_def)
  note c = rc_invD(3) [OF inv o]
  have g: "get_obj st p = Inr obj" using o by (simp add: get_obj_def)
  have refs: "ref_ok st q" if "q \<in># add_mset p R + edges st" for q
    using that assms(2) rc_invD(4) [OF inv, of q] by auto
  show ?thesis
  proof (cases "lpp_is_immortal obj")
    case True
    then have "st' = st" using assms(3) g valid_arc_ptr_live [OF o \<open>arc_addr p\<close>] by (simp add: lpp_arc_retain_def)
    moreover have "counted (add_mset p R + edges st) q b" if q: "heap st q = Some b" "live_obj b" for q b
      using counted_cong [OF rc_invD(3) [OF inv q], of "add_mset p R + edges st"] True o(1) q(1) by (cases "q = p") auto
    ultimately show ?thesis using rc_invD [OF inv] refs by (auto simp: rc_inv_def)
  next
    case False
    let ?o = "obj\<lparr>refcount := refcount obj + 1\<rparr>"
    have st': "st' = set_obj p ?o st" using assms(3) g False valid_arc_ptr_live [OF o True] by (simp add: lpp_arc_retain_def)
    have n: "unat (refcount obj) < unat LPP_ARC_IMMORTAL" "unat (refcount obj) = count (R + edges st) p"
      using c False by (auto simp: counted_def)
    then have u: "unat (refcount ?o) = Suc (unat (refcount obj))" by (simp add: LPP_ARC_IMMORTAL_def unat_word_ariths(1))
    have "children ?o = children obj" "kids ?o = kids obj" by (rule children_cong kids_cong; simp)+
    then have e: "edges st' = edges st" using o rc_invD(1) [OF inv] unfolding st' by (intro edges_same_kids) auto
    have lv: "live st' q \<longleftrightarrow> live st q" for q using o by (auto simp: st' live_def)
    have po: "counted (add_mset p R + edges st) p ?o"
      using c u n \<open>children ?o = children obj\<close> unfolding counted_def lpp_is_immortal_def
      by (auto simp: word_unat_eq_iff simp del: unat_0)
    have "counted (add_mset p R + edges st') q b" if q: "heap st' q = Some b" "live_obj b" for q b
    proof (cases "q = p")
      case True
      then show ?thesis using q(1) po e by (simp add: st')
    next
      case False
      then have h: "heap st q = Some b" using q(1) by (simp add: st')
      have "count (R + edges st) q = count (add_mset p R + edges st') q" using False e by simp
      with counted_cong [OF rc_invD(3) [OF inv h q(2)]] show ?thesis by blast
    qed
    then show ?thesis using rc_invD [OF inv] refs e lv unfolding rc_inv_def ref_ok_def by (simp add: st')
  qed
qed

lemma step_inv: "arc_step s t \<Longrightarrow> rc_inv (fst s) (snd s) \<Longrightarrow> rc_inv (fst t) (snd t)"
proof (induction rule: arc_step.induct)
  case (Release n st p st' R)
  then have "\<exists>st''. lpp_arc_release n st p = Inr st'' \<and> rc_inv st'' R \<and> shrinks st st''"
    by (intro releasesD [OF release_ok]) (simp_all add: enough_fuel_def)
  then show ?case using Release by auto
qed (auto intro: alloc_inv store_inv retain_inv)

lemma reachable_inv: "arc_reachable (st, R) \<Longrightarrow> rc_inv st R"
proof -
  assume "arc_reachable (st, R)"
  then obtain s where s: "arc_initial s" "arc_step\<^sup>*\<^sup>* s (st, R)" by (auto simp: arc_reachable_def)
  from s(2) have "rc_inv (fst s) (snd s) \<longrightarrow> rc_inv (fst (st, R)) (snd (st, R))"
    by (induction rule: rtranclp_induct) (auto dest: step_inv)
  then show ?thesis using initial_inv [of "fst s" "snd s"] s(1) by simp
qed

section \<open>Consequences\<close>

lemma release_last:
  assumes "lpp_arc_release n st p = Inr st'" "heap st p = Some obj" "live_obj obj" "arc_addr p"
    "\<not> lpp_is_immortal obj" "regions st = []"
  shows "heap st' p = None \<longleftrightarrow> refcount obj = 1"
proof -
  obtain m where n: "n = Suc m" using assms(1) by (cases n) auto
  have v: "lpp_is_valid_arc_ptr st p = Inr True" "get_obj st p = Inr obj" "lpp_arena_for_header st p = None"
    using valid_arc_ptr_live [OF assms(2-4)] assms(2,6) by (simp_all add: get_obj_def lpp_arena_for_header_def)
  show ?thesis
  proof (cases "refcount obj = 1")
    case True
    then show ?thesis using assms(1,5) v unfolding n by (auto simp: Let_def free_obj_def split: if_splits)
  next
    case False
    then show ?thesis using assms(1,5) v unfolding n by (auto simp: Let_def)
  qed
qed

lemma member_sum_mset: "p \<in># (\<Sum>q \<in> S. f q) \<Longrightarrow> finite S \<Longrightarrow> \<exists>q \<in> S. p \<in># f q"
  by (induction S rule: infinite_finite_induct) auto

lemma edge_source:
  assumes "finite (dom (heap st))" "p \<in># edges st"
  shows "\<exists>q obj. heap st q = Some obj \<and> live_obj obj \<and> p \<in> set (kids obj)"
proof -
  obtain q where q: "live st q" "p \<in># mset (kids (the (heap st q)))"
    using member_sum_mset [OF assms(2) [unfolded edges_def] finite_live [OF assms(1)]] by blast
  from q(1) obtain obj where "heap st q = Some obj" "live_obj obj" by (auto simp: live_def)
  with q(2) show ?thesis by auto
qed

lemma no_leak:
  assumes inv: "rc_inv st {#}" and "acyclic {(q, c). \<exists>obj. heap st q = Some obj \<and> live_obj obj \<and> c \<in> set (kids obj)}"
    and "\<forall>q obj. heap st q = Some obj \<longrightarrow> lpp_is_immortal obj \<longrightarrow> kids obj = []"
    and "heap st p = Some obj" "live_obj obj"
  shows "lpp_is_immortal obj"
proof (rule ccontr)
  let ?r = "{(q, c). \<exists>obj. heap st q = Some obj \<and> live_obj obj \<and> c \<in> set (kids obj)}"
  let ?M = "{q. \<exists>obj. heap st q = Some obj \<and> live_obj obj \<and> \<not> lpp_is_immortal obj}"
  assume "\<not> lpp_is_immortal obj"
  then have "p \<in> ?M" using assms(4,5) by blast
  have fin: "finite ?M" by (rule finite_subset [OF _ rc_invD(1) [OF inv]]) auto
  have "wf (?r \<inter> ?M \<times> ?M)"
    using fin assms(2) by (intro finite_acyclic_wf) (auto intro: acyclic_subset)
  then obtain z where z: "z \<in> ?M" "\<And>y. (y, z) \<in> ?r \<inter> ?M \<times> ?M \<Longrightarrow> y \<notin> ?M"
    using \<open>p \<in> ?M\<close> by (metis (no_types, lifting) wfE_min)
  from z(1) obtain zo where zo: "heap st z = Some zo" "live_obj zo" "\<not> lpp_is_immortal zo" by blast
  have "counted (edges st) z zo" using rc_invD(3) [OF inv zo(1,2)] by simp
  then have "z \<in># edges st" using zo(3) unfolding counted_def by (metis count_greater_zero_iff)
  then obtain q qo where q: "heap st q = Some qo" "live_obj qo" "z \<in> set (kids qo)"
    using edge_source [OF rc_invD(1) [OF inv], of z] by auto
  moreover have "\<not> lpp_is_immortal qo" using assms(3) q by fastforce
  ultimately show False using z by blast
qed

text \<open>Generations: a live object keeps its own, a new object gets one above all earlier ones.\<close>

lemma shrinks_old:
  assumes "shrinks st st'" "heap st' p = Some b" "live_obj b"
  shows "\<exists>a. heap st p = Some a \<and> live_obj a \<and> generation a = generation b"
proof (cases "heap st p")
  case None
  then show ?thesis using assms unfolding shrinks_def by (auto dest!: spec [of _ p])
next
  case (Some a)
  then show ?thesis using assms unfolding shrinks_def by (auto dest!: spec [of _ p] split: if_splits)
qed

lemma step_generation:
  assumes "arc_step s t" "rc_inv (fst s) (snd s)"
  shows "gen_counter (fst s) \<le> gen_counter (fst t)"
    and "heap (fst t) p = Some b \<Longrightarrow> live_obj b \<Longrightarrow>
      (\<exists>a. heap (fst s) p = Some a \<and> live_obj a \<and> generation a = generation b) \<or>
      heap (fst s) p = None \<and> gen_counter (fst s) < generation b \<and> generation b \<le> gen_counter (fst t)"
proof -
  have "gen_counter (fst s) \<le> gen_counter (fst t) \<and> (heap (fst t) p = Some b \<longrightarrow> live_obj b \<longrightarrow>
      (\<exists>a. heap (fst s) p = Some a \<and> live_obj a \<and> generation a = generation b) \<or>
      heap (fst s) p = None \<and> gen_counter (fst s) < generation b \<and> generation b \<le> gen_counter (fst t))"
    using assms
  proof (induction rule: arc_step.induct)
    case (Alloc st a sz d st' R)
    have "unat (gen_counter st) < unat (0x7FFFFFFF :: u32)" using Alloc(3) by (simp only: word_less_nat_alt)
    then have "unat (gen_counter st + 1) = Suc (unat (gen_counter st))" by (simp add: unat_word_ariths(1))
    then have "gen_counter st < gen_counter st + 1" by (simp add: word_less_nat_alt)
    then show ?case using Alloc(1,2,4)
      by (auto simp: lpp_arc_alloc_with_destructor_def lpp_next_generation_def Let_def arc_addr_def split: if_splits)
  next
    case (Store st q obj i w st' obj' R R')
    then have "st' = set_obj q obj' st" "obj' = obj\<lparr>pwords := pwords obj'\<rparr>"
      by (auto simp: set_word_def get_obj_def split: if_splits)
    moreover from this(2) have "generation obj' = generation obj" by (metis arc_obj.select_convs(3) arc_obj.surjective arc_obj.update_convs(5))
    ultimately show ?case using Store(1,2) by auto
  next
    case (Retain q R st st')
    then show ?case
      by (auto simp: lpp_arc_retain_def get_obj_def lpp_is_valid_arc_ptr_def live_obj_def split: if_splits option.splits)
  next
    case (Release n st q st' R)
    then have "\<exists>st''. lpp_arc_release n st q = Inr st'' \<and> rc_inv st'' R \<and> shrinks st st''"
      by (intro releasesD [OF release_ok]) (simp_all add: enough_fuel_def)
    then have sh: "shrinks st st'" using Release(2) by simp
    show ?case using shrinks_old [OF sh] sh by (fastforce simp: shrinks_def)
  qed
  then show "gen_counter (fst s) \<le> gen_counter (fst t)"
    "heap (fst t) p = Some b \<Longrightarrow> live_obj b \<Longrightarrow>
      (\<exists>a. heap (fst s) p = Some a \<and> live_obj a \<and> generation a = generation b) \<or>
      heap (fst s) p = None \<and> gen_counter (fst s) < generation b \<and> generation b \<le> gen_counter (fst t)"
    by auto
qed

definition survives :: "i64 \<Rightarrow> arc_state \<times> i64 multiset \<Rightarrow> arc_state \<times> i64 multiset \<Rightarrow> bool" where
  "survives p = (\<lambda>s t. arc_step s t \<and> live (fst s) p \<and> live (fst t) p)\<^sup>*\<^sup>*"

lemma steps_inv: "arc_step\<^sup>*\<^sup>* s t \<Longrightarrow> rc_inv (fst s) (snd s) \<Longrightarrow> rc_inv (fst t) (snd t)"
  by (induction rule: rtranclp_induct) (auto dest: step_inv)

lemma steps_gen_counter: "arc_step\<^sup>*\<^sup>* s t \<Longrightarrow> rc_inv (fst s) (snd s) \<Longrightarrow> gen_counter (fst s) \<le> gen_counter (fst t)"
proof (induction rule: rtranclp_induct)
  case (step t u)
  then show ?case using step_generation(1) [of t u] steps_inv [of s t] order_trans by blast
qed simp

lemma survives_steps: "survives p s t \<Longrightarrow> arc_step\<^sup>*\<^sup>* s t"
  unfolding survives_def by (rule rtranclp_mono [THEN predicate2D, rotated]) auto

lemma survives_generation:
  assumes "survives p s t" "rc_inv (fst s) (snd s)" "heap (fst s) p = Some a" "live_obj a"
  shows "\<exists>b. heap (fst t) p = Some b \<and> live_obj b \<and> generation b = generation a"
  using assms unfolding survives_def
proof (induction rule: rtranclp_induct)
  case (step t u)
  from step(3) [OF step(4-6)] obtain b where b: "heap (fst t) p = Some b" "live_obj b" "generation b = generation a" by blast
  have "survives p s t" using step(1) by (simp only: survives_def)
  then have i: "rc_inv (fst t) (snd t)" using step(4) survives_steps steps_inv by blast
  obtain c where c: "heap (fst u) p = Some c" "live_obj c" using step(2) by (auto simp: live_def)
  show ?case using step_generation(2) [OF _ i c] step(2) b c by auto
qed simp

lemma generation_or_survives:
  assumes "arc_step\<^sup>*\<^sup>* s t" "rc_inv (fst s) (snd s)" "live (fst s) p" "heap (fst t) p = Some b" "live_obj b"
  shows "survives p s t \<or> gen_counter (fst s) < generation b"
  using assms
proof (induction arbitrary: b rule: rtranclp_induct)
  case base
  then show ?case by (simp add: survives_def)
next
  case (step t u)
  have i: "rc_inv (fst t) (snd t)" using step(1,4) steps_inv by blast
  have g: "gen_counter (fst s) \<le> gen_counter (fst t)" using steps_gen_counter [OF step(1,4)] .
  from step_generation(2) [OF step(2) i step(6,7)] show ?case
  proof (elim disjE exE conjE)
    fix a assume a: "heap (fst t) p = Some a" "live_obj a" "generation a = generation b"
    from step(3) [OF step(4,5) a(1,2)] show ?thesis
    proof
      assume "survives p s t"
      moreover have "live (fst t) p" "live (fst u) p" using a step(6,7) by (auto simp: live_def)
      ultimately show ?thesis using step(2) unfolding survives_def
        using rtranclp.rtrancl_into_rtrancl [of "\<lambda>s t. arc_step s t \<and> live (fst s) p \<and> live (fst t) p" s t u] by blast
    qed (use a in simp)
  qed (use g in \<open>meson order_le_less_trans\<close>)
qed

lemma generation_bound:
  assumes "arc_reachable s" "heap (fst s) p = Some b" "live_obj b"
  shows "generation b \<le> gen_counter (fst s)"
proof -
  obtain s0 where s0: "arc_initial s0" "arc_step\<^sup>*\<^sup>* s0 s" using assms(1) by (auto simp: arc_reachable_def)
  have i0: "rc_inv (fst s0) (snd s0)" using initial_inv [of "fst s0" "snd s0"] s0(1) by simp
  from s0(2) assms(2,3) show ?thesis
  proof (induction arbitrary: b rule: rtranclp_induct)
    case base
    then show ?case using s0(1) by (auto simp: arc_initial_def)
  next
    case (step t u)
    have i: "rc_inv (fst t) (snd t)" using step(1) i0 steps_inv by blast
    from step_generation(2) [OF step(2) i step(4,5)] step_generation(1) [OF step(2) i] step(3)
    show ?case by (metis order_trans)
  qed
qed

lemma scast_generation_eq [simp]: "(scast (a :: u32) :: i64) = scast b \<longleftrightarrow> a = b"
proof
  assume "(scast a :: i64) = scast b"
  then have "sint (scast a :: i64) = sint (scast b :: i64)" by simp
  then have "sint a = sint b" by (simp add: sint_up_scast is_up)
  then show "a = b" by (simp add: signed_word_eqI)
qed simp

lemma weak_get_live:
  assumes "heap st p = Some b" "live_obj b" "arc_addr p" "\<not> lpp_is_immortal b" "g \<noteq> 0"
  shows "lpp_weak_get st p g = Inr (if scast (generation b) = g then p else 0)"
  using assms valid_arc_ptr_live [OF assms(1-3)]
  by (auto simp: lpp_weak_get_def arc_addr_def get_obj_def)

lemma weak_get_dead:
  assumes "heap st p = Some b" "\<not> live_obj b" "arc_addr p"
  shows "lpp_weak_get st p g = Inr 0"
  using assms by (auto simp: lpp_weak_get_def arc_addr_def get_obj_def live_obj_def lpp_is_valid_arc_ptr_def)

lemma weak_generation_live:
  assumes "heap st p = Some b" "live_obj b" "arc_addr p" "\<not> lpp_is_immortal b"
  shows "lpp_weak_generation st p = Inr (scast (generation b))"
  using assms valid_arc_ptr_live [OF assms(1-3)] by (auto simp: lpp_weak_generation_def get_obj_def)

text \<open>Dead blocks do not stay in the heap between steps.\<close>

lemma step_all_live:
  assumes "arc_step s t" "rc_inv (fst s) (snd s)" "\<forall>q b. heap (fst s) q = Some b \<longrightarrow> live_obj b"
  shows "\<forall>q b. heap (fst t) q = Some b \<longrightarrow> live_obj b"
  using assms
proof (induction rule: arc_step.induct)
  case (Alloc st a sz d st' R)
  then show ?case
    by (auto simp: lpp_arc_alloc_with_destructor_def lpp_next_generation_def live_obj_def split: if_splits)
next
  case (Store st p obj i w st' obj' R R')
  then show ?case by (auto simp: set_word_def get_obj_def live_obj_def split: if_splits)
next
  case (Retain p R st st')
  then show ?case by (auto simp: lpp_arc_retain_def get_obj_def live_obj_def lpp_is_valid_arc_ptr_def split: if_splits option.splits)
next
  case (Release n st p st' R)
  then have "\<exists>st''. lpp_arc_release n st p = Inr st'' \<and> rc_inv st'' R \<and> shrinks st st''"
    by (intro releasesD [OF release_ok]) (simp_all add: enough_fuel_def)
  then have sh: "shrinks st st'" using Release(2) by simp
  show ?case
  proof (intro allI impI)
    fix q b assume b: "heap (fst (st', R)) q = Some b"
    then obtain a where "heap st q = Some a" using sh by (cases "heap st q") (auto simp: shrinks_def dest!: spec [of _ q])
    then show "live_obj b" using sh b Release(4) by (auto simp: shrinks_def dest!: spec [of _ q])
  qed
qed

lemma reachable_live: "arc_reachable (st, R) \<Longrightarrow> heap st p = Some b \<Longrightarrow> live_obj b"
proof -
  assume r: "arc_reachable (st, R)" and b: "heap st p = Some b"
  then obtain s where s: "arc_initial s" "arc_step\<^sup>*\<^sup>* s (st, R)" by (auto simp: arc_reachable_def)
  have i: "rc_inv (fst s) (snd s)" using initial_inv [of "fst s" "snd s"] s(1) by simp
  from s(2) have "\<forall>q b. heap (fst (st, R)) q = Some b \<longrightarrow> live_obj b"
  proof (induction rule: rtranclp_induct)
    case base
    then show ?case using s(1) by (simp add: arc_initial_def)
  next
    case (step t u)
    then show ?case using step_all_live [OF step(2) steps_inv [OF step(1) i]] by blast
  qed
  then show ?thesis using b by simp
qed

section \<open>Tasks\<close>

lemma bit_task_word: "bit (task_word s m) n \<longleftrightarrow> n < 32 \<and> bit s n \<or> m \<and> n = 32"
proof -
  have "bit (push_bit 32 1 :: i64) n \<longleftrightarrow> n = 32" by (auto simp only: bit_push_bit_iff bit_1_iff) simp
  moreover have "bit (ucast s :: i64) n \<longleftrightarrow> n < 32 \<and> bit s n" using bit_imp_le_length [of s n] by (auto simp: bit_ucast_iff)
  ultimately show ?thesis by (simp only: task_word_def bit_or_iff if_distrib [of "\<lambda>x. bit x n"] bit_0_eq) auto
qed

lemma task_word_state [simp]: "task_state (task_word s m) = s"
  by (rule bit_word_eqI) (simp add: task_state_def bit_ucast_iff bit_task_word)

lemma task_word_managed [simp]: "task_managed (task_word s m) = m"
proof -
  have "bit (drop_bit 32 (task_word s m)) n \<longleftrightarrow> m \<and> n = 0" for n by (auto simp: bit_drop_bit_eq bit_task_word)
  then have "drop_bit 32 (task_word s m) = 0 \<longleftrightarrow> \<not> m" by (metis bit_0_eq bit_word_eqI bot_apply bot_bool_def)
  then show ?thesis by (simp add: task_managed_def)
qed

lemma get_set_word: "set_word p i w st = Inr st' \<Longrightarrow> get_word p j st' = (if j = i then Inr w else get_word p j st)"
proof -
  assume *: "set_word p i w st = Inr st'"
  then obtain obj where o: "heap st p = Some obj" "i < length (pwords obj)"
    by (auto simp: set_word_def get_obj_def split: option.splits if_splits)
  then have "st' = set_obj p (obj\<lparr>pwords := (pwords obj)[i := w]\<rparr>) st" using * by (simp add: set_word_def get_obj_def)
  then show ?thesis using o by (simp add: get_word_def get_obj_def word_at_def)
qed

lemma poll_done:
  assumes "lpp_task_poll run st t = Inr (k, st')"
  shows "t \<noteq> 0" "k = 1" "\<exists>w. get_word t 3 st' = Inr w \<and> task_state w = 2"
  using assms by (auto simp: lpp_task_poll_def set_task_state_def get_set_word split: if_splits)

lemma poll_run:
  assumes "lpp_task_poll run st t = Inr (k, st')" "get_word t 3 st = Inr w" "task_state w \<noteq> 2"
  shows "\<exists>code environment st1 r st2. task_state w = 0 \<and> get_word t 0 st = Inr code \<and> get_word t 1 st = Inr environment \<and>
    set_word t 3 (task_word 1 (task_managed w)) st = Inr st1 \<and> run code environment st1 = Inr (r, st2) \<and> get_word t 2 st' = Inr r"
  using assms by (auto simp: lpp_task_poll_def set_task_state_def get_set_word split: if_splits)

section \<open>Properties\<close>

text \<open>A heap with one object, for the witnesses.\<close>

definition empty_heap :: arc_state where
  "empty_heap = \<lparr>heap = Map.empty, gen_counter = 1, regions = []\<rparr>"

definition one_obj :: arc_state where
  "one_obj = \<lparr>heap = [0x20000 \<mapsto> \<lparr>magic = LPP_ARC_MAGIC, refcount = 1, generation = 2, destructor = DNone, pwords = [0]\<rparr>],
     gen_counter = 2, regions = []\<rparr>"

lemma one_obj_alloc: "lpp_arc_alloc_with_destructor empty_heap 0x20000 8 DNone = Inr (0x20000, one_obj)"
  by (simp add: lpp_arc_alloc_with_destructor_def lpp_next_generation_def empty_heap_def one_obj_def set_obj_def)

lemma one_obj_step: "arc_step (empty_heap, {#}) (one_obj, {#0x20000#})"
proof -
  have "arc_step (empty_heap, {#}) (one_obj, add_mset 0x20000 {#})"
    by (rule arc_step.Alloc [OF _ _ _ one_obj_alloc]) (simp_all add: empty_heap_def arc_addr_def one_obj_def children_def)
  then show ?thesis by simp
qed

lemma empty_heap_reachable: "arc_reachable (empty_heap, {#})"
  unfolding arc_reachable_def
  by (rule exI [of _ "(empty_heap, {#})"]) (simp add: arc_initial_def empty_heap_def)

lemma one_obj_reachable: "arc_reachable (one_obj, {#0x20000#})"
  using empty_heap_reachable one_obj_step unfolding arc_reachable_def
  by (meson rtranclp.rtrancl_into_rtrancl)

lemma one_obj_live: "{q. live one_obj q} = {0x20000}"
  by (auto simp: live_def one_obj_def live_obj_def split: if_splits)

lemma one_obj_edges: "edges one_obj = {#}"
  unfolding edges_def one_obj_live by (simp add: one_obj_def kids_def children_def)

lemma one_obj_obj: "heap one_obj 0x20000 = Some \<lparr>magic = LPP_ARC_MAGIC, refcount = 1, generation = 2, destructor = DNone, pwords = [0]\<rparr>"
  by (simp add: one_obj_def)

lemma one_obj_fuel: "enough_fuel (Suc 1) one_obj"
  by (simp add: enough_fuel_def one_obj_live)

definition task_obj :: "i64 list \<Rightarrow> arc_state" where
  "task_obj ws = \<lparr>heap = [0x20000 \<mapsto> \<lparr>magic = LPP_ARC_MAGIC, refcount = 1, generation = 2, destructor = DTask, pwords = ws\<rparr>],
     gen_counter = 2, regions = []\<rparr>"

abbreviation new_task :: arc_state where
  "new_task \<equiv> task_obj [0x1000, 0x30000, 0, task_word 0 False]"

abbreviation done_task :: arc_state where
  "done_task \<equiv> task_obj [0x1000, 0x30000, 7, task_word 2 False]"

text \<open>C1: Releasing a reference the program holds, with recursion depth for all live objects, always succeeds and never
  touches freed memory, however the program got there by allocating, storing fields, retaining and releasing.
  Afterwards every reference the program or a live object holds still points to a live object, and a mortal
  object was freed exactly when the released reference was the last one to it.\<close>

theorem lpp_arc_release_memory_safe:
  assumes "arc_reachable (st, add_mset p R)" "enough_fuel n st"
  shows "\<exists>st'. lpp_arc_release n st p = Inr st' \<and> arc_reachable (st', R) \<and>
    filter_mset arc_addr (R + edges st') = filter_mset (live st') (R + edges st') \<and>
    (case heap st p of None \<Rightarrow> \<not> arc_addr p
     | Some obj \<Rightarrow> lpp_is_immortal obj \<or> (heap st' p = None \<longleftrightarrow> p \<notin># R + edges st))"
proof -
  have inv: "rc_inv st (add_mset p R)" using assms(1) by (rule reachable_inv)
  obtain st' where st': "lpp_arc_release n st p = Inr st'" "rc_inv st' R"
    using releasesD [OF release_ok inv] assms(2) by (auto simp: enough_fuel_def)
  have r: "arc_reachable (st', R)"
    using assms arc_step.Release [OF assms(2) st'(1), of R] unfolding arc_reachable_def by (meson rtranclp.rtrancl_into_rtrancl)
  have f: "filter_mset arc_addr (R + edges st') = filter_mset (live st') (R + edges st')"
    using rc_invD(3,4) [OF st'(2)] by (intro filter_mset_cong refl) (auto simp: ref_ok_def live_def counted_def)
  have "case heap st p of None \<Rightarrow> \<not> arc_addr p
     | Some obj \<Rightarrow> lpp_is_immortal obj \<or> (heap st' p = None \<longleftrightarrow> p \<notin># R + edges st)"
  proof (cases "heap st p")
    case None
    then show ?thesis using rc_inv_ref [OF inv] by (auto simp: live_def)
  next
    case (Some obj)
    have l: "live_obj obj" using reachable_live [OF assms(1)] Some by simp
    note c = rc_invD(3) [OF inv Some l]
    have "refcount obj = 1 \<longleftrightarrow> p \<notin># R + edges st" if "\<not> lpp_is_immortal obj"
    proof -
      have u: "unat (refcount obj) = Suc (count (R + edges st) p)" using c that by (simp add: counted_def)
      have "refcount obj = 1 \<longleftrightarrow> unat (refcount obj) = unat (1 :: u32)" by (rule word_unat_eq_iff)
      also have "\<dots> \<longleftrightarrow> count (R + edges st) p = 0" unfolding u by simp
      finally show ?thesis by (simp only: count_eq_zero_iff)
    qed
    then show ?thesis using release_last [OF st'(1) Some l] c rc_invD(2) [OF inv] Some by (auto simp: counted_def)
  qed
  then show ?thesis using st'(1) r f by blast
qed

theorem lpp_arc_release_memory_safe_witness:
  "\<exists>st'. lpp_arc_release (Suc 1) one_obj 0x20000 = Inr st' \<and> heap st' 0x20000 = None"
proof -
  have "arc_reachable (one_obj, add_mset 0x20000 {#})" using one_obj_reachable by simp
  from lpp_arc_release_memory_safe [OF this one_obj_fuel] show ?thesis
    unfolding one_obj_edges one_obj_obj
    by (auto simp: lpp_is_immortal_def LPP_ARC_IMMORTAL_def simp del: lpp_arc_release.simps)
qed





text \<open>A weak handle outlives its object, but asking it does not always work: when the last reference to a mortal
  object is released its block goes back to \<open>free\<close>, and \<open>lpp_weak_get\<close> on the handle then reads the header of
  freed memory.\<close>

theorem lpp_weak_get_after_free:
  assumes "arc_reachable (st, add_mset p R)" "heap st p = Some obj" "\<not> lpp_is_immortal obj" "p \<notin># R + edges st"
    and "enough_fuel n st" "lpp_arc_release n st p = Inr st'" "g \<noteq> 0"
  shows "\<exists>m. lpp_weak_get st' p g = Inl (Fault m)"
proof -
  have inv: "rc_inv st (add_mset p R)" using assms(1) by (rule reachable_inv)
  have l: "live_obj obj" using assms(1,2) by (rule reachable_live)
  note c = rc_invD(3) [OF inv assms(2) l]
  have "unat (refcount obj) = Suc (count (R + edges st) p)" using c assms(3) by (simp add: counted_def)
  then have "unat (refcount obj) = unat (1 :: u32)" using assms(4) by (simp add: count_eq_zero_iff)
  then have "refcount obj = 1" by (simp only: word_unat_eq_iff)
  then have "heap st' p = None"
    using release_last [OF assms(6,2) l _ assms(3) rc_invD(2) [OF inv]] c by (simp add: counted_def)
  moreover have "arc_addr p" using c by (simp add: counted_def)
  ultimately show ?thesis using assms(7) by (auto simp: lpp_weak_get_def arc_addr_def lpp_is_valid_arc_ptr_def get_obj_def)
qed

theorem lpp_weak_get_after_free_witness:
  "\<exists>m. lpp_weak_get (empty_heap\<lparr>gen_counter := 2\<rparr>) 0x20000 2 = Inl (Fault m)"
proof -
  have "lpp_arc_release (Suc 1) one_obj 0x20000 = Inr (empty_heap\<lparr>gen_counter := 2\<rparr>)"
    by (simp add: lpp_is_valid_arc_ptr_def get_obj_def one_obj_def lpp_is_immortal_def LPP_ARC_IMMORTAL_def
        Let_def lpp_arena_for_header_def lpp_invalidate_generation_def children_def free_obj_def set_obj_def empty_heap_def)
  from lpp_weak_get_after_free [OF _ one_obj_obj _ _ one_obj_fuel this, of "{#}" 2] one_obj_reachable show ?thesis
    by (simp add: one_obj_edges lpp_is_immortal_def LPP_ARC_IMMORTAL_def)
qed

text \<open>A task runs its body at most once. After a successful poll every later poll returns at once, whatever
  the code pointer does, and leaves the state alone; the first poll ran the body once, on the task's
  environment in the state marked as running, and kept what it returned as the task's result.\<close>

theorem lpp_task_poll_once:
  assumes "lpp_task_poll run st t = Inr (k, st')"
  shows "k = 1 \<and> lpp_task_poll run' st' t = Inr (1, st') \<and> lpp_executor_run run' st' t = bind_res (get_word t 2 st') (\<lambda>r. Inr (r, st')) \<and>
    (\<exists>w. get_word t 3 st = Inr w \<and> (if task_state w = 2 then st' = st
       else \<exists>code environment st1 r st2. task_state w = 0 \<and> get_word t 0 st = Inr code \<and> get_word t 1 st = Inr environment \<and>
         set_word t 3 (task_word 1 (task_managed w)) st = Inr st1 \<and> run code environment st1 = Inr (r, st2) \<and> get_word t 2 st' = Inr r))"
proof -
  have again: "lpp_task_poll run' st' t = Inr (1, st')"
    using poll_done [OF assms] by (auto simp: lpp_task_poll_def)
  obtain w where w: "get_word t 3 st = Inr w" using assms by (auto simp: lpp_task_poll_def split: if_splits)
  show ?thesis using again w poll_done(2) [OF assms] poll_run [OF assms w] assms
    by (auto simp: lpp_executor_run_def lpp_task_poll_def split: if_splits)
qed

theorem lpp_task_poll_once_witness:
  "lpp_task_poll (\<lambda>c e st. Inl (Panic ''not run'')) done_task 0x20000 = Inr (1, done_task)"
proof -
  have "lpp_task_poll (\<lambda>c e st. Inr (7, st)) new_task 0x20000 = Inr (1, done_task)"
    by (simp add: lpp_task_poll_def task_obj_def get_word_def set_task_state_def set_word_def get_obj_def word_at_def
        set_obj_def)
  from lpp_task_poll_once [OF this] show ?thesis by blast
qed

text \<open>The non-atomic release the compiler emits for single-threaded programs does exactly what the atomic one does,
  errors included, although it looks up the arena only after the count has dropped to zero.\<close>

theorem lpp_arc_release_local_eq:
  "lpp_arc_release_local n st p = lpp_arc_release n st p \<and> lpp_arc_retain_local st p = lpp_arc_retain st p"
proof -
  have "lpp_arena_for_header (set_obj p b st) p = lpp_arena_for_header st p" for b
    by (simp add: lpp_arena_for_header_def)
  moreover have "(if \<not> c then x else y) = (if c then y else x)" for c and x y :: "arc_state res" by simp
  ultimately show ?thesis
    by (cases n) (simp_all add: lpp_arc_retain_local_def lpp_arc_retain_def Let_def set_obj_def cong: if_cong)
qed

end
