(* ===== verification/Lpp_Arc_Fs.thy ===== *)
theory Lpp_Arc_Fs
  imports Lpp_Arc
begin

text \<open>
  The object allocator and reference counting of the freestanding runtime (\<^verbatim>\<open>runtime/linux_x86_64_min.c\<close>):
  size-class free lists threaded through the dead blocks, a bump pointer into 1 MiB chunks, one \<open>mmap\<close> region per large
  object; weak handles, arenas, closures, tuples and tasks on top of it.
  Addresses are natural numbers below \<open>2 ^ 47\<close>; a payload pointer is its header's address plus 24. A block stays readable
  on its free list: its first eight bytes, which are \<open>magic\<close> and \<open>refcount\<close> of the header, hold the link, the rest of the header
  is left. An unmapped block is no longer there, and touching it is a \<open>Fault\<close>. The address the kernel returns for an
  \<open>mmap\<close> is an argument of the operation, 0 standing for failure.
\<close>

section \<open>Blocks\<close>

record fs_obj =
  fmagic :: u32
  frefcount :: u32
  fgeneration :: u32
  map_size :: u32
  fdestructor :: dtor
  fwords :: "i64 list"

record fs_state =
  blocks :: "nat \<rightharpoonup> fs_obj"
  free_heads :: "nat \<Rightarrow> nat"
  bump_cursor :: nat
  bump_left :: nat
  fgen_counter :: u32
  fregions :: "(nat \<times> u32 \<times> (nat \<times> nat) list) list"

definition LPP_HEADER :: nat where
  "LPP_HEADER = 24"

definition LPP_CHUNK_BYTES :: nat where
  "LPP_CHUNK_BYTES = 1024 * 1024"

definition LPP_SIZE_CLASSES :: nat where
  "LPP_SIZE_CLASSES = 8"

definition lpp_class_bytes :: "nat \<Rightarrow> nat" where
  "lpp_class_bytes cls = 32 * 2 ^ cls"

function class_loop :: "nat \<Rightarrow> nat \<Rightarrow> nat" where
  "class_loop need cls = (if cls < LPP_SIZE_CLASSES \<and> lpp_class_bytes cls < need then class_loop need (Suc cls) else cls)"
  by pat_completeness auto

termination class_loop
  by (relation "measure (\<lambda>(_, cls). LPP_SIZE_CLASSES - cls)") auto

declare class_loop.simps [simp del]

definition lpp_class_for :: "nat \<Rightarrow> nat" where
  "lpp_class_for need = class_loop need 0"

definition page_round :: "nat \<Rightarrow> nat" where
  "page_round n = (n + 4095) div 4096 * 4096"

text \<open>The link in the first eight bytes of a dead block.\<close>

definition link :: "fs_obj \<Rightarrow> nat" where
  "link b = unat (fmagic b) + 2 ^ 32 * unat (frefcount b)"

definition set_link :: "nat \<Rightarrow> fs_obj \<Rightarrow> fs_obj" where
  "set_link a b = b\<lparr>fmagic := of_nat (a mod 2 ^ 32), frefcount := of_nat (a div 2 ^ 32)\<rparr>"

definition get_block :: "fs_state \<Rightarrow> nat \<Rightarrow> fs_obj res" where
  "get_block st h = (case blocks st h of None \<Rightarrow> Inl (Fault ''header of unmapped memory'') | Some b \<Rightarrow> Inr b)"

definition set_block :: "nat \<Rightarrow> fs_obj \<Rightarrow> fs_state \<Rightarrow> fs_state" where
  "set_block h b st = st\<lparr>blocks := (blocks st)(h \<mapsto> b)\<rparr>"

section \<open>Allocation\<close>

text \<open>The zeroed block with its header, \<open>bytes\<close> long.\<close>

definition fresh_block :: "fs_state \<Rightarrow> nat \<Rightarrow> u32 \<Rightarrow> dtor \<Rightarrow> fs_obj" where
  "fresh_block st bytes tag d = \<lparr>fmagic = LPP_ARC_MAGIC, frefcount = 1, fgeneration = fgen_counter st + 1, map_size = tag,
     fdestructor = d, fwords = replicate ((bytes - LPP_HEADER) div 8) 0\<rparr>"

definition place_block :: "fs_state \<Rightarrow> nat \<Rightarrow> nat \<Rightarrow> u32 \<Rightarrow> dtor \<Rightarrow> nat \<times> fs_state" where
  "place_block st h bytes tag d =
     (h + LPP_HEADER, (set_block h (fresh_block st bytes tag d) st)\<lparr>fgen_counter := fgen_counter st + 1\<rparr>)"

definition lpp_arc_alloc_with_destructor_fs :: "fs_state \<Rightarrow> nat \<Rightarrow> int \<Rightarrow> dtor \<Rightarrow> (nat \<times> fs_state) res" where
  "lpp_arc_alloc_with_destructor_fs st m payload_size d =
     (if payload_size < 0 then Inr (0, st)
      else let need = nat payload_size + LPP_HEADER; cls = lpp_class_for need
           in if cls \<ge> LPP_SIZE_CLASSES
              then let total = page_round need
                   in if m = 0 then Inr (0, st) else Inr (place_block st m total (of_nat total) d)
              else let bytes = lpp_class_bytes cls; h = free_heads st cls
                   in if h \<noteq> 0
                      then bind_res (get_block st h) (\<lambda>b.
                        Inr (place_block (st\<lparr>free_heads := (free_heads st)(cls := link b)\<rparr>) h bytes (of_nat (cls + 1)) d))
                      else if bump_left st < bytes
                      then (if m = 0 then Inr (0, st)
                            else Inr (place_block (st\<lparr>bump_cursor := m + bytes, bump_left := LPP_CHUNK_BYTES - bytes\<rparr>)
                                        m bytes (of_nat (cls + 1)) d))
                      else Inr (place_block (st\<lparr>bump_cursor := bump_cursor st + bytes, bump_left := bump_left st - bytes\<rparr>)
                                  (bump_cursor st) bytes (of_nat (cls + 1)) d))"

definition lpp_arc_alloc_fs :: "fs_state \<Rightarrow> nat \<Rightarrow> int \<Rightarrow> (nat \<times> fs_state) res" where
  "lpp_arc_alloc_fs st m payload_size = lpp_arc_alloc_with_destructor_fs st m payload_size DNone"

text \<open>\<open>munmap\<close> of \<open>map_size\<close> bytes removes the block; a size that was truncated to 32 bits unmaps less, which is left open
  here.\<close>

definition lpp_arc_free :: "fs_state \<Rightarrow> nat \<Rightarrow> fs_state res" where
  "lpp_arc_free st h = bind_res (get_block st h) (\<lambda>b.
     let tag = unat (map_size b)
     in if tag \<ge> 1 \<and> tag \<le> LPP_SIZE_CLASSES
        then let cls = tag - 1
             in Inr ((set_block h (set_link (free_heads st cls) b) st)\<lparr>free_heads := (free_heads st)(cls := h)\<rparr>)
        else Inr (st\<lparr>blocks := (blocks st)(h := None)\<rparr>))"

section \<open>Weak handles\<close>

definition lpp_is_immortal_fs :: "fs_obj \<Rightarrow> bool" where
  "lpp_is_immortal_fs b \<longleftrightarrow> fmagic b = LPP_ARC_IMMORTAL \<and> frefcount b = LPP_ARC_IMMORTAL"

definition lpp_weak_generation_fs :: "fs_state \<Rightarrow> nat \<Rightarrow> i64 res" where
  "lpp_weak_generation_fs st p = (if p = 0 then Inr 0
     else bind_res (get_block st (p - LPP_HEADER)) (\<lambda>b.
       if lpp_is_immortal_fs b then Inr (ucast LPP_ARC_IMMORTAL) else Inr (scast (fgeneration b))))"

definition lpp_weak_get_fs :: "fs_state \<Rightarrow> nat \<Rightarrow> i64 \<Rightarrow> nat res" where
  "lpp_weak_get_fs st raw expected = (if raw = 0 \<or> expected = 0 then Inr 0
     else bind_res (get_block st (raw - LPP_HEADER)) (\<lambda>b.
       if lpp_is_immortal_fs b then Inr (if expected = ucast LPP_ARC_IMMORTAL then raw else 0)
       else if scast (fgeneration b) \<noteq> expected then Inr 0 else Inr raw))"

section \<open>Children\<close>

definition fword_at :: "fs_obj \<Rightarrow> nat \<Rightarrow> i64 res" where
  "fword_at b i = (if i < length (fwords b) then Inr (fwords b ! i) else Inl (Fault ''field outside the block''))"

fun fword_list :: "fs_obj \<Rightarrow> nat list \<Rightarrow> nat list res" where
  "fword_list b [] = Inr []"
| "fword_list b (i # is) = bind_res (fword_at b i) (\<lambda>w. bind_res (fword_list b is) (\<lambda>ws. Inr (unat w # ws)))"

definition lpp_closure_destroy_fs :: "fs_obj \<Rightarrow> nat list res" where
  "lpp_closure_destroy_fs b = fword_list b [1]"

definition lpp_tuple_destroy_fs :: "fs_obj \<Rightarrow> nat list res" where
  "lpp_tuple_destroy_fs b = bind_res (fword_at b 0) (\<lambda>mmask. bind_res (fword_at b 1) (\<lambda>packed.
     let offs = tuple_offsets mmask packed
     in if list_all (\<lambda>n. n mod 8 = 0) offs then fword_list b (map (\<lambda>n. n div 8) offs)
        else Inl (Fault ''unaligned field'')))"

text \<open>Here \<open>state\<close> and \<open>result_managed\<close> are words 3 and 4 of a task.\<close>

definition lpp_task_payload_destroy_fs :: "fs_obj \<Rightarrow> nat list res" where
  "lpp_task_payload_destroy_fs b =
     bind_res (fword_at b 1) (\<lambda>environment. bind_res (fword_at b 2) (\<lambda>result.
       bind_res (fword_at b 3) (\<lambda>state. bind_res (fword_at b 4) (\<lambda>managed.
         Inr ((if environment \<noteq> 0 then [unat environment] else []) @
              (if state = 2 \<and> managed \<noteq> 0 \<and> result \<noteq> 0 then [unat result] else []))))))"

definition children_fs :: "fs_obj \<Rightarrow> nat list res" where
  "children_fs b = (case fdestructor b of
     DNone \<Rightarrow> Inr []
   | DClosure \<Rightarrow> lpp_closure_destroy_fs b
   | DTuple \<Rightarrow> lpp_tuple_destroy_fs b
   | DTask \<Rightarrow> lpp_task_payload_destroy_fs b
   | DFields is \<Rightarrow> fword_list b is)"

section \<open>Retain and release\<close>

definition lpp_arc_retain_fs :: "fs_state \<Rightarrow> nat \<Rightarrow> fs_state res" where
  "lpp_arc_retain_fs st p = (if p = 0 then Inr st
     else bind_res (get_block st (p - LPP_HEADER)) (\<lambda>b.
       if lpp_is_immortal_fs b then Inr st
       else Inr (set_block (p - LPP_HEADER) (b\<lparr>frefcount := frefcount b + 1\<rparr>) st)))"

text \<open>A region is its address, its reference count and its records (header of the node, address of the record).\<close>

definition lpp_arena_for_header_fs :: "fs_state \<Rightarrow> nat \<Rightarrow> nat option" where
  "lpp_arena_for_header_fs st h = map_option fst (find (\<lambda>(_, _, rs). h \<in> set (map fst rs)) (fregions st))"

definition find_region_fs :: "fs_state \<Rightarrow> nat \<Rightarrow> (u32 \<times> (nat \<times> nat) list) res" where
  "find_region_fs st a = (case map_of (fregions st) a of None \<Rightarrow> Inl (Fault ''arena region that is not live'') | Some r \<Rightarrow> Inr r)"

definition set_region_fs :: "nat \<Rightarrow> u32 \<times> (nat \<times> nat) list \<Rightarrow> fs_state \<Rightarrow> fs_state" where
  "set_region_fs a r st = st\<lparr>fregions := map (\<lambda>q. if fst q = a then (a, r) else q) (fregions st)\<rparr>"

definition lpp_arena_destroy_fs :: "(fs_state \<Rightarrow> nat \<Rightarrow> fs_state res) \<Rightarrow> fs_state \<Rightarrow> nat \<Rightarrow> (nat \<times> nat) list \<Rightarrow> fs_state res" where
  "lpp_arena_destroy_fs release st a rs =
     bind_res (fold_res (\<lambda>st (h, record). bind_res (lpp_arc_free st h) (\<lambda>st. release st record)) rs
       (st\<lparr>fregions := filter (\<lambda>q. fst q \<noteq> a) (fregions st)\<rparr>)) (\<lambda>st. release st a)"

definition lpp_arena_node_zero_fs :: "(fs_state \<Rightarrow> nat \<Rightarrow> fs_state res) \<Rightarrow> fs_state \<Rightarrow> nat \<Rightarrow> fs_state res" where
  "lpp_arena_node_zero_fs release st a = bind_res (find_region_fs st a) (\<lambda>(n, rs).
     let st = set_region_fs a (n - 1, rs) st
     in if n - 1 = 0 then lpp_arena_destroy_fs release st a rs else Inr st)"

fun lpp_arc_release_fs :: "nat \<Rightarrow> fs_state \<Rightarrow> nat \<Rightarrow> fs_state res" where
  "lpp_arc_release_fs 0 st p = Inl (Fault ''release recursion too deep'')"
| "lpp_arc_release_fs (Suc n) st p = (if p = 0 then Inr st
     else let h = p - LPP_HEADER
          in bind_res (get_block st h) (\<lambda>b.
            if lpp_is_immortal_fs b then Inr st
            else let arena = lpp_arena_for_header_fs st h; b = b\<lparr>frefcount := frefcount b - 1\<rparr>
                 in if frefcount b \<noteq> 0 then Inr (set_block h b st)
                    else let b = b\<lparr>fgeneration := fgeneration b + 1, fmagic := 0\<rparr>; st = set_block h b st
                         in bind_res (children_fs b) (\<lambda>cs.
                              bind_res (fold_res (lpp_arc_release_fs n) cs st) (\<lambda>st.
                                case arena of Some a \<Rightarrow> lpp_arena_node_zero_fs (lpp_arc_release_fs n) st a
                                | None \<Rightarrow> lpp_arc_free st h))))"

definition lpp_arc_retain_local_fs :: "fs_state \<Rightarrow> nat \<Rightarrow> fs_state res" where
  "lpp_arc_retain_local_fs st p = (if p = 0 then Inr st
     else bind_res (get_block st (p - LPP_HEADER)) (\<lambda>b.
       if lpp_is_immortal_fs b then Inr st
       else Inr (set_block (p - LPP_HEADER) (b\<lparr>frefcount := frefcount b + 1\<rparr>) st)))"

text \<open>The local release does not clear the magic.\<close>

definition lpp_arc_release_local_fs :: "nat \<Rightarrow> fs_state \<Rightarrow> nat \<Rightarrow> fs_state res" where
  "lpp_arc_release_local_fs n st p = (if p = 0 then Inr st
     else let h = p - LPP_HEADER
          in bind_res (get_block st h) (\<lambda>b.
            if lpp_is_immortal_fs b then Inr st
            else let b = b\<lparr>frefcount := frefcount b - 1\<rparr>
                 in if frefcount b \<noteq> 0 then Inr (set_block h b st)
                    else let arena = lpp_arena_for_header_fs st h; b = b\<lparr>fgeneration := fgeneration b + 1\<rparr>; st = set_block h b st
                         in bind_res (children_fs b) (\<lambda>cs.
                              bind_res (fold_res (lpp_arc_release_fs n) cs st) (\<lambda>st.
                                case arena of Some a \<Rightarrow> lpp_arena_node_zero_fs (lpp_arc_release_fs n) st a
                                | None \<Rightarrow> lpp_arc_free st h))))"

definition lpp_alloc_fs :: "fs_state \<Rightarrow> nat \<Rightarrow> int \<Rightarrow> (nat \<times> fs_state) res" where
  "lpp_alloc_fs st m n = lpp_arc_alloc_fs st m n"

definition lpp_free_fs :: "nat \<Rightarrow> fs_state \<Rightarrow> nat \<Rightarrow> int \<Rightarrow> fs_state res" where
  "lpp_free_fs n st p sz = lpp_arc_release_fs n st p"

section \<open>Arenas\<close>

definition lpp_arena_begin_fs :: "fs_state \<Rightarrow> nat \<Rightarrow> (nat \<times> fs_state) res" where
  "lpp_arena_begin_fs st m = bind_res (lpp_arc_alloc_fs st m 24) (\<lambda>(a, st).
     if a = 0 then Inr (0, st) else Inr (a, st\<lparr>fregions := (a, 1, []) # fregions st\<rparr>))"

definition lpp_arena_release_fs :: "nat \<Rightarrow> fs_state \<Rightarrow> nat \<Rightarrow> fs_state res" where
  "lpp_arena_release_fs n st a = (if a = 0 then Inr st else lpp_arena_node_zero_fs (lpp_arc_release_fs n) st a)"

definition lpp_arena_alloc_fs :: "nat \<Rightarrow> fs_state \<Rightarrow> nat \<Rightarrow> nat \<Rightarrow> int \<Rightarrow> nat \<Rightarrow> dtor \<Rightarrow> (nat \<times> fs_state) res" where
  "lpp_arena_alloc_fs n st m m' sz a d =
     (if a = 0 \<or> sz < 0 then Inr (0, st)
      else bind_res (lpp_arc_alloc_with_destructor_fs st m sz d) (\<lambda>(p, st).
        if p = 0 then Inr (0, st)
        else bind_res (lpp_arc_alloc_fs st m' 16) (\<lambda>(record, st).
          if record = 0 then bind_res (lpp_arc_release_fs n st p) (\<lambda>st. Inr (0, st))
          else bind_res (find_region_fs st a) (\<lambda>(k, rs).
            Inr (p, set_region_fs a (k + 1, (p - LPP_HEADER, record) # rs) st)))))"

definition lpp_arena_retain_fs :: "fs_state \<Rightarrow> nat \<Rightarrow> fs_state res" where
  "lpp_arena_retain_fs st p = (if p = 0 then Inr st
     else if lpp_arena_for_header_fs st (p - LPP_HEADER) = None then Inr st else lpp_arc_retain_fs st p)"

definition lpp_arena_release_node_fs :: "nat \<Rightarrow> fs_state \<Rightarrow> nat \<Rightarrow> fs_state res" where
  "lpp_arena_release_node_fs n st p = (if p = 0 then Inr st
     else let h = p - LPP_HEADER
          in case lpp_arena_for_header_fs st h of None \<Rightarrow> Inr st
             | Some a \<Rightarrow> bind_res (get_block st h) (\<lambda>b.
                 if lpp_is_immortal_fs b then Inr st
                 else let b = b\<lparr>frefcount := frefcount b - 1\<rparr>
                      in if frefcount b \<noteq> 0 then Inr (set_block h b st)
                         else let b = b\<lparr>fgeneration := fgeneration b + 1\<rparr>; st = set_block h b st
                              in bind_res (children_fs b) (\<lambda>cs.
                                   bind_res (fold_res (lpp_arc_release_fs n) cs st) (\<lambda>st.
                                     lpp_arena_node_zero_fs (lpp_arc_release_fs n) st a))))"

section \<open>Tuples and tasks\<close>

definition fset_word :: "nat \<Rightarrow> nat \<Rightarrow> i64 \<Rightarrow> fs_state \<Rightarrow> fs_state res" where
  "fset_word p i w st = bind_res (get_block st (p - LPP_HEADER)) (\<lambda>b.
     if i < length (fwords b) then Inr (set_block (p - LPP_HEADER) (b\<lparr>fwords := (fwords b)[i := w]\<rparr>) st)
     else Inl (Fault ''field outside the block''))"

definition fget_word :: "nat \<Rightarrow> nat \<Rightarrow> fs_state \<Rightarrow> i64 res" where
  "fget_word p i st = bind_res (get_block st (p - LPP_HEADER)) (\<lambda>b. fword_at b i)"

definition lpp_tuple_alloc_fs :: "fs_state \<Rightarrow> nat \<Rightarrow> int \<Rightarrow> i64 \<Rightarrow> i64 \<Rightarrow> (nat \<times> fs_state) res" where
  "lpp_tuple_alloc_fs st m sz mmask offsets =
     (if sz < 16 then Inl (Exited 101)
      else bind_res (lpp_arc_alloc_with_destructor_fs st m sz DTuple) (\<lambda>(t, st).
        if t = 0 then Inl (Exited 101)
        else bind_res (fset_word t 0 mmask st) (\<lambda>st. bind_res (fset_word t 1 offsets st) (\<lambda>st. Inr (t, st)))))"

definition lpp_task_new_fs :: "fs_state \<Rightarrow> nat \<Rightarrow> i64 \<Rightarrow> i64 \<Rightarrow> i64 \<Rightarrow> (nat \<times> fs_state) res" where
  "lpp_task_new_fs st m code environment managed =
     (if code = 0 \<or> environment = 0 then Inl (Exited 101)
      else bind_res (lpp_arc_alloc_with_destructor_fs st m 40 DTask) (\<lambda>(t, st).
        if t = 0 then Inl (Exited 101)
        else bind_res (fset_word t 0 code st) (\<lambda>st. bind_res (fset_word t 1 environment st) (\<lambda>st.
          bind_res (fset_word t 4 (if managed \<noteq> 0 then 1 else 0) st) (\<lambda>st. Inr (t, st))))))"

type_synonym task_code_fs = "i64 \<Rightarrow> i64 \<Rightarrow> fs_state \<Rightarrow> (i64 \<times> fs_state) res"

definition lpp_task_poll_fs :: "task_code_fs \<Rightarrow> fs_state \<Rightarrow> nat \<Rightarrow> (i64 \<times> fs_state) res" where
  "lpp_task_poll_fs run st t = (if t = 0 then Inl (Exited 101)
     else bind_res (fget_word t 3 st) (\<lambda>s.
       if s = 1 then Inl (Exited 101)
       else if s = 2 then Inr (1, st)
       else bind_res (fset_word t 3 1 st) (\<lambda>st.
         bind_res (fget_word t 0 st) (\<lambda>code. bind_res (fget_word t 1 st) (\<lambda>environment.
           bind_res (run code environment st) (\<lambda>(r, st).
             bind_res (fset_word t 2 r st) (\<lambda>st.
               bind_res (fset_word t 3 2 st) (\<lambda>st. Inr (1, st)))))))))"

definition lpp_executor_run_fs :: "task_code_fs \<Rightarrow> fs_state \<Rightarrow> nat \<Rightarrow> (i64 \<times> fs_state) res" where
  "lpp_executor_run_fs run st t = bind_res (lpp_task_poll_fs run st t) (\<lambda>(_, st).
     bind_res (fget_word t 2 st) (\<lambda>r. Inr (r, st)))"

definition lpp_task_await_fs :: "task_code_fs \<Rightarrow> fs_state \<Rightarrow> nat \<Rightarrow> (i64 \<times> fs_state) res" where
  "lpp_task_await_fs run st t = bind_res (lpp_executor_run_fs run st t) (\<lambda>(r, st).
     bind_res (fget_word t 4 st) (\<lambda>managed.
       if managed \<noteq> 0 \<and> r \<noteq> 0 then bind_res (lpp_arc_retain_fs st (unat r)) (\<lambda>st. Inr (r, st)) else Inr (r, st)))"

definition lpp_task_destroy_fs :: "nat \<Rightarrow> fs_state \<Rightarrow> nat \<Rightarrow> fs_state res" where
  "lpp_task_destroy_fs n st t = lpp_arc_release_fs n st t"

section \<open>Block layout\<close>

definition bsize :: "fs_obj \<Rightarrow> nat" where
  "bsize b = (let tag = unat (map_size b) in if 1 \<le> tag \<and> tag \<le> LPP_SIZE_CLASSES then lpp_class_bytes (tag - 1) else tag)"

definition span :: "nat \<Rightarrow> fs_obj \<Rightarrow> nat set" where
  "span h b = {h..<h + bsize b}"

fun chain :: "(nat \<rightharpoonup> fs_obj) \<Rightarrow> nat \<Rightarrow> nat list \<Rightarrow> bool" where
  "chain bl x [] \<longleftrightarrow> x = 0"
| "chain bl x (a # as) \<longleftrightarrow> x = a \<and> a \<noteq> 0 \<and> (\<exists>b. bl a = Some b \<and> chain bl (link b) as)"

text \<open>
  The allocator invariant for the live blocks \<open>L\<close> and the free lists \<open>fl\<close>: blocks do not overlap each other or the unused
  part of the chunk, the free lists are well linked, and every block is live or on the list of its class.
\<close>

definition blocks_ok :: "fs_state \<Rightarrow> bool" where
  "blocks_ok st \<longleftrightarrow>
     (\<forall>h b. blocks st h = Some b \<longrightarrow> 0 < h \<and> h + bsize b \<le> 2 ^ 47 \<and> 32 \<le> bsize b \<and>
        span h b \<inter> {bump_cursor st..<bump_cursor st + bump_left st} = {}) \<and>
     (\<forall>h b h' b'. blocks st h = Some b \<longrightarrow> blocks st h' = Some b' \<longrightarrow> h \<noteq> h' \<longrightarrow> span h b \<inter> span h' b' = {}) \<and>
     (bump_left st \<noteq> 0 \<longrightarrow> 0 < bump_cursor st \<and> bump_cursor st + bump_left st \<le> 2 ^ 47)"

definition lists_ok :: "fs_state \<Rightarrow> (nat \<Rightarrow> nat list) \<Rightarrow> bool" where
  "lists_ok st fl \<longleftrightarrow> (\<forall>c < LPP_SIZE_CLASSES. chain (blocks st) (free_heads st c) (fl c) \<and> distinct (fl c) \<and>
     (\<forall>h \<in> set (fl c). \<exists>b. blocks st h = Some b \<and> unat (map_size b) = Suc c))"

definition alloc_ok :: "fs_state \<Rightarrow> nat set \<Rightarrow> (nat \<Rightarrow> nat list) \<Rightarrow> bool" where
  "alloc_ok st L fl \<longleftrightarrow> blocks_ok st \<and> lists_ok st fl \<and> L \<subseteq> dom (blocks st) \<and> (\<forall>c < LPP_SIZE_CLASSES. L \<inter> set (fl c) = {})"

lemma alloc_okD:
  assumes "alloc_ok st L fl" "c < LPP_SIZE_CLASSES"
  shows "chain (blocks st) (free_heads st c) (fl c)" "distinct (fl c)" "h \<in> set (fl c) \<Longrightarrow> h \<notin> L"
    "h \<in> set (fl c) \<Longrightarrow> \<exists>b. blocks st h = Some b \<and> unat (map_size b) = Suc c"
  using assms unfolding alloc_ok_def lists_ok_def by blast+

lemma link_set_link [simp]: "a < 2 ^ 47 \<Longrightarrow> link (set_link a b) = a"
proof -
  assume a: "a < 2 ^ 47"
  have "a div 2 ^ 32 < 2 ^ 32" using a by (simp add: div_less_iff_less_mult)
  then show ?thesis by (simp add: link_def set_link_def unat_of_nat)
qed

lemma set_link_keeps [simp]: "map_size (set_link a b) = map_size b" "fgeneration (set_link a b) = fgeneration b"
    "bsize (set_link a b) = bsize b" "span h (set_link a b) = span h b"
  by (simp_all add: set_link_def bsize_def span_def)

lemma chain_upd: "a \<notin> set as \<Longrightarrow> chain (bl(a := v)) x as = chain bl x as"
  by (induction as arbitrary: x) auto

lemma class_loop_ok:
  "cls \<le> LPP_SIZE_CLASSES \<Longrightarrow> class_loop need cls \<le> LPP_SIZE_CLASSES \<and>
     (class_loop need cls < LPP_SIZE_CLASSES \<longrightarrow> need \<le> lpp_class_bytes (class_loop need cls))"
proof (induction "LPP_SIZE_CLASSES - cls" arbitrary: cls)
  case 0
  then show ?case by (simp add: class_loop.simps)
next
  case (Suc n)
  then show ?case using Suc(1) [of "Suc cls"] by (subst (1 2 3) class_loop.simps) (auto simp: not_less)
qed

lemma class_for_bytes: "lpp_class_for need < LPP_SIZE_CLASSES \<Longrightarrow> need \<le> lpp_class_bytes (lpp_class_for need)"
  using class_loop_ok [of 0 need] by (simp add: lpp_class_for_def)

lemma class_bytes_bounds: "32 \<le> lpp_class_bytes c" "c < LPP_SIZE_CLASSES \<Longrightarrow> lpp_class_bytes c \<le> LPP_CHUNK_BYTES"
proof -
  show "32 \<le> lpp_class_bytes c" by (simp add: lpp_class_bytes_def)
  assume "c < LPP_SIZE_CLASSES"
  then have "(2 :: nat) ^ c \<le> 2 ^ 8" by (intro power_increasing) (auto simp: LPP_SIZE_CLASSES_def)
  then show "lpp_class_bytes c \<le> LPP_CHUNK_BYTES" by (simp add: lpp_class_bytes_def LPP_CHUNK_BYTES_def)
qed

lemma page_round_ge: "n \<le> page_round n" "page_round n \<le> n + 4095"
proof -
  have "page_round n + (n + 4095) mod 4096 = n + 4095" unfolding page_round_def by (rule div_mult_mod_eq)
  moreover have "(n + 4095) mod 4096 < 4096" by simp
  ultimately show "n \<le> page_round n" "page_round n \<le> n + 4095" by linarith+
qed

section \<open>Placing and freeing\<close>

lemma class_tag: "c < LPP_SIZE_CLASSES \<Longrightarrow> unat (of_nat (c + 1) :: u32) = Suc c"
  by (simp add: LPP_SIZE_CLASSES_def unat_of_nat del: of_nat_add of_nat_Suc)

lemma bsize_fresh:
  "c < LPP_SIZE_CLASSES \<Longrightarrow> bsize (fresh_block st n (of_nat (c + 1)) d) = lpp_class_bytes c"
  "LPP_SIZE_CLASSES < t \<Longrightarrow> t < 2 ^ 32 \<Longrightarrow> bsize (fresh_block st n (of_nat t) d) = t"
proof -
  show "c < LPP_SIZE_CLASSES \<Longrightarrow> bsize (fresh_block st n (of_nat (c + 1)) d) = lpp_class_bytes c"
    using class_tag [of c] by (simp add: bsize_def fresh_block_def)
  assume t: "LPP_SIZE_CLASSES < t" "t < 2 ^ 32"
  then have "unat (of_nat t :: u32) = t" by (simp add: unat_of_nat)
  then show "bsize (fresh_block st n (of_nat t) d) = t" using t by (simp add: bsize_def fresh_block_def)
qed

text \<open>A block put on unused memory.\<close>

lemma place_fs_ok:
  assumes ok: "alloc_ok st L fl" and new: "blocks st h = None" "0 < h" "h + bsize b \<le> 2 ^ 47" "32 \<le> bsize b"
    and free: "\<And>h' b'. blocks st h' = Some b' \<Longrightarrow> span h b \<inter> span h' b' = {}"
    and st': "blocks st' = (blocks st)(h \<mapsto> b)" "free_heads st' = free_heads st"
    and bump: "span h b \<inter> {bump_cursor st'..<bump_cursor st' + bump_left st'} = {}"
      "\<And>h' b'. blocks st h' = Some b' \<Longrightarrow> span h' b' \<inter> {bump_cursor st'..<bump_cursor st' + bump_left st'} = {}"
      "bump_left st' \<noteq> 0 \<Longrightarrow> 0 < bump_cursor st' \<and> bump_cursor st' + bump_left st' \<le> 2 ^ 47"
  shows "alloc_ok st' (insert h L) fl"
proof -
  have nf: "h \<notin> set (fl c)" if "c < LPP_SIZE_CLASSES" for c
    using alloc_okD(4) [OF ok that, of h] new(1) by auto
  have "blocks_ok st'" unfolding blocks_ok_def st'(1)
  proof (intro conjI allI impI)
    fix h1 b1 h2 b2 assume *: "((blocks st)(h \<mapsto> b)) h1 = Some b1" "((blocks st)(h \<mapsto> b)) h2 = Some b2" "h1 \<noteq> h2"
    show "span h1 b1 \<inter> span h2 b2 = {}"
      using * free [of h1 b1] free [of h2 b2] ok by (auto simp: alloc_ok_def blocks_ok_def split: if_splits)
  qed (use ok new bump in \<open>auto simp: alloc_ok_def blocks_ok_def split: if_splits\<close>)
  moreover have "lists_ok st' fl"
    using ok nf new(1) unfolding lists_ok_def alloc_ok_def st' by (auto simp: chain_upd)
  ultimately show ?thesis using ok nf by (auto simp: alloc_ok_def st'(1))
qed

text \<open>Taking the head of a free list.\<close>

lemma pop_ok:
  assumes ok: "alloc_ok st L fl" and c: "c < LPP_SIZE_CLASSES" and h: "free_heads st c = h" "h \<noteq> 0"
  obtains b rest where "blocks st h = Some b" "fl c = h # rest" "unat (map_size b) = Suc c" "h \<notin> L"
    "\<And>b' (st' :: fs_state). bsize b' = bsize b \<Longrightarrow> blocks st' = (blocks st)(h \<mapsto> b') \<Longrightarrow> free_heads st' = (free_heads st)(c := link b) \<Longrightarrow>
       bump_cursor st' = bump_cursor st \<Longrightarrow> bump_left st' = bump_left st \<Longrightarrow> alloc_ok st' (insert h L) (fl(c := rest))"
proof -
  have ch: "chain (blocks st) h (fl c)" "distinct (fl c)" using alloc_okD [OF ok c] h(1) by auto
  then obtain rest where f: "fl c = h # rest" using h(2) by (cases "fl c") auto
  obtain b where b: "blocks st h = Some b" "unat (map_size b) = Suc c" using alloc_okD(4) [OF ok c, of h] f by auto
  have nL: "h \<notin> L" using alloc_okD(3) [OF ok c, of h] f by simp
  have other: "h \<notin> set (fl c')" if "c' < LPP_SIZE_CLASSES" "c' \<noteq> c" for c'
    using alloc_okD(4) [OF ok that(1), of h] that(2) b by auto
  have rest: "h \<notin> set rest" "chain (blocks st) (link b) rest" using ch f b by auto
  show ?thesis
  proof (rule that [OF b(1) f b(2) nL])
    fix b' :: fs_obj and st' :: fs_state assume b': "bsize b' = bsize b" and st': "blocks st' = (blocks st)(h \<mapsto> b')" "free_heads st' = (free_heads st)(c := link b)"
      "bump_cursor st' = bump_cursor st" "bump_left st' = bump_left st"
    have sp: "span h b' = span h b" using b' by (simp add: span_def)
    have "blocks_ok st'" using ok b(1) b' sp unfolding alloc_ok_def blocks_ok_def st' by (auto split: if_splits)
    moreover have "lists_ok st' (fl(c := rest))" unfolding lists_ok_def
    proof (intro allI impI)
      fix c' assume c': "c' < LPP_SIZE_CLASSES"
      have l: "chain (blocks st) (free_heads st c') (fl c')" "distinct (fl c')"
          "\<forall>x \<in> set (fl c'). \<exists>b. blocks st x = Some b \<and> unat (map_size b) = Suc c'"
        using alloc_okD [OF ok c'] by auto
      show "chain (blocks st') (free_heads st' c') ((fl(c := rest)) c') \<and> distinct ((fl(c := rest)) c') \<and>
          (\<forall>x \<in> set ((fl(c := rest)) c'). \<exists>b. blocks st' x = Some b \<and> unat (map_size b) = Suc c')"
      proof (cases "c' = c")
        case True
        then show ?thesis using l f rest by (auto simp: st' chain_upd)
      next
        case False
        then show ?thesis using l other [OF c' False] by (auto simp: st' chain_upd)
      qed
    qed
    moreover have "insert h L \<inter> set ((fl(c := rest)) c') = {}" if "c' < LPP_SIZE_CLASSES" for c'
      using ok that other [OF that] rest f by (cases "c' = c") (fastforce simp: alloc_ok_def)+
    ultimately show "alloc_ok st' (insert h L) (fl(c := rest))" using ok b by (auto simp: alloc_ok_def st')
  qed
qed

section \<open>Allocation and release of blocks\<close>

text \<open>What the kernel promises of a new mapping: it overlaps nothing that is in use.\<close>

definition fresh_map :: "fs_state \<Rightarrow> nat \<Rightarrow> nat \<Rightarrow> bool" where
  "fresh_map st m n \<longleftrightarrow> 0 < m \<and> m + n \<le> 2 ^ 47 \<and> (\<forall>h b. blocks st h = Some b \<longrightarrow> {m..<m + n} \<inter> span h b = {}) \<and>
     {m..<m + n} \<inter> {bump_cursor st..<bump_cursor st + bump_left st} = {}"

definition map_need :: "int \<Rightarrow> nat" where
  "map_need sz = (let need = nat sz + LPP_HEADER
     in if lpp_class_for need < LPP_SIZE_CLASSES then LPP_CHUNK_BYTES else page_round need)"

lemma unused_block:
  assumes "alloc_ok st L fl" "0 < n" "\<And>h' b'. blocks st h' = Some b' \<Longrightarrow> {h..<h + n} \<inter> span h' b' = {}"
  shows "blocks st h = None" "h \<notin> L"
proof -
  show "blocks st h = None"
  proof (rule ccontr)
    assume "blocks st h \<noteq> None"
    then obtain b where b: "blocks st h = Some b" by auto
    then have "32 \<le> bsize b" using assms(1) by (auto simp: alloc_ok_def blocks_ok_def)
    then have "h \<in> {h..<h + n} \<inter> span h b" using assms(2) by (simp add: span_def)
    then show False using assms(3) [OF b] by blast
  qed
  then show "h \<notin> L" using assms(1) by (auto simp: alloc_ok_def)
qed

lemma place_block_simps:
  "place_block st h n t d = (p, st') \<Longrightarrow> p = h + LPP_HEADER \<and> blocks st' = (blocks st)(h \<mapsto> fresh_block st n t d) \<and>
    free_heads st' = free_heads st \<and> bump_cursor st' = bump_cursor st \<and> bump_left st' = bump_left st"
  by (auto simp: place_block_def set_block_def)

definition allocates :: "fs_state \<Rightarrow> nat set \<Rightarrow> int \<Rightarrow> (nat \<times> fs_state) res \<Rightarrow> bool" where
  "allocates st L sz r \<longleftrightarrow> (\<exists>h st' fl' b. r = Inr (h + LPP_HEADER, st') \<and> h \<notin> L \<and> alloc_ok st' (insert h L) fl' \<and>
     blocks st' = (blocks st)(h \<mapsto> b) \<and> LPP_HEADER + nat sz \<le> bsize b \<and> frefcount b = 1 \<and> set (fwords b) \<subseteq> {0})"

lemma place_allocates:
  assumes ok: "alloc_ok st L fl" and b: "b = fresh_block s n t d" "bsize b = n" "32 \<le> n" "LPP_HEADER + nat sz \<le> n"
    and h: "0 < h" "h + n \<le> 2 ^ 47" "\<And>h' b'. blocks st h' = Some b' \<Longrightarrow> {h..<h + n} \<inter> span h' b' = {}"
    and st': "blocks st' = (blocks st)(h \<mapsto> b)" "free_heads st' = free_heads st"
    and bump: "{h..<h + n} \<inter> {bump_cursor st'..<bump_cursor st' + bump_left st'} = {}"
      "\<And>h' b'. blocks st h' = Some b' \<Longrightarrow> span h' b' \<inter> {bump_cursor st'..<bump_cursor st' + bump_left st'} = {}"
      "bump_left st' \<noteq> 0 \<Longrightarrow> 0 < bump_cursor st' \<and> bump_cursor st' + bump_left st' \<le> 2 ^ 47"
  shows "allocates st L sz (Inr (h + LPP_HEADER, st'))"
proof -
  have sp: "span h b = {h..<h + n}" using b(2) by (simp add: span_def)
  have u: "blocks st h = None" "h \<notin> L" using unused_block [OF ok _ h(3)] b(3) by auto
  have "alloc_ok st' (insert h L) fl"
    using place_fs_ok [OF ok u(1) h(1) _ _ _ st', of] h b bump sp by simp
  moreover have "frefcount b = 1" "set (fwords b) \<subseteq> {0}" unfolding b(1) by (auto simp: fresh_block_def)
  ultimately show ?thesis using u(2) b(2,4) st'(1) unfolding allocates_def by blast
qed

lemma fresh_mapD:
  assumes "fresh_map st m n"
  shows "0 < m" "m + n \<le> 2 ^ 47" "\<And>h b. blocks st h = Some b \<Longrightarrow> {m..<m + n} \<inter> span h b = {}"
    "{m..<m + n} \<inter> {bump_cursor st..<bump_cursor st + bump_left st} = {}"
  using assms by (auto simp: fresh_map_def)

lemma bumpD:
  assumes "alloc_ok st L fl"
  shows "\<And>h b. blocks st h = Some b \<Longrightarrow> span h b \<inter> {bump_cursor st..<bump_cursor st + bump_left st} = {}"
    "bump_left st \<noteq> 0 \<Longrightarrow> 0 < bump_cursor st \<and> bump_cursor st + bump_left st \<le> 2 ^ 47"
  using assms by (auto simp: alloc_ok_def blocks_ok_def)

lemma class_fits:
  assumes "lpp_class_for need < LPP_SIZE_CLASSES"
  shows "need \<le> lpp_class_bytes (lpp_class_for need)" "32 \<le> lpp_class_bytes (lpp_class_for need)"
    "lpp_class_bytes (lpp_class_for need) \<le> LPP_CHUNK_BYTES"
  using class_for_bytes [OF assms] class_bytes_bounds assms by auto

lemma no_class_big: "\<not> lpp_class_for need < LPP_SIZE_CLASSES \<Longrightarrow> 4096 < need"
proof (rule ccontr)
  assume f: "\<not> lpp_class_for need < LPP_SIZE_CLASSES" and "\<not> 4096 < need"
  then have "need \<le> lpp_class_bytes 7" by (simp add: lpp_class_bytes_def)
  then have "class_loop need 0 \<le> 7" by (simp add: class_loop.simps LPP_SIZE_CLASSES_def lpp_class_bytes_def)
  then show False using f by (simp add: lpp_class_for_def LPP_SIZE_CLASSES_def)
qed

lemma alloc_large:
  assumes ok: "alloc_ok st L fl" and sz: "0 \<le> sz" "page_round (nat sz + LPP_HEADER) < 2 ^ 32"
    and m: "fresh_map st m (map_need sz)"
    and False: "\<not> lpp_class_for (nat sz + LPP_HEADER) < LPP_SIZE_CLASSES"
  shows "allocates st L sz (lpp_arc_alloc_with_destructor_fs st m sz d)"
proof -
  let ?need = "nat sz + LPP_HEADER" and ?c = "lpp_class_for (nat sz + LPP_HEADER)"
  note m0 = fresh_mapD [OF m]
  note bok = bumpD [OF ok]
  let ?t = "page_round ?need"
  note big = no_class_big [OF False]
  have t: "LPP_SIZE_CLASSES < ?t" "?need \<le> ?t" using page_round_ge(1) [of ?need] big by (simp_all add: LPP_SIZE_CLASSES_def)
  obtain p st' where p: "place_block st m ?t (of_nat ?t) d = (p, st')" by (cases "place_block st m ?t (of_nat ?t) d")
  note s = place_block_simps [OF p]
  have e: "lpp_arc_alloc_with_destructor_fs st m sz d = Inr (m + LPP_HEADER, st')"
    using sz(1) False m0(1) p s by (simp add: lpp_arc_alloc_with_destructor_fs_def Let_def)
  have n: "map_need sz = ?t" using False by (simp add: map_need_def Let_def)
  show ?thesis unfolding e
    by (rule place_allocates [OF ok refl bsize_fresh(2) [OF t(1) sz(2)]])
      (use s m0 bok t big n in \<open>auto simp: LPP_HEADER_def\<close>)
qed

lemma alloc_pop:
  assumes ok: "alloc_ok st L fl" and sz: "0 \<le> sz" "page_round (nat sz + LPP_HEADER) < 2 ^ 32"
    and m: "fresh_map st m (map_need sz)"
    and c: "lpp_class_for (nat sz + LPP_HEADER) < LPP_SIZE_CLASSES"
    and False: "free_heads st (lpp_class_for (nat sz + LPP_HEADER)) \<noteq> 0"
  shows "allocates st L sz (lpp_arc_alloc_with_destructor_fs st m sz d)"
proof -
  let ?need = "nat sz + LPP_HEADER" and ?c = "lpp_class_for (nat sz + LPP_HEADER)"
  let ?n = "lpp_class_bytes ?c"
  note need = class_fits [OF c]
  have mn: "map_need sz = LPP_CHUNK_BYTES" using c by (simp add: map_need_def Let_def)
  from pop_ok [OF ok c refl False] obtain b rest where b: "blocks st (free_heads st ?c) = Some b" "unat (map_size b) = Suc ?c" "free_heads st ?c \<notin> L"
    and all: "\<And>b' (st' :: fs_state). bsize b' = bsize b \<Longrightarrow> blocks st' = (blocks st)(free_heads st ?c \<mapsto> b') \<Longrightarrow>
       free_heads st' = (free_heads st)(?c := link b) \<Longrightarrow> bump_cursor st' = bump_cursor st \<Longrightarrow> bump_left st' = bump_left st \<Longrightarrow>
       alloc_ok st' (insert (free_heads st ?c) L) (fl(?c := rest))" by metis
  let ?st = "st\<lparr>free_heads := (free_heads st)(?c := link b)\<rparr>"
  obtain p st' where p: "place_block ?st (free_heads st ?c) ?n (of_nat (?c + 1)) d = (p, st')"
    by (cases "place_block ?st (free_heads st ?c) ?n (of_nat (?c + 1)) d")
  note s = place_block_simps [OF p]
  let ?b = "fresh_block ?st ?n (of_nat (?c + 1)) d"
  have e: "lpp_arc_alloc_with_destructor_fs st m sz d = Inr (free_heads st ?c + LPP_HEADER, st')"
    using sz(1) c False b p s by (simp add: lpp_arc_alloc_with_destructor_fs_def Let_def get_block_def)
  have bs: "bsize ?b = ?n" by (rule bsize_fresh(1) [OF c])
  have "bsize b = ?n" using b(2) c by (simp add: bsize_def LPP_SIZE_CLASSES_def)
  then have "alloc_ok st' (insert (free_heads st ?c) L) (fl(?c := rest))" using s bs by (intro all [of ?b]) simp_all
  moreover have "frefcount ?b = 1" "set (fwords ?b) \<subseteq> {0}" by (auto simp: fresh_block_def)
  moreover have "blocks st' = (blocks st)(free_heads st ?c \<mapsto> ?b)" using s by simp
  moreover have "LPP_HEADER + nat sz \<le> bsize ?b" using bs need(1) by simp
  ultimately show ?thesis unfolding e allocates_def using b(3) by blast
qed

lemma alloc_chunk:
  assumes ok: "alloc_ok st L fl" and sz: "0 \<le> sz" "page_round (nat sz + LPP_HEADER) < 2 ^ 32"
    and m: "fresh_map st m (map_need sz)"
    and c: "lpp_class_for (nat sz + LPP_HEADER) < LPP_SIZE_CLASSES"
    and True: "free_heads st (lpp_class_for (nat sz + LPP_HEADER)) = 0"
    and small: "bump_left st < lpp_class_bytes (lpp_class_for (nat sz + LPP_HEADER))"
  shows "allocates st L sz (lpp_arc_alloc_with_destructor_fs st m sz d)"
proof -
  let ?need = "nat sz + LPP_HEADER" and ?c = "lpp_class_for (nat sz + LPP_HEADER)"
  note m0 = fresh_mapD [OF m]
  let ?n = "lpp_class_bytes ?c"
  note need = class_fits [OF c]
  have mn: "map_need sz = LPP_CHUNK_BYTES" using c by (simp add: map_need_def Let_def)
  let ?st = "st\<lparr>bump_cursor := m + ?n, bump_left := LPP_CHUNK_BYTES - ?n\<rparr>"
  obtain p st' where p: "place_block ?st m ?n (of_nat (?c + 1)) d = (p, st')" by (cases "place_block ?st m ?n (of_nat (?c + 1)) d")
  note s = place_block_simps [OF p]
  have e: "lpp_arc_alloc_with_destructor_fs st m sz d = Inr (m + LPP_HEADER, st')"
    using sz(1) c True small m0(1) p s by (simp add: lpp_arc_alloc_with_destructor_fs_def Let_def)
  have sub: "{m..<m + ?n} \<subseteq> {m..<m + map_need sz}" "{m + ?n..<m + ?n + (LPP_CHUNK_BYTES - ?n)} \<subseteq> {m..<m + map_need sz}"
    using need(3) mn by auto
  have d: "\<And>h b. blocks st h = Some b \<Longrightarrow> {m..<m + ?n} \<inter> span h b = {}"
      "\<And>h b. blocks st h = Some b \<Longrightarrow> span h b \<inter> {m + ?n..<m + ?n + (LPP_CHUNK_BYTES - ?n)} = {}"
    using m0(3) sub by blast+
  show ?thesis unfolding e
    by (rule place_allocates [OF ok refl bsize_fresh(1) [OF c], where s = ?st])
      (use s m0(1,2) d need mn in simp_all)
qed

lemma alloc_bump:
  assumes ok: "alloc_ok st L fl" and sz: "0 \<le> sz" "page_round (nat sz + LPP_HEADER) < 2 ^ 32"
    and m: "fresh_map st m (map_need sz)"
    and c: "lpp_class_for (nat sz + LPP_HEADER) < LPP_SIZE_CLASSES"
    and True: "free_heads st (lpp_class_for (nat sz + LPP_HEADER)) = 0"
    and large: "\<not> bump_left st < lpp_class_bytes (lpp_class_for (nat sz + LPP_HEADER))"
  shows "allocates st L sz (lpp_arc_alloc_with_destructor_fs st m sz d)"
proof -
  let ?need = "nat sz + LPP_HEADER" and ?c = "lpp_class_for (nat sz + LPP_HEADER)"
  note bok = bumpD [OF ok]
  let ?n = "lpp_class_bytes ?c"
  note need = class_fits [OF c]
  have mn: "map_need sz = LPP_CHUNK_BYTES" using c by (simp add: map_need_def Let_def)
  let ?st = "st\<lparr>bump_cursor := bump_cursor st + ?n, bump_left := bump_left st - ?n\<rparr>"
  obtain p st' where p: "place_block ?st (bump_cursor st) ?n (of_nat (?c + 1)) d = (p, st')"
    by (cases "place_block ?st (bump_cursor st) ?n (of_nat (?c + 1)) d")
  note s = place_block_simps [OF p]
  have e: "lpp_arc_alloc_with_destructor_fs st m sz d = Inr (bump_cursor st + LPP_HEADER, st')"
    using sz(1) c True large p s by (simp add: lpp_arc_alloc_with_destructor_fs_def Let_def)
  have cur: "0 < bump_cursor st" "bump_cursor st + bump_left st \<le> 2 ^ 47" using bok(2) large need(2) by auto
  have sub: "{bump_cursor st..<bump_cursor st + ?n} \<subseteq> {bump_cursor st..<bump_cursor st + bump_left st}"
      "{bump_cursor st + ?n..<bump_cursor st + ?n + (bump_left st - ?n)} \<subseteq> {bump_cursor st..<bump_cursor st + bump_left st}"
    using large by auto
  have d: "\<And>h b. blocks st h = Some b \<Longrightarrow> {bump_cursor st..<bump_cursor st + ?n} \<inter> span h b = {}"
      "\<And>h b. blocks st h = Some b \<Longrightarrow> span h b \<inter> {bump_cursor st + ?n..<bump_cursor st + ?n + (bump_left st - ?n)} = {}"
    using bok(1) sub by blast+
  show ?thesis unfolding e
    by (rule place_allocates [OF ok refl bsize_fresh(1) [OF c], where s = ?st])
      (use s cur d need large in simp_all)
qed

lemma alloc_step:
  assumes ok: "alloc_ok st L fl" and sz: "0 \<le> sz" "page_round (nat sz + LPP_HEADER) < 2 ^ 32"
    and m: "fresh_map st m (map_need sz)"
  shows "allocates st L sz (lpp_arc_alloc_with_destructor_fs st m sz d)"
  using alloc_large [OF assms] alloc_pop [OF assms] alloc_chunk [OF assms] alloc_bump [OF assms] by blast

lemma block_bounds: "alloc_ok st L fl \<Longrightarrow> blocks st h = Some b \<Longrightarrow> 0 < h \<and> h < 2 ^ 47"
  unfolding alloc_ok_def blocks_ok_def by fastforce

lemma head_bound: "alloc_ok st L fl \<Longrightarrow> c < LPP_SIZE_CLASSES \<Longrightarrow> free_heads st c < 2 ^ 47"
  using alloc_okD(1) [of st L fl c] block_bounds [of st L fl "free_heads st c"] by (cases "fl c") auto

lemma live_not_listed: "alloc_ok st L fl \<Longrightarrow> h \<in> L \<Longrightarrow> c < LPP_SIZE_CLASSES \<Longrightarrow> h \<notin> set (fl c)"
  using alloc_okD(3) by blast

text \<open>Writing to a live block, as retain, release and field stores do, keeps the allocator's own data intact.\<close>

lemma write_ok:
  assumes ok: "alloc_ok st L fl" and h: "h \<in> L" "blocks st h = Some b" and b': "map_size b' = map_size b"
  shows "alloc_ok (set_block h b' st) L fl"
proof -
  have sp: "bsize b' = bsize b" "span h b' = span h b" using b' by (simp_all add: bsize_def span_def)
  have "blocks_ok (set_block h b' st)"
    using ok h sp unfolding alloc_ok_def blocks_ok_def set_block_def by (auto split: if_splits)
  moreover have "lists_ok (set_block h b' st) fl" unfolding lists_ok_def
  proof (intro allI impI)
    fix c assume c: "c < LPP_SIZE_CLASSES"
    show "chain (blocks (set_block h b' st)) (free_heads (set_block h b' st) c) (fl c) \<and> distinct (fl c) \<and>
        (\<forall>x \<in> set (fl c). \<exists>b. blocks (set_block h b' st) x = Some b \<and> unat (map_size b) = Suc c)"
      using alloc_okD [OF ok c] live_not_listed [OF ok h(1) c] by (auto simp: set_block_def chain_upd)
  qed
  ultimately show ?thesis using ok by (auto simp: alloc_ok_def set_block_def)
qed

lemma push_ok:
  assumes ok: "alloc_ok st L fl" and h: "h \<in> L" "blocks st h = Some b" "unat (map_size b) = Suc c" "c < LPP_SIZE_CLASSES" "link b = free_heads st c"
  shows "alloc_ok (st\<lparr>free_heads := (free_heads st)(c := h)\<rparr>) (L - {h}) (fl(c := h # fl c))"
proof -
  have "lists_ok (st\<lparr>free_heads := (free_heads st)(c := h)\<rparr>) (fl(c := h # fl c))" unfolding lists_ok_def
  proof (intro allI impI)
    fix c' assume c': "c' < LPP_SIZE_CLASSES"
    let ?st = "st\<lparr>free_heads := (free_heads st)(c := h)\<rparr>" and ?fl = "fl(c := h # fl c)"
    show "chain (blocks ?st) (free_heads ?st c') (?fl c') \<and> distinct (?fl c') \<and>
        (\<forall>x \<in> set (?fl c'). \<exists>b. blocks ?st x = Some b \<and> unat (map_size b) = Suc c')"
      using alloc_okD [OF ok c'] live_not_listed [OF ok h(1) h(4)] h block_bounds [OF ok h(2)] by auto
  qed
  moreover have "(L - {h}) \<inter> set ((fl(c := h # fl c)) c') = {}" if "c' < LPP_SIZE_CLASSES" for c'
    using live_not_listed [OF ok _ that] by (cases "c' = c") auto
  moreover have "blocks_ok (st\<lparr>free_heads := (free_heads st)(c := h)\<rparr>)" using ok by (simp add: alloc_ok_def blocks_ok_def)
  ultimately show ?thesis using ok by (auto simp: alloc_ok_def)
qed

lemma unmap_ok:
  assumes ok: "alloc_ok st L fl" and h: "h \<in> L"
  shows "alloc_ok (st\<lparr>blocks := (blocks st)(h := None)\<rparr>) (L - {h}) fl"
proof -
  have "blocks_ok (st\<lparr>blocks := (blocks st)(h := None)\<rparr>)"
    using ok unfolding alloc_ok_def blocks_ok_def by (auto split: if_splits)
  moreover have "lists_ok (st\<lparr>blocks := (blocks st)(h := None)\<rparr>) fl" unfolding lists_ok_def
  proof (intro allI impI)
    fix c assume c: "c < LPP_SIZE_CLASSES"
    show "chain (blocks (st\<lparr>blocks := (blocks st)(h := None)\<rparr>)) (free_heads (st\<lparr>blocks := (blocks st)(h := None)\<rparr>) c) (fl c) \<and>
        distinct (fl c) \<and> (\<forall>x \<in> set (fl c). \<exists>b. blocks (st\<lparr>blocks := (blocks st)(h := None)\<rparr>) x = Some b \<and> unat (map_size b) = Suc c)"
      using alloc_okD [OF ok c] live_not_listed [OF ok h c] by (auto simp: chain_upd)
  qed
  ultimately show ?thesis using ok by (auto simp: alloc_ok_def)
qed

lemma free_step:
  assumes ok: "alloc_ok st L fl" and h: "h \<in> L"
  shows "\<exists>st' fl'. lpp_arc_free st h = Inr st' \<and> alloc_ok st' (L - {h}) fl'"
proof -
  obtain b where b: "blocks st h = Some b" using ok h by (auto simp: alloc_ok_def)
  let ?t = "unat (map_size b)"
  show ?thesis
  proof (cases "1 \<le> ?t \<and> ?t \<le> LPP_SIZE_CLASSES")
    case True
    define c where "c = ?t - 1"
    have c: "?t = Suc c" "c < LPP_SIZE_CLASSES" using True by (auto simp: c_def)
    let ?b = "set_link (free_heads st c) b"
    let ?st = "set_block h ?b st"
    have "alloc_ok ?st L fl" using write_ok [OF ok h b] by simp
    moreover have "blocks ?st h = Some ?b" "free_heads ?st = free_heads st" by (simp_all add: set_block_def)
    ultimately have "alloc_ok (?st\<lparr>free_heads := (free_heads ?st)(c := h)\<rparr>) (L - {h}) (fl(c := h # fl c))"
      using c head_bound [OF ok c(2)] h by (intro push_ok [where b = ?b]) simp_all
    moreover have "lpp_arc_free st h = Inr (?st\<lparr>free_heads := (free_heads ?st)(c := h)\<rparr>)"
      using True b by (simp add: lpp_arc_free_def get_block_def Let_def c_def set_block_def)
    ultimately show ?thesis by blast
  next
    case False
    then have "lpp_arc_free st h = Inr (st\<lparr>blocks := (blocks st)(h := None)\<rparr>)"
      using b by (auto simp: lpp_arc_free_def get_block_def Let_def)
    then show ?thesis using unmap_ok [OF ok h] by blast
  qed
qed

section \<open>Sequences of allocator calls\<close>

inductive fs_step :: "fs_state \<times> nat set \<Rightarrow> fs_state \<times> nat set \<Rightarrow> bool" where
  Alloc: "0 \<le> sz \<Longrightarrow> page_round (nat sz + LPP_HEADER) < 2 ^ 32 \<Longrightarrow> fresh_map st m (map_need sz) \<Longrightarrow>
    lpp_arc_alloc_with_destructor_fs st m sz d = Inr (h + LPP_HEADER, st') \<Longrightarrow> fs_step (st, L) (st', insert h L)"
| Write: "h \<in> L \<Longrightarrow> blocks st h = Some b \<Longrightarrow> map_size b' = map_size b \<Longrightarrow> fs_step (st, L) (set_block h b' st, L)"
| Free: "h \<in> L \<Longrightarrow> lpp_arc_free st h = Inr st' \<Longrightarrow> fs_step (st, L) (st', L - {h})"

inductive_cases fs_stepE: "fs_step s t"

definition fs_initial :: fs_state where
  "fs_initial = \<lparr>blocks = Map.empty, free_heads = (\<lambda>c. 0), bump_cursor = 0, bump_left = 0, fgen_counter = 1, fregions = []\<rparr>"

definition fs_reachable :: "fs_state \<times> nat set \<Rightarrow> bool" where
  "fs_reachable t \<longleftrightarrow> fs_step\<^sup>*\<^sup>* (fs_initial, {}) t"

lemma fs_step_ok: "fs_step s t \<Longrightarrow> \<exists>fl. alloc_ok (fst s) (snd s) fl \<Longrightarrow> \<exists>fl. alloc_ok (fst t) (snd t) fl"
proof (induction rule: fs_step.induct)
  case (Alloc sz st m d h st' L)
  then obtain fl where "alloc_ok st L fl" by auto
  from alloc_step [OF this Alloc(1-3), of d] Alloc(4) show ?case by (auto simp: allocates_def)
next
  case (Write h L st b b')
  then show ?case using write_ok by fastforce
next
  case (Free h L st st')
  then obtain fl where "alloc_ok st L fl" by auto
  from free_step [OF this Free(1)] Free(2) show ?case by auto
qed

lemma fs_reachable_ok: "fs_reachable t \<Longrightarrow> \<exists>fl. alloc_ok (fst t) (snd t) fl"
  unfolding fs_reachable_def
proof (induction rule: rtranclp_induct)
  case base
  have "alloc_ok fs_initial {} (\<lambda>c. [])"
    by (simp add: alloc_ok_def blocks_ok_def lists_ok_def fs_initial_def)
  then show ?case by auto
qed (rule fs_step_ok)

lemma fs_reachable_step: "fs_reachable s \<Longrightarrow> fs_step s t \<Longrightarrow> fs_reachable t"
  unfolding fs_reachable_def by (rule rtranclp.rtrancl_into_rtrancl)

lemma live_disjoint:
  assumes "alloc_ok st L fl"
  shows "pairwise (\<lambda>x y. disjnt (span x (the (blocks st x))) (span y (the (blocks st y)))) L"
proof (rule pairwiseI)
  fix x y assume xy: "x \<in> L" "y \<in> L" "x \<noteq> y"
  then obtain b b' where "blocks st x = Some b" "blocks st y = Some b'" using assms unfolding alloc_ok_def by blast
  then show "disjnt (span x (the (blocks st x))) (span y (the (blocks st y)))"
    using assms xy(3) unfolding alloc_ok_def blocks_ok_def disjnt_def by simp
qed

text \<open>The first object of a program, for the witnesses.\<close>

definition fs_one :: fs_state where
  "fs_one = snd (place_block (fs_initial\<lparr>bump_cursor := 4128, bump_left := 1048544\<rparr>) 4096 32 1 DNone)"

lemma fs_first_map: "page_round (nat 8 + LPP_HEADER) < 2 ^ 32" "fresh_map fs_initial 4096 (map_need 8)"
proof -
  show "page_round (nat 8 + LPP_HEADER) < 2 ^ 32" using page_round_ge(2) [of "nat 8 + LPP_HEADER"] by (simp add: LPP_HEADER_def)
  have "lpp_class_for (nat 8 + LPP_HEADER) = 0"
    by (simp add: lpp_class_for_def class_loop.simps lpp_class_bytes_def LPP_HEADER_def)
  then show "fresh_map fs_initial 4096 (map_need 8)"
    by (simp add: fresh_map_def fs_initial_def map_need_def Let_def LPP_CHUNK_BYTES_def LPP_SIZE_CLASSES_def)
qed

lemma fs_one_reachable: "fs_reachable (fs_one, {4096})"
proof -
  have c: "lpp_class_for (nat 8 + LPP_HEADER) = 0"
    by (simp add: lpp_class_for_def class_loop.simps lpp_class_bytes_def LPP_HEADER_def)
  have "lpp_arc_alloc_with_destructor_fs fs_initial 4096 8 DNone = Inr (4096 + LPP_HEADER, fs_one)"
    unfolding lpp_arc_alloc_with_destructor_fs_def Let_def c
    by (simp add: LPP_SIZE_CLASSES_def lpp_class_bytes_def LPP_CHUNK_BYTES_def fs_one_def place_block_def fs_initial_def)
  then show ?thesis
    using fs_reachable_step [of "(fs_initial, {})", OF _ fs_step.Alloc [OF _ fs_first_map]] by (simp add: fs_reachable_def)
qed

section \<open>Properties\<close>

text \<open>C11: The freestanding allocator never hands out overlapping memory. After any sequence of allocations, writes to live
  blocks and frees, an allocation for which the kernel can map memory succeeds; the new block is none of the live
  ones, holds the header and the zeroed payload, leaves every other block as it was, and all live blocks occupy pairwise disjoint
  address ranges.\<close>

theorem lpp_arc_alloc_fs_disjoint:
  assumes "fs_reachable (st, L)" "0 \<le> sz" "page_round (nat sz + LPP_HEADER) < 2 ^ 32" "fresh_map st m (map_need sz)"
  shows "\<exists>h st' b. lpp_arc_alloc_with_destructor_fs st m sz d = Inr (h + LPP_HEADER, st') \<and> h \<notin> L \<and>
    blocks st' = (blocks st)(h \<mapsto> b) \<and> LPP_HEADER + nat sz \<le> bsize b \<and> frefcount b = 1 \<and> set (fwords b) \<subseteq> {0} \<and>
    pairwise (\<lambda>x y. disjnt (span x (the (blocks st' x))) (span y (the (blocks st' y)))) (insert h L) \<and>
    fs_reachable (st', insert h L)"
proof -
  obtain fl where ok: "alloc_ok st L fl" using fs_reachable_ok [OF assms(1)] by auto
  obtain h st' fl' b where a: "lpp_arc_alloc_with_destructor_fs st m sz d = Inr (h + LPP_HEADER, st')" "h \<notin> L"
      "alloc_ok st' (insert h L) fl'" "blocks st' = (blocks st)(h \<mapsto> b)" "LPP_HEADER + nat sz \<le> bsize b" "frefcount b = 1" "set (fwords b) \<subseteq> {0}"
    using alloc_step [OF ok assms(2-4), of d] unfolding allocates_def by auto
  have "pairwise (\<lambda>x y. disjnt (span x (the (blocks st' x))) (span y (the (blocks st' y)))) (insert h L)"
    using live_disjoint [OF a(3)] .
  moreover have "fs_reachable (st', insert h L)"
    using fs_reachable_step [OF assms(1) fs_step.Alloc [OF assms(2-4) a(1)]] .
  ultimately show ?thesis using a by blast
qed

theorem lpp_arc_alloc_fs_disjoint_witness:
  "\<exists>h st' b. lpp_arc_alloc_with_destructor_fs fs_initial 4096 8 DNone = Inr (h + LPP_HEADER, st') \<and> blocks st' = [h \<mapsto> b]"
proof -
  have r: "fs_reachable (fs_initial, {})" by (simp add: fs_reachable_def)
  from lpp_arc_alloc_fs_disjoint [OF r _ fs_first_map, of DNone] show ?thesis by (auto simp: fs_initial_def)
qed

text \<open>In the freestanding runtime a weak handle of a small object stays safe after the object has died: the block is
  still mapped and its generation has moved on, so \<open>lpp_weak_get\<close> answers NULL. A large object is unmapped, and the handle then reads
  unmapped memory.\<close>

theorem lpp_weak_get_fs_after_release:
  assumes "fs_reachable (st, L)" "h \<in> L" "blocks st h = Some b" "frefcount b = 1" "fdestructor b = DNone"
    and "lpp_arena_for_header_fs st h = None" "fgeneration b \<noteq> 0"
  shows "\<exists>st'. lpp_arc_release_fs (Suc n) st (h + LPP_HEADER) = Inr st' \<and> fs_reachable (st', L - {h}) \<and>
    lpp_weak_get_fs st' (h + LPP_HEADER) (scast (fgeneration b)) =
      (if 1 \<le> unat (map_size b) \<and> unat (map_size b) \<le> LPP_SIZE_CLASSES then Inr 0 else Inl (Fault ''header of unmapped memory''))"
proof -
  obtain fl where ok: "alloc_ok st L fl" using fs_reachable_ok [OF assms(1)] by auto
  let ?p = "h + LPP_HEADER"
  let ?d = "b\<lparr>frefcount := 0, fgeneration := fgeneration b + 1, fmagic := 0\<rparr>"
  let ?st = "set_block h ?d st"
  have r1: "fs_reachable (?st, L)" using fs_reachable_step [OF assms(1) fs_step.Write [OF assms(2,3)]] by simp
  obtain fl1 where ok1: "alloc_ok ?st L fl1" using fs_reachable_ok [OF r1] by auto
  obtain st' where f: "lpp_arc_free ?st h = Inr st'" using free_step [OF ok1 assms(2)] by auto
  have imm: "\<not> lpp_is_immortal_fs b" using assms(4) by (simp add: lpp_is_immortal_fs_def LPP_ARC_IMMORTAL_def)
  have c: "children_fs ?d = Inr []" using assms(5) by (simp add: children_fs_def)
  have rel: "lpp_arc_release_fs (Suc n) st ?p = Inr st'"
    using assms(3,4,6) imm c f by (simp add: Let_def get_block_def LPP_HEADER_def)
  have reach: "fs_reachable (st', L - {h})" using fs_reachable_step [OF r1 fs_step.Free [OF assms(2) f]] .
  have g0: "scast (fgeneration b) \<noteq> (0 :: i64)" using scast_generation_eq [of "fgeneration b" 0] assms(7) by simp
  show ?thesis
  proof (cases "1 \<le> unat (map_size b) \<and> unat (map_size b) \<le> LPP_SIZE_CLASSES")
    case True
    define k where "k = unat (map_size b) - 1"
    have k: "k < LPP_SIZE_CLASSES" using True by (auto simp: k_def)
    let ?a = "free_heads st k"
    have a: "?a < 2 ^ 47" using head_bound [OF ok k] .
    have blk: "blocks st' h = Some (set_link ?a ?d)"
      using f True by (auto simp: lpp_arc_free_def get_block_def set_block_def Let_def k_def)
    have "unat (of_nat (?a div 2 ^ 32) :: u32) < 2 ^ 15" using a by (simp add: unat_of_nat div_less_iff_less_mult)
    then have "of_nat (?a div 2 ^ 32) \<noteq> (LPP_ARC_IMMORTAL :: u32)" by (auto simp: LPP_ARC_IMMORTAL_def)
    then have "\<not> lpp_is_immortal_fs (set_link ?a ?d)" by (simp add: lpp_is_immortal_fs_def set_link_def)
    then have "lpp_weak_get_fs st' ?p (scast (fgeneration b)) = Inr 0"
      using blk g0 by (simp add: lpp_weak_get_fs_def get_block_def LPP_HEADER_def)
    then show ?thesis using True rel reach by auto
  next
    case False
    then have "blocks st' h = None" using f by (auto simp: lpp_arc_free_def get_block_def set_block_def Let_def split: if_splits)
    then have "lpp_weak_get_fs st' ?p (scast (fgeneration b)) = Inl (Fault ''header of unmapped memory'')"
      using g0 by (simp add: lpp_weak_get_fs_def get_block_def LPP_HEADER_def)
    then show ?thesis using False rel reach by auto
  qed
qed

theorem lpp_weak_get_fs_after_release_witness:
  "\<exists>st'. lpp_arc_release_fs 1 fs_one (4096 + LPP_HEADER) = Inr st' \<and> lpp_weak_get_fs st' (4096 + LPP_HEADER) (scast (2 :: u32)) = Inr 0"
proof -
  have b: "blocks fs_one 4096 = Some (fresh_block fs_initial 32 1 DNone)"
    by (simp add: fs_one_def place_block_def set_block_def fresh_block_def fs_initial_def)
  have "lpp_arena_for_header_fs fs_one 4096 = None"
    by (simp add: lpp_arena_for_header_fs_def fs_one_def place_block_def set_block_def fs_initial_def)
  from lpp_weak_get_fs_after_release [OF fs_one_reachable _ b _ _ this, of 0] show ?thesis
    by (auto simp: fresh_block_def fs_initial_def LPP_SIZE_CLASSES_def simp del: lpp_arc_release_fs.simps)
qed

end
