(* ===== verification/Lpp_Slice.thy ===== *)
theory Lpp_Slice
  imports Lpp_List_Fs Lpp_Arc_Fs
begin

text \<open>
  Borrowed slices of lists and strings: \<^verbatim>\<open>runtime/lpp_runtime.c\<close> and the freestanding
  \<^verbatim>\<open>runtime/linux_x86_64_min.c\<close> (suffix \<open>_fs\<close>). A view keeps the address of its source with the generation it
  had; every access asks the weak handle first. The memory around the views is a record: the reference-counted heap and what the list and
  string functions find at an address. What a view needs of a list is the locale \<open>slice_source\<close>, which both list
  implementations satisfy.
\<close>

section \<open>Views\<close>

record 'p LppSlice =
  sbase :: 'p
  sstart :: int
  slength :: int
  sgeneration :: i64
  skind :: int

record slice_env =
  sl_arc :: arc_state
  sl_lists :: "i64 \<Rightarrow> listp"
  sl_strs :: "i64 \<Rightarrow> string"

record slice_env_fs =
  fsl_arc :: fs_state
  fsl_lists :: "nat \<Rightarrow> fslistp"
  fsl_strs :: "nat \<Rightarrow> string"

section \<open>Host runtime\<close>

definition lpp_slice_checked_base :: "slice_env \<Rightarrow> i64 LppSlice option \<Rightarrow> (i64 \<times> i64 LppSlice) res" where
  "lpp_slice_checked_base env vp = (case vp of None \<Rightarrow> Inl (Panic ''use of an uninitialized slice view'')
     | Some v \<Rightarrow> if sbase v = 0 \<or> sgeneration v = 0 then Inl (Panic ''use of an uninitialized slice view'')
         else bind_res (lpp_weak_get (sl_arc env) (sbase v) (sgeneration v)) (\<lambda>raw.
           if raw = 0 then Inl (Panic ''borrowed slice source is no longer live'') else Inr (raw, v)))"

definition lpp_slice_init :: "slice_env \<Rightarrow> bool \<Rightarrow> i64 \<Rightarrow> int \<Rightarrow> int \<Rightarrow> int \<Rightarrow> i64 LppSlice res" where
  "lpp_slice_init env storage base start len kind =
     (if \<not> storage \<or> base = 0 then Inl (Panic ''slice construction requires live storage and base'')
      else if start < 0 \<or> len < 0 \<or> start > INT64_MAX - len then Inl (Panic ''invalid slice range'')
      else let source_length = (if kind = 0 then int (length (sl_strs env base)) else lpp_list_len (sl_lists env base))
           in if start > source_length \<or> len > source_length - start then Inl (Panic ''slice range out of bounds'')
              else bind_res (lpp_weak_generation (sl_arc env) base) (\<lambda>g.
                if g = 0 then Inl (Panic ''slice source is not an ARC-managed value'')
                else Inr \<lparr>sbase = base, sstart = start, slength = len, sgeneration = g, skind = kind\<rparr>))"

definition lpp_slice_len :: "slice_env \<Rightarrow> i64 LppSlice option \<Rightarrow> int res" where
  "lpp_slice_len env vp = bind_res (lpp_slice_checked_base env vp) (\<lambda>(_, v). Inr (slength v))"

definition lpp_slice_get :: "slice_env \<Rightarrow> i64 LppSlice option \<Rightarrow> int \<Rightarrow> i64 res" where
  "lpp_slice_get env vp index = bind_res (lpp_slice_checked_base env vp) (\<lambda>(base, v).
     if index < 0 \<or> index \<ge> slength v then Inl (Panic ''slice index out of bounds'')
     else if skind v \<noteq> 1 then Inl (Panic ''numeric slice_get requires Slice[T]'')
     else lpp_list_get (sl_lists env base) (sstart v + index))"

definition lpp_slice_get_float :: "slice_env \<Rightarrow> i64 LppSlice option \<Rightarrow> int \<Rightarrow> i64 res" where
  "lpp_slice_get_float env vp index = lpp_slice_get env vp index"

definition lpp_slice_get_bool :: "slice_env \<Rightarrow> i64 LppSlice option \<Rightarrow> int \<Rightarrow> bool res" where
  "lpp_slice_get_bool env vp index = bind_res (lpp_slice_get env vp index) (\<lambda>v. Inr (v \<noteq> 0))"

definition lpp_str_slice_get :: "(int \<Rightarrow> bool) \<Rightarrow> slice_env \<Rightarrow> i64 LppSlice option \<Rightarrow> int \<Rightarrow> string res" where
  "lpp_str_slice_get oom env vp index = bind_res (lpp_slice_checked_base env vp) (\<lambda>(base, v).
     if skind v \<noteq> 0 then Inl (Panic ''string slice_get requires StrSlice'')
     else if index < 0 \<or> index \<ge> slength v then Inl (Panic ''string slice index out of bounds'')
     else if oom 2 then Inl (Panic ''out of memory while reading string slice'')
     else bind_res (peek (sl_strs env base) (nat (sstart v + index))) (\<lambda>c.
       new_str oom 2 [(0, [c]), (1, [CHR 0x00])]))"

text \<open>\<open>memcpy(result, base + start, length)\<close>; reading beyond the terminator of the source faults.\<close>

definition lpp_str_slice_to_str :: "(int \<Rightarrow> bool) \<Rightarrow> slice_env \<Rightarrow> i64 LppSlice option \<Rightarrow> string res" where
  "lpp_str_slice_to_str oom env vp = bind_res (lpp_slice_checked_base env vp) (\<lambda>(base, v).
     if skind v \<noteq> 0 then Inl (Panic ''slice_to_str requires StrSlice'')
     else if oom (slength v + 1) then Inl (Panic ''out of memory while copying string slice'')
     else let s = sl_strs env base; n = nat (slength v)
          in if nat (sstart v) + n > Suc (length s) then Inl (Fault ''read behind the terminator'')
             else new_str oom (slength v + 1) [(0, take n (drop (nat (sstart v)) (s @ [CHR 0x00]))), (n, [CHR 0x00])])"

section \<open>Freestanding runtime\<close>

definition lpp_slice_checked_base_fs :: "slice_env_fs \<Rightarrow> nat LppSlice option \<Rightarrow> (nat \<times> nat LppSlice) res" where
  "lpp_slice_checked_base_fs env vp = (case vp of None \<Rightarrow> Inl (Exited 101)
     | Some v \<Rightarrow> if sbase v = 0 \<or> sgeneration v = 0 then Inl (Exited 101)
         else bind_res (lpp_weak_get_fs (fsl_arc env) (sbase v) (sgeneration v)) (\<lambda>raw.
           if raw = 0 then Inl (Exited 101) else Inr (raw, v)))"

definition lpp_slice_init_fs :: "slice_env_fs \<Rightarrow> bool \<Rightarrow> nat \<Rightarrow> int \<Rightarrow> int \<Rightarrow> int \<Rightarrow> nat LppSlice res" where
  "lpp_slice_init_fs env storage base start len kind =
     (if \<not> storage \<or> base = 0 \<or> start < 0 \<or> len < 0 \<or> start > INT64_MAX - len then Inl (Exited 101)
      else let source_length = (if kind = 0 then int (length (fsl_strs env base)) else lpp_list_len_fs (fsl_lists env base))
           in if start > source_length \<or> len > source_length - start then Inl (Exited 101)
              else bind_res (lpp_weak_generation_fs (fsl_arc env) base) (\<lambda>g.
                if g = 0 then Inl (Exited 101)
                else Inr \<lparr>sbase = base, sstart = start, slength = len, sgeneration = g, skind = kind\<rparr>))"

definition lpp_slice_len_fs :: "slice_env_fs \<Rightarrow> nat LppSlice option \<Rightarrow> int res" where
  "lpp_slice_len_fs env vp = bind_res (lpp_slice_checked_base_fs env vp) (\<lambda>(_, v). Inr (slength v))"

definition lpp_slice_get_fs :: "slice_env_fs \<Rightarrow> nat LppSlice option \<Rightarrow> int \<Rightarrow> i64 res" where
  "lpp_slice_get_fs env vp index = bind_res (lpp_slice_checked_base_fs env vp) (\<lambda>(base, v).
     if skind v \<noteq> 1 \<or> index < 0 \<or> index \<ge> slength v then Inl (Exited 101)
     else lpp_list_get_fs (fsl_lists env base) (sstart v + index))"

definition lpp_slice_get_float_fs :: "slice_env_fs \<Rightarrow> nat LppSlice option \<Rightarrow> int \<Rightarrow> i64 res" where
  "lpp_slice_get_float_fs env vp index = lpp_slice_get_fs env vp index"

definition lpp_slice_get_bool_fs :: "slice_env_fs \<Rightarrow> nat LppSlice option \<Rightarrow> int \<Rightarrow> bool res" where
  "lpp_slice_get_bool_fs env vp index = bind_res (lpp_slice_get_fs env vp index) (\<lambda>v. Inr (v \<noteq> 0))"

definition lpp_str_slice_get_fs :: "(int \<Rightarrow> bool) \<Rightarrow> slice_env_fs \<Rightarrow> nat LppSlice option \<Rightarrow> int \<Rightarrow> string res" where
  "lpp_str_slice_get_fs oom env vp index = bind_res (lpp_slice_checked_base_fs env vp) (\<lambda>(base, v).
     if skind v \<noteq> 0 \<or> index < 0 \<or> index \<ge> slength v then Inl (Exited 101)
     else if oom 2 then Inl (Exited 101)
     else bind_res (peek (fsl_strs env base) (nat (sstart v + index))) (\<lambda>c.
       new_str_unchecked oom 2 [(0, [c]), (1, [CHR 0x00])]))"

fun slice_bytes :: "string \<Rightarrow> nat \<Rightarrow> nat \<Rightarrow> string res" where
  "slice_bytes s i 0 = Inr []"
| "slice_bytes s i (Suc n) = bind_res (peek s i) (\<lambda>c. bind_res (slice_bytes s (Suc i) n) (\<lambda>cs. Inr (c # cs)))"

definition lpp_str_slice_to_str_fs :: "(int \<Rightarrow> bool) \<Rightarrow> slice_env_fs \<Rightarrow> nat LppSlice option \<Rightarrow> string res" where
  "lpp_str_slice_to_str_fs oom env vp = bind_res (lpp_slice_checked_base_fs env vp) (\<lambda>(base, v).
     if skind v \<noteq> 0 then Inl (Exited 101)
     else if oom (slength v + 1) then Inl (Exited 101)
     else bind_res (slice_bytes (fsl_strs env base) (nat (sstart v)) (nat (slength v))) (\<lambda>cs.
       new_str_unchecked oom (slength v + 1) (copy_bytes 0 cs @ [(nat (slength v), [CHR 0x00])])))"

section \<open>What a slice needs of a list\<close>

text \<open>A list that answers its length and reads its elements, and ends the program in a controlled way on every other index.\<close>

definition ends_program :: "'a res \<Rightarrow> bool" where
  "ends_program r \<longleftrightarrow> (\<exists>m. r = Inl (Panic m)) \<or> (\<exists>n. r = Inl (Exited n))"

locale slice_source =
  fixes ok :: "'l \<Rightarrow> bool" and elems :: "'l \<Rightarrow> i64 list" and get :: "'l \<Rightarrow> int \<Rightarrow> i64 res" and len :: "'l \<Rightarrow> int"
  assumes len_law: "ok l \<Longrightarrow> len l = int (length (elems l))"
    and get_law: "ok l \<Longrightarrow> 0 \<le> i \<Longrightarrow> i < len l \<Longrightarrow> get l i = Inr (elems l ! nat i)"
    and get_out: "ok l \<Longrightarrow> i < 0 \<or> len l \<le> i \<Longrightarrow> ends_program (get l i)"
begin

lemma window:
  assumes "ok l" "0 \<le> start" "0 \<le> n" "start + n \<le> len l"
  shows "map (\<lambda>i. get l (start + int i)) [0..<nat n] = map Inr (take (nat n) (drop (nat start) (elems l)))"
proof (rule nth_equalityI)
  have l: "nat n \<le> length (elems l) - nat start" using assms len_law [OF assms(1)] by linarith
  then show "length (map (\<lambda>i. get l (start + int i)) [0..<nat n]) = length (map Inr (take (nat n) (drop (nat start) (elems l))))" by simp
  fix i assume i: "i < length (map (\<lambda>i. get l (start + int i)) [0..<nat n])"
  then have "get l (start + int i) = Inr (elems l ! nat (start + int i))" using assms by (intro get_law) auto
  moreover have "nat (start + int i) = nat start + i" using assms(2) by (simp add: nat_add_distrib)
  ultimately show "map (\<lambda>i. get l (start + int i)) [0..<nat n] ! i = map Inr (take (nat n) (drop (nat start) (elems l))) ! i"
    using i l by simp
qed

lemma never_faults: "ok l \<Longrightarrow> is_ok (get l i) \<or> ends_program (get l i)"
  using get_law [of l i] get_out [of l i] by (cases "0 \<le> i \<and> i < len l") auto

end

interpretation host_src: slice_source list_ok abs_list "\<lambda>l. lpp_list_get (Some l)" "\<lambda>l. lpp_list_len (Some l)"
proof unfold_locales
  fix l i assume l: "list_ok l"
  show "lpp_list_len (Some l) = int (length (abs_list l))" using l by (simp add: lpp_list_len_def)
  show "0 \<le> i \<Longrightarrow> i < lpp_list_len (Some l) \<Longrightarrow> lpp_list_get (Some l) i = Inr (abs_list l ! nat i)"
    using list_get_ok [OF l] by (simp add: lpp_list_len_def)
  show "i < 0 \<or> lpp_list_len (Some l) \<le> i \<Longrightarrow> ends_program (lpp_list_get (Some l) i)"
    by (auto simp: lpp_list_len_def lpp_list_get_def ends_program_def)
qed

interpretation fs_src: slice_source fslist_ok abs_fs "\<lambda>l. lpp_list_get_fs (Some l)" "\<lambda>l. lpp_list_len_fs (Some l)"
proof unfold_locales
  fix l i assume l: "fslist_ok l"
  show "lpp_list_len_fs (Some l) = int (length (abs_fs l))" using l by (simp add: lpp_list_len_fs_def)
  show "0 \<le> i \<Longrightarrow> i < lpp_list_len_fs (Some l) \<Longrightarrow> lpp_list_get_fs (Some l) i = Inr (abs_fs l ! nat i)"
    using get_set_fs_ok(1) [OF l] by (simp add: lpp_list_len_fs_def)
  show "i < 0 \<or> lpp_list_len_fs (Some l) \<le> i \<Longrightarrow> ends_program (lpp_list_get_fs (Some l) i)"
    by (auto simp: lpp_list_len_fs_def lpp_list_get_fs_def ends_program_def)
qed

section \<open>Properties\<close>

lemma weak_get_self:
  assumes "lpp_weak_generation st p = Inr g" "g \<noteq> 0"
  shows "p \<noteq> 0" "lpp_weak_get st p g = Inr p"
proof -
  obtain v where v: "lpp_is_valid_arc_ptr st p = Inr v" using assms(1) by (auto simp: lpp_weak_generation_def)
  have t: "v" using assms v by (cases v) (auto simp: lpp_weak_generation_def)
  then obtain obj where o: "get_obj st p = Inr obj" using assms(1) v by (auto simp: lpp_weak_generation_def)
  show p: "p \<noteq> 0" using v t by (auto simp: lpp_is_valid_arc_ptr_def)
  show "lpp_weak_get st p g = Inr p" using assms p v t o
    by (cases "lpp_is_immortal obj") (simp_all add: lpp_weak_generation_def lpp_weak_get_def)
qed

lemma weak_get_self_fs:
  assumes "lpp_weak_generation_fs st p = Inr g" "g \<noteq> 0"
  shows "p \<noteq> 0" "lpp_weak_get_fs st p g = Inr p"
proof -
  show p: "p \<noteq> 0" using assms by (cases "p = 0") (simp_all add: lpp_weak_generation_fs_def)
  obtain b where b: "get_block st (p - LPP_HEADER) = Inr b" using assms(1) p by (auto simp: lpp_weak_generation_fs_def)
  show "lpp_weak_get_fs st p g = Inr p" using assms p b
    by (cases "lpp_is_immortal_fs b") (simp_all add: lpp_weak_generation_fs_def lpp_weak_get_fs_def)
qed

lemma slice_initD:
  assumes "lpp_slice_init env True base s n k = Inr v"
  shows "v = \<lparr>sbase = base, sstart = s, slength = n, sgeneration = sgeneration v, skind = k\<rparr>" "0 \<le> s" "0 \<le> n"
    "s + n \<le> (if k = 0 then int (length (sl_strs env base)) else lpp_list_len (sl_lists env base))"
    "base \<noteq> 0" "sgeneration v \<noteq> 0" "lpp_weak_get (sl_arc env) base (sgeneration v) = Inr base"
  using assms weak_get_self [of "sl_arc env" base]
  by (auto simp: lpp_slice_init_def Let_def split: if_splits)

lemma slice_init_fsD:
  assumes "lpp_slice_init_fs env True base s n k = Inr v"
  shows "v = \<lparr>sbase = base, sstart = s, slength = n, sgeneration = sgeneration v, skind = k\<rparr>" "0 \<le> s" "0 \<le> n"
    "s + n \<le> (if k = 0 then int (length (fsl_strs env base)) else lpp_list_len_fs (fsl_lists env base))"
    "base \<noteq> 0" "sgeneration v \<noteq> 0" "lpp_weak_get_fs (fsl_arc env) base (sgeneration v) = Inr base"
  using assms weak_get_self_fs [of "fsl_arc env" base]
  by (auto simp: lpp_slice_init_fs_def Let_def split: if_splits)

lemma slice_get_step:
  assumes "v = \<lparr>sbase = base, sstart = s, slength = n, sgeneration = g, skind = 1\<rparr>" "base \<noteq> 0" "g \<noteq> 0"
    "lpp_weak_get (sl_arc env) base g = Inr raw"
  shows "lpp_slice_get env (Some v) i = (if raw = 0 then Inl (Panic ''borrowed slice source is no longer live'')
    else if i < 0 \<or> n \<le> i then Inl (Panic ''slice index out of bounds'') else lpp_list_get (sl_lists env raw) (s + i))"
  using assms by (simp add: lpp_slice_get_def lpp_slice_checked_base_def)

lemma slice_get_step_fs:
  assumes "v = \<lparr>sbase = base, sstart = s, slength = n, sgeneration = g, skind = 1\<rparr>" "base \<noteq> 0" "g \<noteq> 0"
    "lpp_weak_get_fs (fsl_arc env) base g = Inr raw"
  shows "lpp_slice_get_fs env (Some v) i = (if raw = 0 \<or> i < 0 \<or> n \<le> i then Inl (Exited 101)
    else lpp_list_get_fs (fsl_lists env raw) (s + i))"
  using assms by (simp add: lpp_slice_get_fs_def lpp_slice_checked_base_fs_def)

lemma slice_window_fs:
  assumes "lpp_slice_init_fs env True base s n 1 = Inr v" "fsl_lists env base = Some l" "fslist_ok l"
  shows "map (\<lambda>i. lpp_slice_get_fs env (Some v) (int i)) [0..<nat n] = map Inr (take (nat n) (drop (nat s) (abs_fs l)))"
proof -
  note d = slice_init_fsD [OF assms(1)]
  have e: "map (\<lambda>i. lpp_slice_get_fs env (Some v) (int i)) [0..<nat n] = map (\<lambda>i. lpp_list_get_fs (Some l) (s + int i)) [0..<nat n]"
    using slice_get_step_fs [OF d(1,5-7)] d(5) assms(2) by (auto intro!: map_cong)
  show ?thesis unfolding e by (rule fs_src.window) (use assms d in auto)
qed



end
