(* ===== verification/Lpp_Json.thy ===== *)
theory Lpp_Json
  imports Lpp_Str
begin

text \<open>
  The JSON builtins of \<^verbatim>\<open>runtime/lpp_runtime.c\<close>: a recursive-descent parser for objects, strings and
  integers, its depth guard, and the accessors. The parse pointer \<open>*p\<close> is the rest of the input; a node list
  linked by \<open>next\<close> is a list. The first argument of the mutually recursive parsers bounds the number of calls and loop
  turns; \<open>lpp_json_parse\<close> gives it twice the length of the input, which is proved to be enough. \<open>oom n\<close> says whether an
  allocation of \<open>n\<close> bytes fails.
\<close>

section \<open>Nodes and tokens\<close>

text \<open>The tagged union of \<open>lpp_JsonNode\<close>: type 0, 1, 2. A member of an object is its key with its node; a string pointer may be
  NULL.\<close>

datatype json = JInt int | JStr cstr | JObj "(cstr \<times> json) list"

definition LPP_JSON_MAX_DEPTH :: nat where
  "LPP_JSON_MAX_DEPTH = 256"

definition json_node_size :: int where
  "json_node_size = 32"

definition skip_json_ws :: "string \<Rightarrow> string" where
  "skip_json_ws p = dropWhile is_space4 p"

text \<open>An unterminated string takes the rest of the input. When the copy cannot be allocated the pointer stays at the closing
  quote.\<close>

definition parse_json_string :: "(int \<Rightarrow> bool) \<Rightarrow> string \<Rightarrow> cstr \<times> string" where
  "parse_json_string oom p = (case skip_json_ws p of
     [] \<Rightarrow> (None, [])
   | c # q \<Rightarrow>
       if c \<noteq> CHR 0x22 then (None, c # q)
       else let str = takeWhile (\<lambda>c. c \<noteq> CHR 0x22) q; r = drop (length str) q
            in case arc_block oom (int (length str) + 1) of
                 None \<Rightarrow> (None, r)
               | Some _ \<Rightarrow> (Some str, (case r of [] \<Rightarrow> [] | _ # r' \<Rightarrow> r')))"

text \<open>The end pointer of \<open>strtoll\<close>: behind the digits, or the start when there are none. The parser calls it on a digit or a
  minus sign, so there are no blanks to skip.\<close>

definition strtoll_end :: "string \<Rightarrow> string" where
  "strtoll_end p = (case p of [] \<Rightarrow> []
     | c # q \<Rightarrow> if c = CHR ''-'' then (case q of [] \<Rightarrow> p | d # _ \<Rightarrow> if is_digit d then dropWhile is_digit q else p)
                else dropWhile is_digit p)"

section \<open>Parser\<close>

fun parse_json_value :: "(int \<Rightarrow> bool) \<Rightarrow> nat \<Rightarrow> string \<Rightarrow> nat \<Rightarrow> (json option \<times> string) res"
  and parse_json_object :: "(int \<Rightarrow> bool) \<Rightarrow> nat \<Rightarrow> string \<Rightarrow> nat \<Rightarrow> (json option \<times> string) res"
  and members_loop :: "(int \<Rightarrow> bool) \<Rightarrow> nat \<Rightarrow> string \<Rightarrow> nat \<Rightarrow> (cstr \<times> json) list \<Rightarrow> ((cstr \<times> json) list \<times> string) res" where
  "parse_json_value oom 0 p depth = Inl (Fault ''parser out of fuel'')"
| "parse_json_value oom (Suc n) p depth =
     (if depth > LPP_JSON_MAX_DEPTH then Inr (None, p)
      else case skip_json_ws p of
        [] \<Rightarrow> Inr (None, [])
      | c # q \<Rightarrow>
          if c = CHR ''{'' then parse_json_object oom n (c # q) (depth + 1)
          else if c = CHR 0x22
          then let (s, r) = parse_json_string oom (c # q)
               in if oom json_node_size then Inr (None, r) else Inr (Some (JStr s), r)
          else if is_digit c \<or> c = CHR ''-''
          then let val = strtoll (c # q); r = strtoll_end (c # q)
               in if oom json_node_size then Inr (None, r) else Inr (Some (JInt val), r)
          else Inr (None, c # q))"
| "parse_json_object oom 0 p depth = Inl (Fault ''parser out of fuel'')"
| "parse_json_object oom (Suc n) p depth = (case skip_json_ws p of
     [] \<Rightarrow> Inr (None, [])
   | c # q \<Rightarrow>
       if c \<noteq> CHR ''{'' then Inr (None, c # q)
       else bind_res (members_loop oom n q depth []) (\<lambda>(ms, r).
         let r = (case r of [] \<Rightarrow> [] | d # r' \<Rightarrow> if d = CHR ''}'' then r' else r)
         in if oom json_node_size then Inr (None, r) else Inr (Some (JObj ms), r)))"
| "members_loop oom 0 p depth ms = Inl (Fault ''parser out of fuel'')"
| "members_loop oom (Suc n) p depth ms =
     (if p = [] \<or> hd p = CHR ''}'' then Inr (ms, p)
      else let p = skip_json_ws p
           in if p \<noteq> [] \<and> hd p = CHR ''}'' then Inr (ms, p)
              else let (key, p) = parse_json_string oom p; p = skip_json_ws p
                   in if p = [] \<or> hd p \<noteq> CHR '':'' then Inr (ms, p)
                      else bind_res (parse_json_value oom n (tl p) (depth + 1)) (\<lambda>(val, p).
                        let ms = (case val of None \<Rightarrow> ms | Some v \<Rightarrow> ms @ [(key, v)]);
                            p = skip_json_ws p
                        in if p \<noteq> [] \<and> hd p = CHR '','' then members_loop oom n (tl p) depth ms
                           else if p = [] \<or> hd p \<noteq> CHR ''}'' then Inr (ms, p)
                           else members_loop oom n p depth ms))"

definition json_fuel :: "string \<Rightarrow> nat" where
  "json_fuel s = 2 * length s + 2"

definition lpp_json_parse :: "(int \<Rightarrow> bool) \<Rightarrow> cstr \<Rightarrow> json option res" where
  "lpp_json_parse oom str = (case str of None \<Rightarrow> Inr None
     | Some s \<Rightarrow> bind_res (parse_json_value oom (json_fuel s) s 0) (\<lambda>(v, _). Inr v))"

section \<open>Accessors\<close>

text \<open>The search stops at the first member with the key, whatever its type; \<open>strcmp\<close> tests for equality.\<close>

fun json_find :: "(cstr \<times> json) list \<Rightarrow> string \<Rightarrow> json option" where
  "json_find [] key = None"
| "json_find ((k, v) # ms) key = (case k of None \<Rightarrow> json_find ms key
     | Some k \<Rightarrow> if strcmp k key = 0 then Some v else json_find ms key)"

definition lpp_json_get_int :: "json option \<Rightarrow> string \<Rightarrow> int" where
  "lpp_json_get_int j key = (case j of Some (JObj ms) \<Rightarrow> (case json_find ms key of Some (JInt v) \<Rightarrow> v | _ \<Rightarrow> 0) | _ \<Rightarrow> 0)"

definition lpp_json_get_str :: "json option \<Rightarrow> string \<Rightarrow> string" where
  "lpp_json_get_str j key = (case j of
     Some (JObj ms) \<Rightarrow> (case json_find ms key of Some (JStr (Some s)) \<Rightarrow> s | _ \<Rightarrow> []) | _ \<Rightarrow> [])"

definition lpp_json_get_obj :: "json option \<Rightarrow> string \<Rightarrow> json option" where
  "lpp_json_get_obj j key = (case j of
     Some (JObj ms) \<Rightarrow> (case json_find ms key of Some (JObj ns) \<Rightarrow> Some (JObj ns) | _ \<Rightarrow> None) | _ \<Rightarrow> None)"

text \<open>The strings released and the number of nodes freed.\<close>

fun lpp_json_free_node :: "cstr \<times> json \<Rightarrow> string list \<times> nat" where
  "lpp_json_free_node (key, JInt v) = (case key of None \<Rightarrow> [] | Some k \<Rightarrow> [k], 1)"
| "lpp_json_free_node (key, JStr s) = ((case key of None \<Rightarrow> [] | Some k \<Rightarrow> [k]) @ (case s of None \<Rightarrow> [] | Some s \<Rightarrow> [s]), 1)"
| "lpp_json_free_node (key, JObj ms) =
     (let rs = map lpp_json_free_node ms
      in ((case key of None \<Rightarrow> [] | Some k \<Rightarrow> [k]) @ concat (map fst rs), Suc (sum_list (map snd rs))))"

definition lpp_json_free :: "json option \<Rightarrow> string list \<times> nat" where
  "lpp_json_free j = (case j of None \<Rightarrow> ([], 0) | Some j \<Rightarrow> lpp_json_free_node (None, j))"

section \<open>Totality and the depth guard\<close>

lemma length_skip: "length (skip_json_ws p) \<le> length p"
  by (simp add: skip_json_ws_def length_dropWhile_le)

lemma length_parse_string: "length (snd (parse_json_string oom p)) \<le> length p"
proof (cases "skip_json_ws p")
  case (Cons c q)
  then show ?thesis using length_skip [of p]
    by (auto simp: parse_json_string_def Let_def split: option.splits list.splits dest!: arg_cong [where f = length])
qed (simp add: parse_json_string_def)

lemma length_strtoll_end: "length (strtoll_end p) \<le> length p"
  by (auto simp: strtoll_end_def intro: le_trans [OF length_dropWhile_le] le_SucI length_dropWhile_le split: list.splits)

fun jdepth :: "json \<Rightarrow> nat" where
  "jdepth (JInt v) = 0"
| "jdepth (JStr s) = 0"
| "jdepth (JObj ms) = Suc (foldr (\<lambda>m d. max (jdepth (snd m)) d) ms 0)"

lemma foldr_max_le: "foldr (\<lambda>m d. max (f m) d) ms 0 \<le> (b :: nat) \<longleftrightarrow> list_all (\<lambda>m. f m \<le> b) ms"
  by (induction ms) auto

text \<open>What the three parsers guarantee with enough fuel.\<close>

definition value_ok :: "(int \<Rightarrow> bool) \<Rightarrow> nat \<Rightarrow> bool" where
  "value_ok oom n \<longleftrightarrow> (\<forall>p d. 2 * length p + 2 \<le> n \<longrightarrow> (\<exists>v r. parse_json_value oom n p d = Inr (v, r) \<and> length r \<le> length p \<and>
     pred_option (\<lambda>j. 2 * jdepth j + d \<le> 258) v))"

definition object_ok :: "(int \<Rightarrow> bool) \<Rightarrow> nat \<Rightarrow> bool" where
  "object_ok oom n \<longleftrightarrow> (\<forall>p d. 2 * length p + 1 \<le> n \<longrightarrow> d \<le> 257 \<longrightarrow> (\<exists>v r. parse_json_object oom n p d = Inr (v, r) \<and> length r \<le> length p \<and>
     pred_option (\<lambda>j. 2 * jdepth j + d \<le> 259) v))"

definition members_ok :: "(int \<Rightarrow> bool) \<Rightarrow> nat \<Rightarrow> bool" where
  "members_ok oom n \<longleftrightarrow> (\<forall>p d ms. 2 * length p + 1 \<le> n \<longrightarrow> list_all (\<lambda>m. 2 * jdepth (snd m) + d \<le> 257) ms \<longrightarrow>
     (\<exists>ns r. members_loop oom n p d ms = Inr (ns, r) \<and> length r \<le> length p \<and> list_all (\<lambda>m. 2 * jdepth (snd m) + d \<le> 257) ns))"

lemma value_step: "object_ok oom n \<Longrightarrow> value_ok oom (Suc n)"
  unfolding value_ok_def
proof (intro allI impI)
  fix p :: string and d :: nat assume o: "object_ok oom n" and n: "2 * length p + 2 \<le> Suc n"
  show "\<exists>v r. parse_json_value oom (Suc n) p d = Inr (v, r) \<and> length r \<le> length p \<and> pred_option (\<lambda>j. 2 * jdepth j + d \<le> 258) v"
  proof (cases "d > LPP_JSON_MAX_DEPTH \<or> skip_json_ws p = []")
    case True
    then show ?thesis by auto
  next
    case False
    then have d: "d \<le> 256" by (simp add: LPP_JSON_MAX_DEPTH_def)
    obtain c q where s: "skip_json_ws p = c # q" using False by (cases "skip_json_ws p") auto
    have l: "length (c # q) \<le> length p" using length_skip [of p] s by simp
    obtain k r where str: "parse_json_string oom (c # q) = (k, r)" by (cases "parse_json_string oom (c # q)")
    then have "length r \<le> length p" using length_parse_string [of oom "c # q"] l by simp
    moreover have "length (strtoll_end (c # q)) \<le> length p" using length_strtoll_end [of "c # q"] l by simp
    moreover have "\<exists>v r. parse_json_object oom n (c # q) (d + 1) = Inr (v, r) \<and> length r \<le> length p \<and> pred_option (\<lambda>j. 2 * jdepth j + d \<le> 258) v"
      using o [unfolded object_ok_def, rule_format, of "c # q" "d + 1"] l n d by (fastforce simp: pred_option_def)
    ultimately show ?thesis using False d s str l by (auto simp: Let_def)
  qed
qed

lemma object_step: "members_ok oom n \<Longrightarrow> object_ok oom (Suc n)"
  unfolding object_ok_def
proof (intro allI impI)
  fix p :: string and d :: nat assume o: "members_ok oom n" and n: "2 * length p + 1 \<le> Suc n" and d: "d \<le> 257"
  show "\<exists>v r. parse_json_object oom (Suc n) p d = Inr (v, r) \<and> length r \<le> length p \<and> pred_option (\<lambda>j. 2 * jdepth j + d \<le> 259) v"
  proof (cases "\<exists>q. skip_json_ws p = CHR ''{'' # q")
    case True
    then obtain q where s: "skip_json_ws p = CHR ''{'' # q" by blast
    have l: "Suc (length q) \<le> length p" using length_skip [of p] s by simp
    then obtain ms r where m: "members_loop oom n q d [] = Inr (ms, r)" "length r \<le> length q" "list_all (\<lambda>m. 2 * jdepth (snd m) + d \<le> 257) ms"
      using o [unfolded members_ok_def, rule_format, of q d "[]"] n by auto
    have "list_all (\<lambda>m. jdepth (snd m) \<le> (257 - d) div 2) ms" using m(3) by (rule list.pred_mono_strong) simp
    then have "2 * jdepth (JObj ms) + d \<le> 259" using d by (simp add: foldr_max_le [symmetric])
    then show ?thesis using s m l by (auto simp: Let_def split: list.splits)
  next
    case False
    then show ?thesis using length_skip [of p] by (cases "skip_json_ws p") auto
  qed
qed

lemma members_step: "value_ok oom n \<Longrightarrow> members_ok oom n \<Longrightarrow> members_ok oom (Suc n)"
  unfolding members_ok_def [of _ "Suc n"]
proof (intro allI impI)
  fix p :: string and d :: nat and ms :: "(cstr \<times> json) list" assume v: "value_ok oom n" and o: "members_ok oom n" and n: "2 * length p + 1 \<le> Suc n"
    and ms: "list_all (\<lambda>m. 2 * jdepth (snd m) + d \<le> 257) ms"
  show "\<exists>ns r. members_loop oom (Suc n) p d ms = Inr (ns, r) \<and> length r \<le> length p \<and> list_all (\<lambda>m. 2 * jdepth (snd m) + d \<le> 257) ns"
  proof (cases "p = [] \<or> hd p = CHR ''}'' \<or> skip_json_ws p \<noteq> [] \<and> hd (skip_json_ws p) = CHR ''}''")
    case True
    then show ?thesis using ms length_skip [of p] by (auto simp: Let_def)
  next
    case False
    obtain key p1 where str: "parse_json_string oom (skip_json_ws p) = (key, p1)" by (cases "parse_json_string oom (skip_json_ws p)")
    define p2 where "p2 = skip_json_ws p1"
    have l2: "length p2 \<le> length p"
      using length_parse_string [of oom "skip_json_ws p"] length_skip [of p] length_skip [of p1] str by (simp add: p2_def)
    have unf: "members_loop oom (Suc n) p d ms = (if p2 = [] \<or> hd p2 \<noteq> CHR '':'' then Inr (ms, p2)
        else bind_res (parse_json_value oom n (tl p2) (d + 1)) (\<lambda>(val, p).
          let ms = (case val of None \<Rightarrow> ms | Some v \<Rightarrow> ms @ [(key, v)]); p = skip_json_ws p
          in if p \<noteq> [] \<and> hd p = CHR '','' then members_loop oom n (tl p) d ms
             else if p = [] \<or> hd p \<noteq> CHR ''}'' then Inr (ms, p) else members_loop oom n p d ms))"
    proof -
      have "(p = [] \<or> hd p = CHR ''}'') = False" "(skip_json_ws p \<noteq> [] \<and> hd (skip_json_ws p) = CHR ''}'') = False"
        using False by blast+
      then show ?thesis by (simp only: members_loop.simps(2) Let_def str prod.case p2_def [symmetric] if_False)
    qed
    show ?thesis
    proof (cases "p2 = [] \<or> hd p2 \<noteq> CHR '':''")
      case True
      then show ?thesis unfolding unf using ms l2 by auto
    next
      case colon: False
      then have l3: "Suc (length (tl p2)) \<le> length p" using l2 by (cases p2) auto
      then obtain val r where val: "parse_json_value oom n (tl p2) (d + 1) = Inr (val, r)" "length r \<le> length (tl p2)"
          "pred_option (\<lambda>j. 2 * jdepth j + (d + 1) \<le> 258) val"
        using v [unfolded value_ok_def, rule_format, of "tl p2" "d + 1"] n by auto
      define ns where "ns = (case val of None \<Rightarrow> ms | Some v \<Rightarrow> ms @ [(key, v)])"
      define r1 where "r1 = skip_json_ws r"
      have ns: "list_all (\<lambda>m. 2 * jdepth (snd m) + d \<le> 257) ns" using ms val(3) by (auto simp: ns_def split: option.splits)
      have l4: "Suc (length r1) \<le> length p" using length_skip [of r] val(2) l3 by (simp add: r1_def)
      have again: "\<exists>ns' r'. members_loop oom n q d ns = Inr (ns', r') \<and> length r' \<le> length p \<and>
          list_all (\<lambda>m. 2 * jdepth (snd m) + d \<le> 257) ns'" if "length q \<le> length r1" for q
        using o [unfolded members_ok_def, rule_format, of q d ns] that l4 n ns by fastforce
      have e: "members_loop oom (Suc n) p d ms = (if r1 \<noteq> [] \<and> hd r1 = CHR '','' then members_loop oom n (tl r1) d ns
          else if r1 = [] \<or> hd r1 \<noteq> CHR ''}'' then Inr (ns, r1) else members_loop oom n r1 d ns)"
        using colon val(1) unfolding unf by (simp add: Let_def ns_def [symmetric] r1_def [symmetric])
      show ?thesis unfolding e using again [of "tl r1"] again [of r1] ns l4 by auto
    qed
  qed
qed

lemma parsers_ok: "value_ok oom n \<and> object_ok oom n \<and> members_ok oom n"
proof (induction n)
  case 0
  show ?case by (simp add: value_ok_def object_ok_def members_ok_def)
next
  case (Suc n)
  then show ?case by (simp add: value_step object_step members_step)
qed

section \<open>Printing and parsing back\<close>

definition quoted :: "cstr \<Rightarrow> string" where
  "quoted s = CHR 0x22 # or_empty s @ [CHR 0x22]"

fun print_json :: "json \<Rightarrow> string" where
  "print_json (JInt v) = print_int v"
| "print_json (JStr s) = quoted s"
| "print_json (JObj ms) = CHR ''{'' # join CHR '','' (map (\<lambda>m. quoted (fst m) @ CHR '':'' # print_json (snd m)) ms) @ [CHR ''}'']"

text \<open>The documents that can be written without escapes: no quotes inside strings, integers in range.\<close>

definition plain_str :: "cstr \<Rightarrow> bool" where
  "plain_str s \<longleftrightarrow> (case s of None \<Rightarrow> False | Some x \<Rightarrow> CHR 0x22 \<notin> set x)"

fun plain_json :: "json \<Rightarrow> bool" where
  "plain_json (JInt v) \<longleftrightarrow> in_i64 v"
| "plain_json (JStr s) \<longleftrightarrow> plain_str s"
| "plain_json (JObj ms) \<longleftrightarrow> list_all (\<lambda>m. plain_str (fst m) \<and> plain_json (snd m)) ms"

abbreviation item :: "cstr \<times> json \<Rightarrow> string" where
  "item m \<equiv> quoted (fst m) @ CHR '':'' # print_json (snd m)"

lemma skip_visible: "\<not> is_space4 c \<Longrightarrow> skip_json_ws (c # q) = c # q"
  by (simp add: skip_json_ws_def)

lemma not_space_tokens: "\<not> is_space4 CHR 0x22" "\<not> is_space4 CHR ''{''" "\<not> is_space4 CHR ''}''" "\<not> is_space4 CHR '',''"
    "\<not> is_space4 CHR '':''" "\<not> is_space4 CHR ''-''"
  by (simp_all add: is_space4_def)

lemma digit_not_space: "is_digit c \<Longrightarrow> \<not> is_space4 c"
  by (auto simp: is_space4_def is_digit_def)

lemma parse_string_quoted:
  assumes "plain_str s"
  shows "parse_json_string (\<lambda>n. False) (quoted s @ rest) = (s, rest)"
proof -
  obtain x where s: "s = Some x" "CHR 0x22 \<notin> set x" using assms by (auto simp: plain_str_def split: option.splits)
  have "takeWhile (\<lambda>c. c \<noteq> CHR 0x22) (x @ CHR 0x22 # rest) = x" using s(2) by (simp add: takeWhile_append)
  then show ?thesis using s(1)
    by (simp add: parse_json_string_def quoted_def or_empty_def skip_visible not_space_tokens arc_block_def)
qed

definition no_digit :: "string \<Rightarrow> bool" where
  "no_digit r \<longleftrightarrow> r = [] \<or> \<not> is_digit (hd r)"

lemma takeWhile_digits: "no_digit r \<Longrightarrow> takeWhile is_digit (print_base 10 n @ r) = print_base 10 n \<and> dropWhile is_digit (print_base 10 n @ r) = r"
  using print_base_10_digits by (cases r) (auto simp: no_digit_def takeWhile_append dropWhile_append)

lemma strtoll_print:
  assumes "in_i64 v" "no_digit r"
  shows "strtoll (print_int v @ r) = v" "strtoll_end (print_int v @ r) = r"
proof -
  obtain c t where p: "print_base 10 (nat v) = c # t" "is_digit c" using print_base_hd by blast
  obtain c' t' where p': "print_base 10 (nat (- v)) = c' # t'" "is_digit c'" using print_base_hd by blast
  note d = digit_not_special [OF p(2)]
  have sp: "\<not> is_c_space CHR ''-''" by (simp add: is_c_space_def char_code_def)
  have dv: "digits_val (print_base 10 n @ r) = int n" for n
    using takeWhile_digits [OF assms(2), of n] digits_val_print_base [of n] by (simp add: digits_val_def takeWhile_print_base)
  show "strtoll (print_int v @ r) = v"
  proof (cases "v < 0")
    case True
    then show ?thesis using assms(1) sp dv by (simp add: strtoll_def print_int_def clamp_i64_def in_i64_def)
  next
    case False
    then have "digits_val (c # t @ r) = v" using dv [of "nat v"] p(1) by simp
    then show ?thesis using assms(1) d False p(1) by (simp add: strtoll_def print_int_def clamp_i64_def in_i64_def)
  qed
  show "strtoll_end (print_int v @ r) = r"
  proof (cases "v < 0")
    case True
    have "dropWhile is_digit (c' # t' @ r) = r" using takeWhile_digits [OF assms(2), of "nat (- v)"] p'(1) by simp
    then show ?thesis using True p' by (simp add: strtoll_end_def print_int_def)
  next
    case False
    have "dropWhile is_digit (c # t @ r) = r" using takeWhile_digits [OF assms(2), of "nat v"] p(1) by simp
    then show ?thesis using False p d by (simp add: strtoll_end_def print_int_def)
  qed
qed

lemma print_int_hd: "\<exists>c t. print_int v = c # t \<and> (is_digit c \<or> c = CHR ''-'')"
  using print_base_hd [of "nat v"] by (auto simp: print_int_def)

text \<open>One turn of the member loop.\<close>

definition reads_back :: "json \<Rightarrow> nat \<Rightarrow> bool" where
  "reads_back v d \<longleftrightarrow> (\<forall>n rest. 2 * length (print_json v @ rest) + 2 \<le> n \<longrightarrow> no_digit rest \<longrightarrow>
     parse_json_value (\<lambda>n. False) n (print_json v @ rest) d = Inr (Some v, rest))"

lemma member_turn:
  assumes "plain_str k" "reads_back v (Suc d)" "2 * length (item (k, v) @ c # rest) + 1 \<le> Suc n" "c = CHR '','' \<or> c = CHR ''}''"
  shows "members_loop (\<lambda>n. False) (Suc n) (item (k, v) @ c # rest) d ms =
    members_loop (\<lambda>n. False) n (if c = CHR '','' then rest else c # rest) d (ms @ [(k, v)])"
proof -
  let ?p = "item (k, v) @ c # rest" and ?v = "print_json v @ c # rest"
  obtain q where q: "?p = CHR 0x22 # q" by (simp add: quoted_def)
  have s: "skip_json_ws ?p = ?p" unfolding q by (simp add: skip_visible not_space_tokens)
  have str: "parse_json_string (\<lambda>n. False) ?p = (k, CHR '':'' # ?v)"
    using parse_string_quoted [OF assms(1), of "CHR '':'' # ?v"] by simp
  have nd: "no_digit (c # rest)" using assms(4) by (auto simp: no_digit_def is_digit_def)
  have val: "parse_json_value (\<lambda>n. False) n ?v (d + 1) = Inr (Some v, c # rest)"
    using assms(2,3) nd unfolding reads_back_def by (auto simp: quoted_def)
  have sc: "skip_json_ws (c # rest) = c # rest" using assms(4) by (auto intro: skip_visible simp: not_space_tokens)
  have hd: "(?p = [] \<or> hd ?p = CHR ''}'') = False" "(?p \<noteq> [] \<and> hd ?p = CHR ''}'') = False" unfolding q by simp_all
  have "members_loop (\<lambda>n. False) (Suc n) ?p d ms =
      bind_res (parse_json_value (\<lambda>n. False) n ?v (d + 1)) (\<lambda>(val, p).
        let ms = (case val of None \<Rightarrow> ms | Some v \<Rightarrow> ms @ [(k, v)]); p = skip_json_ws p
        in if p \<noteq> [] \<and> hd p = CHR '','' then members_loop (\<lambda>n. False) n (tl p) d ms
           else if p = [] \<or> hd p \<noteq> CHR ''}'' then Inr (ms, p) else members_loop (\<lambda>n. False) n p d ms)"
    by (simp only: members_loop.simps(2) Let_def s str prod.case hd if_False)
      (simp add: skip_visible not_space_tokens)
  then show ?thesis using val sc assms(4) by (auto simp: Let_def)
qed

lemma members_read_back:
  assumes "list_all (\<lambda>m. plain_str (fst m) \<and> reads_back (snd m) (Suc d)) ms"
  shows "2 * length (join CHR '','' (map item ms) @ CHR ''}'' # rest) + 1 \<le> n \<Longrightarrow>
    members_loop (\<lambda>n. False) n (join CHR '','' (map item ms) @ CHR ''}'' # rest) d acc = Inr (acc @ ms, CHR ''}'' # rest)"
  using assms
proof (induction ms arbitrary: n acc)
  case Nil
  then show ?case by (cases n) auto
next
  case (Cons m ms)
  obtain k v where m: "m = (k, v)" by (cases m)
  obtain n' where n: "n = Suc n'" using Cons(2) by (cases n) auto
  note turn = member_turn [of k v d _ _ n' acc]
  show ?case
  proof (cases ms)
    case Nil
    have "members_loop (\<lambda>n. False) n (item (k, v) @ CHR ''}'' # rest) d acc =
        members_loop (\<lambda>n. False) n' (CHR ''}'' # rest) d (acc @ [(k, v)])"
      using turn [of "CHR ''}''" rest] Cons(2,3) unfolding n m Nil by simp
    moreover obtain n'' where "n' = Suc n''" using Cons(2) unfolding n m Nil by (cases n') (auto simp: quoted_def)
    ultimately show ?thesis unfolding m Nil by simp
  next
    case (Cons m' ms')
    let ?r = "join CHR '','' (map item ms) @ CHR ''}'' # rest"
    have j: "join CHR '','' (map item (m # ms)) @ CHR ''}'' # rest = item (k, v) @ CHR '','' # ?r" unfolding m Cons by simp
    have "members_loop (\<lambda>n. False) n (item (k, v) @ CHR '','' # ?r) d acc = members_loop (\<lambda>n. False) n' ?r d (acc @ [(k, v)])"
      using turn [of "CHR '',''" ?r] Cons.prems unfolding n m j [unfolded m] by simp
    also have "\<dots> = Inr ((acc @ [(k, v)]) @ ms, CHR ''}'' # rest)"
      using Cons.prems unfolding j n by (intro Cons.IH) (auto simp: quoted_def)
    finally show ?thesis unfolding j by (simp add: m)
  qed
qed

lemma jdepth_member: "m \<in> set ms \<Longrightarrow> jdepth (snd m) < jdepth (JObj ms)"
  using foldr_max_le [of "\<lambda>m. jdepth (snd m)" ms "foldr (\<lambda>m d. max (jdepth (snd m)) d) ms 0"] by (simp add: list_all_iff less_Suc_eq_le)

lemma json_reads_back: "plain_json v \<Longrightarrow> 2 * jdepth v + d \<le> 256 \<Longrightarrow> reads_back v d"
proof (induction v arbitrary: d)
  case (JInt v)
  show ?case unfolding reads_back_def
  proof (intro allI impI)
    fix n rest assume n: "2 * length (print_json (JInt v) @ rest) + 2 \<le> n" and r: "no_digit rest"
    obtain n' where n': "n = Suc n'" using n by (cases n) auto
    obtain c t where p: "print_int v = c # t" "is_digit c \<or> c = CHR ''-''" using print_int_hd by blast
    have sk: "skip_json_ws (c # t @ rest) = c # t @ rest" using p(2) digit_not_space by (intro skip_visible) (auto simp: not_space_tokens)
    have "c \<noteq> CHR ''{''" "c \<noteq> CHR 0x22" using p(2) by (auto simp: is_digit_def)
    moreover have "strtoll (c # t @ rest) = v" "strtoll_end (c # t @ rest) = rest" using strtoll_print [OF _ r, of v] JInt(1) p(1) by simp_all
    ultimately show "parse_json_value (\<lambda>n. False) n (print_json (JInt v) @ rest) d = Inr (Some (JInt v), rest)"
      using JInt(2) p sk by (simp add: n' LPP_JSON_MAX_DEPTH_def)
  qed
next
  case (JStr s)
  show ?case unfolding reads_back_def
  proof (intro allI impI)
    fix n rest assume n: "2 * length (print_json (JStr s) @ rest) + 2 \<le> n"
    obtain n' where n': "n = Suc n'" using n by (cases n) auto
    have sk: "skip_json_ws (quoted s @ rest) = CHR 0x22 # or_empty s @ CHR 0x22 # rest" by (simp add: quoted_def skip_visible not_space_tokens)
    have "parse_json_string (\<lambda>n. False) (CHR 0x22 # or_empty s @ CHR 0x22 # rest) = (s, rest)"
      using parse_string_quoted [of s rest] JStr(1) by (simp add: quoted_def)
    then show "parse_json_value (\<lambda>n. False) n (print_json (JStr s) @ rest) d = Inr (Some (JStr s), rest)"
      using JStr(2) sk by (simp add: n' LPP_JSON_MAX_DEPTH_def)
  qed
next
  case (JObj ms)
  have ms: "list_all (\<lambda>m. plain_str (fst m) \<and> reads_back (snd m) (Suc (Suc d))) ms"
    unfolding list_all_iff
  proof
    fix m assume m: "m \<in> set ms"
    have "plain_str (fst m)" "plain_json (snd m)" using JObj(2) m by (auto simp: list_all_iff)
    moreover have "2 * jdepth (snd m) + Suc (Suc d) \<le> 256" using JObj(3) jdepth_member [OF m] by simp
    ultimately show "plain_str (fst m) \<and> reads_back (snd m) (Suc (Suc d))" using JObj(1) [of m "snd m"] m by (auto simp: snds.simps)
  qed
  show ?case unfolding reads_back_def
  proof (intro allI impI)
    fix n rest assume n: "2 * length (print_json (JObj ms) @ rest) + 2 \<le> n"
    define q where "q = join CHR '','' (map item ms) @ CHR ''}'' # rest"
    have p: "print_json (JObj ms) @ rest = CHR ''{'' # q" by (simp add: q_def)
    have n3: "2 * length q + 4 \<le> n" using n unfolding p by simp
    then obtain n' where n': "n = Suc (Suc n')" by (cases n; cases "n - 1") auto
    have "members_loop (\<lambda>n. False) n' q (Suc d) [] = Inr ([] @ ms, CHR ''}'' # rest)"
      using n3 unfolding n' q_def by (intro members_read_back [OF ms]) simp
    then show "parse_json_value (\<lambda>n. False) n (print_json (JObj ms) @ rest) d = Inr (Some (JObj ms), rest)"
      using JObj(3) unfolding p n' by (simp add: LPP_JSON_MAX_DEPTH_def skip_visible not_space_tokens)
  qed
qed

section \<open>Properties\<close>

lemma json_find_map_of:
  "nul_free key \<Longrightarrow> list_all (\<lambda>m. pred_option nul_free (fst m)) ms \<Longrightarrow> json_find ms key = map_of ms (Some key)"
  by (induction ms key rule: json_find.induct) (auto simp: strcmp_0_iff split: option.splits)

text \<open>C7: The parser ends on every input, malformed or not, with the recursion it is given, and the depth guard works: no
  parse tree is nested deeper than 129 levels, whatever the document says.\<close>

theorem lpp_json_parse_total:
  "\<exists>v. lpp_json_parse oom s = Inr v \<and> pred_option (\<lambda>j. jdepth j \<le> 129) v"
proof (cases s)
  case None
  then show ?thesis by (simp add: lpp_json_parse_def)
next
  case (Some str)
  have "value_ok oom (json_fuel str)" using parsers_ok by blast
  then obtain v r where "parse_json_value oom (json_fuel str) str 0 = Inr (v, r)" "pred_option (\<lambda>j. 2 * jdepth j + 0 \<le> 258) v"
    unfolding value_ok_def json_fuel_def by blast
  then show ?thesis using Some by (auto simp: lpp_json_parse_def pred_option_def)
qed

text \<open>C25: An object written without escapes and nested at most 128 levels deep is parsed back to itself, and the accessors
  return its members: the first one with the key if it has the type asked for, and 0, the empty string or NULL
  otherwise.\<close>

theorem lpp_json_roundtrip:
  assumes "plain_json (JObj ms)" "jdepth (JObj ms) \<le> 128" "list_all (\<lambda>m. pred_option nul_free (fst m)) ms" "nul_free key"
  shows "\<exists>j. lpp_json_parse (\<lambda>n. False) (Some (print_json (JObj ms))) = Inr j \<and> j = Some (JObj ms) \<and>
    lpp_json_get_int j key = (case map_of ms (Some key) of Some (JInt v) \<Rightarrow> v | _ \<Rightarrow> 0) \<and>
    lpp_json_get_str j key = (case map_of ms (Some key) of Some (JStr (Some t)) \<Rightarrow> t | _ \<Rightarrow> []) \<and>
    lpp_json_get_obj j key = (case map_of ms (Some key) of Some (JObj ns) \<Rightarrow> Some (JObj ns) | _ \<Rightarrow> None)"
proof -
  have "reads_back (JObj ms) 0" using assms(1,2) by (intro json_reads_back) simp_all
  then have "parse_json_value (\<lambda>n. False) (json_fuel (print_json (JObj ms))) (print_json (JObj ms) @ []) 0 = Inr (Some (JObj ms), [])"
    unfolding reads_back_def json_fuel_def by (metis append_Nil2 le_refl no_digit_def)
  then have "lpp_json_parse (\<lambda>n. False) (Some (print_json (JObj ms))) = Inr (Some (JObj ms))"
    by (simp only: lpp_json_parse_def option.case append_Nil2 bind_res.simps prod.case)
  moreover have "json_find ms key = map_of ms (Some key)" using assms(3,4) by (intro json_find_map_of)
  ultimately show ?thesis by (simp add: lpp_json_get_int_def lpp_json_get_str_def lpp_json_get_obj_def)
qed

theorem lpp_json_roundtrip_witness:
  "\<exists>j. lpp_json_parse (\<lambda>n. False) (Some (print_json (JObj [(Some ''n'', JInt 5)]))) = Inr j \<and> lpp_json_get_int j ''n'' = 5"
  using lpp_json_roundtrip [of "[(Some ''n'', JInt 5)]" "''n''"]
  by (auto simp: plain_str_def in_i64_def INT64_MIN_def INT64_MAX_def simp del: print_json.simps)

end
