(* ===== verification/Lpp_Atomic.thy ===== *)
theory Lpp_Atomic
  imports Lpp_Prelude
begin

text \<open>
  Atomic cells: \<^verbatim>\<open>runtime/lpp_atomic.c\<close>. The first half of that file serves Windows through the
  \<open>_Interlocked\<close> intrinsics (suffix \<open>_win\<close>), the second every other host through the \<open>__atomic\<close> builtins.
  Each call is one indivisible step on the memory, so an execution of several threads is a sequence of calls; the memory orders
  (\<open>ACQUIRE\<close>, \<open>RELEASE\<close>, \<open>RELAXED\<close>) only restrict which other accesses move across a call and leave its effect on its
  own cell unchanged. What a lock needs of its operations is the locale \<open>try_lock\<close>, which the compare-and-swap satisfies.
\<close>

section \<open>Memory\<close>

text \<open>The heap is a map of 32-bit words; a 64-bit cell is the word at its address (the low half) and the next one. A call whose
  address is not one of the allocated words, or not aligned, is undefined.\<close>

record atom_state =
  awords :: "i64 \<Rightarrow> u32 option"
  acells :: "i64 list"

definition join64 :: "u32 \<Rightarrow> u32 \<Rightarrow> i64" where
  "join64 lo hi = ucast lo OR push_bit 32 (ucast hi)"

definition read32 :: "atom_state \<Rightarrow> i64 \<Rightarrow> u32 res" where
  "read32 st p = (case awords st p of None \<Rightarrow> Inl (Fault ''atomic access outside a cell'') | Some w \<Rightarrow> Inr w)"

definition read64 :: "atom_state \<Rightarrow> i64 \<Rightarrow> i64 res" where
  "read64 st p = (if p AND 7 \<noteq> 0 then Inl (Fault ''misaligned atomic access'')
     else bind_res (read32 st p) (\<lambda>lo. bind_res (read32 st (p + 4)) (\<lambda>hi. Inr (join64 lo hi))))"

definition put32 :: "atom_state \<Rightarrow> i64 \<Rightarrow> u32 \<Rightarrow> atom_state" where
  "put32 st p w = st\<lparr>awords := (awords st)(p \<mapsto> w)\<rparr>"

definition put64 :: "atom_state \<Rightarrow> i64 \<Rightarrow> i64 \<Rightarrow> atom_state" where
  "put64 st p v = put32 (put32 st p (ucast v)) (p + 4) (ucast (drop_bit 32 v))"

text \<open>The builtins and intrinsics: one read, one write of a function of the value read, the old value returned.\<close>

definition fetch64 :: "(i64 \<Rightarrow> i64) \<Rightarrow> atom_state \<Rightarrow> i64 \<Rightarrow> (atom_state \<times> i64) res" where
  "fetch64 f st p = bind_res (read64 st p) (\<lambda>old. Inr (put64 st p (f old), old))"

definition fetch32 :: "(u32 \<Rightarrow> u32) \<Rightarrow> atom_state \<Rightarrow> i64 \<Rightarrow> (atom_state \<times> u32) res" where
  "fetch32 f st p = bind_res (read32 st p) (\<lambda>old. Inr (put32 st p (f old), old))"

text \<open>\<open>__atomic_compare_exchange_n\<close>: on failure the expected value is overwritten with the value found. The weak form may fail although
  the values agree; \<open>spurious\<close> says whether it does.\<close>

definition compare_exchange64 :: "bool \<Rightarrow> atom_state \<Rightarrow> i64 \<Rightarrow> i64 \<Rightarrow> i64 \<Rightarrow> (atom_state \<times> i64) res" where
  "compare_exchange64 spurious st p expd desired = bind_res (read64 st p) (\<lambda>old.
     if old = expd \<and> \<not> spurious then Inr (put64 st p desired, expd) else Inr (st, old))"

definition compare_exchange32 :: "atom_state \<Rightarrow> i64 \<Rightarrow> u32 \<Rightarrow> u32 \<Rightarrow> (atom_state \<times> u32) res" where
  "compare_exchange32 st p expd desired = bind_res (read32 st p) (\<lambda>old.
     if old = expd then Inr (put32 st p desired, expd) else Inr (st, old))"

section \<open>The builtins\<close>

text \<open>\<open>malloc(sizeof(int64_t))\<close> answers \<open>p\<close>, 0 when there is no memory.\<close>

definition lpp_atomic_alloc :: "i64 \<Rightarrow> atom_state \<Rightarrow> i64 \<Rightarrow> (atom_state \<times> i64) res" where
  "lpp_atomic_alloc p st init_val = (if p = 0 then Inl (Panic ''out of memory in atomic_alloc'')
     else Inr ((put64 st p init_val)\<lparr>acells := p # acells st\<rparr>, p))"

definition lpp_atomic_new :: "i64 \<Rightarrow> atom_state \<Rightarrow> i64 \<Rightarrow> (atom_state \<times> i64) res" where
  "lpp_atomic_new p st init_val = lpp_atomic_alloc p st init_val"

definition lpp_atomic_free :: "atom_state \<Rightarrow> i64 \<Rightarrow> atom_state res" where
  "lpp_atomic_free st p = (if p = 0 then Inr st
     else if p \<notin> set (acells st) then Inl (Fault ''free of a foreign pointer'')
     else Inr (st\<lparr>awords := (awords st)(p := None, p + 4 := None), acells := remove1 p (acells st)\<rparr>))"

definition lpp_atomic_load :: "atom_state \<Rightarrow> i64 \<Rightarrow> i64 res" where
  "lpp_atomic_load st p = read64 st p"

definition lpp_atomic_load_acq :: "atom_state \<Rightarrow> i64 \<Rightarrow> i64 res" where
  "lpp_atomic_load_acq st p = read64 st p"

definition lpp_atomic_load_relaxed :: "atom_state \<Rightarrow> i64 \<Rightarrow> i64 res" where
  "lpp_atomic_load_relaxed st p = read64 st p"

definition lpp_atomic_store :: "atom_state \<Rightarrow> i64 \<Rightarrow> i64 \<Rightarrow> atom_state res" where
  "lpp_atomic_store st p v = bind_res (read64 st p) (\<lambda>_. Inr (put64 st p v))"

definition lpp_atomic_store_rel :: "atom_state \<Rightarrow> i64 \<Rightarrow> i64 \<Rightarrow> atom_state res" where
  "lpp_atomic_store_rel st p v = bind_res (read64 st p) (\<lambda>_. Inr (put64 st p v))"

definition lpp_atomic_store_relaxed :: "atom_state \<Rightarrow> i64 \<Rightarrow> i64 \<Rightarrow> atom_state res" where
  "lpp_atomic_store_relaxed st p v = bind_res (read64 st p) (\<lambda>_. Inr (put64 st p v))"

definition lpp_atomic_add :: "atom_state \<Rightarrow> i64 \<Rightarrow> i64 \<Rightarrow> (atom_state \<times> i64) res" where
  "lpp_atomic_add st p v = fetch64 (\<lambda>old. old + v) st p"

definition lpp_atomic_sub :: "atom_state \<Rightarrow> i64 \<Rightarrow> i64 \<Rightarrow> (atom_state \<times> i64) res" where
  "lpp_atomic_sub st p v = fetch64 (\<lambda>old. old - v) st p"

definition lpp_atomic_and :: "atom_state \<Rightarrow> i64 \<Rightarrow> i64 \<Rightarrow> (atom_state \<times> i64) res" where
  "lpp_atomic_and st p v = fetch64 (\<lambda>old. old AND v) st p"

definition lpp_atomic_or :: "atom_state \<Rightarrow> i64 \<Rightarrow> i64 \<Rightarrow> (atom_state \<times> i64) res" where
  "lpp_atomic_or st p v = fetch64 (\<lambda>old. old OR v) st p"

definition lpp_atomic_xor :: "atom_state \<Rightarrow> i64 \<Rightarrow> i64 \<Rightarrow> (atom_state \<times> i64) res" where
  "lpp_atomic_xor st p v = fetch64 (\<lambda>old. old XOR v) st p"

definition lpp_atomic_swap :: "atom_state \<Rightarrow> i64 \<Rightarrow> i64 \<Rightarrow> (atom_state \<times> i64) res" where
  "lpp_atomic_swap st p v = fetch64 (\<lambda>old. v) st p"

definition lpp_atomic_cas :: "atom_state \<Rightarrow> i64 \<Rightarrow> i64 \<Rightarrow> i64 \<Rightarrow> (atom_state \<times> i64) res" where
  "lpp_atomic_cas st p expd desired = compare_exchange64 False st p expd desired"

definition lpp_atomic_cas_weak :: "bool \<Rightarrow> atom_state \<Rightarrow> i64 \<Rightarrow> i64 \<Rightarrow> i64 \<Rightarrow> (atom_state \<times> i64) res" where
  "lpp_atomic_cas_weak spurious st p expd desired = compare_exchange64 spurious st p expd desired"

definition lpp_atomic_load32 :: "atom_state \<Rightarrow> i64 \<Rightarrow> i64 res" where
  "lpp_atomic_load32 st p = bind_res (read32 st p) (\<lambda>w. Inr (scast w))"

definition lpp_atomic_store32 :: "atom_state \<Rightarrow> i64 \<Rightarrow> i64 \<Rightarrow> atom_state res" where
  "lpp_atomic_store32 st p v = bind_res (read32 st p) (\<lambda>_. Inr (put32 st p (ucast v)))"

definition lpp_atomic_add32 :: "atom_state \<Rightarrow> i64 \<Rightarrow> i64 \<Rightarrow> (atom_state \<times> i64) res" where
  "lpp_atomic_add32 st p v = bind_res (fetch32 (\<lambda>old. old + ucast v) st p) (\<lambda>(st', old). Inr (st', scast old))"

definition lpp_atomic_cas32 :: "atom_state \<Rightarrow> i64 \<Rightarrow> i64 \<Rightarrow> i64 \<Rightarrow> (atom_state \<times> i64) res" where
  "lpp_atomic_cas32 st p expd desired =
     bind_res (compare_exchange32 st p (ucast expd) (ucast desired)) (\<lambda>(st', e). Inr (st', scast e))"

section \<open>The Windows half\<close>

text \<open>\<open>_InterlockedCompareExchange64\<close> returns the value found and has no weak form; a load is an \<open>_InterlockedOr64\<close> with 0, a store an
  exchange whose result is dropped.\<close>

definition interlocked_cas64 :: "atom_state \<Rightarrow> i64 \<Rightarrow> i64 \<Rightarrow> i64 \<Rightarrow> (atom_state \<times> i64) res" where
  "interlocked_cas64 st p desired comparand = fetch64 (\<lambda>old. if old = comparand then desired else old) st p"

definition interlocked_cas32 :: "atom_state \<Rightarrow> i64 \<Rightarrow> u32 \<Rightarrow> u32 \<Rightarrow> (atom_state \<times> u32) res" where
  "interlocked_cas32 st p desired comparand = fetch32 (\<lambda>old. if old = comparand then desired else old) st p"

definition lpp_atomic_load_win :: "atom_state \<Rightarrow> i64 \<Rightarrow> (atom_state \<times> i64) res" where
  "lpp_atomic_load_win st p = fetch64 (\<lambda>old. old OR 0) st p"

definition lpp_atomic_load_acq_win :: "atom_state \<Rightarrow> i64 \<Rightarrow> (atom_state \<times> i64) res" where
  "lpp_atomic_load_acq_win st p = fetch64 (\<lambda>old. old OR 0) st p"

definition lpp_atomic_load_relaxed_win :: "atom_state \<Rightarrow> i64 \<Rightarrow> i64 res" where
  "lpp_atomic_load_relaxed_win st p = read64 st p"

definition lpp_atomic_store_win :: "atom_state \<Rightarrow> i64 \<Rightarrow> i64 \<Rightarrow> atom_state res" where
  "lpp_atomic_store_win st p v = bind_res (fetch64 (\<lambda>old. v) st p) (\<lambda>(st', _). Inr st')"

definition lpp_atomic_store_rel_win :: "atom_state \<Rightarrow> i64 \<Rightarrow> i64 \<Rightarrow> atom_state res" where
  "lpp_atomic_store_rel_win st p v = bind_res (fetch64 (\<lambda>old. v) st p) (\<lambda>(st', _). Inr st')"

definition lpp_atomic_store_relaxed_win :: "atom_state \<Rightarrow> i64 \<Rightarrow> i64 \<Rightarrow> atom_state res" where
  "lpp_atomic_store_relaxed_win st p v = bind_res (read64 st p) (\<lambda>_. Inr (put64 st p v))"

definition lpp_atomic_add_win :: "atom_state \<Rightarrow> i64 \<Rightarrow> i64 \<Rightarrow> (atom_state \<times> i64) res" where
  "lpp_atomic_add_win st p v = fetch64 (\<lambda>old. old + v) st p"

definition lpp_atomic_sub_win :: "atom_state \<Rightarrow> i64 \<Rightarrow> i64 \<Rightarrow> (atom_state \<times> i64) res" where
  "lpp_atomic_sub_win st p v = fetch64 (\<lambda>old. old + (- v)) st p"

definition lpp_atomic_and_win :: "atom_state \<Rightarrow> i64 \<Rightarrow> i64 \<Rightarrow> (atom_state \<times> i64) res" where
  "lpp_atomic_and_win st p v = fetch64 (\<lambda>old. old AND v) st p"

definition lpp_atomic_or_win :: "atom_state \<Rightarrow> i64 \<Rightarrow> i64 \<Rightarrow> (atom_state \<times> i64) res" where
  "lpp_atomic_or_win st p v = fetch64 (\<lambda>old. old OR v) st p"

definition lpp_atomic_xor_win :: "atom_state \<Rightarrow> i64 \<Rightarrow> i64 \<Rightarrow> (atom_state \<times> i64) res" where
  "lpp_atomic_xor_win st p v = fetch64 (\<lambda>old. old XOR v) st p"

definition lpp_atomic_swap_win :: "atom_state \<Rightarrow> i64 \<Rightarrow> i64 \<Rightarrow> (atom_state \<times> i64) res" where
  "lpp_atomic_swap_win st p v = fetch64 (\<lambda>old. v) st p"

definition lpp_atomic_cas_win :: "atom_state \<Rightarrow> i64 \<Rightarrow> i64 \<Rightarrow> i64 \<Rightarrow> (atom_state \<times> i64) res" where
  "lpp_atomic_cas_win st p expd desired = interlocked_cas64 st p desired expd"

definition lpp_atomic_cas_weak_win :: "atom_state \<Rightarrow> i64 \<Rightarrow> i64 \<Rightarrow> i64 \<Rightarrow> (atom_state \<times> i64) res" where
  "lpp_atomic_cas_weak_win st p expd desired = interlocked_cas64 st p desired expd"

definition lpp_atomic_load32_win :: "atom_state \<Rightarrow> i64 \<Rightarrow> (atom_state \<times> i64) res" where
  "lpp_atomic_load32_win st p = bind_res (fetch32 (\<lambda>old. old OR 0) st p) (\<lambda>(st', old). Inr (st', scast old))"

definition lpp_atomic_store32_win :: "atom_state \<Rightarrow> i64 \<Rightarrow> i64 \<Rightarrow> atom_state res" where
  "lpp_atomic_store32_win st p v = bind_res (fetch32 (\<lambda>old. ucast v) st p) (\<lambda>(st', _). Inr st')"

definition lpp_atomic_add32_win :: "atom_state \<Rightarrow> i64 \<Rightarrow> i64 \<Rightarrow> (atom_state \<times> i64) res" where
  "lpp_atomic_add32_win st p v = bind_res (fetch32 (\<lambda>old. old + ucast v) st p) (\<lambda>(st', old). Inr (st', scast old))"

definition lpp_atomic_cas32_win :: "atom_state \<Rightarrow> i64 \<Rightarrow> i64 \<Rightarrow> i64 \<Rightarrow> (atom_state \<times> i64) res" where
  "lpp_atomic_cas32_win st p expd desired =
     bind_res (interlocked_cas32 st p (ucast desired) (ucast expd)) (\<lambda>(st', e). Inr (st', scast e))"

section \<open>A cell behaves like a variable\<close>

definition live_cell :: "atom_state \<Rightarrow> i64 \<Rightarrow> bool" where
  "live_cell st p \<longleftrightarrow> p AND 7 = 0 \<and> awords st p \<noteq> None \<and> awords st (p + 4) \<noteq> None"

lemma ucast_join64 [simp]:
  "(ucast (join64 lo hi) :: u32) = lo" "(ucast (drop_bit 32 (join64 lo hi)) :: u32) = hi"
proof -
  have "\<not> bit lo (32 + n)" for n using bit_imp_le_length [of lo "32 + n"] by auto
  then show "(ucast (join64 lo hi) :: u32) = lo" "(ucast (drop_bit 32 (join64 lo hi)) :: u32) = hi"
    by (auto intro!: bit_word_eqI simp: join64_def bit_simps)
qed

lemma join64_split [simp]: "join64 (ucast v) (ucast (drop_bit 32 v)) = v"
proof (rule bit_word_eqI)
  fix n assume "n < LENGTH(64)"
  then show "bit (join64 (ucast v) (ucast (drop_bit 32 v))) n = bit v n"
    by (cases "n < 32") (auto simp: join64_def bit_simps)
qed

lemma plus4_neq [simp]: "(p :: i64) + 4 \<noteq> p" "p \<noteq> p + 4"
  by auto

lemma read32_put32 [simp]: "read32 (put32 st p w) q = (if q = p then Inr w else read32 st q)"
  by (simp add: read32_def put32_def)

lemma read64_put64 [simp]: "p AND 7 = 0 \<Longrightarrow> read64 (put64 st p v) p = Inr v"
  by (simp add: read64_def put64_def)

lemma read64_aligned: "read64 st p = Inr v \<Longrightarrow> p AND 7 = 0"
  by (auto simp: read64_def split: if_splits)

lemma put32_same: "read32 st p = Inr w \<Longrightarrow> put32 st p w = st"
  by (cases st) (auto simp: read32_def put32_def fun_upd_idem split: option.splits)

lemma put64_same:
  assumes "read64 st p = Inr v" shows "put64 st p v = st"
proof -
  obtain lo hi where "read32 st p = Inr lo" "read32 st (p + 4) = Inr hi" "v = join64 lo hi"
    using assms by (auto simp: read64_def split: if_splits)
  then show ?thesis by (simp add: put64_def put32_same)
qed

lemma read64_live: "(\<exists>v. read64 st p = Inr v) \<longleftrightarrow> live_cell st p"
  by (auto simp: read64_def live_cell_def read32_def split: option.splits)

lemma put64_put64 [simp]: "put64 (put64 st p v) p w = put64 st p w"
  by (simp add: put64_def put32_def fun_eq_iff)

section \<open>Locks\<close>

text \<open>
  Threads that share one lock: a thread outside the critical section tries to take the lock and enters when the call says so, a thread
  inside gives it back. \<open>lock_run acquire release s0 s C\<close>: from \<open>s0\<close> some interleaving of such steps leads to the memory
  \<open>s\<close> with the threads \<open>C\<close> inside.
\<close>

inductive lock_run :: "('t \<Rightarrow> 's \<Rightarrow> ('s \<times> bool) res) \<Rightarrow> ('t \<Rightarrow> 's \<Rightarrow> 's res) \<Rightarrow> 's \<Rightarrow> 's \<Rightarrow> 't set \<Rightarrow> bool"
  for acquire release s0 where
  start: "lock_run acquire release s0 s0 {}"
| enter: "lock_run acquire release s0 s C \<Longrightarrow> t \<notin> C \<Longrightarrow> acquire t s = Inr (s', True) \<Longrightarrow> lock_run acquire release s0 s' (insert t C)"
| busy: "lock_run acquire release s0 s C \<Longrightarrow> t \<notin> C \<Longrightarrow> acquire t s = Inr (s', False) \<Longrightarrow> lock_run acquire release s0 s' C"
| leave: "lock_run acquire release s0 s C \<Longrightarrow> t \<in> C \<Longrightarrow> release t s = Inr s' \<Longrightarrow> lock_run acquire release s0 s' (C - {t})"

text \<open>What the operations have to promise: a free lock is taken and then not free, a taken one refuses everybody but the thread the lock itself
  knows as its holder (a recursive lock), and giving it back frees it.\<close>

locale try_lock =
  fixes good :: "'s \<Rightarrow> bool" and vacant :: "'s \<Rightarrow> bool" and holds :: "'t \<Rightarrow> 's \<Rightarrow> bool"
    and acquire :: "'t \<Rightarrow> 's \<Rightarrow> ('s \<times> bool) res" and release :: "'t \<Rightarrow> 's \<Rightarrow> 's res"
  assumes acquire_vacant: "good s \<Longrightarrow> vacant s \<Longrightarrow>
        \<exists>s'. acquire t s = Inr (s', True) \<and> good s' \<and> \<not> vacant s' \<and> (\<forall>u. holds u s' \<longrightarrow> u = t)"
    and acquire_taken: "good s \<Longrightarrow> \<not> vacant s \<Longrightarrow> \<not> holds t s \<Longrightarrow> acquire t s = Inr (s', b) \<Longrightarrow> \<not> b \<and> s' = s"
    and release_law: "good s \<Longrightarrow> release t s = Inr s' \<Longrightarrow> good s' \<and> vacant s'"
begin

lemma exclusive:
  assumes "lock_run acquire release s0 s C" "good s0" "vacant s0"
  shows "good s \<and> (if vacant s then C = {} else \<exists>t. C = {t} \<and> (\<forall>u. holds u s \<longrightarrow> u = t))"
  using assms
proof (induction rule: lock_run.induct)
  case (enter s C t s')
  then have g: "good s" "vacant s" "C = {}" using acquire_taken [of s t s' True] by (auto split: if_splits)
  then have "good s'" "\<not> vacant s'" "\<forall>u. holds u s' \<longrightarrow> u = t" using acquire_vacant [OF g(1,2), of t] enter.hyps(3) by auto
  then show ?case using g by simp
next
  case (busy s C t s')
  then have g: "good s" "\<not> vacant s" "\<not> holds t s" using acquire_vacant [of s t] by (auto split: if_splits)
  then have "s' = s" using acquire_taken [OF g busy.hyps(3)] by simp
  then show ?case using busy by simp
next
  case (leave s C t s')
  then show ?case using release_law [of s t s'] by (auto split: if_splits)
qed simp

lemma enters_when_vacant:
  assumes "lock_run acquire release s0 s {}" "good s0" "vacant s0"
  shows "\<exists>s'. lock_run acquire release s0 s' {t}"
proof -
  have "good s" "vacant s" using exclusive [OF assms] by (auto split: if_splits)
  then obtain s' where "acquire t s = Inr (s', True)" using acquire_vacant by blast
  then show ?thesis using lock_run.enter [OF assms(1), of t s'] by auto
qed

lemma outcome:
  assumes "lock_run acquire release s0 s C" "good s0" "vacant s0"
  shows "C = {} \<and> (\<exists>s'. lock_run acquire release s0 s' {t}) \<or> (\<exists>u. C = {u})"
  using exclusive [OF assms] enters_when_vacant [of s0 s t] assms by (auto split: if_splits)

end

text \<open>The spin lock of a program on an atomic cell: take it by changing 0 to 1, entering when the call returns 0, and give it back by storing 0.\<close>

definition cas_acquire :: "i64 \<Rightarrow> 't \<Rightarrow> atom_state \<Rightarrow> (atom_state \<times> bool) res" where
  "cas_acquire p t s = bind_res (lpp_atomic_cas s p 0 1) (\<lambda>(s', r). Inr (s', r = 0))"

definition cas_weak_acquire :: "('t \<Rightarrow> bool) \<Rightarrow> i64 \<Rightarrow> 't \<Rightarrow> atom_state \<Rightarrow> (atom_state \<times> bool) res" where
  "cas_weak_acquire spurious p t s = bind_res (lpp_atomic_cas_weak (spurious t) s p 0 1) (\<lambda>(s', r). Inr (s', r = 0))"

definition cas_release :: "i64 \<Rightarrow> 't \<Rightarrow> atom_state \<Rightarrow> atom_state res" where
  "cas_release p t s = lpp_atomic_store s p 0"

interpretation cas_lock: try_lock "\<lambda>s. read64 s p = Inr 0 \<or> read64 s p = Inr 1" "\<lambda>s. read64 s p = Inr 0"
  "\<lambda>t s. False" "cas_acquire p" "cas_release p" for p
proof unfold_locales
  fix s s' :: atom_state and t :: 'a and b
  show "\<exists>s'. cas_acquire p t s = Inr (s', True) \<and> (read64 s' p = Inr 0 \<or> read64 s' p = Inr 1) \<and> read64 s' p \<noteq> Inr 0 \<and>
      (\<forall>u. False \<longrightarrow> u = t)"
    if "read64 s p = Inr 0"
    using that read64_aligned [OF that] by (simp add: cas_acquire_def lpp_atomic_cas_def compare_exchange64_def)
  show "\<not> b \<and> s' = s"
    if "read64 s p = Inr 0 \<or> read64 s p = Inr 1" "read64 s p \<noteq> Inr 0" "cas_acquire p t s = Inr (s', b)"
    using that by (auto simp: cas_acquire_def lpp_atomic_cas_def compare_exchange64_def)
  show "(read64 s' p = Inr 0 \<or> read64 s' p = Inr 1) \<and> read64 s' p = Inr 0"
    if "read64 s p = Inr 0 \<or> read64 s p = Inr 1" "cas_release p t s = Inr s'"
    using that read64_aligned by (auto simp: cas_release_def lpp_atomic_store_def)
qed

lemma alloc_cell:
  assumes "lpp_atomic_new p st v = Inr (st', h)" "p AND 7 = 0"
  shows "h = p" "read64 st' h = Inr v"
  using assms by (auto simp: lpp_atomic_new_def lpp_atomic_alloc_def read64_def read32_def put64_def put32_def split: if_splits)

text \<open>Two threads inside at once, the first after a spurious failure of the weak call.\<close>

lemma weak_lock_run:
  assumes "read64 s0 p = Inr 0"
  shows "lock_run (cas_weak_acquire (\<lambda>t. t = 2) p) (cas_release p) s0 (put64 s0 p 1) {2, 3 :: nat}"
proof -
  have "cas_weak_acquire (\<lambda>t. t = 2) p (2 :: nat) s0 = Inr (s0, True)"
    using assms by (simp add: cas_weak_acquire_def lpp_atomic_cas_weak_def compare_exchange64_def)
  then have r: "lock_run (cas_weak_acquire (\<lambda>t. t = 2) p) (cas_release p) s0 s0 {2 :: nat}"
    by (intro lock_run.enter [OF lock_run.start]) simp_all
  have "cas_weak_acquire (\<lambda>t. t = 2) p (3 :: nat) s0 = Inr (put64 s0 p 1, True)"
    using assms by (simp add: cas_weak_acquire_def lpp_atomic_cas_weak_def compare_exchange64_def)
  then have "lock_run (cas_weak_acquire (\<lambda>t. t = 2) p) (cas_release p) s0 (put64 s0 p 1) {3, 2 :: nat}"
    by (intro lock_run.enter [OF r]) simp_all
  then show ?thesis by (simp add: insert_commute)
qed

section \<open>Counters\<close>

text \<open>The calls \<open>lpp_atomic_add(p, v)\<close> of all threads in the order in which they take effect, with the values they return.\<close>

fun add_all :: "atom_state \<Rightarrow> i64 \<Rightarrow> i64 list \<Rightarrow> (atom_state \<times> i64 list) res" where
  "add_all st p [] = Inr (st, [])"
| "add_all st p (v # vs) = bind_res (lpp_atomic_add st p v) (\<lambda>(st', r).
     bind_res (add_all st' p vs) (\<lambda>(st'', rs). Inr (st'', r # rs)))"

lemma add_all_run:
  "read64 st p = Inr x \<Longrightarrow> \<exists>st' rs. add_all st p vs = Inr (st', rs) \<and> read64 st' p = Inr (x + sum_list vs) \<and> length rs = length vs \<and>
     (\<forall>i < length vs. rs ! i = x + sum_list (take i vs))"
proof (induction vs arbitrary: st x)
  case (Cons v vs)
  have "read64 (put64 st p (x + v)) p = Inr (x + v)" using read64_aligned [OF Cons.prems] by simp
  from Cons.IH [OF this] obtain st' rs where r: "add_all (put64 st p (x + v)) p vs = Inr (st', rs)"
    "read64 st' p = Inr (x + v + sum_list vs)" "length rs = length vs" "\<forall>i < length vs. rs ! i = x + v + sum_list (take i vs)" by blast
  have "add_all st p (v # vs) = Inr (st', x # rs)" using Cons.prems r(1) by (simp add: lpp_atomic_add_def fetch64_def)
  moreover have "(x # rs) ! i = x + sum_list (take i (v # vs))" if "i < length (v # vs)" for i
    using that r(4) by (cases i) (auto simp: add.assoc)
  ultimately show ?case using r(2,3) by (auto simp: add.assoc)
qed simp

lemma sum_list_concat_mset:
  assumes "mset zs = mset (concat threads)"
  shows "sum_list zs = (\<Sum>vs \<leftarrow> threads. sum_list vs :: i64)"
proof -
  have "sum_list zs = sum_list (concat threads)" using assms by (metis sum_mset_sum_list)
  also have "\<dots> = (\<Sum>vs \<leftarrow> threads. sum_list vs)" by (induction threads) simp_all
  finally show ?thesis .
qed

lemma of_nat_inj_64: "i < 2 ^ 64 \<Longrightarrow> j < 2 ^ 64 \<Longrightarrow> (of_nat i :: i64) = of_nat j \<Longrightarrow> i = j"
  by (simp add: word_of_nat_eq_iff take_bit_nat_eq_self)

section \<open>Properties\<close>

text \<open>C9: A lock on an atomic cell. With the strong compare-and-swap no interleaving of threads that enter when \<open>lpp_atomic_cas(p, 0, 1)\<close> returns
  0 ever has two of them inside, the cell says whether one is, and an empty critical section can be entered. With \<open>lpp_atomic_cas_weak\<close> the same
  protocol lets two threads inside, because a spurious failure returns the expected value too.\<close>

theorem lpp_atomic_cas_lock:
  assumes "lpp_atomic_new p st 0 = Inr (s0, h)" "p AND 7 = 0"
  shows "(lock_run (cas_acquire h) (cas_release h) s0 s (C :: 't set) \<longrightarrow>
       (C = {} \<and> lpp_atomic_load s h = Inr 0 \<and> (\<exists>s'. lock_run (cas_acquire h) (cas_release h) s0 s' {t :: 't})) \<or>
       (\<exists>u. C = {u} \<and> lpp_atomic_load s h = Inr 1)) \<and>
    (\<exists>s. lock_run (cas_weak_acquire (\<lambda>t. t = 2) h) (cas_release h) s0 s {2, 3 :: nat})"
proof (intro conjI impI)
  have c: "read64 s0 h = Inr 0" by (rule alloc_cell [OF assms])
  show "\<exists>s. lock_run (cas_weak_acquire (\<lambda>t. t = 2) h) (cas_release h) s0 s {2, 3 :: nat}"
    using weak_lock_run [OF c] by blast
  assume r: "lock_run (cas_acquire h) (cas_release h) s0 s C"
  note x = cas_lock.exclusive [OF r]
  show "(C = {} \<and> lpp_atomic_load s h = Inr 0 \<and> (\<exists>s'. lock_run (cas_acquire h) (cas_release h) s0 s' {t})) \<or>
     (\<exists>u. C = {u} \<and> lpp_atomic_load s h = Inr 1)"
  proof (cases "read64 s h = Inr 0")
    case True
    then have "C = {}" using x c by simp
    then show ?thesis using r True c cas_lock.enters_when_vacant [of h s0 s t] by (simp add: lpp_atomic_load_def)
  next
    case False
    then show ?thesis using x c by (auto simp: lpp_atomic_load_def)
  qed
qed

theorem lpp_atomic_cas_lock_witness:
  "\<exists>s. lock_run (cas_weak_acquire (\<lambda>t. t = 2) 0x1000) (cas_release 0x1000)
     ((put64 \<lparr>awords = Map.empty, acells = []\<rparr> 0x1000 0)\<lparr>acells := [0x1000]\<rparr>) s {2, 3 :: nat}"
  by (rule conjunct2 [OF lpp_atomic_cas_lock [of "0x1000" "\<lparr>awords = Map.empty, acells = []\<rparr>"]])
    (simp_all add: lpp_atomic_new_def lpp_atomic_alloc_def)

text \<open>Shared counters lose no update. Whatever the interleaving of the threads' \<open>lpp_atomic_add\<close> calls on a live cell, all of them succeed and the
  cell ends at its start value plus everything every thread added, modulo 2^64; threads that draw tickets by adding 1 all get different ones.\<close>

theorem lpp_atomic_counter:
  assumes "lpp_atomic_load st p = Inr x" "mset zs = mset (concat threads)"
  shows "\<exists>st' rs. add_all st p zs = Inr (st', rs) \<and> lpp_atomic_load st' p = Inr (x + (\<Sum>vs \<leftarrow> threads. sum_list vs)) \<and>
    ((\<forall>vs \<in> set threads. set vs \<subseteq> {1}) \<and> length zs \<le> 2 ^ 64 \<longrightarrow> distinct rs)"
proof -
  from add_all_run [of st p x zs] assms(1) obtain st' rs where r: "add_all st p zs = Inr (st', rs)"
    "read64 st' p = Inr (x + sum_list zs)" "length rs = length zs" "\<forall>i < length zs. rs ! i = x + sum_list (take i zs)"
    by (auto simp: lpp_atomic_load_def)
  have "distinct rs" if o: "\<forall>vs \<in> set threads. set vs \<subseteq> {1}" and l: "length zs \<le> 2 ^ 64"
  proof -
    have "set zs = set (concat threads)" using assms(2) by (metis set_mset_mset)
    then have "zs = replicate (length zs) 1" using o by (intro replicate_eqI) auto
    then have "take i zs = replicate i 1" if "i < length zs" for i using that by (metis take_replicate min.absorb1 less_imp_le)
    then have "rs ! i = x + of_nat i" if "i < length zs" for i using that r(4) by (simp add: sum_list_replicate)
    then show ?thesis using r(3) l of_nat_inj_64 by (fastforce simp: distinct_conv_nth)
  qed
  then show ?thesis using r(1,2) sum_list_concat_mset [OF assms(2)] by (auto simp: lpp_atomic_load_def)
qed

theorem lpp_atomic_counter_witness:
  "\<exists>st' rs. add_all (put64 \<lparr>awords = Map.empty, acells = []\<rparr> 0x1000 5) 0x1000 [1, 1, 1] = Inr (st', rs) \<and>
     lpp_atomic_load st' 0x1000 = Inr 8 \<and> distinct rs"
  using lpp_atomic_counter [of "put64 \<lparr>awords = Map.empty, acells = []\<rparr> 0x1000 5" "0x1000" 5 "[1, 1, 1]" "[[1, 1], [1]]"]
  by (simp add: lpp_atomic_load_def del: add_all.simps)

text \<open>The two halves of the file do the same. On every memory and address each Windows operation has the effect and the result of its
  counterpart, the intrinsic loads leave the memory alone, and the weak compare-and-swap of Windows is the one that never fails spuriously.\<close>

theorem lpp_atomic_win_agrees:
  "bind_res (lpp_atomic_load_win st p) (\<lambda>(st', v). Inr (v, st' = st)) = bind_res (lpp_atomic_load st p) (\<lambda>v. Inr (v, True)) \<and>
   bind_res (lpp_atomic_load_acq_win st p) (\<lambda>(st', v). Inr (v, st' = st)) = bind_res (lpp_atomic_load_acq st p) (\<lambda>v. Inr (v, True)) \<and>
   bind_res (lpp_atomic_load32_win st p) (\<lambda>(st', v). Inr (v, st' = st)) = bind_res (lpp_atomic_load32 st p) (\<lambda>v. Inr (v, True)) \<and>
   lpp_atomic_store_win st p v = lpp_atomic_store st p v \<and> lpp_atomic_store_rel_win st p v = lpp_atomic_store_rel st p v \<and>
   lpp_atomic_store32_win st p v = lpp_atomic_store32 st p v \<and>
   lpp_atomic_sub_win st p v = lpp_atomic_sub st p v \<and> lpp_atomic_add32_win st p v = lpp_atomic_add32 st p v \<and>
   lpp_atomic_cas_win st p e d = lpp_atomic_cas st p e d \<and> lpp_atomic_cas_weak_win st p e d = lpp_atomic_cas_weak False st p e d \<and>
   lpp_atomic_cas32_win st p e d = lpp_atomic_cas32 st p e d"
proof -
  have c64: "interlocked_cas64 st p d e = compare_exchange64 False st p e d"
    by (cases "read64 st p") (simp_all add: interlocked_cas64_def compare_exchange64_def fetch64_def put64_same)
  have c32: "interlocked_cas32 st p (ucast d) (ucast e) = compare_exchange32 st p (ucast e) (ucast d)"
    by (cases "read32 st p") (simp_all add: interlocked_cas32_def compare_exchange32_def fetch32_def put32_same)
  show ?thesis
    apply (cases "read64 st p"; cases "read32 st p")
    apply (simp_all add: c64 c32 lpp_atomic_load_win_def lpp_atomic_load_def lpp_atomic_load_acq_win_def lpp_atomic_load_acq_def
        lpp_atomic_load32_win_def lpp_atomic_load32_def lpp_atomic_store_win_def lpp_atomic_store_def lpp_atomic_store_rel_win_def
        lpp_atomic_store_rel_def lpp_atomic_store32_win_def lpp_atomic_store32_def lpp_atomic_sub_win_def lpp_atomic_sub_def
        lpp_atomic_add32_win_def lpp_atomic_add32_def lpp_atomic_cas_win_def lpp_atomic_cas_def lpp_atomic_cas_weak_win_def
        lpp_atomic_cas_weak_def lpp_atomic_cas32_win_def lpp_atomic_cas32_def fetch64_def fetch32_def put64_same put32_same)
    done
qed

end
