(* ===== verification/Lpp_Concur.thy ===== *)
theory Lpp_Concur
  imports Lpp_Atomic
begin

text \<open>
  Mutexes, reader-writer locks and threads: \<^verbatim>\<open>runtime/lpp_concur.c\<close>, the POSIX half and the Windows half (suffix
  \<open>_win\<close>). A thread is a number. A call that has to wait changes nothing and answers \<open>None\<close>: the thread makes the call again
  when it is scheduled next. The pthread and Windows primitives are modelled as their documentation describes them, using one they
  leave undefined is a \<open>Fault\<close>. Allocation and the operating system answer through arguments (an address, 0 for failure).
\<close>

section \<open>State\<close>

text \<open>A mutex is the thread that holds it with the number of times it entered (POSIX mutexes never exceed 1), a reader-writer lock its writer and its
  readers, one entry per acquisition.\<close>

record rw_lock =
  rwriter :: "nat option"
  rreaders :: "nat list"

record sync_state =
  mutexes :: "i64 \<Rightarrow> (nat \<times> nat) option option"
  rwlocks :: "i64 \<Rightarrow> rw_lock option"

abbreviation sync_free :: "'a res" where
  "sync_free \<equiv> Inl (Fault ''use of a freed lock'')"

section \<open>Mutexes\<close>

definition lpp_mutex_new :: "i64 \<Rightarrow> sync_state \<Rightarrow> (sync_state \<times> i64) res" where
  "lpp_mutex_new m st = (if m = 0 then Inl (Panic ''out of memory in mutex_new'')
     else Inr (st\<lparr>mutexes := (mutexes st)(m \<mapsto> None)\<rparr>, m))"

text \<open>The default POSIX mutex: a second lock by its holder waits for ever.\<close>

definition lpp_mutex_lock :: "nat \<Rightarrow> i64 \<Rightarrow> sync_state \<Rightarrow> sync_state option res" where
  "lpp_mutex_lock t handle st = (if handle = 0 then Inr (Some st) else case mutexes st handle of None \<Rightarrow> sync_free
     | Some None \<Rightarrow> Inr (Some (st\<lparr>mutexes := (mutexes st)(handle \<mapsto> Some (t, 1))\<rparr>))
     | Some (Some _) \<Rightarrow> Inr None)"

definition lpp_mutex_trylock :: "nat \<Rightarrow> i64 \<Rightarrow> sync_state \<Rightarrow> (sync_state \<times> i64) res" where
  "lpp_mutex_trylock t handle st = (if handle = 0 then Inr (st, 0) else case mutexes st handle of None \<Rightarrow> sync_free
     | Some None \<Rightarrow> Inr (st\<lparr>mutexes := (mutexes st)(handle \<mapsto> Some (t, 1))\<rparr>, 1)
     | Some (Some _) \<Rightarrow> Inr (st, 0))"

definition lpp_mutex_unlock :: "nat \<Rightarrow> i64 \<Rightarrow> sync_state \<Rightarrow> sync_state res" where
  "lpp_mutex_unlock t handle st = (if handle = 0 then Inr st else case mutexes st handle of None \<Rightarrow> sync_free
     | Some None \<Rightarrow> Inl (Fault ''unlock of a free mutex'')
     | Some (Some (u, n)) \<Rightarrow> if u \<noteq> t then Inl (Fault ''unlock by another thread'')
         else Inr (st\<lparr>mutexes := (mutexes st)(handle \<mapsto> None)\<rparr>))"

definition lpp_mutex_free :: "i64 \<Rightarrow> sync_state \<Rightarrow> sync_state res" where
  "lpp_mutex_free handle st = (if handle = 0 then Inr st else case mutexes st handle of None \<Rightarrow> sync_free
     | Some None \<Rightarrow> Inr (st\<lparr>mutexes := (mutexes st)(handle := None)\<rparr>)
     | Some (Some _) \<Rightarrow> Inl (Fault ''destruction of a locked mutex''))"

text \<open>A critical section is recursive: its holder enters again and has to leave as often.\<close>

definition lpp_mutex_new_win :: "i64 \<Rightarrow> sync_state \<Rightarrow> (sync_state \<times> i64) res" where
  "lpp_mutex_new_win cs st = (if cs = 0 then Inl (Panic ''out of memory in mutex_new'')
     else Inr (st\<lparr>mutexes := (mutexes st)(cs \<mapsto> None)\<rparr>, cs))"

definition lpp_mutex_lock_win :: "nat \<Rightarrow> i64 \<Rightarrow> sync_state \<Rightarrow> sync_state option res" where
  "lpp_mutex_lock_win t handle st = (if handle = 0 then Inr (Some st) else case mutexes st handle of None \<Rightarrow> sync_free
     | Some None \<Rightarrow> Inr (Some (st\<lparr>mutexes := (mutexes st)(handle \<mapsto> Some (t, 1))\<rparr>))
     | Some (Some (u, n)) \<Rightarrow> if u = t then Inr (Some (st\<lparr>mutexes := (mutexes st)(handle \<mapsto> Some (t, Suc n))\<rparr>)) else Inr None)"

definition lpp_mutex_trylock_win :: "nat \<Rightarrow> i64 \<Rightarrow> sync_state \<Rightarrow> (sync_state \<times> i64) res" where
  "lpp_mutex_trylock_win t handle st = (if handle = 0 then Inr (st, 0)
     else bind_res (lpp_mutex_lock_win t handle st) (\<lambda>r. case r of None \<Rightarrow> Inr (st, 0) | Some st' \<Rightarrow> Inr (st', 1)))"

definition lpp_mutex_unlock_win :: "nat \<Rightarrow> i64 \<Rightarrow> sync_state \<Rightarrow> sync_state res" where
  "lpp_mutex_unlock_win t handle st = (if handle = 0 then Inr st else case mutexes st handle of None \<Rightarrow> sync_free
     | Some None \<Rightarrow> Inl (Fault ''leaving a section nobody holds'')
     | Some (Some (u, n)) \<Rightarrow> if u \<noteq> t then Inl (Fault ''leaving the section of another thread'')
         else Inr (st\<lparr>mutexes := (mutexes st)(handle \<mapsto> (if n \<le> 1 then None else Some (u, n - 1)))\<rparr>))"

definition lpp_mutex_free_win :: "i64 \<Rightarrow> sync_state \<Rightarrow> sync_state res" where
  "lpp_mutex_free_win handle st = (if handle = 0 then Inr st else case mutexes st handle of None \<Rightarrow> sync_free
     | Some None \<Rightarrow> Inr (st\<lparr>mutexes := (mutexes st)(handle := None)\<rparr>)
     | Some (Some _) \<Rightarrow> Inl (Fault ''deletion of an owned section''))"

section \<open>Reader-writer locks\<close>

definition lpp_rwlock_new :: "i64 \<Rightarrow> sync_state \<Rightarrow> (sync_state \<times> i64) res" where
  "lpp_rwlock_new rw st = (if rw = 0 then Inl (Panic ''out of memory in rwlock_new'')
     else Inr (st\<lparr>rwlocks := (rwlocks st)(rw \<mapsto> \<lparr>rwriter = None, rreaders = []\<rparr>)\<rparr>, rw))"

text \<open>A thread that holds the lock for writing and asks for it again gets the error \<open>EDEADLK\<close> at once, which the code ignores: it goes on as if it had
  got the lock.\<close>

definition lpp_rwlock_rdlock :: "nat \<Rightarrow> i64 \<Rightarrow> sync_state \<Rightarrow> sync_state option res" where
  "lpp_rwlock_rdlock t handle st = (if handle = 0 then Inr (Some st) else case rwlocks st handle of None \<Rightarrow> sync_free
     | Some l \<Rightarrow> if rwriter l = None
         then Inr (Some (st\<lparr>rwlocks := (rwlocks st)(handle \<mapsto> l\<lparr>rreaders := t # rreaders l\<rparr>)\<rparr>))
         else if rwriter l = Some t then Inr (Some st) else Inr None)"

definition lpp_rwlock_wrlock :: "nat \<Rightarrow> i64 \<Rightarrow> sync_state \<Rightarrow> sync_state option res" where
  "lpp_rwlock_wrlock t handle st = (if handle = 0 then Inr (Some st) else case rwlocks st handle of None \<Rightarrow> sync_free
     | Some l \<Rightarrow> if rwriter l = None \<and> rreaders l = []
         then Inr (Some (st\<lparr>rwlocks := (rwlocks st)(handle \<mapsto> l\<lparr>rwriter := Some t\<rparr>)\<rparr>))
         else if rwriter l = Some t then Inr (Some st) else Inr None)"

text \<open>\<open>pthread_rwlock_unlock\<close> gives up whichever of the two the caller holds; both unlock builtins call it.\<close>

definition pthread_rwlock_unlock :: "nat \<Rightarrow> i64 \<Rightarrow> sync_state \<Rightarrow> sync_state res" where
  "pthread_rwlock_unlock t handle st = (case rwlocks st handle of None \<Rightarrow> sync_free
     | Some l \<Rightarrow> if rwriter l = Some t then Inr (st\<lparr>rwlocks := (rwlocks st)(handle \<mapsto> l\<lparr>rwriter := None\<rparr>)\<rparr>)
         else if t \<in> set (rreaders l) then Inr (st\<lparr>rwlocks := (rwlocks st)(handle \<mapsto> l\<lparr>rreaders := remove1 t (rreaders l)\<rparr>)\<rparr>)
         else Inl (Fault ''unlock of a lock the thread does not hold''))"

definition lpp_rwlock_rdunlock :: "nat \<Rightarrow> i64 \<Rightarrow> sync_state \<Rightarrow> sync_state res" where
  "lpp_rwlock_rdunlock t handle st = (if handle = 0 then Inr st else pthread_rwlock_unlock t handle st)"

definition lpp_rwlock_wrunlock :: "nat \<Rightarrow> i64 \<Rightarrow> sync_state \<Rightarrow> sync_state res" where
  "lpp_rwlock_wrunlock t handle st = (if handle = 0 then Inr st else pthread_rwlock_unlock t handle st)"

definition lpp_rwlock_free :: "i64 \<Rightarrow> sync_state \<Rightarrow> sync_state res" where
  "lpp_rwlock_free handle st = (if handle = 0 then Inr st else case rwlocks st handle of None \<Rightarrow> sync_free
     | Some l \<Rightarrow> if rwriter l = None \<and> rreaders l = [] then Inr (st\<lparr>rwlocks := (rwlocks st)(handle := None)\<rparr>)
         else Inl (Fault ''destruction of a held lock''))"

text \<open>Slim locks do not know who holds them: asking again waits for ever, and giving back what is not held is undefined.\<close>

definition lpp_rwlock_new_win :: "i64 \<Rightarrow> sync_state \<Rightarrow> (sync_state \<times> i64) res" where
  "lpp_rwlock_new_win rw st = (if rw = 0 then Inl (Panic ''out of memory in rwlock_new'')
     else Inr (st\<lparr>rwlocks := (rwlocks st)(rw \<mapsto> \<lparr>rwriter = None, rreaders = []\<rparr>)\<rparr>, rw))"

definition lpp_rwlock_rdlock_win :: "nat \<Rightarrow> i64 \<Rightarrow> sync_state \<Rightarrow> sync_state option res" where
  "lpp_rwlock_rdlock_win t handle st = (if handle = 0 then Inr (Some st) else case rwlocks st handle of None \<Rightarrow> sync_free
     | Some l \<Rightarrow> if rwriter l = None
         then Inr (Some (st\<lparr>rwlocks := (rwlocks st)(handle \<mapsto> l\<lparr>rreaders := t # rreaders l\<rparr>)\<rparr>)) else Inr None)"

definition lpp_rwlock_wrlock_win :: "nat \<Rightarrow> i64 \<Rightarrow> sync_state \<Rightarrow> sync_state option res" where
  "lpp_rwlock_wrlock_win t handle st = (if handle = 0 then Inr (Some st) else case rwlocks st handle of None \<Rightarrow> sync_free
     | Some l \<Rightarrow> if rwriter l = None \<and> rreaders l = []
         then Inr (Some (st\<lparr>rwlocks := (rwlocks st)(handle \<mapsto> l\<lparr>rwriter := Some t\<rparr>)\<rparr>)) else Inr None)"

definition lpp_rwlock_rdunlock_win :: "nat \<Rightarrow> i64 \<Rightarrow> sync_state \<Rightarrow> sync_state res" where
  "lpp_rwlock_rdunlock_win t handle st = (if handle = 0 then Inr st else case rwlocks st handle of None \<Rightarrow> sync_free
     | Some l \<Rightarrow> if t \<in> set (rreaders l) then Inr (st\<lparr>rwlocks := (rwlocks st)(handle \<mapsto> l\<lparr>rreaders := remove1 t (rreaders l)\<rparr>)\<rparr>)
         else Inl (Fault ''release of a lock the thread does not hold''))"

definition lpp_rwlock_wrunlock_win :: "nat \<Rightarrow> i64 \<Rightarrow> sync_state \<Rightarrow> sync_state res" where
  "lpp_rwlock_wrunlock_win t handle st = (if handle = 0 then Inr st else case rwlocks st handle of None \<Rightarrow> sync_free
     | Some l \<Rightarrow> if rwriter l = Some t then Inr (st\<lparr>rwlocks := (rwlocks st)(handle \<mapsto> l\<lparr>rwriter := None\<rparr>)\<rparr>)
         else Inl (Fault ''release of a lock the thread does not hold''))"

definition lpp_rwlock_free_win :: "i64 \<Rightarrow> sync_state \<Rightarrow> sync_state res" where
  "lpp_rwlock_free_win handle st = (if handle = 0 then Inr st else case rwlocks st handle of None \<Rightarrow> sync_free
     | Some l \<Rightarrow> if rwriter l = None \<and> rreaders l = [] then Inr (st\<lparr>rwlocks := (rwlocks st)(handle := None)\<rparr>)
         else Inl (Fault ''release of the memory of a held lock''))"

section \<open>Threads\<close>

text \<open>\<open>LppThreadTrampoline\<close> carries the function and its argument from \<open>lpp_thread_spawn\<close> to the new thread. A thread handle is the address of
  the \<open>pthread_t\<close> (on Windows the \<open>HANDLE\<close>); behind it the thread either has not read its trampoline yet or has returned. \<open>run f a\<close>
  is what the L++ function at \<open>f\<close> returns for \<open>a\<close>.\<close>

record LppThreadTrampoline =
  fn_ptr :: i64
  arg :: i64

datatype thread = Started i64 | Finished i64

record thread_state =
  tramps :: "i64 \<Rightarrow> LppThreadTrampoline option"
  threads :: "i64 \<Rightarrow> thread option"

definition lpp_thread_stub :: "(i64 \<Rightarrow> i64 \<Rightarrow> i64) \<Rightarrow> i64 \<Rightarrow> thread_state \<Rightarrow> (thread_state \<times> i64) res" where
  "lpp_thread_stub run param st = (case tramps st param of None \<Rightarrow> Inl (Fault ''read of a freed trampoline'')
     | Some t \<Rightarrow> Inr (st\<lparr>tramps := (tramps st)(param := None)\<rparr>, run (fn_ptr t) (arg t)))"

definition lpp_thread_stub_win :: "(i64 \<Rightarrow> i64 \<Rightarrow> i64) \<Rightarrow> i64 \<Rightarrow> thread_state \<Rightarrow> (thread_state \<times> u32) res" where
  "lpp_thread_stub_win run param st = (case tramps st param of None \<Rightarrow> Inl (Fault ''read of a freed trampoline'')
     | Some t \<Rightarrow> Inr (st\<lparr>tramps := (tramps st)(param := None)\<rparr>, ucast (run (fn_ptr t) (arg t))))"

definition lpp_thread_spawn :: "i64 \<Rightarrow> i64 \<Rightarrow> bool \<Rightarrow> thread_state \<Rightarrow> i64 \<Rightarrow> i64 \<Rightarrow> (thread_state \<times> i64) res" where
  "lpp_thread_spawn t thread create_fails st f a =
     (if t = 0 then Inl (Panic ''out of memory in thread_spawn'')
      else if thread = 0 then Inl (Panic ''out of memory'')
      else if create_fails then Inl (Panic ''failed to create thread'')
      else Inr (st\<lparr>tramps := (tramps st)(t \<mapsto> \<lparr>fn_ptr = f, arg = a\<rparr>), threads := (threads st)(thread \<mapsto> Started t)\<rparr>, thread))"

definition lpp_thread_spawn_win :: "i64 \<Rightarrow> i64 \<Rightarrow> thread_state \<Rightarrow> i64 \<Rightarrow> i64 \<Rightarrow> (thread_state \<times> i64) res" where
  "lpp_thread_spawn_win t hThread st f a =
     (if t = 0 then Inl (Panic ''out of memory in thread_spawn'')
      else if hThread = 0 then Inl (Panic ''failed to create OS thread'')
      else Inr (st\<lparr>tramps := (tramps st)(t \<mapsto> \<lparr>fn_ptr = f, arg = a\<rparr>), threads := (threads st)(hThread \<mapsto> Started t)\<rparr>, hThread))"

text \<open>Joining frees the \<open>pthread_t\<close>, so a second join reads freed memory; a closed Windows handle makes both calls fail and leaves
  \<open>exit_code\<close> at 0.\<close>

definition lpp_thread_join :: "i64 \<Rightarrow> thread_state \<Rightarrow> (thread_state \<times> i64) option res" where
  "lpp_thread_join handle st = (if handle = 0 then Inr (Some (st, 0)) else case threads st handle of
       None \<Rightarrow> Inl (Fault ''join of a freed thread handle'')
     | Some (Started _) \<Rightarrow> Inr None
     | Some (Finished r) \<Rightarrow> Inr (Some (st\<lparr>threads := (threads st)(handle := None)\<rparr>, r)))"

definition lpp_thread_join_win :: "i64 \<Rightarrow> thread_state \<Rightarrow> (thread_state \<times> i64) option res" where
  "lpp_thread_join_win handle st = (if handle = 0 then Inr (Some (st, 0)) else case threads st handle of
       None \<Rightarrow> Inr (Some (st, 0))
     | Some (Started _) \<Rightarrow> Inr None
     | Some (Finished exit_code) \<Rightarrow> Inr (Some (st\<lparr>threads := (threads st)(handle := None)\<rparr>, exit_code)))"

definition lpp_cpu_count :: "int \<Rightarrow> int" where
  "lpp_cpu_count n = (if n > 0 then n else 1)"

definition lpp_cpu_count_win :: "u32 \<Rightarrow> int" where
  "lpp_cpu_count_win dwNumberOfProcessors = uint dwNumberOfProcessors"

definition lpp_thread_pin :: "int \<Rightarrow> int" where
  "lpp_thread_pin core_id = 1"

definition lpp_thread_pin_win :: "(u64 \<Rightarrow> u64) \<Rightarrow> int \<Rightarrow> int" where
  "lpp_thread_pin_win set_affinity core_id = (if core_id < 0 \<or> core_id \<ge> 64 then 0
     else if set_affinity (push_bit (nat core_id) 1) \<noteq> 0 then 1 else 0)"

section \<open>Mutual exclusion\<close>

text \<open>A thread takes a mutex by waiting for it or by trying.\<close>

definition wait_acquire :: "(nat \<Rightarrow> i64 \<Rightarrow> 's \<Rightarrow> 's option res) \<Rightarrow> i64 \<Rightarrow> nat \<Rightarrow> 's \<Rightarrow> ('s \<times> bool) res" where
  "wait_acquire lock h t s = bind_res (lock t h s) (\<lambda>r. case r of None \<Rightarrow> Inr (s, False) | Some s' \<Rightarrow> Inr (s', True))"

definition try_acquire :: "(nat \<Rightarrow> i64 \<Rightarrow> 's \<Rightarrow> ('s \<times> i64) res) \<Rightarrow> i64 \<Rightarrow> nat \<Rightarrow> 's \<Rightarrow> ('s \<times> bool) res" where
  "try_acquire lock h t s = bind_res (lock t h s) (\<lambda>(s', r). Inr (s', r \<noteq> 0))"

definition mutex_good :: "i64 \<Rightarrow> sync_state \<Rightarrow> bool" where
  "mutex_good h s \<longleftrightarrow> h \<noteq> 0 \<and> (mutexes s h = Some None \<or> (\<exists>t. mutexes s h = Some (Some (t, 1))))"

definition mutex_vacant :: "i64 \<Rightarrow> sync_state \<Rightarrow> bool" where
  "mutex_vacant h s \<longleftrightarrow> mutexes s h = Some None"

definition mutex_held :: "i64 \<Rightarrow> nat \<Rightarrow> sync_state \<Rightarrow> bool" where
  "mutex_held h t s \<longleftrightarrow> mutexes s h = Some (Some (t, 1))"

lemmas mutex_lock_defs = wait_acquire_def try_acquire_def mutex_good_def mutex_vacant_def mutex_held_def
  lpp_mutex_lock_def lpp_mutex_trylock_def lpp_mutex_unlock_def
  lpp_mutex_lock_win_def lpp_mutex_trylock_win_def lpp_mutex_unlock_win_def

interpretation mutex_wait: try_lock "mutex_good h" "mutex_vacant h" "mutex_held h" "wait_acquire lpp_mutex_lock h" "\<lambda>t. lpp_mutex_unlock t h" for h
  by unfold_locales (auto simp: mutex_lock_defs split: if_splits)

interpretation mutex_try: try_lock "mutex_good h" "mutex_vacant h" "mutex_held h" "try_acquire lpp_mutex_trylock h" "\<lambda>t. lpp_mutex_unlock t h" for h
  by unfold_locales (auto simp: mutex_lock_defs split: if_splits)

interpretation mutex_wait_win: try_lock "mutex_good h" "mutex_vacant h" "mutex_held h" "wait_acquire lpp_mutex_lock_win h"
    "\<lambda>t. lpp_mutex_unlock_win t h" for h
  by unfold_locales (auto simp: mutex_lock_defs split: if_splits)

interpretation mutex_try_win: try_lock "mutex_good h" "mutex_vacant h" "mutex_held h" "try_acquire lpp_mutex_trylock_win h"
    "\<lambda>t. lpp_mutex_unlock_win t h" for h
  by unfold_locales (auto simp: mutex_lock_defs split: if_splits)

lemma mutex_new_vacant:
  "lpp_mutex_new m st = Inr (s0, h) \<or> lpp_mutex_new_win m st = Inr (s0, h) \<Longrightarrow> mutex_good h s0 \<and> mutex_vacant h s0"
  by (auto simp: lpp_mutex_new_def lpp_mutex_new_win_def mutex_good_def mutex_vacant_def split: if_splits)

lemma null_mutex_run: "lock_run (wait_acquire lpp_mutex_lock 0) (\<lambda>t. lpp_mutex_unlock t 0) s s (set (ts :: nat list))"
proof (induction ts)
  case Nil
  then show ?case by (simp add: lock_run.start)
next
  case (Cons t ts)
  show ?case
  proof (cases "t \<in> set ts")
    case True
    then show ?thesis using Cons by (simp add: insert_absorb)
  next
    case False
    have "wait_acquire lpp_mutex_lock 0 t s = Inr (s, True)" by (simp add: wait_acquire_def lpp_mutex_lock_def)
    then show ?thesis using lock_run.enter [OF Cons False] by simp
  qed
qed

section \<open>Readers and writers\<close>

text \<open>Threads that share a reader-writer lock, none of which asks for it while holding it: \<open>R\<close> are inside for reading, \<open>W\<close> for writing.\<close>

inductive rw_run :: "(nat \<Rightarrow> 's \<Rightarrow> 's option res) \<Rightarrow> (nat \<Rightarrow> 's \<Rightarrow> 's option res) \<Rightarrow> (nat \<Rightarrow> 's \<Rightarrow> 's res) \<Rightarrow> (nat \<Rightarrow> 's \<Rightarrow> 's res) \<Rightarrow>
    's \<Rightarrow> 's \<Rightarrow> nat set \<Rightarrow> nat set \<Rightarrow> bool" for rdlock wrlock rdunlock wrunlock s0 where
  start: "rw_run rdlock wrlock rdunlock wrunlock s0 s0 {} {}"
| read: "rw_run rdlock wrlock rdunlock wrunlock s0 s R W \<Longrightarrow> t \<notin> R \<union> W \<Longrightarrow> rdlock t s = Inr (Some s') \<Longrightarrow>
    rw_run rdlock wrlock rdunlock wrunlock s0 s' (insert t R) W"
| wrte: "rw_run rdlock wrlock rdunlock wrunlock s0 s R W \<Longrightarrow> t \<notin> R \<union> W \<Longrightarrow> wrlock t s = Inr (Some s') \<Longrightarrow>
    rw_run rdlock wrlock rdunlock wrunlock s0 s' R (insert t W)"
| unread: "rw_run rdlock wrlock rdunlock wrunlock s0 s R W \<Longrightarrow> t \<in> R \<Longrightarrow> rdunlock t s = Inr s' \<Longrightarrow>
    rw_run rdlock wrlock rdunlock wrunlock s0 s' (R - {t}) W"
| unwrte: "rw_run rdlock wrlock rdunlock wrunlock s0 s R W \<Longrightarrow> t \<in> W \<Longrightarrow> wrunlock t s = Inr s' \<Longrightarrow>
    rw_run rdlock wrlock rdunlock wrunlock s0 s' R (W - {t})"

locale rw_contract =
  fixes view :: "'s \<Rightarrow> rw_lock option" and rdlock wrlock :: "nat \<Rightarrow> 's \<Rightarrow> 's option res" and rdunlock wrunlock :: "nat \<Rightarrow> 's \<Rightarrow> 's res"
  assumes rd_free: "view s = Some l \<Longrightarrow> rwriter l = None \<Longrightarrow> \<exists>s'. rdlock t s = Inr (Some s') \<and> view s' = Some (l\<lparr>rreaders := t # rreaders l\<rparr>)"
    and rd_wait: "view s = Some l \<Longrightarrow> rwriter l = Some u \<Longrightarrow> u \<noteq> t \<Longrightarrow> rdlock t s = Inr None"
    and wr_free: "view s = Some l \<Longrightarrow> rwriter l = None \<Longrightarrow> rreaders l = [] \<Longrightarrow> \<exists>s'. wrlock t s = Inr (Some s') \<and> view s' = Some (l\<lparr>rwriter := Some t\<rparr>)"
    and wr_wait: "view s = Some l \<Longrightarrow> rwriter l \<noteq> Some t \<Longrightarrow> rwriter l \<noteq> None \<or> rreaders l \<noteq> [] \<Longrightarrow> wrlock t s = Inr None"
    and rd_back: "view s = Some l \<Longrightarrow> t \<in> set (rreaders l) \<Longrightarrow> rwriter l \<noteq> Some t \<Longrightarrow>
      \<exists>s'. rdunlock t s = Inr s' \<and> view s' = Some (l\<lparr>rreaders := remove1 t (rreaders l)\<rparr>)"
    and wr_back: "view s = Some l \<Longrightarrow> rwriter l = Some t \<Longrightarrow> \<exists>s'. wrunlock t s = Inr s' \<and> view s' = Some (l\<lparr>rwriter := None\<rparr>)"
begin

definition matches :: "'s \<Rightarrow> nat set \<Rightarrow> nat set \<Rightarrow> bool" where
  "matches s R W \<longleftrightarrow> (\<exists>l. view s = Some l \<and> set_option (rwriter l) = W \<and> set (rreaders l) = R \<and> distinct (rreaders l) \<and> (W = {} \<or> R = {}))"

lemma run_matches:
  assumes "rw_run rdlock wrlock rdunlock wrunlock s0 s R W" "view s0 = Some \<lparr>rwriter = None, rreaders = []\<rparr>"
  shows "matches s R W"
  using assms
proof (induction rule: rw_run.induct)
  case start
  then show ?case by (simp add: matches_def)
next
  case (read s R W t s')
  then obtain l where l: "view s = Some l" "set_option (rwriter l) = W" "set (rreaders l) = R" "distinct (rreaders l)"
    by (auto simp: matches_def)
  have "rwriter l = None" using rd_wait [OF l(1), of _ t] l(2) read.hyps by (cases "rwriter l") auto
  with rd_free [OF l(1) this, of t] l read.hyps show ?case by (auto simp: matches_def)
next
  case (wrte s R W t s')
  then obtain l where l: "view s = Some l" "set_option (rwriter l) = W" "set (rreaders l) = R" by (auto simp: matches_def)
  have "rwriter l \<noteq> Some t" using l(2) wrte.hyps by auto
  then have "\<not> (rwriter l \<noteq> None \<or> rreaders l \<noteq> [])" using wr_wait [OF l(1), of t] wrte.hyps(3) by (metis option.discI sum.inject(2))
  then have "rwriter l = None" "rreaders l = []" by auto
  with wr_free [OF l(1) this, of t] l wrte.hyps show ?case by (auto simp: matches_def)
next
  case (unread s R W t s')
  then obtain l where l: "view s = Some l" "set_option (rwriter l) = W" "set (rreaders l) = R" "distinct (rreaders l)" "W = {}"
    by (auto simp: matches_def)
  then have "rwriter l \<noteq> Some t" by auto
  with rd_back [OF l(1) _ this] l unread.hyps show ?case by (auto simp: matches_def)
next
  case (unwrte s R W t s')
  then obtain l where l: "view s = Some l" "rwriter l = Some t" "W = {t}" "R = {}" "rreaders l = []" by (auto simp: matches_def)
  with wr_back [OF l(1,2)] unwrte.hyps show ?case by (auto simp: matches_def)
qed

lemma readers_writers:
  fixes s0
  defines "run \<equiv> rw_run rdlock wrlock rdunlock wrunlock s0"
  assumes r: "run s R W" and v: "view s0 = Some \<lparr>rwriter = None, rreaders = []\<rparr>"
  shows "(W = {} \<or> (\<exists>t. W = {t}) \<and> R = {}) \<and>
    (t \<in> W \<longrightarrow> (\<exists>s'. run s' R (W - {t}))) \<and> (t \<in> R \<longrightarrow> (\<exists>s'. run s' (R - {t}) W)) \<and>
    (t \<notin> R \<longrightarrow> W = {} \<longrightarrow> (\<exists>s'. run s' (insert t R) W)) \<and> (R = {} \<longrightarrow> W = {} \<longrightarrow> (\<exists>s'. run s' R {t})) \<and>
    (t \<notin> W \<longrightarrow> W \<noteq> {} \<longrightarrow> rdlock t s = Inr None)"
proof (intro conjI impI)
  note r' = r [unfolded run_def]
  obtain l where l: "view s = Some l" "set_option (rwriter l) = W" "set (rreaders l) = R" "W = {} \<or> R = {}"
    using run_matches [OF r' v] by (auto simp: matches_def)
  show "W = {} \<or> (\<exists>t. W = {t}) \<and> R = {}" using l(2,4) by (cases "rwriter l") auto
  show "\<exists>s'. run s' (R - {t}) W" if a: "t \<in> R"
  proof -
    obtain s' where "rdunlock t s = Inr s'" using rd_back [OF l(1), of t] a l(2-4) by auto
    then show ?thesis unfolding run_def using rw_run.unread [OF r' a] by blast
  qed
  show "\<exists>s'. run s' R (W - {t})" if a: "t \<in> W"
  proof -
    obtain s' where "wrunlock t s = Inr s'" using wr_back [OF l(1), of t] a l(2) by auto
    then show ?thesis unfolding run_def using rw_run.unwrte [OF r' a] by blast
  qed
  show "\<exists>s'. run s' (insert t R) W" if a: "t \<notin> R" "W = {}"
  proof -
    obtain s' where "rdlock t s = Inr (Some s')" using rd_free [OF l(1), of t] a l(2) by auto
    then show ?thesis unfolding run_def using rw_run.read [OF r', of t s'] a by blast
  qed
  show "\<exists>s'. run s' R {t}" if a: "R = {}" "W = {}"
  proof -
    obtain s' where "wrlock t s = Inr (Some s')" using wr_free [OF l(1), of t] a l(2,3) by auto
    then show ?thesis unfolding run_def using rw_run.wrte [OF r', of t s'] a by blast
  qed
  show "rdlock t s = Inr None" if "t \<notin> W" "W \<noteq> {}" using rd_wait [OF l(1), of _ t] that l(2) by (cases "rwriter l") auto
qed

end

definition rw_view :: "i64 \<Rightarrow> sync_state \<Rightarrow> rw_lock option" where
  "rw_view h s = (if h = 0 then None else rwlocks s h)"

lemmas rwlock_defs = rw_view_def lpp_rwlock_rdlock_def lpp_rwlock_wrlock_def lpp_rwlock_rdunlock_def lpp_rwlock_wrunlock_def pthread_rwlock_unlock_def
  lpp_rwlock_rdlock_win_def lpp_rwlock_wrlock_win_def lpp_rwlock_rdunlock_win_def lpp_rwlock_wrunlock_win_def

interpretation rw: rw_contract "rw_view h" "\<lambda>t. lpp_rwlock_rdlock t h" "\<lambda>t. lpp_rwlock_wrlock t h" "\<lambda>t. lpp_rwlock_rdunlock t h"
    "\<lambda>t. lpp_rwlock_wrunlock t h" for h
  by unfold_locales (auto simp: rwlock_defs split: if_splits)

interpretation rw_win: rw_contract "rw_view h" "\<lambda>t. lpp_rwlock_rdlock_win t h" "\<lambda>t. lpp_rwlock_wrlock_win t h" "\<lambda>t. lpp_rwlock_rdunlock_win t h"
    "\<lambda>t. lpp_rwlock_wrunlock_win t h" for h
  by unfold_locales (auto simp: rwlock_defs split: if_splits)

lemma rwlock_new_view:
  "lpp_rwlock_new m st = Inr (s0, h) \<or> lpp_rwlock_new_win m st = Inr (s0, h) \<Longrightarrow> rw_view h s0 = Some \<lparr>rwriter = None, rreaders = []\<rparr>"
  by (auto simp: lpp_rwlock_new_def lpp_rwlock_new_win_def rw_view_def split: if_splits)





section \<open>Thread results\<close>

text \<open>The operating system lets a started thread run: the stub reads its trampoline, calls the function and its result becomes the exit value, 64 bits on
  POSIX and a \<open>DWORD\<close> on Windows.\<close>

definition thread_finish :: "(i64 \<Rightarrow> i64 \<Rightarrow> i64) \<Rightarrow> i64 \<Rightarrow> thread_state \<Rightarrow> thread_state res" where
  "thread_finish run h st = (case threads st h of Some (Started tp) \<Rightarrow>
       bind_res (lpp_thread_stub run tp st) (\<lambda>(st', r). Inr (st'\<lparr>threads := (threads st')(h \<mapsto> Finished r)\<rparr>))
     | _ \<Rightarrow> Inr st)"

definition thread_finish_win :: "(i64 \<Rightarrow> i64 \<Rightarrow> i64) \<Rightarrow> i64 \<Rightarrow> thread_state \<Rightarrow> thread_state res" where
  "thread_finish_win run h st = (case threads st h of Some (Started tp) \<Rightarrow>
       bind_res (lpp_thread_stub_win run tp st) (\<lambda>(st', r). Inr (st'\<lparr>threads := (threads st')(h \<mapsto> Finished (ucast r))\<rparr>))
     | _ \<Rightarrow> Inr st)"

text \<open>Programs that spawn threads (the allocator and the system answer with addresses and handles not in use) and join each once, with the threads
  running in between in any order. \<open>pend\<close> are the spawned threads that are not joined yet with their function and argument, \<open>out\<close> the
  joined ones with what the join returned.\<close>

inductive thread_run :: "(i64 \<Rightarrow> i64 \<Rightarrow> thread_state \<Rightarrow> i64 \<Rightarrow> i64 \<Rightarrow> (thread_state \<times> i64) res) \<Rightarrow> (i64 \<Rightarrow> thread_state \<Rightarrow> thread_state res) \<Rightarrow>
    (i64 \<Rightarrow> thread_state \<Rightarrow> (thread_state \<times> i64) option res) \<Rightarrow>
    thread_state \<Rightarrow> (i64 \<Rightarrow> (i64 \<times> i64) option) \<Rightarrow> (i64 \<times> i64 \<times> i64) list \<Rightarrow> bool" for spawn finish join where
  none: "thread_run spawn finish join \<lparr>tramps = Map.empty, threads = Map.empty\<rparr> Map.empty []"
| spawned: "thread_run spawn finish join st pend out \<Longrightarrow> tramps st t = None \<Longrightarrow> threads st h = None \<Longrightarrow> spawn t h st f a = Inr (st', h) \<Longrightarrow>
    thread_run spawn finish join st' (pend(h \<mapsto> (f, a))) out"
| finished: "thread_run spawn finish join st pend out \<Longrightarrow> finish h st = Inr st' \<Longrightarrow> thread_run spawn finish join st' pend out"
| joined: "thread_run spawn finish join st pend out \<Longrightarrow> pend h = Some (f, a) \<Longrightarrow> join h st = Inr (Some (st', r)) \<Longrightarrow>
    thread_run spawn finish join st' (pend(h := None)) ((f, a, r) # out)"

definition threads_ok :: "(i64 \<Rightarrow> i64 \<Rightarrow> i64) \<Rightarrow> thread_state \<Rightarrow> (i64 \<Rightarrow> (i64 \<times> i64) option) \<Rightarrow> (i64 \<times> i64 \<times> i64) list \<Rightarrow> bool" where
  "threads_ok res st pend out \<longleftrightarrow> dom (threads st) = dom pend \<and> pend 0 = None \<and>
     (\<forall>h tp. threads st h = Some (Started tp) \<longrightarrow> (\<exists>t. tramps st tp = Some t \<and> pend h = Some (fn_ptr t, arg t))) \<and>
     (\<forall>h r. threads st h = Some (Finished r) \<longrightarrow> (\<exists>f a. pend h = Some (f, a) \<and> r = res f a)) \<and>
     (\<forall>h h' tp. threads st h = Some (Started tp) \<longrightarrow> threads st h' = Some (Started tp) \<longrightarrow> h = h') \<and>
     (\<forall>tp. tramps st tp \<noteq> None \<longrightarrow> (\<exists>h. threads st h = Some (Started tp))) \<and> (\<forall>(f, a, r) \<in> set out. r = res f a)"

lemma threads_okI:
  assumes "dom (threads st) = dom pend" "pend 0 = None"
    and "\<And>h tp. threads st h = Some (Started tp) \<Longrightarrow> \<exists>t. tramps st tp = Some t \<and> pend h = Some (fn_ptr t, arg t)"
    and "\<And>h r. threads st h = Some (Finished r) \<Longrightarrow> \<exists>f a. pend h = Some (f, a) \<and> r = res f a"
    and "\<And>h h' tp. threads st h = Some (Started tp) \<Longrightarrow> threads st h' = Some (Started tp) \<Longrightarrow> h = h'"
    and "\<And>tp t. tramps st tp = Some t \<Longrightarrow> \<exists>h. threads st h = Some (Started tp)" "\<And>f a r. (f, a, r) \<in> set out \<Longrightarrow> r = res f a"
  shows "threads_ok res st pend out"
  unfolding threads_ok_def using assms by (intro conjI) blast+

lemma threads_okD:
  assumes "threads_ok res st pend out"
  shows "dom (threads st) = dom pend" "pend 0 = None"
    "threads st h = Some (Started tp) \<Longrightarrow> \<exists>t. tramps st tp = Some t \<and> pend h = Some (fn_ptr t, arg t)"
    "threads st h = Some (Finished r) \<Longrightarrow> \<exists>f a. pend h = Some (f, a) \<and> r = res f a"
    "threads st h = Some (Started tp) \<Longrightarrow> threads st h' = Some (Started tp) \<Longrightarrow> h = h'"
    "tramps st tp = Some t \<Longrightarrow> \<exists>h. threads st h = Some (Started tp)" "(f, a, r) \<in> set out \<Longrightarrow> r = res f a"
  using assms unfolding threads_ok_def by blast+

text \<open>What a program needs of the three calls; \<open>res\<close> is the value of a function call that reaches the join.\<close>

locale thread_api =
  fixes res :: "i64 \<Rightarrow> i64 \<Rightarrow> i64"
    and spawn :: "i64 \<Rightarrow> i64 \<Rightarrow> thread_state \<Rightarrow> i64 \<Rightarrow> i64 \<Rightarrow> (thread_state \<times> i64) res"
    and finish :: "i64 \<Rightarrow> thread_state \<Rightarrow> thread_state res"
    and join :: "i64 \<Rightarrow> thread_state \<Rightarrow> (thread_state \<times> i64) option res"
  assumes spawn_law: "spawn t h st f a = Inr (st', h') \<Longrightarrow> h \<noteq> 0 \<and>
        st' = st\<lparr>tramps := (tramps st)(t \<mapsto> \<lparr>fn_ptr = f, arg = a\<rparr>), threads := (threads st)(h \<mapsto> Started t)\<rparr>"
    and finish_law: "threads st h = Some (Started tp) \<Longrightarrow> tramps st tp = Some tr \<Longrightarrow>
        finish h st = Inr (st\<lparr>tramps := (tramps st)(tp := None), threads := (threads st)(h \<mapsto> Finished (res (fn_ptr tr) (arg tr)))\<rparr>)"
    and finish_idle: "(\<nexists>tp. threads st h = Some (Started tp)) \<Longrightarrow> finish h st = Inr st"
    and join_law: "h \<noteq> 0 \<Longrightarrow> threads st h = Some x \<Longrightarrow> join h st = (case x of Started _ \<Rightarrow> Inr None
        | Finished r \<Rightarrow> Inr (Some (st\<lparr>threads := (threads st)(h := None)\<rparr>, r)))"
begin

lemma spawn_ok:
  assumes ok: "threads_ok res st pend out" and new: "tramps st t = None" "threads st h = None" and s: "spawn t h st f a = Inr (st', h')"
  shows "threads_ok res st' (pend(h \<mapsto> (f, a))) out"
proof -
  note d = threads_okD [OF ok]
  have fresh: "threads st u \<noteq> Some (Started t)" for u using d(3) [of u t] new(1) by auto
  have st': "st' = st\<lparr>tramps := (tramps st)(t \<mapsto> \<lparr>fn_ptr = f, arg = a\<rparr>), threads := (threads st)(h \<mapsto> Started t)\<rparr>" "h \<noteq> 0"
    using spawn_law [OF s] by auto
  show ?thesis unfolding st'(1)
  proof (rule threads_okI)
    fix u tp assume "threads (st\<lparr>tramps := (tramps st)(t \<mapsto> \<lparr>fn_ptr = f, arg = a\<rparr>), threads := (threads st)(h \<mapsto> Started t)\<rparr>) u = Some (Started tp)"
    then show "\<exists>tr. tramps (st\<lparr>tramps := (tramps st)(t \<mapsto> \<lparr>fn_ptr = f, arg = a\<rparr>), threads := (threads st)(h \<mapsto> Started t)\<rparr>) tp = Some tr \<and>
        (pend(h \<mapsto> (f, a))) u = Some (fn_ptr tr, arg tr)"
      using d(3) [of u tp] fresh [of u] by (cases "u = h") auto
  next
    fix tp tr assume "tramps (st\<lparr>tramps := (tramps st)(t \<mapsto> \<lparr>fn_ptr = f, arg = a\<rparr>), threads := (threads st)(h \<mapsto> Started t)\<rparr>) tp = Some tr"
    then show "\<exists>u. threads (st\<lparr>tramps := (tramps st)(t \<mapsto> \<lparr>fn_ptr = f, arg = a\<rparr>), threads := (threads st)(h \<mapsto> Started t)\<rparr>) u = Some (Started tp)"
      using d(6) [of tp tr] new(2) by (cases "tp = t") (auto, metis option.distinct(1))
  qed (use d(1,2) d(4) d(5) d(7) fresh st'(2) in \<open>auto split: if_splits\<close>)
qed

lemma finish_ok:
  assumes ok: "threads_ok res st pend out" and s: "finish h st = Inr st'"
  shows "threads_ok res st' pend out"
proof (cases "\<exists>tp. threads st h = Some (Started tp)")
  case True
  note d = threads_okD [OF ok]
  from True obtain tp where tp: "threads st h = Some (Started tp)" by blast
  then obtain t where t: "tramps st tp = Some t" "pend h = Some (fn_ptr t, arg t)" using d(3) by blast
  have one: "u = h" if "threads st u = Some (Started tp)" for u using d(5) [OF that tp] .
  have st': "st' = st\<lparr>tramps := (tramps st)(tp := None), threads := (threads st)(h \<mapsto> Finished (res (fn_ptr t) (arg t)))\<rparr>"
    using finish_law [OF tp t(1)] s by simp
  show ?thesis unfolding st'
  proof (rule threads_okI)
    fix q tr assume "tramps (st\<lparr>tramps := (tramps st)(tp := None), threads := (threads st)(h \<mapsto> Finished (res (fn_ptr t) (arg t)))\<rparr>) q = Some tr"
    then have "q \<noteq> tp" "tramps st q = Some tr" by (auto split: if_splits)
    moreover from d(6) [OF this(2)] obtain u where "threads st u = Some (Started q)" by blast
    ultimately show "\<exists>u. threads (st\<lparr>tramps := (tramps st)(tp := None), threads := (threads st)(h \<mapsto> Finished (res (fn_ptr t) (arg t)))\<rparr>) u = Some (Started q)"
      using tp by (intro exI [of _ u]) auto
  next
    fix u q assume "threads (st\<lparr>tramps := (tramps st)(tp := None), threads := (threads st)(h \<mapsto> Finished (res (fn_ptr t) (arg t)))\<rparr>) u = Some (Started q)"
    then show "\<exists>tr. tramps (st\<lparr>tramps := (tramps st)(tp := None), threads := (threads st)(h \<mapsto> Finished (res (fn_ptr t) (arg t)))\<rparr>) q = Some tr \<and>
        pend u = Some (fn_ptr tr, arg tr)"
      using d(3) [of u q] one [of u] by (auto split: if_splits)
  qed (use d(1,2) d(4) d(5) d(7) t(2) tp in \<open>auto split: if_splits\<close>)
next
  case False
  then show ?thesis using finish_idle [OF False] assms by simp
qed

lemma join_ok:
  assumes ok: "threads_ok res st pend out" and p: "pend h = Some (f, a)" and j: "join h st = Inr (Some (st', r))"
  shows "threads_ok res st' (pend(h := None)) ((f, a, r) # out)"
proof -
  note d = threads_okD [OF ok]
  have "h \<noteq> 0" "h \<in> dom (threads st)" using d(1,2) p by auto
  then obtain x where x: "threads st h = Some x" by auto
  with join_law [OF \<open>h \<noteq> 0\<close> x] j have f: "x = Finished r" "st' = st\<lparr>threads := (threads st)(h := None)\<rparr>"
    by (cases x; simp)+
  then have r: "r = res f a" using d(4) [of h r] x p by auto
  show ?thesis unfolding f(2)
  proof (rule threads_okI)
    fix q tr assume "tramps (st\<lparr>threads := (threads st)(h := None)\<rparr>) q = Some tr"
    then obtain u where "threads st u = Some (Started q)" using d(6) [of q tr] by auto
    then show "\<exists>u. threads (st\<lparr>threads := (threads st)(h := None)\<rparr>) u = Some (Started q)" using x f(1) by (intro exI [of _ u]) auto
  qed (use d(1,2) d(3) d(4) d(5) d(7) r in \<open>auto split: if_splits\<close>)
qed

lemma run_ok: "thread_run spawn finish join st pend out \<Longrightarrow> threads_ok res st pend out"
proof (induction rule: thread_run.induct)
  case none
  then show ?case by (simp add: threads_ok_def)
qed (blast intro: spawn_ok finish_ok join_ok)+

lemma results:
  assumes "thread_run spawn finish join st pend out"
  shows "(\<forall>(f, a, r) \<in> set out. r = res f a) \<and> (pend = Map.empty \<longrightarrow> tramps st = Map.empty \<and> threads st = Map.empty) \<and>
    (pend h = Some (f, a) \<longrightarrow> (\<exists>st1 st2. finish h st = Inr st1 \<and> join h st1 = Inr (Some (st2, res f a))))"
proof (intro conjI impI)
  note o = threads_okD [OF run_ok [OF assms]]
  show "\<forall>(f, a, r) \<in> set out. r = res f a" using o(7) by auto
  show e: "threads st = Map.empty" if "pend = Map.empty" using o(1) that by auto
  show "tramps st = Map.empty" if "pend = Map.empty" using o(6) e [OF that] by (force simp: fun_eq_iff)
  assume p: "pend h = Some (f, a)"
  then have "h \<noteq> 0" "h \<in> dom (threads st)" using o(1,2) by auto
  then obtain x where x: "threads st h = Some x" by auto
  show "\<exists>st1 st2. finish h st = Inr st1 \<and> join h st1 = Inr (Some (st2, res f a))"
  proof (cases x)
    case (Started tp)
    then obtain t where "tramps st tp = Some t" "f = fn_ptr t" "a = arg t" using o(3) [of h tp] x p by auto
    then show ?thesis using finish_law [of st h tp t] x Started join_law [OF \<open>h \<noteq> 0\<close>] by simp
  next
    case (Finished r)
    then have "r = res f a" using o(4) [of h r] x p by auto
    then show ?thesis using finish_idle [of st h] x Finished join_law [OF \<open>h \<noteq> 0\<close> x] by simp
  qed
qed

end

interpretation posix_threads: thread_api run "\<lambda>t h. lpp_thread_spawn t h False" "thread_finish run" lpp_thread_join for run
  by unfold_locales (auto simp: lpp_thread_spawn_def thread_finish_def lpp_thread_stub_def lpp_thread_join_def split: if_splits option.splits thread.splits)

interpretation win_threads: thread_api "\<lambda>f a. ucast (ucast (run f a) :: u32)" lpp_thread_spawn_win "thread_finish_win run" lpp_thread_join_win for run
  by unfold_locales (auto simp: lpp_thread_spawn_win_def thread_finish_win_def lpp_thread_stub_win_def lpp_thread_join_win_def
      split: if_splits option.splits thread.splits)

text \<open>A \<open>DWORD\<close> keeps exactly the results from 0 to 2^32 - 1.\<close>

lemma dword_keeps_iff: "(ucast (ucast (r :: i64) :: u32) :: i64) = r \<longleftrightarrow> uint r < 2 ^ 32"
proof -
  have "uint (ucast (ucast r :: u32) :: i64) = uint r mod 2 ^ 32"
    by (simp only: unsigned_ucast_eq take_bit_eq_mod) (simp add: mod_mod_cancel uint_mod)
  moreover have "uint r mod 2 ^ 32 = uint r \<longleftrightarrow> uint r < 2 ^ 32"
    by (metis mod_pos_pos_trivial pos_mod_bound uint_ge_0 zero_less_numeral zero_less_power)
  ultimately show ?thesis by (metis word_uint_eqI)
qed

text \<open>What a thread returns. In every execution of a program that spawns threads and joins each once, with the threads running in any order in between: each join
  returns what the thread's function returned for the thread's argument, when all are joined no trampoline and no handle is left behind, and a spawned thread can
  always run and be joined. On Windows the join returns only the low 32 bits, which is the result exactly when the result lies between 0 and 2^32 - 1.\<close>

theorem lpp_thread_results:
  "(thread_run (\<lambda>t h. lpp_thread_spawn t h False) (thread_finish run) lpp_thread_join st pend out \<longrightarrow>
     (\<forall>(f, a, r) \<in> set out. r = run f a) \<and> (pend = Map.empty \<longrightarrow> tramps st = Map.empty \<and> threads st = Map.empty) \<and>
     (pend h = Some (f, a) \<longrightarrow> (\<exists>st1 st2. thread_finish run h st = Inr st1 \<and> lpp_thread_join h st1 = Inr (Some (st2, run f a))))) \<and>
   (thread_run lpp_thread_spawn_win (thread_finish_win run) lpp_thread_join_win st pend out \<longrightarrow>
     (\<forall>(f, a, r) \<in> set out. r = run f a \<longleftrightarrow> uint (run f a) < 2 ^ 32) \<and>
     (pend = Map.empty \<longrightarrow> tramps st = Map.empty \<and> threads st = Map.empty))"
proof (intro conjI impI)
  assume w: "thread_run lpp_thread_spawn_win (thread_finish_win run) lpp_thread_join_win st pend out"
  show "\<forall>(f, a, r) \<in> set out. r = run f a \<longleftrightarrow> uint (run f a) < 2 ^ 32"
  proof (clarify)
    fix f a r assume "(f, a, r) \<in> set out"
    then have "r = ucast (ucast (run f a) :: u32)" using win_threads.results [OF w] by blast
    then show "r = run f a \<longleftrightarrow> uint (run f a) < 2 ^ 32" using dword_keeps_iff [of "run f a"] by simp
  qed
qed (use posix_threads.results [of run st pend out h f a] win_threads.results [of run st pend out] in blast)+

theorem lpp_thread_results_witness:
  "\<exists>st1 st2. thread_finish (\<lambda>f a. a + 1) 0x40
       \<lparr>tramps = [0x80 \<mapsto> \<lparr>fn_ptr = 7, arg = 41\<rparr>], threads = [0x40 \<mapsto> Started 0x80]\<rparr> = Inr st1 \<and>
     lpp_thread_join 0x40 st1 = Inr (Some (st2, 42))"
proof -
  let ?st = "\<lparr>tramps = [0x80 \<mapsto> \<lparr>fn_ptr = 7, arg = 41\<rparr>], threads = [0x40 \<mapsto> Started 0x80]\<rparr>"
  have "thread_run (\<lambda>t h. lpp_thread_spawn t h False) (thread_finish (\<lambda>f a. a + 1)) lpp_thread_join ?st (Map.empty(0x40 \<mapsto> (7, 41))) []"
    by (rule thread_run.spawned [OF thread_run.none, of "0x80"]) (simp_all add: lpp_thread_spawn_def)
  then show ?thesis using lpp_thread_results [of "\<lambda>f a. a + 1" ?st "Map.empty(0x40 \<mapsto> (7, 41))" "[]" "0x40" 7 41] by simp
qed

end
