(* ===== verification/Lpp_Clock.thy ===== *)
theory Lpp_Clock
  imports Lpp_Prelude
begin

text \<open>
  Seeded random numbers and virtual clocks: \<^verbatim>\<open>runtime/lpp_clock_rng.c\<close>. Handles are addresses of heap records; the heap is a
  map from handles to records, \<open>malloc\<close> answers with the address given as an argument (0 when there is no memory) and the time of the
  system clock is an argument too.
\<close>

section \<open>Random numbers\<close>

record LppRng =
  state :: u64

type_synonym rng_heap = "i64 \<Rightarrow> LppRng option"

definition lpp_splitmix64 :: "u64 \<Rightarrow> u64 \<times> u64" where
  "lpp_splitmix64 s0 = (let s = s0 + 0x9e3779b97f4a7c15; z = s;
     z = (z XOR drop_bit 30 z) * 0xbf58476d1ce4e5b9;
     z = (z XOR drop_bit 27 z) * 0x94d049bb133111eb
     in (s, z XOR drop_bit 31 z))"

definition lpp_rng_new :: "i64 \<Rightarrow> rng_heap \<Rightarrow> i64 \<Rightarrow> (rng_heap \<times> i64) res" where
  "lpp_rng_new p hp seed = (if p = 0 then Inl (Panic ''out of memory in rng_new'')
     else Inr (hp(p \<mapsto> \<lparr>state = (if seed = 0 then 0x853c49e6748fea9b else seed)\<rparr>), p))"

definition lpp_rng_next :: "rng_heap \<Rightarrow> i64 \<Rightarrow> (rng_heap \<times> i64) res" where
  "lpp_rng_next hp handle = (if handle = 0 then Inr (hp, 0) else case hp handle of None \<Rightarrow> Inl (Fault ''use of a freed generator'')
     | Some rng \<Rightarrow> let (s, z) = lpp_splitmix64 (state rng) in Inr (hp(handle \<mapsto> rng\<lparr>state := s\<rparr>), z))"

text \<open>\<open>max_v - min_v + 1\<close> in wrapping arithmetic, as compiled: 0 when the range is the whole of \<open>int64_t\<close>, and then the remainder
  divides by zero.\<close>

definition lpp_rng_range :: "rng_heap \<Rightarrow> i64 \<Rightarrow> i64 \<Rightarrow> i64 \<Rightarrow> (rng_heap \<times> i64) res" where
  "lpp_rng_range hp handle min_v max_v = (if sint max_v \<le> sint min_v then Inr (hp, min_v)
     else let diff = max_v - min_v + 1
          in bind_res (lpp_rng_next hp handle) (\<lambda>(hp', val).
            if diff = 0 then Inl (Fault ''division by zero'') else Inr (hp', min_v + val mod diff)))"

text \<open>The float is \<open>m / 2^53\<close> with \<open>m < 2^53\<close>: exactly representable, so the model keeps the numerator.\<close>

definition lpp_rng_float :: "rng_heap \<Rightarrow> i64 \<Rightarrow> (rng_heap \<times> u64) res" where
  "lpp_rng_float hp handle = bind_res (lpp_rng_next hp handle) (\<lambda>(hp', val). Inr (hp', drop_bit 11 val))"

definition lpp_rng_free :: "rng_heap \<Rightarrow> i64 \<Rightarrow> rng_heap res" where
  "lpp_rng_free hp handle = (if handle = 0 then Inr hp else case hp handle of None \<Rightarrow> Inl (Fault ''free of a foreign pointer'')
     | Some _ \<Rightarrow> Inr (hp(handle := None)))"

section \<open>Clocks\<close>

record LppClock =
  is_virtual :: bool
  current_time :: i64

type_synonym clock_heap = "i64 \<Rightarrow> LppClock option"

definition lpp_clock_new :: "i64 \<Rightarrow> clock_heap \<Rightarrow> i64 \<Rightarrow> (clock_heap \<times> i64) res" where
  "lpp_clock_new p hp initial_time = (if p = 0 then Inl (Panic ''out of memory in clock_new'')
     else Inr (hp(p \<mapsto> (if initial_time \<noteq> 0 then \<lparr>is_virtual = True, current_time = initial_time\<rparr>
                         else \<lparr>is_virtual = False, current_time = 0\<rparr>)), p))"

definition lpp_clock_now :: "int \<times> int \<Rightarrow> clock_heap \<Rightarrow> i64 \<Rightarrow> i64 res" where
  "lpp_clock_now = (\<lambda>(tv_sec, tv_nsec) hp handle. if handle = 0 then Inr 0 else case hp handle of None \<Rightarrow> Inl (Fault ''use of a freed clock'')
     | Some clk \<Rightarrow> if is_virtual clk then Inr (current_time clk)
         else Inr (word_of_int tv_sec * 1000 + word_of_int (tv_nsec div 1000000)))"

definition lpp_clock_advance :: "clock_heap \<Rightarrow> i64 \<Rightarrow> i64 \<Rightarrow> clock_heap res" where
  "lpp_clock_advance hp handle delta = (if handle = 0 then Inr hp else case hp handle of None \<Rightarrow> Inl (Fault ''use of a freed clock'')
     | Some clk \<Rightarrow> if is_virtual clk then Inr (hp(handle \<mapsto> clk\<lparr>current_time := current_time clk + delta\<rparr>)) else Inr hp)"

definition lpp_clock_free :: "clock_heap \<Rightarrow> i64 \<Rightarrow> clock_heap res" where
  "lpp_clock_free hp handle = (if handle = 0 then Inr hp else case hp handle of None \<Rightarrow> Inl (Fault ''free of a foreign pointer'')
     | Some _ \<Rightarrow> Inr (hp(handle := None)))"

section \<open>The mixing function is injective\<close>

lemma xorshift_undo:
  fixes x :: u64
  assumes "22 \<le> k" "k < 64"
  shows "(x XOR drop_bit k x) XOR drop_bit k (x XOR drop_bit k x) XOR drop_bit (2 * k) (x XOR drop_bit k x) = x"
proof (rule bit_word_eqI)
  fix n assume "n < LENGTH(64)"
  moreover have "\<not> bit x (k + (k + (k + n)))" using assms(1) bit_imp_le_length [of x "k + (k + (k + n))"] by auto
  ultimately show "bit ((x XOR drop_bit k x) XOR drop_bit k (x XOR drop_bit k x) XOR drop_bit (2 * k) (x XOR drop_bit k x)) n = bit x n"
    by (simp add: bit_xor_iff bit_drop_bit_eq mult_2 add.assoc) blast
qed

lemma xorshift_inj:
  fixes x y :: u64
  assumes "x XOR drop_bit k x = y XOR drop_bit k y" "22 \<le> k" "k < 64"
  shows "x = y"
proof -
  have "x = (x XOR drop_bit k x) XOR drop_bit k (x XOR drop_bit k x) XOR drop_bit (2 * k) (x XOR drop_bit k x)"
    by (rule xorshift_undo [OF assms(2,3), symmetric])
  also have "\<dots> = y" unfolding assms(1) by (rule xorshift_undo [OF assms(2,3)])
  finally show ?thesis .
qed

lemma mult_cancel_inverse:
  fixes x y c d :: u64
  assumes "x * c = y * c" "c * d = 1"
  shows "x = y"
proof -
  have "x * (c * d) = y * (c * d)" using assms(1) by (simp only: mult.assoc [symmetric])
  then show ?thesis unfolding assms(2) by simp
qed

lemma splitmix_inj:
  assumes "snd (lpp_splitmix64 a) = snd (lpp_splitmix64 b)"
  shows "a = b"
proof -
  note xorshift_inj [OF assms [unfolded lpp_splitmix64_def Let_def snd_conv]]
  then have "((a + 0x9e3779b97f4a7c15 XOR drop_bit 30 (a + 0x9e3779b97f4a7c15)) * 0xbf58476d1ce4e5b9 XOR
      drop_bit 27 ((a + 0x9e3779b97f4a7c15 XOR drop_bit 30 (a + 0x9e3779b97f4a7c15)) * 0xbf58476d1ce4e5b9)) =
    ((b + 0x9e3779b97f4a7c15 XOR drop_bit 30 (b + 0x9e3779b97f4a7c15)) * 0xbf58476d1ce4e5b9 XOR
      drop_bit 27 ((b + 0x9e3779b97f4a7c15 XOR drop_bit 30 (b + 0x9e3779b97f4a7c15)) * 0xbf58476d1ce4e5b9))"
    by (rule mult_cancel_inverse [where d = "0x319642b2d24d8ec3"]) simp_all
  from xorshift_inj [OF this]
  have "a + 0x9e3779b97f4a7c15 XOR drop_bit 30 (a + 0x9e3779b97f4a7c15) = b + 0x9e3779b97f4a7c15 XOR drop_bit 30 (b + 0x9e3779b97f4a7c15)"
    by (rule mult_cancel_inverse [where d = "0x96de1b173f119089"]) simp_all
  from xorshift_inj [OF this] show ?thesis by simp
qed

section \<open>Sequences of draws\<close>

fun rng_draws :: "rng_heap \<Rightarrow> i64 \<Rightarrow> nat \<Rightarrow> i64 list res" where
  "rng_draws hp handle 0 = Inr []"
| "rng_draws hp handle (Suc n) = bind_res (lpp_rng_next hp handle) (\<lambda>(hp', v). bind_res (rng_draws hp' handle n) (\<lambda>vs. Inr (v # vs)))"

lemma rng_next_live:
  assumes "h \<noteq> 0" "hp h = Some rng"
  shows "lpp_rng_next hp h = Inr (hp(h \<mapsto> rng\<lparr>state := state rng + 0x9e3779b97f4a7c15\<rparr>), snd (lpp_splitmix64 (state rng)))"
  using assms by (simp add: lpp_rng_next_def lpp_splitmix64_def Let_def)

lemma rng_draws_run:
  "h \<noteq> 0 \<Longrightarrow> hp h = Some rng \<Longrightarrow>
     rng_draws hp h n = Inr (map (\<lambda>i. snd (lpp_splitmix64 (state rng + of_nat i * 0x9e3779b97f4a7c15))) [0..<n])"
proof (induction n arbitrary: hp rng)
  case (Suc n)
  let ?rng = "rng\<lparr>state := state rng + 0x9e3779b97f4a7c15\<rparr>"
  have "rng_draws (hp(h \<mapsto> ?rng)) h n = Inr (map (\<lambda>i. snd (lpp_splitmix64 (state ?rng + of_nat i * 0x9e3779b97f4a7c15))) [0..<n])"
    using Suc.prems by (intro Suc.IH) simp_all
  also have "map (\<lambda>i. snd (lpp_splitmix64 (state ?rng + of_nat i * 0x9e3779b97f4a7c15))) [0..<n] =
      map (\<lambda>i. snd (lpp_splitmix64 (state rng + of_nat i * 0x9e3779b97f4a7c15))) [Suc 0..<Suc n]"
    by (simp add: map_Suc_upt [symmetric] o_def ac_simps distrib_right del: upt_Suc)
  finally have e: "rng_draws (hp(h \<mapsto> ?rng)) h n = Inr (map (\<lambda>i. snd (lpp_splitmix64 (state rng + of_nat i * 0x9e3779b97f4a7c15))) [Suc 0..<Suc n])" .
  show ?case unfolding rng_draws.simps rng_next_live [of h hp rng, OF Suc.prems] bind_res.simps prod.case e
    by (simp add: upt_conv_Cons del: upt_Suc)
qed simp

lemma rng_draws_distinct:
  assumes "n \<le> 2 ^ 64"
  shows "distinct (map (\<lambda>i. snd (lpp_splitmix64 (s + of_nat i * 0x9e3779b97f4a7c15))) [0..<n])"
proof -
  have "i = j" if ij: "i < n" "j < n" and e: "snd (lpp_splitmix64 (s + of_nat i * 0x9e3779b97f4a7c15)) = snd (lpp_splitmix64 (s + of_nat j * 0x9e3779b97f4a7c15))" for i j
  proof -
    have "(of_nat i :: u64) * 0x9e3779b97f4a7c15 = of_nat j * 0x9e3779b97f4a7c15" using splitmix_inj [OF e] by simp
    then have "(of_nat i :: u64) = of_nat j" by (rule mult_cancel_inverse [where d = "0xf1de83e19937733d"]) simp
    then show ?thesis using ij assms by (simp add: word_of_nat_eq_iff take_bit_nat_eq_self)
  qed
  then show ?thesis by (auto simp: distinct_map inj_on_def)
qed

section \<open>Ranges\<close>

lemma range_size:
  fixes lo hi :: i64
  assumes "sint lo < sint hi" "sint hi - sint lo < 2 ^ 64 - 1"
  shows "uint (hi - lo + 1) = sint hi - sint lo + 1" "hi - lo + 1 \<noteq> 0"
proof -
  have "hi - lo + 1 = word_of_int (sint hi - sint lo + 1)" by simp
  then have "uint (hi - lo + 1) = take_bit 64 (sint hi - sint lo + 1)" by (simp only: uint_word_of_int_eq) simp
  also have "\<dots> = sint hi - sint lo + 1" using assms by (simp add: take_bit_int_eq_self)
  finally show e: "uint (hi - lo + 1) = sint hi - sint lo + 1" .
  show "hi - lo + 1 \<noteq> 0"
  proof
    assume "hi - lo + 1 = 0"
    then show False using e assms(1) by simp
  qed
qed

lemma in_range:
  fixes lo hi v :: i64
  assumes "sint lo < sint hi" "sint hi - sint lo < 2 ^ 64 - 1"
  shows "sint lo \<le> sint (lo + v mod (hi - lo + 1))" "sint (lo + v mod (hi - lo + 1)) \<le> sint hi"
proof -
  let ?r = "v mod (hi - lo + 1)"
  have "uint ?r = uint v mod (sint hi - sint lo + 1)" using range_size(1) [OF assms] by (simp add: uint_mod)
  then have r: "0 \<le> uint ?r" "uint ?r \<le> sint hi - sint lo" using assms(1) pos_mod_bound [of "sint hi - sint lo + 1" "uint v"] by auto
  have "lo + ?r = word_of_int (sint lo + uint ?r)" by simp
  moreover have "in_i64 (sint lo + uint ?r)"
    unfolding in_i64_def using r sint_range_64 [of lo] sint_range_64 [of hi] by linarith
  ultimately have "sint (lo + ?r) = sint lo + uint ?r" using sint_word_of_int_64 by metis
  then show "sint lo \<le> sint (lo + ?r)" "sint (lo + ?r) \<le> sint hi" using r by auto
qed

lemma clock_virtual:
  assumes "lpp_clock_new p hp t = Inr (hp', h)" "t \<noteq> 0"
  shows "\<exists>hp''. foldl (\<lambda>r d. bind_res r (\<lambda>hp. lpp_clock_advance hp h d)) (Inr hp') ds = Inr hp'' \<and> lpp_clock_now now hp'' h = Inr (t + sum_list ds)"
proof -
  have h: "h \<noteq> 0" "hp' h = Some \<lparr>is_virtual = True, current_time = t\<rparr>" using assms by (auto simp: lpp_clock_new_def split: if_splits)
  then have "\<exists>hp''. foldl (\<lambda>r d. bind_res r (\<lambda>hp. lpp_clock_advance hp h d)) (Inr hp') ds = Inr hp'' \<and>
      hp'' h = Some \<lparr>is_virtual = True, current_time = t + sum_list ds\<rparr>"
  proof (induction ds arbitrary: hp' t)
    case (Cons d ds)
    have "lpp_clock_advance hp' h d = Inr (hp'(h \<mapsto> \<lparr>is_virtual = True, current_time = t + d\<rparr>))"
      using Cons.prems by (simp add: lpp_clock_advance_def)
    moreover have "\<exists>hp''. foldl (\<lambda>r d. bind_res r (\<lambda>hp. lpp_clock_advance hp h d)) (Inr (hp'(h \<mapsto> \<lparr>is_virtual = True, current_time = t + d\<rparr>))) ds = Inr hp'' \<and>
        hp'' h = Some \<lparr>is_virtual = True, current_time = t + d + sum_list ds\<rparr>"
      using Cons.prems by (intro Cons.IH) simp_all
    ultimately show ?case by (simp only: foldl_Cons bind_res.simps sum_list.Cons add.assoc)
  qed simp
  then show ?thesis using h(1) by (cases now) (auto simp: lpp_clock_now_def)
qed

section \<open>Properties\<close>

text \<open>C12: The seeded generator. A new generator repeats no number in 2^64 draws. A draw from a range lies in the range, ends included, for every range except that of all
  64-bit integers, where the width wraps to 0 and the remainder divides by zero.\<close>

theorem lpp_rng_draws:
  assumes "lpp_rng_new p hp seed = Inr (hp', h)"
  shows "(n \<le> 2 ^ 64 \<longrightarrow> (\<exists>vs. rng_draws hp' h n = Inr vs \<and> length vs = n \<and> distinct vs)) \<and>
    (sint lo \<le> sint hi \<longrightarrow> (if sint lo = INT64_MIN \<and> sint hi = INT64_MAX then lpp_rng_range hp' h lo hi = Inl (Fault ''division by zero'')
      else \<exists>hp'' v. lpp_rng_range hp' h lo hi = Inr (hp'', v) \<and> sint lo \<le> sint v \<and> sint v \<le> sint hi))"
proof -
  obtain rng where r: "h \<noteq> 0" "hp' h = Some rng" using assms by (auto simp: lpp_rng_new_def split: if_splits)
  note nx = rng_next_live [of h hp' rng, OF r]
  have full: "hi - lo + 1 = 0" if "sint lo = INT64_MIN" "sint hi = INT64_MAX"
  proof -
    have "hi - lo + 1 = word_of_int (sint hi - sint lo + 1)" by simp
    then show ?thesis unfolding that INT64_MIN_def INT64_MAX_def by simp
  qed
  have wide: "sint hi - sint lo < 2 ^ 64 - 1" if "\<not> (sint lo = INT64_MIN \<and> sint hi = INT64_MAX)"
    using that sint_range_64 [of lo] sint_range_64 [of hi] by (auto simp: INT64_MIN_def INT64_MAX_def)
  show ?thesis
  proof (intro conjI impI)
    show "\<exists>vs. rng_draws hp' h n = Inr vs \<and> length vs = n \<and> distinct vs" if "n \<le> 2 ^ 64"
      using rng_draws_run [of h hp' rng n] r rng_draws_distinct [OF that] by simp
    assume le: "sint lo \<le> sint hi"
    show "if sint lo = INT64_MIN \<and> sint hi = INT64_MAX then lpp_rng_range hp' h lo hi = Inl (Fault ''division by zero'')
        else \<exists>hp'' v. lpp_rng_range hp' h lo hi = Inr (hp'', v) \<and> sint lo \<le> sint v \<and> sint v \<le> sint hi"
    proof (cases "sint lo = INT64_MIN \<and> sint hi = INT64_MAX")
      case True
      then show ?thesis using nx full by (auto simp: lpp_rng_range_def Let_def INT64_MIN_def INT64_MAX_def)
    next
      case False
      then show ?thesis using nx le range_size(2) [OF _ wide [OF False]] in_range [OF _ wide [OF False]]
        by (cases "sint hi \<le> sint lo") (simp_all add: lpp_rng_range_def Let_def)
    qed
  qed
qed

theorem lpp_rng_draws_witness:
  "\<exists>hp'' v. lpp_rng_range [8 \<mapsto> \<lparr>state = 42\<rparr>] 8 1 6 = Inr (hp'', v) \<and> 1 \<le> sint v \<and> sint v \<le> 6"
proof -
  have "lpp_rng_new 8 Map.empty 42 = Inr ([8 \<mapsto> \<lparr>state = 42\<rparr>], 8)" by (simp add: lpp_rng_new_def)
  from lpp_rng_draws [OF this, of 0 1 6] show ?thesis by (simp add: INT64_MIN_def INT64_MAX_def)
qed

end
