(* ===== verification/Lpp_File.thy ===== *)
theory Lpp_File
  imports Lpp_Buf
begin

text \<open>
  Files: the whole-file builtins and the positional file I/O of \<^verbatim>\<open>runtime/lpp_runtime.c\<close>, \<open>lpp_buf_read\<close> and \<open>lpp_buf_write\<close> of
  \<^verbatim>\<open>runtime/lpp_buf.c\<close>, and the freestanding whole-file builtins of \<^verbatim>\<open>runtime/linux_x86_64_min.c\<close> (suffix \<open>_fs\<close>). The file
  system below them is a record as POSIX describes it: names lead to inodes, an open descriptor keeps its inode. What the system decides is an argument: which paths it refuses
  to open, how many bytes of a write it takes, the numbers it gives to new inodes and descriptors. Reading a file delivers what is in it.
  Where the code has a Windows branch, the POSIX one is modelled.
\<close>

section \<open>The file system\<close>

datatype inode = Reg "u8 list" | Stream "u8 list"

record fsys =
  fnames :: "string \<Rightarrow> nat option"
  inodes :: "nat \<Rightarrow> inode option"
  fdirs :: "string \<Rightarrow> bool"
  fds :: "int \<Rightarrow> nat option"

record os_env =
  denied :: "string \<Rightarrow> bool"
  room :: "nat \<Rightarrow> nat"
  new_ino :: nat
  new_fd :: int

text \<open>The directory a path is created in: everything in front of its last slash.\<close>

definition dir_of :: "string \<Rightarrow> string" where
  "dir_of path = rev (drop 1 (dropWhile (\<lambda>c. c \<noteq> CHR ''/'') (rev path)))"

definition parent_ok :: "fsys \<Rightarrow> string \<Rightarrow> bool" where
  "parent_ok st path \<longleftrightarrow> dir_of path = [] \<or> fdirs st (dir_of path)"

definition open_read :: "os_env \<Rightarrow> fsys \<Rightarrow> string \<Rightarrow> inode option" where
  "open_read os st path = (if denied os path then None else if fdirs st path then Some (Stream [])
     else case fnames st path of None \<Rightarrow> None | Some i \<Rightarrow> inodes st i)"

definition open_write :: "os_env \<Rightarrow> bool \<Rightarrow> bool \<Rightarrow> fsys \<Rightarrow> string \<Rightarrow> (fsys \<times> nat) option" where
  "open_write os creat trunc st path = (if denied os path \<or> fdirs st path then None else case fnames st path of
       Some i \<Rightarrow> Some (case inodes st i of Some (Reg c) \<Rightarrow> if trunc then (st\<lparr>inodes := (inodes st)(i \<mapsto> Reg [])\<rparr>, i) else (st, i) | _ \<Rightarrow> (st, i))
     | None \<Rightarrow> if creat \<and> parent_ok st path
         then Some (st\<lparr>fnames := (fnames st)(path \<mapsto> new_ino os), inodes := (inodes st)(new_ino os \<mapsto> Reg [])\<rparr>, new_ino os) else None)"

definition splice :: "u8 list \<Rightarrow> nat \<Rightarrow> u8 list \<Rightarrow> u8 list" where
  "splice c off bs = take off (c @ replicate (off - length c) 0) @ bs @ drop (off + length bs) c"

definition write_at :: "fsys \<Rightarrow> nat \<Rightarrow> nat \<Rightarrow> u8 list \<Rightarrow> fsys" where
  "write_at st i off bs = (case inodes st i of Some (Reg c) \<Rightarrow> st\<lparr>inodes := (inodes st)(i \<mapsto> Reg (splice c off bs))\<rparr> | _ \<Rightarrow> st)"

definition inode_len :: "fsys \<Rightarrow> nat \<Rightarrow> nat" where
  "inode_len st i = (case inodes st i of Some (Reg c) \<Rightarrow> length c | _ \<Rightarrow> 0)"

definition written :: "os_env \<Rightarrow> nat \<Rightarrow> nat" where
  "written os n = min n (room os n)"

section \<open>Whole files\<close>

text \<open>A file that is not regular is read in pieces of at most 1024 bytes into a block that doubles; both writes into the block are checked against its size.\<close>

function read_loop :: "(int \<Rightarrow> bool) \<Rightarrow> int \<Rightarrow> u8 list \<Rightarrow> u8 list \<Rightarrow> u8 list option res" where
  "read_loop oom cap buf rest =
     (let grow = int (length buf) + 1024 \<ge> cap;
          cap' = (if grow then cap * 2 else cap)
      in if grow \<and> (cap > INT64_MAX div 2 \<or> oom cap') then Inr None
         else if int (length buf) + 1024 > cap' then Inl (Fault ''fread past the block'')
         else if rest = []
         then if int (length buf) \<ge> cap' then Inl (Fault ''terminator past the block'') else Inr (Some buf)
         else read_loop oom cap' (buf @ take 1024 rest) (drop 1024 rest))"
  by pat_completeness auto
termination by (relation "measure (\<lambda>(_, _, _, rest). length rest)") (auto simp: Let_def)

definition lpp_read_file :: "(int \<Rightarrow> bool) \<Rightarrow> os_env \<Rightarrow> fsys \<Rightarrow> cstr \<Rightarrow> u8 list option res" where
  "lpp_read_file oom os st path = (case path of None \<Rightarrow> Inr None | Some p \<Rightarrow> (case open_read os st p of None \<Rightarrow> Inr None
     | Some (Reg c) \<Rightarrow> if oom (int (length c) + 1) then Inr None else Inr (Some c)
     | Some (Stream c) \<Rightarrow> if oom 4096 then Inr None else read_loop oom 4096 [] c))"

text \<open>\<open>make_parent_dirs\<close> works on the first 1023 bytes of the path and calls \<open>mkdir\<close> for every prefix in front of a slash or a backslash.\<close>

definition mkdir :: "os_env \<Rightarrow> fsys \<Rightarrow> string \<Rightarrow> fsys" where
  "mkdir os st d = (if denied os d \<or> fdirs st d \<or> fnames st d \<noteq> None \<or> \<not> parent_ok st d then st else st\<lparr>fdirs := (fdirs st)(d := True)\<rparr>)"

definition dir_prefixes :: "string \<Rightarrow> string list" where
  "dir_prefixes path = (let temp = take 1023 path
     in map (\<lambda>i. take i temp) (List.filter (\<lambda>i. temp ! i = CHR ''/'' \<or> temp ! i = CHR 0x5C) [1..<length temp]))"

definition make_parent_dirs :: "os_env \<Rightarrow> fsys \<Rightarrow> string \<Rightarrow> fsys" where
  "make_parent_dirs os st path = foldl (mkdir os) st (dir_prefixes path)"

definition lpp_write_file :: "os_env \<Rightarrow> fsys \<Rightarrow> cstr \<Rightarrow> cstr \<Rightarrow> fsys \<times> int" where
  "lpp_write_file os st path data = (case (path, data) of (Some p, Some d) \<Rightarrow>
       let st = make_parent_dirs os st p
       in (case open_write os True True st p of None \<Rightarrow> (st, - 1)
         | Some (st, i) \<Rightarrow> let bs = map char_byte d; n = written os (length bs)
             in (write_at st i 0 (take n bs), if n = length bs then 0 else - 1))
     | _ \<Rightarrow> (st, - 1))"

definition lpp_append_file :: "os_env \<Rightarrow> fsys \<Rightarrow> cstr \<Rightarrow> cstr \<Rightarrow> fsys \<times> int" where
  "lpp_append_file os st path data = (case (path, data) of (Some p, Some d) \<Rightarrow>
       (case open_write os True False st p of None \<Rightarrow> (st, - 1)
         | Some (st, i) \<Rightarrow> let bs = map char_byte d; n = written os (length bs)
             in (write_at st i (inode_len st i) (take n bs), if n = length bs then 0 else - 1))
     | _ \<Rightarrow> (st, - 1))"

text \<open>\<open>remove\<close> and \<open>rename\<close> are modelled for files; on a directory they answer with a fault.\<close>

definition remove_file :: "os_env \<Rightarrow> fsys \<Rightarrow> string \<Rightarrow> (fsys \<times> bool) res" where
  "remove_file os st p = (if fdirs st p then Inl (Fault ''removal of a directory'')
     else if denied os p \<or> fnames st p = None then Inr (st, False) else Inr (st\<lparr>fnames := (fnames st)(p := None)\<rparr>, True))"

definition rename_file :: "os_env \<Rightarrow> fsys \<Rightarrow> string \<Rightarrow> string \<Rightarrow> (fsys \<times> bool) res" where
  "rename_file os st p q = (if fdirs st p then Inl (Fault ''renaming of a directory'')
     else case fnames st p of None \<Rightarrow> Inr (st, False)
     | Some i \<Rightarrow> if denied os p \<or> denied os q \<or> fdirs st q \<or> \<not> parent_ok st q then Inr (st, False)
         else Inr (st\<lparr>fnames := (fnames st)(p := None, q \<mapsto> i)\<rparr>, True))"

definition lpp_delete_file :: "os_env \<Rightarrow> fsys \<Rightarrow> cstr \<Rightarrow> (fsys \<times> int) res" where
  "lpp_delete_file os st path = (case path of None \<Rightarrow> Inr (st, - 1)
     | Some p \<Rightarrow> bind_res (remove_file os st p) (\<lambda>(st, ok). Inr (st, if ok then 0 else - 1)))"

definition lpp_file_exists :: "os_env \<Rightarrow> fsys \<Rightarrow> cstr \<Rightarrow> int" where
  "lpp_file_exists os st path = (case path of None \<Rightarrow> 0 | Some p \<Rightarrow> if open_read os st p \<noteq> None then 1 else 0)"

definition lpp_file_size :: "os_env \<Rightarrow> fsys \<Rightarrow> cstr \<Rightarrow> int" where
  "lpp_file_size os st path = (case path of None \<Rightarrow> - 1 | Some p \<Rightarrow> (case open_read os st p of
       Some (Reg c) \<Rightarrow> int (length c) | _ \<Rightarrow> - 1))"

text \<open>The copy loop: pieces of 8192 bytes until a short one.\<close>

function copy_loop :: "os_env \<Rightarrow> u8 list \<Rightarrow> u8 list \<Rightarrow> u8 list \<times> bool" where
  "copy_loop os rest out =
     (let r = take 8192 rest
      in if r \<noteq> [] \<and> written os (length r) \<noteq> length r then (out @ take (written os (length r)) r, True)
         else if length r < 8192 then (out @ r, False)
         else copy_loop os (drop 8192 rest) (out @ r))"
  by pat_completeness auto
termination by (relation "measure (\<lambda>(_, rest, _). length rest)") auto

definition lpp_file_copy :: "os_env \<Rightarrow> fsys \<Rightarrow> cstr \<Rightarrow> cstr \<Rightarrow> (fsys \<times> int) res" where
  "lpp_file_copy os st source destination = (case (source, destination) of (Some s, Some d) \<Rightarrow>
       (case open_read os st s of None \<Rightarrow> Inr (st, - 1) | Some _ \<Rightarrow>
         (case open_write os True True st d of None \<Rightarrow> Inr (st, - 1)
         | Some (st, i) \<Rightarrow>
             let content = (case open_read os st s of Some (Reg c) \<Rightarrow> c | Some (Stream c) \<Rightarrow> c | None \<Rightarrow> []);
                 (out, failed) = copy_loop os content []; st = write_at st i 0 out
             in if failed then bind_res (remove_file os st d) (\<lambda>(st, _). Inr (st, - 1)) else Inr (st, 0)))
     | _ \<Rightarrow> Inr (st, - 1))"

definition lpp_file_move :: "os_env \<Rightarrow> fsys \<Rightarrow> cstr \<Rightarrow> cstr \<Rightarrow> (fsys \<times> int) res" where
  "lpp_file_move os st source destination = (case (source, destination) of (Some s, Some d) \<Rightarrow>
       bind_res (rename_file os st s d) (\<lambda>(st, ok). Inr (st, if ok then 0 else - 1)) | _ \<Rightarrow> Inr (st, - 1))"

section \<open>Buffers as files\<close>

definition lpp_buf_read :: "(u64 \<Rightarrow> i64) \<Rightarrow> os_env \<Rightarrow> fsys \<Rightarrow> bheap \<Rightarrow> cstr \<Rightarrow> i64 \<times> bheap" where
  "lpp_buf_read calloc os st h path = (case path of None \<Rightarrow> (0, h) | Some p \<Rightarrow> (case open_read os st p of
       Some (Reg c) \<Rightarrow> let (buf, h') = lpp_buf_alloc calloc h (of_nat (length c))
         in if buf = 0 then (0, h) else (buf, h'(buf \<mapsto> (the (h' buf))\<lparr>bdata := c\<rparr>))
     | _ \<Rightarrow> (0, h)))"

definition lpp_buf_write :: "os_env \<Rightarrow> fsys \<Rightarrow> bheap \<Rightarrow> cstr \<Rightarrow> i64 \<Rightarrow> (fsys \<times> int) res" where
  "lpp_buf_write os st h path ptr = (case path of None \<Rightarrow> Inr (st, - 1) | Some p \<Rightarrow>
       if ptr = 0 then Inr (st, - 1) else case h ptr of None \<Rightarrow> Inl (Fault ''not a live buffer'')
       | Some b \<Rightarrow> (case open_write os True True st p of None \<Rightarrow> Inr (st, - 1)
           | Some (st, i) \<Rightarrow> bind_res (load_bytes (bdata b) 0 (unat (bsize b))) (\<lambda>bs. let n = written os (length bs)
               in Inr (write_at st i 0 (take n bs), if n = length bs then 0 else - 1))))"

section \<open>Positional I/O\<close>

definition lpp_file_open :: "os_env \<Rightarrow> fsys \<Rightarrow> cstr \<Rightarrow> i64 \<Rightarrow> fsys \<times> int" where
  "lpp_file_open os st path flags = (case path of None \<Rightarrow> (st, - 1) | Some p \<Rightarrow>
       if new_fd os < 0 then (st, - 1) else case open_write os True False st p of None \<Rightarrow> (st, - 1)
       | Some (st, i) \<Rightarrow> (st\<lparr>fds := (fds st)(new_fd os \<mapsto> i)\<rparr>, new_fd os))"

definition lpp_file_close :: "fsys \<Rightarrow> int \<Rightarrow> fsys" where
  "lpp_file_close st fd = (if fd \<le> 0 then st else st\<lparr>fds := (fds st)(fd := None)\<rparr>)"

text \<open>A host buffer is the address of its size word; its bytes start 8 behind it. The positional calls take that address, read the size 8 bytes in \<^emph>\<open>front\<close> of it
  (the word \<open>front\<close>, whatever the allocator keeps there) and transfer to and from the address itself, so the block they see is the size word followed by the
  bytes.\<close>

definition block_bytes :: "lppbuf \<Rightarrow> u8 list" where
  "block_bytes b = enc64le (bsize b) @ bdata b"

definition block_of :: "u8 list \<Rightarrow> lppbuf" where
  "block_of bs = \<lparr>bsize = dec64le (take 8 bs), bdata = drop 8 bs\<rparr>"

definition lpp_file_pread :: "i64 \<Rightarrow> fsys \<Rightarrow> bheap \<Rightarrow> int \<Rightarrow> i64 \<Rightarrow> i64 \<Rightarrow> i64 \<Rightarrow> i64 \<Rightarrow> (bheap \<times> int) res" where
  "lpp_file_pread front st h fd buf buf_off file_off len =
     (if fd \<le> 0 \<or> buf = 0 \<or> sint len \<le> 0 \<or> sint file_off < 0 \<or> sint buf_off < 0 then Inr (h, - 1)
      else if sint (buf_off + len) > sint front then Inr (h, - 1)
      else case fds st fd of None \<Rightarrow> Inr (h, - 1)
      | Some i \<Rightarrow> (case inodes st i of Some (Reg c) \<Rightarrow>
          let bs = take (nat (sint len)) (drop (nat (sint file_off)) c)
          in (case h buf of None \<Rightarrow> Inl (Fault ''not a live buffer'')
            | Some b \<Rightarrow> bind_res (store_bytes (block_bytes b) (sint buf_off) bs) (\<lambda>m. Inr (h(buf \<mapsto> block_of m), int (length bs))))
        | _ \<Rightarrow> Inr (h, - 1)))"

definition lpp_file_pwrite :: "i64 \<Rightarrow> os_env \<Rightarrow> fsys \<Rightarrow> bheap \<Rightarrow> int \<Rightarrow> i64 \<Rightarrow> i64 \<Rightarrow> i64 \<Rightarrow> i64 \<Rightarrow> (fsys \<times> int) res" where
  "lpp_file_pwrite front os st h fd buf buf_off file_off len =
     (if fd \<le> 0 \<or> buf = 0 \<or> sint len \<le> 0 \<or> sint file_off < 0 \<or> sint buf_off < 0 then Inr (st, - 1)
      else if sint (buf_off + len) > sint front then Inr (st, - 1)
      else case fds st fd of None \<Rightarrow> Inr (st, - 1)
      | Some i \<Rightarrow> (case inodes st i of Some (Reg c) \<Rightarrow> (case h buf of None \<Rightarrow> Inl (Fault ''not a live buffer'')
          | Some b \<Rightarrow> bind_res (load_bytes (block_bytes b) (sint buf_off) (nat (sint len))) (\<lambda>bs. let n = written os (length bs)
              in Inr (write_at st i (nat (sint file_off)) (take n bs), if n = 0 then - 1 else int n)))
        | _ \<Rightarrow> Inr (st, - 1)))"

definition lpp_file_fsync :: "fsys \<Rightarrow> int \<Rightarrow> int" where
  "lpp_file_fsync st fd = (if fd \<le> 0 then - 1 else if fds st fd = None then - 1 else 0)"

definition lpp_file_fdatasync :: "fsys \<Rightarrow> int \<Rightarrow> int" where
  "lpp_file_fdatasync st fd = lpp_file_fsync st fd"

definition lpp_file_ftruncate :: "fsys \<Rightarrow> int \<Rightarrow> int \<Rightarrow> fsys \<times> int" where
  "lpp_file_ftruncate st fd n = (if fd \<le> 0 \<or> n < 0 then (st, - 1) else case fds st fd of None \<Rightarrow> (st, - 1)
     | Some i \<Rightarrow> (case inodes st i of
         Some (Reg c) \<Rightarrow> (st\<lparr>inodes := (inodes st)(i \<mapsto> Reg (take (nat n) (c @ replicate (nat n - length c) 0)))\<rparr>, 0)
       | _ \<Rightarrow> (st, - 1)))"

definition lpp_fd_size :: "fsys \<Rightarrow> int \<Rightarrow> int" where
  "lpp_fd_size st fd = (if fd \<le> 0 then - 1 else case fds st fd of None \<Rightarrow> - 1 | Some i \<Rightarrow> int (inode_len st i))"

section \<open>Freestanding whole files\<close>

text \<open>The flags of \<open>open(2)\<close> the code passes: octal 0101 is \<open>O_WRONLY | O_CREAT\<close>, octal 02001 is \<open>O_WRONLY | O_APPEND\<close>; \<open>O_TRUNC\<close> is octal 01000.\<close>

definition lpp_sys_open :: "os_env \<Rightarrow> fsys \<Rightarrow> string \<Rightarrow> nat \<Rightarrow> (fsys \<times> nat) option" where
  "lpp_sys_open os st path flags = open_write os (bit flags 6) (bit flags 9) st path"

definition lpp_sys_write :: "os_env \<Rightarrow> fsys \<Rightarrow> nat \<Rightarrow> nat \<Rightarrow> u8 list \<Rightarrow> fsys \<times> nat" where
  "lpp_sys_write os st i flags bs = (let n = written os (length bs)
     in (write_at st i (if bit flags 10 then inode_len st i else 0) (take n bs), n))"

definition lpp_read_file_fs :: "(int \<Rightarrow> bool) \<Rightarrow> os_env \<Rightarrow> fsys \<Rightarrow> cstr \<Rightarrow> u8 list" where
  "lpp_read_file_fs oom os st filename = (case filename of None \<Rightarrow> [] | Some p \<Rightarrow> (case open_read os st p of
       Some (Reg c) \<Rightarrow> if oom (int (length c) + 1) then [] else c | _ \<Rightarrow> []))"

definition lpp_write_file_fs :: "os_env \<Rightarrow> fsys \<Rightarrow> cstr \<Rightarrow> cstr \<Rightarrow> fsys \<times> int" where
  "lpp_write_file_fs os st filename content = (case (filename, content) of (Some p, Some d) \<Rightarrow>
       (case lpp_sys_open os st p 65 of None \<Rightarrow> (st, - 1)
         | Some (st, i) \<Rightarrow> let (st, n) = lpp_sys_write os st i 65 (map char_byte d) in (st, if n = length d then 0 else - 1))
     | _ \<Rightarrow> (st, - 1))"

definition lpp_append_file_fs :: "os_env \<Rightarrow> fsys \<Rightarrow> cstr \<Rightarrow> cstr \<Rightarrow> fsys \<times> int" where
  "lpp_append_file_fs os st filename content = (case (filename, content) of (Some p, Some d) \<Rightarrow>
       (case lpp_sys_open os st p 1025 of None \<Rightarrow> (st, - 1)
         | Some (st, i) \<Rightarrow> let (st, n) = lpp_sys_write os st i 1025 (map char_byte d) in (st, if n = length d then 0 else - 1))
     | _ \<Rightarrow> (st, - 1))"

definition lpp_delete_file_fs :: "os_env \<Rightarrow> fsys \<Rightarrow> cstr \<Rightarrow> (fsys \<times> int) res" where
  "lpp_delete_file_fs os st filename = (case filename of None \<Rightarrow> Inr (st, - 1)
     | Some p \<Rightarrow> if fdirs st p then Inr (st, - 1) else bind_res (remove_file os st p) (\<lambda>(st, ok). Inr (st, if ok then 0 else - 1)))"

definition lpp_file_move_fs :: "os_env \<Rightarrow> fsys \<Rightarrow> cstr \<Rightarrow> cstr \<Rightarrow> (fsys \<times> int) res" where
  "lpp_file_move_fs os st source destination = (case (source, destination) of (Some s, Some d) \<Rightarrow>
       bind_res (rename_file os st s d) (\<lambda>(st, ok). Inr (st, if ok then 0 else - 1)) | _ \<Rightarrow> Inr (st, - 1))"

definition lpp_file_exists_fs :: "os_env \<Rightarrow> fsys \<Rightarrow> cstr \<Rightarrow> int" where
  "lpp_file_exists_fs os st filename = (case filename of None \<Rightarrow> 0 | Some p \<Rightarrow> if open_read os st p \<noteq> None then 1 else 0)"

definition lpp_file_size_fs :: "os_env \<Rightarrow> fsys \<Rightarrow> cstr \<Rightarrow> int" where
  "lpp_file_size_fs os st filename = (case filename of None \<Rightarrow> 0 | Some p \<Rightarrow> (case open_read os st p of
       Some (Reg c) \<Rightarrow> int (length c) | _ \<Rightarrow> 0))"

section \<open>Reading\<close>

declare read_loop.simps [simp del] copy_loop.simps [simp del]

text \<open>The block always has room for the next piece and the terminator, and a stream shorter than the limits of the allocator is read completely.\<close>

lemma read_loop_safe:
  assumes "4096 \<le> cap" "int (length buf) < cap"
  shows "\<exists>r. read_loop oom cap buf rest = Inr r"
  using assms
proof (induction oom cap buf rest rule: read_loop.induct)
  case (1 oom cap buf rest)
  let ?grow = "int (length buf) + 1024 \<ge> cap" and ?cap = "if int (length buf) + 1024 \<ge> cap then cap * 2 else cap"
  have c: "int (length buf) + 1024 < ?cap" "4096 \<le> ?cap" using 1(2,3) by auto
  show ?case
  proof (cases "?grow \<and> (cap > INT64_MAX div 2 \<or> oom ?cap) \<or> rest = []")
    case True
    then show ?thesis using c by (subst read_loop.simps) (auto simp: Let_def)
  next
    case False
    then have "\<exists>r. read_loop oom ?cap (buf @ take 1024 rest) (drop 1024 rest) = Inr r"
      using c by (intro 1(1)) auto
    then show ?thesis using False c by (subst read_loop.simps) (auto simp: Let_def split: if_splits)
  qed
qed

lemma read_loop_all:
  assumes "4096 \<le> cap" "int (length buf) < cap" "\<And>n. \<not> oom n" "2 * (int (length buf) + int (length rest)) + 4096 \<le> INT64_MAX div 2"
  shows "read_loop oom cap buf rest = Inr (Some (buf @ rest))"
  using assms
proof (induction oom cap buf rest rule: read_loop.induct)
  case (1 oom cap buf rest)
  let ?grow = "int (length buf) + 1024 \<ge> cap" and ?cap = "if int (length buf) + 1024 \<ge> cap then cap * 2 else cap"
  have c: "int (length buf) + 1024 < ?cap" "4096 \<le> ?cap" using 1(2,3) by auto
  have g: "\<not> (?grow \<and> cap > INT64_MAX div 2)" using 1(5) by auto
  show ?case
  proof (cases "rest = []")
    case True
    then show ?thesis using c g 1(4) by (subst read_loop.simps) (auto simp: Let_def)
  next
    case False
    have "read_loop oom ?cap (buf @ take 1024 rest) (drop 1024 rest) = Inr (Some ((buf @ take 1024 rest) @ drop 1024 rest))"
    proof (rule 1(1))
      show "2 * (int (length (buf @ take 1024 rest)) + int (length (drop 1024 rest))) + 4096 \<le> INT64_MAX div 2"
        using 1(5) by (auto simp: min_def split: if_splits)
    qed (use False c g 1(4) in auto)
    then show ?thesis using False c g 1(4) by (subst read_loop.simps) (auto simp: Let_def split: if_splits)
  qed
qed

section \<open>Directories\<close>

lemma mkdir_names [simp]: "fnames (mkdir os st d) = fnames st" "inodes (mkdir os st d) = inodes st" "fds (mkdir os st d) = fds st"
  by (simp_all add: mkdir_def)

lemma mkdir_dirs: "fdirs (mkdir os st d) q \<longleftrightarrow> fdirs st q \<or> (q = d \<and> \<not> denied os d \<and> fnames st d = None \<and> parent_ok st d)"
  by (auto simp: mkdir_def)

lemma mkdirs_names [simp]:
  "fnames (foldl (mkdir os) st ds) = fnames st" "inodes (foldl (mkdir os) st ds) = inodes st" "fds (foldl (mkdir os) st ds) = fds st"
  by (induction ds arbitrary: st) simp_all

lemma mkdirs_mono: "fdirs st q \<Longrightarrow> fdirs (foldl (mkdir os) st ds) q"
  by (induction ds arbitrary: st) (simp_all add: mkdir_dirs)

lemma mkdirs_only: "fdirs (foldl (mkdir os) st ds) q \<Longrightarrow> fdirs st q \<or> q \<in> set ds"
proof (induction ds arbitrary: st)
  case (Cons d ds)
  then show ?case using Cons.IH [of "mkdir os st d"] by (auto simp: mkdir_dirs)
qed simp

text \<open>Directories made from the shortest to the longest all come into being when each has its parent in the list in front of it.\<close>

lemma mkdirs_all:
  assumes "\<And>d. d \<in> set ds \<Longrightarrow> \<not> denied os d \<and> fnames st d = None"
    and "\<And>k. k < length ds \<Longrightarrow> dir_of (ds ! k) = [] \<or> fdirs st (dir_of (ds ! k)) \<or> dir_of (ds ! k) \<in> set (take k ds)"
    and "d \<in> set ds"
  shows "fdirs (foldl (mkdir os) st ds) d"
  using assms
proof (induction ds arbitrary: d rule: rev_induct)
  case (snoc x ds)
  have all: "fdirs (foldl (mkdir os) st ds) e" if "e \<in> set ds" for e
  proof (rule snoc.IH [OF _ _ that])
    show "\<not> denied os d \<and> fnames st d = None" if "d \<in> set ds" for d using snoc.prems(1) that by simp
    show "dir_of (ds ! k) = [] \<or> fdirs st (dir_of (ds ! k)) \<or> dir_of (ds ! k) \<in> set (take k ds)" if "k < length ds" for k
      using snoc.prems(2) [of k] that by (simp add: nth_append)
  qed
  have "parent_ok (foldl (mkdir os) st ds) x"
    using snoc.prems(2) [of "length ds"] all mkdirs_mono by (auto simp: parent_ok_def)
  then show ?case using snoc.prems(1,3) all by (auto simp: mkdir_dirs)
qed simp

text \<open>The directory of a path is cut at its last slash.\<close>

lemma dropWhile_to_slash: "x \<notin> set b \<Longrightarrow> dropWhile (\<lambda>c. c \<noteq> x) (b @ x # a) = x # a"
  by (induction b) auto

lemma dir_of_append: "CHR ''/'' \<notin> set b \<Longrightarrow> dir_of (a @ CHR ''/'' # b) = a"
  using dropWhile_to_slash [of "CHR ''/''" "rev b" "rev a"] by (simp add: dir_of_def)

lemma dir_of_no_slash: "CHR ''/'' \<notin> set p \<Longrightarrow> dir_of p = []"
proof -
  assume "CHR ''/'' \<notin> set p"
  then have e: "dropWhile (\<lambda>c. c \<noteq> CHR ''/'') (rev p) = []" unfolding dropWhile_eq_Nil_conv by auto
  show ?thesis unfolding dir_of_def e by simp
qed

lemma dir_of_cases: "dir_of p = [] \<or> (\<exists>j. 0 < j \<and> j < length p \<and> p ! j = CHR ''/'' \<and> dir_of p = take j p)"
proof (cases "CHR ''/'' \<in> set p")
  case True
  then obtain a b where p: "p = a @ CHR ''/'' # b" "CHR ''/'' \<notin> set b" by (metis split_list_last)
  then have "dir_of p = a" using dir_of_append by simp
  then show ?thesis using p(1) by (cases "a = []") (auto intro!: exI [of _ "length a"])
qed (simp add: dir_of_no_slash)

lemma dir_of_take_cases:
  "x < length t \<Longrightarrow> dir_of (take x t) = [] \<or> (\<exists>j. 0 < j \<and> j < x \<and> t ! j = CHR ''/'' \<and> dir_of (take x t) = take j t)"
  using dir_of_cases [of "take x t"] by (auto simp: min_def)

lemma dir_prefixes_dir_of:
  assumes "length p \<le> 1023" "dir_of p \<noteq> []"
  shows "dir_of p \<in> set (dir_prefixes p)"
  using dir_of_cases [of p] assms by (auto simp: dir_prefixes_def)

lemma filter_upt_earlier:
  assumes "k < length (List.filter P [m..<n])" "j < List.filter P [m..<n] ! k" "m \<le> j" "P j"
  shows "j \<in> set (take k (List.filter P [m..<n]))"
proof -
  let ?xs = "List.filter P [m..<n]"
  have s: "sorted ?xs" using sorted_wrt_filter [of "(\<le>)" "[m..<n]" P] by simp
  have "?xs ! k < n" using assms(1) nth_mem [of k ?xs] by auto
  then have "j \<in> set ?xs" using assms by auto
  then obtain i where i: "i < length ?xs" "?xs ! i = j" by (metis in_set_conv_nth)
  have "i < k"
  proof (rule ccontr)
    assume "\<not> i < k"
    then have "?xs ! k \<le> ?xs ! i" using s i(1) by (intro sorted_nth_mono) auto
    then show False using i(2) assms(2) by simp
  qed
  then show ?thesis using i assms(1) by (auto simp: in_set_conv_nth intro!: exI [of _ i])
qed

lemma dir_prefixes_parents:
  assumes "k < length (dir_prefixes p)"
  shows "dir_of (dir_prefixes p ! k) = [] \<or> dir_of (dir_prefixes p ! k) \<in> set (take k (dir_prefixes p))"
proof -
  let ?t = "take 1023 p" and ?P = "\<lambda>i. take 1023 p ! i = CHR ''/'' \<or> take 1023 p ! i = CHR 0x5C"
  let ?xs = "List.filter ?P [1..<length ?t]"
  have e: "dir_prefixes p = map (\<lambda>i. take i ?t) ?xs" by (simp add: dir_prefixes_def Let_def)
  then have k: "k < length ?xs" using assms by simp
  then have x: "?xs ! k < length ?t" using nth_mem [OF k] by auto
  have d: "dir_prefixes p ! k = take (?xs ! k) ?t" using e k by simp
  show ?thesis
  proof (cases "dir_of (dir_prefixes p ! k) = []")
    case False
    then obtain j where j: "0 < j" "j < ?xs ! k" "?t ! j = CHR ''/''" "dir_of (dir_prefixes p ! k) = take j ?t"
      using dir_of_take_cases [OF x] unfolding d by blast
    then have "j \<in> set (take k ?xs)" by (intro filter_upt_earlier [OF k]) auto
    then show ?thesis using j(4) by (simp add: e take_map)
  qed simp
qed

lemma make_parent_dirs_ok:
  assumes "\<And>d. d \<in> set (dir_prefixes p) \<Longrightarrow> \<not> denied os d \<and> fnames st d = None" "length p \<le> 1023"
  shows "parent_ok (make_parent_dirs os st p) p"
proof (cases "dir_of p = []")
  case False
  have "fdirs (make_parent_dirs os st p) (dir_of p)" unfolding make_parent_dirs_def
    using assms(1) dir_prefixes_parents by (intro mkdirs_all dir_prefixes_dir_of [OF assms(2) False]) blast+
  then show ?thesis by (simp add: parent_ok_def)
qed (simp add: parent_ok_def)

lemma dir_prefixes_shorter: "d \<in> set (dir_prefixes p) \<Longrightarrow> length d < length p"
  by (auto simp: dir_prefixes_def Let_def)

lemma make_parent_dirs_keeps:
  "fnames (make_parent_dirs os st p) = fnames st" "inodes (make_parent_dirs os st p) = inodes st" "fds (make_parent_dirs os st p) = fds st"
  "fdirs (make_parent_dirs os st p) p \<longleftrightarrow> fdirs st p"
  using mkdirs_only [of os st "dir_prefixes p" p] mkdirs_mono [of st p os "dir_prefixes p"] dir_prefixes_shorter [of p p]
  by (auto simp: make_parent_dirs_def)

section \<open>Contents\<close>

definition file_content :: "fsys \<Rightarrow> string \<Rightarrow> u8 list option" where
  "file_content st p = (case fnames st p of None \<Rightarrow> None | Some i \<Rightarrow> (case inodes st i of Some (Reg c) \<Rightarrow> Some c | _ \<Rightarrow> None))"

text \<open>A sound file system gives every name an inode and the next new inode to no name.\<close>

definition fs_good :: "os_env \<Rightarrow> fsys \<Rightarrow> bool" where
  "fs_good os st \<longleftrightarrow> inodes st (new_ino os) = None \<and> (\<forall>p i. fnames st p = Some i \<longrightarrow> inodes st i \<noteq> None)"

text \<open>The system lets a file be opened for writing: the path is allowed and not a directory, an existing file is regular, a missing one has its directory.\<close>

definition writable :: "os_env \<Rightarrow> fsys \<Rightarrow> string \<Rightarrow> bool" where
  "writable os st p \<longleftrightarrow> \<not> denied os p \<and> \<not> fdirs st p \<and> (fnames st p = None \<or> file_content st p \<noteq> None)"

lemma splice_0: "splice [] 0 bs = bs" "splice c 0 bs = bs @ drop (length bs) c"
  by (simp_all add: splice_def)

lemma splice_end: "splice c (length c) bs = c @ bs"
  by (simp add: splice_def)

lemma written_all: "room os n \<ge> n \<Longrightarrow> written os n = n"
  by (simp add: written_def)

definition old_content :: "bool \<Rightarrow> fsys \<Rightarrow> string \<Rightarrow> u8 list" where
  "old_content trunc st p = (if trunc then [] else case file_content st p of None \<Rightarrow> [] | Some c \<Rightarrow> c)"

lemma open_write_ok:
  assumes "writable os st p" "fnames st p = None \<Longrightarrow> creat \<and> parent_ok st p"
  obtains st' i where "open_write os creat trunc st p = Some (st', i)" "fnames st' p = Some i"
    "inodes st' i = Some (Reg (old_content trunc st p))"
    "fdirs st' = fdirs st" "fds st' = fds st" "\<And>q. q \<noteq> p \<Longrightarrow> fnames st' q = fnames st q" "\<And>j. j \<noteq> i \<Longrightarrow> inodes st' j = inodes st j"
    "fnames st p = Some i \<or> fnames st p = None \<and> i = new_ino os"
proof (cases "fnames st p")
  case None
  with assms show ?thesis
    by (intro that [of "st\<lparr>fnames := (fnames st)(p \<mapsto> new_ino os), inodes := (inodes st)(new_ino os \<mapsto> Reg [])\<rparr>" "new_ino os"])
      (auto simp: open_write_def writable_def file_content_def old_content_def)
next
  case (Some i)
  then obtain c where "inodes st i = Some (Reg c)" using assms(1) by (auto simp: writable_def file_content_def split: option.splits inode.splits)
  with Some assms show ?thesis
    by (intro that [of "if trunc then st\<lparr>inodes := (inodes st)(i \<mapsto> Reg [])\<rparr> else st" i])
      (auto simp: open_write_def writable_def file_content_def old_content_def)
qed

lemma write_at_reg:
  assumes "inodes st i = Some (Reg c)"
  shows "inodes (write_at st i off bs) = (inodes st)(i \<mapsto> Reg (splice c off bs))" "fnames (write_at st i off bs) = fnames st"
    "fdirs (write_at st i off bs) = fdirs st" "fds (write_at st i off bs) = fds st"
  using assms by (simp_all add: write_at_def)

lemma read_content:
  assumes "file_content st p = Some c" "\<not> denied os p" "\<not> fdirs st p"
  shows "open_read os st p = Some (Reg c)" "lpp_file_size os st (Some p) = int (length c)" "lpp_file_exists os st (Some p) = 1"
    "lpp_file_size_fs os st (Some p) = int (length c)" "\<not> oom (int (length c) + 1) \<Longrightarrow> lpp_read_file oom os st (Some p) = Inr (Some c)"
    "\<not> oom (int (length c) + 1) \<Longrightarrow> lpp_read_file_fs oom os st (Some p) = c"
proof -
  show o: "open_read os st p = Some (Reg c)"
    using assms by (auto simp: file_content_def open_read_def split: option.splits inode.splits)
  then show "lpp_file_size os st (Some p) = int (length c)" "lpp_file_exists os st (Some p) = 1" "lpp_file_size_fs os st (Some p) = int (length c)"
    "\<not> oom (int (length c) + 1) \<Longrightarrow> lpp_read_file oom os st (Some p) = Inr (Some c)"
    "\<not> oom (int (length c) + 1) \<Longrightarrow> lpp_read_file_fs oom os st (Some p) = c"
    by (simp_all add: lpp_file_size_def lpp_file_exists_def lpp_file_size_fs_def lpp_read_file_def lpp_read_file_fs_def)
qed

text \<open>Opening a file and writing at an offset of its content, the common part of every writing builtin.\<close>

lemma open_and_write:
  assumes "writable os st p" "fnames st p = None \<Longrightarrow> creat \<and> parent_ok st p"
  obtains st' i where "open_write os creat trunc st p = Some (st', i)" "inode_len st' i = length (old_content trunc st p)"
    "\<And>off bs. file_content (write_at st' i off bs) p = Some (splice (old_content trunc st p) off bs)"
    "\<And>off bs. fdirs (write_at st' i off bs) = fdirs st"
    "\<And>off bs q. q \<noteq> p \<Longrightarrow> fnames st q \<noteq> fnames st p \<Longrightarrow> fs_good os st \<Longrightarrow> file_content (write_at st' i off bs) q = file_content st q"
proof -
  from open_write_ok [OF assms, of trunc] obtain st' i where o: "open_write os creat trunc st p = Some (st', i)"
    "fnames st' p = Some i" "inodes st' i = Some (Reg (old_content trunc st p))" "fdirs st' = fdirs st" "\<And>q. q \<noteq> p \<Longrightarrow> fnames st' q = fnames st q"
    "\<And>j. j \<noteq> i \<Longrightarrow> inodes st' j = inodes st j" "fnames st p = Some i \<or> fnames st p = None \<and> i = new_ino os"
    by metis
  note w = write_at_reg [OF o(3)]
  show ?thesis
  proof (rule that [OF o(1)])
    show "inode_len st' i = length (old_content trunc st p)" using o(3) by (simp add: inode_len_def)
    show "file_content (write_at st' i off bs) p = Some (splice (old_content trunc st p) off bs)" for off bs
      using o(2) by (simp add: file_content_def w)
    show "fdirs (write_at st' i off bs) = fdirs st" for off bs using o(4) by (simp add: w)
    show "file_content (write_at st' i off bs) q = file_content st q" if "q \<noteq> p" "fnames st q \<noteq> fnames st p" "fs_good os st" for off bs q
    proof -
      have "fnames st q \<noteq> Some i" using that(2,3) o(7) by (fastforce simp: fs_good_def)
      then show ?thesis using o(5) [OF that(1)] o(6) by (auto simp: file_content_def w split: option.splits)
    qed
  qed
qed

lemma bit_flags: "bit (65 :: nat) 6" "\<not> bit (65 :: nat) 9" "\<not> bit (65 :: nat) 10" "\<not> bit (1025 :: nat) 6" "\<not> bit (1025 :: nat) 9" "bit (1025 :: nat) 10"
  by (simp_all add: bit_iff_odd)

lemma sys_open_flags:
  "lpp_sys_open os st p 65 = open_write os True False st p" "lpp_sys_open os st p 1025 = open_write os False False st p"
  "room os (length bs) \<ge> length bs \<Longrightarrow> lpp_sys_write os st i 65 bs = (write_at st i 0 bs, length bs)"
  "room os (length bs) \<ge> length bs \<Longrightarrow> lpp_sys_write os st i 1025 bs = (write_at st i (inode_len st i) bs, length bs)"
  unfolding lpp_sys_open_def lpp_sys_write_def using bit_flags by (simp_all only: Let_def written_all if_True if_False take_all order_refl)

text \<open>What the writing builtins do to the content of their file.\<close>

lemma write_file_host:
  assumes "writable os st p" "\<And>d. d \<in> set (dir_prefixes p) \<Longrightarrow> \<not> denied os d \<and> fnames st d = None" "length p \<le> 1023" "room os (length d) \<ge> length d"
  obtains st' where "lpp_write_file os st (Some p) (Some d) = (st', 0)" "file_content st' p = Some (map char_byte d)"
    "fdirs st' p \<longleftrightarrow> fdirs st p" "fs_good os st \<Longrightarrow> \<forall>q. q \<noteq> p \<and> fnames st q \<noteq> fnames st p \<longrightarrow> file_content st' q = file_content st q"
proof -
  let ?st = "make_parent_dirs os st p"
  note k = make_parent_dirs_keeps [of os st p]
  have "writable os ?st p" using assms(1) unfolding writable_def file_content_def k .
  then obtain st' i where o: "open_write os True True ?st p = Some (st', i)"
    "\<And>off bs. file_content (write_at st' i off bs) p = Some (splice (old_content True ?st p) off bs)"
    "\<And>off bs. fdirs (write_at st' i off bs) = fdirs ?st"
    "\<And>off bs q. q \<noteq> p \<Longrightarrow> fnames ?st q \<noteq> fnames ?st p \<Longrightarrow> fs_good os ?st \<Longrightarrow> file_content (write_at st' i off bs) q = file_content ?st q"
    using open_and_write [of os ?st p True True] make_parent_dirs_ok [OF assms(2,3)] by metis
  have "lpp_write_file os st (Some p) (Some d) = (write_at st' i 0 (map char_byte d), 0)"
    using o(1) assms(4) by (simp add: lpp_write_file_def Let_def written_all)
  then show ?thesis
  proof (rule that)
    show "file_content (write_at st' i 0 (map char_byte d)) p = Some (map char_byte d)" by (simp add: o(2) old_content_def splice_0)
    show "fdirs (write_at st' i 0 (map char_byte d)) p \<longleftrightarrow> fdirs st p" by (simp add: o(3) k)
    show "\<forall>q. q \<noteq> p \<and> fnames st q \<noteq> fnames st p \<longrightarrow> file_content (write_at st' i 0 (map char_byte d)) q = file_content st q" if "fs_good os st"
      using that o(4) unfolding fs_good_def file_content_def k by blast
  qed
qed

lemma append_file_host:
  assumes "writable os st p" "fnames st p = None \<Longrightarrow> parent_ok st p" "room os (length d) \<ge> length d"
  obtains st' where "lpp_append_file os st (Some p) (Some d) = (st', 0)"
    "file_content st' p = Some (old_content False st p @ map char_byte d)" "fdirs st' = fdirs st"
proof -
  obtain st' i where o: "open_write os True False st p = Some (st', i)" "inode_len st' i = length (old_content False st p)"
    "\<And>off bs. file_content (write_at st' i off bs) p = Some (splice (old_content False st p) off bs)"
    "\<And>off bs. fdirs (write_at st' i off bs) = fdirs st"
    using open_and_write [of os st p True False] assms(1,2) by metis
  have "lpp_append_file os st (Some p) (Some d) = (write_at st' i (length (old_content False st p)) (map char_byte d), 0)"
    using o(1,2) assms(3) by (simp add: lpp_append_file_def Let_def written_all)
  then show ?thesis by (rule that) (simp_all add: o splice_end)
qed

lemma write_file_fs:
  assumes "writable os st p" "fnames st p = None \<Longrightarrow> parent_ok st p" "room os (length d) \<ge> length d"
  obtains st' where "lpp_write_file_fs os st (Some p) (Some d) = (st', 0)"
    "file_content st' p = Some (map char_byte d @ drop (length d) (old_content False st p))" "fdirs st' = fdirs st"
proof -
  obtain st' i where o: "open_write os True False st p = Some (st', i)"
    "\<And>off bs. file_content (write_at st' i off bs) p = Some (splice (old_content False st p) off bs)"
    "\<And>off bs. fdirs (write_at st' i off bs) = fdirs st"
    using open_and_write [of os st p True False] assms(1,2) by metis
  have "lpp_write_file_fs os st (Some p) (Some d) = (write_at st' i 0 (map char_byte d), 0)"
    using o(1) assms(3) by (simp add: lpp_write_file_fs_def sys_open_flags)
  then show ?thesis by (rule that) (simp_all add: o splice_0)
qed

section \<open>Copies\<close>

lemma copy_loop_all:
  assumes "\<And>n. room os n \<ge> n"
  shows "copy_loop os rest out = (out @ rest, False)"
  using assms
proof (induction os rest out rule: copy_loop.induct)
  case (1 os rest out)
  show ?case
  proof (cases "length rest < 8192")
    case True
    then show ?thesis using 1(2) by (subst copy_loop.simps) (auto simp: Let_def written_all)
  next
    case False
    then have "copy_loop os (drop 8192 rest) (out @ take 8192 rest) = ((out @ take 8192 rest) @ drop 8192 rest, False)"
      using 1(2) by (intro 1(1)) (auto simp: written_all)
    then show ?thesis using False 1(2) by (subst copy_loop.simps) (auto simp: Let_def written_all)
  qed
qed

lemma write_at_nil [simp]: "write_at st i 0 [] = st"
  by (cases st) (auto simp: write_at_def splice_def fun_upd_idem split: option.splits inode.splits)

lemma open_read_content: "open_read os st s = Some (Reg c) \<Longrightarrow> file_content st s = Some c \<and> \<not> denied os s \<and> \<not> fdirs st s"
  by (auto simp: open_read_def file_content_def split: if_splits option.splits)

lemma copy_file:
  assumes "open_read os st s = Some (Reg c)" "writable os st d" "fnames st d = None \<Longrightarrow> parent_ok st d" "\<And>n. room os n \<ge> n"
    "fs_good os st" "d = s \<or> fnames st d \<noteq> fnames st s"
  obtains st' where "lpp_file_copy os st (Some s) (Some d) = Inr (st', 0)" "file_content st' d = Some (if d = s then [] else c)"
    "d \<noteq> s \<Longrightarrow> file_content st' s = Some c"
proof -
  note r = open_read_content [OF assms(1)]
  obtain st' i where o: "open_write os True True st d = Some (st', i)"
    "\<And>off bs. file_content (write_at st' i off bs) d = Some (splice (old_content True st d) off bs)"
    "\<And>off bs. fdirs (write_at st' i off bs) = fdirs st"
    "\<And>off bs q. q \<noteq> d \<Longrightarrow> fnames st q \<noteq> fnames st d \<Longrightarrow> fs_good os st \<Longrightarrow> file_content (write_at st' i off bs) q = file_content st q"
    using open_and_write [of os st d True True] assms(2,3) by metis
  have f: "file_content st' d = Some []" "fdirs st' = fdirs st" "d \<noteq> s \<Longrightarrow> file_content st' s = Some c"
    using o(2,3) [of 0 "[]"] o(4) [of s 0 "[]"] assms(5,6) r by (auto simp: splice_0 old_content_def)
  let ?c = "if d = s then [] else c"
  have "file_content st' s = Some ?c" using f by auto
  then have "open_read os st' s = Some (Reg ?c)" using r f(2) by (intro read_content) auto
  then have "lpp_file_copy os st (Some s) (Some d) = Inr (write_at st' i 0 ?c, 0)"
    using o(1) assms(1,4) by (simp add: lpp_file_copy_def copy_loop_all)
  then show ?thesis
  proof (rule that)
    show "file_content (write_at st' i 0 ?c) d = Some ?c" by (simp add: o(2) old_content_def splice_0)
    show "file_content (write_at st' i 0 ?c) s = Some c" if "d \<noteq> s" using that o(4) [of s] assms(5,6) r by auto
  qed
qed

section \<open>Properties\<close>

text \<open>C13: What is written to a file is read back. When the system lets the path be written, \<open>lpp_write_file\<close> makes the directories in front of it, succeeds, and replaces
  the content: reading, asking for the size and asking for existence all see exactly the data, appending adds behind it, and no file with another inode changes.\<close>

theorem lpp_file_roundtrip:
  assumes "fs_good os st" "writable os st p" "length p \<le> 1023" "\<And>n. room os n \<ge> n" "\<And>n. \<not> oom n"
    "\<And>d. d \<in> set (dir_prefixes p) \<Longrightarrow> \<not> denied os d \<and> fnames st d = None"
  shows "\<exists>st'. lpp_write_file os st (Some p) (Some d) = (st', 0) \<and> lpp_read_file oom os st' (Some p) = Inr (Some (map char_byte d)) \<and>
    lpp_file_size os st' (Some p) = int (length d) \<and> lpp_file_exists os st' (Some p) = 1 \<and>
    (\<forall>q. q \<noteq> p \<and> fnames st q \<noteq> fnames st p \<longrightarrow> file_content st' q = file_content st q) \<and>
    (\<exists>st''. lpp_append_file os st' (Some p) (Some e) = (st'', 0) \<and> lpp_read_file oom os st'' (Some p) = Inr (Some (map char_byte (d @ e))))"
proof -
  have w: "\<not> denied os p" "\<not> fdirs st p" using assms(2) by (auto simp: writable_def)
  obtain st' where o: "lpp_write_file os st (Some p) (Some d) = (st', 0)" "file_content st' p = Some (map char_byte d)"
    "fdirs st' p \<longleftrightarrow> fdirs st p" "\<forall>q. q \<noteq> p \<and> fnames st q \<noteq> fnames st p \<longrightarrow> file_content st' q = file_content st q"
    using write_file_host [OF assms(2,6,3), of d] assms(1,4) by metis
  have n: "fnames st' p \<noteq> None" using o(2) by (auto simp: file_content_def split: option.splits)
  have "writable os st' p" using w o(2,3) by (simp add: writable_def)
  then obtain st'' where a: "lpp_append_file os st' (Some p) (Some e) = (st'', 0)"
    "file_content st'' p = Some (old_content False st' p @ map char_byte e)" "fdirs st'' = fdirs st'"
    using append_file_host [of os st' p e] assms(4) n by metis
  have "file_content st'' p = Some (map char_byte (d @ e))" using a(2) o(2) by (simp add: old_content_def)
  then have r: "lpp_read_file oom os st'' (Some p) = Inr (Some (map char_byte (d @ e)))"
    using w o(3) a(3) assms(5) by (intro read_content) auto
  have d: "\<not> fdirs st' p" using w(2) o(3) by simp
  show ?thesis using o(1,4) a(1) r read_content [OF o(2) w(1) d] assms(5) by auto
qed

theorem lpp_file_roundtrip_witness:
  "\<exists>st'. lpp_write_file \<lparr>denied = (\<lambda>_. False), room = (\<lambda>n. n), new_ino = 7, new_fd = 3\<rparr>
       \<lparr>fnames = Map.empty, inodes = Map.empty, fdirs = (\<lambda>_. False), fds = Map.empty\<rparr> (Some ''a/b'') (Some ''xy'') = (st', 0) \<and>
     lpp_file_size \<lparr>denied = (\<lambda>_. False), room = (\<lambda>n. n), new_ino = 7, new_fd = 3\<rparr> st' (Some ''a/b'') = 2"
  using lpp_file_roundtrip [of "\<lparr>denied = (\<lambda>_. False), room = (\<lambda>n. n), new_ino = 7, new_fd = 3\<rparr>"
      "\<lparr>fnames = Map.empty, inodes = Map.empty, fdirs = (\<lambda>_. False), fds = Map.empty\<rparr>" "''a/b''" "\<lambda>_. False" "''xy''" "[]"]
  by (auto simp: fs_good_def writable_def)

text \<open>The freestanding file builtins differ from the host's. Writing over an existing file leaves the old bytes behind the new ones (\<open>O_TRUNC\<close> is not among the flags),
  where the host replaces the content; appending to a file that does not exist fails (\<open>O_CREAT\<close> is not among the flags), where the host creates it. Both report the write as a success.\<close>

theorem lpp_write_file_fs_keeps_tail:
  assumes "fs_good os st" "file_content st p = Some c" "\<not> denied os p" "\<not> fdirs st p" "length p \<le> 1023" "\<And>n. room os n \<ge> n"
    "\<And>d. d \<in> set (dir_prefixes p) \<Longrightarrow> \<not> denied os d \<and> fnames st d = None"
    and "fnames st q = None" "parent_ok st q" "\<not> denied os q" "\<not> fdirs st q"
  shows "(\<exists>st'. lpp_write_file_fs os st (Some p) (Some d) = (st', 0) \<and> file_content st' p = Some (map char_byte d @ drop (length d) c)) \<and>
    (\<exists>st'. lpp_write_file os st (Some p) (Some d) = (st', 0) \<and> file_content st' p = Some (map char_byte d)) \<and>
    lpp_append_file_fs os st (Some q) (Some d) = (st, - 1) \<and>
    (\<exists>st'. lpp_append_file os st (Some q) (Some d) = (st', 0) \<and> file_content st' q = Some (map char_byte d))"
proof (intro conjI)
  have w: "writable os st p" "fnames st p \<noteq> None" "writable os st q"
    using assms(2-4,8,10,11) by (auto simp: writable_def file_content_def split: option.splits)
  show "\<exists>st'. lpp_write_file_fs os st (Some p) (Some d) = (st', 0) \<and> file_content st' p = Some (map char_byte d @ drop (length d) c)"
    using write_file_fs [OF w(1), of d] w(2) assms(2,6) by (metis old_content_def option.simps(5))
  show "\<exists>st'. lpp_write_file os st (Some p) (Some d) = (st', 0) \<and> file_content st' p = Some (map char_byte d)"
    using write_file_host [OF w(1) assms(7,5), of d] assms(6) by metis
  show "lpp_append_file_fs os st (Some q) (Some d) = (st, - 1)"
    using assms(8,10,11) by (simp add: lpp_append_file_fs_def sys_open_flags open_write_def)
  have "old_content False st q = []" using assms(8) by (simp add: old_content_def file_content_def)
  then show "\<exists>st'. lpp_append_file os st (Some q) (Some d) = (st', 0) \<and> file_content st' q = Some (map char_byte d)"
    using append_file_host [OF w(3) assms(9,6)] by (metis append_Nil)
qed

theorem lpp_write_file_fs_keeps_tail_witness:
  "\<exists>st'. lpp_write_file_fs \<lparr>denied = (\<lambda>_. False), room = (\<lambda>n. n), new_ino = 7, new_fd = 3\<rparr>
       \<lparr>fnames = [''f'' \<mapsto> 1], inodes = [1 \<mapsto> Reg [1, 2, 3]], fdirs = (\<lambda>_. False), fds = Map.empty\<rparr> (Some ''f'') (Some ''x'') = (st', 0) \<and>
     file_content st' ''f'' = Some [char_byte CHR ''x'', 2, 3]"
  using lpp_write_file_fs_keeps_tail [of "\<lparr>denied = (\<lambda>_. False), room = (\<lambda>n. n), new_ino = 7, new_fd = 3\<rparr>"
      "\<lparr>fnames = [''f'' \<mapsto> 1], inodes = [1 \<mapsto> Reg [1, 2, 3]], fdirs = (\<lambda>_. False), fds = Map.empty\<rparr>" "''f''" "[1, 2, 3]" "''g''" "''x''"]
  by (simp add: fs_good_def file_content_def dir_prefixes_def parent_ok_def dir_of_def)

text \<open>Copying a file. When the system takes every byte, the copy has the content of the source and the source keeps its own; copying a file onto itself reports success and leaves
  it empty, because the destination is truncated before the first byte is read.\<close>

theorem lpp_file_copy_content:
  assumes "open_read os st s = Some (Reg c)" "writable os st d" "fnames st d = None \<Longrightarrow> parent_ok st d" "\<And>n. room os n \<ge> n" "fs_good os st"
    "d = s \<or> fnames st d \<noteq> fnames st s"
  shows "\<exists>st'. lpp_file_copy os st (Some s) (Some d) = Inr (st', 0) \<and> file_content st' d = Some (if d = s then [] else c) \<and>
    (d \<noteq> s \<longrightarrow> file_content st' s = Some c)"
  using copy_file [OF assms] by metis

theorem lpp_file_copy_content_witness:
  "\<exists>st'. lpp_file_copy \<lparr>denied = (\<lambda>_. False), room = (\<lambda>n. n), new_ino = 7, new_fd = 3\<rparr>
       \<lparr>fnames = [''f'' \<mapsto> 1], inodes = [1 \<mapsto> Reg [1, 2, 3]], fdirs = (\<lambda>_. False), fds = Map.empty\<rparr> (Some ''f'') (Some ''f'') = Inr (st', 0) \<and>
     file_content st' ''f'' = Some []"
  using lpp_file_copy_content [of "\<lparr>denied = (\<lambda>_. False), room = (\<lambda>n. n), new_ino = 7, new_fd = 3\<rparr>"
      "\<lparr>fnames = [''f'' \<mapsto> 1], inodes = [1 \<mapsto> Reg [1, 2, 3]], fdirs = (\<lambda>_. False), fds = Map.empty\<rparr>" "''f''" "[1, 2, 3]" "''f''"]
  by (simp add: fs_good_def file_content_def open_read_def writable_def)

section \<open>Positional I/O\<close>

lemma block_of_block: "block_of (enc64le n @ bs) = \<lparr>bsize = n, bdata = bs\<rparr>"
  by (simp add: block_of_def dec64le_enc64le)

lemma pwrite_bytes:
  assumes "fds st fd = Some i" "inodes st i = Some (Reg c)" "0 < fd" "h p = Some b" "p \<noteq> 0" "buf_ok b" "8 \<le> sint (bsize b)"
    "sint (bsize b) \<le> sint front" "0 \<le> sint off" "\<And>n. room os n \<ge> n"
  shows "lpp_file_pwrite front os st h fd p 0 off (bsize b) =
    Inr (write_at st i (nat (sint off)) (enc64le (bsize b) @ take (nat (sint (bsize b)) - 8) (bdata b)), sint (bsize b))"
proof -
  let ?n = "nat (sint (bsize b))"
  have l: "length (bdata b) = ?n" "8 \<le> ?n" using assms(6,7) by (auto simp: buf_ok_def)
  have "load_bytes (block_bytes b) 0 ?n = Inr (take ?n (block_bytes b))"
    using load_bytes_in [of 0 ?n "block_bytes b"] l by (simp add: block_bytes_def)
  moreover have "take ?n (block_bytes b) = enc64le (bsize b) @ take (?n - 8) (bdata b)" using l by (simp add: block_bytes_def)
  moreover have "enc64le (bsize b) \<noteq> []" by (metis enc_lengths(3) list.size(3) zero_neq_numeral)
  ultimately show ?thesis using assms l by (simp add: lpp_file_pwrite_def written_all)
qed

lemma splice_read: "off \<le> length c \<Longrightarrow> take (length bs) (drop off (splice c off bs)) = bs"
  by (simp add: splice_def)



section \<open>Reading never overruns its block\<close>

lemma lpp_read_file_total: "\<exists>r. lpp_read_file oom os st path = Inr r"
  using read_loop_safe [of 4096 "[]" oom] by (auto simp: lpp_read_file_def split: option.splits inode.splits)

lemma lpp_read_file_stream:
  assumes "open_read os st p = Some (Stream c)" "\<And>n. \<not> oom n" "2 * int (length c) + 4096 \<le> INT64_MAX div 2"
  shows "lpp_read_file oom os st (Some p) = Inr (Some c)"
  using assms read_loop_all [of 4096 "[]" oom c] by (simp add: lpp_read_file_def)

lemma lpp_buf_file_roundtrip:
  assumes "writable os st p" "fnames st p = None \<Longrightarrow> parent_ok st p" "\<And>n. room os n \<ge> n" "h x = Some b" "x \<noteq> 0" "buf_ok b"
    "calloc (8 + bsize b) = y" "y \<noteq> 0"
  shows "\<exists>st' h'. lpp_buf_write os st h (Some p) x = Inr (st', 0) \<and> lpp_buf_read calloc os st' h (Some p) = (y, h') \<and> h' y = Some b"
proof -
  obtain st' i where o: "open_write os True True st p = Some (st', i)"
    "\<And>off bs. file_content (write_at st' i off bs) p = Some (splice (old_content True st p) off bs)"
    "\<And>off bs. fdirs (write_at st' i off bs) = fdirs st"
    using open_and_write [of os st p True True] assms(1,2) by metis
  have n: "unat (bsize b) = length (bdata b)" using assms(6) by (simp add: buf_ok_def unat_eq_sint_64)
  then have "load_bytes (bdata b) 0 (unat (bsize b)) = Inr (bdata b)" using load_bytes_in [of 0 "length (bdata b)" "bdata b"] by simp
  then have w: "lpp_buf_write os st h (Some p) x = Inr (write_at st' i 0 (bdata b), 0)"
    using o(1) assms(3-5) by (simp add: lpp_buf_write_def written_all)
  have "open_read os (write_at st' i 0 (bdata b)) p = Some (Reg (bdata b))"
    using assms(1) o(2,3) by (intro read_content) (auto simp: writable_def old_content_def splice_0)
  moreover have "(of_nat (length (bdata b)) :: i64) = bsize b" unfolding n [symmetric] by simp
  moreover have "\<not> sint (bsize b) < 0" using assms(6) by (simp add: buf_ok_def)
  ultimately have "lpp_buf_read calloc os (write_at st' i 0 (bdata b)) h (Some p) = (y, h(y \<mapsto> \<lparr>bsize = bsize b, bdata = bdata b\<rparr>))"
    using assms(7,8) by (simp add: lpp_buf_read_def lpp_buf_alloc_def)
  moreover have "\<lparr>bsize = bsize b, bdata = bdata b\<rparr> = b" by (cases b) simp
  ultimately show ?thesis using w by auto
qed

end
