(* ===== verification/Lpp_Owned.thy ===== *)
theory Lpp_Owned
  imports Lpp_List Lpp_Arc
begin

text \<open>
  Containers on the object heap: the \<open>Retain\<close> and \<open>Release\<close> events of an owning list carried out as calls of \<open>lpp_arc_retain\<close> and
  \<open>lpp_arc_release\<close>. As long as the caller holds the values it stores, every call succeeds, and the references of the program are at every moment the
  caller's, the elements of the list and the values it handed out.
\<close>

section \<open>Lists on the reference-counted heap\<close>

text \<open>The events of a container are calls: \<open>lpp_arc_retain\<close> and \<open>lpp_arc_release\<close> on the object heap, in order.\<close>

fun run_events :: "nat \<Rightarrow> arc_state \<Rightarrow> arc_ev list \<Rightarrow> arc_state res" where
  "run_events n st [] = Inr st"
| "run_events n st (Retain p # evs) = bind_res (lpp_arc_retain st p) (\<lambda>st. run_events n st evs)"
| "run_events n st (Release p # evs) = bind_res (lpp_arc_release n st p) (\<lambda>st. run_events n st evs)"

lemma retain_held:
  assumes "arc_reachable (st, R)" "p \<in># R" "enough_fuel n st"
  obtains st' where "lpp_arc_retain st p = Inr st'" "arc_reachable (st', add_mset p R)" "enough_fuel n st'"
proof -
  have inv: "rc_inv st R" using assms(1) by (rule reachable_inv)
  have "\<exists>st'. lpp_arc_retain st p = Inr st' \<and> (\<forall>q. live st' q = live st q)"
  proof (cases "arc_addr p")
    case True
    then obtain obj where o: "heap st p = Some obj" "live_obj obj" using rc_invD(4) [OF inv] assms(2) by (auto simp: ref_ok_def live_def)
    then show ?thesis using valid_arc_ptr_live [OF o True]
      by (auto simp: lpp_arc_retain_def get_obj_def set_obj_def live_def live_obj_def)
  next
    case False
    then show ?thesis by (simp add: lpp_arc_retain_def valid_arc_ptr_other)
  qed
  then obtain st' where s: "lpp_arc_retain st p = Inr st'" "\<forall>q. live st' q = live st q" by blast
  have "arc_step (st, R) (st', add_mset p R)" using s(1) assms(2) by (intro arc_step.Retain) auto
  then have "arc_reachable (st', add_mset p R)" using assms(1) unfolding arc_reachable_def by (meson rtranclp.rtrancl_into_rtrancl)
  then show thesis using s(2) assms(3) by (intro that [OF s(1)]) (auto simp: enough_fuel_def)
qed

lemma release_held:
  assumes "arc_reachable (st, add_mset p R)" "enough_fuel n st"
  obtains st' where "lpp_arc_release n st p = Inr st'" "arc_reachable (st', R)" "enough_fuel n st'"
proof -
  have inv: "rc_inv st (add_mset p R)" using assms(1) by (rule reachable_inv)
  obtain st' where s: "lpp_arc_release n st p = Inr st'" "shrinks st st'"
    using releasesD [OF release_ok inv] assms(2) by (auto simp: enough_fuel_def)
  have "arc_step (st, add_mset p R) (st', R)" by (rule arc_step.Release [OF assms(2) s(1)])
  then have "arc_reachable (st', R)" using assms(1) unfolding arc_reachable_def by (meson rtranclp.rtrancl_into_rtrancl)
  moreover have "enough_fuel n st'" using shrinks_card [OF s(2) rc_invD(1) [OF inv]] assms(2) by (simp add: enough_fuel_def)
  ultimately show thesis using that [OF s(1)] by blast
qed

text \<open>Events that retain only what the caller holds (\<open>R\<close>) and release only what the container owned before (\<open>S\<close>) go well in any order.\<close>

lemma run_events_ok:
  assumes "arc_reachable (st, R + S + T)" "enough_fuel n st" "set_mset (retained evs) \<subseteq> set_mset R" "released evs \<subseteq># S"
  shows "\<exists>st'. run_events n st evs = Inr st' \<and> arc_reachable (st', R + (S - released evs) + (T + retained evs)) \<and> enough_fuel n st'"
  using assms
proof (induction evs arbitrary: st S T)
  case Nil
  then show ?case by simp
next
  case (Cons e evs)
  show ?case
  proof (cases e)
    case (Retain p)
    then have "p \<in># R + S + T" using Cons.prems(3) by auto
    from retain_held [OF Cons.prems(1) this Cons.prems(2)] obtain s where s: "lpp_arc_retain st p = Inr s"
      "arc_reachable (s, R + S + add_mset p T)" "enough_fuel n s" by auto
    from Cons.IH [OF s(2,3)] Cons.prems(3,4) Retain s(1) show ?thesis by simp
  next
    case (Release p)
    then obtain S' where S: "S = add_mset p S'" using Cons.prems(4) by (metis insert_subset_eq_iff mset_subset_eq_insertD multi_member_split released.simps(3))
    from release_held [of st p "R + S' + T" n] Cons.prems(1,2) S obtain s where s: "lpp_arc_release n st p = Inr s"
      "arc_reachable (s, R + S' + T)" "enough_fuel n s" by auto
    from Cons.IH [OF s(2,3)] Cons.prems(3,4) Release s(1) S show ?thesis by (simp add: insert_subset_eq_iff)
  qed
qed

lemma run_events_append: "run_events n st (a @ b) = bind_res (run_events n st a) (\<lambda>st. run_events n st b)"
  by (induction n st a rule: run_events.induct) (simp_all add: bind_res_assoc)

text \<open>The values a call is given to store.\<close>

fun op_vals :: "list_op \<Rightarrow> i64 list" where
  "op_vals (Push v) = [v]"
| "op_vals (Set i v) = [v]"
| "op_vals (Insert i v) = [v]"
| "op_vals (Extend s) = abs_list s"
| "op_vals op = []"

lemma arcs_nth_subset: "i < length vs \<Longrightarrow> arcs [vs ! i] \<subseteq># arcs vs"
  using arcs_remove [of i vs] by (metis mset_subset_eq_add_right)

lemma arcs_drop_subset: "arcs (drop n vs) \<subseteq># arcs vs"
  using arcs_simps(3) [of "take n vs" "drop n vs"] by (metis append_take_drop_id mset_subset_eq_add_right)

lemma keep_live_events: "keep_live r = Inr (l', evs, out) \<Longrightarrow> evs = []"
  by (cases r) (auto simp: keep_live_def split: option.splits)

lemma quiet_op_events:
  assumes "run_op oom junk op l = Inr (l', evs, out)" "op \<in> {Pop, Reverse, Sort, SortDesc, SortU} \<or> (\<exists>i. op = Remove i) \<or> (\<exists>c. op = Reserve c) \<or> (\<exists>i j. op = Swap i j)"
  shows "evs = []" "op_vals op = []"
  using assms by (elim disjE exE insertE emptyE; auto dest: keep_live_events)+

text \<open>What an operation of an owning list retains and releases.\<close>

lemma op_events:
  assumes "list_ok l" "big_oom oom" "op_ok op" "retain_element l" "run_op oom junk op l = Inr (l', evs, out)"
  shows "retained evs = arcs (op_vals op) \<and> released evs \<subseteq># arcs (abs_list l)"
proof (cases op)
  case (Push v)
  then show ?thesis using list_push_cases [OF assms(1,2), of junk v] assms(4,5)
    by (auto simp: is_panic_def call_events simp del: arcs_simps)
next
  case (Set i v)
  then have i: "0 \<le> i" "i < llen l" using assms(5) by (auto simp: lpp_list_set_def split: if_splits)
  then have n: "nat i < length (abs_list l)" using length_abs_list [OF assms(1)] by linarith
  show ?thesis using list_set_ok [OF assms(1) i, of v] Set assms(4,5) list_ok_flags [OF assms(1)] arcs_nth_subset [OF n]
    by (auto simp: call_events simp del: arcs_simps)
next
  case (Insert i v)
  then have "0 \<le> i" "i \<le> llen l" using assms(5) by (auto simp: lpp_list_insert_def split: if_splits)
  then show ?thesis using list_insert_cases [OF assms(1,2), of i junk v] Insert assms(4,5)
    by (auto simp: is_panic_def call_events simp del: arcs_simps)
next
  case Clear
  then show ?thesis using list_clear_ok [OF assms(1)] assms(4,5) list_ok_flags [OF assms(1)] by (auto simp: calls_events)
next
  case (Truncate n)
  then show ?thesis using list_truncate_ok [OF assms(1), of n] assms(4,5) list_ok_flags [OF assms(1)] arcs_drop_subset
    by (cases "0 \<le> n \<and> n < llen l") (auto simp: calls_events lpp_list_truncate_def split: if_splits)
next
  case (Extend s)
  then show ?thesis using list_extend_cases [OF assms(1) _ assms(2), of s junk] assms(3-5)
    by (auto simp: is_panic_def calls_events)
qed (use quiet_op_events [OF assms(5)] in simp_all)

lemma run_op_heap:
  assumes "list_ok l" "big_oom oom" "op_ok op" "retain_element l" "run_op oom junk op l = Inr (l', evs, out)"
    and "arc_reachable (st, R + arcs (abs_list l) + T)" "enough_fuel n st" "set_mset (arcs (op_vals op)) \<subseteq> set_mset R"
  shows "\<exists>st'. run_events n st evs = Inr st' \<and> arc_reachable (st', R + arcs (abs_list l') + (T + arcs out)) \<and> enough_fuel n st' \<and>
    list_ok l' \<and> retain_element l'"
proof -
  note e = op_events [OF assms(1-5)]
  have s: "step_ok l l' evs out" using run_op_refines [OF assms(1-3), of junk] assms(5)
    by (auto simp: refines_def is_panic_def split: option.splits)
  have "arcs (abs_list l') + arcs out + released evs = arcs (abs_list l) + retained evs"
    using s assms(4) by (simp add: step_ok_def ac_simps)
  then have "arcs (abs_list l') + arcs out = arcs (abs_list l) - released evs + retained evs"
    using e by (metis add_diff_cancel_right' multiset_diff_union_assoc add.commute)
  then have m: "R + (arcs (abs_list l) - released evs) + (T + retained evs) = R + arcs (abs_list l') + (T + arcs out)"
    by (metis (no_types, lifting) add.assoc add.commute)
  show ?thesis using run_events_ok [OF assms(6,7), of evs] e assms(4,8) s unfolding m by (auto simp: step_ok_def)
qed

lemma run_ops_heap:
  assumes "list_ok l" "big_oom oom" "list_all op_ok ops" "retain_element l" "run_ops oom junk ops l = Inr (l', evs, out)"
    and "arc_reachable (st, R + arcs (abs_list l) + T)" "enough_fuel n st" "\<forall>op \<in> set ops. set_mset (arcs (op_vals op)) \<subseteq> set_mset R"
  shows "\<exists>st'. run_events n st evs = Inr st' \<and> arc_reachable (st', R + arcs (abs_list l') + (T + arcs out)) \<and> enough_fuel n st' \<and>
    list_ok l' \<and> retain_element l'"
  using assms
proof (induction ops arbitrary: l st T evs out)
  case (Cons op ops)
  from Cons.prems(5) obtain m e1 o1 e2 o2 where r: "run_op oom junk op l = Inr (m, e1, o1)" "run_ops oom junk ops m = Inr (l', e2, o2)"
    "evs = e1 @ e2" "out = o1 @ o2" by auto
  from run_op_heap [OF Cons.prems(1,2) _ Cons.prems(4) r(1) Cons.prems(6,7)] Cons.prems(3,8)
  obtain s where s: "run_events n st e1 = Inr s" "arc_reachable (s, R + arcs (abs_list m) + (T + arcs o1))" "enough_fuel n s"
    "list_ok m" "retain_element m" by auto
  from Cons.IH [OF s(4) Cons.prems(2) _ s(5) r(2) s(2,3)] Cons.prems(3,8)
  show ?case using s(1) r(3,4) by (auto simp: run_events_append ac_simps)
qed auto

lemma destroy_events:
  assumes "list_ok l" "retain_element l"
  shows "\<exists>lp evs. lpp_list_destroy (Some l) = Inr (lp, evs) \<and> retained evs = {#} \<and> released evs = arcs (abs_list l)"
  using drop_from_ok [OF assms(1), of 0] list_ok_flags [OF assms(1)] assms(2) by (auto simp: lpp_list_destroy_def calls_events)

lemma held_elements_live:
  assumes "arc_reachable (st, R + arcs vs + T)" "v \<in> set vs" "arc_addr v"
  shows "live st v"
proof -
  have "is_arc_ptr v" using assms(3) by (auto simp: is_arc_ptr_def arc_addr_def not_less intro: order_trans [rotated])
  then have "v \<in># R + arcs vs + T" using assms(2) by (simp add: arcs_def)
  then show ?thesis using rc_invD(4) [OF reachable_inv [OF assms(1)]] assms(3) by (auto simp: ref_ok_def)
qed

end
