(* ===== verification/Lpp_Net.thy ===== *)
theory Lpp_Net
  imports Lpp_Str
begin

text \<open>
  Sockets and the HTTP client of \<^verbatim>\<open>runtime/lpp_runtime.c\<close> (POSIX branches) and the sockets of the freestanding \<^verbatim>\<open>runtime/linux_x86_64_min.c\<close> (suffix \<open>_fs\<close>). Host programs hold handles:
  positions of a table of 256 descriptors; freestanding programs hold the descriptors. The answers of the system are arguments: the addresses of a host with the descriptor \<open>socket\<close> returns
  for each and whether \<open>connect\<close> succeeds, whether binding and setting an option succeed, how many bytes a \<open>send\<close> takes, which bytes a \<open>recv\<close> delivers. The state is the table, the open
  descriptors, their options and the bytes sent on each. What the clients need of the table is the locale \<open>handle_table\<close>.
\<close>

section \<open>The socket table\<close>

datatype sockopt = SO_RCVTIMEO | SO_SNDTIMEO | SO_KEEPALIVE

datatype optval = Timeval int int | Flag int

record net =
  socket_table :: "int list"
  fdopen :: "int \<Rightarrow> bool"
  sent_on :: "int \<Rightarrow> string"
  sockopts :: "int \<Rightarrow> sockopt \<Rightarrow> optval option"
  fdflags :: "int \<Rightarrow> u32"

abbreviation LPP_INVALID_SOCKET :: int where
  "LPP_INVALID_SOCKET \<equiv> - 1"

function store_loop :: "int list \<Rightarrow> int \<Rightarrow> nat \<Rightarrow> int list \<times> int" where
  "store_loop tab sock i = (if i < 256 then if tab ! i = 0 \<or> tab ! i = LPP_INVALID_SOCKET then (tab[i := sock], int i + 1)
     else store_loop tab sock (i + 1) else (tab, 0))"
  by pat_completeness auto
termination by (relation "measure (\<lambda>(_, _, i). 256 - i)") auto

declare store_loop.simps [simp del]

definition lpp_socket_store :: "net \<Rightarrow> int \<Rightarrow> net \<times> int" where
  "lpp_socket_store n sock = (let (tab, handle) = store_loop (socket_table n) sock 0 in (n\<lparr>socket_table := tab\<rparr>, handle))"

definition lpp_socket_load :: "net \<Rightarrow> int \<Rightarrow> int" where
  "lpp_socket_load n handle = (if handle \<le> 0 \<or> handle > 256 then LPP_INVALID_SOCKET else socket_table n ! nat (handle - 1))"

definition lpp_socket_clear :: "net \<Rightarrow> int \<Rightarrow> net" where
  "lpp_socket_clear n handle = (if handle > 0 \<and> handle \<le> 256 then n\<lparr>socket_table := (socket_table n)[nat (handle - 1) := 0]\<rparr> else n)"

text \<open>A new descriptor starts blocking, without options and with nothing sent.\<close>

definition open_fd :: "net \<Rightarrow> int \<Rightarrow> net" where
  "open_fd n s = n\<lparr>fdopen := (fdopen n)(s := True), sent_on := (sent_on n)(s := []), sockopts := (sockopts n)(s := \<lambda>_. None), fdflags := (fdflags n)(s := 2)\<rparr>"

definition close_fd :: "net \<Rightarrow> int \<Rightarrow> net" where
  "close_fd n s = n\<lparr>fdopen := (fdopen n)(s := False)\<rparr>"

section \<open>Options\<close>

text \<open>\<open>optok s o\<close> is whether \<open>setsockopt\<close> succeeds. Division in C truncates.\<close>

definition setsockopt :: "(int \<Rightarrow> sockopt \<Rightarrow> bool) \<Rightarrow> net \<Rightarrow> int \<Rightarrow> sockopt \<Rightarrow> optval \<Rightarrow> net \<times> bool" where
  "setsockopt optok n sock opt v = (if optok sock opt then (n\<lparr>sockopts := (sockopts n)(sock := (sockopts n sock)(opt := Some v))\<rparr>, True) else (n, False))"

definition tv_pair :: "int \<Rightarrow> int \<times> int" where
  "tv_pair ms = (sgn ms * (\<bar>ms\<bar> div 1000), sgn ms * (\<bar>ms\<bar> mod 1000) * 1000)"

definition timeval :: "int \<Rightarrow> optval" where
  "timeval ms = (case tv_pair ms of (s, us) \<Rightarrow> Timeval s us)"

definition lpp_net_set_timeout :: "(int \<Rightarrow> sockopt \<Rightarrow> bool) \<Rightarrow> net \<Rightarrow> int \<Rightarrow> int \<Rightarrow> net \<times> int" where
  "lpp_net_set_timeout optok n handle milliseconds = (let sock = lpp_socket_load n handle
     in if sock = LPP_INVALID_SOCKET \<or> milliseconds \<le> 0 then (n, 0)
        else let (n, ok) = setsockopt optok n sock SO_RCVTIMEO (timeval milliseconds)
             in if \<not> ok then (n, 0) else let (n, ok) = setsockopt optok n sock SO_SNDTIMEO (timeval milliseconds) in (n, of_bool ok))"

abbreviation O_NONBLOCK :: u32 where
  "O_NONBLOCK \<equiv> 0x800"

text \<open>\<open>F_GETFL\<close> fails for a closed descriptor; \<open>setfl\<close> is whether \<open>F_SETFL\<close> succeeds.\<close>

definition lpp_net_set_nonblocking :: "bool \<Rightarrow> net \<Rightarrow> int \<Rightarrow> i64 \<Rightarrow> net \<times> int" where
  "lpp_net_set_nonblocking setfl n handle enable = (let sock = lpp_socket_load n handle
     in if sock = LPP_INVALID_SOCKET \<or> \<not> fdopen n sock then (n, 0)
        else let flags = fdflags n sock; flags = (if enable \<noteq> 0 then flags OR O_NONBLOCK else flags AND NOT O_NONBLOCK)
             in if setfl then (n\<lparr>fdflags := (fdflags n)(sock := flags)\<rparr>, 1) else (n, 0))"

text \<open>An \<open>fd_set\<close> has 1024 bits; \<open>FD_SET\<close> does not check.\<close>

definition lpp_net_poll :: "(int \<Rightarrow> int \<times> int \<Rightarrow> int) \<Rightarrow> net \<Rightarrow> int \<Rightarrow> int \<Rightarrow> int res" where
  "lpp_net_poll select n handle timeout_ms = (let sock = lpp_socket_load n handle
     in if sock = LPP_INVALID_SOCKET then Inr 0
        else if sock \<ge> 1024 then Inl (Fault ''FD_SET outside the set'')
        else Inr (if select sock (tv_pair timeout_ms) > 0 then 1 else 0))"

definition lpp_net_set_deadline :: "(int \<Rightarrow> sockopt \<Rightarrow> bool) \<Rightarrow> net \<Rightarrow> int \<Rightarrow> int \<Rightarrow> int \<Rightarrow> net \<times> int" where
  "lpp_net_set_deadline optok n fd read_ms write_ms = (let sock = lpp_socket_load n fd
     in if sock = LPP_INVALID_SOCKET then (n, 0)
        else let (n, ok1) = (if read_ms \<ge> 0 then setsockopt optok n sock SO_RCVTIMEO (timeval read_ms) else (n, True));
                 (n, ok2) = (if write_ms \<ge> 0 then setsockopt optok n sock SO_SNDTIMEO (timeval write_ms) else (n, True))
             in (n, of_bool (ok1 \<and> ok2)))"

definition lpp_net_set_keepalive :: "(int \<Rightarrow> sockopt \<Rightarrow> bool) \<Rightarrow> net \<Rightarrow> int \<Rightarrow> i64 \<Rightarrow> net \<times> int" where
  "lpp_net_set_keepalive optok n fd enable = (let sock = lpp_socket_load n fd
     in if sock = LPP_INVALID_SOCKET then (n, 0)
        else let (n, ok) = setsockopt optok n sock SO_KEEPALIVE (Flag (if enable \<noteq> 0 then 1 else 0)) in (n, of_bool ok))"

section \<open>Connections\<close>

text \<open>\<open>addrs host service\<close> are the addresses \<open>getaddrinfo\<close> lists (\<open>None\<close> when it fails), each with the descriptor \<open>socket\<close> answers and whether \<open>connect\<close> succeeds.\<close>

type_synonym resolver = "string \<Rightarrow> string \<Rightarrow> (int \<times> bool) list option"

fun connect_loop :: "net \<Rightarrow> (int \<times> bool) list \<Rightarrow> net \<times> int" where
  "connect_loop n [] = (n, LPP_INVALID_SOCKET)"
| "connect_loop n ((sock, connected) # rp) =
     (if sock = LPP_INVALID_SOCKET then connect_loop n rp
      else let n = open_fd n sock in if connected then (n, sock) else connect_loop (close_fd n sock) rp)"

definition lpp_net_connect :: "resolver \<Rightarrow> net \<Rightarrow> cstr \<Rightarrow> int \<Rightarrow> net \<times> int" where
  "lpp_net_connect addrs n host port = (case host of None \<Rightarrow> (n, 0) | Some h \<Rightarrow> case addrs h (take 31 (print_int port)) of None \<Rightarrow> (n, 0) | Some rp \<Rightarrow>
       let (n, sock) = connect_loop n rp in if sock = LPP_INVALID_SOCKET then (n, 0) else lpp_socket_store n sock)"

definition lpp_net_dial :: "resolver \<Rightarrow> (int \<Rightarrow> sockopt \<Rightarrow> bool) \<Rightarrow> net \<Rightarrow> cstr \<Rightarrow> int \<Rightarrow> int \<Rightarrow> net \<times> int" where
  "lpp_net_dial addrs optok n host port timeout_ms = (case host of None \<Rightarrow> (n, 0) | Some h \<Rightarrow>
       if port < 1 \<or> port > 65535 then (n, 0) else case addrs h (take 31 (print_int port)) of None \<Rightarrow> (n, 0) | Some rp \<Rightarrow>
         let (n, sock) = connect_loop n rp
         in if sock = LPP_INVALID_SOCKET then (n, 0)
            else let (n, handle) = lpp_socket_store n sock
                 in (if timeout_ms > 0 then fst (lpp_net_set_timeout optok n handle timeout_ms) else n, handle))"

text \<open>\<open>lpp_net_dial_udp\<close> asks for datagram addresses, otherwise it is the same code.\<close>

definition lpp_net_dial_udp :: "resolver \<Rightarrow> (int \<Rightarrow> sockopt \<Rightarrow> bool) \<Rightarrow> net \<Rightarrow> cstr \<Rightarrow> int \<Rightarrow> int \<Rightarrow> net \<times> int" where
  "lpp_net_dial_udp udp_addrs optok n host port timeout_ms = (case host of None \<Rightarrow> (n, 0) | Some h \<Rightarrow>
       if port < 1 \<or> port > 65535 then (n, 0) else case udp_addrs h (take 31 (print_int port)) of None \<Rightarrow> (n, 0) | Some rp \<Rightarrow>
         let (n, sock) = connect_loop n rp
         in if sock = LPP_INVALID_SOCKET then (n, 0)
            else let (n, handle) = lpp_socket_store n sock
                 in (if timeout_ms > 0 then fst (lpp_net_set_timeout optok n handle timeout_ms) else n, handle))"

text \<open>The port is cut to 16 bits; \<open>bound\<close> is whether binding to it succeeds.\<close>

definition lpp_net_listen :: "int \<Rightarrow> (u16 \<Rightarrow> bool) \<Rightarrow> bool \<Rightarrow> net \<Rightarrow> i64 \<Rightarrow> net \<times> int" where
  "lpp_net_listen sock bound listening n port = (if sock = LPP_INVALID_SOCKET then (n, 0)
     else let n = open_fd n sock in if \<not> bound (ucast port) \<or> \<not> listening then (close_fd n sock, 0) else lpp_socket_store n sock)"

definition lpp_net_listen_udp :: "int \<Rightarrow> (u16 \<Rightarrow> bool) \<Rightarrow> net \<Rightarrow> i64 \<Rightarrow> net \<times> int" where
  "lpp_net_listen_udp sock bound n port = (if sock = LPP_INVALID_SOCKET then (n, 0)
     else let n = open_fd n sock in if \<not> bound (ucast port) then (close_fd n sock, 0) else lpp_socket_store n sock)"

definition lpp_net_accept :: "int \<Rightarrow> net \<Rightarrow> int \<Rightarrow> net \<times> int" where
  "lpp_net_accept client n listener = (if lpp_socket_load n listener = LPP_INVALID_SOCKET then (n, 0)
     else if client = LPP_INVALID_SOCKET then (n, 0) else lpp_socket_store (open_fd n client) client)"

definition lpp_net_accept_timeout :: "int \<Rightarrow> (int \<Rightarrow> sockopt \<Rightarrow> bool) \<Rightarrow> net \<Rightarrow> int \<Rightarrow> int \<Rightarrow> net \<times> int" where
  "lpp_net_accept_timeout client optok n listener timeout_ms = (let server = lpp_socket_load n listener
     in if server = LPP_INVALID_SOCKET then (n, 0)
        else let n = (if timeout_ms > 0 then fst (setsockopt optok n server SO_RCVTIMEO (timeval timeout_ms)) else n)
             in if client = LPP_INVALID_SOCKET then (n, 0) else lpp_socket_store (open_fd n client) client)"

definition lpp_net_close :: "net \<Rightarrow> int \<Rightarrow> net" where
  "lpp_net_close n handle = (let sock = lpp_socket_load n handle
     in if sock = LPP_INVALID_SOCKET then n else lpp_socket_clear (close_fd n sock) handle)"

section \<open>Sending and receiving\<close>

text \<open>\<open>send k m\<close> is what the system answers when \<open>k\<close> bytes have been sent and \<open>m\<close> are offered: how many it took, or an error. The loop returns the number of bytes sent and whether
  it reached the end.\<close>

function send_loop :: "(nat \<Rightarrow> nat \<Rightarrow> int) \<Rightarrow> nat \<Rightarrow> nat \<Rightarrow> nat \<times> bool" where
  "send_loop send len k = (if k < len
     then let s = send k (len - k) in if s \<le> 0 then (k, False) else send_loop send len (k + nat s)
     else (k, True))"
  by pat_completeness auto
termination by (relation "measure (\<lambda>(_, len, k). len - k)") auto

declare send_loop.simps [simp del]

definition put_sent :: "net \<Rightarrow> int \<Rightarrow> string \<Rightarrow> net" where
  "put_sent n s bytes = n\<lparr>sent_on := (sent_on n)(s := sent_on n s @ bytes)\<rparr>"

definition lpp_net_send_all :: "(nat \<Rightarrow> nat \<Rightarrow> int) \<Rightarrow> net \<Rightarrow> int \<Rightarrow> cstr \<Rightarrow> net \<times> int" where
  "lpp_net_send_all send n handle data = (let sock = lpp_socket_load n handle in case data of None \<Rightarrow> (n, - 1) | Some d \<Rightarrow>
       if sock = LPP_INVALID_SOCKET then (n, - 1)
       else let (k, complete) = send_loop send (length d) 0 in (put_sent n sock (take k d), if complete then int k else - 1))"

definition lpp_net_send :: "(nat \<Rightarrow> nat \<Rightarrow> int) \<Rightarrow> net \<Rightarrow> int \<Rightarrow> cstr \<Rightarrow> net \<times> int" where
  "lpp_net_send send n handle data = lpp_net_send_all send n handle data"

text \<open>\<open>int size = (int)max_bytes\<close>; a block of \<open>size + 1\<close> bytes behind its 24-byte header (a negative sum is an unsigned size that cannot be served or that does not hold the header), and
  a \<open>recv\<close> of \<open>(size_t)size\<close> bytes. The system delivers the waiting bytes, \<open>wire\<close>, at most \<open>0x7ffff000\<close> in one call; none when it fails.\<close>

definition recv_size :: "i64 \<Rightarrow> int" where
  "recv_size max_bytes = sint (ucast max_bytes :: u32)"

definition lpp_net_recv :: "(int \<Rightarrow> bool) \<Rightarrow> string \<Rightarrow> net \<Rightarrow> int \<Rightarrow> i64 \<Rightarrow> string option res" where
  "lpp_net_recv oom wire n handle max_bytes =
     (if lpp_socket_load n handle = LPP_INVALID_SOCKET \<or> sint max_bytes \<le> 0 then Inr (if oom 1 then None else Some [])
      else let sz = recv_size max_bytes
           in if sz + 1 < - 24 \<or> oom (sz + 1) then Inr None
              else if sz + 1 < 0 then Inl (Fault ''block smaller than its header'')
              else let got = take (nat (min (sz mod 2 ^ 64) 0x7ffff000)) wire
                   in if int (length got) > sz then Inl (Fault ''write past the block'') else Inr (Some got))"

definition lpp_net_recv_udp :: "(int \<Rightarrow> bool) \<Rightarrow> string \<Rightarrow> net \<Rightarrow> int \<Rightarrow> i64 \<Rightarrow> string option res" where
  "lpp_net_recv_udp oom wire n fd max_bytes = lpp_net_recv oom wire n fd max_bytes"

definition lpp_net_strdup_impl :: "(int \<Rightarrow> bool) \<Rightarrow> cstr \<Rightarrow> cstr" where
  "lpp_net_strdup_impl oom s = (case s of None \<Rightarrow> None | Some t \<Rightarrow> if oom (int (length t) + 1) then None else Some t)"

text \<open>\<open>ip\<close> is the text of the first address, empty without one.\<close>

definition lpp_net_resolve :: "(string \<Rightarrow> string option) \<Rightarrow> (int \<Rightarrow> bool) \<Rightarrow> cstr \<Rightarrow> cstr" where
  "lpp_net_resolve ip oom host = (case host of None \<Rightarrow> lpp_net_strdup_impl oom (Some []) | Some h \<Rightarrow>
       if h = [] then lpp_net_strdup_impl oom (Some [])
       else case ip h of None \<Rightarrow> lpp_net_strdup_impl oom (Some []) | Some t \<Rightarrow> lpp_net_strdup_impl oom (Some t))"

section \<open>The HTTP client\<close>

abbreviation crlf :: string where
  "crlf \<equiv> [CHR 0x0D, CHR 0x0A]"

text \<open>\<open>atoi\<close> is undefined outside the range of \<open>int\<close>.\<close>

definition atoi :: "string \<Rightarrow> int res" where
  "atoi s = (let v = strtoll s in if - (2 ^ 31) \<le> v \<and> v < 2 ^ 31 then Inr v else Inl (Fault ''atoi out of range''))"

text \<open>Host (at most 255 bytes), port and path behind \<^verbatim>\<open>http://\<close>.\<close>

definition http_host :: "string \<Rightarrow> string" where
  "http_host p = take 255 (takeWhile (\<lambda>c. c \<noteq> CHR '':'' \<and> c \<noteq> CHR ''/'') p)"

definition http_path :: "string \<Rightarrow> string" where
  "http_path p = (if take 1 p = ''/'' then p else ''/'')"

definition http_url :: "string \<Rightarrow> (string \<times> int \<times> string) res" where
  "http_url p = (let host = http_host p; q = drop (length host) p
     in if take 1 q = '':''
        then bind_res (atoi (drop 1 q)) (\<lambda>port. Inr (host, port, http_path (dropWhile is_digit (drop 1 q))))
        else Inr (host, 80, http_path q))"

definition get_request :: "string \<Rightarrow> string \<Rightarrow> string" where
  "get_request path host = ''GET '' @ path @ '' HTTP/1.1'' @ crlf @ ''Host: '' @ host @ crlf @ ''Connection: close'' @ crlf @ ''Accept: */*'' @ crlf @ ''User-Agent: L++/0.1.3'' @ crlf @ crlf"

definition post_request :: "string \<Rightarrow> string \<Rightarrow> string \<Rightarrow> string \<Rightarrow> string" where
  "post_request path host content_type data = ''POST '' @ path @ '' HTTP/1.1'' @ crlf @ ''Host: '' @ host @ crlf @ ''Content-Type: '' @ content_type @ crlf @
     ''Content-Length: '' @ print_int (sint (word_of_int (int (length data)) :: u32)) @ crlf @ ''Connection: close'' @ crlf @ ''Accept: */*'' @ crlf @ ''User-Agent: L++/0.1.3'' @ crlf @ crlf @ data"

text \<open>\<open>snprintf\<close> returns the length of the whole text, or a negative number when that is no \<open>int\<close>.\<close>

definition snprintf_len :: "string \<Rightarrow> int" where
  "snprintf_len s = (if length s \<ge> 2 ^ 31 then - 1 else int (length s))"

text \<open>From the formatted request to the answer: send, receive once, close, cut the head off. The body is a C string. \<open>free(body)\<close> passes \<open>free\<close> an address behind the header
  of a block, which is not an address \<open>malloc\<close> returned.\<close>

definition http_answer :: "(int \<Rightarrow> bool) \<Rightarrow> net \<Rightarrow> string option \<Rightarrow> (net \<times> cstr) res" where
  "http_answer oom n body = (case body of None \<Rightarrow> Inr (n, lpp_net_strdup_impl oom (Some []))
     | Some b \<Rightarrow> let b = takeWhile (\<lambda>c. c \<noteq> CHR 0x00) b
                 in case strstr b (crlf @ crlf) of None \<Rightarrow> Inr (n, Some b)
                    | Some sep \<Rightarrow> let r = lpp_net_strdup_impl oom (Some (drop (sep + 4) b)) in Inl (Fault ''free of an address inside a block''))"

definition http_exchange :: "(nat \<Rightarrow> nat \<Rightarrow> int) \<Rightarrow> string \<Rightarrow> (int \<Rightarrow> bool) \<Rightarrow> net \<Rightarrow> int \<Rightarrow> string \<Rightarrow> (net \<times> cstr) res" where
  "http_exchange send wire oom n fd req = (let (n, _) = lpp_net_send_all send n fd (Some req)
     in bind_res (lpp_net_recv oom wire n fd 65536) (\<lambda>body. http_answer oom (lpp_net_close n fd) body))"

text \<open>The request behind a guard against a size that wraps around; \<open>need\<close> is the size of its block.\<close>

definition http_request :: "(nat \<Rightarrow> nat \<Rightarrow> int) \<Rightarrow> string \<Rightarrow> (int \<Rightarrow> bool) \<Rightarrow> net \<Rightarrow> int \<Rightarrow> bool \<Rightarrow> nat \<Rightarrow> string \<Rightarrow> (net \<times> cstr) res" where
  "http_request send wire oom n fd wraps need req =
     (if wraps \<or> oom (int need) \<or> snprintf_len req < 0 \<or> snprintf_len req \<ge> int need then Inr (lpp_net_close n fd, lpp_net_strdup_impl oom (Some []))
      else http_exchange send wire oom n fd req)"

definition lpp_http_get :: "resolver \<Rightarrow> (int \<Rightarrow> sockopt \<Rightarrow> bool) \<Rightarrow> (nat \<Rightarrow> nat \<Rightarrow> int) \<Rightarrow> string \<Rightarrow> (int \<Rightarrow> bool) \<Rightarrow> net \<Rightarrow> cstr \<Rightarrow> int \<Rightarrow> (net \<times> cstr) res" where
  "lpp_http_get addrs optok send wire oom n url timeout_ms = (case url of None \<Rightarrow> Inr (n, lpp_net_strdup_impl oom (Some [])) | Some u \<Rightarrow>
       if take 7 u \<noteq> ''http://'' then Inr (n, lpp_net_strdup_impl oom (Some []))
       else bind_res (http_url (drop 7 u)) (\<lambda>(host, port, path).
         let (n, fd) = lpp_net_dial addrs optok n (Some host) port timeout_ms
         in if fd \<le> 0 then Inr (n, lpp_net_strdup_impl oom (Some []))
            else http_request send wire oom n fd
              (length path > 2 ^ 63 - 1 \<or> length host > 2 ^ 63 - 1 \<or> (length path + length host + 160) mod 2 ^ 64 < length path)
              (length path + length host + 160) (get_request path host)))"

definition lpp_http_post :: "resolver \<Rightarrow> (int \<Rightarrow> sockopt \<Rightarrow> bool) \<Rightarrow> (nat \<Rightarrow> nat \<Rightarrow> int) \<Rightarrow> string \<Rightarrow> (int \<Rightarrow> bool) \<Rightarrow> net \<Rightarrow> cstr \<Rightarrow> cstr \<Rightarrow> cstr \<Rightarrow> int \<Rightarrow> (net \<times> cstr) res" where
  "lpp_http_post addrs optok send wire oom n url data content_type timeout_ms = (case url of None \<Rightarrow> Inr (n, lpp_net_strdup_impl oom (Some [])) | Some u \<Rightarrow>
       if take 7 u \<noteq> ''http://'' then Inr (n, lpp_net_strdup_impl oom (Some []))
       else bind_res (http_url (drop 7 u)) (\<lambda>(host, port, path).
         let data = or_empty data; ct = (case content_type of None \<Rightarrow> ''application/x-www-form-urlencoded'' | Some t \<Rightarrow> t);
             (n, fd) = lpp_net_dial addrs optok n (Some host) port timeout_ms
         in if fd \<le> 0 then Inr (n, lpp_net_strdup_impl oom (Some []))
            else http_request send wire oom n fd
              (length path > 2 ^ 63 - 1 \<or> length host > 2 ^ 63 - 1 \<or> length ct > 2 ^ 63 - 1 \<or> length data > 2 ^ 63 - 1 \<or>
               (length path + length host + length ct + length data + 320) mod 2 ^ 64 < length path)
              (length path + length host + length ct + length data + 320) (post_request path host ct data)))"

section \<open>Freestanding sockets\<close>

definition lpp_net_listen_fs :: "int \<Rightarrow> (u16 \<Rightarrow> bool) \<Rightarrow> bool \<Rightarrow> net \<Rightarrow> i64 \<Rightarrow> net \<times> int" where
  "lpp_net_listen_fs sock bound listening n port = (if sock < 0 then (n, - 1)
     else let n = open_fd n sock in if \<not> bound (ucast port) then (close_fd n sock, - 1) else if \<not> listening then (close_fd n sock, - 1) else (n, sock))"

definition lpp_net_accept_fs :: "int \<Rightarrow> net \<Rightarrow> int \<Rightarrow> net \<times> int" where
  "lpp_net_accept_fs client n listener = (if listener < 0 then (n, - 1) else if client < 0 then (n, client) else (open_fd n client, client))"

text \<open>The host is ignored: the connection always goes to 127.0.0.1, \<open>connected port\<close> is whether it succeeds.\<close>

definition lpp_net_connect_fs :: "int \<Rightarrow> (u16 \<Rightarrow> bool) \<Rightarrow> net \<Rightarrow> cstr \<Rightarrow> i64 \<Rightarrow> net \<times> int" where
  "lpp_net_connect_fs sock connected n host port = (if sock < 0 then (n, - 1)
     else let n = open_fd n sock in if \<not> connected (ucast port) then (close_fd n sock, - 1) else (n, sock))"

definition lpp_net_send_fs :: "(nat \<Rightarrow> nat \<Rightarrow> int) \<Rightarrow> net \<Rightarrow> int \<Rightarrow> cstr \<Rightarrow> net \<times> int" where
  "lpp_net_send_fs send n fd data = (case data of None \<Rightarrow> (n, - 1) | Some d \<Rightarrow>
       if fd < 0 then (n, - 1) else let sent = send 0 (length d) in (put_sent n fd (take (nat sent) d), sent))"

definition lpp_net_send_all_fs :: "(nat \<Rightarrow> nat \<Rightarrow> int) \<Rightarrow> net \<Rightarrow> int \<Rightarrow> cstr \<Rightarrow> net \<times> int" where
  "lpp_net_send_all_fs send n fd data = (case data of None \<Rightarrow> (n, - 1) | Some d \<Rightarrow>
       if fd < 0 then (n, - 1) else let (k, _) = send_loop send (length d) 0 in (put_sent n fd (take k d), int k))"

definition lpp_net_recv_fs :: "(int \<Rightarrow> bool) \<Rightarrow> string \<Rightarrow> int \<Rightarrow> i64 \<Rightarrow> string res" where
  "lpp_net_recv_fs oom wire fd max_bytes = (if fd < 0 \<or> sint max_bytes \<le> 0 then Inr []
     else if sint max_bytes = INT64_MAX then Inl (Fault ''max_bytes + 1 overflows'')
     else if oom (sint max_bytes + 1) then Inr [] else Inr (take (nat (min (sint max_bytes) 0x7ffff000)) wire))"

definition lpp_net_close_fs :: "net \<Rightarrow> int \<Rightarrow> net" where
  "lpp_net_close_fs n fd = (if fd \<ge> 0 then close_fd n fd else n)"

section \<open>Laws of the table\<close>

text \<open>A table of handles: storing fills a vacant handle, or changes nothing and answers 0; clearing vacates one handle. Then live handles keep different values.\<close>

locale handle_table =
  fixes store :: "'s \<Rightarrow> 'v \<Rightarrow> 's \<times> int" and load :: "'s \<Rightarrow> int \<Rightarrow> 'v" and clear :: "'s \<Rightarrow> int \<Rightarrow> 's"
    and vacant :: "'v \<Rightarrow> bool" and wf :: "'s \<Rightarrow> bool"
  assumes store_put: "wf s \<Longrightarrow> store s v = (s', h) \<Longrightarrow> h \<noteq> 0 \<Longrightarrow> wf s' \<and> vacant (load s h) \<and> load s' = (load s)(h := v)"
    and store_full: "wf s \<Longrightarrow> store s v = (s', 0) \<Longrightarrow> s' = s"
    and clear_free: "wf s \<Longrightarrow> wf (clear s h) \<and> vacant (load (clear s h) h) \<and> (\<forall>h'. h' \<noteq> h \<longrightarrow> load (clear s h) h' = load s h')"
begin

lemma store_wf: "wf s \<Longrightarrow> wf (fst (store s v))"
  by (cases "store s v"; cases "snd (store s v) = 0") (auto dest: store_put store_full)

lemma store_distinct:
  assumes "wf s" "inj_on (load s) {h. \<not> vacant (load s h)}" "\<And>h. \<not> vacant (load s h) \<Longrightarrow> load s h \<noteq> v"
  shows "inj_on (load (fst (store s v))) {h. \<not> vacant (load (fst (store s v)) h)}"
proof (cases "store s v")
  case (Pair s' h)
  show ?thesis
  proof (cases "h = 0")
    case True
    then show ?thesis using Pair store_full assms by auto
  next
    case False
    then have "load s' = (load s)(h := v)" using store_put [OF assms(1) Pair] by blast
    then show ?thesis using assms(2,3) Pair unfolding inj_on_def by (auto split: if_splits)
  qed
qed

lemma store_live:
  assumes "wf s" "\<not> vacant (load (fst (store s v)) h)"
  shows "load (fst (store s v)) h = v \<or> \<not> vacant (load s h) \<and> load (fst (store s v)) h = load s h"
proof (cases "store s v")
  case (Pair s' h')
  then show ?thesis using store_put [OF assms(1) Pair] store_full [of s v s'] assms by (cases "h' = 0") (auto split: if_splits)
qed

lemma clear_distinct:
  assumes "wf s" "inj_on (load s) {h. \<not> vacant (load s h)}"
  shows "inj_on (load (clear s h)) {h'. \<not> vacant (load (clear s h) h')}"
  using clear_free [OF assms(1), of h] assms(2) unfolding inj_on_def by (metis (mono_tags, lifting) mem_Collect_eq)

end

definition vacant_fd :: "int \<Rightarrow> bool" where
  "vacant_fd v \<longleftrightarrow> v = 0 \<or> v = LPP_INVALID_SOCKET"

definition net_ok :: "net \<Rightarrow> bool" where
  "net_ok n \<longleftrightarrow> length (socket_table n) = 256"

lemma store_loop_cases:
  "store_loop tab sock i = (tab', h) \<Longrightarrow>
     (h = 0 \<and> tab' = tab \<and> (\<forall>j. i \<le> j \<longrightarrow> j < 256 \<longrightarrow> \<not> vacant_fd (tab ! j))) \<or>
     (\<exists>j. j < 256 \<and> h = int j + 1 \<and> vacant_fd (tab ! j) \<and> tab' = tab[j := sock])"
proof (induction tab sock i rule: store_loop.induct)
  case (1 tab sock i)
  show ?case
  proof (cases "i < 256 \<and> \<not> vacant_fd (tab ! i)")
    case True
    then have "store_loop tab sock (i + 1) = (tab', h)" using 1(2) by (subst (asm) store_loop.simps) (simp add: vacant_fd_def)
    moreover have "i + 1 \<le> j" if "i \<le> j" "vacant_fd (tab ! j)" for j using that True by (cases "i = j") auto
    ultimately show ?thesis using 1(1) True unfolding vacant_fd_def by blast
  next
    case False
    then show ?thesis using 1(2) by (subst (asm) store_loop.simps) (auto simp: vacant_fd_def split: if_splits)
  qed
qed

lemma load_update:
  assumes "net_ok n" "j < 256"
  shows "lpp_socket_load (n\<lparr>socket_table := (socket_table n)[j := v]\<rparr>) = (lpp_socket_load n)(int j + 1 := v)"
  using assms by (auto simp: lpp_socket_load_def net_ok_def fun_eq_iff nth_list_update)

interpretation sock: handle_table lpp_socket_store lpp_socket_load lpp_socket_clear vacant_fd net_ok
proof (unfold_locales, goal_cases)
  case (1 s v s' h)
  obtain tab where t: "store_loop (socket_table s) v 0 = (tab, h)" "s' = s\<lparr>socket_table := tab\<rparr>"
    using 1(2) by (auto simp: lpp_socket_store_def split: prod.splits)
  then obtain j where j: "j < 256" "h = int j + 1" "vacant_fd (socket_table s ! j)" "tab = (socket_table s)[j := v]"
    using store_loop_cases [OF t(1)] 1(3) by auto
  show ?case using j t(2) 1(1) load_update [OF 1(1) j(1), of v] by (simp add: net_ok_def lpp_socket_load_def)
next
  case (2 s v s')
  then show ?case using store_loop_cases by (fastforce simp: lpp_socket_store_def split: prod.splits)
next
  case (3 s h)
  then show ?case by (auto simp: lpp_socket_clear_def lpp_socket_load_def net_ok_def vacant_fd_def nth_list_update)
qed

lemma store_full_iff:
  assumes "net_ok n"
  shows "snd (lpp_socket_store n v) = 0 \<longleftrightarrow> (\<forall>h \<in> {1..256}. \<not> vacant_fd (lpp_socket_load n h))"
proof -
  obtain tab h where t: "store_loop (socket_table n) v 0 = (tab, h)" by fastforce
  have "(\<forall>h \<in> {1..256}. \<not> vacant_fd (lpp_socket_load n h)) \<longleftrightarrow> (\<forall>j < 256. \<not> vacant_fd (socket_table n ! j))"
  proof (intro iffI ballI allI impI)
    fix j :: nat assume a: "\<forall>h \<in> {1..256}. \<not> vacant_fd (lpp_socket_load n h)" "j < 256"
    have "int j + 1 \<in> {1..256}" using a(2) by auto
    then have "\<not> vacant_fd (lpp_socket_load n (int j + 1))" using a(1) by blast
    then show "\<not> vacant_fd (socket_table n ! j)" using a(2) by (simp add: lpp_socket_load_def)
  next
    fix h :: int assume "\<forall>j < 256. \<not> vacant_fd (socket_table n ! j)" "h \<in> {1..256}"
    then show "\<not> vacant_fd (lpp_socket_load n h)" by (auto simp: lpp_socket_load_def)
  qed
  then show ?thesis using store_loop_cases [OF t] t by (auto simp: lpp_socket_store_def)
qed

section \<open>Open descriptors behind live handles\<close>

definition net_inv :: "net \<Rightarrow> bool" where
  "net_inv n \<longleftrightarrow> net_ok n \<and> inj_on (lpp_socket_load n) {h. \<not> vacant_fd (lpp_socket_load n h)} \<and>
     (\<forall>h. \<not> vacant_fd (lpp_socket_load n h) \<longrightarrow> fdopen n (lpp_socket_load n h))"

definition new_fd :: "net \<Rightarrow> int \<Rightarrow> bool" where
  "new_fd n s \<longleftrightarrow> s > 0 \<and> \<not> fdopen n s"

lemma load_cong: "socket_table m = socket_table n \<Longrightarrow> lpp_socket_load m = lpp_socket_load n"
  by (simp add: fun_eq_iff lpp_socket_load_def)

lemma net_inv_cong:
  assumes "net_inv n" "socket_table m = socket_table n" "\<And>s. s \<noteq> 0 \<Longrightarrow> fdopen n s \<Longrightarrow> fdopen m s"
  shows "net_inv m"
  using assms load_cong [OF assms(2)] by (auto simp: net_inv_def net_ok_def vacant_fd_def)

lemma fd_simps [simp]:
  "socket_table (open_fd n s) = socket_table n" "socket_table (close_fd n s) = socket_table n" "socket_table (put_sent n s b) = socket_table n"
  "fdopen (open_fd n s) = (fdopen n)(s := True)" "fdopen (close_fd n s) = (fdopen n)(s := False)" "fdopen (put_sent n s b) = fdopen n"
  "fdopen (lpp_socket_clear n h) = fdopen n" "fdopen (fst (lpp_socket_store n s)) = fdopen n"
  by (auto simp: open_fd_def close_fd_def put_sent_def lpp_socket_clear_def lpp_socket_store_def split: prod.splits)

lemma option_simps [simp]:
  "socket_table (fst (setsockopt optok n s opt v)) = socket_table n" "fdopen (fst (setsockopt optok n s opt v)) = fdopen n"
  "socket_table (fst (lpp_net_set_timeout optok n h ms)) = socket_table n" "fdopen (fst (lpp_net_set_timeout optok n h ms)) = fdopen n"
  "socket_table (fst (lpp_net_set_nonblocking setfl n h e)) = socket_table n" "fdopen (fst (lpp_net_set_nonblocking setfl n h e)) = fdopen n"
  "socket_table (fst (lpp_net_set_deadline optok n h r w)) = socket_table n" "fdopen (fst (lpp_net_set_deadline optok n h r w)) = fdopen n"
  "socket_table (fst (lpp_net_set_keepalive optok n h e)) = socket_table n" "fdopen (fst (lpp_net_set_keepalive optok n h e)) = fdopen n"
  "socket_table (fst (lpp_net_send_all send n h d)) = socket_table n" "fdopen (fst (lpp_net_send_all send n h d)) = fdopen n"
  by (auto simp: setsockopt_def lpp_net_set_timeout_def lpp_net_set_nonblocking_def lpp_net_set_deadline_def lpp_net_set_keepalive_def
      lpp_net_send_all_def Let_def split: prod.splits option.splits)

lemma net_inv_store:
  assumes "net_inv n" "new_fd n s"
  shows "net_inv (fst (lpp_socket_store (open_fd n s) s))"
proof -
  let ?m = "open_fd n s"
  have l: "lpp_socket_load ?m = lpp_socket_load n" by (rule load_cong) simp
  have m: "net_inv ?m" using assms by (auto intro: net_inv_cong)
  then have ok: "net_ok ?m" by (simp add: net_inv_def)
  have "lpp_socket_load ?m h \<noteq> s" if "\<not> vacant_fd (lpp_socket_load ?m h)" for h
    using that assms by (auto simp: l net_inv_def new_fd_def)
  from sock.store_distinct [OF ok _ this] m have "inj_on (lpp_socket_load (fst (lpp_socket_store ?m s))) {h. \<not> vacant_fd (lpp_socket_load (fst (lpp_socket_store ?m s)) h)}"
    by (simp add: net_inv_def)
  moreover have "fdopen ?m (lpp_socket_load (fst (lpp_socket_store ?m s)) h)" if "\<not> vacant_fd (lpp_socket_load (fst (lpp_socket_store ?m s)) h)" for h
    using sock.store_live [OF ok that] m by (auto simp: net_inv_def)
  ultimately show ?thesis using sock.store_wf [OF ok] by (simp add: net_inv_def)
qed

lemma net_inv_retry: "net_inv n \<Longrightarrow> new_fd n s \<Longrightarrow> net_inv (close_fd (open_fd n s) s)"
  by (rule net_inv_cong) (auto simp: new_fd_def)

lemma net_inv_close:
  assumes "net_inv n"
  shows "net_inv (lpp_net_close n h)"
proof (cases "lpp_socket_load n h = LPP_INVALID_SOCKET")
  case True
  then show ?thesis using assms by (simp add: lpp_net_close_def)
next
  case False
  let ?s = "lpp_socket_load n h" let ?m = "lpp_socket_clear (close_fd n ?s) h"
  have c: "lpp_net_close n h = ?m" using False by (simp add: lpp_net_close_def)
  have l: "lpp_socket_load (close_fd n ?s) = lpp_socket_load n" by (rule load_cong) simp
  have ok: "net_ok (close_fd n ?s)" "inj_on (lpp_socket_load (close_fd n ?s)) {h. \<not> vacant_fd (lpp_socket_load (close_fd n ?s) h)}"
    using assms by (simp_all add: net_inv_def net_ok_def l)
  note f = sock.clear_free [OF ok(1), of h, unfolded l]
  have "fdopen ?m (lpp_socket_load ?m h')" if a: "\<not> vacant_fd (lpp_socket_load ?m h')" for h'
  proof -
    have n: "h' \<noteq> h" "lpp_socket_load ?m h' = lpp_socket_load n h'" using f a by auto
    then have "lpp_socket_load n h' \<noteq> ?s" using assms a unfolding net_inv_def inj_on_def by (metis (mono_tags, lifting) mem_Collect_eq)
    then show ?thesis using assms a n by (auto simp: net_inv_def)
  qed
  then show ?thesis using sock.clear_distinct [OF ok, of h] f unfolding c net_inv_def by blast
qed

definition fresh_addrs :: "net \<Rightarrow> (int \<times> bool) list \<Rightarrow> bool" where
  "fresh_addrs n rp \<longleftrightarrow> (\<forall>(s, _) \<in> set rp. s = LPP_INVALID_SOCKET \<or> new_fd n s)"

lemma fresh_addrs_mono: "fresh_addrs n rp \<Longrightarrow> (\<And>s. fdopen m s \<Longrightarrow> fdopen n s) \<Longrightarrow> fresh_addrs m rp"
  unfolding fresh_addrs_def new_fd_def by blast

lemma connect_loop_inv:
  assumes "connect_loop n rp = (m, s)" "net_inv n" "fresh_addrs n rp"
  shows "if s = LPP_INVALID_SOCKET then net_inv m else \<exists>n'. m = open_fd n' s \<and> net_inv n' \<and> new_fd n' s"
  using assms
proof (induction n rp rule: connect_loop.induct)
  case (1 n)
  then show ?case by simp
next
  case (2 n sk c rp)
  have fr: "sk \<noteq> LPP_INVALID_SOCKET \<Longrightarrow> new_fd n sk" "fresh_addrs n rp" using 2(5) by (auto simp: fresh_addrs_def)
  consider "sk = LPP_INVALID_SOCKET" | "sk \<noteq> LPP_INVALID_SOCKET" "c" | "sk \<noteq> LPP_INVALID_SOCKET" "\<not> c" by blast
  then show ?case
  proof cases
    case 1
    then show ?thesis using 2 fr by simp
  next
    case a: 2
    moreover have "sk \<noteq> LPP_INVALID_SOCKET" "m = open_fd n sk" "s = sk" using 2(3) a by (auto simp: Let_def)
    ultimately show ?thesis using 2(4) fr(1) by auto
  next
    case a: 3
    have "fresh_addrs (close_fd (open_fd n sk) sk) rp" using fr(2) by (rule fresh_addrs_mono) (simp split: if_splits)
    with 2(2) [OF a(1) refl a(2)] 2(3) a net_inv_retry [OF 2(4) fr(1)] show ?thesis by simp
  qed
qed

lemma net_inv_connect:
  assumes "net_inv n" "\<And>h p rp. addrs h p = Some rp \<Longrightarrow> fresh_addrs n rp"
  shows "net_inv (fst (lpp_net_connect addrs n host port))" "net_inv (fst (lpp_net_dial addrs optok n host port ms))"
    "net_inv (fst (lpp_net_dial_udp addrs optok n host port ms))"
proof -
  have *: "net_inv (fst (let (n, sock) = connect_loop n rp in if sock = LPP_INVALID_SOCKET then (n, 0) else lpp_socket_store n sock))"
    if "addrs h p = Some rp" for h p rp
    using connect_loop_inv [of n rp] assms(1) assms(2) [OF that] net_inv_store by (fastforce split: prod.splits if_splits)
  show c: "net_inv (fst (lpp_net_connect addrs n host port))" for port
    using assms(1) * by (auto simp: lpp_net_connect_def split: option.splits)
  have "net_inv (fst (let (n, sock) = connect_loop n rp
         in if sock = LPP_INVALID_SOCKET then (n, 0)
            else let (n, handle) = lpp_socket_store n sock
                 in (if ms > 0 then fst (lpp_net_set_timeout optok n handle ms) else n, handle)))" if "addrs h p = Some rp" for h p rp
    using * [OF that] by (auto simp: Let_def split: prod.splits intro: net_inv_cong)
  then show "net_inv (fst (lpp_net_dial addrs optok n host port ms))" "net_inv (fst (lpp_net_dial_udp addrs optok n host port ms))"
    using assms(1) by (auto simp: lpp_net_dial_def lpp_net_dial_udp_def split: option.splits)
qed

lemma net_inv_send: "net_inv n \<Longrightarrow> net_inv (fst (lpp_net_send_all send n h d))"
  by (rule net_inv_cong) auto

lemma net_inv_http_answer: "net_inv n \<Longrightarrow> http_answer oom n body = Inr (m, r) \<Longrightarrow> net_inv m"
  by (auto simp: http_answer_def Let_def split: option.splits)

lemma net_inv_exchange:
  assumes "net_inv n" "http_exchange send wire oom n fd req = Inr (m, r)"
  shows "net_inv m"
proof -
  obtain n1 k where s: "lpp_net_send_all send n fd (Some req) = (n1, k)" by fastforce
  then have "net_inv n1" using net_inv_send [OF assms(1), of send fd "Some req"] by simp
  then show ?thesis using assms(2) s net_inv_close net_inv_http_answer by (fastforce simp: http_exchange_def)
qed

lemma net_inv_request: "net_inv n \<Longrightarrow> http_request send wire oom n fd wraps need req = Inr (m, r) \<Longrightarrow> net_inv m"
  by (auto simp: http_request_def intro: net_inv_close dest: net_inv_exchange split: if_splits)

lemma http_url_cases:
  assumes "(case url of None \<Rightarrow> Inr (n, e) | Some u \<Rightarrow> if c u then Inr (n, e)
    else bind_res (http_url (drop 7 u)) (\<lambda>(host, port, path). case D host port of (n, fd) \<Rightarrow> if fd \<le> 0 then Inr (n, e) else F n fd host path)) = Inr (m, r)"
  shows "m = n \<or> (\<exists>host port path. m = fst (D host port) \<or> F (fst (D host port)) (snd (D host port)) host path = Inr (m, r))"
proof (cases "\<exists>u. url = Some u \<and> \<not> c u")
  case True
  then obtain u host port path where "url = Some u" "\<not> c u" "http_url (drop 7 u) = Inr (host, port, path)" using assms by auto
  then have "m = fst (D host port) \<or> F (fst (D host port)) (snd (D host port)) host path = Inr (m, r)"
    using assms by (auto simp: case_prod_beta split: if_splits)
  then show ?thesis by blast
next
  case False
  then show ?thesis using assms by (auto split: option.splits)
qed

lemma net_inv_http:
  assumes "net_inv n" "\<And>h p rp. addrs h p = Some rp \<Longrightarrow> fresh_addrs n rp"
  shows "lpp_http_get addrs optok send wire oom n url ms = Inr (m, r) \<Longrightarrow> net_inv m"
    "lpp_http_post addrs optok send wire oom n url data ct ms = Inr (m, r) \<Longrightarrow> net_inv m"
proof -
  have d: "net_inv (fst (lpp_net_dial addrs optok n host port ms))" for host port by (rule net_inv_connect(2)) (use assms in auto)
  show "net_inv m" if a: "lpp_http_get addrs optok send wire oom n url ms = Inr (m, r)"
    using http_url_cases [OF a [unfolded lpp_http_get_def Let_def]] assms(1) d net_inv_request by metis
  show "net_inv m" if a: "lpp_http_post addrs optok send wire oom n url data ct ms = Inr (m, r)"
    using http_url_cases [OF a [unfolded lpp_http_post_def Let_def]] assms(1) d net_inv_request by metis
qed

text \<open>Every call of a program, where the system hands out descriptors that are not open.\<close>

inductive net_step :: "net \<Rightarrow> net \<Rightarrow> bool" where
  ns_connect: "(\<And>h p rp. addrs h p = Some rp \<Longrightarrow> fresh_addrs n rp) \<Longrightarrow> net_step n (fst (lpp_net_connect addrs n host port))"
| ns_dial: "(\<And>h p rp. addrs h p = Some rp \<Longrightarrow> fresh_addrs n rp) \<Longrightarrow> net_step n (fst (lpp_net_dial addrs optok n host port ms))"
| ns_dial_udp: "(\<And>h p rp. addrs h p = Some rp \<Longrightarrow> fresh_addrs n rp) \<Longrightarrow> net_step n (fst (lpp_net_dial_udp addrs optok n host port ms))"
| ns_listen: "s = LPP_INVALID_SOCKET \<or> new_fd n s \<Longrightarrow> net_step n (fst (lpp_net_listen s bound listening n pt))"
| ns_listen_udp: "s = LPP_INVALID_SOCKET \<or> new_fd n s \<Longrightarrow> net_step n (fst (lpp_net_listen_udp s bound n pt))"
| ns_accept: "s = LPP_INVALID_SOCKET \<or> new_fd n s \<Longrightarrow> net_step n (fst (lpp_net_accept s n listener))"
| ns_accept_timeout: "s = LPP_INVALID_SOCKET \<or> new_fd n s \<Longrightarrow> net_step n (fst (lpp_net_accept_timeout s optok n listener ms))"
| ns_send: "net_step n (fst (lpp_net_send send n h d))"
| ns_close: "net_step n (lpp_net_close n h)"
| ns_timeout: "net_step n (fst (lpp_net_set_timeout optok n h ms))"
| ns_nonblocking: "net_step n (fst (lpp_net_set_nonblocking setfl n h enable))"
| ns_deadline: "net_step n (fst (lpp_net_set_deadline optok n h rd wr))"
| ns_keepalive: "net_step n (fst (lpp_net_set_keepalive optok n h enable))"
| ns_get: "(\<And>h p rp. addrs h p = Some rp \<Longrightarrow> fresh_addrs n rp) \<Longrightarrow> lpp_http_get addrs optok send wire oom n url ms = Inr (m, r) \<Longrightarrow> net_step n m"
| ns_post: "(\<And>h p rp. addrs h p = Some rp \<Longrightarrow> fresh_addrs n rp) \<Longrightarrow> lpp_http_post addrs optok send wire oom n url data ct ms = Inr (m, r) \<Longrightarrow> net_step n m"

text \<open>At the start the table is zero and the three standard descriptors are open.\<close>

definition net_start :: net where
  "net_start = \<lparr>socket_table = replicate 256 0, fdopen = (\<lambda>s. s \<in> {0, 1, 2}), sent_on = (\<lambda>_. []), sockopts = (\<lambda>_ _. None), fdflags = (\<lambda>_. 2)\<rparr>"

lemma net_inv_start: "net_inv net_start"
  by (auto simp: net_inv_def net_start_def net_ok_def lpp_socket_load_def vacant_fd_def inj_on_def split: if_splits)

lemma net_inv_accept:
  assumes "net_inv n" "s = LPP_INVALID_SOCKET \<or> new_fd n s"
  shows "net_inv (fst (lpp_net_listen s bound listening n pt))" "net_inv (fst (lpp_net_listen_udp s bound n pt))"
    "net_inv (fst (lpp_net_accept s n h))" "net_inv (fst (lpp_net_accept_timeout s optok n h ms))"
proof -
  have "net_inv (fst (lpp_socket_store (open_fd m s) s))" if "s \<noteq> LPP_INVALID_SOCKET" "net_inv m" "fdopen m = fdopen n" for m
    using net_inv_store [OF that(2)] assms(2) that by (simp add: new_fd_def)
  moreover have "net_inv (fst (setsockopt optok n server opt v))" for server opt v using assms(1) by (rule net_inv_cong) auto
  moreover have "s \<noteq> LPP_INVALID_SOCKET \<Longrightarrow> net_inv (close_fd (open_fd n s) s)" using net_inv_retry assms by blast
  ultimately show "net_inv (fst (lpp_net_listen s bound listening n pt))" "net_inv (fst (lpp_net_listen_udp s bound n pt))"
    "net_inv (fst (lpp_net_accept s n h))" "net_inv (fst (lpp_net_accept_timeout s optok n h ms))"
    using assms(1) by (auto simp: lpp_net_listen_def lpp_net_listen_udp_def lpp_net_accept_def lpp_net_accept_timeout_def Let_def)
qed

lemma net_step_inv: "net_step n m \<Longrightarrow> net_inv n \<Longrightarrow> net_inv m"
proof (induction rule: net_step.induct)
  case (ns_send n send h d)
  then show ?case unfolding lpp_net_send_def by (rule net_inv_send)
qed (auto intro: net_inv_connect net_inv_accept net_inv_close net_inv_http elim: net_inv_cong)

lemma net_reach_inv: "net_step\<^sup>*\<^sup>* net_start n \<Longrightarrow> net_inv n"
  by (induction rule: rtranclp_induct) (auto simp: net_inv_start net_step_inv)

section \<open>What programs may rely on\<close>

text \<open>C27: Handles. In every state a program can reach, a live handle is between 1 and 256, its descriptor is open and no other handle has it; closing it closes that descriptor, frees the handle and leaves every other
  live handle with its open descriptor.\<close>

theorem lpp_net_handles_exclusive:
  assumes "net_step\<^sup>*\<^sup>* net_start n" "\<not> vacant_fd (lpp_socket_load n h)"
  shows "h \<in> {1..256} \<and> fdopen n (lpp_socket_load n h) \<and> (\<forall>h'. lpp_socket_load n h' = lpp_socket_load n h \<longrightarrow> h' = h) \<and>
    \<not> fdopen (lpp_net_close n h) (lpp_socket_load n h) \<and> vacant_fd (lpp_socket_load (lpp_net_close n h) h) \<and>
    (\<forall>h'. h' \<noteq> h \<longrightarrow> lpp_socket_load (lpp_net_close n h) h' = lpp_socket_load n h' \<and>
      (\<not> vacant_fd (lpp_socket_load n h') \<longrightarrow> fdopen (lpp_net_close n h) (lpp_socket_load n h')))"
proof -
  have inv: "net_inv n" by (rule net_reach_inv [OF assms(1)])
  let ?s = "lpp_socket_load n h" let ?m = "lpp_net_close n h"
  have "h \<in> {1..256}" using assms(2) by (auto simp: lpp_socket_load_def vacant_fd_def split: if_splits)
  moreover have u: "h' = h" if "lpp_socket_load n h' = ?s" for h'
    using inv that assms(2) unfolding net_inv_def inj_on_def by (metis (mono_tags, lifting) mem_Collect_eq)
  moreover have c: "?m = lpp_socket_clear (close_fd n ?s) h" using assms(2) by (simp add: lpp_net_close_def vacant_fd_def)
  moreover have l: "lpp_socket_load (close_fd n ?s) = lpp_socket_load n" by (rule load_cong) simp
  moreover have "net_ok (close_fd n ?s)" using inv by (simp add: net_inv_def net_ok_def)
  from sock.clear_free [OF this, of h, folded c, unfolded l] have "vacant_fd (lpp_socket_load ?m h)" "\<forall>h'. h' \<noteq> h \<longrightarrow> lpp_socket_load ?m h' = lpp_socket_load n h'"
    by simp_all
  moreover have "fdopen ?m (lpp_socket_load n h')" if "h' \<noteq> h" "\<not> vacant_fd (lpp_socket_load n h')" for h'
    using u [of h'] that inv by (auto simp: c net_inv_def)
  ultimately show ?thesis using inv assms(2) by (simp add: c net_inv_def)
qed

lemma store_net_start: "lpp_socket_store (open_fd net_start 3) 3 = (open_fd net_start 3\<lparr>socket_table := (replicate 256 0)[0 := 3]\<rparr>, 1)"
  by (simp add: lpp_socket_store_def store_loop.simps [of _ _ 0] net_start_def open_fd_def)

theorem lpp_net_handles_exclusive_witness:
  "\<exists>n h. net_step\<^sup>*\<^sup>* net_start n \<and> lpp_socket_load n h = 3 \<and> \<not> fdopen (lpp_net_close n h) 3"
proof -
  let ?n = "fst (lpp_net_listen 3 (\<lambda>_. True) True net_start 80)"
  have "net_step net_start ?n" by (rule ns_listen) (simp add: new_fd_def net_start_def)
  then have r: "net_step\<^sup>*\<^sup>* net_start ?n" by blast
  have l: "lpp_socket_load ?n 1 = 3" by (simp add: lpp_net_listen_def store_net_start lpp_socket_load_def)
  then have "\<not> vacant_fd (lpp_socket_load ?n 1)" by (simp add: vacant_fd_def)
  from lpp_net_handles_exclusive [OF r this] r l show ?thesis by auto
qed

text \<open>Lost descriptors. Closing a handle that is not in use closes descriptor 0, the standard input of the program, because a free slot holds 0 and only \<open>-1\<close> is refused; with a full table an accepted
  connection is reported as failed and stays open although no handle leads to it.\<close>

theorem lpp_net_lost_descriptors:
  assumes "net_inv n" "h \<in> {1..256}" "new_fd n client"
  shows "(lpp_socket_load n h = 0 \<longrightarrow> \<not> fdopen (lpp_net_close n h) 0) \<and>
    ((\<forall>h' \<in> {1..256}. \<not> vacant_fd (lpp_socket_load n h')) \<longrightarrow>
      (\<exists>m. lpp_net_accept client n h = (m, 0) \<and> fdopen m client \<and> (\<forall>h'. lpp_socket_load m h' \<noteq> client)))"
proof (intro conjI impI)
  show "\<not> fdopen (lpp_net_close n h) 0" if "lpp_socket_load n h = 0" using that by (simp add: lpp_net_close_def)
next
  assume f: "\<forall>h' \<in> {1..256}. \<not> vacant_fd (lpp_socket_load n h')"
  let ?o = "open_fd n client"
  have l: "lpp_socket_load ?o = lpp_socket_load n" by (rule load_cong) simp
  have ok: "net_ok ?o" using assms(1) by (simp add: net_inv_def net_ok_def)
  have "snd (lpp_socket_store ?o client) = 0" using store_full_iff [OF ok] f by (simp add: l)
  then obtain m where m: "lpp_socket_store ?o client = (m, 0)" by (metis prod.collapse)
  then have "m = ?o" using sock.store_full [OF ok] by blast
  moreover have "lpp_net_accept client n h = (m, 0)" using m f assms(2,3) by (auto simp: lpp_net_accept_def vacant_fd_def new_fd_def)
  moreover have "lpp_socket_load n h' \<noteq> client" for h'
    using assms(1,3) by (auto simp: net_inv_def new_fd_def vacant_fd_def dest!: spec [of _ h'])
  ultimately show "\<exists>m. lpp_net_accept client n h = (m, 0) \<and> fdopen m client \<and> (\<forall>h'. lpp_socket_load m h' \<noteq> client)"
    by (auto simp: l)
qed

theorem lpp_net_lost_descriptors_witness: "\<not> fdopen (lpp_net_close net_start 7) 0"
proof -
  have "new_fd net_start 3" "lpp_socket_load net_start 7 = 0" by (simp_all add: net_start_def lpp_socket_load_def new_fd_def)
  with lpp_net_lost_descriptors [OF net_inv_start, of 7 3] show ?thesis by simp
qed

section \<open>Sending and receiving\<close>

lemma send_loop_bounds:
  "(\<And>k m. send k m \<le> int m) \<Longrightarrow> k \<le> len \<Longrightarrow> send_loop send len k = (k', c) \<Longrightarrow> k \<le> k' \<and> k' \<le> len \<and> (c \<longleftrightarrow> k' = len)"
proof (induction send len k rule: send_loop.induct)
  case (1 send len k)
  let ?s = "send k (len - k)"
  show ?case
  proof (cases "k < len \<and> ?s > 0")
    case True
    then have r: "send_loop send len (k + nat ?s) = (k', c)" using 1(4) by (subst (asm) send_loop.simps) simp
    have "k + nat ?s \<le> len" using 1(2) [of k "len - k"] True by linarith
    from 1(1) [OF _ refl _ 1(2) this r] True show ?thesis by simp
  next
    case False
    then show ?thesis using 1(3,4) by (subst (asm) send_loop.simps) (auto simp: Let_def split: if_splits)
  qed
qed

text \<open>A connection that stays up takes some of what it is offered; \<open>roomy\<close> memory serves every request below a terabyte.\<close>

definition takes_some :: "(nat \<Rightarrow> nat \<Rightarrow> int) \<Rightarrow> bool" where
  "takes_some send \<longleftrightarrow> (\<forall>k m. 0 < m \<longrightarrow> 0 < send k m \<and> send k m \<le> int m)"

definition roomy :: "(int \<Rightarrow> bool) \<Rightarrow> bool" where
  "roomy oom \<longleftrightarrow> (\<forall>k < 2 ^ 40. \<not> oom k)"

lemma send_loop_complete:
  "takes_some send \<Longrightarrow> k \<le> len \<Longrightarrow> send_loop send len k = (len, True)"
proof (induction send len k rule: send_loop.induct)
  case (1 send len k)
  let ?s = "send k (len - k)"
  show ?case
  proof (cases "k < len")
    case True
    then have "0 < ?s \<and> ?s \<le> int (len - k)" using 1(2) unfolding takes_some_def by (metis zero_less_diff)
    then have s: "0 < ?s" "k + nat ?s \<le> len" using True by linarith+
    have "send_loop send len (k + nat ?s) = (len, True)" using 1(1) [OF True refl _ 1(2) s(2)] s(1) by simp
    then show ?thesis using True s(1) by (subst send_loop.simps) simp
  next
    case False
    then show ?thesis using 1(3) by (subst send_loop.simps) simp
  qed
qed

text \<open>Complete sends. When the system takes no more than it is offered, \<open>lpp_net_send_all\<close> on a live handle returns the length exactly when the whole string is on the wire, and otherwise \<open>-1\<close> with a proper
  prefix sent; when every send makes progress it is complete. The freestanding version puts the same bytes on the wire but answers with their number, so a broken connection looks like a shorter string.\<close>

theorem lpp_net_send_all_complete:
  assumes "\<And>k m. send k m \<le> int m" "lpp_socket_load n h = s" "s > 0"
  shows "\<exists>k \<le> length d. sent_on (fst (lpp_net_send_all send n h (Some d))) = (sent_on n)(s := sent_on n s @ take k d) \<and>
    snd (lpp_net_send_all send n h (Some d)) = (if k = length d then int k else - 1) \<and>
    ((\<forall>k m. 0 < m \<longrightarrow> 0 < send k m) \<longrightarrow> k = length d) \<and>
    sent_on (fst (lpp_net_send_all_fs send n s (Some d))) = (sent_on n)(s := sent_on n s @ take k d) \<and> snd (lpp_net_send_all_fs send n s (Some d)) = int k"
proof -
  obtain k c where l: "send_loop send (length d) 0 = (k, c)" by fastforce
  have b: "k \<le> length d" "c \<longleftrightarrow> k = length d" using send_loop_bounds [OF assms(1) _ l] by auto
  have "k = length d" if "\<forall>k m. 0 < m \<longrightarrow> 0 < send k m" using send_loop_complete [of send 0 "length d"] assms(1) that l by (simp add: takes_some_def)
  then show ?thesis using b l assms(2,3) by (auto simp: lpp_net_send_all_def lpp_net_send_all_fs_def put_sent_def)
qed

theorem lpp_net_send_all_complete_witness:
  "let n = fst (lpp_net_listen 3 (\<lambda>_. True) True net_start 80) in
     snd (lpp_net_send_all (\<lambda>k m. min 2 (int m)) n 1 (Some ''hello'')) = 5 \<and> sent_on (fst (lpp_net_send_all (\<lambda>k m. min 2 (int m)) n 1 (Some ''hello''))) 3 = ''hello''"
proof -
  let ?n = "fst (lpp_net_listen 3 (\<lambda>_. True) True net_start 80)"
  have l: "lpp_socket_load ?n 1 = 3" "sent_on ?n 3 = []" by (simp_all add: lpp_net_listen_def store_net_start lpp_socket_load_def, simp add: open_fd_def)
  obtain k where "k \<le> 5" "sent_on (fst (lpp_net_send_all (\<lambda>k m. min 2 (int m)) ?n 1 (Some ''hello''))) = (sent_on ?n)(3 := sent_on ?n 3 @ take k ''hello'')"
    "snd (lpp_net_send_all (\<lambda>k m. min 2 (int m)) ?n 1 (Some ''hello'')) = (if k = 5 then int k else - 1)" "k = 5"
    using lpp_net_send_all_complete [of "\<lambda>k m. min 2 (int m)" ?n 1 3 "''hello''"] l by auto
  then show ?thesis using l by (simp add: Let_def)
qed

lemma sint_u32: "- (2 ^ 31) \<le> x \<Longrightarrow> x < 2 ^ 31 \<Longrightarrow> sint (word_of_int x :: u32) = x"
  unfolding sint_sbintrunc' by (simp add: signed_take_bit_int_eq_self)

lemma recv_size_small: "0 < sint mx \<Longrightarrow> sint mx < 2 ^ 31 \<Longrightarrow> recv_size mx = sint mx"
proof -
  assume a: "0 < sint mx" "sint mx < 2 ^ 31"
  have "(ucast mx :: u32) = word_of_int (sint mx)"
    by (rule bit_word_eqI) (simp add: bit_simps)
  then show ?thesis using a sint_u32 [of "sint mx"] unfolding recv_size_def by (simp del: of_int_sint)
qed


text \<open>Receiving. For a limit that is an \<open>int\<close> the result is the waiting bytes up to the limit, inside the block; for the limit \<open>0xFFFFFFFF\<close>, which is positive, the conversion gives \<open>-1\<close>: the
  block has no room at all and the receive is unlimited, so that it writes outside the block.\<close>

theorem lpp_net_recv_bound:
  assumes "lpp_socket_load n h > 0" "roomy oom"
  shows "(0 < sint mx \<and> sint mx < 2 ^ 31 \<longrightarrow>
      lpp_net_recv oom wire n h mx = Inr (Some (take (nat (min (sint mx) 0x7ffff000)) wire)) \<and> length (take (nat (min (sint mx) 0x7ffff000)) wire) \<le> nat (sint mx)) \<and>
    lpp_net_recv oom wire n h 0xFFFFFFFF = Inl (Fault ''write past the block'')"
proof (intro conjI impI; (elim conjE)?)
  assume a: "0 < sint mx" "sint mx < 2 ^ 31"
  have "sint mx mod 2 ^ 64 = sint mx" using a by simp
  then show "lpp_net_recv oom wire n h mx = Inr (Some (take (nat (min (sint mx) 0x7ffff000)) wire))"
    using a assms recv_size_small [OF a] by (auto simp: roomy_def lpp_net_recv_def Let_def min_def not_less)
  show "length (take (nat (min (sint mx) 0x7ffff000)) wire) \<le> nat (sint mx)"
    using a by (simp add: min_def) linarith
next
  have "recv_size 0xFFFFFFFF = - 1" by (simp add: recv_size_def sint_uint)
  then show "lpp_net_recv oom wire n h 0xFFFFFFFF = Inl (Fault ''write past the block'')"
    using assms by (simp add: lpp_net_recv_def roomy_def Let_def sint_uint)
qed

theorem lpp_net_recv_bound_witness:
  "lpp_net_recv (\<lambda>k. k > 2 ^ 50) ''HTTP'' (fst (lpp_net_listen 3 (\<lambda>_. True) True net_start 80)) 1 0xFFFFFFFF = Inl (Fault ''write past the block'')"
proof -
  have l: "lpp_socket_load (fst (lpp_net_listen 3 (\<lambda>_. True) True net_start 80)) 1 > 0" by (simp add: lpp_net_listen_def store_net_start lpp_socket_load_def)
  from lpp_net_recv_bound [OF l, of "\<lambda>k. k > 2 ^ 50" 1 "''HTTP''"] show ?thesis by (simp add: roomy_def)
qed

section \<open>HTTP\<close>

lemma http_url_plain:
  assumes "\<forall>c \<in> set host. c \<noteq> CHR '':'' \<and> c \<noteq> CHR ''/''" "length host \<le> 255" "path = [] \<or> hd path = CHR ''/''"
  shows "http_url (host @ path) = Inr (host, 80, if path = [] then ''/'' else path)"
proof -
  have "takeWhile (\<lambda>c. c \<noteq> CHR '':'' \<and> c \<noteq> CHR ''/'') (host @ path) = host"
    using assms(1,3) by (cases path) (auto simp: takeWhile_append)
  then have "http_host (host @ path) = host" using assms(2) by (simp add: http_host_def)
  then show ?thesis using assms(3) by (cases path) (auto simp: http_url_def http_path_def Let_def)
qed

lemma http_exchange_runs:
  assumes "takes_some send" "lpp_socket_load n fd = s" "s > 0" "\<not> oom 65537"
  shows "http_exchange send wire oom n fd req = http_answer oom (lpp_net_close (put_sent n s req) fd) (Some (take 65536 wire))"
proof -
  have "lpp_net_send_all send n fd (Some req) = (put_sent n s req, int (length req))"
    using send_loop_complete [OF assms(1), of "0" "length req"] assms(2,3) by (simp add: lpp_net_send_all_def)
  moreover have "lpp_socket_load (put_sent n s req) fd = s" using load_cong [of "put_sent n s req" n] assms(2) by simp
  ultimately show ?thesis using assms(3,4) by (simp add: http_exchange_def lpp_net_recv_def recv_size_def sint_uint Let_def)
qed

lemma content_length:
  assumes "length data < 2 ^ 31"
  shows "print_int (sint (word_of_int (int (length data)) :: u32)) = print_int (int (length data))" "length (print_int (int (length data))) \<le> 10"
proof -
  have "int (length data) < 2 ^ 31" using assms by (simp flip: of_nat_less_iff)
  then show "print_int (sint (word_of_int (int (length data)) :: u32)) = print_int (int (length data))"
    using sint_u32 [of "int (length data)"] by (simp del: of_int_of_nat_eq)
  have "length data < 10 ^ Suc 9" using assms by simp
  from length_print_base [OF _ this] show "length (print_int (int (length data))) \<le> 10" by (simp add: print_int_def)
qed


lemma get_request_length: "length (get_request path host) < length path + length host + 160"
  by (simp add: get_request_def)

lemma post_request_length:
  assumes "length data < 2 ^ 31"
  shows "length (post_request path host ct data) < length path + length host + length ct + length data + 320"
  using content_length [OF assms] by (simp add: post_request_def)

lemma http_request_runs:
  assumes "takes_some send" "lpp_socket_load n fd = s" "s > 0" "roomy oom"
    and "length req < need" "need < 2 ^ 31"
  shows "http_request send wire oom n fd False need req = http_answer oom (lpp_net_close (put_sent n s req) fd) (Some (take 65536 wire))"
proof -
  have "\<not> oom (int need)" "\<not> oom 65537" using assms(4,6) by (auto simp: roomy_def)
  then show ?thesis using assms(5,6) http_exchange_runs [OF assms(1-3), of oom wire req] by (simp add: http_request_def snprintf_len_def)
qed

text \<open>C28: HTTP requests. Once the connection is made, the request put on the wire is complete: its block is large enough, and the \<open>Content-Length\<close> of a POST is the length of its data. The handle is closed
  afterwards. An answer without a blank line is returned as it is. Every answer with one, that is every well-formed HTTP response, makes the client pass an address inside a block to \<open>free\<close>.\<close>

theorem lpp_http_request_answer:
  assumes "takes_some send" "roomy oom"
    and "take 7 u = ''http://''" "http_url (drop 7 u) = Inr (host, port, path)"
    and "lpp_net_dial addrs optok n (Some host) port ms = (n1, fd)" "fd > 0" "lpp_socket_load n1 fd = s" "s > 0"
    and "length path + length host + length ct + length data + 320 < 2 ^ 31"
  shows "let ans = takeWhile (\<lambda>c. c \<noteq> CHR 0x00) (take 65536 wire);
      post = ''POST '' @ path @ '' HTTP/1.1'' @ crlf @ ''Host: '' @ host @ crlf @ ''Content-Type: '' @ ct @ crlf @ ''Content-Length: '' @
        print_int (int (length data)) @ crlf @ ''Connection: close'' @ crlf @ ''Accept: */*'' @ crlf @ ''User-Agent: L++/0.1.3'' @ crlf @ crlf @ data
    in lpp_http_get addrs optok send wire oom n (Some u) ms =
      (if strstr ans (crlf @ crlf) = None then Inr (lpp_net_close (put_sent n1 s (get_request path host)) fd, Some ans) else Inl (Fault ''free of an address inside a block'')) \<and>
    lpp_http_post addrs optok send wire oom n (Some u) (Some data) (Some ct) ms =
      (if strstr ans (crlf @ crlf) = None then Inr (lpp_net_close (put_sent n1 s post) fd, Some ans) else Inl (Fault ''free of an address inside a block''))"
proof -
  define ans where "ans = takeWhile (\<lambda>c. c \<noteq> CHR 0x00) (take 65536 wire)"
  note r = http_request_runs [OF assms(1,7,8) assms(2)]
  have a: "http_answer oom m (Some (take 65536 wire)) = (if strstr ans (crlf @ crlf) = None then Inr (m, Some ans) else Inl (Fault ''free of an address inside a block''))" for m
    by (auto simp: http_answer_def ans_def Let_def split: option.splits)
  have d: "length data < 2 ^ 31" "length path + length host + 160 < 2 ^ 31" using assms(9) by auto
  have "lpp_http_get addrs optok send wire oom n (Some u) ms = http_answer oom (lpp_net_close (put_sent n1 s (get_request path host)) fd) (Some (take 65536 wire))"
    using assms(3-6) d(2) by (simp add: lpp_http_get_def r [OF get_request_length])
  moreover have "lpp_http_post addrs optok send wire oom n (Some u) (Some data) (Some ct) ms =
      http_answer oom (lpp_net_close (put_sent n1 s (post_request path host ct data)) fd) (Some (take 65536 wire))"
    using assms(3-6,9) by (simp add: lpp_http_post_def or_empty_def r [OF post_request_length [OF d(1)]])
  ultimately show ?thesis unfolding Let_def a ans_def [symmetric] post_request_def content_length(1) [OF d(1)] by blast
qed

theorem lpp_http_request_answer_witness:
  "lpp_http_get (\<lambda>_ _. Some [(3, True)]) (\<lambda>_ _. True) (\<lambda>_ m. int m) (''HTTP/1.1 200 OK'' @ crlf @ crlf @ ''ok'') (\<lambda>k. k > 2 ^ 50) net_start (Some ''http://db/'') 0 =
     Inl (Fault ''free of an address inside a block'')"
proof -
  let ?a = "\<lambda>_ _. Some [(3, True)]"
  have u: "http_url (drop 7 ''http://db/'') = Inr (''db'', 80, ''/'')" using http_url_plain [of "''db''" "''/''"] by simp
  have d: "lpp_net_dial ?a (\<lambda>_ _. True) net_start (Some ''db'') 80 0 = (open_fd net_start 3\<lparr>socket_table := (replicate 256 0)[0 := 3]\<rparr>, 1)"
    by (simp add: lpp_net_dial_def store_net_start)
  have s: "strstr (takeWhile (\<lambda>c. c \<noteq> CHR 0x00) (take 65536 (''HTTP/1.1 200 OK'' @ crlf @ crlf @ ''ok''))) (crlf @ crlf) \<noteq> None"
    by (simp add: strstr.simps)
  have t: "takes_some (\<lambda>_ m. int m)" "roomy (\<lambda>k. k > 2 ^ 50)" "take 7 ''http://db/'' = ''http://''" by (simp_all add: takes_some_def roomy_def)
  from lpp_http_request_answer [OF t u d, of 3 "[]" "[]" "''HTTP/1.1 200 OK'' @ crlf @ crlf @ ''ok''"] s show ?thesis
    by (simp only: Let_def if_False) (simp add: lpp_socket_load_def)
qed

end
