(* ===== verification/Lpp_Vec.thy ===== *)
theory Lpp_Vec
  imports Lpp_Prelude
begin

text \<open>
  The vector builtins of \<^verbatim>\<open>runtime/lpp_runtime.c\<close> (the checksum is in \<^verbatim>\<open>runtime/linux_x86_64_min.c\<close> too): an integer checksum with its four-lane and its scalar loop, and 128-bit
  vectors as two 64-bit halves, with their sixteen byte lanes in little-endian order. The SSE2 branches are the documented lane-wise meaning of the intrinsics, the portable ones are loops.
\<close>

section \<open>Checksum\<close>

text \<open>\<open>(i * 3) ^ (i >> 1)\<close>; sums wrap around.\<close>

definition checksum_term :: "int \<Rightarrow> i64" where
  "checksum_term i = (of_int i * 3) XOR signed_drop_bit 1 (of_int i)"

function avx2_loop :: "int \<Rightarrow> int \<Rightarrow> i64 \<Rightarrow> int \<times> i64" where
  "avx2_loop n i tot = (if i + 4 \<le> n
     then avx2_loop n (i + 4) (tot + (checksum_term i + checksum_term (i + 1) + checksum_term (i + 2) + checksum_term (i + 3))) else (i, tot))"
  by pat_completeness auto
termination by (relation "measure (\<lambda>(n, i, _). nat (n - i))") auto

function scalar_loop :: "int \<Rightarrow> int \<Rightarrow> i64 \<Rightarrow> i64" where
  "scalar_loop n i tot = (if i < n then scalar_loop n (i + 1) (tot + checksum_term i) else tot)"
  by pat_completeness auto
termination by (relation "measure (\<lambda>(n, i, _). nat (n - i))") auto

declare avx2_loop.simps [simp del] scalar_loop.simps [simp del]

definition lpp_vec_i64_checksum_avx2 :: "int \<Rightarrow> i64" where
  "lpp_vec_i64_checksum_avx2 n = (let (i, tot) = avx2_loop n 0 0 in scalar_loop n i tot)"

definition lpp_vec_i64_checksum :: "int \<Rightarrow> i64" where
  "lpp_vec_i64_checksum n = (if n < 0 then 0 else lpp_vec_i64_checksum_avx2 n)"

definition lpp_vec_i64_checksum_portable :: "int \<Rightarrow> i64" where
  "lpp_vec_i64_checksum_portable n = (if n < 0 then 0 else scalar_loop n 0 0)"

section \<open>Vectors of bytes\<close>

record LppVec128 =
  v0 :: i64
  v1 :: i64

definition vbyte :: "LppVec128 \<Rightarrow> nat \<Rightarrow> u8" where
  "vbyte a i = (if i < 8 then ucast (drop_bit (8 * i) (v0 a)) else ucast (drop_bit (8 * (i - 8)) (v1 a)))"

text \<open>The half whose bytes are \<open>f 0, \<dots>, f 7\<close>.\<close>

definition half_of :: "(nat \<Rightarrow> u8) \<Rightarrow> i64" where
  "half_of f = fold (\<lambda>i half. half OR push_bit (i * 8) (ucast (f i))) [0..<8] 0"

definition lpp_vec_i64x2_and :: "LppVec128 \<Rightarrow> LppVec128 \<Rightarrow> LppVec128" where
  "lpp_vec_i64x2_and a b = \<lparr>v0 = v0 a AND v0 b, v1 = v1 a AND v1 b\<rparr>"

definition lpp_vec_i64x2_or :: "LppVec128 \<Rightarrow> LppVec128 \<Rightarrow> LppVec128" where
  "lpp_vec_i64x2_or a b = \<lparr>v0 = v0 a OR v0 b, v1 = v1 a OR v1 b\<rparr>"

definition lpp_vec_i64x2_not :: "LppVec128 \<Rightarrow> LppVec128" where
  "lpp_vec_i64x2_not a = \<lparr>v0 = NOT (v0 a), v1 = NOT (v1 a)\<rparr>"

definition lpp_vec_u8x16_splat :: "i64 \<Rightarrow> LppVec128" where
  "lpp_vec_u8x16_splat byte_val = (let half = half_of (\<lambda>_. ucast byte_val) in \<lparr>v0 = half, v1 = half\<rparr>)"

definition lpp_vec_u8x16_eq :: "LppVec128 \<Rightarrow> LppVec128 \<Rightarrow> LppVec128" where
  "lpp_vec_u8x16_eq a b = (let pr = (\<lambda>i. if vbyte a i = vbyte b i then 0xFF else 0x00) in \<lparr>v0 = half_of pr, v1 = half_of (\<lambda>i. pr (i + 8))\<rparr>)"

text \<open>\<open>_mm_movemask_epi8\<close> collects the top bits of the lanes.\<close>

definition lpp_vec_u8x16_movemask :: "LppVec128 \<Rightarrow> i64" where
  "lpp_vec_u8x16_movemask a = word_of_nat (\<Sum>i<16. if bit (vbyte a i) 7 then 2 ^ i else 0)"

definition lpp_vec_u8x16_movemask_portable :: "LppVec128 \<Rightarrow> i64" where
  "lpp_vec_u8x16_movemask_portable a = fold (\<lambda>i m. if vbyte a i AND 0x80 \<noteq> 0 then m OR push_bit i 1 else m) [0..<16] 0"

section \<open>The loops agree\<close>

lemma scalar_loop_add: "i \<le> n \<Longrightarrow> scalar_loop n i tot = tot + (\<Sum>k \<in> {i..<n}. checksum_term k)"
proof (induction n i tot rule: scalar_loop.induct)
  case (1 n i tot)
  show ?case
  proof (cases "i < n")
    case True
    have "{i..<n} = insert i {i + 1..<n}" using True by auto
    then show ?thesis using 1(1) True by (subst scalar_loop.simps) (simp add: ac_simps)
  next
    case False
    then show ?thesis using 1(2) by (subst scalar_loop.simps) simp
  qed
qed

lemma scalar_step: "i < n \<Longrightarrow> scalar_loop n i tot = scalar_loop n (i + 1) (tot + checksum_term i)"
  by (subst scalar_loop.simps) simp

lemma avx2_loop_scalar: "i \<le> n \<Longrightarrow> avx2_loop n i tot = (j, s) \<Longrightarrow> j \<le> n \<and> scalar_loop n j s = scalar_loop n i tot"
proof (induction n i tot rule: avx2_loop.induct)
  case (1 n i tot)
  show ?case
  proof (cases "i + 4 \<le> n")
    case True
    let ?s = "tot + (checksum_term i + checksum_term (i + 1) + checksum_term (i + 2) + checksum_term (i + 3))"
    have "avx2_loop n (i + 4) ?s = (j, s)" using 1(3) True by (subst (asm) avx2_loop.simps) simp
    then have "j \<le> n \<and> scalar_loop n j s = scalar_loop n (i + 4) ?s" using 1(1) True by simp
    moreover have "scalar_loop n i tot = scalar_loop n (i + 4) ?s"
      using True scalar_step [of i n] scalar_step [of "i + 1" n] scalar_step [of "i + 2" n] scalar_step [of "i + 3" n] by (simp add: add.assoc)
    ultimately show ?thesis by simp
  next
    case False
    then show ?thesis using 1(2,3) by (subst (asm) avx2_loop.simps) simp
  qed
qed

lemma checksum_term_int:
  assumes "0 \<le> i" "i < 2 ^ 60"
  shows "sint (checksum_term i) = (i * 3) XOR (i div 2)"
proof -
  have "in_i64 i" "in_i64 (i * 3)" using assms by (simp_all add: in_i64_def INT64_MIN_def INT64_MAX_def)
  then have "sint (of_int i :: i64) = i" "sint (of_int i * 3 :: i64) = i * 3" using sint_word_of_int_64 [of i] sint_word_of_int_64 [of "i * 3"] by simp_all
  then show ?thesis by (simp add: checksum_term_def signed_xor_eq sint_signed_drop_bit_eq drop_bit_eq_div)
qed

lemma fold_or_bit:
  "n \<le> 8 \<Longrightarrow> bit (fold (\<lambda>i half. half OR push_bit (i * 8) (ucast (f i :: u8))) [0..<n] (0 :: i64)) k \<longleftrightarrow> k < 8 * n \<and> bit (f (k div 8)) (k mod 8)"
proof (induction n)
  case (Suc n)
  have "bit (push_bit (n * 8) (ucast (f n)) :: i64) k \<longleftrightarrow> 8 * n \<le> k \<and> k < 8 * n + 8 \<and> bit (f n) (k - 8 * n)"
    using Suc.prems by (auto simp: bit_simps ac_simps dest: bit_imp_le_length)
  moreover have "k div 8 = n" "k mod 8 = k - 8 * n" if "8 * n \<le> k" "k < 8 * n + 8"
    using that by (auto simp: div_nat_eqI modulo_nat_def)
  ultimately show ?case using Suc by (auto simp: bit_or_iff)
qed simp

lemma bit_half_of: "bit (half_of f) k \<longleftrightarrow> k < 64 \<and> bit (f (k div 8)) (k mod 8)"
  using fold_or_bit [of 8 f k] by (simp add: half_of_def)

lemma byte_half_of: "i < 8 \<Longrightarrow> ucast (drop_bit (8 * i) (half_of f)) = f i"
  by (rule bit_word_eqI) (auto simp: bit_simps bit_half_of)

lemma vbyte_eq:
  assumes "i < 16"
  shows "vbyte (lpp_vec_u8x16_splat b) i = ucast b" "vbyte (lpp_vec_u8x16_eq x y) i = (if vbyte x i = vbyte y i then 0xFF else 0)"
  using assms byte_half_of [of i] byte_half_of [of "i - 8"] by (auto simp: vbyte_def lpp_vec_u8x16_splat_def lpp_vec_u8x16_eq_def Let_def)

lemma vbyte_bitwise:
  assumes "i < 16"
  shows "vbyte (lpp_vec_i64x2_and x y) i = vbyte x i AND vbyte y i" "vbyte (lpp_vec_i64x2_or x y) i = vbyte x i OR vbyte y i"
    "vbyte (lpp_vec_i64x2_not x) i = NOT (vbyte x i)"
  using assms by (auto intro!: bit_word_eqI simp: vbyte_def lpp_vec_i64x2_and_def lpp_vec_i64x2_or_def lpp_vec_i64x2_not_def bit_simps)

lemma movemask_portable_fold:
  "n \<le> 16 \<Longrightarrow> bit (fold (\<lambda>i m. if vbyte x i AND 0x80 \<noteq> 0 then m OR push_bit i 1 else m) [0..<n] (0 :: i64)) k \<longleftrightarrow> k < n \<and> bit (vbyte x k) 7"
proof (induction n)
  case (Suc n)
  have "vbyte x n AND 0x80 \<noteq> 0 \<longleftrightarrow> bit (vbyte x n) 7"
    using and_exp_eq_0_iff_not_bit [of "vbyte x n" 7] by simp
  then show ?case using Suc by (auto simp: bit_simps less_Suc_eq)
qed simp

lemma bit_movemask_portable: "bit (lpp_vec_u8x16_movemask_portable x) k \<longleftrightarrow> k < 16 \<and> bit (vbyte x k) 7"
  using movemask_portable_fold [of 16 x k] by (simp add: lpp_vec_u8x16_movemask_portable_def)

lemma movemask_nat_fold: "(\<Sum>i<n. if bit (vbyte x i) 7 then 2 ^ i else 0) = (horner_sum of_bool 2 (map (\<lambda>i. bit (vbyte x i) 7) [0..<n]) :: nat)"
  by (induction n) (auto simp: horner_sum_append)

lemma movemask_agree: "lpp_vec_u8x16_movemask x = lpp_vec_u8x16_movemask_portable x"
proof (rule bit_word_eqI)
  fix k assume "k < LENGTH(64)"
  then show "bit (lpp_vec_u8x16_movemask x) k \<longleftrightarrow> bit (lpp_vec_u8x16_movemask_portable x) k"
    unfolding lpp_vec_u8x16_movemask_def movemask_nat_fold bit_movemask_portable
    by (auto simp: bit_simps bit_horner_sum_bit_iff)
qed

text \<open>Byte search. The mask of the lanes of a vector equal to a splatted byte has exactly the bits of the lanes that hold the byte, with the intrinsics and with the portable loops, and the bitwise operations combine
  such lane masks.\<close>

theorem lpp_vec_byte_search:
  "(bit (lpp_vec_u8x16_movemask (lpp_vec_u8x16_eq x (lpp_vec_u8x16_splat b))) k \<longleftrightarrow> k < 16 \<and> vbyte x k = ucast b) \<and>
   (bit (lpp_vec_u8x16_movemask (lpp_vec_i64x2_or (lpp_vec_u8x16_eq x (lpp_vec_u8x16_splat b)) (lpp_vec_i64x2_not (lpp_vec_u8x16_eq x (lpp_vec_u8x16_splat c))))) k \<longleftrightarrow>
     k < 16 \<and> (vbyte x k = ucast b \<or> vbyte x k \<noteq> ucast c)) \<and>
   lpp_vec_u8x16_movemask x = lpp_vec_u8x16_movemask_portable x"
proof -
  have "bit (0xFF :: u8) 7" "\<not> bit (NOT 0xFF :: u8) 7" by (simp_all add: bit_simps)
  then show ?thesis by (auto simp: movemask_agree bit_movemask_portable vbyte_eq vbyte_bitwise bit_simps split: if_splits)
qed

theorem lpp_vec_byte_search_witness:
  "bit (lpp_vec_u8x16_movemask (lpp_vec_u8x16_eq \<lparr>v0 = 0x4142, v1 = 0\<rparr> (lpp_vec_u8x16_splat 0x41))) 1 \<and>
   \<not> bit (lpp_vec_u8x16_movemask (lpp_vec_u8x16_eq \<lparr>v0 = 0x4142, v1 = 0\<rparr> (lpp_vec_u8x16_splat 0x41))) 0"
proof -
  have "vbyte \<lparr>v0 = 0x4142, v1 = 0\<rparr> 1 = 0x41" "vbyte \<lparr>v0 = 0x4142, v1 = 0\<rparr> 0 = 0x42" by (simp_all add: vbyte_def)
  then show ?thesis using lpp_vec_byte_search [of "\<lparr>v0 = 0x4142, v1 = 0\<rparr>" "0x41" 0] lpp_vec_byte_search [of "\<lparr>v0 = 0x4142, v1 = 0\<rparr>" "0x41" 1] by simp
qed

lemma add_in_i64: "0 \<le> z \<Longrightarrow> z \<le> i * 2 ^ 32 \<Longrightarrow> 0 \<le> t \<Longrightarrow> t < 2 ^ 32 \<Longrightarrow> i + 1 \<le> 2 ^ 30 \<Longrightarrow> in_i64 (z + t)"
  by (simp add: in_i64_def INT64_MIN_def INT64_MAX_def)

lemma checksum_range:
  assumes "0 \<le> n" "n \<le> 2 ^ 30"
  shows "sint (\<Sum>k \<in> {0..<n}. checksum_term k) = (\<Sum>k \<in> {0..<n}. (k * 3) XOR (k div 2)) \<and> 0 \<le> (\<Sum>k \<in> {0..<n}. (k * 3) XOR (k div 2)) \<and>
    (\<Sum>k \<in> {0..<n}. (k * 3) XOR (k div 2)) \<le> n * 2 ^ 32"
  using assms
proof (induction n rule: int_ge_induct)
  case (step i)
  let ?t = "(i * 3) XOR (i div 2)"
  let ?w = "\<Sum>k \<in> {0..<i}. checksum_term k" and ?z = "\<Sum>k \<in> {0..<i}. (k * 3) XOR (k div 2)"
  have ih: "sint ?w = ?z" "0 \<le> ?z" "?z \<le> i * 2 ^ 32" using step by auto
  have t: "0 \<le> ?t" "?t < 2 ^ 32" using step(1,3) XOR_upper [of "i * 3" 32 "i div 2"] by auto
  have "{0..<i + 1} = insert i {0..<i}" using step(1) by auto
  then have s: "(\<Sum>k \<in> {0..<i + 1}. checksum_term k) = ?w + checksum_term i" "(\<Sum>k \<in> {0..<i + 1}. (k * 3) XOR (k div 2)) = ?z + ?t" by simp_all
  have "sint (checksum_term i) = ?t" using step by (intro checksum_term_int) auto
  moreover have "in_i64 (?z + ?t)" by (rule add_in_i64 [OF ih(2,3) t step(3)])
  ultimately have "sint (?w + checksum_term i) = ?z + ?t" using ih(1) by (simp add: sint_word_add signed_take_bit_63_self)
  then show ?case using s ih t by simp
qed simp

text \<open>Checksum. The four-lane loop computes what the scalar loop computes, for every length; up to \<open>2 ^ 30\<close> terms the result is the exact sum, no addition overflows.\<close>

theorem lpp_vec_checksum_exact:
  shows "lpp_vec_i64_checksum n = lpp_vec_i64_checksum_portable n \<and>
    (0 \<le> n \<and> n \<le> 2 ^ 30 \<longrightarrow> sint (lpp_vec_i64_checksum n) = (\<Sum>k \<in> {0..<n}. (k * 3) XOR (k div 2)))"
proof -
  have "lpp_vec_i64_checksum n = lpp_vec_i64_checksum_portable n"
    using avx2_loop_scalar [of 0 n 0] by (auto simp: lpp_vec_i64_checksum_def lpp_vec_i64_checksum_portable_def lpp_vec_i64_checksum_avx2_def split: prod.splits)
  moreover have "lpp_vec_i64_checksum_portable n = (\<Sum>k \<in> {0..<n}. checksum_term k)" if "0 \<le> n"
    using that scalar_loop_add [of 0 n 0] by (simp add: lpp_vec_i64_checksum_portable_def)
  ultimately show ?thesis using checksum_range [of n] by simp
qed

theorem lpp_vec_checksum_exact_witness: "sint (lpp_vec_i64_checksum 5) = 32"
proof -
  have "{0..<5 :: int} = {0, 1, 2, 3, 4}" by auto
  moreover have "sint (lpp_vec_i64_checksum 5) = (\<Sum>k \<in> {0..<5}. (k * 3) XOR (k div 2))"
    by (rule lpp_vec_checksum_exact [of 5, THEN conjunct2, THEN mp]) simp
  ultimately show ?thesis by simp
qed

end
