(* ===== verification/Lpp_X11.thy ===== *)
theory Lpp_X11
  imports Lpp_Prelude
begin

text \<open>
  The X11 half of \<^verbatim>\<open>runtime/lpp_gui.c\<close>: the function table filled with \<open>dlsym\<close>, the eight window slots, event decoding and drawing. libX11 is not part of the repository: what its calls answer
  (addresses, identifiers, pixels, keysyms, events) are arguments, and the model keeps the resources that were created and not freed in \<open>xlive\<close>. Using or freeing a resource that is not there, and calling through a
  function pointer that is NULL, is a \<open>Fault\<close>. Requests that show on the screen are appended to \<open>xlog\<close>. Coordinates are 32-bit words.
\<close>

section \<open>State\<close>

datatype x11_sym = XOpenDisplay | XDefaultRootWindow | XDefaultScreen | XDefaultColormap | XCreateSimpleWindow | XSelectInput | XMapWindow | XFlush | XSync | XPending | XNextEvent
  | XCloseDisplay | XDestroyWindow | XCreateGC | XFreeGC | XSetForeground | XSetLineAttributes | XFillRectangle | XDrawLine | XFillArc | XDrawString | XQueryPointer | XAllocColor | XStoreName
  | XSetWMProtocols | XInternAtom | XCreatePixmap | XFreePixmap | XCopyArea | XDefaultDepth | XLookupString

datatype xres = RDisplay u64 | RWindow u64 u64 | RPixmap u64 u64 | RGC u64 u64

datatype xcall = StoreName u64 string | SelectInput u64 u64 | SetWMProtocols u64 u64 | SetForeground u64 u64 | FillRectangle u64 u64 u32 u32 u32 u32 | FillArc u64 u64 u32 u32 u32 u32 u32 u32
  | DrawString u64 u64 u32 u32 string u32 | SetLineAttributes u64 u32 | DrawLine u64 u64 u32 u32 u32 u32 | CopyArea u64 u64 u64 u32 u32 | MapWindow u64 | Flush | Sync

record unix_window =
  display :: u64
  window :: u64
  pixmap :: u64
  gc :: u64
  pixmap_gc :: u64
  colormap :: u64
  wm_delete :: u64
  depth :: u32
  width :: u32
  height :: u32
  is_open :: bool
  bg_pixel :: u64
  key_state :: "bool list"
  mouse_x :: u32
  mouse_y :: u32
  mouse_down :: bool

definition zero_window :: unix_window where
  "zero_window = \<lparr>display = 0, window = 0, pixmap = 0, gc = 0, pixmap_gc = 0, colormap = 0, wm_delete = 0, depth = 0, width = 0, height = 0, is_open = False, bg_pixel = 0,
     key_state = replicate 256 False, mouse_x = 0, mouse_y = 0, mouse_down = False\<rparr>"

record x11 =
  x11_lib :: bool
  p_sym :: "x11_sym \<Rightarrow> bool"
  unix_windows :: "unix_window list"
  xlive :: "xres set"
  xlog :: "(u64 \<times> xcall) list"

text \<open>At the start the library is not loaded and the slots are zero.\<close>

definition x11_start :: x11 where
  "x11_start = \<lparr>x11_lib = False, p_sym = (\<lambda>_. False), unix_windows = replicate 8 zero_window, xlive = {}, xlog = []\<rparr>"

abbreviation slot :: "x11 \<Rightarrow> int \<Rightarrow> unix_window" where
  "slot s i \<equiv> unix_windows s ! nat i"

definition set_slot :: "x11 \<Rightarrow> int \<Rightarrow> unix_window \<Rightarrow> x11" where
  "set_slot s i w = s\<lparr>unix_windows := (unix_windows s)[nat i := w]\<rparr>"

section \<open>Calls into the library\<close>

definition must_call :: "x11_sym \<Rightarrow> x11 \<Rightarrow> 'a res \<Rightarrow> 'a res" where
  "must_call f s k = (if p_sym s f then k else Inl (Fault ''null function pointer''))"

definition xdrawable :: "x11 \<Rightarrow> u64 \<Rightarrow> u64 \<Rightarrow> bool" where
  "xdrawable s d i \<longleftrightarrow> RWindow d i \<in> xlive s \<or> RPixmap d i \<in> xlive s"

text \<open>A request on display \<open>d\<close> needs the drawables and graphics contexts it names.\<close>

fun xuses :: "x11 \<Rightarrow> u64 \<Rightarrow> xcall \<Rightarrow> bool" where
  "xuses s d (StoreName w _) = (RWindow d w \<in> xlive s)"
| "xuses s d (SelectInput w _) = (RWindow d w \<in> xlive s)"
| "xuses s d (SetWMProtocols w _) = (RWindow d w \<in> xlive s)"
| "xuses s d (SetForeground g _) = (RGC d g \<in> xlive s)"
| "xuses s d (FillRectangle t g _ _ _ _) = (xdrawable s d t \<and> RGC d g \<in> xlive s)"
| "xuses s d (FillArc t g _ _ _ _ _ _) = (xdrawable s d t \<and> RGC d g \<in> xlive s)"
| "xuses s d (DrawString t g _ _ _ _) = (xdrawable s d t \<and> RGC d g \<in> xlive s)"
| "xuses s d (SetLineAttributes g _) = (RGC d g \<in> xlive s)"
| "xuses s d (DrawLine t g _ _ _ _) = (xdrawable s d t \<and> RGC d g \<in> xlive s)"
| "xuses s d (CopyArea p w g _ _) = (xdrawable s d p \<and> xdrawable s d w \<and> RGC d g \<in> xlive s)"
| "xuses s d (MapWindow w) = (RWindow d w \<in> xlive s)"
| "xuses s d Flush = True"
| "xuses s d Sync = True"

definition xreq :: "u64 \<Rightarrow> xcall \<Rightarrow> x11 \<Rightarrow> x11 res" where
  "xreq d c s = (if RDisplay d \<in> xlive s \<and> xuses s d c then Inr (s\<lparr>xlog := xlog s @ [(d, c)]\<rparr>) else Inl (Fault ''X resource is gone''))"

fun xreqs :: "u64 \<Rightarrow> xcall list \<Rightarrow> x11 \<Rightarrow> x11 res" where
  "xreqs d [] s = Inr s"
| "xreqs d (c # cs) s = bind_res (xreq d c s) (xreqs d cs)"

definition xalloc :: "xres \<Rightarrow> x11 \<Rightarrow> x11" where
  "xalloc r s = s\<lparr>xlive := insert r (xlive s)\<rparr>"

definition xfree :: "bool \<Rightarrow> xres \<Rightarrow> x11 \<Rightarrow> x11 res" where
  "xfree c r s = (if \<not> c then Inr s else if r \<in> xlive s then Inr (s\<lparr>xlive := xlive s - {r}\<rparr>) else Inl (Fault ''X resource is gone''))"

text \<open>Closing a display ends the connection and with it everything created on it.\<close>

fun res_display :: "xres \<Rightarrow> u64" where
  "res_display (RDisplay d) = d"
| "res_display (RWindow d _) = d"
| "res_display (RPixmap d _) = d"
| "res_display (RGC d _) = d"

definition xclose :: "u64 \<Rightarrow> x11 \<Rightarrow> x11 res" where
  "xclose d s = (if RDisplay d \<in> xlive s then Inr (s\<lparr>xlive := {r \<in> xlive s. res_display r \<noteq> d}\<rparr>) else Inl (Fault ''X resource is gone''))"

definition init_x11 :: "(string \<Rightarrow> bool) \<Rightarrow> (x11_sym \<Rightarrow> bool) \<Rightarrow> x11 \<Rightarrow> x11 \<times> bool" where
  "init_x11 dlopen dlsym s = (if x11_lib s then (s, True)
     else if \<not> dlopen ''libX11.so.6'' \<and> \<not> dlopen ''libX11.so'' then (s, False)
     else let s = s\<lparr>x11_lib := True, p_sym := dlsym\<rparr>
          in (s, p_sym s XOpenDisplay \<and> p_sym s XDefaultRootWindow \<and> p_sym s XCreateSimpleWindow \<and> p_sym s XMapWindow \<and> p_sym s XCreateGC \<and> p_sym s XFlush \<and> p_sym s XPending \<and> p_sym s XNextEvent))"

text \<open>What \<open>XAllocColor\<close> answers for a colormap and a colour.\<close>

type_synonym allocator = "u64 \<Rightarrow> u16 \<Rightarrow> u16 \<Rightarrow> u16 \<Rightarrow> u64 option"

definition lpp_x11_color :: "allocator \<Rightarrow> x11 \<Rightarrow> unix_window \<Rightarrow> i64 \<Rightarrow> u64" where
  "lpp_x11_color alloc s w hex = (if \<not> p_sym s XAllocColor then hex
     else let red = ucast ((drop_bit 16 hex AND 0xFF) * 257); green = ucast ((drop_bit 8 hex AND 0xFF) * 257); blue = ucast ((hex AND 0xFF) * 257)
          in case alloc (colormap w) red green blue of Some pixel \<Rightarrow> pixel | None \<Rightarrow> hex)"

section \<open>Windows\<close>

fun free_slot_loop :: "unix_window list \<Rightarrow> int \<Rightarrow> int" where
  "free_slot_loop [] i = - 1"
| "free_slot_loop (w # ws) i = (if \<not> is_open w \<and> display w = 0 then i else free_slot_loop ws (i + 1))"

definition lpp_unix_find_free_slot :: "x11 \<Rightarrow> int" where
  "lpp_unix_find_free_slot s = free_slot_loop (unix_windows s) 0"

definition lpp_unix_destroy_slot :: "int \<Rightarrow> x11 \<Rightarrow> x11 res" where
  "lpp_unix_destroy_slot i s = (let w = slot s i
     in if display w = 0 then Inr s
        else bind_res (xfree (gc w \<noteq> 0 \<and> p_sym s XFreeGC) (RGC (display w) (gc w)) s) (\<lambda>s.
          bind_res (xfree (pixmap_gc w \<noteq> 0 \<and> p_sym s XFreeGC) (RGC (display w) (pixmap_gc w)) s) (\<lambda>s.
          bind_res (xfree (pixmap w \<noteq> 0 \<and> p_sym s XFreePixmap) (RPixmap (display w) (pixmap w)) s) (\<lambda>s.
          bind_res (xfree (window w \<noteq> 0 \<and> p_sym s XDestroyWindow) (RWindow (display w) (window w)) s) (\<lambda>s.
          bind_res (if p_sym s XCloseDisplay then xclose (display w) s else Inr s) (\<lambda>s.
          Inr (set_slot s i zero_window)))))))"

text \<open>What the server answers while a window is created.\<close>

record xanswers =
  a_display :: u64
  a_cmap :: u64
  a_depth :: u32
  a_color :: allocator
  a_win :: u64
  a_atom :: u64
  a_pixmap :: u64
  a_gc :: u64
  a_pixmap_gc :: u64

definition event_mask :: u64 where
  "event_mask = push_bit 0 1 OR push_bit 1 1 OR push_bit 2 1 OR push_bit 3 1 OR push_bit 6 1 OR push_bit 15 1 OR push_bit 17 1"

text \<open>The resources of a new window: a creation that answers 0 created nothing.\<close>

definition xmake :: "(u64 \<Rightarrow> xres) \<Rightarrow> u64 \<Rightarrow> x11 \<Rightarrow> x11" where
  "xmake r x s = (if x = 0 then s else xalloc (r x) s)"

definition create_window :: "xanswers \<Rightarrow> cstr \<Rightarrow> i64 \<Rightarrow> i64 \<Rightarrow> int \<Rightarrow> x11 \<Rightarrow> (x11 \<times> int) res" where
  "create_window a title width' height' wid s = (let d = a_display a; win = a_win a; s = xalloc (RDisplay d) s
     in must_call XDefaultScreen s (must_call XDefaultRootWindow s (
        let cmap = (if p_sym s XDefaultColormap then a_cmap a else 0); dep = (if p_sym s XDefaultDepth then a_depth a else 24);
            bg = (if p_sym s XAllocColor then case a_color a cmap (19 * 257) (24 * 257) (33 * 257) of Some p \<Rightarrow> p | None \<Rightarrow> 0 else 0)
        in must_call XCreateSimpleWindow s (
           if win = 0 then must_call XCloseDisplay s (bind_res (xclose d s) (\<lambda>s. Inr (s, - 1)))
           else let s = xalloc (RWindow d win) s
           in bind_res (if p_sym s XStoreName then xreq d (StoreName win (case title of None \<Rightarrow> ''L++ GUI App'' | Some t \<Rightarrow> t)) s else Inr s) (\<lambda>s.
              bind_res (must_call XSelectInput s (xreq d (SelectInput win event_mask) s)) (\<lambda>s.
              let atom = (if p_sym s XInternAtom \<and> p_sym s XSetWMProtocols then a_atom a else 0)
              in bind_res (if atom \<noteq> 0 then xreq d (SetWMProtocols win atom) s else Inr s) (\<lambda>s.
              let pm = (if p_sym s XCreatePixmap then a_pixmap a else 0); s = xmake (RPixmap d) pm s
              in must_call XCreateGC s (
              let g = a_gc a; s = xmake (RGC d) g s; pg = (if pm \<noteq> 0 then a_pixmap_gc a else 0); s = xmake (RGC d) pg s
              in bind_res (if pg \<noteq> 0 \<and> p_sym s XSetForeground \<and> p_sym s XFillRectangle
                  then xreqs d [SetForeground pg bg, FillRectangle pm pg 0 0 (ucast width') (ucast height')] s else Inr s) (\<lambda>s.
              bind_res (must_call XMapWindow s (xreq d (MapWindow win) s)) (\<lambda>s.
              bind_res (if p_sym s XSync then xreq d Sync s else Inr s) (\<lambda>s.
              Inr (set_slot s wid ((slot s wid)\<lparr>display := d, window := win, pixmap := pm, gc := g, pixmap_gc := pg, colormap := cmap, wm_delete := atom, depth := dep,
                width := ucast width', height := ucast height', is_open := True, bg_pixel := bg\<rparr>), wid))))))))))))"

definition lpp_gui_window_create :: "(string \<Rightarrow> bool) \<Rightarrow> (x11_sym \<Rightarrow> bool) \<Rightarrow> xanswers \<Rightarrow> cstr \<Rightarrow> i64 \<Rightarrow> i64 \<Rightarrow> x11 \<Rightarrow> (x11 \<times> int) res" where
  "lpp_gui_window_create dlopen dlsym a title width' height' s =
     (if sint width' \<le> 0 \<or> sint width' > 65535 \<or> sint height' \<le> 0 \<or> sint height' > 65535 then Inr (s, - 1)
      else let wid = lpp_unix_find_free_slot s
      in if wid < 0 then Inr (s, - 1)
         else let (s, ok) = init_x11 dlopen dlsym s
              in if \<not> ok then Inr (s, - 1)
                 else must_call XOpenDisplay s (if a_display a = 0 then Inr (s, - 1) else create_window a title width' height' wid s))"

definition lpp_gui_window_close :: "int \<Rightarrow> x11 \<Rightarrow> x11 res" where
  "lpp_gui_window_close win_id s = (if win_id < 0 \<or> win_id \<ge> 8 then Inr s
     else let w = slot s win_id in if \<not> is_open w \<and> display w = 0 then Inr s
          else lpp_unix_destroy_slot win_id (set_slot s win_id (w\<lparr>is_open := False\<rparr>)))"

section \<open>Events\<close>

text \<open>An event with its payload words, and what the library answers while it is handled: the keysym \<open>XLookupString\<close> stores, the new pixmap and graphics context after a change of size.\<close>

record xevent =
  ev_type :: int
  ev_pad :: "nat \<Rightarrow> u64"
  ev_keysym :: u64
  ev_pixmap :: u64
  ev_gc :: u64

definition set_key :: "u64 \<Rightarrow> bool \<Rightarrow> unix_window \<Rightarrow> unix_window" where
  "set_key k b w = (if k < 256 then w\<lparr>key_state := (key_state w)[unat k := b]\<rparr> else w)"

definition key_press :: "x11 \<Rightarrow> xevent \<Rightarrow> unix_window \<Rightarrow> unix_window" where
  "key_press s ev w = set_key (ev_pad ev 1 AND 0xFF) True (if p_sym s XLookupString then set_key (ev_keysym ev) True w else w)"

definition key_release :: "x11 \<Rightarrow> xevent \<Rightarrow> unix_window \<Rightarrow> unix_window" where
  "key_release s ev w = (let w = set_key (ev_pad ev 1 AND 0xFF) False w in if p_sym s XLookupString then set_key (ev_keysym ev) False w else w)"

definition configure_notify :: "int \<Rightarrow> xevent \<Rightarrow> x11 \<Rightarrow> x11 res" where
  "configure_notify i ev s = (let w = slot s i; d = display w; new_w = ucast (ev_pad ev 6); new_h = ucast (ev_pad ev 7)
     in if sint new_w > 0 \<and> sint new_h > 0 \<and> (new_w \<noteq> width w \<or> new_h \<noteq> height w)
        then bind_res (xfree (p_sym s XFreePixmap \<and> pixmap w \<noteq> 0) (RPixmap d (pixmap w)) s) (\<lambda>s.
          bind_res (xfree (p_sym s XFreeGC \<and> pixmap_gc w \<noteq> 0) (RGC d (pixmap_gc w)) s) (\<lambda>s.
          let pm = (if p_sym s XCreatePixmap then ev_pixmap ev else 0); s = xmake (RPixmap d) pm s;
              pg = (if pm \<noteq> 0 \<and> p_sym s XCreateGC then ev_gc ev else 0); s = xmake (RGC d) pg s
          in Inr (set_slot s i (w\<lparr>width := new_w, height := new_h, pixmap := pm, pixmap_gc := pg\<rparr>))))
        else Inr s)"

definition blit :: "unix_window \<Rightarrow> x11 \<Rightarrow> x11 res" where
  "blit w s = xreq (display w) (CopyArea (pixmap w) (window w) (gc w) (width w) (height w)) s"

definition handle_event :: "int \<Rightarrow> xevent \<Rightarrow> x11 \<Rightarrow> x11 res" where
  "handle_event i ev s = (let w = slot s i
     in if ev_type ev = 2 then Inr (set_slot s i (key_press s ev w))
        else if ev_type ev = 3 then Inr (set_slot s i (key_release s ev w))
        else if ev_type ev = 4 then Inr (set_slot s i (w\<lparr>mouse_down := True\<rparr>))
        else if ev_type ev = 5 then Inr (set_slot s i (w\<lparr>mouse_down := False\<rparr>))
        else if ev_type ev = 6 then Inr (set_slot s i (w\<lparr>mouse_x := ucast (ev_pad ev 4), mouse_y := ucast (ev_pad ev 5)\<rparr>))
        else if ev_type ev = 22 then configure_notify i ev s
        else if ev_type ev = 12 then if pixmap w \<noteq> 0 \<and> gc w \<noteq> 0 \<and> p_sym s XCopyArea
            then bind_res (blit w s) (\<lambda>s. if p_sym s XFlush then xreq (display w) Flush s else Inr s) else Inr s
        else if ev_type ev = 17 then Inr (set_slot s i (w\<lparr>is_open := False\<rparr>))
        else if ev_type ev = 33 then Inr (if ev_pad ev 3 = wm_delete w then set_slot s i (w\<lparr>is_open := False\<rparr>) else s)
        else Inr s)"

fun event_loop :: "int \<Rightarrow> xevent list \<Rightarrow> x11 \<Rightarrow> x11 res" where
  "event_loop i [] s = Inr s"
| "event_loop i (ev # evs) s = must_call XNextEvent s (bind_res (handle_event i ev s) (event_loop i evs))"

definition open_id :: "x11 \<Rightarrow> int \<Rightarrow> bool" where
  "open_id s i \<longleftrightarrow> 0 \<le> i \<and> i < 8 \<and> is_open (slot s i)"

definition lpp_gui_window_poll_events :: "xevent list \<Rightarrow> int \<Rightarrow> x11 \<Rightarrow> (x11 \<times> int) res" where
  "lpp_gui_window_poll_events evs win_id s = (if \<not> open_id s win_id then Inr (s, 0)
     else if display (slot s win_id) = 0 \<or> \<not> p_sym s XPending then Inr (s, of_bool (is_open (slot s win_id)))
     else bind_res (event_loop win_id evs s) (\<lambda>s. Inr (s, of_bool (is_open (slot s win_id)))))"

definition lpp_gui_window_is_open :: "x11 \<Rightarrow> int \<Rightarrow> int" where
  "lpp_gui_window_is_open s win_id = of_bool (open_id s win_id)"

definition lpp_gui_window_width :: "x11 \<Rightarrow> int \<Rightarrow> int" where
  "lpp_gui_window_width s win_id = (if win_id < 0 \<or> win_id \<ge> 8 \<or> display (slot s win_id) = 0 then 0 else sint (width (slot s win_id)))"

definition lpp_gui_window_height :: "x11 \<Rightarrow> int \<Rightarrow> int" where
  "lpp_gui_window_height s win_id = (if win_id < 0 \<or> win_id \<ge> 8 \<or> display (slot s win_id) = 0 then 0 else sint (height (slot s win_id)))"

definition lpp_gui_mouse_x :: "x11 \<Rightarrow> int \<Rightarrow> int" where
  "lpp_gui_mouse_x s win_id = (if open_id s win_id then sint (mouse_x (slot s win_id)) else 0)"

definition lpp_gui_mouse_y :: "x11 \<Rightarrow> int \<Rightarrow> int" where
  "lpp_gui_mouse_y s win_id = (if open_id s win_id then sint (mouse_y (slot s win_id)) else 0)"

definition lpp_gui_mouse_down :: "x11 \<Rightarrow> int \<Rightarrow> int" where
  "lpp_gui_mouse_down s win_id = of_bool (open_id s win_id \<and> mouse_down (slot s win_id))"

definition lpp_gui_key_down :: "x11 \<Rightarrow> int \<Rightarrow> int \<Rightarrow> int" where
  "lpp_gui_key_down s win_id key_code = (if \<not> open_id s win_id then 0 else if key_code < 0 \<or> key_code > 255 then 0 else of_bool (key_state (slot s win_id) ! nat key_code))"

section \<open>Drawing\<close>

definition lpp_unix_target :: "unix_window \<Rightarrow> u64" where
  "lpp_unix_target w = (if pixmap w \<noteq> 0 then pixmap w else window w)"

definition lpp_unix_gc :: "unix_window \<Rightarrow> u64" where
  "lpp_unix_gc w = (if pixmap_gc w \<noteq> 0 then pixmap_gc w else gc w)"

text \<open>The common shape of the drawing calls: guards, then the colour, then the requests.\<close>

definition lpp_gui_clear :: "allocator \<Rightarrow> int \<Rightarrow> i64 \<Rightarrow> x11 \<Rightarrow> x11 res" where
  "lpp_gui_clear alloc win_id hex_color s = (let w = slot s win_id
     in if \<not> open_id s win_id \<or> display w = 0 \<or> \<not> p_sym s XSetForeground \<or> \<not> p_sym s XFillRectangle then Inr s
        else let pixel = lpp_x11_color alloc s w hex_color; s = set_slot s win_id (w\<lparr>bg_pixel := pixel\<rparr>); g = lpp_unix_gc w
        in xreqs (display w) [SetForeground g pixel, FillRectangle (lpp_unix_target w) g 0 0 (width w) (height w)] s)"

definition lpp_gui_draw_rect :: "allocator \<Rightarrow> int \<Rightarrow> i64 \<Rightarrow> i64 \<Rightarrow> i64 \<Rightarrow> i64 \<Rightarrow> i64 \<Rightarrow> x11 \<Rightarrow> x11 res" where
  "lpp_gui_draw_rect alloc win_id x y wd ht hex_color s = (let w = slot s win_id
     in if \<not> open_id s win_id \<or> display w = 0 \<or> \<not> p_sym s XSetForeground \<or> \<not> p_sym s XFillRectangle then Inr s
        else let g = lpp_unix_gc w
        in xreqs (display w) [SetForeground g (lpp_x11_color alloc s w hex_color), FillRectangle (lpp_unix_target w) g (ucast x) (ucast y) (ucast wd) (ucast ht)] s)"

definition lpp_gui_draw_rounded_rect :: "allocator \<Rightarrow> int \<Rightarrow> i64 \<Rightarrow> i64 \<Rightarrow> i64 \<Rightarrow> i64 \<Rightarrow> i64 \<Rightarrow> i64 \<Rightarrow> x11 \<Rightarrow> x11 res" where
  "lpp_gui_draw_rounded_rect alloc win_id x y wd ht radius hex_color s = (let w = slot s win_id
     in if \<not> open_id s win_id \<or> display w = 0 \<or> \<not> p_sym s XFillArc \<or> \<not> p_sym s XFillRectangle \<or> \<not> p_sym s XSetForeground then Inr s
        else let g = lpp_unix_gc w; t = lpp_unix_target w; r = ucast radius; d = r * 2; ix = ucast x; iy = ucast y; iw = ucast wd; ih = ucast ht
        in xreqs (display w) [SetForeground g (lpp_x11_color alloc s w hex_color),
             FillArc t g ix iy d d (90 * 64) (90 * 64), FillArc t g (ix + iw - d) iy d d 0 (90 * 64),
             FillArc t g ix (iy + ih - d) d d (180 * 64) (90 * 64), FillArc t g (ix + iw - d) (iy + ih - d) d d (270 * 64) (90 * 64),
             FillRectangle t g (ix + r) iy (iw - d) ih, FillRectangle t g ix (iy + r) r (ih - d), FillRectangle t g (ix + iw - r) (iy + r) r (ih - d)] s)"

definition lpp_gui_draw_text :: "allocator \<Rightarrow> int \<Rightarrow> i64 \<Rightarrow> i64 \<Rightarrow> cstr \<Rightarrow> i64 \<Rightarrow> x11 \<Rightarrow> x11 res" where
  "lpp_gui_draw_text alloc win_id x y txt hex_color s = (case txt of None \<Rightarrow> Inr s | Some tx \<Rightarrow> let w = slot s win_id
     in if \<not> open_id s win_id \<or> display w = 0 \<or> \<not> p_sym s XSetForeground \<or> \<not> p_sym s XDrawString then Inr s
        else let g = lpp_unix_gc w
        in xreqs (display w) [SetForeground g (lpp_x11_color alloc s w hex_color), DrawString (lpp_unix_target w) g (ucast x) (ucast (y + 13)) tx (of_nat (length tx))] s)"

definition lpp_gui_present :: "int \<Rightarrow> x11 \<Rightarrow> x11 res" where
  "lpp_gui_present win_id s = (let w = slot s win_id
     in if \<not> open_id s win_id \<or> display w = 0 then Inr s
        else bind_res (if pixmap w \<noteq> 0 \<and> gc w \<noteq> 0 \<and> p_sym s XCopyArea then blit w s else Inr s) (\<lambda>s. if p_sym s XFlush then xreq (display w) Flush s else Inr s))"

definition lpp_gui_draw_circle :: "allocator \<Rightarrow> int \<Rightarrow> i64 \<Rightarrow> i64 \<Rightarrow> i64 \<Rightarrow> i64 \<Rightarrow> x11 \<Rightarrow> x11 res" where
  "lpp_gui_draw_circle alloc win_id cx cy r hex_color s = (let w = slot s win_id
     in if \<not> open_id s win_id \<or> display w = 0 \<or> \<not> p_sym s XFillArc \<or> \<not> p_sym s XSetForeground then Inr s
        else let g = lpp_unix_gc w
        in xreqs (display w) [SetForeground g (lpp_x11_color alloc s w hex_color),
             FillArc (lpp_unix_target w) g (ucast (cx - r)) (ucast (cy - r)) (ucast (r * 2)) (ucast (r * 2)) 0 (360 * 64)] s)"

definition lpp_gui_draw_line :: "allocator \<Rightarrow> int \<Rightarrow> i64 \<Rightarrow> i64 \<Rightarrow> i64 \<Rightarrow> i64 \<Rightarrow> i64 \<Rightarrow> i64 \<Rightarrow> x11 \<Rightarrow> x11 res" where
  "lpp_gui_draw_line alloc win_id x1 y1 x2 y2 thick hex_color s = (let w = slot s win_id
     in if \<not> open_id s win_id \<or> display w = 0 \<or> \<not> p_sym s XDrawLine \<or> \<not> p_sym s XSetForeground then Inr s
        else let g = lpp_unix_gc w
        in xreqs (display w) ([SetForeground g (lpp_x11_color alloc s w hex_color)]
             @ (if p_sym s XSetLineAttributes then [SetLineAttributes g (ucast (if sint thick > 0 then thick else 1))] else [])
             @ [DrawLine (lpp_unix_target w) g (ucast x1) (ucast y1) (ucast x2) (ucast y2)]) s)"

definition lpp_gui_measure_text_width :: "cstr \<Rightarrow> int" where
  "lpp_gui_measure_text_width txt = (case txt of None \<Rightarrow> 0 | Some tx \<Rightarrow> int (length tx) * 8)"

definition lpp_gui_dialog_message :: "cstr \<Rightarrow> cstr \<Rightarrow> string \<times> int" where
  "lpp_gui_dialog_message title msg = (''['' @ (case title of None \<Rightarrow> ''Alert'' | Some t \<Rightarrow> t) @ ''] '' @ (case msg of None \<Rightarrow> [] | Some t \<Rightarrow> t) @ [CHR 0x0A], 1)"

definition lpp_gui_get_ticks_ms :: "int \<Rightarrow> int \<Rightarrow> int" where
  "lpp_gui_get_ticks_ms tv_sec tv_nsec = tv_sec * 1000 + tv_nsec div 1000000"

section \<open>Requests that succeed\<close>

lemma xuses_log [simp]: "xuses (s\<lparr>xlog := l\<rparr>) d c = xuses s d c"
  by (cases c) (auto simp: xdrawable_def)

lemma xreqs_ok: "RDisplay d \<in> xlive s \<Longrightarrow> list_all (xuses s d) cs \<Longrightarrow> xreqs d cs s = Inr (s\<lparr>xlog := xlog s @ map (Pair d) cs\<rparr>)"
proof (induction cs arbitrary: s)
  case (Cons c cs)
  have "xreqs d cs (s\<lparr>xlog := xlog s @ [(d, c)]\<rparr>) = Inr (s\<lparr>xlog := xlog s @ map (Pair d) (c # cs)\<rparr>)"
    using Cons.prems by (subst Cons.IH) (auto simp: list_all_iff)
  then show ?case using Cons.prems by (simp add: xreq_def)
qed simp

declare xreqs.simps [simp del]

lemma log_self [simp]: "\<exists>l. s = s\<lparr>xlog := l\<rparr>"
  by (rule exI [of _ "xlog s"]) simp

lemma log_any [simp]: "\<exists>l. s\<lparr>xlog := k\<rparr> = s\<lparr>xlog := l\<rparr>"
  by blast

lemma xreq_ok: "RDisplay d \<in> xlive s \<Longrightarrow> xuses s d c \<Longrightarrow> xreq d c s = Inr (s\<lparr>xlog := xlog s @ [(d, c)]\<rparr>)"
  by (simp add: xreq_def)

section \<open>Ownership of resources\<close>

text \<open>The resources a slot holds. They all belong to the display of the slot.\<close>

definition own :: "unix_window \<Rightarrow> xres set" where
  "own w = (if display w = 0 then {} else {RDisplay (display w), RWindow (display w) (window w), RGC (display w) (gc w)}
     \<union> (if pixmap w = 0 then {} else {RPixmap (display w) (pixmap w)}) \<union> (if pixmap_gc w = 0 then {} else {RGC (display w) (pixmap_gc w)}))"

definition window_ok :: "unix_window \<Rightarrow> bool" where
  "window_ok w \<longleftrightarrow> length (key_state w) = 256 \<and> (if display w = 0 then \<not> is_open w else window w \<noteq> 0 \<and> gc w \<noteq> 0 \<and> gc w \<noteq> pixmap_gc w)"

definition x11_inv :: "x11 \<Rightarrow> bool" where
  "x11_inv s \<longleftrightarrow> length (unix_windows s) = 8 \<and> (\<forall>i < 8. window_ok (unix_windows s ! i)) \<and> xlive s = (\<Union>i < 8. own (unix_windows s ! i)) \<and>
     (\<forall>i < 8. \<forall>j < 8. i \<noteq> j \<longrightarrow> display (unix_windows s ! i) \<noteq> 0 \<longrightarrow> display (unix_windows s ! i) \<noteq> display (unix_windows s ! j)) \<and>
     (x11_lib s \<longrightarrow> (\<forall>f. p_sym s f)) \<and> (\<not> x11_lib s \<longrightarrow> (\<forall>i < 8. display (unix_windows s ! i) = 0))"

lemma own_display: "r \<in> own w \<Longrightarrow> res_display r = display w \<and> display w \<noteq> 0"
  by (auto simp: own_def split: if_splits)

lemma own_zero [simp]: "own zero_window = {}" "window_ok zero_window" "display zero_window = 0"
  by (simp_all add: own_def zero_window_def window_ok_def)

lemma own_cong:
  assumes "display v = display w" "window v = window w" "gc v = gc w" "pixmap v = pixmap w" "pixmap_gc v = pixmap_gc w"
  shows "own v = own w"
  using assms by (simp add: own_def)

lemma inv_start: "x11_inv x11_start"
  by (simp add: x11_inv_def x11_start_def)

lemma inv_log [simp]: "x11_inv (s\<lparr>xlog := l\<rparr>) = x11_inv s"
  by (simp add: x11_inv_def)

lemma live_iff:
  assumes "x11_inv s" "i < 8" "display (unix_windows s ! i) \<noteq> 0" "res_display r = display (unix_windows s ! i)"
  shows "r \<in> xlive s \<longleftrightarrow> r \<in> own (unix_windows s ! i)"
  using assms by (auto simp: x11_inv_def dest: own_display) (metis own_display)

text \<open>Replacing one slot together with its resources keeps the invariant.\<close>

lemma inv_replace:
  assumes inv: "x11_inv s" and i: "i < 8" and ok: "window_ok w"
    and uniq: "\<And>j. j < 8 \<Longrightarrow> j \<noteq> i \<Longrightarrow> display w \<noteq> 0 \<Longrightarrow> display (unix_windows s ! j) \<noteq> display w"
    and lib: "display w \<noteq> 0 \<Longrightarrow> x11_lib s"
    and s': "unix_windows s' = (unix_windows s)[i := w]" "xlive s' = xlive s - own (unix_windows s ! i) \<union> own w" "x11_lib s' = x11_lib s" "p_sym s' = p_sym s"
  shows "x11_inv s'"
proof -
  have len: "length (unix_windows s) = 8" and live: "xlive s = (\<Union>j < 8. own (unix_windows s ! j))" using inv by (simp_all add: x11_inv_def)
  have disj: "own (unix_windows s ! i) \<inter> own (unix_windows s ! j) = {}" if "j < 8" "j \<noteq> i" for j
    using that inv i by (fastforce simp: x11_inv_def dest: own_display)
  have nth: "unix_windows s' ! j = (if j = i then w else unix_windows s ! j)" if "j < 8" for j using that s'(1) len i by simp
  have "xlive s' = (\<Union>j < 8. own (unix_windows s' ! j))"
  proof -
    have "(\<Union>j < 8. own (unix_windows s' ! j)) = own w \<union> (\<Union>j \<in> {..<8} - {i}. own (unix_windows s ! j))" using i nth by (auto split: if_splits)
    moreover have "(\<Union>j \<in> {..<8} - {i}. own (unix_windows s ! j)) = xlive s - own (unix_windows s ! i)" using live disj i by auto
    ultimately show ?thesis using s'(2) by (simp add: Un_commute)
  qed
  moreover have "window_ok (unix_windows s' ! j)" if "j < 8" for j using that inv ok nth by (simp add: x11_inv_def)
  moreover have "display (unix_windows s' ! j) \<noteq> display (unix_windows s' ! k)" if "j < 8" "k < 8" "j \<noteq> k" "display (unix_windows s' ! j) \<noteq> 0" for j k
    using that inv uniq [of j] uniq [of k] nth [of j] nth [of k] by (auto simp: x11_inv_def split: if_splits)
  moreover have "display (unix_windows s' ! j) = 0" if "\<not> x11_lib s'" "j < 8" for j using that inv lib nth [of j] s'(3) by (cases "j = i") (auto simp: x11_inv_def)
  moreover have "x11_lib s' \<longrightarrow> (\<forall>f. p_sym s' f)" "length (unix_windows s') = 8" using inv s' len by (simp_all add: x11_inv_def)
  ultimately show ?thesis unfolding x11_inv_def by blast
qed

lemma inv_uniq: "x11_inv s \<Longrightarrow> 0 \<le> i \<Longrightarrow> i < 8 \<Longrightarrow> j < 8 \<Longrightarrow> j \<noteq> nat i \<Longrightarrow> display (slot s i) \<noteq> 0 \<Longrightarrow> display (unix_windows s ! j) \<noteq> display (slot s i)"
  unfolding x11_inv_def by (metis nat_less_iff of_nat_numeral)

text \<open>An event or a call that leaves the resources of a slot alone.\<close>

lemma inv_set_slot:
  assumes "x11_inv s" "0 \<le> i" "i < 8" "own w = own (slot s i)" "window_ok w" "display w = display (slot s i)"
  shows "x11_inv (set_slot s i w)"
proof (rule inv_replace [OF assms(1), of "nat i" w])
  have "own (slot s i) \<subseteq> xlive s" using assms(1-3) by (force simp: x11_inv_def)
  then show "xlive (set_slot s i w) = xlive s - own (slot s i) \<union> own w" using assms(4) by (auto simp: set_slot_def)
  fix j assume "j < 8" "j \<noteq> nat i" "display w \<noteq> 0"
  then show "display (unix_windows s ! j) \<noteq> display w" using inv_uniq [OF assms(1-3)] assms(6) by simp
qed (use assms in \<open>auto simp: set_slot_def x11_inv_def\<close>)

section \<open>Every operation keeps the invariant\<close>

text \<open>What a slot with a display may use.\<close>

lemma slot_live:
  assumes "x11_inv s" "0 \<le> i" "i < 8" "display (slot s i) \<noteq> 0"
  shows "own (slot s i) \<subseteq> xlive s" "x11_lib s" "p_sym s f" "window_ok (slot s i)"
  using assms by (force simp: x11_inv_def)+

lemma open_slot: "x11_inv s \<Longrightarrow> open_id s i \<Longrightarrow> 0 \<le> i \<and> i < 8 \<and> display (slot s i) \<noteq> 0"
  by (auto simp: x11_inv_def open_id_def window_ok_def)

lemma slot_uses:
  assumes "x11_inv s" "0 \<le> i" "i < 8" "display (slot s i) \<noteq> 0"
  shows "RDisplay (display (slot s i)) \<in> xlive s" "RWindow (display (slot s i)) (window (slot s i)) \<in> xlive s"
    "RGC (display (slot s i)) (gc (slot s i)) \<in> xlive s" "RGC (display (slot s i)) (lpp_unix_gc (slot s i)) \<in> xlive s"
    "xdrawable s (display (slot s i)) (lpp_unix_target (slot s i))" "xdrawable s (display (slot s i)) (window (slot s i))"
    "pixmap (slot s i) \<noteq> 0 \<Longrightarrow> xdrawable s (display (slot s i)) (pixmap (slot s i))"
  using slot_live [OF assms] assms(4) by (auto simp: own_def lpp_unix_gc_def lpp_unix_target_def xdrawable_def)

lemma set_slot_simps [simp]: "p_sym (set_slot s i w) = p_sym s" "x11_lib (set_slot s i w) = x11_lib s" "xlive (set_slot s i w) = xlive s" "xlog (set_slot s i w) = xlog s"
  by (simp_all add: set_slot_def)

lemma xdrawable_set_slot [simp]: "xdrawable (set_slot s i w) d t = xdrawable s d t"
  by (simp add: xdrawable_def)

text \<open>Drawing calls succeed and only extend the log.\<close>

lemma draw_ok:
  assumes "x11_inv s"
  shows "\<exists>l. lpp_gui_draw_rect alloc i x y wd ht c s = Inr (s\<lparr>xlog := l\<rparr>)" "\<exists>l. lpp_gui_draw_rounded_rect alloc i x y wd ht r c s = Inr (s\<lparr>xlog := l\<rparr>)"
    "\<exists>l. lpp_gui_draw_text alloc i x y txt c s = Inr (s\<lparr>xlog := l\<rparr>)" "\<exists>l. lpp_gui_draw_circle alloc i x y r c s = Inr (s\<lparr>xlog := l\<rparr>)"
    "\<exists>l. lpp_gui_draw_line alloc i x y x' y' th c s = Inr (s\<lparr>xlog := l\<rparr>)" "\<exists>l. lpp_gui_present i s = Inr (s\<lparr>xlog := l\<rparr>)"
proof -
  let ?w = "slot s i"
  have u: "RDisplay (display ?w) \<in> xlive s" "RGC (display ?w) (gc ?w) \<in> xlive s" "RGC (display ?w) (lpp_unix_gc ?w) \<in> xlive s"
    "xdrawable s (display ?w) (lpp_unix_target ?w)" "xdrawable s (display ?w) (window ?w)" "pixmap ?w \<noteq> 0 \<longrightarrow> xdrawable s (display ?w) (pixmap ?w)" if "open_id s i"
    using slot_uses [OF assms, of i] open_slot [OF assms that] by simp_all
  show "\<exists>l. lpp_gui_draw_rect alloc i x y wd ht c s = Inr (s\<lparr>xlog := l\<rparr>)"
    using u by (auto simp: lpp_gui_draw_rect_def Let_def xreqs_ok)
  show "\<exists>l. lpp_gui_draw_rounded_rect alloc i x y wd ht r c s = Inr (s\<lparr>xlog := l\<rparr>)"
    using u by (auto simp: lpp_gui_draw_rounded_rect_def Let_def xreqs_ok)
  show "\<exists>l. lpp_gui_draw_text alloc i x y txt c s = Inr (s\<lparr>xlog := l\<rparr>)"
    using u by (auto simp: lpp_gui_draw_text_def Let_def xreqs_ok split: option.split)
  show "\<exists>l. lpp_gui_draw_circle alloc i x y r c s = Inr (s\<lparr>xlog := l\<rparr>)"
    using u by (auto simp: lpp_gui_draw_circle_def Let_def xreqs_ok)
  show "\<exists>l. lpp_gui_draw_line alloc i x y x' y' th c s = Inr (s\<lparr>xlog := l\<rparr>)"
    using u by (auto simp: lpp_gui_draw_line_def Let_def xreqs_ok)
  show "\<exists>l. lpp_gui_present i s = Inr (s\<lparr>xlog := l\<rparr>)"
    using u by (auto simp: lpp_gui_present_def blit_def Let_def xreq_ok)
qed

lemma gui_clear_ok:
  assumes "x11_inv s"
  shows "\<exists>s'. lpp_gui_clear alloc i c s = Inr s' \<and> x11_inv s'"
proof (cases "open_id s i")
  case True
  note o = open_slot [OF assms True]
  then have i: "0 \<le> i" "i < 8" "display (slot s i) \<noteq> 0" by blast+
  let ?s = "set_slot s i ((slot s i)\<lparr>bg_pixel := lpp_x11_color alloc s (slot s i) c\<rparr>)"
  have inv: "x11_inv ?s" by (rule inv_set_slot [OF assms i(1,2)]) (use slot_live(4) [OF assms i] in \<open>auto simp: own_def window_ok_def\<close>)
  have "lpp_gui_clear alloc i c s = Inr (?s\<lparr>xlog := xlog ?s @ map (Pair (display (slot s i))) [SetForeground (lpp_unix_gc (slot s i)) (lpp_x11_color alloc s (slot s i) c),
      FillRectangle (lpp_unix_target (slot s i)) (lpp_unix_gc (slot s i)) 0 0 (width (slot s i)) (height (slot s i))]\<rparr>)"
    using True i slot_uses [OF assms i] slot_live(3) [OF assms i] by (simp add: lpp_gui_clear_def Let_def xreqs_ok)
  then show ?thesis using inv inv_log by (metis)
qed (simp add: lpp_gui_clear_def assms)

text \<open>Closing a slot frees exactly what it owns.\<close>

lemma xfree_ok: "(c \<longrightarrow> r \<in> xlive s) \<Longrightarrow> xfree c r s = Inr (s\<lparr>xlive := xlive s - (if c then {r} else {})\<rparr>)"
  by (simp add: xfree_def)

lemma destroy_slot_ok:
  assumes inv: "x11_inv s" and i: "0 \<le> i" "i < 8" "display (slot s i) \<noteq> 0"
  shows "lpp_unix_destroy_slot i (set_slot s i ((slot s i)\<lparr>is_open := False\<rparr>)) = Inr (set_slot (s\<lparr>xlive := xlive s - own (slot s i)\<rparr>) i zero_window)"
proof -
  let ?w = "slot s i" let ?d = "display ?w"
  have len: "nat i < length (unix_windows s)" using inv i by (auto simp: x11_inv_def)
  have ok: "window_ok ?w" and p: "\<And>f. p_sym s f" and live: "own ?w \<subseteq> xlive s" using slot_live [OF inv i] by auto
  have e: "{r. (((r \<in> xlive s \<and> r \<notin> A) \<and> r \<notin> B) \<and> r \<notin> C) \<and> r \<notin> D \<and> res_display r \<noteq> ?d} = xlive s - own ?w" if "A \<subseteq> own ?w" "B \<subseteq> own ?w" "C \<subseteq> own ?w" "D \<subseteq> own ?w" for A B C D
    using that live_iff [OF inv, of "nat i"] i own_display by (auto simp: nat_less_iff)
  let ?A = "{RGC ?d (gc ?w)}" let ?B = "if pixmap_gc ?w \<noteq> 0 then {RGC ?d (pixmap_gc ?w)} else {}"
  let ?C = "if pixmap ?w \<noteq> 0 then {RPixmap ?d (pixmap ?w)} else {}" let ?D = "{RWindow ?d (window ?w)}"
  have sub: "?A \<subseteq> own ?w" "?B \<subseteq> own ?w" "?C \<subseteq> own ?w" "?D \<subseteq> own ?w" "RDisplay ?d \<in> own ?w" using i(3) by (auto simp: own_def)
  have "lpp_unix_destroy_slot i (set_slot s i (?w\<lparr>is_open := False\<rparr>)) =
      Inr (set_slot (s\<lparr>xlive := {r. (((r \<in> xlive s \<and> r \<notin> ?A) \<and> r \<notin> ?B) \<and> r \<notin> ?C) \<and> r \<notin> ?D \<and> res_display r \<noteq> ?d}\<rparr>) i zero_window)"
    using ok i(3) sub live len by (auto simp: lpp_unix_destroy_slot_def Let_def xfree_ok xclose_def p window_ok_def set_slot_def subset_iff simp del: bind_res_Inr_iff)
  then show ?thesis using e [OF sub(1-4)] by simp
qed

lemma close_ok:
  assumes inv: "x11_inv s"
  shows "\<exists>s'. lpp_gui_window_close i s = Inr s' \<and> x11_inv s' \<and> (0 \<le> i \<and> i < 8 \<longrightarrow> xlive s' = xlive s - own (slot s i) \<and> display (slot s' i) = 0 \<and> \<not> is_open (slot s' i))"
proof (cases "0 \<le> i \<and> i < 8 \<and> display (slot s i) \<noteq> 0")
  case True
  then have i: "0 \<le> i" "i < 8" "display (slot s i) \<noteq> 0" by blast+
  let ?s = "set_slot (s\<lparr>xlive := xlive s - own (slot s i)\<rparr>) i zero_window"
  have "x11_inv ?s" by (rule inv_replace [OF inv, of "nat i" zero_window]) (use i in \<open>auto simp: set_slot_def\<close>)
  moreover have "slot ?s i = zero_window" using inv i by (simp add: set_slot_def x11_inv_def nat_less_iff)
  ultimately show ?thesis using destroy_slot_ok [OF inv i] i by (simp add: lpp_gui_window_close_def Let_def zero_window_def)
next
  case False
  moreover from False have "\<not> is_open (slot s i)" if "0 \<le> i" "i < 8" using that inv by (auto simp: x11_inv_def window_ok_def nat_less_iff)
  ultimately show ?thesis using inv by (auto simp: lpp_gui_window_close_def Let_def own_def)
qed

lemma key_ok [simp]:
  "own (set_key k b w) = own w" "window_ok (set_key k b w) = window_ok w" "display (set_key k b w) = display w" "is_open (set_key k b w) = is_open w"
  "wm_delete (set_key k b w) = wm_delete w" "gc (set_key k b w) = gc w"
  by (auto simp: set_key_def own_def window_ok_def)

lemma slot_set_slot: "x11_inv s \<Longrightarrow> 0 \<le> i \<Longrightarrow> i < 8 \<Longrightarrow> slot (set_slot s i w) i = w"
  by (simp add: set_slot_def x11_inv_def nat_less_iff)

lemma xmake_simps [simp]: "unix_windows (xmake r x s) = unix_windows s" "x11_lib (xmake r x s) = x11_lib s" "p_sym (xmake r x s) = p_sym s" "xlog (xmake r x s) = xlog s"
  "xlive (xmake r x s) = (if x = 0 then {} else {r x}) \<union> xlive s"
  by (auto simp: xmake_def xalloc_def)

lemma configure_ok:
  assumes inv: "x11_inv s" and i: "0 \<le> i" "i < 8" "display (slot s i) \<noteq> 0" and f: "ev_gc ev \<noteq> gc (slot s i)"
  shows "\<exists>s' w. configure_notify i ev s = Inr s' \<and> x11_inv s' \<and> slot s' i = w \<and> display w = display (slot s i) \<and> gc w = gc (slot s i) \<and>
    wm_delete w = wm_delete (slot s i) \<and> is_open w = is_open (slot s i)"
proof (cases "sint (ucast (ev_pad ev 6) :: u32) > 0 \<and> sint (ucast (ev_pad ev 7) :: u32) > 0 \<and> (ucast (ev_pad ev 6) \<noteq> width (slot s i) \<or> ucast (ev_pad ev 7) \<noteq> height (slot s i))")
  case True
  let ?w = "slot s i" let ?d = "display ?w"
  let ?pg = "if ev_pixmap ev \<noteq> 0 then ev_gc ev else 0"
  let ?v = "?w\<lparr>width := ucast (ev_pad ev 6), height := ucast (ev_pad ev 7), pixmap := ev_pixmap ev, pixmap_gc := ?pg\<rparr>"
  let ?t = "s\<lparr>xlive := xlive s - (if pixmap ?w \<noteq> 0 then {RPixmap ?d (pixmap ?w)} else {}) - (if pixmap_gc ?w \<noteq> 0 then {RGC ?d (pixmap_gc ?w)} else {})\<rparr>"
  let ?s = "set_slot (xmake (RGC ?d) ?pg (xmake (RPixmap ?d) (ev_pixmap ev) ?t)) i ?v"
  note L = slot_live [OF inv i]
  have run: "configure_notify i ev s = Inr ?s"
    using True L i(3) by (auto simp: configure_notify_def Let_def xfree_ok own_def simp del: bind_res_Inr_iff)
  have "x11_inv ?s"
  proof (rule inv_replace [OF inv, of "nat i" ?v])
    show "window_ok ?v" using L(4) f i(3) by (simp add: window_ok_def)
    show "xlive ?s = xlive s - own ?w \<union> own ?v" using L(1,4) i(3) f by (auto simp: own_def window_ok_def split: if_splits)
  next
    fix j assume "j < 8" "j \<noteq> nat i" "display ?v \<noteq> 0"
    then show "display (unix_windows s ! j) \<noteq> display ?v" using inv_uniq [OF inv i(1,2)] i(3) by simp
  qed (use i L in \<open>auto simp: set_slot_def\<close>)
  moreover have "slot ?s i = ?v" using inv i by (simp add: set_slot_def x11_inv_def nat_less_iff)
  ultimately show ?thesis using run by auto
qed (use inv in \<open>auto simp: configure_notify_def Let_def\<close>)


lemma window_upd [simp]: "own (w\<lparr>mouse_down := b\<rparr>) = own w" "own (w\<lparr>mouse_x := x, mouse_y := y\<rparr>) = own w" "own (w\<lparr>is_open := b\<rparr>) = own w"
  "window_ok (w\<lparr>mouse_down := b\<rparr>) = window_ok w" "window_ok (w\<lparr>mouse_x := x, mouse_y := y\<rparr>) = window_ok w" "window_ok w \<Longrightarrow> window_ok (w\<lparr>is_open := False\<rparr>)"
  by (simp_all add: own_def window_ok_def)

lemma handle_event_ok:
  assumes inv: "x11_inv s" and i: "0 \<le> i" "i < 8" "display (slot s i) \<noteq> 0" and f: "ev_gc ev \<noteq> gc (slot s i)"
  shows "\<exists>s'. handle_event i ev s = Inr s' \<and> x11_inv s' \<and> display (slot s' i) = display (slot s i) \<and> gc (slot s' i) = gc (slot s i) \<and> wm_delete (slot s' i) = wm_delete (slot s i) \<and>
    (is_open (slot s' i) \<longleftrightarrow> is_open (slot s i) \<and> ev_type ev \<noteq> 17 \<and> \<not> (ev_type ev = 33 \<and> ev_pad ev 3 = wm_delete (slot s i)))"
proof -
  note L = slot_live [OF inv i] and U = slot_uses [OF inv i]
  have set: "x11_inv (set_slot s i w) \<and> slot (set_slot s i w) i = w" if "own w = own (slot s i)" "window_ok w" "display w = display (slot s i)" for w
    using inv_set_slot [OF inv i(1,2) that] slot_set_slot [OF inv i(1,2)] by simp
  have "\<exists>l. (if pixmap (slot s i) \<noteq> 0 \<and> gc (slot s i) \<noteq> 0 \<and> p_sym s XCopyArea
      then bind_res (blit (slot s i) s) (\<lambda>t. if p_sym t XFlush then xreq (display (slot s i)) Flush t else Inr t) else Inr s) = Inr (s\<lparr>xlog := l\<rparr>)"
    using U by (auto simp: blit_def xreq_ok)
  then have "ev_type ev = 12 \<Longrightarrow> \<exists>l. handle_event i ev s = Inr (s\<lparr>xlog := l\<rparr>)" by (simp add: handle_event_def Let_def del: bind_res_Inr_iff)
  then have "ev_type ev = 12 \<Longrightarrow> ?thesis" using inv by auto
  moreover have "ev_type ev \<noteq> 12 \<Longrightarrow> ?thesis"
    using configure_ok [OF inv i f] set inv L(4) by (auto simp: handle_event_def Let_def key_press_def key_release_def)
  ultimately show ?thesis by blast
qed

lemma event_loop_ok:
  assumes "x11_inv s" "0 \<le> i" "i < 8" "display (slot s i) \<noteq> 0" "\<forall>ev \<in> set evs. ev_gc ev \<noteq> gc (slot s i)"
  shows "\<exists>s'. event_loop i evs s = Inr s' \<and> x11_inv s' \<and> display (slot s' i) = display (slot s i) \<and>
    (is_open (slot s' i) \<longleftrightarrow> is_open (slot s i) \<and> (\<forall>ev \<in> set evs. ev_type ev \<noteq> 17 \<and> \<not> (ev_type ev = 33 \<and> ev_pad ev 3 = wm_delete (slot s i))))"
  using assms
proof (induction evs arbitrary: s)
  case (Cons ev evs)
  from handle_event_ok [OF Cons.prems(1-4), of ev] Cons.prems(5) obtain t where t: "handle_event i ev s = Inr t" "x11_inv t" "display (slot t i) = display (slot s i)"
    "gc (slot t i) = gc (slot s i)" "wm_delete (slot t i) = wm_delete (slot s i)"
    "is_open (slot t i) \<longleftrightarrow> is_open (slot s i) \<and> ev_type ev \<noteq> 17 \<and> \<not> (ev_type ev = 33 \<and> ev_pad ev 3 = wm_delete (slot s i))" by auto
  have "p_sym s XNextEvent" using slot_live(3) [OF Cons.prems(1-4)] .
  then show ?case using Cons.IH [OF t(2) Cons.prems(2,3)] Cons.prems(4,5) t by (auto simp: must_call_def)
qed simp

lemma poll_ok:
  assumes "x11_inv s" "open_id s i \<Longrightarrow> \<forall>ev \<in> set evs. ev_gc ev \<noteq> gc (slot s i)"
  shows "\<exists>s'. lpp_gui_window_poll_events evs i s = Inr (s', lpp_gui_window_is_open s' i) \<and> x11_inv s' \<and>
    (open_id s' i \<longleftrightarrow> open_id s i \<and> (\<forall>ev \<in> set evs. ev_type ev \<noteq> 17 \<and> \<not> (ev_type ev = 33 \<and> ev_pad ev 3 = wm_delete (slot s i))))"
proof (cases "open_id s i")
  case True
  note o = open_slot [OF assms(1) True]
  then show ?thesis using event_loop_ok [OF assms(1), of i evs] assms(2) True slot_live(3) [OF assms(1), of i]
    by (auto simp: lpp_gui_window_poll_events_def lpp_gui_window_is_open_def open_id_def)
qed (use assms(1) in \<open>simp add: lpp_gui_window_poll_events_def lpp_gui_window_is_open_def\<close>)

text \<open>A new window takes a free slot.\<close>

lemma free_slot_loop_ok:
  "free_slot_loop ws i \<ge> 0 \<Longrightarrow> i \<ge> 0 \<Longrightarrow> \<exists>k < length ws. free_slot_loop ws i = i + int k \<and> \<not> is_open (ws ! k) \<and> display (ws ! k) = 0"
proof (induction ws i rule: free_slot_loop.induct)
  case (2 w ws i)
  then show ?case
  proof (cases "\<not> is_open w \<and> display w = 0")
    case False
    with 2 obtain k where "k < length ws" "free_slot_loop ws (i + 1) = i + 1 + int k" "\<not> is_open (ws ! k) \<and> display (ws ! k) = 0" by auto
    then show ?thesis using False by (intro exI [of _ "Suc k"]) auto
  qed auto
qed simp

lemma free_slot_first: "i \<ge> 0 \<Longrightarrow> k < length ws \<Longrightarrow> \<not> is_open (ws ! k) \<Longrightarrow> display (ws ! k) = 0 \<Longrightarrow> i \<le> free_slot_loop ws i \<and> free_slot_loop ws i \<le> i + int k"
proof (induction ws i arbitrary: k rule: free_slot_loop.induct)
  case (2 w ws i)
  then show ?case by (cases k) (force dest: 2(1))+
qed simp

definition fresh_answers :: "x11 \<Rightarrow> (x11_sym \<Rightarrow> bool) \<Rightarrow> xanswers \<Rightarrow> bool" where
  "fresh_answers s dlsym a \<longleftrightarrow> (\<forall>f. dlsym f) \<and> RDisplay (a_display a) \<notin> xlive s \<and> a_gc a \<noteq> 0 \<and> a_gc a \<noteq> a_pixmap_gc a"

lemma create_window_ok:
  assumes inv: "x11_inv s" and i: "0 \<le> i" "i < 8" "display (slot s i) = 0" and lib: "x11_lib s" and d: "a_display a \<noteq> 0" "fresh_answers s dlsym a"
  shows "\<exists>s' r. create_window a title wd ht i s = Inr (s', r) \<and> x11_inv s' \<and> (if a_win a = 0 then r = - 1 \<and> s' = s
    else r = i \<and> is_open (slot s' i) \<and> xlive s' = xlive s \<union> own (slot s' i) \<and> display (slot s' i) \<noteq> 0 \<and> width (slot s' i) = ucast wd \<and> height (slot s' i) = ucast ht)"
proof -
  let ?d = "a_display a"
  have p: "p_sym s f" for f using inv lib by (simp add: x11_inv_def)
  have nd: "display (unix_windows s ! j) \<noteq> ?d" if "j < 8" for j
  proof
    assume "display (unix_windows s ! j) = ?d"
    then have "RDisplay ?d \<in> own (unix_windows s ! j)" using d(1) by (simp add: own_def)
    then show False using that inv d(2) by (auto simp: x11_inv_def fresh_answers_def)
  qed
  have new: "res_display r \<noteq> ?d" if "r \<in> xlive s" for r
    using that inv nd own_display by (auto simp: x11_inv_def)
  show ?thesis
  proof (cases "a_win a = 0")
    case True
    have "{r \<in> insert (RDisplay ?d) (xlive s). res_display r \<noteq> ?d} = xlive s" using new by auto
    then show ?thesis using True p inv by (simp add: create_window_def Let_def must_call_def xclose_def xalloc_def)
  next
    case False
    let ?bg = "case a_color a (a_cmap a) (19 * 257) (24 * 257) (33 * 257) of Some p \<Rightarrow> p | None \<Rightarrow> 0"
    let ?pg = "if a_pixmap a \<noteq> 0 then a_pixmap_gc a else 0"
    let ?w = "(slot s i)\<lparr>display := ?d, window := a_win a, pixmap := a_pixmap a, gc := a_gc a, pixmap_gc := ?pg, colormap := a_cmap a, wm_delete := a_atom a, depth := a_depth a,
      width := ucast wd, height := ucast ht, is_open := True, bg_pixel := ?bg\<rparr>"
    have "\<exists>l. create_window a title wd ht i s = Inr (set_slot (s\<lparr>xlive := xlive s \<union> own ?w, xlog := l\<rparr>) i ?w, i)"
      using False p d
      by (auto simp: create_window_def Let_def must_call_def xreq_ok xreqs_ok xalloc_def xmake_def xdrawable_def fresh_answers_def set_slot_def own_def insert_commute simp del: bind_res_Inr_iff)
    then obtain l where c: "create_window a title wd ht i s = Inr (set_slot (s\<lparr>xlive := xlive s \<union> own ?w, xlog := l\<rparr>) i ?w, i)" ..
    have "x11_inv (set_slot (s\<lparr>xlive := xlive s \<union> own ?w, xlog := l\<rparr>) i ?w)"
    proof (rule inv_replace [OF inv, of "nat i" ?w])
      have "window_ok (slot s i)" using inv i by (simp add: x11_inv_def nat_less_iff)
      then show "window_ok ?w" using False d by (auto simp: window_ok_def fresh_answers_def)
    qed (use i nd lib in \<open>auto simp: set_slot_def own_def [of "slot s i"]\<close>)
    moreover have "slot (set_slot (s\<lparr>xlive := xlive s \<union> own ?w, xlog := l\<rparr>) i ?w) i = ?w" using inv i by (simp add: set_slot_def x11_inv_def nat_less_iff)
    ultimately show ?thesis using c False d(1) by auto
  qed
qed

lemma init_ok:
  assumes "x11_inv s" "\<forall>f. dlsym f" "init_x11 dlopen dlsym s = (t, ok)"
  shows "unix_windows t = unix_windows s" "xlive t = xlive s" "ok \<longrightarrow> x11_lib t" "x11_inv t" "dlopen ''libX11.so.6'' \<longrightarrow> ok"
  using assms by (auto simp: init_x11_def Let_def x11_inv_def split: if_splits)

lemma create_ok:
  assumes inv: "x11_inv s" and f: "fresh_answers s dlsym a"
  shows "\<exists>s' r. lpp_gui_window_create dlopen dlsym a title wd ht s = Inr (s', r) \<and> x11_inv s' \<and> (if r < 0 then r = - 1 \<and> xlive s' = xlive s
    else r < 8 \<and> open_id s' r \<and> display (slot s r) = 0 \<and> xlive s' = xlive s \<union> own (slot s' r))"
proof -
  let ?i = "lpp_unix_find_free_slot s"
  obtain t ok where t: "init_x11 dlopen dlsym s = (t, ok)" by fastforce
  have dl: "\<forall>f. dlsym f" using f by (simp add: fresh_answers_def)
  note tw = init_ok [OF inv dl t]
  have bad: ?thesis if "lpp_gui_window_create dlopen dlsym a title wd ht s = Inr (u, - 1)" "u = s \<or> u = t" for u
    by (rule exI [of _ u], rule exI [of _ "- 1"]) (use that inv tw in auto)
  show ?thesis
  proof (cases "sint wd \<le> 0 \<or> sint wd > 65535 \<or> sint ht \<le> 0 \<or> sint ht > 65535 \<or> ?i < 0 \<or> \<not> ok \<or> a_display a = 0")
    case True
    then have "lpp_gui_window_create dlopen dlsym a title wd ht s \<in> {Inr (s, - 1), Inr (t, - 1)}"
      using t tw by (auto simp: lpp_gui_window_create_def Let_def must_call_def x11_inv_def)
    then show ?thesis using bad by blast
  next
    case False
    then obtain k where k: "k < 8" "?i = int k" "display (unix_windows s ! k) = 0"
      using free_slot_loop_ok [of "unix_windows s" 0] inv by (auto simp: lpp_unix_find_free_slot_def x11_inv_def)
    have p: "p_sym t XOpenDisplay" using tw False by (simp add: x11_inv_def)
    have f': "fresh_answers t dlsym a" using f tw by (simp add: fresh_answers_def)
    from create_window_ok [OF tw(4) _ _ _ _ _ f', of ?i title wd ht] k tw False obtain s' r where
      c: "create_window a title wd ht ?i t = Inr (s', r)" "x11_inv s'" "if a_win a = 0 then r = - 1 \<and> s' = t else r = ?i \<and> is_open (slot s' ?i) \<and> xlive s' = xlive t \<union> own (slot s' ?i)"
      by (auto split: if_splits)
    have "lpp_gui_window_create dlopen dlsym a title wd ht s = Inr (s', r)"
      using False t p c(1) by (simp add: lpp_gui_window_create_def Let_def must_call_def)
    then show ?thesis using c k tw by (auto simp: open_id_def split: if_splits)
  qed
qed

section \<open>Reachable states\<close>

datatype gui_op = OpCreate "string \<Rightarrow> bool" "x11_sym \<Rightarrow> bool" xanswers cstr i64 i64 | OpPoll "xevent list" int | OpClear allocator int i64
  | OpRect allocator int i64 i64 i64 i64 i64 | OpRounded allocator int i64 i64 i64 i64 i64 i64 | OpText allocator int i64 i64 cstr i64 | OpPresent int
  | OpCircle allocator int i64 i64 i64 i64 | OpLine allocator int i64 i64 i64 i64 i64 i64 | OpClose int

fun x11_exec :: "gui_op \<Rightarrow> x11 \<Rightarrow> x11 res" where
  "x11_exec (OpCreate dlo dls a t w h) s = bind_res (lpp_gui_window_create dlo dls a t w h s) (\<lambda>(s, r). Inr s)"
| "x11_exec (OpPoll evs i) s = bind_res (lpp_gui_window_poll_events evs i s) (\<lambda>(s, r). Inr s)"
| "x11_exec (OpClear al i c) s = lpp_gui_clear al i c s"
| "x11_exec (OpRect al i x y w h c) s = lpp_gui_draw_rect al i x y w h c s"
| "x11_exec (OpRounded al i x y w h r c) s = lpp_gui_draw_rounded_rect al i x y w h r c s"
| "x11_exec (OpText al i x y t c) s = lpp_gui_draw_text al i x y t c s"
| "x11_exec (OpPresent i) s = lpp_gui_present i s"
| "x11_exec (OpCircle al i x y r c) s = lpp_gui_draw_circle al i x y r c s"
| "x11_exec (OpLine al i x y x' y' th c) s = lpp_gui_draw_line al i x y x' y' th c s"
| "x11_exec (OpClose i) s = lpp_gui_window_close i s"

text \<open>What a complete libX11 answers: \<open>dlsym\<close> finds every function, a new display is none of the open ones, \<open>XCreateGC\<close> succeeds for the window, and a new graphics context is not one that is in use.\<close>

fun x11_admits :: "x11 \<Rightarrow> gui_op \<Rightarrow> bool" where
  "x11_admits s (OpCreate dlo dls a t w h) = fresh_answers s dls a"
| "x11_admits s (OpPoll evs i) = (open_id s i \<longrightarrow> (\<forall>ev \<in> set evs. ev_gc ev \<noteq> gc (slot s i)))"
| "x11_admits s _ = True"

inductive x11_reach :: "x11 \<Rightarrow> bool" where
  xr_start: "x11_reach x11_start"
| xr_step: "x11_reach s \<Longrightarrow> x11_admits s op \<Longrightarrow> x11_exec op s = Inr s' \<Longrightarrow> x11_reach s'"

lemma exec_inv: "x11_inv s \<Longrightarrow> x11_admits s op \<Longrightarrow> \<exists>s'. x11_exec op s = Inr s' \<and> x11_inv s'"
proof (cases op)
  case (OpCreate dlo dls a t w h)
  assume "x11_inv s" "x11_admits s op"
  then show ?thesis using create_ok [of s dls a dlo t w h] OpCreate by auto
next
  case (OpPoll evs i)
  assume "x11_inv s" "x11_admits s op"
  then show ?thesis using poll_ok [of s i evs] OpPoll by auto
next
  case (OpClose i)
  assume "x11_inv s"
  then show ?thesis using close_ok [of s i] OpClose by auto
next
  case (OpClear al i c)
  assume "x11_inv s"
  then show ?thesis using gui_clear_ok [of s al i c] OpClear by auto
qed (use draw_ok inv_log in fastforce)+

lemma reach_inv: "x11_reach s \<Longrightarrow> x11_inv s"
  by (induction rule: x11_reach.induct) (use inv_start exec_inv in fastforce)+

lemma sint_ucast_small:
  fixes x :: i64
  assumes "0 < sint x" "sint x \<le> 65535"
  shows "sint (ucast x :: u32) = sint x"
proof -
  define n where "n = sint x"
  then have x: "x = word_of_int n" and "0 < n" "n \<le> 65535" using assms by auto
  then have "take_bit 64 n = n" "take_bit 32 n = n" "signed_take_bit 31 n = n" "signed_take_bit 63 n = n"
    by (simp_all add: take_bit_int_eq_self signed_take_bit_int_eq_self)
  then show ?thesis unfolding x using \<open>0 < n\<close> by (simp add: unsigned_of_int signed_of_int signed_of_nat)
qed

section \<open>What programs may rely on\<close>


text \<open>An answer of the server for the examples.\<close>

definition some_answers :: xanswers where
  "some_answers = \<lparr>a_display = 0x1000, a_cmap = 32, a_depth = 24, a_color = (\<lambda>_ r g b. Some (push_bit 16 (ucast (drop_bit 8 r)) OR push_bit 8 (ucast (drop_bit 8 g)) OR ucast (drop_bit 8 b))),
     a_win = 0x200001, a_atom = 342, a_pixmap = 0x200002, a_gc = 0x5000, a_pixmap_gc = 0x5100\<rparr>"

lemma some_answers_fresh: "fresh_answers x11_start (\<lambda>_. True) some_answers"
  by (simp add: fresh_answers_def some_answers_def x11_start_def)

abbreviation some_create :: gui_op where
  "some_create \<equiv> OpCreate (\<lambda>_. True) (\<lambda>_. True) some_answers (Some ''demo'') 640 480"


lemma create_opens:
  assumes "x11_reach s" "0 \<le> i" "i < 8" "lpp_gui_window_close i s = Inr s'" "fresh_answers s' dlsym a" "dlopen ''libX11.so.6''" "a_display a \<noteq> 0" "a_win a \<noteq> 0"
    and "0 < sint wd" "sint wd \<le> 65535" "0 < sint ht" "sint ht \<le> 65535"
  shows "\<exists>s'' k. lpp_gui_window_create dlopen dlsym a title wd ht s' = Inr (s'', k) \<and> 0 \<le> k \<and> k \<le> i \<and> lpp_gui_window_is_open s'' k = 1 \<and>
    lpp_gui_window_width s'' k = sint wd \<and> lpp_gui_window_height s'' k = sint ht"
proof -
  have inv: "x11_inv s" by (rule reach_inv [OF assms(1)])
  from close_ok [OF inv, of i] assms(2-4) have c: "x11_inv s'" "display (slot s' i) = 0" "\<not> is_open (slot s' i)" by auto
  let ?k = "lpp_unix_find_free_slot s'"
  have k: "0 \<le> ?k" "?k \<le> i" using free_slot_first [of 0 "nat i" "unix_windows s'"] c assms(2,3) by (auto simp: lpp_unix_find_free_slot_def x11_inv_def nat_less_iff)
  then have dk: "display (slot s' ?k) = 0" using free_slot_loop_ok [of "unix_windows s'" 0] by (auto simp: lpp_unix_find_free_slot_def)
  obtain t ok where "init_x11 dlopen dlsym s' = (t, ok)" by fastforce
  with init_ok [OF c(1) _ this] assms(5,6) have t: "init_x11 dlopen dlsym s' = (t, True)" "unix_windows t = unix_windows s'" "xlive t = xlive s'" "x11_lib t" "x11_inv t"
    by (auto simp: fresh_answers_def)
  have "fresh_answers t dlsym a" "p_sym t XOpenDisplay" using assms(5) t by (auto simp: fresh_answers_def x11_inv_def)
  with create_window_ok [OF t(5) k(1) _ _ t(4) assms(7), of dlsym title wd ht] k(2) assms(3,8) dk t(2) obtain u where
    u: "create_window a title wd ht ?k t = Inr (u, ?k)" "is_open (slot u ?k)" "display (slot u ?k) \<noteq> 0" "width (slot u ?k) = ucast wd" "height (slot u ?k) = ucast ht" by auto
  have "lpp_gui_window_create dlopen dlsym a title wd ht s' = Inr (u, ?k)"
    using assms(7,9-) k(1) t(1) u(1) \<open>p_sym t XOpenDisplay\<close> by (simp add: lpp_gui_window_create_def Let_def must_call_def)
  then show ?thesis using k u assms(3,9-) by (simp add: lpp_gui_window_is_open_def open_id_def lpp_gui_window_width_def lpp_gui_window_height_def sint_ucast_small)
qed

lemma close_start: "lpp_gui_window_close 0 x11_start = Inr x11_start"
  by (simp add: lpp_gui_window_close_def x11_start_def zero_window_def Let_def)

text \<open>Slots are reused. A program that closes any of the eight windows can create a window again: the size is between 1 and 65535 pixels, and the server opens a display and a window.\<close>

theorem lpp_gui_x11_slot_reuse:
  assumes "x11_reach s" "0 \<le> i" "i < 8" "lpp_gui_window_close i s = Inr s'" "fresh_answers s' dlsym a" "dlopen ''libX11.so.6''" "a_display a \<noteq> 0" "a_win a \<noteq> 0"
    and "0 < sint wd" "sint wd \<le> 65535" "0 < sint ht" "sint ht \<le> 65535"
  shows "\<exists>s'' k. lpp_gui_window_create dlopen dlsym a title wd ht s' = Inr (s'', k) \<and> 0 \<le> k \<and> k \<le> i \<and> lpp_gui_window_is_open s'' k = 1 \<and>
    lpp_gui_window_width s'' k = sint wd \<and> lpp_gui_window_height s'' k = sint ht"
  using assms by (intro create_opens)

theorem lpp_gui_x11_slot_reuse_witness:
  "\<exists>s'' k. lpp_gui_window_create (\<lambda>_. True) (\<lambda>_. True) some_answers None 640 480 x11_start = Inr (s'', k) \<and> k = 0 \<and> lpp_gui_window_width s'' k = 640"
proof -
  from lpp_gui_x11_slot_reuse [OF xr_start _ _ close_start some_answers_fresh, of "\<lambda>_. True" 640 480 None] show ?thesis
    by (auto simp: some_answers_def)
qed

text \<open>Close requests on X11. Polling a window reports it closed exactly if one of the events is a \<open>DestroyNotify\<close> or a \<open>ClientMessage\<close> with the \<open>WM_DELETE_WINDOW\<close> atom in the fourth payload word. In the
  layout of Xlib that word is \<open>data.l[1]\<close>, the time stamp; the window manager puts the atom into \<open>data.l[0]\<close>, the third word: its request changes nothing, and the window stays open.\<close>

theorem lpp_gui_x11_close_request:
  assumes "x11_reach s" "open_id s i" "\<forall>ev \<in> set evs. ev_gc ev \<noteq> gc (slot s i)"
  shows "\<exists>s' r. lpp_gui_window_poll_events evs i s = Inr (s', r) \<and>
      (r = 1 \<longleftrightarrow> (\<forall>ev \<in> set evs. ev_type ev \<noteq> 17 \<and> \<not> (ev_type ev = 33 \<and> ev_pad ev 3 = wm_delete (slot s i)))) \<and>
    (\<forall>ev. ev_type ev = 33 \<longrightarrow> ev_pad ev 2 = wm_delete (slot s i) \<longrightarrow> ev_pad ev 3 \<noteq> wm_delete (slot s i) \<longrightarrow> lpp_gui_window_poll_events [ev] i s = Inr (s, 1))"
proof -
  have inv: "x11_inv s" by (rule reach_inv [OF assms(1)])
  note o = open_slot [OF inv assms(2)]
  have p: "p_sym s f" for f using slot_live(3) [OF inv] o by blast
  have "lpp_gui_window_poll_events [ev] i s = Inr (s, 1)" if "ev_type ev = 33" "ev_pad ev 3 \<noteq> wm_delete (slot s i)" for ev
    using that o assms(2) p by (simp add: lpp_gui_window_poll_events_def must_call_def handle_event_def open_id_def)
  then show ?thesis using poll_ok [OF inv, of i evs] assms(2,3) by (auto simp: lpp_gui_window_is_open_def)
qed

lemma some_create_ok: "\<exists>s. x11_reach s \<and> open_id s 0"
proof -
  have close: "lpp_gui_window_close 0 x11_start = Inr x11_start" by (rule close_start)
  have "\<exists>s r. lpp_gui_window_create (\<lambda>_. True) (\<lambda>_. True) some_answers (Some ''demo'') 640 480 x11_start = Inr (s, r) \<and> open_id s 0"
    using create_opens [OF xr_start _ _ close some_answers_fresh, of "\<lambda>_. True" 640 480 "Some ''demo''"] by (auto simp: some_answers_def lpp_gui_window_is_open_def)
  then obtain s r where "lpp_gui_window_create (\<lambda>_. True) (\<lambda>_. True) some_answers (Some ''demo'') 640 480 x11_start = Inr (s, r)" "open_id s 0" by blast
  then show ?thesis using xr_step [OF xr_start, of some_create s] some_answers_fresh by auto
qed

theorem lpp_gui_x11_close_request_witness:
  "\<exists>s ev. open_id s 0 \<and> ev_type ev = 33 \<and> ev_pad ev 2 = wm_delete (slot s 0) \<and> lpp_gui_window_poll_events [ev] 0 s = Inr (s, 1)"
proof -
  obtain s where s: "x11_reach s" "open_id s 0" using some_create_ok by blast
  let ?ev = "\<lparr>ev_type = 33, ev_pad = (\<lambda>n. if n = 2 then wm_delete (slot s 0) else wm_delete (slot s 0) + 1), ev_keysym = 0, ev_pixmap = 0, ev_gc = 0\<rparr>"
  have "lpp_gui_window_poll_events [?ev] 0 s = Inr (s, 1)" using lpp_gui_x11_close_request [OF s, of "[]"] by auto
  then show ?thesis using s by (intro exI [of _ s] exI [of _ ?ev]) simp
qed

text \<open>The library is remembered as loaded even if a required function is missing: the second attempt to create a window calls through NULL.\<close>

theorem lpp_gui_x11_null_call:
  assumes "dlopen ''libX11.so.6''" "\<not> dlsym XOpenDisplay" "0 < sint wd" "sint wd \<le> 65535" "0 < sint ht" "sint ht \<le> 65535"
  shows "\<exists>s. lpp_gui_window_create dlopen dlsym a title wd ht x11_start = Inr (s, - 1) \<and> lpp_gui_window_create dlopen dlsym a title wd ht s = Inl (Fault ''null function pointer'')"
  using assms by (simp add: lpp_gui_window_create_def Let_def init_x11_def must_call_def lpp_unix_find_free_slot_def x11_start_def zero_window_def numeral_eq_Suc)

end
