(* ===== verification/Lpp_Win32.thy ===== *)
theory Lpp_Win32
  imports Lpp_Prelude
begin

text \<open>
  The Win32 half of \<^verbatim>\<open>runtime/lpp_gui.c\<close> and the keyboard and mouse state it shares with the raylib layer. Handles the system answers are arguments; \<open>glive\<close> holds the windows, device contexts, bitmaps and
  fonts that were created and not deleted, \<open>gsel\<close> the bitmap selected into a device context. GDI refuses a handle that is not valid, so drawing never faults; requests are appended to \<open>glog\<close>. Brushes
  and pens that live during one call only are left out. Coordinates are 32-bit words.
\<close>

section \<open>Keyboard and mouse state\<close>

text \<open>The wheel is kept in units of 1/120, of which the code stores the quotient.\<close>

record gui_input =
  g_key_state :: "bool list"
  g_char_queue :: "u64 list"
  g_char_q_head :: nat
  g_char_q_tail :: nat
  g_mouse_btn_down :: "bool list"
  g_mouse_btn_pressed :: "bool list"
  g_mouse_btn_released :: "bool list"
  g_mouse_wheel :: int

definition input_start :: gui_input where
  "input_start = \<lparr>g_key_state = replicate 256 False, g_char_queue = replicate 64 0, g_char_q_head = 0, g_char_q_tail = 0, g_mouse_btn_down = replicate 3 False,
     g_mouse_btn_pressed = replicate 3 False, g_mouse_btn_released = replicate 3 False, g_mouse_wheel = 0\<rparr>"

definition wm_char :: "u64 \<Rightarrow> gui_input \<Rightarrow> gui_input" where
  "wm_char wp g = (if wp \<ge> 32 \<and> wp \<le> 126
     then let next_head = (g_char_q_head g + 1) mod 64
          in if next_head \<noteq> g_char_q_tail g then g\<lparr>g_char_queue := (g_char_queue g)[g_char_q_head g := wp], g_char_q_head := next_head\<rparr> else g
     else g)"

definition wm_key :: "u64 \<Rightarrow> bool \<Rightarrow> gui_input \<Rightarrow> gui_input" where
  "wm_key wp b g = (if wp < 256 then g\<lparr>g_key_state := (g_key_state g)[unat wp := b]\<rparr> else g)"

definition wm_button_down :: "nat \<Rightarrow> gui_input \<Rightarrow> gui_input" where
  "wm_button_down b g = g\<lparr>g_mouse_btn_down := (g_mouse_btn_down g)[b := True], g_mouse_btn_pressed := (g_mouse_btn_pressed g)[b := True]\<rparr>"

definition wm_button_up :: "nat \<Rightarrow> gui_input \<Rightarrow> gui_input" where
  "wm_button_up b g = g\<lparr>g_mouse_btn_down := (g_mouse_btn_down g)[b := False], g_mouse_btn_released := (g_mouse_btn_released g)[b := True]\<rparr>"

definition wm_mousewheel :: "u64 \<Rightarrow> gui_input \<Rightarrow> gui_input" where
  "wm_mousewheel wp g = g\<lparr>g_mouse_wheel := g_mouse_wheel g + sint (ucast (drop_bit 16 wp) :: u16)\<rparr>"

section \<open>Windows\<close>

datatype gobj = GWindow u64 | GWindowDC u64 | GMemDC u64 | GBitmap u64 | GFont u64

datatype gcall = BitBlt u64 u32 u32 u32 u32 u64 | FillRect u64 u32 u32 u32 u32 u32 | RoundRect u64 u32 u32 u32 u32 u32 u32 | Ellipse u64 u32 u32 u32 u32 u32
  | LineTo u64 u32 u32 u32 u32 u32 u32 | TextOut u64 u64 u32 u32 string u32 | InitDC u64 u64

record win32_window =
  hwnd :: u64
  hdc :: u64
  mem_dc :: u64
  hbmp :: u64
  old_bmp :: u64
  hfont :: u64
  w_width :: u32
  w_height :: u32
  w_open :: bool
  bg_color :: u32

definition zero_win32 :: win32_window where
  "zero_win32 = \<lparr>hwnd = 0, hdc = 0, mem_dc = 0, hbmp = 0, old_bmp = 0, hfont = 0, w_width = 0, w_height = 0, w_open = False, bg_color = 0\<rparr>"

record win32 =
  g_windows :: "win32_window list"
  g_class_registered :: bool
  g_editor_font :: u64
  g_input :: gui_input
  quit_posted :: bool
  glive :: "gobj set"
  gsel :: "u64 \<Rightarrow> u64"
  glog :: "gcall list"

definition win32_start :: win32 where
  "win32_start = \<lparr>g_windows = replicate 8 zero_win32, g_class_registered = False, g_editor_font = 0, g_input = input_start, quit_posted = False, glive = {}, gsel = (\<lambda>_. 0), glog = []\<rparr>"

abbreviation wslot :: "win32 \<Rightarrow> int \<Rightarrow> win32_window" where
  "wslot s i \<equiv> g_windows s ! nat i"

definition put_slot :: "win32 \<Rightarrow> int \<Rightarrow> win32_window \<Rightarrow> win32" where
  "put_slot s i w = s\<lparr>g_windows := (g_windows s)[nat i := w]\<rparr>"

definition gdraw :: "gcall list \<Rightarrow> win32 \<Rightarrow> win32" where
  "gdraw cs s = s\<lparr>glog := glog s @ cs\<rparr>"

definition gcreate :: "gobj set \<Rightarrow> win32 \<Rightarrow> win32" where
  "gcreate xs s = s\<lparr>glive := glive s \<union> xs\<rparr>"

definition gdelete :: "gobj \<Rightarrow> win32 \<Rightarrow> win32" where
  "gdelete x s = s\<lparr>glive := glive s - {x}\<rparr>"

text \<open>Selecting a bitmap into a device context.\<close>

definition select_bitmap :: "u64 \<Rightarrow> u64 \<Rightarrow> win32 \<Rightarrow> win32" where
  "select_bitmap dc bmp s = s\<lparr>gsel := (gsel s)(dc := bmp)\<rparr>"

fun win_free_loop :: "win32_window list \<Rightarrow> int \<Rightarrow> int" where
  "win_free_loop [] i = - 1"
| "win_free_loop (w # ws) i = (if \<not> w_open w \<and> hwnd w = 0 then i else win_free_loop ws (i + 1))"

definition lpp_find_free_slot :: "win32 \<Rightarrow> int" where
  "lpp_find_free_slot s = win_free_loop (g_windows s) 0"

definition RGB :: "u8 \<Rightarrow> u8 \<Rightarrow> u8 \<Rightarrow> u32" where
  "RGB r g b = ucast r OR push_bit 8 (ucast g) OR push_bit 16 (ucast b)"

definition lpp_hex_to_colorref :: "i64 \<Rightarrow> u32" where
  "lpp_hex_to_colorref hex = RGB (ucast (hex AND 0xFF)) (ucast (drop_bit 8 hex AND 0xFF)) (ucast (drop_bit 16 hex AND 0xFF))"

definition lpp_win32_destroy_slot :: "int \<Rightarrow> win32 \<Rightarrow> win32" where
  "lpp_win32_destroy_slot i s = (let w = wslot s i
     in if hwnd w = 0 then s
        else let s = (if mem_dc w \<noteq> 0
               then let s = (if old_bmp w \<noteq> 0 then select_bitmap (mem_dc w) (old_bmp w) s else s);
                        s = (if hbmp w \<noteq> 0 then gdelete (GBitmap (hbmp w)) s else s);
                        s = (if hfont w \<noteq> 0 then gdelete (GFont (hfont w)) s else s)
                    in gdelete (GMemDC (mem_dc w)) s else s);
                 s = (if hdc w \<noteq> 0 then gdelete (GWindowDC (hdc w)) s else s)
             in put_slot s i zero_win32)"

definition lpp_win32_init_dc_state :: "u64 \<Rightarrow> u64 \<Rightarrow> win32 \<Rightarrow> win32" where
  "lpp_win32_init_dc_state dc font s = gdraw [InitDC dc font] s"

section \<open>The window procedure\<close>

text \<open>A message, with the rectangle \<open>BeginPaint\<close> reports and the handles created while a change of size is handled.\<close>

record win_msg =
  m_hwnd :: u64
  m_code :: int
  m_wp :: u64
  m_lp :: u64
  m_paint :: "u32 \<times> u32 \<times> u32 \<times> u32"
  m_bmp :: u64
  m_tmp_dc :: u64

fun paint_loop :: "win_msg \<Rightarrow> win32_window list \<Rightarrow> gcall list" where
  "paint_loop m [] = []"
| "paint_loop m (w # ws) = (if hwnd w = m_hwnd m \<and> mem_dc w \<noteq> 0
     then case m_paint m of (l, t, r, b) \<Rightarrow> if sint (r - l) > 0 \<and> sint (b - t) > 0 then [BitBlt (m_hwnd m) l t (r - l) (b - t) (mem_dc w)] else []
     else paint_loop m ws)"

text \<open>The first slot of a window.\<close>

fun slot_of :: "u64 \<Rightarrow> win32_window list \<Rightarrow> int \<Rightarrow> int" where
  "slot_of h [] i = - 1"
| "slot_of h (w # ws) i = (if hwnd w = h then i else slot_of h ws (i + 1))"

definition wm_size :: "win_msg \<Rightarrow> win32 \<Rightarrow> win32" where
  "wm_size m s = (let new_w = ucast (ucast (m_lp m) :: u16); new_h = ucast (ucast (drop_bit 16 (m_lp m)) :: u16); i = slot_of (m_hwnd m) (g_windows s) 0
     in if m_wp m = 1 \<or> new_w = 0 \<or> new_h = 0 \<or> i < 0 then s
        else let w = wslot s i
        in if new_w = w_width w \<and> new_h = w_height w \<or> m_bmp m = 0 then s
           else let s = gcreate {GBitmap (m_bmp m), GMemDC (m_tmp_dc m)} s;
                    s = gdraw ([BitBlt (m_tmp_dc m) 0 0 (w_width w) (w_height w) (mem_dc w)]
                      @ (if sint (w_width w) < sint new_w then [FillRect (m_tmp_dc m) (w_width w) 0 new_w new_h (bg_color w)] else [])
                      @ (if sint (w_height w) < sint new_h then [FillRect (m_tmp_dc m) 0 (w_height w) new_w new_h (bg_color w)] else [])) s;
                    s = gdelete (GMemDC (m_tmp_dc m)) s;
                    old = gsel s (mem_dc w);
                    s = gdelete (GBitmap old) (select_bitmap (mem_dc w) (m_bmp m) s);
                    s = put_slot s i (w\<lparr>hbmp := m_bmp m, w_width := new_w, w_height := new_h\<rparr>)
                in lpp_win32_init_dc_state (mem_dc w) (hfont w) s)"

definition wm_destroy :: "win32 \<Rightarrow> win32" where
  "wm_destroy s = (if list_ex w_open (g_windows s) then s else s\<lparr>quit_posted := True\<rparr>)"

text \<open>\<open>DestroyWindow\<close> sends \<open>WM_DESTROY\<close> to the window procedure before the window and its device context go.\<close>

definition destroy_window :: "u64 \<Rightarrow> u64 \<Rightarrow> win32 \<Rightarrow> win32" where
  "destroy_window h dc s = gdelete (GWindowDC dc) (gdelete (GWindow h) (wm_destroy s))"

definition wm_close :: "win_msg \<Rightarrow> win32 \<Rightarrow> win32" where
  "wm_close m s = (let i = slot_of (m_hwnd m) (g_windows s) 0
     in if i < 0 then s
        else let w = wslot s i; s = put_slot s i (w\<lparr>w_open := False, hwnd := 0\<rparr>); s = lpp_win32_destroy_slot i s in destroy_window (hwnd w) (hdc w) s)"

definition on_input :: "(gui_input \<Rightarrow> gui_input) \<Rightarrow> win32 \<Rightarrow> win32" where
  "on_input f s = s\<lparr>g_input := f (g_input s)\<rparr>"

definition lpp_gui_wndproc :: "win_msg \<Rightarrow> win32 \<Rightarrow> win32" where
  "lpp_gui_wndproc m s = (let c = m_code m
     in if c = 0x0F then gdraw (paint_loop m (g_windows s)) s
        else if c = 0x05 then wm_size m s
        else if c = 0x102 then on_input (wm_char (m_wp m)) s
        else if c = 0x100 \<or> c = 0x104 then on_input (wm_key (m_wp m) True) s
        else if c = 0x101 \<or> c = 0x105 then on_input (wm_key (m_wp m) False) s
        else if c = 0x201 then on_input (wm_button_down 0) s
        else if c = 0x202 then on_input (wm_button_up 0) s
        else if c = 0x204 then on_input (wm_button_down 1) s
        else if c = 0x205 then on_input (wm_button_up 1) s
        else if c = 0x207 then on_input (wm_button_down 2) s
        else if c = 0x208 then on_input (wm_button_up 2) s
        else if c = 0x20A then on_input (wm_mousewheel (m_wp m)) s
        else if c = 0x10 then wm_close m s
        else if c = 0x02 then wm_destroy s
        else s)"

section \<open>The interface\<close>

text \<open>What the system answers while a window is created; \<open>w_msgs\<close> are the messages waiting for it at the end.\<close>

record win_answers =
  w_class :: bool
  w_hwnd :: u64
  w_hdc :: u64
  w_mem_dc :: u64
  w_bmp :: u64
  w_stock_bmp :: u64
  w_font :: u64
  w_font2 :: u64
  w_msgs :: "win_msg list"

definition win_backbuffer :: "win_answers \<Rightarrow> i64 \<Rightarrow> i64 \<Rightarrow> int \<Rightarrow> win32 \<Rightarrow> win32 \<times> int" where
  "win_backbuffer a width' height' wid s = (let font = (if w_font a \<noteq> 0 then w_font a else w_font2 a); dc = w_mem_dc a;
       s = gcreate ({GMemDC dc, GBitmap (w_bmp a)} \<union> (if font = 0 then {} else {GFont font})) s; s = select_bitmap dc (w_bmp a) s;
       bg = RGB 19 24 33;
       s = put_slot s wid ((wslot s wid)\<lparr>hwnd := w_hwnd a, hdc := w_hdc a, mem_dc := dc, hbmp := w_bmp a, old_bmp := w_stock_bmp a, hfont := font,
         w_width := ucast width', w_height := ucast height', w_open := True, bg_color := bg\<rparr>);
       s = lpp_win32_init_dc_state dc font s; s = gdraw [FillRect dc 0 0 (ucast width') (ucast height') bg] s
     in (foldl (\<lambda>s m. lpp_gui_wndproc m s) s (w_msgs a), wid))"

definition lpp_gui_window_create_win :: "win_answers \<Rightarrow> i64 \<Rightarrow> i64 \<Rightarrow> win32 \<Rightarrow> win32 \<times> int" where
  "lpp_gui_window_create_win a width' height' s =
     (if sint width' \<le> 0 \<or> sint width' > 65535 \<or> sint height' \<le> 0 \<or> sint height' > 65535 then (s, - 1)
      else let wid = lpp_find_free_slot s
      in if wid < 0 then (s, - 1)
         else if \<not> g_class_registered s \<and> \<not> w_class a then (s, - 1)
         else let s = s\<lparr>g_class_registered := True\<rparr>
         in if w_hwnd a = 0 then (s, - 1)
            else let s = gcreate {GWindow (w_hwnd a)} s
            in if w_hdc a = 0 then (destroy_window (w_hwnd a) 0 s, - 1)
               else let s = gcreate {GWindowDC (w_hdc a)} s
               in if w_mem_dc a = 0 then (destroy_window (w_hwnd a) (w_hdc a) s, - 1)
                  else if w_bmp a = 0 then (destroy_window (w_hwnd a) (w_hdc a) s, - 1)
                  else win_backbuffer a width' height' wid s)"

definition win_open_id :: "win32 \<Rightarrow> int \<Rightarrow> bool" where
  "win_open_id s i \<longleftrightarrow> 0 \<le> i \<and> i < 8 \<and> w_open (wslot s i)"

definition lpp_gui_window_is_open_win :: "win32 \<Rightarrow> int \<Rightarrow> int" where
  "lpp_gui_window_is_open_win s win_id = of_bool (win_open_id s win_id)"

definition lpp_gui_window_width_win :: "win32 \<Rightarrow> int \<Rightarrow> int" where
  "lpp_gui_window_width_win s win_id = (if win_id < 0 \<or> win_id \<ge> 8 \<or> hwnd (wslot s win_id) = 0 then 0 else sint (w_width (wslot s win_id)))"

definition lpp_gui_window_height_win :: "win32 \<Rightarrow> int \<Rightarrow> int" where
  "lpp_gui_window_height_win s win_id = (if win_id < 0 \<or> win_id \<ge> 8 \<or> hwnd (wslot s win_id) = 0 then 0 else sint (w_height (wslot s win_id)))"

text \<open>\<open>PeekMessage\<close> delivers \<open>WM_QUIT\<close> as a message of its own, or after the last message when the flag of \<open>PostQuitMessage\<close> is set.\<close>

definition close_all :: "win32 \<Rightarrow> win32" where
  "close_all s = s\<lparr>g_windows := map (\<lambda>w. w\<lparr>w_open := False\<rparr>) (g_windows s)\<rparr>"

fun message_loop :: "int \<Rightarrow> win_msg list \<Rightarrow> win32 \<Rightarrow> win32 \<times> int" where
  "message_loop i [] s = (if quit_posted s then (close_all (s\<lparr>quit_posted := False\<rparr>), 0) else (s, of_bool (w_open (wslot s i))))"
| "message_loop i (m # ms) s = (if m_code m = 0x12 then (close_all s, 0) else message_loop i ms (lpp_gui_wndproc m s))"

definition lpp_gui_window_poll_events_win :: "win_msg list \<Rightarrow> int \<Rightarrow> win32 \<Rightarrow> win32 \<times> int" where
  "lpp_gui_window_poll_events_win ms win_id s = (if win_id < 0 \<or> win_id \<ge> 8 then (s, 0) else message_loop win_id ms s)"

definition lpp_gui_clear_win :: "int \<Rightarrow> i64 \<Rightarrow> win32 \<Rightarrow> win32" where
  "lpp_gui_clear_win win_id hex_color s = (if \<not> win_open_id s win_id then s
     else let col = lpp_hex_to_colorref hex_color; w = wslot s win_id; s = put_slot s win_id (w\<lparr>bg_color := col\<rparr>)
          in gdraw [FillRect (mem_dc w) 0 0 (w_width w) (w_height w) col] s)"

definition lpp_gui_draw_rect_win :: "int \<Rightarrow> i64 \<Rightarrow> i64 \<Rightarrow> i64 \<Rightarrow> i64 \<Rightarrow> i64 \<Rightarrow> win32 \<Rightarrow> win32" where
  "lpp_gui_draw_rect_win win_id x y w h hex_color s = (if \<not> win_open_id s win_id then s
     else gdraw [FillRect (mem_dc (wslot s win_id)) (ucast x) (ucast y) (ucast (x + w)) (ucast (y + h)) (lpp_hex_to_colorref hex_color)] s)"

definition lpp_gui_draw_rounded_rect_win :: "int \<Rightarrow> i64 \<Rightarrow> i64 \<Rightarrow> i64 \<Rightarrow> i64 \<Rightarrow> i64 \<Rightarrow> i64 \<Rightarrow> win32 \<Rightarrow> win32" where
  "lpp_gui_draw_rounded_rect_win win_id x y w h radius hex_color s = (if \<not> win_open_id s win_id then s
     else gdraw [RoundRect (mem_dc (wslot s win_id)) (ucast x) (ucast y) (ucast (x + w)) (ucast (y + h)) (ucast (radius * 2)) (lpp_hex_to_colorref hex_color)] s)"

definition lpp_gui_key_down_win :: "win32 \<Rightarrow> int \<Rightarrow> int \<Rightarrow> int" where
  "lpp_gui_key_down_win s win_id key_code = (if \<not> win_open_id s win_id then 0 else if key_code < 0 \<or> key_code > 255 then 0 else of_bool (g_key_state (g_input s) ! nat key_code))"

text \<open>The cursor in client coordinates and the state of the left button are answers of the system.\<close>

definition lpp_gui_mouse_x_win :: "u32 \<times> u32 \<Rightarrow> win32 \<Rightarrow> int \<Rightarrow> int" where
  "lpp_gui_mouse_x_win pt s win_id = (if win_open_id s win_id then sint (fst pt) else 0)"

definition lpp_gui_mouse_y_win :: "u32 \<times> u32 \<Rightarrow> win32 \<Rightarrow> int \<Rightarrow> int" where
  "lpp_gui_mouse_y_win pt s win_id = (if win_open_id s win_id then sint (snd pt) else 0)"

definition lpp_gui_mouse_down_win :: "u16 \<Rightarrow> win32 \<Rightarrow> int \<Rightarrow> int" where
  "lpp_gui_mouse_down_win async s win_id = (if win_open_id s win_id then if async AND 0x8000 \<noteq> 0 then 1 else 0 else 0)"

definition lpp_gui_draw_text_win :: "u64 \<Rightarrow> int \<Rightarrow> i64 \<Rightarrow> i64 \<Rightarrow> cstr \<Rightarrow> i64 \<Rightarrow> win32 \<Rightarrow> win32" where
  "lpp_gui_draw_text_win font win_id x y txt hex_color s = (case txt of None \<Rightarrow> s | Some tx \<Rightarrow> if \<not> win_open_id s win_id then s
     else let s = (if g_editor_font s = 0 then gcreate (if font = 0 then {} else {GFont font}) (s\<lparr>g_editor_font := font\<rparr>) else s)
          in gdraw [TextOut (mem_dc (wslot s win_id)) (g_editor_font s) (ucast x) (ucast y) tx (lpp_hex_to_colorref hex_color)] s)"

definition lpp_gui_present_win :: "int \<Rightarrow> win32 \<Rightarrow> win32" where
  "lpp_gui_present_win win_id s = (if \<not> win_open_id s win_id then s else let w = wslot s win_id in gdraw [BitBlt (hdc w) 0 0 (w_width w) (w_height w) (mem_dc w)] s)"

definition lpp_gui_draw_circle_win :: "int \<Rightarrow> i64 \<Rightarrow> i64 \<Rightarrow> i64 \<Rightarrow> i64 \<Rightarrow> win32 \<Rightarrow> win32" where
  "lpp_gui_draw_circle_win win_id cx cy r hex_color s = (if \<not> win_open_id s win_id then s
     else gdraw [Ellipse (mem_dc (wslot s win_id)) (ucast (cx - r)) (ucast (cy - r)) (ucast (cx + r)) (ucast (cy + r)) (lpp_hex_to_colorref hex_color)] s)"

definition lpp_gui_draw_line_win :: "int \<Rightarrow> i64 \<Rightarrow> i64 \<Rightarrow> i64 \<Rightarrow> i64 \<Rightarrow> i64 \<Rightarrow> i64 \<Rightarrow> win32 \<Rightarrow> win32" where
  "lpp_gui_draw_line_win win_id x1 y1 x2 y2 thick hex_color s = (if \<not> win_open_id s win_id then s
     else gdraw [LineTo (mem_dc (wslot s win_id)) (ucast x1) (ucast y1) (ucast x2) (ucast y2) (ucast (if sint thick > 0 then thick else 1)) (lpp_hex_to_colorref hex_color)] s)"

text \<open>\<open>extent\<close> is the width \<open>GetTextExtentPoint32\<close> answers.\<close>

definition lpp_gui_measure_text_width_win :: "u32 option \<Rightarrow> win32 \<Rightarrow> int \<Rightarrow> cstr \<Rightarrow> int" where
  "lpp_gui_measure_text_width_win extent s win_id txt = (case txt of None \<Rightarrow> 0 | Some tx \<Rightarrow> if tx = [] then 0
     else if win_id < 0 \<or> win_id \<ge> 8 \<or> mem_dc (wslot s win_id) = 0 then int (length tx) * 8
     else case extent of Some cx \<Rightarrow> sint cx | None \<Rightarrow> int (length tx) * 8)"

definition lpp_gui_window_close_win :: "int \<Rightarrow> win32 \<Rightarrow> win32" where
  "lpp_gui_window_close_win win_id s = (if win_id < 0 \<or> win_id \<ge> 8 then s
     else let w = wslot s win_id
     in if \<not> w_open w \<and> hwnd w = 0 then s
        else let s = put_slot s win_id (w\<lparr>w_open := False, hwnd := 0\<rparr>); s = lpp_win32_destroy_slot win_id s
             in if hwnd w \<noteq> 0 then destroy_window (hwnd w) (hdc w) s else s)"

section \<open>Objects of the graphics system\<close>

text \<open>Objects that belong to a window slot and not to the window itself.\<close>

fun slot_object :: "gobj \<Rightarrow> bool" where
  "slot_object (GWindow _) = False"
| "slot_object (GWindowDC _) = False"
| "slot_object _ = True"

lemma put_slot_simps [simp]: "glive (put_slot s i w) = glive s" "g_windows (put_slot s i w) = (g_windows s)[nat i := w]" "gsel (put_slot s i w) = gsel s" "g_input (put_slot s i w) = g_input s"
  "g_class_registered (put_slot s i w) = g_class_registered s" "quit_posted (put_slot s i w) = quit_posted s"
  by (simp_all add: put_slot_def)

lemma wm_destroy_simps [simp]: "glive (wm_destroy s) = glive s" "g_windows (wm_destroy s) = g_windows s" "gsel (wm_destroy s) = gsel s" "g_input (wm_destroy s) = g_input s"
  by (simp_all add: wm_destroy_def)

lemma gobj_simps [simp]: "glive (gdelete x s) = glive s - {x}" "g_windows (gdelete x s) = g_windows s" "gsel (gdelete x s) = gsel s" "g_input (gdelete x s) = g_input s"
  "glive (gcreate xs s) = glive s \<union> xs" "g_windows (gcreate xs s) = g_windows s" "gsel (gcreate xs s) = gsel s" "g_input (gcreate xs s) = g_input s"
  "glive (gdraw cs s) = glive s" "g_windows (gdraw cs s) = g_windows s" "gsel (gdraw cs s) = gsel s" "g_input (gdraw cs s) = g_input s"
  "glive (select_bitmap d b s) = glive s" "g_windows (select_bitmap d b s) = g_windows s" "gsel (select_bitmap d b s) = (gsel s)(d := b)" "g_input (select_bitmap d b s) = g_input s"
  by (simp_all add: gdelete_def gcreate_def gdraw_def select_bitmap_def)

lemma destroy_window_simps [simp]: "glive (destroy_window h dc s) = glive s - {GWindow h, GWindowDC dc}" "g_windows (destroy_window h dc s) = g_windows s" "g_input (destroy_window h dc s) = g_input s"
  by (auto simp: destroy_window_def)

text \<open>A slot whose window handle was cleared is not torn down.\<close>

lemma destroy_cleared [simp]: "nat i < length (g_windows s) \<Longrightarrow> lpp_win32_destroy_slot i (put_slot s i (w\<lparr>w_open := b, hwnd := 0\<rparr>)) = put_slot s i (w\<lparr>w_open := b, hwnd := 0\<rparr>)"
  by (simp add: lpp_win32_destroy_slot_def Let_def)

lemma close_win_live:
  assumes "length (g_windows s) = 8" "0 \<le> i" "i < 8"
  shows "glive (lpp_gui_window_close_win i s) = (if hwnd (wslot s i) = 0 then glive s else glive s - {GWindow (hwnd (wslot s i)), GWindowDC (hdc (wslot s i))})"
    "w_open (wslot s i) \<or> hwnd (wslot s i) \<noteq> 0 \<Longrightarrow> g_windows (lpp_gui_window_close_win i s) = (g_windows s)[nat i := (wslot s i)\<lparr>w_open := False, hwnd := 0\<rparr>]"
  using assms by (auto simp: lpp_gui_window_close_win_def Let_def nat_less_iff)

section \<open>Opening and closing windows\<close>

definition win_round :: "i64 \<Rightarrow> i64 \<Rightarrow> win32 \<Rightarrow> win_answers \<Rightarrow> win32" where
  "win_round wd ht s a = (let (s, i) = lpp_gui_window_create_win a wd ht s in lpp_gui_window_close_win i s)"

definition full_answers :: "win_answers \<Rightarrow> bool" where
  "full_answers a \<longleftrightarrow> w_class a \<and> w_hwnd a \<noteq> 0 \<and> w_hdc a \<noteq> 0 \<and> w_mem_dc a \<noteq> 0 \<and> w_bmp a \<noteq> 0 \<and> w_font a \<noteq> 0 \<and> w_msgs a = []"

definition slot_objects :: "win_answers \<Rightarrow> gobj set" where
  "slot_objects a = {GMemDC (w_mem_dc a), GBitmap (w_bmp a), GFont (w_font a)}"

definition no_windows :: "win32 \<Rightarrow> bool" where
  "no_windows s \<longleftrightarrow> length (g_windows s) = 8 \<and> hwnd (g_windows s ! 0) = 0 \<and> \<not> w_open (g_windows s ! 0) \<and> (\<forall>x \<in> glive s. slot_object x)"

lemma win_round_leaks:
  assumes "no_windows s" "full_answers a" "0 < sint wd" "sint wd \<le> 65535" "0 < sint ht" "sint ht \<le> 65535"
  shows "glive (win_round wd ht s a) = glive s \<union> slot_objects a" "no_windows (win_round wd ht s a)"
proof -
  have free: "lpp_find_free_slot s = 0" using assms(1) by (cases "g_windows s") (auto simp: lpp_find_free_slot_def no_windows_def)
  obtain s' where c: "lpp_gui_window_create_win a wd ht s = (s', 0)" "glive s' = glive s \<union> {GWindow (w_hwnd a), GWindowDC (w_hdc a)} \<union> slot_objects a"
      "length (g_windows s') = 8" "hwnd (g_windows s' ! 0) = w_hwnd a" "hdc (g_windows s' ! 0) = w_hdc a" "w_open (g_windows s' ! 0)"
    using assms free by (auto simp: lpp_gui_window_create_win_def win_backbuffer_def Let_def full_answers_def slot_objects_def no_windows_def lpp_win32_init_dc_state_def)
  have r: "win_round wd ht s a = lpp_gui_window_close_win 0 s'" by (simp add: win_round_def c(1))
  have nw: "GWindow h \<notin> glive s" "GWindowDC h \<notin> glive s" for h using assms(1) by (auto simp: no_windows_def)
  have "glive (win_round wd ht s a) = glive s' - {GWindow (w_hwnd a), GWindowDC (w_hdc a)}" using close_win_live(1) [of s' 0] c assms(2) r by (simp add: full_answers_def)
  then show g: "glive (win_round wd ht s a) = glive s \<union> slot_objects a" using c(2) nw by (auto simp: slot_objects_def)
  have w: "g_windows (win_round wd ht s a) = (g_windows s')[0 := (g_windows s' ! 0)\<lparr>w_open := False, hwnd := 0\<rparr>]" using close_win_live(2) [of s' 0] c r by simp
  show "no_windows (win_round wd ht s a)" using assms(1) c(3) g w unfolding no_windows_def by (auto simp: slot_objects_def)
qed

lemma win_rounds_leak:
  assumes "no_windows s" "list_all full_answers as" "0 < sint wd" "sint wd \<le> 65535" "0 < sint ht" "sint ht \<le> 65535"
  shows "glive (foldl (win_round wd ht) s as) = glive s \<union> (\<Union>a \<in> set as. slot_objects a) \<and> no_windows (foldl (win_round wd ht) s as)"
  using assms(1,2)
proof (induction as arbitrary: s)
  case (Cons a as)
  then show ?case using win_round_leaks [OF Cons.prems(1), of a] assms(3-) by auto
qed simp

lemma card_slot_objects: "distinct (map w_mem_dc as) \<Longrightarrow> distinct (map w_bmp as) \<Longrightarrow> distinct (map w_font as) \<Longrightarrow> card (\<Union>a \<in> set as. slot_objects a) = 3 * length as"
proof (induction as)
  case (Cons a as)
  have "slot_objects a \<inter> (\<Union>a \<in> set as. slot_objects a) = {}" using Cons.prems by (auto simp: slot_objects_def)
  moreover have "card (slot_objects a) = 3" "finite (slot_objects a)" "finite (\<Union>a \<in> set as. slot_objects a)" by (auto simp: slot_objects_def)
  ultimately show ?case using Cons by (simp add: card_Un_disjoint)
qed simp

lemma slot_of_less: "slot_of h ws i < i + int (length ws) \<or> slot_of h ws i = - 1"
  by (induction h ws i rule: slot_of.induct) auto

text \<open>Closing a window on Windows leaks its graphics objects. Both ways of closing clear the window handle before they call \<open>lpp_win32_destroy_slot\<close>, which does nothing without one: after \<open>n\<close> windows were opened
  and closed, the \<open>3 n\<close> memory device contexts, bitmaps and fonts still exist, although no slot is in use; and handling \<open>WM_CLOSE\<close> deletes no such object in any state.\<close>

theorem lpp_gui_win_close_leaks:
  assumes "list_all full_answers as" "distinct (map w_mem_dc as)" "distinct (map w_bmp as)" "distinct (map w_font as)"
    and "0 < sint wd" "sint wd \<le> 65535" "0 < sint ht" "sint ht \<le> 65535"
  shows "card (glive (foldl (win_round wd ht) win32_start as)) = 3 * length as \<and> lpp_find_free_slot (foldl (win_round wd ht) win32_start as) = 0 \<and>
    (\<forall>s m x. length (g_windows s) = 8 \<longrightarrow> m_code m = 0x10 \<longrightarrow> x \<in> glive s \<longrightarrow> slot_object x \<longrightarrow> x \<in> glive (lpp_gui_wndproc m s))"
proof -
  have n: "no_windows win32_start" by (simp add: no_windows_def win32_start_def zero_win32_def)
  have "lpp_find_free_slot s = 0" if "no_windows s" for s using that by (cases "g_windows s") (auto simp: lpp_find_free_slot_def no_windows_def)
  moreover have "x \<in> glive (lpp_gui_wndproc m s)" if "length (g_windows s) = 8" "m_code m = 0x10" "x \<in> glive s" "slot_object x" for s m x
    using that slot_of_less [of "m_hwnd m" "g_windows s" 0] by (auto simp: lpp_gui_wndproc_def wm_close_def Let_def)
  ultimately show ?thesis using win_rounds_leak [OF n assms(1,5-)] card_slot_objects [OF assms(2-4)] by (simp add: win32_start_def)
qed

theorem lpp_gui_win_close_leaks_witness:
  "card (glive (foldl (win_round 640 480) win32_start (map (\<lambda>i. \<lparr>w_class = True, w_hwnd = 8, w_hdc = 9, w_mem_dc = i, w_bmp = i + 10, w_stock_bmp = 3, w_font = i + 20, w_font2 = 0, w_msgs = []\<rparr>) [1, 2, 3]))) = 9"
  using lpp_gui_win_close_leaks [of "map (\<lambda>i. \<lparr>w_class = True, w_hwnd = 8, w_hdc = 9, w_mem_dc = i, w_bmp = i + 10, w_stock_bmp = 3, w_font = i + 20, w_font2 = 0, w_msgs = []\<rparr>) [1, 2, 3]" 640 480]
  by (simp add: full_answers_def)

section \<open>Messages\<close>

text \<open>A change of size replaces the bitmap of the slot and nothing else, as long as the slot's bitmap is the one selected; it stays the one selected.\<close>

theorem lpp_gui_win_resize:
  assumes "slot_of (m_hwnd m) (g_windows s) 0 = i" "0 \<le> i" "i < int (length (g_windows s))" "gsel s (mem_dc (wslot s i)) = hbmp (wslot s i)" "m_code m = 5"
    and "m_bmp m \<noteq> hbmp (wslot s i)" "GMemDC (m_tmp_dc m) \<notin> glive s"
  shows "gsel (lpp_gui_wndproc m s) (mem_dc (wslot s i)) = hbmp (wslot (lpp_gui_wndproc m s) i) \<and> mem_dc (wslot (lpp_gui_wndproc m s) i) = mem_dc (wslot s i) \<and>
    (lpp_gui_wndproc m s = s \<or> glive (lpp_gui_wndproc m s) = glive s - {GBitmap (hbmp (wslot s i))} \<union> {GBitmap (hbmp (wslot (lpp_gui_wndproc m s) i))})"
  using assms by (auto simp: lpp_gui_wndproc_def wm_size_def Let_def lpp_win32_init_dc_state_def nat_less_iff)

text \<open>No message opens a window.\<close>

lemma length_wndproc [simp]: "length (g_windows (lpp_gui_wndproc m s)) = length (g_windows s)"
  by (auto simp: lpp_gui_wndproc_def wm_size_def wm_close_def on_input_def lpp_win32_init_dc_state_def lpp_win32_destroy_slot_def Let_def)

lemma wm_size_open: "map w_open (g_windows (wm_size m s)) = map w_open (g_windows s)"
proof -
  let ?i = "slot_of (m_hwnd m) (g_windows s) 0"
  have i: "nat ?i < length (g_windows s)" if "\<not> ?i < 0" using slot_of_less [of "m_hwnd m" "g_windows s" 0] that by auto
  have "(map w_open (g_windows s))[nat ?i := w_open (wslot s ?i)] = map w_open (g_windows s)" if "\<not> ?i < 0"
    using i [OF that] by (metis list_update_id nth_map)
  then show ?thesis by (simp add: wm_size_def Let_def lpp_win32_init_dc_state_def map_update)
qed

lemma wm_close_open: "\<exists>i. map w_open (g_windows (wm_close m s)) = (map w_open (g_windows s))[i := False]"
proof -
  let ?i = "slot_of (m_hwnd m) (g_windows s) 0"
  have "nat ?i < length (g_windows s)" if "\<not> ?i < 0" using slot_of_less [of "m_hwnd m" "g_windows s" 0] that by auto
  then have "map w_open (g_windows (wm_close m s)) = (map w_open (g_windows s))[if ?i < 0 then length (g_windows s) else nat ?i := False]"
    by (simp add: wm_close_def Let_def map_update list_update_beyond)
  then show ?thesis by blast
qed

lemma wndproc_opens_nothing: 
  assumes "j < length (g_windows s)"
  shows "w_open (g_windows (lpp_gui_wndproc m s) ! j) \<longrightarrow> w_open (g_windows s ! j)"
proof -
  let ?t = "lpp_gui_wndproc m s"
  have "map w_open (g_windows ?t) ! j \<longrightarrow> map w_open (g_windows s) ! j"
  proof (cases "m_code m = 0x10")
    case True
    then have "?t = wm_close m s" by (simp add: lpp_gui_wndproc_def)
    moreover obtain i where "map w_open (g_windows (wm_close m s)) = (map w_open (g_windows s))[i := False]" using wm_close_open by blast
    ultimately show ?thesis using assms by (cases "i = j") simp_all
  next
    case False
    then have "map w_open (g_windows ?t) = map w_open (g_windows s)" using wm_size_open [of m s] by (simp add: lpp_gui_wndproc_def on_input_def Let_def)
    then show ?thesis by simp
  qed
  then show ?thesis using assms by simp
qed

lemma length_message_loop [simp]: "length (g_windows (fst (message_loop i ms s))) = length (g_windows s)"
  by (induction ms arbitrary: s) (auto simp: close_all_def)

lemma message_loop_reports:
  assumes "length (g_windows s) = 8" "0 \<le> i" "i < 8" "message_loop i ms s = (s', r)"
  shows "r = lpp_gui_window_is_open_win s' i" "w_open (wslot s' i) \<longrightarrow> w_open (wslot s i)"
proof -
  have "r = of_bool (w_open (wslot s' i)) \<and> (w_open (wslot s' i) \<longrightarrow> w_open (wslot s i))"
    using assms
  proof (induction ms arbitrary: s)
    case (Cons m ms)
    note o = wndproc_opens_nothing [of "nat i" s m]
    show ?case
    proof (cases "m_code m = 0x12")
      case False
      then show ?thesis using Cons.IH [of "lpp_gui_wndproc m s"] Cons.prems o by (auto simp: nat_less_iff)
    qed (use Cons.prems in \<open>auto simp: close_all_def nat_less_iff\<close>)
  qed (auto simp: close_all_def nat_less_iff split: if_splits)
  then show "r = lpp_gui_window_is_open_win s' i" "w_open (wslot s' i) \<longrightarrow> w_open (wslot s i)"
    using assms by (auto simp: lpp_gui_window_is_open_win_def win_open_id_def)
qed

end
