(* ===== verification/Lpp_Raylib.thy ===== *)
theory Lpp_Raylib
  imports Lpp_X11 Lpp_Win32
begin

text \<open>
  The raylib layer of \<^verbatim>\<open>runtime/lpp_gui.c\<close>: the functions with prefix \<open>rl_\<close>, which are compiled against either backend. A backend is a record of the functions the layer calls, \<open>x11_backend\<close> for
  \<open>Lpp_X11\<close> and \<open>win_backend\<close> for \<open>Lpp_Win32\<close>; what the layer relies on is the locale \<open>raylib_backend\<close>, interpreted for both. The keyboard and mouse state belongs to the whole file: on Windows the window procedure
  writes it, on X11 nothing does.
\<close>

section \<open>Backends\<close>

record 's backend =
  b_create :: "cstr \<Rightarrow> i64 \<Rightarrow> i64 \<Rightarrow> 's \<Rightarrow> ('s \<times> int) res"
  b_poll :: "int \<Rightarrow> 's \<Rightarrow> ('s \<times> int) res"
  b_is_open :: "'s \<Rightarrow> int \<Rightarrow> int"
  b_close :: "int \<Rightarrow> 's \<Rightarrow> 's res"
  b_width :: "'s \<Rightarrow> int \<Rightarrow> int"
  b_height :: "'s \<Rightarrow> int \<Rightarrow> int"
  b_present :: "int \<Rightarrow> 's \<Rightarrow> 's res"
  b_clear :: "int \<Rightarrow> i64 \<Rightarrow> 's \<Rightarrow> 's res"
  b_rect :: "int \<Rightarrow> i64 \<Rightarrow> i64 \<Rightarrow> i64 \<Rightarrow> i64 \<Rightarrow> i64 \<Rightarrow> 's \<Rightarrow> 's res"
  b_rounded :: "int \<Rightarrow> i64 \<Rightarrow> i64 \<Rightarrow> i64 \<Rightarrow> i64 \<Rightarrow> i64 \<Rightarrow> i64 \<Rightarrow> 's \<Rightarrow> 's res"
  b_line :: "int \<Rightarrow> i64 \<Rightarrow> i64 \<Rightarrow> i64 \<Rightarrow> i64 \<Rightarrow> i64 \<Rightarrow> i64 \<Rightarrow> 's \<Rightarrow> 's res"
  b_circle :: "int \<Rightarrow> i64 \<Rightarrow> i64 \<Rightarrow> i64 \<Rightarrow> i64 \<Rightarrow> 's \<Rightarrow> 's res"
  b_text :: "int \<Rightarrow> i64 \<Rightarrow> i64 \<Rightarrow> cstr \<Rightarrow> i64 \<Rightarrow> 's \<Rightarrow> 's res"
  b_measure :: "'s \<Rightarrow> int \<Rightarrow> cstr \<Rightarrow> int"
  b_mouse_x :: "'s \<Rightarrow> int \<Rightarrow> int"
  b_mouse_y :: "'s \<Rightarrow> int \<Rightarrow> int"
  b_input :: "'s \<Rightarrow> gui_input"
  b_set_input :: "gui_input \<Rightarrow> 's \<Rightarrow> 's"

text \<open>An X11 call beside the shared input state.\<close>

definition on_x11 :: "(x11 \<Rightarrow> x11 res) \<Rightarrow> x11 \<times> gui_input \<Rightarrow> (x11 \<times> gui_input) res" where
  "on_x11 f p = bind_res (f (fst p)) (\<lambda>s. Inr (s, snd p))"

definition on_x11_val :: "(x11 \<Rightarrow> (x11 \<times> int) res) \<Rightarrow> x11 \<times> gui_input \<Rightarrow> ((x11 \<times> gui_input) \<times> int) res" where
  "on_x11_val f p = bind_res (f (fst p)) (\<lambda>(s, r). Inr ((s, snd p), r))"

definition x11_backend :: "(string \<Rightarrow> bool) \<Rightarrow> (x11_sym \<Rightarrow> bool) \<Rightarrow> xanswers \<Rightarrow> xevent list \<Rightarrow> allocator \<Rightarrow> (x11 \<times> gui_input) backend" where
  "x11_backend dlopen dlsym a evs al = \<lparr>
     b_create = \<lambda>t w h. on_x11_val (lpp_gui_window_create dlopen dlsym a t w h), b_poll = \<lambda>i. on_x11_val (lpp_gui_window_poll_events evs i),
     b_is_open = \<lambda>p. lpp_gui_window_is_open (fst p), b_close = \<lambda>i. on_x11 (lpp_gui_window_close i), b_width = \<lambda>p. lpp_gui_window_width (fst p), b_height = \<lambda>p. lpp_gui_window_height (fst p),
     b_present = \<lambda>i. on_x11 (lpp_gui_present i), b_clear = \<lambda>i c. on_x11 (lpp_gui_clear al i c), b_rect = \<lambda>i x y w h c. on_x11 (lpp_gui_draw_rect al i x y w h c),
     b_rounded = \<lambda>i x y w h r c. on_x11 (lpp_gui_draw_rounded_rect al i x y w h r c), b_line = \<lambda>i x y x' y' t c. on_x11 (lpp_gui_draw_line al i x y x' y' t c),
     b_circle = \<lambda>i x y r c. on_x11 (lpp_gui_draw_circle al i x y r c), b_text = \<lambda>i x y t c. on_x11 (lpp_gui_draw_text al i x y t c),
     b_measure = \<lambda>_ _. lpp_gui_measure_text_width, b_mouse_x = \<lambda>p. lpp_gui_mouse_x (fst p), b_mouse_y = \<lambda>p. lpp_gui_mouse_y (fst p),
     b_input = snd, b_set_input = \<lambda>g p. (fst p, g)\<rparr>"

definition win_backend :: "win_answers \<Rightarrow> win_msg list \<Rightarrow> u64 \<Rightarrow> u32 option \<Rightarrow> u32 \<times> u32 \<Rightarrow> win32 backend" where
  "win_backend a ms font extent pt = \<lparr>
     b_create = \<lambda>t w h s. Inr (lpp_gui_window_create_win a w h s), b_poll = \<lambda>i s. Inr (lpp_gui_window_poll_events_win ms i s), b_is_open = lpp_gui_window_is_open_win,
     b_close = \<lambda>i s. Inr (lpp_gui_window_close_win i s), b_width = lpp_gui_window_width_win, b_height = lpp_gui_window_height_win, b_present = \<lambda>i s. Inr (lpp_gui_present_win i s),
     b_clear = \<lambda>i c s. Inr (lpp_gui_clear_win i c s), b_rect = \<lambda>i x y w h c s. Inr (lpp_gui_draw_rect_win i x y w h c s), b_rounded = \<lambda>i x y w h r c s. Inr (lpp_gui_draw_rounded_rect_win i x y w h r c s),
     b_line = \<lambda>i x y x' y' t c s. Inr (lpp_gui_draw_line_win i x y x' y' t c s), b_circle = \<lambda>i x y r c s. Inr (lpp_gui_draw_circle_win i x y r c s),
     b_text = \<lambda>i x y t c s. Inr (lpp_gui_draw_text_win font i x y t c s), b_measure = lpp_gui_measure_text_width_win extent, b_mouse_x = lpp_gui_mouse_x_win pt, b_mouse_y = lpp_gui_mouse_y_win pt,
     b_input = g_input, b_set_input = \<lambda>g s. s\<lparr>g_input := g\<rparr>\<rparr>"

section \<open>The layer\<close>

record rl =
  g_active_raylib_win :: int
  g_target_fps :: int
  g_prev_key_state :: "bool list"

definition rl_start :: rl where
  "rl_start = \<lparr>g_active_raylib_win = 0, g_target_fps = 60, g_prev_key_state = replicate 256 False\<rparr>"

definition vk_punctuation :: "(int \<times> int) list" where
  "vk_punctuation = [(32, 0x20), (39, 0xDE), (44, 0xBC), (45, 0xBD), (46, 0xBE), (47, 0xBF), (59, 0xBA), (61, 0xBB), (91, 0xDB), (92, 0xDC), (93, 0xDD), (96, 0xC0)]"

definition vk_special :: "(int \<times> int) list" where
  "vk_special = [(256, 0x1B), (257, 0x0D), (258, 0x09), (259, 0x08), (260, 0x2D), (261, 0x2E), (262, 0x27), (263, 0x25), (264, 0x28), (265, 0x26), (266, 0x21), (267, 0x22), (268, 0x24), (269, 0x23),
     (340, 0x10), (344, 0x10), (341, 0x11), (345, 0x11), (342, 0x12), (346, 0x12)]"

definition lpp_raylib_key_to_vk :: "int \<Rightarrow> int" where
  "lpp_raylib_key_to_vk key = (if key \<ge> 65 \<and> key \<le> 90 then key else if key \<ge> 48 \<and> key \<le> 57 then key
     else case map_of vk_punctuation key of Some vk \<Rightarrow> vk | None \<Rightarrow> (case map_of vk_special key of Some vk \<Rightarrow> vk | None \<Rightarrow>
       if key \<ge> 290 \<and> key \<le> 301 then 0x70 + (key - 290) else if key \<ge> 0 \<and> key < 256 then key else 0))"

definition rl_InitWindow :: "'s backend \<Rightarrow> i64 \<Rightarrow> i64 \<Rightarrow> cstr \<Rightarrow> rl \<Rightarrow> 's \<Rightarrow> (rl \<times> 's) res" where
  "rl_InitWindow B width' height' title r s = bind_res (b_create B title width' height' s) (\<lambda>(s, i). Inr (r\<lparr>g_active_raylib_win := i\<rparr>, s))"

definition rl_WindowShouldClose :: "'s backend \<Rightarrow> rl \<Rightarrow> 's \<Rightarrow> ('s \<times> int) res" where
  "rl_WindowShouldClose B r s = bind_res (b_poll B (g_active_raylib_win r) s) (\<lambda>(s, _). Inr (s, of_bool (b_is_open B s (g_active_raylib_win r) = 0)))"

definition rl_CloseWindow :: "'s backend \<Rightarrow> rl \<Rightarrow> 's \<Rightarrow> 's res" where
  "rl_CloseWindow B r s = b_close B (g_active_raylib_win r) s"

definition rl_SetTargetFPS :: "int \<Rightarrow> rl \<Rightarrow> rl" where
  "rl_SetTargetFPS fps r = (if fps > 0 then r\<lparr>g_target_fps := fps\<rparr> else r)"

definition rl_GetFPS :: "rl \<Rightarrow> int" where
  "rl_GetFPS r = g_target_fps r"

definition rl_GetScreenWidth :: "'s backend \<Rightarrow> rl \<Rightarrow> 's \<Rightarrow> int" where
  "rl_GetScreenWidth B r s = b_width B s (g_active_raylib_win r)"

definition rl_GetScreenHeight :: "'s backend \<Rightarrow> rl \<Rightarrow> 's \<Rightarrow> int" where
  "rl_GetScreenHeight B r s = b_height B s (g_active_raylib_win r)"

text \<open>The last component is the pause in milliseconds.\<close>

definition rl_EndDrawing :: "'s backend \<Rightarrow> rl \<Rightarrow> 's \<Rightarrow> (rl \<times> 's \<times> int) res" where
  "rl_EndDrawing B r s = bind_res (b_present B (g_active_raylib_win r) s) (\<lambda>s. let g = b_input B s
     in Inr (r\<lparr>g_prev_key_state := g_key_state g\<rparr>,
             b_set_input B (g\<lparr>g_mouse_btn_pressed := replicate 3 False, g_mouse_btn_released := replicate 3 False, g_mouse_wheel := 0\<rparr>) s,
             if g_target_fps r > 0 then 1000 div g_target_fps r else 0))"

definition rl_ClearBackground :: "'s backend \<Rightarrow> i64 \<Rightarrow> rl \<Rightarrow> 's \<Rightarrow> 's res" where
  "rl_ClearBackground B color r s = b_clear B (g_active_raylib_win r) color s"

definition rl_DrawRectangle :: "'s backend \<Rightarrow> i64 \<Rightarrow> i64 \<Rightarrow> i64 \<Rightarrow> i64 \<Rightarrow> i64 \<Rightarrow> rl \<Rightarrow> 's \<Rightarrow> 's res" where
  "rl_DrawRectangle B posX posY w h color r s = b_rect B (g_active_raylib_win r) posX posY w h color s"

definition rl_DrawRectangleLines :: "'s backend \<Rightarrow> i64 \<Rightarrow> i64 \<Rightarrow> i64 \<Rightarrow> i64 \<Rightarrow> i64 \<Rightarrow> rl \<Rightarrow> 's \<Rightarrow> 's res" where
  "rl_DrawRectangleLines B posX posY w h color r s = (let line = b_line B (g_active_raylib_win r)
     in bind_res (line posX posY (posX + w) posY 1 color s) (\<lambda>s.
        bind_res (line (posX + w) posY (posX + w) (posY + h) 1 color s) (\<lambda>s.
        bind_res (line (posX + w) (posY + h) posX (posY + h) 1 color s) (\<lambda>s.
        line posX (posY + h) posX posY 1 color s))))"

text \<open>\<open>scale d k\<close> is \<open>(int64_t)(d * (double)k)\<close>, \<open>trunc d\<close> is \<open>(int64_t)d\<close>.\<close>

definition rl_DrawRectangleRounded :: "('d \<Rightarrow> int \<Rightarrow> i64) \<Rightarrow> 's backend \<Rightarrow> i64 \<Rightarrow> i64 \<Rightarrow> i64 \<Rightarrow> i64 \<Rightarrow> 'd \<Rightarrow> i64 \<Rightarrow> rl \<Rightarrow> 's \<Rightarrow> 's res" where
  "rl_DrawRectangleRounded scale B posX posY w h roundness color r s =
     b_rounded B (g_active_raylib_win r) posX posY w h (scale roundness (if sint h > 0 then sint h div 2 else 4)) color s"

definition rl_DrawLine :: "'s backend \<Rightarrow> i64 \<Rightarrow> i64 \<Rightarrow> i64 \<Rightarrow> i64 \<Rightarrow> i64 \<Rightarrow> rl \<Rightarrow> 's \<Rightarrow> 's res" where
  "rl_DrawLine B x1 y1 x2 y2 color r s = b_line B (g_active_raylib_win r) x1 y1 x2 y2 1 color s"

definition rl_DrawCircle :: "('d \<Rightarrow> i64) \<Rightarrow> 's backend \<Rightarrow> i64 \<Rightarrow> i64 \<Rightarrow> 'd \<Rightarrow> i64 \<Rightarrow> rl \<Rightarrow> 's \<Rightarrow> 's res" where
  "rl_DrawCircle trunc B centerX centerY radius color r s = b_circle B (g_active_raylib_win r) centerX centerY (trunc radius) color s"

definition rl_DrawText :: "'s backend \<Rightarrow> cstr \<Rightarrow> i64 \<Rightarrow> i64 \<Rightarrow> i64 \<Rightarrow> rl \<Rightarrow> 's \<Rightarrow> 's res" where
  "rl_DrawText B txt posX posY color r s = b_text B (g_active_raylib_win r) posX posY txt color s"

definition rl_MeasureText :: "'s backend \<Rightarrow> cstr \<Rightarrow> rl \<Rightarrow> 's \<Rightarrow> int" where
  "rl_MeasureText B txt r s = b_measure B s (g_active_raylib_win r) txt"

definition rl_IsKeyDown :: "gui_input \<Rightarrow> int \<Rightarrow> int res" where
  "rl_IsKeyDown g key = (let vk = lpp_raylib_key_to_vk key
     in if vk \<ge> 0 \<and> vk < 256 then if nat vk < length (g_key_state g) then Inr (of_bool (g_key_state g ! nat vk)) else Inl (Fault ''index outside the key state'') else Inr 0)"

definition rl_IsKeyPressed :: "rl \<Rightarrow> gui_input \<Rightarrow> int \<Rightarrow> int res" where
  "rl_IsKeyPressed r g key = (let vk = lpp_raylib_key_to_vk key
     in if vk \<ge> 0 \<and> vk < 256
        then if nat vk < length (g_key_state g) \<and> nat vk < length (g_prev_key_state r) then Inr (if g_key_state g ! nat vk \<and> \<not> g_prev_key_state r ! nat vk then 1 else 0)
             else Inl (Fault ''index outside the key state'')
        else Inr 0)"

definition rl_GetCharPressed :: "gui_input \<Rightarrow> gui_input \<times> u64" where
  "rl_GetCharPressed g = (if g_char_q_head g \<noteq> g_char_q_tail g
     then (g\<lparr>g_char_q_tail := (g_char_q_tail g + 1) mod 64\<rparr>, g_char_queue g ! g_char_q_tail g) else (g, 0))"

definition rl_GetKeyPressed :: int where
  "rl_GetKeyPressed = 0"

definition rl_GetMouseX :: "'s backend \<Rightarrow> rl \<Rightarrow> 's \<Rightarrow> int" where
  "rl_GetMouseX B r s = b_mouse_x B s (g_active_raylib_win r)"

definition rl_GetMouseY :: "'s backend \<Rightarrow> rl \<Rightarrow> 's \<Rightarrow> int" where
  "rl_GetMouseY B r s = b_mouse_y B s (g_active_raylib_win r)"

definition rl_IsMouseButtonPressed :: "gui_input \<Rightarrow> i64 \<Rightarrow> int" where
  "rl_IsMouseButtonPressed g button = (let b = sint (ucast button :: u32) in if b \<ge> 0 \<and> b < 3 then of_bool (g_mouse_btn_pressed g ! nat b) else 0)"

definition rl_IsMouseButtonDown :: "gui_input \<Rightarrow> i64 \<Rightarrow> int" where
  "rl_IsMouseButtonDown g button = (let b = sint (ucast button :: u32) in if b \<ge> 0 \<and> b < 3 then of_bool (g_mouse_btn_down g ! nat b) else 0)"

definition rl_GetMouseWheelMove :: "gui_input \<Rightarrow> int" where
  "rl_GetMouseWheelMove g = g_mouse_wheel g"

definition rl_GetClipboardText :: string where
  "rl_GetClipboardText = []"

section \<open>The queue of typed characters\<close>

definition input_ok :: "gui_input \<Rightarrow> bool" where
  "input_ok g \<longleftrightarrow> length (g_key_state g) = 256 \<and> length (g_char_queue g) = 64 \<and> g_char_q_head g < 64 \<and> g_char_q_tail g < 64 \<and>
     length (g_mouse_btn_down g) = 3 \<and> length (g_mouse_btn_pressed g) = 3 \<and> length (g_mouse_btn_released g) = 3"

definition q_len :: "gui_input \<Rightarrow> nat" where
  "q_len g = (g_char_q_head g + 64 - g_char_q_tail g) mod 64"

definition typed :: "gui_input \<Rightarrow> u64 list" where
  "typed g = map (\<lambda>k. g_char_queue g ! ((g_char_q_tail g + k) mod 64)) [0..<q_len g]"

text \<open>The specification: a queue of at most 63 printable characters.\<close>

datatype char_op = Typed u64 | GetChar

fun spec_char :: "char_op \<Rightarrow> u64 list \<Rightarrow> u64 list \<times> u64 list" where
  "spec_char (Typed c) q = (if 32 \<le> c \<and> c \<le> 126 \<and> length q < 63 then q @ [c] else q, [])"
| "spec_char GetChar q = (case q of [] \<Rightarrow> ([], [0]) | c # q' \<Rightarrow> (q', [c]))"

fun exec_char :: "char_op \<Rightarrow> gui_input \<Rightarrow> gui_input \<times> u64 list" where
  "exec_char (Typed c) g = (wm_char c g, [])"
| "exec_char GetChar g = (let (g, c) = rl_GetCharPressed g in (g, [c]))"

fun run_char :: "(char_op \<Rightarrow> 's \<Rightarrow> 's \<times> u64 list) \<Rightarrow> char_op list \<Rightarrow> 's \<Rightarrow> u64 list" where
  "run_char f [] s = []"
| "run_char f (op # ops) s = (let (s, out) = f op s in out @ run_char f ops s)"

lemma q_len_less: "q_len g < 64"
  by (simp add: q_len_def)

lemma ring_mod: "x < 128 \<Longrightarrow> x mod 64 = (if x < 64 then x else x - 64)" for x :: nat
  by (simp add: le_mod_geq)

lemma ring_facts:
  fixes h t :: nat
  assumes "h < 64" "t < 64"
  shows "(h + 64 - t) mod 64 = 0 \<longleftrightarrow> h = t" "h = (t + (h + 64 - t) mod 64) mod 64" "(h + 1) mod 64 = t \<longleftrightarrow> (h + 64 - t) mod 64 = 63"
    "(h + 1) mod 64 \<noteq> t \<Longrightarrow> ((h + 1) mod 64 + 64 - t) mod 64 = Suc ((h + 64 - t) mod 64)" "h \<noteq> t \<Longrightarrow> (h + 64 - t) mod 64 = Suc ((h + 64 - (t + 1) mod 64) mod 64)"
  using assms by (auto simp: ring_mod split: if_splits)

lemma ring_inj: "(t + i) mod 64 = (t + j) mod 64 \<Longrightarrow> t < 64 \<Longrightarrow> i < 64 \<Longrightarrow> j < 64 \<Longrightarrow> i = j" for t i j :: nat
  by (simp add: ring_mod split: if_splits)

lemma q_empty: "input_ok g \<Longrightarrow> q_len g = 0 \<longleftrightarrow> g_char_q_head g = g_char_q_tail g"
  unfolding input_ok_def q_len_def by (elim conjE) (rule ring_facts(1))

lemma q_head: "input_ok g \<Longrightarrow> g_char_q_head g = (g_char_q_tail g + q_len g) mod 64"
  unfolding input_ok_def q_len_def by (elim conjE) (rule ring_facts(2))

lemma q_full: "input_ok g \<Longrightarrow> (g_char_q_head g + 1) mod 64 = g_char_q_tail g \<longleftrightarrow> q_len g = 63"
  unfolding input_ok_def q_len_def by (elim conjE) (rule ring_facts(3))

lemma typed_put:
  assumes "input_ok g" "32 \<le> c" "c \<le> 126"
  shows "typed (wm_char c g) = (if length (typed g) < 63 then typed g @ [c] else typed g)" "input_ok (wm_char c g)"
proof -
  show ok: "input_ok (wm_char c g)" using assms(1) by (auto simp: wm_char_def input_ok_def Let_def)
  show "typed (wm_char c g) = (if length (typed g) < 63 then typed g @ [c] else typed g)"
  proof (cases "q_len g = 63")
    case False
    then have n: "(g_char_q_head g + 1) mod 64 \<noteq> g_char_q_tail g" "q_len g < 63" using q_full [OF assms(1)] q_len_less [of g] by auto
    let ?g = "wm_char c g"
    have g: "?g = g\<lparr>g_char_queue := (g_char_queue g)[g_char_q_head g := c], g_char_q_head := (g_char_q_head g + 1) mod 64\<rparr>"
      using assms(2,3) n(1) by (simp add: wm_char_def Let_def)
    have l: "q_len ?g = Suc (q_len g)" using n(1) assms(1) ring_facts(4) [of "g_char_q_head g" "g_char_q_tail g"] unfolding g q_len_def input_ok_def by simp
    have "g_char_queue ?g ! ((g_char_q_tail g + k) mod 64) = (if k = q_len g then c else g_char_queue g ! ((g_char_q_tail g + k) mod 64))" if "k \<le> q_len g" for k
    proof -
      have "(g_char_q_tail g + k) mod 64 = g_char_q_head g \<longleftrightarrow> k = q_len g"
        using q_head [OF assms(1)] ring_inj [of "g_char_q_tail g" k "q_len g"] that n(2) assms(1) by (auto simp: input_ok_def)
      then show ?thesis using assms(1) g by (auto simp: input_ok_def)
    qed
    then have "typed ?g = typed g @ [c]" using g unfolding typed_def l by auto
    then show ?thesis using n(2) by (simp add: typed_def)
  next
    case True
    then have "wm_char c g = g" using q_full [OF assms(1)] by (simp add: wm_char_def Let_def)
    then show ?thesis using True by (simp add: typed_def)
  qed
qed

lemma typed_get:
  assumes "input_ok g"
  shows "rl_GetCharPressed g = (g', c) \<Longrightarrow> input_ok g' \<and> (case typed g of [] \<Rightarrow> typed g' = [] \<and> c = 0 | x # q \<Rightarrow> typed g' = q \<and> c = x)"
proof (cases "q_len g = 0")
  case True
  then show "rl_GetCharPressed g = (g', c) \<Longrightarrow> ?thesis" using q_empty [OF assms] assms by (auto simp: rl_GetCharPressed_def typed_def)
next
  case False
  assume r: "rl_GetCharPressed g = (g', c)"
  then have g': "g' = g\<lparr>g_char_q_tail := (g_char_q_tail g + 1) mod 64\<rparr>" "c = g_char_queue g ! g_char_q_tail g" using False q_empty [OF assms] by (auto simp: rl_GetCharPressed_def)
  have l: "q_len g = Suc (q_len g')" using False assms q_empty [OF assms] ring_facts(5) [of "g_char_q_head g" "g_char_q_tail g"] unfolding g' q_len_def input_ok_def by simp
  have "typed g = c # typed g'"
    unfolding typed_def l upt_conv_Cons [OF zero_less_Suc] list.map map_Suc_upt [symmetric] map_map
    using assms g' by (auto simp: input_ok_def mod_simps ac_simps)
  then show ?thesis using assms g'(1) by (auto simp: input_ok_def)
qed

lemma run_char_refines: "input_ok g \<Longrightarrow> run_char exec_char ops g = run_char spec_char ops (typed g)"
proof (induction ops arbitrary: g)
  case (Cons op ops)
  show ?case
  proof (cases op)
    case (Typed c)
    then show ?thesis using Cons typed_put [OF Cons.prems, of c] by (auto simp: wm_char_def)
  next
    case GetChar
    obtain g' c where r: "rl_GetCharPressed g = (g', c)" by fastforce
    then show ?thesis using Cons typed_get [OF Cons.prems r] GetChar by (auto split: list.splits)
  qed
qed simp

text \<open>The queue of typed characters. Whatever characters Windows delivers and whenever the program asks for one, the ring buffer of 64 slots answers like a first-in first-out queue of printable characters (codes 32 to 126)
  that ignores a character when it holds 63; an empty queue answers 0.\<close>

theorem lpp_char_queue_refines: "run_char exec_char ops input_start = run_char spec_char ops []"
proof -
  have "input_ok input_start" "typed input_start = []" by (simp_all add: input_ok_def input_start_def typed_def q_len_def)
  then show ?thesis using run_char_refines by metis
qed

section \<open>Keys and buttons\<close>

lemma map_of_range: "map_of xs k = Some v \<Longrightarrow> list_all (\<lambda>(_, v). 0 \<le> v \<and> v < (256::int)) xs \<Longrightarrow> 0 \<le> v \<and> v < 256"
  by (auto simp: list_all_iff dest: map_of_SomeD)

lemma key_to_vk_range: "0 \<le> lpp_raylib_key_to_vk key \<and> lpp_raylib_key_to_vk key < 256"
proof -
  have "list_all (\<lambda>(_, v). 0 \<le> v \<and> v < 256) vk_punctuation" "list_all (\<lambda>(_, v). 0 \<le> v \<and> v < 256) vk_special"
    by (simp_all add: vk_punctuation_def vk_special_def)
  then show ?thesis using map_of_range [of vk_punctuation key] map_of_range [of vk_special key] by (auto simp: lpp_raylib_key_to_vk_def split: option.splits)
qed

lemma input_ok_char: "input_ok g \<Longrightarrow> input_ok (wm_char c g)"
  by (auto simp: wm_char_def input_ok_def Let_def)

lemma wm_input_ok [simp]: "input_ok g \<Longrightarrow> input_ok (wm_key k b g)" "input_ok g \<Longrightarrow> input_ok (wm_button_down i g)" "input_ok g \<Longrightarrow> input_ok (wm_button_up i g)" "input_ok g \<Longrightarrow> input_ok (wm_mousewheel wp g)"
  by (simp_all add: input_ok_def wm_key_def wm_button_down_def wm_button_up_def wm_mousewheel_def)

lemma wndproc_input_ok: "input_ok (g_input s) \<Longrightarrow> input_ok (g_input (lpp_gui_wndproc m s))"
proof -
  have "g_input (wm_size m s) = g_input s" by (simp add: wm_size_def Let_def lpp_win32_init_dc_state_def)
  moreover have "g_input (lpp_win32_destroy_slot i t) = g_input t" for i t by (simp add: lpp_win32_destroy_slot_def Let_def)
  then have "g_input (wm_close m s) = g_input s" by (simp add: wm_close_def Let_def)
  moreover assume "input_ok (g_input s)"
  ultimately show ?thesis by (simp add: lpp_gui_wndproc_def on_input_def input_ok_char Let_def)
qed


lemma input_start_ok: "input_ok input_start"
  by (simp add: input_ok_def input_start_def)


section \<open>What the layer needs of a backend\<close>

locale raylib_backend =
  fixes B :: "'s backend" and ok :: "'s \<Rightarrow> bool"
  assumes is_open_bool: "b_is_open B s i \<in> {0, 1}"
    and poll_reports: "ok s \<Longrightarrow> \<exists>s'. b_poll B i s = Inr (s', b_is_open B s' i) \<and> ok s' \<and> (b_is_open B s i = 0 \<longrightarrow> b_is_open B s' i = 0)"
    and close_closes: "ok s \<Longrightarrow> \<exists>s'. b_close B i s = Inr s' \<and> ok s' \<and> b_is_open B s' i = 0"
    and present_keeps: "ok s \<Longrightarrow> \<exists>s'. b_present B i s = Inr s' \<and> ok s' \<and> b_input B s' = b_input B s \<and> b_is_open B s' i = b_is_open B s i"
    and input_set: "b_input B (b_set_input B g s) = g" "ok s \<Longrightarrow> ok (b_set_input B g s)" "b_is_open B (b_set_input B g s) i = b_is_open B s i"
begin

lemma should_close_answer:
  assumes "ok s"
  shows "\<exists>s' v. rl_WindowShouldClose B r s = Inr (s', v) \<and> ok s' \<and> v \<in> {0, 1} \<and> (v = 1 \<longleftrightarrow> b_is_open B s' (g_active_raylib_win r) = 0) \<and>
    (b_is_open B s (g_active_raylib_win r) = 0 \<longrightarrow> v = 1)"
  using poll_reports [OF assms, of "g_active_raylib_win r"] is_open_bool by (auto simp: rl_WindowShouldClose_def)

text \<open>Once a window should close, it should close at every later question.\<close>

lemma should_close_stable:
  assumes "ok s" "rl_WindowShouldClose B r s = Inr (s', 1)"
  shows "\<exists>s''. rl_WindowShouldClose B r s' = Inr (s'', 1)"
  using should_close_answer [OF assms(1), of r] should_close_answer [of s' r] assms(2) by auto

lemma close_then_should:
  assumes "ok s"
  shows "\<exists>s' s''. rl_CloseWindow B r s = Inr s' \<and> rl_WindowShouldClose B r s' = Inr (s'', 1)"
  using close_closes [OF assms, of "g_active_raylib_win r"] should_close_answer [of _ r] unfolding rl_CloseWindow_def by metis

lemma main_loop:
  assumes "ok s"
  shows "\<exists>s' v. rl_WindowShouldClose B r s = Inr (s', v) \<and> v \<in> {0, 1} \<and> (v = 1 \<longleftrightarrow> b_is_open B s' (g_active_raylib_win r) = 0) \<and>
    (v = 1 \<longrightarrow> (\<exists>s''. rl_WindowShouldClose B r s' = Inr (s'', 1))) \<and> (\<exists>c c'. rl_CloseWindow B r s = Inr c \<and> rl_WindowShouldClose B r c = Inr (c', 1))"
  using should_close_answer [OF assms, of r] should_close_stable [OF assms, of r] close_then_should [OF assms, of r] by metis

text \<open>After a frame every held key is down but no longer pressed, and no button is freshly pressed.\<close>

lemma frame_edges:
  assumes "ok s" "input_ok (b_input B s)"
  shows "\<exists>r' s' ms. rl_EndDrawing B r s = Inr (r', s', ms) \<and> ok s' \<and> input_ok (b_input B s') \<and> (\<forall>key. rl_IsKeyPressed r' (b_input B s') key = Inr 0) \<and>
    (\<forall>key. rl_IsKeyDown (b_input B s') key = rl_IsKeyDown (b_input B s) key) \<and> (\<forall>b. rl_IsMouseButtonPressed (b_input B s') b = 0)"
proof -
  from present_keeps [OF assms(1), of "g_active_raylib_win r"] obtain t where t: "b_present B (g_active_raylib_win r) s = Inr t" "ok t" "b_input B t = b_input B s" by blast
  have "nat b < 3 \<Longrightarrow> \<not> replicate 3 False ! nat b" for b by simp
  then show ?thesis using t input_set assms(2) key_to_vk_range
    by (auto simp: rl_EndDrawing_def Let_def input_ok_def rl_IsKeyPressed_def rl_IsKeyDown_def rl_IsMouseButtonPressed_def nat_less_iff)
qed

end

interpretation win_rl: raylib_backend "win_backend a ms font extent pt" "\<lambda>s. length (g_windows s) = 8"
proof
  fix s :: win32 and i
  show "b_is_open (win_backend a ms font extent pt) s i \<in> {0, 1}" by (simp add: win_backend_def lpp_gui_window_is_open_win_def)
next
  fix s :: win32 and i assume l: "length (g_windows s) = 8"
  show "\<exists>s'. b_poll (win_backend a ms font extent pt) i s = Inr (s', b_is_open (win_backend a ms font extent pt) s' i) \<and> length (g_windows s') = 8 \<and>
      (b_is_open (win_backend a ms font extent pt) s i = 0 \<longrightarrow> b_is_open (win_backend a ms font extent pt) s' i = 0)"
  proof (cases "0 \<le> i \<and> i < 8")
    case True
    obtain s' r where m: "message_loop i ms s = (s', r)" by fastforce
    then show ?thesis using message_loop_reports [OF l _ _ m] True l length_message_loop [of i ms s]
      by (auto simp: win_backend_def lpp_gui_window_poll_events_win_def lpp_gui_window_is_open_win_def win_open_id_def)
  qed (use l in \<open>auto simp: win_backend_def lpp_gui_window_poll_events_win_def lpp_gui_window_is_open_win_def win_open_id_def\<close>)
  show "\<exists>s'. b_close (win_backend a ms font extent pt) i s = Inr s' \<and> length (g_windows s') = 8 \<and> b_is_open (win_backend a ms font extent pt) s' i = 0"
    using l close_win_live(2) [OF l, of i] by (auto simp: win_backend_def lpp_gui_window_close_win_def lpp_gui_window_is_open_win_def win_open_id_def Let_def nat_less_iff)
  show "\<exists>s'. b_present (win_backend a ms font extent pt) i s = Inr s' \<and> length (g_windows s') = 8 \<and> b_input (win_backend a ms font extent pt) s' = b_input (win_backend a ms font extent pt) s \<and>
      b_is_open (win_backend a ms font extent pt) s' i = b_is_open (win_backend a ms font extent pt) s i"
    using l by (auto simp: win_backend_def lpp_gui_present_win_def lpp_gui_window_is_open_win_def win_open_id_def Let_def)
qed (simp_all add: win_backend_def lpp_gui_window_is_open_win_def win_open_id_def)

text \<open>On X11 a poll leaves the displays and graphics contexts of all windows as they are.\<close>

definition frames :: "x11 \<Rightarrow> (u64 \<times> u64) list" where
  "frames s = map (\<lambda>w. (display w, gc w)) (unix_windows s)"

lemma frames_set_slot: "nat i < length (unix_windows s) \<Longrightarrow> display w = display (slot s i) \<Longrightarrow> gc w = gc (slot s i) \<Longrightarrow> frames (set_slot s i w) = frames s"
  unfolding frames_def set_slot_def by (simp add: map_update) (metis (mono_tags, lifting) list_update_id nth_map)

lemma frames_log [simp]: "frames (s\<lparr>xlog := l\<rparr>) = frames s" "frames (xmake r x s) = frames s" "frames (s\<lparr>xlive := L\<rparr>) = frames s"
  by (simp_all add: frames_def)

lemma frames_xfree: "xfree c r s = Inr t \<Longrightarrow> frames t = frames s \<and> unix_windows t = unix_windows s \<and> p_sym t = p_sym s"
  by (auto simp: xfree_def frames_def split: if_splits)

lemma frames_xreq: "xreq d c s = Inr t \<Longrightarrow> frames t = frames s"
  by (auto simp: xreq_def split: if_splits)

lemma frames_event:
  assumes "handle_event i ev s = Inr t" "nat i < length (unix_windows s)"
  shows "frames t = frames s"
proof -
  have c: "frames t = frames s" if "configure_notify i ev s = Inr t"
    using that assms(2) by (auto simp: configure_notify_def Let_def frames_def set_slot_def map_update dest!: frames_xfree split: if_splits)
      (metis (mono_tags, lifting) list_update_id nth_map)+
  show ?thesis using assms c frames_set_slot [OF assms(2)]
    by (auto simp: handle_event_def Let_def key_press_def key_release_def blit_def dest!: frames_xreq split: if_splits)
qed

lemma frames_length: "frames s = frames t \<Longrightarrow> length (unix_windows s) = length (unix_windows t)"
  unfolding frames_def by (drule arg_cong [of _ _ length]) simp

lemma frames_loop: "event_loop i evs s = Inr t \<Longrightarrow> nat i < length (unix_windows s) \<Longrightarrow> frames t = frames s"
proof (induction evs arbitrary: s)
  case (Cons ev evs)
  then obtain u where "handle_event i ev s = Inr u" "event_loop i evs u = Inr t" by (auto simp: must_call_def split: if_splits)
  then show ?case using Cons frames_event [of i ev s u] frames_length [of u s] by simp
qed simp

definition new_gcs :: "xevent list \<Rightarrow> x11 \<Rightarrow> bool" where
  "new_gcs evs s \<longleftrightarrow> (\<forall>ev \<in> set evs. \<forall>(d, g) \<in> set (frames s). d \<noteq> 0 \<longrightarrow> ev_gc ev \<noteq> g)"

lemma new_gcs_slot: "new_gcs evs s \<Longrightarrow> x11_inv s \<Longrightarrow> open_id s i \<Longrightarrow> \<forall>ev \<in> set evs. ev_gc ev \<noteq> gc (slot s i)"
  using open_slot [of s i] by (fastforce simp: new_gcs_def frames_def x11_inv_def nat_less_iff)

lemma poll_frames: "x11_inv s \<Longrightarrow> lpp_gui_window_poll_events evs i s = Inr (s', r) \<Longrightarrow> frames s' = frames s"
  using frames_loop [of i evs s] by (auto simp: lpp_gui_window_poll_events_def open_id_def x11_inv_def nat_less_iff split: if_splits)

lemma close_frames:
  assumes "x11_inv s" "lpp_gui_window_close i s = Inr s'" "new_gcs evs s"
  shows "new_gcs evs s'"
proof (cases "0 \<le> i \<and> i < 8 \<and> display (slot s i) \<noteq> 0")
  case True
  then have "s' = set_slot (s\<lparr>xlive := xlive s - own (slot s i)\<rparr>) i zero_window" using destroy_slot_ok [OF assms(1)] assms(2) by (auto simp: lpp_gui_window_close_def Let_def)
  then have "frames s' = (frames s)[nat i := (0, 0)]" by (simp add: frames_def set_slot_def map_update zero_window_def)
  then show ?thesis using assms(3) set_update_subset_insert [of "frames s" "nat i" "(0, 0)"] by (fastforce simp: new_gcs_def)
next
  case False
  have "\<not> open_id s i \<or> display (slot s i) \<noteq> 0" using open_slot [OF assms(1), of i] by blast
  then have "s' = s" using False assms(2) by (auto simp: lpp_gui_window_close_def Let_def open_id_def split: if_splits)
  then show ?thesis using assms(3) by simp
qed

interpretation x11_rl: raylib_backend "x11_backend dlo dls a evs al" "\<lambda>p. x11_inv (fst p) \<and> new_gcs evs (fst p)"
proof
  fix s :: "x11 \<times> gui_input" and i
  show "b_is_open (x11_backend dlo dls a evs al) s i \<in> {0, 1}" by (simp add: x11_backend_def lpp_gui_window_is_open_def)
next
  fix s :: "x11 \<times> gui_input" and i assume l: "x11_inv (fst s) \<and> new_gcs evs (fst s)"
  then have inv: "x11_inv (fst s)" and g: "new_gcs evs (fst s)" by auto
  obtain t where t: "lpp_gui_window_poll_events evs i (fst s) = Inr (t, lpp_gui_window_is_open t i)" "x11_inv t" "open_id t i \<longrightarrow> open_id (fst s) i"
    using poll_ok [OF inv new_gcs_slot [OF g inv], of i] by blast
  have "new_gcs evs t" using g poll_frames [OF inv t(1)] by (simp add: new_gcs_def)
  then show "\<exists>s'. b_poll (x11_backend dlo dls a evs al) i s = Inr (s', b_is_open (x11_backend dlo dls a evs al) s' i) \<and> (x11_inv (fst s') \<and> new_gcs evs (fst s')) \<and>
      (b_is_open (x11_backend dlo dls a evs al) s i = 0 \<longrightarrow> b_is_open (x11_backend dlo dls a evs al) s' i = 0)"
    using t by (auto simp: x11_backend_def on_x11_val_def lpp_gui_window_is_open_def)
  obtain u where u: "lpp_gui_window_close i (fst s) = Inr u" "x11_inv u" "0 \<le> i \<and> i < 8 \<longrightarrow> \<not> is_open (slot u i)" using close_ok [OF inv, of i] by blast
  then show "\<exists>s'. b_close (x11_backend dlo dls a evs al) i s = Inr s' \<and> (x11_inv (fst s') \<and> new_gcs evs (fst s')) \<and> b_is_open (x11_backend dlo dls a evs al) s' i = 0"
    using close_frames [OF inv u(1) g] by (auto simp: x11_backend_def on_x11_def lpp_gui_window_is_open_def open_id_def)
  obtain k where "lpp_gui_present i (fst s) = Inr ((fst s)\<lparr>xlog := k\<rparr>)" using draw_ok(6) [OF inv, of i] by blast
  then show "\<exists>s'. b_present (x11_backend dlo dls a evs al) i s = Inr s' \<and> (x11_inv (fst s') \<and> new_gcs evs (fst s')) \<and> b_input (x11_backend dlo dls a evs al) s' = b_input (x11_backend dlo dls a evs al) s \<and>
      b_is_open (x11_backend dlo dls a evs al) s' i = b_is_open (x11_backend dlo dls a evs al) s i"
    using inv g by (auto simp: x11_backend_def on_x11_def lpp_gui_window_is_open_def open_id_def new_gcs_def)
qed (simp_all add: x11_backend_def)

section \<open>Properties of the layer\<close>

text \<open>The main loop ends. On both backends asking whether the window should close always returns, answers 1 exactly when the window is not open after the waiting events were handled, keeps answering 1 from then on, and answers 1
  after the window was closed by the program.\<close>

theorem lpp_rl_should_close:
  assumes "x11_reach s" "new_gcs evs s" "length (g_windows w) = 8"
  shows "(\<exists>s' v. rl_WindowShouldClose (x11_backend dlo dls a evs al) r (s, g) = Inr (s', v) \<and> v \<in> {0, 1} \<and> (v = 1 \<longleftrightarrow> lpp_gui_window_is_open (fst s') (g_active_raylib_win r) = 0) \<and>
      (v = 1 \<longrightarrow> (\<exists>s''. rl_WindowShouldClose (x11_backend dlo dls a evs al) r s' = Inr (s'', 1))) \<and>
      (\<exists>c c'. rl_CloseWindow (x11_backend dlo dls a evs al) r (s, g) = Inr c \<and> rl_WindowShouldClose (x11_backend dlo dls a evs al) r c = Inr (c', 1))) \<and>
    (\<exists>w' v. rl_WindowShouldClose (win_backend b ms font extent pt) r w = Inr (w', v) \<and> v \<in> {0, 1} \<and> (v = 1 \<longleftrightarrow> lpp_gui_window_is_open_win w' (g_active_raylib_win r) = 0) \<and>
      (v = 1 \<longrightarrow> (\<exists>w''. rl_WindowShouldClose (win_backend b ms font extent pt) r w' = Inr (w'', 1))) \<and>
      (\<exists>c c'. rl_CloseWindow (win_backend b ms font extent pt) r w = Inr c \<and> rl_WindowShouldClose (win_backend b ms font extent pt) r c = Inr (c', 1)))"
proof -
  have x: "x11_inv (fst (s, g)) \<and> new_gcs evs (fst (s, g))" using reach_inv [OF assms(1)] assms(2) by simp
  have bx: "b_is_open (x11_backend dlo dls a evs al) p = lpp_gui_window_is_open (fst p)" for p by (simp add: x11_backend_def)
  have bw: "b_is_open (win_backend b ms font extent pt) = lpp_gui_window_is_open_win" by (simp add: win_backend_def)
  show ?thesis
    using x11_rl.main_loop [OF x, where r = r and dlo = dlo and dls = dls and a = a and al = al]
      win_rl.main_loop [OF assms(3), where r = r and a = b and ms = ms and font = font and extent = extent and pt = pt]
    unfolding bx bw by (rule conjI)
qed

theorem lpp_rl_should_close_witness:
  "\<exists>w'. rl_WindowShouldClose (win_backend \<lparr>w_class = True, w_hwnd = 8, w_hdc = 9, w_mem_dc = 1, w_bmp = 2, w_stock_bmp = 3, w_font = 4, w_font2 = 0, w_msgs = []\<rparr> [] 0 None (0, 0)) rl_start win32_start = Inr (w', 1)"
proof -
  have l: "length (g_windows win32_start) = 8" "new_gcs [] x11_start" by (simp_all add: win32_start_def new_gcs_def)
  from lpp_rl_should_close [OF xr_start l(2,1), where r = rl_start and b = "\<lparr>w_class = True, w_hwnd = 8, w_hdc = 9, w_mem_dc = 1, w_bmp = 2, w_stock_bmp = 3, w_font = 4, w_font2 = 0, w_msgs = []\<rparr>" and ms = "[]" and font = 0 and extent = None and pt = "(0, 0)"]
  show ?thesis by (auto simp: rl_WindowShouldClose_def win_backend_def lpp_gui_window_poll_events_win_def win32_start_def rl_start_def zero_win32_def lpp_gui_window_is_open_win_def win_open_id_def)
qed

text \<open>Ending a frame on Windows: keys that are held stay down and are no longer freshly pressed.\<close>

theorem lpp_rl_frame_edges:
  assumes "length (g_windows s) = 8" "input_ok (g_input s)"
  shows "\<exists>r' s' p. rl_EndDrawing (win_backend a ms font extent pt) r s = Inr (r', s', p) \<and> (\<forall>key. rl_IsKeyPressed r' (g_input s') key = Inr 0) \<and>
    (\<forall>key. rl_IsKeyDown (g_input s') key = rl_IsKeyDown (g_input s) key) \<and> (\<forall>b. rl_IsMouseButtonPressed (g_input s') b = 0)"
proof -
  have i: "b_input (win_backend a ms font extent pt) = g_input" by (simp add: win_backend_def)
  show ?thesis using win_rl.frame_edges [OF assms(1), where r = r and a = a and ms = ms and font = font and extent = extent and pt = pt] assms(2) unfolding i by blast
qed

text \<open>A key that goes down after a frame and is still down at the query is reported as pressed exactly once.\<close>

theorem lpp_rl_key_edge:
  assumes "input_ok g" "length (g_prev_key_state r) = 256" "\<not> g_prev_key_state r ! nat (lpp_raylib_key_to_vk key)"
  shows "rl_IsKeyPressed r (wm_key (of_int (lpp_raylib_key_to_vk key)) True g) key = Inr 1" "rl_IsKeyPressed r (wm_key (of_int (lpp_raylib_key_to_vk key)) False g) key = Inr 0"
proof -
  define n where "n = nat (lpp_raylib_key_to_vk key)"
  have n: "n < 256" "lpp_raylib_key_to_vk key = int n" using key_to_vk_range [of key] by (auto simp: n_def)
  have u: "unat (of_int (int n) :: u64) = n" using n(1) by (simp add: unsigned_of_nat take_bit_nat_eq_self)
  have "(of_int (int n) :: u64) < 256" using n(1) u by (simp add: word_less_nat_alt)
  then show "rl_IsKeyPressed r (wm_key (of_int (lpp_raylib_key_to_vk key)) True g) key = Inr 1" "rl_IsKeyPressed r (wm_key (of_int (lpp_raylib_key_to_vk key)) False g) key = Inr 0"
    using assms n u by (auto simp: rl_IsKeyPressed_def wm_key_def Let_def input_ok_def)
qed

section \<open>Screenshots\<close>

definition le_bytes :: "nat \<Rightarrow> u32 \<Rightarrow> u8 list" where
  "le_bytes n v = map (\<lambda>i. ucast (drop_bit (8 * i) v)) [0..<n]"

definition bmp_header :: "u32 \<Rightarrow> u8 list" where
  "bmp_header buf_size = le_bytes 2 0x4D42 @ le_bytes 4 (14 + 40 + buf_size) @ le_bytes 2 0 @ le_bytes 2 0 @ le_bytes 4 (14 + 40)"

definition bmp_info :: "u32 \<Rightarrow> u32 \<Rightarrow> u8 list" where
  "bmp_info w h = le_bytes 4 40 @ le_bytes 4 w @ le_bytes 4 h @ le_bytes 2 1 @ le_bytes 2 32 @ le_bytes 4 0 @ le_bytes 4 0 @ le_bytes 4 0 @ le_bytes 4 0 @ le_bytes 4 0 @ le_bytes 4 0"

text \<open>\<open>oom n\<close>: no block of \<open>n\<close> bytes; \<open>dib\<close> are the bytes \<open>GetDIBits\<close> stores, four for each pixel; \<open>fopen\<close> is whether the file opens. The result is the content written.\<close>

definition rl_TakeScreenshot :: "(nat \<Rightarrow> bool) \<Rightarrow> (u64 \<Rightarrow> u8 list) \<Rightarrow> bool \<Rightarrow> rl \<Rightarrow> win32 \<Rightarrow> u8 list option res" where
  "rl_TakeScreenshot oom dib fopen r s = (let i = g_active_raylib_win r
     in if i < 0 \<or> i \<ge> 8 then Inr None
        else let w = wslot s i
        in if \<not> w_open w \<or> mem_dc w = 0 \<or> hbmp w = 0 then Inr None
           else if sint (w_width w) \<le> 0 \<or> sint (w_height w) \<le> 0 then Inr None
           else let buf_size = w_width w * w_height w * 4; n = unat (scast buf_size :: u64)
           in if oom n then Inr None
              else if n < unat (w_width w) * unat (w_height w) * 4 then Inl (Fault ''GetDIBits writes behind the block'')
              else Inr (if fopen then Some (bmp_header buf_size @ bmp_info (w_width w) (w_height w) @ take n (dib (hbmp w))) else None))"

lemma scast_small: "m < 2 ^ 31 \<Longrightarrow> unat (scast (of_nat m :: u32) :: u64) = m"
  by (simp add: signed_of_nat unsigned_of_int signed_take_bit_int_eq_self take_bit_int_eq_self unsigned_of_nat take_bit_nat_eq_self)

text \<open>As long as the picture has fewer than \<open>2 ^ 31\<close> bytes the file is a bitmap whose size field is its length; a window of 32768 by 32768 pixels has a block of 0 bytes.\<close>

theorem lpp_screenshot_file:
  assumes "0 \<le> g_active_raylib_win r" "g_active_raylib_win r < 8" "w = wslot s (g_active_raylib_win r)" "w_open w" "mem_dc w \<noteq> 0" "hbmp w \<noteq> 0"
    and "0 < sint (w_width w)" "0 < sint (w_height w)" "n = unat (w_width w) * unat (w_height w) * 4"
  shows "n < 2 ^ 31 - 54 \<Longrightarrow> \<not> oom n \<Longrightarrow> length (dib (hbmp w)) = n \<Longrightarrow> \<exists>f. rl_TakeScreenshot oom dib True r s = Inr (Some f) \<and> length f = n + 54 \<and> take 4 (drop 2 f) = le_bytes 4 (of_nat (length f))"
    and "w_width w = 32768 \<Longrightarrow> w_height w = 32768 \<Longrightarrow> \<not> oom 0 \<Longrightarrow> \<exists>e. rl_TakeScreenshot oom dib fopen r s = Inl (Fault e)"
proof -
  have b: "w_width w * w_height w * 4 = of_nat n" using assms(9) by simp
  { assume n: "n < 2 ^ 31 - 54" and o: "\<not> oom n" and d: "length (dib (hbmp w)) = n"
    have u: "unat (scast (w_width w * w_height w * 4) :: u64) = n" unfolding b using n by (intro scast_small) simp
    let ?f = "bmp_header (of_nat n) @ bmp_info (w_width w) (w_height w) @ dib (hbmp w)"
    have "rl_TakeScreenshot oom dib True r s = Inr (Some ?f)"
      using assms(1,2,4-8) o d u assms(9) unfolding rl_TakeScreenshot_def Let_def assms(3) [symmetric] b by simp
    moreover have "length ?f = n + 54" using d by (simp add: bmp_header_def bmp_info_def le_bytes_def)
    moreover have "take 4 (drop 2 ?f) = le_bytes 4 (14 + 40 + of_nat n)" by (simp add: bmp_header_def le_bytes_def)
    ultimately show "\<exists>f. rl_TakeScreenshot oom dib True r s = Inr (Some f) \<and> length f = n + 54 \<and> take 4 (drop 2 f) = le_bytes 4 (of_nat (length f))"
      by (intro exI [of _ ?f]) (simp add: add.commute) }
  { assume "w_width w = 32768" "w_height w = 32768" "\<not> oom 0"
    then show "\<exists>e. rl_TakeScreenshot oom dib fopen r s = Inl (Fault e)"
      using assms(1,2,4-8) unfolding rl_TakeScreenshot_def Let_def assms(3) [symmetric] by simp }
qed

end
