(* ===== verification/Lpp_Min_List.thy ===== *)
theory Lpp_Min_List
  imports Lpp_List_Fs
begin

text \<open>
  The growable list of the freestanding Windows runtime (\<^verbatim>\<open>runtime/windows_x86_64_min.c\<close>, suffix \<open>_min\<close>). The list object is the one of the Linux runtime, with \<open>VirtualAlloc\<close> in place of \<open>mmap\<close>: pages fresh from the
  system are zeroed. Creating, growing, reading, writing and popping are the same statements; the operations from \<open>lpp_list_insert\<close> on exist on Windows only, written as loops over the slots.
\<close>

section \<open>Operations shared with the Linux runtime\<close>

definition lpp_list_destroy_min :: "fslistp \<Rightarrow> arc_ev list res" where
  "lpp_list_destroy_min = lpp_list_destroy_fs"

definition lpp_list_new_with_mode_min :: "bool \<Rightarrow> bool \<Rightarrow> fslistp" where
  "lpp_list_new_with_mode_min = lpp_list_new_with_mode"

definition lpp_list_new_min :: "bool \<Rightarrow> fslistp" where
  "lpp_list_new_min oom = lpp_list_new_with_mode_min oom False"

definition lpp_list_new_arc_min :: "bool \<Rightarrow> fslistp" where
  "lpp_list_new_arc_min oom = lpp_list_new_with_mode_min oom True"

definition lpp_list_push_min :: "(int \<Rightarrow> bool) \<Rightarrow> fslistp \<Rightarrow> i64 \<Rightarrow> (fslistp \<times> arc_ev list) res" where
  "lpp_list_push_min = lpp_list_push_fs"

text \<open>Unlike on Linux, pushing or storing a reference switches ownership on.\<close>

definition own_elements :: "fslistp \<Rightarrow> fslistp" where
  "own_elements lp = map_option (\<lambda>l. l\<lparr>arc_elements := True\<rparr>) lp"

definition lpp_list_push_arc_min :: "(int \<Rightarrow> bool) \<Rightarrow> fslistp \<Rightarrow> i64 \<Rightarrow> (fslistp \<times> arc_ev list) res" where
  "lpp_list_push_arc_min mfail lp v = lpp_list_push_min mfail (own_elements lp) v"

definition lpp_list_push_float_min :: "(int \<Rightarrow> bool) \<Rightarrow> fslistp \<Rightarrow> i64 \<Rightarrow> (fslistp \<times> arc_ev list) res" where
  "lpp_list_push_float_min mfail lp bits = lpp_list_push_min mfail lp bits"

definition lpp_list_push_bool_min :: "(int \<Rightarrow> bool) \<Rightarrow> fslistp \<Rightarrow> u8 \<Rightarrow> (fslistp \<times> arc_ev list) res" where
  "lpp_list_push_bool_min mfail lp b = lpp_list_push_min mfail lp (if b \<noteq> 0 then 1 else 0)"

definition lpp_list_get_min :: "fslistp \<Rightarrow> int \<Rightarrow> i64 res" where
  "lpp_list_get_min = lpp_list_get_fs"

definition lpp_list_set_min :: "fslistp \<Rightarrow> int \<Rightarrow> i64 \<Rightarrow> (fslist \<times> arc_ev list) res" where
  "lpp_list_set_min = lpp_list_set_fs"

definition lpp_list_set_bool_min :: "fslistp \<Rightarrow> int \<Rightarrow> u8 \<Rightarrow> (fslist \<times> arc_ev list) res" where
  "lpp_list_set_bool_min lp i b = lpp_list_set_min lp i (if b \<noteq> 0 then 1 else 0)"

definition lpp_list_set_float_min :: "fslistp \<Rightarrow> int \<Rightarrow> i64 \<Rightarrow> (fslist \<times> arc_ev list) res" where
  "lpp_list_set_float_min lp i bits = lpp_list_set_min lp i bits"

definition lpp_list_set_arc_min :: "fslistp \<Rightarrow> int \<Rightarrow> i64 \<Rightarrow> (fslist \<times> arc_ev list) res" where
  "lpp_list_set_arc_min lp i v = lpp_list_set_min (own_elements lp) i v"

definition lpp_list_get_float_min :: "fslistp \<Rightarrow> int \<Rightarrow> i64 res" where
  "lpp_list_get_float_min lp i = lpp_list_get_min lp i"

definition lpp_list_get_bool_min :: "fslistp \<Rightarrow> int \<Rightarrow> bool res" where
  "lpp_list_get_bool_min lp i = bind_res (lpp_list_get_min lp i) (\<lambda>v. Inr (v \<noteq> 0))"

definition lpp_list_get_arc_min :: "fslistp \<Rightarrow> int \<Rightarrow> i64 res" where
  "lpp_list_get_arc_min lp i = lpp_list_get_min lp i"

definition lpp_list_len_min :: "fslistp \<Rightarrow> int" where
  "lpp_list_len_min = lpp_list_len_fs"

definition lpp_list_pop_min :: "fslistp \<Rightarrow> (fslist \<times> i64) res" where
  "lpp_list_pop_min = lpp_list_pop_fs"

section \<open>Operations of the Windows runtime\<close>

text \<open>\<open>for (i = len - 1; i > idx; i--) data[i] = data[i - 1]\<close>.\<close>

function shift_up :: "fslist \<Rightarrow> int \<Rightarrow> int \<Rightarrow> fslist res" where
  "shift_up l idx i = (if i > idx then bind_res (frd_slot l (i - 1)) (\<lambda>v. bind_res (fwr_slot l i v) (\<lambda>l. shift_up l idx (i - 1))) else Inr l)"
  by pat_completeness auto
termination by (relation "measure (\<lambda>(_, idx, i). nat (i - idx))") auto

declare shift_up.simps [simp del]

definition lpp_list_insert_min :: "(int \<Rightarrow> bool) \<Rightarrow> fslistp \<Rightarrow> int \<Rightarrow> i64 \<Rightarrow> (fslistp \<times> arc_ev list) res" where
  "lpp_list_insert_min mfail lp idx v = (case lp of None \<Rightarrow> Inl (Exited 101) | Some l \<Rightarrow>
     if idx < 0 \<or> idx > flen l then Inl (Exited 101)
     else bind_res (lpp_list_push_min mfail (Some l) 0) (\<lambda>(lp, es). case lp of None \<Rightarrow> Inl (Fault ''null list'') | Some l \<Rightarrow>
       bind_res (shift_up l idx (flen l - 1)) (\<lambda>l. bind_res (fwr_slot l idx v) (\<lambda>l. Inr (Some l, es @ fretain l v)))))"

text \<open>\<open>for (i = idx; i < len - 1; i++) data[i] = data[i + 1]\<close>; the loop does not change \<open>len = n\<close>.\<close>

function shift_down :: "fslist \<Rightarrow> int \<Rightarrow> int \<Rightarrow> fslist res" where
  "shift_down l n i = (if i < n - 1 then bind_res (frd_slot l (i + 1)) (\<lambda>v. bind_res (fwr_slot l i v) (\<lambda>l. shift_down l n (i + 1))) else Inr l)"
  by pat_completeness auto
termination by (relation "measure (\<lambda>(_, n, i). nat (n - i))") auto

declare shift_down.simps [simp del]

definition lpp_list_remove_min :: "fslistp \<Rightarrow> int \<Rightarrow> (fslist \<times> i64) res" where
  "lpp_list_remove_min lp idx = (case lp of None \<Rightarrow> Inl (Exited 101) | Some l \<Rightarrow>
     if idx < 0 \<or> idx \<ge> flen l then Inl (Exited 101)
     else bind_res (frd_slot l idx) (\<lambda>val. bind_res (shift_down l (flen l) idx) (\<lambda>l. Inr (l\<lparr>flen := flen l - 1\<rparr>, val))))"

definition lpp_list_reserve_min :: "fslistp \<Rightarrow> int \<Rightarrow> fslistp" where
  "lpp_list_reserve_min lp cap = lp"

definition lpp_list_capacity_min :: "fslistp \<Rightarrow> int" where
  "lpp_list_capacity_min lp = (case lp of None \<Rightarrow> 0 | Some l \<Rightarrow> fcap l)"

definition lpp_list_clear_min :: "fslistp \<Rightarrow> (fslistp \<times> arc_ev list) res" where
  "lpp_list_clear_min lp = (case lp of None \<Rightarrow> Inr (None, []) | Some l \<Rightarrow>
     bind_res (if arc_elements l then fdrop_all l 0 (nat (flen l)) else Inr []) (\<lambda>es. Inr (Some (l\<lparr>flen := 0\<rparr>), es)))"

definition lpp_list_truncate_min :: "fslistp \<Rightarrow> int \<Rightarrow> (fslistp \<times> arc_ev list) res" where
  "lpp_list_truncate_min lp n = (case lp of None \<Rightarrow> Inr (None, []) | Some l \<Rightarrow> if n \<ge> flen l \<or> n < 0 then Inr (Some l, [])
     else bind_res (if arc_elements l then fdrop_all l (nat n) (nat (flen l - n)) else Inr []) (\<lambda>es. Inr (Some (l\<lparr>flen := n\<rparr>), es)))"

definition fswap :: "fslist \<Rightarrow> int \<Rightarrow> int \<Rightarrow> fslist res" where
  "fswap l i j = bind_res (frd_slot l i) (\<lambda>t. bind_res (frd_slot l j) (\<lambda>u. bind_res (fwr_slot l i u) (\<lambda>l. fwr_slot l j t)))"

definition lpp_list_swap_min :: "fslistp \<Rightarrow> int \<Rightarrow> int \<Rightarrow> fslist res" where
  "lpp_list_swap_min lp i j = (case lp of None \<Rightarrow> Inl (Exited 101) | Some l \<Rightarrow>
     if i < 0 \<or> i \<ge> flen l \<or> j < 0 \<or> j \<ge> flen l then Inl (Exited 101) else fswap l i j)"

function reverse_min_loop :: "fslist \<Rightarrow> int \<Rightarrow> int \<Rightarrow> fslist res" where
  "reverse_min_loop l i j = (if i < j then bind_res (fswap l i j) (\<lambda>l. reverse_min_loop l (i + 1) (j - 1)) else Inr l)"
  by pat_completeness auto
termination by (relation "measure (\<lambda>(_, i, j). nat (j - i))") auto

declare reverse_min_loop.simps [simp del]

definition lpp_list_reverse_min :: "fslistp \<Rightarrow> fslistp res" where
  "lpp_list_reverse_min lp = (case lp of None \<Rightarrow> Inr None | Some l \<Rightarrow> if flen l \<le> 1 then Inr (Some l)
     else bind_res (reverse_min_loop l 0 (flen l - 1)) (\<lambda>l. Inr (Some l)))"

text \<open>The sorts work in place on the first \<open>len\<close> slots.\<close>

definition fsort :: "(i64 \<Rightarrow> i64 \<Rightarrow> bool) \<Rightarrow> fslistp \<Rightarrow> fslistp" where
  "fsort after lp = map_option (\<lambda>l. case fdata l of None \<Rightarrow> l
     | Some d \<Rightarrow> l\<lparr>fdata := Some (sort_win after (take (nat (flen l)) d) @ drop (nat (flen l)) d)\<rparr>) lp"

definition lpp_list_sort_min :: "fslistp \<Rightarrow> fslistp" where
  "lpp_list_sort_min = fsort (\<lambda>x k. sint x > sint k)"

definition lpp_list_sort_desc_min :: "fslistp \<Rightarrow> fslistp" where
  "lpp_list_sort_desc_min = fsort (\<lambda>x k. sint x < sint k)"

definition lpp_list_sort_u_min :: "fslistp \<Rightarrow> fslistp" where
  "lpp_list_sort_u_min = fsort (\<lambda>x k. x > k)"

function index_min_loop :: "fslist \<Rightarrow> i64 \<Rightarrow> int \<Rightarrow> int res" where
  "index_min_loop l v i = (if i < flen l then bind_res (frd_slot l i) (\<lambda>x. if x = v then Inr i else index_min_loop l v (i + 1)) else Inr (- 1))"
  by pat_completeness auto
termination by (relation "measure (\<lambda>(l, _, i). nat (flen l - i))") auto

declare index_min_loop.simps [simp del]

definition lpp_list_index_of_min :: "fslistp \<Rightarrow> i64 \<Rightarrow> int res" where
  "lpp_list_index_of_min lp v = (case lp of None \<Rightarrow> Inr (- 1) | Some l \<Rightarrow> index_min_loop l v 0)"

function search_min_loop :: "fslist \<Rightarrow> i64 \<Rightarrow> int \<Rightarrow> int \<Rightarrow> int res" where
  "search_min_loop l v lo hi = (if lo \<le> hi
     then let mid = lo + (hi - lo) div 2
          in bind_res (frd_slot l mid) (\<lambda>x. if x = v then Inr mid else if sint x < sint v then search_min_loop l v (mid + 1) hi else search_min_loop l v lo (mid - 1))
     else Inr (- (lo + 1)))"
  by pat_completeness auto
termination by (relation "measure (\<lambda>(_, _, lo, hi). nat (hi + 1 - lo))") auto

declare search_min_loop.simps [simp del]

definition lpp_list_binary_search_min :: "fslistp \<Rightarrow> i64 \<Rightarrow> int res" where
  "lpp_list_binary_search_min lp v = (case lp of None \<Rightarrow> Inr (- 1) | Some l \<Rightarrow> search_min_loop l v 0 (flen l - 1))"

text \<open>Appending another list.\<close>

fun extend_min_loop :: "(int \<Rightarrow> bool) \<Rightarrow> fslistp \<Rightarrow> fslist \<Rightarrow> nat \<Rightarrow> nat \<Rightarrow> (fslistp \<times> arc_ev list) res" where
  "extend_min_loop mfail dp src i 0 = Inr (dp, [])"
| "extend_min_loop mfail dp src i (Suc n) = bind_res (frd_slot src (int i)) (\<lambda>v. bind_res (lpp_list_push_min mfail dp v) (\<lambda>(dp, es).
     bind_res (extend_min_loop mfail dp src (Suc i) n) (\<lambda>(dp, es'). Inr (dp, es @ es'))))"

definition lpp_list_extend_min :: "(int \<Rightarrow> bool) \<Rightarrow> fslistp \<Rightarrow> fslistp \<Rightarrow> (fslistp \<times> arc_ev list) res" where
  "lpp_list_extend_min mfail dp sp = (case (dp, sp) of (Some d, Some s) \<Rightarrow> extend_min_loop mfail dp s 0 (nat (flen s)) | _ \<Rightarrow> Inr (dp, []))"

text \<open>Appending a list to itself: the bound of the loop grows with the list. \<open>fuel\<close> counts the iterations; \<open>None\<close> is a loop that has not ended.\<close>

fun extend_self_loop :: "(int \<Rightarrow> bool) \<Rightarrow> fslist \<Rightarrow> nat \<Rightarrow> nat \<Rightarrow> fslist option res" where
  "extend_self_loop mfail l i 0 = (if int i < flen l then Inr None else Inr (Some l))"
| "extend_self_loop mfail l i (Suc fuel) = (if int i < flen l
     then bind_res (frd_slot l (int i)) (\<lambda>v. bind_res (lpp_list_push_min mfail (Some l) v) (\<lambda>(lp, _). case lp of None \<Rightarrow> Inl (Fault ''null list'') | Some l \<Rightarrow> extend_self_loop mfail l (Suc i) fuel))
     else Inr (Some l))"

section \<open>The host list behind a Windows list\<close>

text \<open>The two list objects correspond: the slots up to the capacity, the length, and the ownership flag for both callbacks.\<close>

definition hosted :: "fslist \<Rightarrow> lpplist" where
  "hosted f = \<lparr>ldata = (case fdata f of None \<Rightarrow> [] | Some d \<Rightarrow> take (nat (fcap f)) d), llen = flen f, lcap = fcap f,
     retain_element = arc_elements f, drop_element = arc_elements f\<rparr>"

lemma hosted_ok: "fslist_ok f \<Longrightarrow> list_ok (hosted f) \<and> abs_list (hosted f) = abs_fs f"
  by (auto simp: fslist_ok_def list_ok_def abs_list_def abs_fs_def hosted_def min_def split: option.splits)

lemma len_abs_fs: "fslist_ok f \<Longrightarrow> length (abs_fs f) = nat (flen f)"
  using length_abs_fs [of f] by linarith

lemma hosted_sel [simp]: "llen (hosted f) = flen f"
  by (simp add: hosted_def)

lemma frd_hosted: "fslist_ok f \<Longrightarrow> 0 \<le> i \<Longrightarrow> i < flen f \<Longrightarrow> frd_slot f i = rd_slot (hosted f) i"
  by (simp add: frd_slot_ok rd_slot_ok hosted_ok)

lemma fwr_hosted:
  assumes "fslist_ok f" "0 \<le> i" "i < flen f"
  shows "\<exists>f'. fwr_slot f i v = Inr f' \<and> wr_slot (hosted f) i v = Inr (hosted f') \<and> fslist_ok f' \<and> flen f' = flen f \<and>
    fcap f' = fcap f \<and> arc_elements f' = arc_elements f \<and> abs_fs f' = (abs_fs f)[nat i := v]"
proof -
  have c: "i < fcap f" using assms by (simp add: fslist_ok_def)
  obtain d where d: "fdata f = Some d" "fwr_slot f i v = Inr (f\<lparr>fdata := Some (d[nat i := v])\<rparr>)"
      "fslist_ok (f\<lparr>fdata := Some (d[nat i := v])\<rparr>)"
    using fwr_slot_ok [OF assms(1,2) c] by blast
  have "fcap f \<le> int (length d)" using assms(1) d(1) by (simp add: fslist_ok_def)
  then have "wr_slot (hosted f) i v = Inr (hosted (f\<lparr>fdata := Some (d[nat i := v])\<rparr>))"
    using d(1) c assms(2) by (simp add: wr_slot_def hosted_def take_update_swap min_def)
  moreover have "abs_fs (f\<lparr>fdata := Some (d[nat i := v])\<rparr>) = (abs_fs f)[nat i := v]"
    using d(1) assms by (simp add: abs_fs_def take_update_swap)
  ultimately show ?thesis using d by simp
qed

lemma fswap_hosted:
  assumes "fslist_ok f" "0 \<le> i" "i < flen f" "0 \<le> j" "j < flen f"
  shows "\<exists>f'. fswap f i j = Inr f' \<and> exchange_slots (hosted f) i j = Inr (hosted f') \<and> fslist_ok f' \<and> flen f' = flen f"
proof -
  obtain t u where t: "frd_slot f i = Inr t" "rd_slot (hosted f) i = Inr t" and u: "frd_slot f j = Inr u" "rd_slot (hosted f) j = Inr u"
    using assms by (simp add: frd_slot_ok rd_slot_ok hosted_ok)
  obtain g where g: "fwr_slot f i u = Inr g" "wr_slot (hosted f) i u = Inr (hosted g)" "fslist_ok g" "flen g = flen f"
    using fwr_hosted [OF assms(1-3)] by blast
  have "j < flen g" using g(4) assms(5) by simp
  then obtain h where h: "fwr_slot g j t = Inr h" "wr_slot (hosted g) j t = Inr (hosted h)" "fslist_ok h" "flen h = flen g"
    using fwr_hosted [OF g(3) assms(4), of t] by blast
  show ?thesis using t u g h by (simp add: fswap_def exchange_slots_def)
qed

lemma reverse_hosted:
  "fslist_ok f \<Longrightarrow> 0 \<le> i \<Longrightarrow> j < flen f \<Longrightarrow>
   \<exists>f'. reverse_min_loop f i j = Inr f' \<and> reverse_loop (hosted f) i j = Inr (hosted f') \<and> fslist_ok f'"
proof (induction f i j rule: reverse_min_loop.induct)
  case (1 f i j)
  show ?case
  proof (cases "i < j")
    case True
    then obtain g where g: "fswap f i j = Inr g" "exchange_slots (hosted f) i j = Inr (hosted g)" "fslist_ok g" "flen g = flen f"
      using fswap_hosted [of f i j] "1.prems" by auto
    from "1.IH" [OF True, of g] g "1.prems" True show ?thesis
      by (subst reverse_min_loop.simps, subst reverse_loop.simps) auto
  next
    case False
    then show ?thesis using "1.prems" by (subst reverse_min_loop.simps, subst reverse_loop.simps) auto
  qed
qed

text \<open>The searches read the elements only, so any host list with the same elements will do.\<close>

lemma same_len: "list_ok l \<Longrightarrow> fslist_ok f \<Longrightarrow> abs_list l = abs_fs f \<Longrightarrow> llen l = flen f"
  using length_abs_list [of l] length_abs_fs [of f] by simp

lemma index_agrees:
  "fslist_ok f \<Longrightarrow> 0 \<le> i \<Longrightarrow> list_ok l \<Longrightarrow> abs_list l = abs_fs f \<Longrightarrow> index_min_loop f v i = index_loop l v i"
proof (induction f v i rule: index_min_loop.induct)
  case (1 f v i)
  then show ?case using same_len [of l f]
    by (subst index_min_loop.simps, subst index_loop.simps) (simp add: frd_slot_ok rd_slot_ok)
qed

lemma search_agrees:
  assumes "list_ok l" "abs_list l = abs_fs f" "fslist_ok f"
  shows "0 \<le> lo \<Longrightarrow> hi < flen f \<Longrightarrow> search_min_loop f v lo hi = search_loop l v lo hi"
  using assms
proof (induction f v lo hi rule: search_min_loop.induct)
  case (1 f v lo hi)
  define mid where "mid = lo + (hi - lo) div 2"
  show ?case
  proof (cases "lo \<le> hi")
    case True
    then have mid: "0 \<le> mid" "mid < flen f" "lo \<le> mid" "mid \<le> hi" using "1.prems" by (auto simp: mid_def)
    have rd: "frd_slot f mid = Inr (abs_fs f ! nat mid)" "rd_slot l mid = Inr (abs_fs f ! nat mid)"
      using mid "1.prems" same_len [of l f] by (simp_all add: frd_slot_ok rd_slot_ok)
    show ?thesis using True mid rd "1.prems" "1.IH" [OF True mid_def]
      by (subst search_min_loop.simps, subst search_loop.simps) (simp add: Let_def flip: mid_def)
  qed (subst search_min_loop.simps, subst search_loop.simps, simp)
qed

lemma fdrop_all_ok:
  assumes "fslist_ok l"
  shows "int (i + n) = flen l \<Longrightarrow> fdrop_all l i n = Inr (concat (map (frelease l) (drop i (abs_fs l))))"
proof (induction n arbitrary: i)
  case 0
  then have "length (abs_fs l) \<le> i" using length_abs_fs [OF assms] by simp
  then show ?case by simp
next
  case (Suc n)
  have i: "i < length (abs_fs l)" using Suc(2) length_abs_fs [OF assms] by linarith
  have "frd_slot l (int i) = Inr (abs_fs l ! i)" using frd_slot_ok [OF assms, of "int i"] Suc(2) by simp
  with Suc i show ?case by (simp add: Cons_nth_drop_Suc [symmetric])
qed

section \<open>The shifting loops\<close>

lemma shift_up_ok:
  "fslist_ok f \<Longrightarrow> 0 \<le> idx \<Longrightarrow> idx \<le> i \<Longrightarrow> i < flen f \<Longrightarrow>
   \<exists>f'. shift_up f idx i = Inr f' \<and> fslist_ok f' \<and> flen f' = flen f \<and> fcap f' = fcap f \<and> arc_elements f' = arc_elements f \<and>
     (\<forall>k < length (abs_fs f). abs_fs f' ! k = (if nat idx < k \<and> k \<le> nat i then abs_fs f ! (k - 1) else abs_fs f ! k))"
proof (induction f idx i rule: shift_up.induct)
  case (1 f idx i)
  show ?case
  proof (cases "i > idx")
    case True
    have rd: "frd_slot f (i - 1) = Inr (abs_fs f ! nat (i - 1))" using frd_slot_ok [of f "i - 1"] "1.prems" True by simp
    obtain g where g: "fwr_slot f i (abs_fs f ! nat (i - 1)) = Inr g" "fslist_ok g" "flen g = flen f" "fcap g = fcap f"
        "arc_elements g = arc_elements f" "abs_fs g = (abs_fs f)[nat i := abs_fs f ! nat (i - 1)]"
      using fwr_hosted [of f i "abs_fs f ! nat (i - 1)"] "1.prems" by auto
    have n: "nat (i - 1) = nat i - 1" "nat idx < nat i" "nat i < length (abs_fs f)"
      using True "1.prems" len_abs_fs [of f] by auto
    obtain h where h: "shift_up g idx (i - 1) = Inr h" "fslist_ok h" "flen h = flen g" "fcap h = fcap g" "arc_elements h = arc_elements g"
        "\<forall>k < length (abs_fs g). abs_fs h ! k = (if nat idx < k \<and> k \<le> nat (i - 1) then abs_fs g ! (k - 1) else abs_fs g ! k)"
      using "1.IH" [OF True, of g] g "1.prems" True by auto
    have "abs_fs h ! k = (if nat idx < k \<and> k \<le> nat i then abs_fs f ! (k - 1) else abs_fs f ! k)" if "k < length (abs_fs f)" for k
      using h(6) g(6) n that by (auto simp: nth_list_update)
    then show ?thesis using True rd g h by (subst shift_up.simps) auto
  next
    case False
    then show ?thesis using "1.prems" by (subst shift_up.simps) auto
  qed
qed

lemma shift_down_ok:
  "fslist_ok f \<Longrightarrow> n = flen f \<Longrightarrow> 0 \<le> i \<Longrightarrow> i < n \<Longrightarrow>
   \<exists>f'. shift_down f n i = Inr f' \<and> fslist_ok f' \<and> flen f' = flen f \<and> fcap f' = fcap f \<and> arc_elements f' = arc_elements f \<and>
     (\<forall>k. k + 1 < length (abs_fs f) \<longrightarrow> abs_fs f' ! k = (if nat i \<le> k then abs_fs f ! (k + 1) else abs_fs f ! k))"
proof (induction f n i rule: shift_down.induct)
  case (1 f n i)
  show ?case
  proof (cases "i < n - 1")
    case True
    have rd: "frd_slot f (i + 1) = Inr (abs_fs f ! nat (i + 1))" using frd_slot_ok [of f "i + 1"] "1.prems" True by simp
    obtain g where g: "fwr_slot f i (abs_fs f ! nat (i + 1)) = Inr g" "fslist_ok g" "flen g = flen f" "fcap g = fcap f"
        "arc_elements g = arc_elements f" "abs_fs g = (abs_fs f)[nat i := abs_fs f ! nat (i + 1)]"
      using fwr_hosted [of f i "abs_fs f ! nat (i + 1)"] "1.prems" by auto
    have m: "nat (i + 1) = nat i + 1" "nat i + 1 < length (abs_fs f)"
      using True "1.prems" len_abs_fs [of f] by auto
    obtain h where h: "shift_down g n (i + 1) = Inr h" "fslist_ok h" "flen h = flen g" "fcap h = fcap g" "arc_elements h = arc_elements g"
        "\<forall>k. k + 1 < length (abs_fs g) \<longrightarrow> abs_fs h ! k = (if nat (i + 1) \<le> k then abs_fs g ! (k + 1) else abs_fs g ! k)"
      using "1.IH" [OF True, of g] g "1.prems" True by auto
    have "abs_fs h ! k = (if nat i \<le> k then abs_fs f ! (k + 1) else abs_fs f ! k)" if "k + 1 < length (abs_fs f)" for k
      using h(6) g(6) m that by (cases "k = nat i") (auto simp: nth_list_update)
    then show ?thesis using True rd g h by (subst shift_down.simps) auto
  next
    case False
    then have "nat i + 1 = length (abs_fs f)" using "1.prems" len_abs_fs [of f] by auto
    then show ?thesis using False "1.prems" by (subst shift_down.simps) auto
  qed
qed
section \<open>The operations on elements\<close>

definition view_res :: "('l \<Rightarrow> 'v) \<Rightarrow> 'l res \<Rightarrow> 'v res" where
  "view_res elems r = bind_res r (\<lambda>l. Inr (elems l))"

lemma push_min_arc:
  "lpp_list_push_min mfail (Some l) v = Inr (Some l', es) \<Longrightarrow> arc_elements l' = arc_elements l"
  unfolding lpp_list_push_min_def lpp_list_push_fs_def Let_def
  by (auto simp: fwr_slot_def split: if_splits option.splits)

lemma shift_insert:
  assumes "idx \<le> length xs" "length ys = Suc (length xs)"
    and "\<forall>k < Suc (length xs). ys ! k = (if idx < k then (xs @ [w]) ! (k - 1) else (xs @ [w]) ! k)"
  shows "ys[idx := v] = take idx xs @ v # drop idx xs"
proof (rule nth_equalityI)
  fix k assume "k < length (ys[idx := v])"
  then have k: "k < Suc (length xs)" using assms(2) by simp
  consider "k < idx" | "k = idx" | m where "k = Suc (idx + m)" by (metis less_imp_Suc_add linorder_neqE_nat)
  then show "ys[idx := v] ! k = (take idx xs @ v # drop idx xs) ! k"
    using assms(1,2) spec [OF assms(3), of k] k by cases (auto simp: nth_append)
qed (use assms in simp)

lemma insert_min_ok:
  assumes "fslist_ok l" "\<And>n. \<not> mfail n" "flen l * 16 \<le> INT64_MAX - 64" "0 \<le> idx" "idx \<le> flen l"
  shows "\<exists>l'. lpp_list_insert_min mfail (Some l) idx v = Inr (Some l', fretain l v) \<and> fslist_ok l' \<and>
    abs_fs l' = take (nat idx) (abs_fs l) @ v # drop (nat idx) (abs_fs l)"
proof -
  obtain g where g: "lpp_list_push_min mfail (Some l) 0 = Inr (Some g, fretain l 0)" "fslist_ok g" "abs_fs g = abs_fs l @ [0]"
    using push_fs_ok [OF assms(1) _ assms(3), of mfail 0] assms(2) unfolding lpp_list_push_min_def by blast
  have arc: "arc_elements g = arc_elements l" using push_min_arc [OF g(1)] .
  have n: "length (abs_fs l) = nat (flen l)" "length (abs_fs g) = nat (flen g)" using len_abs_fs assms(1) g(2) by auto
  moreover have "0 \<le> flen l" "0 \<le> flen g" using assms(1) g(2) by (simp_all add: fslist_ok_def)
  ultimately have fg: "flen g = flen l + 1" using g(3) by simp
  obtain h where h: "shift_up g idx (flen g - 1) = Inr h" "fslist_ok h" "flen h = flen g" "arc_elements h = arc_elements g"
      "\<forall>k < length (abs_fs g). abs_fs h ! k = (if nat idx < k \<and> k \<le> nat (flen g - 1) then abs_fs g ! (k - 1) else abs_fs g ! k)"
    using shift_up_ok [OF g(2) assms(4), of "flen g - 1"] fg assms(5) by auto
  have "idx < flen h" using h(3) fg assms(5) by simp
  then obtain m where m: "fwr_slot h idx v = Inr m" "fslist_ok m" "arc_elements m = arc_elements h" "abs_fs m = (abs_fs h)[nat idx := v]"
    using fwr_hosted [OF h(2) assms(4), of v] by blast
  have "(abs_fs h)[nat idx := v] = take (nat idx) (abs_fs l) @ v # drop (nat idx) (abs_fs l)"
  proof (rule shift_insert [where w = 0])
    show "nat idx \<le> length (abs_fs l)" using n(1) assms(5) by simp
    show "length (abs_fs h) = Suc (length (abs_fs l))" using len_abs_fs [OF h(2)] h(3) n g(3) by simp
    show "\<forall>k < Suc (length (abs_fs l)). abs_fs h ! k =
        (if nat idx < k then (abs_fs l @ [0]) ! (k - 1) else (abs_fs l @ [0]) ! k)"
      using h(5) n fg unfolding g(3) by auto
  qed
  moreover have "fretain l 0 @ fretain m v = fretain l v" using m(3) h(4) arc by (simp add: fretain_def)
  moreover have "\<not> (idx < 0 \<or> idx > flen l)" using assms(4,5) by simp
  ultimately show ?thesis using g(1) h(1) m by (simp add: lpp_list_insert_min_def)
qed

lemma remove_min_ok:
  assumes "fslist_ok l" "0 \<le> idx" "idx < flen l"
  shows "\<exists>l'. lpp_list_remove_min (Some l) idx = Inr (l', abs_fs l ! nat idx) \<and> fslist_ok l' \<and>
    abs_fs l' = take (nat idx) (abs_fs l) @ drop (Suc (nat idx)) (abs_fs l)"
proof -
  obtain h where h: "shift_down l (flen l) idx = Inr h" "fslist_ok h" "flen h = flen l"
      "\<forall>k. k + 1 < length (abs_fs l) \<longrightarrow> abs_fs h ! k = (if nat idx \<le> k then abs_fs l ! (k + 1) else abs_fs l ! k)"
    using shift_down_ok [OF assms(1) refl assms(2,3)] by blast
  let ?h = "h\<lparr>flen := flen h - 1\<rparr>"
  have ok: "fslist_ok ?h" "abs_fs ?h = butlast (abs_fs h)"
    using h(2,3) assms by (auto simp: fslist_ok_def abs_fs_def butlast_take nat_diff_distrib split: option.splits)
  have n: "length (abs_fs h) = nat (flen l)" "length (abs_fs l) = nat (flen l)" "nat idx < nat (flen l)"
    using len_abs_fs h(2,3) assms by auto
  have e: "nat (flen l) - 1 = nat idx + (nat (flen l) - Suc (nat idx))" using n(3) by linarith
  have "butlast (abs_fs h) = take (nat idx) (abs_fs l) @ drop (Suc (nat idx)) (abs_fs l)"
  proof (rule nth_equalityI)
    fix k assume "k < length (butlast (abs_fs h))"
    then have k: "k + 1 < length (abs_fs l)" using n by simp
    then show "butlast (abs_fs h) ! k = (take (nat idx) (abs_fs l) @ drop (Suc (nat idx)) (abs_fs l)) ! k"
      using h(4) n by (auto simp: nth_butlast nth_append min_def)
  qed (use e n(3) in \<open>auto simp: n(1,2) min_def\<close>)
  with ok h(1) assms frd_slot_ok [OF assms] show ?thesis by (simp add: lpp_list_remove_min_def)
qed

lemma fsort_ok:
  assumes "fslist_ok f" "\<And>v. length (sort_win after v) = length v"
  shows "\<exists>f'. fsort after (Some f) = Some f' \<and> fslist_ok f' \<and> abs_fs f' = sort_win after (abs_fs f)"
proof (cases "fdata f")
  case None
  then show ?thesis using assms(1) by (simp add: fsort_def abs_fs_def sort_win_def)
next
  case (Some d)
  then have "nat (flen f) \<le> length d" using assms(1) by (auto simp: fslist_ok_def)
  with Some assms show ?thesis by (auto simp: fsort_def abs_fs_def fslist_ok_def)
qed

lemma clear_truncate_min_ok:
  assumes "fslist_ok f"
  shows "lpp_list_clear_min (Some f) = Inr (Some (f\<lparr>flen := 0\<rparr>), concat (map (frelease f) (abs_fs f)))"
    "0 \<le> n \<Longrightarrow> n < flen f \<Longrightarrow> lpp_list_truncate_min (Some f) n = Inr (Some (f\<lparr>flen := n\<rparr>), concat (map (frelease f) (drop (nat n) (abs_fs f))))"
proof -
  have off: "\<not> arc_elements f \<Longrightarrow> concat (map (frelease f) xs) = []" for xs by (induction xs) (simp_all add: frelease_def)
  have "0 \<le> flen f" using assms by (simp add: fslist_ok_def)
  then show "lpp_list_clear_min (Some f) = Inr (Some (f\<lparr>flen := 0\<rparr>), concat (map (frelease f) (abs_fs f)))"
    using fdrop_all_ok [OF assms, of 0 "nat (flen f)"] off by (simp add: lpp_list_clear_min_def)
  show "lpp_list_truncate_min (Some f) n = Inr (Some (f\<lparr>flen := n\<rparr>), concat (map (frelease f) (drop (nat n) (abs_fs f))))"
    if "0 \<le> n" "n < flen f"
    using that fdrop_all_ok [OF assms, of "nat n" "nat (flen f - n)"] off by (simp add: lpp_list_truncate_min_def)
qed

lemma swap_agrees:
  assumes "list_ok l" "fslist_ok f" "abs_list l = abs_fs f"
  shows "view_res abs_fs (lpp_list_swap_min (Some f) i j) = exit_101 (view_res abs_list (lpp_list_swap (Some l) i j))"
proof (cases "0 \<le> i \<and> i < flen f \<and> 0 \<le> j \<and> j < flen f")
  case True
  have n: "llen l = flen f" using same_len [OF assms] .
  obtain f' where f': "fswap f i j = Inr f'" "exchange_slots (hosted f) i j = Inr (hosted f')" "fslist_ok f'"
    using fswap_hosted [OF assms(2)] True by blast
  obtain l' where l': "exchange_slots l i j = Inr l'" "abs_list l' = swap_at (nat i) (nat j) (abs_list l)"
    using exchange_slots_ok [OF assms(1)] True n by metis
  have "abs_fs f' = swap_at (nat i) (nat j) (abs_fs f)"
    using exchange_slots_ok [of "hosted f" i j] hosted_ok [OF assms(2)] hosted_ok [OF f'(3)] True f'(2) by auto
  then show ?thesis using True n f'(1) l' assms(3)
    by (auto simp: view_res_def exit_101_def lpp_list_swap_def lpp_list_swap_min_def)
next
  case False
  then show ?thesis using same_len [OF assms]
    by (auto simp: view_res_def exit_101_def lpp_list_swap_def lpp_list_swap_min_def)
qed

lemma remove_agrees:
  assumes "list_ok l" "fslist_ok f" "abs_list l = abs_fs f"
  shows "view_pop abs_fs (lpp_list_remove_min (Some f) i) = exit_101 (view_pop abs_list (lpp_list_remove (Some l) i))"
proof (cases "0 \<le> i \<and> i < flen f")
  case True
  then show ?thesis using list_remove_ok [OF assms(1), of i] remove_min_ok [OF assms(2), of i] same_len [OF assms] assms(3)
    by (auto simp: view_pop_def exit_101_def)
next
  case False
  then show ?thesis using same_len [OF assms]
    by (auto simp: view_pop_def exit_101_def lpp_list_remove_def lpp_list_remove_min_def)
qed

lemma reverse_agrees:
  assumes "list_ok l" "fslist_ok f" "abs_list l = abs_fs f"
  shows "view_res (map_option abs_fs) (lpp_list_reverse_min (Some f)) = view_res (map_option abs_list) (lpp_list_reverse (Some l))"
proof -
  obtain l' where l': "lpp_list_reverse (Some l) = Inr (Some l')" "abs_list l' = rev (abs_list l)"
    using list_reverse_ok [OF assms(1)] by blast
  have h: "list_ok (hosted f)" "abs_list (hosted f) = abs_fs f" using hosted_ok [OF assms(2)] by auto
  obtain h' where h': "lpp_list_reverse (Some (hosted f)) = Inr (Some h')" "abs_list h' = rev (abs_fs f)"
    using list_reverse_ok [OF h(1)] h(2) by auto
  have "\<exists>f'. lpp_list_reverse_min (Some f) = Inr (Some f') \<and> h' = hosted f' \<and> fslist_ok f'"
    using reverse_hosted [OF assms(2), of 0 "flen f - 1"] h'(1) assms(2)
    by (auto simp: lpp_list_reverse_def lpp_list_reverse_min_def split: if_splits)
  then show ?thesis using h'(2) l' assms(3) hosted_ok by (auto simp: view_res_def)
qed

lemma sorts_agree:
  assumes "list_ok l" "fslist_ok f" "abs_list l = abs_fs f"
  shows "Inr (map_option abs_fs (lpp_list_sort_min (Some f))) = view_res (map_option abs_list) (lpp_list_sort (Some l))"
    "Inr (map_option abs_fs (lpp_list_sort_desc_min (Some f))) = view_res (map_option abs_list) (lpp_list_sort_desc (Some l))"
    "Inr (map_option abs_fs (lpp_list_sort_u_min (Some f))) = view_res (map_option abs_list) (lpp_list_sort_u (Some l))"
proof -
  have ord: "cmp_order lpp_i64_lt" "cmp_order lpp_i64_gt" "cmp_order lpp_u64_lt" by unfold_locales
  have *: "Inr (map_option abs_fs (fsort after (Some f))) = view_res (map_option abs_list) (lpp_list_sort_with before (Some l))"
    if "cmp_order before" "\<And>v. lpp_sort_with before v = sort_win after v" for after before
  proof -
    have "length (sort_win after v) = length v" for v
      using cmp_order.sort_with_ok [OF that(1), of v] that(2) [of v] by (metis size_mset)
    then show ?thesis using fsort_ok [OF assms(2), of after] list_sort_with_ok [OF assms(1) that(1)] assms(3) that(2)
      by (auto simp: view_res_def)
  qed
  note win = lpp_sort_host_eq_win
  show "Inr (map_option abs_fs (lpp_list_sort_min (Some f))) = view_res (map_option abs_list) (lpp_list_sort (Some l))"
    unfolding lpp_list_sort_min_def lpp_list_sort_def using win by (intro * [OF ord(1)]) blast
  show "Inr (map_option abs_fs (lpp_list_sort_desc_min (Some f))) = view_res (map_option abs_list) (lpp_list_sort_desc (Some l))"
    unfolding lpp_list_sort_desc_min_def lpp_list_sort_desc_def using win by (intro * [OF ord(2)]) blast
  show "Inr (map_option abs_fs (lpp_list_sort_u_min (Some f))) = view_res (map_option abs_list) (lpp_list_sort_u (Some l))"
    unfolding lpp_list_sort_u_min_def lpp_list_sort_u_def using win by (intro * [OF ord(3)]) blast
qed

section \<open>Properties\<close>



text \<open>When the block of a full list cannot grow, \<open>lpp_list_insert\<close> does not notice that its push did nothing: the elements behind the index move up
  all the same and the last one is overwritten. The list keeps its length, and the lost element is not released.\<close>

theorem lpp_list_insert_min_oom:
  assumes "fslist_ok f" "flen f = fcap f" "\<And>n. mfail n" "0 \<le> i" "i < flen f"
  shows "\<exists>f'. lpp_list_insert_min mfail (Some f) i v = Inr (Some f', fretain f v) \<and> flen f' = flen f \<and>
    (\<forall>k < length (abs_fs f). nat i < k \<longrightarrow> abs_fs f' ! k = abs_fs f ! (k - 1))"
proof -
  have p: "lpp_list_push_min mfail (Some f) 0 = Inr (Some f, [])"
    using assms(2,3) by (simp add: lpp_list_push_min_def lpp_list_push_fs_def Let_def)
  obtain h where h: "shift_up f i (flen f - 1) = Inr h" "fslist_ok h" "flen h = flen f" "arc_elements h = arc_elements f"
      "\<forall>k < length (abs_fs f). abs_fs h ! k = (if nat i < k \<and> k \<le> nat (flen f - 1) then abs_fs f ! (k - 1) else abs_fs f ! k)"
    using shift_up_ok [OF assms(1,4), of "flen f - 1"] assms(5) by auto
  have "i < flen h" using h(3) assms(5) by simp
  then obtain m where m: "fwr_slot h i v = Inr m" "flen m = flen h" "arc_elements m = arc_elements h" "abs_fs m = (abs_fs h)[nat i := v]"
    using fwr_hosted [OF h(2) assms(4), of v] by blast
  have "abs_fs m ! k = abs_fs f ! (k - 1)" if "k < length (abs_fs f)" "nat i < k" for k
    using h(5) m(4) that len_abs_fs [OF assms(1)] by auto
  moreover have "fretain m v = fretain f v" using m(3) h(4) by (simp add: fretain_def)
  moreover have "lpp_list_insert_min mfail (Some f) i v = Inr (Some m, fretain m v)"
    using p h(1) m(1) assms(4,5) by (simp add: lpp_list_insert_min_def)
  ultimately show ?thesis using m(2) h(3) by auto
qed
text \<open>Appending a list to itself does not end while there is memory: each push moves the bound the loop runs to. The host runtime fixes the number
  of elements before its loop and doubles the list.\<close>

theorem lpp_list_extend_self_runs:
  assumes "fslist_ok l" "int i < flen l" "(flen l + int fuel) * 16 \<le> INT64_MAX - 64"
  shows "extend_self_loop (\<lambda>n. False) l i fuel = Inr None"
  using assms
proof (induction fuel arbitrary: l i)
  case (Suc fuel)
  have b: "flen l * 16 \<le> INT64_MAX - 64" using Suc(4) by simp
  obtain g where g: "lpp_list_push_min (\<lambda>n. False) (Some l) (abs_fs l ! i) = Inr (Some g, fretain l (abs_fs l ! i))" "fslist_ok g"
      "abs_fs g = abs_fs l @ [abs_fs l ! i]"
    using push_fs_ok [OF Suc(2) _ b, of "\<lambda>n. False" "abs_fs l ! i"] unfolding lpp_list_push_min_def by blast
  have "flen g = flen l + 1" using length_abs_fs [OF g(2)] length_abs_fs [OF Suc(2)] g(3) by simp
  then have "extend_self_loop (\<lambda>n. False) g (Suc i) fuel = Inr None" using Suc(3,4) by (intro Suc(1) g(2)) simp_all
  moreover have "frd_slot l (int i) = Inr (abs_fs l ! i)" using frd_slot_ok [OF Suc(2), of "int i"] Suc(3) by simp
  ultimately show ?case using Suc(3) g(1) by simp
qed simp
end
