(* ===== verification/Lpp_Buf_Fs.thy ===== *)
theory Lpp_Buf_Fs
  imports Lpp_File
begin

text \<open>
  The binary buffers of the freestanding runtimes: \<^verbatim>\<open>runtime/windows_x86_64_min.c\<close> (suffix \<open>_min\<close>) and \<^verbatim>\<open>runtime/linux_x86_64_min.c\<close> (suffix \<open>_fs\<close>), with the whole-file builtins and the
  positional file I/O of the Windows one. A buffer is the address behind its size word, so the pointer of the program is the address of the first byte; the heap maps it to the size word and the bytes as in the host
  runtime. A block is rounded up to whole pages; the bytes between the size and the end of the last page do not belong to the buffer. What the system decides is an argument, as in the model of the host files;
  a path that leads through a missing directory is one of those it refuses. \<open>CreateFileA\<close> does not open directories.
\<close>

section \<open>Allocation\<close>

text \<open>\<open>valloc n\<close> is the address of \<open>n\<close> fresh zeroed bytes, 0 on failure. The size word takes the first 8 of them.\<close>

definition lpp_buf_alloc_min :: "(u64 \<Rightarrow> i64) \<Rightarrow> bheap \<Rightarrow> i64 \<Rightarrow> i64 \<times> bheap" where
  "lpp_buf_alloc_min valloc h n = (let n = (if sint n \<le> 0 then 64 else n); t = (n + 8 + 4095) AND NOT 4095; m = valloc t
     in if m = 0 then (0, h) else (m + 8, h(m + 8 \<mapsto> \<lparr>bsize = n, bdata = replicate (nat (sint n)) 0\<rparr>)))"

definition lpp_buf_free_min :: "bheap \<Rightarrow> i64 \<Rightarrow> bheap res" where
  "lpp_buf_free_min h p = (if p = 0 then Inr h else case h p of None \<Rightarrow> Inl (Fault ''free of a block that is not live'') | Some b \<Rightarrow> Inr (h(p := None)))"

definition lpp_buf_len_min :: "bheap \<Rightarrow> i64 \<Rightarrow> i64 res" where
  "lpp_buf_len_min h p = with_buf h p 0 (\<lambda>b. Inr (bsize b))"

definition lpp_buf_alloc_fs :: "(u64 \<Rightarrow> i64) \<Rightarrow> bheap \<Rightarrow> i64 \<Rightarrow> (i64 \<times> bheap) res" where
  "lpp_buf_alloc_fs mmap h n = (let n = (if sint n \<le> 0 then 64 else n)
     in if \<not> in_i64 (sint n + 8) then Inl (Fault ''signed overflow'')
        else let m = mmap ((n + 8 + 4095) AND NOT 4095)
             in if m = 0 then Inr (0, h) else Inr (m + 8, h(m + 8 \<mapsto> \<lparr>bsize = n, bdata = replicate (nat (sint n)) 0\<rparr>)))"

definition lpp_buf_free_fs :: "bheap \<Rightarrow> i64 \<Rightarrow> bheap res" where
  "lpp_buf_free_fs h p = (if p = 0 then Inr h else case h p of None \<Rightarrow> Inl (Fault ''free of a block that is not live'') | Some b \<Rightarrow> Inr (h(p := None)))"

definition lpp_buf_len_fs :: "bheap \<Rightarrow> i64 \<Rightarrow> i64 res" where
  "lpp_buf_len_fs h p = with_buf h p 0 (\<lambda>b. Inr (bsize b))"

section \<open>Accessors on Windows\<close>

text \<open>\<open>(char)((v >> k) & 0xFF)\<close>: the shift keeps the sign, the mask takes one byte.\<close>

definition byte_of :: "i64 \<Rightarrow> nat \<Rightarrow> u8" where
  "byte_of v k = ucast (signed_drop_bit k v AND 0xFF)"

definition lpp_buf_get8_min :: "bheap \<Rightarrow> i64 \<Rightarrow> i64 \<Rightarrow> i64 res" where
  "lpp_buf_get8_min h p off = with_buf h p 0 (\<lambda>b. if sint off < 0 \<or> sint off \<ge> sint (bsize b) then Inr 0
     else bind_res (load_bytes (bdata b) (sint off) 1) (\<lambda>d. Inr (ucast (d ! 0))))"

definition lpp_buf_set8_min :: "bheap \<Rightarrow> i64 \<Rightarrow> i64 \<Rightarrow> i64 \<Rightarrow> bheap res" where
  "lpp_buf_set8_min h p off v = with_buf h p h (\<lambda>b. if sint off < 0 \<or> sint off \<ge> sint (bsize b) then Inr h
     else put_bytes h p b off [ucast (v AND 0xFF)])"

definition lpp_buf_set16le_min :: "bheap \<Rightarrow> i64 \<Rightarrow> i64 \<Rightarrow> i64 \<Rightarrow> bheap res" where
  "lpp_buf_set16le_min h p off v = with_buf h p h (\<lambda>b. if out_of_range b off 2 then Inr h
     else put_bytes h p b off [byte_of v 0, byte_of v 8])"

definition lpp_buf_get16le_min :: "bheap \<Rightarrow> i64 \<Rightarrow> i64 \<Rightarrow> i64 res" where
  "lpp_buf_get16le_min h p off = with_buf h p 0 (\<lambda>b. if out_of_range b off 2 then Inr 0
     else bind_res (load_bytes (bdata b) (sint off) 2) (\<lambda>d. Inr (ucast (d ! 0) OR push_bit 8 (ucast (d ! 1)))))"

definition lpp_buf_set16be_min :: "bheap \<Rightarrow> i64 \<Rightarrow> i64 \<Rightarrow> i64 \<Rightarrow> bheap res" where
  "lpp_buf_set16be_min h p off v = with_buf h p h (\<lambda>b. if out_of_range b off 2 then Inr h
     else put_bytes h p b off [byte_of v 8, byte_of v 0])"

definition lpp_buf_get16be_min :: "bheap \<Rightarrow> i64 \<Rightarrow> i64 \<Rightarrow> i64 res" where
  "lpp_buf_get16be_min h p off = with_buf h p 0 (\<lambda>b. if out_of_range b off 2 then Inr 0
     else bind_res (load_bytes (bdata b) (sint off) 2) (\<lambda>d. Inr (push_bit 8 (ucast (d ! 0)) OR ucast (d ! 1))))"

definition lpp_buf_set32le_min :: "bheap \<Rightarrow> i64 \<Rightarrow> i64 \<Rightarrow> i64 \<Rightarrow> bheap res" where
  "lpp_buf_set32le_min h p off v = with_buf h p h (\<lambda>b. if out_of_range b off 4 then Inr h
     else put_bytes h p b off [byte_of v 0, byte_of v 8, byte_of v 16, byte_of v 24])"

definition lpp_buf_get32le_min :: "bheap \<Rightarrow> i64 \<Rightarrow> i64 \<Rightarrow> i64 res" where
  "lpp_buf_get32le_min h p off = with_buf h p 0 (\<lambda>b. if out_of_range b off 4 then Inr 0
     else bind_res (load_bytes (bdata b) (sint off) 4) (\<lambda>d.
       Inr (ucast (d ! 0) OR push_bit 8 (ucast (d ! 1)) OR push_bit 16 (ucast (d ! 2)) OR push_bit 24 (ucast (d ! 3)))))"

definition lpp_buf_set32be_min :: "bheap \<Rightarrow> i64 \<Rightarrow> i64 \<Rightarrow> i64 \<Rightarrow> bheap res" where
  "lpp_buf_set32be_min h p off v = with_buf h p h (\<lambda>b. if out_of_range b off 4 then Inr h
     else put_bytes h p b off [byte_of v 24, byte_of v 16, byte_of v 8, byte_of v 0])"

definition lpp_buf_get32be_min :: "bheap \<Rightarrow> i64 \<Rightarrow> i64 \<Rightarrow> i64 res" where
  "lpp_buf_get32be_min h p off = with_buf h p 0 (\<lambda>b. if out_of_range b off 4 then Inr 0
     else bind_res (load_bytes (bdata b) (sint off) 4) (\<lambda>d.
       Inr (push_bit 24 (ucast (d ! 0)) OR push_bit 16 (ucast (d ! 1)) OR push_bit 8 (ucast (d ! 2)) OR ucast (d ! 3))))"

definition lpp_buf_set64le_min :: "bheap \<Rightarrow> i64 \<Rightarrow> i64 \<Rightarrow> i64 \<Rightarrow> bheap res" where
  "lpp_buf_set64le_min h p off v = with_buf h p h (\<lambda>b. if out_of_range b off 8 then Inr h
     else put_bytes h p b off (map (\<lambda>i. ucast (drop_bit (i * 8) v AND 0xFF)) [0..<8]))"

definition lpp_buf_get64le_min :: "bheap \<Rightarrow> i64 \<Rightarrow> i64 \<Rightarrow> i64 res" where
  "lpp_buf_get64le_min h p off = with_buf h p 0 (\<lambda>b. if out_of_range b off 8 then Inr 0
     else bind_res (load_bytes (bdata b) (sint off) 8) (\<lambda>d. Inr (fold (\<lambda>i r. r OR push_bit (i * 8) (ucast (d ! i))) [0..<8] 0)))"

text \<open>The loop writes \<open>d[7 - i]\<close> for \<open>i\<close> from 0: the same bytes from the last address to the first.\<close>

definition lpp_buf_set64be_min :: "bheap \<Rightarrow> i64 \<Rightarrow> i64 \<Rightarrow> i64 \<Rightarrow> bheap res" where
  "lpp_buf_set64be_min h p off v = with_buf h p h (\<lambda>b. if out_of_range b off 8 then Inr h
     else put_bytes h p b off (rev (map (\<lambda>i. ucast (drop_bit (i * 8) v AND 0xFF)) [0..<8])))"

definition lpp_buf_get64be_min :: "bheap \<Rightarrow> i64 \<Rightarrow> i64 \<Rightarrow> i64 res" where
  "lpp_buf_get64be_min h p off = with_buf h p 0 (\<lambda>b. if out_of_range b off 8 then Inr 0
     else bind_res (load_bytes (bdata b) (sint off) 8) (\<lambda>d. Inr (fold (\<lambda>i r. r OR push_bit (i * 8) (ucast (d ! (7 - i)))) [0..<8] 0)))"

text \<open>\<open>for (i = 0; i < len; i++) d[i] = s[i]\<close>, byte by byte in one direction: with both ranges in one buffer a byte written is read again.\<close>

fun copy_forward :: "bheap \<Rightarrow> i64 \<Rightarrow> int \<Rightarrow> i64 \<Rightarrow> int \<Rightarrow> nat \<Rightarrow> bheap res" where
  "copy_forward h dst doff src soff 0 = Inr h"
| "copy_forward h dst doff src soff (Suc n) = (case (h src, h dst) of (Some s, Some d) \<Rightarrow>
       bind_res (load_bytes (bdata s) soff 1) (\<lambda>c. bind_res (store_bytes (bdata d) doff c) (\<lambda>m.
         copy_forward (h(dst \<mapsto> d\<lparr>bdata := m\<rparr>)) dst (doff + 1) src (soff + 1) n))
     | _ \<Rightarrow> Inl (Fault ''not a live buffer''))"

definition lpp_buf_copy_min :: "bheap \<Rightarrow> i64 \<Rightarrow> i64 \<Rightarrow> i64 \<Rightarrow> i64 \<Rightarrow> i64 \<Rightarrow> bheap res" where
  "lpp_buf_copy_min h dst doff src soff len = (if dst = 0 \<or> src = 0 \<or> sint len \<le> 0 then Inr h
     else with_buf h dst h (\<lambda>d. with_buf h src h (\<lambda>s.
       if out_of_range d doff len \<or> out_of_range s soff len then Inr h
       else copy_forward h dst (sint doff) src (sint soff) (nat (sint len)))))"

text \<open>The string builtins allocate with \<open>lpp_alloc\<close> and do not test the result.\<close>

definition lpp_buf_read_str_min :: "(int \<Rightarrow> bool) \<Rightarrow> bheap \<Rightarrow> i64 \<Rightarrow> i64 \<Rightarrow> i64 \<Rightarrow> string res" where
  "lpp_buf_read_str_min oom h p off len = (let empty = (if oom 1 then Inl (Fault ''write through NULL'') else Inr [])
     in if p = 0 \<or> sint len \<le> 0 then empty
        else with_buf h p [] (\<lambda>b. if out_of_range b off len then empty
          else if oom (sint len + 1) then Inl (Fault ''write through NULL'')
          else bind_res (load_bytes (bdata b) (sint off) (nat (sint len))) (\<lambda>bs. Inr (takeWhile (\<lambda>c. c \<noteq> CHR 0x00) (map byte_char bs)))))"

definition lpp_buf_write_str_min :: "bheap \<Rightarrow> i64 \<Rightarrow> i64 \<Rightarrow> cstr \<Rightarrow> (i64 \<times> bheap) res" where
  "lpp_buf_write_str_min h p off str = (case str of None \<Rightarrow> Inr (- 1, h) | Some s \<Rightarrow> if p = 0 then Inr (- 1, h)
     else with_buf h p (- 1, h) (\<lambda>b. let n = (of_nat (length s) :: i64) in if out_of_range b off n then Inr (- 1, h)
       else bind_res (put_bytes h p b off (map char_byte s)) (\<lambda>h. Inr (n, h))))"

definition lpp_buf_crc32_min :: "bheap \<Rightarrow> i64 \<Rightarrow> i64 \<Rightarrow> i64 \<Rightarrow> i64 res" where
  "lpp_buf_crc32_min h p off len = (if p = 0 \<or> sint len < 0 then Inr 0
     else with_buf h p 0 (\<lambda>b. if out_of_range b off len then Inr 0
       else bind_res (load_bytes (bdata b) (sint off) (nat (sint len))) (\<lambda>d. Inr (ucast (NOT (crc32_loop_fs 0xFFFFFFFF d))))))"

section \<open>Accessors on Linux\<close>

text \<open>The Linux runtime tests the pointer and nothing else.\<close>

definition lpp_buf_get8_fs :: "bheap \<Rightarrow> i64 \<Rightarrow> i64 \<Rightarrow> i64 res" where
  "lpp_buf_get8_fs h p off = with_buf h p 0 (\<lambda>b. bind_res (load_bytes (bdata b) (sint off) 1) (\<lambda>d. Inr (ucast (d ! 0))))"

definition lpp_buf_set8_fs :: "bheap \<Rightarrow> i64 \<Rightarrow> i64 \<Rightarrow> i64 \<Rightarrow> bheap res" where
  "lpp_buf_set8_fs h p off v = with_buf h p h (\<lambda>b. put_bytes h p b off [ucast (v AND 0xFF)])"

definition lpp_buf_set16le_fs :: "bheap \<Rightarrow> i64 \<Rightarrow> i64 \<Rightarrow> i64 \<Rightarrow> bheap res" where
  "lpp_buf_set16le_fs h p off v = with_buf h p h (\<lambda>b. put_bytes h p b off [byte_of v 0, byte_of v 8])"

definition lpp_buf_get16le_fs :: "bheap \<Rightarrow> i64 \<Rightarrow> i64 \<Rightarrow> i64 res" where
  "lpp_buf_get16le_fs h p off = with_buf h p 0 (\<lambda>b.
     bind_res (load_bytes (bdata b) (sint off) 2) (\<lambda>d. Inr (ucast (d ! 0) OR push_bit 8 (ucast (d ! 1)))))"

definition lpp_buf_set32le_fs :: "bheap \<Rightarrow> i64 \<Rightarrow> i64 \<Rightarrow> i64 \<Rightarrow> bheap res" where
  "lpp_buf_set32le_fs h p off v = with_buf h p h (\<lambda>b. put_bytes h p b off [byte_of v 0, byte_of v 8, byte_of v 16, byte_of v 24])"

definition lpp_buf_get32le_fs :: "bheap \<Rightarrow> i64 \<Rightarrow> i64 \<Rightarrow> i64 res" where
  "lpp_buf_get32le_fs h p off = with_buf h p 0 (\<lambda>b. bind_res (load_bytes (bdata b) (sint off) 4) (\<lambda>d.
       Inr (ucast (d ! 0) OR push_bit 8 (ucast (d ! 1)) OR push_bit 16 (ucast (d ! 2)) OR push_bit 24 (ucast (d ! 3)))))"

definition lpp_buf_copy_fs :: "bheap \<Rightarrow> i64 \<Rightarrow> i64 \<Rightarrow> i64 \<Rightarrow> i64 \<Rightarrow> i64 \<Rightarrow> bheap res" where
  "lpp_buf_copy_fs h dst doff src soff len = (if dst = 0 \<or> src = 0 \<or> sint len \<le> 0 then Inr h
     else copy_forward h dst (sint doff) src (sint soff) (nat (sint len)))"

definition lpp_buf_read_str_fs :: "(int \<Rightarrow> bool) \<Rightarrow> bheap \<Rightarrow> i64 \<Rightarrow> i64 \<Rightarrow> i64 \<Rightarrow> string res" where
  "lpp_buf_read_str_fs oom h p off len = (if p = 0 \<or> sint len \<le> 0 then if oom 1 then Inl (Fault ''write through NULL'') else Inr []
     else if oom (sint len + 1) then Inl (Fault ''write through NULL'')
     else with_buf h p [] (\<lambda>b.
       bind_res (load_bytes (bdata b) (sint off) (nat (sint len))) (\<lambda>bs. Inr (takeWhile (\<lambda>c. c \<noteq> CHR 0x00) (map byte_char bs)))))"

definition lpp_buf_write_str_fs :: "bheap \<Rightarrow> i64 \<Rightarrow> i64 \<Rightarrow> cstr \<Rightarrow> (i64 \<times> bheap) res" where
  "lpp_buf_write_str_fs h p off str = (case str of None \<Rightarrow> Inr (- 1, h) | Some s \<Rightarrow> if p = 0 then Inr (- 1, h)
     else with_buf h p (- 1, h) (\<lambda>b. let n = (of_nat (length s) :: i64) in if out_of_range b off n then Inr (- 1, h)
       else bind_res (put_bytes h p b off (map char_byte s)) (\<lambda>h. Inr (n, h))))"

section \<open>Whole files on Windows\<close>

text \<open>\<open>OPEN_EXISTING\<close> for reading. \<open>GetFileSize\<close> answers the low 32 bits of the size.\<close>

definition create_file_read :: "os_env \<Rightarrow> fsys \<Rightarrow> string \<Rightarrow> u8 list option" where
  "create_file_read os st p = (if denied os p \<or> fdirs st p then None else case fnames st p of None \<Rightarrow> None
     | Some i \<Rightarrow> (case inodes st i of Some (Reg c) \<Rightarrow> Some c | Some (Stream c) \<Rightarrow> Some c | None \<Rightarrow> None))"

definition get_file_size :: "u8 list \<Rightarrow> nat" where
  "get_file_size c = length c mod 2 ^ 32"

definition lpp_write_file_min :: "os_env \<Rightarrow> fsys \<Rightarrow> cstr \<Rightarrow> cstr \<Rightarrow> fsys \<times> int" where
  "lpp_write_file_min os st path data = (case (path, data) of (Some p, Some d) \<Rightarrow>
       (case open_write os True True st p of None \<Rightarrow> (st, - 1)
       | Some (st, i) \<Rightarrow> let bs = map char_byte d; n = written os (length bs) in (write_at st i 0 (take n bs), if n = length bs then 0 else - 1))
     | _ \<Rightarrow> (st, - 1))"

definition lpp_read_file_min :: "(int \<Rightarrow> bool) \<Rightarrow> os_env \<Rightarrow> fsys \<Rightarrow> cstr \<Rightarrow> u8 list res" where
  "lpp_read_file_min oom os st path = (case (case path of None \<Rightarrow> None | Some p \<Rightarrow> create_file_read os st p) of
       None \<Rightarrow> if oom 1 then Inl (Fault ''write through NULL'') else Inr []
     | Some c \<Rightarrow> if oom (int (get_file_size c) + 1) then Inl (Fault ''write through NULL'') else Inr (take (get_file_size c) c))"

definition lpp_append_file_min :: "os_env \<Rightarrow> fsys \<Rightarrow> cstr \<Rightarrow> cstr \<Rightarrow> fsys \<times> int" where
  "lpp_append_file_min os st path data = (case (path, data) of (Some p, Some d) \<Rightarrow>
       (case open_write os True False st p of None \<Rightarrow> (st, - 1)
       | Some (st, i) \<Rightarrow> let bs = map char_byte d; n = written os (length bs)
           in (write_at st i (inode_len st i) (take n bs), if n = length bs then 0 else - 1))
     | _ \<Rightarrow> (st, - 1))"

definition lpp_delete_file_min :: "os_env \<Rightarrow> fsys \<Rightarrow> cstr \<Rightarrow> fsys \<times> int" where
  "lpp_delete_file_min os st path = (case path of None \<Rightarrow> (st, - 1)
     | Some p \<Rightarrow> if denied os p \<or> fdirs st p \<or> fnames st p = None then (st, - 1) else (st\<lparr>fnames := (fnames st)(p := None)\<rparr>, 0))"

text \<open>\<open>MoveFileA\<close> refuses a destination that exists. Moving directories is not modelled.\<close>

definition lpp_file_move_min :: "os_env \<Rightarrow> fsys \<Rightarrow> cstr \<Rightarrow> cstr \<Rightarrow> (fsys \<times> int) res" where
  "lpp_file_move_min os st source destination = (case (source, destination) of (Some s, Some d) \<Rightarrow>
       if fdirs st s then Inl (Fault ''renaming of a directory'')
       else (case fnames st s of None \<Rightarrow> Inr (st, - 1)
         | Some i \<Rightarrow> if denied os s \<or> denied os d \<or> fdirs st d \<or> fnames st d \<noteq> None \<or> \<not> parent_ok st d then Inr (st, - 1)
             else Inr (st\<lparr>fnames := (fnames st)(s := None, d \<mapsto> i)\<rparr>, 0))
     | _ \<Rightarrow> Inr (st, - 1))"

definition lpp_file_exists_min :: "os_env \<Rightarrow> fsys \<Rightarrow> cstr \<Rightarrow> int" where
  "lpp_file_exists_min os st path = (case path of None \<Rightarrow> 0 | Some p \<Rightarrow> if \<not> denied os p \<and> (fdirs st p \<or> fnames st p \<noteq> None) then 1 else 0)"

definition lpp_file_size_min :: "os_env \<Rightarrow> fsys \<Rightarrow> cstr \<Rightarrow> int" where
  "lpp_file_size_min os st path = (case (case path of None \<Rightarrow> None | Some p \<Rightarrow> create_file_read os st p) of None \<Rightarrow> - 1 | Some c \<Rightarrow> int (get_file_size c))"

definition lpp_file_copy_min :: "cstr \<Rightarrow> cstr \<Rightarrow> int" where
  "lpp_file_copy_min source destination = - 1"

text \<open>\<open>lpp_buf_read\<close> gives the buffer back when fewer than \<open>size\<close> bytes come; the model delivers what is in the file.\<close>

definition lpp_buf_read_min :: "(u64 \<Rightarrow> i64) \<Rightarrow> os_env \<Rightarrow> fsys \<Rightarrow> bheap \<Rightarrow> cstr \<Rightarrow> (i64 \<times> bheap) res" where
  "lpp_buf_read_min valloc os st h path = (case (case path of None \<Rightarrow> None | Some p \<Rightarrow> create_file_read os st p) of None \<Rightarrow> Inr (0, h)
     | Some c \<Rightarrow> let size = get_file_size c; (buf, h') = lpp_buf_alloc_min valloc h (of_nat size)
         in if buf = 0 then Inr (0, h) else (case h' buf of None \<Rightarrow> Inl (Fault ''not a live buffer'')
           | Some b \<Rightarrow> bind_res (store_bytes (bdata b) 0 (take size c)) (\<lambda>m. Inr (buf, h'(buf \<mapsto> b\<lparr>bdata := m\<rparr>)))))"

text \<open>\<open>WriteFile\<close> may take a part; the loop goes on behind it and stops when nothing is taken. The position is a \<open>DWORD\<close>: buffers of 4 GiB and more, for which it wraps and the loop starts again, are left out.\<close>

function buf_write_loop :: "os_env \<Rightarrow> fsys \<Rightarrow> nat \<Rightarrow> u8 list \<Rightarrow> nat \<Rightarrow> fsys \<times> int" where
  "buf_write_loop os st i bs pos = (if pos < length bs
     then let n = written os (length bs - pos) in if n = 0 then (st, - 1) else buf_write_loop os (write_at st i pos (take n (drop pos bs))) i bs (pos + n)
     else (st, 0))"
  by pat_completeness auto
termination by (relation "measure (\<lambda>(_, _, _, bs, pos). length bs - pos)") (auto simp: written_def Let_def)

declare buf_write_loop.simps [simp del]

definition lpp_buf_write_min :: "os_env \<Rightarrow> fsys \<Rightarrow> bheap \<Rightarrow> cstr \<Rightarrow> i64 \<Rightarrow> (fsys \<times> int) res" where
  "lpp_buf_write_min os st h path p = (case path of None \<Rightarrow> Inr (st, - 1) | Some f \<Rightarrow> with_buf h p (st, - 1) (\<lambda>b.
     if sint (bsize b) \<ge> 2 ^ 32 then Inl (Fault ''position of more than 32 bits'')
     else case open_write os True True st f of None \<Rightarrow> Inr (st, - 1)
     | Some (st, i) \<Rightarrow> bind_res (load_bytes (bdata b) 0 (nat (sint (bsize b)))) (\<lambda>bs. Inr (buf_write_loop os st i bs 0))))"

text \<open>The Linux runtime opens with octal 0101, without \<open>O_TRUNC\<close>, and loops over \<open>write\<close>.\<close>

definition lpp_buf_read_fs :: "(u64 \<Rightarrow> i64) \<Rightarrow> os_env \<Rightarrow> fsys \<Rightarrow> bheap \<Rightarrow> cstr \<Rightarrow> (i64 \<times> bheap) res" where
  "lpp_buf_read_fs mmap os st h path = (case path of None \<Rightarrow> Inr (0, h) | Some p \<Rightarrow> (case open_read os st p of
       Some (Reg c) \<Rightarrow> bind_res (lpp_buf_alloc_fs mmap h (of_nat (length c))) (\<lambda>(buf, h').
         if buf = 0 then Inr (0, h) else (case h' buf of None \<Rightarrow> Inl (Fault ''not a live buffer'')
           | Some b \<Rightarrow> bind_res (store_bytes (bdata b) 0 c) (\<lambda>m. Inr (buf, h'(buf \<mapsto> b\<lparr>bdata := m\<rparr>)))))
     | _ \<Rightarrow> Inr (0, h)))"

definition lpp_buf_write_fs :: "os_env \<Rightarrow> fsys \<Rightarrow> bheap \<Rightarrow> cstr \<Rightarrow> i64 \<Rightarrow> (fsys \<times> int) res" where
  "lpp_buf_write_fs os st h path p = (case path of None \<Rightarrow> Inr (st, - 1) | Some f \<Rightarrow> with_buf h p (st, - 1) (\<lambda>b.
     case lpp_sys_open os st f 65 of None \<Rightarrow> Inr (st, - 1)
     | Some (st, i) \<Rightarrow> bind_res (load_bytes (bdata b) 0 (nat (sint (bsize b)))) (\<lambda>bs. Inr (buf_write_loop os st i bs 0))))"

section \<open>Positional I/O on Windows\<close>

text \<open>Handles are positive. The length is passed as a \<open>DWORD\<close>: \<open>len\<close> modulo \<open>2 ^ 32\<close>. Reading at or behind the end of the file fails with \<open>ERROR_HANDLE_EOF\<close>, which is answered as 0 bytes.\<close>

definition lpp_file_open_min :: "os_env \<Rightarrow> fsys \<Rightarrow> cstr \<Rightarrow> i64 \<Rightarrow> fsys \<times> int" where
  "lpp_file_open_min os st path flags = (case path of None \<Rightarrow> (st, - 1) | Some p \<Rightarrow> if new_fd os \<le> 0 then (st, - 1)
     else case open_write os True False st p of None \<Rightarrow> (st, - 1) | Some (st, i) \<Rightarrow> (st\<lparr>fds := (fds st)(new_fd os \<mapsto> i)\<rparr>, new_fd os))"

definition lpp_file_close_min :: "fsys \<Rightarrow> int \<Rightarrow> fsys" where
  "lpp_file_close_min st fd = (if fd \<le> 0 then st else st\<lparr>fds := (fds st)(fd := None)\<rparr>)"

definition lpp_file_pread_min :: "fsys \<Rightarrow> bheap \<Rightarrow> int \<Rightarrow> i64 \<Rightarrow> i64 \<Rightarrow> i64 \<Rightarrow> i64 \<Rightarrow> (bheap \<times> int) res" where
  "lpp_file_pread_min st h fd buf buf_off file_off len =
     (if fd \<le> 0 \<or> buf = 0 \<or> sint len \<le> 0 \<or> sint file_off < 0 \<or> sint buf_off < 0 then Inr (h, - 1)
      else with_buf h buf (h, - 1) (\<lambda>b. if sint (buf_off + len) > sint (bsize b) then Inr (h, - 1)
        else case fds st fd of None \<Rightarrow> Inr (h, - 1)
        | Some i \<Rightarrow> (case inodes st i of Some (Reg c) \<Rightarrow> let bs = take (unat (ucast len :: u32)) (drop (nat (sint file_off)) c)
            in bind_res (put_bytes h buf b buf_off bs) (\<lambda>h. Inr (h, int (length bs)))
          | _ \<Rightarrow> Inr (h, - 1))))"

definition lpp_file_pwrite_min :: "os_env \<Rightarrow> fsys \<Rightarrow> bheap \<Rightarrow> int \<Rightarrow> i64 \<Rightarrow> i64 \<Rightarrow> i64 \<Rightarrow> i64 \<Rightarrow> (fsys \<times> int) res" where
  "lpp_file_pwrite_min os st h fd buf buf_off file_off len =
     (if fd \<le> 0 \<or> buf = 0 \<or> sint len \<le> 0 \<or> sint file_off < 0 \<or> sint buf_off < 0 then Inr (st, - 1)
      else with_buf h buf (st, - 1) (\<lambda>b. if sint (buf_off + len) > sint (bsize b) then Inr (st, - 1)
        else case fds st fd of None \<Rightarrow> Inr (st, - 1)
        | Some i \<Rightarrow> (case inodes st i of Some (Reg c) \<Rightarrow> bind_res (load_bytes (bdata b) (sint buf_off) (unat (ucast len :: u32))) (\<lambda>bs.
              let n = written os (length bs) in if bs \<noteq> [] \<and> n = 0 then Inr (st, - 1) else Inr (write_at st i (nat (sint file_off)) (take n bs), int n))
          | _ \<Rightarrow> Inr (st, - 1))))"

definition lpp_file_fsync_min :: "fsys \<Rightarrow> int \<Rightarrow> int" where
  "lpp_file_fsync_min st fd = (if fd \<le> 0 then - 1 else if fds st fd = None then - 1 else 0)"

definition lpp_file_fdatasync_min :: "fsys \<Rightarrow> int \<Rightarrow> int" where
  "lpp_file_fdatasync_min st fd = lpp_file_fsync_min st fd"

definition lpp_file_ftruncate_min :: "fsys \<Rightarrow> int \<Rightarrow> int \<Rightarrow> fsys \<times> int" where
  "lpp_file_ftruncate_min st fd n = (if fd \<le> 0 \<or> n < 0 then (st, - 1) else case fds st fd of None \<Rightarrow> (st, - 1)
     | Some i \<Rightarrow> (case inodes st i of Some (Reg c) \<Rightarrow> (st\<lparr>inodes := (inodes st)(i \<mapsto> Reg (take (nat n) (c @ replicate (nat n - length c) 0)))\<rparr>, 0)
       | _ \<Rightarrow> (st, - 1)))"

definition lpp_fd_size_min :: "fsys \<Rightarrow> int \<Rightarrow> int" where
  "lpp_fd_size_min st fd = (if fd \<le> 0 then - 1 else case fds st fd of None \<Rightarrow> - 1 | Some i \<Rightarrow> int (inode_len st i))"

section \<open>The three versions compared\<close>

lemma byte_of_bits:
  "byte_of v 0 = ucast (ucast v :: u16)" "byte_of v 8 = ucast (drop_bit 8 (ucast v :: u16))"
  "byte_of v 0 = ucast (ucast v :: u32)" "byte_of v 8 = ucast (drop_bit 8 (ucast v :: u32))"
  "byte_of v 16 = ucast (drop_bit 16 (ucast v :: u32))" "byte_of v 24 = ucast (drop_bit 24 (ucast v :: u32))"
proof -
  have m: "(0xFF :: i64) = mask 8" by (simp add: mask_eq_exp_minus_1)
  show "byte_of v 0 = ucast (ucast v :: u16)" "byte_of v 8 = ucast (drop_bit 8 (ucast v :: u16))"
    "byte_of v 0 = ucast (ucast v :: u32)" "byte_of v 8 = ucast (drop_bit 8 (ucast v :: u32))"
    "byte_of v 16 = ucast (drop_bit 16 (ucast v :: u32))" "byte_of v 24 = ucast (drop_bit 24 (ucast v :: u32))"
    unfolding byte_of_def m by (rule bit_word_eqI; auto simp: bit_simps)+
qed

lemma dec32_wide:
  "(ucast (a :: u8) OR push_bit 8 (ucast (b :: u8)) OR push_bit 16 (ucast (c :: u8)) OR push_bit 24 (ucast (d :: u8)) :: i64) =
   ucast (ucast a OR push_bit 8 (ucast b) OR push_bit 16 (ucast c) OR push_bit 24 (ucast d) :: u32)"
proof -
  have hi: "8 \<le> n \<Longrightarrow> \<not> bit x n" for x :: u8 and n using bit_imp_le_length [of x n] by auto
  show ?thesis by (rule bit_all_64_eqI, unfold upt_64) (simp add: bit_simps hi)
qed

lemma min_enc_eqs:
  "[byte_of v 0, byte_of v 8] = enc16le v" "[byte_of v 8, byte_of v 0] = rev (enc16le v)"
  "[byte_of v 0, byte_of v 8, byte_of v 16, byte_of v 24] = enc32le v" "[byte_of v 24, byte_of v 16, byte_of v 8, byte_of v 0] = rev (enc32le v)"
proof -
  show "[byte_of v 0, byte_of v 8] = enc16le v" "[byte_of v 8, byte_of v 0] = rev (enc16le v)"
    unfolding enc16le_def Let_def byte_of_bits(1,2) by simp_all
  show "[byte_of v 0, byte_of v 8, byte_of v 16, byte_of v 24] = enc32le v" "[byte_of v 24, byte_of v 16, byte_of v 8, byte_of v 0] = rev (enc32le v)"
    unfolding enc32le_def Let_def byte_of_bits(3-6) by simp_all
qed

lemma host_eqs:
  "lpp_buf_get8_min = lpp_buf_get8" "lpp_buf_set8_min = lpp_buf_set8"
  "lpp_buf_set16le_min = lpp_buf_set16le" "lpp_buf_get16le_min = lpp_buf_get16le"
  "lpp_buf_set16be_min = lpp_buf_set16be" "lpp_buf_get16be_min = lpp_buf_get16be"
  "lpp_buf_set32le_min = lpp_buf_set32le" "lpp_buf_get32le_min = lpp_buf_get32le"
  "lpp_buf_set32be_min = lpp_buf_set32be" "lpp_buf_get32be_min = lpp_buf_get32be"
  "lpp_buf_set64le_min = lpp_buf_set64le" "lpp_buf_get64le_min = lpp_buf_get64le"
  "lpp_buf_set64be_min = lpp_buf_set64be" "lpp_buf_get64be_min = lpp_buf_get64be"
  "lpp_buf_len_min = lpp_buf_len" "lpp_buf_free_min = lpp_buf_free"
proof -
  have w: "(push_bit 24 (ucast a) OR push_bit 16 (ucast b) OR push_bit 8 (ucast c) OR ucast d :: i64) =
      ucast (push_bit 24 (ucast a) OR push_bit 16 (ucast b) OR push_bit 8 (ucast c) OR ucast d :: u32)" for a b c d :: u8
    using dec32_wide [of d c b a] by (simp only: ac_simps)
  show "lpp_buf_get8_min = lpp_buf_get8" "lpp_buf_set8_min = lpp_buf_set8"
    by (intro ext, simp add: lpp_buf_get8_min_def lpp_buf_get8_def lpp_buf_set8_min_def lpp_buf_set8_def out_of_range8_def)+
  show "lpp_buf_set16le_min = lpp_buf_set16le" by (intro ext, simp only: lpp_buf_set16le_min_def min_enc_eqs(1), simp add: buf16le.bset_eq)
  show "lpp_buf_set16be_min = lpp_buf_set16be" by (intro ext, simp only: lpp_buf_set16be_min_def min_enc_eqs(2), simp add: buf16be.bset_eq cong: if_cong)
  show "lpp_buf_set32le_min = lpp_buf_set32le" by (intro ext, simp only: lpp_buf_set32le_min_def min_enc_eqs(3), simp add: buf32le.bset_eq)
  show "lpp_buf_set32be_min = lpp_buf_set32be" by (intro ext, simp only: lpp_buf_set32be_min_def min_enc_eqs(4), simp add: buf32be.bset_eq cong: if_cong)
  show "lpp_buf_get32le_min = lpp_buf_get32le" by (intro ext, simp only: lpp_buf_get32le_min_def lpp_buf_get32le_def dec32_wide)
  show "lpp_buf_get32be_min = lpp_buf_get32be" by (intro ext, simp only: lpp_buf_get32be_min_def lpp_buf_get32be_def w)
qed (intro ext, simp add: lpp_buf_get16le_min_def lpp_buf_get16le_def lpp_buf_get16be_min_def lpp_buf_get16be_def
    lpp_buf_set64le_min_def lpp_buf_set64le_def lpp_buf_get64le_min_def lpp_buf_get64le_def
    lpp_buf_set64be_min_def lpp_buf_set64be_def lpp_buf_get64be_min_def lpp_buf_get64be_def
    lpp_buf_len_min_def lpp_buf_len_def lpp_buf_free_min_def lpp_buf_free_def)+

text \<open>A Linux accessor is the host accessor without its guard.\<close>

lemma fs_setter:
  assumes "\<And>h p off v. bset_fs h p off v = with_buf h p h (\<lambda>b. put_bytes h p b off (enc v))" "\<And>v. length (enc v) = n" "0 < n" "n \<le> 8"
    and "\<And>h p off v. bset h p off v = with_buf h p h (\<lambda>b. if out_of_range b off (of_nat n) then Inr h else put_bytes h p b off (enc v))"
    and "h p = Some b" "p \<noteq> 0" "buf_ok b"
  shows "bset_fs h p off v = (if in_range b off n then bset h p off v else Inl (Fault ''write outside the buffer''))"
proof (cases "in_range b off n")
  case True
  then show ?thesis using assms(6,7) not_out_of_range [OF assms(8,4) True] by (simp add: assms(1,5) with_buf_def)
next
  case False
  obtain x xs where e: "enc v = x # xs" using assms(2) [of v] assms(3) by (cases "enc v") auto
  have "store_bytes (bdata b) (sint off) (enc v) = Inl (Fault ''write outside the buffer'')"
  proof (cases "sint off < 0")
    case True
    then show ?thesis by (simp add: e)
  next
    assume "\<not> sint off < 0"
    with False show ?thesis using store_bytes_out [of "bdata b" "sint off" "enc v"] assms(2) [of v] e by (auto simp: in_range_def)
  qed
  with False show ?thesis using assms(6,7) by (simp add: assms(1) with_buf_def put_bytes_def)
qed

lemma fs_getter:
  assumes "\<And>h p off. bget_fs h p off = with_buf h p 0 (\<lambda>b. bind_res (load_bytes (bdata b) (sint off) n) (\<lambda>d. Inr (dec d)))" "0 < n" "n \<le> 8"
    and "\<And>h p off. bget h p off = with_buf h p 0 (\<lambda>b. if out_of_range b off (of_nat n) then Inr 0
      else bind_res (load_bytes (bdata b) (sint off) n) (\<lambda>d. Inr (dec d)))"
    and "h p = Some b" "p \<noteq> 0" "buf_ok b"
  shows "bget_fs h p off = (if in_range b off n then bget h p off else Inl (Fault ''read outside the buffer''))"
proof (cases "in_range b off n")
  case True
  then show ?thesis using assms(5,6) not_out_of_range [OF assms(7,3) True] by (simp add: assms(1,4) with_buf_def)
next
  case False
  have "load_bytes (bdata b) (sint off) n = Inl (Fault ''read outside the buffer'')"
  proof (cases "sint off < 0")
    case True
    then show ?thesis using assms(2) by (cases n) simp_all
  next
    assume "\<not> sint off < 0"
    with False show ?thesis using load_bytes_out [of "bdata b" "sint off" n] assms(2) by (auto simp: in_range_def)
  qed
  with False show ?thesis using assms(5,6) by (simp add: assms(1) with_buf_def)
qed
lemma fs_eqs:
  assumes "h p = Some b" "p \<noteq> 0" "buf_ok b"
  shows "lpp_buf_set16le_fs h p off v = (if in_range b off 2 then lpp_buf_set16le h p off v else Inl (Fault ''write outside the buffer''))"
    "lpp_buf_set32le_fs h p off v = (if in_range b off 4 then lpp_buf_set32le h p off v else Inl (Fault ''write outside the buffer''))"
    "lpp_buf_get16le_fs h p off = (if in_range b off 2 then lpp_buf_get16le h p off else Inl (Fault ''read outside the buffer''))"
    "lpp_buf_get32le_fs h p off = (if in_range b off 4 then lpp_buf_get32le h p off else Inl (Fault ''read outside the buffer''))"
proof -
  show "lpp_buf_set16le_fs h p off v = (if in_range b off 2 then lpp_buf_set16le h p off v else Inl (Fault ''write outside the buffer''))"
    using assms by (intro fs_setter [where enc = enc16le] buf16le.bset_eq) (simp_all only: lpp_buf_set16le_fs_def min_enc_eqs, simp_all)
  show "lpp_buf_set32le_fs h p off v = (if in_range b off 4 then lpp_buf_set32le h p off v else Inl (Fault ''write outside the buffer''))"
    using assms by (intro fs_setter [where enc = enc32le] buf32le.bset_eq) (simp_all only: lpp_buf_set32le_fs_def min_enc_eqs(3), simp_all)
  show "lpp_buf_get16le_fs h p off = (if in_range b off 2 then lpp_buf_get16le h p off else Inl (Fault ''read outside the buffer''))"
    using assms by (intro fs_getter [where dec = dec16le] buf16le.bget_eq) (simp_all add: lpp_buf_get16le_fs_def dec16le_def)
  show "lpp_buf_get32le_fs h p off = (if in_range b off 4 then lpp_buf_get32le h p off else Inl (Fault ''read outside the buffer''))"
    using assms by (intro fs_getter [where dec = dec32le] buf32le.bget_eq) (simp_all only: lpp_buf_get32le_fs_def dec32le_def dec32_wide, simp_all)
qed

lemma fs_eqs8:
  assumes "h p = Some b" "p \<noteq> 0" "buf_ok b"
  shows "lpp_buf_set8_fs h p off v = (if in_range b off 1 then lpp_buf_set8 h p off v else Inl (Fault ''write outside the buffer''))"
    "lpp_buf_get8_fs h p off = (if in_range b off 1 then lpp_buf_get8 h p off else Inl (Fault ''read outside the buffer''))"
  using assms by (auto simp: lpp_buf_set8_fs_def lpp_buf_set8_def lpp_buf_get8_fs_def lpp_buf_get8_def with_buf_def put_bytes_def
    out_of_range8_def in_range_def buf_ok_def)

text \<open>The copy loop between two buffers moves the bytes of the range.\<close>

lemma copy_forward_ok:
  assumes "src \<noteq> dst" "h src = Some s"
  shows "h dst = Some d \<Longrightarrow> 0 \<le> soff \<Longrightarrow> soff + int n \<le> int (length (bdata s)) \<Longrightarrow> 0 \<le> doff \<Longrightarrow> doff + int n \<le> int (length (bdata d)) \<Longrightarrow>
    copy_forward h dst doff src soff n =
      Inr (h(dst \<mapsto> d\<lparr>bdata := take (nat doff) (bdata d) @ take n (drop (nat soff) (bdata s)) @ drop (nat doff + n) (bdata d)\<rparr>))"
  using assms
proof (induction n arbitrary: h d doff soff)
  case 0
  then show ?case by (simp add: fun_upd_idem)
next
  case (Suc n)
  let ?m = "(bdata d)[nat doff := bdata s ! nat soff]"
  have i: "nat soff < length (bdata s)" "nat doff < length (bdata d)" "nat (soff + 1) = Suc (nat soff)" "nat (doff + 1) = Suc (nat doff)"
    using Suc(3-6) by auto
  have "copy_forward h dst doff src soff (Suc n) = copy_forward (h(dst \<mapsto> d\<lparr>bdata := ?m\<rparr>)) dst (doff + 1) src (soff + 1) n"
    using Suc(2-8) i by (simp add: numeral_eq_Suc)
  also have "\<dots> = Inr ((h(dst \<mapsto> d\<lparr>bdata := ?m\<rparr>))(dst \<mapsto> (d\<lparr>bdata := ?m\<rparr>)\<lparr>bdata := take (nat (doff + 1)) ?m @ take n (drop (nat (soff + 1)) (bdata s)) @
      drop (nat (doff + 1) + n) ?m\<rparr>))"
    using Suc(2-8) by (subst Suc.IH) auto
  also have "take (nat (doff + 1)) ?m @ take n (drop (nat (soff + 1)) (bdata s)) @ drop (nat (doff + 1) + n) ?m =
      take (nat doff) (bdata d) @ take (Suc n) (drop (nat soff) (bdata s)) @ drop (nat doff + Suc n) (bdata d)"
    using i by (simp add: take_Suc_conv_app_nth Cons_nth_drop_Suc [symmetric])
  finally show ?case by (simp del: copy_forward.simps add: fun_upd_def cong: if_cong)
qed

text \<open>The buffers of the three runtimes. Every fixed-width accessor of the Windows runtime is the host accessor, on every argument, in range, out of range or NULL. The Linux runtime has lost the bounds
  tests: on a live buffer its accessors agree with the host exactly while the access stays inside the buffer, and where the host answers 0 or leaves the buffer alone they read or write outside the block.\<close>

theorem lpp_buf_fs_guards:
  "lpp_buf_get8_min = lpp_buf_get8 \<and> lpp_buf_set8_min = lpp_buf_set8 \<and>
   lpp_buf_set16le_min = lpp_buf_set16le \<and> lpp_buf_get16le_min = lpp_buf_get16le \<and> lpp_buf_set16be_min = lpp_buf_set16be \<and> lpp_buf_get16be_min = lpp_buf_get16be \<and>
   lpp_buf_set32le_min = lpp_buf_set32le \<and> lpp_buf_get32le_min = lpp_buf_get32le \<and> lpp_buf_set32be_min = lpp_buf_set32be \<and> lpp_buf_get32be_min = lpp_buf_get32be \<and>
   lpp_buf_set64le_min = lpp_buf_set64le \<and> lpp_buf_get64le_min = lpp_buf_get64le \<and> lpp_buf_set64be_min = lpp_buf_set64be \<and> lpp_buf_get64be_min = lpp_buf_get64be \<and>
   (h p = Some b \<and> p \<noteq> 0 \<and> buf_ok b \<longrightarrow>
     lpp_buf_get8_fs h p off = (if in_range b off 1 then lpp_buf_get8 h p off else Inl (Fault ''read outside the buffer'')) \<and>
     lpp_buf_set8_fs h p off v = (if in_range b off 1 then lpp_buf_set8 h p off v else Inl (Fault ''write outside the buffer'')) \<and>
     lpp_buf_get16le_fs h p off = (if in_range b off 2 then lpp_buf_get16le h p off else Inl (Fault ''read outside the buffer'')) \<and>
     lpp_buf_set16le_fs h p off v = (if in_range b off 2 then lpp_buf_set16le h p off v else Inl (Fault ''write outside the buffer'')) \<and>
     lpp_buf_get32le_fs h p off = (if in_range b off 4 then lpp_buf_get32le h p off else Inl (Fault ''read outside the buffer'')) \<and>
     lpp_buf_set32le_fs h p off v = (if in_range b off 4 then lpp_buf_set32le h p off v else Inl (Fault ''write outside the buffer'')))"
  using host_eqs(1-14) fs_eqs [of h p b off] fs_eqs8 [of h p b off] by blast

theorem lpp_buf_fs_guards_witness:
  "lpp_buf_set8_fs [8 \<mapsto> \<lparr>bsize = 2, bdata = [1, 2]\<rparr>] 8 5 7 = Inl (Fault ''write outside the buffer'') \<and>
   lpp_buf_set8_min [8 \<mapsto> \<lparr>bsize = 2, bdata = [1, 2]\<rparr>] 8 5 7 = Inr [8 \<mapsto> \<lparr>bsize = 2, bdata = [1, 2]\<rparr>]"
  using lpp_buf_fs_guards [of "[8 \<mapsto> \<lparr>bsize = 2, bdata = [1, 2]\<rparr>]" 8 "\<lparr>bsize = 2, bdata = [1, 2]\<rparr>" 5 7]
  by (simp add: buf_ok_def in_range_def lpp_buf_set8_def out_of_range8_def with_buf_def)

section \<open>Positional I/O\<close>

lemma splice_read_any: "take (length bs) (drop off (splice c off bs)) = bs"
  by (simp add: splice_def)

lemma ucast_len: "0 \<le> sint (len :: i64) \<Longrightarrow> sint len < 2 ^ 32 \<Longrightarrow> unat (ucast len :: u32) = nat (sint len)"
proof -
  assume l: "0 \<le> sint len" "sint len < 2 ^ 32"
  have "unat (ucast len :: u32) = take_bit 32 (unat len)" by (simp add: unsigned_ucast_eq unsigned_take_bit_eq)
  also have "\<dots> = nat (sint len)" using l by (simp add: unat_eq_sint_64 take_bit_nat_eq_self nat_less_iff)
  finally show ?thesis .
qed

text \<open>Positional I/O on Windows transfers what it says. Writing \<open>len\<close> bytes from any offset of a buffer to any offset of an open file, even behind its end, and reading the same range of the file into a buffer puts
  exactly these bytes at the asked place of the second buffer and nothing else; both calls report \<open>len\<close>, and the bytes of the file outside the range stay. Unlike on the host runtime no byte is lost: the pointer of the
  program is the address the calls expect.\<close>

theorem lpp_file_positional_min_roundtrip:
  assumes "fds st fd = Some i" "inodes st i = Some (Reg c)" "0 < fd" "\<And>n. room os n \<ge> n" "0 \<le> sint off"
    and "h p = Some b" "p \<noteq> 0" "buf_ok b" "0 \<le> sint boff" "sint boff + sint len \<le> sint (bsize b)"
    and "h q = Some b'" "q \<noteq> 0" "buf_ok b'" "0 \<le> sint qoff" "sint qoff + sint len \<le> sint (bsize b')"
    and "0 < sint len" "sint len < 2 ^ 32"
  shows "\<exists>st'. lpp_file_pwrite_min os st h fd p boff off len = Inr (st', sint len) \<and>
    inodes st' i = Some (Reg (splice c (nat (sint off)) (take (nat (sint len)) (drop (nat (sint boff)) (bdata b))))) \<and>
    lpp_file_pread_min st' h fd q qoff off len =
      Inr (h(q \<mapsto> b'\<lparr>bdata := take (nat (sint qoff)) (bdata b') @ take (nat (sint len)) (drop (nat (sint boff)) (bdata b)) @
        drop (nat (sint qoff) + nat (sint len)) (bdata b')\<rparr>), sint len)"
proof -
  define bs where "bs = take (nat (sint len)) (drop (nat (sint boff)) (bdata b))"
  have l: "int (length (bdata b)) = sint (bsize b)" "int (length (bdata b')) = sint (bsize b')" using assms(8,13) by (simp_all add: buf_ok_def)
  have n: "unat (ucast len :: u32) = nat (sint len)" using ucast_len assms(16,17) by simp
  have lb: "length bs = nat (sint len)" using l(1) assms(9,10,16) by (simp add: bs_def)
  have "in_i64 (sint boff + sint len)" "in_i64 (sint qoff + sint len)"
    using assms(9,10,14,15,16) sint_range_64 [of "bsize b"] sint_range_64 [of "bsize b'"] by (simp_all add: in_i64_def INT64_MIN_def)
  then have s: "sint (boff + len) = sint boff + sint len" "sint (qoff + len) = sint qoff + sint len" by (simp_all add: sint_add_64)
  have ld: "load_bytes (bdata b) (sint boff) (nat (sint len)) = Inr bs"
    unfolding bs_def using l(1) assms(9,10,16) by (intro load_bytes_in) auto
  let ?st = "write_at st i (nat (sint off)) bs"
  have w: "lpp_file_pwrite_min os st h fd p boff off len = Inr (?st, sint len)"
    using assms(1-3,5-7,9,10,16) s(1) n ld lb by (simp add: lpp_file_pwrite_min_def with_buf_def written_all assms(4))
  have i: "inodes ?st i = Some (Reg (splice c (nat (sint off)) bs))" "fds ?st fd = Some i" using write_at_reg [OF assms(2)] assms(1) by simp_all
  have t: "take (nat (sint len)) (drop (nat (sint off)) (splice c (nat (sint off)) bs)) = bs" using splice_read_any [of bs] lb by simp
  have "put_bytes h q b' qoff bs = Inr (h(q \<mapsto> b'\<lparr>bdata := take (nat (sint qoff)) (bdata b') @ bs @ drop (nat (sint qoff) + nat (sint len)) (bdata b')\<rparr>))"
    using l(2) assms(14,15,16) lb by (simp add: put_bytes_def store_bytes_in)
  then have "lpp_file_pread_min ?st h fd q qoff off len =
      Inr (h(q \<mapsto> b'\<lparr>bdata := take (nat (sint qoff)) (bdata b') @ bs @ drop (nat (sint qoff) + nat (sint len)) (bdata b')\<rparr>), sint len)"
    using assms(3,5,11,12,14,15,16) s(2) n i t lb by (simp add: lpp_file_pread_min_def with_buf_def Let_def)
  with w i(1) show ?thesis unfolding bs_def by blast
qed

theorem lpp_file_positional_min_roundtrip_witness:
  "\<exists>st'. lpp_file_pwrite_min \<lparr>denied = (\<lambda>_. False), room = (\<lambda>n. n), new_ino = 7, new_fd = 3\<rparr>
       \<lparr>fnames = [''f'' \<mapsto> 1], inodes = [1 \<mapsto> Reg [9]], fdirs = (\<lambda>_. False), fds = [3 \<mapsto> 1]\<rparr>
       [64 \<mapsto> \<lparr>bsize = 4, bdata = [1, 2, 3, 4]\<rparr>, 96 \<mapsto> \<lparr>bsize = 4, bdata = [0, 0, 0, 0]\<rparr>] 3 64 1 2 2 = Inr (st', 2) \<and>
     inodes st' 1 = Some (Reg [9, 0, 2, 3]) \<and>
     lpp_file_pread_min st' [64 \<mapsto> \<lparr>bsize = 4, bdata = [1, 2, 3, 4]\<rparr>, 96 \<mapsto> \<lparr>bsize = 4, bdata = [0, 0, 0, 0]\<rparr>] 3 96 0 2 2 =
       Inr ([64 \<mapsto> \<lparr>bsize = 4, bdata = [1, 2, 3, 4]\<rparr>, 96 \<mapsto> \<lparr>bsize = 4, bdata = [2, 3, 0, 0]\<rparr>], 2)"
  using lpp_file_positional_min_roundtrip [of "\<lparr>fnames = [''f'' \<mapsto> 1], inodes = [1 \<mapsto> Reg [9]], fdirs = (\<lambda>_. False), fds = [3 \<mapsto> 1]\<rparr>" 3 1 "[9]"
      "\<lparr>denied = (\<lambda>_. False), room = (\<lambda>n. n), new_ino = 7, new_fd = 3\<rparr>" 2
      "[64 \<mapsto> \<lparr>bsize = 4, bdata = [1, 2, 3, 4]\<rparr>, 96 \<mapsto> \<lparr>bsize = 4, bdata = [0, 0, 0, 0]\<rparr>]" 64 "\<lparr>bsize = 4, bdata = [1, 2, 3, 4]\<rparr>" 1 2 96 "\<lparr>bsize = 4, bdata = [0, 0, 0, 0]\<rparr>" 0]
  by (simp add: buf_ok_def splice_def take_Cons' drop_Cons')
section \<open>Copies and whole files\<close>

text \<open>Between two buffers, and inside their bounds, the byte loops of the freestanding runtimes copy what the host runtime copies with \<open>memcpy\<close>.\<close>

theorem lpp_buf_copy_fs_agrees:
  assumes "src \<noteq> dst" "src \<noteq> 0" "dst \<noteq> 0" "h src = Some s" "h dst = Some d" "buf_ok s" "buf_ok d"
    and "0 < sint len" "0 \<le> sint soff" "sint soff + sint len \<le> sint (bsize s)" "0 \<le> sint doff" "sint doff + sint len \<le> sint (bsize d)"
  shows "lpp_buf_copy_min h dst doff src soff len = lpp_buf_copy h dst doff src soff len \<and>
    lpp_buf_copy_fs h dst doff src soff len = lpp_buf_copy h dst doff src soff len"
proof -
  have l: "int (length (bdata s)) = sint (bsize s)" "int (length (bdata d)) = sint (bsize d)" using assms(6,7) by (simp_all add: buf_ok_def)
  have u: "unat len = nat (sint len)" using assms(8) by (simp add: unat_eq_sint_64)
  have "in_i64 (sint soff + sint len)" "in_i64 (sint doff + sint len)"
    using assms(8-12) sint_range_64 [of "bsize s"] sint_range_64 [of "bsize d"] by (simp_all add: in_i64_def INT64_MIN_def)
  then have r: "\<not> out_of_range s soff len" "\<not> out_of_range d doff len" using assms(9-12) by (simp_all add: out_of_range_def sint_add_64)
  define bs where "bs = take (nat (sint len)) (drop (nat (sint soff)) (bdata s))"
  have bs: "length bs = nat (sint len)" using l(1) assms(8-10) by (simp add: bs_def)
  have c: "copy_forward h dst (sint doff) src (sint soff) (nat (sint len)) =
      Inr (h(dst \<mapsto> d\<lparr>bdata := take (nat (sint doff)) (bdata d) @ bs @ drop (nat (sint doff) + nat (sint len)) (bdata d)\<rparr>))"
    unfolding bs_def using l assms(8-12) by (intro copy_forward_ok [OF assms(1,4,5)]) auto
  have "load_bytes (bdata s) (sint soff) (nat (sint len)) = Inr bs" unfolding bs_def using l(1) assms(8-10) by (intro load_bytes_in) auto
  moreover have "put_bytes h dst d doff bs = copy_forward h dst (sint doff) src (sint soff) (nat (sint len))"
    using c l(2) assms(8,11,12) bs by (simp add: put_bytes_def store_bytes_in)
  ultimately have "lpp_buf_copy h dst doff src soff len = copy_forward h dst (sint doff) src (sint soff) (nat (sint len))"
    using assms(1-5) r u by (simp add: lpp_buf_copy_def with_buf_def)
  then show ?thesis using assms(1-5,8) r by (simp add: lpp_buf_copy_min_def lpp_buf_copy_fs_def with_buf_def)
qed

text \<open>An empty file is read as 64 zero bytes: the allocator of the freestanding runtimes makes 64 out of 0. The host runtime answers with an empty buffer.\<close>

theorem lpp_buf_read_fs_empty:
  assumes "file_content st p = Some []" "\<not> denied os p" "\<not> fdirs st p" "m \<noteq> 0" "m + 8 \<noteq> 0"
  shows "lpp_buf_read_min (\<lambda>n. m) os st h (Some p) = Inr (m + 8, h(m + 8 \<mapsto> \<lparr>bsize = 64, bdata = replicate 64 0\<rparr>)) \<and>
    lpp_buf_read_fs (\<lambda>n. m) os st h (Some p) = Inr (m + 8, h(m + 8 \<mapsto> \<lparr>bsize = 64, bdata = replicate 64 0\<rparr>)) \<and>
    lpp_buf_read (\<lambda>n. m) os st h (Some p) = (m, h(m \<mapsto> \<lparr>bsize = 0, bdata = []\<rparr>))"
proof -
  obtain i where i: "fnames st p = Some i" "inodes st i = Some (Reg [])"
    using assms(1) by (auto simp: file_content_def split: option.splits inode.splits)
  then have o: "open_read os st p = Some (Reg [])" "create_file_read os st p = Some []"
    using assms(2,3) by (simp_all add: open_read_def create_file_read_def)
  then show ?thesis using assms(4,5)
    by (simp add: lpp_buf_read_min_def lpp_buf_read_fs_def lpp_buf_read_def get_file_size_def lpp_buf_alloc_min_def lpp_buf_alloc_fs_def lpp_buf_alloc_def
      in_i64_def INT64_MIN_def INT64_MAX_def Let_def)
qed

lemma buf_write_loop_all:
  assumes "\<And>n. room os n \<ge> n" "inodes st i = Some (Reg c)" "pos \<le> length bs"
  shows "buf_write_loop os st i bs pos = ((if pos < length bs then write_at st i pos (drop pos bs) else st), 0)"
  using assms by (subst buf_write_loop.simps, subst buf_write_loop.simps) (simp add: Let_def written_all)

text \<open>What \<open>lpp_buf_write\<close> leaves in the file: on Windows exactly the bytes of the buffer; on Linux, where the file is opened without \<open>O_TRUNC\<close>, a longer old file keeps its tail behind them.\<close>

theorem lpp_buf_write_fs_content:
  assumes "writable os st p" "fnames st p = None \<longrightarrow> parent_ok st p" "\<And>n. room os n \<ge> n" "h x = Some b" "x \<noteq> 0" "buf_ok b" "0 < sint (bsize b)" "sint (bsize b) < 2 ^ 32"
  shows "\<exists>st'. lpp_buf_write_min os st h (Some p) x = Inr (st', 0) \<and> file_content st' p = Some (bdata b)"
    "\<exists>st'. lpp_buf_write_fs os st h (Some p) x = Inr (st', 0) \<and> file_content st' p = Some (bdata b @ drop (length (bdata b)) (old_content False st p))"
proof -
  have n: "nat (sint (bsize b)) = length (bdata b)" using assms(6) by (simp add: buf_ok_def)
  then have ld: "load_bytes (bdata b) 0 (nat (sint (bsize b))) = Inr (bdata b)" using load_bytes_in [of 0 "length (bdata b)" "bdata b"] by simp
  have ne: "0 < length (bdata b)" using n assms(7) by linarith
  have w: "\<exists>st'. (case open_write os True t st p of None \<Rightarrow> Inr (st, - 1)
      | Some (st, i) \<Rightarrow> bind_res (load_bytes (bdata b) 0 (nat (sint (bsize b)))) (\<lambda>bs. Inr (buf_write_loop os st i bs 0))) = Inr (st', 0) \<and>
      file_content st' p = Some (splice (old_content t st p) 0 (bdata b))" for t
  proof -
    obtain st' i where o: "open_write os True t st p = Some (st', i)" "fnames st' p = Some i" "inodes st' i = Some (Reg (old_content t st p))"
      using open_write_ok [OF assms(1), of True t] assms(2) by metis
    then show ?thesis using buf_write_loop_all [OF assms(3) o(3), of 0 "bdata b"] ne ld write_at_reg [OF o(3), of 0 "bdata b"]
      by (simp add: file_content_def del: bind_res_Inr_iff)
  qed
  have "open_write os True False st p = lpp_sys_open os st p 65" by (simp only: sys_open_flags)
  then show "\<exists>st'. lpp_buf_write_fs os st h (Some p) x = Inr (st', 0) \<and> file_content st' p = Some (bdata b @ drop (length (bdata b)) (old_content False st p))"
    using w [of False] assms(4,5) by (simp add: lpp_buf_write_fs_def with_buf_def splice_0 del: bind_res_Inr_iff)
  show "\<exists>st'. lpp_buf_write_min os st h (Some p) x = Inr (st', 0) \<and> file_content st' p = Some (bdata b)"
    using w [of True] assms(4,5,8) by (simp add: lpp_buf_write_min_def with_buf_def splice_0 old_content_def del: bind_res_Inr_iff)
qed
end
