(* ===== verification/Lpp_Sys.thy ===== *)
theory Lpp_Sys
  imports Lpp_Str
begin

text \<open>
  The builtins through which a program meets its surroundings: environment variables and commands (\<^verbatim>\<open>runtime/lpp_exec.c\<close>, \<^verbatim>\<open>runtime/lpp_runtime.c\<close>), directories and paths
  (\<^verbatim>\<open>runtime/lpp_dir.c\<close>), reading a line, parsing and printing integers, and their versions in \<^verbatim>\<open>runtime/linux_x86_64_min.c\<close> (suffix \<open>_fs\<close>). What the system contributes is an
  argument: the variables of the process, the output and the wait status of a command, the entries of a directory, the waiting input.
\<close>

section \<open>Environment\<close>

text \<open>\<open>getenv\<close> and \<open>setenv\<close> keep a partial function; \<open>setenv\<close> refuses an empty name and one with an equals sign.\<close>

definition lpp_env_get :: "(int \<Rightarrow> bool) \<Rightarrow> (string \<rightharpoonup> string) \<Rightarrow> cstr \<Rightarrow> string res" where
  "lpp_env_get oom env name = (case name of None \<Rightarrow> Inr [] | Some m \<Rightarrow> (case env m of None \<Rightarrow> Inr []
     | Some val \<Rightarrow> new_str oom (int (length val) + 1) [(0, val), (length val, [CHR 0x00])]))"

definition lpp_env_set :: "(string \<rightharpoonup> string) \<Rightarrow> cstr \<Rightarrow> cstr \<Rightarrow> (string \<rightharpoonup> string) \<times> int" where
  "lpp_env_set env name value = (case name of None \<Rightarrow> (env, - 1) | Some m \<Rightarrow>
       if m = [] \<or> CHR ''='' \<in> set m then (env, - 1) else (env(m \<mapsto> or_empty value), 0))"

text \<open>The freestanding runtime keeps a linked list of overrides, newest first; a value of \<open>None\<close> hides the variable.\<close>

type_synonym overrides = "(string \<times> cstr) list"

fun override_loop :: "overrides \<Rightarrow> string \<Rightarrow> cstr \<Rightarrow> overrides option" where
  "override_loop [] name value = None"
| "override_loop ((m, v) # rest) name value = (if m = name then Some ((m, value) # rest)
     else map_option (Cons (m, v)) (override_loop rest name value))"

definition lpp_env_set_fs :: "(int \<Rightarrow> bool) \<Rightarrow> overrides \<Rightarrow> cstr \<Rightarrow> cstr \<Rightarrow> (overrides \<times> int) res" where
  "lpp_env_set_fs oom ov name value = (let no_room = (case value of None \<Rightarrow> False | Some v \<Rightarrow> oom (int (length v) + 1)) in case name of None \<Rightarrow> Inr (ov, - 1)
     | Some m \<Rightarrow> if m = [] then Inr (ov, - 1)
       else case override_loop ov m value of Some ov' \<Rightarrow> if no_room then Inl (Fault ''write through NULL'') else Inr (ov', 0)
       | None \<Rightarrow> if oom 24 \<or> oom (int (length m) + 1) \<or> no_room then Inl (Fault ''write through NULL'') else Inr ((m, value) # ov, 0))"

text \<open>The variables of the process are read from \<^verbatim>\<open>/proc/self/environ\<close> as one block of strings, each ended by a NUL: at each start compare the name and the equals sign, otherwise go behind the next NUL.\<close>

function env_scan :: "string \<Rightarrow> string \<Rightarrow> string" where
  "env_scan name buf = (if buf = [] then []
     else if take (length name + 1) buf = name @ ''='' then takeWhile (\<lambda>c. c \<noteq> CHR 0x00) (drop (length name + 1) buf)
     else env_scan name (drop 1 (dropWhile (\<lambda>c. c \<noteq> CHR 0x00) buf)))"
  by pat_completeness auto
termination
proof (relation "measure (\<lambda>(_, buf). length buf)", simp, goal_cases)
  case (1 name buf)
  have "length (dropWhile (\<lambda>c. c \<noteq> CHR 0x00) buf) \<le> length buf" by (rule length_dropWhile_le)
  moreover have "0 < length buf" using 1(1) by simp
  ultimately have "length (drop 1 (dropWhile (\<lambda>c. c \<noteq> CHR 0x00) buf)) < length buf" unfolding length_drop by linarith
  then show ?case by simp
qed

declare env_scan.simps [simp del]

text \<open>\<open>environ\<close> is \<open>None\<close> when the block cannot be opened; 32768 bytes of it are read. The result is copied without testing its allocation.\<close>

definition env_copy :: "(int \<Rightarrow> bool) \<Rightarrow> string \<Rightarrow> string res" where
  "env_copy oom s = new_str_unchecked oom (int (length s) + 1) (copy_bytes 0 s @ [(length s, [CHR 0x00])])"

definition lpp_env_get_fs :: "(int \<Rightarrow> bool) \<Rightarrow> string option \<Rightarrow> overrides \<Rightarrow> cstr \<Rightarrow> string res" where
  "lpp_env_get_fs oom environ ov name = (case name of None \<Rightarrow> env_copy oom [] | Some m \<Rightarrow> if m = [] then env_copy oom []
     else case map_of ov m of Some None \<Rightarrow> env_copy oom [] | Some (Some v) \<Rightarrow> env_copy oom v
     | None \<Rightarrow> (case environ of None \<Rightarrow> env_copy oom [] | Some e \<Rightarrow> if oom 32768 then env_copy oom [] else env_copy oom (env_scan m (take 32768 e))))"

section \<open>Commands\<close>

text \<open>The wait status has the exit code in bits 8 to 15 and the signal that ended the process in bits 0 to 6.
  \<^verbatim>\<open>lpp_runtime.c\<close> returns what \<open>system\<close> returns, the wait status; \<^verbatim>\<open>lpp_exec.c\<close> and the freestanding runtime take the exit code out of it. \<open>None\<close> is a process that could not be started or waited for.\<close>

definition lpp_command_exec :: "(string \<Rightarrow> u32 option) \<Rightarrow> cstr \<Rightarrow> int" where
  "lpp_command_exec run cmd = (case cmd of None \<Rightarrow> - 1 | Some c \<Rightarrow> (case run c of None \<Rightarrow> - 1 | Some status \<Rightarrow> sint status))"

definition lpp_command_exec_posix :: "(string \<Rightarrow> u32 option) \<Rightarrow> cstr \<Rightarrow> int" where
  "lpp_command_exec_posix run cmdline = (case cmdline of None \<Rightarrow> - 1 | Some c \<Rightarrow> (case run c of None \<Rightarrow> - 1
     | Some status \<Rightarrow> if status AND 0x7f = 0 then uint (drop_bit 8 status AND 0xff) else - 1))"

definition lpp_command_exec_fs :: "(string \<Rightarrow> u32 option) \<Rightarrow> cstr \<Rightarrow> int" where
  "lpp_command_exec_fs run cmdline = (case cmdline of None \<Rightarrow> - 1 | Some c \<Rightarrow> (case run c of None \<Rightarrow> - 1
     | Some status \<Rightarrow> if status AND 0x7f = 0 then uint (drop_bit 8 status AND 0xff) else - 1))"

text \<open>The loop of \<^verbatim>\<open>lpp_runtime.c\<close>: \<open>blk\<close> is the size of the block, \<open>buf\<close> what has been read into it, \<open>out\<close> what the command has still to write. \<open>cap\<close> is doubled before the new
  block is allocated.\<close>

function output_loop :: "(int \<Rightarrow> bool) \<Rightarrow> nat \<Rightarrow> string \<Rightarrow> string \<Rightarrow> nat \<times> string" where
  "output_loop oom cap buf out =
     (if length buf + 256 > cap \<and> (cap > 2 ^ 62 - 1 \<or> oom (int (cap * 2))) then (cap, buf)
      else let cap = (if length buf + 256 > cap then cap * 2 else cap); n = min 256 (length out)
           in if n = 0 then (cap, buf) else output_loop oom cap (buf @ take n out) (drop n out))"
  by pat_completeness auto
termination by (relation "measure (\<lambda>(_, _, _, out). length out)") auto

definition lpp_command_output :: "(int \<Rightarrow> bool) \<Rightarrow> (string \<Rightarrow> string option) \<Rightarrow> cstr \<Rightarrow> string option res" where
  "lpp_command_output oom popen cmd = (case cmd of None \<Rightarrow> if oom 1 then Inl (Fault ''write through NULL'') else Inr (Some [])
     | Some c \<Rightarrow> (case popen c of None \<Rightarrow> if oom 1 then Inl (Fault ''write through NULL'') else Inr (Some [])
       | Some out \<Rightarrow> if oom 1024 then Inr None
         else let (blk, buf) = output_loop oom 1024 [] out
              in if length buf < blk then Inr (Some buf) else Inl (Fault ''terminator outside the block'')))"

text \<open>The loop of \<^verbatim>\<open>lpp_exec.c\<close> reads as much as fits: \<open>grant k m\<close> is what \<open>read\<close> answers when \<open>k\<close> bytes have come and \<open>m\<close> are asked for. The block has \<open>cap + 1\<close> bytes; \<open>cap * 2\<close> is an \<open>int\<close>.\<close>

function output_loop_posix :: "(int \<Rightarrow> bool) \<Rightarrow> (nat \<Rightarrow> nat \<Rightarrow> nat) \<Rightarrow> nat \<Rightarrow> string \<Rightarrow> string \<Rightarrow> (nat \<times> string) res" where
  "output_loop_posix oom grant cap buf out =
     (if length buf + 1024 \<ge> cap \<and> cap * 2 \<ge> 2 ^ 31 then Inl (Fault ''signed overflow'')
      else if length buf + 1024 \<ge> cap \<and> oom (int (cap * 2) + 1) then Inr (cap, buf)
      else let cap = (if length buf + 1024 \<ge> cap then cap * 2 else cap); n = min (grant (length buf) (cap - length buf)) (length out)
           in if n = 0 then Inr (cap, buf) else if length buf + n > cap then Inl (Fault ''write outside the block'')
              else output_loop_posix oom grant cap (buf @ take n out) (drop n out))"
  by pat_completeness auto
termination by (relation "measure (\<lambda>(_, _, _, _, out). length out)") auto

definition lpp_command_output_posix :: "(int \<Rightarrow> bool) \<Rightarrow> (nat \<Rightarrow> nat \<Rightarrow> nat) \<Rightarrow> (string \<Rightarrow> string option) \<Rightarrow> cstr \<Rightarrow> string res" where
  "lpp_command_output_posix oom grant popen cmdline = (case cmdline of None \<Rightarrow> Inr [] | Some c \<Rightarrow> (case popen c of None \<Rightarrow> Inr []
     | Some out \<Rightarrow> if oom 4097 then Inr []
       else bind_res (output_loop_posix oom grant 4096 [] out) (\<lambda>(cap, buf). if length buf < cap + 1 then Inr buf else Inl (Fault ''terminator outside the block''))))"

text \<open>The freestanding loop asks for 256 bytes and does not test its allocations.\<close>

function output_loop_fs :: "(int \<Rightarrow> bool) \<Rightarrow> (nat \<Rightarrow> nat \<Rightarrow> nat) \<Rightarrow> nat \<Rightarrow> string \<Rightarrow> string \<Rightarrow> (nat \<times> string) res" where
  "output_loop_fs oom grant cap buf out =
     (if length buf + 256 \<ge> cap \<and> oom (int (cap * 2)) then Inl (Fault ''write through NULL'')
      else let cap = (if length buf + 256 \<ge> cap then cap * 2 else cap); n = min (grant (length buf) 256) (length out)
           in if n = 0 then Inr (cap, buf) else if length buf + n > cap then Inl (Fault ''write outside the block'')
              else output_loop_fs oom grant cap (buf @ take n out) (drop n out))"
  by pat_completeness auto
termination by (relation "measure (\<lambda>(_, _, _, _, out). length out)") auto

declare output_loop.simps [simp del] output_loop_posix.simps [simp del] output_loop_fs.simps [simp del]

definition lpp_command_output_fs :: "(int \<Rightarrow> bool) \<Rightarrow> (nat \<Rightarrow> nat \<Rightarrow> nat) \<Rightarrow> (string \<Rightarrow> string option) \<Rightarrow> cstr \<Rightarrow> string res" where
  "lpp_command_output_fs oom grant popen cmdline = (let empty = (if oom 1 then Inl (Fault ''write through NULL'') else Inr []) in case cmdline of None \<Rightarrow> empty
     | Some c \<Rightarrow> (case popen c of None \<Rightarrow> empty
       | Some out \<Rightarrow> if oom 1024 then Inl (Fault ''write through NULL'')
         else bind_res (output_loop_fs oom grant 1024 [] out) (\<lambda>(cap, buf). if length buf < cap then Inr buf else Inl (Fault ''terminator outside the block''))))"

section \<open>Directories and paths\<close>

definition lpp_dir_create :: "(string \<Rightarrow> bool) \<Rightarrow> cstr \<Rightarrow> int" where
  "lpp_dir_create mkdir path = (case path of None \<Rightarrow> - 1 | Some p \<Rightarrow> if mkdir p then 0 else - 1)"

text \<open>The entries in the order \<open>readdir\<close> gives them (\<open>None\<close> when the directory cannot be opened). A name that cannot be copied is left out; the list keeps the only reference of each copy.\<close>

definition lpp_dir_list :: "bool \<Rightarrow> (int \<Rightarrow> bool) \<Rightarrow> (string \<Rightarrow> string list option) \<Rightarrow> cstr \<Rightarrow> string list option" where
  "lpp_dir_list list_oom oom opendir path = (if list_oom then None
     else case path of None \<Rightarrow> Some [] | Some p \<Rightarrow> (case opendir p of None \<Rightarrow> Some []
       | Some entries \<Rightarrow> Some (concat (map (\<lambda>d_name. if d_name = ''.'' \<or> d_name = ''..'' \<or> oom (int (length d_name) + 1) then [] else [d_name]) entries))))"

text \<open>The command line is built in 4096 bytes, the last of them for the terminator.\<close>

definition remove_command :: "string \<Rightarrow> string" where
  "remove_command path = take 4095 (''rm -rf '' @ [CHR 0x22] @ path @ [CHR 0x22])"

definition lpp_dir_remove :: "(string \<Rightarrow> int) \<Rightarrow> cstr \<Rightarrow> int" where
  "lpp_dir_remove system path = (case path of None \<Rightarrow> - 1 | Some p \<Rightarrow> if system (remove_command p) = 0 then 0 else - 1)"

definition lpp_path_exists :: "(string \<Rightarrow> bool) \<Rightarrow> cstr \<Rightarrow> int" where
  "lpp_path_exists stat path = (case path of None \<Rightarrow> 0 | Some p \<Rightarrow> if stat p then 1 else 0)"

definition lpp_path_join :: "(int \<Rightarrow> bool) \<Rightarrow> cstr \<Rightarrow> cstr \<Rightarrow> string res" where
  "lpp_path_join oom base child = (let base = or_empty base; child = or_empty child; blen = length base; clen = length child;
       need_sep = (blen > 0 \<and> base ! (blen - 1) \<noteq> CHR ''/''); off = blen + (if need_sep then 1 else 0)
     in new_str oom (int blen + (if need_sep then 1 else 0) + int clen + 1)
          ((0, base) # (if need_sep then [(blen, ''/'')] else []) @ [(off, child), (off + clen, [CHR 0x00])]))"

definition lpp_path_join_win :: "(int \<Rightarrow> bool) \<Rightarrow> cstr \<Rightarrow> cstr \<Rightarrow> string res" where
  "lpp_path_join_win oom base child = (let base = or_empty base; child = or_empty child; blen = length base; clen = length child;
       need_sep = (blen > 0 \<and> base ! (blen - 1) \<noteq> CHR 0x5C \<and> base ! (blen - 1) \<noteq> CHR ''/''); off = blen + (if need_sep then 1 else 0)
     in new_str oom (int blen + (if need_sep then 1 else 0) + int clen + 1)
          ((0, base) # (if need_sep then [(blen, [CHR 0x5C])] else []) @ [(off, child), (off + clen, [CHR 0x00])]))"

section \<open>Reading and printing\<close>

text \<open>\<open>fgets\<close> takes up to 4095 bytes, through the first newline; the C string ends at a NUL. The freestanding runtime takes what one \<open>read\<close> gives it (\<open>avail\<close> bytes are waiting) and strips line ends at
  its end. Both return the rest of the input with the string.\<close>

definition gets_line :: "string \<Rightarrow> string" where
  "gets_line stdin = (let line = takeWhile (\<lambda>c. c \<noteq> CHR 0x0A) stdin in take 4095 (take (length line + 1) stdin))"

definition lpp_input :: "(int \<Rightarrow> bool) \<Rightarrow> string \<Rightarrow> cstr \<times> string" where
  "lpp_input oom stdin = (if stdin = [] then (None, stdin)
     else let buf = gets_line stdin; s = takeWhile (\<lambda>c. c \<noteq> CHR 0x00) buf; s = (if s \<noteq> [] \<and> last s = CHR 0x0A then butlast s else s)
          in (if oom (int (length s) + 1) then None else Some s, drop (length buf) stdin))"

definition lpp_input_fs :: "(int \<Rightarrow> bool) \<Rightarrow> nat \<Rightarrow> string \<Rightarrow> string res \<times> string" where
  "lpp_input_fs oom avail stdin = (let buf = take (min avail 4095) stdin; s = rev (dropWhile (\<lambda>c. c = CHR 0x0A \<or> c = CHR 0x0D) (rev buf))
     in (if oom (int (length s) + 1) then Inl (Fault ''write through NULL'') else Inr (takeWhile (\<lambda>c. c \<noteq> CHR 0x00) s), drop (length buf) stdin))"

text \<open>\<open>strtoll\<close> with its end pointer: without digits it is the start, otherwise behind the digits. The value is the unclamped one; outside the range of \<open>long long\<close> \<open>errno\<close> is \<open>ERANGE\<close>.\<close>

definition strtoll_parse :: "string \<Rightarrow> int \<times> string" where
  "strtoll_parse p = (let s = dropWhile is_c_space p; neg = (take 1 s = ''-''); t = (if take 1 s = ''-'' \<or> take 1 s = ''+'' then drop 1 s else s)
     in if takeWhile is_digit t = [] then (0, p) else (if neg then - digits_val t else digits_val t, dropWhile is_digit t))"

definition lpp_parse_int :: "cstr \<Rightarrow> int res" where
  "lpp_parse_int str = (case str of None \<Rightarrow> Inl (Panic ''Invalid integer format: empty string'')
     | Some s \<Rightarrow> if s = [] then Inl (Panic ''Invalid integer format: empty string'')
       else let p = dropWhile is_space4 s
            in if p = [] then Inl (Panic ''Invalid integer format'')
               else let (val, endptr) = strtoll_parse p
                    in if \<not> in_i64 val then Inl (Panic ''Integer overflow/underflow'')
                       else if dropWhile is_space4 endptr \<noteq> [] then Inl (Panic ''Invalid integer format'')
                       else Inr val)"

definition lpp_parse_int_fs :: "cstr \<Rightarrow> int res" where
  "lpp_parse_int_fs s = lpp_str_to_int_fs s"

text \<open>The digits are written from the end of 32 bytes; the result is what reaches the standard output.\<close>

definition lpp_print_int_fs :: "i64 \<Rightarrow> string res" where
  "lpp_print_int_fs value = (let negative = value <s 0; magnitude = (if negative then - (value + 1) + 1 else value)
     in bind_res (poke (replicate 32 CHR 0x00) 31 [CHR 0x0A]) (\<lambda>buffer.
          bind_res (itoa_loop buffer 31 (unat magnitude)) (\<lambda>(buffer, cursor).
            if negative then if cursor = 0 then Inl (Fault ''write outside the block'') else bind_res (poke buffer (cursor - 1) ''-'') (\<lambda>buffer. Inr (drop (cursor - 1) buffer))
            else Inr (drop cursor buffer))))"

section \<open>The environment\<close>

text \<open>The block of the process: one entry per variable.\<close>

definition env_block :: "(string \<times> string) list \<Rightarrow> string" where
  "env_block kvs = concat (map (\<lambda>(k, v). k @ ''='' @ v @ [CHR 0x00]) kvs)"

definition env_name :: "string \<Rightarrow> bool" where
  "env_name m \<longleftrightarrow> m \<noteq> [] \<and> CHR ''='' \<notin> set m \<and> nul_free m"

lemma takeWhile_nul [simp]: "nul_free v \<Longrightarrow> takeWhile (\<lambda>c. c \<noteq> CHR 0x00) (v @ CHR 0x00 # r) = v" "nul_free v \<Longrightarrow> dropWhile (\<lambda>c. c \<noteq> CHR 0x00) (v @ CHR 0x00 # r) = CHR 0x00 # r"
  by (auto simp: nul_free_def takeWhile_append dropWhile_append)

lemma name_prefix_iff:
  assumes "CHR ''='' \<notin> set m" "CHR ''='' \<notin> set k"
  shows "take (length m + 1) (k @ ''='' @ r) = m @ ''='' \<longleftrightarrow> k = m"
proof
  assume a: "take (length m + 1) (k @ ''='' @ r) = m @ ''=''"
  have "takeWhile (\<lambda>c. c \<noteq> CHR ''='') (take (length m + 1) (k @ ''='' @ r)) = m" unfolding a using assms(1) by (auto simp: takeWhile_append)
  moreover have "takeWhile (\<lambda>c. c \<noteq> CHR ''='') (take (length m + 1) (k @ ''='' @ r)) = take (length m + 1) k"
    using assms(2) by (auto simp: takeWhile_append take_Cons' dest: in_set_takeD)
  ultimately have t: "take (length m + 1) k = m" by simp
  then show "k = m" by (metis add.commute length_take less_add_one min.absorb3 min_def nat_neq_iff take_all_iff)
qed auto

lemma env_scan_block:
  assumes "CHR ''='' \<notin> set m" "\<forall>(k, v) \<in> set kvs. env_name k \<and> nul_free v"
  shows "env_scan m (env_block kvs) = or_empty (map_of kvs m)"
  using assms(2)
proof (induction kvs)
  case Nil
  then show ?case by (simp add: env_scan.simps env_block_def or_empty_def)
next
  case (Cons kv kvs)
  obtain k v where kv: "kv = (k, v)" by force
  let ?rest = "v @ CHR 0x00 # env_block kvs"
  have b: "env_block (kv # kvs) = k @ ''='' @ ?rest" by (simp add: env_block_def kv)
  have k: "env_name k" "nul_free v" using Cons.prems by (auto simp: kv)
  show ?case
  proof (cases "k = m")
    case True
    then show ?thesis unfolding b using k by (subst env_scan.simps) (simp add: kv or_empty_def)
  next
    case False
    then have n: "take (length m + 1) (k @ ''='' @ ?rest) \<noteq> m @ ''=''" using name_prefix_iff [of m k ?rest] assms(1) k by (simp add: env_name_def)
    have "nul_free (k @ ''='' @ v)" using k by (simp add: env_name_def)
    from takeWhile_nul(2) [OF this, of "env_block kvs"] have "drop 1 (dropWhile (\<lambda>c. c \<noteq> CHR 0x00) (k @ ''='' @ ?rest)) = env_block kvs" by simp
    then have "env_scan m (k @ ''='' @ ?rest) = env_scan m (env_block kvs)" using n by (subst env_scan.simps) (simp del: append.simps)
    then show ?thesis unfolding b using Cons False by (simp add: kv)
  qed
qed

lemma nul_free_env_scan: "nul_free (env_scan m buf)"
proof (induction m buf rule: env_scan.induct)
  case (1 name buf)
  then show ?case by (subst env_scan.simps) (auto simp: nul_free_def dest: set_takeWhileD)
qed


lemma override_loop_None: "override_loop ov m v = None \<longleftrightarrow> map_of ov m = None"
  by (induction ov m v rule: override_loop.induct) auto

lemma override_loop_Some: "override_loop ov m v = Some ov' \<Longrightarrow> map_of ov' = (map_of ov)(m \<mapsto> v)"
  by (induction ov m v arbitrary: ov' rule: override_loop.induct) (auto split: if_splits)

lemma env_set_fs_map:
  assumes "m \<noteq> []" "\<And>n. \<not> oom n"
  shows "\<exists>ov'. lpp_env_set_fs oom ov (Some m) v = Inr (ov', 0) \<and> map_of ov' = (map_of ov)(m \<mapsto> v)"
  using assms override_loop_Some [of ov m v] by (auto simp: lpp_env_set_fs_def Let_def split: option.splits)

fun env_sets :: "(string \<rightharpoonup> string) \<Rightarrow> (string \<times> cstr) list \<Rightarrow> (string \<rightharpoonup> string)" where
  "env_sets env [] = env"
| "env_sets env ((m, v) # ops) = env_sets (fst (lpp_env_set env (Some m) v)) ops"

fun env_sets_fs :: "(int \<Rightarrow> bool) \<Rightarrow> overrides \<Rightarrow> (string \<times> cstr) list \<Rightarrow> overrides res" where
  "env_sets_fs oom ov [] = Inr ov"
| "env_sets_fs oom ov ((m, v) # ops) = bind_res (lpp_env_set_fs oom ov (Some m) v) (\<lambda>(ov, _). env_sets_fs oom ov ops)"

lemma env_sets_agree:
  assumes "\<And>n. \<not> oom n" "\<forall>(m, v) \<in> set ops. env_name m"
    and "\<forall>m. env_name m \<longrightarrow> or_empty (env m) = (case map_of ov m of Some v \<Rightarrow> or_empty v | None \<Rightarrow> base m)"
  shows "\<exists>ov'. env_sets_fs oom ov ops = Inr ov' \<and> (\<forall>m. env_name m \<longrightarrow> or_empty (env_sets env ops m) = (case map_of ov' m of Some v \<Rightarrow> or_empty v | None \<Rightarrow> base m))"
  using assms(2,3)
proof (induction ops arbitrary: env ov)
  case (Cons op ops)
  obtain m v where op: "op = (m, v)" by force
  have m: "env_name m" using Cons.prems op by auto
  then obtain ov1 where o: "lpp_env_set_fs oom ov (Some m) v = Inr (ov1, 0)" "map_of ov1 = (map_of ov)(m \<mapsto> v)"
    using env_set_fs_map assms(1) by (metis env_name_def)
  have e: "fst (lpp_env_set env (Some m) v) = env(m \<mapsto> or_empty v)" using m by (simp add: lpp_env_set_def env_name_def)
  have "\<forall>m'. env_name m' \<longrightarrow> or_empty ((env(m \<mapsto> or_empty v)) m') = (case map_of ov1 m' of Some v \<Rightarrow> or_empty v | None \<Rightarrow> base m')"
    using Cons.prems(2) o(2) by (auto simp: or_empty_def)
  from Cons.IH [OF _ this] Cons.prems(1) show ?case using o e by (auto simp: op fun_upd_def)
qed auto

lemma env_sets_nul_free: "\<forall>(a, v) \<in> set ops. nul_free (or_empty v) \<Longrightarrow> nul_free (or_empty (env m)) \<Longrightarrow> nul_free (or_empty (env_sets env ops m))"
proof (induction ops arbitrary: env)
  case (Cons op ops)
  obtain a v where op: "op = (a, v)" by force
  have "or_empty (fst (lpp_env_set env (Some a) v) m) = or_empty (env m) \<or> or_empty (fst (lpp_env_set env (Some a) v) m) = or_empty v"
    by (simp add: lpp_env_set_def or_empty_def)
  then have "nul_free (or_empty (fst (lpp_env_set env (Some a) v) m))" using Cons.prems op by auto
  then show ?case using Cons op by simp
qed simp

lemma env_copy_ok: "nul_free s \<Longrightarrow> (\<And>n. \<not> oom n) \<Longrightarrow> env_copy oom s = Inr s"
  unfolding env_copy_def by (rule new_str_str(3)) auto

lemma env_get_ok: "(\<And>n. \<not> oom n) \<Longrightarrow> nul_free (or_empty (env m)) \<Longrightarrow> lpp_env_get oom env (Some m) = Inr (or_empty (env m))"
  using new_str_str(1) [of "or_empty (env m)" "int (length (or_empty (env m))) + 1" oom] by (auto simp: lpp_env_get_def or_empty_def str_result_def split: option.splits)

text \<open>Environment. After any sequence of \<open>lpp_env_set\<close> calls with proper names, the freestanding overrides in front of the block of the process answer \<open>lpp_env_get\<close> exactly like the host's environment, for a block of at
  most 32768 bytes, with memory available.\<close>

theorem lpp_env_fs_agrees:
  assumes "\<And>n. \<not> oom n" "\<forall>(k, v) \<in> set kvs. env_name k \<and> nul_free v" "length (env_block kvs) \<le> 32768"
    and "\<forall>(m, v) \<in> set ops. env_name m \<and> nul_free (or_empty v)" "env_name m"
  shows "\<exists>ov. env_sets_fs oom [] ops = Inr ov \<and> lpp_env_get_fs oom (Some (env_block kvs)) ov (Some m) = lpp_env_get oom (env_sets (map_of kvs) ops) (Some m) \<and>
    lpp_env_get oom (env_sets (map_of kvs) ops) (Some m) = Inr (or_empty (env_sets (map_of kvs) ops m))"
proof -
  let ?base = "\<lambda>m. env_scan m (env_block kvs)"
  have base: "\<forall>m. env_name m \<longrightarrow> or_empty (map_of kvs m) = (case map_of [] m of Some v \<Rightarrow> or_empty v | None \<Rightarrow> ?base m)"
    using env_scan_block [OF _ assms(2)] by (simp add: env_name_def)
  have names: "\<forall>(m, v) \<in> set ops. env_name m" using assms(4) by auto
  obtain ov where ov: "env_sets_fs oom [] ops = Inr ov"
    "or_empty (env_sets (map_of kvs) ops m) = (case map_of ov m of Some v \<Rightarrow> or_empty v | None \<Rightarrow> ?base m)"
    using env_sets_agree [of oom ops "map_of kvs" ?base "[]"] assms(1,5) names base by blast
  have "nul_free (or_empty (map_of kvs m))" using base assms(5) nul_free_env_scan by simp
  then have nf: "nul_free (or_empty (env_sets (map_of kvs) ops m))" using env_sets_nul_free [of ops "map_of kvs" m] assms(4) by auto
  have "lpp_env_get_fs oom (Some (env_block kvs)) ov (Some m) = env_copy oom (case map_of ov m of Some v \<Rightarrow> or_empty v | None \<Rightarrow> ?base m)"
    using assms(1,3,5) by (auto simp: lpp_env_get_fs_def env_name_def or_empty_def split: option.splits)
  then show ?thesis using ov nf env_copy_ok [of "or_empty (env_sets (map_of kvs) ops m)" oom] env_get_ok [of oom "env_sets (map_of kvs) ops" m] assms(1) by simp
qed

theorem lpp_env_fs_agrees_witness:
  "\<exists>ov. env_sets_fs (\<lambda>_. False) [] [(''HOME'', Some ''/db''), (''TERM'', None)] = Inr ov \<and>
     lpp_env_get_fs (\<lambda>_. False) (Some (env_block [(''TERM'', ''vt100''), (''LANG'', ''C'')])) ov (Some ''LANG'') = Inr ''C''"
proof -
  let ?e = "env_sets (map_of [(''TERM'', ''vt100''), (''LANG'', ''C'')]) [(''HOME'', Some ''/db''), (''TERM'', None)]"
  have "?e ''LANG'' = Some ''C''" by (simp add: lpp_env_set_def or_empty_def)
  with lpp_env_fs_agrees [of "\<lambda>_. False" "[(''TERM'', ''vt100''), (''LANG'', ''C'')]" "[(''HOME'', Some ''/db''), (''TERM'', None)]" "''LANG''"] show ?thesis
    by (auto simp: env_name_def or_empty_def env_block_def simp del: env_sets.simps env_sets_fs.simps)
qed

section \<open>Command output\<close>

lemma output_loop_whole:
  "256 \<le> cap \<Longrightarrow> length buf \<le> cap \<Longrightarrow> length buf + length out < 2 ^ 60 \<Longrightarrow>
     \<exists>blk. output_loop (\<lambda>_. False) cap buf out = (blk, buf @ out) \<and> length (buf @ out) < blk"
proof (induction "length out" arbitrary: cap buf out rule: less_induct)
  case less
  define cap' n where d: "cap' = (if length buf + 256 > cap then cap * 2 else cap)" "n = min 256 (length out)"
  have c: "256 \<le> cap'" "length buf + 256 \<le> cap'" using less.prems by (auto simp: d)
  have guard: "\<not> (length buf + 256 > cap \<and> cap > 2 ^ 62 - 1)" using less.prems by auto
  have n0: "n = 0 \<longleftrightarrow> out = []" by (auto simp: d(2) min_def)
  have u: "output_loop (\<lambda>_. False) cap buf out = (if out = [] then (cap', buf) else output_loop (\<lambda>_. False) cap' (buf @ take n out) (drop n out))"
    by (subst output_loop.simps) (simp only: Let_def d [symmetric] guard n0 simp_thms if_False)
  show ?case
  proof (cases "out = []")
    case True
    then show ?thesis using u c by (simp add: d)
  next
    case False
    moreover have "length (drop n out) < length out" using False by (simp add: d)
    moreover have "length (buf @ take n out) \<le> cap'" using c by (simp add: d(2))
    moreover have "length (buf @ take n out) + length (drop n out) < 2 ^ 60" using less.prems by (simp add: d(2))
    ultimately show ?thesis using less.hyps [of "drop n out" cap' "buf @ take n out"] c(1) u by (simp del: length_append)
  qed
qed

text \<open>A pipe that has data gives some of it, never more than was asked for.\<close>

definition pipe_reads :: "(nat \<Rightarrow> nat \<Rightarrow> nat) \<Rightarrow> bool" where
  "pipe_reads grant \<longleftrightarrow> (\<forall>k m. grant k m \<le> m \<and> (0 < m \<longrightarrow> 0 < grant k m))"

lemma output_loop_posix_whole:
  assumes "pipe_reads grant"
  shows "2048 \<le> cap \<Longrightarrow> length buf \<le> cap \<Longrightarrow> length buf + length out < 2 ^ 29 \<Longrightarrow>
    \<exists>blk. output_loop_posix (\<lambda>_. False) grant cap buf out = Inr (blk, buf @ out) \<and> length (buf @ out) \<le> blk"
proof (induction "length out" arbitrary: cap buf out rule: less_induct)
  case less
  define cap' where d: "cap' = (if length buf + 1024 \<ge> cap then cap * 2 else cap)"
  define g where d2: "g = grant (length buf) (cap' - length buf)"
  define n where d3: "n = min g (length out)"
  have c: "2048 \<le> cap'" "length buf < cap'" using less.prems by (auto simp: d)
  have "g \<le> cap' - length buf" "0 < g" using assms c(2) unfolding pipe_reads_def d2 by simp_all
  then have g: "0 < g" "length buf + g \<le> cap'" using c(2) by auto
  have n0: "n = 0 \<longleftrightarrow> out = []" "\<not> length buf + n > cap'" using g by (auto simp: d3 min_def)
  have guard: "\<not> (length buf + 1024 \<ge> cap \<and> cap * 2 \<ge> 2 ^ 31)" using less.prems by auto
  have u: "output_loop_posix (\<lambda>_. False) grant cap buf out = (if out = [] then Inr (cap', buf) else output_loop_posix (\<lambda>_. False) grant cap' (buf @ take n out) (drop n out))"
    by (subst output_loop_posix.simps) (simp only: Let_def d [symmetric] d2 [symmetric] d3 [symmetric] guard n0 simp_thms if_False)
  show ?case
  proof (cases "out = []")
    case True
    then show ?thesis using u c by simp
  next
    case False
    moreover have "length (drop n out) < length out" using False g(1) by (simp add: d3)
    moreover have "length (buf @ take n out) \<le> cap'" using g(2) by (simp add: d3)
    moreover have "length (buf @ take n out) + length (drop n out) < 2 ^ 29" using less.prems by (simp add: d3)
    ultimately show ?thesis using less.hyps [of "drop n out" cap' "buf @ take n out"] c(1) u by (simp del: length_append)
  qed
qed

lemma output_loop_fs_whole:
  assumes "pipe_reads grant"
  shows "256 < cap \<Longrightarrow> length buf < cap \<Longrightarrow> \<exists>blk. output_loop_fs (\<lambda>_. False) grant cap buf out = Inr (blk, buf @ out) \<and> length (buf @ out) < blk"
proof (induction "length out" arbitrary: cap buf out rule: less_induct)
  case less
  define cap' where d: "cap' = (if length buf + 256 \<ge> cap then cap * 2 else cap)"
  define g where d2: "g = grant (length buf) 256"
  define n where d3: "n = min g (length out)"
  have c: "256 < cap'" "length buf + 256 < cap'" using less.prems by (auto simp: d)
  have g: "0 < g" "g \<le> 256" using assms by (auto simp: pipe_reads_def d2)
  have n0: "n = 0 \<longleftrightarrow> out = []" "\<not> length buf + n > cap'" using g c(2) by (auto simp: d3 min_def)
  have u: "output_loop_fs (\<lambda>_. False) grant cap buf out = (if out = [] then Inr (cap', buf) else output_loop_fs (\<lambda>_. False) grant cap' (buf @ take n out) (drop n out))"
    by (subst output_loop_fs.simps) (simp only: Let_def d [symmetric] d2 [symmetric] d3 [symmetric] n0 simp_thms if_False)
  show ?case
  proof (cases "out = []")
    case True
    then show ?thesis using u c by simp
  next
    case False
    moreover have "length (drop n out) < length out" using False g(1) by (simp add: d3)
    moreover have "length (buf @ take n out) < cap'" using g(2) c(2) by (simp add: d3)
    ultimately show ?thesis using less.hyps [of "drop n out" cap' "buf @ take n out"] c(1) u by (simp del: length_append)
  qed
qed

lemma output_loop_stuck:
  "oom 2048 \<Longrightarrow> length buf \<le> 1024 \<Longrightarrow> 256 dvd length buf \<Longrightarrow> 1024 \<le> length buf + length out \<Longrightarrow>
     output_loop oom 1024 buf out = (1024, take 1024 (buf @ out))"
proof (induction "length out" arbitrary: buf out rule: less_induct)
  case less
  show ?case
  proof (cases "length buf = 1024")
    case True
    then show ?thesis using less.prems by (subst output_loop.simps) simp
  next
    case False
    then have l: "length buf + 256 \<le> 1024" using less.prems(2,3) by (auto elim!: dvdE)
    then have n: "min 256 (length out) = 256" using less.prems(4) by simp
    have "output_loop oom 1024 (buf @ take 256 out) (drop 256 out) = (1024, take 1024 ((buf @ take 256 out) @ drop 256 out))"
    proof (rule less.hyps)
      show "length (drop 256 out) < length out" using n by simp
    qed (use less.prems l n in auto)
    then show ?thesis using l n by (subst output_loop.simps) (simp add: Let_def)
  qed
qed

text \<open>Command output. With memory available and a pipe that gives what it has, all three versions return the whole output of a command, however the reads cut it, inside their blocks. When memory runs out at the first
  doubling, the host version writes the terminator of an output of at least 1024 bytes behind its block.\<close>

theorem lpp_command_output_whole:
  assumes "pipe_reads grant" "popen c = Some out" "length out < 2 ^ 29"
  shows "lpp_command_output (\<lambda>_. False) popen (Some c) = Inr (Some out) \<and> lpp_command_output_posix (\<lambda>_. False) grant popen (Some c) = Inr out \<and>
    lpp_command_output_fs (\<lambda>_. False) grant popen (Some c) = Inr out \<and>
    (1024 \<le> length out \<longrightarrow> lpp_command_output (\<lambda>n. n > 2000) popen (Some c) = Inl (Fault ''terminator outside the block''))"
proof (intro conjI impI)
  show "lpp_command_output (\<lambda>_. False) popen (Some c) = Inr (Some out)"
    using output_loop_whole [of 1024 "[]" out] assms by (auto simp: lpp_command_output_def)
  show "lpp_command_output_posix (\<lambda>_. False) grant popen (Some c) = Inr out"
  proof -
    obtain blk where "output_loop_posix (\<lambda>_. False) grant 4096 [] out = Inr (blk, out)" "length out \<le> blk"
      using output_loop_posix_whole [OF assms(1), of 4096 "[]" out] assms(3) by auto
    then show ?thesis using assms(2) by (simp add: lpp_command_output_posix_def)
  qed
  show "lpp_command_output_fs (\<lambda>_. False) grant popen (Some c) = Inr out"
    using output_loop_fs_whole [OF assms(1), of 1024 "[]" out] assms by (auto simp: lpp_command_output_fs_def)
  show "lpp_command_output (\<lambda>n. n > 2000) popen (Some c) = Inl (Fault ''terminator outside the block'')" if "1024 \<le> length out"
    using output_loop_stuck [of "\<lambda>n. n > 2000" "[]" out] that assms by (simp add: lpp_command_output_def)
qed

theorem lpp_command_output_whole_witness:
  "lpp_command_output_fs (\<lambda>_. False) (\<lambda>_ m. min m 1) (\<lambda>_. Some ''ok'') (Some ''echo -n ok'') = Inr ''ok''"
  using lpp_command_output_whole [of "\<lambda>_ m. min m 1" "\<lambda>_. Some ''ok''" "''echo -n ok''" "''ok''"] by (simp add: pipe_reads_def)

text \<open>The exit code 1 is the wait status 256, which is what the host reports.\<close>

lemma lpp_command_exec_status:
  "lpp_command_exec (\<lambda>_. Some 0x100) (Some c) = 256" "lpp_command_exec_posix (\<lambda>_. Some 0x100) (Some c) = 1" "lpp_command_exec_fs (\<lambda>_. Some 0x100) (Some c) = 1"
  by (simp_all add: lpp_command_exec_def lpp_command_exec_posix_def lpp_command_exec_fs_def sint_uint drop_bit_eq_div flip: take_bit_eq_mask)

lemma lpp_command_exec_posix_eq_fs: "lpp_command_exec_posix = lpp_command_exec_fs"
  by (simp add: fun_eq_iff lpp_command_exec_posix_def lpp_command_exec_fs_def)

section \<open>Integers as text\<close>

lemma space4_facts: "is_space4 c \<Longrightarrow> is_c_space c \<and> \<not> is_digit c \<and> c \<noteq> CHR ''-'' \<and> c \<noteq> CHR ''+''"
  by (auto simp: is_space4_def is_c_space_def is_digit_def char_code_def)

lemma dropWhile_space4 [simp]: "\<forall>c \<in> set ws. is_space4 c \<Longrightarrow> dropWhile is_space4 (ws @ s) = dropWhile is_space4 s"
  by (induction ws) auto

lemma print_int_start: "\<exists>c r. print_int v = c # r \<and> \<not> is_c_space c \<and> \<not> is_space4 c"
proof -
  obtain c r where p: "print_base 10 (nat v) = c # r" "is_digit c" using print_base_hd by blast
  then have "\<not> is_space4 c" "\<not> is_c_space c" using space4_facts digit_not_special by blast+
  moreover have "\<not> is_space4 CHR ''-''" "\<not> is_c_space CHR ''-''" by (simp_all add: is_space4_def is_c_space_def char_code_def)
  ultimately show ?thesis using p by (auto simp: print_int_def)
qed

lemma digits_val_append: "r = [] \<or> \<not> is_digit (hd r) \<Longrightarrow> digits_val (print_base 10 n @ r) = int n \<and> takeWhile is_digit (print_base 10 n @ r) = print_base 10 n \<and> dropWhile is_digit (print_base 10 n @ r) = r"
proof -
  assume r: "r = [] \<or> \<not> is_digit (hd r)"
  have d: "\<forall>c \<in> set (print_base 10 n). is_digit c" using print_base_10_digits by blast
  have t: "takeWhile is_digit (print_base 10 n @ r) = print_base 10 n" "dropWhile is_digit (print_base 10 n @ r) = r"
    using d r by (cases r; simp add: takeWhile_append dropWhile_append)+
  then show ?thesis by (simp add: digits_val_def foldl_digits)
qed

lemma strtoll_parse_print: "r = [] \<or> \<not> is_digit (hd r) \<Longrightarrow> strtoll_parse (print_int v @ r) = (v, r)"
proof -
  assume r: "r = [] \<or> \<not> is_digit (hd r)"
  obtain c q where p: "print_int v = c # q" "\<not> is_c_space c" using print_int_start by blast
  have s: "dropWhile is_c_space (print_int v @ r) = print_int v @ r" using p by simp
  show ?thesis
  proof (cases "v < 0")
    case True
    then show ?thesis using digits_val_append [OF r, of "nat (- v)"] print_base_nonempty [of 10 "nat (- v)"] s
      by (simp add: strtoll_parse_def print_int_def)
  next
    case False
    obtain c' q' where c: "print_base 10 (nat v) = c' # q'" "is_digit c'" using print_base_hd by blast
    then have "c' \<noteq> CHR ''-''" "c' \<noteq> CHR ''+''" using digit_not_special by blast+
    then show ?thesis using False digits_val_append [OF r, of "nat v"] s c by (simp add: strtoll_parse_def print_int_def)
  qed
qed

lemma lpp_parse_int_print:
  assumes "\<forall>c \<in> set ws. is_space4 c" "r = [] \<or> \<not> is_digit (hd r)"
  shows "lpp_parse_int (Some (ws @ print_int v @ r)) = (if \<not> in_i64 v then Inl (Panic ''Integer overflow/underflow'')
    else if dropWhile is_space4 r \<noteq> [] then Inl (Panic ''Invalid integer format'') else Inr v)"
proof -
  obtain c q where p: "print_int v = c # q" "\<not> is_space4 c" using print_int_start by blast
  then have "dropWhile is_space4 (ws @ print_int v @ r) = print_int v @ r" using assms(1) by simp
  then show ?thesis using strtoll_parse_print [OF assms(2), of v] p(1) by (simp add: lpp_parse_int_def)
qed

lemma digits_loop_print: "int n \<le> INT64_MAX \<Longrightarrow> r = [] \<or> \<not> is_digit (hd r) \<Longrightarrow> digits_loop 0 (print_base 10 n @ r) = Inr (int n)"
  using digits_loop_ok [of 0 "print_base 10 n @ r"] digits_val_append [of r n] by (simp add: foldl_digits)

lemma lpp_parse_int_fs_print:
  assumes "in_i64 v" "v \<noteq> INT64_MIN" "r = [] \<or> \<not> is_digit (hd r)"
  shows "lpp_parse_int_fs (Some (print_int v @ r)) = Inr v"
proof (cases "v < 0")
  case True
  then have "digits_loop 0 (print_base 10 (nat (- v)) @ r) = Inr (- v)" using digits_loop_print [of "nat (- v)" r] assms
    by (simp add: in_i64_def INT64_MIN_def INT64_MAX_def)
  then show ?thesis using True by (simp add: lpp_parse_int_fs_def lpp_str_to_int_fs_def print_int_def)
next
  case False
  then have d: "digits_loop 0 (print_base 10 (nat v) @ r) = Inr v" using digits_loop_print [of "nat v" r] assms by (simp add: in_i64_def)
  obtain c q where p: "print_base 10 (nat v) = c # q" "is_digit c" using print_base_hd by blast
  show ?thesis using False d digit_not_special [OF p(2)] unfolding lpp_parse_int_fs_def lpp_str_to_int_fs_def print_int_def p(1) by simp
qed

text \<open>Parsing integers. The host accepts a printed integer between blanks, returns it exactly, and panics on anything behind it and on every integer that does not fit 64 bits; the freestanding parser stops silently at the first other
  character.\<close>

theorem lpp_parse_int_strict:
  assumes "\<forall>c \<in> set ws. is_space4 c" "\<forall>c \<in> set ws'. is_space4 c" "\<not> is_digit c" "\<not> is_space4 c"
  shows "(in_i64 v \<longrightarrow> lpp_parse_int (Some (ws @ print_int v @ ws')) = Inr v) \<and>
    (\<not> in_i64 v \<longrightarrow> lpp_parse_int (Some (ws @ print_int v @ ws')) = Inl (Panic ''Integer overflow/underflow'')) \<and>
    (in_i64 v \<longrightarrow> lpp_parse_int (Some (ws @ print_int v @ ws' @ c # r)) = Inl (Panic ''Invalid integer format'')) \<and>
    (in_i64 v \<and> v \<noteq> INT64_MIN \<longrightarrow> lpp_parse_int_fs (Some (print_int v @ c # r)) = Inr v)"
proof -
  have w: "ws' = [] \<or> \<not> is_digit (hd ws')" "ws' @ c # r = [] \<or> \<not> is_digit (hd (ws' @ c # r))" using assms(2,3) space4_facts by (cases ws'; auto)+
  have e: "dropWhile is_space4 ws' = []" "dropWhile is_space4 (ws' @ c # r) \<noteq> []" using assms(2,4) by auto
  have "lpp_parse_int_fs (Some (print_int v @ c # r)) = Inr v" if "in_i64 v" "v \<noteq> INT64_MIN"
    using lpp_parse_int_fs_print [OF that, of "c # r"] assms(3) by simp
  then show ?thesis using lpp_parse_int_print [OF assms(1) w(1), of v] lpp_parse_int_print [OF assms(1) w(2), of v] e by simp
qed

theorem lpp_parse_int_strict_witness:
  "lpp_parse_int (Some ('' '' @ print_int 42 @ [CHR 0x0A])) = Inr 42 \<and> lpp_parse_int (Some ([] @ print_int 42 @ [] @ ''x'')) = Inl (Panic ''Invalid integer format'') \<and>
   lpp_parse_int_fs (Some (print_int 42 @ ''x'')) = Inr 42"
proof -
  have c: "\<not> is_digit CHR ''x''" "\<not> is_space4 CHR ''x''" "in_i64 42" "(42 :: int) \<noteq> INT64_MIN" "\<forall>c \<in> set '' ''. is_space4 c" "\<forall>c \<in> set [CHR 0x0A]. is_space4 c"
    by (simp_all add: is_digit_def is_space4_def in_i64_def INT64_MIN_def INT64_MAX_def)
  show ?thesis using lpp_parse_int_strict [OF c(5,6,1,2), of 42 "[]"] lpp_parse_int_strict [of "[]" "[]", OF _ _ c(1,2), of 42 "[]"] c(3,4) by simp
qed

text \<open>The freestanding \<open>lpp_print_int\<close> prints every integer, the smallest included, inside its 32 bytes.\<close>

lemma uint_word_of_int_64: "0 \<le> x \<Longrightarrow> x < 2 ^ 64 \<Longrightarrow> uint (word_of_int x :: i64) = x"
  by (simp add: uint_word_of_int)

lemma magnitude_unat:
  assumes "sint (val :: i64) < 0"
  shows "unat (- (val + 1) + 1) = nat (- sint val)"
proof -
  have "- (val + 1) + 1 = - val" by simp
  moreover have "uint (- val) = - sint val"
  proof -
    have "- val = word_of_int (- sint val)" by simp
    moreover have "0 \<le> - sint val" "- sint val < 2 ^ 64" using assms sint_range_64 [of val] by (auto simp: INT64_MIN_def)
    ultimately show ?thesis using uint_word_of_int_64 [of "- sint val"] by simp
  qed
  ultimately show ?thesis by (simp add: unat_eq_nat_uint)
qed

theorem lpp_print_int_fs_ok: "lpp_print_int_fs val = Inr (print_int (sint val) @ [CHR 0x0A])"
proof -
  let ?p = "print_base 10 (nat \<bar>sint val\<bar>)" and ?k = "31 - length (print_base 10 (nat \<bar>sint val\<bar>))"
  have l: "length ?p \<le> 19" by (rule length_print_int) simp
  have b: "poke (replicate 32 CHR 0x00) 31 [CHR 0x0A] = Inr (replicate 31 CHR 0x00 @ [CHR 0x0A])" by (simp add: poke_def)
  have it: "itoa_loop (replicate 31 CHR 0x00 @ [CHR 0x0A]) 31 (nat \<bar>sint val\<bar>) = Inr (replicate ?k CHR 0x00 @ ?p @ [CHR 0x0A], ?k)"
    using l by (intro itoa_loop_ok) simp
  show ?thesis
  proof (cases "sint val < 0")
    case True
    have k: "?k = Suc (?k - 1)" using l by simp
    then have "replicate ?k CHR 0x00 = replicate (?k - 1) CHR 0x00 @ [CHR 0x00]" by (metis replicate_Suc replicate_append_same)
    then have "poke (replicate ?k CHR 0x00 @ ?p @ [CHR 0x0A]) (?k - 1) ''-'' = Inr (replicate (?k - 1) CHR 0x00 @ ''-'' @ ?p @ [CHR 0x0A])"
      using poke_append [of "''-''" "CHR 0x00 # ?p @ [CHR 0x0A]" "replicate (?k - 1) CHR 0x00"] by simp
    moreover have "unat (- (val + 1) + 1) = nat \<bar>sint val\<bar>" using magnitude_unat [OF True] True by simp
    moreover have "print_int (sint val) = CHR ''-'' # ?p" using True by (simp add: print_int_def)
    ultimately show ?thesis using True b it k by (simp add: lpp_print_int_fs_def word_sless_alt)
  next
    case False
    then have "unat val = nat \<bar>sint val\<bar>" using unat_eq_sint_64 [of val] by simp
    moreover have "print_int (sint val) = ?p" using False by (simp add: print_int_def)
    ultimately show ?thesis using False b it by (simp add: lpp_print_int_fs_def word_sless_alt)
  qed
qed

section \<open>Paths and input\<close>

lemma lpp_path_join_text:
  assumes "nul_free b" "nul_free c" "\<And>n. \<not> oom n"
  shows "lpp_path_join oom (Some b) (Some c) = Inr (b @ (if b = [] \<or> last b = CHR ''/'' then [] else ''/'') @ c)"
proof -
  let ?s = "b @ (if b = [] \<or> last b = CHR ''/'' then [] else ''/'') @ c"
  have n: "nul_free ?s" using assms by auto
  have l: "b \<noteq> [] \<Longrightarrow> b ! (length b - 1) = last b" by (simp add: last_conv_nth)
  show ?thesis
  proof (cases "b = [] \<or> last b = CHR ''/''")
    case True
    then show ?thesis using assms(3) l n c_string_app [of "b @ c" "[]"] by (auto simp: lpp_path_join_def or_empty_def Let_def new_str_def arc_block_def poke_def nat_add_distrib)
  next
    case False
    then show ?thesis using assms(3) l n c_string_app [of "b @ CHR ''/'' # c" "[]"] by (auto simp: lpp_path_join_def or_empty_def Let_def new_str_def arc_block_def poke_def nat_add_distrib)
  qed
qed

text \<open>Joining is associative around a middle part that is not empty.\<close>

theorem lpp_path_join_assoc:
  assumes "nul_free a" "nul_free b" "nul_free c" "b \<noteq> []" "\<And>n. \<not> oom n"
  shows "bind_res (lpp_path_join oom (Some a) (Some b)) (\<lambda>ab. lpp_path_join oom (Some ab) (Some c)) =
    bind_res (lpp_path_join oom (Some b) (Some c)) (\<lambda>bc. lpp_path_join oom (Some a) (Some bc))"
  using assms by (auto simp: lpp_path_join_text)

lemma remove_command_whole: "length p \<le> 4086 \<Longrightarrow> remove_command p = ''rm -rf '' @ [CHR 0x22] @ p @ [CHR 0x22]"
  by (simp add: remove_command_def)

lemma lpp_dir_list_entries:
  assumes "\<And>n. \<not> oom n" "opendir p = Some entries"
  shows "lpp_dir_list False oom opendir (Some p) = Some (filter (\<lambda>e. e \<noteq> ''.'' \<and> e \<noteq> ''..'') entries)"
proof -
  have "concat (map (\<lambda>e. if e = ''.'' \<or> e = ''..'' \<or> oom (int (length e) + 1) then [] else [e]) es) = filter (\<lambda>e. e \<noteq> ''.'' \<and> e \<noteq> ''..'') es" for es
    using assms(1) by (induction es) auto
  then show ?thesis using assms(2) by (simp add: lpp_dir_list_def)
qed

text \<open>Two lines that are waiting together: the host returns the first, the freestanding runtime both as one string.\<close>

lemma lpp_input_lines:
  assumes "nul_free l" "nul_free k" "CHR 0x0A \<notin> set l" "length l < 4095" "length (l @ CHR 0x0A # k) \<le> 4095" "k \<noteq> []" "last k \<noteq> CHR 0x0A" "last k \<noteq> CHR 0x0D"
  shows "lpp_input (\<lambda>_. False) (l @ CHR 0x0A # k) = (Some l, k)"
    and "lpp_input_fs (\<lambda>_. False) (length (l @ CHR 0x0A # k)) (l @ CHR 0x0A # k) = (Inr (l @ CHR 0x0A # k), [])"
proof -
  have "gets_line (l @ CHR 0x0A # k) = l @ [CHR 0x0A]" using assms(3,4) by (simp add: gets_line_def takeWhile_append Let_def)
  moreover have "takeWhile (\<lambda>c. c \<noteq> CHR 0x00) (l @ [CHR 0x0A]) = l @ [CHR 0x0A]" using assms(1) by (auto simp: nul_free_def takeWhile_append)
  ultimately show "lpp_input (\<lambda>_. False) (l @ CHR 0x0A # k) = (Some l, k)" by (simp add: lpp_input_def)
  obtain k' x where k: "k = k' @ [x]" using assms(6) by (cases k rule: rev_cases) auto
  have "takeWhile (\<lambda>c. c \<noteq> CHR 0x00) (l @ CHR 0x0A # k) = l @ CHR 0x0A # k" using assms(1,2) by (auto simp: nul_free_def)
  then show "lpp_input_fs (\<lambda>_. False) (length (l @ CHR 0x0A # k)) (l @ CHR 0x0A # k) = (Inr (l @ CHR 0x0A # k), [])"
    using assms(5,7,8) by (simp add: lpp_input_fs_def k)
qed

end
