(* ===== verification/Lpp_Min_Sys.thy ===== *)
theory Lpp_Min_Sys
  imports Lpp_Sys Lpp_Clock
begin

text \<open>
  Text and system builtins of the freestanding Windows runtime (\<^verbatim>\<open>runtime/windows_x86_64_min.c\<close>, suffix \<open>_min\<close>): strings, numbers and text, environment, commands, directories, random numbers, clocks, and
  the stubs both freestanding runtimes have in their place. Where the statements are those of the host builtin the definition is the host one; where the C library is replaced by loops of the runtime the loops are written out. What
  the system answers is an argument. Lengths are \<open>int\<close> in the code: strings stay below \<open>2 ^ 31\<close> bytes.
\<close>

section \<open>Strings\<close>

text \<open>\<open>while (*h) { match at h; if (i == nl) return h; h++; }\<close>; an empty needle is found at once.\<close>

function strstr_min_loop :: "string \<Rightarrow> string \<Rightarrow> nat \<Rightarrow> nat option res" where
  "strstr_min_loop h n i = (if i < length h
     then bind_res (match_loop h n i 0) (\<lambda>j. if j = length n then Inr (Some i) else strstr_min_loop h n (Suc i))
     else Inr None)"
  by pat_completeness auto
termination by (relation "measure (\<lambda>(h, _, i). length h - i)") auto

declare strstr_min_loop.simps [simp del]

definition lpp_strstr_min :: "string \<Rightarrow> string \<Rightarrow> nat option res" where
  "lpp_strstr_min h n = (if n = [] then Inr (Some 0) else strstr_min_loop h n 0)"

definition lpp_str_concat_min :: "(int \<Rightarrow> bool) \<Rightarrow> cstr \<Rightarrow> cstr \<Rightarrow> string res" where
  "lpp_str_concat_min = lpp_str_concat"

text \<open>A length that overflows ends the process.\<close>

definition lpp_str_repeat_min :: "(int \<Rightarrow> bool) \<Rightarrow> cstr \<Rightarrow> int \<Rightarrow> string res" where
  "lpp_str_repeat_min oom s n = (case s of None \<Rightarrow> Inr []
   | Some s \<Rightarrow> if n \<le> 0 \<or> s = [] then Inr []
       else let slen = length s
            in if int slen > INT64_MAX div n then Inl (Exited 101)
               else let total = slen * nat n
                    in new_str oom (int total + 1) (map (\<lambda>i. (i * slen, s)) [0..<nat n] @ [(total, [CHR 0x00])]))"

definition lpp_str_split_min :: "bool \<Rightarrow> (int \<Rightarrow> bool) \<Rightarrow> cstr \<Rightarrow> i64 \<Rightarrow> string list option" where
  "lpp_str_split_min = lpp_str_split"

definition lpp_str_find_min :: "cstr \<Rightarrow> cstr \<Rightarrow> int res" where
  "lpp_str_find_min h n = (case (h, n) of
     (Some h, Some n) \<Rightarrow> bind_res (lpp_strstr_min h n) (\<lambda>f. Inr (case f of None \<Rightarrow> - 1 | Some i \<Rightarrow> int i))
   | _ \<Rightarrow> Inr (- 1))"

text \<open>The two passes of \<open>lpp_str_replace\<close>, each a loop around \<open>lpp_strstr\<close>.\<close>

function count_min_loop :: "string \<Rightarrow> string \<Rightarrow> nat \<Rightarrow> nat res" where
  "count_min_loop old sc fuel = (if fuel = 0 then Inl (Fault ''loop without end'') else bind_res (lpp_strstr_min sc old) (\<lambda>f. case f of None \<Rightarrow> Inr 0
     | Some i \<Rightarrow> bind_res (count_min_loop old (drop (i + length old) sc) (fuel - 1)) (\<lambda>c. Inr (Suc c))))"
  by pat_completeness auto
termination by (relation "measure (\<lambda>(_, _, fuel). fuel)") auto

function replace_min_loop :: "string \<Rightarrow> string \<Rightarrow> string \<Rightarrow> nat \<Rightarrow> string \<Rightarrow> nat \<Rightarrow> string res" where
  "replace_min_loop old nw ou d sr fuel = (if fuel = 0 then Inl (Fault ''loop without end'') else if sr = [] then Inr ou
     else bind_res (lpp_strstr_min sr old) (\<lambda>f. case f of None \<Rightarrow> poke ou d (sr @ [CHR 0x00])
       | Some pfx \<Rightarrow> bind_res (poke ou d (take pfx sr)) (\<lambda>ou. bind_res (poke ou (d + pfx) nw) (\<lambda>ou.
           replace_min_loop old nw ou (d + pfx + length nw) (drop (pfx + length old) sr) (fuel - 1)))))"
  by pat_completeness auto
termination by (relation "measure (\<lambda>(_, _, _, _, _, fuel). fuel)") auto

declare count_min_loop.simps [simp del] replace_min_loop.simps [simp del]

text \<open>Each round consumes at least one character: \<open>length s + 1\<close> rounds are enough.\<close>

definition lpp_str_replace_min :: "(int \<Rightarrow> bool) \<Rightarrow> cstr \<Rightarrow> cstr \<Rightarrow> cstr \<Rightarrow> string res" where
  "lpp_str_replace_min oom s old nw = (let s = or_empty s in
     case old of None \<Rightarrow> new_str oom (int (length s) + 1) [(0, s), (length s, [CHR 0x00])]
     | Some [] \<Rightarrow> new_str oom (int (length s) + 1) [(0, s), (length s, [CHR 0x00])]
     | Some old \<Rightarrow> let nw = or_empty nw in bind_res (count_min_loop old s (length s + 1)) (\<lambda>c.
         let delta = int (length nw) - int (length old)
         in if \<not> in_i64 (int c * delta) then Inl (Fault ''signed overflow'')
            else if c > 0 \<and> delta > 0 \<and> int (length s) > INT64_MAX - int c * delta then Inl (Exited 101)
            else let ol2 = int (length s) + int c * delta; ol2 = (if ol2 < 0 then 0 else ol2)
                 in case arc_block oom (ol2 + 1) of None \<Rightarrow> Inr [] | Some ou \<Rightarrow> bind_res (replace_min_loop old nw ou 0 s (length s + 1)) c_string))"

definition lpp_str_substr_min :: "(int \<Rightarrow> bool) \<Rightarrow> cstr \<Rightarrow> int \<Rightarrow> int \<Rightarrow> string res" where
  "lpp_str_substr_min = lpp_str_substr"

definition lpp_str_trim_min :: "(int \<Rightarrow> bool) \<Rightarrow> cstr \<Rightarrow> string res" where
  "lpp_str_trim_min = lpp_str_trim"

definition lpp_char_at_min :: "(int \<Rightarrow> bool) \<Rightarrow> cstr \<Rightarrow> int \<Rightarrow> string res" where
  "lpp_char_at_min oom s idx = (case s of None \<Rightarrow> new_str_unchecked oom 2 [(0, [CHR 0x00])]
   | Some s \<Rightarrow> if idx < 0 \<or> idx \<ge> int (length s) then new_str_unchecked oom 2 [(0, [CHR 0x00])]
       else new_str_unchecked oom 2 [(0, [s ! nat idx]), (1, [CHR 0x00])])"

definition lpp_ord_min :: "cstr \<Rightarrow> int" where
  "lpp_ord_min = lpp_ord"

definition lpp_chr_min :: "(int \<Rightarrow> bool) \<Rightarrow> i64 \<Rightarrow> string res" where
  "lpp_chr_min = lpp_chr"

definition lpp_str_contains_min :: "cstr \<Rightarrow> cstr \<Rightarrow> int res" where
  "lpp_str_contains_min h n = bind_res (lpp_str_find_min h n) (\<lambda>r. Inr (if r \<ge> 0 then 1 else 0))"

definition lpp_str_starts_with_min :: "cstr \<Rightarrow> cstr \<Rightarrow> int res" where
  "lpp_str_starts_with_min = lpp_str_starts_with_fs"

definition lpp_str_ends_with_min :: "cstr \<Rightarrow> cstr \<Rightarrow> int res" where
  "lpp_str_ends_with_min = lpp_str_ends_with_fs"

text \<open>A NULL argument gives the shared empty string; the block of the result is not tested.\<close>

definition lpp_str_upper_min :: "(int \<Rightarrow> bool) \<Rightarrow> cstr \<Rightarrow> string res" where
  "lpp_str_upper_min oom s = (case s of None \<Rightarrow> Inr [] | Some s \<Rightarrow> new_str_unchecked oom (int (length s) + 1) (copy_bytes 0 (map to_upper s) @ [(length s, [CHR 0x00])]))"

definition lpp_str_lower_min :: "(int \<Rightarrow> bool) \<Rightarrow> cstr \<Rightarrow> string res" where
  "lpp_str_lower_min oom s = (case s of None \<Rightarrow> Inr [] | Some s \<Rightarrow> new_str_unchecked oom (int (length s) + 1) (copy_bytes 0 (map to_lower s) @ [(length s, [CHR 0x00])]))"

text \<open>\<open>lpp_memcpy\<close> does nothing for a NULL destination, so a failed allocation is returned as NULL.\<close>

definition lpp_int_to_str_min :: "(int \<Rightarrow> bool) \<Rightarrow> i64 \<Rightarrow> cstr res" where
  "lpp_int_to_str_min oom val = (let neg = sint val < 0 in
     if sint val = INT64_MIN then Inl (Fault ''signed overflow'')
     else bind_res (itoa_loop (replicate 24 CHR 0x00) 23 (nat \<bar>sint val\<bar>)) (\<lambda>(buf, i).
       bind_res (if neg then (if i = 0 then Inl (Fault ''write outside the block'')
                              else bind_res (poke buf (i - 1) ''-'') (\<lambda>buf. Inr (buf, i - 1))) else Inr (buf, i)) (\<lambda>(buf, i).
         let ln = 23 - i
         in case arc_block oom (int ln + 1) of None \<Rightarrow> Inr None
            | Some out \<Rightarrow> bind_res (poke out 0 (take (ln + 1) (drop i buf))) (\<lambda>out. some_str (c_string out)))))"

definition lpp_str_to_int_min :: "cstr \<Rightarrow> int res" where
  "lpp_str_to_int_min = lpp_str_to_int_fs"

definition lpp_parse_int_min :: "cstr \<Rightarrow> int res" where
  "lpp_parse_int_min s = lpp_str_to_int_min s"

definition lpp_bool_to_str_min :: "(int \<Rightarrow> bool) \<Rightarrow> u8 \<Rightarrow> string res" where
  "lpp_bool_to_str_min oom val = (let str = (if val \<noteq> 0 then ''true'' else ''false'')
     in new_str oom (int (length str) + 1) [(0, str), (length str, [CHR 0x00])])"

definition lpp_str_eq_min :: "cstr \<Rightarrow> cstr \<Rightarrow> int" where
  "lpp_str_eq_min = lpp_str_eq"

definition lpp_str_cmp_min :: "cstr \<Rightarrow> cstr \<Rightarrow> int" where
  "lpp_str_cmp_min = lpp_str_cmp_fs"

section \<open>Printing and reading\<close>

definition lpp_print_int_min :: "i64 \<Rightarrow> string res" where
  "lpp_print_int_min = lpp_print_int_fs"

definition lpp_print_bool_min :: "u8 \<Rightarrow> string res" where
  "lpp_print_bool_min val = lpp_print_int_min (if val \<noteq> 0 then 1 else 0)"

definition lpp_print_str_min :: "cstr \<Rightarrow> string" where
  "lpp_print_str_min t = (case t of None \<Rightarrow> [] | Some t \<Rightarrow> t @ [CHR 0x0A])"

definition lpp_write_str_min :: "cstr \<Rightarrow> string" where
  "lpp_write_str_min t = or_empty t"

text \<open>One \<open>ReadFile\<close> of up to 4095 bytes (\<open>avail\<close> are waiting); one line feed and one carriage return are taken off its end.\<close>

definition lpp_input_min :: "(int \<Rightarrow> bool) \<Rightarrow> nat \<Rightarrow> string \<Rightarrow> string res \<times> string" where
  "lpp_input_min oom avail stdin = (let buf = take (min avail 4095) stdin;
       s = (if buf \<noteq> [] \<and> last buf = CHR 0x0A then butlast buf else buf);
       s = (if s \<noteq> [] \<and> last s = CHR 0x0D then butlast s else s)
     in (if oom (int (length s) + 1) then Inl (Fault ''write through NULL'') else Inr (takeWhile (\<lambda>c. c \<noteq> CHR 0x00) s), drop (length buf) stdin))"

section \<open>Environment and commands\<close>

text \<open>\<open>GetEnvironmentVariableA\<close> into 4096 bytes: the length of the value, or the room it needs when it does not fit; both that and an empty value give the empty string.\<close>

definition lpp_env_get_min :: "(int \<Rightarrow> bool) \<Rightarrow> (string \<rightharpoonup> string) \<Rightarrow> cstr \<Rightarrow> string res" where
  "lpp_env_get_min oom env name = (case name of None \<Rightarrow> Inr [] | Some m \<Rightarrow> (case env m of None \<Rightarrow> Inr []
     | Some v \<Rightarrow> if v = [] \<or> length v + 1 > 4096 then Inr [] else new_str oom (int (length v) + 1) [(0, v), (length v, [CHR 0x00])]))"

definition lpp_env_set_min :: "(string \<rightharpoonup> string) \<Rightarrow> cstr \<Rightarrow> cstr \<Rightarrow> (string \<rightharpoonup> string) \<times> int" where
  "lpp_env_set_min env name v = (case name of None \<Rightarrow> (env, - 1) | Some m \<Rightarrow>
       if m = [] \<or> CHR ''='' \<in> set m then (env, - 1) else (env(m \<mapsto> or_empty v), 0))"

definition lpp_command_exec_min :: "(int \<Rightarrow> bool) \<Rightarrow> (string \<Rightarrow> u32 option) \<Rightarrow> cstr \<Rightarrow> int" where
  "lpp_command_exec_min valloc_fails run cmd = (case cmd of None \<Rightarrow> - 1 | Some c \<Rightarrow> if c = [] \<or> valloc_fails (int (length c) + 1) then - 1
     else case run c of None \<Rightarrow> - 1 | Some ec \<Rightarrow> sint ec)"

text \<open>The \<open>STARTUPINFOA\<close> of the child: 104 zeroed bytes into which the code writes words at byte offsets. On x86-64 \<open>dwFlags\<close> is at 60, \<open>wShowWindow\<close> and \<open>cbReserved2\<close> at 64, \<open>lpReserved2\<close> at 72,
  \<open>hStdInput\<close> at 80, \<open>hStdOutput\<close> at 88 and \<open>hStdError\<close> at 96.\<close>

definition startup_writes :: "i64 \<Rightarrow> (nat \<times> i64) list" where
  "startup_writes w = [(0, 104), (64, w), (72, w), (60, 0x100)]"

definition startup_field :: "(nat \<times> i64) list \<Rightarrow> nat \<Rightarrow> i64" where
  "startup_field si off = (case map_of si off of None \<Rightarrow> 0 | Some v \<Rightarrow> v)"

definition hStdOutput_off :: nat where
  "hStdOutput_off = 88"

text \<open>With \<open>STARTF_USESTDHANDLES\<close> the child writes to the handle in \<open>hStdOutput\<close>; only what it writes to \<open>w\<close> arrives in the pipe. The pipe is read when the process has ended.\<close>

definition pipe_content :: "i64 \<Rightarrow> string \<Rightarrow> string" where
  "pipe_content w out = (if startup_field (startup_writes w) hStdOutput_off = w then out else [])"

definition lpp_command_output_min :: "(int \<Rightarrow> bool) \<Rightarrow> (nat \<Rightarrow> nat \<Rightarrow> nat) \<Rightarrow> i64 \<Rightarrow> (string \<Rightarrow> string option) \<Rightarrow> cstr \<Rightarrow> string res" where
  "lpp_command_output_min oom grant w create cmd = (case cmd of None \<Rightarrow> Inr [] | Some c \<Rightarrow> if w = 0 then Inr []
     else case create c of None \<Rightarrow> Inr []
     | Some out \<Rightarrow> if oom 4097 then Inr []
         else bind_res (output_loop_posix oom grant 4096 [] (pipe_content w out)) (\<lambda>(cap, buf).
           if length buf < cap + 1 then Inr buf else Inl (Fault ''terminator outside the block'')))"

section \<open>Directories\<close>

definition lpp_dir_create_min :: "(string \<Rightarrow> bool) \<Rightarrow> cstr \<Rightarrow> int" where
  "lpp_dir_create_min create p = (case p of None \<Rightarrow> - 1 | Some p \<Rightarrow> if create p then 0 else - 1)"

text \<open>The search pattern is built in 264 bytes on the stack.\<close>

definition search_pattern :: "string \<Rightarrow> string res" where
  "search_pattern p = bind_res (pokes (replicate 264 CHR 0x00) [(0, p), (length p, [CHR 0x5C]), (length p + 1, ''*''), (length p + 2, [CHR 0x00])]) c_string"

definition lpp_dir_list_min :: "bool \<Rightarrow> (int \<Rightarrow> bool) \<Rightarrow> (string \<Rightarrow> string list option) \<Rightarrow> cstr \<Rightarrow> string list option res" where
  "lpp_dir_list_min list_oom oom find_files p = (if list_oom then Inr None else case p of None \<Rightarrow> Inr (Some [])
     | Some p \<Rightarrow> bind_res (search_pattern p) (\<lambda>pt. case find_files pt of None \<Rightarrow> Inr (Some [])
         | Some names \<Rightarrow> Inr (Some (concat (map (\<lambda>nm. if nm = ''.'' \<or> nm = ''..'' \<or> oom (int (length nm) + 1) then [] else [nm]) names)))))"

text \<open>Removing a directory: what \<open>FindFirstFileA\<close> and \<open>GetFileAttributesA\<close> report is a tree, the calls that delete are returned in their order.\<close>

datatype entry = FileEntry | DirEntry "(string \<times> entry) list"

datatype removal = DeleteFileA string | RemoveDirectoryA string

definition child_path :: "string \<Rightarrow> string \<Rightarrow> string res" where
  "child_path p name = bind_res (pokes (replicate 520 CHR 0x00) [(0, p), (length p, [CHR 0x5C]), (length p + 1, name @ [CHR 0x00])]) c_string"

fun lpp_dir_remove_recursive :: "string \<Rightarrow> (string \<times> entry) list \<Rightarrow> removal list res"
  and remove_entries :: "string \<Rightarrow> (string \<times> entry) list \<Rightarrow> removal list res" where
  "lpp_dir_remove_recursive p es = bind_res (search_pattern p) (\<lambda>_. bind_res (remove_entries p es) (\<lambda>rs. Inr (rs @ [RemoveDirectoryA p])))"
| "remove_entries p [] = Inr []"
| "remove_entries p ((name, e) # es) = bind_res
     (if name = [] then Inr [] else bind_res (child_path p name) (\<lambda>full. case e of FileEntry \<Rightarrow> Inr [DeleteFileA full] | DirEntry sub \<Rightarrow> lpp_dir_remove_recursive full sub))
     (\<lambda>rs. bind_res (remove_entries p es) (\<lambda>rs'. Inr (rs @ rs')))"

definition lpp_dir_remove_min :: "(string \<times> entry) list \<Rightarrow> cstr \<Rightarrow> (removal list \<times> int) res" where
  "lpp_dir_remove_min es p = (case p of None \<Rightarrow> Inr ([], - 1) | Some p \<Rightarrow> bind_res (lpp_dir_remove_recursive p es) (\<lambda>rs. Inr (rs, 0)))"

definition lpp_path_exists_min :: "(string \<Rightarrow> bool) \<Rightarrow> cstr \<Rightarrow> int" where
  "lpp_path_exists_min attributes p = (case p of None \<Rightarrow> 0 | Some p \<Rightarrow> if attributes p then 1 else 0)"

definition lpp_path_join_min :: "(int \<Rightarrow> bool) \<Rightarrow> cstr \<Rightarrow> cstr \<Rightarrow> string res" where
  "lpp_path_join_min = lpp_path_join_win"

section \<open>Numbers, random numbers and time\<close>

definition lpp_abs_min :: "i64 \<Rightarrow> i64 res" where
  "lpp_abs_min = lpp_abs"

definition lpp_min_min :: "i64 \<Rightarrow> i64 \<Rightarrow> i64" where
  "lpp_min_min = lpp_min"

definition lpp_max_min :: "i64 \<Rightarrow> i64 \<Rightarrow> i64" where
  "lpp_max_min = lpp_max"

definition lpp_int_pow_min :: "i64 \<Rightarrow> i64 \<Rightarrow> i64" where
  "lpp_int_pow_min = lpp_int_pow"

text \<open>The random numbers of both freestanding runtimes are constants.\<close>

definition lpp_random_min :: i64 where
  "lpp_random_min = 42"

definition lpp_random_range_min :: "i64 \<Rightarrow> i64 \<Rightarrow> i64" where
  "lpp_random_range_min lo hi = (if sint lo < sint hi then lo else 0)"

definition lpp_random_fs :: i64 where
  "lpp_random_fs = 42"

definition lpp_random_range_fs :: "i64 \<Rightarrow> i64 \<Rightarrow> i64" where
  "lpp_random_range_fs lo hi = (if sint lo < sint hi then lo else 0)"

text \<open>\<open>lpp_time_ms\<close> of the Linux runtime: \<open>clock_gettime\<close> writes seconds and nanoseconds into \<open>buf\<close>, then the output operand \<open>"=a"(buf[0])\<close> stores the return value of the system call in \<open>buf[0]\<close>.\<close>

definition lpp_time_ms_fs :: "u64 \<Rightarrow> u64 \<times> u64 \<Rightarrow> i64" where
  "lpp_time_ms_fs rax = (\<lambda>(sec, nsec). let buf0 = sec; buf0 = rax in buf0 * 1000 + nsec div 1000000)"

definition lpp_time_ms_min :: "u64 \<Rightarrow> i64" where
  "lpp_time_ms_min ticks = ticks"

text \<open>Seeded generators and clocks: the statements of the host runtime, with \<open>ExitProcess(101)\<close> for a failed allocation and the system time as a \<open>FILETIME\<close>, 100 nanoseconds since 1601.\<close>

definition lpp_rng_new_min :: "i64 \<Rightarrow> rng_heap \<Rightarrow> i64 \<Rightarrow> (rng_heap \<times> i64) res" where
  "lpp_rng_new_min p hp seed = (if p = 0 then Inl (Exited 101)
     else Inr (hp(p \<mapsto> \<lparr>state = (if seed = 0 then 0x853c49e6748fea9b else seed)\<rparr>), p))"

definition lpp_rng_next_min :: "rng_heap \<Rightarrow> i64 \<Rightarrow> (rng_heap \<times> i64) res" where
  "lpp_rng_next_min hp h = (if h = 0 then Inr (hp, 0) else case hp h of None \<Rightarrow> Inl (Fault ''use of a freed generator'')
     | Some r \<Rightarrow> let s = state r + 0x9e3779b97f4a7c15; z = (s XOR drop_bit 30 s) * 0xbf58476d1ce4e5b9; z = (z XOR drop_bit 27 z) * 0x94d049bb133111eb
         in Inr (hp(h \<mapsto> r\<lparr>state := s\<rparr>), z XOR drop_bit 31 z))"

definition lpp_rng_range_min :: "rng_heap \<Rightarrow> i64 \<Rightarrow> i64 \<Rightarrow> i64 \<Rightarrow> (rng_heap \<times> i64) res" where
  "lpp_rng_range_min hp h mi ma = (if sint mi \<ge> sint ma then Inr (hp, mi)
     else let d = ma - mi + 1 in bind_res (lpp_rng_next_min hp h) (\<lambda>(hp, z). if d = 0 then Inl (Fault ''division by zero'') else Inr (hp, mi + z mod d)))"

definition lpp_rng_float_min :: "rng_heap \<Rightarrow> i64 \<Rightarrow> (rng_heap \<times> u64) res" where
  "lpp_rng_float_min hp h = bind_res (lpp_rng_next_min hp h) (\<lambda>(hp, z). Inr (hp, drop_bit 11 z))"

definition lpp_rng_free_min :: "rng_heap \<Rightarrow> i64 \<Rightarrow> rng_heap res" where
  "lpp_rng_free_min = lpp_rng_free"

definition lpp_clock_new_min :: "i64 \<Rightarrow> clock_heap \<Rightarrow> i64 \<Rightarrow> (clock_heap \<times> i64) res" where
  "lpp_clock_new_min p hp i = (if p = 0 then Inl (Exited 101) else Inr (hp(p \<mapsto> \<lparr>is_virtual = (i \<noteq> 0), current_time = i\<rparr>), p))"

definition lpp_clock_now_min :: "u64 \<Rightarrow> clock_heap \<Rightarrow> i64 \<Rightarrow> i64 res" where
  "lpp_clock_now_min filetime hp h = (if h = 0 then Inr 0 else case hp h of None \<Rightarrow> Inl (Fault ''use of a freed clock'')
     | Some c \<Rightarrow> if is_virtual c then Inr (current_time c) else Inr ((filetime - 116444736000000000) div 10000))"

definition lpp_clock_advance_min :: "clock_heap \<Rightarrow> i64 \<Rightarrow> i64 \<Rightarrow> clock_heap res" where
  "lpp_clock_advance_min = lpp_clock_advance"

definition lpp_clock_free_min :: "clock_heap \<Rightarrow> i64 \<Rightarrow> clock_heap res" where
  "lpp_clock_free_min = lpp_clock_free"

section \<open>Searching and replacing\<close>

lemma match_loop_nul:
  assumes "nul_free pat"
  shows "j \<le> length pat \<Longrightarrow> i + j \<le> length s \<Longrightarrow>
    \<exists>m. match_loop s pat i j = Inr m \<and> (m = length pat \<longleftrightarrow> take (length pat - j) (drop (i + j) s) = drop j pat)"
proof (induction "length pat - j" arbitrary: j)
  case 0
  then show ?case by (simp add: match_loop.simps)
next
  case (Suc n)
  then have j: "j < length pat" by simp
  have t: "length pat - j = Suc (length pat - Suc j)" "drop j pat = pat ! j # drop (Suc j) pat" using j by (simp_all add: Cons_nth_drop_Suc)
  show ?case
  proof (cases "i + j = length s")
    case True
    have "pat ! j \<noteq> CHR 0x00" using assms nth_mem [OF j] by (auto simp: nul_free_def)
    then have "match_loop s pat i j = Inr j" using j True by (simp add: match_loop.simps [of _ _ _ j] peek_def)
    then show ?thesis using j True t by simp
  next
    case False
    then have ij: "i + j < length s" using Suc(4) by simp
    have p: "peek s (i + j) = Inr (s ! (i + j))" using ij by (simp add: peek_def)
    have d: "drop (i + j) s = s ! (i + j) # drop (i + Suc j) s" using ij by (simp add: Cons_nth_drop_Suc)
    show ?thesis
    proof (cases "s ! (i + j) = pat ! j")
      case True
      then have "match_loop s pat i j = match_loop s pat i (Suc j)" using j p by (simp add: match_loop.simps [of _ _ _ j])
      then show ?thesis using Suc(1) [of "Suc j"] Suc(2) j ij True d t by simp
    next
      case False
      then have "match_loop s pat i j = Inr j" using j p by (simp add: match_loop.simps [of _ _ _ j])
      then show ?thesis using j False d t by simp
    qed
  qed
qed

lemma strstr_min_loop_eq:
  assumes "nul_free n" "n \<noteq> []"
  shows "i \<le> length h \<Longrightarrow> strstr_min_loop h n i = Inr (map_option (\<lambda>k. i + k) (strstr (drop i h) n))"
proof (induction "length h - i" arbitrary: i)
  case 0
  then show ?case using assms(2) by (subst strstr_min_loop.simps, subst strstr.simps) simp
next
  case (Suc x)
  then have i: "i < length h" by simp
  obtain m where m: "match_loop h n i 0 = Inr m" "m = length n \<longleftrightarrow> take (length n) (drop i h) = n"
    using match_loop_nul [OF assms(1), of 0 i h] i by auto
  show ?case
  proof (cases "take (length n) (drop i h) = n")
    case True
    then have "strstr (drop i h) n = Some 0" by (subst strstr.simps) simp
    then show ?thesis using True m i by (subst strstr_min_loop.simps) simp
  next
    case False
    have "drop i h = h ! i # drop (Suc i) h" using i by (simp add: Cons_nth_drop_Suc)
    then have "strstr (drop i h) n = map_option Suc (strstr (drop (Suc i) h) n)" using False by (simp add: strstr_Cons)
    moreover have "strstr_min_loop h n i = strstr_min_loop h n (Suc i)" using False m i by (subst strstr_min_loop.simps) simp
    ultimately show ?thesis using Suc(1) [of "Suc i"] Suc(2) i by (cases "strstr (drop (Suc i) h) n") simp_all
  qed
qed

lemma lpp_strstr_min_ok: "nul_free n \<Longrightarrow> lpp_strstr_min h n = Inr (strstr h n)"
proof (cases "n = []")
  case True
  then show ?thesis by (subst strstr.simps) (simp add: lpp_strstr_min_def)
next
  case False
  assume "nul_free n"
  then show ?thesis using strstr_min_loop_eq [OF _ False, of 0 h] False by (simp add: lpp_strstr_min_def option.map_ident)
qed

lemma drop_shorter: "old \<noteq> [] \<Longrightarrow> strstr s old = Some i \<Longrightarrow> length (drop (i + length old) s) < length s"
  using strstr_bound [of s old i] by (cases old) auto

lemma count_min_loop_ok: "nul_free old \<Longrightarrow> old \<noteq> [] \<Longrightarrow> length sc < fuel \<Longrightarrow> count_min_loop old sc fuel = Inr (count_loop old sc)"
proof (induction fuel arbitrary: sc)
  case (Suc fuel)
  show ?case
  proof (cases "strstr sc old")
    case None
    then show ?thesis using Suc(2,3) by (subst count_min_loop.simps, subst count_loop.simps) (simp add: lpp_strstr_min_ok)
  next
    case (Some i)
    then have "count_min_loop old (drop (i + length old) sc) fuel = Inr (count_loop old (drop (i + length old) sc))"
      using drop_shorter [OF Suc(3) Some] Suc(2-4) by (intro Suc(1)) simp_all
    then show ?thesis using Some Suc(2,3) by (subst count_min_loop.simps, subst count_loop.simps) (simp add: lpp_strstr_min_ok)
  qed
qed simp

lemma replace_min_loop_ok:
  "nul_free old \<Longrightarrow> old \<noteq> [] \<Longrightarrow> length sr < fuel \<Longrightarrow> replace_min_loop old nw ou d sr fuel = replace_loop old nw ou d sr"
proof (induction fuel arbitrary: sr d ou)
  case (Suc fuel)
  show ?case
  proof (cases "sr = []")
    case False
    show ?thesis
    proof (cases "strstr sr old")
      case None
      then show ?thesis using Suc(2,3) False by (subst replace_min_loop.simps, subst replace_loop.simps) (simp add: lpp_strstr_min_ok)
    next
      case (Some i)
      have "replace_min_loop old nw x y (drop (i + length old) sr) fuel = replace_loop old nw x y (drop (i + length old) sr)" for x y
        using drop_shorter [OF Suc(3) Some] Suc(2-4) by (intro Suc(1)) simp_all
      then show ?thesis using Some Suc(2,3) False by (subst replace_min_loop.simps, subst replace_loop.simps) (simp add: lpp_strstr_min_ok)
    qed
  qed (subst replace_min_loop.simps, subst replace_loop.simps, simp)
qed simp

lemma new_str_two: "new_str oom (int (length s) + 1) [(0, s), (length s, [CHR 0x00])] = new_str oom (int (length s) + 1) [(0, s @ [CHR 0x00])]"
  by (simp add: new_str_def arc_block_def poke_def nat_add_distrib)

text \<open>Building a string fails with a fault only, never with a panic.\<close>

definition only_faults :: "'a res \<Rightarrow> bool" where
  "only_faults m \<longleftrightarrow> (\<forall>e. m = Inl e \<longrightarrow> (\<exists>x. e = Fault x))"

lemma only_faults_intros [intro, simp]:
  "only_faults (Inr v)" "only_faults (Inl (Fault x))" "only_faults (poke blk off bs)" "only_faults (c_string blk)"
  by (simp_all add: only_faults_def poke_def c_string_def)

lemma only_faults_bind: "only_faults m \<Longrightarrow> (\<And>v. only_faults (f v)) \<Longrightarrow> only_faults (bind_res m f)"
  by (cases m) (auto simp: only_faults_def)

lemma only_faults_pokes: "only_faults (pokes blk ws)"
  by (induction blk ws rule: pokes.induct) (auto intro!: only_faults_bind)

lemma only_faults_replace: "only_faults (replace_loop old nw ou d sr)"
proof (induction old nw ou d sr rule: replace_loop.induct)
  case (1 old nw ou d sr)
  show ?case
  proof (cases "sr = [] \<or> old = []")
    case False
    show ?thesis
    proof (cases "strstr sr old")
      case (Some i)
      then show ?thesis using False 1 by (subst replace_loop.simps) (auto intro!: only_faults_bind)
    qed (use False in \<open>subst replace_loop.simps, simp\<close>)
  qed (subst replace_loop.simps, simp)
qed

lemma exit_101_simps:
  "exit_101 (Inl (Fault x)) = Inl (Fault x)" "exit_101 (Inl (Panic x)) = Inl (Exited 101)" "exit_101 (Inr v) = Inr v"
  "exit_101 (if c then a else b) = (if c then exit_101 a else exit_101 b)"
  "only_faults m \<Longrightarrow> exit_101 m = m"
  by (cases m, auto simp: exit_101_def only_faults_def)+

lemma only_faults_new_str: "only_faults (new_str oom k ws)"
  by (auto simp: new_str_def arc_block_def intro!: only_faults_bind only_faults_pokes)

lemma replace_min_agrees:
  assumes "nul_free (or_empty old)"
  shows "lpp_str_replace_min oom s old nw = exit_101 (lpp_str_replace oom s old nw)"
proof (cases "or_empty old")
  case Nil
  then have "old = None \<or> old = Some []" by (auto simp: or_empty_def split: option.splits)
  then show ?thesis by (auto simp: lpp_str_replace_min_def lpp_str_replace_def new_str_two exit_101_simps(5) [OF only_faults_new_str] Let_def)
next
  case (Cons c t)
  then have o: "old = Some (c # t)" by (auto simp: or_empty_def split: option.splits)
  have "nul_free (c # t)" using assms Cons by simp
  note ok = count_min_loop_ok [OF this, of "or_empty s" "length (or_empty s) + 1"] replace_min_loop_ok [OF this, of "or_empty s" "length (or_empty s) + 1"]
  have "exit_101 (case arc_block oom k of None \<Rightarrow> Inr [] | Some out \<Rightarrow> bind_res (replace_loop (c # t) x out 0 y) c_string) =
      (case arc_block oom k of None \<Rightarrow> Inr [] | Some out \<Rightarrow> bind_res (replace_loop (c # t) x out 0 y) c_string)" for k x y
    by (intro exit_101_simps(5)) (auto split: option.splits intro!: only_faults_bind only_faults_replace)
  with ok show ?thesis unfolding o lpp_str_replace_min_def lpp_str_replace_def Let_def option.case list.case by (simp add: exit_101_simps(1-4) cong: option.case_cong)
qed
lemma lpp_int_to_str_min_ok:
  assumes "sint val \<noteq> INT64_MIN" "\<And>n. \<not> oom n"
  shows "lpp_int_to_str_min oom val = lpp_int_to_str_fs oom val"
proof -
  have "new_str_unchecked oom (int k + 1) (copy_bytes 0 x) =
      (case arc_block oom (int k + 1) of None \<Rightarrow> Inl (Fault ''write through NULL'') | Some out \<Rightarrow> bind_res (poke out 0 x) c_string)" if "length x \<le> k + 1" for k x
    using that assms(2) by (simp add: new_str_unchecked_def arc_block_def pokes_copy nat_add_distrib)
  moreover have "length (take (k + 1) (drop i buf)) \<le> k + 1" for k i and buf :: string by simp
  ultimately show ?thesis using assms
    by (simp add: lpp_int_to_str_min_def lpp_int_to_str_fs_def arc_block_def some_str_def bind_res_assoc Let_def case_prod_unfold)
qed

section \<open>Properties\<close>

text \<open>The text builtins that the Windows runtime does without the C library agree with the host runtime: finding and containment, replacement on every argument (where the host panics this runtime exits with 101), repetition,
  integers as text, case conversion and the environment of values that fit the 4096 bytes of its buffer. All searches and both passes of the replacement end.\<close>

theorem lpp_text_min_agrees:
  assumes "nul_free s" "nul_free old" "nul_free nw" "sint v \<noteq> INT64_MIN" "\<And>m x. env m = Some x \<Longrightarrow> length x < 4096 \<and> nul_free x"
  shows "lpp_str_find_min (Some s) (Some old) = Inr (lpp_str_find (Some s) (Some old)) \<and>
    lpp_str_contains_min (Some s) (Some old) = Inr (lpp_str_contains (Some s) (Some old)) \<and>
    lpp_str_replace_min oom (Some s) (Some old) (Some nw) = exit_101 (lpp_str_replace oom (Some s) (Some old) (Some nw)) \<and>
    lpp_str_repeat_min oom (Some s) n = exit_101 (lpp_str_repeat oom (Some s) n) \<and>
    lpp_int_to_str_min (\<lambda>n. False) v = some_str (lpp_int_to_str (\<lambda>n. False) v) \<and>
    some_str (lpp_str_upper_min oom (Some s)) = lpp_str_upper oom (Some s) \<and>
    some_str (lpp_str_lower_min oom (Some s)) = lpp_str_lower oom (Some s) \<and>
    lpp_env_get_min (\<lambda>n. False) env name = lpp_env_get (\<lambda>n. False) env name"
proof (intro conjI)
  show "lpp_str_find_min (Some s) (Some old) = Inr (lpp_str_find (Some s) (Some old))"
    using assms(2) by (simp add: lpp_str_find_min_def lpp_str_find_def lpp_strstr_min_ok)
  show "lpp_str_contains_min (Some s) (Some old) = Inr (lpp_str_contains (Some s) (Some old))"
    using assms(2) by (auto simp: lpp_str_contains_min_def lpp_str_contains_def lpp_str_find_min_def lpp_strstr_min_ok split: option.splits)
  show "lpp_str_replace_min oom (Some s) (Some old) (Some nw) = exit_101 (lpp_str_replace oom (Some s) (Some old) (Some nw))"
    using assms(2) by (intro replace_min_agrees) (simp add: or_empty_def)
  show "lpp_str_repeat_min oom (Some s) n = exit_101 (lpp_str_repeat oom (Some s) n)"
    by (auto simp: lpp_str_repeat_min_def lpp_str_repeat_def Let_def exit_101_simps(1-3) exit_101_simps(5) [OF only_faults_new_str])
  show "lpp_int_to_str_min (\<lambda>n. False) v = some_str (lpp_int_to_str (\<lambda>n. False) v)"
    using lpp_int_to_str_min_ok [OF assms(4)] int_to_str_fs_ok [OF assms(4)] finish_term [OF nul_free_print_int, of "sint v"]
    by (auto simp: lpp_int_to_str_def new_str_def arc_block_def some_str_def Let_def nat_add_distrib)
  show "some_str (lpp_str_upper_min oom (Some s)) = lpp_str_upper oom (Some s)" "some_str (lpp_str_lower_min oom (Some s)) = lpp_str_lower oom (Some s)"
    by (simp_all add: lpp_str_upper_min_def lpp_str_upper_def lpp_str_lower_min_def lpp_str_lower_def mapped_copy some_str_def)
  show "lpp_env_get_min (\<lambda>n. False) env name = lpp_env_get (\<lambda>n. False) env name"
    using assms(5) by (fastforce simp: lpp_env_get_min_def lpp_env_get_def new_str_def arc_block_def poke_def c_string_def split: option.splits)
qed

theorem lpp_text_min_agrees_witness:
  "lpp_str_replace_min (\<lambda>n. False) (Some ''a-b-c'') (Some ''-'') (Some ''+'') = exit_101 (lpp_str_replace (\<lambda>n. False) (Some ''a-b-c'') (Some ''-'') (Some ''+'')) \<and>
   lpp_int_to_str_min (\<lambda>n. False) 7 = some_str (lpp_int_to_str (\<lambda>n. False) 7)"
  using lpp_text_min_agrees [of "''a-b-c''" "''-''" "''+''" 7 Map.empty "\<lambda>n. False"] by (simp add: nul_free_def INT64_MIN_def)

text \<open>What a program gets from \<open>lpp_command_output\<close> on this runtime. The write end of the pipe is stored at the offsets 64 and 72 of the start-up information, where \<open>wShowWindow\<close> and \<open>lpReserved2\<close> are; the field
  \<open>hStdOutput\<close> at 88 stays 0, so whatever the command prints, the result is the empty string.\<close>

theorem lpp_command_output_min_empty:
  "lpp_command_output_min oom grant w create cmd = Inr []"
proof -
  have "pipe_content w out = []" if "w \<noteq> 0" for out
    using that by (simp add: pipe_content_def startup_field_def startup_writes_def hStdOutput_off_def)
  moreover have "output_loop_posix oom grant 4096 [] [] = Inr (4096, [])" by (subst output_loop_posix.simps) simp
  ultimately show ?thesis by (auto simp: lpp_command_output_min_def split: option.splits)
qed

text \<open>The clock of the Linux runtime loses its seconds: with a successful system call the result is the milliseconds of the current second.\<close>

theorem lpp_time_ms_fs_below_second:
  assumes "unat nsec < 1000000000"
  shows "lpp_time_ms_fs 0 (sec, nsec) = nsec div 1000000 \<and> unat (lpp_time_ms_fs 0 (sec, nsec)) < 1000"
proof -
  have "unat (nsec div 1000000) = unat nsec div 1000000" by (simp add: unat_div_distrib)
  then show ?thesis using assms by (simp add: lpp_time_ms_fs_def)
qed

section \<open>Removing a directory\<close>

text \<open>What has to be deleted: the directory, its files and everything below its subdirectories.\<close>

inductive tree_node :: "string \<Rightarrow> (string \<times> entry) list \<Rightarrow> removal \<Rightarrow> bool" where
  top: "tree_node p es (RemoveDirectoryA p)"
| leaf: "(n, FileEntry) \<in> set es \<Longrightarrow> n \<noteq> [] \<Longrightarrow> tree_node p es (DeleteFileA (p @ [CHR 0x5C] @ n))"
| sub: "(n, DirEntry ds) \<in> set es \<Longrightarrow> n \<noteq> [] \<Longrightarrow> tree_node (p @ [CHR 0x5C] @ n) ds r \<Longrightarrow> tree_node p es r"

primrec removal_path :: "removal \<Rightarrow> string" where
  "removal_path (DeleteFileA q) = q"
| "removal_path (RemoveDirectoryA q) = q"

definition paths_fit :: "string \<Rightarrow> (string \<times> entry) list \<Rightarrow> bool" where
  "paths_fit p es \<longleftrightarrow> (\<forall>r. tree_node p es r \<longrightarrow> nul_free (removal_path r) \<and> length (removal_path r) \<le> 261)"

lemma child_path_ok:
  assumes "nul_free p" "nul_free name" "length p + length name \<le> 260"
  shows "child_path p name = Inr (p @ [CHR 0x5C] @ name)"
proof -
  have "pokes (replicate 520 CHR 0x00) [(0, p), (length p, [CHR 0x5C]), (length p + 1, name @ [CHR 0x00])] =
      Inr (p @ CHR 0x5C # name @ CHR 0x00 # replicate (518 - (length p + length name)) CHR 0x00)"
    using assms(3) by (simp add: poke_def)
  moreover have "nul_free (p @ CHR 0x5C # name)" using assms by (simp add: nul_free_def)
  ultimately show ?thesis using c_string_app [of "p @ CHR 0x5C # name"] by (simp add: child_path_def del: pokes.simps)
qed

lemma search_pattern_ok:
  assumes "nul_free p" "length p \<le> 261"
  shows "search_pattern p = Inr (p @ [CHR 0x5C, CHR ''*''])"
proof -
  have "pokes (replicate 264 CHR 0x00) [(0, p), (length p, [CHR 0x5C]), (length p + 1, ''*''), (length p + 2, [CHR 0x00])] =
      Inr (p @ CHR 0x5C # CHR ''*'' # CHR 0x00 # replicate (261 - length p) CHR 0x00)"
    using assms(2) by (simp add: poke_def)
  moreover have "nul_free (p @ [CHR 0x5C, CHR ''*''])" using assms by (simp add: nul_free_def)
  ultimately show ?thesis using c_string_app [of "p @ [CHR 0x5C, CHR ''*'']"] by (simp add: search_pattern_def del: pokes.simps)
qed

inductive_simps tree_node_iff: "tree_node p es r"

definition below :: "string \<Rightarrow> (string \<times> entry) list \<Rightarrow> removal set" where
  "below p es = {r. \<exists>n. (n, FileEntry) \<in> set es \<and> n \<noteq> [] \<and> r = DeleteFileA (p @ [CHR 0x5C] @ n)} \<union>
     {r. \<exists>n ds. (n, DirEntry ds) \<in> set es \<and> n \<noteq> [] \<and> tree_node (p @ [CHR 0x5C] @ n) ds r}"

lemma tree_node_below: "tree_node p es r \<longleftrightarrow> r = RemoveDirectoryA p \<or> r \<in> below p es"
  by (subst tree_node_iff) (auto simp: below_def)

lemma below_simps: "below p [] = {}"
  "below p ((n, FileEntry) # es) = (if n = [] then {} else {DeleteFileA (p @ [CHR 0x5C] @ n)}) \<union> below p es"
  "below p ((n, DirEntry ds) # es) = (if n = [] then {} else {r. tree_node (p @ [CHR 0x5C] @ n) ds r}) \<union> below p es"
  by (auto simp: below_def)

definition fits_below :: "string \<Rightarrow> (string \<times> entry) list \<Rightarrow> bool" where
  "fits_below p es \<longleftrightarrow> (\<forall>r \<in> below p es. nul_free (removal_path r) \<and> length (removal_path r) \<le> 261)"

lemma paths_fit_iff: "paths_fit p es \<longleftrightarrow> nul_free p \<and> length p \<le> 261 \<and> fits_below p es"
  by (auto simp: paths_fit_def tree_node_below fits_below_def)

lemma fits_below_Cons:
  assumes "fits_below p ((n, e) # es)"
  shows "fits_below p es" "n \<noteq> [] \<Longrightarrow> nul_free n \<and> length p + length n \<le> 260"
    "n \<noteq> [] \<Longrightarrow> e = DirEntry ds \<Longrightarrow> paths_fit (p @ [CHR 0x5C] @ n) ds"
proof -
  show "fits_below p es" using assms by (cases e) (simp_all add: fits_below_def below_simps)
  show d: "n \<noteq> [] \<Longrightarrow> e = DirEntry ds \<Longrightarrow> paths_fit (p @ [CHR 0x5C] @ n) ds" for ds
    using assms by (auto simp: fits_below_def below_simps paths_fit_def)
  assume n: "n \<noteq> []"
  show "nul_free n \<and> length p + length n \<le> 260"
  proof (cases e)
    case FileEntry
    then show ?thesis using assms n by (simp add: fits_below_def below_simps nul_free_def)
  next
    case (DirEntry ds)
    then show ?thesis using d [OF n DirEntry] by (simp add: paths_fit_iff nul_free_def)
  qed
qed

lemma remove_tree_ok:
  "paths_fit p es \<Longrightarrow> \<exists>rs. lpp_dir_remove_recursive p es = Inr (rs @ [RemoveDirectoryA p]) \<and> set rs = below p es"
  "nul_free p \<Longrightarrow> fits_below p es \<Longrightarrow> \<exists>rs. remove_entries p es = Inr rs \<and> set rs = below p es"
proof (induction p es and p es rule: lpp_dir_remove_recursive_remove_entries.induct)
  case (1 p es)
  then show ?case by (auto simp: paths_fit_iff search_pattern_ok)
next
  case (2 p)
  then show ?case by (simp add: below_simps)
next
  case (3 p name e es)
  note f = fits_below_Cons [OF 3(4)]
  obtain rs where rs: "remove_entries p es = Inr rs" "set rs = below p es" using 3(2) [OF 3(3) f(1)] by blast
  show ?case
  proof (cases "name = []")
    case True
    then show ?thesis using rs by (cases e) (simp_all add: below_simps)
  next
    case False
    then have c: "child_path p name = Inr (p @ [CHR 0x5C] @ name)" using 3(3) f(2) by (intro child_path_ok) auto
    show ?thesis
    proof (cases e)
      case FileEntry
      then show ?thesis using c rs False by (simp add: below_simps)
    next
      case (DirEntry ds)
      obtain qs where qs: "lpp_dir_remove_recursive (p @ [CHR 0x5C] @ name) ds = Inr (qs @ [RemoveDirectoryA (p @ [CHR 0x5C] @ name)])"
          "set qs = below (p @ [CHR 0x5C] @ name) ds"
        using 3(1) [OF False DirEntry f(3) [OF False DirEntry]] by auto
      have "remove_entries p ((name, e) # es) = Inr ((qs @ [RemoveDirectoryA (p @ [CHR 0x5C] @ name)]) @ rs)"
        using c rs(1) qs(1) False DirEntry by simp
      moreover have "set ((qs @ [RemoveDirectoryA (p @ [CHR 0x5C] @ name)]) @ rs) = below p ((name, e) # es)"
        using qs(2) rs(2) False DirEntry by (auto simp: below_simps tree_node_below)
      ultimately show ?thesis by blast
    qed
  qed
qed

lemma search_pattern_overflow: "261 < length p \<Longrightarrow> search_pattern p = Inl (Fault ''write outside the block'')"
  by (simp add: search_pattern_def poke_def)


end
