(* ===== verification/Lpp_Min_Net.thy ===== *)
theory Lpp_Min_Net
  imports Lpp_Net
begin

text \<open>
  The sockets of the freestanding Windows runtime, \<^verbatim>\<open>runtime/windows_x86_64_min.c\<close>. A program holds the sockets themselves; the state is that of the other runtimes, of which the table is not used, together with the flag of
  the started library. The answers of Winsock are arguments, as in \<open>Lpp_Net\<close>; a socket is a number, \<open>INVALID_SOCKET\<close> is \<open>-1\<close>.
\<close>

section \<open>Start and connections\<close>

type_synonym wsa = "bool \<times> net"

text \<open>\<open>started\<close> is whether \<open>WSAStartup\<close> succeeds.\<close>

definition lpp_net_startup :: "bool \<Rightarrow> wsa \<Rightarrow> wsa \<times> bool" where
  "lpp_net_startup started w = (if fst w then (w, True) else if \<not> started then (w, False) else ((True, snd w), True))"

definition lpp_net_listen_min :: "bool \<Rightarrow> int \<Rightarrow> (u16 \<Rightarrow> bool) \<Rightarrow> bool \<Rightarrow> wsa \<Rightarrow> i64 \<Rightarrow> wsa \<times> int" where
  "lpp_net_listen_min started sock bound listening w port = (case lpp_net_startup started w of ((f, n), up) \<Rightarrow>
     if \<not> up \<or> sint port \<le> 0 \<or> sint port > 65535 then ((f, n), - 1)
     else if sock = LPP_INVALID_SOCKET then ((f, n), - 1)
     else let n = open_fd n sock in if \<not> bound (ucast port) \<or> \<not> listening then ((f, close_fd n sock), - 1) else ((f, n), sock))"

definition lpp_net_accept_min :: "int \<Rightarrow> wsa \<Rightarrow> int \<Rightarrow> wsa \<times> int" where
  "lpp_net_accept_min client w listener = (if listener < 0 then (w, - 1)
     else if client = LPP_INVALID_SOCKET then (w, - 1) else ((fst w, open_fd (snd w) client), client))"

abbreviation INADDR_NONE :: u32 where
  "INADDR_NONE \<equiv> 0xFFFFFFFF"

text \<open>\<open>inet_addr\<close> is the function of Winsock, \<open>connected a p\<close> whether the connection to an address and a port succeeds.\<close>

definition lpp_net_connect_min :: "bool \<Rightarrow> (string \<Rightarrow> u32) \<Rightarrow> int \<Rightarrow> (u32 \<Rightarrow> u16 \<Rightarrow> bool) \<Rightarrow> wsa \<Rightarrow> cstr \<Rightarrow> i64 \<Rightarrow> wsa \<times> int" where
  "lpp_net_connect_min started inet_addr sock connected w host port = (case lpp_net_startup started w of ((f, n), up) \<Rightarrow>
     if \<not> up then ((f, n), - 1) else case host of None \<Rightarrow> ((f, n), - 1) | Some h \<Rightarrow>
     if sint port \<le> 0 \<or> sint port > 65535 then ((f, n), - 1)
     else if sock = LPP_INVALID_SOCKET then ((f, n), - 1)
     else let n = open_fd n sock; a = inet_addr h
          in if a = INADDR_NONE \<and> h \<noteq> ''255.255.255.255'' then ((f, close_fd n sock), - 1)
             else if \<not> connected a (ucast port) then ((f, close_fd n sock), - 1) else ((f, n), sock))"

definition lpp_net_close_min :: "wsa \<Rightarrow> int \<Rightarrow> wsa" where
  "lpp_net_close_min w handle = (if handle \<ge> 0 then (fst w, close_fd (snd w) handle) else w)"

text \<open>A \<open>long\<close> has 32 bits here; an \<open>fd_set\<close> of Winsock is a counted list, so no socket is outside it.\<close>

definition long_32 :: "int \<Rightarrow> int" where
  "long_32 v = sint (word_of_int v :: u32)"

definition lpp_net_poll_min :: "(int \<Rightarrow> int \<times> int \<Rightarrow> int) \<Rightarrow> int \<Rightarrow> i64 \<Rightarrow> int" where
  "lpp_net_poll_min select handle timeout_ms = (if handle < 0 then - 1
     else case tv_pair (sint timeout_ms) of (s, us) \<Rightarrow> if select handle (long_32 s, long_32 us) > 0 then 1 else 0)"

definition lpp_net_accept_timeout_min :: "(int \<Rightarrow> int \<times> int \<Rightarrow> int) \<Rightarrow> int \<Rightarrow> wsa \<Rightarrow> int \<Rightarrow> i64 \<Rightarrow> wsa \<times> int" where
  "lpp_net_accept_timeout_min select client w listener timeout_ms = (if listener < 0 then (w, - 1)
     else if lpp_net_poll_min select listener timeout_ms \<noteq> 1 then (w, - 1) else lpp_net_accept_min client w listener)"

definition lpp_net_dial_min :: "bool \<Rightarrow> (string \<Rightarrow> u32) \<Rightarrow> int \<Rightarrow> (u32 \<Rightarrow> u16 \<Rightarrow> bool) \<Rightarrow> wsa \<Rightarrow> cstr \<Rightarrow> i64 \<Rightarrow> i64 \<Rightarrow> wsa \<times> int" where
  "lpp_net_dial_min started inet_addr sock connected w host port timeout_ms = lpp_net_connect_min started inet_addr sock connected w host port"

section \<open>Sending, receiving and options\<close>

text \<open>\<open>int len = lpp_strlen(data)\<close>: a counter of 32 bits.\<close>

definition strlen_32 :: "string \<Rightarrow> nat res" where
  "strlen_32 d = (if length d \<ge> 2 ^ 31 then Inl (Fault ''signed overflow'') else Inr (length d))"

definition lpp_net_send_min :: "(nat \<Rightarrow> int) \<Rightarrow> wsa \<Rightarrow> int \<Rightarrow> cstr \<Rightarrow> (wsa \<times> int) res" where
  "lpp_net_send_min send w handle data = (if handle < 0 then Inr (w, - 1) else case data of None \<Rightarrow> Inr (w, - 1)
     | Some d \<Rightarrow> bind_res (strlen_32 d) (\<lambda>len. let sent = send len in Inr ((fst w, put_sent (snd w) handle (take (nat sent) d)), sent)))"

function send_all_loop :: "(nat \<Rightarrow> nat \<Rightarrow> int) \<Rightarrow> wsa \<Rightarrow> int \<Rightarrow> string \<Rightarrow> nat \<Rightarrow> (wsa \<times> int) res" where
  "send_all_loop send w handle d k = (if k < length d
     then case lpp_net_send_min (send k) w handle (Some (drop k d)) of Inl e \<Rightarrow> Inl e
       | Inr (w, sent) \<Rightarrow> if sent \<le> 0 then Inr (w, - 1) else send_all_loop send w handle d (k + nat sent)
     else Inr (w, 0))"
  by pat_completeness auto
termination by (relation "measure (\<lambda>(_, _, _, d, k). length d - k)") auto

declare send_all_loop.simps [simp del]

definition lpp_net_send_all_min :: "(nat \<Rightarrow> nat \<Rightarrow> int) \<Rightarrow> wsa \<Rightarrow> int \<Rightarrow> cstr \<Rightarrow> (wsa \<times> int) res" where
  "lpp_net_send_all_min send w handle data = (if handle < 0 then Inr (w, - 1) else case data of None \<Rightarrow> Inr (w, - 1)
     | Some d \<Rightarrow> send_all_loop send w handle d 0)"

text \<open>\<open>page\<close> is whether the pages of the buffer can be had, \<open>got\<close> what \<open>recv\<close> delivers of the waiting bytes; the answer is a C string.\<close>

definition lpp_net_recv_min :: "bool \<Rightarrow> (int \<Rightarrow> bool) \<Rightarrow> string \<Rightarrow> int \<Rightarrow> i64 \<Rightarrow> string" where
  "lpp_net_recv_min page oom wire handle max_bytes = (if handle < 0 \<or> sint max_bytes \<le> 0 \<or> sint max_bytes > 1024 * 1024 then []
     else if \<not> page then [] else let got = take (nat (sint max_bytes)) wire
     in if oom (int (length got) + 1) then [] else takeWhile (\<lambda>c. c \<noteq> CHR 0x00) got)"

text \<open>\<open>ioctl\<close> is whether \<open>FIONBIO\<close> succeeds; the flag of the mode is kept where the other runtimes keep it.\<close>

definition lpp_net_set_nonblocking_min :: "bool \<Rightarrow> wsa \<Rightarrow> int \<Rightarrow> i64 \<Rightarrow> wsa \<times> int" where
  "lpp_net_set_nonblocking_min ioctl w handle enable = (if handle < 0 then (w, - 1) else
     let n = snd w; flags = (if enable \<noteq> 0 then fdflags n handle OR O_NONBLOCK else fdflags n handle AND NOT O_NONBLOCK)
     in if ioctl then ((fst w, n\<lparr>fdflags := (fdflags n)(handle := flags)\<rparr>), 1) else (w, - 1))"

text \<open>The time is a \<open>DWORD\<close> of milliseconds.\<close>

definition lpp_net_set_timeout_min :: "(int \<Rightarrow> sockopt \<Rightarrow> bool) \<Rightarrow> wsa \<Rightarrow> int \<Rightarrow> i64 \<Rightarrow> wsa \<times> int" where
  "lpp_net_set_timeout_min optok w handle milliseconds = (if handle < 0 \<or> sint milliseconds < 0 then (w, - 1) else
     let timeout = Flag (uint (ucast milliseconds :: u32)); (n, ok) = setsockopt optok (snd w) handle SO_RCVTIMEO timeout
     in if \<not> ok then ((fst w, n), - 1)
        else let (n, ok) = setsockopt optok n handle SO_SNDTIMEO timeout in ((fst w, n), if ok then 1 else - 1))"

section \<open>What is not supported\<close>

definition lpp_net_bind_udp_min :: "i64 \<Rightarrow> int" where "lpp_net_bind_udp_min port = - 1"
definition lpp_net_send_udp_min :: "int \<Rightarrow> cstr \<Rightarrow> i64 \<Rightarrow> cstr \<Rightarrow> int" where "lpp_net_send_udp_min socket host port data = - 1"
definition lpp_net_recv_udp_min :: "int \<Rightarrow> i64 \<Rightarrow> string" where "lpp_net_recv_udp_min socket max_bytes = []"
definition lpp_net_dial_udp_min :: "cstr \<Rightarrow> i64 \<Rightarrow> i64 \<Rightarrow> int" where "lpp_net_dial_udp_min host port timeout_ms = - 1"
definition lpp_net_listen_udp_min :: "i64 \<Rightarrow> int" where "lpp_net_listen_udp_min port = - 1"
definition lpp_net_resolve_min :: "cstr \<Rightarrow> string" where "lpp_net_resolve_min host = []"
definition lpp_net_set_deadline_min :: "int \<Rightarrow> i64 \<Rightarrow> i64 \<Rightarrow> int" where "lpp_net_set_deadline_min fd read_ms write_ms = - 1"
definition lpp_net_set_keepalive_min :: "int \<Rightarrow> i64 \<Rightarrow> i64 \<Rightarrow> i64 \<Rightarrow> i64 \<Rightarrow> int" where "lpp_net_set_keepalive_min fd enable idle_s interval cnt = - 1"
definition lpp_http_get_min :: "cstr \<Rightarrow> string" where "lpp_http_get_min url = []"
definition lpp_http_post_min :: "cstr \<Rightarrow> cstr \<Rightarrow> cstr \<Rightarrow> string" where "lpp_http_post_min url data content_type = []"

section \<open>Sockets are not lost\<close>

lemma fdopen_fd [simp]:
  "fdopen (open_fd n s) = (fdopen n)(s := True)" "fdopen (close_fd n s) = (fdopen n)(s := False)"
  by (simp_all add: open_fd_def close_fd_def)

lemma lpp_net_startup_net [simp]: "snd (fst (lpp_net_startup started w)) = snd w"
  by (simp add: lpp_net_startup_def)

text \<open>What an operation that makes a socket promises: either it fails and no other socket is open than before, or it answers the one socket it opened.\<close>

definition opens :: "wsa \<Rightarrow> wsa \<times> int \<Rightarrow> bool" where
  "opens w r \<longleftrightarrow> (snd r = - 1 \<and> fdopen (snd (fst r)) = fdopen (snd w)) \<or> (snd r \<noteq> - 1 \<and> fdopen (snd (fst r)) = (fdopen (snd w))(snd r := True))"

text \<open>No socket is lost: listening, accepting (with or without a timeout) and connecting either answer \<open>-1\<close> and leave exactly the sockets open that were, having closed the one they made on every failing path, or answer the one new
  socket; closing the answer restores the sockets that were open.\<close>

theorem lpp_net_min_no_leak:
  assumes "sock \<ge> 0 \<and> \<not> fdopen (snd w) sock \<or> sock = - 1"
  shows "opens w (lpp_net_listen_min started sock bound listening w port) \<and>
    opens w (lpp_net_connect_min started inet_addr sock connected w host port) \<and>
    opens w (lpp_net_accept_min sock w listener) \<and>
    opens w (lpp_net_accept_timeout_min select sock w listener timeout_ms) \<and>
    (\<forall>r. opens w r \<and> snd r = sock \<longrightarrow> fdopen (snd (lpp_net_close_min (fst r) (snd r))) = fdopen (snd w))"
proof -
  have same: "(fdopen (snd w))(sock := False) = fdopen (snd w)" if "sock \<noteq> - 1" using assms that by (intro fun_upd_idem) auto
  obtain f n up where st: "lpp_net_startup started w = ((f, n), up)" by (metis prod.collapse)
  then have n: "n = snd w" using lpp_net_startup_net [of started w] by simp
  have "opens w (lpp_net_listen_min started sock bound listening w port)"
    using same n by (simp add: lpp_net_listen_min_def st opens_def Let_def)
  moreover have "opens w (lpp_net_connect_min started inet_addr sock connected w host port)"
    using same n by (simp add: lpp_net_connect_min_def st opens_def Let_def split: option.split)
  moreover have acc: "opens w (lpp_net_accept_min sock w listener)" by (simp add: lpp_net_accept_min_def opens_def)
  moreover have "opens w (lpp_net_accept_timeout_min select sock w listener timeout_ms)"
    using acc by (simp add: lpp_net_accept_timeout_min_def) (simp add: opens_def)
  moreover have "\<forall>r. opens w r \<and> snd r = sock \<longrightarrow> fdopen (snd (lpp_net_close_min (fst r) (snd r))) = fdopen (snd w)"
    using assms same by (auto simp: opens_def lpp_net_close_min_def)
  ultimately show ?thesis by blast
qed

theorem lpp_net_min_no_leak_witness:
  "opens (False, net_start) (lpp_net_connect_min True (\<lambda>_. INADDR_NONE) 7 (\<lambda>_ _. True) (False, net_start) (Some ''nowhere'') 80) \<and>
   \<not> fdopen (snd (fst (lpp_net_connect_min True (\<lambda>_. INADDR_NONE) 7 (\<lambda>_ _. True) (False, net_start) (Some ''nowhere'') 80))) 7"
proof -
  let ?r = "lpp_net_connect_min True (\<lambda>_. INADDR_NONE) 7 (\<lambda>_ _. True) (False, net_start) (Some ''nowhere'') 80"
  have "(7::int) \<ge> 0 \<and> \<not> fdopen (snd (False, net_start)) 7 \<or> (7::int) = - 1" by (simp add: net_start_def)
  note no_leak = lpp_net_min_no_leak [OF this, of True "\<lambda>_. True" True 80 "\<lambda>_. INADDR_NONE" "\<lambda>_ _. True" "Some ''nowhere''" 0 "\<lambda>_ _. 0" 0]
  have "snd ?r = - 1" by (simp add: lpp_net_connect_min_def lpp_net_startup_def Let_def)
  with no_leak show ?thesis by (simp add: opens_def net_start_def)
qed

section \<open>Sending everything\<close>

lemma put_sent_append: "put_sent (put_sent n s a) s b = put_sent n s (a @ b)"
  by (simp add: put_sent_def)

lemma send_all_loop_ok:
  "(\<And>k m. send k m \<le> int m) \<Longrightarrow> length d < 2 ^ 31 \<Longrightarrow> 0 \<le> h \<Longrightarrow> send_loop send (length d) k = (k', c) \<Longrightarrow>
    send_all_loop send (f, n) h d k = Inr ((f, put_sent n h (take (k' - k) (drop k d))), if c then 0 else - 1)"
proof (induction send "length d" k arbitrary: n rule: send_loop.induct)
  case (1 send k)
  let ?s = "send k (length d - k)" and ?n = "put_sent n h (take (nat (send k (length d - k))) (drop k d))"
  have one: "lpp_net_send_min (send k) (f, n) h (Some (drop k d)) = Inr ((f, ?n), ?s)"
    using 1(3,4) by (simp add: lpp_net_send_min_def strlen_32_def Let_def del: bind_res_Inr_iff)
  show ?case
  proof (cases "k < length d \<and> ?s > 0")
    case True
    then have r: "send_loop send (length d) (k + nat ?s) = (k', c)" using 1(5) by (subst (asm) send_loop.simps) simp
    have le: "k + nat ?s \<le> length d" using 1(2) [of k "length d - k"] True by linarith
    have ge: "k + nat ?s \<le> k'" using send_loop_bounds [OF 1(2) le r] by simp
    have "send_all_loop send (f, ?n) h d (k + nat ?s) = Inr ((f, put_sent ?n h (take (k' - (k + nat ?s)) (drop (k + nat ?s) d))), if c then 0 else - 1)"
      using True by (intro 1(1) [OF _ refl _ 1(2-4) r]) simp_all
    moreover have "take (nat ?s) (drop k d) @ take (k' - (k + nat ?s)) (drop (k + nat ?s) d) = take (k' - k) (drop k d)"
      using ge take_add [of "nat ?s" "k' - (k + nat ?s)" "drop k d"] by (simp add: add.commute)
    ultimately show ?thesis using True one by (subst send_all_loop.simps) (simp add: put_sent_append)
  next
    case False
    then have "k' = k" "c \<longleftrightarrow> \<not> k < length d" using 1(5) by (subst (asm) send_loop.simps; auto simp: Let_def split: if_splits)+
    then show ?thesis using False one by (subst send_all_loop.simps) (auto simp: put_sent_def)
  qed
qed

text \<open>The Windows \<open>lpp_net_send_all\<close> puts the same bytes on the wire as that of the host, whatever portions the system takes, and fails exactly when the host's fails; but a complete send answers 0 where the host answers the number of
  bytes.\<close>

theorem lpp_net_send_all_min_answer:
  assumes "\<forall>k m. send k m \<le> int m" "lpp_socket_load n h = s" "s > 0" "length d < 2 ^ 31"
  shows "\<exists>n' r. lpp_net_send_all_min send (f, n) s (Some d) = Inr ((f, n'), r) \<and>
    n' = fst (lpp_net_send_all send n h (Some d)) \<and>
    (if snd (lpp_net_send_all send n h (Some d)) = - 1 then r = - 1 else r = 0 \<and> snd (lpp_net_send_all send n h (Some d)) = int (length d))"
proof -
  obtain k c where l: "send_loop send (length d) 0 = (k, c)" by fastforce
  have b: "k \<le> length d" "c \<longleftrightarrow> k = length d" using send_loop_bounds [OF _ _ l] assms(1) by auto
  have "send_all_loop send (f, n) s d 0 = Inr ((f, put_sent n s (take (k - 0) (drop 0 d))), if c then 0 else - 1)"
    using assms by (intro send_all_loop_ok l) auto
  then show ?thesis using b l assms(2,3) by (auto simp: lpp_net_send_all_min_def lpp_net_send_all_def)
qed

theorem lpp_net_send_all_min_answer_witness:
  "let n = fst (lpp_net_listen 3 (\<lambda>_. True) True net_start 80) in
     \<exists>n' r. lpp_net_send_all_min (\<lambda>k m. min 2 (int m)) (True, n) 3 (Some ''hello'') = Inr ((True, n'), r) \<and> n' = fst (lpp_net_send_all (\<lambda>k m. min 2 (int m)) n 1 (Some ''hello''))"
proof -
  let ?n = "fst (lpp_net_listen 3 (\<lambda>_. True) True net_start 80)"
  have "lpp_socket_load ?n 1 = 3" by (simp add: lpp_net_listen_def store_net_start lpp_socket_load_def)
  with lpp_net_send_all_min_answer [of "\<lambda>k m. min 2 (int m)" ?n 1 3 "''hello''" True] show ?thesis by (auto simp: Let_def)
qed

end
