(* ===== verification/Lpp_Min_Arc.thy ===== *)
theory Lpp_Min_Arc
  imports Lpp_Arc
begin

text \<open>
  Reference counting in the freestanding Windows runtime, \<^verbatim>\<open>runtime/windows_x86_64_min.c\<close>: objects on the process heap, arenas, tuples, tasks and the weak handles that keep no generation. A header has no magic number, so no
  pointer is checked: every pointer but NULL is followed to its header, and memory without one is a \<open>Fault\<close>. The address \<open>HeapAlloc\<close> returns is an argument, 0 standing for NULL. The destructors are the code of the host, whose
  \<open>children\<close> they share; the simulation at the end carries the results on the host's objects over.
\<close>

section \<open>Objects\<close>

record win_obj =
  wrefcount :: u32
  wdtor :: dtor
  allocation_size :: u64
  wwords :: "i64 list"

record win_state =
  wheap :: "i64 \<rightharpoonup> win_obj"
  wregions :: "arena_region list"

definition wget :: "win_state \<Rightarrow> i64 \<Rightarrow> win_obj res" where
  "wget w p = (case wheap w p of None \<Rightarrow> Inl (Fault ''header of memory that is not an ARC object'') | Some b \<Rightarrow> Inr b)"

definition wset :: "i64 \<Rightarrow> win_obj \<Rightarrow> win_state \<Rightarrow> win_state" where
  "wset p b w = w\<lparr>wheap := (wheap w)(p \<mapsto> b)\<rparr>"

definition LPP_WIN_ARENA_FLAG :: u64 where
  "LPP_WIN_ARENA_FLAG = push_bit 63 1"

definition lpp_is_immortal_min :: "win_obj \<Rightarrow> bool" where
  "lpp_is_immortal_min b \<longleftrightarrow> wrefcount b = LPP_ARC_IMMORTAL"

definition lpp_win_is_arena_header :: "win_obj \<Rightarrow> bool" where
  "lpp_win_is_arena_header b \<longleftrightarrow> allocation_size b AND LPP_WIN_ARENA_FLAG \<noteq> 0"

text \<open>The header has 24 bytes; \<open>HEAP_ZERO_MEMORY\<close> clears the payload.\<close>

definition lpp_arc_alloc_with_destructor_min :: "win_state \<Rightarrow> i64 \<Rightarrow> int \<Rightarrow> dtor \<Rightarrow> i64 \<times> win_state" where
  "lpp_arc_alloc_with_destructor_min w addr sz d = (if sz < 0 \<or> sz > 2 ^ 64 - 1 - 24 then (0, w)
     else if addr = 0 then (0, w)
     else (addr, wset addr \<lparr>wrefcount = 1, wdtor = d, allocation_size = word_of_int (sz + 24), wwords = replicate (nat ((sz + 7) div 8)) 0\<rparr> w))"

definition lpp_arc_alloc_min :: "win_state \<Rightarrow> i64 \<Rightarrow> int \<Rightarrow> i64 \<times> win_state" where
  "lpp_arc_alloc_min w addr sz = lpp_arc_alloc_with_destructor_min w addr sz DNone"

definition lpp_arc_free_min :: "i64 \<Rightarrow> win_state \<Rightarrow> win_state res" where
  "lpp_arc_free_min p w = (if wheap w p = None then Inl (Fault ''free of a block that is not live'') else Inr (w\<lparr>wheap := (wheap w)(p := None)\<rparr>))"

section \<open>Retain and release\<close>

definition wchildren :: "win_obj \<Rightarrow> i64 list res" where
  "wchildren b = children \<lparr>magic = LPP_ARC_MAGIC, refcount = wrefcount b, generation = 0, destructor = wdtor b, pwords = wwords b\<rparr>"

definition lpp_arena_for_header_min :: "win_state \<Rightarrow> i64 \<Rightarrow> arena_region option" where
  "lpp_arena_for_header_min w p = find (\<lambda>r. p \<in> set (map fst (records r))) (wregions w)"

definition wset_region :: "arena_region \<Rightarrow> win_state \<Rightarrow> win_state" where
  "wset_region r w = w\<lparr>wregions := map (\<lambda>q. if rid q = rid r then r else q) (wregions w)\<rparr>"

text \<open>The region is taken off the list, the nodes are freed and their records released, then the region itself.\<close>

definition lpp_arena_destroy_min :: "(win_state \<Rightarrow> i64 \<Rightarrow> win_state res) \<Rightarrow> win_state \<Rightarrow> arena_region \<Rightarrow> win_state res" where
  "lpp_arena_destroy_min release w r =
     bind_res (fold_res (\<lambda>w (hdr, record). bind_res (lpp_arc_free_min hdr w) (\<lambda>w. release w record)) (records r)
                 (w\<lparr>wregions := filter (\<lambda>q. rid q \<noteq> rid r) (wregions w)\<rparr>))
       (\<lambda>w. release w (rid r))"

definition lpp_arena_node_zero_min :: "(win_state \<Rightarrow> i64 \<Rightarrow> win_state res) \<Rightarrow> win_state \<Rightarrow> i64 \<Rightarrow> win_state res" where
  "lpp_arena_node_zero_min release w a = (case find (\<lambda>r. rid r = a) (wregions w) of
     None \<Rightarrow> Inl (Fault ''arena region that is not live'')
   | Some r \<Rightarrow> let r = r\<lparr>refs := refs r - 1\<rparr>
               in if refs r = 0 then lpp_arena_destroy_min release (wset_region r w) r else Inr (wset_region r w))"

definition lpp_arc_retain_min :: "win_state \<Rightarrow> i64 \<Rightarrow> win_state res" where
  "lpp_arc_retain_min w p = (if p = 0 then Inr w else bind_res (wget w p) (\<lambda>b.
     if lpp_is_immortal_min b then Inr w else Inr (wset p (b\<lparr>wrefcount := wrefcount b + 1\<rparr>) w)))"

text \<open>The first argument bounds the depth of the recursion, as on the host.\<close>

fun lpp_arc_release_min :: "nat \<Rightarrow> win_state \<Rightarrow> i64 \<Rightarrow> win_state res" where
  "lpp_arc_release_min 0 w p = Inl (Fault ''release recursion too deep'')"
| "lpp_arc_release_min (Suc n) w p = (if p = 0 then Inr w else bind_res (wget w p) (\<lambda>b.
     if lpp_is_immortal_min b then Inr w
     else let arena = lpp_win_is_arena_header b;
              r = (if arena then lpp_arena_for_header_min w p else None);
              b = b\<lparr>wrefcount := wrefcount b - 1\<rparr>; w = wset p b w
          in if wrefcount b = 0
             then bind_res (wchildren b) (\<lambda>cs. bind_res (fold_res (lpp_arc_release_min n) cs w) (\<lambda>w.
                    case r of Some r \<Rightarrow> lpp_arena_node_zero_min (lpp_arc_release_min n) w (rid r)
                    | None \<Rightarrow> if \<not> arena then lpp_arc_free_min p w else Inr w))
             else Inr w))"

text \<open>The local variants use the same interlocked operations; the release looks the arena up only for the last reference.\<close>

definition lpp_arc_retain_local_min :: "win_state \<Rightarrow> i64 \<Rightarrow> win_state res" where
  "lpp_arc_retain_local_min w p = (if p = 0 then Inr w else bind_res (wget w p) (\<lambda>b.
     if lpp_is_immortal_min b then Inr w else Inr (wset p (b\<lparr>wrefcount := wrefcount b + 1\<rparr>) w)))"

fun lpp_arc_release_local_min :: "nat \<Rightarrow> win_state \<Rightarrow> i64 \<Rightarrow> win_state res" where
  "lpp_arc_release_local_min 0 w p = Inl (Fault ''release recursion too deep'')"
| "lpp_arc_release_local_min (Suc n) w p = (if p = 0 then Inr w else bind_res (wget w p) (\<lambda>b.
     if lpp_is_immortal_min b then Inr w
     else let b = b\<lparr>wrefcount := wrefcount b - 1\<rparr>; w = wset p b w
          in if wrefcount b = 0
             then let arena = lpp_win_is_arena_header b; r = (if arena then lpp_arena_for_header_min w p else None)
                  in bind_res (wchildren b) (\<lambda>cs. bind_res (fold_res (lpp_arc_release_min n) cs w) (\<lambda>w.
                       case r of Some r \<Rightarrow> lpp_arena_node_zero_min (lpp_arc_release_min n) w (rid r)
                       | None \<Rightarrow> if \<not> arena then lpp_arc_free_min p w else Inr w))
             else Inr w))"

section \<open>Arenas\<close>

definition lpp_arena_begin_min :: "win_state \<Rightarrow> i64 \<Rightarrow> i64 \<times> win_state" where
  "lpp_arena_begin_min w addr = (let (r, w) = lpp_arc_alloc_min w addr 24
     in if r = 0 then (0, w) else (r, w\<lparr>wregions := \<lparr>rid = r, refs = 1, records = []\<rparr> # wregions w\<rparr>))"

definition lpp_arena_release_min :: "nat \<Rightarrow> win_state \<Rightarrow> i64 \<Rightarrow> win_state res" where
  "lpp_arena_release_min n w a = (if a = 0 then Inr w else lpp_arena_node_zero_min (lpp_arc_release_min n) w a)"

definition lpp_arena_alloc_min :: "nat \<Rightarrow> win_state \<Rightarrow> i64 \<Rightarrow> i64 \<Rightarrow> int \<Rightarrow> i64 \<Rightarrow> dtor \<Rightarrow> (i64 \<times> win_state) res" where
  "lpp_arena_alloc_min n w addr rec_addr sz a d = (if a = 0 \<or> sz < 0 then Inr (0, w)
     else let (p, w) = lpp_arc_alloc_with_destructor_min w addr sz d
     in if p = 0 then Inr (0, w)
        else let (record, w) = lpp_arc_alloc_min w rec_addr 16
             in if record = 0 then bind_res (lpp_arc_release_min n w p) (\<lambda>w. Inr (0, w))
                else bind_res (wget w p) (\<lambda>b. case find (\<lambda>r. rid r = a) (wregions w) of
                    None \<Rightarrow> Inl (Fault ''arena region that is not live'')
                  | Some r \<Rightarrow> Inr (p, wset_region (r\<lparr>records := (p, record) # records r, refs := refs r + 1\<rparr>)
                                     (wset p (b\<lparr>allocation_size := allocation_size b OR LPP_WIN_ARENA_FLAG\<rparr>) w))))"

definition lpp_arena_retain_min :: "win_state \<Rightarrow> i64 \<Rightarrow> win_state res" where
  "lpp_arena_retain_min w p = (if p = 0 then Inr w else bind_res (wget w p) (\<lambda>b.
     if lpp_win_is_arena_header b then lpp_arc_retain_min w p else Inr w))"

definition lpp_arena_release_node_min :: "nat \<Rightarrow> win_state \<Rightarrow> i64 \<Rightarrow> win_state res" where
  "lpp_arena_release_node_min n w p = (if p = 0 then Inr w else bind_res (wget w p) (\<lambda>b.
     if \<not> lpp_win_is_arena_header b \<or> lpp_is_immortal_min b then Inr w
     else case lpp_arena_for_header_min w p of None \<Rightarrow> Inr w
     | Some r \<Rightarrow> let b = b\<lparr>wrefcount := wrefcount b - 1\<rparr>; w = wset p b w
                 in if wrefcount b = 0
                    then bind_res (wchildren b) (\<lambda>cs. bind_res (fold_res (lpp_arc_release_min n) cs w) (\<lambda>w.
                           lpp_arena_node_zero_min (lpp_arc_release_min n) w (rid r)))
                    else Inr w))"

section \<open>Weak handles\<close>

definition lpp_weak_generation_min :: "i64 \<Rightarrow> i64" where
  "lpp_weak_generation_min p = (if p \<noteq> 0 then 1 else 0)"

definition lpp_weak_get_min :: "i64 \<Rightarrow> i64 \<Rightarrow> i64" where
  "lpp_weak_get_min raw gen = (if gen = 1 then raw else 0)"

section \<open>Tuples and tasks\<close>

definition wset_word :: "i64 \<Rightarrow> nat \<Rightarrow> i64 \<Rightarrow> win_state \<Rightarrow> win_state res" where
  "wset_word p i v w = bind_res (wget w p) (\<lambda>b. if i < length (wwords b) then Inr (wset p (b\<lparr>wwords := (wwords b)[i := v]\<rparr>) w)
     else Inl (Fault ''field outside the payload''))"

definition wget_word :: "i64 \<Rightarrow> nat \<Rightarrow> win_state \<Rightarrow> i64 res" where
  "wget_word p i w = bind_res (wget w p) (\<lambda>b. if i < length (wwords b) then Inr (wwords b ! i) else Inl (Fault ''field outside the payload''))"

definition lpp_tuple_alloc_min :: "win_state \<Rightarrow> i64 \<Rightarrow> int \<Rightarrow> i64 \<Rightarrow> i64 \<Rightarrow> (i64 \<times> win_state) res" where
  "lpp_tuple_alloc_min w addr sz mmask offsets = (if sz < 16 then Inl (Exited 101)
     else let (t, w) = lpp_arc_alloc_with_destructor_min w addr sz DTuple
     in if t = 0 then Inl (Exited 101)
        else bind_res (wset_word t 0 mmask w) (\<lambda>w. bind_res (wset_word t 1 offsets w) (\<lambda>w. Inr (t, w))))"

definition lpp_task_new_min :: "win_state \<Rightarrow> i64 \<Rightarrow> i64 \<Rightarrow> i64 \<Rightarrow> i64 \<Rightarrow> (i64 \<times> win_state) res" where
  "lpp_task_new_min w addr code environment managed = (if code = 0 \<or> environment = 0 then Inl (Exited 101)
     else let (t, w) = lpp_arc_alloc_with_destructor_min w addr 32 DTask
     in if t = 0 then Inl (Exited 101)
        else bind_res (wset_word t 0 code w) (\<lambda>w. bind_res (wset_word t 1 environment w) (\<lambda>w.
               bind_res (wset_word t 3 (task_word 0 (managed \<noteq> 0)) w) (\<lambda>w. Inr (t, w)))))"

type_synonym task_code_min = "i64 \<Rightarrow> i64 \<Rightarrow> win_state \<Rightarrow> (i64 \<times> win_state) res"

definition wset_task_state :: "i64 \<Rightarrow> u32 \<Rightarrow> win_state \<Rightarrow> win_state res" where
  "wset_task_state t s w = bind_res (wget_word t 3 w) (\<lambda>v. wset_word t 3 (task_word s (task_managed v)) w)"

definition lpp_task_poll_min :: "task_code_min \<Rightarrow> win_state \<Rightarrow> i64 \<Rightarrow> (i64 \<times> win_state) res" where
  "lpp_task_poll_min run w t = (if t = 0 then Inl (Exited 101) else bind_res (wget_word t 3 w) (\<lambda>v.
     if task_state v = 2 then Inr (1, w)
     else if task_state v \<noteq> 0 then Inl (Exited 101)
     else bind_res (wset_task_state t 1 w) (\<lambda>w. bind_res (wget_word t 0 w) (\<lambda>code. bind_res (wget_word t 1 w) (\<lambda>environment.
            bind_res (run code environment w) (\<lambda>(result, w). bind_res (wset_word t 2 result w) (\<lambda>w.
              bind_res (wset_task_state t 2 w) (\<lambda>w. Inr (1, w)))))))))"

definition lpp_executor_run_min :: "task_code_min \<Rightarrow> win_state \<Rightarrow> i64 \<Rightarrow> (i64 \<times> win_state) res" where
  "lpp_executor_run_min run w t = bind_res (lpp_task_poll_min run w t) (\<lambda>(_, w). bind_res (wget_word t 2 w) (\<lambda>r. Inr (r, w)))"

definition lpp_task_await_min :: "task_code_min \<Rightarrow> win_state \<Rightarrow> i64 \<Rightarrow> (i64 \<times> win_state) res" where
  "lpp_task_await_min run w t = bind_res (lpp_executor_run_min run w t) (\<lambda>(r, w). bind_res (wget_word t 3 w) (\<lambda>v.
     if task_managed v \<and> r \<noteq> 0 then bind_res (lpp_arc_retain_min w r) (\<lambda>w. Inr (r, w)) else Inr (r, w)))"

definition lpp_task_destroy_min :: "nat \<Rightarrow> win_state \<Rightarrow> i64 \<Rightarrow> win_state res" where
  "lpp_task_destroy_min n w t = lpp_arc_release_min n w t"

section \<open>Simulation of the host's objects\<close>

text \<open>A Windows heap matches a host heap when the same addresses hold the same fields and, for objects that are not being destroyed, the same counts; no arena is in use.\<close>

definition same_obj :: "arc_obj \<Rightarrow> win_obj \<Rightarrow> bool" where
  "same_obj obj b \<longleftrightarrow> wdtor b = destructor obj \<and> wwords b = pwords obj \<and> \<not> lpp_win_is_arena_header b \<and> (live_obj obj \<longrightarrow> wrefcount b = refcount obj)"

definition arc_matches :: "arc_state \<Rightarrow> win_state \<Rightarrow> bool" where
  "arc_matches st w \<longleftrightarrow> wregions w = [] \<and> (\<forall>p. rel_option same_obj (heap st p) (wheap w p))"

text \<open>The host ignores numbers that cannot be addresses of objects where it expects references; Windows follows them. A state is strict when its references are NULL or addresses.\<close>

definition strict_refs :: "arc_state \<Rightarrow> i64 multiset \<Rightarrow> bool" where
  "strict_refs st X \<longleftrightarrow> (\<forall>q \<in># X + edges st. q = 0 \<or> arc_addr q)"

lemma arc_matchesD: "arc_matches st w \<Longrightarrow> heap st p = Some obj \<Longrightarrow> \<exists>b. wheap w p = Some b \<and> same_obj obj b"
  by (auto simp: arc_matches_def dest!: spec [of _ p] elim: option.rel_cases)

lemma arc_matches_upd:
  "arc_matches st w \<Longrightarrow> same_obj obj b \<Longrightarrow> arc_matches (set_obj p obj st) (wset p b w)"
  by (auto simp: arc_matches_def wset_def)

lemma arc_matches_free:
  "arc_matches st w \<Longrightarrow> arc_matches (st\<lparr>heap := (heap st)(p := None)\<rparr>) (w\<lparr>wheap := (wheap w)(p := None)\<rparr>)"
  by (auto simp: arc_matches_def)

lemma wchildren_same: "same_obj obj b \<Longrightarrow> wchildren b = children obj"
  unfolding wchildren_def by (rule children_cong) (simp_all add: same_obj_def)

lemma arena_header_count [simp]: "lpp_win_is_arena_header (b\<lparr>wrefcount := n\<rparr>) = lpp_win_is_arena_header b"
  by (simp add: lpp_win_is_arena_header_def)

lemma arena_for_header_wset [simp]: "lpp_arena_for_header_min (wset p b w) q = lpp_arena_for_header_min w q"
  by (simp add: lpp_arena_for_header_min_def wset_def)

lemma wchildren_count [simp]: "wchildren (b\<lparr>wrefcount := n\<rparr>) = wchildren b"
  unfolding wchildren_def by (rule children_cong) simp_all

lemma shrinks_edges:
  assumes "shrinks a b" "finite (dom (heap a))" "q \<in># edges b"
  shows "q \<in># edges a"
proof -
  have none: "heap b r = None" if "heap a r = None" for r using assms(1) that by (auto simp: shrinks_def dest!: spec [of _ r])
  then have fin: "finite (dom (heap b))" by (intro finite_subset [OF _ assms(2)]) (metis domIff subsetI)
  obtain r obj where r: "heap b r = Some obj" "live_obj obj" "q \<in> set (kids obj)" using edge_source [OF fin assms(3)] by blast
  obtain obj' where a: "heap a r = Some obj'" using r(1) none [of r] by fastforce
  then obtain n where o: "heap a r = Some obj'" "live_obj obj'" "obj = obj'\<lparr>refcount := n\<rparr>"
    using assms(1) r(1,2) by (auto simp: shrinks_def dest!: spec [of _ r] split: if_splits)
  have "kids obj = kids obj'" by (rule kids_cong) (simp_all add: o(3))
  then have "q \<in># mset (kids (the (heap a r)))" "r \<in> {r. live a r}" using r o by (auto simp: live_def)
  then show ?thesis unfolding edges_def using finite_live [OF assms(2)] by (subst sum.remove [of _ r]) auto
qed

lemma strict_shrinks:
  "strict_refs a (X + Y) \<Longrightarrow> shrinks a b \<Longrightarrow> finite (dom (heap a)) \<Longrightarrow> strict_refs b Y"
  using shrinks_edges by (auto simp: strict_refs_def)

text \<open>What a release has to promise for the simulation, at a depth of \<open>n\<close>.\<close>

definition sim_releases :: "nat \<Rightarrow> bool" where
  "sim_releases n \<longleftrightarrow> (\<forall>st w p X. rc_inv st (add_mset p X) \<longrightarrow> strict_refs st (add_mset p X) \<longrightarrow> arc_matches st w \<longrightarrow> card {q. live st q} < n \<longrightarrow>
     (\<exists>st' w'. lpp_arc_release n st p = Inr st' \<and> lpp_arc_release_min n w p = Inr w' \<and> arc_matches st' w'))"

lemma sim_fold:
  assumes "sim_releases n"
  shows "rc_inv st (mset cs + X) \<Longrightarrow> strict_refs st (mset cs + X) \<Longrightarrow> arc_matches st w \<Longrightarrow> card {q. live st q} < n \<Longrightarrow>
    \<exists>st' w'. fold_res (lpp_arc_release n) cs st = Inr st' \<and> fold_res (lpp_arc_release_min n) cs w = Inr w' \<and> arc_matches st' w'"
proof (induction cs arbitrary: st w)
  case (Cons c cs)
  have inv: "rc_inv st (add_mset c (mset cs + X))" and str: "strict_refs st (add_mset c (mset cs + X))" using Cons.prems by simp_all
  obtain s v where s: "lpp_arc_release n st c = Inr s" "lpp_arc_release_min n w c = Inr v" "arc_matches s v"
    using assms inv str Cons.prems(3,4) unfolding sim_releases_def by blast
  have sh: "rc_inv s (mset cs + X)" "shrinks st s" using releasesD [OF release_ok inv Cons.prems(4)] s(1) by auto
  have fin: "finite (dom (heap st))" using inv by (rule rc_invD)
  have "strict_refs s (mset cs + X)" using strict_shrinks [of st "{#c#}" "mset cs + X" s] str sh(2) fin by simp
  moreover have "card {q. live s q} < n" using shrinks_card [OF sh(2) fin] Cons.prems(4) by simp
  ultimately show ?case using Cons.IH [OF sh(1) _ s(3)] s(1,2) by simp
qed simp


lemma sim_release: "sim_releases n"
proof (induction n)
  case 0
  show ?case by (simp add: sim_releases_def)
next
  case (Suc n)
  show ?case unfolding sim_releases_def
  proof (intro allI impI)
    fix st w p X
    assume inv: "rc_inv st (add_mset p X)" and str: "strict_refs st (add_mset p X)" and m: "arc_matches st w" and n: "card {q. live st q} < Suc n"
    obtain st' where r: "lpp_arc_release (Suc n) st p = Inr st'" using releasesD [OF release_ok inv n] by blast
    show "\<exists>st' w'. lpp_arc_release (Suc n) st p = Inr st' \<and> lpp_arc_release_min (Suc n) w p = Inr w' \<and> arc_matches st' w'"
    proof (cases "p = 0")
      case True
      then show ?thesis using m by (simp add: valid_arc_ptr_other arc_addr_def)
    next
      case False
      then have a: "arc_addr p" using str by (auto simp: strict_refs_def)
      then obtain obj where o: "heap st p = Some obj" "live_obj obj" using rc_inv_ref [OF inv] by (auto simp: live_def)
      obtain b where b: "wheap w p = Some b" "same_obj obj b" using arc_matchesD [OF m o(1)] by blast
      have g: "wget w p = Inr b" "get_obj st p = Inr obj" using b o by (simp_all add: wget_def get_obj_def)
      have c: "wrefcount b = refcount obj" "\<not> lpp_win_is_arena_header b" using b(2) o(2) by (simp_all add: same_obj_def)
      have i: "lpp_is_immortal_min b = lpp_is_immortal obj" by (simp add: lpp_is_immortal_min_def lpp_is_immortal_def c)
      note v = valid_arc_ptr_live [OF o a]
      have noarena: "lpp_arena_for_header st p = None" using rc_invD(2) [OF inv] by (simp add: lpp_arena_for_header_def)
      consider "lpp_is_immortal obj" | "\<not> lpp_is_immortal obj" "refcount obj \<noteq> 1" | "\<not> lpp_is_immortal obj" "refcount obj = 1" by blast
      then show ?thesis
      proof cases
        case 1
        then show ?thesis using m v g i False by simp
      next
        case 2
        have "same_obj (obj\<lparr>refcount := refcount obj - 1\<rparr>) (b\<lparr>wrefcount := wrefcount b - 1\<rparr>)" using b(2) o(2) by (auto simp: same_obj_def lpp_win_is_arena_header_def)
        from arc_matches_upd [OF m this, of p] show ?thesis using 2 v g i c False by (simp add: Let_def)
      next
        case 3
        let ?d = "obj\<lparr>refcount := 0, generation := generation obj + 1, magic := 0\<rparr>" and ?b = "b\<lparr>wrefcount := 0\<rparr>"
        let ?st = "set_obj p ?d st"
        note k = rc_inv_kill [OF inv o 3 refl, of "generation obj + 1"]
        obtain cs where cs: "children obj = Inr cs" "kids obj = cs"
          using rc_invD(3) [OF inv o] by (auto simp: counted_def is_ok_iff kids_def)
        have cd: "children ?d = Inr cs" "wchildren ?b = Inr cs"
          using cs(1) wchildren_same [OF b(2)] by (simp_all add: children_cong [of ?d obj])
        have e: "edges st = edges ?st + mset cs"
          using edges_update [OF rc_invD(1) [OF inv], of ?st p "Some ?d"] o cs(2) by (simp add: live_def live_obj_def LPP_ARC_MAGIC_def)
        have "same_obj ?d ?b" using b(2) by (simp add: same_obj_def lpp_win_is_arena_header_def live_obj_def LPP_ARC_MAGIC_def)
        note mm = arc_matches_upd [OF m this, of p]
        have "strict_refs ?st (mset cs + X)" using str e by (auto simp: strict_refs_def)
        moreover have "card {q. live ?st q} < n" using k(3) n by simp
        ultimately obtain s u where s: "fold_res (lpp_arc_release n) cs ?st = Inr s" "fold_res (lpp_arc_release_min n) cs (wset p ?b w) = Inr u" "arc_matches s u"
          using sim_fold [OF Suc.IH, of ?st cs X "wset p ?b w"] k(1) cs(2) mm by auto
        have rel: "lpp_arc_release (Suc n) st p = free_obj p s"
          using v g 3 noarena cd s(1) by (simp add: Let_def lpp_invalidate_generation_def)
        then have st': "heap s p \<noteq> None" "st' = s\<lparr>heap := (heap s)(p := None)\<rparr>" using r by (auto simp: free_obj_def split: if_splits)
        then have "wheap u p \<noteq> None" using arc_matchesD [OF s(3)] by auto
        moreover have "lpp_arc_release_min (Suc n) w p = lpp_arc_free_min p u"
          using g 3 c i cd s(2) False by (simp add: Let_def lpp_win_is_arena_header_def)
        ultimately have "lpp_arc_release_min (Suc n) w p = Inr (u\<lparr>wheap := (wheap u)(p := None)\<rparr>)" by (simp only: lpp_arc_free_min_def if_False)
        with r arc_matches_free [OF s(3), of p] show ?thesis unfolding st'(2) by blast
      qed
    qed
  qed
qed


lemma sim_alloc:
  assumes "arc_matches st w" "lpp_arc_alloc_with_destructor st a sz d = Inr (a, st')" "a \<noteq> 0" "sz < 2 ^ 62"
  shows "\<exists>w'. lpp_arc_alloc_with_destructor_min w a sz d = (a, w') \<and> arc_matches st' w'"
proof -
  have sz: "0 \<le> sz" "sz \<le> 2 ^ 64 - 1 - 24" using assms(2-4) by (auto simp: lpp_arc_alloc_with_destructor_def split: if_splits)
  let ?b = "\<lparr>wrefcount = 1, wdtor = d, allocation_size = word_of_int (sz + 24), wwords = replicate (nat ((sz + 7) div 8)) 0\<rparr>"
  have "\<not> bit (sz + 24) 63"
  proof -
    have "(sz + 24) div 2 ^ 63 = 0" using sz assms(4) by (intro div_pos_pos_trivial) auto
    then show ?thesis by (simp add: bit_iff_odd)
  qed
  then have "\<not> bit (word_of_int (sz + 24) :: u64) 63" by (simp only: bit_word_of_int_iff) simp
  then have "\<not> lpp_win_is_arena_header ?b"
    by (simp only: lpp_win_is_arena_header_def LPP_WIN_ARENA_FLAG_def and_exp_eq_0_iff_not_bit push_bit_of_1 win_obj.simps) simp
  moreover obtain g obj where st': "st' = set_obj a obj (st\<lparr>gen_counter := g\<rparr>)" "destructor obj = d" "pwords obj = wwords ?b" "refcount obj = 1"
    using assms(2,3) sz by (auto simp: lpp_arc_alloc_with_destructor_def lpp_next_generation_def Let_def split: if_splits)
  ultimately have "same_obj obj ?b" by (simp add: same_obj_def)
  moreover have "arc_matches (st\<lparr>gen_counter := g\<rparr>) w" using assms(1) by (simp add: arc_matches_def)
  ultimately have "arc_matches st' (wset a ?b w)" unfolding st'(1) by (rule arc_matches_upd [rotated])
  then show ?thesis using sz assms(3) by (simp add: lpp_arc_alloc_with_destructor_min_def)
qed

lemma sim_retain:
  assumes "arc_matches st w" "rc_inv st R" "strict_refs st R" "p \<in># R + edges st" "lpp_arc_retain st p = Inr st'"
  shows "\<exists>w'. lpp_arc_retain_min w p = Inr w' \<and> arc_matches st' w'"
proof (cases "p = 0")
  case True
  then show ?thesis using assms(1,5) by (simp add: lpp_arc_retain_def lpp_arc_retain_min_def valid_arc_ptr_other arc_addr_def)
next
  case False
  then have a: "arc_addr p" using assms(3,4) by (auto simp: strict_refs_def)
  then obtain obj where o: "heap st p = Some obj" "live_obj obj" using rc_invD(4) [OF assms(2,4)] by (auto simp: ref_ok_def live_def)
  obtain b where b: "wheap w p = Some b" "same_obj obj b" using arc_matchesD [OF assms(1) o(1)] by blast
  then have c: "wrefcount b = refcount obj" using o(2) by (simp add: same_obj_def)
  have "same_obj (obj\<lparr>refcount := refcount obj + 1\<rparr>) (b\<lparr>wrefcount := wrefcount b + 1\<rparr>)" using b(2) o(2) by (auto simp: same_obj_def lpp_win_is_arena_header_def)
  from arc_matches_upd [OF assms(1) this, of p] show ?thesis
    using assms(1,5) valid_arc_ptr_live [OF o a] o b c False
    by (auto simp: lpp_arc_retain_def lpp_arc_retain_min_def get_obj_def wget_def lpp_is_immortal_def lpp_is_immortal_min_def split: if_splits)
qed

lemma sim_store:
  assumes "arc_matches st w" "set_word p i v st = Inr st'"
  shows "\<exists>w'. wset_word p i v w = Inr w' \<and> arc_matches st' w'"
proof -
  obtain obj where o: "heap st p = Some obj" "i < length (pwords obj)" "st' = set_obj p (obj\<lparr>pwords := (pwords obj)[i := v]\<rparr>) st"
    using assms(2) by (auto simp: set_word_def get_obj_def split: option.splits if_splits)
  obtain b where b: "wheap w p = Some b" "same_obj obj b" using arc_matchesD [OF assms(1) o(1)] by blast
  have "same_obj (obj\<lparr>pwords := (pwords obj)[i := v]\<rparr>) (b\<lparr>wwords := (wwords b)[i := v]\<rparr>)"
    using b(2) by (auto simp: same_obj_def lpp_win_is_arena_header_def live_obj_def)
  from arc_matches_upd [OF assms(1) this, of p] show ?thesis using b o by (simp add: wset_word_def wget_def same_obj_def)
qed


text \<open>C40: Reference counting on Windows refines that of the host. On a heap that matches one a host program can reach, with references that are NULL or addresses of objects, every allocation, store and retain of the host is
  matched, and releasing a held reference \<open>p\<close> succeeds, never follows a pointer to freed memory and leaves matching heaps; the object is freed exactly with its last reference, unless it is immortal.\<close>

theorem lpp_arc_min_refines:
  assumes "arc_reachable (st, R)" "strict_refs st R" "arc_matches st w"
  shows "(\<forall>a sz d st'. arc_addr a \<and> sz < 2 ^ 62 \<and> lpp_arc_alloc_with_destructor st a sz d = Inr (a, st') \<longrightarrow>
      (\<exists>w'. lpp_arc_alloc_with_destructor_min w a sz d = (a, w') \<and> arc_matches st' w')) \<and>
    (\<forall>p i v st'. set_word p i v st = Inr st' \<longrightarrow> (\<exists>w'. wset_word p i v w = Inr w' \<and> arc_matches st' w')) \<and>
    (\<forall>p st'. p \<in># R + edges st \<and> lpp_arc_retain st p = Inr st' \<longrightarrow> (\<exists>w'. lpp_arc_retain_min w p = Inr w' \<and> arc_matches st' w')) \<and>
    (\<forall>p n. p \<in># R \<and> enough_fuel n st \<longrightarrow> (\<exists>st' w'. lpp_arc_release n st p = Inr st' \<and> lpp_arc_release_min n w p = Inr w' \<and> arc_matches st' w' \<and>
      (\<forall>b. wheap w p = Some b \<and> p \<noteq> 0 \<and> \<not> lpp_is_immortal_min b \<longrightarrow> (wheap w' p = None \<longleftrightarrow> wrefcount b = 1))))"
proof (intro conjI allI impI)
  have inv: "rc_inv st R" using assms(1) by (rule reachable_inv)
  fix p show "p \<in># R + edges st \<and> lpp_arc_retain st p = Inr st' \<Longrightarrow> \<exists>w'. lpp_arc_retain_min w p = Inr w' \<and> arc_matches st' w'" for st'
    using sim_retain [OF assms(3) inv assms(2)] by blast
  fix n assume p: "p \<in># R \<and> enough_fuel n st"
  then obtain X where X: "R = add_mset p X" by (metis insert_DiffM)
  obtain st' w' where r: "lpp_arc_release n st p = Inr st'" "lpp_arc_release_min n w p = Inr w'" "arc_matches st' w'"
    using sim_release [of n] inv assms(2,3) p unfolding X sim_releases_def enough_fuel_def by blast
  have "wheap w' p = None \<longleftrightarrow> wrefcount b = 1" if b: "wheap w p = Some b" "p \<noteq> 0" "\<not> lpp_is_immortal_min b" for b
  proof -
    have a: "arc_addr p" using assms(2) b(2) by (auto simp: X strict_refs_def)
    then obtain obj where o: "heap st p = Some obj" "live_obj obj" using rc_inv_ref [OF inv [unfolded X]] by (auto simp: live_def)
    then have c: "wrefcount b = refcount obj" using arc_matchesD [OF assms(3) o(1)] b(1) by (auto simp: same_obj_def)
    then have "\<not> lpp_is_immortal obj" using b(3) by (simp add: lpp_is_immortal_min_def lpp_is_immortal_def)
    then have "heap st' p = None \<longleftrightarrow> refcount obj = 1" using release_last [OF r(1) o a] rc_invD(2) [OF inv] by blast
    moreover have "heap st' p = None \<longleftrightarrow> wheap w' p = None" using r(3) by (auto simp: arc_matches_def dest!: spec [of _ p] elim: option.rel_cases)
    ultimately show ?thesis using c by simp
  qed
  with r show "\<exists>st' w'. lpp_arc_release n st p = Inr st' \<and> lpp_arc_release_min n w p = Inr w' \<and> arc_matches st' w' \<and>
      (\<forall>b. wheap w p = Some b \<and> p \<noteq> 0 \<and> \<not> lpp_is_immortal_min b \<longrightarrow> (wheap w' p = None \<longleftrightarrow> wrefcount b = 1))" by blast
qed (use sim_alloc [OF assms(3)] sim_store [OF assms(3)] in \<open>auto simp: arc_addr_def\<close>)

definition one_win :: win_state where
  "one_win = \<lparr>wheap = [0x20000 \<mapsto> \<lparr>wrefcount = 1, wdtor = DNone, allocation_size = 32, wwords = [0]\<rparr>], wregions = []\<rparr>"

theorem lpp_arc_min_refines_witness: "\<exists>w'. lpp_arc_release_min 2 one_win 0x20000 = Inr w' \<and> wheap w' 0x20000 = None"
proof -
  have st: "strict_refs one_obj {#0x20000#}" by (simp add: strict_refs_def one_obj_edges arc_addr_def)
  have m: "arc_matches one_obj one_win"
    by (auto simp: arc_matches_def one_win_def same_obj_def lpp_win_is_arena_header_def LPP_WIN_ARENA_FLAG_def one_obj_def)
  have "0x20000 \<in># {#0x20000 :: i64#} \<and> enough_fuel 2 one_obj" using one_obj_fuel by (simp add: numeral_2_eq_2)
  then have "\<exists>st' w'. lpp_arc_release 2 one_obj 0x20000 = Inr st' \<and> lpp_arc_release_min 2 one_win 0x20000 = Inr w' \<and> arc_matches st' w' \<and>
      (\<forall>b. wheap one_win 0x20000 = Some b \<and> (0x20000 :: i64) \<noteq> 0 \<and> \<not> lpp_is_immortal_min b \<longrightarrow> (wheap w' 0x20000 = None \<longleftrightarrow> wrefcount b = 1))"
    using lpp_arc_min_refines [OF one_obj_reachable st m] by blast
  then show ?thesis by (auto simp: one_win_def lpp_is_immortal_min_def LPP_ARC_IMMORTAL_def)
qed

section \<open>Weak handles resolve to anything\<close>

text \<open>A weak handle keeps no generation: it resolves to its address for ever, to freed memory after the object is gone and to another object once the heap uses the address again.\<close>

theorem lpp_weak_get_min_stale:
  assumes "p \<noteq> 0" "lpp_arc_release_min n w p = Inr w'" "wheap w' p = None"
    and "lpp_arc_alloc_with_destructor_min w' p sz d = (p, w2)"
  shows "lpp_weak_get_min p (lpp_weak_generation_min p) = p \<and> wheap w' p = None \<and> (\<exists>b. wheap w2 p = Some b \<and> wdtor b = d)"
  using assms by (auto simp: lpp_weak_get_min_def lpp_weak_generation_min_def lpp_arc_alloc_with_destructor_min_def wset_def split: if_splits)

text \<open>The local release does what the atomic one does.\<close>

theorem lpp_arc_release_local_min_eq:
  "lpp_arc_release_local_min n w p = lpp_arc_release_min n w p \<and> lpp_arc_retain_local_min w p = lpp_arc_retain_min w p"
  by (cases n; cases "wget w p") (simp_all add: lpp_arc_retain_local_min_def lpp_arc_retain_min_def Let_def)

end
