(* ===== verification/Lpp_Min_Map.thy ===== *)
theory Lpp_Min_Map
  imports Lpp_Map Lpp_Min_List
begin

text \<open>
  The hash map of the freestanding Windows runtime, \<^verbatim>\<open>runtime/windows_x86_64_min.c\<close>. Its statements are those of \<open>Lpp_Map\<close> in a third environment: string keys are compared by its own \<open>lpp_strcmp\<close>, tables come from
  \<open>VirtualAlloc\<close> and exhausted memory ends the program with status 101. The lists of keys and values are those of \<open>Lpp_Min_List\<close>.
\<close>

section \<open>The environment\<close>

text \<open>\<open>while (*a && *a == *b) { a++; b++; } return *a - *b;\<close> on signed characters.\<close>

definition schar :: "char \<Rightarrow> int" where
  "schar c = (let n = int (of_char c) in if n \<ge> 128 then n - 256 else n)"

fun lpp_strcmp :: "string \<Rightarrow> string \<Rightarrow> int" where
  "lpp_strcmp (c # a) (d # b) = (if c = d then lpp_strcmp a b else schar c - schar d)"
| "lpp_strcmp (c # a) [] = schar c - 0"
| "lpp_strcmp [] (d # b) = 0 - schar d"
| "lpp_strcmp [] [] = 0"

definition min_env :: "(int \<Rightarrow> bool) \<Rightarrow> strmem \<Rightarrow> map_env" where
  "min_env vfail sm = \<lparr>str_at = sm,
     key_eq = (\<lambda>p q. case (sm p, sm q) of (Some a, Some b) \<Rightarrow> Inr (lpp_strcmp a b = 0) | _ \<Rightarrow> Inl (Fault ''read of an invalid string'')),
     table_oom = (\<lambda>n. vfail (lpp_page_round (int n * 24))), new_fault = Exited 101, rehash_fault = Exited 101\<rparr>"

section \<open>Operations\<close>

definition lpp_map_hash_str :: "cstr \<Rightarrow> u64" where "lpp_map_hash_str = lpp_hash_str"
definition lpp_map_hash_int :: "i64 \<Rightarrow> u64" where "lpp_map_hash_int = lpp_hash_int"

definition lpp_map_destroy_min :: "LppMap option \<Rightarrow> LppMap option \<times> arc_ev list" where
  "lpp_map_destroy_min = lpp_map_destroy"

definition lpp_map_new_with_mode_min :: "(int \<Rightarrow> bool) \<Rightarrow> bool \<Rightarrow> bool \<Rightarrow> LppMap option res" where
  "lpp_map_new_with_mode_min vfail arc_oom av = lpp_map_new_with_mode (min_env vfail (\<lambda>_. None)) arc_oom av"

definition lpp_map_new_min :: "(int \<Rightarrow> bool) \<Rightarrow> bool \<Rightarrow> LppMap option res" where
  "lpp_map_new_min vfail arc_oom = lpp_map_new_with_mode_min vfail arc_oom False"

definition lpp_map_new_arc_min :: "(int \<Rightarrow> bool) \<Rightarrow> bool \<Rightarrow> LppMap option res" where
  "lpp_map_new_arc_min vfail arc_oom = lpp_map_new_with_mode_min vfail arc_oom True"

definition lpp_map_rehash_min :: "(int \<Rightarrow> bool) \<Rightarrow> strmem \<Rightarrow> LppMap \<Rightarrow> nat \<Rightarrow> LppMap res" where
  "lpp_map_rehash_min vfail sm m new_cap = lpp_map_rehash (min_env vfail sm) m new_cap"

definition lpp_map_put_internal_min :: "(int \<Rightarrow> bool) \<Rightarrow> strmem \<Rightarrow> LppMap option \<Rightarrow> i64 \<Rightarrow> i64 \<Rightarrow> bool \<Rightarrow> (LppMap option \<times> arc_ev list) res" where
  "lpp_map_put_internal_min vfail sm mp key v is_str = lpp_map_put_internal (min_env vfail sm) mp key v is_str"

definition lpp_map_put_min :: "(int \<Rightarrow> bool) \<Rightarrow> strmem \<Rightarrow> LppMap option \<Rightarrow> i64 \<Rightarrow> i64 \<Rightarrow> (LppMap option \<times> arc_ev list) res" where
  "lpp_map_put_min vfail sm mp key v = lpp_map_put_internal_min vfail sm mp key v False"

definition lpp_map_put_str_min :: "(int \<Rightarrow> bool) \<Rightarrow> strmem \<Rightarrow> LppMap option \<Rightarrow> i64 \<Rightarrow> i64 \<Rightarrow> (LppMap option \<times> arc_ev list) res" where
  "lpp_map_put_str_min vfail sm mp key v = lpp_map_put_internal_min vfail sm mp key v True"

definition lpp_map_get_min :: "(int \<Rightarrow> bool) \<Rightarrow> strmem \<Rightarrow> LppMap option \<Rightarrow> i64 \<Rightarrow> i64 res" where
  "lpp_map_get_min vfail sm = lpp_map_get (min_env vfail sm)"

definition lpp_map_get_str_min :: "(int \<Rightarrow> bool) \<Rightarrow> strmem \<Rightarrow> LppMap option \<Rightarrow> i64 \<Rightarrow> i64 res" where
  "lpp_map_get_str_min vfail sm = lpp_map_get_str (min_env vfail sm)"

definition lpp_map_has_min :: "(int \<Rightarrow> bool) \<Rightarrow> strmem \<Rightarrow> LppMap option \<Rightarrow> i64 \<Rightarrow> bool res" where
  "lpp_map_has_min vfail sm = lpp_map_has (min_env vfail sm)"

definition lpp_map_has_str_min :: "(int \<Rightarrow> bool) \<Rightarrow> strmem \<Rightarrow> LppMap option \<Rightarrow> i64 \<Rightarrow> bool res" where
  "lpp_map_has_str_min vfail sm = lpp_map_has_str (min_env vfail sm)"

definition lpp_map_len_min :: "LppMap option \<Rightarrow> nat" where
  "lpp_map_len_min mp = (case mp of None \<Rightarrow> 0 | Some m \<Rightarrow> mlen m)"

definition lpp_map_remove_min :: "(int \<Rightarrow> bool) \<Rightarrow> strmem \<Rightarrow> LppMap option \<Rightarrow> i64 \<Rightarrow> (LppMap option \<times> arc_ev list) res" where
  "lpp_map_remove_min vfail sm = lpp_map_remove (min_env vfail sm)"

definition lpp_map_remove_str_min :: "(int \<Rightarrow> bool) \<Rightarrow> strmem \<Rightarrow> LppMap option \<Rightarrow> i64 \<Rightarrow> (LppMap option \<times> arc_ev list) res" where
  "lpp_map_remove_str_min vfail sm = lpp_map_remove_str (min_env vfail sm)"

definition lpp_map_put_float_min :: "(int \<Rightarrow> bool) \<Rightarrow> strmem \<Rightarrow> LppMap option \<Rightarrow> i64 \<Rightarrow> i64 \<Rightarrow> (LppMap option \<times> arc_ev list) res" where
  "lpp_map_put_float_min vfail sm mp key bits = lpp_map_put_min vfail sm mp key bits"

definition lpp_map_get_float_min :: "(int \<Rightarrow> bool) \<Rightarrow> strmem \<Rightarrow> LppMap option \<Rightarrow> i64 \<Rightarrow> i64 res" where
  "lpp_map_get_float_min vfail sm mp key = lpp_map_get_min vfail sm mp key"

definition lpp_map_put_str_float_min :: "(int \<Rightarrow> bool) \<Rightarrow> strmem \<Rightarrow> LppMap option \<Rightarrow> i64 \<Rightarrow> i64 \<Rightarrow> (LppMap option \<times> arc_ev list) res" where
  "lpp_map_put_str_float_min vfail sm mp key bits = lpp_map_put_str_min vfail sm mp key bits"

definition lpp_map_clear_min :: "LppMap option \<Rightarrow> LppMap option \<times> arc_ev list" where
  "lpp_map_clear_min = lpp_map_clear"

definition lpp_map_capacity_min :: "LppMap option \<Rightarrow> nat" where
  "lpp_map_capacity_min = lpp_map_capacity"

text \<open>\<open>copies n\<close> is the address of the copy of the n-th string key.\<close>

fun keys_loop_min :: "(int \<Rightarrow> bool) \<Rightarrow> (nat \<Rightarrow> i64) \<Rightarrow> LppMapEntry list \<Rightarrow> nat \<Rightarrow> fslistp \<Rightarrow> (fslistp \<times> arc_ev list) res" where
  "keys_loop_min vfail copies [] n l = Inr (l, [])"
| "keys_loop_min vfail copies (e # es) n l = (if occupied e = SOccupied
     then bind_res (if is_str_key e then lpp_list_push_arc_min vfail l (copies n) else lpp_list_push_min vfail l (ekey e)) (\<lambda>(l, ev).
            bind_res (keys_loop_min vfail copies es (if is_str_key e then n + 1 else n) l) (\<lambda>(l, evs). Inr (l, ev @ evs)))
     else keys_loop_min vfail copies es n l)"

definition lpp_map_keys_min :: "(int \<Rightarrow> bool) \<Rightarrow> bool \<Rightarrow> (nat \<Rightarrow> i64) \<Rightarrow> LppMap option \<Rightarrow> (fslistp \<times> arc_ev list) res" where
  "lpp_map_keys_min vfail oom copies mp = (case mp of None \<Rightarrow> Inr (lpp_list_new_min oom, [])
   | Some m \<Rightarrow> if mlen m = 0 then Inr (lpp_list_new_min oom, [])
       else let has_str = list_ex (\<lambda>e. occupied e = SOccupied \<and> is_str_key e) (entries m)
            in keys_loop_min vfail copies (entries m) 0 (if has_str then lpp_list_new_arc_min oom else lpp_list_new_min oom))"

fun values_loop_min :: "(int \<Rightarrow> bool) \<Rightarrow> bool \<Rightarrow> LppMapEntry list \<Rightarrow> fslistp \<Rightarrow> (fslistp \<times> arc_ev list) res" where
  "values_loop_min vfail av [] l = Inr (l, [])"
| "values_loop_min vfail av (e # es) l = (if occupied e = SOccupied
     then bind_res (if av then lpp_list_push_arc_min vfail l (eval e) else lpp_list_push_min vfail l (eval e)) (\<lambda>(l, ev).
            bind_res (values_loop_min vfail av es l) (\<lambda>(l, evs). Inr (l, ev @ evs)))
     else values_loop_min vfail av es l)"

definition lpp_map_values_min :: "(int \<Rightarrow> bool) \<Rightarrow> bool \<Rightarrow> LppMap option \<Rightarrow> (fslistp \<times> arc_ev list) res" where
  "lpp_map_values_min vfail oom mp = (case mp of None \<Rightarrow> Inr (lpp_list_new_min oom, [])
   | Some m \<Rightarrow> if mlen m = 0 then Inr (lpp_list_new_min oom, [])
       else values_loop_min vfail (arc_values m) (entries m) (if arc_values m then lpp_list_new_arc_min oom else lpp_list_new_min oom))"

section \<open>The comparison\<close>

lemma schar_eq: "schar c = schar d \<longleftrightarrow> c = d"
proof -
  have "(if 128 \<le> int x then int x - 256 else int x) = (if 128 \<le> int y then int y - 256 else int y) \<longleftrightarrow> x = y" if "x < 256" "y < 256" for x y
    using that by auto
  from this [of "of_char c" "of_char d"] show ?thesis by (simp add: schar_def Let_def)
qed

lemma schar_zero: "schar c = 0 \<longleftrightarrow> c = CHR 0x00"
proof -
  have "schar CHR 0x00 = 0" by code_simp
  then show ?thesis using schar_eq [of c "CHR 0x00"] by simp
qed

lemma lpp_strcmp_eq: "nul_free a \<Longrightarrow> nul_free b \<Longrightarrow> lpp_strcmp a b = 0 \<longleftrightarrow> a = b"
  by (induction a b rule: lpp_strcmp.induct) (auto simp: schar_eq schar_zero nul_free_def)

definition c_str_at :: "strmem \<Rightarrow> i64 \<Rightarrow> bool" where
  "c_str_at sm p \<longleftrightarrow> (case sm p of None \<Rightarrow> False | Some s \<Rightarrow> nul_free s)"

interpretation min_map: map_keys "min_env vfail sm" "c_str_at sm" for vfail sm
  by unfold_locales (auto simp: min_env_def c_str_at_def lpp_strcmp_eq split: option.splits)

section \<open>The map is a partial function\<close>

text \<open>The Windows map, with its own comparison of string keys, answers like a partial function after any sequence of insertions, removals and clears; a map that owns its values retains each as often as it releases it. The only
  other outcome is the exit when there is no memory for a larger table.\<close>

theorem lpp_map_min_refines_partial_function:
  assumes "lpp_map_new_with_mode_min vfail arc_oom av = Inr (Some m0)" "list_all (op_keys_valid (c_str_at sm)) ops"
  shows "run_map (min_env vfail sm) ops (Some m0) = Inl (Exited 101) \<and> (\<exists>n. vfail n) \<or>
    (\<exists>m evs. run_map (min_env vfail sm) ops (Some m0) = Inr (Some m, evs) \<and>
       (\<forall>k. lpp_map_get_min vfail sm (Some m) k = Inr (value_or_0 (spec_map sm ops (KInt k))) \<and>
            lpp_map_has_min vfail sm (Some m) k = Inr (spec_map sm ops (KInt k) \<noteq> None)) \<and>
       (\<forall>k s. sm k = Some s \<and> nul_free s \<and> k \<noteq> 0 \<longrightarrow>
          lpp_map_get_str_min vfail sm (Some m) k = Inr (value_or_0 (spec_map sm ops (KStr s))) \<and>
          lpp_map_has_str_min vfail sm (Some m) k = Inr (spec_map sm ops (KStr s) \<noteq> None)) \<and>
       lpp_map_len_min (Some m) = card (dom (spec_map sm ops)) \<and>
       (av \<longrightarrow> retained evs = released (evs @ snd (lpp_map_destroy_min (Some m)))))"
proof -
  let ?E = "min_env vfail sm"
  have new: "lpp_map_new_with_mode ?E arc_oom av = Inr (Some m0)"
    using assms(1) by (simp add: lpp_map_new_with_mode_min_def lpp_map_new_with_mode_def alloc_entries_def min_env_def split: if_splits option.splits)
  have f: "str_at ?E = sm" "rehash_fault ?E = Exited 101" "table_oom ?E = (\<lambda>n. vfail (lpp_page_round (int n * 24)))" by (simp_all add: min_env_def)
  from min_map.client_view [OF new assms(2), unfolded f] show ?thesis
  proof (elim disjE exE conjE)
    fix m evs
    assume r: "run_map ?E ops (Some m0) = Inr (Some m, evs)"
      "\<forall>k. lpp_map_get ?E (Some m) k = Inr (value_or_0 (spec_map sm ops (KInt k)))"
      "\<forall>k. lpp_map_has ?E (Some m) k = Inr (spec_map sm ops (KInt k) \<noteq> None)"
      "\<forall>k. c_str_at sm k \<and> k \<noteq> 0 \<longrightarrow> lpp_map_get_str ?E (Some m) k = Inr (value_or_0 (spec_map sm ops (KStr (the (sm k))))) \<and>
        lpp_map_has_str ?E (Some m) k = Inr (spec_map sm ops (KStr (the (sm k))) \<noteq> None)"
      "lpp_map_len (Some m) = card (dom (spec_map sm ops))"
    have "av \<longrightarrow> retained evs = released (evs @ snd (lpp_map_destroy (Some m)))" using min_map.ownership_balance [OF _ assms(2) r(1), of arc_oom] new by auto
    moreover have "lpp_map_get_str ?E (Some m) k = Inr (value_or_0 (spec_map sm ops (KStr s))) \<and> lpp_map_has_str ?E (Some m) k = Inr (spec_map sm ops (KStr s) \<noteq> None)"
      if "sm k = Some s \<and> nul_free s \<and> k \<noteq> 0" for k s using r(4) [rule_format, of k] that by (simp add: c_str_at_def)
    ultimately show ?thesis using r(1,2,3,5)
      by (intro disjI2 exI [of _ m] exI [of _ evs]) (simp add: lpp_map_get_min_def lpp_map_has_min_def lpp_map_get_str_min_def lpp_map_has_str_min_def
        lpp_map_destroy_min_def lpp_map_len_min_def lpp_map_len_def)
  qed auto
qed

theorem lpp_map_min_refines_partial_function_witness:
  "\<exists>m evs. run_map (min_env (\<lambda>_. False) (\<lambda>p. if p = 0x500 \<or> p = 0x600 then Some ''ab'' else None)) [MPutStr 0x500 10]
      (Some \<lparr>entries = replicate 16 empty_entry, mcap = 16, mlen = 0, arc_values = False\<rparr>) = Inr (Some m, evs) \<and>
     lpp_map_get_str_min (\<lambda>_. False) (\<lambda>p. if p = 0x500 \<or> p = 0x600 then Some ''ab'' else None) (Some m) 0x600 = Inr 10"
proof -
  let ?sm = "\<lambda>p :: i64. if p = 0x500 \<or> p = 0x600 then Some ''ab'' else None"
  let ?m = "\<lparr>entries = replicate 16 empty_entry, mcap = 16, mlen = 0, arc_values = False\<rparr>"
  have new: "lpp_map_new_with_mode_min (\<lambda>_. False) False False = Inr (Some ?m)"
    by (simp add: lpp_map_new_with_mode_min_def lpp_map_new_with_mode_def alloc_entries_def min_env_def)
  from lpp_map_min_refines_partial_function [OF new, of ?sm "[MPutStr 0x500 10]"] show ?thesis
    by (auto simp: spec_map_def value_or_0_def c_str_at_def nul_free_def dest!: spec [of _ "0x600"])
qed

text \<open>The list of keys of a map with a string key owns its elements, so an integer key is retained as if it were an object; Windows follows every pointer but NULL.\<close>

theorem lpp_map_keys_min_mixed:
  "\<exists>l. lpp_map_keys_min (\<lambda>_. False) False (\<lambda>_. 0x20000)
     (Some \<lparr>entries = [\<lparr>ekey = 7, eval = 1, is_str_key = False, occupied = SOccupied\<rparr>, \<lparr>ekey = 0x500, eval = 2, is_str_key = True, occupied = SOccupied\<rparr>],
            mcap = 2, mlen = 2, arc_values = False\<rparr>) = Inr (l, [Retain 7, Retain 0x20000])"
  by (simp add: lpp_map_keys_min_def lpp_list_new_arc_min_def lpp_list_new_with_mode_min_def lpp_list_new_with_mode_def lpp_list_push_arc_min_def
    lpp_list_push_min_def lpp_list_push_fs_def own_elements_def fretain_def fwr_slot_def Let_def page_round_int_def INT64_MAX_def)

end
