(* ===== verification/Lpp_Min_Sync.thy ===== *)
theory Lpp_Min_Sync
  imports Lpp_Concur Lpp_Slice Lpp_Min_List Lpp_Min_Arc
begin

text \<open>
  Atomic cells, locks, threads, vectors of two integers and borrowed views in the freestanding Windows runtime, \<^verbatim>\<open>runtime/windows_x86_64_min.c\<close>. Cells and locks live in counted objects and use the interlocked functions, critical
  sections and slim locks of the Windows branches of the host; exhausted memory ends the program with status 101. The contracts \<open>try_lock\<close>, \<open>rw_contract\<close> and \<open>thread_api\<close> are interpreted once more for this code.
\<close>

section \<open>Atomic cells\<close>

definition lpp_atomic_alloc_min :: "i64 \<Rightarrow> atom_state \<Rightarrow> i64 \<Rightarrow> (atom_state \<times> i64) res" where
  "lpp_atomic_alloc_min p st v = (if p = 0 then Inl (Exited 101) else Inr ((put64 st p v)\<lparr>acells := p # acells st\<rparr>, p))"

definition lpp_atomic_new_min :: "i64 \<Rightarrow> atom_state \<Rightarrow> i64 \<Rightarrow> (atom_state \<times> i64) res" where
  "lpp_atomic_new_min p st v = lpp_atomic_alloc_min p st v"

text \<open>The cell holds the only reference to its object.\<close>

definition lpp_atomic_free_min :: "atom_state \<Rightarrow> i64 \<Rightarrow> atom_state res" where
  "lpp_atomic_free_min st p = (if p = 0 then Inr st
     else if p \<notin> set (acells st) then Inl (Fault ''header of memory that is not an ARC object'')
     else Inr (st\<lparr>awords := (awords st)(p := None, p + 4 := None), acells := remove1 p (acells st)\<rparr>))"

definition lpp_atomic_load_min :: "atom_state \<Rightarrow> i64 \<Rightarrow> (atom_state \<times> i64) res" where
  "lpp_atomic_load_min st p = fetch64 (\<lambda>old. old OR 0) st p"

definition lpp_atomic_load_acq_min :: "atom_state \<Rightarrow> i64 \<Rightarrow> (atom_state \<times> i64) res" where
  "lpp_atomic_load_acq_min st p = fetch64 (\<lambda>old. old OR 0) st p"

definition lpp_atomic_load_relaxed_min :: "atom_state \<Rightarrow> i64 \<Rightarrow> i64 res" where
  "lpp_atomic_load_relaxed_min st p = read64 st p"

definition lpp_atomic_store_min :: "atom_state \<Rightarrow> i64 \<Rightarrow> i64 \<Rightarrow> atom_state res" where
  "lpp_atomic_store_min st p v = bind_res (fetch64 (\<lambda>_. v) st p) (\<lambda>(st, _). Inr st)"

definition lpp_atomic_store_rel_min :: "atom_state \<Rightarrow> i64 \<Rightarrow> i64 \<Rightarrow> atom_state res" where
  "lpp_atomic_store_rel_min st p v = bind_res (fetch64 (\<lambda>_. v) st p) (\<lambda>(st, _). Inr st)"

definition lpp_atomic_store_relaxed_min :: "atom_state \<Rightarrow> i64 \<Rightarrow> i64 \<Rightarrow> atom_state res" where
  "lpp_atomic_store_relaxed_min st p v = bind_res (read64 st p) (\<lambda>_. Inr (put64 st p v))"

definition lpp_atomic_add_min :: "atom_state \<Rightarrow> i64 \<Rightarrow> i64 \<Rightarrow> (atom_state \<times> i64) res" where
  "lpp_atomic_add_min st p v = fetch64 (\<lambda>old. old + v) st p"

definition lpp_atomic_sub_min :: "atom_state \<Rightarrow> i64 \<Rightarrow> i64 \<Rightarrow> (atom_state \<times> i64) res" where
  "lpp_atomic_sub_min st p v = fetch64 (\<lambda>old. old + (- v)) st p"

definition lpp_atomic_and_min :: "atom_state \<Rightarrow> i64 \<Rightarrow> i64 \<Rightarrow> (atom_state \<times> i64) res" where
  "lpp_atomic_and_min st p v = fetch64 (\<lambda>old. old AND v) st p"

definition lpp_atomic_or_min :: "atom_state \<Rightarrow> i64 \<Rightarrow> i64 \<Rightarrow> (atom_state \<times> i64) res" where
  "lpp_atomic_or_min st p v = fetch64 (\<lambda>old. old OR v) st p"

definition lpp_atomic_xor_min :: "atom_state \<Rightarrow> i64 \<Rightarrow> i64 \<Rightarrow> (atom_state \<times> i64) res" where
  "lpp_atomic_xor_min st p v = fetch64 (\<lambda>old. old XOR v) st p"

definition lpp_atomic_swap_min :: "atom_state \<Rightarrow> i64 \<Rightarrow> i64 \<Rightarrow> (atom_state \<times> i64) res" where
  "lpp_atomic_swap_min st p v = fetch64 (\<lambda>_. v) st p"

definition lpp_atomic_cas_min :: "atom_state \<Rightarrow> i64 \<Rightarrow> i64 \<Rightarrow> i64 \<Rightarrow> (atom_state \<times> i64) res" where
  "lpp_atomic_cas_min st p e d = interlocked_cas64 st p d e"

definition lpp_atomic_cas_weak_min :: "atom_state \<Rightarrow> i64 \<Rightarrow> i64 \<Rightarrow> i64 \<Rightarrow> (atom_state \<times> i64) res" where
  "lpp_atomic_cas_weak_min st p e d = interlocked_cas64 st p d e"

definition lpp_atomic_load32_min :: "atom_state \<Rightarrow> i64 \<Rightarrow> (atom_state \<times> i64) res" where
  "lpp_atomic_load32_min st p = bind_res (fetch32 (\<lambda>old. old OR 0) st p) (\<lambda>(st, old). Inr (st, scast old))"

definition lpp_atomic_store32_min :: "atom_state \<Rightarrow> i64 \<Rightarrow> i64 \<Rightarrow> atom_state res" where
  "lpp_atomic_store32_min st p v = bind_res (fetch32 (\<lambda>_. ucast v) st p) (\<lambda>(st, _). Inr st)"

definition lpp_atomic_add32_min :: "atom_state \<Rightarrow> i64 \<Rightarrow> i64 \<Rightarrow> (atom_state \<times> i64) res" where
  "lpp_atomic_add32_min st p v = bind_res (fetch32 (\<lambda>old. old + ucast v) st p) (\<lambda>(st, old). Inr (st, scast old))"

definition lpp_atomic_cas32_min :: "atom_state \<Rightarrow> i64 \<Rightarrow> i64 \<Rightarrow> i64 \<Rightarrow> (atom_state \<times> i64) res" where
  "lpp_atomic_cas32_min st p e d = bind_res (interlocked_cas32 st p (ucast d) (ucast e)) (\<lambda>(st, old). Inr (st, scast old))"

section \<open>Locks\<close>

definition lpp_mutex_new_min :: "i64 \<Rightarrow> sync_state \<Rightarrow> (sync_state \<times> i64) res" where
  "lpp_mutex_new_min cs st = (if cs = 0 then Inl (Exited 101) else Inr (st\<lparr>mutexes := (mutexes st)(cs \<mapsto> None)\<rparr>, cs))"

definition lpp_mutex_lock_min :: "nat \<Rightarrow> i64 \<Rightarrow> sync_state \<Rightarrow> sync_state option res" where
  "lpp_mutex_lock_min t h st = (if h \<noteq> 0 then lpp_mutex_lock_win t h st else Inr (Some st))"

definition lpp_mutex_trylock_min :: "nat \<Rightarrow> i64 \<Rightarrow> sync_state \<Rightarrow> (sync_state \<times> i64) res" where
  "lpp_mutex_trylock_min t h st = (if h = 0 then Inr (st, 0) else lpp_mutex_trylock_win t h st)"

definition lpp_mutex_unlock_min :: "nat \<Rightarrow> i64 \<Rightarrow> sync_state \<Rightarrow> sync_state res" where
  "lpp_mutex_unlock_min t h st = (if h \<noteq> 0 then lpp_mutex_unlock_win t h st else Inr st)"

definition lpp_mutex_free_min :: "i64 \<Rightarrow> sync_state \<Rightarrow> sync_state res" where
  "lpp_mutex_free_min h st = (if h \<noteq> 0 then lpp_mutex_free_win h st else Inr st)"

definition lpp_rwlock_new_min :: "i64 \<Rightarrow> sync_state \<Rightarrow> (sync_state \<times> i64) res" where
  "lpp_rwlock_new_min rw st = (if rw = 0 then Inl (Exited 101)
     else Inr (st\<lparr>rwlocks := (rwlocks st)(rw \<mapsto> \<lparr>rwriter = None, rreaders = []\<rparr>)\<rparr>, rw))"

definition lpp_rwlock_rdlock_min :: "nat \<Rightarrow> i64 \<Rightarrow> sync_state \<Rightarrow> sync_state option res" where
  "lpp_rwlock_rdlock_min t h st = (if h \<noteq> 0 then lpp_rwlock_rdlock_win t h st else Inr (Some st))"

definition lpp_rwlock_wrlock_min :: "nat \<Rightarrow> i64 \<Rightarrow> sync_state \<Rightarrow> sync_state option res" where
  "lpp_rwlock_wrlock_min t h st = (if h \<noteq> 0 then lpp_rwlock_wrlock_win t h st else Inr (Some st))"

definition lpp_rwlock_rdunlock_min :: "nat \<Rightarrow> i64 \<Rightarrow> sync_state \<Rightarrow> sync_state res" where
  "lpp_rwlock_rdunlock_min t h st = (if h \<noteq> 0 then lpp_rwlock_rdunlock_win t h st else Inr st)"

definition lpp_rwlock_wrunlock_min :: "nat \<Rightarrow> i64 \<Rightarrow> sync_state \<Rightarrow> sync_state res" where
  "lpp_rwlock_wrunlock_min t h st = (if h \<noteq> 0 then lpp_rwlock_wrunlock_win t h st else Inr st)"

definition lpp_rwlock_free_min :: "i64 \<Rightarrow> sync_state \<Rightarrow> sync_state res" where
  "lpp_rwlock_free_min h st = (if h \<noteq> 0 then lpp_rwlock_free_win h st else Inr st)"

section \<open>Threads\<close>

definition lpp_cpu_count_min :: "u32 \<Rightarrow> int" where
  "lpp_cpu_count_min dwNumberOfProcessors = uint dwNumberOfProcessors"

definition lpp_min_thread_stub :: "(i64 \<Rightarrow> i64 \<Rightarrow> i64) \<Rightarrow> i64 \<Rightarrow> thread_state \<Rightarrow> (thread_state \<times> u32) res" where
  "lpp_min_thread_stub run p st = (case tramps st p of None \<Rightarrow> Inl (Fault ''read of a freed trampoline'')
     | Some t \<Rightarrow> Inr (st\<lparr>tramps := (tramps st)(p := None)\<rparr>, ucast (run (fn_ptr t) (arg t))))"

definition lpp_thread_spawn_min :: "i64 \<Rightarrow> i64 \<Rightarrow> thread_state \<Rightarrow> i64 \<Rightarrow> i64 \<Rightarrow> (thread_state \<times> i64) res" where
  "lpp_thread_spawn_min t h st f a = (if t = 0 then Inl (Exited 101) else if h = 0 then Inl (Exited 101)
     else Inr (st\<lparr>tramps := (tramps st)(t \<mapsto> \<lparr>fn_ptr = f, arg = a\<rparr>), threads := (threads st)(h \<mapsto> Started t)\<rparr>, h))"

text \<open>A closed handle makes the calls fail and leaves \<open>ec\<close> at 0.\<close>

definition lpp_thread_join_min :: "i64 \<Rightarrow> thread_state \<Rightarrow> (thread_state \<times> i64) option res" where
  "lpp_thread_join_min h st = (if h = 0 then Inr (Some (st, 0)) else case threads st h of
       None \<Rightarrow> Inr (Some (st, 0))
     | Some (Started _) \<Rightarrow> Inr None
     | Some (Finished ec) \<Rightarrow> Inr (Some (st\<lparr>threads := (threads st)(h := None)\<rparr>, ec)))"

definition lpp_thread_pin_min :: "(u64 \<Rightarrow> u64) \<Rightarrow> int \<Rightarrow> int" where
  "lpp_thread_pin_min set_affinity core = (if core < 0 \<or> core \<ge> 64 then 0 else if set_affinity (push_bit (nat core) 1) \<noteq> 0 then 1 else 0)"

definition min_thread_finish :: "(i64 \<Rightarrow> i64 \<Rightarrow> i64) \<Rightarrow> i64 \<Rightarrow> thread_state \<Rightarrow> thread_state res" where
  "min_thread_finish run h st = (case threads st h of Some (Started tp) \<Rightarrow>
       bind_res (lpp_min_thread_stub run tp st) (\<lambda>(st', r). Inr (st'\<lparr>threads := (threads st')(h \<mapsto> Finished (ucast r))\<rparr>))
     | _ \<Rightarrow> Inr st)"

section \<open>Views\<close>

record slice_env_min =
  msl_lists :: "i64 \<Rightarrow> fslistp"
  msl_strs :: "i64 \<Rightarrow> string"

definition lpp_slice_checked_base_min :: "i64 LppSlice option \<Rightarrow> (i64 \<times> i64 LppSlice) res" where
  "lpp_slice_checked_base_min vp = (case vp of None \<Rightarrow> Inl (Exited 101)
     | Some v \<Rightarrow> if sbase v = 0 \<or> sgeneration v = 0 then Inl (Exited 101)
         else let r = lpp_weak_get_min (sbase v) (sgeneration v) in if r = 0 then Inl (Exited 101) else Inr (r, v))"

definition lpp_slice_init_min :: "slice_env_min \<Rightarrow> bool \<Rightarrow> i64 \<Rightarrow> int \<Rightarrow> int \<Rightarrow> int \<Rightarrow> i64 LppSlice res" where
  "lpp_slice_init_min env storage base start len kind =
     (if \<not> storage \<or> base = 0 \<or> start < 0 \<or> len < 0 \<or> start > INT64_MAX - len then Inl (Exited 101)
      else let n = (if kind = 0 then int (length (msl_strs env base)) else lpp_list_len_min (msl_lists env base))
           in if start > n \<or> len > n - start then Inl (Exited 101)
              else Inr \<lparr>sbase = base, sstart = start, slength = len, sgeneration = lpp_weak_generation_min base, skind = kind\<rparr>)"

definition lpp_slice_len_min :: "i64 LppSlice option \<Rightarrow> int res" where
  "lpp_slice_len_min vp = bind_res (lpp_slice_checked_base_min vp) (\<lambda>(_, v). Inr (slength v))"

definition lpp_slice_get_min :: "slice_env_min \<Rightarrow> i64 LppSlice option \<Rightarrow> int \<Rightarrow> i64 res" where
  "lpp_slice_get_min env vp index = bind_res (lpp_slice_checked_base_min vp) (\<lambda>(b, v).
     if skind v \<noteq> 1 \<or> index < 0 \<or> index \<ge> slength v then Inl (Exited 101) else lpp_list_get_min (msl_lists env b) (sstart v + index))"

definition lpp_slice_get_float_min :: "slice_env_min \<Rightarrow> i64 LppSlice option \<Rightarrow> int \<Rightarrow> i64 res" where
  "lpp_slice_get_float_min env vp index = lpp_slice_get_min env vp index"

definition lpp_slice_get_bool_min :: "slice_env_min \<Rightarrow> i64 LppSlice option \<Rightarrow> int \<Rightarrow> bool res" where
  "lpp_slice_get_bool_min env vp index = bind_res (lpp_slice_get_min env vp index) (\<lambda>v. Inr (v \<noteq> 0))"

definition lpp_str_slice_get_min :: "(int \<Rightarrow> bool) \<Rightarrow> slice_env_min \<Rightarrow> i64 LppSlice option \<Rightarrow> int \<Rightarrow> string res" where
  "lpp_str_slice_get_min oom env vp index = bind_res (lpp_slice_checked_base_min vp) (\<lambda>(b, v).
     if skind v \<noteq> 0 \<or> index < 0 \<or> index \<ge> slength v then Inl (Exited 101)
     else if oom 2 then Inl (Exited 101)
     else bind_res (peek (msl_strs env b) (nat (sstart v + index))) (\<lambda>c. new_str oom 2 [(0, [c]), (1, [CHR 0x00])]))"

definition lpp_str_slice_to_str_min :: "(int \<Rightarrow> bool) \<Rightarrow> slice_env_min \<Rightarrow> i64 LppSlice option \<Rightarrow> string res" where
  "lpp_str_slice_to_str_min oom env vp = bind_res (lpp_slice_checked_base_min vp) (\<lambda>(b, v).
     if skind v \<noteq> 0 then Inl (Exited 101)
     else if oom (slength v + 1) then Inl (Exited 101)
     else bind_res (slice_bytes (msl_strs env b) (nat (sstart v)) (nat (slength v))) (\<lambda>cs.
       new_str oom (slength v + 1) [(0, cs), (nat (slength v), [CHR 0x00])]))"

section \<open>The contracts once more\<close>

lemma lock_min_eq [simp]:
  "lpp_mutex_lock_min = lpp_mutex_lock_win" "lpp_mutex_trylock_min = lpp_mutex_trylock_win" "lpp_mutex_unlock_min = lpp_mutex_unlock_win"
  "lpp_mutex_free_min = lpp_mutex_free_win"
  by (simp_all add: fun_eq_iff lpp_mutex_lock_min_def lpp_mutex_trylock_min_def lpp_mutex_unlock_min_def lpp_mutex_free_min_def
    lpp_mutex_lock_win_def lpp_mutex_trylock_win_def lpp_mutex_unlock_win_def lpp_mutex_free_win_def)

lemma rwlock_min_eq [simp]:
  "lpp_rwlock_rdlock_min = lpp_rwlock_rdlock_win" "lpp_rwlock_wrlock_min = lpp_rwlock_wrlock_win"
  "lpp_rwlock_rdunlock_min = lpp_rwlock_rdunlock_win" "lpp_rwlock_wrunlock_min = lpp_rwlock_wrunlock_win" "lpp_rwlock_free_min = lpp_rwlock_free_win"
  by (simp_all add: fun_eq_iff lpp_rwlock_rdlock_min_def lpp_rwlock_wrlock_min_def lpp_rwlock_rdunlock_min_def lpp_rwlock_wrunlock_min_def
    lpp_rwlock_free_min_def lpp_rwlock_rdlock_win_def lpp_rwlock_wrlock_win_def lpp_rwlock_rdunlock_win_def lpp_rwlock_wrunlock_win_def lpp_rwlock_free_win_def)

interpretation mutex_wait_min: try_lock "mutex_good h" "mutex_vacant h" "mutex_held h" "wait_acquire lpp_mutex_lock_min h" "\<lambda>t. lpp_mutex_unlock_min t h" for h
  unfolding lock_min_eq by (rule mutex_wait_win.try_lock_axioms)

interpretation mutex_try_min: try_lock "mutex_good h" "mutex_vacant h" "mutex_held h" "try_acquire lpp_mutex_trylock_min h" "\<lambda>t. lpp_mutex_unlock_min t h" for h
  unfolding lock_min_eq by (rule mutex_try_win.try_lock_axioms)

interpretation rw_min: rw_contract "rw_view h" "\<lambda>t. lpp_rwlock_rdlock_min t h" "\<lambda>t. lpp_rwlock_wrlock_min t h" "\<lambda>t. lpp_rwlock_rdunlock_min t h"
    "\<lambda>t. lpp_rwlock_wrunlock_min t h" for h
  unfolding rwlock_min_eq by (rule rw_win.rw_contract_axioms)

interpretation min_threads: thread_api "\<lambda>f a. ucast (ucast (run f a) :: u32)" lpp_thread_spawn_min "min_thread_finish run" lpp_thread_join_min for run
  by unfold_locales (auto simp: lpp_thread_spawn_min_def min_thread_finish_def lpp_min_thread_stub_def lpp_thread_join_min_def
      split: if_splits option.splits thread.splits)

text \<open>Exclusion and thread results in the freestanding Windows runtime. In every interleaving at most one thread is inside a mutex, taken by waiting or by trying, and a free one lets the next thread in; a writer is alone inside a
  reader-writer lock; each join returns the low 32 bits of what the thread's function returned, and when all threads are joined no trampoline and no handle is left.\<close>

theorem lpp_sync_min_exclusive:
  assumes "lpp_mutex_new_min m st = Inr (s0, h)" "lpp_rwlock_new_min m st = Inr (r0, h)"
  shows "(lock_run (wait_acquire lpp_mutex_lock_min h) (\<lambda>t. lpp_mutex_unlock_min t h) s0 s C \<longrightarrow>
      C = {} \<and> (\<exists>s'. lock_run (wait_acquire lpp_mutex_lock_min h) (\<lambda>t. lpp_mutex_unlock_min t h) s0 s' {t}) \<or> (\<exists>u. C = {u})) \<and>
    (lock_run (try_acquire lpp_mutex_trylock_min h) (\<lambda>t. lpp_mutex_unlock_min t h) s0 s C \<longrightarrow>
      C = {} \<and> (\<exists>s'. lock_run (try_acquire lpp_mutex_trylock_min h) (\<lambda>t. lpp_mutex_unlock_min t h) s0 s' {t}) \<or> (\<exists>u. C = {u})) \<and>
    (rw_run (\<lambda>t. lpp_rwlock_rdlock_min t h) (\<lambda>t. lpp_rwlock_wrlock_min t h) (\<lambda>t. lpp_rwlock_rdunlock_min t h) (\<lambda>t. lpp_rwlock_wrunlock_min t h) r0 s R W \<longrightarrow>
      W = {} \<or> (\<exists>t. W = {t}) \<and> R = {}) \<and>
    (thread_run lpp_thread_spawn_min (min_thread_finish run) lpp_thread_join_min ts pend out \<longrightarrow>
      (\<forall>(f, a, r) \<in> set out. r = ucast (ucast (run f a) :: u32)) \<and> (pend = Map.empty \<longrightarrow> tramps ts = Map.empty \<and> threads ts = Map.empty))"
proof (intro conjI impI)
  have g: "mutex_good h s0" "mutex_vacant h s0"
    using assms(1) by (auto simp: lpp_mutex_new_min_def mutex_good_def mutex_vacant_def split: if_splits)
  show "C = {} \<and> (\<exists>s'. lock_run (wait_acquire lpp_mutex_lock_min h) (\<lambda>t. lpp_mutex_unlock_min t h) s0 s' {t}) \<or> (\<exists>u. C = {u})"
    if "lock_run (wait_acquire lpp_mutex_lock_min h) (\<lambda>t. lpp_mutex_unlock_min t h) s0 s C" using that g by (rule mutex_wait_min.outcome)
  show "C = {} \<and> (\<exists>s'. lock_run (try_acquire lpp_mutex_trylock_min h) (\<lambda>t. lpp_mutex_unlock_min t h) s0 s' {t}) \<or> (\<exists>u. C = {u})"
    if "lock_run (try_acquire lpp_mutex_trylock_min h) (\<lambda>t. lpp_mutex_unlock_min t h) s0 s C" using that g by (rule mutex_try_min.outcome)
  have v: "rw_view h r0 = Some \<lparr>rwriter = None, rreaders = []\<rparr>" using assms(2) by (auto simp: lpp_rwlock_new_min_def rw_view_def split: if_splits)
  show "W = {} \<or> (\<exists>t. W = {t}) \<and> R = {}"
    if "rw_run (\<lambda>t. lpp_rwlock_rdlock_min t h) (\<lambda>t. lpp_rwlock_wrlock_min t h) (\<lambda>t. lpp_rwlock_rdunlock_min t h) (\<lambda>t. lpp_rwlock_wrunlock_min t h) r0 s R W"
    using rw_min.readers_writers [OF that v] by blast
qed (use min_threads.results [of run ts pend out] in blast)+

section \<open>Views of dead sources\<close>

text \<open>Windows views are windows on their source like the others, but the check of the source never fails: a view of a list that is gone, or of another object at its address, is read as if nothing had happened.\<close>

theorem lpp_slice_min_stale:
  assumes "lpp_slice_init_min env True base s n 1 = Inr v" "msl_lists env base = Some l" "fslist_ok l"
  shows "map (\<lambda>i. lpp_slice_get_min env (Some v) (int i)) [0..<nat n] = map Inr (take (nat n) (drop (nat s) (abs_fs l))) \<and>
    lpp_slice_checked_base_min (Some v) = Inr (base, v) \<and>
    (0 \<le> i \<and> i < n \<longrightarrow> lpp_slice_get_min env' (Some v) i = lpp_list_get_min (msl_lists env' base) (s + i))"
proof -
  have d: "v = \<lparr>sbase = base, sstart = s, slength = n, sgeneration = 1, skind = 1\<rparr>" "0 \<le> s" "0 \<le> n" "s + n \<le> lpp_list_len_min (Some l)" "base \<noteq> 0"
    using assms(1,2) by (auto simp: lpp_slice_init_min_def lpp_weak_generation_min_def Let_def split: if_splits)
  have b: "lpp_slice_checked_base_min (Some v) = Inr (base, v)" using d(1,5) by (simp add: lpp_slice_checked_base_min_def lpp_weak_get_min_def)
  have g: "lpp_slice_get_min e (Some v) i = lpp_list_get_min (msl_lists e base) (s + i)" if "0 \<le> i" "i < n" for e i
    using b d(1) that by (simp add: lpp_slice_get_min_def)
  have "map (\<lambda>i. lpp_slice_get_min env (Some v) (int i)) [0..<nat n] = map (\<lambda>i. lpp_list_get_fs (Some l) (s + int i)) [0..<nat n]"
    using g [of _ env] assms(2) by (auto simp: lpp_list_get_min_def intro!: map_cong)
  also have "\<dots> = map Inr (take (nat n) (drop (nat s) (abs_fs l)))"
    by (rule fs_src.window) (use assms(3) d in \<open>auto simp: lpp_list_len_min_def\<close>)
  finally show ?thesis using b g by blast
qed

text \<open>Every atomic operation is the one of the Windows branch of the host.\<close>

theorem lpp_atomic_min_agrees:
  "lpp_atomic_cas_min = lpp_atomic_cas_win" "lpp_atomic_add_min = lpp_atomic_add_win" "lpp_atomic_swap_min = lpp_atomic_swap_win"
  "lpp_atomic_load_min = lpp_atomic_load_win" "lpp_atomic_store_min = lpp_atomic_store_win" "lpp_atomic_cas32_min = lpp_atomic_cas32_win"
  by (simp_all add: fun_eq_iff lpp_atomic_cas_min_def lpp_atomic_cas_win_def lpp_atomic_add_min_def lpp_atomic_add_win_def lpp_atomic_swap_min_def
    lpp_atomic_swap_win_def lpp_atomic_load_min_def lpp_atomic_load_win_def lpp_atomic_store_min_def lpp_atomic_store_win_def lpp_atomic_cas32_min_def lpp_atomic_cas32_win_def)

end
