(* ===== verification/Lpp_Raw.thy ===== *)
theory Lpp_Raw
  imports Lpp_Arc_Fs
begin

text \<open>
  Raw memory: the block functions of \<^verbatim>\<open>linux_x86_64_min.c\<close> that the compiler calls (\<open>memset\<close>, \<open>memcpy\<close>, \<open>memmove\<close>) and the builtins \<open>lpp_c_malloc\<close>, \<open>lpp_c_free\<close>, \<open>lpp_c_load\<close> and
  \<open>lpp_c_store\<close> of all three runtimes. Memory is a partial function from addresses to bytes; an access to an address that is not mapped is a fault. Addresses are 64-bit words, so that \<open>ptr + offset\<close> wraps as in the code.
\<close>

section \<open>Bytes\<close>

type_synonym mem = "u64 \<rightharpoonup> u8"

definition ldb :: "mem \<Rightarrow> u64 \<Rightarrow> u8 res" where
  "ldb m a = (case m a of None \<Rightarrow> Inl (Fault ''read of unmapped memory'') | Some b \<Rightarrow> Inr b)"

definition stb :: "mem \<Rightarrow> u64 \<Rightarrow> u8 \<Rightarrow> mem res" where
  "stb m a b = (case m a of None \<Rightarrow> Inl (Fault ''write to unmapped memory'') | Some _ \<Rightarrow> Inr (m(a \<mapsto> b)))"

section \<open>Block functions\<close>

function set_loop :: "mem \<Rightarrow> u64 \<Rightarrow> u8 \<Rightarrow> nat \<Rightarrow> nat \<Rightarrow> mem res" where
  "set_loop m d v i n = (if i < n then bind_res (stb m (d + of_nat i) v) (\<lambda>m. set_loop m d v (Suc i) n) else Inr m)"
  by pat_completeness auto
termination by (relation "measure (\<lambda>(m, d, v, i, n). n - i)") auto

definition memset :: "mem \<Rightarrow> u64 \<Rightarrow> u32 \<Rightarrow> u64 \<Rightarrow> mem res" where
  "memset m d v n = set_loop m d (ucast v) 0 (unat n)"

function copy_up :: "mem \<Rightarrow> u64 \<Rightarrow> u64 \<Rightarrow> nat \<Rightarrow> nat \<Rightarrow> mem res" where
  "copy_up m d s i n = (if i < n then bind_res (ldb m (s + of_nat i)) (\<lambda>b. bind_res (stb m (d + of_nat i) b) (\<lambda>m. copy_up m d s (Suc i) n)) else Inr m)"
  by pat_completeness auto
termination by (relation "measure (\<lambda>(m, d, s, i, n). n - i)") auto

fun copy_down :: "mem \<Rightarrow> u64 \<Rightarrow> u64 \<Rightarrow> nat \<Rightarrow> mem res" where
  "copy_down m d s 0 = Inr m"
| "copy_down m d s (Suc i) = bind_res (ldb m (s + of_nat i)) (\<lambda>b. bind_res (stb m (d + of_nat i) b) (\<lambda>m. copy_down m d s i))"

definition memcpy :: "mem \<Rightarrow> u64 \<Rightarrow> u64 \<Rightarrow> u64 \<Rightarrow> mem res" where
  "memcpy m d s n = copy_up m d s 0 (unat n)"

definition memmove :: "mem \<Rightarrow> u64 \<Rightarrow> u64 \<Rightarrow> u64 \<Rightarrow> mem res" where
  "memmove m d s n = (if d < s then copy_up m d s 0 (unat n) else copy_down m d s (unat n))"

declare set_loop.simps [simp del] copy_up.simps [simp del]

section \<open>Loads and stores\<close>

text \<open>Little-endian accesses of several bytes.\<close>

fun ld_le :: "mem \<Rightarrow> u64 \<Rightarrow> nat \<Rightarrow> u8 list res" where
  "ld_le m a 0 = Inr []"
| "ld_le m a (Suc k) = bind_res (ldb m a) (\<lambda>b. bind_res (ld_le m (a + 1) k) (\<lambda>bs. Inr (b # bs)))"

fun st_le :: "mem \<Rightarrow> u64 \<Rightarrow> u8 list \<Rightarrow> mem res" where
  "st_le m a [] = Inr m"
| "st_le m a (b # bs) = bind_res (stb m a b) (\<lambda>m. st_le m (a + 1) bs)"

definition le_bytes :: "nat \<Rightarrow> u64 \<Rightarrow> u8 list" where
  "le_bytes k v = map (\<lambda>i. ucast (drop_bit (8 * i) v)) [0..<k]"

fun le_word :: "u8 list \<Rightarrow> u64" where
  "le_word [] = 0"
| "le_word (b # bs) = ucast b OR push_bit 8 (le_word bs)"

definition lpp_c_load_u8 :: "mem \<Rightarrow> i64 \<Rightarrow> u8 res" where
  "lpp_c_load_u8 m p = ldb m p"

definition lpp_c_store_u8 :: "mem \<Rightarrow> i64 \<Rightarrow> u8 \<Rightarrow> mem res" where
  "lpp_c_store_u8 m p v = stb m p v"

definition lpp_c_load_i32 :: "mem \<Rightarrow> i64 \<Rightarrow> u32 res" where
  "lpp_c_load_i32 m p = bind_res (ld_le m p 4) (\<lambda>bs. Inr (ucast (le_word bs)))"

definition lpp_c_store_i32 :: "mem \<Rightarrow> i64 \<Rightarrow> u32 \<Rightarrow> mem res" where
  "lpp_c_store_i32 m p v = st_le m p (le_bytes 4 (ucast v))"

definition lpp_c_load_i64 :: "mem \<Rightarrow> i64 \<Rightarrow> i64 res" where
  "lpp_c_load_i64 m p = bind_res (ld_le m p 8) (\<lambda>bs. Inr (le_word bs))"

definition lpp_c_store_i64 :: "mem \<Rightarrow> i64 \<Rightarrow> i64 \<Rightarrow> mem res" where
  "lpp_c_store_i64 m p v = st_le m p (le_bytes 8 v)"

text \<open>The freestanding runtimes take an offset besides and answer NULL with 0. The two of them agree word for word.\<close>

definition lpp_c_load_u8_fs :: "mem \<Rightarrow> i64 \<Rightarrow> i64 \<Rightarrow> i64 res" where
  "lpp_c_load_u8_fs m p off = (if p = 0 then Inr 0 else bind_res (ldb m (p + off)) (\<lambda>b. Inr (ucast b)))"

definition lpp_c_store_u8_fs :: "mem \<Rightarrow> i64 \<Rightarrow> i64 \<Rightarrow> i64 \<Rightarrow> mem res" where
  "lpp_c_store_u8_fs m p off v = (if p = 0 then Inr m else stb m (p + off) (ucast v))"

definition lpp_c_load_i32_fs :: "mem \<Rightarrow> i64 \<Rightarrow> i64 \<Rightarrow> i64 res" where
  "lpp_c_load_i32_fs m p off = (if p = 0 then Inr 0 else bind_res (ld_le m (p + off) 4) (\<lambda>bs. Inr (scast (ucast (le_word bs) :: u32))))"

definition lpp_c_store_i32_fs :: "mem \<Rightarrow> i64 \<Rightarrow> i64 \<Rightarrow> i64 \<Rightarrow> mem res" where
  "lpp_c_store_i32_fs m p off v = (if p = 0 then Inr m else st_le m (p + off) (le_bytes 4 v))"

definition lpp_c_load_i64_fs :: "mem \<Rightarrow> i64 \<Rightarrow> i64 \<Rightarrow> i64 res" where
  "lpp_c_load_i64_fs m p off = (if p = 0 then Inr 0 else bind_res (ld_le m (p + off) 8) (\<lambda>bs. Inr (le_word bs)))"

definition lpp_c_store_i64_fs :: "mem \<Rightarrow> i64 \<Rightarrow> i64 \<Rightarrow> i64 \<Rightarrow> mem res" where
  "lpp_c_store_i64_fs m p off v = (if p = 0 then Inr m else st_le m (p + off) (le_bytes 8 v))"

definition lpp_c_load_u8_min :: "mem \<Rightarrow> i64 \<Rightarrow> i64 \<Rightarrow> i64 res" where
  "lpp_c_load_u8_min m p off = (if p = 0 then Inr 0 else bind_res (ldb m (p + off)) (\<lambda>b. Inr (ucast b)))"

definition lpp_c_store_u8_min :: "mem \<Rightarrow> i64 \<Rightarrow> i64 \<Rightarrow> i64 \<Rightarrow> mem res" where
  "lpp_c_store_u8_min m p off v = (if p = 0 then Inr m else stb m (p + off) (ucast v))"

definition lpp_c_load_i32_min :: "mem \<Rightarrow> i64 \<Rightarrow> i64 \<Rightarrow> i64 res" where
  "lpp_c_load_i32_min m p off = (if p = 0 then Inr 0 else bind_res (ld_le m (p + off) 4) (\<lambda>bs. Inr (scast (ucast (le_word bs) :: u32))))"

definition lpp_c_store_i32_min :: "mem \<Rightarrow> i64 \<Rightarrow> i64 \<Rightarrow> i64 \<Rightarrow> mem res" where
  "lpp_c_store_i32_min m p off v = (if p = 0 then Inr m else st_le m (p + off) (le_bytes 4 v))"

definition lpp_c_load_i64_min :: "mem \<Rightarrow> i64 \<Rightarrow> i64 \<Rightarrow> i64 res" where
  "lpp_c_load_i64_min m p off = (if p = 0 then Inr 0 else bind_res (ld_le m (p + off) 8) (\<lambda>bs. Inr (le_word bs)))"

definition lpp_c_store_i64_min :: "mem \<Rightarrow> i64 \<Rightarrow> i64 \<Rightarrow> i64 \<Rightarrow> mem res" where
  "lpp_c_store_i64_min m p off v = (if p = 0 then Inr m else st_le m (p + off) (le_bytes 8 v))"

section \<open>Blocks\<close>

text \<open>Mapping and unmapping zeroed pages: \<open>a\<close> is the address the system answers, 0 when it refuses.\<close>

definition map_pages :: "u64 \<Rightarrow> nat \<Rightarrow> mem \<Rightarrow> mem" where
  "map_pages a n m = (\<lambda>x. if unat (x - a) < n then Some 0 else m x)"

definition unmap_pages :: "u64 \<Rightarrow> nat \<Rightarrow> mem \<Rightarrow> mem" where
  "unmap_pages a n m = (\<lambda>x. if unat (x - a) < n then None else m x)"

definition lpp_c_malloc_fs :: "u64 \<Rightarrow> mem \<Rightarrow> i64 \<Rightarrow> (mem \<times> i64) res" where
  "lpp_c_malloc_fs a m sz = (if sint sz \<le> 0 then Inr (m, 0)
     else let n = page_round (unat sz + 8)
       in if a = 0 then Inr (m, 0) else bind_res (st_le (map_pages a n m) a (le_bytes 8 (of_nat n))) (\<lambda>m. Inr (m, a + 8)))"

definition lpp_c_free_fs :: "mem \<Rightarrow> i64 \<Rightarrow> mem res" where
  "lpp_c_free_fs m p = (if p = 0 then Inr m else bind_res (ld_le m (p - 8) 8) (\<lambda>bs. Inr (unmap_pages (p - 8) (unat (le_word bs)) m)))"

text \<open>On Windows the size of a mapping is known to the system: \<open>sz_of\<close> is the number of bytes \<open>VirtualAlloc\<close> reserved at an address.\<close>

definition lpp_c_malloc_min :: "u64 \<Rightarrow> mem \<Rightarrow> i64 \<Rightarrow> mem \<times> i64" where
  "lpp_c_malloc_min a m sz = (if sint sz \<le> 0 then (m, 0) else if a = 0 then (m, 0) else (map_pages a (page_round (unat sz)) m, a))"

definition lpp_c_free_min :: "(u64 \<Rightarrow> nat) \<Rightarrow> mem \<Rightarrow> i64 \<Rightarrow> mem" where
  "lpp_c_free_min sz_of m p = (if p \<noteq> 0 then unmap_pages p (sz_of p) m else m)"

section \<open>Copying\<close>

text \<open>The memory in which the bytes \<open>lo\<close> to \<open>hi\<close> of the source have arrived at the destination.\<close>

definition copied :: "mem \<Rightarrow> u64 \<Rightarrow> u64 \<Rightarrow> nat \<Rightarrow> nat \<Rightarrow> mem" where
  "copied m d s lo hi = (\<lambda>a. if lo \<le> unat (a - d) \<and> unat (a - d) < hi then m (s + (a - d)) else m a)"

lemma unat_diff_add [simp]: "i < 2 ^ 64 \<Longrightarrow> unat ((d :: u64) + of_nat i - d) = i"
  by (simp add: unat_of_nat)

lemma unat_diff_eq: "unat ((a :: u64) - d) = i \<Longrightarrow> a = d + of_nat i"
  by auto

lemma copied_step:
  assumes "i < 2 ^ 64" "m (s + of_nat i) = Some b"
  shows "i < hi \<Longrightarrow> (copied m d s (Suc i) hi)(d + of_nat i \<mapsto> b) = copied m d s i hi"
    and "lo \<le> i \<Longrightarrow> (copied m d s lo i)(d + of_nat i \<mapsto> b) = copied m d s lo (Suc i)"
proof -
  have e: "a = d + of_nat i \<longleftrightarrow> unat (a - d) = i" for a using assms(1) unat_diff_eq [of a d i] by (auto simp: unat_of_nat)
  show "i < hi \<Longrightarrow> (copied m d s (Suc i) hi)(d + of_nat i \<mapsto> b) = copied m d s i hi"
    "lo \<le> i \<Longrightarrow> (copied m d s lo i)(d + of_nat i \<mapsto> b) = copied m d s lo (Suc i)"
    using assms(2) by (auto simp: copied_def fun_eq_iff e)
qed

lemma copy_up_ok:
  assumes "\<forall>i < n. m (s + of_nat i) \<noteq> None \<and> m (d + of_nat i) \<noteq> None" "n \<le> 2 ^ 64"
    and "\<forall>i < n. \<forall>j < i. s + of_nat i \<noteq> d + of_nat j"
  shows "i \<le> n \<Longrightarrow> copy_up (copied m d s 0 i) d s i n = Inr (copied m d s 0 n)"
proof (induction "n - i" arbitrary: i)
  case 0
  then show ?case by (subst copy_up.simps) simp
next
  case (Suc k)
  then have i: "i < n" "i < 2 ^ 64" using assms(2) by auto
  obtain b where b: "m (s + of_nat i) = Some b" using assms(1) i by blast
  have "\<not> unat (s + of_nat i - d) < i"
  proof
    assume "unat (s + of_nat i - d) < i"
    moreover have "s + of_nat i = d + of_nat (unat (s + of_nat i - d))" by simp
    ultimately show False using assms(3) i(1) by blast
  qed
  then have l: "copied m d s 0 i (s + of_nat i) = Some b" using b by (simp add: copied_def)
  have "copied m d s 0 i (d + of_nat i) \<noteq> None" using assms(1) i by (simp add: copied_def unat_of_nat)
  then have "copy_up (copied m d s 0 i) d s i n = copy_up (copied m d s 0 (Suc i)) d s (Suc i) n"
    using l i copied_step(2) [of i m s b 0 d] b by (subst copy_up.simps) (auto simp: ldb_def stb_def)
  also have "\<dots> = Inr (copied m d s 0 n)" using Suc(2) i by (intro Suc(1)) simp_all
  finally show ?case .
qed

lemma copy_down_ok:
  assumes "\<forall>i < n. m (s + of_nat i) \<noteq> None \<and> m (d + of_nat i) \<noteq> None" "n \<le> 2 ^ 64"
    and "\<forall>j < n. \<forall>i < j. s + of_nat i \<noteq> d + of_nat j"
  shows "i \<le> n \<Longrightarrow> copy_down (copied m d s i n) d s i = Inr (copied m d s 0 n)"
proof (induction i)
  case (Suc i)
  then have i: "i < n" "i < 2 ^ 64" using assms(2) by auto
  obtain b where b: "m (s + of_nat i) = Some b" using assms(1) i by blast
  have "\<not> (Suc i \<le> unat (s + of_nat i - d) \<and> unat (s + of_nat i - d) < n)"
  proof
    assume "Suc i \<le> unat (s + of_nat i - d) \<and> unat (s + of_nat i - d) < n"
    moreover have "s + of_nat i = d + of_nat (unat (s + of_nat i - d))" by simp
    ultimately show False using assms(3) by (metis Suc_le_lessD)
  qed
  then have l: "copied m d s (Suc i) n (s + of_nat i) = Some b" using b by (auto simp: copied_def)
  have "copied m d s (Suc i) n (d + of_nat i) \<noteq> None" using assms(1) i by (simp add: copied_def unat_of_nat)
  then have "copy_down (copied m d s (Suc i) n) d s (Suc i) = copy_down (copied m d s i n) d s i"
    using l i copied_step(1) [of i m s b n d] b by (auto simp: ldb_def stb_def)
  then show ?case using Suc by simp
qed simp

lemma copied_none: "copied m d s i i = m"
  by (auto simp: copied_def fun_eq_iff)

lemma unat_add_nat: "unat (s :: u64) + i < 2 ^ 64 \<Longrightarrow> unat (s + of_nat i) = unat s + i"
  by (simp add: unat_word_ariths unat_of_nat)

lemma no_overlap:
  assumes "unat (s :: u64) + n \<le> 2 ^ 64" "unat d + n \<le> 2 ^ 64" "i < n" "j < n" "s + of_nat i = d + of_nat j"
  shows "unat s + i = unat d + j"
  using assms unat_add_nat [of s i] unat_add_nat [of d j] by simp

text \<open>C35: Moving blocks of memory. For blocks that are mapped and do not wrap around the address space, however they overlap, \<open>memmove\<close> succeeds, the destination holds what the source held before and every other byte is
  unchanged. \<open>memcpy\<close> does the same when the destination does not begin inside the source.\<close>

theorem lpp_memmove_correct:
  assumes "unat s + unat n \<le> 2 ^ 64" "unat d + unat n \<le> 2 ^ 64" "\<forall>i < unat n. m (s + of_nat i) \<noteq> None \<and> m (d + of_nat i) \<noteq> None"
  shows "\<exists>m'. memmove m d s n = Inr m' \<and> (\<forall>i < unat n. m' (d + of_nat i) = m (s + of_nat i)) \<and> (\<forall>a. (\<forall>i < unat n. a \<noteq> d + of_nat i) \<longrightarrow> m' a = m a) \<and>
    (d \<le> s \<or> unat s + unat n \<le> unat d \<longrightarrow> memcpy m d s n = Inr m')"
proof -
  let ?m = "copied m d s 0 (unat n)"
  have n: "unat n \<le> 2 ^ 64" using assms(1) by simp
  have up: "copy_up m d s 0 (unat n) = Inr ?m" if "d \<le> s \<or> unat s + unat n \<le> unat d"
  proof -
    have "\<forall>i < unat n. \<forall>j < i. s + of_nat i \<noteq> d + of_nat j"
    proof (intro allI impI notI)
      fix i j assume "i < unat n" "j < i" "s + of_nat i = d + of_nat j"
      then show False using no_overlap [OF assms(1,2), of i j] that by (auto simp: word_le_nat_alt)
    qed
    from copy_up_ok [OF assms(3) n this, of 0] show ?thesis by (simp add: copied_none)
  qed
  have down: "copy_down m d s (unat n) = Inr ?m" if "\<not> d < s"
  proof -
    have "\<forall>j < unat n. \<forall>i < j. s + of_nat i \<noteq> d + of_nat j"
    proof (intro allI impI notI)
      fix i j assume "j < unat n" "i < j" "s + of_nat i = d + of_nat j"
      then show False using no_overlap [OF assms(1,2), of i j] that by (auto simp: word_less_nat_alt)
    qed
    from copy_down_ok [OF assms(3) n this, of "unat n"] show ?thesis by (simp add: copied_none)
  qed
  have "memmove m d s n = Inr ?m" using up [OF disjI1 [OF order.strict_implies_order]] down by (simp add: memmove_def)
  moreover have "?m (d + of_nat i) = m (s + of_nat i)" if "i < unat n" for i using that n by (simp add: copied_def unat_of_nat)
  moreover have "?m a = m a" if "\<forall>i < unat n. a \<noteq> d + of_nat i" for a using that unat_diff_eq [of a d] by (auto simp: copied_def)
  ultimately show ?thesis using up by (auto simp: memcpy_def)
qed

theorem lpp_memmove_correct_witness:
  "\<exists>m'. memmove [1 \<mapsto> 7, 2 \<mapsto> 8, 3 \<mapsto> 9] 2 1 2 = Inr m' \<and> m' 3 = Some 8 \<and> m' 1 = Some 7"
proof -
  define m :: mem where "m = [1 \<mapsto> 7, 2 \<mapsto> 8, 3 \<mapsto> 9]"
  have two: "i < unat (2 :: u64) \<longleftrightarrow> i = 0 \<or> i = 1" for i by auto
  have "\<forall>i < unat (2 :: u64). m (1 + of_nat i) \<noteq> None \<and> m (2 + of_nat i) \<noteq> None" unfolding two by (auto simp: m_def)
  from lpp_memmove_correct [OF _ _ this] obtain m' where m: "memmove m 2 1 2 = Inr m'" "\<forall>i < unat (2 :: u64). m' (2 + of_nat i) = m (1 + of_nat i)"
    "\<forall>a. (\<forall>i < unat (2 :: u64). a \<noteq> 2 + of_nat i) \<longrightarrow> m' a = m a" by auto
  have "m' 3 = Some 8" using m(2) [rule_format, of 1] by (simp add: m_def)
  moreover have "\<forall>i < unat (2 :: u64). (1 :: u64) \<noteq> 2 + of_nat i" unfolding two by auto
  then have "m' 1 = Some 7" using m(3) by (simp add: m_def)
  ultimately show ?thesis using m(1) unfolding m_def by blast
qed


section \<open>Accesses\<close>

text \<open>The memory with a list of bytes written at an address.\<close>

definition over :: "mem \<Rightarrow> u64 \<Rightarrow> u8 list \<Rightarrow> mem" where
  "over m a bs = (\<lambda>x. if unat (x - a) < length bs then Some (bs ! unat (x - a)) else m x)"

lemma unat_diff_Suc: "x \<noteq> a \<Longrightarrow> unat ((x :: u64) - a) = Suc (unat (x - (a + 1)))"
  using unat_minus_one [of "x - a"] unat_gt_0 [of "x - a"] by (simp add: diff_diff_eq)

lemma over_Cons: "length bs < 2 ^ 64 - 1 \<Longrightarrow> over (m(a \<mapsto> b)) (a + 1) bs = over m a (b # bs)"
proof
  fix x
  assume l: "length bs < 2 ^ 64 - 1"
  show "over (m(a \<mapsto> b)) (a + 1) bs x = over m a (b # bs) x"
  proof (cases "x = a")
    case True
    have "unat (a - (a + 1)) = 2 ^ 64 - 1" by (simp add: unsigned_minus_1_eq_mask mask_eq_exp_minus_1)
    then show ?thesis using True l by (simp add: over_def)
  next
    case False
    then show ?thesis by (simp add: over_def unat_diff_Suc [OF False])
  qed
qed

lemma st_le_ok:
  "length bs < 2 ^ 64 \<Longrightarrow> \<forall>i < length bs. m (a + of_nat i) \<noteq> None \<Longrightarrow> st_le m a bs = Inr (over m a bs)"
proof (induction bs arbitrary: m a)
  case (Cons b bs)
  have "m a \<noteq> None" using Cons(3) [rule_format, of 0] by simp
  moreover have "st_le (m(a \<mapsto> b)) (a + 1) bs = Inr (over (m(a \<mapsto> b)) (a + 1) bs)"
  proof (rule Cons(1))
    show "\<forall>i < length bs. (m(a \<mapsto> b)) (a + 1 + of_nat i) \<noteq> None"
      using Cons(3) [rule_format, of "Suc _"] by (auto simp: add.assoc)
  qed (use Cons(2) in simp)
  ultimately show ?case using Cons(2) by (auto simp: stb_def over_Cons)
qed (simp add: over_def)

lemma ld_le_ok: "\<forall>i < length bs. m (a + of_nat i) = Some (bs ! i) \<Longrightarrow> ld_le m a (length bs) = Inr bs"
proof (induction bs arbitrary: a)
  case (Cons b bs)
  have "m a = Some b" using Cons(2) [rule_format, of 0] by simp
  moreover have "ld_le m (a + 1) (length bs) = Inr bs" using Cons(2) [rule_format, of "Suc _"] by (intro Cons(1)) (auto simp: add.assoc)
  ultimately show ?case by (simp add: ldb_def)
qed simp

lemma ld_over: "length bs < 2 ^ 64 \<Longrightarrow> ld_le (over m a bs) a (length bs) = Inr bs"
  by (rule ld_le_ok) (simp add: over_def unat_of_nat)

lemma le_bytes_Suc: "le_bytes (Suc k) v = ucast v # le_bytes k (drop_bit 8 v)"
proof -
  have "map (\<lambda>i. ucast (drop_bit (8 * i) v)) [0..<Suc k] = ucast v # map (\<lambda>i. ucast (drop_bit (8 * i) (drop_bit 8 v))) [0..<k]"
    unfolding upt_conv_Cons [OF zero_less_Suc] list.map map_Suc_upt [symmetric] by (simp add: ac_simps)
  then show ?thesis by (simp add: le_bytes_def)
qed

lemma le_word_bytes: "le_word (le_bytes k v) = take_bit (8 * k) v"
proof (induction k arbitrary: v)
  case (Suc k)
  show ?case unfolding le_bytes_Suc le_word.simps Suc
    by (rule bit_word_eqI) (auto simp: bit_simps)
qed (simp add: le_bytes_def)

lemma length_le_bytes [simp]: "length (le_bytes k v) = k"
  by (simp add: le_bytes_def)

section \<open>The builtins\<close>

lemma mins_are_fs:
  "lpp_c_load_u8_min = lpp_c_load_u8_fs" "lpp_c_store_u8_min = lpp_c_store_u8_fs" "lpp_c_load_i32_min = lpp_c_load_i32_fs"
  "lpp_c_store_i32_min = lpp_c_store_i32_fs" "lpp_c_load_i64_min = lpp_c_load_i64_fs" "lpp_c_store_i64_min = lpp_c_store_i64_fs"
  by (simp_all add: fun_eq_iff lpp_c_load_u8_min_def lpp_c_load_u8_fs_def lpp_c_store_u8_min_def lpp_c_store_u8_fs_def lpp_c_load_i32_min_def lpp_c_load_i32_fs_def
     lpp_c_store_i32_min_def lpp_c_store_i32_fs_def lpp_c_load_i64_min_def lpp_c_load_i64_fs_def lpp_c_store_i64_min_def lpp_c_store_i64_fs_def)

lemma ucast_take_bit_32: "(ucast (take_bit 32 (v :: u64)) :: u32) = ucast v"
  by (rule bit_word_eqI) (simp add: bit_simps)

lemma stb_over: "m a \<noteq> None \<Longrightarrow> stb m a b = Inr (over m a [b])"
  using st_le_ok [of "[b]" m a] by (auto simp: stb_def)

lemma over_at [simp]: "over m a (b # bs) a = Some b"
  by (simp add: over_def)

text \<open>The store of each width writes exactly its bytes and the load of the same width reads the value back, cut to the width and extended the way the code does.\<close>

lemma access_ok:
  assumes "p \<noteq> 0" "\<forall>i < 8. m (p + off + of_nat i) \<noteq> None"
  shows "lpp_c_store_u8_fs m p off v = Inr (over m (p + off) [ucast v])" "lpp_c_load_u8_fs (over m (p + off) [ucast v]) p off = Inr (ucast (ucast v :: u8))"
    and "lpp_c_store_i32_fs m p off v = Inr (over m (p + off) (le_bytes 4 v))" "lpp_c_load_i32_fs (over m (p + off) (le_bytes 4 v)) p off = Inr (scast (ucast v :: u32))"
    and "lpp_c_store_i64_fs m p off v = Inr (over m (p + off) (le_bytes 8 v))" "lpp_c_load_i64_fs (over m (p + off) (le_bytes 8 v)) p off = Inr v"
proof -
  have "m (p + off) \<noteq> None" using assms(2) [rule_format, of 0] by simp
  then show "lpp_c_store_u8_fs m p off v = Inr (over m (p + off) [ucast v])" using assms(1) by (simp add: lpp_c_store_u8_fs_def stb_over)
  show "lpp_c_load_u8_fs (over m (p + off) [ucast v]) p off = Inr (ucast (ucast v :: u8))" using assms(1) by (simp add: lpp_c_load_u8_fs_def ldb_def)
  show "lpp_c_store_i32_fs m p off v = Inr (over m (p + off) (le_bytes 4 v))" "lpp_c_store_i64_fs m p off v = Inr (over m (p + off) (le_bytes 8 v))"
    using assms st_le_ok [of "le_bytes 4 v" m "p + off"] st_le_ok [of "le_bytes 8 v" m "p + off"] by (auto simp: lpp_c_store_i32_fs_def lpp_c_store_i64_fs_def)
  show "lpp_c_load_i32_fs (over m (p + off) (le_bytes 4 v)) p off = Inr (scast (ucast v :: u32))"
    using assms(1) ld_over [of "le_bytes 4 v" m "p + off"] le_word_bytes [of 4 v] by (simp add: lpp_c_load_i32_fs_def ucast_take_bit_32)
  show "lpp_c_load_i64_fs (over m (p + off) (le_bytes 8 v)) p off = Inr v"
    using assms(1) ld_over [of "le_bytes 8 v" m "p + off"] le_word_bytes [of 8 v] by (simp add: lpp_c_load_i64_fs_def take_bit_word_eq_self)
qed

lemma page_round_bound: "sint (sz :: i64) > 0 \<Longrightarrow> unat sz + 8 \<le> page_round (unat sz + 8) \<and> page_round (unat sz + 8) < 2 ^ 64"
proof -
  assume "sint sz > 0"
  then have "unat sz \<le> 2 ^ 63" using unat_eq_sint_64 [of sz] sint_range_64(2) [of sz] by (simp add: INT64_MAX_def)
  then show ?thesis using page_round_ge [of "unat sz + 8"] by simp
qed

text \<open>A block of \<open>lpp_c_malloc\<close> on Linux. A block of positive size the system has memory for consists of zeroes; every 8-byte access inside it succeeds, reads back what was written and changes no other byte; and whatever was
  written inside the block, \<open>lpp_c_free\<close> finds the size in front of it and leaves memory exactly as it was before the allocation. A size of 0 or less and a refusal of the system give 0, which \<open>lpp_c_free\<close> ignores.\<close>

theorem lpp_c_block_life:
  assumes "0 < sint sz" "a \<noteq> 0" "n = page_round (unat sz + 8)" "unat a + n < 2 ^ 64" "\<forall>x. unat (x - a) < n \<longrightarrow> m x = None"
  shows "\<exists>m1. lpp_c_malloc_fs a m sz = Inr (m1, a + 8) \<and> (\<forall>i < unat sz. m1 (a + 8 + of_nat i) = Some 0) \<and>
    (\<forall>m2. (\<forall>x. unat (x - (a + 8)) < unat sz \<or> m2 x = m1 x) \<longrightarrow> lpp_c_free_fs m2 (a + 8) = Inr m \<and>
      (\<forall>off v. unat off + 8 \<le> unat sz \<and> (\<forall>i < unat sz. m2 (a + 8 + of_nat i) \<noteq> None) \<longrightarrow>
        (\<exists>m3. lpp_c_store_i64_fs m2 (a + 8) off v = Inr m3 \<and> lpp_c_load_i64_fs m3 (a + 8) off = Inr v \<and> (\<forall>x. unat (x - (a + 8 + off)) < 8 \<or> m3 x = m2 x)))) \<and>
    lpp_c_malloc_fs 0 m sz = Inr (m, 0) \<and> (\<forall>b z. sint z \<le> 0 \<longrightarrow> lpp_c_malloc_fs b m z = Inr (m, 0)) \<and> lpp_c_free_fs m 0 = Inr m"
proof -
  have n: "unat sz + 8 \<le> n" "n < 2 ^ 64" using page_round_bound [OF assms(1)] assms(3) by simp_all
  let ?h = "le_bytes 8 (of_nat n)"
  let ?m1 = "over (map_pages a n m) a ?h"
  have p0: "a + 8 \<noteq> 0"
  proof
    assume "a + 8 = 0"
    moreover have "unat (a + 8) = unat a + 8" using unat_add_nat [of a 8] assms(4) n(1) by simp
    ultimately show False by simp
  qed
  have "\<forall>i < length ?h. map_pages a n m (a + of_nat i) \<noteq> None" using n by (simp add: map_pages_def unat_of_nat)
  from st_le_ok [OF _ this] have mal: "lpp_c_malloc_fs a m sz = Inr (?m1, a + 8)" using assms(1-3) by (simp add: lpp_c_malloc_fs_def Let_def)
  have off: "unat (a + 8 + of_nat i - a) = 8 + i" if "i < unat sz" for i
    using unat_diff_add [of "8 + i" a] that n by (simp add: add.assoc)
  have pay: "unat (x - a) = 8 + unat (x - (a + 8))" if "unat (x - (a + 8)) < unat sz" for x
    using off [OF that] by simp
  have zero: "?m1 (a + 8 + of_nat i) = Some 0" if "i < unat sz" for i using off [OF that] that n by (simp add: over_def map_pages_def)
  have free: "lpp_c_free_fs m2 (a + 8) = Inr m" if m2: "\<forall>x. unat (x - (a + 8)) < unat sz \<or> m2 x = ?m1 x" for m2
  proof -
    have "\<forall>i < length ?h. m2 (a + of_nat i) = Some (?h ! i)"
    proof (intro allI impI)
      fix i assume i: "i < length ?h"
      then have u: "unat (a + of_nat i - a) = i" by (intro unat_diff_add) simp
      then have "\<not> unat (a + of_nat i - (a + 8)) < unat sz" using pay [of "a + of_nat i"] i by auto
      then have "m2 (a + of_nat i) = ?m1 (a + of_nat i)" using m2 by blast
      then show "m2 (a + of_nat i) = Some (?h ! i)" using u i by (simp add: over_def)
    qed
    from ld_le_ok [OF this] have l: "ld_le m2 a 8 = Inr ?h" by simp
    have w: "unat (le_word ?h) = n" using n(2) le_word_bytes [of 8 "of_nat n"] by (simp add: take_bit_word_eq_self unat_of_nat take_bit_nat_eq_self)
    have "unmap_pages a n m2 = m"
    proof
      fix x
      show "unmap_pages a n m2 x = m x"
      proof (cases "unat (x - a) < n")
        case True
        then show ?thesis using assms(5) by (simp add: unmap_pages_def)
      next
        case False
        then have "\<not> unat (x - (a + 8)) < unat sz" using pay [of x] n(1) by linarith
        then have "m2 x = ?m1 x" using m2 by blast
        then show ?thesis using False n(1) by (simp add: unmap_pages_def over_def map_pages_def)
      qed
    qed
    then show ?thesis using p0 l w by (simp add: lpp_c_free_fs_def)
  qed
  have acc: "\<exists>m3. lpp_c_store_i64_fs m2 (a + 8) o' v = Inr m3 \<and> lpp_c_load_i64_fs m3 (a + 8) o' = Inr v \<and> (\<forall>x. unat (x - (a + 8 + o')) < 8 \<or> m3 x = m2 x)"
    if "unat o' + 8 \<le> unat sz" "\<forall>i < unat sz. m2 (a + 8 + of_nat i) \<noteq> None" for m2 o' v
  proof -
    have "\<forall>i < 8. m2 (a + 8 + o' + of_nat i) \<noteq> None"
    proof (intro allI impI)
      fix i :: nat assume "i < 8"
      then have "m2 (a + 8 + of_nat (unat o' + i)) \<noteq> None" using that by (intro that(2) [rule_format]) simp
      then show "m2 (a + 8 + o' + of_nat i) \<noteq> None" by (simp add: ac_simps)
    qed
    from access_ok(5,6) [OF p0 this, of v] show ?thesis by (intro exI [of _ "over m2 (a + 8 + o') (le_bytes 8 v)"]) (auto simp: over_def)
  qed
  have "lpp_c_malloc_fs 0 m sz = Inr (m, 0)" "lpp_c_free_fs m 0 = Inr m" "lpp_c_malloc_fs b m z = Inr (m, 0)" if "sint z \<le> 0" for b z
    using that by (simp_all add: lpp_c_malloc_fs_def lpp_c_free_fs_def Let_def)
  moreover have "lpp_c_malloc_fs 0 m sz = Inr (m, 0)" "lpp_c_free_fs m 0 = Inr m" by (simp_all add: lpp_c_malloc_fs_def lpp_c_free_fs_def Let_def)
  ultimately show ?thesis using mal zero free acc by (intro conjI exI [of _ ?m1]) blast+
qed

theorem lpp_c_block_life_witness:
  "\<exists>m1. lpp_c_malloc_fs 0x1000 Map.empty 16 = Inr (m1, 0x1008) \<and> lpp_c_free_fs m1 0x1008 = Inr Map.empty"
proof -
  have "unat (0x1000 :: u64) + page_round (unat (16 :: i64) + 8) < 2 ^ 64" by (simp add: page_round_def)
  from lpp_c_block_life [OF _ _ refl this, of Map.empty] obtain m1 where
    "lpp_c_malloc_fs 0x1000 Map.empty 16 = Inr (m1, 0x1000 + 8)" "lpp_c_free_fs m1 (0x1000 + 8) = Inr Map.empty" by auto
  then show ?thesis by auto
qed

text \<open>The host runtime has no offset and does not test for NULL: its builtins are those of the freestanding runtimes at offset 0, on every address but 0.\<close>

theorem lpp_c_host_offset_0:
  assumes "p \<noteq> 0"
  shows "lpp_c_store_i64 m p v = lpp_c_store_i64_fs m p 0 v" "lpp_c_load_i64 m p = lpp_c_load_i64_fs m p 0"
    "lpp_c_store_u8 m p (ucast v) = lpp_c_store_u8_fs m p 0 v" "lpp_c_store_i32 m p w = lpp_c_store_i32_fs m p 0 (ucast w)"
    "map_sum id (ucast :: u8 \<Rightarrow> i64) (lpp_c_load_u8 m p) = lpp_c_load_u8_fs m p 0"
  using assms by (simp_all add: lpp_c_store_i64_def lpp_c_store_i64_fs_def lpp_c_load_i64_def lpp_c_load_i64_fs_def lpp_c_store_u8_def lpp_c_store_u8_fs_def
     lpp_c_store_i32_def lpp_c_store_i32_fs_def lpp_c_load_u8_def lpp_c_load_u8_fs_def ldb_def split: option.splits)

end
