(* ===== verification/Lpp_Dl.thy ===== *)
theory Lpp_Dl
  imports Lpp_Str Lpp_Arc_Fs
begin

text \<open>
  The loader of shared objects in \<^verbatim>\<open>linux_x86_64_min.c\<close>: \<open>dlopen\<close> reads a file into a fresh mapping and finds its symbol and string tables, \<open>dlsym\<close> searches them. Positions in the mapping are 64-bit words, so that the sums the
  code compares wrap; reading outside the mapping is a fault. The state counts what is left open: file descriptors and mappings.
\<close>

section \<open>The file in memory\<close>

text \<open>A little-endian field of \<open>k\<close> bytes at a position of the mapping.\<close>

fun le_nat :: "u8 list \<Rightarrow> nat" where
  "le_nat [] = 0"
| "le_nat (b # bs) = unat b + 256 * le_nat bs"

definition field :: "u8 list \<Rightarrow> u64 \<Rightarrow> nat \<Rightarrow> u64 res" where
  "field mp a k = (if unat a + k \<le> length mp then Inr (of_nat (le_nat (take k (drop (unat a) mp)))) else Inl (Fault ''read outside the mapping''))"

record so_handle =
  map_addr :: u64
  so_map_size :: nat
  map_data :: "u8 list"
  dynstr :: u64
  dynsym :: u64
  num_syms :: u64
  sym_ent_size :: u64

record dl_state =
  open_fds :: nat
  mappings :: "nat list"

text \<open>What the system answers: whether either way of opening the file succeeds, its size, the address of the mapping (0: refused), the bytes read (None: error), the address of the mapping for the handle.\<close>

record dl_answers =
  opens :: bool
  file_size :: i64
  mmap_file :: u64
  read_data :: "u8 list option"
  mmap_handle :: u64

definition close_fd :: "dl_state \<Rightarrow> dl_state" where
  "close_fd s = s\<lparr>open_fds := open_fds s - 1\<rparr>"

definition lpp_sys_munmap :: "nat \<Rightarrow> dl_state \<Rightarrow> dl_state" where
  "lpp_sys_munmap n s = s\<lparr>mappings := remove1 n (mappings s)\<rparr>"

section \<open>Section headers\<close>

text \<open>Offsets of the fields in \<open>LppElf64_Ehdr\<close>, \<open>LppElf64_Shdr\<close> and \<open>LppElf64_Sym\<close>, which are 64, 64 and 24 bytes long.\<close>

definition is_elf :: "u8 list \<Rightarrow> bool res" where
  "is_elf mp = bind_res (field mp 0 4) (\<lambda>v. Inr (v = 0x464C457F))"

definition e_shoff :: "u8 list \<Rightarrow> u64 res" where "e_shoff mp = field mp 40 8"
definition e_shnum :: "u8 list \<Rightarrow> u64 res" where "e_shnum mp = field mp 60 2"
definition sh_type :: "u8 list \<Rightarrow> u64 \<Rightarrow> u64 res" where "sh_type mp h = field mp (h + 4) 4"
definition sh_offset :: "u8 list \<Rightarrow> u64 \<Rightarrow> u64 res" where "sh_offset mp h = field mp (h + 24) 8"
definition sh_size :: "u8 list \<Rightarrow> u64 \<Rightarrow> u64 res" where "sh_size mp h = field mp (h + 32) 8"
definition sh_link :: "u8 list \<Rightarrow> u64 \<Rightarrow> u64 res" where "sh_link mp h = field mp (h + 40) 4"
definition sh_entsize :: "u8 list \<Rightarrow> u64 \<Rightarrow> u64 res" where "sh_entsize mp h = field mp (h + 56) 8"
definition st_name :: "u8 list \<Rightarrow> u64 \<Rightarrow> u64 res" where "st_name mp y = field mp y 4"
definition st_value :: "u8 list \<Rightarrow> u64 \<Rightarrow> u64 res" where "st_value mp y = field mp (y + 8) 8"

text \<open>The tables found so far: the string table, the symbol table, the number of symbols and the size of an entry.\<close>

type_synonym tables = "u64 option \<times> u64 option \<times> u64 \<times> u64"

definition sections_fit :: "u64 \<Rightarrow> u64 \<Rightarrow> u64 \<Rightarrow> bool" where
  "sections_fit shoff shnum fsize = (\<not> (shoff = 0 \<or> shnum = 0 \<or> shoff + shnum * 64 > fsize))"

text \<open>One turn of the loop over the sections: the flag says that the loop stops. A section whose data is not inside the file is passed over.\<close>

definition scan_section :: "u8 list \<Rightarrow> u64 \<Rightarrow> u64 \<Rightarrow> u64 \<Rightarrow> u64 \<Rightarrow> tables \<Rightarrow> (tables \<times> bool) res" where
  "scan_section mp fsize shoff shnum i t = (let h = shoff + i * 64 in bind_res (sh_type mp h) (\<lambda>ty.
     if ty = 11 \<or> ty = 2 then bind_res (sh_offset mp h) (\<lambda>off. bind_res (sh_size mp h) (\<lambda>sz.
       if off + sz > fsize then Inr (t, False)
       else bind_res (sh_link mp h) (\<lambda>lk.
         bind_res (if lk < shnum then (let g = shoff + lk * 64 in bind_res (sh_offset mp g) (\<lambda>so. bind_res (sh_size mp g) (\<lambda>ss.
             Inr (if so + ss \<le> fsize then Some so else fst t)))) else Inr (fst t)) (\<lambda>str.
         bind_res (sh_entsize mp h) (\<lambda>es. let es = (if es \<noteq> 0 then es else 24) in Inr ((str, Some off, sz div es, es), ty = 11))))))
     else Inr (t, False)))"

function scan_loop :: "u8 list \<Rightarrow> u64 \<Rightarrow> u64 \<Rightarrow> u64 \<Rightarrow> nat \<Rightarrow> tables \<Rightarrow> tables res" where
  "scan_loop mp fsize shoff shnum i t = (if i < unat shnum
     then bind_res (scan_section mp fsize shoff shnum (of_nat i) t) (\<lambda>(t, stop). if stop then Inr t else scan_loop mp fsize shoff shnum (Suc i) t)
     else Inr t)"
  by pat_completeness auto
termination by (relation "measure (\<lambda>(mp, fsize, shoff, shnum, i, t). unat shnum - i)") auto

declare scan_loop.simps [simp del]

section \<open>Opening, searching and closing\<close>

definition dlopen :: "dl_answers \<Rightarrow> cstr \<Rightarrow> dl_state \<Rightarrow> (dl_state \<times> so_handle option) res" where
  "dlopen an path s = (if path = None \<or> \<not> opens an then Inr (s, None)
     else let s = s\<lparr>open_fds := open_fds s + 1\<rparr> in
     if sint (file_size an) \<le> 0 then Inr (close_fd s, None)
     else let n = page_round (unat (file_size an)) in
     if mmap_file an = 0 then Inr (close_fd s, None)
     else let s = close_fd (s\<lparr>mappings := n # mappings s\<rparr>) in
     case read_data an of None \<Rightarrow> Inr (lpp_sys_munmap n s, None)
     | Some bs \<Rightarrow> if length bs < 64 then Inr (lpp_sys_munmap n s, None)
       else let mp = bs @ replicate (n - length bs) 0 in
       bind_res (is_elf mp) (\<lambda>elf. if \<not> elf then Inr (lpp_sys_munmap n s, None)
       else bind_res (e_shoff mp) (\<lambda>shoff. bind_res (e_shnum mp) (\<lambda>shnum.
       if \<not> sections_fit shoff shnum (file_size an) then Inr (lpp_sys_munmap n s, None)
       else bind_res (scan_loop mp (file_size an) shoff shnum 0 (None, None, 0, 24)) (\<lambda>(str, sym, num, es).
         case (str, sym) of (Some st, Some sy) \<Rightarrow>
             if mmap_handle an = 0 then Inr (lpp_sys_munmap n s, None)
             else Inr (s\<lparr>mappings := 4096 # mappings s\<rparr>, Some \<lparr>map_addr = mmap_file an, so_map_size = n, map_data = mp, dynstr = st, dynsym = sy, num_syms = num, sym_ent_size = es\<rparr>)
         | _ \<Rightarrow> Inr (lpp_sys_munmap n s, None))))))"

text \<open>\<open>lpp_str_eq\<close> of a string in the mapping with a name.\<close>

fun name_eq :: "u8 list \<Rightarrow> u64 \<Rightarrow> string \<Rightarrow> bool res" where
  "name_eq mp a [] = bind_res (field mp a 1) (\<lambda>b. Inr (b = 0))"
| "name_eq mp a (c # cs) = bind_res (field mp a 1) (\<lambda>b. if b \<noteq> 0 \<and> b = of_char c then name_eq mp (a + 1) cs else Inr False)"

function sym_loop :: "so_handle \<Rightarrow> string \<Rightarrow> nat \<Rightarrow> u64 option res" where
  "sym_loop h name i = (if i < unat (num_syms h)
     then let y = dynsym h + of_nat i * sym_ent_size h in
       bind_res (st_name (map_data h) y) (\<lambda>nm.
       bind_res (if nm \<noteq> 0 then name_eq (map_data h) (dynstr h + nm) name else Inr False) (\<lambda>found.
       if found then bind_res (st_value (map_data h) y) (\<lambda>v. Inr (Some (map_addr h + v))) else sym_loop h name (Suc i)))
     else Inr None)"
  by pat_completeness auto
termination by (relation "measure (\<lambda>(h, name, i). unat (num_syms h) - i)") auto

declare sym_loop.simps [simp del]

definition dlsym :: "so_handle option \<Rightarrow> cstr \<Rightarrow> u64 option res" where
  "dlsym h name = (case (h, name) of (Some h, Some nm) \<Rightarrow> sym_loop h nm 0 | _ \<Rightarrow> Inr None)"

definition dlclose :: "so_handle option \<Rightarrow> dl_state \<Rightarrow> dl_state" where
  "dlclose h s = (case h of None \<Rightarrow> s | Some h \<Rightarrow> lpp_sys_munmap 4096 (if map_addr h \<noteq> 0 then lpp_sys_munmap (so_map_size h) s else s))"

definition dlerror :: cstr where
  "dlerror = None"

section \<open>Bounds\<close>

lemma field_ok: "unat a + k \<le> length mp \<Longrightarrow> \<exists>v. field mp a k = Inr v"
  by (simp add: field_def)

lemma unat_add_small: "unat (a :: u64) + c < 2 ^ 64 \<Longrightarrow> unat (a + of_nat c) = unat a + c"
  by (simp add: unat_word_ariths unat_of_nat)

text \<open>The header of section \<open>i\<close> lies inside the mapping when the table does.\<close>

lemma header_in:
  assumes "unat (shoff :: u64) + 64 * unat shnum \<le> L" "L < 2 ^ 64" "i < unat (shnum :: u64)" "c + k \<le> 64" "k \<noteq> 0"
  shows "unat (shoff + of_nat i * 64 + of_nat c) + k \<le> L"
proof -
  have m: "64 * i + 64 \<le> 64 * unat shnum" using assms(3) by simp
  have e: "shoff + of_nat i * 64 + of_nat c = shoff + of_nat (64 * i + c)" by (simp add: mult.commute add.assoc)
  have "unat shoff + (64 * i + c) < 2 ^ 64" using assms m by linarith
  then have "unat (shoff + of_nat (64 * i + c)) = unat shoff + (64 * i + c)" by (rule unat_add_small)
  then show ?thesis unfolding e using assms m by linarith
qed

lemmas header_fields = sh_type_def sh_offset_def sh_size_def sh_link_def sh_entsize_def

lemma section_fields:
  assumes "unat shoff + 64 * unat shnum \<le> length mp" "length mp < 2 ^ 64" "i < unat (shnum :: u64)"
  shows "\<exists>v. sh_type mp (shoff + of_nat i * 64) = Inr v" "\<exists>v. sh_offset mp (shoff + of_nat i * 64) = Inr v" "\<exists>v. sh_size mp (shoff + of_nat i * 64) = Inr v"
    "\<exists>v. sh_link mp (shoff + of_nat i * 64) = Inr v" "\<exists>v. sh_entsize mp (shoff + of_nat i * 64) = Inr v"
  using header_in [OF assms, of 4 4] header_in [OF assms, of 24 8] header_in [OF assms, of 32 8] header_in [OF assms, of 40 4] header_in [OF assms, of 56 8]
  by (simp_all add: header_fields field_ok)

lemma scan_section_ok:
  assumes "unat shoff + 64 * unat shnum \<le> length mp" "length mp < 2 ^ 64" "i < unat (shnum :: u64)"
  shows "is_ok (scan_section mp fsize shoff shnum (of_nat i) t)"
proof -
  note f = section_fields [OF assms]
  obtain ty off sz lk es where v: "sh_type mp (shoff + of_nat i * 64) = Inr ty" "sh_offset mp (shoff + of_nat i * 64) = Inr off" "sh_size mp (shoff + of_nat i * 64) = Inr sz"
    "sh_link mp (shoff + of_nat i * 64) = Inr lk" "sh_entsize mp (shoff + of_nat i * 64) = Inr es" using f by blast
  have "\<exists>so ss. sh_offset mp (shoff + lk * 64) = Inr so \<and> sh_size mp (shoff + lk * 64) = Inr ss" if "lk < shnum"
  proof -
    have l: "unat lk < unat shnum" using that by (simp add: word_less_nat_alt)
    show ?thesis using section_fields(2,3) [OF assms(1,2) l] by simp
  qed
  then show ?thesis using v by (auto simp: scan_section_def Let_def)
qed

lemma scan_loop_ok:
  assumes "unat shoff + 64 * unat shnum \<le> length mp" "length mp < 2 ^ 64"
  shows "is_ok (scan_loop mp fsize shoff shnum i t)"
proof (induction "unat shnum - i" arbitrary: i t)
  case 0
  then show ?case by (subst scan_loop.simps) simp
next
  case (Suc k)
  then have i: "i < unat shnum" by simp
  obtain t' b where s: "scan_section mp fsize shoff shnum (of_nat i) t = Inr (t', b)" using scan_section_ok [OF assms i, of fsize t] by (auto simp: is_ok_iff)
  have "is_ok (scan_loop mp fsize shoff shnum (Suc i) t')" using Suc(2) by (intro Suc(1)) simp
  then show ?case using i s by (subst scan_loop.simps) (cases b; simp)
qed

text \<open>What \<open>dlopen\<close> does once the file is in memory.\<close>

definition opened_file :: "dl_answers \<Rightarrow> u8 list \<Rightarrow> bool" where
  "opened_file an mp = (opens an \<and> 0 < sint (file_size an) \<and> mmap_file an \<noteq> 0 \<and> (\<exists>bs. read_data an = Some bs \<and> 64 \<le> length bs \<and> int (length bs) \<le> sint (file_size an) \<and>
     mp = bs @ replicate (page_round (unat (file_size an)) - length bs) 0))"

lemma opened_length:
  assumes "opened_file an mp"
  shows "length mp = page_round (unat (file_size an))" "64 \<le> length mp" "length mp < 2 ^ 64" "unat (file_size an) \<le> length mp" "length mp \<le> 2 ^ 63 + 4095"
proof -
  have f: "unat (file_size an) \<le> 2 ^ 63" "int (unat (file_size an)) = sint (file_size an)"
    using assms unat_eq_sint_64 [of "file_size an"] sint_range_64(2) [of "file_size an"] by (simp_all add: opened_file_def INT64_MAX_def)
  obtain bs where bs: "64 \<le> length bs" "int (length bs) \<le> sint (file_size an)" "mp = bs @ replicate (page_round (unat (file_size an)) - length bs) 0"
    using assms unfolding opened_file_def by blast
  have "length bs \<le> unat (file_size an)" using bs(2) f(2) by linarith
  with bs show "length mp = page_round (unat (file_size an))" "64 \<le> length mp" "length mp < 2 ^ 64" "unat (file_size an) \<le> length mp" "length mp \<le> 2 ^ 63 + 4095"
    using page_round_ge [of "unat (file_size an)"] f(1) by simp_all
qed

lemma dlopen_eq:
  assumes "opened_file an mp" "e_shoff mp = Inr shoff" "e_shnum mp = Inr shnum"
  shows "dlopen an (Some p) s = bind_res (is_elf mp) (\<lambda>elf. if \<not> elf \<or> \<not> sections_fit shoff shnum (file_size an) then Inr (s, None)
    else bind_res (scan_loop mp (file_size an) shoff shnum 0 (None, None, 0, 24)) (\<lambda>(str, sym, num, es).
      case (str, sym) of (Some st, Some sy) \<Rightarrow> if mmap_handle an = 0 then Inr (s, None)
        else Inr (s\<lparr>mappings := 4096 # length mp # mappings s\<rparr>, Some \<lparr>map_addr = mmap_file an, so_map_size = length mp, map_data = mp, dynstr = st, dynsym = sy, num_syms = num, sym_ent_size = es\<rparr>)
      | _ \<Rightarrow> Inr (s, None)))"
proof -
  obtain bs where bs: "read_data an = Some bs" "64 \<le> length bs" "mp = bs @ replicate (page_round (unat (file_size an)) - length bs) 0" using assms(1) by (auto simp: opened_file_def)
  have o: "opens an" "\<not> sint (file_size an) \<le> 0" "mmap_file an \<noteq> 0" using assms(1) by (auto simp: opened_file_def)
  have l: "page_round (unat (file_size an)) = length mp" using opened_length(1) [OF assms(1)] by simp
  have q: "mp = bs @ replicate (length mp - length bs) 0" using bs(3) unfolding l .
  obtain e where e: "is_elf mp = Inr e" using opened_length(2) [OF assms(1)] by (auto simp: is_elf_def field_def)
  let ?t = "s\<lparr>open_fds := open_fds s + 1, mappings := length mp # mappings (s\<lparr>open_fds := open_fds s + 1\<rparr>)\<rparr>"
  have m1: "lpp_sys_munmap (length mp) (s\<lparr>mappings := length mp # mappings s\<rparr>) = s" by (simp add: lpp_sys_munmap_def)
  have m2: "close_fd ?t = s\<lparr>mappings := length mp # mappings s\<rparr>" by (simp add: close_fd_def)
  have m3: "s\<lparr>mappings := length mp # mappings s, mappings := 4096 # mappings (s\<lparr>mappings := length mp # mappings s\<rparr>)\<rparr> = s\<lparr>mappings := 4096 # length mp # mappings s\<rparr>" by simp
  have "dlopen an (Some p) s = bind_res (is_elf mp) (\<lambda>elf. if \<not> elf then Inr (s, None)
       else bind_res (e_shoff mp) (\<lambda>shoff. bind_res (e_shnum mp) (\<lambda>shnum.
       if \<not> sections_fit shoff shnum (file_size an) then Inr (s, None)
       else bind_res (scan_loop mp (file_size an) shoff shnum 0 (None, None, 0, 24)) (\<lambda>(str, sym, num, es).
         case (str, sym) of (Some st, Some sy) \<Rightarrow>
             if mmap_handle an = 0 then Inr (s, None)
             else Inr (s\<lparr>mappings := 4096 # length mp # mappings s\<rparr>, Some \<lparr>map_addr = mmap_file an, so_map_size = length mp, map_data = mp, dynstr = st, dynsym = sy, num_syms = num, sym_ent_size = es\<rparr>)
         | _ \<Rightarrow> Inr (s, None)))))"
    using o bs(2) unfolding dlopen_def Let_def l m2 m3 m1 bs(1) option.case q [symmetric] by simp
  then show ?thesis using e assms(2,3) by simp
qed


text \<open>Either nothing is left behind, or the two mappings of the handle.\<close>

definition balanced :: "dl_state \<Rightarrow> (dl_state \<times> so_handle option) res \<Rightarrow> bool" where
  "balanced s x = (\<forall>s' r. x = Inr (s', r) \<longrightarrow> s' = s \<and> r = None \<or> (\<exists>h. r = Some h \<and> map_addr h \<noteq> 0 \<and> s' = s\<lparr>mappings := 4096 # so_map_size h # mappings s\<rparr>))"

lemma balanced_bind: "(\<And>v. balanced s (f v)) \<Longrightarrow> balanced s (bind_res a f)"
  by (cases a) (simp_all add: balanced_def)

lemma balanced_dlopen: "balanced s (dlopen an path s)"
proof (cases "path = None \<or> \<not> opens an \<or> sint (file_size an) \<le> 0 \<or> mmap_file an = 0 \<or> read_data an = None")
  case True
  then show ?thesis by (auto simp: dlopen_def Let_def balanced_def close_fd_def lpp_sys_munmap_def)
next
  case False
  then show ?thesis unfolding dlopen_def Let_def
    by (auto intro!: balanced_bind simp: lpp_sys_munmap_def close_fd_def split: option.split) (simp_all add: balanced_def)
qed

lemma e_shnum_bound: "e_shnum mp = Inr n \<Longrightarrow> unat n < 65536"
proof -
  assume e: "e_shnum mp = Inr n"
  have "le_nat bs < 256 ^ length bs" for bs
  proof (induction bs)
    case (Cons b bs)
    then show ?case using unsigned_less [of b, where 'a = nat] by simp
  qed simp
  from this [of "take 2 (drop 60 mp)"] have "le_nat (take 2 (drop 60 mp)) < 256 ^ 2"
    by (rule less_le_trans) (simp only: length_take power_increasing min.cobounded2)
  then show ?thesis using e by (auto simp: e_shnum_def field_def unat_of_nat take_bit_nat_eq_self split: if_splits)
qed

text \<open>C36: Loading a shared object. Whatever the file holds, every way \<open>dlopen\<close> fails closes the file and removes its mappings, and \<open>dlclose\<close> removes those of a handle. When the end of the table of sections does not wrap around, \<open>dlopen\<close>
  reads only the file it mapped. When it does wrap, the sum passes the comparison with the size of the file and the first section header is read outside the mapping.\<close>

theorem lpp_dlopen_bounds:
  "(dlopen an path s = Inr (s', r) \<longrightarrow> open_fds s' = open_fds s \<and> (r = None \<longrightarrow> s' = s) \<and> dlclose r s' = s) \<and>
   (opened_file an mp \<and> is_elf mp = Inr True \<and> e_shoff mp = Inr shoff \<and> e_shnum mp = Inr shnum \<longrightarrow>
     (unat shoff + 64 * unat shnum < 2 ^ 64 \<longrightarrow> is_ok (dlopen an (Some p) s)) \<and>
     (2 ^ 64 \<le> unat shoff + 64 * unat shnum \<and> unat shoff + 8 \<le> 2 ^ 64 \<and> shoff + shnum * 64 \<le> file_size an \<longrightarrow>
        dlopen an (Some p) s = Inl (Fault ''read outside the mapping'')))"
proof (intro conjI impI)
  assume "dlopen an path s = Inr (s', r)"
  then have "s' = s \<and> r = None \<or> (\<exists>h. r = Some h \<and> map_addr h \<noteq> 0 \<and> s' = s\<lparr>mappings := 4096 # so_map_size h # mappings s\<rparr>)"
    using balanced_dlopen [of s an path] by (simp add: balanced_def)
  then show "open_fds s' = open_fds s" "r = None \<Longrightarrow> s' = s" "dlclose r s' = s" by (auto simp: dlclose_def lpp_sys_munmap_def)
next
  assume a: "opened_file an mp \<and> is_elf mp = Inr True \<and> e_shoff mp = Inr shoff \<and> e_shnum mp = Inr shnum"
  note l = opened_length [OF conjunct1 [OF a]]
  have eq: "dlopen an (Some p) s = (if \<not> sections_fit shoff shnum (file_size an) then Inr (s, None) else bind_res (scan_loop mp (file_size an) shoff shnum 0 (None, None, 0, 24)) (\<lambda>(str, sym, num, es).
      case (str, sym) of (Some st, Some sy) \<Rightarrow> if mmap_handle an = 0 then Inr (s, None)
        else Inr (s\<lparr>mappings := 4096 # length mp # mappings s\<rparr>, Some \<lparr>map_addr = mmap_file an, so_map_size = length mp, map_data = mp, dynstr = st, dynsym = sy, num_syms = num, sym_ent_size = es\<rparr>)
      | _ \<Rightarrow> Inr (s, None)))" using dlopen_eq [of an mp shoff shnum p s] a by simp
  {
    assume w: "unat shoff + 64 * unat shnum < 2 ^ 64"
    show "is_ok (dlopen an (Some p) s)"
    proof (cases "sections_fit shoff shnum (file_size an)")
      case True
      have "unat (shoff + of_nat (64 * unat shnum)) = unat shoff + 64 * unat shnum" using w by (rule unat_add_small)
      moreover have "shoff + shnum * 64 \<le> file_size an" using True by (simp add: sections_fit_def not_less)
      ultimately have "unat shoff + 64 * unat shnum \<le> length mp" using l(4) by (simp add: word_le_nat_alt mult.commute)
      from scan_loop_ok [OF this l(3), of "file_size an" 0 "(None, None, 0, 24)"] obtain str sym num es where "scan_loop mp (file_size an) shoff shnum 0 (None, None, 0, 24) = Inr (str, sym, num, es)"
        by (auto simp: is_ok_iff)
      then show ?thesis using eq True by (auto split: option.splits)
    qed (use eq in simp)
  }
  {
    assume w: "2 ^ 64 \<le> unat shoff + 64 * unat shnum \<and> unat shoff + 8 \<le> 2 ^ 64 \<and> shoff + shnum * 64 \<le> file_size an"
    have n: "unat shnum < 65536" using e_shnum_bound a by blast
    then have big: "2 ^ 64 - 64 * 65536 \<le> unat shoff" using w by simp
    have fit: "sections_fit shoff shnum (file_size an)" using w big by (auto simp: sections_fit_def not_less)
    have "unat (shoff + of_nat 4) = unat shoff + 4" using w by (intro unat_add_small) simp
    then have "sh_type mp shoff = Inl (Fault ''read outside the mapping'')" using big l(5) by (simp add: sh_type_def field_def)
    then have "scan_section mp (file_size an) shoff shnum (of_nat 0) t = Inl (Fault ''read outside the mapping'')" for t by (simp add: scan_section_def Let_def)
    moreover have "0 < unat shnum" using w unsigned_less [of shoff, where 'a = nat] by (cases "unat shnum") simp_all
    ultimately have "scan_loop mp (file_size an) shoff shnum 0 t = Inl (Fault ''read outside the mapping'')" for t by (subst scan_loop.simps) simp
    then show "dlopen an (Some p) s = Inl (Fault ''read outside the mapping'')" using eq fit by simp
  }
qed

section \<open>Searching a symbol\<close>

definition entry_name :: "so_handle \<Rightarrow> nat \<Rightarrow> nat" where
  "entry_name h i = le_nat (take 4 (drop (unat (dynsym h) + i * unat (sym_ent_size h)) (map_data h)))"

definition entry_value :: "so_handle \<Rightarrow> nat \<Rightarrow> nat" where
  "entry_value h i = le_nat (take 8 (drop (unat (dynsym h) + i * unat (sym_ent_size h) + 8) (map_data h)))"

definition text_at :: "u8 list \<Rightarrow> nat \<Rightarrow> u8 list" where
  "text_at mp a = takeWhile (\<lambda>b. b \<noteq> 0) (drop a mp)"

definition sym_named :: "so_handle \<Rightarrow> string \<Rightarrow> nat \<Rightarrow> bool" where
  "sym_named h name i = (entry_name h i \<noteq> 0 \<and> text_at (map_data h) (unat (dynstr h) + entry_name h i) = map of_char name)"

text \<open>A handle whose tables lie inside the mapping and whose names are terminated there.\<close>

definition so_ok :: "so_handle \<Rightarrow> bool" where
  "so_ok h = (length (map_data h) < 2 ^ 64 \<and> (\<forall>i < unat (num_syms h). unat (dynsym h) + i * unat (sym_ent_size h) + 24 \<le> length (map_data h) \<and>
     (entry_name h i \<noteq> 0 \<longrightarrow> 0 \<in> set (drop (unat (dynstr h) + entry_name h i) (map_data h)))))"

lemma field_1: "unat a < length mp \<Longrightarrow> field mp a (Suc 0) = Inr (ucast (mp ! unat a))"
  by (simp add: field_def Cons_nth_drop_Suc [symmetric] Suc_le_eq)

lemma ucast_of_char: "(ucast (of_char c :: u64) :: u8) = of_char c" "(ucast (of_char c :: u8) :: u64) = of_char c"
proof -
  have "(of_char c :: nat) < 2 ^ 64" "(of_char c :: nat) < 2 ^ 8" using nat_of_char_less_256 [of c] by (simp_all del: nat_of_char_less_256)
  then have k: "take_bit 64 (of_char c :: nat) = of_char c" "take_bit 8 (of_char c :: nat) = of_char c" by (simp_all only: take_bit_nat_eq_self)
  have "(ucast (of_nat (of_char c) :: u64) :: u8) = of_nat (of_char c)" "(ucast (of_nat (of_char c) :: u8) :: u64) = of_nat (of_char c)"
    using k by (simp_all add: unsigned_of_nat)
  then show "(ucast (of_char c :: u64) :: u8) = of_char c" "(ucast (of_char c :: u8) :: u64) = of_char c" unfolding of_nat_of_char .
qed

lemma ucast_u8_u64_u8: "(ucast (ucast (b :: u8) :: u64) :: u8) = b"
  by (rule bit_word_eqI) (simp add: bit_simps)

lemma byte_char: "(ucast (b :: u8) :: u64) = of_char c \<longleftrightarrow> b = of_char c" "(ucast (b :: u8) :: u64) = 0 \<longleftrightarrow> b = 0"
  using ucast_of_char ucast_u8_u64_u8 by (metis, metis unsigned_0)

lemma char_nonzero: "c \<noteq> CHR 0x00 \<Longrightarrow> (of_char c :: u8) \<noteq> 0"
proof
  assume "(of_char c :: u8) = 0" "c \<noteq> CHR 0x00"
  then have "(of_nat (of_char c) :: u8) = of_nat 0" by (simp add: of_nat_of_char)
  then have "take_bit 8 (of_char c :: nat) = take_bit 8 0" unfolding word_of_nat_eq_iff by simp
  moreover have "(of_char c :: nat) < 2 ^ 8" using nat_of_char_less_256 [of c] by (simp del: nat_of_char_less_256)
  ultimately have "(of_char c :: nat) = 0" by (simp add: take_bit_nat_eq_self)
  then have "char_of (of_char c :: nat) = char_of (0 :: nat)" by simp
  moreover have "char_of (0 :: nat) = CHR 0x00" by code_simp
  ultimately show False using \<open>c \<noteq> CHR 0x00\<close> by simp
qed

lemma le_nat_bound: "le_nat (take k bs) < 256 ^ k"
proof (induction k arbitrary: bs)
  case (Suc k)
  show ?case
  proof (cases bs)
    case (Cons b bs')
    then show ?thesis using Suc [of bs'] unsigned_less [of b, where 'a = nat] by simp
  qed simp
qed simp

lemma name_eq_ok:
  assumes "length mp < 2 ^ 64"
  shows "0 \<in> set (drop (unat a) mp) \<Longrightarrow> CHR 0x00 \<notin> set cs \<Longrightarrow> name_eq mp a cs = Inr (text_at mp (unat a) = map of_char cs)"
proof (induction cs arbitrary: a)
  case Nil
  have l: "unat a < length mp" using Nil(1) by (cases "unat a < length mp") simp_all
  then show ?case by (simp add: field_1 byte_char text_at_def Cons_nth_drop_Suc [OF l, symmetric])
next
  case (Cons c cs)
  have l: "unat a < length mp" using Cons(2) by (cases "unat a < length mp") simp_all
  have a1: "unat (a + 1) = unat a + 1" using unat_add_small [of a 1] l assms by simp
  have d: "drop (unat a) mp = mp ! unat a # drop (unat (a + 1)) mp" using Cons_nth_drop_Suc [OF l] a1 by simp
  have c: "(of_char c :: u8) \<noteq> 0" using Cons(3) by (intro char_nonzero) auto
  show ?case
  proof (cases "mp ! unat a = of_char c")
    case True
    then have "0 \<in> set (drop (unat (a + 1)) mp)" using Cons(2) d c by simp
    from Cons(1) [OF this] Cons(3) True c show ?thesis using l by (simp add: field_1 byte_char text_at_def d)
  next
    case False
    then show ?thesis using l by (simp add: field_1 byte_char text_at_def d)
  qed
qed


lemma sym_loop_ok:
  assumes "so_ok h" "CHR 0x00 \<notin> set name"
  shows "i \<le> unat (num_syms h) \<Longrightarrow> sym_loop h name i = Inr (map_option (\<lambda>i. map_addr h + of_nat (entry_value h i)) (find (sym_named h name) [i..<unat (num_syms h)]))"
proof (induction "unat (num_syms h) - i" arbitrary: i)
  case 0
  then show ?case by (subst sym_loop.simps) simp
next
  case (Suc k)
  then have i: "i < unat (num_syms h)" by simp
  let ?a = "unat (dynsym h) + i * unat (sym_ent_size h)"
  let ?y = "dynsym h + of_nat i * sym_ent_size h"
  have b: "?a + 24 \<le> length (map_data h)" "length (map_data h) < 2 ^ 64" "entry_name h i \<noteq> 0 \<longrightarrow> 0 \<in> set (drop (unat (dynstr h) + entry_name h i) (map_data h))"
    using assms(1) i by (simp_all add: so_ok_def)
  have e: "?y = dynsym h + of_nat (i * unat (sym_ent_size h))" by simp
  have y: "unat ?y = ?a" unfolding e using b by (intro unat_add_small) linarith
  have y8: "unat (?y + 8) = ?a + 8" using unat_add_small [of ?y 8] y b by simp
  define nm where "nm = entry_name h i"
  have nm: "st_name (map_data h) ?y = Inr (of_nat nm)" using b(1) y by (simp add: st_name_def field_def entry_name_def nm_def)
  have v: "st_value (map_data h) ?y = Inr (of_nat (entry_value h i))" using b(1) y8 by (simp add: st_value_def field_def entry_value_def add.assoc)
  have "nm < 2 ^ 32" unfolding nm_def entry_name_def by (rule less_le_trans [OF le_nat_bound]) simp
  then have z: "(of_nat nm :: u64) \<noteq> 0 \<longleftrightarrow> nm \<noteq> 0" by (cases "nm = 0") (auto simp: word_of_nat_eq_0_iff dest: dvd_imp_le)
  have f: "(if (of_nat nm :: u64) \<noteq> 0 then name_eq (map_data h) (dynstr h + of_nat nm) name else Inr False) = Inr (sym_named h name i)"
  proof (cases "nm = 0")
    case False
    then have t: "0 \<in> set (drop (unat (dynstr h) + nm) (map_data h))" using b(3) by (simp add: nm_def)
    then have "unat (dynstr h) + nm < length (map_data h)" by (cases "unat (dynstr h) + nm < length (map_data h)") simp_all
    then have u: "unat (dynstr h + of_nat nm) = unat (dynstr h) + nm" using b(2) by (intro unat_add_small) linarith
    show ?thesis using False z name_eq_ok [OF b(2) _ assms(2), of "dynstr h + of_nat nm"] t u by (simp add: sym_named_def nm_def)
  qed (simp add: sym_named_def nm_def)
  have r: "sym_loop h name (Suc i) = Inr (map_option (\<lambda>i. map_addr h + of_nat (entry_value h i)) (find (sym_named h name) [Suc i..<unat (num_syms h)]))"
    using Suc(2) i by (intro Suc(1)) simp_all
  have "sym_loop h name i = (if sym_named h name i then Inr (Some (map_addr h + of_nat (entry_value h i))) else sym_loop h name (Suc i))"
    using i by (subst sym_loop.simps) (simp only: Let_def nm f v bind_res.simps if_True)
  then show ?case using r i by (simp add: upt_conv_Cons)
qed

text \<open>C37: Searching a symbol. In an object whose tables lie inside the file and whose names are terminated, \<open>dlsym\<close> reads only the mapping and returns the address of the first symbol with a name offset and exactly the name asked for; without
  such a symbol, and for NULL arguments, it returns NULL.\<close>

theorem lpp_dlsym_finds:
  assumes "so_ok h" "nul_free name"
  shows "dlsym (Some h) (Some name) = Inr (map_option (\<lambda>i. map_addr h + of_nat (entry_value h i)) (find (sym_named h name) [0..<unat (num_syms h)])) \<and>
    dlsym None (Some name) = Inr None \<and> dlsym (Some h) None = Inr None"
  using sym_loop_ok [OF assms(1), of name 0] assms(2) by (simp add: dlsym_def nul_free_def)

theorem lpp_dlsym_finds_witness:
  "dlsym (Some \<lparr>map_addr = 0x7000, so_map_size = 32, map_data = [2, 0, 0, 0, 0, 0, 0, 0, 0x34, 0x12, 0, 0, 0, 0, 0, 0, 0, 0, 0, 0, 0, 0, 0, 0, 0, 0, 102, 0, 0, 0, 0, 0],
     dynstr = 24, dynsym = 0, num_syms = 1, sym_ent_size = 24\<rparr>) (Some ''f'') = Inr (Some 0x8234)"
proof -
  let ?h = "\<lparr>map_addr = 0x7000, so_map_size = 32, map_data = [2, 0, 0, 0, 0, 0, 0, 0, 0x34, 0x12, 0, 0, 0, 0, 0, 0, 0, 0, 0, 0, 0, 0, 0, 0, 0, 0, 102, 0, 0, 0, 0, 0],
     dynstr = 24, dynsym = 0, num_syms = 1, sym_ent_size = 24\<rparr>"
  have "so_ok ?h" "nul_free ''f''" by (simp_all add: so_ok_def entry_name_def nul_free_def)
  from lpp_dlsym_finds [OF this] show ?thesis by (simp add: sym_named_def entry_name_def entry_value_def text_at_def)
qed

text \<open>A file whose table of sections ends behind the address space: the sum is 0, the comparison passes.\<close>

theorem lpp_dlopen_bounds_witness:
  "\<exists>an s. dlopen an (Some ''so'') s = Inl (Fault ''read outside the mapping'')"
proof -
  define bs :: "u8 list" where "bs = [0x7F, 69, 76, 70] @ replicate 36 0 @ [0xC0, 0xFF, 0xFF, 0xFF, 0xFF, 0xFF, 0xFF, 0xFF] @ replicate 12 0 @ [1, 0, 0, 0]"
  define mp where "mp = bs @ replicate (page_round 64 - length bs) 0"
  define an where "an = \<lparr>opens = True, file_size = 64, mmap_file = 0x7000, read_data = Some bs, mmap_handle = 0x9000\<rparr>"
  have l: "length bs = 64" by (simp add: bs_def)
  have o: "opened_file an mp" using l by (simp add: opened_file_def an_def mp_def)
  have "take 4 mp = [0x7F, 69, 76, 70]" "take 8 (drop 40 mp) = [0xC0, 0xFF, 0xFF, 0xFF, 0xFF, 0xFF, 0xFF, 0xFF]" "take 2 (drop 60 mp) = [1, 0]" "64 \<le> length mp"
    by (simp_all add: mp_def bs_def)
  then have "is_elf mp = Inr True" "e_shoff mp = Inr 0xFFFFFFFFFFFFFFC0" "e_shnum mp = Inr 1" by (simp_all add: is_elf_def e_shoff_def e_shnum_def field_def)
  with lpp_dlopen_bounds [of an "Some ''so''" "\<lparr>open_fds = 0, mappings = []\<rparr>" _ _ mp "0xFFFFFFFFFFFFFFC0" 1 "''so''"] o
  have "dlopen an (Some ''so'') \<lparr>open_fds = 0, mappings = []\<rparr> = Inl (Fault ''read outside the mapping'')" by (simp add: an_def)
  then show ?thesis by blast
qed

end
