(* ===== verification/Lpp_Console.thy ===== *)
theory Lpp_Console
  imports Lpp_Sys "HOL-Library.Signed_Division"
begin

text \<open>
  Output and the end of a program in \<^verbatim>\<open>runtime/lpp_runtime.c\<close> and the freestanding runtimes: printing, panics, the crash handler and the system figures. What reaches the two streams is a list of chunks in the order in which they appear;
  the host's standard output is buffered until it is flushed. A number with a fraction is given by what the floating-point unit computes of it: its sign, the integer part of its magnitude and the fraction in millionths, rounded, which may
  be a full million.
\<close>

section \<open>Streams\<close>

datatype stream = Out | Err

record console =
  pending :: string
  shown :: "(stream \<times> string) list"

definition fflush_out :: "console \<Rightarrow> console" where
  "fflush_out c = (if pending c = [] then c else c\<lparr>pending := [], shown := shown c @ [(Out, pending c)]\<rparr>)"

definition put_out :: "string \<Rightarrow> console \<Rightarrow> console" where
  "put_out t c = c\<lparr>pending := pending c @ t\<rparr>"

definition put_err :: "string \<Rightarrow> console \<Rightarrow> console" where
  "put_err t c = (if t = [] then c else c\<lparr>shown := shown c @ [(Err, t)]\<rparr>)"

definition write_1 :: "string \<Rightarrow> console \<Rightarrow> console" where
  "write_1 t c = (if t = [] then c else c\<lparr>shown := shown c @ [(Out, t)]\<rparr>)"

definition lpp_flush_all :: "console \<Rightarrow> console" where
  "lpp_flush_all c = fflush_out c"

abbreviation nl :: string where
  "nl \<equiv> [CHR 0x0A]"

section \<open>Printing\<close>

definition lpp_print_int :: "i64 \<Rightarrow> console \<Rightarrow> console" where
  "lpp_print_int v c = fflush_out (put_out (print_int (sint v) @ nl) c)"

definition lpp_print_bool :: "u8 \<Rightarrow> console \<Rightarrow> console" where
  "lpp_print_bool v c = fflush_out (put_out (print_int (if v \<noteq> 0 then 1 else 0) @ nl) c)"

definition lpp_print_str :: "cstr \<Rightarrow> console \<Rightarrow> console" where
  "lpp_print_str p c = (case p of None \<Rightarrow> c | Some t \<Rightarrow> fflush_out (put_out (t @ nl) c))"

definition lpp_write_str :: "cstr \<Rightarrow> console \<Rightarrow> console" where
  "lpp_write_str p c = (case p of None \<Rightarrow> c | Some t \<Rightarrow> fflush_out (put_out t c))"

text \<open>The freestanding runtimes write to descriptor 1 directly.\<close>

definition print_int_fs :: "i64 \<Rightarrow> console \<Rightarrow> console res" where
  "print_int_fs v c = bind_res (lpp_print_int_fs v) (\<lambda>t. Inr (write_1 t c))"

definition lpp_print_bool_fs :: "u8 \<Rightarrow> console \<Rightarrow> console res" where
  "lpp_print_bool_fs v c = print_int_fs (if v \<noteq> 0 then 1 else 0) c"

definition lpp_print_str_fs :: "cstr \<Rightarrow> console \<Rightarrow> console" where
  "lpp_print_str_fs p c = (case p of None \<Rightarrow> c | Some t \<Rightarrow> write_1 nl (write_1 t c))"

section \<open>Numbers with a fraction\<close>

text \<open>Six digits of the fraction, written from position \<open>i\<close> downwards.\<close>

fun frac_loop :: "string \<Rightarrow> nat \<Rightarrow> nat \<Rightarrow> nat \<Rightarrow> (string \<times> nat) res" where
  "frac_loop buf i 0 fr = Inr (buf, i)"
| "frac_loop buf i (Suc k) fr = (if i = 0 then Inl (Fault ''write outside the block'')
     else bind_res (poke buf (i - 1) [digit_char (fr mod 10)]) (\<lambda>buf. frac_loop buf (i - 1) k (fr div 10)))"

definition lpp_print_float_fs :: "bool \<Rightarrow> nat \<Rightarrow> nat \<Rightarrow> string res" where
  "lpp_print_float_fs negative ip fr = bind_res (poke (replicate 64 CHR 0x00) 63 nl) (\<lambda>buffer.
     bind_res (frac_loop buffer 63 6 fr) (\<lambda>(buffer, cursor).
     if cursor = 0 then Inl (Fault ''write outside the block'') else bind_res (poke buffer (cursor - 1) ''.'') (\<lambda>buffer.
     bind_res (itoa_loop buffer (cursor - 1) ip) (\<lambda>(buffer, cursor).
     if negative then if cursor = 0 then Inl (Fault ''write outside the block'') else bind_res (poke buffer (cursor - 1) ''-'') (\<lambda>buffer. Inr (drop (cursor - 1) buffer))
     else Inr (drop cursor buffer)))))"

definition lpp_print_float_min :: "bool \<Rightarrow> nat \<Rightarrow> nat \<Rightarrow> string res" where
  "lpp_print_float_min = lpp_print_float_fs"

text \<open>The digits of a number, the last one first, as the loop leaves them in \<open>tmp\<close>.\<close>

fun rev_digits :: "nat \<Rightarrow> string" where
  "rev_digits n = digit_char (n mod 10) # (if n div 10 = 0 then [] else rev_digits (n div 10))"

declare rev_digits.simps [simp del]

fun frac_digits :: "nat \<Rightarrow> nat \<Rightarrow> string" where
  "frac_digits 0 fr = []"
| "frac_digits (Suc k) fr = frac_digits k (fr div 10) @ [digit_char (fr mod 10)]"

fun trim_zeros :: "string \<Rightarrow> nat \<Rightarrow> nat" where
  "trim_zeros fbuf 0 = 0"
| "trim_zeros fbuf (Suc k) = (if fbuf ! k = CHR ''0'' then trim_zeros fbuf k else Suc k)"

definition lpp_float_to_str_fs :: "(int \<Rightarrow> bool) \<Rightarrow> bool \<Rightarrow> nat \<Rightarrow> nat \<Rightarrow> string res" where
  "lpp_float_to_str_fs oom negative ip fr = (let (ip, fr) = (if fr \<ge> 1000000 then (ip + 1, fr - 1000000) else (ip, fr));
       tmp = rev_digits ip; fbuf = frac_digits 6 fr; flen = trim_zeros fbuf 6;
       text = (if negative then ''-'' else []) @ rev tmp @ (if flen > 0 then ''.'' @ take flen fbuf else [])
     in if length tmp > 32 then Inl (Fault ''write outside the block'')
        else bind_res (poke (replicate 64 CHR 0x00) 0 (text @ [CHR 0x00])) (\<lambda>_. if oom (int (length text) + 1) then Inl (Fault ''write through NULL'') else Inr text))"

text \<open>On Windows the six digits are cut off one after the other: \<open>ds\<close> are the integer parts the loop computes.\<close>

definition lpp_float_to_str_min :: "(int \<Rightarrow> bool) \<Rightarrow> bool \<Rightarrow> nat \<Rightarrow> nat list \<Rightarrow> string res" where
  "lpp_float_to_str_min oom negative ip ds = (let text = (if negative then ''-'' else []) @ (if ip = 0 then ''0'' else rev (rev_digits ip)) @ ''.'' @ map digit_char ds
     in if length (rev_digits ip) > 32 then Inl (Fault ''write outside the block'')
        else bind_res (poke (replicate 64 CHR 0x00) 0 text) (\<lambda>_. Inr (if oom (int (length text) + 1) then [] else text)))"

section \<open>Panics and signals\<close>

definition rule_line :: string where
  "rule_line = replicate 67 CHR ''=''"

definition pad2 :: "nat \<Rightarrow> string" where
  "pad2 i = (if i < 10 then '' '' else []) @ print_base 10 i"

text \<open>The POSIX branch: \<open>backtrace\<close> answers at most 32 frames, \<open>backtrace_symbols\<close> a text for each, or nothing; then the addresses are printed.\<close>

definition lpp_print_backtrace :: "string list \<Rightarrow> string list option \<Rightarrow> console \<Rightarrow> console" where
  "lpp_print_backtrace addrs syms c = fold (\<lambda>(i, t) c. put_err (''  ['' @ pad2 i @ ''] '' @ t @ nl) c)
     (enumerate 0 (case syms of Some ts \<Rightarrow> take (length addrs) ts | None \<Rightarrow> addrs)) (put_err (nl @ ''Stack Backtrace:'' @ nl) c)"

text \<open>The Windows branch: what the libraries answer. A frame has the text of its address, its symbol if \<open>SymFromAddr\<close> finds one and its line if \<open>SymGetLineFromAddr64\<close> does, whose file name may be missing.\<close>

record bt_frame =
  f_addr :: string
  f_symbol :: "string option"
  f_line :: "(string option \<times> nat) option"

record bt_libs =
  has_kernel32 :: bool
  has_capture :: bool
  has_sym_init :: bool
  init_ok :: bool
  has_from_addr :: bool
  has_get_line :: bool
  has_cleanup :: bool

definition frame_text_win :: "bt_libs \<Rightarrow> bt_frame \<Rightarrow> string" where
  "frame_text_win l f = ''0x'' @ f_addr f @
     (case (if has_sym_init l \<and> init_ok l \<and> has_from_addr l then f_symbol f else None) of
       None \<Rightarrow> []
     | Some n \<Rightarrow> '': '' @ n @ (case (if has_get_line l then f_line f else None) of
           Some (Some fn, ln) \<Rightarrow> '' ('' @ fn @ '':'' @ print_base 10 ln @ '')''
         | _ \<Rightarrow> []))"

text \<open>The second part of the result says that \<open>SymCleanup\<close> was called.\<close>

definition lpp_print_backtrace_win :: "bt_libs \<Rightarrow> bt_frame list \<Rightarrow> console \<Rightarrow> console \<times> bool" where
  "lpp_print_backtrace_win l frames c = (let c = put_err (nl @ ''Stack Backtrace:'' @ nl) c in
     if has_kernel32 l \<and> has_capture l
     then (fold (\<lambda>(i, t) c. put_err (''  ['' @ pad2 i @ ''] '' @ t @ nl) c) (enumerate 0 (map (frame_text_win l) frames)) c,
           has_sym_init l \<and> init_ok l \<and> has_cleanup l)
     else (put_err (''  (backtrace unavailable)'' @ nl) c, False))"

definition panic_banner :: string where
  "panic_banner = map char_of [0xF0, 0x9F, 0x92, 0xA5 :: nat] @ '' L++ RUNTIME PANIC''"

definition lpp_panic :: "string list \<Rightarrow> string list option \<Rightarrow> string \<Rightarrow> console \<Rightarrow> console \<times> int" where
  "lpp_panic addrs syms reason c =
     (let c = put_err nl (put_err reason (put_err ''Reason: '' (put_err (rule_line @ nl) (put_err (panic_banner @ nl) (put_err (nl @ rule_line @ nl) (fflush_out c))))));
          c = put_err (rule_line @ nl @ nl) (lpp_print_backtrace addrs syms c)
      in (fflush_out c, 101))"

datatype signal = SIGSEGV | SIGFPE | SIGABRT | SIGILL | OtherSignal int

definition sig_name :: "signal \<Rightarrow> string" where
  "sig_name s = (case s of
       SIGSEGV \<Rightarrow> ''Segmentation Fault (SIGSEGV) - Null pointer or invalid memory access''
     | SIGFPE \<Rightarrow> ''Floating Point Exception (SIGFPE) - Integer division by zero or arithmetic error''
     | SIGABRT \<Rightarrow> ''Abort Signal (SIGABRT) - Process abort triggered''
     | SIGILL \<Rightarrow> ''Illegal Instruction (SIGILL) - Invalid CPU instruction execute attempt''
     | OtherSignal _ \<Rightarrow> ''Unknown Signal'')"

definition lpp_signal_handler :: "signal \<Rightarrow> console \<Rightarrow> console \<times> int" where
  "lpp_signal_handler s c = (let c = fflush_out c;
       c = put_err (nl @ rule_line @ nl @ panic_banner @ '' (Signal)'' @ nl @ rule_line @ nl @ ''Reason: Fatal Hardware/OS Signal Received: '') c;
       c = put_err (sig_name s) c
     in (put_err (nl @ rule_line @ nl @ nl) c, 101))"

record crash_state =
  g_lpp_crash_handler_installed :: bool
  atexit_flush :: nat
  handled :: "signal set"

definition lpp_init_crash_handler :: "crash_state \<Rightarrow> crash_state" where
  "lpp_init_crash_handler s = (if g_lpp_crash_handler_installed s then s
     else s\<lparr>g_lpp_crash_handler_installed := True, atexit_flush := atexit_flush s + 1, handled := handled s \<union> {SIGSEGV, SIGFPE, SIGABRT, SIGILL}\<rparr>)"

text \<open>\<open>exit\<close> runs the handlers of \<open>atexit\<close> and hands the low byte of its argument to the parent; Windows keeps 32 bits.\<close>

definition lpp_exit :: "i64 \<Rightarrow> console \<Rightarrow> console \<times> nat" where
  "lpp_exit code c = (lpp_flush_all c, unat (ucast code :: u8))"

definition lpp_exit_fs :: "i64 \<Rightarrow> nat" where
  "lpp_exit_fs code = unat (ucast code :: u8)"

definition lpp_exit_win :: "i64 \<Rightarrow> nat" where
  "lpp_exit_win code = unat (ucast code :: u32)"

section \<open>System figures\<close>

text \<open>None is a failing call.\<close>

definition lpp_sys_mem_total_win :: "u64 option \<Rightarrow> i64" where
  "lpp_sys_mem_total_win phys = (case phys of Some n \<Rightarrow> n div (1024 * 1024) | None \<Rightarrow> 16384)"

definition lpp_sys_mem_free_win :: "u64 option \<Rightarrow> i64" where
  "lpp_sys_mem_free_win avail = (case avail of Some n \<Rightarrow> n div (1024 * 1024) | None \<Rightarrow> 8192)"

definition lpp__filetime_to_u64 :: "u32 \<times> u32 \<Rightarrow> u64" where
  "lpp__filetime_to_u64 ft = push_bit 32 (ucast (fst ft)) OR ucast (snd ft)"

record cpu_times =
  last_idle :: u64
  last_kernel :: u64
  last_user :: u64

type_synonym filetimes = "(u32 \<times> u32) \<times> (u32 \<times> u32) \<times> (u32 \<times> u32)"

text \<open>The answers of the two calls of \<open>GetSystemTimes\<close>; the second is made on the first use only.\<close>

definition lpp_sys_cpu_usage_win :: "filetimes option \<Rightarrow> filetimes option \<Rightarrow> cpu_times \<Rightarrow> cpu_times \<times> i64" where
  "lpp_sys_cpu_usage_win a1 a2 s = (case a1 of None \<Rightarrow> (s, 5) | Some t1 \<Rightarrow>
     (case (if last_idle s = 0 then a2 else a1) of None \<Rightarrow> (s, 5) | Some (idle, kern, user) \<Rightarrow>
       let now_idle = lpp__filetime_to_u64 idle; now_kernel = lpp__filetime_to_u64 kern; now_user = lpp__filetime_to_u64 user;
           idle_diff = now_idle - last_idle s; kernel_diff = now_kernel - last_kernel s; user_diff = now_user - last_user s;
           s = \<lparr>last_idle = now_idle, last_kernel = now_kernel, last_user = now_user\<rparr>;
           total_diff = kernel_diff + user_diff
       in if total_diff = 0 then (s, 0)
          else if total_diff \<ge> idle_diff then (s, (total_diff - idle_diff) * 100 div total_diff) else (s, 0)))"

definition lpp_sys_uptime_win :: "u64 \<Rightarrow> i64" where
  "lpp_sys_uptime_win ticks = ticks div 1000"

definition lpp_sys_mem_total_mac :: "i64 option \<Rightarrow> i64" where
  "lpp_sys_mem_total_mac mem = (case mem of Some n \<Rightarrow> word_of_int (sint n sdiv (1024 * 1024)) | None \<Rightarrow> 16384)"

definition lpp_sys_mem_free_mac :: i64 where "lpp_sys_mem_free_mac = 8192"
definition lpp_sys_cpu_usage_mac :: i64 where "lpp_sys_cpu_usage_mac = 5"

definition lpp_sys_uptime_mac :: "i64 option \<Rightarrow> i64 \<Rightarrow> i64" where
  "lpp_sys_uptime_mac boot now = (case boot of Some b \<Rightarrow> now - b | None \<Rightarrow> 3600)"

record sysinfo =
  totalram :: u64
  freeram :: u64
  mem_unit :: u32
  load1 :: u64
  si_uptime :: i64

definition lpp_sys_mem_total :: "sysinfo option \<Rightarrow> i64" where
  "lpp_sys_mem_total info = (case info of Some i \<Rightarrow> (totalram i * ucast (mem_unit i)) div (1024 * 1024) | None \<Rightarrow> 16384)"

definition lpp_sys_mem_free :: "sysinfo option \<Rightarrow> i64" where
  "lpp_sys_mem_free info = (case info of Some i \<Rightarrow> (freeram i * ucast (mem_unit i)) div (1024 * 1024) | None \<Rightarrow> 8192)"

definition lpp_sys_cpu_usage :: "sysinfo option \<Rightarrow> i64" where
  "lpp_sys_cpu_usage info = (case info of Some i \<Rightarrow> load1 i | None \<Rightarrow> 5)"

definition lpp_sys_uptime :: "sysinfo option \<Rightarrow> i64" where
  "lpp_sys_uptime info = (case info of Some i \<Rightarrow> si_uptime i | None \<Rightarrow> 3600)"

definition lpp_sys_mem_total_min :: i64 where "lpp_sys_mem_total_min = 16384"
definition lpp_sys_mem_free_min :: i64 where "lpp_sys_mem_free_min = 8192"
definition lpp_sys_cpu_usage_min :: i64 where "lpp_sys_cpu_usage_min = 5"

definition lpp_sys_uptime_min :: "u64 \<Rightarrow> i64" where
  "lpp_sys_uptime_min ticks = ticks div 1000"

section \<open>What is printed\<close>

definition out_text :: "console \<Rightarrow> string" where
  "out_text c = concat (map snd (filter (\<lambda>(s, _). s = Out) (shown c))) @ pending c"

lemma out_text_console [simp]:
  "out_text (fflush_out c) = out_text c"
  "out_text (put_out t c) = out_text c @ t"
  "out_text (put_err t c) = out_text c"
  by (auto simp: out_text_def fflush_out_def put_out_def put_err_def)

lemma out_text_write_1 [simp]: "pending c = [] \<Longrightarrow> out_text (write_1 t c) = out_text c @ t"
  by (auto simp: out_text_def write_1_def)

lemma pending_console [simp]:
  "pending (fflush_out c) = []"
  "pending (write_1 t c) = pending c"
  "pending (put_err t c) = pending c"
  by (auto simp: fflush_out_def write_1_def put_err_def)

text \<open>The host and the freestanding runtimes print the same text, for every value, and leave nothing buffered.\<close>

theorem lpp_print_agrees:
  assumes "pending c = []"
  shows "\<exists>c'. print_int_fs v c = Inr c' \<and> pending c' = [] \<and> out_text c' = out_text (lpp_print_int v c)"
    and "\<exists>c'. lpp_print_bool_fs b c = Inr c' \<and> pending c' = [] \<and> out_text c' = out_text (lpp_print_bool b c)"
    and "out_text (lpp_print_str_fs p c) = out_text (lpp_print_str p c)"
    and "pending (lpp_print_str p c) = []" "pending (lpp_write_str p c) = []" "pending (lpp_print_int v c) = []"
  using assms by (auto simp: print_int_fs_def lpp_print_bool_fs_def lpp_print_int_fs_ok lpp_print_int_def lpp_print_bool_def lpp_print_str_def
    lpp_print_str_fs_def lpp_write_str_def split: option.splits)

section \<open>The end of a program\<close>

definition errs :: "string list \<Rightarrow> (stream \<times> string) list" where
  "errs ts = map (Pair Err) (filter (\<lambda>t. t \<noteq> []) ts)"

lemma put_err_shown: "shown (put_err t c) = shown c @ errs [t]"
  by (simp add: put_err_def errs_def)

lemma errs_append: "errs xs @ errs ys = errs (xs @ ys)"
  by (simp add: errs_def)

lemma fold_put_err: "shown (fold (\<lambda>x. put_err (f x)) xs c) = shown c @ errs (map f xs)"
  by (induction xs arbitrary: c) (auto simp: put_err_shown errs_append, simp add: errs_def)

lemma fold_put_err_pending: "pending (fold (\<lambda>x. put_err (f x)) xs c) = pending c"
  by (induction xs arbitrary: c) auto

definition frame_line :: "nat \<times> string \<Rightarrow> string" where
  "frame_line = (\<lambda>(i, t). ''  ['' @ pad2 i @ ''] '' @ t @ nl)"

lemma lpp_print_backtrace_shown:
  "shown (lpp_print_backtrace addrs syms c) = shown c @ errs ((nl @ ''Stack Backtrace:'' @ nl) #
     map frame_line (enumerate 0 (case syms of Some ts \<Rightarrow> take (length addrs) ts | None \<Rightarrow> addrs)))"
  "pending (lpp_print_backtrace addrs syms c) = pending c"
  using fold_put_err [of frame_line] fold_put_err_pending [of frame_line]
  by (simp_all add: lpp_print_backtrace_def frame_line_def case_prod_beta' put_err_shown errs_append del: append.simps append_assoc) (simp_all add: errs_def)

lemma lpp_print_backtrace_win_shown:
  "has_kernel32 l \<Longrightarrow> has_capture l \<Longrightarrow> shown (fst (lpp_print_backtrace_win l fs c)) =
    shown c @ errs ((nl @ ''Stack Backtrace:'' @ nl) # map frame_line (enumerate 0 (map (frame_text_win l) fs)))"
  using fold_put_err [of frame_line]
  by (simp add: lpp_print_backtrace_win_def Let_def frame_line_def case_prod_beta' put_err_shown errs_append del: append.simps append_assoc) (simp add: errs_def)

lemma fflush_shown: "shown (fflush_out c) = shown c @ (if pending c = [] then [] else [(Out, pending c)])"
  by (simp add: fflush_out_def)


text \<open>The handler is installed once, however often the initialisation runs; every signal it handles ends the process with status 101 after the pending output.\<close>

theorem lpp_init_crash_handler_once:
  "lpp_init_crash_handler (lpp_init_crash_handler s) = lpp_init_crash_handler s"
  "handled (lpp_init_crash_handler \<lparr>g_lpp_crash_handler_installed = False, atexit_flush = 0, handled = {}\<rparr>) = {SIGSEGV, SIGFPE, SIGABRT, SIGILL}"
  "snd (lpp_signal_handler g c) = 101" "out_text (fst (lpp_signal_handler g c)) = out_text c" "pending (fst (lpp_signal_handler g c)) = []"
  by (auto simp: lpp_init_crash_handler_def lpp_signal_handler_def Let_def)

section \<open>Numbers with a fraction\<close>

lemma rev_rev_digits: "rev (rev_digits n) = print_base 10 n"
proof (induction n rule: rev_digits.induct)
  case (1 n)
  show ?case
  proof (cases "n div 10 = 0")
    case True
    then have "n < 10" by (simp add: div_eq_0_iff)
    then show ?thesis by (subst rev_digits.simps, subst print_base.simps) simp
  next
    case False
    then have "\<not> n < 10" by simp
    with 1 [OF False] False show ?thesis by (subst rev_digits.simps, subst print_base.simps) simp
  qed
qed

lemma length_rev_digits [simp]: "length (rev_digits n) = length (print_base 10 n)"
  using arg_cong [OF rev_rev_digits, of length] by simp

lemma length_frac_digits [simp]: "length (frac_digits k fr) = k"
  by (induction k arbitrary: fr) auto

lemma frac_digits_are: "c \<in> set (frac_digits k fr) \<Longrightarrow> is_digit c"
  by (induction k arbitrary: fr) auto

lemma digits_val_frac: "foldl (\<lambda>v c. v * 10 + int (digit_val c)) a (frac_digits k fr) = a * 10 ^ k + int (fr mod 10 ^ k)"
proof (induction k arbitrary: fr)
  case (Suc k)
  have "fr mod 10 ^ Suc k = 10 * (fr div 10 mod 10 ^ k) + fr mod 10" by (simp add: mod_mult2_eq)
  then show ?case using Suc [of "fr div 10"] by (simp add: digit_val_def of_char_digit_char algebra_simps)
qed simp

lemma digits_val_number: "digits_val (print_base 10 ip @ frac_digits 6 fr) = int (ip * 1000000 + fr mod 1000000)"
proof -
  have "takeWhile is_digit (print_base 10 ip @ frac_digits 6 fr) = print_base 10 ip @ frac_digits 6 fr"
    using print_base_10_digits frac_digits_are by (auto simp: takeWhile_eq_all_conv)
  then have "digits_val (print_base 10 ip @ frac_digits 6 fr) = foldl (\<lambda>v c. v * 10 + int (digit_val c)) 0 (print_base 10 ip @ frac_digits 6 fr)"
    by (simp only: digits_val_def)
  then show ?thesis using digits_val_frac [of "int ip" 6 fr] by (simp only: foldl_append foldl_digits) simp
qed


lemma frac_loop_ok:
  "k \<le> i \<Longrightarrow> frac_loop (replicate i CHR 0x00 @ rest) i k fr = Inr (replicate (i - k) CHR 0x00 @ frac_digits k fr @ rest, i - k)"
proof (induction k arbitrary: i fr rest)
  case (Suc k)
  then obtain j where j: "i = Suc j" "k \<le> j" by (cases i) auto
  have "replicate i CHR 0x00 @ rest = replicate j CHR 0x00 @ CHR 0x00 # rest" using j by (simp add: replicate_app_Cons_same)
  then have "poke (replicate i CHR 0x00 @ rest) j [digit_char (fr mod 10)] = Inr (replicate j CHR 0x00 @ digit_char (fr mod 10) # rest)"
    using poke_append [of "[digit_char (fr mod 10)]" "CHR 0x00 # rest" "replicate j CHR 0x00"] by simp
  then show ?case using Suc.IH [OF j(2), of "digit_char (fr mod 10) # rest" "fr div 10"] j by simp
qed simp

lemma poke_before:
  "0 < k \<Longrightarrow> poke (replicate k CHR 0x00 @ rest) (k - 1) [x] = Inr (replicate (k - 1) CHR 0x00 @ x # rest)"
  using poke_append [of "[x]" "CHR 0x00 # rest" "replicate (k - 1) CHR 0x00"]
  by (cases k) (simp_all add: replicate_app_Cons_same)

lemma lpp_print_float_fs_ok:
  assumes "ip < 2 ^ 63"
  shows "lpp_print_float_fs negative ip fr = Inr ((if negative then ''-'' else []) @ print_base 10 ip @ ''.'' @ frac_digits 6 fr @ nl)"
proof -
  let ?r = "''.'' @ frac_digits 6 fr @ nl" and ?p = "print_base 10 ip" and ?k = "56 - length (print_base 10 ip)"
  have l: "length ?p \<le> 19" using length_print_base [of 10 ip 18] assms by simp
  have b0: "poke (replicate 64 CHR 0x00) 63 nl = Inr (replicate 63 CHR 0x00 @ nl)" by (simp add: poke_def)
  have b1: "frac_loop (replicate 63 CHR 0x00 @ nl) 63 6 fr = Inr (replicate 57 CHR 0x00 @ frac_digits 6 fr @ nl, 57)"
    using frac_loop_ok [of 6 63 nl fr] by simp
  have b2: "poke (replicate 57 CHR 0x00 @ frac_digits 6 fr @ nl) (57 - 1) ''.'' = Inr (replicate 56 CHR 0x00 @ ?r)"
    using poke_before [of 57 "frac_digits 6 fr @ nl"] by simp
  have b3: "itoa_loop (replicate 56 CHR 0x00 @ ?r) (57 - 1) ip = Inr (replicate ?k CHR 0x00 @ ?p @ ?r, ?k)"
    using itoa_loop_ok [of ip 56 ?r] l by simp
  have k: "0 < ?k" using l by simp
  show ?thesis unfolding lpp_print_float_fs_def b0 bind_res.simps b1 prod.case
    unfolding b2 b3 bind_res.simps prod.case using k poke_before [OF k, of "?p @ ?r" "CHR ''-''"] by (cases negative) simp_all
qed


lemma trim_zeros_le: "trim_zeros t k \<le> k"
  by (induction k) auto

lemma trim_zeros_drop: "k \<le> length t \<Longrightarrow> take k t = take (trim_zeros t k) t @ replicate (k - trim_zeros t k) CHR ''0''"
proof (induction k)
  case (Suc k)
  show ?case
  proof (cases "t ! k = CHR ''0''")
    case True
    have "take (Suc k) t = take k t @ [CHR ''0'']" using Suc(2) True by (simp add: take_Suc_conv_app_nth)
    also have "\<dots> = take (trim_zeros t k) t @ replicate (k - trim_zeros t k) CHR ''0'' @ [CHR ''0'']" using Suc by simp
    finally show ?thesis using True trim_zeros_le [of t k] by (simp add: replicate_append_same Suc_diff_le)
  qed simp
qed simp

text \<open>The text of a number: its integer part and, unless it is a whole number, its fraction without the trailing zeros.\<close>

definition short_number :: "bool \<Rightarrow> nat \<Rightarrow> nat \<Rightarrow> string" where
  "short_number negative ip fr = (let f = frac_digits 6 fr; k = trim_zeros f 6
     in (if negative then ''-'' else []) @ print_base 10 ip @ (if k > 0 then ''.'' @ take k f else []))"

lemma lpp_float_to_str_fs_ok:
  assumes "ip < 2 ^ 63" "fr \<le> 1000000" "\<And>n. n \<le> 28 \<Longrightarrow> \<not> oom n"
  shows "lpp_float_to_str_fs oom negative ip fr = Inr (if fr = 1000000 then short_number negative (ip + 1) 0 else short_number negative ip fr)"
proof -
  define ip' fr' where "ip' = (if fr \<ge> 1000000 then ip + 1 else ip)" and "fr' = (if fr \<ge> 1000000 then fr - 1000000 else fr)"
  let ?t = "short_number negative ip' fr'"
  have l: "length (print_base 10 ip') \<le> 19" using length_print_base [of 10 ip' 18] assms(1) by (simp add: ip'_def split: if_splits)
  have "length ?t \<le> 27" using l trim_zeros_le [of "frac_digits 6 fr'" 6] by (simp add: short_number_def Let_def)
  then have "\<not> oom (int (length ?t) + 1)" "Suc (length ?t) \<le> 64" using assms(3) by simp_all
  note fits = this
  have p: "poke (replicate 64 CHR 0x00) 0 (?t @ [CHR 0x00]) = Inr (?t @ CHR 0x00 # replicate (64 - Suc (length ?t)) CHR 0x00)"
    using fits(2) by (simp add: poke_def)
  have "lpp_float_to_str_fs oom negative ip fr = (if length (rev_digits ip') > 32 then Inl (Fault ''write outside the block'')
      else bind_res (poke (replicate 64 CHR 0x00) 0 (?t @ [CHR 0x00])) (\<lambda>_. if oom (int (length ?t) + 1) then Inl (Fault ''write through NULL'') else Inr ?t))"
    by (cases "fr \<ge> 1000000") (simp_all only: lpp_float_to_str_fs_def ip'_def fr'_def short_number_def Let_def rev_rev_digits if_True if_False prod.case)
  then have "lpp_float_to_str_fs oom negative ip fr = Inr ?t" using l fits(1) unfolding p bind_res.simps by simp
  then show ?thesis using assms(2) by (auto simp: ip'_def fr'_def)
qed

lemma digit_char_zero: "digit_char 0 = CHR ''0''"
  by code_simp

lemma frac_digits_zero: "frac_digits k 0 = replicate k CHR ''0''"
  by (induction k) (simp_all add: digit_char_zero replicate_append_same)

lemma trim_zeros_zero: "k \<le> n \<Longrightarrow> trim_zeros (replicate n CHR ''0'') k = 0"
  by (induction k) auto



lemma lpp_float_to_str_min_ok:
  assumes "ip < 2 ^ 63" "length ds = 6" "\<forall>n\<le>28. \<not> oom n"
  shows "lpp_float_to_str_min oom negative ip ds = Inr ((if negative then ''-'' else []) @ print_base 10 ip @ ''.'' @ map digit_char ds)"
proof -
  let ?t = "(if negative then ''-'' else []) @ print_base 10 ip @ ''.'' @ map digit_char ds"
  have l: "length (print_base 10 ip) \<le> 19" using length_print_base [of 10 ip 18] assms(1) by simp
  have z: "(if ip = 0 then ''0'' else rev (rev_digits ip)) = print_base 10 ip" by (simp add: rev_rev_digits print_base.simps digit_char_zero)
  have t: "length ?t \<le> 27" using l assms(2) by simp
  then have "\<not> oom (int (length ?t) + 1)" using assms(3) by simp
  moreover have "poke (replicate 64 CHR 0x00) 0 ?t = Inr (?t @ replicate (64 - length ?t) CHR 0x00)" using t by (simp add: poke_def)
  ultimately show ?thesis using l unfolding lpp_float_to_str_min_def Let_def z by simp
qed

section \<open>System figures\<close>

lemma percent_bound:
  fixes k u i :: u64
  assumes "unat k + unat u < 2 ^ 57" "i \<le> k + u"
  shows "unat ((k + u - i) * 100 div (k + u)) \<le> 100"
proof -
  let ?t = "k + u"
  have t: "unat ?t < 2 ^ 57" using assms(1) by (simp add: unat_word_ariths take_bit_eq_mod unsigned_of_nat)
  have d: "unat (?t - i) \<le> unat ?t" by (metis assms(2) unat_sub diff_le_self)
  then have "unat ((?t - i) * 100) = unat (?t - i) * 100" using t by (simp only: unat_word_ariths(2)) simp
  then have "unat ((?t - i) * 100 div ?t) = unat (?t - i) * 100 div unat ?t" by (simp add: unat_div_distrib)
  also have "\<dots> \<le> unat ?t * 100 div unat ?t" using d by (intro div_le_mono) simp
  also have "\<dots> \<le> 100" by simp
  finally show ?thesis .
qed

lemma small_sint: "unat (w :: i64) \<le> 100 \<Longrightarrow> 0 \<le> sint w \<and> sint w \<le> 100"
proof -
  assume "unat w \<le> 100"
  then have u: "uint w \<le> 100" "0 \<le> uint w" by (simp_all only: unat_eq_nat_uint nat_le_iff) simp_all
  then have "signed_take_bit 63 (uint w) = uint w" using order_trans [OF _ u(2)] by (intro signed_take_bit_int_eq_self) simp_all
  then have "sint w = uint w" by (simp add: sint_uint)
  with u show ?thesis by simp
qed

text \<open>The figure of \<open>lpp_sys_cpu_usage\<close> on Windows lies between 0 and 100 whenever the kernel and user times since the last call sum up to less than \<open>2 ^ 57\<close> units of 100 ns, so that the product does not wrap, whatever the idle time
  is; a failing system call answers 5 and leaves the stored times alone.\<close>

theorem lpp_sys_cpu_usage_bounds:
  assumes "a = (if last_idle s = 0 then a2 else a1)" "a1 \<noteq> None"
    and "\<forall>idl krn usr. a = Some (idl, krn, usr) \<longrightarrow> unat (lpp__filetime_to_u64 krn - last_kernel s) + unat (lpp__filetime_to_u64 usr - last_user s) < 2 ^ 57"
  shows "0 \<le> sint (snd (lpp_sys_cpu_usage_win a1 a2 s)) \<and> sint (snd (lpp_sys_cpu_usage_win a1 a2 s)) \<le> 100 \<and>
    (a = None \<longrightarrow> lpp_sys_cpu_usage_win a1 a2 s = (s, 5))"
proof (cases a)
  case None
  then show ?thesis using assms(1,2) by (auto simp: lpp_sys_cpu_usage_win_def split: option.splits)
next
  case (Some t)
  obtain idl krn usr where t: "t = (idl, krn, usr)" by (cases t) auto
  let ?k = "lpp__filetime_to_u64 krn - last_kernel s" and ?u = "lpp__filetime_to_u64 usr - last_user s" and ?i = "lpp__filetime_to_u64 idl - last_idle s"
  have small: "unat ?k + unat ?u < 2 ^ 57" using assms(3) unfolding Some t by blast
  have r: "snd (lpp_sys_cpu_usage_win a1 a2 s) = (if ?k + ?u = 0 then 0 else if ?k + ?u \<ge> ?i then (?k + ?u - ?i) * 100 div (?k + ?u) else 0)"
    using assms(1,2) Some t by (auto simp: lpp_sys_cpu_usage_win_def Let_def split: option.splits)
  have "unat (snd (lpp_sys_cpu_usage_win a1 a2 s)) \<le> 100"
    unfolding r using percent_bound [OF small, of ?i] by auto
  then show ?thesis using Some small_sint by auto
qed


theorem lpp_sys_cpu_usage_bounds_witness:
  "0 \<le> sint (snd (lpp_sys_cpu_usage_win (Some ((0, 5), (0, 5), (0, 5))) (Some ((0, 30), (0, 100), (0, 20))) \<lparr>last_idle = 0, last_kernel = 0, last_user = 0\<rparr>))"
  using lpp_sys_cpu_usage_bounds [of "Some ((0, 30), (0, 100), (0, 20))" "\<lparr>last_idle = 0, last_kernel = 0, last_user = 0\<rparr>" "Some ((0, 30), (0, 100), (0, 20))" "Some ((0, 5), (0, 5), (0, 5))"]
  by (simp add: lpp__filetime_to_u64_def)

text \<open>The first call waits and asks again, but does not keep the first answer: its figure is the usage since the system started, not over the time it waited.\<close>

theorem lpp_sys_cpu_usage_first:
  "last_idle s = 0 \<Longrightarrow> lpp_sys_cpu_usage_win (Some t1) a2 s = lpp_sys_cpu_usage_win (Some t2) a2 s"
  by (simp add: lpp_sys_cpu_usage_win_def)

end
