(* ===== verification/Lpp_Webview.thy ===== *)
theory Lpp_Webview
  imports Lpp_Str "HOL-Library.Multiset"
begin

text \<open>
  The embedded browser windows of \<^verbatim>\<open>runtime/lpp_webview.c\<close>: eight slots, each a window with the environment, the controller and the view WebView2 creates for it. The objects of WebView2 are counted
  references: \<open>refs\<close> holds those the runtime owns, a call on or a release of an object it does not own is a fault. \<open>windows\<close> are the windows that exist, \<open>temp_files\<close> the files written for pages set before the view
  was ready. What the system answers is the record \<open>wv_os\<close> and the arguments of the functions; what it delivers while messages are pumped is a list of events. \<open>DestroyWindow\<close> sends \<open>WM_DESTROY\<close> before it
  returns. The messages \<open>SetWindowPos\<close> sends are events of their own.
\<close>

section \<open>The system and the state\<close>

text \<open>Answers of the system: the path of the program as the 260 bytes of the caller receive it, attributes, full names and contents of files, the UTF-16 form of a string, failing allocations, libraries and functions found in them, folders. \<open>full_path\<close>
  is None when the name does not fit the caller's 260 bytes, which are then left alone; \<open>file_read\<close> is the size of a file and the bytes read.\<close>

record wv_os =
  module_file :: string
  has_attributes :: "string \<Rightarrow> bool"
  full_path :: "string \<Rightarrow> string option"
  file_read :: "string \<Rightarrow> (u32 \<times> string) option"
  widen :: "string \<Rightarrow> u16 list option"
  heap_fails :: "nat \<Rightarrow> bool"
  load_library :: "string \<Rightarrow> bool"
  has_proc :: "string \<Rightarrow> string \<Rightarrow> bool"
  local_app_data :: "string option"
  temp_path :: string
  can_create :: "string \<Rightarrow> bool"

type_synonym rect = "u32 \<times> u32 \<times> u32 \<times> u32"

datatype wv_call = SetDpiAwareness | OleInit | RegisterClass | CreateWindow "u16 list" u32 u32 | DarkMode u64 | ShowWin u64
  | CreateDirectory string | CreateEnvironment "u16 list" nat | CreateController u64 u64 nat | GetCore u64 | GetSettings u64 | PutSettings u64
  | PutBounds u64 rect | PutVisible u64 bool | NotifyPosition u64 | Navigate u64 "u16 list" | NavigateToString u64 "u16 list" | CloseController u64
  | SetWindowPos u64 rect | Paint u64 | WriteTo string string | PostQuit

record webview =
  hwnd :: u64
  is_open :: bool
  is_ready :: bool
  width :: u32
  height :: u32
  current_url :: string
  temp_html_path :: string
  env :: u64
  controller :: u64
  core :: u64
  env_vtbl :: bool
  env_slot :: nat
  ctrl_vtbl :: bool
  ctrl_slot :: nat

definition zero_webview :: webview where
  "zero_webview = \<lparr>hwnd = 0, is_open = False, is_ready = False, width = 0, height = 0, current_url = [], temp_html_path = [], env = 0, controller = 0, core = 0,
     env_vtbl = False, env_slot = 0, ctrl_vtbl = False, ctrl_slot = 0\<rparr>"

record wv_state =
  g_webviews :: "webview list"
  g_wv_class_registered :: bool
  initialized :: bool
  p_create :: bool
  windows :: "u64 set"
  refs :: "u64 multiset"
  temp_files :: "string set"
  wlog :: "wv_call list"

definition wv_start :: wv_state where
  "wv_start = \<lparr>g_webviews = replicate 8 zero_webview, g_wv_class_registered = False, initialized = False, p_create = False, windows = {}, refs = {#}, temp_files = {}, wlog = []\<rparr>"

abbreviation wv :: "wv_state \<Rightarrow> nat \<Rightarrow> webview" where
  "wv s i \<equiv> g_webviews s ! i"

definition upd :: "nat \<Rightarrow> (webview \<Rightarrow> webview) \<Rightarrow> wv_state \<Rightarrow> wv_state" where
  "upd i f s = s\<lparr>g_webviews := (g_webviews s)[i := f (wv s i)]\<rparr>"

definition log_calls :: "wv_call list \<Rightarrow> wv_state \<Rightarrow> wv_state" where
  "log_calls cs s = s\<lparr>wlog := wlog s @ cs\<rparr>"

section \<open>Calls on counted objects\<close>

definition com_addref :: "u64 \<Rightarrow> wv_state \<Rightarrow> wv_state" where
  "com_addref p s = s\<lparr>refs := add_mset p (refs s)\<rparr>"

definition com_release :: "u64 \<Rightarrow> wv_state \<Rightarrow> wv_state res" where
  "com_release p s = (if p \<in># refs s then Inr (s\<lparr>refs := refs s - {#p#}\<rparr>) else Inl (Fault ''release of an object not owned''))"

definition com_calls :: "u64 \<Rightarrow> wv_call list \<Rightarrow> wv_state \<Rightarrow> wv_state res" where
  "com_calls p cs s = (if p \<in># refs s then Inr (log_calls cs s) else Inl (Fault ''call on an object not owned''))"

section \<open>Strings and paths\<close>

text \<open>A copy of a string with its terminator into a block of \<open>n\<close> bytes, and of its UTF-16 form into a block of \<open>n\<close> units: when \<open>MultiByteToWideChar\<close> fails, the block has no terminated string to read.\<close>

definition strcpy_to :: "nat \<Rightarrow> string \<Rightarrow> string res" where
  "strcpy_to n s = (if length s < n then Inr s else Inl (Fault ''write outside the block''))"

definition widen_to :: "wv_os \<Rightarrow> nat \<Rightarrow> string \<Rightarrow> u16 list res" where
  "widen_to os n s = (case widen os s of None \<Rightarrow> Inl (Fault ''read of uninitialised memory'')
     | Some w \<Rightarrow> if length w < n then Inr w else Inl (Fault ''read of uninitialised memory''))"

fun strrchr_loop :: "string \<Rightarrow> char \<Rightarrow> nat \<Rightarrow> nat option \<Rightarrow> nat option" where
  "strrchr_loop [] c i la = la"
| "strrchr_loop (x # s) c i la = strrchr_loop s c (Suc i) (if x = c then Some i else la)"

definition lpp_strrchr :: "string \<Rightarrow> char \<Rightarrow> nat option" where
  "lpp_strrchr s c = strrchr_loop s c 0 None"

definition exe_dir :: "wv_os \<Rightarrow> string" where
  "exe_dir os = (case lpp_strrchr (module_file os) CHR 0x5C of None \<Rightarrow> module_file os | Some i \<Rightarrow> take i (module_file os))"

definition base_name :: "string \<Rightarrow> string" where
  "base_name p = (case lpp_strrchr p CHR ''/'' of Some i \<Rightarrow> drop (Suc i) p
     | None \<Rightarrow> (case lpp_strrchr p CHR 0x5C of Some i \<Rightarrow> drop (Suc i) p | None \<Rightarrow> p))"

definition get_full_path :: "wv_os \<Rightarrow> string \<Rightarrow> string" where
  "get_full_path os p = (case full_path os p of None \<Rightarrow> [] | Some f \<Rightarrow> f)"

text \<open>The search both callers make: the name itself, the name below the program's folder, its last part there. The answer None is that nothing was found.\<close>

definition find_file :: "wv_os \<Rightarrow> string \<Rightarrow> string option res" where
  "find_file os p = (if has_attributes os p then Inr (Some (get_full_path os p))
     else bind_res (strcpy_to 260 (exe_dir os @ CHR 0x5C # p)) (\<lambda>candidate.
       if has_attributes os candidate then Inr (Some (get_full_path os candidate))
       else bind_res (strcpy_to 260 (exe_dir os @ CHR 0x5C # base_name p)) (\<lambda>candidate.
         if has_attributes os candidate then Inr (Some (get_full_path os candidate)) else Inr None)))"

definition has_sub :: "string \<Rightarrow> string \<Rightarrow> bool" where
  "has_sub s t = (strstr s t \<noteq> None)"

definition lpp_format_url :: "wv_os \<Rightarrow> cstr \<Rightarrow> nat \<Rightarrow> string res" where
  "lpp_format_url os inp out = (case inp of
       Some (c # cs) \<Rightarrow> (let p = c # cs in
         if has_sub p ''://'' \<or> has_sub p ''data:'' \<or> has_sub p ''about:'' then strcpy_to out p
         else bind_res (find_file os p) (\<lambda>found.
           let full = (case found of Some f \<Rightarrow> f | None \<Rightarrow> get_full_path os p)
           in strcpy_to out (''file:///'' @ map (\<lambda>x. if x = CHR 0x5C then CHR ''/'' else x) full)))
     | _ \<Rightarrow> strcpy_to out ''about:blank'')"

definition lpp_read_file_content :: "wv_os \<Rightarrow> string \<Rightarrow> string option" where
  "lpp_read_file_content os p = (case file_read os p of None \<Rightarrow> None
     | Some (n, bs) \<Rightarrow> if n = 0 \<or> n = 0xFFFFFFFF then None
         else if heap_fails os (unat n + 1) then None
         else Some (takeWhile (\<lambda>c. c \<noteq> CHR 0x00) bs))"

text \<open>Handing a page to the view: False when there is no UTF-16 form or no memory for it.\<close>

definition navigate_html :: "wv_os \<Rightarrow> u64 \<Rightarrow> string \<Rightarrow> wv_state \<Rightarrow> (wv_state \<times> bool) res" where
  "navigate_html os p html s = (case widen os html of None \<Rightarrow> Inr (s, False)
     | Some w \<Rightarrow> if heap_fails os ((length w + 2) * 2) then Inr (s, False)
         else bind_res (com_calls p [NavigateToString p w] s) (\<lambda>s. Inr (s, True)))"

definition navigate_url :: "wv_os \<Rightarrow> u64 \<Rightarrow> string \<Rightarrow> wv_state \<Rightarrow> wv_state res" where
  "navigate_url os p url s = bind_res (widen_to os 1024 url) (\<lambda>w. com_calls p [Navigate p w] s)"

definition lpp_load_content_into_core :: "wv_os \<Rightarrow> u64 \<Rightarrow> cstr \<Rightarrow> wv_state \<Rightarrow> wv_state res" where
  "lpp_load_content_into_core os p url s = (case url of
       Some (c # cs) \<Rightarrow> (let u = c # cs in
         if p = 0 then Inr s
         else if strstr u ''http://'' = Some 0 \<or> strstr u ''https://'' = Some 0 \<or> strstr u ''data:'' = Some 0 then navigate_url os p u s
         else bind_res (find_file os u) (\<lambda>found.
           bind_res (case (case found of Some (d # ds) \<Rightarrow> lpp_read_file_content os (d # ds) | _ \<Rightarrow> None) of
               None \<Rightarrow> Inr (s, False) | Some html \<Rightarrow> navigate_html os p html s) (\<lambda>(s, done).
             if done then Inr s
             else bind_res (lpp_format_url os (Some u) 1024) (\<lambda>final. navigate_url os p final s))))
     | _ \<Rightarrow> Inr s)"

section \<open>The completion handlers\<close>

datatype guid = IID_IUnknown | IID_EnvCompleted | IID_CtrlCompleted | IID_Other nat

definition S_OK :: int where "S_OK = 0"
definition E_POINTER :: int where "E_POINTER = 0x80004003"
definition E_NOINTERFACE :: int where "E_NOINTERFACE = 0x80004002"

text \<open>The result and what is stored through \<open>ppvObject\<close>; nothing is stored when it is NULL.\<close>

definition Env_QueryInterface :: "u64 \<Rightarrow> guid \<Rightarrow> bool \<Rightarrow> int \<times> u64 option" where
  "Env_QueryInterface this riid out = (if \<not> out then (E_POINTER, None)
     else if riid = IID_IUnknown \<or> riid = IID_EnvCompleted then (S_OK, Some this) else (E_NOINTERFACE, Some 0))"

definition Ctrl_QueryInterface :: "u64 \<Rightarrow> guid \<Rightarrow> bool \<Rightarrow> int \<times> u64 option" where
  "Ctrl_QueryInterface this riid out = (if \<not> out then (E_POINTER, None)
     else if riid = IID_IUnknown \<or> riid = IID_CtrlCompleted then (S_OK, Some this) else (E_NOINTERFACE, Some 0))"

text \<open>The settings of the view are an object of their own, owned during the call only.\<close>

definition apply_settings :: "u64 \<Rightarrow> u64 \<Rightarrow> wv_state \<Rightarrow> wv_state res" where
  "apply_settings c st s = bind_res (com_calls c [GetSettings c] s) (\<lambda>s.
     if st = 0 then Inr s else bind_res (com_calls st [PutSettings st] (com_addref st s)) (com_release st))"

definition show_view :: "u64 \<Rightarrow> rect \<Rightarrow> wv_state \<Rightarrow> wv_state res" where
  "show_view c r s = com_calls c [PutBounds c r, PutVisible c True, NotifyPosition c] s"

text \<open>\<open>handler\<close> is the index of the slot whose handler is called, \<open>cr\<close> the view \<open>get_CoreWebView2\<close> answers with a reference of its own, or 0.\<close>

definition Ctrl_Invoke :: "wv_os \<Rightarrow> nat \<Rightarrow> bool \<Rightarrow> u64 \<Rightarrow> u64 \<Rightarrow> u64 \<Rightarrow> rect \<Rightarrow> wv_state \<Rightarrow> wv_state res" where
  "Ctrl_Invoke os handler failed created cr st r s = (let slot = ctrl_slot (wv s handler)
     in if slot \<ge> 8 \<or> failed \<or> created = 0 then Inr (if slot < 8 then upd slot (\<lambda>w. w\<lparr>is_ready := True\<rparr>) s else s)
        else let s = upd slot (\<lambda>w. w\<lparr>controller := created\<rparr>) s; s = com_addref created s
        in bind_res (com_calls created [GetCore created] s) (\<lambda>s.
           let s = upd slot (\<lambda>w. w\<lparr>core := cr\<rparr>) (if cr = 0 then s else com_addref cr s)
           in bind_res (if cr \<noteq> 0 then apply_settings cr st s else Inr s) (\<lambda>s.
              bind_res (if hwnd (wv s slot) \<noteq> 0 then show_view created r s else Inr s) (\<lambda>s.
              bind_res (if cr \<noteq> 0 then lpp_load_content_into_core os cr (Some (if current_url (wv s slot) \<noteq> [] then current_url (wv s slot)
                  else if temp_html_path (wv s slot) \<noteq> [] then temp_html_path (wv s slot) else ''webview_demo/index.html'')) s else Inr s) (\<lambda>s.
              Inr (upd slot (\<lambda>w. w\<lparr>is_ready := True\<rparr>) s))))))"

definition Env_Invoke :: "nat \<Rightarrow> bool \<Rightarrow> u64 \<Rightarrow> wv_state \<Rightarrow> wv_state res" where
  "Env_Invoke handler failed created s = (let slot = env_slot (wv s handler)
     in if slot \<ge> 8 \<or> failed \<or> created = 0 then Inr (if slot < 8 then upd slot (\<lambda>w. w\<lparr>is_ready := True\<rparr>) s else s)
        else let s = upd slot (\<lambda>w. w\<lparr>env := created\<rparr>) s; s = com_addref created s;
                 s = upd slot (\<lambda>w. w\<lparr>ctrl_vtbl := True, ctrl_slot := slot\<rparr>) s
        in com_calls created [CreateController created (hwnd (wv s slot)) slot] s)"

definition loader_places :: "wv_os \<Rightarrow> string res" where
  "loader_places os = (case lpp_strrchr (module_file os) CHR 0x5C of
       Some i \<Rightarrow> strcpy_to 260 (take (Suc i) (module_file os) @ ''WebView2Loader.dll'')
     | None \<Rightarrow> strcpy_to 260 ''WebView2Loader.dll'')"

definition loader_fallbacks :: "string list" where
  "loader_fallbacks = [''WebView2Loader.dll'', ''webview_demo'' @ CHR 0x5C # ''WebView2Loader.dll'',
     ''packages'' @ CHR 0x5C # ''samarbook-app'' @ CHR 0x5C # ''WebView2Loader.dll'',
     ''webview2_sdk'' @ CHR 0x5C # ''build'' @ CHR 0x5C # ''native'' @ CHR 0x5C # ''x64'' @ CHR 0x5C # ''WebView2Loader.dll'',
     ''webview2_nuget'' @ CHR 0x5C # ''build'' @ CHR 0x5C # ''native'' @ CHR 0x5C # ''x64'' @ CHR 0x5C # ''WebView2Loader.dll'']"

definition lpp_init_handlers :: "wv_os \<Rightarrow> wv_state \<Rightarrow> wv_state res" where
  "lpp_init_handlers os s = (if initialized s then Inr s
     else let s = s\<lparr>initialized := True\<rparr>;
              s = log_calls ((if has_proc os ''user32.dll'' ''SetProcessDpiAwarenessContext'' then [SetDpiAwareness] else []) @ [OleInit]) s
     in bind_res (loader_places os) (\<lambda>own.
        Inr (case find (load_library os) (own # loader_fallbacks) of None \<Rightarrow> s
          | Some l \<Rightarrow> s\<lparr>p_create := has_proc os l ''CreateCoreWebView2EnvironmentWithOptions''\<rparr>)))"

section \<open>The window procedure\<close>

record wv_msg =
  m_hwnd :: u64
  m_code :: nat
  m_minimized :: bool
  m_new_rect :: "rect option"
  m_client :: rect

fun first_slot :: "(webview \<Rightarrow> bool) \<Rightarrow> webview list \<Rightarrow> nat \<Rightarrow> nat option" where
  "first_slot P [] i = None"
| "first_slot P (w # ws) i = (if P w then Some i else first_slot P ws (Suc i))"

text \<open>The controller of the window, when it has one.\<close>

definition with_controller :: "u64 \<Rightarrow> (u64 \<Rightarrow> wv_call list) \<Rightarrow> wv_state \<Rightarrow> wv_state res" where
  "with_controller h cs s = (case first_slot (\<lambda>w. hwnd w = h \<and> controller w \<noteq> 0) (g_webviews s) 0 of None \<Rightarrow> Inr s
     | Some i \<Rightarrow> com_calls (controller (wv s i)) (cs (controller (wv s i))) s)"

definition drop_controller :: "nat \<Rightarrow> wv_state \<Rightarrow> wv_state res" where
  "drop_controller i s = (let c = controller (wv s i) in if c = 0 then Inr s
     else bind_res (com_calls c [CloseController c] s) (\<lambda>s. bind_res (com_release c s) (\<lambda>s. Inr (upd i (\<lambda>w. w\<lparr>controller := 0\<rparr>) s))))"

definition drop_core :: "nat \<Rightarrow> wv_state \<Rightarrow> wv_state res" where
  "drop_core i s = (let c = core (wv s i) in if c = 0 then Inr s else bind_res (com_release c s) (\<lambda>s. Inr (upd i (\<lambda>w. w\<lparr>core := 0\<rparr>) s)))"

definition drop_env :: "nat \<Rightarrow> wv_state \<Rightarrow> wv_state res" where
  "drop_env i s = (let c = env (wv s i) in if c = 0 then Inr s else bind_res (com_release c s) (\<lambda>s. Inr (upd i (\<lambda>w. w\<lparr>env := 0\<rparr>) s)))"

definition drop_objects :: "nat \<Rightarrow> wv_state \<Rightarrow> wv_state res" where
  "drop_objects i s = bind_res (drop_controller i s) (\<lambda>s. bind_res (drop_core i s) (drop_env i))"

definition wv_wm_destroy :: "u64 \<Rightarrow> wv_state \<Rightarrow> wv_state res" where
  "wv_wm_destroy h s = bind_res (case first_slot (\<lambda>w. hwnd w = h) (g_webviews s) 0 of None \<Rightarrow> Inr s
     | Some i \<Rightarrow> bind_res (drop_objects i (upd i (\<lambda>w. w\<lparr>is_open := False, hwnd := 0\<rparr>) s)) (\<lambda>s.
         Inr (if temp_html_path (wv s i) \<noteq> [] then s\<lparr>temp_files := temp_files s - {temp_html_path (wv s i)}\<rparr> else s)))
     (\<lambda>s. Inr (log_calls [PostQuit] s))"

definition DestroyWindow :: "u64 \<Rightarrow> wv_state \<Rightarrow> wv_state res" where
  "DestroyWindow h s = (if h \<in> windows s then wv_wm_destroy h (s\<lparr>windows := windows s - {h}\<rparr>) else Inr s)"

definition WM_DESTROY :: nat where "WM_DESTROY = 2"
definition WM_MOVE :: nat where "WM_MOVE = 3"
definition WM_SIZE :: nat where "WM_SIZE = 5"
definition WM_PAINT :: nat where "WM_PAINT = 15"
definition WM_CLOSE :: nat where "WM_CLOSE = 16"
definition WM_ERASEBKGND :: nat where "WM_ERASEBKGND = 20"
definition WM_WINDOWPOSCHANGED :: nat where "WM_WINDOWPOSCHANGED = 71"
definition WM_DPICHANGED :: nat where "WM_DPICHANGED = 736"

text \<open>The result None is that of \<open>DefWindowProcW\<close>.\<close>

definition lpp_webview_wndproc :: "wv_msg \<Rightarrow> wv_state \<Rightarrow> (wv_state \<times> int option) res" where
  "lpp_webview_wndproc m s = (let h = m_hwnd m; r = m_client m in
     if m_code m = WM_SIZE then bind_res (with_controller h (\<lambda>c. if m_minimized m then [PutVisible c False]
         else [PutVisible c True, PutBounds c r, NotifyPosition c]) s) (\<lambda>s. Inr (s, None))
     else if m_code m = WM_MOVE \<or> m_code m = WM_WINDOWPOSCHANGED then bind_res (with_controller h (\<lambda>c. [PutBounds c r, NotifyPosition c]) s) (\<lambda>s. Inr (s, None))
     else if m_code m = WM_DPICHANGED then
       bind_res (with_controller h (\<lambda>c. [PutBounds c r, NotifyPosition c])
         (case m_new_rect m of None \<Rightarrow> s | Some (l, t, rt, b) \<Rightarrow> log_calls [SetWindowPos h (l, t, rt - l, b - t)] s)) (\<lambda>s. Inr (s, Some 0))
     else if m_code m = WM_ERASEBKGND then Inr (s, Some 1)
     else if m_code m = WM_PAINT then Inr (log_calls [Paint h] s, Some 0)
     else if m_code m = WM_CLOSE then bind_res (DestroyWindow h s) (\<lambda>s. Inr (s, Some 0))
     else if m_code m = WM_DESTROY then bind_res (wv_wm_destroy h s) (\<lambda>s. Inr (s, Some 0))
     else Inr (s, None))"

section \<open>Pumping messages\<close>

text \<open>What one turn of \<open>GetMessageW\<close> and \<open>DispatchMessageW\<close> brings: \<open>WM_QUIT\<close>, a message for a window, or the completion of a request to WebView2, which calls the handler stored in a slot. A message for a window
  that is gone is dropped. A window procedure is sent \<open>WM_DESTROY\<close> by \<open>DestroyWindow\<close> only.\<close>

datatype wv_event = Quit | Message wv_msg | EnvDone nat bool u64 | CtrlDone nat bool u64 u64 u64 rect

fun dispatch :: "wv_os \<Rightarrow> wv_event \<Rightarrow> wv_state \<Rightarrow> wv_state res" where
  "dispatch os Quit s = Inr s"
| "dispatch os (Message m) s = (if m_hwnd m \<in> windows s then bind_res (lpp_webview_wndproc m s) (\<lambda>(s, r). Inr s) else Inr s)"
| "dispatch os (EnvDone i failed e) s = (if env_vtbl (wv s i) then Env_Invoke i failed e s else Inl (Fault ''call through NULL''))"
| "dispatch os (CtrlDone i failed c cr st r) s = (if ctrl_vtbl (wv s i) then Ctrl_Invoke os i failed c cr st r s else Inl (Fault ''call through NULL''))"

text \<open>The loop \<open>while (condition and GetMessageW)\<close>. None: the condition still holds and no further event comes.\<close>

fun pump :: "wv_os \<Rightarrow> (wv_state \<Rightarrow> bool) \<Rightarrow> wv_event list \<Rightarrow> wv_state \<Rightarrow> (wv_state \<times> wv_event list) option res" where
  "pump os cond evs s = (if cond s then (case evs of [] \<Rightarrow> Inr None | Quit # es \<Rightarrow> Inr (Some (s, es))
       | e # es \<Rightarrow> bind_res (dispatch os e s) (pump os cond es))
     else Inr (Some (s, evs)))"

section \<open>The builtins\<close>

definition wide_bytes :: "u16 list \<Rightarrow> u8 list" where
  "wide_bytes w = concat (map (\<lambda>u. [ucast u, ucast (drop_bit 8 u)]) w)"

definition byte_strcpy :: "u8 list \<Rightarrow> u8 list" where
  "byte_strcpy bs = takeWhile (\<lambda>b. b \<noteq> 0) bs @ [0]"

fun wide_read :: "u8 option list \<Rightarrow> u16 list res" where
  "wide_read (Some a # Some b # bs) = (if a = 0 \<and> b = 0 then Inr [] else bind_res (wide_read bs) (\<lambda>w. Inr ((ucast a OR push_bit 8 (ucast b)) # w)))"
| "wide_read (None # bs) = Inl (Fault ''read of uninitialised memory'')"
| "wide_read (Some a # None # bs) = Inl (Fault ''read of uninitialised memory'')"
| "wide_read bs = Inl (Fault ''read outside the block'')"

definition default_title :: "u16 list" where
  "default_title = map of_char ''L++ Desktop Application'' @ [0]"

definition window_title :: "wv_os \<Rightarrow> cstr \<Rightarrow> u16 list res" where
  "window_title os title = (case title of
       Some (c # cs) \<Rightarrow> widen_to os 512 (c # cs)
     | _ \<Rightarrow> let bs = byte_strcpy (wide_bytes default_title) in wide_read (map Some bs @ replicate (1024 - length bs) None))"

definition or_default :: "i64 \<Rightarrow> u32 \<Rightarrow> u32" where
  "or_default x d = (if 0 < sint (ucast x :: u32) then ucast x else d)"

definition user_data_dir :: "wv_os \<Rightarrow> nat \<Rightarrow> string res" where
  "user_data_dir os slot = (case local_app_data os of
       Some d \<Rightarrow> if 260 \<le> length d then Inl (Fault ''read of uninitialised memory'')
         else strcpy_to 260 (d @ CHR 0x5C # ''LppWebView2'' @ CHR 0x5C # ''slot_'' @ print_base 10 slot)
     | None \<Rightarrow> strcpy_to 260 (temp_path os @ CHR 0x5C # ''LppWebView2_slot_'' @ print_base 10 slot))"

text \<open>Creating a window, up to the wait for WebView2: \<open>h\<close> is what \<open>CreateWindowExW\<close> answers, the flag says whether there is something to wait for.\<close>

definition create_start :: "wv_os \<Rightarrow> u64 \<Rightarrow> cstr \<Rightarrow> i64 \<Rightarrow> i64 \<Rightarrow> wv_state \<Rightarrow> (wv_state \<times> int \<times> bool) res" where
  "create_start os h title w ht s = bind_res (lpp_init_handlers os s) (\<lambda>s.
     case first_slot (\<lambda>v. \<not> is_open v) (g_webviews s) 0 of None \<Rightarrow> Inr (s, - 1, False)
     | Some slot \<Rightarrow>
        let s = (if g_wv_class_registered s then s else (log_calls [RegisterClass] s)\<lparr>g_wv_class_registered := True\<rparr>)
        in bind_res (window_title os title) (\<lambda>wt.
           let s = log_calls [CreateWindow wt (or_default w 1360) (or_default ht 820)] s
           in if h = 0 then Inr (s, - 1, False)
              else let s = s\<lparr>windows := insert h (windows s)\<rparr>;
                       s = log_calls ((if load_library os ''dwmapi.dll'' \<and> has_proc os ''dwmapi.dll'' ''DwmSetWindowAttribute'' then [DarkMode h] else []) @ [ShowWin h]) s;
                       s = upd slot (\<lambda>_. zero_webview\<lparr>hwnd := h, is_open := True, width := or_default w 1360, height := or_default ht 820\<rparr>) s
                   in if \<not> p_create s then Inr (s, int slot, False)
                      else bind_res (user_data_dir os slot) (\<lambda>dir. bind_res (widen_to os 260 dir) (\<lambda>wdir.
                        let s = log_calls [CreateDirectory dir] s;
                            s = upd slot (\<lambda>v. v\<lparr>env_vtbl := True, env_slot := slot\<rparr>) s;
                            s = log_calls [CreateEnvironment wdir slot] s
                        in Inr (s, int slot, True)))))"

text \<open>The result is the slot, or -1, with the events that were not taken; None when the call waits for a completion that does not come.\<close>

definition lpp_webview_window_create :: "wv_os \<Rightarrow> u64 \<Rightarrow> cstr \<Rightarrow> i64 \<Rightarrow> i64 \<Rightarrow> wv_event list \<Rightarrow> wv_state \<Rightarrow> (wv_state \<times> wv_event list \<times> int) option res" where
  "lpp_webview_window_create os h title w ht evs s = bind_res (create_start os h title w ht s) (\<lambda>(s, slot, waits).
     if \<not> waits then Inr (Some (s, evs, slot))
     else bind_res (pump os (\<lambda>s. \<not> is_ready (wv s (nat slot))) evs s) (\<lambda>r.
       Inr (case r of None \<Rightarrow> None | Some (s, evs) \<Rightarrow> Some (s, evs, slot))))"

definition valid_win :: "i64 \<Rightarrow> wv_state \<Rightarrow> bool" where
  "valid_win i s = (0 \<le> sint i \<and> sint i < 8 \<and> is_open (wv s (unat i)))"

definition lpp_webview_set_html :: "wv_os \<Rightarrow> i64 \<Rightarrow> cstr \<Rightarrow> wv_state \<Rightarrow> wv_state res" where
  "lpp_webview_set_html os i html s = (case html of None \<Rightarrow> Inr s | Some t \<Rightarrow> if \<not> valid_win i s then Inr s
     else bind_res (if core (wv s (unat i)) \<noteq> 0 then navigate_html os (core (wv s (unat i))) t s else Inr (s, False)) (\<lambda>(s, done).
       if done then Inr s
       else bind_res (strcpy_to 260 (temp_path os @ ''lpp_app_'' @ print_base 10 (unat i) @ ''.html'')) (\<lambda>p.
         let s = upd (unat i) (\<lambda>w. w\<lparr>temp_html_path := p\<rparr>) s
         in Inr (if can_create os p then (log_calls [WriteTo p t] s)\<lparr>temp_files := insert p (temp_files s)\<rparr> else s))))"

definition lpp_webview_navigate :: "wv_os \<Rightarrow> i64 \<Rightarrow> cstr \<Rightarrow> wv_state \<Rightarrow> wv_state res" where
  "lpp_webview_navigate os i url s = (case url of None \<Rightarrow> Inr s | Some u \<Rightarrow> if \<not> valid_win i s then Inr s
     else bind_res (strcpy_to 1024 u) (\<lambda>u. let s = upd (unat i) (\<lambda>w. w\<lparr>current_url := u\<rparr>) s
       in if core (wv s (unat i)) \<noteq> 0 then lpp_load_content_into_core os (core (wv s (unat i))) (Some u) s else Inr s))"

definition lpp_webview_run :: "wv_os \<Rightarrow> i64 \<Rightarrow> wv_event list \<Rightarrow> wv_state \<Rightarrow> (wv_state \<times> wv_event list) option res" where
  "lpp_webview_run os i evs s = (if \<not> valid_win i s then Inr (Some (s, evs)) else pump os (\<lambda>s. is_open (wv s (unat i))) evs s)"

definition lpp_webview_terminate :: "i64 \<Rightarrow> wv_state \<Rightarrow> wv_state res" where
  "lpp_webview_terminate i s = (if \<not> valid_win i s then Inr s
     else let k = unat i in bind_res (drop_objects k (upd k (\<lambda>w. w\<lparr>is_open := False\<rparr>) s)) (\<lambda>s.
       if hwnd (wv s k) = 0 then Inr s
       else bind_res (DestroyWindow (hwnd (wv s k)) s) (\<lambda>s. Inr (upd k (\<lambda>w. w\<lparr>hwnd := 0\<rparr>) s))))"

definition lpp_webview_destroy :: "i64 \<Rightarrow> wv_state \<Rightarrow> wv_state res" where
  "lpp_webview_destroy i s = lpp_webview_terminate i s"

text \<open>The stubs of the other systems.\<close>

definition lpp_webview_window_create_stub :: "cstr \<Rightarrow> i64 \<Rightarrow> i64 \<Rightarrow> int" where
  "lpp_webview_window_create_stub title w h = 0"

section \<open>The invariant\<close>

text \<open>The references a slot holds.\<close>

definition obj :: "u64 \<Rightarrow> u64 multiset" where
  "obj p = (if p = 0 then {#} else {#p#})"

definition objs :: "webview \<Rightarrow> u64 multiset" where
  "objs w = obj (env w) + obj (controller w) + obj (core w)"

definition held :: "wv_state \<Rightarrow> u64 multiset" where
  "held s = sum_list (map objs (g_webviews s))"

definition tpath :: "wv_os \<Rightarrow> nat \<Rightarrow> string" where
  "tpath os i = temp_path os @ ''lpp_app_'' @ print_base 10 i @ ''.html''"

definition is_web :: "string \<Rightarrow> bool" where
  "is_web u = (strstr u ''http://'' = Some 0 \<or> strstr u ''https://'' = Some 0 \<or> strstr u ''data:'' = Some 0)"

text \<open>An address the fixed blocks have room for: a web address of less than 1024 characters, or a name that fits 260 bytes behind the folder of the program.\<close>

definition url_ok :: "wv_os \<Rightarrow> string \<Rightarrow> bool" where
  "url_ok os u = (length u < 1024 \<and> (is_web u \<or> length (module_file os) + length u + 1 < 260))"

text \<open>What is assumed of the system: UTF-16 needs no more units than UTF-8 bytes, a full name fits the block it is written to, and the folders are short enough.\<close>

definition os_ok :: "wv_os \<Rightarrow> bool" where
  "os_ok os = ((\<forall>s. \<exists>w. widen os s = Some w \<and> length w \<le> length s) \<and> (\<forall>p f. full_path os p = Some f \<longrightarrow> length f < 260) \<and>
     length (module_file os) < 230 \<and> (\<forall>i < 8. url_ok os (tpath os i) \<and> length (tpath os i) < 260) \<and>
     (\<forall>d. local_app_data os = Some d \<longrightarrow> length d < 230) \<and> length (temp_path os) < 230)"

definition slot_ok :: "wv_os \<Rightarrow> nat \<Rightarrow> webview \<Rightarrow> bool" where
  "slot_ok os i w = ((is_open w \<longrightarrow> hwnd w \<noteq> 0) \<and> (\<not> is_open w \<longrightarrow> hwnd w = 0 \<and> objs w = {#}) \<and> (env_vtbl w \<longrightarrow> env_slot w = i) \<and> (ctrl_vtbl w \<longrightarrow> ctrl_slot w = i) \<and>
     (current_url w = [] \<or> url_ok os (current_url w)) \<and> temp_html_path w \<in> {[], tpath os i})"

definition opened :: "wv_state \<Rightarrow> nat set" where
  "opened s = {i. i < 8 \<and> is_open (wv s i)}"

definition wv_inv :: "wv_os \<Rightarrow> wv_state \<Rightarrow> bool" where
  "wv_inv os s = (length (g_webviews s) = 8 \<and> (\<forall>i < 8. slot_ok os i (wv s i)) \<and> refs s = held s \<and> windows s = (\<lambda>i. hwnd (wv s i)) ` opened s \<and>
     inj_on (\<lambda>i. hwnd (wv s i)) (opened s) \<and> temp_files s \<subseteq> (\<lambda>i. temp_html_path (wv s i)) ` opened s \<and> [] \<notin> temp_files s)"

section \<open>Helper lemmas\<close>

lemma log_calls_simps [simp]:
  "g_webviews (log_calls cs s) = g_webviews s" "g_wv_class_registered (log_calls cs s) = g_wv_class_registered s" "initialized (log_calls cs s) = initialized s"
  "p_create (log_calls cs s) = p_create s" "windows (log_calls cs s) = windows s" "refs (log_calls cs s) = refs s" "temp_files (log_calls cs s) = temp_files s"
  "held (log_calls cs s) = held s" "opened (log_calls cs s) = opened s" "log_calls [] s = s" "log_calls cs (log_calls ds s) = log_calls (ds @ cs) s"
  "wv_inv os (log_calls cs s) = wv_inv os s"
  by (simp_all add: log_calls_def held_def opened_def wv_inv_def)

lemma upd_simps [simp]:
  "length (g_webviews (upd i f s)) = length (g_webviews s)" "i < length (g_webviews s) \<Longrightarrow> wv (upd i f s) i = f (wv s i)" "i \<noteq> j \<Longrightarrow> wv (upd i f s) j = wv s j"
  "g_wv_class_registered (upd i f s) = g_wv_class_registered s" "initialized (upd i f s) = initialized s" "p_create (upd i f s) = p_create s"
  "windows (upd i f s) = windows s" "refs (upd i f s) = refs s" "temp_files (upd i f s) = temp_files s"
  by (simp_all add: upd_def)

lemma upd_log [simp]: "upd i f (log_calls cs s) = log_calls cs (upd i f s)"
  by (simp add: upd_def log_calls_def)

lemma upd_refs [simp]: "upd i f (s\<lparr>refs := R\<rparr>) = (upd i f s)\<lparr>refs := R\<rparr>"
  by (simp add: upd_def)

lemma log_refs [simp]: "(log_calls cs s)\<lparr>refs := R\<rparr> = log_calls cs (s\<lparr>refs := R\<rparr>)"
  by (simp add: log_calls_def)

lemma upd_upd [simp]: "i < length (g_webviews s) \<Longrightarrow> upd i f (upd i g s) = upd i (\<lambda>w. f (g w)) s"
  by (simp add: upd_def)

lemma sum_list_update_mset:
  "i < length xs \<Longrightarrow> sum_list (map (f :: 'a \<Rightarrow> 'b multiset) (xs[i := w])) + f (xs ! i) = sum_list (map f xs) + f w"
proof (induction xs arbitrary: i)
  case (Cons x xs)
  then show ?case by (cases i) (auto simp: ac_simps)
qed simp

lemma held_upd: "i < length (g_webviews s) \<Longrightarrow> held (upd i f s) + objs (wv s i) = held s + objs (f (wv s i))"
  by (simp add: held_def upd_def sum_list_update_mset)

lemma objs_held: "i < length (g_webviews s) \<Longrightarrow> objs (wv s i) \<subseteq># held s"
proof -
  assume "i < length (g_webviews s)"
  from held_upd [OF this, of "\<lambda>_. zero_webview"] have "held s = held (upd i (\<lambda>_. zero_webview) s) + objs (wv s i)"
    by (simp add: objs_def obj_def zero_webview_def)
  then show ?thesis by simp
qed

lemma first_slot_Some: "first_slot P ws k = Some i \<Longrightarrow> k \<le> i \<and> i - k < length ws \<and> P (ws ! (i - k))"
  by (induction ws arbitrary: k) (force split: if_splits simp: Suc_diff_le less_Suc_eq_le dest: Suc_leD)+

lemma first_slot_None: "first_slot P ws k = None \<longleftrightarrow> (\<forall>w \<in> set ws. \<not> P w)"
  by (induction ws arbitrary: k) auto

lemma com_calls_ok [simp]: "p \<in># refs s \<Longrightarrow> com_calls p cs s = Inr (log_calls cs s)"
  by (simp add: com_calls_def)

lemma com_addref_refs: "com_addref p s = s\<lparr>refs := add_mset p (refs s)\<rparr>"
  by (simp add: com_addref_def)

lemma com_release_ok [simp]: "p \<in># refs s \<Longrightarrow> com_release p s = Inr (s\<lparr>refs := refs s - {#p#}\<rparr>)"
  by (simp add: com_release_def)

section \<open>Loading content only talks to the view\<close>

lemma widen_to_ok: "os_ok os \<Longrightarrow> length s < n \<Longrightarrow> \<exists>w. widen_to os n s = Inr w"
proof -
  assume "os_ok os" "length s < n"
  then obtain w where "widen os s = Some w" "length w \<le> length s" unfolding os_ok_def by blast
  then show ?thesis using \<open>length s < n\<close> by (simp add: widen_to_def)
qed

lemma navigate_url_ok:
  assumes "os_ok os" "p \<in># refs s" "length u < 1024"
  shows "\<exists>cs. navigate_url os p u s = Inr (log_calls cs s)"
  using widen_to_ok [OF assms(1,3)] assms(2) by (auto simp: navigate_url_def)

lemma navigate_html_ok: "p \<in># refs s \<Longrightarrow> \<exists>cs b. navigate_html os p h s = Inr (log_calls cs s, b)"
proof (cases "widen os h")
  case (Some w)
  assume p: "p \<in># refs s"
  show ?thesis
  proof (cases "heap_fails os ((length w + 2) * 2)")
    case True
    then have "navigate_html os p h s = Inr (log_calls [] s, False)" using Some by (simp add: navigate_html_def)
    then show ?thesis by blast
  next
    case False
    then have "navigate_html os p h s = Inr (log_calls [NavigateToString p w] s, True)" using Some p by (simp add: navigate_html_def)
    then show ?thesis by blast
  qed
next
  case None
  then have "navigate_html os p h s = Inr (log_calls [] s, False)" by (simp add: navigate_html_def)
  then show ?thesis by blast
qed

lemma length_exe_dir: "length (exe_dir os) \<le> length (module_file os)"
  by (simp add: exe_dir_def split: option.splits)

lemma length_base_name: "length (base_name p) \<le> length p"
  by (simp add: base_name_def split: option.splits)

lemma get_full_path_short: "os_ok os \<Longrightarrow> length (get_full_path os p) < 260"
  by (auto simp: os_ok_def get_full_path_def split: option.splits)

lemma find_file_ok:
  assumes "os_ok os" "length (module_file os) + length p + 1 < 260"
  shows "\<exists>f. find_file os p = Inr f \<and> (\<forall>x. f = Some x \<longrightarrow> length x < 260)"
  using get_full_path_short [OF assms(1)] length_exe_dir [of os] length_base_name [of p] assms(2)
  by (auto simp: find_file_def strcpy_to_def)

lemma lpp_format_url_ok:
  assumes "os_ok os" "length u < 1024" "length (module_file os) + length u + 1 < 260"
  shows "\<exists>x. lpp_format_url os (Some u) 1024 = Inr x \<and> length x < 1024"
proof -
  obtain f where f: "find_file os u = Inr f" "\<forall>x. f = Some x \<longrightarrow> length x < 260" using find_file_ok [OF assms(1,3)] by blast
  have "length (case f of None \<Rightarrow> get_full_path os u | Some x \<Rightarrow> x) < 260" using f(2) get_full_path_short [OF assms(1)] by (cases f) auto
  then show ?thesis using assms(2) f(1) by (cases u) (auto simp: lpp_format_url_def strcpy_to_def Let_def)
qed

lemma load_content_ok:
  assumes "os_ok os" "p \<in># refs s" "url_ok os u"
  shows "\<exists>cs. lpp_load_content_into_core os p (Some u) s = Inr (log_calls cs s)"
proof (cases "u = [] \<or> p = 0")
  case True
  then have "lpp_load_content_into_core os p (Some u) s = Inr (log_calls [] s)" by (cases u) (auto simp: lpp_load_content_into_core_def)
  then show ?thesis by blast
next
  case False
  show ?thesis
  proof (cases "is_web u")
    case True
    then have "lpp_load_content_into_core os p (Some u) s = navigate_url os p u s"
      using False by (cases u) (auto simp: lpp_load_content_into_core_def is_web_def)
    then show ?thesis using navigate_url_ok [OF assms(1,2)] assms(3) by (simp add: url_ok_def)
  next
    case nw: False
    then have l: "length (module_file os) + length u + 1 < 260" "length u < 1024" using assms(3) by (auto simp: url_ok_def)
    obtain f where f: "find_file os u = Inr f" using find_file_ok [OF assms(1) l(1)] by blast
    let ?rd = "case (case f of Some (d # ds) \<Rightarrow> lpp_read_file_content os (d # ds) | _ \<Rightarrow> None) of None \<Rightarrow> Inr (s, False) | Some html \<Rightarrow> navigate_html os p html s"
    have "\<exists>cs b. ?rd = Inr (log_calls cs s, b)"
    proof (cases "case f of Some (d # ds) \<Rightarrow> lpp_read_file_content os (d # ds) | _ \<Rightarrow> None")
      case None
      then have "?rd = Inr (log_calls [] s, False)" by simp
      then show ?thesis by blast
    qed (simp add: navigate_html_ok [OF assms(2)])
    then obtain cs b where r: "?rd = Inr (log_calls cs s, b)" by blast
    obtain x where x: "lpp_format_url os (Some u) 1024 = Inr x" "length x < 1024" using lpp_format_url_ok [OF assms(1) l(2,1)] by blast
    have "p \<in># refs (log_calls cs s)" using assms(2) by simp
    from navigate_url_ok [OF assms(1) this x(2)] obtain ds where d: "navigate_url os p x (log_calls cs s) = Inr (log_calls ds (log_calls cs s))" by blast
    obtain c v where u: "u = c # v" using False by (cases u) auto
    have "lpp_load_content_into_core os p (Some u) s = (if b then Inr (log_calls cs s) else navigate_url os p x (log_calls cs s))"
      using False nw f r x(1) unfolding u by (simp add: lpp_load_content_into_core_def is_web_def Let_def del: bind_res_Inr_iff)
    then show ?thesis using d by (cases b) auto
  qed
qed

section \<open>Handlers and releases in closed form\<close>

lemma zero_fields:
  "controller w = 0 \<Longrightarrow> w\<lparr>controller := 0\<rparr> = w" "core w = 0 \<Longrightarrow> w\<lparr>core := 0\<rparr> = w" "env w = 0 \<Longrightarrow> w\<lparr>env := 0\<rparr> = w"
  by (cases w; simp)+

lemma upd_same: "i < length (g_webviews s) \<Longrightarrow> f (wv s i) = wv s i \<Longrightarrow> upd i f s = s"
  by (simp add: upd_def)

lemma drop_controller_eq:
  assumes "i < length (g_webviews s)" "refs s = R + obj (controller (wv s i))"
  shows "\<exists>cs. drop_controller i s = Inr (log_calls cs ((upd i (\<lambda>w. w\<lparr>controller := 0\<rparr>) s)\<lparr>refs := R\<rparr>))"
proof (cases "controller (wv s i) = 0")
  case True
  then have "drop_controller i s = Inr (log_calls [] ((upd i (\<lambda>w. w\<lparr>controller := 0\<rparr>) s)\<lparr>refs := R\<rparr>))"
    using assms by (simp add: drop_controller_def obj_def upd_same zero_fields)
  then show ?thesis by blast
next
  case False
  then have "drop_controller i s = Inr (log_calls [CloseController (controller (wv s i))] ((upd i (\<lambda>w. w\<lparr>controller := 0\<rparr>) s)\<lparr>refs := R\<rparr>))"
    using assms by (simp add: drop_controller_def obj_def Let_def)
  then show ?thesis by blast
qed

lemma drop_core_eq:
  assumes "i < length (g_webviews s)" "refs s = R + obj (core (wv s i))"
  shows "drop_core i s = Inr ((upd i (\<lambda>w. w\<lparr>core := 0\<rparr>) s)\<lparr>refs := R\<rparr>)"
  using assms by (cases "core (wv s i) = 0") (simp_all add: drop_core_def obj_def Let_def upd_same zero_fields)

lemma drop_env_eq:
  assumes "i < length (g_webviews s)" "refs s = R + obj (env (wv s i))"
  shows "drop_env i s = Inr ((upd i (\<lambda>w. w\<lparr>env := 0\<rparr>) s)\<lparr>refs := R\<rparr>)"
  using assms by (cases "env (wv s i) = 0") (simp_all add: drop_env_def obj_def Let_def upd_same zero_fields)

lemma drop_objects_eq:
  assumes "i < length (g_webviews s)" "refs s = R + objs (wv s i)"
  shows "\<exists>cs. drop_objects i s = Inr (log_calls cs ((upd i (\<lambda>w. w\<lparr>controller := 0, core := 0, env := 0\<rparr>) s)\<lparr>refs := R\<rparr>))"
proof -
  have "refs s = (R + obj (env (wv s i)) + obj (core (wv s i))) + obj (controller (wv s i))"
    using assms(2) by (simp add: objs_def ac_simps)
  from drop_controller_eq [OF assms(1) this] obtain cs where
    c: "drop_controller i s = Inr (log_calls cs ((upd i (\<lambda>w. w\<lparr>controller := 0\<rparr>) s)\<lparr>refs := R + obj (env (wv s i)) + obj (core (wv s i))\<rparr>))" (is "_ = Inr ?s1") by blast
  have k: "drop_core i ?s1 = Inr ((upd i (\<lambda>w. w\<lparr>core := 0\<rparr>) ?s1)\<lparr>refs := R + obj (env (wv s i))\<rparr>)" (is "_ = Inr ?s2")
    using assms(1) by (intro drop_core_eq) simp_all
  have e: "drop_env i ?s2 = Inr ((upd i (\<lambda>w. w\<lparr>env := 0\<rparr>) ?s2)\<lparr>refs := R\<rparr>)"
    using assms(1) by (intro drop_env_eq) simp_all
  have "drop_objects i s = Inr ((upd i (\<lambda>w. w\<lparr>env := 0\<rparr>) ?s2)\<lparr>refs := R\<rparr>)"
    unfolding drop_objects_def c bind_res.simps k e ..
  then show ?thesis using assms(1) by (intro exI [of _ cs]) simp
qed

lemma apply_settings_ok: "c \<in># refs s \<Longrightarrow> \<exists>cs. apply_settings c st s = Inr (log_calls cs s)"
proof (cases "st = 0")
  case True
  moreover assume "c \<in># refs s"
  ultimately have "apply_settings c st s = Inr (log_calls [GetSettings c] s)" by (simp add: apply_settings_def)
  then show ?thesis by blast
next
  case False
  assume "c \<in># refs s"
  then have "apply_settings c st s = Inr (log_calls [GetSettings c, PutSettings st] s)"
    using False by (simp add: apply_settings_def com_addref_def)
  then show ?thesis by blast
qed

text \<open>The address a new view is sent to.\<close>

definition start_url :: "webview \<Rightarrow> string" where
  "start_url w = (if current_url w \<noteq> [] then current_url w else if temp_html_path w \<noteq> [] then temp_html_path w else ''webview_demo/index.html'')"

lemma start_url_ok: "os_ok os \<Longrightarrow> i < 8 \<Longrightarrow> slot_ok os i w \<Longrightarrow> url_ok os (start_url w)"
  by (auto simp: start_url_def slot_ok_def os_ok_def url_ok_def)

lemma Ctrl_Invoke_eq:
  assumes "os_ok os" "length (g_webviews s) = 8" "ctrl_slot (wv s h) = k" "k < 8" "slot_ok os k (wv s k)" "c \<noteq> 0"
  shows "\<exists>cs. Ctrl_Invoke os h False c cr st r s =
    Inr (log_calls cs ((upd k (\<lambda>w. w\<lparr>controller := c, core := cr, is_ready := True\<rparr>) s)\<lparr>refs := refs s + obj c + obj cr\<rparr>))"
proof -
  define t where "t = log_calls [GetCore c] ((upd k (\<lambda>w. w\<lparr>controller := c, core := cr\<rparr>) s)\<lparr>refs := refs s + obj c + obj cr\<rparr>)"
  have t: "c \<in># refs t" "cr \<noteq> 0 \<Longrightarrow> cr \<in># refs t" "hwnd (wv t k) = hwnd (wv s k)" "start_url (wv t k) = start_url (wv s k)"
    using assms(2,4,6) by (simp_all add: t_def obj_def start_url_def)
  have "\<exists>cs. (if cr \<noteq> 0 then apply_settings cr st t else Inr t) = Inr (log_calls cs t)"
    using apply_settings_ok [OF t(2), of st] by (cases "cr = 0") (auto intro: exI [of _ "[]"])
  then obtain cs3 where s3: "(if cr \<noteq> 0 then apply_settings cr st t else Inr t) = Inr (log_calls cs3 t)" by blast
  have "\<exists>cs. (if hwnd (wv t k) \<noteq> 0 then show_view c r (log_calls cs3 t) else Inr (log_calls cs3 t)) = Inr (log_calls cs t)"
    using t(1) by (auto simp: show_view_def)
  then obtain cs4 where s4: "(if hwnd (wv t k) \<noteq> 0 then show_view c r (log_calls cs3 t) else Inr (log_calls cs3 t)) = Inr (log_calls cs4 t)" by blast
  have "\<exists>cs. (if cr \<noteq> 0 then lpp_load_content_into_core os cr (Some (start_url (wv t k))) (log_calls cs4 t) else Inr (log_calls cs4 t)) = Inr (log_calls cs t)"
    using load_content_ok [OF assms(1) _ start_url_ok [OF assms(1,4,5)], of cr "log_calls cs4 t"] t(2,4) by (cases "cr = 0") auto
  then obtain cs5 where s5: "(if cr \<noteq> 0 then lpp_load_content_into_core os cr (Some (start_url (wv t k))) (log_calls cs4 t) else Inr (log_calls cs4 t)) = Inr (log_calls cs5 t)" by blast
  have c: "com_calls c [GetCore c] (com_addref c (upd k (\<lambda>w. w\<lparr>controller := c\<rparr>) s)) = Inr (log_calls [GetCore c] (com_addref c (upd k (\<lambda>w. w\<lparr>controller := c\<rparr>) s)))"
    by (simp add: com_addref_def)
  have n: "\<not> (8 \<le> k \<or> False \<or> c = 0)" using assms(4,6) by simp
  have e: "upd k (\<lambda>w. w\<lparr>core := cr\<rparr>) (if cr = 0 then log_calls [GetCore c] (com_addref c (upd k (\<lambda>w. w\<lparr>controller := c\<rparr>) s))
      else com_addref cr (log_calls [GetCore c] (com_addref c (upd k (\<lambda>w. w\<lparr>controller := c\<rparr>) s)))) = t"
    using assms(2,4,6) by (auto simp: t_def obj_def com_addref_def add_mset_commute)
  have "Ctrl_Invoke os h False c cr st r s = Inr (upd k (\<lambda>w. w\<lparr>is_ready := True\<rparr>) (log_calls cs5 t))"
    unfolding Ctrl_Invoke_def Let_def assms(3) if_not_P [OF n] c bind_res.simps e s3 log_calls_simps(1) s4 s5 [unfolded start_url_def] ..
  then show ?thesis using assms(2,4) by (auto simp: t_def)
qed

lemma Env_Invoke_eq:
  assumes "length (g_webviews s) = 8" "env_slot (wv s h) = k" "k < 8" "e \<noteq> 0"
  shows "\<exists>cs. Env_Invoke h False e s =
    Inr (log_calls cs ((upd k (\<lambda>w. w\<lparr>env := e, ctrl_vtbl := True, ctrl_slot := k\<rparr>) s)\<lparr>refs := refs s + obj e\<rparr>))"
  using assms by (auto simp: Env_Invoke_def com_addref_def obj_def Let_def)

section \<open>Every step keeps the invariant\<close>

lemma opened_upd: "length (g_webviews s) = 8 \<Longrightarrow> i < 8 \<Longrightarrow> opened (upd i f s) = (if is_open (f (wv s i)) then insert i (opened s) else opened s - {i})"
  by (auto simp: opened_def) (metis upd_simps(2,3))+

lemma held_swap:
  assumes "length (g_webviews s) = 8" "i < 8" "held s = R + objs (wv s i)"
  shows "held (upd i f s) = R + objs (f (wv s i))"
proof -
  have "held (upd i f s) + objs (wv s i) = (R + objs (f (wv s i))) + objs (wv s i)"
    using held_upd [of i s f] assms by (simp add: ac_simps)
  then show ?thesis by simp
qed

text \<open>Changing a slot without opening or closing it.\<close>

lemma inv_upd:
  assumes "wv_inv os s" "i < 8" "slot_ok os i (f (wv s i))" "is_open (f (wv s i)) = is_open (wv s i)" "hwnd (f (wv s i)) = hwnd (wv s i)"
    "held s = R + objs (wv s i)" "F \<subseteq> temp_files s \<union> {temp_html_path (f (wv s i))}" "temp_html_path (f (wv s i)) = temp_html_path (wv s i) \<or> temp_html_path (wv s i) \<notin> F"
    "temp_html_path (f (wv s i)) \<in> F - temp_files s \<longrightarrow> is_open (wv s i)" "[] \<notin> F"
  shows "wv_inv os ((upd i f s)\<lparr>refs := R + objs (f (wv s i)), temp_files := F\<rparr>)"
proof -
  have l: "length (g_webviews s) = 8" using assms(1) by (simp add: wv_inv_def)
  have o: "opened (upd i f s) = opened s" using opened_upd [OF l assms(2), of f] assms(2,4) by (auto simp: opened_def)
  have h: "hwnd (wv (upd i f s) j) = hwnd (wv s j)" for j using l assms(2,5) by (cases "j = i") simp_all
  have k: "slot_ok os j (wv (upd i f s) j)" if "j < 8" for j using that l assms(1,2,3) by (cases "j = i") (simp_all add: wv_inv_def)
  have t: "F \<subseteq> (\<lambda>j. temp_html_path (wv (upd i f s) j)) ` opened s"
  proof
    fix p assume p: "p \<in> F"
    then consider "p \<in> temp_files s" | "p = temp_html_path (f (wv s i))" "p \<notin> temp_files s" using assms(7) by blast
    then show "p \<in> (\<lambda>j. temp_html_path (wv (upd i f s) j)) ` opened s"
    proof cases
      case 1
      then obtain j where j: "j \<in> opened s" "p = temp_html_path (wv s j)" using assms(1) by (auto simp: wv_inv_def)
      show ?thesis
      proof (cases "j = i")
        case True
        then have "temp_html_path (f (wv s i)) = temp_html_path (wv s i)" using assms(8) j(2) p by auto
        then show ?thesis using j True l assms(2) by (auto intro!: image_eqI [of _ _ i])
      next
        case False
        then show ?thesis using j by (auto intro!: image_eqI [of _ _ j])
      qed
    next
      case 2
      then have "i \<in> opened s" using p assms(2,9) by (simp add: opened_def)
      then show ?thesis using 2 l assms(2) by (auto intro!: image_eqI [of _ _ i])
    qed
  qed
  have "held (upd i f s) = R + objs (f (wv s i))" using held_swap [OF l assms(2,6)] .
  then have "held ((upd i f s)\<lparr>refs := R + objs (f (wv s i)), temp_files := F\<rparr>) = R + objs (f (wv s i))" by (simp add: held_def)
  moreover have "opened ((upd i f s)\<lparr>refs := R + objs (f (wv s i)), temp_files := F\<rparr>) = opened s" using o by (simp add: opened_def)
  ultimately show ?thesis using assms(1,10) l k h t by (simp add: wv_inv_def)
qed

text \<open>Closing a slot.\<close>

lemma inv_close:
  assumes "wv_inv os s" "i \<in> opened s" "slot_ok os i (f (wv s i))" "\<not> is_open (f (wv s i))"
    "held s = R + objs (wv s i)"
  shows "wv_inv os ((upd i f s)\<lparr>refs := R, windows := windows s - {hwnd (wv s i)}, temp_files := temp_files s - {temp_html_path (wv s i)}\<rparr>)" (is "wv_inv os ?t")
proof -
  have l: "length (g_webviews s) = 8" "i < 8" using assms(1,2) by (simp_all add: wv_inv_def opened_def)
  have o: "opened ?t = opened s - {i}" using opened_upd [OF l, of f] assms(4) by (simp add: opened_def)
  have k: "slot_ok os j (wv (upd i f s) j)" if "j < 8" for j using that l assms(1,3) by (cases "j = i") (simp_all add: wv_inv_def)
  have z: "objs (f (wv s i)) = {#}" using assms(3,4) by (simp add: slot_ok_def)
  then have h: "held ?t = R" using held_swap [OF l assms(5), of f] by (simp add: held_def)
  have e: "wv ?t j = wv s j" if "j \<in> opened s - {i}" for j using that by auto
  have inj: "inj_on (\<lambda>j. hwnd (wv s j)) (opened s)" "windows s = (\<lambda>j. hwnd (wv s j)) ` opened s"
    "temp_files s \<subseteq> (\<lambda>j. temp_html_path (wv s j)) ` opened s" using assms(1) by (simp_all add: wv_inv_def)
  have w: "windows s - {hwnd (wv s i)} = (\<lambda>j. hwnd (wv s j)) ` (opened s - {i})"
    using inj(1,2) assms(2) inj_on_image_set_diff [OF inj(1), of "opened s" "{i}"] by simp
  have "(\<lambda>j. hwnd (wv ?t j)) ` (opened s - {i}) = (\<lambda>j. hwnd (wv s j)) ` (opened s - {i})"
    by (rule image_cong) (simp_all only: e)
  moreover have "inj_on (\<lambda>j. hwnd (wv ?t j)) (opened s - {i})"
    using inj_on_diff [OF inj(1), of "{i}"] e by (auto simp: inj_on_def)
  moreover have "temp_files s - {temp_html_path (wv s i)} \<subseteq> (\<lambda>j. temp_html_path (wv ?t j)) ` (opened s - {i})"
  proof
    fix p assume p: "p \<in> temp_files s - {temp_html_path (wv s i)}"
    then obtain j where j: "j \<in> opened s" "p = temp_html_path (wv s j)" using inj(3) by auto
    then have "j \<in> opened s - {i}" using p by auto
    then show "p \<in> (\<lambda>j. temp_html_path (wv ?t j)) ` (opened s - {i})" using j(2) e [of j] by (intro image_eqI [of _ _ j]) simp_all
  qed
  ultimately show ?thesis using assms(1) l k h o w unfolding wv_inv_def by simp
qed

text \<open>A completion is timely when the window it was requested for is still open and has no such object yet.\<close>

fun timely :: "wv_state \<Rightarrow> wv_event \<Rightarrow> bool" where
  "timely s Quit = True"
| "timely s (Message m) = (m_code m \<noteq> WM_DESTROY)"
| "timely s (EnvDone i failed e) = (i < 8 \<and> is_open (wv s i) \<and> env_vtbl (wv s i) \<and> env (wv s i) = 0)"
| "timely s (CtrlDone i failed c cr st r) = (i < 8 \<and> is_open (wv s i) \<and> ctrl_vtbl (wv s i) \<and> controller (wv s i) = 0 \<and> core (wv s i) = 0)"

lemma inv_length [simp]: "wv_inv os s \<Longrightarrow> length (g_webviews s) = 8"
  by (simp add: wv_inv_def)

lemma inv_slot: "wv_inv os s \<Longrightarrow> i < 8 \<Longrightarrow> slot_ok os i (wv s i)"
  by (simp add: wv_inv_def)

lemma inv_split: "wv_inv os s \<Longrightarrow> i < 8 \<Longrightarrow> \<exists>R. refs s = R + objs (wv s i) \<and> held s = R + objs (wv s i)"
  using objs_held [of i s] by (auto simp: wv_inv_def mset_subset_eq_exists_conv ac_simps)

lemma inv_open_hwnd: "wv_inv os s \<Longrightarrow> i < 8 \<Longrightarrow> hwnd (wv s i) = h \<Longrightarrow> h \<noteq> 0 \<Longrightarrow> i \<in> opened s"
  using inv_slot [of os s i] by (auto simp: slot_ok_def opened_def)

lemma with_controller_ok: "wv_inv os s \<Longrightarrow> \<exists>cs. with_controller h f s = Inr (log_calls cs s)"
proof (cases "first_slot (\<lambda>w. hwnd w = h \<and> controller w \<noteq> 0) (g_webviews s) 0")
  case None
  then have "with_controller h f s = Inr (log_calls [] s)" by (simp add: with_controller_def)
  then show ?thesis by blast
next
  case (Some i)
  assume inv: "wv_inv os s"
  have i: "i < 8" "controller (wv s i) \<noteq> 0" using first_slot_Some [OF Some] inv by auto
  obtain R where "refs s = R + objs (wv s i)" using inv_split [OF inv i(1)] by blast
  then have "controller (wv s i) \<in># refs s" using i(2) by (simp add: objs_def obj_def)
  then show ?thesis using Some by (auto simp: with_controller_def)
qed

text \<open>Both ways to close a window end in the same state.\<close>

definition closed_slot :: "webview \<Rightarrow> webview" where
  "closed_slot w = w\<lparr>is_open := False, hwnd := 0, controller := 0, core := 0, env := 0\<rparr>"

lemma closed_slot_ok: "slot_ok os i w \<Longrightarrow> slot_ok os i (closed_slot w)" "\<not> is_open (closed_slot w)" "temp_html_path (closed_slot w) = temp_html_path w"
  by (simp_all add: slot_ok_def closed_slot_def objs_def obj_def)

definition close_slot :: "nat \<Rightarrow> u64 multiset \<Rightarrow> wv_state \<Rightarrow> wv_state" where
  "close_slot i R s = (upd i closed_slot s)\<lparr>refs := R, windows := windows s - {hwnd (wv s i)}, temp_files := temp_files s - {temp_html_path (wv s i)}\<rparr>"

lemma close_slot_inv: "wv_inv os s \<Longrightarrow> i \<in> opened s \<Longrightarrow> held s = R + objs (wv s i) \<Longrightarrow> wv_inv os (close_slot i R s)"
  unfolding close_slot_def using inv_slot [of os s i] by (intro inv_close) (auto simp: closed_slot_ok opened_def)

lemma first_hwnd:
  assumes "wv_inv os s" "i \<in> opened s"
  shows "first_slot (\<lambda>w. hwnd w = hwnd (wv s i)) (g_webviews s) 0 = Some i"
proof -
  let ?P = "\<lambda>w. hwnd w = hwnd (wv s i)"
  have i: "i < 8" "hwnd (wv s i) \<noteq> 0" using assms inv_slot [of os s i] by (auto simp: opened_def slot_ok_def)
  have "wv s i \<in> set (g_webviews s)" using assms(1) i(1) by simp
  then obtain j where j: "first_slot ?P (g_webviews s) 0 = Some j" using first_slot_None [of ?P "g_webviews s" 0] by (cases "first_slot ?P (g_webviews s) 0") auto
  then have "j < 8" "hwnd (wv s j) = hwnd (wv s i)" using first_slot_Some [OF j] assms(1) by auto
  then have "j \<in> opened s" using inv_open_hwnd [OF assms(1)] i(2) by blast
  then have "j = i" using assms \<open>hwnd (wv s j) = hwnd (wv s i)\<close> by (auto simp: wv_inv_def inj_on_def)
  then show ?thesis using j by simp
qed

lemma DestroyWindow_eq:
  assumes "wv_inv os s" "i \<in> opened s" "refs s = R + objs (wv s i)"
  shows "\<exists>cs. DestroyWindow (hwnd (wv s i)) s = Inr (log_calls cs (close_slot i R s))"
proof -
  have i: "i < 8" "i < length (g_webviews s)" using assms(1,2) by (auto simp: opened_def)
  let ?s1 = "upd i (\<lambda>w. w\<lparr>is_open := False, hwnd := 0\<rparr>) (s\<lparr>windows := windows s - {hwnd (wv s i)}\<rparr>)"
  have v: "wv ?s1 i = (wv s i)\<lparr>is_open := False, hwnd := 0\<rparr>" using i(2) by (simp add: upd_def)
  have "refs ?s1 = R + objs (wv ?s1 i)" unfolding v using assms(3) by (simp add: objs_def)
  then obtain cs where c: "drop_objects i ?s1 = Inr (log_calls cs ((upd i (\<lambda>w. w\<lparr>controller := 0, core := 0, env := 0\<rparr>) ?s1)\<lparr>refs := R\<rparr>))"
    using drop_objects_eq [of i ?s1 R] i(2) by auto
  have t: "temp_html_path (wv s i) = [] \<Longrightarrow> temp_files s - {temp_html_path (wv s i)} = temp_files s" using assms(1) by (auto simp: wv_inv_def)
  have "hwnd (wv s i) \<in> windows s" using assms(1,2) by (simp add: wv_inv_def)
  then have "DestroyWindow (hwnd (wv s i)) s = Inr (log_calls (cs @ [PostQuit]) (close_slot i R s))"
    using first_hwnd [OF assms(1,2)] c i(2) t by (auto simp: DestroyWindow_def wv_wm_destroy_def close_slot_def closed_slot_def upd_def log_calls_def simp del: bind_res_Inr_iff)
  then show ?thesis by blast
qed

text \<open>A window keeps its handle as long as it is open.\<close>

definition same_windows :: "wv_state \<Rightarrow> wv_state \<Rightarrow> bool" where
  "same_windows s t = (\<forall>i \<in> opened s. i \<in> opened t \<longrightarrow> hwnd (wv t i) = hwnd (wv s i))"

lemma same_windows_log: "same_windows s (log_calls cs s)"
  by (simp add: same_windows_def)

lemma same_windows_upd:
  "length (g_webviews s) = 8 \<Longrightarrow> hwnd (f (wv s i)) = hwnd (wv s i) \<or> \<not> is_open (f (wv s i)) \<Longrightarrow> same_windows s (upd i f s)"
  unfolding same_windows_def opened_def by (cases "i < 8") (auto simp: upd_def nth_list_update list_update_beyond split: if_splits)

lemma same_windows_close: "length (g_webviews s) = 8 \<Longrightarrow> same_windows s (close_slot i R s)"
  unfolding same_windows_def opened_def by (cases "i < 8") (auto simp: close_slot_def upd_def closed_slot_def nth_list_update list_update_beyond split: if_splits)

lemma same_windows_refs [simp]: "same_windows s (t\<lparr>refs := R\<rparr>) = same_windows s t"
  by (simp add: same_windows_def opened_def)

lemma inv_upd_objs:
  assumes "wv_inv os s" "i < 8" "slot_ok os i (f (wv s i))" "is_open (f (wv s i)) = is_open (wv s i)" "hwnd (f (wv s i)) = hwnd (wv s i)"
    "temp_html_path (f (wv s i)) = temp_html_path (wv s i)" "held s = R + objs (wv s i)" "Q = R + objs (f (wv s i))"
  shows "wv_inv os ((upd i f s)\<lparr>refs := Q\<rparr>)"
proof -
  have "wv_inv os ((upd i f s)\<lparr>refs := R + objs (f (wv s i)), temp_files := temp_files s\<rparr>)"
    using assms by (intro inv_upd) (auto simp: wv_inv_def)
  then show ?thesis using assms(8) by (simp add: upd_def)
qed

lemma EnvDone_ok:
  assumes "wv_inv os s" "timely s (EnvDone i failed e)"
  shows "\<exists>t. dispatch os (EnvDone i failed e) s = Inr t \<and> wv_inv os t \<and> same_windows s t"
proof -
  have i: "i < 8" "env_slot (wv s i) = i" "env_vtbl (wv s i)" "env (wv s i) = 0" "is_open (wv s i)" "slot_ok os i (wv s i)"
    using assms inv_slot [of os s i] by (auto simp: slot_ok_def)
  obtain R where R: "refs s = R + objs (wv s i)" "held s = R + objs (wv s i)" using inv_split [OF assms(1) i(1)] by blast
  show ?thesis
  proof (cases "failed \<or> e = 0")
    case True
    then have "dispatch os (EnvDone i failed e) s = Inr ((upd i (\<lambda>w. w\<lparr>is_ready := True\<rparr>) s)\<lparr>refs := refs s\<rparr>)" using i by (auto simp: Env_Invoke_def)
    moreover have "wv_inv os ((upd i (\<lambda>w. w\<lparr>is_ready := True\<rparr>) s)\<lparr>refs := refs s\<rparr>)"
      using i(6) R by (intro inv_upd_objs [OF assms(1) i(1)]) (simp_all add: slot_ok_def objs_def)
    ultimately show ?thesis using same_windows_upd [of s "\<lambda>w. w\<lparr>is_ready := True\<rparr>" i] assms(1) by auto
  next
    case False
    let ?f = "\<lambda>w. w\<lparr>env := e, ctrl_vtbl := True, ctrl_slot := i\<rparr>"
    obtain cs where "Env_Invoke i False e s = Inr (log_calls cs ((upd i ?f s)\<lparr>refs := refs s + obj e\<rparr>))"
      using Env_Invoke_eq [of s i i e] assms(1) i(1,2) False by auto
    moreover have "wv_inv os ((upd i ?f s)\<lparr>refs := refs s + obj e\<rparr>)"
      using i R by (intro inv_upd_objs [OF assms(1) i(1)]) (auto simp: slot_ok_def objs_def obj_def)
    ultimately show ?thesis using same_windows_upd [of s ?f i] assms(1) False i(3) by (auto simp: same_windows_def opened_def)
  qed
qed

lemma CtrlDone_ok:
  assumes "os_ok os" "wv_inv os s" "timely s (CtrlDone i failed c cr st r)"
  shows "\<exists>t. dispatch os (CtrlDone i failed c cr st r) s = Inr t \<and> wv_inv os t \<and> same_windows s t"
proof -
  have i: "i < 8" "ctrl_slot (wv s i) = i" "ctrl_vtbl (wv s i)" "controller (wv s i) = 0" "core (wv s i) = 0" "is_open (wv s i)" "slot_ok os i (wv s i)"
    using assms(2,3) inv_slot [of os s i] by (auto simp: slot_ok_def)
  obtain R where R: "refs s = R + objs (wv s i)" "held s = R + objs (wv s i)" using inv_split [OF assms(2) i(1)] by blast
  show ?thesis
  proof (cases "failed \<or> c = 0")
    case True
    then have "dispatch os (CtrlDone i failed c cr st r) s = Inr ((upd i (\<lambda>w. w\<lparr>is_ready := True\<rparr>) s)\<lparr>refs := refs s\<rparr>)" using i by (auto simp: Ctrl_Invoke_def)
    moreover have "wv_inv os ((upd i (\<lambda>w. w\<lparr>is_ready := True\<rparr>) s)\<lparr>refs := refs s\<rparr>)"
      using i(7) R by (intro inv_upd_objs [OF assms(2) i(1)]) (simp_all add: slot_ok_def objs_def)
    ultimately show ?thesis using same_windows_upd [of s "\<lambda>w. w\<lparr>is_ready := True\<rparr>" i] assms(2) by auto
  next
    case False
    let ?f = "\<lambda>w. w\<lparr>controller := c, core := cr, is_ready := True\<rparr>"
    obtain cs where "Ctrl_Invoke os i False c cr st r s = Inr (log_calls cs ((upd i ?f s)\<lparr>refs := refs s + obj c + obj cr\<rparr>))"
      using Ctrl_Invoke_eq [OF assms(1) _ i(2,1,7), of c cr st r] assms(2) False by auto
    moreover have "wv_inv os ((upd i ?f s)\<lparr>refs := refs s + obj c + obj cr\<rparr>)"
      using i R by (intro inv_upd_objs [OF assms(2) i(1)]) (auto simp: slot_ok_def objs_def obj_def)
    ultimately show ?thesis using same_windows_upd [of s ?f i] assms(2) False i(3) by (auto simp: same_windows_def opened_def)
  qed
qed

lemmas wm_codes = WM_SIZE_def WM_MOVE_def WM_WINDOWPOSCHANGED_def WM_DPICHANGED_def WM_CLOSE_def WM_PAINT_def WM_ERASEBKGND_def WM_DESTROY_def

lemma with_controller_bind:
  assumes "wv_inv os s"
  shows "\<exists>cs. bind_res (with_controller h f (log_calls ds s)) (\<lambda>s. Inr (s, v)) = Inr (log_calls cs s, v)"
proof -
  obtain cs where "with_controller h f (log_calls ds s) = Inr (log_calls cs (log_calls ds s))"
    using with_controller_ok [of os "log_calls ds s" h f] assms by auto
  then show ?thesis by (intro exI [of _ "ds @ cs"]) simp
qed

lemma wndproc_ok:
  assumes "wv_inv os s" "m_code m \<noteq> WM_DESTROY" "DestroyWindow (m_hwnd m) s = Inr (log_calls cs t)"
  shows "\<exists>u cs r. lpp_webview_wndproc m s = Inr (log_calls cs u, r) \<and> (u = s \<or> m_code m = WM_CLOSE \<and> u = t)"
proof -
  note w = with_controller_bind [OF assms(1), of "m_hwnd m"]
  have dpi: "\<exists>ds. (case m_new_rect m of None \<Rightarrow> s | Some (l, t, rt, b) \<Rightarrow> log_calls [SetWindowPos (m_hwnd m) (l, t, rt - l, b - t)] s) = log_calls ds s"
  proof (cases "m_new_rect m")
    case None
    then show ?thesis by (intro exI [of _ "[]"]) simp
  qed (auto split: prod.splits)
  then obtain ds where ds: "(case m_new_rect m of None \<Rightarrow> s | Some (l, t, rt, b) \<Rightarrow> log_calls [SetWindowPos (m_hwnd m) (l, t, rt - l, b - t)] s) = log_calls ds s" by blast
  consider "m_code m = WM_SIZE" | "m_code m \<noteq> WM_SIZE" "m_code m = WM_MOVE \<or> m_code m = WM_WINDOWPOSCHANGED" | "m_code m = WM_DPICHANGED"
    | "m_code m = WM_CLOSE" | "m_code m = WM_ERASEBKGND \<or> m_code m \<notin> {WM_SIZE, WM_MOVE, WM_WINDOWPOSCHANGED, WM_DPICHANGED, WM_CLOSE, WM_PAINT}" | "m_code m = WM_PAINT"
    by auto
  then show ?thesis
  proof cases
    case 1
    then have "\<exists>f. lpp_webview_wndproc m s = bind_res (with_controller (m_hwnd m) f (log_calls [] s)) (\<lambda>s. Inr (s, None))"
      by (simp add: lpp_webview_wndproc_def Let_def) blast
    then show ?thesis using w [of _ "[]" None] by (elim exE) (simp only:, blast)
  next
    case 2
    then have "\<exists>f. lpp_webview_wndproc m s = bind_res (with_controller (m_hwnd m) f (log_calls [] s)) (\<lambda>s. Inr (s, None))"
      by (simp add: lpp_webview_wndproc_def Let_def) blast
    then show ?thesis using w [of _ "[]" None] by (elim exE) (simp only:, blast)
  next
    case 3
    then have "lpp_webview_wndproc m s = bind_res (with_controller (m_hwnd m) (\<lambda>c. [PutBounds c (m_client m), NotifyPosition c]) (log_calls ds s)) (\<lambda>s. Inr (s, Some 0))"
      using ds by (simp add: lpp_webview_wndproc_def Let_def wm_codes)
    then show ?thesis using w [of _ ds "Some 0"] by (simp only:) blast
  next
    case 4
    then show ?thesis using assms(3) by (auto simp: lpp_webview_wndproc_def Let_def wm_codes)
  next
    case 5
    then have "\<exists>r. lpp_webview_wndproc m s = Inr (log_calls [] s, r)" using assms(2) by (auto simp: lpp_webview_wndproc_def Let_def wm_codes)
    then show ?thesis by blast
  next
    case 6
    then show ?thesis by (auto simp: lpp_webview_wndproc_def Let_def wm_codes)
  qed
qed

lemma Message_ok:
  assumes "wv_inv os s" "m_code m \<noteq> WM_DESTROY"
  shows "\<exists>t. dispatch os (Message m) s = Inr t \<and> wv_inv os t \<and> same_windows s t \<and>
    (m_code m = WM_CLOSE \<longrightarrow> (\<forall>i \<in> opened s. hwnd (wv s i) = m_hwnd m \<longrightarrow> i \<notin> opened t))"
proof (cases "m_hwnd m \<in> windows s")
  case True
  then obtain i where i: "i \<in> opened s" "m_hwnd m = hwnd (wv s i)" using assms(1) by (auto simp: wv_inv_def)
  have i8: "i < 8" using i(1) by (simp add: opened_def)
  obtain R where R: "refs s = R + objs (wv s i)" "held s = R + objs (wv s i)" using inv_split [OF assms(1) i8] by blast
  obtain cs where d: "DestroyWindow (m_hwnd m) s = Inr (log_calls cs (close_slot i R s))" using DestroyWindow_eq [OF assms(1) i(1) R(1)] i(2) by auto
  have c: "i \<notin> opened (close_slot i R s)" "wv_inv os (close_slot i R s)" "same_windows s (close_slot i R s)"
    using close_slot_inv [OF assms(1) i(1) R(2)] same_windows_close [of s i R] assms(1) i8 by (simp_all add: opened_def close_slot_def closed_slot_def upd_def)
  have one: "j = i" if "j \<in> opened s" "hwnd (wv s j) = m_hwnd m" for j using that i assms(1) by (auto simp: wv_inv_def inj_on_def)
  show ?thesis
  proof (cases "m_code m = WM_CLOSE")
    case True
    then have "dispatch os (Message m) s = Inr (log_calls cs (close_slot i R s))" using d \<open>m_hwnd m \<in> windows s\<close> by (simp add: lpp_webview_wndproc_def Let_def wm_codes)
    then show ?thesis using c one by (auto simp: same_windows_def)
  next
    case False
    then obtain ds r where "lpp_webview_wndproc m s = Inr (log_calls ds s, r)" using wndproc_ok [OF assms d] by blast
    then show ?thesis using True False assms(1) same_windows_log [of s ds] by simp
  qed
next
  case False
  then have "hwnd (wv s i) \<noteq> m_hwnd m" if "i \<in> opened s" for i
    using imageI [OF that, of "\<lambda>i. hwnd (wv s i)"] assms(1) by (auto simp: wv_inv_def)
  then show ?thesis using False assms(1) by (auto simp: same_windows_def)
qed

lemma dispatch_ok:
  assumes "os_ok os" "wv_inv os s" "timely s e"
  shows "\<exists>t. dispatch os e s = Inr t \<and> wv_inv os t \<and> same_windows s t \<and>
    (\<forall>m. e = Message m \<and> m_code m = WM_CLOSE \<longrightarrow> (\<forall>i \<in> opened s. hwnd (wv s i) = m_hwnd m \<longrightarrow> i \<notin> opened t))"
proof (cases e)
  case (Message m)
  then show ?thesis using Message_ok [OF assms(2), of m] assms(3) by auto
next
  case (EnvDone i f x)
  then show ?thesis using EnvDone_ok [OF assms(2)] assms(3) by blast
next
  case (CtrlDone i f c cr st r)
  then show ?thesis using CtrlDone_ok [OF assms(1,2)] assms(3) by blast
qed (use assms(2) in \<open>simp add: same_windows_def\<close>)

section \<open>Reachable states\<close>

fun timely_pump :: "wv_os \<Rightarrow> (wv_state \<Rightarrow> bool) \<Rightarrow> wv_event list \<Rightarrow> wv_state \<Rightarrow> bool" where
  "timely_pump os cond evs s = (cond s \<longrightarrow> (case evs of [] \<Rightarrow> True | Quit # es \<Rightarrow> True
     | e # es \<Rightarrow> timely s e \<and> (case dispatch os e s of Inl f \<Rightarrow> True | Inr t \<Rightarrow> timely_pump os cond es t)))"

declare pump.simps [simp del] timely_pump.simps [simp del]

lemma pump_Cons: "pump os cond (e # es) s = (if cond s then (if e = Quit then Inr (Some (s, es)) else bind_res (dispatch os e s) (pump os cond es)) else Inr (Some (s, e # es)))"
  by (subst pump.simps) (cases e; simp)

lemma timely_pump_Cons: "timely_pump os cond (e # es) s = (cond s \<and> e \<noteq> Quit \<longrightarrow> timely s e \<and> (\<forall>t. dispatch os e s = Inr t \<longrightarrow> timely_pump os cond es t))"
  by (subst timely_pump.simps) (cases e; auto simp del: dispatch.simps timely.simps split: sum.splits)

lemma pump_ok:
  assumes "os_ok os"
  shows "wv_inv os s \<Longrightarrow> timely_pump os cond evs s \<Longrightarrow> \<exists>r. pump os cond evs s = Inr r \<and> (\<forall>t es. r = Some (t, es) \<longrightarrow> wv_inv os t)"
proof (induction evs arbitrary: s)
  case (Cons e es)
  show ?case
  proof (cases "cond s \<and> e \<noteq> Quit")
    case True
    then have "timely s e" using Cons(3) by (simp add: timely_pump_Cons)
    then obtain t where t: "dispatch os e s = Inr t" "wv_inv os t" using dispatch_ok [OF assms Cons(2)] by blast
    then have "timely_pump os cond es t" using True Cons(3) by (simp add: timely_pump_Cons)
    from Cons(1) [OF t(2) this] show ?thesis using True t(1) by (simp add: pump_Cons del: dispatch.simps)
  next
    case False
    then show ?thesis using Cons(2) by (auto simp: pump_Cons)
  qed
qed (auto simp: pump.simps)

lemma inv_flags [simp]:
  "wv_inv os (s\<lparr>initialized := b\<rparr>) = wv_inv os s" "wv_inv os (s\<lparr>p_create := b\<rparr>) = wv_inv os s" "wv_inv os (s\<lparr>g_wv_class_registered := b\<rparr>) = wv_inv os s"
  "opened (s\<lparr>initialized := b\<rparr>) = opened s" "opened (s\<lparr>p_create := b\<rparr>) = opened s" "opened (s\<lparr>g_wv_class_registered := b\<rparr>) = opened s"
  by (simp_all add: wv_inv_def opened_def held_def)

lemma init_handlers_ok:
  assumes "os_ok os" "wv_inv os s"
  shows "\<exists>t. lpp_init_handlers os s = Inr t \<and> wv_inv os t \<and> windows t = windows s"
proof -
  have "length (take (Suc i) (module_file os) @ ''WebView2Loader.dll'') < 260" for i using assms(1) by (simp add: os_ok_def min_less_iff_disj)
  then have "\<exists>l. loader_places os = Inr l" by (simp add: loader_places_def strcpy_to_def split: option.splits)
  then obtain l where l: "loader_places os = Inr l" by blast
  show ?thesis using assms(2) l
    by (cases "find (load_library os) (l # loader_fallbacks)") (auto simp: lpp_init_handlers_def Let_def simp del: bind_res_Inr_iff find.simps)
qed

lemma inv_open:
  assumes "wv_inv os s" "i < 8" "\<not> is_open (wv s i)" "h \<noteq> 0" "h \<notin> windows s"
  shows "wv_inv os (upd i (\<lambda>_. zero_webview\<lparr>hwnd := h, is_open := True, width := x, height := y\<rparr>) (s\<lparr>windows := insert h (windows s)\<rparr>))" (is "wv_inv os ?t")
proof -
  let ?w = "zero_webview\<lparr>hwnd := h, is_open := True, width := x, height := y\<rparr>"
  have l: "length (g_webviews s) = 8" using assms(1) by simp
  have v: "wv ?t j = (if j = i then ?w else wv s j)" for j using l assms(2) by (simp add: upd_def nth_list_update)
  have w: "slot_ok os i ?w" "objs ?w = {#}" using assms(4) by (simp_all add: slot_ok_def zero_webview_def objs_def obj_def)
  have o: "opened ?t = insert i (opened s)" unfolding opened_def v using assms(2) by auto
  have i: "i \<notin> opened s" using assms(3) by (simp add: opened_def)
  have "objs (wv s i) = {#}" using inv_slot [OF assms(1,2)] assms(3) by (simp add: slot_ok_def)
  then have "held (upd i (\<lambda>_. ?w) s) = held s" using held_upd [of i s "\<lambda>_. ?w"] w(2) l assms(2) by simp
  then have h: "held ?t = held s" by (simp add: held_def upd_def)
  have s: "slot_ok os j (wv ?t j)" if "j < 8" for j unfolding v using that inv_slot [OF assms(1)] w(1) by auto
  have e: "(\<lambda>j. f (wv ?t j)) ` insert i (opened s) = insert (f ?w) ((\<lambda>j. f (wv s j)) ` opened s)" for f :: "webview \<Rightarrow> 'b"
    unfolding v image_insert using i by (intro arg_cong2 [where f = insert] image_cong) auto
  have "inj_on (\<lambda>j. hwnd (wv ?t j)) (insert i (opened s))"
    unfolding v using i assms(1,5) by (auto simp: wv_inv_def inj_on_def)
  then show ?thesis using assms(1) s l unfolding wv_inv_def o e h by (auto simp: upd_def)
qed


lemma user_data_dir_ok: "os_ok os \<Longrightarrow> i < 8 \<Longrightarrow> \<exists>d. user_data_dir os i = Inr d \<and> length d < 260"
  using length_print_base [of 10 i 0] by (auto simp: user_data_dir_def strcpy_to_def os_ok_def split: option.splits)

lemma create_start_ok:
  assumes "os_ok os" "wv_inv os s" "h = 0 \<or> h \<notin> windows s" "t \<noteq> []" "length t < 512"
  shows "\<exists>u k b. create_start os h (Some t) w ht s = Inr (u, k, b) \<and> wv_inv os u"
proof -
  obtain s1 where s1: "lpp_init_handlers os s = Inr s1" "wv_inv os s1" "windows s1 = windows s" using init_handlers_ok [OF assms(1,2)] by blast
  show ?thesis
  proof (cases "first_slot (\<lambda>v. \<not> is_open v) (g_webviews s1) 0")
    case None
    then show ?thesis using s1 by (auto simp: create_start_def)
  next
    case (Some i)
    then have i: "i < 8" "\<not> is_open (wv s1 i)" using first_slot_Some [OF Some] s1(2) by auto
    obtain wt where wt: "window_title os (Some t) = Inr wt" using widen_to_ok [OF assms(1,5)] assms(4) by (cases t) (auto simp: window_title_def)
    define s2 where "s2 = (if g_wv_class_registered s1 then s1 else (log_calls [RegisterClass] s1)\<lparr>g_wv_class_registered := True\<rparr>)"
    define s3 where "s3 = log_calls [CreateWindow wt (or_default w 1360) (or_default ht 820)] s2"
    have s3: "wv_inv os s3" "windows s3 = windows s" "\<not> is_open (wv s3 i)" using s1 i by (simp_all add: s3_def s2_def)
    show ?thesis
    proof (cases "h = 0")
      case True
      then show ?thesis using s1(1) Some wt s3(1) by (auto simp: create_start_def Let_def s2_def s3_def)
    next
      case False
      define cs where "cs = (if load_library os ''dwmapi.dll'' \<and> has_proc os ''dwmapi.dll'' ''DwmSetWindowAttribute'' then [DarkMode h] else []) @ [ShowWin h]"
      define s4 where "s4 = upd i (\<lambda>_. zero_webview\<lparr>hwnd := h, is_open := True, width := or_default w 1360, height := or_default ht 820\<rparr>) (s3\<lparr>windows := insert h (windows s3)\<rparr>)"
      have s4: "wv_inv os s4" unfolding s4_def using False assms(3) s3 i(1) by (intro inv_open) auto
      obtain d wd where d: "user_data_dir os i = Inr d" "widen_to os 260 d = Inr wd" using user_data_dir_ok [OF assms(1) i(1)] widen_to_ok [OF assms(1)] by blast
      have "\<exists>R. refs s4 = R + objs (wv s4 i) \<and> held s4 = R + objs (wv s4 i)" using inv_split [OF s4 i(1)] .
      then have "wv_inv os ((upd i (\<lambda>v. v\<lparr>env_vtbl := True, env_slot := i\<rparr>) s4)\<lparr>refs := refs s4\<rparr>)"
        using inv_slot [OF s4 i(1)] by (elim exE conjE, intro inv_upd_objs [OF s4 i(1)]) (simp_all add: slot_ok_def objs_def)
      then have s5: "wv_inv os (upd i (\<lambda>v. v\<lparr>env_vtbl := True, env_slot := i\<rparr>) s4)" by (simp add: upd_def)
      show ?thesis using s1(1) Some wt False d s4 s5
        unfolding create_start_def Let_def by (auto simp: s2_def [symmetric] s3_def [symmetric] cs_def [symmetric] s4_def [symmetric])
    qed
  qed
qed

lemma valid_slot: "valid_win i s \<Longrightarrow> unat i < 8" "valid_win i s \<Longrightarrow> unat i \<in> opened s"
  unfolding valid_win_def opened_def using unat_eq_sint_64 [of i] by auto

lemma set_html_ok:
  assumes "os_ok os" "wv_inv os s"
  shows "\<exists>u. lpp_webview_set_html os i html s = Inr u \<and> wv_inv os u"
proof (cases "html = None \<or> \<not> valid_win i s")
  case True
  then show ?thesis using assms(2) by (auto simp: lpp_webview_set_html_def split: option.splits)
next
  case False
  then obtain t where t: "html = Some t" and v: "valid_win i s" by auto
  define k where "k = unat i"
  have k: "k < 8" "k \<in> opened s" "is_open (wv s k)" using valid_slot [OF v] by (simp_all add: k_def opened_def)
  obtain R where R: "refs s = R + objs (wv s k)" "held s = R + objs (wv s k)" using inv_split [OF assms(2) k(1)] by blast
  have "\<exists>cs b. (if core (wv s k) \<noteq> 0 then navigate_html os (core (wv s k)) t s else Inr (s, False)) = Inr (log_calls cs s, b)"
  proof (cases "core (wv s k) = 0")
    case True
    then show ?thesis by (intro exI [of _ "[]"] exI [of _ False]) simp
  next
    case False
    then have "core (wv s k) \<in># refs s" using R(1) by (simp add: objs_def obj_def)
    then show ?thesis using navigate_html_ok [of "core (wv s k)" s os t] False by auto
  qed
  then obtain cs b where n: "(if core (wv s k) \<noteq> 0 then navigate_html os (core (wv s k)) t s else Inr (s, False)) = Inr (log_calls cs s, b)" by blast
  have p: "strcpy_to 260 (temp_path os @ ''lpp_app_'' @ print_base 10 k @ ''.html'') = Inr (tpath os k)" "tpath os k \<noteq> []"
    using assms(1) k(1) by (auto simp: strcpy_to_def os_ok_def tpath_def)
  let ?f = "\<lambda>w. w\<lparr>temp_html_path := tpath os k\<rparr>"
  have u: "wv_inv os ((upd k ?f s)\<lparr>refs := R + objs (?f (wv s k)), temp_files := F\<rparr>)" if "F = temp_files s \<or> F = insert (tpath os k) (temp_files s)" for F
  proof (intro inv_upd)
    have old: "temp_html_path (wv s k) \<in> {[], tpath os k}" "[] \<notin> temp_files s" using inv_slot [OF assms(2) k(1)] assms(2) by (simp_all add: slot_ok_def wv_inv_def)
    then show "temp_html_path (?f (wv s k)) = temp_html_path (wv s k) \<or> temp_html_path (wv s k) \<notin> F" "[] \<notin> F" using that p(2) by auto
    show "slot_ok os k (?f (wv s k))" using inv_slot [OF assms(2) k(1)] by (simp add: slot_ok_def objs_def)
  qed (use assms(2) k R(2) that in auto)
  have e: "R + objs (?f (wv s k)) = refs s" using R(1) by (simp add: objs_def)
  have "wv_inv os (upd k ?f s)" "wv_inv os ((upd k ?f s)\<lparr>temp_files := insert (tpath os k) (temp_files s)\<rparr>)"
    using u [of "temp_files s", unfolded e] u [of "insert (tpath os k) (temp_files s)", unfolded e] by (simp_all add: upd_def)
  moreover have "(log_calls ds x)\<lparr>temp_files := F\<rparr> = log_calls ds (x\<lparr>temp_files := F\<rparr>)" for ds x F by (simp add: log_calls_def)
  moreover have "lpp_webview_set_html os i html s = (if b then Inr (log_calls cs s) else let s = upd k ?f (log_calls cs s)
      in Inr (if can_create os (tpath os k) then (log_calls [WriteTo (tpath os k) t] s)\<lparr>temp_files := insert (tpath os k) (temp_files s)\<rparr> else s))"
    unfolding lpp_webview_set_html_def t option.case k_def [symmetric] n bind_res.simps prod.case p(1) using v by (simp add: Let_def)
  ultimately show ?thesis using assms(2) by (simp add: Let_def)
qed

lemma navigate_ok:
  assumes "os_ok os" "wv_inv os s" "\<forall>u. url = Some u \<longrightarrow> url_ok os u"
  shows "\<exists>u. lpp_webview_navigate os i url s = Inr u \<and> wv_inv os u"
proof (cases "url = None \<or> \<not> valid_win i s")
  case True
  then show ?thesis using assms(2) by (auto simp: lpp_webview_navigate_def split: option.splits)
next
  case False
  then obtain a where a: "url = Some a" "url_ok os a" and v: "valid_win i s" using assms(3) by auto
  define k where "k = unat i"
  have k: "k < 8" using valid_slot(1) [OF v] by (simp add: k_def)
  obtain R where R: "refs s = R + objs (wv s k)" "held s = R + objs (wv s k)" using inv_split [OF assms(2) k] by blast
  let ?f = "\<lambda>w. w\<lparr>current_url := a\<rparr>"
  have "wv_inv os ((upd k ?f s)\<lparr>refs := refs s\<rparr>)"
    using a(2) R inv_slot [OF assms(2) k] by (intro inv_upd_objs [OF assms(2) k]) (auto simp: slot_ok_def objs_def)
  then have u: "wv_inv os (upd k ?f s)" by (simp add: upd_def)
  have c: "core (wv (upd k ?f s) k) = core (wv s k)" using assms(2) k by simp
  have "\<exists>cs. lpp_load_content_into_core os (core (wv s k)) (Some a) (upd k ?f s) = Inr (log_calls cs (upd k ?f s))" if "core (wv s k) \<noteq> 0"
    using that R(1) a(2) by (intro load_content_ok [OF assms(1)]) (simp_all add: objs_def obj_def)
  moreover have "strcpy_to 1024 a = Inr a" using a(2) by (simp add: url_ok_def strcpy_to_def)
  ultimately show ?thesis using a(1) v u c by (auto simp: lpp_webview_navigate_def k_def [symmetric] Let_def simp del: bind_res_Inr_iff)
qed

lemma first_slot_hwnd: "map hwnd ws = map hwnd vs \<Longrightarrow> first_slot (\<lambda>w. hwnd w = h) ws k = first_slot (\<lambda>w. hwnd w = h) vs k"
  by (induction ws vs arbitrary: k rule: list_induct2') auto

lemma map_hwnd_upd: "k < length (g_webviews s) \<Longrightarrow> hwnd (f (wv s k)) = hwnd (wv s k) \<Longrightarrow> map hwnd (g_webviews (upd k f s)) = map hwnd (g_webviews s)"
  by (simp add: upd_def map_update list_update_same_conv)

lemma terminate_eq:
  assumes "wv_inv os s" "valid_win i s"
  shows "\<exists>cs R. lpp_webview_terminate i s = Inr (log_calls (cs @ [PostQuit]) (close_slot (unat i) R s)) \<and> held s = R + objs (wv s (unat i))"
proof -
  define k where "k = unat i"
  have k: "k < 8" "k < length (g_webviews s)" "k \<in> opened s" using valid_slot [OF assms(2)] assms(1) by (simp_all add: k_def)
  obtain R where R: "refs s = R + objs (wv s k)" "held s = R + objs (wv s k)" using inv_split [OF assms(1) k(1)] by blast
  let ?g = "\<lambda>w. w\<lparr>is_open := False, controller := 0, core := 0, env := 0\<rparr>"
  define t where "t = (upd k ?g s)\<lparr>refs := R\<rparr>"
  have "refs (upd k (\<lambda>w. w\<lparr>is_open := False\<rparr>) s) = R + objs (wv (upd k (\<lambda>w. w\<lparr>is_open := False\<rparr>) s) k)" using R(1) k(2) by (simp add: objs_def)
  from drop_objects_eq [OF _ this] k(2) obtain cs where
    d: "drop_objects k (upd k (\<lambda>w. w\<lparr>is_open := False\<rparr>) s) = Inr (log_calls cs t)" by (auto simp: t_def)
  have h: "hwnd (wv t k) = hwnd (wv s k)" "hwnd (wv s k) \<noteq> 0" "hwnd (wv s k) \<in> windows t"
    using k assms(1) inv_slot [OF assms(1) k(1)] by (auto simp: t_def slot_ok_def opened_def wv_inv_def)
  have "first_slot (\<lambda>w. hwnd w = hwnd (wv s k)) (g_webviews t) 0 = Some k"
    using first_slot_hwnd [OF map_hwnd_upd [OF k(2), of ?g]] first_hwnd [OF assms(1) k(3)] by (simp add: t_def)
  moreover define u where "u = upd k (\<lambda>w. w\<lparr>is_open := False, hwnd := 0\<rparr>) ((log_calls cs t)\<lparr>windows := windows s - {hwnd (wv s k)}\<rparr>)"
  moreover have "refs u = R + objs (wv u k)" "k < length (g_webviews u)" using k(2) by (simp_all add: u_def t_def upd_def objs_def obj_def)
  then obtain ds where "drop_objects k u = Inr (log_calls ds ((upd k (\<lambda>w. w\<lparr>controller := 0, core := 0, env := 0\<rparr>) u)\<lparr>refs := R\<rparr>))" using drop_objects_eq by blast
  moreover have "temp_html_path (wv s k) = [] \<Longrightarrow> temp_files s - {temp_html_path (wv s k)} = temp_files s" using assms(1) by (auto simp: wv_inv_def)
  moreover have "windows t = windows s" by (simp add: t_def)
  ultimately have "DestroyWindow (hwnd (wv s k)) (log_calls cs t) = Inr (log_calls (cs @ ds @ [PostQuit]) (close_slot k R s))"
    using h(3) k(2) unfolding DestroyWindow_def wv_wm_destroy_def
    by (auto simp: t_def close_slot_def closed_slot_def upd_def log_calls_def simp del: bind_res_Inr_iff)
  moreover have "upd k (\<lambda>w. w\<lparr>hwnd := 0\<rparr>) (log_calls es (close_slot k R s)) = log_calls es (close_slot k R s)" for es
    using k(2) by (intro upd_same) (simp_all add: close_slot_def closed_slot_def)
  ultimately have "lpp_webview_terminate i s = Inr (log_calls (cs @ ds @ [PostQuit]) (close_slot k R s))"
    using d h assms(2) unfolding lpp_webview_terminate_def by (simp add: k_def [symmetric] Let_def del: bind_res_Inr_iff)
  then show ?thesis using R(2) by (intro exI [of _ "cs @ ds"] exI [of _ R]) (simp add: k_def)
qed


datatype wv_op = OpCreate u64 cstr i64 i64 "wv_event list" | OpSetHtml i64 cstr | OpNavigate i64 cstr | OpRun i64 "wv_event list" | OpTerminate i64

text \<open>One call of a program; None when it does not return.\<close>

fun wv_exec :: "wv_os \<Rightarrow> wv_op \<Rightarrow> wv_state \<Rightarrow> wv_state option res" where
  "wv_exec os (OpCreate h title w ht evs) s = bind_res (lpp_webview_window_create os h title w ht evs s) (\<lambda>r. Inr (map_option fst r))"
| "wv_exec os (OpSetHtml i html) s = bind_res (lpp_webview_set_html os i html s) (\<lambda>s. Inr (Some s))"
| "wv_exec os (OpNavigate i url) s = bind_res (lpp_webview_navigate os i url s) (\<lambda>s. Inr (Some s))"
| "wv_exec os (OpRun i evs) s = bind_res (lpp_webview_run os i evs s) (\<lambda>r. Inr (map_option fst r))"
| "wv_exec os (OpTerminate i) s = bind_res (lpp_webview_destroy i s) (\<lambda>s. Inr (Some s))"

text \<open>The calls considered: a new window has a new handle and a title of less than 512 characters, addresses fit, and while messages are pumped completions are timely.\<close>

fun wv_admits :: "wv_os \<Rightarrow> wv_op \<Rightarrow> wv_state \<Rightarrow> bool" where
  "wv_admits os (OpCreate h title w ht evs) s = ((h = 0 \<or> h \<notin> windows s) \<and> (case title of None \<Rightarrow> False | Some t \<Rightarrow> t \<noteq> [] \<and> length t < 512) \<and>
     (case create_start os h title w ht s of Inl f \<Rightarrow> True | Inr (u, k, waits) \<Rightarrow> waits \<longrightarrow> timely_pump os (\<lambda>s. \<not> is_ready (wv s (nat k))) evs u))"
| "wv_admits os (OpSetHtml i html) s = True"
| "wv_admits os (OpNavigate i url) s = (case url of None \<Rightarrow> True | Some u \<Rightarrow> url_ok os u)"
| "wv_admits os (OpRun i evs) s = (valid_win i s \<longrightarrow> timely_pump os (\<lambda>s. is_open (wv s (unat i))) evs s)"
| "wv_admits os (OpTerminate i) s = True"

inductive wv_reach :: "wv_os \<Rightarrow> wv_state \<Rightarrow> bool" for os where
  wr_start: "wv_reach os wv_start"
| wr_step: "wv_reach os s \<Longrightarrow> wv_admits os op s \<Longrightarrow> wv_exec os op s = Inr (Some t) \<Longrightarrow> wv_reach os t"

lemma wv_create_ok:
  assumes "os_ok os" "wv_inv os s" "wv_admits os (OpCreate h title w ht evs) s"
  shows "\<exists>r. wv_exec os (OpCreate h title w ht evs) s = Inr r \<and> (\<forall>t. r = Some t \<longrightarrow> wv_inv os t)"
proof -
  obtain t where t: "title = Some t" "t \<noteq> []" "length t < 512" "h = 0 \<or> h \<notin> windows s" using assms(3) by (auto split: option.splits)
  obtain u k b where c: "create_start os h title w ht s = Inr (u, k, b)" "wv_inv os u" using create_start_ok [OF assms(1,2) t(4,2,3), of w ht] t(1) by auto
  show ?thesis
  proof (cases b)
    case True
    then have "timely_pump os (\<lambda>s. \<not> is_ready (wv s (nat k))) evs u" using assms(3) c(1) by simp
    from pump_ok [OF assms(1) c(2) this] obtain r where
      r: "pump os (\<lambda>s. \<not> is_ready (wv s (nat k))) evs u = Inr r" "\<forall>t es. r = Some (t, es) \<longrightarrow> wv_inv os t" by blast
    then show ?thesis using True c(1) by (cases r) (auto simp: lpp_webview_window_create_def simp del: bind_res_Inr_iff)
  next
    case False
    then show ?thesis using c by (auto simp: lpp_webview_window_create_def simp del: bind_res_Inr_iff)
  qed
qed

lemma wv_run_ok:
  assumes "os_ok os" "wv_inv os s" "wv_admits os (OpRun i evs) s"
  shows "\<exists>r. wv_exec os (OpRun i evs) s = Inr r \<and> (\<forall>t. r = Some t \<longrightarrow> wv_inv os t)"
proof (cases "valid_win i s")
  case True
  then have "timely_pump os (\<lambda>s. is_open (wv s (unat i))) evs s" using assms(3) by simp
  from pump_ok [OF assms(1,2) this] show ?thesis using True by (auto simp: lpp_webview_run_def simp del: bind_res_Inr_iff)
next
  case False
  then show ?thesis using assms(2) by (auto simp: lpp_webview_run_def)
qed

lemma wv_exec_ok:
  assumes "os_ok os" "wv_inv os s" "wv_admits os op s"
  shows "\<exists>r. wv_exec os op s = Inr r \<and> (\<forall>t. r = Some t \<longrightarrow> wv_inv os t)"
proof (cases op)
  case (OpCreate h title w ht evs)
  then show ?thesis using wv_create_ok [OF assms(1,2)] assms(3) by blast
next
  case (OpSetHtml i html)
  then show ?thesis using set_html_ok [OF assms(1,2), of i html] by auto
next
  case (OpNavigate i url)
  then show ?thesis using navigate_ok [OF assms(1,2), of url i] assms(3) by (auto split: option.splits)
next
  case (OpRun i evs)
  then show ?thesis using wv_run_ok [OF assms(1,2)] assms(3) by blast
next
  case (OpTerminate i)
  show ?thesis
  proof (cases "valid_win i s")
    case True
    from terminate_eq [OF assms(2) this] show ?thesis
      using OpTerminate close_slot_inv [OF assms(2) valid_slot(2) [OF True]] by (auto simp: lpp_webview_destroy_def)
  next
    case False
    then show ?thesis using OpTerminate assms(2) by (simp add: lpp_webview_destroy_def lpp_webview_terminate_def)
  qed
qed

lemma wv_start_inv: "wv_inv os wv_start"
proof -
  have "opened wv_start = {}" by (auto simp: opened_def wv_start_def zero_webview_def)
  moreover have "held wv_start = {#}" by (simp add: held_def wv_start_def numeral_eq_Suc objs_def obj_def zero_webview_def)
  ultimately show ?thesis unfolding wv_inv_def by (auto simp: wv_start_def zero_webview_def objs_def obj_def slot_ok_def)
qed

lemma wv_reach_inv: "wv_reach os s \<Longrightarrow> os_ok os \<Longrightarrow> wv_inv os s"
proof (induction rule: wv_reach.induct)
  case wr_start
  then show ?case by (simp add: wv_start_inv)
next
  case (wr_step s op t)
  then show ?case using wv_exec_ok [of os s op] by auto
qed

section \<open>Properties\<close>

lemma wv_nothing_left:
  assumes "wv_inv os s" "\<forall>i < 8. \<not> is_open (wv s i)"
  shows "refs s = {#} \<and> windows s = {} \<and> temp_files s = {}"
proof -
  have o: "opened s = {}" using assms(2) by (auto simp: opened_def)
  have "objs (wv s i) = {#}" if "i < length (g_webviews s)" for i using inv_slot [OF assms(1), of i] that assms by (simp add: slot_ok_def)
  then have "\<forall>w \<in> set (g_webviews s). objs w = {#}" by (auto simp: in_set_conv_nth)
  then have "held s = {#}" unfolding held_def by (metis map_eq_conv sum_list_0)
  then show ?thesis using assms(1) o by (simp add: wv_inv_def)
qed

lemma distinct_filtered:
  "(\<And>i j. i < length ws \<Longrightarrow> j < length ws \<Longrightarrow> P (ws ! i) \<Longrightarrow> P (ws ! j) \<Longrightarrow> f (ws ! i) = f (ws ! j) \<Longrightarrow> i = j) \<Longrightarrow> distinct (map f (filter P ws))"
proof (induction ws)
  case (Cons w ws)
  have "distinct (map f (filter P ws))" using Cons(2) [of "Suc _" "Suc _"] by (intro Cons(1)) simp
  moreover have "f w \<noteq> f v" if v: "P w" "v \<in> set ws" "P v" for v
  proof -
    obtain j where "j < length ws" "v = ws ! j" using v(2) by (auto simp: in_set_conv_nth)
    then show ?thesis using Cons(2) [of 0 "Suc j"] v by auto
  qed
  ultimately show ?case by auto
qed simp

text \<open>C33: The life of browser windows. As long as a completion of WebView2 arrives while its window is open, and titles, addresses and folders fit the fixed blocks, no call faults: the runtime calls and
  releases only objects it owns. In every state a program can reach it owns exactly the references stored in the slots of open windows, the windows that exist are exactly those of open slots, each in one slot, and
  every temporary page belongs to an open window. When the last window is closed, by the user or by \<open>lpp_webview_destroy\<close>, nothing is left.\<close>

theorem lpp_webview_no_leak:
  assumes "os_ok os" "wv_reach os s"
  shows "(\<forall>op. wv_admits os op s \<longrightarrow> is_ok (wv_exec os op s)) \<and>
    refs s = (\<Sum>w \<leftarrow> filter is_open (g_webviews s). objs w) \<and>
    windows s = hwnd ` set (filter is_open (g_webviews s)) \<and> distinct (map hwnd (filter is_open (g_webviews s))) \<and>
    temp_files s \<subseteq> temp_html_path ` set (filter is_open (g_webviews s)) \<and>
    ((\<forall>w \<in> set (g_webviews s). \<not> is_open w) \<longrightarrow> refs s = {#} \<and> windows s = {} \<and> temp_files s = {})"
proof -
  have inv: "wv_inv os s" using wv_reach_inv [OF assms(2,1)] .
  then have l: "length (g_webviews s) = 8" by simp
  have all: "\<forall>w \<in> set (g_webviews s). is_open w \<or> objs w = {#}" 
  proof
    fix w assume "w \<in> set (g_webviews s)"
    then obtain i where "i < 8" "w = wv s i" using l by (auto simp: in_set_conv_nth)
    then show "is_open w \<or> objs w = {#}" using inv_slot [OF inv, of i] by (auto simp: slot_ok_def)
  qed
  have im: "f ` set (filter is_open (g_webviews s)) = (\<lambda>i. f (wv s i)) ` opened s" for f :: "webview \<Rightarrow> 'b"
    using l by (auto simp: opened_def in_set_conv_nth image_iff)
  have sm: "(\<Sum>w \<leftarrow> ws. objs w) = (\<Sum>w \<leftarrow> filter is_open ws. objs w)" if "\<forall>w \<in> set ws. is_open w \<or> objs w = {#}" for ws
    using that by (induction ws) auto
  have h: "held s = (\<Sum>w \<leftarrow> filter is_open (g_webviews s). objs w)" unfolding held_def by (rule sm [OF all])
  have inj: "inj_on (\<lambda>i. hwnd (wv s i)) (opened s)" using inv by (simp add: wv_inv_def)
  have d: "distinct (map hwnd (filter is_open (g_webviews s)))"
  proof (rule distinct_filtered)
    fix i j assume "i < length (g_webviews s)" "j < length (g_webviews s)" "is_open (wv s i)" "is_open (wv s j)" "hwnd (wv s i) = hwnd (wv s j)"
    then show "i = j" using inj l by (auto simp: opened_def dest: inj_onD)
  qed
  have i: "refs s = held s" "windows s = (\<lambda>i. hwnd (wv s i)) ` opened s" "temp_files s \<subseteq> (\<lambda>i. temp_html_path (wv s i)) ` opened s"
    using inv by (simp_all add: wv_inv_def)
  show ?thesis
  proof (intro conjI allI impI)
    show "is_ok (wv_exec os op s)" if "wv_admits os op s" for op using wv_exec_ok [OF assms(1) inv that] by (auto simp: is_ok_iff)
    show "temp_files s \<subseteq> temp_html_path ` set (filter is_open (g_webviews s))" using i(3) unfolding im .
    show "windows s = hwnd ` set (filter is_open (g_webviews s))" using i(2) unfolding im .
    assume "\<forall>w \<in> set (g_webviews s). \<not> is_open w"
    then have "\<forall>i < 8. \<not> is_open (wv s i)" using l by simp
    then show "refs s = {#}" "windows s = {}" "temp_files s = {}" using wv_nothing_left [OF inv] by simp_all
  qed (use h d i(1) in simp_all)
qed

definition wv_os0 :: wv_os where
  "wv_os0 = \<lparr>module_file = ''C:app.exe'', has_attributes = (\<lambda>_. False), full_path = (\<lambda>_. None), file_read = (\<lambda>_. None), widen = (\<lambda>s. Some (map of_char s)), heap_fails = (\<lambda>_. False),
     load_library = (\<lambda>_. True), has_proc = (\<lambda>_ _. True), local_app_data = None, temp_path = ''T'', can_create = (\<lambda>_. True)\<rparr>"

lemma wv_os0_ok: "os_ok wv_os0"
proof -
  have "length (print_base 10 i) < n" if "i < 8" "2 \<le> n" for i n using length_print_base [of 10 i 0] that by simp
  then show ?thesis by (simp add: os_ok_def wv_os0_def url_ok_def tpath_def)
qed

theorem lpp_webview_no_leak_witness:
  "\<exists>s. wv_exec wv_os0 (OpCreate 5 (Some ''x'') 0 0 [EnvDone 0 False 7, CtrlDone 0 False 8 9 0 (0, 0, 0, 0)]) wv_start = Inr (Some s) \<and> is_open (wv s 0) \<and> windows s = hwnd ` set (filter is_open (g_webviews s)) \<and>
     refs s = (\<Sum>w \<leftarrow> filter is_open (g_webviews s). objs w)"
proof -
  let ?op = "OpCreate 5 (Some ''x'') 0 0 [EnvDone 0 False 7, CtrlDone 0 False 8 9 0 (0, 0, 0, 0)]"
  have a: "wv_admits wv_os0 ?op wv_start" by code_simp
  have "case wv_exec wv_os0 ?op wv_start of Inr (Some s) \<Rightarrow> is_open (wv s 0) | _ \<Rightarrow> False" by code_simp
  then obtain s where s: "wv_exec wv_os0 ?op wv_start = Inr (Some s)" "is_open (wv s 0)" by (auto split: sum.splits option.splits)
  have "wv_reach wv_os0 s" using wr_step [OF wr_start a s(1)] .
  from lpp_webview_no_leak [OF wv_os0_ok this] s show ?thesis by blast
qed

lemma pump_returns:
  assumes "os_ok os"
  shows "wv_inv os s \<Longrightarrow> k < 8 \<Longrightarrow> is_open (wv s k) \<Longrightarrow> timely_pump os (\<lambda>s. is_open (wv s k)) evs s \<Longrightarrow>
    Quit \<in> set evs \<or> (\<exists>m. Message m \<in> set evs \<and> m_code m = WM_CLOSE \<and> m_hwnd m = hwnd (wv s k)) \<Longrightarrow>
    \<exists>t rest. pump os (\<lambda>s. is_open (wv s k)) evs s = Inr (Some (t, rest)) \<and> wv_inv os t \<and> (is_open (wv t k) \<longrightarrow> Quit \<in> set evs)"
proof (induction evs arbitrary: s)
  case (Cons e es)
  show ?case
  proof (cases "e = Quit")
    case True
    then show ?thesis using Cons(2,4) by (simp add: pump_Cons)
  next
    case False
    then have tm: "timely s e" using Cons(4,5) by (simp add: timely_pump_Cons)
    obtain t where t: "dispatch os e s = Inr t" "wv_inv os t" "same_windows s t"
      "\<forall>m. e = Message m \<and> m_code m = WM_CLOSE \<longrightarrow> (\<forall>i \<in> opened s. hwnd (wv s i) = m_hwnd m \<longrightarrow> i \<notin> opened t)"
      using dispatch_ok [OF assms Cons(2) tm] by blast
    have p: "pump os (\<lambda>s. is_open (wv s k)) (e # es) s = pump os (\<lambda>s. is_open (wv s k)) es t"
      using False t(1) Cons(4) by (simp add: pump_Cons del: dispatch.simps)
    show ?thesis
    proof (cases "is_open (wv t k)")
      case True
      have o: "k \<in> opened s" "k \<in> opened t" using Cons(3,4) True by (simp_all add: opened_def)
      then have h: "hwnd (wv t k) = hwnd (wv s k)" using t(3) by (simp add: same_windows_def)
      have "timely_pump os (\<lambda>s. is_open (wv s k)) es t" using Cons(4,5) False t(1) by (simp add: timely_pump_Cons)
      moreover have "Quit \<in> set es \<or> (\<exists>m. Message m \<in> set es \<and> m_code m = WM_CLOSE \<and> m_hwnd m = hwnd (wv t k))"
        using Cons(6) False t(4) o h by auto
      ultimately show ?thesis using Cons(1) [OF t(2) Cons(3) True] p by auto
    next
      case False
      then have "pump os (\<lambda>s. is_open (wv s k)) es t = Inr (Some (t, es))" by (simp add: pump.simps)
      then show ?thesis using p t(2) False by auto
    qed
  qed
qed simp

text \<open>C34: The main loop ends. When the events delivered to \<open>lpp_webview_run\<close> contain the closing of its window or \<open>WM_QUIT\<close>, it returns; it returns with its window still open only after \<open>WM_QUIT\<close>. Every window posts
  \<open>WM_QUIT\<close> when it is destroyed, so that closing one window also ends the loop of another.\<close>

theorem lpp_webview_run_returns:
  assumes "os_ok os" "wv_reach os s" "valid_win i s" "wv_admits os (OpRun i evs) s"
    and "Quit \<in> set evs \<or> (\<exists>m. Message m \<in> set evs \<and> m_code m = WM_CLOSE \<and> m_hwnd m = hwnd (wv s (unat i)))"
  shows "(\<exists>t rest. lpp_webview_run os i evs s = Inr (Some (t, rest)) \<and> (is_open (wv t (unat i)) \<longrightarrow> Quit \<in> set evs)) \<and>
    (\<forall>j t. j \<noteq> i \<and> valid_win j s \<and> lpp_webview_destroy j s = Inr t \<longrightarrow> last (wlog t) = PostQuit \<and> lpp_webview_run os i (Quit # evs) t = Inr (Some (t, evs)) \<and> is_open (wv t (unat i)))"
proof (intro conjI allI impI)
  have inv: "wv_inv os s" using wv_reach_inv [OF assms(2,1)] .
  have k: "unat i < 8" "is_open (wv s (unat i))" using valid_slot [OF assms(3)] by (simp_all add: opened_def)
  show "\<exists>t rest. lpp_webview_run os i evs s = Inr (Some (t, rest)) \<and> (is_open (wv t (unat i)) \<longrightarrow> Quit \<in> set evs)"
    using pump_returns [OF assms(1) inv k _ assms(5)] assms(3,4) by (auto simp: lpp_webview_run_def)
  fix j t assume j: "j \<noteq> i \<and> valid_win j s \<and> lpp_webview_destroy j s = Inr t"
  then obtain cs R where t: "t = log_calls (cs @ [PostQuit]) (close_slot (unat j) R s)" using terminate_eq [OF inv, of j] by (auto simp: lpp_webview_destroy_def)
  have ne: "unat j \<noteq> unat i" using j by (metis word_unat_eq_iff)
  show "last (wlog t) = PostQuit" by (simp add: t log_calls_def)
  show o: "is_open (wv t (unat i))" using k ne by (simp add: t close_slot_def)
  show "lpp_webview_run os i (Quit # evs) t = Inr (Some (t, evs))" using o assms(3) by (simp add: lpp_webview_run_def valid_win_def pump_Cons)
qed

theorem lpp_webview_run_returns_witness:
  "\<exists>s t rest. wv_exec wv_os0 (OpCreate 5 (Some ''x'') 0 0 [Quit]) wv_start = Inr (Some s) \<and>
     lpp_webview_run wv_os0 0 [Message \<lparr>m_hwnd = 5, m_code = WM_CLOSE, m_minimized = False, m_new_rect = None, m_client = (0, 0, 0, 0)\<rparr>] s = Inr (Some (t, rest)) \<and> \<not> is_open (wv t 0)"
proof -
  let ?op = "OpCreate 5 (Some ''x'') 0 0 [Quit]"
  let ?m = "\<lparr>m_hwnd = 5, m_code = WM_CLOSE, m_minimized = False, m_new_rect = None, m_client = (0, 0, 0, 0)\<rparr>"
  have a: "wv_admits wv_os0 ?op wv_start" by code_simp
  have "case wv_exec wv_os0 ?op wv_start of Inr (Some s) \<Rightarrow> valid_win 0 s \<and> hwnd (wv s 0) = 5 \<and> wv_admits wv_os0 (OpRun 0 [Message ?m]) s | _ \<Rightarrow> False" by code_simp
  then obtain s where s: "wv_exec wv_os0 ?op wv_start = Inr (Some s)" "valid_win 0 s" "hwnd (wv s 0) = 5" "wv_admits wv_os0 (OpRun 0 [Message ?m]) s"
    by (auto split: sum.splits option.splits)
  have "wv_reach wv_os0 s" using wr_step [OF wr_start a s(1)] .
  from lpp_webview_run_returns [OF wv_os0_ok this s(2,4)] s(3) obtain t rest where
    "lpp_webview_run wv_os0 0 [Message ?m] s = Inr (Some (t, rest))" "is_open (wv t 0) \<longrightarrow> Quit \<in> set [Message ?m]" by auto
  then show ?thesis using s(1) by auto
qed

text \<open>A completion that arrives when its window is closed: the handler stores the controller and the view in the free slot, which neither \<open>WM_DESTROY\<close> nor \<open>lpp_webview_destroy\<close> clears any more, and the next window
  in that slot overwrites them. The references are never released.\<close>

theorem lpp_webview_late_completion:
  assumes "os_ok os" "wv_inv os s" "unat i < 8" "\<not> is_open (wv s (unat i))" "ctrl_vtbl (wv s (unat i))" "c \<noteq> 0"
  shows "\<exists>t. dispatch os (CtrlDone (unat i) False c cr st r) s = Inr t \<and> lpp_webview_destroy i t = Inr t \<and>
    (\<forall>f. objs (f (wv t (unat i))) = {#} \<longrightarrow> refs (upd (unat i) f t) = held (upd (unat i) f t) + obj c + obj cr)"
proof -
  let ?k = "unat i"
  let ?g = "\<lambda>w. w\<lparr>controller := c, core := cr, is_ready := True\<rparr>"
  have sl: "slot_ok os ?k (wv s ?k)" using inv_slot [OF assms(2,3)] .
  then obtain cs where c: "Ctrl_Invoke os ?k False c cr st r s = Inr (log_calls cs ((upd ?k ?g s)\<lparr>refs := refs s + obj c + obj cr\<rparr>))" (is "_ = Inr ?t")
    using Ctrl_Invoke_eq [OF assms(1) inv_length [OF assms(2)] _ assms(3) sl assms(6), of ?k cr st r] assms(5) by (auto simp: slot_ok_def)
  have "refs (upd ?k f ?t) = held (upd ?k f ?t) + obj c + obj cr" if "objs (f (wv ?t ?k)) = {#}" for f
  proof -
    have "objs (wv s ?k) = {#}" using sl assms(4) by (simp add: slot_ok_def)
    moreover have "objs (f (?g (wv s ?k))) = {#}" using that assms(2,3) by simp
    ultimately have "held (upd ?k (\<lambda>w. f (?g w)) s) = held s" using held_upd [of ?k s "\<lambda>w. f (?g w)"] assms(2,3) by simp
    then show ?thesis using assms(2,3) by (simp add: wv_inv_def held_def)
  qed
  moreover have "\<not> valid_win i ?t" using assms(2,3,4) by (simp add: valid_win_def)
  ultimately show ?thesis using c assms(5) by (auto simp: lpp_webview_destroy_def lpp_webview_terminate_def)
qed

text \<open>The default title is copied byte by byte although it is a UTF-16 string: the copy ends with the zero byte of its first letter, and \<open>CreateWindowExW\<close> reads on in uninitialised memory.\<close>

theorem window_title_default: "title = None \<or> title = Some [] \<Longrightarrow> window_title os title = Inl (Fault ''read of uninitialised memory'')"
proof -
  have "byte_strcpy (wide_bytes default_title) = [0x4C, 0]" by code_simp
  moreover have "replicate 1022 None = None # replicate 1021 (None :: u8 option)" using replicate_Suc [of 1021 "None :: u8 option"] by simp
  ultimately show "title = None \<or> title = Some [] \<Longrightarrow> window_title os title = Inl (Fault ''read of uninitialised memory'')"
    by (auto simp: window_title_def Let_def)
qed

end
