(* ===== verification/Spec2Isabelle.thy ===== *)
theory Spec2Isabelle
  imports Lpp_Int Lpp_Buf Lpp_Map Lpp_Slice Lpp_Json Lpp_Concur Lpp_Clock Lpp_File Lpp_Owned Lpp_Net Lpp_Vec Lpp_Raylib Lpp_Min_List Lpp_Buf_Fs Lpp_Min_Sys Lpp_Min_Net
    Lpp_Min_Arc Lpp_Min_Map Lpp_Min_Sync Lpp_Raw Lpp_Dl Lpp_Console Lpp_Webview
begin

text \<open>
  \<^bold>\<open>Verification of the L++ runtime of SamarDB.\<close>

  SamarDB is written in L++, a language compiled ahead of time against a runtime in C. Everything the database does with memory, strings, containers, files
  and threads goes through that runtime, the files \<^verbatim>\<open>src/runtime/*.c\<close>; this development models its C code and proves what makes it correct. The runtime exists in three builds: the host
  runtime (\<^verbatim>\<open>lpp_runtime.c\<close> with the smaller \<^verbatim>\<open>lpp_*.c\<close>), which uses the C library, a freestanding one for Linux (\<^verbatim>\<open>linux_x86_64_min.c\<close>), which makes
  system calls itself, and one for Windows (\<^verbatim>\<open>windows_x86_64_min.c\<close>). A definition keeps the name of the C function it translates; the variant of the freestanding Linux runtime has the suffix \<open>_fs\<close>, that of the
  Windows runtime \<open>_min\<close>, a Windows branch of the host runtime \<open>_win\<close>, the portable branch beside a compiler intrinsic \<open>_portable\<close>. Loops are functions of their own, named after the function they belong to.

  \<^bold>\<open>Conventions.\<close> A 64-bit integer is a \<^typ>\<open>64 word\<close>, read with \<open>sint\<close> or as unsigned as the code does; indices and lengths whose range the code has checked are \<open>int\<close> or
  \<open>nat\<close>. A fallible function returns \<open>lpp_fault + 'a\<close>: \<open>Panic\<close> is \<open>lpp_panic\<close>, \<open>Exited\<close> the exit of the freestanding runtime, and \<open>Fault\<close> an access C leaves undefined, so that a theorem that a
  call is \<open>Inr\<close> says in particular that it stays inside its memory. NULL strings are \<open>None\<close>. Allocation failure is a parameter (\<open>oom\<close>, or an address that may be 0), and so is every answer of the operating system. Calls from
  a container into reference counting are recorded as the events \<open>Retain\<close> and \<open>Release\<close>.

  \<^bold>\<open>The parts.\<close>
  \<^item> \<open>Lpp_Prelude\<close>: the fixed-width types, faults and the error monad, C strings, lemmas on words and digits.
  \<^item> \<open>Lpp_Int\<close> (\<^verbatim>\<open>lpp_int.c\<close>): unsigned and checked arithmetic, rotations, bit counts, conversions. The portable overflow tests and bit loops agree with the intrinsics; printing and parsing are inverse.
  \<^item> \<open>Lpp_Buf\<close> (\<^verbatim>\<open>lpp_buf.c\<close>): blocks of bytes behind a size word. The locale \<open>buf_codec\<close> states what a pair of accessors promises and is interpreted for all six widths and byte orders: round
    trips, and that a store changes nothing else. The table-driven CRC-32 equals the bitwise one of the freestanding runtime and detects every change of a byte. The guards wrap near the largest offset.
  \<^item> \<open>Lpp_Sort\<close>, \<open>Lpp_List\<close>, \<open>Lpp_List_Fs\<close> (\<^verbatim>\<open>lpp_runtime.c\<close>, \<^verbatim>\<open>linux_x86_64_min.c\<close>): the introsort with its heap and insertion sorts, the growable lists. Sorting sorts and permutes; any sequence of list
    operations acts like the same sequence on a HOL list, owned references balance, and the freestanding list agrees with the host's.
  \<^item> \<open>Lpp_Map\<close> (\<^verbatim>\<open>lpp_map.c\<close>): the open-addressing hash map with tombstones. Any sequence of operations answers like a partial function, the probe loops end, owned references balance; the freestanding map likewise for
    its own key comparison.
  \<^item> \<open>Lpp_Arc\<close> (\<^verbatim>\<open>lpp_runtime.c\<close>): reference-counted objects with destructors, weak handles with generations, arenas, tuples and tasks. From every reachable heap releasing a held reference is safe and frees exactly with the last one; an
    acyclic heap without references is empty; a weak handle never resolves to another object, but reads freed memory when its object is gone.
  \<^item> \<open>Lpp_Arc_Fs\<close> (\<^verbatim>\<open>linux_x86_64_min.c\<close>): the size-class allocator and the reference counting on it. Blocks handed out are zeroed and never overlap.
  \<^item> \<open>Lpp_Owned\<close>: the events of a list carried out on the object heap, the basis of the property at the end of this theory.
  \<^item> \<open>Lpp_Str\<close> (\<^verbatim>\<open>lpp_str.c\<close>, \<^verbatim>\<open>linux_x86_64_min.c\<close>): string builtins. Replacement fills its counted block exactly, splitting and joining are inverse, the freestanding versions agree.
  \<^item> \<open>Lpp_Json\<close> (\<^verbatim>\<open>lpp_runtime.c\<close>): the parser is total, bounds the depth of its result, and reads printed objects back.
  \<^item> \<open>Lpp_Slice\<close> (\<^verbatim>\<open>lpp_runtime.c\<close>, \<^verbatim>\<open>linux_x86_64_min.c\<close>): views of lists and strings. The locale \<open>slice_source\<close> is what a view needs of a list and is interpreted for both lists; a view shows exactly its
    window and refuses a source that is gone.
  \<^item> \<open>Lpp_Atomic\<close> (\<^verbatim>\<open>lpp_atomic.c\<close>): atomic cells in every interleaving: counters lose nothing, a lock on the strong compare-and-swap excludes (locale \<open>try_lock\<close>), one on the weak does not.
  \<^item> \<open>Lpp_Concur\<close> (\<^verbatim>\<open>lpp_concur.c\<close>): mutexes (four interpretations of \<open>try_lock\<close>), reader-writer locks (\<open>rw_contract\<close>) and threads (\<open>thread_api\<close>), each for POSIX and Windows: exclusion as invariants of step
    relations, progress, and what a join returns.
  \<^item> \<open>Lpp_Clock\<close> (\<^verbatim>\<open>lpp_clock_rng.c\<close>): the seeded generator repeats nothing in \<open>2 ^ 64\<close> draws and stays in its range; virtual clocks.
  \<^item> \<open>Lpp_File\<close> (\<^verbatim>\<open>lpp_runtime.c\<close>, \<^verbatim>\<open>lpp_buf.c\<close>, \<^verbatim>\<open>linux_x86_64_min.c\<close>): files over an explicit file system of names, inodes and descriptors. Written data is read back; the freestanding write leaves old bytes
    behind; copying onto itself empties a file; positional I/O moves the size word and loses the last 8 bytes of a buffer.
  \<^item> \<open>Lpp_Net\<close> (\<^verbatim>\<open>lpp_runtime.c\<close>, \<^verbatim>\<open>linux_x86_64_min.c\<close>): sockets and the HTTP client over the answers of the system calls. The locale \<open>handle_table\<close> is what the clients need of the table of 256 descriptors; live
    handles are exclusive in every reachable state, the send loop sends everything a peer takes, a request carries its length and closes its handle.
  \<^item> \<open>Lpp_Sys\<close> (\<^verbatim>\<open>lpp_exec.c\<close>, \<^verbatim>\<open>lpp_dir.c\<close>, \<^verbatim>\<open>lpp_runtime.c\<close>, \<^verbatim>\<open>linux_x86_64_min.c\<close>): environment, commands, directories, paths, lines of input, strict parsing of integers. The freestanding overrides answer like
    the host's environment; the output of a command is returned whole.
  \<^item> \<open>Lpp_Vec\<close> (\<^verbatim>\<open>lpp_runtime.c\<close>): the vector checksum and 128-bit vectors: the mask of equal lanes has exactly the bits of the lanes that hold the byte.
  \<^item> \<open>Lpp_X11\<close>, \<open>Lpp_Win32\<close>, \<open>Lpp_Raylib\<close> (\<^verbatim>\<open>lpp_gui.c\<close>): windows, events and drawing on both systems and the raylib layer over either (locale \<open>raylib_backend\<close>, two interpretations). On X11 no resource leaks or is used
    after it is freed; on Windows closing a window leaks its graphics objects; the queue of typed characters is a bounded queue; the main loop of a program ends.

  \<^item> \<open>Lpp_Min_List\<close> (\<^verbatim>\<open>windows_x86_64_min.c\<close>): the lists of the Windows runtime. Its loops over the slots give the elements, values and indices of the host's
    calls; an insertion that finds no memory overwrites the last element, and appending a list to itself does not end while there is memory.
  \<^item> \<open>Lpp_Buf_Fs\<close> (\<^verbatim>\<open>windows_x86_64_min.c\<close>, \<^verbatim>\<open>linux_x86_64_min.c\<close>): the buffers of both freestanding runtimes, and the whole-file and positional I/O of the Windows one. The Windows
    accessors are the host's on every argument; the Linux ones have lost the bounds tests and leave the block where the host answers 0. Bytes written at an offset are read back from there.
  \<^item> \<open>Lpp_Min_Sys\<close> (\<^verbatim>\<open>windows_x86_64_min.c\<close>): text, environment, commands, directories, generators and clocks of the Windows runtime. Its text builtins agree with the host's, removing a directory
    deletes the whole tree and nothing else, as long as the paths fit its fixed pattern.
  \<^item> \<open>Lpp_Min_Net\<close> (\<^verbatim>\<open>windows_x86_64_min.c\<close>): the sockets of the Windows runtime. No failing path loses a socket; a complete send puts the host's bytes on the wire but answers 0 where the host answers their number.
  \<^item> \<open>Lpp_Min_Arc\<close>, \<open>Lpp_Min_Map\<close>, \<open>Lpp_Min_Sync\<close> (\<^verbatim>\<open>windows_x86_64_min.c\<close>): reference counting, maps, views, atomic cells, locks and threads of the Windows runtime. Its objects simulate the host's as long as references
    are NULL or addresses of objects; the locale of the map and those of locks and threads are interpreted for it; its weak handles and views do not notice that their object is gone.
  \<^item> \<open>Lpp_Raw\<close> (\<^verbatim>\<open>linux_x86_64_min.c\<close>, \<^verbatim>\<open>windows_x86_64_min.c\<close>, \<^verbatim>\<open>lpp_runtime.c\<close>): memory as a map from addresses to bytes, where an access to an unmapped one faults. \<open>memmove\<close> is right on all overlaps, a raw block reads
    back what was stored and freeing it restores memory; the accessors of the host ignore the offset.
  \<^item> \<open>Lpp_Dl\<close> (\<^verbatim>\<open>linux_x86_64_min.c\<close>): the loader of shared objects over the bytes of a file. It gives back what it took on every failing path and reads inside the file, unless the end of the table of sections wraps around; \<open>dlsym\<close>
    finds the first symbol with a name.
  \<^item> \<open>Lpp_Console\<close> (\<^verbatim>\<open>lpp_runtime.c\<close>, \<^verbatim>\<open>linux_x86_64_min.c\<close>, \<^verbatim>\<open>windows_x86_64_min.c\<close>): output as a list of chunks on two streams. All runtimes print the same text for strings, truth values and integers; a panic comes after the
    pending output; the freestanding printing of a fraction loses a carry; the processor figure of Windows lies between 0 and 100.
  \<^item> \<open>Lpp_Webview\<close> (\<^verbatim>\<open>lpp_webview.c\<close>): browser windows on Windows: eight slots with the references they hold to the objects of WebView2, whose completions are events of the message loop. In every reachable state the references,
    windows and temporary files are exactly those of open slots, as long as completions arrive while their window is open; the loop of a window returns.

  \<^bold>\<open>How the parts interact.\<close> Maps and lists own elements through reference counting: their theorems count the events they send to it, and \<open>Lpp_Arc\<close> shows that balanced events neither leak nor free early. Slices rest on the weak
  handles and on the lists; \<open>lpp_map_keys\<close>, \<open>lpp_str_split\<close> and the sort work on lists; files transfer buffers and strings.

  \<^bold>\<open>Fuel and bounds.\<close> Probe loops of the map carry fuel equal to the capacity, the number of slots a probe can visit; the theorems show that it is never used up. Releasing an object recurses into
  its children with fuel; the number of objects in the heap is enough, because every step frees an object. The JSON parser takes fuel linear in its input, shown to suffice, and the loops of the Windows
  \<open>lpp_str_replace\<close> one round more than the text has characters. The self-extension of a Windows list counts its iterations, because no number of them ends it. The message loop of a browser window runs over the events
  delivered to it and answers \<open>None\<close> when they run out, which is waiting for ever. All other loops are total functions with a termination
  proof.

  \<^bold>\<open>Not modelled.\<close> Fences and prefetching have no effect a model of this kind could show. The float builtins call the C library only, and so does the host's printing of a double; a float stored in a
  container is its 64 bits, a double passed to the raylib layer is what its conversion to an integer gives, and one the freestanding runtimes print is its sign, integer part and rounded fraction. The code a loaded object
  contains is not modelled, nor are the browser behind \<^verbatim>\<open>lpp_webview.c\<close> and the third-party \<^verbatim>\<open>webview.h\<close>, which no file of the runtime includes. The vectors of the
  Windows runtime are bodies that compiled code never calls, its JSON functions are stubs. libX11, GDI, WebView2, sockets and files are represented by
  their answers. The database itself is L++ code, outside this library. Weak memory effects of the relaxed orders are not modelled: each atomic call is one step of an interleaving.
\<close>

section \<open>Properties that span components\<close>

text \<open>C2: The life of an owning list on the object heap. From every heap a program can reach, take a new owning list and any sequence of operations on it that returns, where the caller holds the
  values it stores: every \<open>lpp_arc_retain\<close> and \<open>lpp_arc_release\<close> the list calls succeeds, the heap stays one a program can reach with the references of the caller, of the
  elements and of the values handed out, every element that is an object is alive, and destroying the list gives back exactly the references of its elements.\<close>

theorem lpp_list_life_on_heap:
  assumes "arc_reachable (st, R)" "enough_fuel n st" "lpp_list_new_arc oom = Inr l0" "big_oom oom" "list_all op_ok ops"
    and "run_ops oom junk ops l0 = Inr (l, evs, out)" "\<forall>op \<in> set ops. set_mset (arcs (op_vals op)) \<subseteq> set_mset R"
  shows "\<exists>st1 lp evs' st2. run_events n st evs = Inr st1 \<and> arc_reachable (st1, R + arcs (abs_list l) + arcs out) \<and>
    (\<forall>v \<in> set (abs_list l). arc_addr v \<longrightarrow> live st1 v) \<and>
    lpp_list_destroy (Some l) = Inr (lp, evs') \<and> run_events n st1 evs' = Inr st2 \<and> arc_reachable (st2, R + arcs out)"
proof -
  have l0: "list_ok l0" "retain_element l0" "abs_list l0 = []"
    using assms(3) by (auto simp: lpp_list_new_arc_def lpp_list_new_with_ownership_def list_ok_def abs_list_def INT64_MAX_def split: if_splits)
  have "arc_reachable (st, R + arcs (abs_list l0) + {#})" using assms(1) l0(3) by simp
  from run_ops_heap [OF l0(1) assms(4,5) l0(2) assms(6) this assms(2,7)] obtain st1 where s: "run_events n st evs = Inr st1"
    "arc_reachable (st1, R + arcs (abs_list l) + arcs out)" "enough_fuel n st1" "list_ok l" "retain_element l" by auto
  have "live st1 v" if "v \<in> set (abs_list l)" "arc_addr v" for v
    using held_elements_live [OF s(2) that] .
  moreover obtain lp evs' where d: "lpp_list_destroy (Some l) = Inr (lp, evs')" "retained evs' = {#}" "released evs' = arcs (abs_list l)"
    using destroy_events [OF s(4,5)] by blast
  moreover have "\<exists>st2. run_events n st1 evs' = Inr st2 \<and> arc_reachable (st2, R + arcs out)"
    using run_events_ok [OF s(2,3), of evs'] d(2,3) by auto
  ultimately show ?thesis using s(1,2) by blast
qed

theorem lpp_list_life_on_heap_witness:
  "\<exists>st1 l evs out. run_ops (\<lambda>n. n > INT64_MAX) 0 [Push 0x20000, Push 0x20000, Pop]
       \<lparr>ldata = [], llen = 0, lcap = 0, retain_element = True, drop_element = True\<rparr> = Inr (l, evs, out) \<and>
     run_events 2 one_obj evs = Inr st1 \<and> arc_reachable (st1, {#0x20000#} + arcs (abs_list l) + arcs out)"
proof -
  let ?l0 = "\<lparr>ldata = [], llen = 0, lcap = 0, retain_element = True, drop_element = True\<rparr>"
  let ?ops = "[Push 0x20000, Push 0x20000, Pop]"
  have n: "lpp_list_new_arc (\<lambda>n. n > INT64_MAX) = Inr ?l0"
    by (simp add: lpp_list_new_arc_def lpp_list_new_with_ownership_def INT64_MAX_def)
  have "is_ok (run_ops (\<lambda>n. n > INT64_MAX) 0 ?ops ?l0)" unfolding INT64_MAX_def by code_simp
  then obtain l evs out where r: "run_ops (\<lambda>n. n > INT64_MAX) 0 ?ops ?l0 = Inr (l, evs, out)" by (auto simp: is_ok_iff)
  have f: "enough_fuel 2 one_obj" using one_obj_fuel by (simp add: numeral_2_eq_2)
  have v: "\<forall>op \<in> set ?ops. set_mset (arcs (op_vals op)) \<subseteq> set_mset {#0x20000#}" by (simp add: is_arc_ptr_def)
  from lpp_list_life_on_heap [OF _ f n _ _ r v] one_obj_reachable r show ?thesis by (fastforce simp: big_oom_def)
qed

end
